(* ===== verification/Prelude.thy ===== *)
theory Prelude
  imports "HOL-Library.Word"
begin

text \<open>
  The prelude of the development: the machine types of the runtime (x86-64, so a
  \<^verbatim>\<open>uptr\<close> is a 64-bit word), the result type of code that may abort the process, and the
  generic facts on words, alignment and maps that the component theories share.
\<close>

unbundle bit_operations_syntax

section \<open>Machine types\<close>

type_synonym uptr = "64 word"
type_synonym u64 = "64 word"
type_synonym u32 = "32 word"
type_synonym u16 = "16 word"
type_synonym u8 = "8 word"

section \<open>Results\<close>

text \<open>
  A run of the code either returns or ends the process. \<open>CheckFailed\<close> is a failed
  \<^verbatim>\<open>CHECK\<close> macro (\<^verbatim>\<open>CheckFailed\<close> does not return), \<open>Died\<close> a call of \<^verbatim>\<open>Die()\<close> after
  a message, \<open>Reported\<close> an error report that ends the process, \<open>Segv\<close> an access through a
  pointer that does not point to accessible memory, and \<open>OutOfBounds\<close> the use of an array element that
  does not exist, which the code does not notice.
\<close>

datatype abort =
    CheckFailed string
  | Died string
  | Reported string
  | Segv uptr
  | OutOfBounds nat

type_synonym 'a res = "abort + 'a"

fun bindr :: "'a res \<Rightarrow> ('a \<Rightarrow> 'b res) \<Rightarrow> 'b res" where
  "bindr (Inl e) f = Inl e"
| "bindr (Inr x) f = f x"

definition check :: "bool \<Rightarrow> string \<Rightarrow> 'a res \<Rightarrow> 'a res" where
  "check b msg k = (if b then k else Inl (CheckFailed msg))"

named_theorems res_simps \<open>inversion of computations that return\<close>

lemma bindr_Inr [res_simps]: "bindr m f = Inr y \<longleftrightarrow> (\<exists>x. m = Inr x \<and> f x = Inr y)"
  by (cases m) auto

lemma bindr_Inr' [res_simps]: "Inr y = bindr m f \<longleftrightarrow> (\<exists>x. m = Inr x \<and> f x = Inr y)"
  by (cases m) auto

lemma bindr_Inl: "bindr m f = Inl e \<longleftrightarrow> m = Inl e \<or> (\<exists>x. m = Inr x \<and> f x = Inl e)"
  by (cases m) auto

lemma check_Inr [res_simps]: "check b msg k = Inr y \<longleftrightarrow> b \<and> k = Inr y"
  by (simp add: check_def)

lemma check_True [simp]: "check True msg k = k"
  by (simp add: check_def)

lemma check_False [simp]: "check False msg k = Inl (CheckFailed msg)"
  by (simp add: check_def)

lemma bindr_assoc: "bindr (bindr m f) g = bindr m (\<lambda>x. bindr (f x) g)"
  by (cases m) auto

lemma bindr_cong [fundef_cong]:
  "m = m' \<Longrightarrow> (\<And>x. m' = Inr x \<Longrightarrow> f x = f' x) \<Longrightarrow> bindr m f = bindr m' f'"
  by (cases m') auto

text \<open>A computation that may not end; \<open>bindo\<close> is its sequencing.\<close>

type_synonym 'a run = "'a res option"

definition bindo :: "'a run \<Rightarrow> ('a \<Rightarrow> 'b run) \<Rightarrow> 'b run" where
  "bindo m f = Option.bind m (\<lambda>r. case r of Inl e \<Rightarrow> Some (Inl e) | Inr x \<Rightarrow> f x)"

lemma bindo_simps [simp]: "bindo (Some (Inr x)) f = f x" "bindo (Some (Inl e)) f = Some (Inl e)" "bindo None f = None"
  by (simp_all add: bindo_def)

lemma bindo_mono [partial_function_mono]:
  assumes m: "mono_option m" and f: "\<And>x. mono_option (f x)"
  shows "mono_option (\<lambda>g. bindo (m g) (\<lambda>x. f x g))"
  unfolding bindo_def
proof (rule bind_mono [OF m])
  show "mono_option (\<lambda>g. case r of Inl e \<Rightarrow> Some (Inl e) | Inr x \<Rightarrow> f x g)" for r
    using f by (cases r) (simp_all add: option.const_mono)
qed

section \<open>Words\<close>

text \<open>Addition and subtraction that do not wrap read as addition and subtraction on \<^typ>\<open>nat\<close>.\<close>

lemma unat_add_nowrap:
  "unat x + unat y < 2 ^ LENGTH('a) \<Longrightarrow> unat (x + y) = unat x + unat (y :: 'a::len word)"
  by (simp flip: unat_add_lem)

lemma unat_pred: "0 < unat c \<Longrightarrow> unat (c - 1) = unat (c :: 'a::len word) - 1"
  by (rule unat_minus_one) auto

lemma unat_lt_64: "unat (x :: 64 word) < 18446744073709551616"
  using unsigned_less [of x] by simp

lemma unat_bump: "unat x \<le> 2 ^ 50 \<Longrightarrow> unat y \<le> 2 ^ 50 \<Longrightarrow> unat (x + y :: uptr) = unat x + unat y"
  by (rule unat_add_nowrap) simp

lemma unat_and_mask: "unat ((x :: 'a::len word) AND mask k) = unat x mod 2 ^ k"
  using unsigned_take_bit_eq [where ?'a = nat, of k x]
  by (simp add: take_bit_eq_mask [of k x] take_bit_eq_mod [of k "unat x"])

lemma and_not_mask_minus: "(x :: 'a::len word) AND NOT (mask k) = x - (x AND mask k)"
  by (rule sym, subst disjunctive_diff) (auto simp: bit_simps intro!: bit_word_eqI)

lemma and_mask_le: "(x :: 'a::len word) AND mask k \<le> x"
  by (simp add: word_le_nat_alt unat_and_mask)

lemma unat_and_not_mask: "unat ((x :: 'a::len word) AND NOT (mask k)) = unat x div 2 ^ k * 2 ^ k"
proof -
  have "unat (x - (x AND mask k)) = unat x - unat x mod 2 ^ k"
    by (simp add: unat_sub and_mask_le unat_and_mask)
  then show ?thesis
    by (simp add: and_not_mask_minus minus_mod_eq_div_mult)
qed

lemma unat_pow2:
  assumes "k < LENGTH('a)"
  shows "unat (2 ^ k :: 'a::len word) = 2 ^ k"
proof -
  have e: "(2 ^ k :: 'a word) = of_nat (2 ^ k)" by simp
  have "(2::nat) ^ k < 2 ^ LENGTH('a)" using assms by simp
  then show ?thesis unfolding e unat_of_nat by (rule mod_less)
qed

lemma pow2_minus_1_mask: "(2 ^ k :: 'a::len word) - 1 = mask k"
  by (simp add: mask_eq_exp_minus_1)

end
