(* ===== verification/SanCommon.thy ===== *)
theory SanCommon
  imports Prelude
begin

text \<open>
  The arithmetic helpers of \<^verbatim>\<open>sanitizer_common.h\<close>: bit indices, powers of two,
  rounding and alignment.
\<close>

section \<open>Bit indices\<close>

text \<open>
  The compiler builtins \<^verbatim>\<open>__builtin_clzl\<close> and \<^verbatim>\<open>__builtin_ctzl\<close> count the zero bits above the
  highest and below the lowest set bit of a non-zero word.
\<close>

fun hi_bit :: "nat \<Rightarrow> nat" where
  "hi_bit n = (if n < 2 then 0 else Suc (hi_bit (n div 2)))"

fun lo_bit :: "nat \<Rightarrow> nat" where
  "lo_bit n = (if n = 0 \<or> odd n then 0 else Suc (lo_bit (n div 2)))"

declare hi_bit.simps [simp del] lo_bit.simps [simp del]

definition builtin_clzl :: "uptr \<Rightarrow> nat" where
  "builtin_clzl x = 63 - hi_bit (unat x)"

definition builtin_ctzl :: "uptr \<Rightarrow> nat" where
  "builtin_ctzl x = lo_bit (unat x)"

definition MostSignificantSetBitIndex :: "uptr \<Rightarrow> uptr res" where
  "MostSignificantSetBitIndex x =
     check (x \<noteq> 0) ''x != 0'' (Inr (of_nat (64 - 1 - builtin_clzl x)))"

definition LeastSignificantSetBitIndex :: "uptr \<Rightarrow> uptr res" where
  "LeastSignificantSetBitIndex x = check (x \<noteq> 0) ''x != 0'' (Inr (of_nat (builtin_ctzl x)))"

definition IsPowerOfTwo :: "uptr \<Rightarrow> bool" where
  "IsPowerOfTwo x \<longleftrightarrow> x AND (x - 1) = 0"

definition RoundUpToPowerOfTwo :: "uptr \<Rightarrow> uptr res" where
  "RoundUpToPowerOfTwo sz =
     check (sz \<noteq> 0) ''size'' (
     if IsPowerOfTwo sz then Inr sz
     else bindr (MostSignificantSetBitIndex sz) (\<lambda>up.
       check (sz < push_bit (unat (up + 1)) 1) ''size < (1ULL << (up + 1))'' (
       check (sz > push_bit (unat up) 1) ''size > (1ULL << up)'' (
       Inr (push_bit (unat (up + 1)) 1)))))"

text \<open>\<open>round_up\<close> is the value \<^verbatim>\<open>RoundUpTo\<close> returns when its \<^verbatim>\<open>RAW_CHECK\<close> passes.\<close>

definition round_up :: "uptr \<Rightarrow> uptr \<Rightarrow> uptr" where
  "round_up sz boundary = (sz + boundary - 1) AND NOT (boundary - 1)"

definition RoundUpTo :: "uptr \<Rightarrow> uptr \<Rightarrow> uptr res" where
  "RoundUpTo sz boundary =
     check (IsPowerOfTwo boundary) ''IsPowerOfTwo(boundary)'' (Inr (round_up sz boundary))"

definition RoundDownTo :: "uptr \<Rightarrow> uptr \<Rightarrow> uptr" where
  "RoundDownTo x boundary = x AND NOT (boundary - 1)"

definition IsAligned :: "uptr \<Rightarrow> uptr \<Rightarrow> bool" where
  "IsAligned a alignment \<longleftrightarrow> a AND (alignment - 1) = 0"

definition Log2 :: "uptr \<Rightarrow> uptr res" where
  "Log2 x = check (IsPowerOfTwo x) ''IsPowerOfTwo(x)'' (LeastSignificantSetBitIndex x)"

text \<open>\<^verbatim>\<open>Min\<close> and \<^verbatim>\<open>Max\<close> are templates: they compare with the order of their type.\<close>

definition Min2 :: "'a::ord \<Rightarrow> 'a \<Rightarrow> 'a" where
  "Min2 a b = (if a < b then a else b)"

definition Max2 :: "'a::ord \<Rightarrow> 'a \<Rightarrow> 'a" where
  "Max2 a b = (if a > b then a else b)"

section \<open>Powers of two\<close>

lemma nat_and_pred_zero: "(n::nat) AND (n - 1) = 0 \<Longrightarrow> n = 0 \<or> (\<exists>k. n = 2 ^ k)"
proof (induction n rule: less_induct)
  case (less n)
  show ?case
  proof (cases "n = 0")
    case False
    show ?thesis
    proof (cases "even n")
      case True
      then obtain m where m: "n = 2 * m" by blast
      with False obtain j where j: "m = Suc j" by (cases m) auto
      have pred: "n - 1 = Suc (2 * j)" using m j by simp
      have "n AND (n - 1) = 2 * (m AND j)"
        unfolding pred by (subst and_nat_rec) (simp add: m)
      with less.prems j have "m AND (m - 1) = 0" by simp
      with less.IH [of m] m j obtain k where "m = 2 ^ k" by auto
      then have "n = 2 ^ Suc k" using m by simp
      then show ?thesis by blast
    next
      case False
      then obtain m where m: "n = Suc (2 * m)" by (metis oddE Suc_eq_plus1)
      have "n AND (n - 1) = 2 * m"
        unfolding m by (subst and_nat_rec) simp
      with less.prems m have "n = 2 ^ 0" by simp
      then show ?thesis by blast
    qed
  qed simp
qed

lemma IsPowerOfTwo_cases:
  assumes "IsPowerOfTwo x"
  obtains "x = 0" | k where "k < 64" "x = 2 ^ k"
proof (cases "x = 0")
  case False
  have "unat x AND (unat x - 1) = unat (x AND (x - 1))"
    using False by (simp add: unsigned_and_eq unat_minus_one)
  with assms have "unat x AND (unat x - 1) = 0"
    by (simp add: IsPowerOfTwo_def)
  moreover have "unat x \<noteq> 0"
    using False by (simp add: unat_eq_zero)
  ultimately obtain k where k: "unat x = 2 ^ k"
    using nat_and_pred_zero [of "unat x"] by auto
  have "(2::nat) ^ k < 2 ^ 64" using unat_lt_64 [of x] k by simp
  then have "k < 64" by (rule power_less_imp_less_exp [rotated]) simp
  moreover have "x = 2 ^ k"
    by (simp add: word_unat_eq_iff k unat_pow2 \<open>k < 64\<close>)
  ultimately show ?thesis using that by blast
qed (use that in blast)

lemma IsPowerOfTwo_pow2: "IsPowerOfTwo (2 ^ k)"
  by (rule bit_word_eqI [THEN IsPowerOfTwo_def [THEN iffD2]])
    (auto simp: bit_simps pow2_minus_1_mask bit_mask_iff)

lemma nat_round_up_bounds:
  assumes "0 < (b::nat)"
  shows "n \<le> (n + (b - 1)) div b * b \<and> (n + (b - 1)) div b * b < n + b"
proof -
  let ?m = "n + (b - 1)"
  have "?m div b * b + ?m mod b = ?m" and "?m mod b < b" using assms by simp_all
  then show ?thesis using assms by linarith
qed

lemma pow2_64_nonzero: "k < 64 \<Longrightarrow> (2 ^ k :: 64 word) \<noteq> 0"
  by (simp add: unat_0_iff [symmetric] unat_pow2 del: unat_0_iff)

section \<open>Rounding and alignment read on natural numbers\<close>

lemma unat_RoundDownTo: "unat (RoundDownTo x (2 ^ k)) = unat x div 2 ^ k * 2 ^ k"
  by (simp add: RoundDownTo_def pow2_minus_1_mask unat_and_not_mask)

lemma unat_round_up:
  assumes "k < 64" and "unat x + 2 ^ k \<le> 2 ^ 64"
  shows "unat (round_up x (2 ^ k)) = (unat x + (2 ^ k - 1)) div 2 ^ k * 2 ^ k"
proof -
  have p: "unat (2 ^ k :: 64 word) = 2 ^ k" using assms(1) by (simp add: unat_pow2)
  have "unat (x + (2 ^ k - 1)) = unat x + (2 ^ k - 1)"
  proof -
    have m: "unat ((2 ^ k :: 64 word) - 1) = 2 ^ k - 1"
      using p by (subst unat_minus_one) (auto simp: unat_0_iff [symmetric])
    show ?thesis using assms(2) by (subst unat_add_nowrap) (simp_all add: m)
  qed
  then show ?thesis
    by (simp add: round_up_def pow2_minus_1_mask unat_and_not_mask add_diff_eq [symmetric])
qed

lemma IsAligned_iff_dvd: "IsAligned a (2 ^ k) \<longleftrightarrow> 2 ^ k dvd unat a"
  by (simp add: IsAligned_def pow2_minus_1_mask and_mask_dvd_nat)

lemma RoundDownTo_le: "RoundDownTo x (2 ^ k) \<le> x"
  by (simp add: word_le_nat_alt unat_RoundDownTo div_times_less_eq_dividend)

lemma RoundDownTo_aligned: "IsAligned (RoundDownTo x (2 ^ k)) (2 ^ k)"
  by (simp add: IsAligned_iff_dvd unat_RoundDownTo)

lemma round_up_aligned: "IsAligned (round_up x (2 ^ k)) (2 ^ k)"
  by (simp add: IsAligned_iff_dvd round_up_def pow2_minus_1_mask unat_and_not_mask)

lemma round_up_ge:
  assumes "k < 64" and "unat x + 2 ^ k \<le> 2 ^ 64"
  shows "unat x \<le> unat (round_up x (2 ^ k))"
  using assms nat_round_up_bounds [of "2 ^ k" "unat x"] by (simp add: unat_round_up)

lemma round_up_less:
  assumes "k < 64" and "unat x + 2 ^ k \<le> 2 ^ 64"
  shows "unat (round_up x (2 ^ k)) < unat x + 2 ^ k"
  using assms nat_round_up_bounds [of "2 ^ k" "unat x"] by (simp add: unat_round_up)

lemma nat_round_up_multiple: "0 < (b::nat) \<Longrightarrow> (b * q + (b - 1)) div b * b = b * q"
  using div_mult_self1 [of b "b - 1" q] by (simp add: ac_simps)

lemma round_up_id:
  assumes "k < 64" and "IsAligned x (2 ^ k)" and "unat x + 2 ^ k \<le> 2 ^ 64"
  shows "round_up x (2 ^ k) = x"
proof -
  from assms(2) obtain q where q: "unat x = 2 ^ k * q" by (auto simp: IsAligned_iff_dvd elim!: dvdE)
  have "unat (round_up x (2 ^ k)) = 2 ^ k * q"
    using assms q nat_round_up_multiple [of "2 ^ k" q] by (subst unat_round_up) simp_all
  then show ?thesis by (simp add: word_unat_eq_iff q)
qed

lemma RoundDownTo_id: "IsAligned x (2 ^ k) \<Longrightarrow> RoundDownTo x (2 ^ k) = x"
  by (rule word_unat_eq_iff [THEN iffD2]) (simp add: unat_RoundDownTo IsAligned_iff_dvd)

section \<open>The bit indices bracket their argument\<close>

lemma hi_bit_bounds: "n \<noteq> 0 \<Longrightarrow> 2 ^ hi_bit n \<le> n \<and> n < 2 * 2 ^ hi_bit n"
proof (induction n rule: hi_bit.induct)
  case (1 n)
  show ?case
  proof (cases "n < 2")
    case True
    with "1.prems" show ?thesis by (subst (1 2) hi_bit.simps) auto
  next
    case False
    with "1.IH" have "2 ^ hi_bit (n div 2) \<le> n div 2 \<and> n div 2 < 2 * 2 ^ hi_bit (n div 2)" by simp
    with False show ?thesis by (subst (1 2) hi_bit.simps) (simp, linarith)
  qed
qed

lemma hi_bit_less: "n \<noteq> 0 \<Longrightarrow> n < 2 ^ m \<Longrightarrow> hi_bit n < m"
  using hi_bit_bounds [of n] power_less_imp_less_exp [of "2::nat" "hi_bit n" m] by linarith

lemma MostSignificantSetBitIndex_eq:
  assumes "x \<noteq> 0"
  shows "MostSignificantSetBitIndex x = Inr (of_nat (hi_bit (unat x)))"
proof -
  have "hi_bit (unat x) < 64"
    using assms unat_lt_64 [of x] by (intro hi_bit_less) (simp_all add: unat_eq_zero)
  then show ?thesis using assms by (simp add: MostSignificantSetBitIndex_def builtin_clzl_def)
qed

lemma MostSignificantSetBitIndex_Inr:
  assumes "MostSignificantSetBitIndex x = Inr l"
  shows "x \<noteq> 0 \<and> unat l < 64 \<and> 2 ^ unat l \<le> unat x \<and> unat x < 2 * 2 ^ unat l"
proof -
  have x: "x \<noteq> 0" using assms by (auto simp: MostSignificantSetBitIndex_def check_def split: if_splits)
  have b: "hi_bit (unat x) < 64"
    using x unat_lt_64 [of x] by (intro hi_bit_less) (simp_all add: unat_eq_zero)
  have "l = of_nat (hi_bit (unat x))" using assms x by (simp add: MostSignificantSetBitIndex_eq)
  then have "unat l = hi_bit (unat x)" using b by (simp add: unat_of_nat)
  then show ?thesis using x b hi_bit_bounds [of "unat x"] by (simp add: unat_eq_zero)
qed

lemma lo_bit_spec: "n \<noteq> 0 \<Longrightarrow> 2 ^ lo_bit n dvd n \<and> odd (n div 2 ^ lo_bit n)"
proof (induction n rule: lo_bit.induct)
  case (1 n)
  show ?case
  proof (cases "odd n")
    case True
    then show ?thesis by (subst (1 2) lo_bit.simps) simp
  next
    case False
    with "1.IH" "1.prems" have "2 ^ lo_bit (n div 2) dvd n div 2 \<and> odd (n div 2 div 2 ^ lo_bit (n div 2))"
      by auto
    with False "1.prems" show ?thesis
      by (subst (1 2) lo_bit.simps) (auto simp: div_mult2_eq)
  qed
qed

lemma lo_bit_pow2: "lo_bit (2 ^ k) = k"
  by (induction k) (subst lo_bit.simps, simp)+

end
