(* ===== verification/SizeClass.thy ===== *)
theory SizeClass
  imports SanCommon
begin

text \<open>
  The size class map of \<^verbatim>\<open>sanitizer_allocator_size_class_map.h\<close>: which class a request
  belongs to and how many bytes a class holds. The template parameters are a record; the
  three instances of the source are \<open>DefaultSizeClassMap\<close> (the one MEDS uses),
  \<open>CompactSizeClassMap\<close> and \<open>VeryCompactSizeClassMap\<close>.
\<close>

section \<open>The map\<close>

record size_class_params =
  kNumBits :: nat
  kMinSizeLog :: nat
  kMidSizeLog :: nat
  kMaxSizeLog :: nat
  kMaxNumCachedHint :: uptr
  kMaxBytesCachedLog :: nat

definition kMinSize :: "size_class_params \<Rightarrow> uptr" where
  "kMinSize p = push_bit (kMinSizeLog p) 1"

definition kMidSize :: "size_class_params \<Rightarrow> uptr" where
  "kMidSize p = push_bit (kMidSizeLog p) 1"

definition kMidClass :: "size_class_params \<Rightarrow> uptr" where
  "kMidClass p = kMidSize p div kMinSize p"

definition kS :: "size_class_params \<Rightarrow> nat" where
  "kS p = kNumBits p - 1"

definition kM :: "size_class_params \<Rightarrow> uptr" where
  "kM p = push_bit (kS p) 1 - 1"

definition kMaxSize :: "size_class_params \<Rightarrow> uptr" where
  "kMaxSize p = push_bit (kMaxSizeLog p) 1"

definition kNumClasses :: "size_class_params \<Rightarrow> uptr" where
  "kNumClasses p = kMidClass p + push_bit (kS p) (of_nat (kMaxSizeLog p - kMidSizeLog p)) + 1"

definition kLargestClassID :: "size_class_params \<Rightarrow> uptr" where
  "kLargestClassID p = kNumClasses p - 2"

definition kNumClassesRounded :: "size_class_params \<Rightarrow> uptr" where
  "kNumClassesRounded p =
     (if kNumClasses p \<le> 32 then 32
      else if kNumClasses p \<le> 64 then 64
      else if kNumClasses p \<le> 128 then 128 else 256)"

definition Size :: "size_class_params \<Rightarrow> uptr \<Rightarrow> uptr" where
  "Size p class_id =
     (if class_id \<le> kMidClass p then kMinSize p * class_id
      else
        (let c = class_id - kMidClass p;
             t = push_bit (unat (drop_bit (kS p) c)) (kMidSize p)
         in t + drop_bit (kS p) t * (c AND kM p)))"

definition ClassID :: "size_class_params \<Rightarrow> uptr \<Rightarrow> uptr res" where
  "ClassID p sz =
     (if sz \<le> kMidSize p then Inr (drop_bit (kMinSizeLog p) (sz + kMinSize p - 1))
      else if sz > kMaxSize p then Inr 0
      else bindr (MostSignificantSetBitIndex sz) (\<lambda>l.
        (let hbits = drop_bit (unat (l - of_nat (kS p))) sz AND kM p;
             lbits = sz AND (push_bit (unat (l - of_nat (kS p))) 1 - 1);
             l1 = l - of_nat (kMidSizeLog p)
         in Inr (kMidClass p + push_bit (kS p) l1 + hbits + (if lbits > 0 then 1 else 0)))))"

definition MaxCachedHint :: "size_class_params \<Rightarrow> uptr \<Rightarrow> uptr" where
  "MaxCachedHint p class_id =
     (if class_id = 0 then 0
      else
        (let n = push_bit (kMaxBytesCachedLog p) 1 div Size p class_id
         in Max2 1 (Min2 (kMaxNumCachedHint p) n)))"

text \<open>\<^verbatim>\<open>Validate\<close>, the self-check of the map, as two loops of checks.\<close>

fun for_range :: "nat \<Rightarrow> nat \<Rightarrow> (nat \<Rightarrow> unit res) \<Rightarrow> unit res" where
  "for_range i 0 body = Inr ()"
| "for_range i (Suc n) body = bindr (body i) (\<lambda>_. for_range (Suc i) n body)"

definition validate_class :: "size_class_params \<Rightarrow> uptr \<Rightarrow> unit res" where
  "validate_class p c =
     (let s = Size p c in
      check (s \<noteq> 0) ''s != 0'' (
      bindr (ClassID p s) (\<lambda>cs. check (cs = c) ''ClassID(s) == c'' (
      bindr (if c \<noteq> kNumClasses p - 1
             then bindr (ClassID p (s + 1)) (\<lambda>cn. check (cn = c + 1) ''ClassID(s + 1) == c + 1'' (Inr ()))
             else Inr ()) (\<lambda>_.
      bindr (ClassID p (s - 1)) (\<lambda>cp. check (cp = c) ''ClassID(s - 1) == c'' (
      if c \<noteq> 0 then check (Size p c > Size p (c - 1)) ''Size(c) > Size(c-1)'' (Inr ())
      else Inr ())))))))"

definition validate_size :: "size_class_params \<Rightarrow> uptr \<Rightarrow> unit res" where
  "validate_size p s =
     bindr (ClassID p s) (\<lambda>c.
       check (c < kNumClasses p) ''c < kNumClasses'' (
       check (Size p c \<ge> s) ''Size(c) >= s'' (
       if c > 0 then check (Size p (c - 1) < s) ''Size(c-1) < s'' (Inr ()) else Inr ())))"

definition Validate :: "size_class_params \<Rightarrow> unit res" where
  "Validate p =
     bindr (for_range 1 (unat (kNumClasses p) - 1) (\<lambda>c. validate_class p (of_nat c))) (\<lambda>_.
     bindr (ClassID p (kMaxSize p + 1)) (\<lambda>c. check (c = 0) ''ClassID(kMaxSize + 1) == 0'' (
       for_range 1 (unat (kMaxSize p)) (\<lambda>s. validate_size p (of_nat s)))))"

definition DefaultSizeClassMap :: size_class_params where
  "DefaultSizeClassMap = \<lparr>kNumBits = 3, kMinSizeLog = 4, kMidSizeLog = 8, kMaxSizeLog = 17,
     kMaxNumCachedHint = 128, kMaxBytesCachedLog = 16\<rparr>"

definition CompactSizeClassMap :: size_class_params where
  "CompactSizeClassMap = \<lparr>kNumBits = 3, kMinSizeLog = 4, kMidSizeLog = 8, kMaxSizeLog = 17,
     kMaxNumCachedHint = 64, kMaxBytesCachedLog = 14\<rparr>"

definition VeryCompactSizeClassMap :: size_class_params where
  "VeryCompactSizeClassMap = \<lparr>kNumBits = 2, kMinSizeLog = 5, kMidSizeLog = 9, kMaxSizeLog = 16,
     kMaxNumCachedHint = 64, kMaxBytesCachedLog = 14\<rparr>"

section \<open>The map on natural numbers\<close>

text \<open>Parameters the template can be instantiated with: no size overflows a machine word.\<close>

definition sc_wf :: "size_class_params \<Rightarrow> bool" where
  "sc_wf p \<longleftrightarrow> 0 < kNumBits p \<and> 0 < kMinSizeLog p \<and> kMinSizeLog p + kS p \<le> kMidSizeLog p \<and> kMidSizeLog p \<le> kMaxSizeLog p
     \<and> kMaxSizeLog p < 31 \<and> kMidSizeLog p < kMinSizeLog p + 9 \<and> kS p < 8"

definition sc_size :: "size_class_params \<Rightarrow> nat \<Rightarrow> nat" where
  "sc_size p c =
     (let m = 2 ^ (kMidSizeLog p - kMinSizeLog p); S = kS p in
      if c \<le> m then 2 ^ kMinSizeLog p * c
      else 2 ^ (kMidSizeLog p + (c - m) div 2 ^ S - S) * (2 ^ S + (c - m) mod 2 ^ S))"

text \<open>The step between neighbouring sizes at \<open>s\<close>, and the class of \<open>s\<close> as a rounded-up quotient.\<close>

definition step_log :: "size_class_params \<Rightarrow> nat \<Rightarrow> nat" where
  "step_log p s = (if s \<le> 2 ^ kMidSizeLog p then kMinSizeLog p else hi_bit s - kS p)"

definition ceil_div :: "nat \<Rightarrow> nat \<Rightarrow> nat" where
  "ceil_div s k = (s + (2 ^ k - 1)) div 2 ^ k"

definition sc_class :: "size_class_params \<Rightarrow> nat \<Rightarrow> nat" where
  "sc_class p s =
     (if s \<le> 2 ^ kMidSizeLog p then ceil_div s (kMinSizeLog p)
      else 2 ^ (kMidSizeLog p - kMinSizeLog p) + (hi_bit s - kMidSizeLog p) * 2 ^ kS p
           + (ceil_div s (hi_bit s - kS p) - 2 ^ kS p))"

lemma ceil_div_bounds: "s \<le> ceil_div s k * 2 ^ k \<and> ceil_div s k * 2 ^ k < s + 2 ^ k"
  unfolding ceil_div_def by (rule nat_round_up_bounds) simp

lemma ceil_div_le: "s \<le> q * 2 ^ k \<Longrightarrow> ceil_div s k \<le> q"
proof -
  assume "s \<le> q * 2 ^ k"
  then have "ceil_div s k * 2 ^ k < Suc q * 2 ^ k" using ceil_div_bounds [of s k] by simp
  then have "ceil_div s k < Suc q" by (simp only: mult_less_cancel2)
  then show ?thesis by simp
qed

lemma nat_ceil_div:
  assumes "0 < (b::nat)"
  shows "(n + (b - 1)) div b = n div b + (if 0 < n mod b then 1 else 0)"
proof -
  have "(n + (b - 1)) div b = n div b + (n mod b + (b - 1)) div b"
  proof -
    have "n + (b - 1) = (n mod b + (b - 1)) + n div b * b"
      using div_mult_mod_eq [of n b] by linarith
    then show ?thesis using assms by (simp only: div_mult_self1)
  qed
  moreover have "(n mod b + (b - 1)) div b = (if 0 < n mod b then 1 else 0)"
  proof (cases "n mod b = 0")
    case False
    then have "n mod b + (b - 1) = b + (n mod b - 1)" using assms by simp
    moreover have "n mod b - 1 < b" using assms mod_less_divisor [of b n] by linarith
    then have "(b + (n mod b - 1)) div b = 1" using assms by (simp only: div_add_self1) simp
    ultimately show ?thesis using False by (simp only:) simp
  qed (use assms in simp)
  ultimately show ?thesis by simp
qed

definition mid_class :: "size_class_params \<Rightarrow> nat" where
  "mid_class p = 2 ^ (kMidSizeLog p - kMinSizeLog p)"

lemma sc_size_at:
  assumes "sc_wf p" "kMidSizeLog p \<le> l" "2 ^ kS p \<le> q" "q \<le> 2 * 2 ^ kS p"
  shows "sc_size p (mid_class p + (l - kMidSizeLog p) * 2 ^ kS p + (q - 2 ^ kS p)) = 2 ^ (l - kS p) * q"
proof -
  let ?S = "kS p" and ?mid = "kMidSizeLog p"
  have S: "?S \<le> ?mid" and min: "kMinSizeLog p \<le> ?mid" using assms(1) by (auto simp: sc_wf_def)
  define c where "c = (l - ?mid) * 2 ^ ?S + (q - 2 ^ ?S)"
  show ?thesis
  proof (cases "c = 0")
    case True
    then have "(l - ?mid) * 2 ^ ?S = 0" "q - 2 ^ ?S = 0" by (simp_all only: c_def add_is_0)
    then have "l = ?mid" "q = 2 ^ ?S" using assms by auto
    then show ?thesis using S min
      by (simp add: sc_size_def mid_class_def flip: power_add)
  next
    case False
    have eq: "mid_class p + (l - ?mid) * 2 ^ ?S + (q - 2 ^ ?S) = mid_class p + c"
      by (simp add: c_def)
    have sz: "sc_size p (mid_class p + c) = 2 ^ (?mid + c div 2 ^ ?S - ?S) * (2 ^ ?S + c mod 2 ^ ?S)"
      using False by (simp add: sc_size_def mid_class_def Let_def)
    show ?thesis
    proof (cases "q = 2 * 2 ^ ?S")
      case True
      then have "c = (Suc (l - ?mid)) * 2 ^ ?S" by (simp add: c_def)
      then have "c div 2 ^ ?S = Suc (l - ?mid)" "c mod 2 ^ ?S = 0" by simp_all
      then have "sc_size p (mid_class p + c) = 2 ^ (Suc l - ?S) * 2 ^ ?S"
        using assms(2) by (simp add: sz)
      then show ?thesis unfolding eq using True S assms(2)
        by (simp add: Suc_diff_le)
    next
      case q: False
      then have "q - 2 ^ ?S < 2 ^ ?S" using assms by simp
      then have "c div 2 ^ ?S = l - ?mid" "c mod 2 ^ ?S = q - 2 ^ ?S" by (simp_all add: c_def)
      then show ?thesis using assms by (simp add: eq sz)
    qed
  qed
qed

lemma sc_size_small: "c \<le> mid_class p \<Longrightarrow> sc_size p c = 2 ^ kMinSizeLog p * c"
  by (simp add: sc_size_def mid_class_def)

lemma class_above_mid:
  assumes "sc_wf p" "mid_class p \<le> c"
  obtains l q where "kMidSizeLog p \<le> l" "2 ^ kS p \<le> q" "q < 2 * 2 ^ kS p"
    "c = mid_class p + (l - kMidSizeLog p) * 2 ^ kS p + (q - 2 ^ kS p)"
    "Suc c = mid_class p + (l - kMidSizeLog p) * 2 ^ kS p + (Suc q - 2 ^ kS p)"
proof -
  let ?d = "c - mid_class p"
  have "?d = ?d div 2 ^ kS p * 2 ^ kS p + ?d mod 2 ^ kS p" by (simp only: div_mult_mod_eq)
  then show ?thesis
    using assms(2) that [of "kMidSizeLog p + ?d div 2 ^ kS p" "2 ^ kS p + ?d mod 2 ^ kS p"]
    by (simp add: Suc_diff_le)
qed

lemma sc_size_Suc: "sc_wf p \<Longrightarrow> sc_size p c < sc_size p (Suc c)"
proof (cases "c < mid_class p")
  case False
  assume wf: "sc_wf p"
  with False obtain l q where lq: "kMidSizeLog p \<le> l" "2 ^ kS p \<le> q" "q < 2 * 2 ^ kS p"
    "c = mid_class p + (l - kMidSizeLog p) * 2 ^ kS p + (q - 2 ^ kS p)"
    "Suc c = mid_class p + (l - kMidSizeLog p) * 2 ^ kS p + (Suc q - 2 ^ kS p)"
    by (metis class_above_mid not_less)
  then show ?thesis
    using sc_size_at [OF wf, of l q] sc_size_at [OF wf, of l "Suc q"] by simp
qed (simp add: sc_size_small)

lemma sc_size_mono: "sc_wf p \<Longrightarrow> c < d \<Longrightarrow> sc_size p c < sc_size p d"
  by (rule lift_Suc_mono_less [of "sc_size p"]) (rule sc_size_Suc)

lemma sc_size_mono_iff: "sc_wf p \<Longrightarrow> sc_size p c < sc_size p d \<longleftrightarrow> c < d"
  by (metis sc_size_mono less_asym linorder_neqE_nat nat_less_le)

text \<open>The class of \<open>s\<close> is the least one that holds \<open>s\<close> bytes.\<close>

lemma sc_class_least:
  assumes "sc_wf p" "0 < s"
  shows "0 < sc_class p s \<and> s \<le> sc_size p (sc_class p s) \<and> sc_size p (sc_class p s - 1) < s"
proof (cases "s \<le> 2 ^ kMidSizeLog p")
  case True
  let ?c = "ceil_div s (kMinSizeLog p)"
  have b: "s \<le> ?c * 2 ^ kMinSizeLog p" "?c * 2 ^ kMinSizeLog p < s + 2 ^ kMinSizeLog p"
    using ceil_div_bounds by auto
  have "?c \<le> mid_class p"
    using True assms(1) by (intro ceil_div_le) (auto simp: mid_class_def sc_wf_def simp flip: power_add)
  moreover have "0 < ?c" using b assms(2) by (cases ?c) auto
  moreover have "(?c - 1) * 2 ^ kMinSizeLog p < s"
    using b \<open>0 < ?c\<close> by (cases ?c) auto
  ultimately show ?thesis using True b by (simp add: sc_class_def sc_size_small mult.commute)
next
  case False
  let ?l = "hi_bit s" and ?S = "kS p" and ?mid = "kMidSizeLog p"
  let ?d = "?l - ?S" and ?q = "ceil_div s (?l - ?S)"
  have hb: "2 ^ ?l \<le> s" "s < 2 * 2 ^ ?l" using hi_bit_bounds [of s] assms(2) by auto
  have S: "?S \<le> ?mid" using assms(1) by (auto simp: sc_wf_def)
  have "(2::nat) ^ ?mid < 2 ^ Suc ?l" using hb False by simp
  then have "?mid < Suc ?l" by (rule power_less_imp_less_exp [rotated]) simp
  then have l: "?mid \<le> ?l" by simp
  then have pw: "2 ^ ?l = (2::nat) ^ ?S * 2 ^ ?d" using S by (simp flip: power_add)
  have b: "s \<le> ?q * 2 ^ ?d" "?q * 2 ^ ?d < s + 2 ^ ?d" using ceil_div_bounds by auto
  have q1: "2 ^ ?S \<le> ?q"
  proof (rule ccontr)
    assume "\<not> 2 ^ ?S \<le> ?q"
    then have "?q * 2 ^ ?d < 2 ^ ?S * 2 ^ ?d" by simp
    then show False using b hb pw by linarith
  qed
  have q2: "?q \<le> 2 * 2 ^ ?S" using hb pw by (intro ceil_div_le) (simp add: mult.assoc)
  have cls: "sc_class p s = mid_class p + (?l - ?mid) * 2 ^ ?S + (?q - 2 ^ ?S)"
    using False by (simp add: sc_class_def mid_class_def)
  have szc: "sc_size p (sc_class p s) = 2 ^ ?d * ?q"
    unfolding cls by (rule sc_size_at [OF assms(1) l q1 q2])
  have pos: "0 < sc_class p s" by (simp add: cls mid_class_def)
  have "sc_size p (sc_class p s - 1) < s"
  proof (cases "?q = 2 ^ ?S")
    case False
    with q1 have q3: "2 ^ ?S \<le> ?q - 1" by simp
    have "sc_class p s - 1 = mid_class p + (?l - ?mid) * 2 ^ ?S + (?q - 1 - 2 ^ ?S)"
      using q3 q1 False by (simp add: cls)
    then have "sc_size p (sc_class p s - 1) = 2 ^ ?d * (?q - 1)"
      using sc_size_at [OF assms(1) l q3] q2 by simp
    moreover have "2 ^ ?d * (?q - 1) < s" using b q3 by (cases ?q) (auto simp: mult.commute)
    ultimately show ?thesis by simp
  next
    case True
    then have s: "s = 2 ^ ?l" using b hb pw by simp
    with \<open>\<not> s \<le> 2 ^ ?mid\<close> have lm: "?mid < ?l" by (metis le_refl l nat_less_le)
    let ?q' = "2 * 2 ^ ?S - (1::nat)"
    have one: "(1::nat) \<le> 2 ^ ?S" by simp
    have "sc_class p s - 1 = mid_class p + (?l - 1 - ?mid) * 2 ^ ?S + (?q' - 2 ^ ?S)"
    proof -
      have "(?l - ?mid) * 2 ^ ?S = (?l - 1 - ?mid) * 2 ^ ?S + 2 ^ ?S"
        using lm by (metis Suc_diff_Suc add.commute diff_Suc_eq_diff_pred mult_Suc)
      then show ?thesis using one True by (simp add: cls)
    qed
    then have "sc_size p (sc_class p s - 1) = 2 ^ (?l - 1 - ?S) * ?q'"
      using sc_size_at [OF assms(1), of "?l - 1" ?q'] lm one by simp
    also have "\<dots> < 2 ^ (?l - 1 - ?S) * (2 * 2 ^ ?S)" by simp
    also have "\<dots> = 2 ^ (Suc (?l - 1 - ?S) + ?S)" by (simp add: power_add)
    also have "Suc (?l - 1 - ?S) + ?S = ?l" using lm S by simp
    finally show ?thesis using s by simp
  qed
  then show ?thesis using pos szc b by (simp add: mult.commute)
qed

lemma sc_class_sc_size:
  assumes "sc_wf p" "0 < c"
  shows "sc_class p (sc_size p c) = c"
proof -
  have "0 < sc_size p c" using sc_size_mono [OF assms] by simp
  then have "sc_size p c \<le> sc_size p (sc_class p (sc_size p c))"
    and "sc_size p (sc_class p (sc_size p c) - 1) < sc_size p c"
    using sc_class_least [OF assms(1)] by auto
  then have "c \<le> sc_class p (sc_size p c)" "sc_class p (sc_size p c) - 1 < c"
    using sc_size_mono_iff [OF assms(1)] by (auto simp: not_less [symmetric])
  then show ?thesis by simp
qed
section \<open>The code computes these functions\<close>

lemma unat_push_bit_nowrap:
  "unat x * 2 ^ k < 2 ^ 64 \<Longrightarrow> unat (push_bit k (x::uptr)) = unat x * 2 ^ k"
  using unsigned_push_bit_eq [where ?'a = nat, of k x]
  by (simp add: push_bit_eq_mult [of k "unat x"] take_bit_nat_eq_self)

lemma unat_drop_bit: "unat (drop_bit k (x::'a::len word)) = unat x div 2 ^ k"
  using unat_drop_bit_eq [of k x] by (simp add: drop_bit_eq_div [of k "unat x"])

lemma unat_and_exp: "unat ((x::uptr) AND (2 ^ k - 1)) = unat x mod 2 ^ k"
  by (simp add: pow2_minus_1_mask unat_and_mask)

lemma sc_consts:
  assumes "sc_wf p"
  shows "unat (kMinSize p) = 2 ^ kMinSizeLog p" "unat (kMidSize p) = 2 ^ kMidSizeLog p"
    "unat (kMaxSize p) = 2 ^ kMaxSizeLog p" "unat (kMidClass p) = mid_class p"
  using assms
  by (auto simp: sc_wf_def kMinSize_def kMidSize_def kMaxSize_def kMidClass_def mid_class_def
      unat_pow2 push_bit_of_1 unat_div_distrib power_diff)

definition num_classes :: "size_class_params \<Rightarrow> nat" where
  "num_classes p = mid_class p + (kMaxSizeLog p - kMidSizeLog p) * 2 ^ kS p + 1"

lemma mid_class_bound: "sc_wf p \<Longrightarrow> mid_class p \<le> 256"
proof -
  assume "sc_wf p"
  then have "mid_class p \<le> 2 ^ 8" unfolding mid_class_def sc_wf_def by (intro power_increasing) auto
  then show ?thesis by simp
qed

lemma pow_kS_bound: "sc_wf p \<Longrightarrow> (2::nat) ^ kS p \<le> 128"
proof -
  assume "sc_wf p"
  then have "(2::nat) ^ kS p \<le> 2 ^ 7" unfolding sc_wf_def by (intro power_increasing) auto
  then show ?thesis by simp
qed

lemma num_classes_bound: "sc_wf p \<Longrightarrow> num_classes p < 5000"
proof -
  assume wf: "sc_wf p"
  then have "(kMaxSizeLog p - kMidSizeLog p) * 2 ^ kS p \<le> 30 * 128"
    using pow_kS_bound by (intro mult_le_mono) (auto simp: sc_wf_def)
  then show ?thesis using mid_class_bound [OF wf] by (simp add: num_classes_def)
qed

lemma unat_kNumClasses:
  assumes "sc_wf p"
  shows "unat (kNumClasses p) = num_classes p"
proof -
  have d: "unat (of_nat (kMaxSizeLog p - kMidSizeLog p) :: uptr) = kMaxSizeLog p - kMidSizeLog p"
    using assms unfolding sc_wf_def unat_of_nat by (intro mod_less, simp) linarith
  have "unat (push_bit (kS p) (of_nat (kMaxSizeLog p - kMidSizeLog p) :: uptr)) =
      (kMaxSizeLog p - kMidSizeLog p) * 2 ^ kS p"
    using num_classes_bound [OF assms] by (subst unat_push_bit_nowrap) (simp_all add: d num_classes_def)
  then show ?thesis
    using num_classes_bound [OF assms] sc_consts [OF assms]
    by (simp add: kNumClasses_def num_classes_def unat_word_ariths)
qed

lemma sc_size_last: "sc_wf p \<Longrightarrow> sc_size p (num_classes p - 1) = 2 ^ kMaxSizeLog p"
  using sc_size_at [of p "kMaxSizeLog p" "2 ^ kS p"]
  by (auto simp: num_classes_def sc_wf_def simp flip: power_add)

lemma sc_size_bound: "sc_wf p \<Longrightarrow> c < num_classes p \<Longrightarrow> sc_size p c \<le> 2 ^ kMaxSizeLog p"
  using sc_size_last [of p] sc_size_mono [of p c "num_classes p - 1"]
  by (cases "c < num_classes p - 1") (auto simp: not_less le_less_Suc_eq num_classes_def)

lemma unat_Size:
  assumes "sc_wf p" "unat c < num_classes p"
  shows "unat (Size p c) = sc_size p (unat c)"
proof (cases "c \<le> kMidClass p")
  case True
  then have c: "unat c \<le> mid_class p" using sc_consts(4) [OF assms(1)] by (simp add: word_le_nat_alt)
  have "2 ^ kMinSizeLog p * unat c \<le> 2 ^ kMinSizeLog p * mid_class p" using c by simp
  also have "\<dots> = 2 ^ kMidSizeLog p"
    using assms(1) by (auto simp: mid_class_def sc_wf_def simp flip: power_add)
  also have "\<dots> < 2 ^ 64" using assms(1) by (intro power_strict_increasing) (auto simp: sc_wf_def)
  finally show ?thesis
    using True c sc_consts(1) [OF assms(1)] by (simp add: Size_def sc_size_small unat_word_ariths)
next
  case False
  then have c: "mid_class p < unat c" using sc_consts(4) [OF assms(1)] by (simp add: word_le_nat_alt not_le)
  let ?d = "c - kMidClass p" and ?S = "kS p"
  have d: "unat ?d = unat c - mid_class p"
    using False sc_consts(4) [OF assms(1)] by (simp add: unat_sub)
  let ?a = "unat ?d div 2 ^ ?S" and ?b = "unat ?d mod 2 ^ ?S"
  have S: "?S \<le> kMidSizeLog p" "kMaxSizeLog p < 31" "kMidSizeLog p \<le> kMaxSizeLog p"
    using assms(1) by (auto simp: sc_wf_def)
  have sz: "sc_size p (unat c) = 2 ^ (kMidSizeLog p + ?a - ?S) * (2 ^ ?S + ?b)"
    using c by (simp add: sc_size_def d mid_class_def Let_def)
  have "2 ^ (kMidSizeLog p + ?a - ?S) * (2::nat) ^ ?S \<le> sc_size p (unat c)" by (simp add: sz)
  also have "\<dots> \<le> 2 ^ kMaxSizeLog p" using assms by (rule sc_size_bound)
  finally have "(2::nat) ^ (kMidSizeLog p + ?a) \<le> 2 ^ kMaxSizeLog p" using S by (simp flip: power_add)
  then have a: "kMidSizeLog p + ?a \<le> kMaxSizeLog p" by (rule power_le_imp_le_exp [rotated]) simp
  have pa: "(2::nat) ^ (kMidSizeLog p + ?a) < 2 ^ 64" using a S by (intro power_strict_increasing) auto
  let ?t = "push_bit (unat (drop_bit ?S ?d)) (kMidSize p)"
  have t: "unat ?t = 2 ^ (kMidSizeLog p + ?a)"
    using pa sc_consts(2) [OF assms(1)] by (subst unat_push_bit_nowrap) (simp_all add: unat_drop_bit power_add)
  have t2: "unat (drop_bit ?S ?t) = 2 ^ (kMidSizeLog p + ?a - ?S)"
    by (simp only: unat_drop_bit [of ?S ?t] t) (use S in \<open>simp add: power_diff\<close>)
  have b: "unat (?d AND kM p) = ?b" by (simp add: kM_def unat_and_exp)
  have tot: "2 ^ (kMidSizeLog p + ?a) + 2 ^ (kMidSizeLog p + ?a - ?S) * ?b = sc_size p (unat c)"
    using S by (simp add: sz distrib_left flip: power_add)
  have "sc_size p (unat c) < 2 ^ 64"
    using sc_size_bound [OF assms] S power_strict_increasing [of "kMaxSizeLog p" 64 "2::nat"] by simp
  then have "unat (?t + drop_bit ?S ?t * (?d AND kM p)) = sc_size p (unat c)"
    unfolding tot [symmetric] by (simp add: unat_word_ariths t t2 b)
  then show ?thesis using False by (simp add: Size_def Let_def)
qed

lemma sc_class_bound:
  assumes "sc_wf p" "s \<le> 2 ^ kMaxSizeLog p"
  shows "sc_class p s < num_classes p"
proof (cases "s = 0")
  case True
  have "mid_class p < num_classes p" by (simp add: num_classes_def)
  moreover have "sc_class p 0 = 0" by (simp add: sc_class_def ceil_div_def)
  ultimately show ?thesis using True by (simp add: mid_class_def)
next
  case False
  then have "sc_size p (sc_class p s - 1) < sc_size p (num_classes p - 1)" "0 < sc_class p s"
    using sc_class_least [OF assms(1), of s] assms sc_size_last [OF assms(1)] by auto
  then show ?thesis using sc_size_mono_iff [OF assms(1)] by auto
qed

lemma ClassID_eq:
  assumes "sc_wf p" "s \<le> kMaxSize p"
  shows "ClassID p s = Inr (of_nat (sc_class p (unat s)))"
proof (cases "s \<le> kMidSize p")
  case True
  then have s: "unat s \<le> 2 ^ kMidSizeLog p"
    using sc_consts(2) [OF assms(1)] by (simp add: word_le_nat_alt)
  have lt: "2 ^ kMidSizeLog p + 2 ^ kMinSizeLog p < (2::nat) ^ 64"
  proof -
    have "kMidSizeLog p \<le> 31" "kMinSizeLog p \<le> 31" using assms(1) by (auto simp: sc_wf_def)
    then have "(2::nat) ^ kMidSizeLog p \<le> 2 ^ 31" "(2::nat) ^ kMinSizeLog p \<le> 2 ^ 31"
      by (auto simp only: intro!: power_increasing)
    then show ?thesis by simp
  qed
  have k1: "unat (kMinSize p - 1) = 2 ^ kMinSizeLog p - 1"
    using sc_consts(1) [OF assms(1)] by (subst unat_minus_one) (auto simp: unat_0_iff [symmetric])
  have "unat (s + (kMinSize p - 1)) = unat s + (2 ^ kMinSizeLog p - 1)"
    using s lt by (subst unat_add_nowrap) (simp_all add: k1)
  then have "unat (drop_bit (kMinSizeLog p) (s + kMinSize p - 1)) = ceil_div (unat s) (kMinSizeLog p)"
    by (simp add: unat_drop_bit ceil_div_def add_diff_eq)
  then have "drop_bit (kMinSizeLog p) (s + kMinSize p - 1) = of_nat (ceil_div (unat s) (kMinSizeLog p))"
    by (metis of_nat_unat ucast_id)
  then show ?thesis using True s by (simp add: ClassID_def sc_class_def)
next
  case False
  then have s: "2 ^ kMidSizeLog p < unat s"
    using sc_consts(2) [OF assms(1)] by (simp add: word_le_nat_alt not_le)
  have smax: "unat s \<le> 2 ^ kMaxSizeLog p"
    using assms(2) sc_consts(3) [OF assms(1)] by (simp add: word_le_nat_alt)
  let ?l = "hi_bit (unat s)" and ?S = "kS p" and ?mid = "kMidSizeLog p"
  have S: "?S \<le> ?mid" "?mid \<le> kMaxSizeLog p" "kMaxSizeLog p < 31" using assms(1) by (auto simp: sc_wf_def)
  have hb: "2 ^ ?l \<le> unat s" "unat s < 2 * 2 ^ ?l" using hi_bit_bounds [of "unat s"] s by auto
  have "(2::nat) ^ ?mid < 2 ^ Suc ?l" using hb s by simp
  then have "?mid < Suc ?l" by (rule power_less_imp_less_exp [rotated]) simp
  then have l: "?mid \<le> ?l" by simp
  have "(2::nat) ^ ?l \<le> 2 ^ kMaxSizeLog p" using hb smax by linarith
  then have lmax: "?l \<le> kMaxSizeLog p" by (rule power_le_imp_le_exp [rotated]) simp
  have lS: "unat (of_nat ?l - of_nat ?S :: uptr) = ?l - ?S"
    using l S lmax by (simp flip: of_nat_diff add: unat_of_nat)
  have lm: "unat (of_nat ?l - of_nat ?mid :: uptr) = ?l - ?mid"
    using l S lmax by (simp flip: of_nat_diff add: unat_of_nat)
  let ?d = "?l - ?S" and ?q = "ceil_div (unat s) (?l - ?S)"
  have pw: "2 ^ ?l = (2::nat) ^ ?S * 2 ^ ?d" using S l by (simp flip: power_add)
  let ?h = "unat s div 2 ^ ?d"
  have h: "2 ^ ?S \<le> ?h" "?h < 2 * 2 ^ ?S"
    using hb pw by (auto simp: less_eq_div_iff_mult_less_eq div_less_iff_less_mult)
  let ?cls = "kMidClass p + push_bit ?S (of_nat ?l - of_nat ?mid) +
      (drop_bit (unat (of_nat ?l - of_nat ?S :: uptr)) s AND kM p) +
      (if (s AND (push_bit (unat (of_nat ?l - of_nat ?S :: uptr)) 1 - 1)) > 0 then 1 else 0)"
  have "ClassID p s = Inr ?cls"
  proof -
    have "s \<noteq> 0" using s by auto
    then have ms: "MostSignificantSetBitIndex s = Inr (of_nat ?l)" by (rule MostSignificantSetBitIndex_eq)
    have "\<not> kMaxSize p < s" using assms(2) by simp
    then show ?thesis by (simp only: ClassID_def if_not_P [OF False] if_False ms bindr.simps Let_def)
  qed
  moreover have "unat ?cls = sc_class p (unat s)"
  proof -
    have p1: "unat (push_bit ?S (of_nat ?l - of_nat ?mid :: uptr)) = (?l - ?mid) * 2 ^ ?S"
    proof -
      have "(?l - ?mid) * 2 ^ ?S \<le> 30 * 128"
        using lmax S pow_kS_bound [OF assms(1)] by (intro mult_le_mono) auto
      then show ?thesis by (subst unat_push_bit_nowrap) (simp_all add: lm)
    qed
    have p2: "unat (drop_bit (unat (of_nat ?l - of_nat ?S :: uptr)) s AND kM p) = ?h - 2 ^ ?S"
      using h by (simp add: kM_def unat_and_exp unat_drop_bit lS mod_if)
    have p3: "unat (if (s AND (push_bit (unat (of_nat ?l - of_nat ?S :: uptr)) 1 - 1)) > 0 then 1 else 0 :: uptr)
        = (if 0 < unat s mod 2 ^ ?d then 1 else 0)"
      by (simp add: word_less_nat_alt unat_and_exp lS)
    have q: "?q = ?h + (if 0 < unat s mod 2 ^ ?d then 1 else 0)"
      unfolding ceil_div_def by (rule nat_ceil_div) simp
    have "sc_class p (unat s) = mid_class p + (?l - ?mid) * 2 ^ ?S + (?q - 2 ^ ?S)"
      using s by (simp add: sc_class_def mid_class_def)
    then have tot: "sc_class p (unat s) = mid_class p + (?l - ?mid) * 2 ^ ?S + (?h - 2 ^ ?S)
        + (if 0 < unat s mod 2 ^ ?d then 1 else 0)"
      using h by (simp add: q)
    have "sc_class p (unat s) < 5000"
      using sc_class_bound [OF assms(1) smax] num_classes_bound [OF assms(1)] by simp
    then show ?thesis
      unfolding tot by (simp only: unat_word_ariths p1 p2 p3 sc_consts(4) [OF assms(1)]) simp
  qed
  ultimately show ?thesis by (metis of_nat_unat ucast_id)
qed

section \<open>The contract of the map\<close>

text \<open>
  The interface an allocator uses: a request is served by the least class that holds it, a
  class size belongs to its own class, and a request past the largest class gets class 0.
\<close>

locale size_class_map =
  fixes size_of :: "uptr \<Rightarrow> uptr" and class_of :: "uptr \<Rightarrow> uptr res" and max_size num_cls :: uptr
  assumes class_fits: "0 < s \<Longrightarrow> s \<le> max_size \<Longrightarrow>
      \<exists>c. class_of s = Inr c \<and> 0 < c \<and> c < num_cls \<and> s \<le> size_of c \<and> size_of (c - 1) < s"
    and class_size: "0 < c \<Longrightarrow> c < num_cls \<Longrightarrow> class_of (size_of c) = Inr c"
    and size_mono: "c < d \<Longrightarrow> d < num_cls \<Longrightarrow> size_of c < size_of d"
    and size_max: "c < num_cls \<Longrightarrow> size_of c \<le> max_size"
    and class_oversize: "max_size < s \<Longrightarrow> class_of s = Inr 0"
begin

lemma class_total: "0 < s \<Longrightarrow> \<exists>c. class_of s = Inr c"
  using class_fits [of s] class_oversize [of s] by (cases "s \<le> max_size") (auto simp: not_le)

lemma class_least:
  assumes "class_of s = Inr c" "0 < s" "s \<le> max_size" "d < num_cls" "s \<le> size_of d"
  shows "c \<le> d"
proof (rule ccontr)
  assume "\<not> c \<le> d"
  then have "d < c" by simp
  from class_fits [OF assms(2,3)] assms(1) have c: "0 < c" "c < num_cls" "size_of (c - 1) < s" by auto
  have "unat d \<le> unat (c - 1)" using \<open>d < c\<close> c(1) by (simp add: word_less_nat_alt unat_pred)
  then have "d = c - 1 \<or> d < c - 1" by (auto simp: word_less_nat_alt word_unat_eq_iff)
  moreover have "c - 1 < num_cls" using c(1,2) by (simp add: word_less_nat_alt unat_pred)
  ultimately have "size_of d \<le> size_of (c - 1)" using size_mono [of d "c - 1"] by auto
  then show False using c assms(5) by simp
qed

end

lemma sc_size_gap:
  assumes "sc_wf p"
  shows "sc_size p c + 2 \<le> sc_size p (Suc c)"
proof (cases "c < mid_class p")
  case True
  have "2 ^ 1 \<le> (2::nat) ^ kMinSizeLog p" using assms by (intro power_increasing) (auto simp: sc_wf_def)
  then show ?thesis using True by (simp add: sc_size_small)
next
  case False
  then obtain l q where lq: "kMidSizeLog p \<le> l" "2 ^ kS p \<le> q" "q < 2 * 2 ^ kS p"
    "c = mid_class p + (l - kMidSizeLog p) * 2 ^ kS p + (q - 2 ^ kS p)"
    "Suc c = mid_class p + (l - kMidSizeLog p) * 2 ^ kS p + (Suc q - 2 ^ kS p)"
    by (metis class_above_mid assms not_less)
  then have "sc_size p (Suc c) = sc_size p c + 2 ^ (l - kS p)"
    using sc_size_at [OF assms, of l q] sc_size_at [OF assms, of l "Suc q"] by simp
  moreover have "2 ^ 1 \<le> (2::nat) ^ (l - kS p)"
    using assms lq(1) by (intro power_increasing) (auto simp: sc_wf_def)
  ultimately show ?thesis by simp
qed

lemma unat_ClassID:
  "sc_wf p \<Longrightarrow> s \<le> kMaxSize p \<Longrightarrow> unat (of_nat (sc_class p (unat s)) :: uptr) = sc_class p (unat s)"
  using sc_class_bound [of p "unat s"] num_classes_bound [of p] sc_consts(3) [of p]
  by (simp add: word_le_nat_alt unat_of_nat)

lemma ClassID_fits:
  assumes "sc_wf p" "0 < s" "s \<le> kMaxSize p"
  shows "\<exists>c. ClassID p s = Inr c \<and> 0 < c \<and> c < kNumClasses p \<and> s \<le> Size p c \<and> Size p (c - 1) < s"
proof -
  let ?n = "sc_class p (unat s)"
  let ?c = "of_nat ?n :: uptr"
  have s: "0 < unat s" "unat s \<le> 2 ^ kMaxSizeLog p"
    using assms sc_consts(3) [OF assms(1)] by (auto simp: word_le_nat_alt word_less_nat_alt)
  have c: "unat ?c = ?n" using unat_ClassID [OF assms(1,3)] .
  have b: "?n < num_classes p" using sc_class_bound [OF assms(1) s(2)] .
  have l: "0 < ?n" "unat s \<le> sc_size p ?n" "sc_size p (?n - 1) < unat s"
    using sc_class_least [OF assms(1) s(1)] by auto
  have nz: "?c \<noteq> 0" using l(1) c by (auto simp: unat_0_iff [symmetric])
  have sz: "unat (Size p ?c) = sc_size p ?n" using unat_Size [OF assms(1), of ?c] b c by simp
  have sz1: "unat (Size p (?c - 1)) = sc_size p (?n - 1)"
    using unat_Size [OF assms(1), of "?c - 1"] b c nz by (simp add: unat_minus_one)
  show ?thesis
    by (rule exI [of _ ?c])
      (use ClassID_eq [OF assms(1,3)] nz l b c sz sz1 unat_kNumClasses [OF assms(1)]
        in \<open>simp add: word_less_nat_alt word_le_nat_alt\<close>)
qed

lemma Size_le_max: "sc_wf p \<Longrightarrow> c < kNumClasses p \<Longrightarrow> Size p c \<le> kMaxSize p"
  using unat_Size [of p c] sc_size_bound [of p "unat c"] unat_kNumClasses [of p] sc_consts(3) [of p]
  by (simp add: word_less_nat_alt word_le_nat_alt)

lemma ClassID_Size:
  assumes "sc_wf p" "0 < c" "c < kNumClasses p"
  shows "ClassID p (Size p c) = Inr c"
proof -
  have c: "unat c < num_classes p" "0 < unat c"
    using assms unat_kNumClasses [OF assms(1)] by (simp_all add: word_less_nat_alt)
  have "ClassID p (Size p c) = Inr (of_nat (sc_class p (sc_size p (unat c))))"
    using ClassID_eq [OF assms(1) Size_le_max [OF assms(1,3)]] unat_Size [OF assms(1) c(1)] by simp
  then show ?thesis using sc_class_sc_size [OF assms(1) c(2)] by simp
qed

lemma Size_mono: "sc_wf p \<Longrightarrow> c < d \<Longrightarrow> d < kNumClasses p \<Longrightarrow> Size p c < Size p d"
  using unat_Size [of p c] unat_Size [of p d] sc_size_mono [of p "unat c" "unat d"] unat_kNumClasses [of p]
  by (simp add: word_less_nat_alt)

lemma ClassID_oversize: "sc_wf p \<Longrightarrow> kMaxSize p < s \<Longrightarrow> ClassID p s = Inr 0"
proof -
  assume wf: "sc_wf p" and s: "kMaxSize p < s"
  have "kMidSize p \<le> kMaxSize p"
    using wf sc_consts [OF wf] by (auto simp: word_le_nat_alt sc_wf_def intro!: power_increasing)
  then have "\<not> s \<le> kMidSize p" using s by simp
  then show ?thesis using s by (simp add: ClassID_def)
qed

lemma default_wf: "sc_wf DefaultSizeClassMap"
  by (simp add: sc_wf_def DefaultSizeClassMap_def kS_def)

lemma compact_wf: "sc_wf CompactSizeClassMap"
  by (simp add: sc_wf_def CompactSizeClassMap_def kS_def)

lemma very_compact_wf: "sc_wf VeryCompactSizeClassMap"
  by (simp add: sc_wf_def VeryCompactSizeClassMap_def kS_def)

lemma sc_map: "sc_wf p \<Longrightarrow> size_class_map (Size p) (ClassID p) (kMaxSize p) (kNumClasses p)"
  by unfold_locales (auto simp: ClassID_fits ClassID_Size Size_mono Size_le_max ClassID_oversize)

interpretation default_map: size_class_map "Size DefaultSizeClassMap" "ClassID DefaultSizeClassMap"
    "kMaxSize DefaultSizeClassMap" "kNumClasses DefaultSizeClassMap"
  by (rule sc_map [OF default_wf])

lemma for_range_Inr: "(\<And>i. lo \<le> i \<Longrightarrow> i < lo + n \<Longrightarrow> body i = Inr ()) \<Longrightarrow> for_range lo n body = Inr ()"
  by (induction n arbitrary: lo) auto

lemma validate_class_ok:
  assumes wf: "sc_wf p" and "0 < c" "c < kNumClasses p"
  shows "validate_class p c = Inr ()"
proof -
  let ?s = "Size p c"
  have c: "unat c < num_classes p" "0 < unat c"
    using assms unat_kNumClasses [OF wf] by (simp_all add: word_less_nat_alt)
  have us: "unat ?s = sc_size p (unat c)" using unat_Size [OF wf c(1)] .
  have us1: "unat (Size p (c - 1)) = sc_size p (unat c - 1)"
    using unat_Size [OF wf, of "c - 1"] c by (simp add: unat_pred)
  have gap: "sc_size p (unat c - 1) + 2 \<le> unat ?s" using sc_size_gap [OF wf, of "unat c - 1"] c us by simp
  have smax: "unat ?s \<le> 2 ^ kMaxSizeLog p" using sc_size_bound [OF wf c(1)] us by simp
  have snz: "?s \<noteq> 0" using gap by (auto simp: unat_0_iff [symmetric])
  have prev: "ClassID p (?s - 1) = Inr c"
  proof -
    have "?s - 1 \<le> kMaxSize p" using Size_le_max [OF wf assms(3)] snz
      by (simp add: word_le_nat_alt unat_minus_one)
    moreover have "0 < ?s - 1" using gap snz by (simp add: word_less_nat_alt unat_minus_one)
    ultimately obtain d where d: "ClassID p (?s - 1) = Inr d" "0 < d" "d < kNumClasses p"
        "?s - 1 \<le> Size p d" "Size p (d - 1) < ?s - 1"
      using ClassID_fits [OF wf] by blast
    have ud: "unat d < num_classes p" "0 < unat d"
      using d unat_kNumClasses [OF wf] by (simp_all add: word_less_nat_alt)
    have "sc_size p (unat c - 1) < sc_size p (unat d)"
      using d(4) gap snz unat_Size [OF wf ud(1)] by (simp add: word_le_nat_alt unat_minus_one)
    then have "unat c - 1 < unat d" using sc_size_mono_iff [OF wf] by simp
    moreover have "sc_size p (unat d - 1) < sc_size p (unat c)"
      using d(5) snz us unat_Size [OF wf, of "d - 1"] ud by (simp add: word_less_nat_alt unat_minus_one unat_pred)
    then have "unat d - 1 < unat c" using sc_size_mono_iff [OF wf] by simp
    ultimately have "unat c = unat d" using c ud by linarith
    then show ?thesis using d(1) by (simp add: word_unat_eq_iff)
  qed
  have nxt: "ClassID p (?s + 1) = Inr (c + 1)" if "c \<noteq> kNumClasses p - 1"
  proof -
    have "unat (kNumClasses p - 1) = num_classes p - 1"
      using unat_kNumClasses [OF wf] c by (subst unat_minus_one) (auto simp: unat_0_iff [symmetric])
    then have c1: "Suc (unat c) < num_classes p" using that c by (auto simp: word_unat_eq_iff)
    then have uc1: "unat (c + 1) = Suc (unat c)"
      using num_classes_bound [OF wf] by (simp add: unat_word_ariths)
    have big: "unat ?s + 2 \<le> sc_size p (Suc (unat c))" using sc_size_gap [OF wf] us by simp
    have b31: "(2::nat) ^ kMaxSizeLog p < 2 ^ 31"
      using wf by (intro power_strict_increasing) (auto simp: sc_wf_def)
    have us_1: "unat (?s + 1) = unat ?s + 1" using smax b31 by (subst unat_add_nowrap) simp_all
    have le: "?s + 1 \<le> kMaxSize p"
      using big sc_size_bound [OF wf c1] sc_consts(3) [OF wf] by (simp add: word_le_nat_alt us_1)
    have "0 < ?s + 1" by (simp add: word_less_nat_alt us_1)
    then obtain d where d: "ClassID p (?s + 1) = Inr d" "0 < d" "d < kNumClasses p"
        "?s + 1 \<le> Size p d" "Size p (d - 1) < ?s + 1"
      using ClassID_fits [OF wf _ le] by blast
    have ud: "unat d < num_classes p" "0 < unat d"
      using d unat_kNumClasses [OF wf] by (simp_all add: word_less_nat_alt)
    have "sc_size p (unat c) < sc_size p (unat d)"
      using d(4) us unat_Size [OF wf ud(1)] by (simp add: word_le_nat_alt us_1)
    then have "unat c < unat d" using sc_size_mono_iff [OF wf] by simp
    moreover have "sc_size p (unat d - 1) < sc_size p (Suc (unat c))"
      using d(5) big unat_Size [OF wf, of "d - 1"] ud by (simp add: word_less_nat_alt unat_pred us_1)
    then have "unat d - 1 < Suc (unat c)" using sc_size_mono_iff [OF wf] by simp
    ultimately have "unat d = Suc (unat c)" using ud by linarith
    then show ?thesis using d(1) uc1 by (simp add: word_unat_eq_iff)
  qed
  have less: "Size p (c - 1) < ?s" using us1 gap by (simp add: word_less_nat_alt)
  have third: "(if c \<noteq> kNumClasses p - 1
      then bindr (ClassID p (?s + 1)) (\<lambda>cn. check (cn = c + 1) ''ClassID(s + 1) == c + 1'' (Inr ()))
      else Inr ()) = Inr ()"
    using nxt by auto
  show ?thesis
    unfolding validate_class_def Let_def third
    using snz ClassID_Size [OF wf assms(2,3)] prev less by simp
qed

lemma validate_size_ok:
  assumes "sc_wf p" "0 < s" "s \<le> kMaxSize p"
  shows "validate_size p s = Inr ()"
  using ClassID_fits [OF assms] by (auto simp: validate_size_def)

lemma Validate_ok:
  assumes wf: "sc_wf p"
  shows "Validate p = Inr ()"
proof -
  have cls: "for_range 1 (unat (kNumClasses p) - 1) (\<lambda>c. validate_class p (of_nat c)) = Inr ()"
  proof (rule for_range_Inr)
    fix i assume i: "1 \<le> i" "i < 1 + (unat (kNumClasses p) - 1)"
    then have "unat (of_nat i :: uptr) = i"
      using num_classes_bound [OF wf] unat_kNumClasses [OF wf] by (simp add: unat_of_nat)
    then show "validate_class p (of_nat i) = Inr ()"
      using i by (intro validate_class_ok [OF wf]) (simp_all add: word_less_nat_alt)
  qed
  have lt: "unat (kMaxSize p) < 2 ^ 31"
    using sc_consts(3) [OF wf] wf power_strict_increasing [of "kMaxSizeLog p" 31 "2::nat"]
    by (simp add: sc_wf_def)
  have szs: "for_range 1 (unat (kMaxSize p)) (\<lambda>s. validate_size p (of_nat s)) = Inr ()"
  proof (rule for_range_Inr)
    fix i assume i: "1 \<le> i" "i < 1 + unat (kMaxSize p)"
    then have "unat (of_nat i :: uptr) = i" using lt by (simp add: unat_of_nat)
    then show "validate_size p (of_nat i) = Inr ()"
      using i by (intro validate_size_ok [OF wf]) (simp_all add: word_less_nat_alt word_le_nat_alt)
  qed
  have "unat (kMaxSize p + 1) = unat (kMaxSize p) + 1" using lt by (subst unat_add_nowrap) simp_all
  then have "kMaxSize p < kMaxSize p + 1" by (simp add: word_less_nat_alt)
  then show ?thesis using cls szs ClassID_oversize [OF wf] by (simp add: Validate_def)
qed

text \<open>
  C11. The size class map serves every request from the least class that holds it: for all
  template parameters whose sizes fit a word, a request \<open>s\<close> of at most \<open>kMaxSize\<close> bytes gets
  a class inside the table whose size is at least \<open>s\<close>, every other class that holds \<open>s\<close> bytes
  is at least as large, and a class size is mapped back to its own class.
\<close>

theorem size_class_least:
  assumes "sc_wf p" and "0 < s" and "s \<le> kMaxSize p"
  shows "\<exists>c. ClassID p s = Inr c \<and> 0 < c \<and> c < kNumClasses p \<and> s \<le> Size p c
    \<and> ClassID p (Size p c) = Inr c
    \<and> (\<forall>d. d < kNumClasses p \<and> s \<le> Size p d \<longrightarrow> c \<le> d)"
proof -
  from size_class_map.class_fits [OF sc_map [OF assms(1)] assms(2,3)] obtain c where
    c: "ClassID p s = Inr c" "0 < c" "c < kNumClasses p" "s \<le> Size p c" by blast
  moreover have "c \<le> d" if "d < kNumClasses p" "s \<le> Size p d" for d
    using size_class_map.class_least [OF sc_map [OF assms(1)] c(1) assms(2,3) that] .
  ultimately show ?thesis using ClassID_Size [OF assms(1)] by blast
qed

theorem size_class_least_witness:
  "\<exists>c. ClassID DefaultSizeClassMap 300 = Inr c \<and> 0 < c \<and> c < kNumClasses DefaultSizeClassMap
    \<and> 300 \<le> Size DefaultSizeClassMap c \<and> ClassID DefaultSizeClassMap (Size DefaultSizeClassMap c) = Inr c
    \<and> (\<forall>d. d < kNumClasses DefaultSizeClassMap \<and> 300 \<le> Size DefaultSizeClassMap d \<longrightarrow> c \<le> d)"
  by (rule size_class_least) (simp_all add: default_wf, simp add: kMaxSize_def DefaultSizeClassMap_def)

text \<open>
  The self-check \<^verbatim>\<open>Validate\<close> passes for the three size class maps of the source: none of
  its checks over all classes and over all sizes up to \<open>kMaxSize\<close> fails.
\<close>

theorem size_class_validate:
  "Validate DefaultSizeClassMap = Inr () \<and> Validate CompactSizeClassMap = Inr ()
    \<and> Validate VeryCompactSizeClassMap = Inr ()"
  by (simp add: Validate_ok default_wf compact_wf very_compact_wf)

end
