(* ===== verification/HeapSort.thy ===== *)
theory HeapSort
  imports Prelude "HOL-Library.Multiset"
begin

text \<open>
  \<^verbatim>\<open>InternalSort\<close>, the in-place heap sort of \<^verbatim>\<open>sanitizer_common.h\<close>, \<^verbatim>\<open>SortArray\<close> and
  \<^verbatim>\<open>InternalLowerBound\<close>. An array is a list, an index a natural number. The comparison
  is a parameter of the C++ templates; the locale \<open>key_order\<close> states the contract a
  comparison has to meet, and every comparison of the runtime is an interpretation of it.
\<close>

section \<open>The algorithms\<close>

definition swap :: "'a list \<Rightarrow> nat \<Rightarrow> nat \<Rightarrow> 'a list" where
  "swap v i j = v[i := v ! j, j := v ! i]"

text \<open>The inner loop of stage 1: an element moves up while its parent compares less.\<close>

fun sift_up :: "('a \<Rightarrow> 'a \<Rightarrow> bool) \<Rightarrow> 'a list \<Rightarrow> nat \<Rightarrow> 'a list" where
  "sift_up cmp v j =
     (if 0 < j then
        (let p = (j - 1) div 2 in
         if cmp (v ! p) (v ! j) then sift_up cmp (swap v j p) p else v)
      else v)"

function build_heap :: "('a \<Rightarrow> 'a \<Rightarrow> bool) \<Rightarrow> 'a list \<Rightarrow> nat \<Rightarrow> nat \<Rightarrow> 'a list" where
  "build_heap cmp v i sz =
     (if i < sz then build_heap cmp (sift_up cmp v i) (i + 1) sz else v)"
  by pat_completeness auto
termination
  by (relation "measure (\<lambda>(cmp, v, i, sz). sz - i)") auto

text \<open>The child the new top sinks to: the larger one, if it is larger than the element.\<close>

definition max_index :: "('a \<Rightarrow> 'a \<Rightarrow> bool) \<Rightarrow> 'a list \<Rightarrow> nat \<Rightarrow> nat \<Rightarrow> nat" where
  "max_index cmp v j i =
     (let left = 2 * j + 1; right = 2 * j + 2;
          m = (if left < i \<and> cmp (v ! j) (v ! left) then left else j)
      in if right < i \<and> cmp (v ! m) (v ! right) then right else m)"

lemma max_index_bounds: "max_index cmp v j i \<noteq> j \<Longrightarrow> j < max_index cmp v j i \<and> max_index cmp v j i < i"
  by (auto simp: max_index_def Let_def split: if_splits)

function sift_down :: "('a \<Rightarrow> 'a \<Rightarrow> bool) \<Rightarrow> 'a list \<Rightarrow> nat \<Rightarrow> nat \<Rightarrow> 'a list" where
  "sift_down cmp v j i =
     (if j < i then
        (let m = max_index cmp v j i in
         if m \<noteq> j then sift_down cmp (swap v j m) m i else v)
      else v)"
  by pat_completeness auto
termination
  by (relation "measure (\<lambda>(cmp, v, j, i). i - j)") (auto dest: max_index_bounds)

fun pop_all :: "('a \<Rightarrow> 'a \<Rightarrow> bool) \<Rightarrow> 'a list \<Rightarrow> nat \<Rightarrow> 'a list" where
  "pop_all cmp v 0 = v"
| "pop_all cmp v (Suc i) = pop_all cmp (sift_down cmp (swap v 0 (Suc i)) 0 (Suc i)) i"

definition InternalSort :: "'a list \<Rightarrow> nat \<Rightarrow> ('a \<Rightarrow> 'a \<Rightarrow> bool) \<Rightarrow> 'a list" where
  "InternalSort v sz cmp =
     (if sz < 2 then v else pop_all cmp (build_heap cmp v 1 sz) (sz - 1))"

definition CompareLess :: "'a::len word \<Rightarrow> 'a word \<Rightarrow> bool" where
  "CompareLess a b \<longleftrightarrow> a < b"

definition SortArray :: "'a::len word list \<Rightarrow> nat \<Rightarrow> 'a word list" where
  "SortArray array sz = InternalSort array sz CompareLess"

function InternalLowerBound :: "'a list \<Rightarrow> nat \<Rightarrow> nat \<Rightarrow> 'b \<Rightarrow> ('a \<Rightarrow> 'b \<Rightarrow> bool) \<Rightarrow> nat" where
  "InternalLowerBound v lo hi val cmp =
     (if lo < hi then
        (let mid = (lo + hi) div 2 in
         if cmp (v ! mid) val then InternalLowerBound v (mid + 1) hi val cmp
         else InternalLowerBound v lo mid val cmp)
      else lo)"
  by pat_completeness auto
termination
  by (relation "measure (\<lambda>(v, lo, hi, val, cmp). hi - lo)") auto

declare sift_up.simps [simp del] build_heap.simps [simp del] sift_down.simps [simp del]
  InternalLowerBound.simps [simp del]

section \<open>Every step permutes the array and keeps the elements past the bound\<close>

lemma length_swap [simp]: "length (swap v i j) = length v"
  by (simp add: swap_def)

lemma mset_swap [simp]: "i < length v \<Longrightarrow> j < length v \<Longrightarrow> mset (swap v i j) = mset v"
  unfolding swap_def by (rule mset_swap)

lemma nth_swap: "i < length v \<Longrightarrow> j < length v \<Longrightarrow>
    swap v i j ! k = (if k = i then v ! j else if k = j then v ! i else v ! k)"
  by (auto simp: swap_def nth_list_update)

lemma sift_up_perm:
  "j < length v \<Longrightarrow> length (sift_up cmp v j) = length v \<and> mset (sift_up cmp v j) = mset v
     \<and> (\<forall>k. j < k \<longrightarrow> sift_up cmp v j ! k = v ! k)"
proof (induction cmp v j rule: sift_up.induct)
  case (1 cmp v j)
  show ?case
  proof (cases "0 < j \<and> cmp (v ! ((j - 1) div 2)) (v ! j)")
    case True
    with 1 show ?thesis by (subst (1 2 3) sift_up.simps) (auto simp: Let_def nth_swap)
  next
    case False
    then show ?thesis by (subst (1 2 3) sift_up.simps) (auto simp: Let_def)
  qed
qed

lemma sift_down_perm:
  "i \<le> length v \<Longrightarrow> length (sift_down cmp v j i) = length v \<and> mset (sift_down cmp v j i) = mset v
     \<and> (\<forall>k\<ge>i. sift_down cmp v j i ! k = v ! k)"
proof (induction cmp v j i rule: sift_down.induct)
  case (1 cmp v j i)
  show ?case
  proof (cases "j < i \<and> max_index cmp v j i \<noteq> j")
    case True
    with 1 max_index_bounds [of cmp v j i] show ?thesis
      by (subst (1 2 3) sift_down.simps) (auto simp: Let_def nth_swap)
  next
    case False
    then show ?thesis by (subst (1 2 3) sift_down.simps) (auto simp: Let_def)
  qed
qed

section \<open>The contract of a comparison, and what the algorithms do under it\<close>

definition par :: "nat \<Rightarrow> nat" where
  "par k = (k - 1) div 2"

lemma par_less: "0 < k \<Longrightarrow> par k < k"
  by (auto simp: par_def)

lemma par_child: "0 < k \<Longrightarrow> par k = j \<longleftrightarrow> k = 2 * j + 1 \<or> k = 2 * j + 2"
  by (auto simp: par_def)

locale key_order =
  fixes cmp :: "'a \<Rightarrow> 'a \<Rightarrow> bool" and key :: "'a \<Rightarrow> 'k::linorder"
  assumes cmp_key: "cmp a b \<longleftrightarrow> key a < key b"
begin

definition heap :: "'a list \<Rightarrow> nat \<Rightarrow> bool" where
  "heap v n \<longleftrightarrow> (\<forall>k. 0 < k \<and> k < n \<longrightarrow> key (v ! k) \<le> key (v ! par k))"

lemma sift_up_heap:
  assumes "j < n" "n \<le> length v"
    and "\<And>k. 0 < k \<Longrightarrow> k < n \<Longrightarrow> k \<noteq> j \<Longrightarrow> key (v ! k) \<le> key (v ! par k)"
    and "\<And>k. 0 < k \<Longrightarrow> k < n \<Longrightarrow> par k = j \<Longrightarrow> 0 < j \<Longrightarrow> key (v ! k) \<le> key (v ! par j)"
  shows "heap (sift_up cmp v j) n"
  using assms
proof (induction j arbitrary: v rule: less_induct)
  case (less j)
  show ?case
  proof (cases "0 < j \<and> cmp (v ! par j) (v ! j)")
    case False
    then have eq: "sift_up cmp v j = v" by (subst sift_up.simps) (auto simp: par_def Let_def)
    show ?thesis unfolding eq heap_def
    proof (intro allI impI)
      fix k assume k: "0 < k \<and> k < n"
      show "key (v ! k) \<le> key (v ! par k)"
        using False k less.prems(3) [of k] by (cases "k = j") (auto simp: cmp_key)
    qed
  next
    case True
    let ?p = "par j" and ?v = "swap v j (par j)"
    have p: "?p < j" using True by (simp add: par_less)
    have lt: "key (v ! ?p) < key (v ! j)" using True by (simp add: cmp_key)
    have eq: "sift_up cmp v j = sift_up cmp ?v ?p"
      using True by (subst sift_up.simps) (simp add: par_def Let_def)
    have nth: "?v ! k = (if k = j then v ! ?p else if k = ?p then v ! j else v ! k)" for k
      using p less.prems(1,2) by (subst nth_swap) auto
    show ?thesis unfolding eq
    proof (rule less.IH [OF p])
      fix k assume k: "0 < k" "k < n" "k \<noteq> ?p"
      show "key (?v ! k) \<le> key (?v ! par k)"
        using less.prems(3) [of k] less.prems(4) [of k] k lt p True par_less [of k]
        by (auto simp: nth)
    next
      fix k assume k: "0 < k" "k < n" "par k = ?p" "0 < ?p"
      have pp: "par ?p < ?p" using k(4) by (rule par_less)
      have "key (v ! ?p) \<le> key (v ! par ?p)" using less.prems(1) less.prems(3) [of ?p] k(4) p by simp
      moreover have "key (v ! k) \<le> key (v ! ?p)" if "k \<noteq> j" using less.prems(3) [of k] k that by simp
      ultimately show "key (?v ! k) \<le> key (?v ! par ?p)"
        using k p pp by (auto simp: nth par_less intro: order_trans)
    qed (use less.prems(1,2) p in auto)
  qed
qed

lemma build_heap_heap:
  assumes "heap v i" "0 < i" "i \<le> sz" "sz \<le> length v"
  shows "heap (build_heap cmp v i sz) sz \<and> length (build_heap cmp v i sz) = length v
     \<and> mset (build_heap cmp v i sz) = mset v
     \<and> (\<forall>k\<ge>sz. build_heap cmp v i sz ! k = v ! k)"
  using assms
proof (induction "sz - i" arbitrary: i v)
  case 0
  then show ?case by (subst (1 2 3 4) build_heap.simps) simp
next
  case (Suc d)
  let ?v = "sift_up cmp v i"
  from Suc have i: "i < sz" by simp
  have perm: "length ?v = length v \<and> mset ?v = mset v \<and> (\<forall>k. i < k \<longrightarrow> ?v ! k = v ! k)"
    using Suc.prems i by (intro sift_up_perm) simp
  have "heap ?v (Suc i)"
  proof (rule sift_up_heap)
    fix k assume "0 < k" "k < Suc i" "k \<noteq> i"
    then show "key (v ! k) \<le> key (v ! par k)" using Suc.prems(1) by (simp add: heap_def)
  next
    fix k assume "0 < k" "k < Suc i" "par k = i" "0 < i"
    then show "key (v ! k) \<le> key (v ! par i)" using par_less [of k] by simp
  qed (use Suc.prems i in auto)
  then show ?case
    using Suc.hyps(1) [of "Suc i" ?v] Suc.hyps(2) Suc.prems i perm
    by (subst (1 2 3 4) build_heap.simps) simp
qed

lemma max_index_larger:
  assumes "max_index cmp v j n \<noteq> j"
  shows "par (max_index cmp v j n) = j \<and> key (v ! j) < key (v ! max_index cmp v j n) \<and>
    (2 * j + 1 < n \<longrightarrow> key (v ! (2 * j + 1)) \<le> key (v ! max_index cmp v j n)) \<and>
    (2 * j + 2 < n \<longrightarrow> key (v ! (2 * j + 2)) \<le> key (v ! max_index cmp v j n))"
  using assms by (auto simp: max_index_def Let_def cmp_key par_def not_less split: if_splits)

lemma sift_down_heap:
  assumes "n \<le> length v"
    and "\<And>k. 0 < k \<Longrightarrow> k < n \<Longrightarrow> par k \<noteq> j \<Longrightarrow> key (v ! k) \<le> key (v ! par k)"
    and "\<And>k. 0 < k \<Longrightarrow> k < n \<Longrightarrow> par k = j \<Longrightarrow> 0 < j \<Longrightarrow> key (v ! k) \<le> key (v ! par j)"
  shows "heap (sift_down cmp v j n) n"
  using assms
proof (induction "n - j" arbitrary: v j rule: less_induct)
  case less
  let ?m = "max_index cmp v j n"
  show ?case
  proof (cases "j < n \<and> ?m \<noteq> j")
    case False
    then have eq: "sift_down cmp v j n = v" by (subst sift_down.simps) (auto simp: Let_def)
    have "key (v ! k) \<le> key (v ! j)" if "0 < k" "k < n" "par k = j" for k
      using False that par_less [of k]
      by (auto simp: max_index_def Let_def cmp_key par_child not_less split: if_splits)
    then show ?thesis unfolding eq heap_def using less.prems(2) by metis
  next
    case True
    then have jm: "j < ?m" "?m < n" using max_index_bounds [of cmp v j n] by auto
    have mchild: "par ?m = j" and mbig: "key (v ! j) < key (v ! ?m)"
      using max_index_larger [of v j n] True by auto
    have msib: "key (v ! k) \<le> key (v ! ?m)" if "0 < k" "k < n" "par k = j" for k
      using max_index_larger [of v j n] True that par_child [of k j] by auto
    let ?v = "swap v j ?m"
    have eq: "sift_down cmp v j n = sift_down cmp ?v ?m n"
      using True by (subst sift_down.simps) (simp add: Let_def)
    have nth: "?v ! k = (if k = j then v ! ?m else if k = ?m then v ! j else v ! k)" for k
      using jm less.prems(1) by (subst nth_swap) auto
    show ?thesis unfolding eq
    proof (rule less.hyps)
      fix k assume k: "0 < k" "k < n" "par k \<noteq> ?m"
      show "key (?v ! k) \<le> key (?v ! par k)"
        using less.prems(2) [of k] less.prems(3) [of ?m] msib [of k] mbig mchild k jm par_less [of k]
        by (auto simp: nth)
    next
      fix k assume k: "0 < k" "k < n" "par k = ?m" "0 < ?m"
      then show "key (?v ! k) \<le> key (?v ! par ?m)"
        using less.prems(2) [of k] mchild jm par_less [of k] by (auto simp: nth)
    qed (use jm less.prems(1) in auto)
  qed
qed

lemma heap_max: "heap v n \<Longrightarrow> k < n \<Longrightarrow> key (v ! k) \<le> key (v ! 0)"
proof (induction k rule: less_induct)
  case (less k)
  then show ?case
    using par_less [of k] unfolding heap_def
    by (cases "k = 0") (auto intro: order_trans [of _ "key (v ! par k)"])
qed

text \<open>
  Stage 2 keeps: the first \<open>i + 1\<close> elements form a heap, the others are sorted and not smaller.
\<close>

definition split_inv :: "'a list \<Rightarrow> nat \<Rightarrow> nat \<Rightarrow> bool" where
  "split_inv v i n \<longleftrightarrow> i < n \<and> n \<le> length v \<and> heap v (Suc i) \<and>
     (\<forall>a b. i < a \<and> a \<le> b \<and> b < n \<longrightarrow> key (v ! a) \<le> key (v ! b)) \<and>
     (\<forall>a b. a \<le> i \<and> i < b \<and> b < n \<longrightarrow> key (v ! a) \<le> key (v ! b))"

lemma sift_down_prefix:
  assumes "i \<le> length v" and "a < i"
  shows "\<exists>c<i. sift_down cmp v 0 i ! a = v ! c"
proof -
  let ?w = "sift_down cmp v 0 i"
  have perm: "length ?w = length v \<and> mset ?w = mset v \<and> (\<forall>k\<ge>i. ?w ! k = v ! k)"
    using assms by (intro sift_down_perm)
  have "drop i ?w = drop i v"
    using perm by (intro nth_equalityI) auto
  moreover have "mset (take i ?w) + mset (drop i ?w) = mset (take i v) + mset (drop i v)"
    using perm by (metis append_take_drop_id mset_append)
  ultimately have "mset (take i ?w) = mset (take i v)" by simp
  then have "set (take i ?w) = set (take i v)" by (rule mset_eq_setD)
  moreover have "?w ! a \<in> set (take i ?w)"
    using assms perm by (auto simp: in_set_conv_nth intro!: exI [of _ a])
  ultimately show ?thesis using assms by (auto simp: in_set_conv_nth)
qed

lemma split_inv_step:
  assumes "split_inv v (Suc i) n"
  shows "split_inv (sift_down cmp (swap v 0 (Suc i)) 0 (Suc i)) i n"
proof -
  let ?v = "swap v 0 (Suc i)" and ?w = "sift_down cmp (swap v 0 (Suc i)) 0 (Suc i)"
  have n: "Suc i < n" "n \<le> length v" and hp: "heap v (Suc (Suc i))"
    and srt: "\<And>a b. Suc i < a \<Longrightarrow> a \<le> b \<Longrightarrow> b < n \<Longrightarrow> key (v ! a) \<le> key (v ! b)"
    and cross: "\<And>a b. a \<le> Suc i \<Longrightarrow> Suc i < b \<Longrightarrow> b < n \<Longrightarrow> key (v ! a) \<le> key (v ! b)"
    using assms by (auto simp: split_inv_def)
  have nth: "?v ! k = (if k = 0 then v ! Suc i else if k = Suc i then v ! 0 else v ! k)" for k
    using n by (subst nth_swap) auto
  have len: "length ?w = length v" and tail: "\<And>k. Suc i \<le> k \<Longrightarrow> ?w ! k = ?v ! k"
    using n sift_down_perm [of "Suc i" ?v cmp 0] by auto
  have "heap ?w (Suc i)"
  proof (rule sift_down_heap)
    fix k assume "0 < k" "k < Suc i" "par k \<noteq> 0"
    then show "key (?v ! k) \<le> key (?v ! par k)"
      using hp par_less [of k] by (simp add: nth heap_def)
  qed (use n in auto)
  moreover have "key (?w ! a) \<le> key (?w ! b)" if ab: "a \<le> i" "i < b" "b < n" for a b
  proof -
    obtain c where c: "c < Suc i" "?w ! a = ?v ! c"
      using sift_down_prefix [of "Suc i" ?v a] n ab by auto
    then have "?w ! a = v ! (if c = 0 then Suc i else c)" by (simp add: nth)
    moreover have "(if c = 0 then Suc i else c) \<le> Suc i" using c by simp
    ultimately obtain d where d: "d \<le> Suc i" "?w ! a = v ! d" by blast
    show ?thesis
    proof (cases "b = Suc i")
      case True
      then show ?thesis using heap_max [OF hp, of d] d tail [of b] by (simp add: nth)
    next
      case False
      then show ?thesis using cross [of d b] d ab tail [of b] by (simp add: nth)
    qed
  qed
  moreover have "key (?w ! a) \<le> key (?w ! b)" if "i < a" "a \<le> b" "b < n" for a b
    using that tail [of a] tail [of b] srt [of a b] cross [of 0 b]
    by (cases "a = Suc i"; cases "b = Suc i") (auto simp: nth)
  ultimately show ?thesis using n len by (auto simp: split_inv_def)
qed

lemma pop_all_perm:
  "i < length v \<Longrightarrow> length (pop_all cmp v i) = length v \<and> mset (pop_all cmp v i) = mset v
     \<and> (\<forall>k. i < k \<longrightarrow> pop_all cmp v i ! k = v ! k)"
proof (induction i arbitrary: v)
  case (Suc i)
  let ?v = "swap v 0 (Suc i)"
  have "0 < length v" using Suc.prems by linarith
  then show ?case
    using Suc.IH [of "sift_down cmp ?v 0 (Suc i)"] Suc.prems sift_down_perm [of "Suc i" ?v cmp 0]
    by (simp add: nth_swap del: length_greater_0_conv)
qed simp

lemma pop_all_sorted:
  "split_inv v i n \<Longrightarrow> split_inv (pop_all cmp v i) 0 n"
  by (induction i arbitrary: v) (auto dest: split_inv_step)

lemma InternalSort_sorts:
  assumes "sz \<le> length v"
  shows "sorted (map key (take sz (InternalSort v sz cmp)))
    \<and> mset (InternalSort v sz cmp) = mset v
    \<and> drop sz (InternalSort v sz cmp) = drop sz v"
proof (cases "sz < 2")
  case True
  then have "length (take sz v) \<le> 1" by simp
  then have "sorted (map key (take sz v))" by (cases "take sz v") auto
  with True show ?thesis by (simp add: InternalSort_def)
next
  case False
  let ?b = "build_heap cmp v 1 sz" and ?r = "InternalSort v sz cmp"
  have b: "heap ?b sz" "length ?b = length v" "mset ?b = mset v" "\<And>k. sz \<le> k \<Longrightarrow> ?b ! k = v ! k"
    using build_heap_heap [of v 1 sz] assms False by (auto simp: heap_def)
  have r: "?r = pop_all cmp ?b (sz - 1)" using False by (simp add: InternalSort_def)
  have perm: "length ?r = length v" "mset ?r = mset v" "\<And>k. sz \<le> k \<Longrightarrow> ?r ! k = v ! k"
    using pop_all_perm [of "sz - 1" ?b] b assms False unfolding r by auto
  have "split_inv ?b (sz - 1) sz" using b assms False by (auto simp: split_inv_def)
  then have inv: "split_inv ?r 0 sz" unfolding r by (rule pop_all_sorted)
  have "key (?r ! a) \<le> key (?r ! c)" if "a \<le> c" "c < sz" for a c
    using inv that unfolding split_inv_def by (cases "a = 0"; cases "c = 0") auto
  then have "sorted (map key (take sz ?r))"
    using perm(1) assms by (auto simp: sorted_iff_nth_mono)
  moreover have "drop sz ?r = drop sz v"
    using perm by (intro nth_equalityI) auto
  ultimately show ?thesis using perm(2) by blast
qed

definition lower_bound_of :: "'a list \<Rightarrow> nat \<Rightarrow> nat \<Rightarrow> 'a \<Rightarrow> nat \<Rightarrow> bool" where
  "lower_bound_of v lo hi val r \<longleftrightarrow> lo \<le> r \<and> r \<le> hi \<and>
     (\<forall>i. lo \<le> i \<and> i < r \<longrightarrow> cmp (v ! i) val) \<and> (\<forall>i. r \<le> i \<and> i < hi \<longrightarrow> \<not> cmp (v ! i) val)"

lemma InternalLowerBound_bounds:
  assumes "\<And>i j. lo \<le> i \<Longrightarrow> i \<le> j \<Longrightarrow> j < hi \<Longrightarrow> key (v ! i) \<le> key (v ! j)" and "lo \<le> hi"
  shows "lower_bound_of v lo hi val (InternalLowerBound v lo hi val cmp)"
  using assms
proof (induction "hi - lo" arbitrary: lo hi rule: less_induct)
  case less
  show ?case
  proof (cases "lo < hi")
    case False
    then show ?thesis
      using less.prems by (subst InternalLowerBound.simps) (auto simp: lower_bound_of_def)
  next
    case True
    let ?mid = "(lo + hi) div 2"
    have mid: "lo \<le> ?mid" "?mid < hi" using True by auto
    show ?thesis
    proof (cases "cmp (v ! ?mid) val")
      case c: True
      have eq: "InternalLowerBound v lo hi val cmp = InternalLowerBound v (?mid + 1) hi val cmp"
        using True c by (subst InternalLowerBound.simps) (simp add: Let_def)
      have low: "cmp (v ! i) val" if "lo \<le> i" "i \<le> ?mid" for i
        using less.prems(1) [of i ?mid] that mid c by (simp add: cmp_key)
      show ?thesis
      proof -
        have "lower_bound_of v (?mid + 1) hi val (InternalLowerBound v (?mid + 1) hi val cmp)"
          using less.hyps [of hi "?mid + 1"] less.prems(1) mid by simp
        moreover have "cmp (v ! i) val"
          if "lo \<le> i" "?mid + 1 \<le> i \<and> i < r \<longrightarrow> cmp (v ! i) val" "i < r" for i r
          using low [of i] that by (cases "i \<le> ?mid") auto
        ultimately show ?thesis unfolding eq lower_bound_of_def using mid by auto
      qed
    next
      case c: False
      have eq: "InternalLowerBound v lo hi val cmp = InternalLowerBound v lo ?mid val cmp"
        using True c by (subst InternalLowerBound.simps) (simp add: Let_def)
      have high: "\<not> cmp (v ! i) val" if "?mid \<le> i" "i < hi" for i
        using less.prems(1) [of ?mid i] that mid c by (simp add: cmp_key)
      show ?thesis
      proof -
        have "lower_bound_of v lo ?mid val (InternalLowerBound v lo ?mid val cmp)"
          using less.hyps [of ?mid lo] less.prems(1) mid by simp
        moreover have "\<not> cmp (v ! i) val"
          if "i < hi" "r \<le> i \<and> i < ?mid \<longrightarrow> \<not> cmp (v ! i) val" "r \<le> i" for i r
          using high [of i] that by (cases "?mid \<le> i") auto
        ultimately show ?thesis unfolding eq lower_bound_of_def using mid by auto
      qed
    qed
  qed
qed

end

interpretation less_order: key_order CompareLess "\<lambda>a. a"
  by unfold_locales (simp add: CompareLess_def)

text \<open>
  C40. \<^verbatim>\<open>SortArray\<close> sorts: the first \<open>sz\<close> elements of the result are in ascending
  order, the result is a permutation of the argument, and the elements past the first \<open>sz\<close>
  stay where they are.
\<close>

theorem SortArray_sorts:
  assumes "sz \<le> length array"
  shows "sorted (take sz (SortArray array sz)) \<and> mset (SortArray array sz) = mset array
    \<and> drop sz (SortArray array sz) = drop sz array"
  using less_order.InternalSort_sorts [OF assms] by (simp add: SortArray_def)

theorem SortArray_sorts_witness:
  "sorted (take 3 (SortArray [9, 4, 7, 1 :: uptr] 3)) \<and> mset (SortArray [9, 4, 7, 1 :: uptr] 3) = mset [9, 4, 7, 1]
    \<and> drop 3 (SortArray [9, 4, 7, 1 :: uptr] 3) = drop 3 [9, 4, 7, 1]"
  by (rule SortArray_sorts) simp

text \<open>
  \<^verbatim>\<open>InternalLowerBound\<close> finds the first element that is not less than the value:
  on a range in ascending order it returns an index of the range or its end, every element
  before the index is less than the value, and no element from the index on is.
\<close>

theorem InternalLowerBound_least:
  assumes "\<forall>i j. lo \<le> i \<and> i \<le> j \<and> j < hi \<longrightarrow> v ! i \<le> (v ! j :: 'a::len word)" and "lo \<le> hi"
  shows "lo \<le> InternalLowerBound v lo hi val CompareLess \<and> InternalLowerBound v lo hi val CompareLess \<le> hi
    \<and> (\<forall>i. lo \<le> i \<and> i < InternalLowerBound v lo hi val CompareLess \<longrightarrow> v ! i < val)
    \<and> (\<forall>i. InternalLowerBound v lo hi val CompareLess \<le> i \<and> i < hi \<longrightarrow> val \<le> v ! i)"
proof -
  have "less_order.lower_bound_of v lo hi val (InternalLowerBound v lo hi val CompareLess)"
    using assms by (intro less_order.InternalLowerBound_bounds) auto
  then show ?thesis
    by (auto simp: less_order.lower_bound_of_def CompareLess_def not_less)
qed

theorem InternalLowerBound_least_witness: "InternalLowerBound [2, 5, 8 :: uptr] 0 3 6 CompareLess = 2"
proof -
  have "\<forall>i j. 0 \<le> i \<and> i \<le> j \<and> j < 3 \<longrightarrow> [2, 5, 8] ! i \<le> ([2, 5, 8] ! j :: uptr)"
  proof (intro allI impI, elim conjE)
    fix i j :: nat assume "i \<le> j" "j < 3"
    then have "i = 0 \<or> i = 1 \<or> i = 2" and "j = 0 \<or> j = 1 \<or> j = 2" by linarith+
    with \<open>i \<le> j\<close> show "[2, 5, 8] ! i \<le> ([2, 5, 8] ! j :: uptr)" by (elim disjE) simp_all
  qed
  note spec = InternalLowerBound_least [OF this le0, of 6]
  obtain r where r: "r = InternalLowerBound [2, 5, 8 :: uptr] 0 3 6 CompareLess" by simp
  have bound: "r \<le> 3" using spec unfolding r by (elim conjE)
  have "2 < r \<Longrightarrow> [2, 5, 8 :: uptr] ! 2 < 6" using spec unfolding r by (elim conjE) (erule allE, erule mp, simp)
  moreover have "r \<le> 1 \<Longrightarrow> 6 \<le> [2, 5, 8 :: uptr] ! 1" using spec unfolding r by (elim conjE) (erule_tac x = 1 in allE, erule_tac x = 1 in allE, simp)
  ultimately have "\<not> 2 < r" "\<not> r \<le> 1" by auto
  then show ?thesis using bound r by linarith
qed

end
