(* ===== verification/SeqList.thy ===== *)
theory SeqList
  imports Prelude
begin

text \<open>
  The interface of the intrusive lists. \<^verbatim>\<open>IntrusiveList\<close> and \<^verbatim>\<open>DoubleList\<close> keep the same
  three words (size, first, last) and link their items through fields of the items; a client
  sees a sequence. Here are the list object, the meaning of the links, and the contract the
  queue operations promise, as a locale that both list theories interpret.
\<close>

section \<open>List objects and links\<close>

text \<open>The null pointer is 0; the links live in the items, so in a heap beside the list object.\<close>

record lst =
  lsize :: uptr
  lfirst :: uptr
  llast :: uptr

definition empty_lst :: lst where
  "empty_lst = \<lparr>lsize = 0, lfirst = 0, llast = 0\<rparr>"

text \<open>An access through a null pointer is a segmentation fault.\<close>

definition deref :: "uptr \<Rightarrow> 'a res \<Rightarrow> 'a res" where
  "deref p k = (if p = 0 then Inl (Segv 0) else k)"

lemma deref_nonnull [simp]: "p \<noteq> 0 \<Longrightarrow> deref p k = k"
  by (simp add: deref_def)

lemma deref_null [simp]: "deref 0 k = Inl (Segv 0)"
  by (simp add: deref_def)

lemma deref_Inr [res_simps]: "deref p k = Inr y \<longleftrightarrow> p \<noteq> 0 \<and> k = Inr y"
  by (simp add: deref_def)

definition hd0 :: "uptr list \<Rightarrow> uptr" where
  "hd0 xs = (case xs of [] \<Rightarrow> 0 | x # _ \<Rightarrow> x)"

definition last0 :: "uptr list \<Rightarrow> uptr" where
  "last0 xs = (if xs = [] then 0 else last xs)"

lemma hd0_simps [simp]: "hd0 [] = 0" "hd0 (x # xs) = x"
  by (simp_all add: hd0_def)

lemma last0_simps [simp]: "last0 [] = 0" "last0 (xs @ [x]) = x" "last0 [x] = x"
  "last0 (x # y # xs) = last0 (y # xs)"
  by (simp_all add: last0_def)

lemma hd0_append: "hd0 (xs @ ys) = (if xs = [] then hd0 ys else hd0 xs)"
  by (cases xs) simp_all

lemma last0_append: "last0 (xs @ ys) = (if ys = [] then last0 xs else last0 ys)"
  by (simp add: last0_def)

lemma last0_Cons: "last0 (x # xs) = (if xs = [] then x else last0 xs)"
  by (cases xs) simp_all

lemma hd0_in: "xs \<noteq> [] \<Longrightarrow> hd0 xs \<in> set xs"
  by (cases xs) simp_all

lemma last0_in: "xs \<noteq> [] \<Longrightarrow> last0 xs \<in> set xs"
  by (simp add: last0_def)

text \<open>
  \<open>chain n xs e\<close>: the next links lead from each item of \<open>xs\<close> to the following one and from the
  last one to \<open>e\<close>. \<open>bchain b p xs\<close>: the prev links lead from each item to the one before it
  and from the first one to \<open>p\<close>.
\<close>

fun chain :: "(uptr \<Rightarrow> uptr) \<Rightarrow> uptr list \<Rightarrow> uptr \<Rightarrow> bool" where
  "chain n [] e = True"
| "chain n (x # xs) e = (x \<noteq> 0 \<and> n x = (if xs = [] then e else hd0 xs) \<and> chain n xs e)"

fun bchain :: "(uptr \<Rightarrow> uptr) \<Rightarrow> uptr \<Rightarrow> uptr list \<Rightarrow> bool" where
  "bchain b p [] = True"
| "bchain b p (x # xs) = (b x = p \<and> bchain b x xs)"

lemma chain_append:
  "chain n (xs @ ys) e \<longleftrightarrow> chain n xs (if ys = [] then e else hd0 ys) \<and> chain n ys e"
  by (induction xs) (auto simp: hd0_append)

lemma bchain_append:
  "bchain b p (xs @ ys) \<longleftrightarrow> bchain b p xs \<and> bchain b (if xs = [] then p else last0 xs) ys"
  by (induction xs arbitrary: p) (auto simp: last0_Cons)

lemma chain_upd [simp]: "x \<notin> set xs \<Longrightarrow> chain (n(x := v)) xs e = chain n xs e"
  by (induction xs) auto

lemma bchain_upd [simp]: "x \<notin> set xs \<Longrightarrow> bchain (b(x := v)) p xs = bchain b p xs"
  by (induction xs arbitrary: p) auto

lemma chain_nonnull: "chain n xs e \<Longrightarrow> x \<in> set xs \<Longrightarrow> x \<noteq> 0"
  by (induction xs) auto

lemma chain_last0: "chain n xs e \<Longrightarrow> xs \<noteq> [] \<Longrightarrow> n (last0 xs) = e \<and> last0 xs \<noteq> 0"
  by (induction xs) (auto simp: last0_Cons)

lemma chain_relink_last:
  assumes "chain n xs e" and "xs \<noteq> []" and "distinct xs"
  shows "chain (n(last0 xs := v)) xs v"
  using assms
proof (induction xs)
  case (Cons x xs)
  then show ?case by (cases "xs = []") (auto simp: last0_Cons last0_in)
qed simp

lemma chain_hd0: "chain n xs e \<Longrightarrow> xs \<noteq> [] \<Longrightarrow> hd0 xs \<noteq> 0"
  by (cases xs) auto

section \<open>Sequences\<close>

text \<open>
  \<open>fwd_rep n l xs\<close>: the list object \<open>l\<close> with the next links \<open>n\<close> stands for the sequence \<open>xs\<close>.
\<close>

definition fwd_rep :: "(uptr \<Rightarrow> uptr) \<Rightarrow> lst \<Rightarrow> uptr list \<Rightarrow> bool" where
  "fwd_rep n l xs \<longleftrightarrow> lsize l = of_nat (length xs) \<and> length xs < 2 ^ 64 \<and> distinct xs
     \<and> chain n xs 0 \<and> lfirst l = hd0 xs \<and> llast l = last0 xs"

lemma of_nat_length_0: "length xs < 2 ^ 64 \<Longrightarrow> (of_nat (length xs) :: uptr) = 0 \<longleftrightarrow> xs = []"
  by (auto simp: word_unat_eq_iff unat_of_nat)

lemma fwd_rep_empty: "fwd_rep n l xs \<Longrightarrow> lsize l = 0 \<longleftrightarrow> xs = []"
  by (simp add: fwd_rep_def of_nat_length_0)

lemma fwd_rep_first: "fwd_rep n l xs \<Longrightarrow> xs \<noteq> [] \<Longrightarrow> lfirst l \<noteq> 0"
  by (auto simp: fwd_rep_def dest: chain_hd0)

lemma fwd_rep_last: "fwd_rep n l xs \<Longrightarrow> xs \<noteq> [] \<Longrightarrow> llast l \<noteq> 0 \<and> llast l \<in> set xs"
  by (auto simp: fwd_rep_def last0_in dest: chain_last0)

lemma fwd_rep_upd: "fwd_rep n l xs \<Longrightarrow> x \<notin> set xs \<Longrightarrow> fwd_rep (n(x := v)) l xs"
  by (simp add: fwd_rep_def)

section \<open>The queue contract\<close>

text \<open>
  Clients push a batch of items and later take them out from the front. \<open>push_all\<close> and
  \<open>drain\<close> are the two loops they run over a list with the operations as arguments: \<open>drain\<close>
  reads \<open>front()\<close> and calls \<open>pop_front()\<close> until \<open>empty()\<close>, at most \<open>k\<close> times.
\<close>

fun push_all :: "(uptr \<Rightarrow> 's \<Rightarrow> 's res) \<Rightarrow> uptr list \<Rightarrow> 's \<Rightarrow> 's res" where
  "push_all push [] s = Inr s"
| "push_all push (x # xs) s = bindr (push x s) (push_all push xs)"

fun drain :: "('h \<times> lst \<Rightarrow> ('h \<times> lst) res) \<Rightarrow> nat \<Rightarrow> 'h \<times> lst \<Rightarrow> (uptr list \<times> ('h \<times> lst)) res" where
  "drain pop 0 s = Inr ([], s)"
| "drain pop (Suc k) s =
     (if lsize (snd s) = 0 then Inr ([], s)
      else bindr (pop s) (\<lambda>s'. bindr (drain pop k s') (\<lambda>(xs, s''). Inr (lfirst (snd s) # xs, s''))))"

locale seq_list =
  fixes rep :: "'h \<Rightarrow> lst \<Rightarrow> uptr list \<Rightarrow> bool"
    and push_back :: "uptr \<Rightarrow> 'h \<times> lst \<Rightarrow> ('h \<times> lst) res"
    and pop_front :: "'h \<times> lst \<Rightarrow> ('h \<times> lst) res"
  assumes empty_law: "rep h l xs \<Longrightarrow> lsize l = 0 \<longleftrightarrow> xs = []"
    and front_law: "rep h l xs \<Longrightarrow> lfirst l = hd0 xs"
    and push_law: "rep h l xs \<Longrightarrow> x \<noteq> 0 \<Longrightarrow> x \<notin> set xs \<Longrightarrow> Suc (length xs) < 2 ^ 64 \<Longrightarrow>
      \<exists>h' l'. push_back x (h, l) = Inr (h', l') \<and> rep h' l' (xs @ [x])"
    and pop_law: "rep h l (x # xs) \<Longrightarrow> \<exists>h' l'. pop_front (h, l) = Inr (h', l') \<and> rep h' l' xs"
    and init_law: "rep h empty_lst []"
begin

lemma push_all_rep:
  assumes "rep h l xs" and "distinct (xs @ ys)" and "0 \<notin> set ys" and "length (xs @ ys) < 2 ^ 64"
  shows "\<exists>h' l'. push_all push_back ys (h, l) = Inr (h', l') \<and> rep h' l' (xs @ ys)"
  using assms
proof (induction ys arbitrary: xs h l)
  case (Cons y ys)
  then obtain h1 l1 where "push_back y (h, l) = Inr (h1, l1)" "rep h1 l1 (xs @ [y])"
    using push_law [of h l xs y] by auto
  moreover from Cons.IH [of h1 l1 "xs @ [y]"] this Cons.prems
  obtain h2 l2 where "push_all push_back ys (h1, l1) = Inr (h2, l2)" "rep h2 l2 (xs @ y # ys)"
    by auto
  ultimately show ?case by simp
qed simp

lemma drain_rep:
  assumes "rep h l xs" and "length xs \<le> k"
  shows "\<exists>h' l'. drain pop_front k (h, l) = Inr (xs, (h', l')) \<and> rep h' l' []"
  using assms
proof (induction k arbitrary: xs h l)
  case (Suc k)
  show ?case
  proof (cases xs)
    case Nil
    with Suc.prems empty_law show ?thesis by auto
  next
    case (Cons x xs')
    with Suc.prems pop_law obtain h1 l1 where "pop_front (h, l) = Inr (h1, l1)" "rep h1 l1 xs'"
      by blast
    moreover from this Suc.IH [of h1 l1 xs'] Suc.prems Cons
    obtain h2 l2 where "drain pop_front k (h1, l1) = Inr (xs', (h2, l2))" "rep h2 l2 []" by auto
    ultimately show ?thesis
      using Suc.prems Cons empty_law [of h l xs] front_law [of h l xs] by auto
  qed
qed simp

text \<open>The queue law: what is pushed onto an empty list comes out in the order it went in.\<close>

lemma fifo:
  assumes "distinct xs" and "0 \<notin> set xs" and "length xs < 2 ^ 64"
  shows "\<exists>s s'. push_all push_back xs (h, empty_lst) = Inr s \<and> drain pop_front (length xs) s = Inr (xs, s')
    \<and> rep (fst s') (snd s') []"
proof -
  obtain h1 l1 where "push_all push_back xs (h, empty_lst) = Inr (h1, l1)" "rep h1 l1 xs"
    using push_all_rep [OF init_law, of xs h] assms by auto
  moreover from this drain_rep obtain h2 l2
    where "drain pop_front (length xs) (h1, l1) = Inr (xs, (h2, l2))" "rep h2 l2 []" by blast
  ultimately show ?thesis by fastforce
qed

end

end
