(* ===== verification/IList.thy ===== *)
theory IList
  imports SeqList
begin

text \<open>
  \<^verbatim>\<open>IntrusiveList\<close> of \<^verbatim>\<open>sanitizer_list.h\<close>: a singly linked list whose next links are fields of
  the items. A method takes the links and the list object and returns both. Each mutating method
  is proved to perform its sequence operation; the pair of push and pop meets the queue
  contract of \<^theory_text>\<open>seq_list\<close>.
\<close>

section \<open>The methods\<close>

type_synonym links = "uptr \<Rightarrow> uptr"

definition il_clear :: "lst \<Rightarrow> lst" where
  "il_clear l = l\<lparr>lfirst := 0, llast := 0, lsize := 0\<rparr>"

definition il_empty :: "lst \<Rightarrow> bool" where
  "il_empty l \<longleftrightarrow> lsize l = 0"

definition il_push_back :: "uptr \<Rightarrow> links \<times> lst \<Rightarrow> (links \<times> lst) res" where
  "il_push_back x = (\<lambda>(n, l).
     if il_empty l then
       deref x (Inr (n(x := 0), l\<lparr>lfirst := x, llast := x, lsize := 1\<rparr>))
     else
       deref x (deref (llast l)
         (Inr (n(x := 0, llast l := x), l\<lparr>llast := x, lsize := lsize l + 1\<rparr>))))"

definition il_push_front :: "uptr \<Rightarrow> links \<times> lst \<Rightarrow> (links \<times> lst) res" where
  "il_push_front x = (\<lambda>(n, l).
     if il_empty l then
       deref x (Inr (n(x := 0), l\<lparr>lfirst := x, llast := x, lsize := 1\<rparr>))
     else
       deref x (Inr (n(x := lfirst l), l\<lparr>lfirst := x, lsize := lsize l + 1\<rparr>)))"

definition il_pop_front :: "links \<times> lst \<Rightarrow> (links \<times> lst) res" where
  "il_pop_front = (\<lambda>(n, l).
     check (\<not> il_empty l) ''!empty()'' (
     deref (lfirst l) (
       let first = n (lfirst l) in
       Inr (n, l\<lparr>lfirst := first, llast := (if first = 0 then 0 else llast l),
                 lsize := lsize l - 1\<rparr>))))"

text \<open>
  \<^verbatim>\<open>append_front(l)\<close> and \<^verbatim>\<open>append_back(l)\<close> move every item of \<open>l\<close> and leave it cleared. Two list
  objects are the same one exactly when their addresses are; \<open>same\<close> is that test.
\<close>

definition il_append_front :: "bool \<Rightarrow> links \<times> lst \<times> lst \<Rightarrow> (links \<times> lst \<times> lst) res" where
  "il_append_front same = (\<lambda>(n, s, l).
     check (\<not> same) ''this != l'' (
     if il_empty l then Inr (n, s, l)
     else if il_empty s then Inr (n, l, il_clear l)
     else deref (llast l)
       (Inr (n(llast l := lfirst s),
             s\<lparr>lfirst := lfirst l, lsize := lsize s + lsize l\<rparr>, il_clear l))))"

definition il_append_back :: "bool \<Rightarrow> links \<times> lst \<times> lst \<Rightarrow> (links \<times> lst \<times> lst) res" where
  "il_append_back same = (\<lambda>(n, s, l).
     check (\<not> same) ''this != l'' (
     if il_empty l then Inr (n, s, l)
     else if il_empty s then Inr (n, l, il_clear l)
     else deref (llast s)
       (Inr (n(llast s := lfirst l),
             s\<lparr>llast := llast l, lsize := lsize s + lsize l\<rparr>, il_clear l))))"

text \<open>
  The loop of \<^verbatim>\<open>CheckConsistency\<close> follows the links until it meets \<open>last\<close>; on a cyclic list that
  misses \<open>last\<close> it does not return, which is the value \<open>None\<close>.
\<close>

partial_function (option) count_to :: "links \<Rightarrow> uptr \<Rightarrow> uptr \<Rightarrow> uptr \<Rightarrow> uptr res option" where
  "count_to n lst i count =
     (if i = lst then Some (Inr (count + 1))
      else if i = 0 then Some (Inl (Segv 0))
      else count_to n lst (n i) (count + 1))"

definition il_CheckConsistency :: "links \<Rightarrow> lst \<Rightarrow> unit res option" where
  "il_CheckConsistency n l =
     (if lsize l = 0 then
        Some (check (lfirst l = 0) ''first_ == 0'' (check (llast l = 0) ''last_ == 0'' (Inr ())))
      else case count_to n (llast l) (lfirst l) 0 of
        None \<Rightarrow> None
      | Some r \<Rightarrow> Some (bindr r (\<lambda>count.
          check (lsize l = count) ''size() == count'' (
          deref (llast l) (check (n (llast l) = 0) ''last_->next == 0'' (Inr ()))))))"

section \<open>Each method performs its sequence operation\<close>

lemma il_clear_rep: "fwd_rep n (il_clear l) []"
  by (simp add: fwd_rep_def il_clear_def)

lemma il_push_back_rep:
  assumes "fwd_rep n l xs" and "x \<noteq> 0" and "x \<notin> set xs" and "Suc (length xs) < 2 ^ 64"
  shows "\<exists>n' l'. il_push_back x (n, l) = Inr (n', l') \<and> fwd_rep n' l' (xs @ [x])
    \<and> (\<forall>y. y \<notin> set (x # xs) \<longrightarrow> n' y = n y)"
proof (cases "xs = []")
  case True
  with assms fwd_rep_empty [OF assms(1)] show ?thesis
    by (auto simp: il_push_back_def il_empty_def fwd_rep_def)
next
  case False
  have l: "llast l \<noteq> 0" "llast l \<in> set xs" using fwd_rep_last [OF assms(1) False] by auto
  have "chain (n(x := 0, last0 xs := x)) xs x"
    using assms(1,3) False by (intro chain_relink_last [of _ _ 0]) (auto simp: fwd_rep_def)
  with assms l False fwd_rep_empty [OF assms(1)] show ?thesis
    by (auto simp: il_push_back_def il_empty_def fwd_rep_def chain_append hd0_append)
qed

lemma il_push_front_rep:
  assumes "fwd_rep n l xs" and "x \<noteq> 0" and "x \<notin> set xs" and "Suc (length xs) < 2 ^ 64"
  shows "\<exists>n' l'. il_push_front x (n, l) = Inr (n', l') \<and> fwd_rep n' l' (x # xs)"
  using assms fwd_rep_empty [OF assms(1)]
  by (cases "xs = []") (auto simp: il_push_front_def il_empty_def fwd_rep_def last0_Cons)

lemma length_pred: "Suc k < 2 ^ 64 \<Longrightarrow> of_nat (Suc k) - 1 = (of_nat k :: uptr)"
  by simp

lemma il_pop_front_rep:
  assumes "fwd_rep n l (x # xs)"
  shows "\<exists>l'. il_pop_front (n, l) = Inr (n, l') \<and> fwd_rep n l' xs"
proof -
  have "n x = hd0 xs" "xs \<noteq> [] \<longrightarrow> hd0 xs \<noteq> 0"
    using assms by (auto simp: fwd_rep_def dest: chain_hd0)
  with assms fwd_rep_empty [OF assms] show ?thesis
    by (auto simp: il_pop_front_def il_empty_def fwd_rep_def last0_Cons)
qed

interpretation il: seq_list fwd_rep il_push_back il_pop_front
proof unfold_locales
  show "fwd_rep h empty_lst []" for h by (simp add: fwd_rep_def empty_lst_def)
  show "\<exists>h' l'. il_pop_front (h, l) = Inr (h', l') \<and> fwd_rep h' l' xs"
    if "fwd_rep h l (x # xs)" for h l x xs using il_pop_front_rep [OF that] by blast
  show "\<exists>h' l'. il_push_back x (h, l) = Inr (h', l') \<and> fwd_rep h' l' (xs @ [x])"
    if "fwd_rep h l xs" "x \<noteq> 0" "x \<notin> set xs" "Suc (length xs) < 2 ^ 64" for h l x xs
    using il_push_back_rep [OF that] by blast
qed (auto simp: fwd_rep_empty, simp add: fwd_rep_def)

lemma append_of_nat: "of_nat (length (xs @ ys)) = (of_nat (length xs) + of_nat (length ys) :: uptr)"
  by simp

lemma fwd_rep_join:
  assumes "fwd_rep n s xs" and "fwd_rep n l ys" and "set xs \<inter> set ys = {}"
    and "xs \<noteq> []" and "ys \<noteq> []" and "length xs + length ys < 2 ^ 64"
  shows "fwd_rep (n(llast s := lfirst l)) \<lparr>lsize = lsize s + lsize l, lfirst = lfirst s, llast = llast l\<rparr> (xs @ ys)"
proof -
  have "chain (n(last0 xs := hd0 ys)) xs (hd0 ys)"
    using assms by (intro chain_relink_last [of _ _ 0]) (auto simp: fwd_rep_def)
  moreover have "last0 xs \<notin> set ys" using assms last0_in by blast
  ultimately show ?thesis
    using assms by (simp add: fwd_rep_def chain_append hd0_append last0_append)
qed

text \<open>
  \<^verbatim>\<open>append_back\<close> concatenates: for two lists without a common item it succeeds, the
  receiver stands for its old items followed by those of the argument, the argument is empty.
\<close>

theorem il_append_back_refines:
  assumes "fwd_rep n s xs" and "fwd_rep n l ys" and "set xs \<inter> set ys = {}"
    and "length xs + length ys < 2 ^ 64"
  shows "\<exists>n' s' l'. il_append_back False (n, s, l) = Inr (n', s', l')
    \<and> fwd_rep n' s' (xs @ ys) \<and> fwd_rep n' l' []"
proof -
  consider "ys = []" | "ys \<noteq> []" "xs = []" | "ys \<noteq> []" "xs \<noteq> []" by blast
  then show ?thesis
  proof cases
    case 3
    from fwd_rep_join [OF assms(1,2,3) 3(2,1) assms(4)] show ?thesis
      using assms 3 fwd_rep_empty [OF assms(1)] fwd_rep_empty [OF assms(2)] fwd_rep_last [OF assms(1)]
      by (cases s) (auto simp: il_append_back_def il_empty_def il_clear_rep)
  qed (use assms fwd_rep_empty [OF assms(1)] fwd_rep_empty [OF assms(2)] in
      \<open>auto simp: il_append_back_def il_empty_def il_clear_rep\<close>)
qed

theorem il_append_back_refines_witness:
  "\<exists>n' s' l'. il_append_back False (\<lambda>p. 0, \<lparr>lsize = 1, lfirst = 16, llast = 16\<rparr>, \<lparr>lsize = 1, lfirst = 32, llast = 32\<rparr>)
     = Inr (n', s', l') \<and> fwd_rep n' s' ([16] @ [32]) \<and> fwd_rep n' l' []"
  by (rule il_append_back_refines) (simp_all add: fwd_rep_def)

lemma il_append_front_rep:
  assumes "fwd_rep n s xs" and "fwd_rep n l ys" and "set xs \<inter> set ys = {}"
    and "length xs + length ys < 2 ^ 64"
  shows "\<exists>n' s' l'. il_append_front False (n, s, l) = Inr (n', s', l')
    \<and> fwd_rep n' s' (ys @ xs) \<and> fwd_rep n' l' []"
proof -
  consider "ys = []" | "ys \<noteq> []" "xs = []" | "ys \<noteq> []" "xs \<noteq> []" by blast
  then show ?thesis
  proof cases
    case 3
    have "set ys \<inter> set xs = {}" "length ys + length xs < 2 ^ 64" using assms by auto
    from fwd_rep_join [OF assms(2,1) this(1) 3(1,2) this(2)] show ?thesis
      using assms 3 fwd_rep_empty [OF assms(1)] fwd_rep_empty [OF assms(2)] fwd_rep_last [OF assms(2)]
      by (cases s) (auto simp: il_append_front_def il_empty_def il_clear_rep add.commute)
  qed (use assms fwd_rep_empty [OF assms(1)] fwd_rep_empty [OF assms(2)] in
      \<open>auto simp: il_append_front_def il_empty_def il_clear_rep\<close>)
qed

section \<open>The consistency check returns and passes\<close>

lemma count_to_chain:
  assumes "chain n xs 0" and "distinct xs" and "xs \<noteq> []"
  shows "count_to n (last0 xs) (hd0 xs) c = Some (Inr (c + of_nat (length xs)))"
  using assms
proof (induction xs arbitrary: c)
  case (Cons x xs)
  show ?case
  proof (cases "xs = []")
    case True
    then show ?thesis by (subst count_to.simps) simp
  next
    case False
    have "last0 (x # xs) = last0 xs" "last0 xs \<in> set xs" using False by (simp_all add: last0_Cons last0_in)
    with Cons False show ?thesis
      by (subst count_to.simps) (auto simp: add.assoc)
  qed
qed simp

lemma il_consistent:
  assumes "fwd_rep n l xs"
  shows "il_CheckConsistency n l = Some (Inr ())"
proof (cases "xs = []")
  case True
  with assms show ?thesis by (simp add: il_CheckConsistency_def fwd_rep_def)
next
  case False
  with assms have "count_to n (last0 xs) (hd0 xs) 0 = Some (Inr (of_nat (length xs)))"
    by (simp add: fwd_rep_def count_to_chain)
  moreover have "n (last0 xs) = 0 \<and> last0 xs \<noteq> 0"
    using assms False chain_last0 by (auto simp: fwd_rep_def)
  ultimately show ?thesis
    using assms False fwd_rep_empty [OF assms] by (simp add: il_CheckConsistency_def fwd_rep_def)
qed

text \<open>
  \<^verbatim>\<open>IntrusiveList\<close> is a first-in first-out queue: items pushed onto a cleared list with
  \<^verbatim>\<open>push_back\<close> are read with \<^verbatim>\<open>front\<close> and taken out with \<^verbatim>\<open>pop_front\<close> in the same order, none of
  the calls aborts, and the list ends empty and passes \<^verbatim>\<open>CheckConsistency\<close>.
\<close>

theorem il_queue:
  assumes "distinct xs" and "0 \<notin> set xs" and "length xs < 2 ^ 64"
  shows "\<exists>s s'. push_all il_push_back xs (n, empty_lst) = Inr s
    \<and> drain il_pop_front (length xs) s = Inr (xs, s') \<and> il_CheckConsistency (fst s') (snd s') = Some (Inr ())"
  using il.fifo [OF assms, of n] il_consistent by blast

theorem il_queue_witness:
  "\<exists>s s'. push_all il_push_back [16, 48, 32] (\<lambda>p. 7, empty_lst) = Inr s
    \<and> drain il_pop_front (length [16, 48, 32 :: uptr]) s = Inr ([16, 48, 32], s')
    \<and> il_CheckConsistency (fst s') (snd s') = Some (Inr ())"
  by (rule il_queue) simp_all

end
