(* ===== verification/DList.thy ===== *)
theory DList
  imports IList
begin

text \<open>
  \<^verbatim>\<open>DoubleList\<close> of \<^verbatim>\<open>sanitizer_doublelist.h\<close>, the doubly linked list the aliasing allocator
  keeps its virtual pages and its free pieces in. The methods that allocator calls
  (\<open>push_back\<close>, \<open>pop_front\<close>, \<open>remove\<close>) are sequence operations; \<open>push_front\<close> and \<open>append_back\<close>
  leave prev links behind that a later \<open>remove\<close> follows, which the last section shows.
\<close>

section \<open>The methods\<close>

record dlinks =
  dnext :: "uptr \<Rightarrow> uptr"
  dprev :: "uptr \<Rightarrow> uptr"

definition set_next :: "uptr \<Rightarrow> uptr \<Rightarrow> dlinks \<Rightarrow> dlinks" where
  "set_next x v h = h\<lparr>dnext := (dnext h)(x := v)\<rparr>"

definition set_prev :: "uptr \<Rightarrow> uptr \<Rightarrow> dlinks \<Rightarrow> dlinks" where
  "set_prev x v h = h\<lparr>dprev := (dprev h)(x := v)\<rparr>"

definition dl_clear :: "lst \<Rightarrow> lst" where
  "dl_clear l = l\<lparr>lfirst := 0, llast := 0, lsize := 0\<rparr>"

definition dl_empty :: "lst \<Rightarrow> bool" where
  "dl_empty l \<longleftrightarrow> lsize l = 0"

definition dl_push_back :: "uptr \<Rightarrow> dlinks \<times> lst \<Rightarrow> (dlinks \<times> lst) res" where
  "dl_push_back x = (\<lambda>(h, l).
     if dl_empty l then
       deref x (Inr (set_prev x 0 (set_next x 0 h), l\<lparr>lfirst := x, llast := x, lsize := 1\<rparr>))
     else
       deref x (deref (llast l)
         (Inr (set_next (llast l) x (set_prev x (llast l) (set_next x 0 h)),
               l\<lparr>llast := x, lsize := lsize l + 1\<rparr>))))"

definition dl_push_front :: "uptr \<Rightarrow> dlinks \<times> lst \<Rightarrow> (dlinks \<times> lst) res" where
  "dl_push_front x = (\<lambda>(h, l).
     if dl_empty l then
       deref x (Inr (set_next x 0 h, l\<lparr>lfirst := x, llast := x, lsize := 1\<rparr>))
     else
       deref x (deref (lfirst l)
         (Inr (set_prev (lfirst l) x (set_next x (lfirst l) h),
               l\<lparr>lfirst := x, lsize := lsize l + 1\<rparr>))))"

definition dl_pop_front :: "dlinks \<times> lst \<Rightarrow> (dlinks \<times> lst) res" where
  "dl_pop_front = (\<lambda>(h, l).
     check (\<not> dl_empty l) ''!empty()'' (
     deref (lfirst l) (
       let first = dnext h (lfirst l) in
       Inr (if first \<noteq> 0 then set_prev first 0 h else h,
            l\<lparr>lfirst := first, llast := (if first = 0 then 0 else llast l),
              lsize := lsize l - 1\<rparr>))))"

definition dl_append_front :: "bool \<Rightarrow> dlinks \<times> lst \<times> lst \<Rightarrow> (dlinks \<times> lst \<times> lst) res" where
  "dl_append_front same = (\<lambda>(h, s, l).
     check (\<not> same) ''this != l'' (
     if dl_empty l then Inr (h, s, l)
     else if dl_empty s then Inr (h, l, dl_clear l)
     else deref (llast l) (deref (lfirst s)
       (Inr (set_prev (lfirst s) (llast l) (set_next (llast l) (lfirst s) h),
             s\<lparr>lfirst := lfirst l, lsize := lsize s + lsize l\<rparr>, dl_clear l)))))"

definition dl_remove :: "uptr \<Rightarrow> dlinks \<times> lst \<Rightarrow> (dlinks \<times> lst) res" where
  "dl_remove x = (\<lambda>(h, l).
     if dl_empty l then Inr (h, l)
     else deref x (
       let (h1, l1) =
         (if dnext h x \<noteq> 0 \<and> dprev h x \<noteq> 0 then
            let h' = set_prev (dnext h x) (dprev h x) h in
            (set_next (dprev h' x) (dnext h' x) h', l)
          else if dnext h x \<noteq> 0 then
            let h' = set_prev (dnext h x) 0 h in (h', l\<lparr>lfirst := dnext h' x\<rparr>)
          else if dprev h x \<noteq> 0 then
            let h' = set_next (dprev h x) 0 h in (h', l\<lparr>llast := dprev h' x\<rparr>)
          else (h, l\<lparr>lfirst := 0, llast := 0\<rparr>))
       in Inr (set_prev x 0 (set_next x 0 h1), l1\<lparr>lsize := lsize l1 - 1\<rparr>)))"

definition dl_append_back :: "bool \<Rightarrow> dlinks \<times> lst \<times> lst \<Rightarrow> (dlinks \<times> lst \<times> lst) res" where
  "dl_append_back same = (\<lambda>(h, s, l).
     check (\<not> same) ''this != l'' (
     if dl_empty l then Inr (h, s, l)
     else if dl_empty s then Inr (h, l, dl_clear l)
     else deref (llast s) (
       let h1 = set_next (llast s) (lfirst l) h in
       deref (lfirst l)
         (Inr (set_prev (lfirst l) (dnext h1 (llast s)) h1,
               s\<lparr>llast := llast l, lsize := lsize s + lsize l\<rparr>, dl_clear l)))))"

text \<open>\<^verbatim>\<open>CheckConsistency\<close> has the text of the one in \<^verbatim>\<open>IntrusiveList\<close>: it reads the next links only.\<close>

definition dl_CheckConsistency :: "dlinks \<Rightarrow> lst \<Rightarrow> unit res option" where
  "dl_CheckConsistency h l =
     (if lsize l = 0 then
        Some (check (lfirst l = 0) ''first_ == 0'' (check (llast l = 0) ''last_ == 0'' (Inr ())))
      else case count_to (dnext h) (llast l) (lfirst l) 0 of
        None \<Rightarrow> None
      | Some r \<Rightarrow> Some (bindr r (\<lambda>count.
          check (lsize l = count) ''size() == count'' (
          deref (llast l) (check (dnext h (llast l) = 0) ''last_->next == 0'' (Inr ()))))))"

section \<open>Each method performs its sequence operation\<close>

definition dl_rep :: "dlinks \<Rightarrow> lst \<Rightarrow> uptr list \<Rightarrow> bool" where
  "dl_rep h l xs \<longleftrightarrow> fwd_rep (dnext h) l xs \<and> bchain (dprev h) 0 xs"

lemma dlinks_sel [simp]:
  "dnext (set_next x v h) = (dnext h)(x := v)" "dprev (set_next x v h) = dprev h"
  "dprev (set_prev x v h) = (dprev h)(x := v)" "dnext (set_prev x v h) = dnext h"
  by (simp_all add: set_next_def set_prev_def)

lemma dl_rep_empty: "dl_rep h l xs \<Longrightarrow> lsize l = 0 \<longleftrightarrow> xs = []"
  by (auto simp: dl_rep_def fwd_rep_empty)

lemma dl_clear_rep: "dl_rep h (dl_clear l) []"
  by (simp add: dl_rep_def fwd_rep_def dl_clear_def)

lemma dl_push_back_rep:
  assumes "dl_rep h l xs" and "x \<noteq> 0" and "x \<notin> set xs" and "Suc (length xs) < 2 ^ 64"
  shows "\<exists>h' l'. dl_push_back x (h, l) = Inr (h', l') \<and> dl_rep h' l' (xs @ [x])"
proof -
  have f: "fwd_rep (dnext h) l xs" "bchain (dprev h) 0 xs" using assms(1) by (auto simp: dl_rep_def)
  from il_push_back_rep [OF f(1) assms(2,3,4)] obtain n' l' where
    *: "il_push_back x (dnext h, l) = Inr (n', l')" "fwd_rep n' l' (xs @ [x])" by blast
  show ?thesis
  proof (cases "xs = []")
    case True
    with * f assms(2) fwd_rep_empty [OF f(1)] show ?thesis
      by (auto simp: il_push_back_def dl_push_back_def il_empty_def dl_empty_def dl_rep_def)
  next
    case False
    with fwd_rep_last [OF f(1)] have "llast l \<noteq> 0" "llast l \<in> set xs" by auto
    moreover have "llast l = last0 xs" using f by (simp add: fwd_rep_def)
    ultimately show ?thesis
      using * f False assms(2,3) fwd_rep_empty [OF f(1)]
      by (auto simp: il_push_back_def dl_push_back_def il_empty_def dl_empty_def dl_rep_def bchain_append)
  qed
qed

lemma dl_pop_front_rep:
  assumes "dl_rep h l (x # xs)"
  shows "\<exists>h' l'. dl_pop_front (h, l) = Inr (h', l') \<and> dl_rep h' l' xs"
proof -
  have f: "fwd_rep (dnext h) l (x # xs)" "bchain (dprev h) 0 (x # xs)" using assms by (auto simp: dl_rep_def)
  from il_pop_front_rep [OF f(1)] obtain l' where
    *: "il_pop_front (dnext h, l) = Inr (dnext h, l')" "fwd_rep (dnext h) l' xs" by blast
  have x: "x \<noteq> 0" "lfirst l = x" "dnext h x = hd0 xs" "distinct (x # xs)" "xs \<noteq> [] \<longrightarrow> hd0 xs \<noteq> 0"
    using f(1) by (auto simp: fwd_rep_def dest: chain_hd0)
  have "bchain ((dprev h)(hd0 xs := 0)) 0 xs"
    using f(2) x(4) by (cases xs) auto
  with * x f show ?thesis
    by (cases "xs = []")
      (auto simp: il_pop_front_def dl_pop_front_def il_empty_def dl_empty_def dl_rep_def check_def Let_def
        split: if_splits)
qed

interpretation dl: seq_list dl_rep dl_push_back dl_pop_front
proof unfold_locales
  show "dl_rep h empty_lst []" for h by (simp add: dl_rep_def fwd_rep_def empty_lst_def)
  show "\<exists>h' l'. dl_pop_front (h, l) = Inr (h', l') \<and> dl_rep h' l' xs"
    if "dl_rep h l (x # xs)" for h l x xs using dl_pop_front_rep [OF that] .
  show "\<exists>h' l'. dl_push_back x (h, l) = Inr (h', l') \<and> dl_rep h' l' (xs @ [x])"
    if "dl_rep h l xs" "x \<noteq> 0" "x \<notin> set xs" "Suc (length xs) < 2 ^ 64" for h l x xs
    using dl_push_back_rep [OF that] .
qed (auto simp: dl_rep_empty, simp add: dl_rep_def fwd_rep_def)

text \<open>
  Removing \<open>x\<close> from \<open>as @ x # bs\<close>: its neighbours are \<open>last0 as\<close> and \<open>hd0 bs\<close>, and the links
  outside of the three cells stay.
\<close>

lemma dl_rep_around:
  assumes "dl_rep h l (as @ x # bs)"
  shows "dnext h x = hd0 bs" "dprev h x = last0 as" "x \<noteq> 0" "hd0 bs = 0 \<longleftrightarrow> bs = []"
    "last0 as = 0 \<longleftrightarrow> as = []"
proof -
  have c: "chain (dnext h) as x" "chain (dnext h) bs 0" "x \<noteq> 0" "dnext h x = hd0 bs"
    using assms by (auto simp: dl_rep_def fwd_rep_def chain_append)
  then show "hd0 bs = 0 \<longleftrightarrow> bs = []" "x \<noteq> 0" "dnext h x = hd0 bs" by (auto dest: chain_hd0)
  show "last0 as = 0 \<longleftrightarrow> as = []"
    using chain_last0 [OF c(1)] by auto
  show "dprev h x = last0 as"
    using assms by (auto simp: dl_rep_def bchain_append split: if_splits)
qed

lemma chain_bypass:
  assumes "chain n (as @ x # bs) e" and "distinct (as @ x # bs)" and "as \<noteq> []"
  shows "chain (n(last0 as := n x)) (as @ bs) e"
proof -
  have "chain (n(last0 as := n x)) as (n x)"
    using assms by (intro chain_relink_last [of _ _ x]) (auto simp: chain_append)
  moreover have "last0 as \<notin> set bs" using assms last0_in by auto
  ultimately show ?thesis using assms by (auto simp: chain_append)
qed

lemma bchain_bypass:
  assumes "bchain b p (as @ x # bs)" and "distinct (as @ x # bs)" and "bs \<noteq> []"
  shows "bchain (b(hd0 bs := b x)) p (as @ bs)"
proof -
  have "hd0 bs \<notin> set as" using assms hd0_in by auto
  moreover have "bchain (b(hd0 bs := b x)) (b x) bs" using assms by (cases bs) (auto simp: bchain_append)
  ultimately show ?thesis using assms by (auto simp: bchain_append)
qed

lemma length_remove: "of_nat (length (as @ x # bs)) - 1 = (of_nat (length (as @ bs)) :: uptr)"
  by simp

lemma dl_remove_shape:
  assumes r: "dl_rep h l (as @ x # bs)"
    and n: "n' = (if as = [] then dnext h else (dnext h)(last0 as := hd0 bs))"
    and p: "p' = (if bs = [] then dprev h else (dprev h)(hd0 bs := last0 as))"
  shows "dl_rep \<lparr>dnext = n'(x := 0), dprev = p'(x := 0)\<rparr>
    \<lparr>lsize = lsize l - 1, lfirst = hd0 (as @ bs), llast = last0 (as @ bs)\<rparr> (as @ bs)"
proof -
  note around = dl_rep_around [OF r]
  have f: "distinct (as @ x # bs)" "chain (dnext h) (as @ x # bs) 0" "bchain (dprev h) 0 (as @ x # bs)"
    "length (as @ x # bs) < 2 ^ 64" "lsize l = of_nat (length (as @ x # bs))"
    using r by (auto simp: dl_rep_def fwd_rep_def)
  have "chain n' (as @ bs) 0"
    using chain_bypass [OF f(2,1)] f(2) around n by (cases "as = []") (auto simp: chain_append)
  then have 1: "chain (n'(x := 0)) (as @ bs) 0" using f(1) by simp
  have "bchain p' 0 (as @ bs)"
    using bchain_bypass [OF f(3,1)] f(3) around p by (cases "bs = []") (auto simp: bchain_append)
  then have 2: "bchain (p'(x := 0)) 0 (as @ bs)" using f(1) by simp
  from 1 2 f show ?thesis by (simp add: dl_rep_def fwd_rep_def)
qed

text \<open>
  \<^verbatim>\<open>DoubleList::remove\<close> takes exactly the given item out, at either end or in the
  middle: the other items keep their order, and the item is left with null links.
\<close>

theorem dl_remove_refines:
  assumes "dl_rep h l (as @ x # bs)"
  shows "\<exists>h' l'. dl_remove x (h, l) = Inr (h', l') \<and> dl_rep h' l' (as @ bs)
    \<and> dnext h' x = 0 \<and> dprev h' x = 0"
proof -
  note around = dl_rep_around [OF assms]
  have nonempty: "lsize l \<noteq> 0" using dl_rep_empty [OF assms] by simp
  have ends: "lfirst l = hd0 (as @ [x])" "llast l = last0 (x # bs)"
    using assms by (auto simp: dl_rep_def fwd_rep_def hd0_append last0_append)
  have d: "distinct (as @ x # bs)" using assms by (simp add: dl_rep_def fwd_rep_def)
  have "bs \<noteq> [] \<Longrightarrow> hd0 bs \<noteq> x" using d hd0_in by auto
  moreover have "as \<noteq> [] \<Longrightarrow> last0 as \<noteq> x" using d last0_in by auto
  moreover have "hd0 (as @ bs) = (if as = [] then hd0 bs else lfirst l)"
    using ends by (simp add: hd0_append)
  moreover have "last0 (as @ bs) = (if bs = [] then last0 as else llast l)"
    using ends by (simp add: last0_append last0_Cons)
  moreover have "l = \<lparr>lsize = lsize l, lfirst = lfirst l, llast = llast l\<rparr>" by simp
  ultimately show ?thesis
    using dl_remove_shape [OF assms refl refl] nonempty around ends
    by (cases "as = []"; cases "bs = []"; cases h; cases l)
      (auto simp: dl_remove_def dl_empty_def Let_def set_next_def set_prev_def last0_Cons)
qed

definition three_items :: "dlinks \<times> lst" where
  "three_items = (\<lparr>dnext = (\<lambda>p. 0)(16 := 32, 32 := 48), dprev = (\<lambda>p. 0)(32 := 16, 48 := 32)\<rparr>,
     \<lparr>lsize = 3, lfirst = 16, llast = 48\<rparr>)"

theorem dl_remove_refines_witness:
  "\<exists>h' l'. dl_remove 32 (fst three_items, snd three_items) = Inr (h', l') \<and> dl_rep h' l' ([16] @ [48])
    \<and> dnext h' 32 = 0 \<and> dprev h' 32 = 0"
  by (rule dl_remove_refines) (simp add: three_items_def dl_rep_def fwd_rep_def)

lemma dl_consistent: "dl_rep h l xs \<Longrightarrow> dl_CheckConsistency h l = Some (Inr ())"
  using il_consistent [of "dnext h" l xs] by (simp add: dl_rep_def dl_CheckConsistency_def il_CheckConsistency_def)

text \<open>\<^verbatim>\<open>append_front\<close> joins the links in both directions.\<close>

lemma dl_append_front_rep:
  assumes "dl_rep h s xs" and "dl_rep h l ys" and "set xs \<inter> set ys = {}"
    and "length xs + length ys < 2 ^ 64"
  shows "\<exists>h' s' l'. dl_append_front False (h, s, l) = Inr (h', s', l')
    \<and> dl_rep h' s' (ys @ xs) \<and> dl_rep h' l' []"
proof -
  have f: "fwd_rep (dnext h) s xs" "fwd_rep (dnext h) l ys" "bchain (dprev h) 0 xs" "bchain (dprev h) 0 ys"
    using assms by (auto simp: dl_rep_def)
  consider "ys = []" | "ys \<noteq> []" "xs = []" | "ys \<noteq> []" "xs \<noteq> []" by blast
  then show ?thesis
  proof cases
    case 3
    have "set ys \<inter> set xs = {}" "length ys + length xs < 2 ^ 64" using assms by auto
    note join = fwd_rep_join [OF f(2,1) this(1) 3(1,2) this(2)]
    have "lfirst s = hd0 xs" "llast l = last0 ys" using f by (auto simp: fwd_rep_def)
    moreover have "hd0 xs \<notin> set ys" "distinct xs" using 3 hd0_in assms(3) f by (auto simp: fwd_rep_def)
    moreover from this have "bchain ((dprev h)(hd0 xs := last0 ys)) (last0 ys) xs"
      using f(3) 3 by (cases xs) auto
    moreover have "lfirst s \<noteq> 0" "llast l \<noteq> 0" "lsize s \<noteq> 0" "lsize l \<noteq> 0"
      using 3 fwd_rep_first [OF f(1)] fwd_rep_last [OF f(2)] fwd_rep_empty [OF f(1)] fwd_rep_empty [OF f(2)] by auto
    ultimately show ?thesis
      using join f 3 dl_clear_rep
      by (cases s) (auto simp: dl_append_front_def dl_empty_def dl_rep_def bchain_append add.commute)
  qed (use assms dl_rep_empty [OF assms(1)] dl_rep_empty [OF assms(2)] in
      \<open>auto simp: dl_append_front_def dl_empty_def dl_clear_rep\<close>)
qed

section \<open>Prev links that the code leaves wrong\<close>

text \<open>
  \<^verbatim>\<open>push_front\<close> never writes the prev link of the new first item: it stands for the longer
  sequence only if that link was null before.
\<close>

lemma dl_push_front_rep:
  assumes "dl_rep h l xs" and "x \<noteq> 0" and "x \<notin> set xs" and "Suc (length xs) < 2 ^ 64"
  shows "\<exists>h' l'. dl_push_front x (h, l) = Inr (h', l') \<and> (dl_rep h' l' (x # xs) \<longleftrightarrow> dprev h x = 0)"
proof -
  have f: "fwd_rep (dnext h) l xs" "bchain (dprev h) 0 xs" using assms(1) by (auto simp: dl_rep_def)
  from il_push_front_rep [OF f(1) assms(2,3,4)] obtain n' l' where
    *: "il_push_front x (dnext h, l) = Inr (n', l')" "fwd_rep n' l' (x # xs)" by blast
  have b: "xs \<noteq> [] \<Longrightarrow> bchain ((dprev h)(hd0 xs := x)) x xs"
    using f by (cases xs) (auto simp: fwd_rep_def)
  have "xs \<noteq> [] \<Longrightarrow> lfirst l \<noteq> 0 \<and> lfirst l = hd0 xs \<and> hd0 xs \<noteq> x"
    using fwd_rep_first [OF f(1)] f(1) assms(3) hd0_in [of xs] by (auto simp: fwd_rep_def)
  then show ?thesis
    using * b f assms(2) fwd_rep_empty [OF f(1)]
    by (cases "xs = []") (auto simp: il_push_front_def dl_push_front_def il_empty_def dl_empty_def dl_rep_def)
qed

text \<open>
  \<^verbatim>\<open>append_back\<close> stores \<^verbatim>\<open>last_->next\<close>, which by then is the appended first item, in that
  item's own prev link: the item becomes its own predecessor.
\<close>

lemma dl_append_back_self_prev:
  assumes "dl_rep h s xs" and "dl_rep h l ys" and "xs \<noteq> []" and "ys \<noteq> []"
  shows "\<exists>h' s' l'. dl_append_back False (h, s, l) = Inr (h', s', l') \<and> dprev h' (hd0 ys) = hd0 ys"
proof -
  have f: "fwd_rep (dnext h) s xs" "fwd_rep (dnext h) l ys" using assms by (auto simp: dl_rep_def)
  have "lfirst l = hd0 ys" using f by (simp add: fwd_rep_def)
  then show ?thesis
    using assms fwd_rep_empty [OF f(1)] fwd_rep_empty [OF f(2)] fwd_rep_last [OF f(1)] fwd_rep_first [OF f(2)]
    by (auto simp: dl_append_back_def dl_empty_def)
qed

text \<open>The walk of \<^verbatim>\<open>CheckConsistency\<close> runs into null when the last item is not on the way.\<close>

lemma count_to_off:
  assumes "chain n xs 0" and "z \<notin> set xs" and "z \<noteq> 0"
  shows "count_to n z (hd0 xs) c = Some (Inl (Segv 0))"
  using assms
proof (induction xs arbitrary: c)
  case (Cons x xs)
  then have "n x = hd0 xs" "x \<noteq> z" "x \<noteq> 0" by (auto simp: hd0_def)
  moreover have "count_to n z (hd0 xs) (c + 1) = Some (Inl (Segv 0))" using Cons.IH [of "c + 1"] Cons.prems by simp
  ultimately show ?case by (subst count_to.simps) simp
qed (subst count_to.simps, simp)

text \<open>Both lists forward, and the link of the item at the seam.\<close>

lemma dl_append_back_joined:
  assumes "dl_rep h s xs" and "dl_rep h l ys" and "xs \<noteq> []" and "ys \<noteq> []" and "set xs \<inter> set ys = {}" and "length xs + length ys < 2 ^ 64"
  shows "dl_append_back False (h, s, l) =
      Inr (\<lparr>dnext = (dnext h)(last0 xs := hd0 ys), dprev = (dprev h)(hd0 ys := hd0 ys)\<rparr>,
        \<lparr>lsize = of_nat (length (xs @ ys)), lfirst = hd0 xs, llast = last0 ys\<rparr>, dl_clear l)"
    "fwd_rep ((dnext h)(last0 xs := hd0 ys)) \<lparr>lsize = of_nat (length (xs @ ys)), lfirst = hd0 xs, llast = last0 ys\<rparr> (xs @ ys)"
proof -
  have f: "fwd_rep (dnext h) s xs" "fwd_rep (dnext h) l ys" using assms by (auto simp: dl_rep_def)
  show "dl_append_back False (h, s, l) =
      Inr (\<lparr>dnext = (dnext h)(last0 xs := hd0 ys), dprev = (dprev h)(hd0 ys := hd0 ys)\<rparr>,
        \<lparr>lsize = of_nat (length (xs @ ys)), lfirst = hd0 xs, llast = last0 ys\<rparr>, dl_clear l)"
    using f assms(3,4) fwd_rep_empty [OF f(1)] fwd_rep_empty [OF f(2)] fwd_rep_last [OF f(1)] fwd_rep_first [OF f(2)]
    by (cases s; cases h) (auto simp: dl_append_back_def dl_empty_def set_next_def set_prev_def fwd_rep_def)
  show "fwd_rep ((dnext h)(last0 xs := hd0 ys)) \<lparr>lsize = of_nat (length (xs @ ys)), lfirst = hd0 xs, llast = last0 ys\<rparr> (xs @ ys)"
    using fwd_rep_join [OF f assms(5,3,4,6)] f by (simp add: fwd_rep_def)
qed

text \<open>
  C29. \<^verbatim>\<open>append_back\<close> of two lists that are not empty and share no item gives a list that passes
  \<^verbatim>\<open>CheckConsistency\<close>, but removing the item at the seam, the first one of the appended list, always destroys it: the item before the
  seam still leads to the removed one, whose next link is null. When the appended list has more items, the walk of
  \<^verbatim>\<open>CheckConsistency\<close> then dereferences null; when it has no other, the removed item stays the last one and the
  size does not match.
\<close>

theorem dl_append_back_breaks:
  assumes "dl_rep h s xs" and "dl_rep h l ys" and "xs \<noteq> []" and "ys \<noteq> []" and "set xs \<inter> set ys = {}" and "length xs + length ys < 2 ^ 64"
  shows "\<exists>h1 s1 l1 h2 s2. dl_append_back False (h, s, l) = Inr (h1, s1, l1) \<and> dl_CheckConsistency h1 s1 = Some (Inr ()) \<and>
    dl_remove (hd0 ys) (h1, s1) = Inr (h2, s2) \<and>
    dl_CheckConsistency h2 s2 = Some (Inl (if length ys = 1 then CheckFailed ''size() == count'' else Segv 0))"
proof -
  note J = dl_append_back_joined [OF assms]
  define h1 where "h1 = \<lparr>dnext = (dnext h)(last0 xs := hd0 ys), dprev = (dprev h)(hd0 ys := hd0 ys)\<rparr>"
  define s1 where "s1 = \<lparr>lsize = of_nat (length (xs @ ys)) :: uptr, lfirst = hd0 xs, llast = last0 ys\<rparr>"
  obtain y zs where y: "ys = y # zs" using assms(4) by (cases ys) auto
  have run: "dl_append_back False (h, s, l) = Inr (h1, s1, dl_clear l)" and rep: "fwd_rep (dnext h1) s1 (xs @ ys)"
    using J by (simp_all add: h1_def s1_def)
  have con: "dl_CheckConsistency h1 s1 = Some (Inr ())"
    using il_consistent [OF rep] by (simp add: dl_CheckConsistency_def il_CheckConsistency_def)
  have c: "chain (dnext h1) xs y" "chain (dnext h1) ys 0" "distinct (xs @ ys)" using rep y by (simp_all add: fwd_rep_def chain_append)
  have y0: "y \<noteq> 0" "dnext h1 y = hd0 zs" "y \<notin> set xs" "y \<notin> set zs" "dprev h1 y = y"
    using c y by (auto simp: hd0_def h1_def)
  have size0: "lsize s1 \<noteq> 0" using fwd_rep_empty [OF rep] y by simp
  show ?thesis
  proof (cases zs)
    case Nil
    define h2 where "h2 = \<lparr>dnext = (dnext h1)(y := 0), dprev = (dprev h1)(y := 0)\<rparr>"
    define s2 where "s2 = \<lparr>lsize = of_nat (length xs) :: uptr, lfirst = hd0 xs, llast = y\<rparr>"
    have "dl_remove y (h1, s1) = Inr (h2, s2)"
      using y0 Nil y size0 by (simp add: dl_remove_def dl_empty_def Let_def h2_def s2_def s1_def set_next_def set_prev_def)
    moreover have "chain (dnext h2) (xs @ [y]) 0" using c(1) y0 by (simp add: h2_def chain_append)
    then have "count_to (dnext h2) y (hd0 (xs @ [y])) 0 = Some (Inr (0 + of_nat (length (xs @ [y]))))"
      using count_to_chain [of "dnext h2" "xs @ [y]" 0] y0(3) c(3) by simp
    then have "dl_CheckConsistency h2 s2 = Some (Inl (CheckFailed ''size() == count''))"
      using assms(3,6) of_nat_length_0 [of xs] by (simp add: dl_CheckConsistency_def s2_def hd0_append)
    ultimately show ?thesis using run con Nil y by auto
  next
    case (Cons z zs')
    define h2 where "h2 = \<lparr>dnext = (dnext h1)(y := 0), dprev = (dprev h1)(z := y, y := 0)\<rparr>"
    define s2 where "s2 = \<lparr>lsize = of_nat (length (xs @ zs)) :: uptr, lfirst = hd0 xs, llast = last0 ys\<rparr>"
    have z: "z \<noteq> 0" "z \<noteq> y" "hd0 zs = z" "last0 ys \<noteq> 0" "last0 ys \<notin> set (xs @ [y])"
      using c(2,3) y Cons last0_in [of zs] chain_last0 [OF c(2) assms(4)] by (auto simp: last0_Cons)
    have "dl_remove y (h1, s1) = Inr (h2, s2)"
      using y0 z Cons y size0 by (simp add: dl_remove_def dl_empty_def Let_def h2_def s2_def s1_def set_next_def set_prev_def)
    moreover have "chain (dnext h2) (xs @ [y]) 0" using c(1) y0 by (simp add: h2_def chain_append)
    then have "count_to (dnext h2) (last0 ys) (hd0 (xs @ [y])) 0 = Some (Inl (Segv 0))"
      using count_to_off z(4,5) by blast
    then have "dl_CheckConsistency h2 s2 = Some (Inl (Segv 0))"
      using assms(3,6) of_nat_length_0 [of "xs @ zs"] y by (simp add: dl_CheckConsistency_def s2_def hd0_append)
    ultimately show ?thesis using run con Cons y by auto
  qed
qed

text \<open>One item \<open>16\<close>, to which the two items \<open>32\<close> and \<open>48\<close> are appended.\<close>

theorem dl_append_back_breaks_witness:
  "\<exists>h1 s1 l1 h2 s2. dl_append_back False (\<lparr>dnext = (\<lambda>p. 0)(32 := 48), dprev = (\<lambda>p. 0)(48 := 32)\<rparr>,
      \<lparr>lsize = 1, lfirst = 16, llast = 16\<rparr>, \<lparr>lsize = 2, lfirst = 32, llast = 48\<rparr>) = Inr (h1, s1, l1) \<and>
    dl_CheckConsistency h1 s1 = Some (Inr ()) \<and> dl_remove 32 (h1, s1) = Inr (h2, s2) \<and> dl_CheckConsistency h2 s2 = Some (Inl (Segv 0))"
  using dl_append_back_breaks [of "\<lparr>dnext = (\<lambda>p. 0)(32 := 48), dprev = (\<lambda>p. 0)(48 := 32)\<rparr>"
    "\<lparr>lsize = 1, lfirst = 16, llast = 16\<rparr>" "[16]" "\<lparr>lsize = 2, lfirst = 32, llast = 48\<rparr>" "[32, 48]"]
  by (simp add: dl_rep_def fwd_rep_def)

end
