(* ===== verification/Libc.thy ===== *)
theory Libc
  imports SanCommon
begin

text \<open>
  The memory functions of \<^verbatim>\<open>sanitizer_libc.cc\<close> over a byte memory. A pointer loop
  \<^verbatim>\<open>for (; p < q; p++)\<close> is a recursion on the words \<open>p\<close> and \<open>q\<close>: while \<open>p < q\<close> the increment does not
  wrap, which is its termination proof.
\<close>

type_synonym mem = "uptr \<Rightarrow> u8"

section \<open>Loads\<close>

text \<open>A little-endian load of \<open>n\<close> bytes.\<close>

fun load_le :: "mem \<Rightarrow> uptr \<Rightarrow> nat \<Rightarrow> uptr" where
  "load_le m a 0 = 0"
| "load_le m a (Suc n) = ucast (m a) OR push_bit 8 (load_le m (a + 1) n)"

lemma unat_succ_less: "p < q \<Longrightarrow> unat (p + 1 :: 'a::len word) = unat p + 1"
proof -
  assume "p < q"
  then have "unat p + 1 \<le> unat q" by (simp add: word_less_nat_alt)
  moreover have "unat q < 2 ^ LENGTH('a)" by (rule unsigned_less)
  moreover have "unat p + unat (1 :: 'a word) \<le> unat p + 1" by simp
  ultimately show ?thesis
    by (subst unat_add_nowrap) (auto simp: le_less_trans)
qed

section \<open>\<open>mem_is_zero\<close>\<close>

function or_bytes :: "mem \<Rightarrow> uptr \<Rightarrow> uptr \<Rightarrow> uptr \<Rightarrow> uptr" where
  "or_bytes m p q acc = (if p < q then or_bytes m (p + 1) q (acc OR scast (m p)) else acc)"
  by pat_completeness auto
termination
  by (relation "measure (\<lambda>(m, p, q, acc). unat q - unat p)")
    (auto simp: unat_succ_less word_less_nat_alt)

declare or_bytes.simps [simp del]

text \<open>\<open>or_words m p k acc\<close> accumulates \<open>k\<close> 64-bit words from \<open>p\<close> on.\<close>

fun or_words :: "mem \<Rightarrow> uptr \<Rightarrow> nat \<Rightarrow> uptr \<Rightarrow> uptr" where
  "or_words m p 0 acc = acc"
| "or_words m p (Suc k) acc = or_words m (p + 8) k (acc OR load_le m p 8)"

definition mem_is_zero :: "mem \<Rightarrow> uptr \<Rightarrow> uptr \<Rightarrow> bool res" where
  "mem_is_zero m beg sz =
     check (sz \<le> push_bit 40 1) ''size <= 1ULL << 40'' (
     let end = beg + sz in
     bindr (RoundUpTo beg 8) (\<lambda>aligned_beg.
     let aligned_end = RoundDownTo end 8;
         all0 = or_bytes m beg (Min2 aligned_beg end) 0;
         all1 = or_words m aligned_beg
                  (if aligned_beg < aligned_end then unat (aligned_end - aligned_beg) div 8 else 0) all0;
         all2 = (if aligned_end \<ge> beg then or_bytes m aligned_end end all1 else all1)
     in Inr (all2 = 0)))"

lemma u8_eq_0: "(x :: u8) = 0 \<longleftrightarrow> (\<forall>j<8. \<not> bit x j)"
  by (auto simp: bit_eq_iff dest: bit_imp_le_length)

lemma scast_u8_0: "(scast (x :: u8) :: uptr) = 0 \<longleftrightarrow> x = 0"
proof
  assume z: "(scast x :: uptr) = 0"
  have "bit x j = bit (scast x :: uptr) j" if "j < 8" for j
    using that by (cases "j = 7") (auto simp: bit_simps min_def)
  then show "x = 0" using z by (simp add: u8_eq_0)
qed simp

lemma or_eq_0: "x OR y = 0 \<longleftrightarrow> x = 0 \<and> y = (0 :: 'a::len word)"
  by (auto simp: bit_eq_iff bit_simps)

lemma or_bytes_0:
  "or_bytes m p q acc = 0 \<longleftrightarrow> acc = 0 \<and> (\<forall>a. unat p \<le> unat a \<and> unat a < unat q \<longrightarrow> m a = 0)"
proof (induction m p q acc rule: or_bytes.induct)
  case (1 m p q acc)
  show ?case
  proof (cases "p < q")
    case True
    have split: "unat p \<le> unat a \<and> unat a < unat q \<longleftrightarrow> a = p \<or> unat (p + 1) \<le> unat a \<and> unat a < unat q" for a
      using True by (auto simp: unat_succ_less word_less_nat_alt word_unat_eq_iff)
    show ?thesis using "1.IH" [OF True] True
      by (subst or_bytes.simps) (auto simp: split or_eq_0 scast_u8_0)
  next
    case False
    then show ?thesis by (subst or_bytes.simps) (auto simp: word_less_nat_alt)
  qed
qed

lemma bit_load_le:
  "bit (load_le m a n) i \<longleftrightarrow> i < 8 * n \<and> i < 64 \<and> bit (m (a + of_nat (i div 8))) (i mod 8)"
proof (induction n arbitrary: a i)
  case (Suc n)
  show ?case
  proof (cases "i < 8")
    case True
    then show ?thesis by (simp add: bit_simps)
  next
    case False
    then have "i div 8 = Suc ((i - 8) div 8)" and "(i - 8) mod 8 = i mod 8"
      by (simp_all add: le_div_geq le_mod_geq)
    moreover have "\<not> bit (m a) i" using False by (auto dest: bit_imp_le_length)
    ultimately show ?thesis
      using False Suc [of "a + 1" "i - 8"] by (auto simp: bit_simps add.assoc)
  qed
qed simp

lemma load_le_0:
  assumes "n \<le> 8"
  shows "load_le m a n = 0 \<longleftrightarrow> (\<forall>i<n. m (a + of_nat i) = 0)"
proof
  assume z: "load_le m a n = 0"
  show "\<forall>i<n. m (a + of_nat i) = 0"
  proof (intro allI impI)
    fix i assume "i < n"
    have "\<not> bit (m (a + of_nat i)) j" if "j < 8" for j
      using bit_load_le [of m a n "8 * i + j"] z that \<open>i < n\<close> assms by simp
    then show "m (a + of_nat i) = 0" by (simp add: u8_eq_0)
  qed
next
  assume "\<forall>i<n. m (a + of_nat i) = 0"
  then show "load_le m a n = 0"
    by (intro bit_word_eqI) (auto simp: bit_load_le)
qed

lemma or_words_0:
  assumes "unat p + 8 * k < 2 ^ 64"
  shows "or_words m p k acc = 0 \<longleftrightarrow>
    acc = 0 \<and> (\<forall>a. unat p \<le> unat a \<and> unat a < unat p + 8 * k \<longrightarrow> m a = 0)"
  using assms
proof (induction k arbitrary: p acc)
  case (Suc k)
  have n: "unat (p + 8) = unat p + 8" using Suc.prems by (subst unat_add_nowrap) simp_all
  have off: "unat (p + of_nat i) = unat p + i" if "i < 8" for i
    using that Suc.prems by (subst unat_add_nowrap) (simp_all add: unat_of_nat)
  have w: "(\<forall>i<8. m (p + of_nat i) = 0) \<longleftrightarrow> (\<forall>a. unat p \<le> unat a \<and> unat a < unat p + 8 \<longrightarrow> m a = 0)"
    (is "?l \<longleftrightarrow> ?r")
  proof
    assume l: ?l
    show ?r
    proof (intro allI impI)
      fix a :: uptr assume a: "unat p \<le> unat a \<and> unat a < unat p + 8"
      define i where "i = unat a - unat p"
      have i: "i < 8" "unat a = unat p + i" using a by (auto simp: i_def)
      then have "a = p + of_nat i" by (simp add: word_unat_eq_iff off)
      with l i(1) show "m a = 0" by simp
    qed
  qed (auto simp: off)
  have split: "unat p \<le> unat a \<and> unat a < unat p + 8 * Suc k \<longleftrightarrow>
    (unat p \<le> unat a \<and> unat a < unat p + 8) \<or> (unat (p + 8) \<le> unat a \<and> unat a < unat (p + 8) + 8 * k)" for a :: uptr
    by (auto simp: n)
  have "unat (p + 8) + 8 * k < 2 ^ 64" using Suc.prems n by simp
  then show ?case
    by (simp only: or_words.simps Suc.IH or_eq_0 load_le_0 [OF order_refl] w split
        imp_disjL all_conj_distrib conj_assoc)
qed auto

text \<open>The bytes before the first word boundary, the whole words and the bytes after the last boundary are the range.\<close>

lemma zero_ranges:
  fixes beg sz :: uptr
  defines "e \<equiv> beg + sz" and "ab \<equiv> round_up beg (2 ^ 3)" and "ae \<equiv> RoundDownTo (beg + sz) (2 ^ 3)"
  defines "k \<equiv> if ab < ae then unat (ae - ab) div 8 else 0"
  assumes "unat beg + unat sz \<le> 2 ^ 63"
  shows "unat ab + 8 * k < 2 ^ 64"
    and "unat beg \<le> x \<and> x < unat beg + unat sz \<longleftrightarrow>
      (unat beg \<le> x \<and> x < min (unat ab) (unat e)) \<or> (unat ab \<le> x \<and> x < unat ab + 8 * k)
      \<or> (ae \<ge> beg \<and> unat ae \<le> x \<and> x < unat e)"
proof -
  have e: "unat e = unat beg + unat sz" unfolding e_def using assms(5) by (intro unat_add_nowrap) simp
  have r: "unat beg + 2 ^ 3 \<le> 2 ^ 64" using assms(5) by simp
  have ab: "unat beg \<le> unat ab" "unat ab < unat beg + 8" "8 dvd unat ab"
    using round_up_ge [OF _ r] round_up_less [OF _ r] round_up_aligned [of beg 3, unfolded IsAligned_iff_dvd]
    by (simp_all add: ab_def)
  have ae: "unat ae = unat e div 8 * 8" using unat_RoundDownTo [of e 3] by (simp add: ae_def e_def)
  have lt: "ab < ae \<Longrightarrow> unat ab + 8 * k = unat ae"
  proof -
    assume "ab < ae"
    then have "unat (ae - ab) = unat ae - unat ab" by (intro unat_sub) simp
    moreover have "8 dvd unat ae - unat ab" using ab(3) ae by (simp add: dvd_diff_nat)
    ultimately show ?thesis using \<open>ab < ae\<close> by (simp add: k_def word_less_nat_alt)
  qed
  show "unat ab + 8 * k < 2 ^ 64"
    using lt unat_lt_64 [of ae] unat_lt_64 [of ab] by (cases "ab < ae") (auto simp: k_def)
  show "unat beg \<le> x \<and> x < unat beg + unat sz \<longleftrightarrow>
      (unat beg \<le> x \<and> x < min (unat ab) (unat e)) \<or> (unat ab \<le> x \<and> x < unat ab + 8 * k)
      \<or> (ae \<ge> beg \<and> unat ae \<le> x \<and> x < unat e)"
  proof (cases "ab < ae")
    case True
    then show ?thesis using lt [OF True] ab e ae by (auto simp: word_le_nat_alt word_less_nat_alt)
  next
    case False
    then have k0: "k = 0" by (simp add: k_def)
    have "unat ae \<le> unat ab" using False by (simp add: word_less_nat_alt)
    moreover have "beg \<le> ae \<Longrightarrow> unat ab \<le> unat ae"
      using ab by (auto simp: ae word_le_nat_alt elim!: dvdE)
    moreover have "\<not> beg \<le> ae \<Longrightarrow> unat e \<le> unat ab"
    proof -
      assume "\<not> beg \<le> ae"
      then have "unat e div 8 * 8 < unat beg" using ae by (simp add: word_le_nat_alt)
      moreover obtain q where "unat ab = 8 * q" using ab(3) by (elim dvdE)
      ultimately show ?thesis using ab by presburger
    qed
    moreover have "unat ae \<le> unat e" by (simp add: ae)
    ultimately show ?thesis using ab e k0 by (auto simp: word_le_nat_alt)
  qed
qed

text \<open>
  \<^verbatim>\<open>mem_is_zero\<close> is exact: whatever the alignment of the range, the bytes before the first
  word boundary, the whole words and the bytes after the last boundary together are the range.
\<close>

theorem mem_is_zero_exact:
  assumes "unat sz \<le> 2 ^ 40" and "unat beg + unat sz \<le> 2 ^ 63"
  shows "mem_is_zero m beg sz
    = Inr (\<forall>a. unat beg \<le> unat a \<and> unat a < unat beg + unat sz \<longrightarrow> m a = 0)"
proof -
  define e where "e = beg + sz"
  define ab where "ab = round_up beg (2 ^ 3)"
  define ae where "ae = RoundDownTo e (2 ^ 3)"
  define k where "k = (if ab < ae then unat (ae - ab) div 8 else 0)"
  note R = zero_ranges [OF assms(2), folded ab_def e_def, folded ae_def, folded k_def]
  have "RoundUpTo beg 8 = Inr ab"
    using IsPowerOfTwo_pow2 [of 3] by (simp add: RoundUpTo_def ab_def)
  then have run: "mem_is_zero m beg sz = Inr
    ((if ae \<ge> beg then or_bytes m ae e (or_words m ab k (or_bytes m beg (Min2 ab e) 0))
      else or_words m ab k (or_bytes m beg (Min2 ab e) 0)) = 0)"
    using assms by (simp add: mem_is_zero_def word_le_nat_alt Let_def k_def ae_def flip: e_def)
  have mn: "unat (Min2 ab e) = min (unat ab) (unat e)"
    by (simp add: Min2_def word_less_nat_alt min_def)
  show ?thesis
    unfolding run R(2)
    by (cases "ae \<ge> beg") (simp_all add: or_bytes_0 or_words_0 [OF R(1)] mn imp_disjL all_conj_distrib conj_ac)
qed

theorem mem_is_zero_exact_witness: "mem_is_zero (\<lambda>a. if a = 0x1013 then 1 else 0) 0x1003 16 = Inr True"
  using mem_is_zero_exact [of 16 "0x1003" "\<lambda>a. if a = 0x1013 then 1 else 0"] by auto

end
