(* ===== verification/Shadow.thy ===== *)
theory Shadow
  imports Libc
begin

text \<open>
  The shadow mapping of \<^verbatim>\<open>asan_mapping.h\<close> for x86-64 Linux, the shadow primitives of
  \<^verbatim>\<open>asan_poisoning.h\<close> and the access checks of \<^verbatim>\<open>asan_rtl.cc\<close>. The shadow memory is a function
  from shadow addresses to bytes. Lemmas read every address computation on natural numbers;
  the properties say what a shadow write does to the poisoned state of application bytes.
\<close>

section \<open>Configuration\<close>

text \<open>
  The globals \<^verbatim>\<open>kHighMemEnd\<close>, \<^verbatim>\<open>kMidMemBeg\<close>, \<^verbatim>\<open>kMidMemEnd\<close>, the flags the shadow code reads,
  the page size, and the address \<^verbatim>\<open>mmap\<close> returns for a fixed mapping (it is the requested one
  unless the kernel refuses).
\<close>

record cfg =
  kHighMemEnd :: uptr
  kMidMemBeg :: uptr
  kMidMemEnd :: uptr
  protect_shadow_gap :: bool
  poison_partial :: bool
  allow_user_poisoning :: bool
  detect_container_overflow :: bool
  poison_array_cookie :: bool
  halt_on_error :: bool
  clear_shadow_mmap_threshold :: uptr
  page_size :: uptr
  mmap_fixed :: "uptr \<Rightarrow> uptr \<Rightarrow> uptr"

type_synonym smem = mem

section \<open>Constants and address classes\<close>

definition SHADOW_SCALE :: nat where "SHADOW_SCALE = 3"
definition SHADOW_OFFSET :: uptr where "SHADOW_OFFSET = 0x7FFF8000"
definition SHADOW_GRANULARITY :: uptr where "SHADOW_GRANULARITY = push_bit SHADOW_SCALE 1"

definition MEM_TO_SHADOW :: "uptr \<Rightarrow> uptr" where
  "MEM_TO_SHADOW mem = drop_bit SHADOW_SCALE mem + SHADOW_OFFSET"

definition SHADOW_TO_MEM :: "uptr \<Rightarrow> uptr" where
  "SHADOW_TO_MEM shadow = push_bit SHADOW_SCALE (shadow - SHADOW_OFFSET)"

definition kLowMemEnd :: uptr where
  "kLowMemEnd = (if SHADOW_OFFSET \<noteq> 0 then SHADOW_OFFSET - 1 else 0)"

definition kLowShadowBeg :: uptr where "kLowShadowBeg = SHADOW_OFFSET"
definition kLowShadowEnd :: uptr where "kLowShadowEnd = MEM_TO_SHADOW kLowMemEnd"
definition kHighMemBeg :: "cfg \<Rightarrow> uptr" where "kHighMemBeg c = MEM_TO_SHADOW (kHighMemEnd c) + 1"
definition kHighShadowBeg :: "cfg \<Rightarrow> uptr" where "kHighShadowBeg c = MEM_TO_SHADOW (kHighMemBeg c)"
definition kHighShadowEnd :: "cfg \<Rightarrow> uptr" where "kHighShadowEnd c = MEM_TO_SHADOW (kHighMemEnd c)"
definition kMidShadowBeg :: "cfg \<Rightarrow> uptr" where "kMidShadowBeg c = MEM_TO_SHADOW (kMidMemBeg c)"
definition kMidShadowEnd :: "cfg \<Rightarrow> uptr" where "kMidShadowEnd c = MEM_TO_SHADOW (kMidMemEnd c)"

definition kShadowGapBeg :: uptr where
  "kShadowGapBeg = (if kLowShadowEnd \<noteq> 0 then kLowShadowEnd + 1 else 0)"

definition kShadowGapEnd :: "cfg \<Rightarrow> uptr" where
  "kShadowGapEnd c = (if kMidMemBeg c \<noteq> 0 then kMidShadowBeg c else kHighShadowBeg c) - 1"

definition kShadowGap2Beg :: "cfg \<Rightarrow> uptr" where
  "kShadowGap2Beg c = (if kMidMemBeg c \<noteq> 0 then kMidShadowEnd c + 1 else 0)"
definition kShadowGap2End :: "cfg \<Rightarrow> uptr" where
  "kShadowGap2End c = (if kMidMemBeg c \<noteq> 0 then kMidMemBeg c - 1 else 0)"
definition kShadowGap3Beg :: "cfg \<Rightarrow> uptr" where
  "kShadowGap3Beg c = (if kMidMemBeg c \<noteq> 0 then kMidMemEnd c + 1 else 0)"
definition kShadowGap3End :: "cfg \<Rightarrow> uptr" where
  "kShadowGap3End c = (if kMidMemBeg c \<noteq> 0 then kHighShadowBeg c - 1 else 0)"

definition AddrIsInLowMem :: "uptr \<Rightarrow> bool" where
  "AddrIsInLowMem a \<longleftrightarrow> a < kLowMemEnd"

definition AddrIsInLowShadow :: "uptr \<Rightarrow> bool" where
  "AddrIsInLowShadow a \<longleftrightarrow> a \<ge> kLowShadowBeg \<and> a \<le> kLowShadowEnd"

definition AddrIsInHighMem :: "cfg \<Rightarrow> uptr \<Rightarrow> bool" where
  "AddrIsInHighMem c a \<longleftrightarrow> a \<ge> kHighMemBeg c \<and> a \<le> kHighMemEnd c"

definition AddrIsInMidMem :: "cfg \<Rightarrow> uptr \<Rightarrow> bool" where
  "AddrIsInMidMem c a \<longleftrightarrow> kMidMemBeg c \<noteq> 0 \<and> a \<ge> kMidMemBeg c \<and> a \<le> kMidMemEnd c"

definition AddrIsInShadowGap :: "cfg \<Rightarrow> uptr \<Rightarrow> bool" where
  "AddrIsInShadowGap c a \<longleftrightarrow>
     (if kMidMemBeg c \<noteq> 0 then
        if a \<le> kShadowGapEnd c then SHADOW_OFFSET = 0 \<or> a \<ge> kShadowGapBeg
        else (a \<ge> kShadowGap2Beg c \<and> a \<le> kShadowGap2End c) \<or>
             (a \<ge> kShadowGap3Beg c \<and> a \<le> kShadowGap3End c)
      else if SHADOW_OFFSET = 0 then a \<le> kShadowGapEnd c
      else a \<ge> kShadowGapBeg \<and> a \<le> kShadowGapEnd c)"

definition AddrIsInMem :: "cfg \<Rightarrow> uptr \<Rightarrow> bool" where
  "AddrIsInMem c a \<longleftrightarrow> AddrIsInLowMem a \<or> AddrIsInMidMem c a \<or> AddrIsInHighMem c a \<or>
     (\<not> protect_shadow_gap c \<and> AddrIsInShadowGap c a)"

definition MemToShadow :: "cfg \<Rightarrow> uptr \<Rightarrow> uptr res" where
  "MemToShadow c p = check (AddrIsInMem c p) ''AddrIsInMem(p)'' (Inr (MEM_TO_SHADOW p))"

definition AddrIsInHighShadow :: "cfg \<Rightarrow> uptr \<Rightarrow> bool" where
  "AddrIsInHighShadow c a \<longleftrightarrow> a \<ge> kHighShadowBeg c \<and> a \<le> kHighMemEnd c"

definition AddrIsInMidShadow :: "cfg \<Rightarrow> uptr \<Rightarrow> bool" where
  "AddrIsInMidShadow c a \<longleftrightarrow> kMidMemBeg c \<noteq> 0 \<and> a \<ge> kMidShadowBeg c \<and> a \<le> kMidMemEnd c"

definition AddrIsInShadow :: "cfg \<Rightarrow> uptr \<Rightarrow> bool" where
  "AddrIsInShadow c a \<longleftrightarrow> AddrIsInLowShadow a \<or> AddrIsInMidShadow c a \<or> AddrIsInHighShadow c a"

definition AddrIsAlignedByGranularity :: "uptr \<Rightarrow> bool" where
  "AddrIsAlignedByGranularity a \<longleftrightarrow> a AND (SHADOW_GRANULARITY - 1) = 0"

text \<open>
  The shadow byte is read as a signed byte; the last accessed byte of the granule is an unsigned
  one, both promoted to \<^verbatim>\<open>int\<close> by the comparison.
\<close>

definition AddressIsPoisoned :: "smem \<Rightarrow> uptr \<Rightarrow> bool" where
  "AddressIsPoisoned sh a =
     (let shadow_value = sh (MEM_TO_SHADOW a) in
      if shadow_value \<noteq> 0 then
        let last_accessed_byte = ucast ((a AND (SHADOW_GRANULARITY - 1)) + 1 - 1) :: u8
        in uint last_accessed_byte \<ge> sint shadow_value
      else False)"

section \<open>Shadow writes\<close>

text \<open>
  \<^verbatim>\<open>memset\<close> writes \<open>n\<close> bytes from \<open>p\<close> on. A fixed anonymous mapping over shadow pages
  (\<^verbatim>\<open>ReserveShadowMemoryRange\<close>) replaces them by zero pages.
\<close>

definition memset :: "uptr \<Rightarrow> u8 \<Rightarrow> uptr \<Rightarrow> smem \<Rightarrow> smem" where
  "memset p v n sh = (\<lambda>a. if a - p < n then v else sh a)"

definition ReserveShadowMemoryRange :: "cfg \<Rightarrow> uptr \<Rightarrow> uptr \<Rightarrow> smem \<Rightarrow> smem res" where
  "ReserveShadowMemoryRange c beg end sh =
     check (beg mod page_size c = 0) ''(beg % GetMmapGranularity()) == 0'' (
     check ((end + 1) mod page_size c = 0) ''((end + 1) % GetMmapGranularity()) == 0'' (
     let sz = end - beg + 1 in
     if mmap_fixed c beg sz \<noteq> beg then Inl (Died ''ReserveShadowMemoryRange failed'')
     else Inr (memset beg 0 sz sh)))"

definition FastPoisonShadow :: "cfg \<Rightarrow> uptr \<Rightarrow> uptr \<Rightarrow> u8 \<Rightarrow> smem \<Rightarrow> smem res" where
  "FastPoisonShadow c aligned_beg aligned_size value sh =
     (let shadow_beg = MEM_TO_SHADOW aligned_beg;
          shadow_end = MEM_TO_SHADOW (aligned_beg + aligned_size - SHADOW_GRANULARITY) + 1
      in if value \<noteq> 0 \<or> shadow_end - shadow_beg < clear_shadow_mmap_threshold c then
           Inr (memset shadow_beg value (shadow_end - shadow_beg) sh)
         else bindr (RoundUpTo shadow_beg (page_size c)) (\<lambda>page_beg.
           let page_end = RoundDownTo shadow_end (page_size c) in
           if page_beg \<ge> page_end then
             Inr (memset shadow_beg 0 (shadow_end - shadow_beg) sh)
           else
             let sh1 = (if page_beg \<noteq> shadow_beg then memset shadow_beg 0 (page_beg - shadow_beg) sh
                        else sh);
                 sh2 = (if page_end \<noteq> shadow_end then memset page_end 0 (shadow_end - page_end) sh1
                        else sh1)
             in ReserveShadowMemoryRange c page_beg (page_end - 1) sh2))"

text \<open>The loop of the partial redzone, from offset \<open>i\<close> on with the shadow pointer \<open>s\<close>.\<close>

function partial_redzone_loop ::
  "cfg \<Rightarrow> uptr \<Rightarrow> uptr \<Rightarrow> u8 \<Rightarrow> nat \<Rightarrow> uptr \<Rightarrow> smem \<Rightarrow> smem" where
  "partial_redzone_loop c sz redzone_size value i s sh =
     (if i < unat redzone_size then
        partial_redzone_loop c sz redzone_size value (i + 8) (s + 1)
          (sh(s := if i + 8 \<le> unat sz then 0
                   else if i \<ge> unat sz then value
                   else if poison_partial c then ucast (sz - of_nat i) else 0))
      else sh)"
  by pat_completeness auto
termination by (relation "measure (\<lambda>(c, sz, r, v, i, s, sh). unat r - i)") auto

declare partial_redzone_loop.simps [simp del]

definition FastPoisonShadowPartialRightRedzone ::
  "cfg \<Rightarrow> uptr \<Rightarrow> uptr \<Rightarrow> uptr \<Rightarrow> u8 \<Rightarrow> smem \<Rightarrow> smem" where
  "FastPoisonShadowPartialRightRedzone c aligned_addr sz redzone_size value sh =
     partial_redzone_loop c sz redzone_size value 0 (MEM_TO_SHADOW aligned_addr) sh"

section \<open>Address computations on natural numbers\<close>

abbreviation (input) shadow_off :: nat where "shadow_off \<equiv> 0x7FFF8000"

lemma granularity: "SHADOW_GRANULARITY = 8"
  by (simp add: SHADOW_GRANULARITY_def SHADOW_SCALE_def)

lemma unat_MEM_TO_SHADOW: "unat (MEM_TO_SHADOW a) = unat a div 8 + shadow_off"
proof -
  have "unat (drop_bit 3 a) = unat a div 8" by (subst unat_drop_bit_eq) (simp add: drop_bit_eq_div)
  moreover have "unat a div 8 < 2 ^ 61" using unat_lt_64 [of a] by simp
  ultimately show ?thesis
    unfolding MEM_TO_SHADOW_def SHADOW_SCALE_def SHADOW_OFFSET_def
    by (subst unat_add_nowrap) simp_all
qed

lemma MEM_TO_SHADOW_eq: "MEM_TO_SHADOW a = MEM_TO_SHADOW b \<longleftrightarrow> unat a div 8 = unat b div 8"
  by (simp add: word_unat_eq_iff unat_MEM_TO_SHADOW)

lemma unat_and_7: "unat (a AND 7) = unat (a :: 'a::len word) mod 8"
proof -
  have "(7 :: 'a word) = mask 3" by (simp add: mask_eq_exp_minus_1)
  then show ?thesis using unat_and_mask [of a 3] by simp
qed

lemma aligned_granularity: "AddrIsAlignedByGranularity a \<longleftrightarrow> unat a mod 8 = 0"
  unfolding AddrIsAlignedByGranularity_def granularity
  by (simp add: word_unat_eq_iff unat_and_7)

text \<open>\<open>poisoned_at v k\<close>: a shadow byte \<open>v\<close> forbids the byte \<open>k\<close> of its granule.\<close>

definition poisoned_at :: "u8 \<Rightarrow> nat \<Rightarrow> bool" where
  "poisoned_at v k \<longleftrightarrow> v \<noteq> 0 \<and> sint v \<le> int k"

lemma AddressIsPoisoned_iff:
  "AddressIsPoisoned sh a \<longleftrightarrow> poisoned_at (sh (MEM_TO_SHADOW a)) (unat a mod 8)"
proof -
  have m: "unat (a AND 7) = unat a mod 8" by (rule unat_and_7)
  have "uint (ucast (a AND 7) :: u8) = uint (a AND 7) mod 256"
    by (simp add: unsigned_ucast_eq take_bit_eq_mod)
  also have "\<dots> = int (unat a mod 8)"
    unfolding m [symmetric] uint_nat using m by (simp flip: of_nat_mod) 
  finally show ?thesis
    by (simp add: AddressIsPoisoned_def granularity poisoned_at_def Let_def)
qed

lemma poisoned_at_zero [simp]: "\<not> poisoned_at 0 k"
  by (simp add: poisoned_at_def)

lemma poisoned_at_mono: "poisoned_at v k \<Longrightarrow> k \<le> k' \<Longrightarrow> poisoned_at v k'"
  by (auto simp: poisoned_at_def)

lemma memset_iff:
  assumes "unat p + unat n \<le> 2 ^ 64"
  shows "memset p v n sh a = (if unat p \<le> unat a \<and> unat a < unat p + unat n then v else sh a)"
proof (cases "p \<le> a")
  case True
  then have "unat (a - p) = unat a - unat p" and "unat p \<le> unat a"
    by (simp_all add: unat_sub word_le_nat_alt)
  then show ?thesis by (auto simp: memset_def word_less_nat_alt)
next
  case False
  then have l: "unat a < unat p" by (simp add: word_le_nat_alt)
  have "unat (a - p) = 2 ^ 64 + unat a - unat p"
    using l by (subst unat_sub_if') auto
  with l assms show ?thesis by (auto simp: memset_def word_less_nat_alt)
qed

lemma memset_0 [simp]: "memset p v 0 sh = sh"
  by (auto simp: memset_def)

section \<open>Both paths of the fast poisoning write the same bytes\<close>

text \<open>The configuration: the page size is a power of two, fixed mappings succeed.\<close>

definition cfg_ok :: "cfg \<Rightarrow> bool" where
  "cfg_ok c \<longleftrightarrow> (\<exists>k. 3 \<le> k \<and> k < 32 \<and> page_size c = 2 ^ k) \<and> (\<forall>b s. mmap_fixed c b s = b)"

lemma memset_covered:
  assumes "unat p + unat n \<le> 2 ^ 64" and "unat q + unat m \<le> 2 ^ 64"
    and "unat p \<le> unat q" and "unat q + unat m \<le> unat p + unat n"
  shows "memset p v n (memset q v m sh) = memset p v n sh"
  using assms by (auto simp: memset_iff fun_eq_iff)

lemma memset_join:
  assumes "unat p + unat n \<le> 2 ^ 64" and "unat q + unat m \<le> 2 ^ 64"
    and "unat q \<le> unat p + unat n" and "unat p \<le> unat q"
    and "unat r = (unat q + unat m) - unat p" and "unat p + unat n \<le> unat q + unat m"
  shows "memset p v n (memset q v m sh) = memset p v r sh"
  using assms by (auto simp: memset_iff fun_eq_iff)

lemma unat_mod_pow2: "k < 64 \<Longrightarrow> (a :: uptr) mod 2 ^ k = 0 \<longleftrightarrow> 2 ^ k dvd unat a"
  by (simp add: word_unat_eq_iff unat_mod unat_pow2 dvd_eq_mod_eq_0)

lemma unat_diff: "b \<le> a \<Longrightarrow> unat (a - b :: 'a::len word) = unat a - unat b"
  by (rule unat_sub)

lemma FastPoisonShadow_memset:
  assumes c: "cfg_ok c" and al: "unat beg mod 8 = 0" "unat sz mod 8 = 0" and pos: "0 < unat sz"
    and nw: "unat beg + unat sz \<le> 2 ^ 63"
  shows "FastPoisonShadow c beg sz v sh = Inr (memset (MEM_TO_SHADOW beg) v (drop_bit 3 sz) sh)"
proof -
  define sb where "sb = MEM_TO_SHADOW beg"
  define se where "se = MEM_TO_SHADOW (beg + sz - SHADOW_GRANULARITY) + 1"
  have usb: "unat sb = unat beg div 8 + shadow_off" by (simp add: sb_def unat_MEM_TO_SHADOW)
  have usz: "unat (drop_bit 3 sz) = unat sz div 8" by (subst unat_drop_bit_eq) (simp add: drop_bit_eq_div)
  obtain b0 q0 where bq: "unat beg = 8 * b0" "unat sz = 8 * q0" using al by (auto simp: mod_eq_0_iff_dvd elim!: dvdE)
  have q0: "0 < q0" using pos bq by simp
  have ge8: "8 \<le> unat sz" using q0 bq by simp
  have "unat (beg + sz) = unat beg + unat sz" using nw by (intro unat_add_nowrap) simp
  then have last: "unat (beg + sz - 8) = 8 * (b0 + q0 - 1)"
    using q0 bq by (subst unat_diff) (simp_all add: word_le_nat_alt)
  have d: "unat (beg + sz - 8) div 8 = unat beg div 8 + unat sz div 8 - 1"
    using q0 by (simp add: last bq)
  have bound: "unat beg div 8 + unat sz div 8 \<le> 2 ^ 60" using nw by (simp add: bq)
  have "unat (MEM_TO_SHADOW (beg + sz - 8)) = unat beg div 8 + unat sz div 8 - 1 + shadow_off"
    by (simp only: unat_MEM_TO_SHADOW d)
  then have use: "unat se = unat beg div 8 + unat sz div 8 + shadow_off"
    unfolding se_def granularity using bound ge8 by (subst unat_add_nowrap) simp_all
  have sle: "sb \<le> se" using usb use by (simp add: word_le_nat_alt)
  have len: "se - sb = drop_bit 3 sz"
    by (simp add: word_unat_eq_iff unat_diff [OF sle] usb use usz)
  from c obtain k where k: "3 \<le> k" "k < 32" "page_size c = 2 ^ k" and mm: "\<And>b s. mmap_fixed c b s = b"
    by (auto simp: cfg_ok_def)
  have p32: "(2::nat) ^ k \<le> 2 ^ 32" using k by (intro power_increasing) auto
  show ?thesis
  proof (cases "v \<noteq> 0 \<or> se - sb < clear_shadow_mmap_threshold c")
    case True
    then show ?thesis
      by (simp add: FastPoisonShadow_def Let_def len flip: sb_def se_def)
  next
    case False
    define pb where "pb = round_up sb (2 ^ k)"
    define pe where "pe = RoundDownTo se (2 ^ k)"
    have k64: "k < 64" and sbb: "unat sb + 2 ^ k \<le> 2 ^ 64" using k usb bound p32 by auto
    have pb: "unat sb \<le> unat pb" "2 ^ k dvd unat pb"
      using round_up_ge [OF k64 sbb] round_up_aligned [of sb k] by (simp_all add: pb_def IsAligned_iff_dvd)
    have pe: "unat pe \<le> unat se" "2 ^ k dvd unat pe"
      using RoundDownTo_le [of se k] RoundDownTo_aligned [of se k]
      by (simp_all add: pe_def IsAligned_iff_dvd word_le_nat_alt)
    have run: "FastPoisonShadow c beg sz v sh =
      (if pb \<ge> pe then Inr (memset sb 0 (se - sb) sh)
       else ReserveShadowMemoryRange c pb (pe - 1)
         (if pe \<noteq> se then memset pe 0 (se - pe) (if pb \<noteq> sb then memset sb 0 (pb - sb) sh else sh)
          else if pb \<noteq> sb then memset sb 0 (pb - sb) sh else sh))"
      using False k by (simp add: FastPoisonShadow_def RoundUpTo_def IsPowerOfTwo_pow2 Let_def
          flip: sb_def se_def pb_def pe_def)
    show ?thesis
    proof (cases "pb \<ge> pe")
      case True
      with run False show ?thesis by (simp add: len flip: sb_def)
    next
      case False
      then have lt: "unat pb < unat pe" by (simp add: word_le_nat_alt)
      have "unat (pe - 1) = unat pe - 1" using lt by (intro unat_pred) simp
      have le: "pb \<le> pe" "sb \<le> pb" "pe \<le> se" using lt pb pe by (simp_all add: word_le_nat_alt)
      have inner: "ReserveShadowMemoryRange c pb (pe - 1) m = Inr (memset pb 0 (pe - pb) m)" for m
        using pb(2) pe(2) k mm by (simp add: ReserveShadowMemoryRange_def unat_mod_pow2)
      have whole: "memset pb 0 (pe - pb) (memset pe 0 (se - pe) (memset sb 0 (pb - sb) m))
        = memset sb 0 (se - sb) m" for m
        using lt pb(1) pe(1) sle le unat_lt_64 [of se]
        by (auto simp: fun_eq_iff memset_iff unat_diff)
      have e: "(if pe \<noteq> se then memset pe 0 (se - pe) (if pb \<noteq> sb then memset sb 0 (pb - sb) sh else sh)
          else if pb \<noteq> sb then memset sb 0 (pb - sb) sh else sh)
        = memset pe 0 (se - pe) (memset sb 0 (pb - sb) sh)"
        by simp
      have "v = 0" using \<open>\<not> (v \<noteq> 0 \<or> _)\<close> by simp
      then show ?thesis
        using run False by (simp only: if_False e inner whole len flip: sb_def)
    qed
  qed
qed

section \<open>The layout of the address space\<close>

text \<open>
  The two layouts \<^verbatim>\<open>InitializeShadowMemory\<close> sets up on x86-64: the full shadow, and the one with
  application memory in the middle for a prelinked system.
\<close>

definition linux_layout :: "cfg \<Rightarrow> bool" where
  "linux_layout c \<longleftrightarrow> kHighMemEnd c = 0x7fffffffffff \<and>
     (kMidMemBeg c = 0 \<and> kMidMemEnd c = 0 \<or> kMidMemBeg c = 0x3000000000 \<and> kMidMemEnd c = 0x4fffffffff)"

lemma unat_kLowMemEnd: "unat kLowMemEnd = 0x7fff7fff"
  by (simp add: kLowMemEnd_def SHADOW_OFFSET_def)

lemma low_bounds: "unat kLowShadowBeg = 0x7fff8000" "unat kLowShadowEnd = 0x8fff6fff" "unat kShadowGapBeg = 0x8fff7000"
proof -
  show e: "unat kLowShadowEnd = 0x8fff6fff"
    by (simp only: kLowShadowEnd_def unat_MEM_TO_SHADOW unat_kLowMemEnd)
  then have l: "kLowShadowEnd = 0x8fff6fff" by (simp add: word_unat_eq_iff)
  show "unat kShadowGapBeg = 0x8fff7000" unfolding kShadowGapBeg_def l by simp
qed (simp add: kLowShadowBeg_def SHADOW_OFFSET_def)

lemma MEM_TO_SHADOW_const: "unat a = n \<Longrightarrow> n div 8 + shadow_off = m \<Longrightarrow> MEM_TO_SHADOW a = of_nat m"
  by (metis of_nat_unat ucast_id unat_MEM_TO_SHADOW)

lemma high_bounds:
  assumes "linux_layout c"
  shows "kHighMemBeg c = 0x10007fff8000" "kHighShadowBeg c = 0x02008fff7000" "kHighShadowEnd c = 0x10007fff7fff"
proof -
  have "kHighMemEnd c = 0x7fffffffffff" using assms by (simp add: linux_layout_def)
  then show b: "kHighMemBeg c = 0x10007fff8000" "kHighShadowEnd c = 0x10007fff7fff"
    by (simp_all add: kHighMemBeg_def kHighShadowEnd_def MEM_TO_SHADOW_def SHADOW_SCALE_def SHADOW_OFFSET_def drop_bit_eq_div)
  show "kHighShadowBeg c = 0x02008fff7000"
    unfolding kHighShadowBeg_def b by (simp add: MEM_TO_SHADOW_def SHADOW_SCALE_def SHADOW_OFFSET_def drop_bit_eq_div)
qed

lemma mid_bounds:
  assumes "linux_layout c" and "kMidMemBeg c \<noteq> 0"
  shows "kMidMemBeg c = 0x3000000000" "kMidMemEnd c = 0x4fffffffff"
    "kMidShadowBeg c = 0x067fff8000" "kMidShadowEnd c = 0x0a7fff7fff"
proof -
  show b: "kMidMemBeg c = 0x3000000000" "kMidMemEnd c = 0x4fffffffff"
    using assms by (auto simp: linux_layout_def)
  show "kMidShadowBeg c = 0x067fff8000" "kMidShadowEnd c = 0x0a7fff7fff"
    unfolding kMidShadowBeg_def kMidShadowEnd_def b
    by (simp_all add: MEM_TO_SHADOW_def SHADOW_SCALE_def SHADOW_OFFSET_def drop_bit_eq_div)
qed

lemma in_low: "AddrIsInLowMem a \<longleftrightarrow> unat a < 0x7fff7fff"
  "AddrIsInLowShadow a \<longleftrightarrow> 0x7fff8000 \<le> unat a \<and> unat a \<le> 0x8fff6fff"
  by (simp_all add: AddrIsInLowMem_def AddrIsInLowShadow_def word_less_nat_alt word_le_nat_alt
      unat_kLowMemEnd low_bounds)

lemma in_high:
  assumes "linux_layout c"
  shows "AddrIsInHighMem c a \<longleftrightarrow> 0x10007fff8000 \<le> unat a \<and> unat a \<le> 0x7fffffffffff"
    and "AddrIsInHighShadow c a \<longleftrightarrow> 0x02008fff7000 \<le> unat a \<and> unat a \<le> 0x7fffffffffff"
  using assms high_bounds [OF assms]
  by (simp_all add: AddrIsInHighMem_def AddrIsInHighShadow_def word_le_nat_alt linux_layout_def)

lemma in_mid:
  assumes "linux_layout c"
  shows "AddrIsInMidMem c a \<longleftrightarrow> kMidMemBeg c \<noteq> 0 \<and> 0x3000000000 \<le> unat a \<and> unat a \<le> 0x4fffffffff"
    and "AddrIsInMidShadow c a \<longleftrightarrow> kMidMemBeg c \<noteq> 0 \<and> 0x067fff8000 \<le> unat a \<and> unat a \<le> 0x4fffffffff"
  using mid_bounds [OF assms] by (auto simp: AddrIsInMidMem_def AddrIsInMidShadow_def word_le_nat_alt)

lemma in_gap:
  assumes "linux_layout c"
  shows "AddrIsInShadowGap c a \<longleftrightarrow>
    (if kMidMemBeg c = 0 then 0x8fff7000 \<le> unat a \<and> unat a < 0x02008fff7000
     else 0x8fff7000 \<le> unat a \<and> unat a < 0x067fff8000 \<or> 0x0a7fff8000 \<le> unat a \<and> unat a < 0x3000000000
       \<or> 0x5000000000 \<le> unat a \<and> unat a < 0x02008fff7000)"
proof (cases "kMidMemBeg c = 0")
  case True
  then show ?thesis using high_bounds [OF assms] low_bounds
    by (auto simp: AddrIsInShadowGap_def kShadowGapEnd_def word_le_nat_alt SHADOW_OFFSET_def)
next
  case False
  then show ?thesis using mid_bounds [OF assms False] high_bounds [OF assms] low_bounds
    by (auto simp: AddrIsInShadowGap_def kShadowGapEnd_def kShadowGap2Beg_def kShadowGap2End_def
        kShadowGap3Beg_def kShadowGap3End_def word_le_nat_alt SHADOW_OFFSET_def)
qed

lemma in_mem:
  assumes "linux_layout c" and "protect_shadow_gap c"
  shows "AddrIsInMem c a \<longleftrightarrow> unat a < 0x7fff7fff \<or> 0x10007fff8000 \<le> unat a \<and> unat a \<le> 0x7fffffffffff
    \<or> kMidMemBeg c \<noteq> 0 \<and> 0x3000000000 \<le> unat a \<and> unat a \<le> 0x4fffffffff"
  using in_low in_high [OF assms(1)] in_mid [OF assms(1)] assms(2) by (auto simp: AddrIsInMem_def)

text \<open>
  C39. In both layouts the shadow of an application byte is shadow memory and
  nothing else: its address is neither application memory nor in a protected gap. So shadow
  updates never write to memory the program can use.
\<close>

theorem mem_shadow_disjoint:
  assumes "linux_layout c" and "protect_shadow_gap c" and "MemToShadow c a = Inr s"
  shows "AddrIsInShadow c s \<and> \<not> AddrIsInMem c s \<and> \<not> AddrIsInShadowGap c s"
proof -
  have m: "AddrIsInMem c a" and s: "unat s = unat a div 8 + shadow_off"
    using assms(3) by (auto simp: MemToShadow_def res_simps unat_MEM_TO_SHADOW)
  have sh: "AddrIsInShadow c s \<longleftrightarrow> 0x7fff8000 \<le> unat s \<and> unat s \<le> 0x8fff6fff
      \<or> 0x02008fff7000 \<le> unat s \<and> unat s \<le> 0x7fffffffffff
      \<or> kMidMemBeg c \<noteq> 0 \<and> 0x067fff8000 \<le> unat s \<and> unat s \<le> 0x4fffffffff"
    using in_low in_high [OF assms(1)] in_mid [OF assms(1)] by (auto simp: AddrIsInShadow_def)
  from m have "unat a < 0x7fff7fff \<or> 0x10007fff8000 \<le> unat a \<and> unat a \<le> 0x7fffffffffff
    \<or> kMidMemBeg c \<noteq> 0 \<and> 0x3000000000 \<le> unat a \<and> unat a \<le> 0x4fffffffff"
    by (simp add: in_mem [OF assms(1,2)])
  then have "unat s \<le> 0x8fff6fff \<or> 0x02008fff7000 \<le> unat s \<and> unat s \<le> 0x10007fff7fff
    \<or> kMidMemBeg c \<noteq> 0 \<and> 0x067fff8000 \<le> unat s \<and> unat s \<le> 0x0a7fff7fff"
    unfolding s by (elim disjE conjE) (auto dest: div_le_mono [where k = 8])
  moreover have "0x7fff8000 \<le> unat s" by (simp add: s)
  ultimately show ?thesis
    unfolding sh in_mem [OF assms(1,2)] in_gap [OF assms(1)] by (cases "kMidMemBeg c = 0") auto
qed

definition example_cfg :: cfg where
  "example_cfg = \<lparr>kHighMemEnd = 0x7fffffffffff, kMidMemBeg = 0, kMidMemEnd = 0, protect_shadow_gap = True,
     poison_partial = True, allow_user_poisoning = True, detect_container_overflow = True,
     poison_array_cookie = True, halt_on_error = True, clear_shadow_mmap_threshold = 0x10000,
     page_size = 0x1000, mmap_fixed = (\<lambda>b s. b)\<rparr>"

theorem mem_shadow_disjoint_witness:
  "AddrIsInShadow example_cfg 0x7fffa000 \<and> \<not> AddrIsInMem example_cfg 0x7fffa000
    \<and> \<not> AddrIsInShadowGap example_cfg 0x7fffa000"
proof -
  have l: "linux_layout example_cfg" "protect_shadow_gap example_cfg"
    by (simp_all add: linux_layout_def example_cfg_def)
  have "MemToShadow example_cfg 0x10000 = Inr 0x7fffa000"
    by (simp add: MemToShadow_def in_mem [OF l]) (simp add: MEM_TO_SHADOW_def SHADOW_SCALE_def SHADOW_OFFSET_def drop_bit_eq_div)
  from mem_shadow_disjoint [OF l this] show ?thesis .
qed

text \<open>
  \<^verbatim>\<open>AddrIsInHighShadow\<close> compares with the end of high memory instead of the end of
  high shadow, so every address of high application memory passes for a shadow address.
\<close>

theorem high_memory_passes_for_shadow:
  assumes "linux_layout c" and "AddrIsInHighMem c a"
  shows "AddrIsInShadow c a"
  using assms(2) in_high [OF assms(1)] by (auto simp: AddrIsInShadow_def)

theorem high_memory_passes_for_shadow_witness: "AddrIsInShadow example_cfg 0x600000000000"
proof -
  have l: "linux_layout example_cfg" by (simp add: linux_layout_def example_cfg_def)
  show ?thesis by (rule high_memory_passes_for_shadow [OF l]) (simp add: in_high [OF l])
qed

end
