(* ===== verification/Poison.thy ===== *)
theory Poison
  imports Shadow
begin

text \<open>
  The poisoning interface of \<^verbatim>\<open>asan_poisoning.cc\<close> and the access checks of \<^verbatim>\<open>asan_rtl.cc\<close>: user
  poisoning, stack scopes, contiguous containers, intra-object redzones, the region query and
  the callbacks of the instrumentation. An error report ends the process when the report is
  fatal or the flag \<^verbatim>\<open>halt_on_error\<close> is set.
\<close>

section \<open>State\<close>

record pst =
  shadow :: smem
  can_poison_memory :: bool

definition SetCanPoisonMemory :: "bool \<Rightarrow> pst \<Rightarrow> pst" where
  "SetCanPoisonMemory value s = s\<lparr>can_poison_memory := value\<rparr>"

definition CanPoisonMemory :: "pst \<Rightarrow> bool" where
  "CanPoisonMemory s = can_poison_memory s"

definition store_shadow :: "uptr \<Rightarrow> u8 \<Rightarrow> pst \<Rightarrow> pst" where
  "store_shadow a v s = s\<lparr>shadow := (shadow s)(a := v)\<rparr>"

definition fill_shadow :: "uptr \<Rightarrow> u8 \<Rightarrow> uptr \<Rightarrow> pst \<Rightarrow> pst" where
  "fill_shadow p v n s = s\<lparr>shadow := memset p v n (shadow s)\<rparr>"

text \<open>The magic shadow values of \<^verbatim>\<open>asan_internal.h\<close>.\<close>

definition kAsanHeapLeftRedzoneMagic :: u8 where "kAsanHeapLeftRedzoneMagic = 0xfa"
definition kAsanHeapFreeMagic :: u8 where "kAsanHeapFreeMagic = 0xfd"
definition kAsanUserPoisonedMemoryMagic :: u8 where "kAsanUserPoisonedMemoryMagic = 0xf7"
definition kAsanContiguousContainerOOBMagic :: u8 where "kAsanContiguousContainerOOBMagic = 0xfc"
definition kAsanStackUseAfterScopeMagic :: u8 where "kAsanStackUseAfterScopeMagic = 0xf8"
definition kAsanInternalHeapMagic :: u8 where "kAsanInternalHeapMagic = 0xfe"
definition kAsanArrayCookieMagic :: u8 where "kAsanArrayCookieMagic = 0xac"
definition kAsanIntraObjectRedzone :: u8 where "kAsanIntraObjectRedzone = 0xbb"

lemmas magic_defs = kAsanHeapLeftRedzoneMagic_def kAsanHeapFreeMagic_def
  kAsanUserPoisonedMemoryMagic_def kAsanContiguousContainerOOBMagic_def
  kAsanStackUseAfterScopeMagic_def kAsanInternalHeapMagic_def kAsanArrayCookieMagic_def
  kAsanIntraObjectRedzone_def

text \<open>\<^verbatim>\<open>ScopedInErrorReport\<close>: the destructor dies when the report is fatal or the flag is set.\<close>

definition error_report :: "cfg \<Rightarrow> bool \<Rightarrow> string \<Rightarrow> 'a res \<Rightarrow> 'a res" where
  "error_report c fatal msg k = (if fatal \<or> halt_on_error c then Inl (Reported msg) else k)"

section \<open>Poisoning aligned ranges\<close>

definition PoisonShadow :: "cfg \<Rightarrow> uptr \<Rightarrow> uptr \<Rightarrow> u8 \<Rightarrow> pst \<Rightarrow> pst res" where
  "PoisonShadow c addr sz value s =
     (if \<not> CanPoisonMemory s then Inr s
      else check (AddrIsAlignedByGranularity addr) ''AddrIsAlignedByGranularity(addr)'' (
        check (AddrIsInMem c addr) ''AddrIsInMem(addr)'' (
        check (AddrIsAlignedByGranularity (addr + sz)) ''AddrIsAlignedByGranularity(addr + size)'' (
        check (AddrIsInMem c (addr + sz - SHADOW_GRANULARITY)) ''AddrIsInMem(addr + size - SHADOW_GRANULARITY)'' (
        bindr (FastPoisonShadow c addr sz value (shadow s)) (\<lambda>sh. Inr (s\<lparr>shadow := sh\<rparr>)))))))"

definition PoisonShadowPartialRightRedzone ::
  "cfg \<Rightarrow> uptr \<Rightarrow> uptr \<Rightarrow> uptr \<Rightarrow> u8 \<Rightarrow> pst \<Rightarrow> pst res" where
  "PoisonShadowPartialRightRedzone c addr sz redzone_size value s =
     (if \<not> CanPoisonMemory s then Inr s
      else check (AddrIsAlignedByGranularity addr) ''AddrIsAlignedByGranularity(addr)'' (
        check (AddrIsInMem c addr) ''AddrIsInMem(addr)'' (
        Inr (s\<lparr>shadow := FastPoisonShadowPartialRightRedzone c addr sz redzone_size value (shadow s)\<rparr>))))"

definition OnLowLevelAllocate :: "cfg \<Rightarrow> uptr \<Rightarrow> uptr \<Rightarrow> pst \<Rightarrow> pst res" where
  "OnLowLevelAllocate c ptr sz s = PoisonShadow c ptr sz kAsanInternalHeapMagic s"

section \<open>User poisoning\<close>

text \<open>
  \<^verbatim>\<open>ShadowSegmentEndpoint\<close>: the shadow address of the granule, the offset in it and the shadow
  byte. The offset and the value are signed bytes; \<open>Min_s8\<close> and \<open>Max_s8\<close> are the instances of
  \<^verbatim>\<open>Min\<close> and \<^verbatim>\<open>Max\<close> at that type.
\<close>

record ShadowSegmentEndpoint =
  chunk :: uptr
  offset :: u8
  endpoint_value :: u8

definition endpoint :: "cfg \<Rightarrow> smem \<Rightarrow> uptr \<Rightarrow> ShadowSegmentEndpoint res" where
  "endpoint c sh address =
     bindr (MemToShadow c address) (\<lambda>ch.
       Inr \<lparr>chunk = ch, offset = ucast (address AND (SHADOW_GRANULARITY - 1)), endpoint_value = sh ch\<rparr>)"

definition Min_s8 :: "u8 \<Rightarrow> u8 \<Rightarrow> u8" where
  "Min_s8 a b = (if sint a < sint b then a else b)"

definition Max_s8 :: "u8 \<Rightarrow> u8 \<Rightarrow> u8" where
  "Max_s8 a b = (if sint a > sint b then a else b)"

definition asan_poison_memory_region :: "cfg \<Rightarrow> uptr \<Rightarrow> uptr \<Rightarrow> pst \<Rightarrow> pst res" where
  "asan_poison_memory_region c addr sz s =
     (if \<not> allow_user_poisoning c \<or> sz = 0 then Inr s
      else
        bindr (endpoint c (shadow s) addr) (\<lambda>beg.
        bindr (endpoint c (shadow s) (addr + sz)) (\<lambda>end.
        if chunk beg = chunk end then
          check (sint (offset beg) < sint (offset end)) ''beg.offset < end.offset'' (
          let value = endpoint_value beg in
          check (value = endpoint_value end) ''value == end.value'' (
          if sint value > 0 \<and> sint value \<le> sint (offset end) then
            if sint (offset beg) > 0 then
              Inr (store_shadow (chunk beg) (Min_s8 value (offset beg)) s)
            else Inr (store_shadow (chunk beg) kAsanUserPoisonedMemoryMagic s)
          else Inr s))
        else
          check (chunk beg < chunk end) ''beg.chunk < end.chunk'' (
          let (c1, s1) =
            (if sint (offset beg) > 0 then
               (chunk beg + 1,
                store_shadow (chunk beg)
                  (if endpoint_value beg = 0 then offset beg
                   else Min_s8 (endpoint_value beg) (offset beg)) s)
             else (chunk beg, s));
            s2 = fill_shadow c1 kAsanUserPoisonedMemoryMagic (chunk end - c1) s1
          in if sint (endpoint_value end) > 0 \<and> sint (endpoint_value end) \<le> sint (offset end) then
               Inr (store_shadow (chunk end) kAsanUserPoisonedMemoryMagic s2)
             else Inr s2))))"

definition asan_unpoison_memory_region :: "cfg \<Rightarrow> uptr \<Rightarrow> uptr \<Rightarrow> pst \<Rightarrow> pst res" where
  "asan_unpoison_memory_region c addr sz s =
     (if \<not> allow_user_poisoning c \<or> sz = 0 then Inr s
      else
        bindr (endpoint c (shadow s) addr) (\<lambda>beg.
        bindr (endpoint c (shadow s) (addr + sz)) (\<lambda>end.
        if chunk beg = chunk end then
          check (sint (offset beg) < sint (offset end)) ''beg.offset < end.offset'' (
          let value = endpoint_value beg in
          check (value = endpoint_value end) ''value == end.value'' (
          if value \<noteq> 0 then
            Inr (store_shadow (chunk beg) (Max_s8 value (offset end)) s)
          else Inr s))
        else
          check (chunk beg < chunk end) ''beg.chunk < end.chunk'' (
          let (c1, s1) =
            (if sint (offset beg) > 0 then (chunk beg + 1, store_shadow (chunk beg) 0 s)
             else (chunk beg, s));
            s2 = fill_shadow c1 0 (chunk end - c1) s1
          in if sint (offset end) > 0 \<and> endpoint_value end \<noteq> 0 then
               Inr (store_shadow (chunk end) (Max_s8 (endpoint_value end) (offset end)) s2)
             else Inr s2))))"

section \<open>Queries\<close>

text \<open>
  \<open>find_poisoned\<close> is the slow loop \<^verbatim>\<open>for (; beg < end; beg++)\<close>: the first poisoned address from \<open>beg\<close>
  on. The condition keeps the increment from wrapping.
\<close>

function find_poisoned :: "smem \<Rightarrow> uptr \<Rightarrow> uptr \<Rightarrow> uptr option" where
  "find_poisoned sh beg end =
     (if beg < end then
        if AddressIsPoisoned sh beg then Some beg else find_poisoned sh (beg + 1) end
      else None)"
  by pat_completeness auto
termination
  by (relation "measure (\<lambda>(sh, b, e). unat e - unat b)") (auto simp: unat_succ_less word_less_nat_alt)

declare find_poisoned.simps [simp del]

definition asan_address_is_poisoned :: "smem \<Rightarrow> uptr \<Rightarrow> int" where
  "asan_address_is_poisoned sh addr = (if AddressIsPoisoned sh addr then 1 else 0)"

definition asan_region_is_poisoned :: "cfg \<Rightarrow> smem \<Rightarrow> uptr \<Rightarrow> uptr \<Rightarrow> uptr res" where
  "asan_region_is_poisoned c sh beg sz =
     (if sz = 0 then Inr 0
      else let end = beg + sz in
        if \<not> AddrIsInMem c beg then Inr beg
        else if \<not> AddrIsInMem c end then Inr end
        else check (beg < end) ''beg < end'' (
          bindr (RoundUpTo beg SHADOW_GRANULARITY) (\<lambda>aligned_b.
          let aligned_e = RoundDownTo end SHADOW_GRANULARITY in
          bindr (MemToShadow c aligned_b) (\<lambda>shadow_beg.
          bindr (MemToShadow c aligned_e) (\<lambda>shadow_end.
          bindr (if \<not> AddressIsPoisoned sh beg \<and> \<not> AddressIsPoisoned sh (end - 1) then
                   if shadow_end \<le> shadow_beg then Inr True
                   else mem_is_zero sh shadow_beg (shadow_end - shadow_beg)
                 else Inr False) (\<lambda>fast.
          if fast then Inr 0
          else case find_poisoned sh beg end of
                 Some a \<Rightarrow> Inr a
               | None \<Rightarrow> Inl (Died ''mem_is_zero returned false, but poisoned byte was not found'')))))))"

text \<open>
  \<open>CHECK_SMALL_REGION\<close> guards the unaligned loads and stores: it reports (\<^verbatim>\<open>__asan_report_error\<close>, fatal when the flag says so) the
  address \<^verbatim>\<open>__asan_region_is_poisoned\<close> finds.
\<close>

definition CHECK_SMALL_REGION :: "cfg \<Rightarrow> smem \<Rightarrow> uptr \<Rightarrow> uptr \<Rightarrow> 'a res \<Rightarrow> 'a res" where
  "CHECK_SMALL_REGION c sh p sz k =
     (if AddressIsPoisoned sh p \<or> AddressIsPoisoned sh (p + sz - 1) then
        bindr (asan_region_is_poisoned c sh p sz) (\<lambda>bad.
          error_report c False ''unaligned access'' k)
      else k)"

definition unaligned_load :: "cfg \<Rightarrow> smem \<Rightarrow> mem \<Rightarrow> uptr \<Rightarrow> nat \<Rightarrow> uptr res" where
  "unaligned_load c sh m p n = CHECK_SMALL_REGION c sh p (of_nat n) (Inr (load_le m p n))"

fun store_le :: "mem \<Rightarrow> uptr \<Rightarrow> nat \<Rightarrow> uptr \<Rightarrow> mem" where
  "store_le m a 0 v = m"
| "store_le m a (Suc n) v = store_le (m(a := ucast v)) (a + 1) n (drop_bit 8 v)"

definition unaligned_store :: "cfg \<Rightarrow> smem \<Rightarrow> mem \<Rightarrow> uptr \<Rightarrow> nat \<Rightarrow> uptr \<Rightarrow> mem res" where
  "unaligned_store c sh m p n x = CHECK_SMALL_REGION c sh p (of_nat n) (Inr (store_le m p n x))"

definition asan_poison_cxx_array_cookie :: "cfg \<Rightarrow> uptr \<Rightarrow> pst \<Rightarrow> pst" where
  "asan_poison_cxx_array_cookie c p s =
     (if \<not> poison_array_cookie c then s
      else store_shadow (MEM_TO_SHADOW p) kAsanArrayCookieMagic s)"

definition asan_load_cxx_array_cookie :: "cfg \<Rightarrow> smem \<Rightarrow> mem \<Rightarrow> uptr \<Rightarrow> uptr" where
  "asan_load_cxx_array_cookie c sh m p =
     (if \<not> poison_array_cookie c then load_le m p 8
      else let sval = sh (MEM_TO_SHADOW p) in
        if sval = kAsanArrayCookieMagic then load_le m p 8
        else if sval = kAsanHeapFreeMagic then 0
        else load_le m p 8)"

section \<open>Stack scopes and direct shadow writes\<close>

definition PoisonAlignedStackMemory :: "cfg \<Rightarrow> uptr \<Rightarrow> uptr \<Rightarrow> bool \<Rightarrow> pst \<Rightarrow> pst res" where
  "PoisonAlignedStackMemory c addr sz do_poison s =
     (if sz = 0 then Inr s
      else let aligned_size = sz AND NOT (SHADOW_GRANULARITY - 1) in
        bindr (PoisonShadow c addr aligned_size (if do_poison then kAsanStackUseAfterScopeMagic else 0) s) (\<lambda>s1.
        if sz = aligned_size then Inr s1
        else let end_offset = ucast (sz - aligned_size) :: u8 in
          bindr (MemToShadow c (addr + aligned_size)) (\<lambda>shadow_end.
          let end_value = shadow s1 shadow_end in
          if do_poison then
            if sint end_value > 0 \<and> sint end_value \<le> sint end_offset then
              Inr (store_shadow shadow_end kAsanStackUseAfterScopeMagic s1)
            else Inr s1
          else if end_value \<noteq> 0 then
            Inr (store_shadow shadow_end (Max_s8 end_value end_offset) s1)
          else Inr s1)))"

text \<open>The functions \<^verbatim>\<open>__asan_set_shadow_xx\<close> differ in the byte they write.\<close>

definition asan_set_shadow :: "u8 \<Rightarrow> uptr \<Rightarrow> uptr \<Rightarrow> pst \<Rightarrow> pst" where
  "asan_set_shadow xx addr sz s = fill_shadow addr xx sz s"

definition asan_poison_stack_memory :: "cfg \<Rightarrow> uptr \<Rightarrow> uptr \<Rightarrow> pst \<Rightarrow> pst res" where
  "asan_poison_stack_memory c addr sz s = PoisonAlignedStackMemory c addr sz True s"

definition asan_unpoison_stack_memory :: "cfg \<Rightarrow> uptr \<Rightarrow> uptr \<Rightarrow> pst \<Rightarrow> pst res" where
  "asan_unpoison_stack_memory c addr sz s = PoisonAlignedStackMemory c addr sz False s"

section \<open>Intra-object redzones\<close>

text \<open>
  The loop of the redzone from \<open>ptr\<close> on, which is a multiple of the granularity, as is \<open>end\<close>: so the
  number of iterations is the number of granules in between, and the increment does not wrap.
\<close>

fun intra_object_loop :: "cfg \<Rightarrow> bool \<Rightarrow> uptr \<Rightarrow> nat \<Rightarrow> pst \<Rightarrow> pst res" where
  "intra_object_loop c poison ptr 0 s = Inr s"
| "intra_object_loop c poison ptr (Suc k) s =
     bindr (MemToShadow c ptr) (\<lambda>a.
       intra_object_loop c poison (ptr + SHADOW_GRANULARITY) k
         (store_shadow a (if poison then kAsanIntraObjectRedzone else 0) s))"

definition AsanPoisonOrUnpoisonIntraObjectRedzone ::
  "cfg \<Rightarrow> uptr \<Rightarrow> uptr \<Rightarrow> bool \<Rightarrow> pst \<Rightarrow> pst res" where
  "AsanPoisonOrUnpoisonIntraObjectRedzone c ptr sz poison s =
     (let end = ptr + sz in
      check (sz \<noteq> 0) ''size'' (
      check (sz \<le> 4096) ''size <= 4096'' (
      check (IsAligned end SHADOW_GRANULARITY) ''IsAligned(end, SHADOW_GRANULARITY)'' (
      bindr (if \<not> IsAligned ptr SHADOW_GRANULARITY then
               bindr (MemToShadow c ptr) (\<lambda>a.
                 Inr (store_shadow a (if poison then ucast (ptr mod SHADOW_GRANULARITY) else 0) s,
                      (ptr OR (SHADOW_GRANULARITY - 1)) + 1))
             else Inr (s, ptr)) (\<lambda>(s1, ptr1).
      intra_object_loop c poison ptr1
        (if ptr1 < end then (unat (end - ptr1) + 7) div 8 else 0) s1)))))"

section \<open>Contiguous containers\<close>

definition sanitizer_annotate_contiguous_container ::
  "cfg \<Rightarrow> uptr \<Rightarrow> uptr \<Rightarrow> uptr \<Rightarrow> uptr \<Rightarrow> pst \<Rightarrow> pst res" where
  "sanitizer_annotate_contiguous_container c beg end old_mid new_mid s =
     (if \<not> detect_container_overflow c then Inr s
      else let granularity = SHADOW_GRANULARITY;
        rest =
          check (end - beg \<le> push_bit 34 1) ''end - beg <= 1ULL << 34'' (
          let a = RoundDownTo (Min2 old_mid new_mid) granularity in
          bindr (RoundUpTo (Max2 old_mid new_mid) granularity) (\<lambda>cc.
          let d1 = RoundDownTo old_mid granularity in
          bindr (if a + granularity \<le> d1 then
                   bindr (MemToShadow c a) (\<lambda>sa. check (shadow s sa = 0) ''*(u8*)MemToShadow(a) == 0'' (Inr ()))
                 else Inr ()) (\<lambda>_.
          let b1 = RoundDownTo new_mid granularity in
          bindr (RoundUpTo new_mid granularity) (\<lambda>b2.
          bindr (PoisonShadow c a (b1 - a) 0 s) (\<lambda>s1.
          bindr (PoisonShadow c b2 (cc - b2) kAsanContiguousContainerOOBMagic s1) (\<lambda>s2.
          if b1 \<noteq> b2 then
            check (b2 - b1 = granularity) ''b2 - b1 == granularity'' (
            bindr (MemToShadow c b1) (\<lambda>sb.
              Inr (store_shadow sb (ucast (new_mid - b1)) s2)))
          else Inr s2))))))
        in if \<not> (beg \<le> old_mid \<and> beg \<le> new_mid \<and> old_mid \<le> end \<and> new_mid \<le> end \<and>
                 IsAligned beg granularity) then
             error_report c False ''bad parameters to __sanitizer_annotate_contiguous_container'' rest
           else rest)"

text \<open>\<open>find_good\<close> is the loop that looks for an addressable byte where there must be none.\<close>

function find_good :: "smem \<Rightarrow> uptr \<Rightarrow> uptr \<Rightarrow> uptr option" where
  "find_good sh beg end =
     (if beg < end then
        if \<not> AddressIsPoisoned sh beg then Some beg else find_good sh (beg + 1) end
      else None)"
  by pat_completeness auto
termination
  by (relation "measure (\<lambda>(sh, b, e). unat e - unat b)") (auto simp: unat_succ_less word_less_nat_alt)

declare find_good.simps [simp del]

definition sanitizer_contiguous_container_find_bad_address ::
  "cfg \<Rightarrow> smem \<Rightarrow> uptr \<Rightarrow> uptr \<Rightarrow> uptr \<Rightarrow> uptr res" where
  "sanitizer_contiguous_container_find_bad_address c sh beg mid end =
     (if \<not> detect_container_overflow c then Inr 0
      else
        check (beg \<le> mid) ''beg <= mid'' (
        check (mid \<le> end) ''mid <= end'' (
        let kMaxRangeToCheck = 32;
            r1_beg = beg;
            r1_end = Min2 (beg + kMaxRangeToCheck) mid;
            r2_beg = Max2 beg (mid - kMaxRangeToCheck);
            r2_end = Min2 end (mid + kMaxRangeToCheck);
            r3_beg = Max2 (end - kMaxRangeToCheck) mid;
            r3_end = end
        in case find_poisoned sh r1_beg r1_end of Some i \<Rightarrow> Inr i
         | None \<Rightarrow> case find_poisoned sh r2_beg mid of Some i \<Rightarrow> Inr i
         | None \<Rightarrow> case find_good sh mid r2_end of Some i \<Rightarrow> Inr i
         | None \<Rightarrow> case find_good sh r3_beg r3_end of Some i \<Rightarrow> Inr i
         | None \<Rightarrow> Inr 0)))"

definition sanitizer_verify_contiguous_container ::
  "cfg \<Rightarrow> smem \<Rightarrow> uptr \<Rightarrow> uptr \<Rightarrow> uptr \<Rightarrow> bool res" where
  "sanitizer_verify_contiguous_container c sh beg mid end =
     bindr (sanitizer_contiguous_container_find_bad_address c sh beg mid end) (\<lambda>a. Inr (a = 0))"

definition WordIsPoisoned :: "cfg \<Rightarrow> smem \<Rightarrow> uptr \<Rightarrow> bool res" where
  "WordIsPoisoned c sh addr = bindr (asan_region_is_poisoned c sh addr 8) (\<lambda>a. Inr (a \<noteq> 0))"

section \<open>The checks of the instrumentation\<close>

text \<open>
  The body of the callbacks \<^verbatim>\<open>__asan_loadN\<close> and \<^verbatim>\<open>__asan_storeN\<close> for the sizes 1 to 16, up to the report:
  for 16 bytes the shadow of both granules is read as one \<^verbatim>\<open>u16\<close>. \<open>access_callback\<close> adds the
  report (\<^verbatim>\<open>__asan_test_only_reported_buggy_pointer\<close> is null outside the unit tests).
\<close>

definition access_is_bad :: "smem \<Rightarrow> uptr \<Rightarrow> uptr \<Rightarrow> bool" where
  "access_is_bad sh addr sz =
     (let sp = MEM_TO_SHADOW addr;
          s = (if sz \<le> SHADOW_GRANULARITY then load_le sh sp 1 else load_le sh sp 2)
      in s \<noteq> 0 \<and>
         (sz \<ge> SHADOW_GRANULARITY \<or>
          sint (ucast ((addr AND (SHADOW_GRANULARITY - 1)) + sz - 1) :: u8) \<ge> sint (ucast s :: u8)))"

definition access_callback :: "cfg \<Rightarrow> smem \<Rightarrow> uptr \<Rightarrow> uptr \<Rightarrow> bool \<Rightarrow> unit res" where
  "access_callback c sh addr sz fatal =
     (if access_is_bad sh addr sz then error_report c fatal ''bad access'' (Inr ()) else Inr ())"

definition access_callback_N :: "cfg \<Rightarrow> smem \<Rightarrow> uptr \<Rightarrow> uptr \<Rightarrow> bool \<Rightarrow> unit res" where
  "access_callback_N c sh addr sz fatal =
     bindr (asan_region_is_poisoned c sh addr sz) (\<lambda>bad.
       if bad \<noteq> 0 then error_report c fatal ''bad access'' (Inr ()) else Inr ())"

section \<open>The region query\<close>

lemma granule_of_last: "e div 8 * 8 \<le> x \<Longrightarrow> x < e \<Longrightarrow> x div 8 = (e - 1) div 8" for e x :: nat
proof -
  assume a: "e div 8 * 8 \<le> x" "x < e"
  have "x div 8 = e div 8" using a by (intro div_nat_eqI) auto
  moreover have "(e - 1) div 8 = e div 8" using a by (intro div_nat_eqI) auto
  ultimately show ?thesis by simp
qed

lemma find_poisoned_Some:
  "find_poisoned sh b e = Some a \<longleftrightarrow>
    unat b \<le> unat a \<and> unat a < unat e \<and> AddressIsPoisoned sh a
    \<and> (\<forall>x. unat b \<le> unat x \<and> unat x < unat a \<longrightarrow> \<not> AddressIsPoisoned sh x)"
proof (induction sh b e rule: find_poisoned.induct)
  case (1 sh b e)
  show ?case
  proof (cases "b < e \<and> \<not> AddressIsPoisoned sh b")
    case True
    have ne: "Suc (unat b) \<le> unat x" if "unat b \<le> unat x" "x \<noteq> b" for x
      using that by (simp add: word_unat_eq_iff)
    have "find_poisoned sh b e = find_poisoned sh (b + 1) e" using True by (subst find_poisoned.simps) simp
    moreover have "unat (b + 1) = Suc (unat b)" using True unat_succ_less [of b e] by simp
    moreover have "b < e" "\<not> AddressIsPoisoned sh b" using True by simp_all
    ultimately have IH: "find_poisoned sh b e = Some a \<longleftrightarrow> Suc (unat b) \<le> unat a \<and> unat a < unat e \<and> AddressIsPoisoned sh a
      \<and> (\<forall>x. Suc (unat b) \<le> unat x \<and> unat x < unat a \<longrightarrow> \<not> AddressIsPoisoned sh x)"
      using "1.IH" by simp
    show ?thesis
    proof
      assume "find_poisoned sh b e = Some a"
      then have f: "Suc (unat b) \<le> unat a" "unat a < unat e" "AddressIsPoisoned sh a"
        "\<And>x. Suc (unat b) \<le> unat x \<Longrightarrow> unat x < unat a \<Longrightarrow> \<not> AddressIsPoisoned sh x"
        unfolding IH by auto
      have "\<not> AddressIsPoisoned sh x" if "unat b \<le> unat x" "unat x < unat a" for x
        using that True ne [of x] f(4) [of x] by (cases "x = b") auto
      with f show "unat b \<le> unat a \<and> unat a < unat e \<and> AddressIsPoisoned sh a
        \<and> (\<forall>x. unat b \<le> unat x \<and> unat x < unat a \<longrightarrow> \<not> AddressIsPoisoned sh x)" by auto
    next
      assume r: "unat b \<le> unat a \<and> unat a < unat e \<and> AddressIsPoisoned sh a
        \<and> (\<forall>x. unat b \<le> unat x \<and> unat x < unat a \<longrightarrow> \<not> AddressIsPoisoned sh x)"
      with True have "a \<noteq> b" by auto
      with r ne [of a] show "find_poisoned sh b e = Some a" unfolding IH by auto
    qed
  next
    case False
    have eq: "x = b" if "unat b \<le> unat x" "unat x \<le> unat b" for x
      using that by (simp add: word_unat_eq_iff)
    show ?thesis
    proof (cases "b < e")
      case True
      with False have p: "AddressIsPoisoned sh b" and "find_poisoned sh b e = Some b"
        by (simp_all add: find_poisoned.simps)
      moreover have "unat a \<le> unat b"
        if "\<forall>x. unat b \<le> unat x \<and> unat x < unat a \<longrightarrow> \<not> AddressIsPoisoned sh x"
        using that p by (meson not_less order_refl)
      ultimately show ?thesis using True eq [of a] by (auto simp: word_less_nat_alt)
    next
      case False
      then show ?thesis by (subst find_poisoned.simps) (simp add: word_less_nat_alt)
    qed
  qed
qed

lemma find_poisoned_None:
  "find_poisoned sh b e = None \<longleftrightarrow> (\<forall>x. unat b \<le> unat x \<and> unat x < unat e \<longrightarrow> \<not> AddressIsPoisoned sh x)"
proof (induction sh b e rule: find_poisoned.induct)
  case (1 sh b e)
  show ?case
  proof (cases "b < e \<and> \<not> AddressIsPoisoned sh b")
    case True
    have ne: "Suc (unat b) \<le> unat x" if "unat b \<le> unat x" "x \<noteq> b" for x
      using that by (simp add: word_unat_eq_iff)
    have "find_poisoned sh b e = find_poisoned sh (b + 1) e" using True by (subst find_poisoned.simps) simp
    moreover have "unat (b + 1) = Suc (unat b)" using True unat_succ_less [of b e] by simp
    moreover have "b < e" "\<not> AddressIsPoisoned sh b" using True by simp_all
    ultimately show ?thesis
      using "1.IH" by (simp only: simp_thms) (blast dest: Suc_leD intro: ne)
  next
    case False
    then show ?thesis
      by (subst find_poisoned.simps) (force simp: word_less_nat_alt not_less)
  qed
qed

lemma find_good_None:
  "find_good sh b e = None \<longleftrightarrow> (\<forall>x. unat b \<le> unat x \<and> unat x < unat e \<longrightarrow> AddressIsPoisoned sh x)"
proof (induction sh b e rule: find_good.induct)
  case (1 sh b e)
  show ?case
  proof (cases "b < e \<and> AddressIsPoisoned sh b")
    case True
    have ne: "Suc (unat b) \<le> unat x" if "unat b \<le> unat x" "x \<noteq> b" for x
      using that by (simp add: word_unat_eq_iff)
    have "find_good sh b e = find_good sh (b + 1) e" using True by (subst find_good.simps) simp
    moreover have "unat (b + 1) = Suc (unat b)" using True unat_succ_less [of b e] by simp
    moreover have "b < e" "AddressIsPoisoned sh b" using True by simp_all
    ultimately show ?thesis
      using "1.IH" by (simp only: simp_thms) (blast dest: Suc_leD intro: ne)
  next
    case False
    then show ?thesis
      by (subst find_good.simps) (force simp: word_less_nat_alt not_less)
  qed
qed

text \<open>
  \<open>fast_check\<close>: what the fast path of the query establishes when it answers 0. The bytes between an
  unaligned begin and the next granule boundary are only covered by the check of the first of
  them.
\<close>

lemma shadow_zero_region:
  assumes "\<forall>a. unat (MEM_TO_SHADOW b) \<le> unat a \<and> unat a < unat (MEM_TO_SHADOW e) \<longrightarrow> sh a = 0"
    and "unat b mod 8 = 0" and "unat e mod 8 = 0" and "unat b \<le> unat x" and "unat x < unat e"
  shows "\<not> AddressIsPoisoned sh x"
proof -
  have "unat b div 8 \<le> unat x div 8" using assms(4) by (rule div_le_mono)
  moreover have "unat x div 8 < unat e div 8" using assms(3,5) by (auto simp: mod_eq_0_iff_dvd elim!: dvdE)
  ultimately have "sh (MEM_TO_SHADOW x) = 0" using assms(1) by (simp add: unat_MEM_TO_SHADOW)
  then show ?thesis by (simp add: AddressIsPoisoned_iff)
qed

lemma poisoned_same_granule:
  assumes "\<not> AddressIsPoisoned sh y" and "unat x \<le> unat y" and "unat x div 8 = unat y div 8"
  shows "\<not> AddressIsPoisoned sh x"
proof -
  have "MEM_TO_SHADOW x = MEM_TO_SHADOW y" using assms(3) by (simp add: MEM_TO_SHADOW_eq)
  moreover have "unat x mod 8 \<le> unat y mod 8"
    using assms(2,3) by (metis div_mult_mod_eq nat_add_left_cancel_le)
  ultimately show ?thesis using assms(1) poisoned_at_mono by (auto simp: AddressIsPoisoned_iff)
qed

lemma region_is_poisoned_run:
  fixes beg sz :: uptr
  assumes sz: "sz \<noteq> 0" and nw: "unat beg + unat sz < 2 ^ 63" and small: "unat sz \<le> 2 ^ 40"
    and "AddrIsInMem c beg" "AddrIsInMem c (beg + sz)"
    and "AddrIsInMem c (round_up beg 8)" "AddrIsInMem c (RoundDownTo (beg + sz) 8)"
  defines "end \<equiv> beg + sz"
  shows "asan_region_is_poisoned c sh beg sz =
    (if \<not> AddressIsPoisoned sh beg \<and> \<not> AddressIsPoisoned sh (end - 1)
        \<and> (\<forall>x. unat (round_up beg 8) \<le> unat x \<and> unat x < unat (RoundDownTo end 8) \<longrightarrow> sh (MEM_TO_SHADOW x) = 0)
     then Inr 0
     else case find_poisoned sh beg end of Some a \<Rightarrow> Inr a
       | None \<Rightarrow> Inl (Died ''mem_is_zero returned false, but poisoned byte was not found''))"
proof -
  define ab where "ab = round_up beg 8"
  define ae where "ae = RoundDownTo end 8"
  have e: "unat end = unat beg + unat sz" unfolding end_def using nw by (intro unat_add_nowrap) simp
  have lt: "beg < end" using e sz by (simp add: word_less_nat_alt unat_gt_0)
  have al: "8 dvd unat ab" "8 dvd unat ae"
    using round_up_aligned [of beg 3, unfolded IsAligned_iff_dvd] RoundDownTo_aligned [of "end" 3, unfolded IsAligned_iff_dvd]
    by (simp_all add: ab_def ae_def)
  have le: "unat beg \<le> unat ab" "unat ae \<le> unat end"
    using round_up_ge [of 3 beg] RoundDownTo_le [of "end" 3] nw by (simp_all add: ab_def ae_def word_le_nat_alt)
  define z where "z = (\<forall>x. unat ab \<le> unat x \<and> unat x < unat ae \<longrightarrow> sh (MEM_TO_SHADOW x) = 0)"
  have zero: "(if MEM_TO_SHADOW ae \<le> MEM_TO_SHADOW ab then Inr True
       else mem_is_zero sh (MEM_TO_SHADOW ab) (MEM_TO_SHADOW ae - MEM_TO_SHADOW ab)) = Inr z"
  proof (cases "MEM_TO_SHADOW ae \<le> MEM_TO_SHADOW ab")
    case True
    then have "unat ae \<le> unat ab" using al
      by (auto simp: word_le_nat_alt unat_MEM_TO_SHADOW elim!: dvdE)
    with True show ?thesis by (auto simp: z_def)
  next
    case False
    then have d: "unat (MEM_TO_SHADOW ae - MEM_TO_SHADOW ab) = unat ae div 8 - unat ab div 8"
      by (subst unat_sub) (simp_all add: unat_MEM_TO_SHADOW)
    have f: "unat ab div 8 < unat ae div 8" using False by (simp add: word_le_nat_alt unat_MEM_TO_SHADOW)
    have "unat ae div 8 - unat ab div 8 \<le> unat sz"
    proof -
      have "unat ae - unat ab \<le> unat sz" using le e by simp
      then show ?thesis using al by (auto elim!: dvdE)
    qed
    then have 1: "unat (MEM_TO_SHADOW ae - MEM_TO_SHADOW ab) \<le> 2 ^ 40" using d small by simp
    have "unat ae div 8 \<le> 2 ^ 60" using le e nw by simp
    then have 2: "unat (MEM_TO_SHADOW ab) + unat (MEM_TO_SHADOW ae - MEM_TO_SHADOW ab) \<le> 2 ^ 63"
      using f d by (simp add: unat_MEM_TO_SHADOW)
    have "(\<forall>a. unat (MEM_TO_SHADOW ab) \<le> unat a \<and> unat a < unat (MEM_TO_SHADOW ab)
        + unat (MEM_TO_SHADOW ae - MEM_TO_SHADOW ab) \<longrightarrow> sh a = 0) \<longleftrightarrow> z"
    proof
      assume l: "\<forall>a. unat (MEM_TO_SHADOW ab) \<le> unat a \<and> unat a < unat (MEM_TO_SHADOW ab)
        + unat (MEM_TO_SHADOW ae - MEM_TO_SHADOW ab) \<longrightarrow> sh a = 0"
      show z unfolding z_def
      proof (intro allI impI)
        fix x :: uptr assume x: "unat ab \<le> unat x \<and> unat x < unat ae"
        have "unat ab div 8 \<le> unat x div 8" using x div_le_mono by blast
        moreover have "unat x div 8 < unat ae div 8" using x al(2) by (auto elim!: dvdE)
        ultimately show "sh (MEM_TO_SHADOW x) = 0" using l f d by (simp add: unat_MEM_TO_SHADOW)
      qed
    next
      assume z: z
      show "\<forall>a. unat (MEM_TO_SHADOW ab) \<le> unat a \<and> unat a < unat (MEM_TO_SHADOW ab)
        + unat (MEM_TO_SHADOW ae - MEM_TO_SHADOW ab) \<longrightarrow> sh a = 0"
      proof (intro allI impI)
        fix a :: uptr assume a: "unat (MEM_TO_SHADOW ab) \<le> unat a \<and> unat a < unat (MEM_TO_SHADOW ab)
          + unat (MEM_TO_SHADOW ae - MEM_TO_SHADOW ab)"
        define k where "k = unat a - shadow_off"
        have k: "unat a = k + shadow_off" "unat ab div 8 \<le> k" "k < unat ae div 8"
          using a f d by (auto simp: k_def unat_MEM_TO_SHADOW)
        have bound: "8 * k < 2 ^ 64" using k(3) unat_lt_64 [of ae] by simp
        define x where "x = (of_nat (8 * k) :: uptr)"
        have x: "unat x = 8 * k" using bound unfolding x_def unat_of_nat by (intro mod_less) simp
        have "MEM_TO_SHADOW x = a" by (simp add: word_unat_eq_iff unat_MEM_TO_SHADOW x k)
        moreover have "unat ab \<le> unat x" "unat x < unat ae" using k x al by (auto elim!: dvdE)
        ultimately show "sh a = 0" using z by (auto simp: z_def)
      qed
    qed
    with False mem_is_zero_exact [OF 1 2, of sh] show ?thesis by simp
  qed
  have r: "RoundUpTo beg SHADOW_GRANULARITY = Inr ab"
    using IsPowerOfTwo_pow2 [of 3] by (simp add: RoundUpTo_def granularity ab_def)
  have m: "MemToShadow c ab = Inr (MEM_TO_SHADOW ab)" "MemToShadow c ae = Inr (MEM_TO_SHADOW ae)"
    using assms(6,7) by (simp_all add: MemToShadow_def ab_def ae_def end_def)
  have run: "asan_region_is_poisoned c sh beg sz =
      bindr (if \<not> AddressIsPoisoned sh beg \<and> \<not> AddressIsPoisoned sh (end - 1) then Inr z else Inr False)
       (\<lambda>fast. if fast then Inr 0 else case find_poisoned sh beg end of Some a \<Rightarrow> Inr a
       | None \<Rightarrow> Inl (Died ''mem_is_zero returned false, but poisoned byte was not found''))"
    unfolding asan_region_is_poisoned_def using sz assms(4,5) lt r m zero
    by (simp add: Let_def granularity flip: end_def ae_def)
  show ?thesis unfolding run z_def [symmetric, unfolded ab_def ae_def] by (auto simp: z_def)
qed

text \<open>
  The shadow bytes the runtime writes are 0 to 7 or magic values, which are negative as signed
  bytes. On such a shadow a granule without poisoned bytes has the shadow byte 0.
\<close>

definition shadow_wf :: "smem \<Rightarrow> bool" where
  "shadow_wf sh \<longleftrightarrow> (\<forall>a. sint (sh a) < 8)"

lemma wf_clean_granule:
  assumes "shadow_wf sh" and "\<not> AddressIsPoisoned sh x" and "unat x mod 8 = 7"
  shows "sh (MEM_TO_SHADOW x) = 0"
  using assms(1) [unfolded shadow_wf_def, rule_format, of "MEM_TO_SHADOW x"] assms(2,3)
  by (auto simp: AddressIsPoisoned_iff poisoned_at_def)

text \<open>
  The three tests of the fast path, on a region from a granule boundary to \<open>e\<close>: they all pass exactly when no byte
  of the region is poisoned.
\<close>

definition fast_clean :: "mem \<Rightarrow> uptr \<Rightarrow> uptr \<Rightarrow> bool" where
  "fast_clean sh beg e \<longleftrightarrow> \<not> AddressIsPoisoned sh beg \<and> \<not> AddressIsPoisoned sh (e - 1)
     \<and> (\<forall>x. unat beg \<le> unat x \<and> unat x < unat (RoundDownTo e 8) \<longrightarrow> sh (MEM_TO_SHADOW x) = 0)"

lemma fast_clean_sound:
  assumes f: "fast_clean sh beg e" and x: "unat beg \<le> unat x \<and> unat x < unat e"
  shows "\<not> AddressIsPoisoned sh x"
proof (cases "unat x < unat (RoundDownTo e 8)")
  case True
  with f x have "sh (MEM_TO_SHADOW x) = 0" by (simp add: fast_clean_def)
  then show ?thesis by (simp add: AddressIsPoisoned_iff)
next
  case False
  have ae: "unat (RoundDownTo e 8) = unat e div 8 * 8" using unat_RoundDownTo [of e 3] by simp
  have last: "unat (e - 1) = unat e - 1" using x by (intro unat_pred) simp
  have "unat x div 8 = unat (e - 1) div 8" "unat x \<le> unat (e - 1)"
    using False granule_of_last [of "unat e" "unat x"] x last ae by (simp, linarith)
  with f show ?thesis using poisoned_same_granule [of sh "e - 1" x] by (simp add: fast_clean_def)
qed

lemma fast_clean_complete:
  assumes cl: "\<forall>x. unat beg \<le> unat x \<and> unat x < unat e \<longrightarrow> \<not> AddressIsPoisoned sh x"
    and lt: "unat beg < unat e" and wf: "shadow_wf sh"
  shows "fast_clean sh beg e"
proof -
  have ae: "unat (RoundDownTo e 8) = unat e div 8 * 8" using unat_RoundDownTo [of e 3] by simp
  have last: "unat (e - 1) = unat e - 1" using lt by (intro unat_pred) simp
  have "sh (MEM_TO_SHADOW x) = 0" if x: "unat beg \<le> unat x" "unat x < unat (RoundDownTo e 8)" for x
  proof -
    define y where "y = (of_nat (unat x div 8 * 8 + 7) :: uptr)"
    have "unat x div 8 < unat e div 8" using x(2) ae by (simp add: div_less_iff_less_mult)
    moreover have "unat e div 8 * 8 \<le> unat e" by simp
    ultimately have lt: "unat x div 8 * 8 + 7 < unat e" by linarith
    then have y: "unat y = unat x div 8 * 8 + 7"
      unfolding y_def unat_of_nat using unat_lt_64 [of e] by (intro mod_less) simp
    have "unat beg \<le> unat y" using x(1) y by linarith
    with cl lt y have "\<not> AddressIsPoisoned sh y" by simp
    then have "sh (MEM_TO_SHADOW y) = 0" using y by (intro wf_clean_granule [OF wf]) simp_all
    moreover have "MEM_TO_SHADOW y = MEM_TO_SHADOW x" using y by (simp add: MEM_TO_SHADOW_eq)
    ultimately show ?thesis by simp
  qed
  moreover have "\<not> AddressIsPoisoned sh beg" "\<not> AddressIsPoisoned sh (e - 1)" using cl lt last by auto
  ultimately show ?thesis by (simp add: fast_clean_def)
qed

text \<open>
  C12. \<^verbatim>\<open>__asan_region_is_poisoned\<close> on a region that begins at a granule boundary is exact: it
  always answers, with the first poisoned byte of the region if there is one and with 0
  otherwise. The fast path, word-wise reads of the shadow and all, never disagrees with the slow loop.
\<close>

theorem region_is_poisoned_exact:
  fixes beg sz :: uptr
  assumes "sz \<noteq> 0" and "unat beg + unat sz < 2 ^ 63" and "unat sz \<le> 2 ^ 40"
    and "AddrIsInMem c beg" and "AddrIsInMem c (beg + sz)" and "AddrIsInMem c (RoundDownTo (beg + sz) 8)"
    and al: "unat beg mod 8 = 0" and wf: "shadow_wf sh"
  shows "\<exists>r. asan_region_is_poisoned c sh beg sz = Inr r \<and>
    (if \<exists>x. unat beg \<le> unat x \<and> unat x < unat beg + unat sz \<and> AddressIsPoisoned sh x
     then unat beg \<le> unat r \<and> unat r < unat beg + unat sz \<and> AddressIsPoisoned sh r
       \<and> (\<forall>x. unat beg \<le> unat x \<and> unat x < unat r \<longrightarrow> \<not> AddressIsPoisoned sh x)
     else r = 0)"
proof -
  define e where "e = beg + sz"
  have ue: "unat e = unat beg + unat sz" unfolding e_def using assms(2) by (intro unat_add_nowrap) simp
  have lt: "unat beg < unat e" using assms(1) ue by (simp add: unat_gt_0)
  have ab: "round_up beg 8 = beg"
    using round_up_id [of 3 beg] al assms(2) by (simp add: IsAligned_iff_dvd [of beg 3, simplified] dvd_eq_mod_eq_0)
  have run: "asan_region_is_poisoned c sh beg sz = (if fast_clean sh beg e then Inr 0
     else case find_poisoned sh beg e of Some a \<Rightarrow> Inr a
       | None \<Rightarrow> Inl (Died ''mem_is_zero returned false, but poisoned byte was not found''))"
    unfolding fast_clean_def by (rule region_is_poisoned_run [OF assms(1-5), unfolded ab, OF assms(4,6), folded e_def])
  show ?thesis
  proof (cases "find_poisoned sh beg e")
    case None
    then have cl: "\<forall>x. unat beg \<le> unat x \<and> unat x < unat e \<longrightarrow> \<not> AddressIsPoisoned sh x"
      by (simp add: find_poisoned_None)
    with run fast_clean_complete [OF cl lt wf] ue show ?thesis by auto
  next
    case (Some a)
    then have a: "unat beg \<le> unat a \<and> unat a < unat e \<and> AddressIsPoisoned sh a
      \<and> (\<forall>x. unat beg \<le> unat x \<and> unat x < unat a \<longrightarrow> \<not> AddressIsPoisoned sh x)"
      by (simp add: find_poisoned_Some)
    then have "\<not> fast_clean sh beg e" using fast_clean_sound by blast
    then have "asan_region_is_poisoned c sh beg sz = Inr a" using run Some by simp
    then show ?thesis using a ue by auto
  qed
qed

theorem region_is_poisoned_exact_witness:
  "\<exists>r. asan_region_is_poisoned example_cfg (\<lambda>a. 0) 0x10000 20 = Inr r \<and>
    (if \<exists>x. unat (0x10000 :: uptr) \<le> unat x \<and> unat x < unat (0x10000 :: uptr) + unat (20 :: uptr) \<and> AddressIsPoisoned (\<lambda>a. 0) x
     then unat (0x10000 :: uptr) \<le> unat r \<and> unat r < unat (0x10000 :: uptr) + unat (20 :: uptr) \<and> AddressIsPoisoned (\<lambda>a. 0) r
       \<and> (\<forall>x. unat (0x10000 :: uptr) \<le> unat x \<and> unat x < unat r \<longrightarrow> \<not> AddressIsPoisoned (\<lambda>a. 0) x)
     else r = 0)"
proof -
  have l: "linux_layout example_cfg" "protect_shadow_gap example_cfg"
    by (simp_all add: linux_layout_def example_cfg_def)
  show ?thesis
    by (rule region_is_poisoned_exact)
      (simp_all add: in_mem [OF l] shadow_wf_def RoundDownTo_def)
qed

text \<open>
  C30. On an unaligned begin the fast path misses poisoned bytes: it looks at the first byte
  and at whole granules only, so the unaddressable tail of a partial first granule goes unseen when the
  region continues behind it. Here the granule at \<open>0x10000\<close> has four addressable bytes, the query
  for 16 bytes from \<open>0x10002\<close> answers 0, and the byte \<open>0x10004\<close> is poisoned.
\<close>

theorem region_query_misses:
  "asan_region_is_poisoned example_cfg ((\<lambda>a. 0)(MEM_TO_SHADOW 0x10000 := 4)) 0x10002 16 = Inr 0
    \<and> AddressIsPoisoned ((\<lambda>a. 0)(MEM_TO_SHADOW 0x10000 := 4)) 0x10004"
proof -
  have l: "linux_layout example_cfg" "protect_shadow_gap example_cfg"
    by (simp_all add: linux_layout_def example_cfg_def)
  have up: "round_up 0x10002 8 = 0x10008" and down: "RoundDownTo 65554 8 = 0x10010"
    by (simp_all add: round_up_def RoundDownTo_def)
  have z: "x = x \<Longrightarrow> 65544 \<le> unat x \<Longrightarrow> MEM_TO_SHADOW x \<noteq> MEM_TO_SHADOW 0x10000" for x
    by (simp add: MEM_TO_SHADOW_eq)
  have "\<not> poisoned_at 4 2" "poisoned_at 4 4" by (simp_all add: poisoned_at_def)
  then show ?thesis
    using z by (subst region_is_poisoned_run)
      (auto simp: in_mem [OF l] up down AddressIsPoisoned_iff MEM_TO_SHADOW_eq)
qed

end
