(* ===== verification/UserPoison.thy ===== *)
theory UserPoison
  imports Poison
begin

text \<open>
  The user poisoning interface: what \<^verbatim>\<open>__asan_poison_memory_region\<close> and its inverse guarantee, byte by
  byte. The source comment promises bounds on what becomes poisoned or addressable; the two
  properties below state them exactly. The granule lemmas serve the container proofs as well.
\<close>

section \<open>User poisoning\<close>

lemma sint_small: "unat (v :: u8) < 128 \<Longrightarrow> sint v = int (unat v)"
proof -
  assume "unat v < 128"
  then have "int (unat v) < 128" by (simp only: of_nat_less_numeral_iff)
  moreover have "- 128 \<le> int (unat v)" by linarith
  ultimately have "signed_take_bit 7 (int (unat v)) = int (unat v)"
    using signed_take_bit_int_eq_self [of 7 "int (unat v)"] by simp
  then show ?thesis by (simp add: sint_uint)
qed

lemma sint_offset: "sint (ucast (a AND 7 :: uptr) :: u8) = int (unat a mod 8)"
proof -
  have "unat (ucast (a AND 7) :: u8) = unat a mod 8"
    by (simp add: unsigned_ucast_eq unat_and_7 take_bit_eq_mod)
  moreover have "unat a mod 8 < 128" by (rule less_trans [of _ 8]) simp_all
  ultimately show ?thesis by (simp add: sint_small)
qed

lemma magic_poisoned [simp]:
  "poisoned_at kAsanUserPoisonedMemoryMagic k" "poisoned_at kAsanStackUseAfterScopeMagic k"
  "poisoned_at kAsanContiguousContainerOOBMagic k" "poisoned_at kAsanIntraObjectRedzone k"
  "poisoned_at kAsanHeapLeftRedzoneMagic k" "poisoned_at kAsanInternalHeapMagic k"
  by (simp_all add: poisoned_at_def magic_defs)

lemma sint_0_iff: "sint (v :: u8) = 0 \<longleftrightarrow> v = 0"
  by (metis signed_0 signed_word_eqI)

lemma poisoned_at_offset:
  "poisoned_at (ucast (a AND 7 :: uptr)) k \<longleftrightarrow> unat a mod 8 \<noteq> 0 \<and> unat a mod 8 \<le> k"
  unfolding poisoned_at_def sint_0_iff [symmetric] sint_offset by auto

text \<open>A run of the two endpoint reads: offsets and values of the first and last granule.\<close>

lemma endpoint_run:
  "AddrIsInMem c a \<Longrightarrow> endpoint c sh a =
    Inr \<lparr>chunk = MEM_TO_SHADOW a, offset = ucast (a AND 7), endpoint_value = sh (MEM_TO_SHADOW a)\<rparr>"
  by (simp add: endpoint_def MemToShadow_def granularity)

lemma store_fill_sel [simp]:
  "shadow (store_shadow a v s) = (shadow s)(a := v)" "shadow (fill_shadow p v n s) = memset p v n (shadow s)"
  "can_poison_memory (store_shadow a v s) = can_poison_memory s"
  "can_poison_memory (fill_shadow p v n s) = can_poison_memory s"
  by (simp_all add: store_shadow_def fill_shadow_def)

text \<open>
  Filling from the granule of \<open>l\<close> (or the one after it, when \<open>l\<close> is not at its start) up to the
  granule of \<open>r\<close>, as seen by an application byte \<open>x\<close>.
\<close>

lemma fill_granules:
  assumes "unat l div 8 < unat r div 8"
  defines "c1 \<equiv> (if 0 < unat l mod 8 then MEM_TO_SHADOW l + 1 else MEM_TO_SHADOW l)"
  shows "memset c1 v (MEM_TO_SHADOW r - c1) sh (MEM_TO_SHADOW x) =
    (if unat l \<le> unat x div 8 * 8 \<and> unat x div 8 < unat r div 8 then v else sh (MEM_TO_SHADOW x))"
proof -
  define g where "g = unat l div 8 + (if 0 < unat l mod 8 then 1 else 0)"
  have small: "unat l div 8 < 2 ^ 61" "unat r div 8 < 2 ^ 61" using unat_lt_64 [of l] unat_lt_64 [of r] by simp_all
  have c1: "unat c1 = g + shadow_off"
  proof (cases "0 < unat l mod 8")
    case True
    then have "unat c1 = unat (MEM_TO_SHADOW l + 1)" by (simp add: c1_def)
    also have "\<dots> = unat (MEM_TO_SHADOW l) + 1"
      using small by (subst unat_add_nowrap) (simp_all add: unat_MEM_TO_SHADOW)
    finally show ?thesis using True by (simp add: unat_MEM_TO_SHADOW g_def)
  qed (simp add: c1_def g_def unat_MEM_TO_SHADOW)
  have gr: "g \<le> unat r div 8" using assms(1) by (simp add: g_def)
  have "unat (MEM_TO_SHADOW r - c1) = unat r div 8 - g"
    using gr by (subst unat_sub) (simp_all add: word_le_nat_alt c1 unat_MEM_TO_SHADOW)
  then have "memset c1 v (MEM_TO_SHADOW r - c1) sh (MEM_TO_SHADOW x) =
    (if g \<le> unat x div 8 \<and> unat x div 8 < unat r div 8 then v else sh (MEM_TO_SHADOW x))"
    using gr small by (subst memset_iff) (auto simp: c1 unat_MEM_TO_SHADOW)
  moreover have "g \<le> q \<longleftrightarrow> unat l \<le> q * 8" for q
  proof -
    obtain d m where "unat l = 8 * d + m" "m < 8" by (metis mod_less_divisor mult_div_mod_eq zero_less_numeral)
    then show ?thesis unfolding g_def by auto
  qed
  ultimately show ?thesis by simp
qed

lemma granule_split:
  fixes x :: nat
  obtains d m where "x = 8 * d + m" "m < 8" "x div 8 = d" "x mod 8 = m"
  by (metis div_mult_self4 div_less mod_less_divisor mult_div_mod_eq zero_less_numeral)

lemma granule_start: "l \<le> l div 8 * 8 \<longleftrightarrow> l mod 8 = 0" for l :: nat
  by (rule granule_split [of l]) auto

lemma granule_cases:
  fixes x l r :: nat
  assumes "l div 8 < r div 8"
  obtains "x div 8 = l div 8" "0 < l mod 8" "\<not> l \<le> x div 8 * 8" "x < r"
  | "l \<le> x div 8 * 8" "x div 8 < r div 8" "l \<le> x" "x < r"
  | "x div 8 = r div 8" "l \<le> x"
  | "x div 8 < l div 8" "x < l div 8 * 8" "\<not> l \<le> x div 8 * 8" "x < r"
  | "r div 8 < x div 8" "r < x" "l \<le> x"
proof -
  obtain dx mx where x: "x = 8 * dx + mx" "mx < 8" "x div 8 = dx" "x mod 8 = mx" by (rule granule_split)
  obtain dl ml where l: "l = 8 * dl + ml" "ml < 8" "l div 8 = dl" "l mod 8 = ml" by (rule granule_split)
  obtain dr mr where r: "r = 8 * dr + mr" "mr < 8" "r div 8 = dr" "r mod 8 = mr" by (rule granule_split)
  have lt: "dl < dr" using assms l r by simp
  consider "dx < dl" | "dx = dl" "0 < ml" | "dx = dl" "ml = 0" | "dl < dx" "dx < dr" | "dx = dr" | "dr < dx"
    using lt by linarith
  then show ?thesis
    unfolding x(3) l(3,4) r(3) using that [unfolded x(3) l(3,4) r(3)] x(1,2) l(1,2) r(1,2) lt
    by cases auto
qed


lemma poison_run_same:
  assumes en: "allow_user_poisoning c" "sz \<noteq> 0" and m: "AddrIsInMem c addr" "AddrIsInMem c (addr + sz)"
    and nw: "unat addr + unat sz < 2 ^ 64" and g: "unat addr div 8 = unat (addr + sz) div 8"
  shows "asan_poison_memory_region c addr sz s = Inr
    (let v = shadow s (MEM_TO_SHADOW addr) in
     if sint v > 0 \<and> sint v \<le> int (unat (addr + sz) mod 8) then
       store_shadow (MEM_TO_SHADOW addr)
         (if 0 < unat addr mod 8 then Min_s8 v (ucast (addr AND 7)) else kAsanUserPoisonedMemoryMagic) s
     else s)"
proof -
  have e: "unat (addr + sz) = unat addr + unat sz" using nw by (intro unat_add_nowrap) simp
  have "0 < unat sz" using en by (simp add: unat_gt_0)
  then have "unat addr mod 8 < unat (addr + sz) mod 8"
    using g e by (metis add.commute div_mult_mod_eq less_add_same_cancel2 nat_add_left_cancel_less)
  moreover have "MEM_TO_SHADOW addr = MEM_TO_SHADOW (addr + sz)" using g by (simp add: MEM_TO_SHADOW_eq)
  ultimately show ?thesis
    using en m by (simp add: asan_poison_memory_region_def endpoint_run sint_offset Let_def)
qed

lemma poison_run_across:
  assumes en: "allow_user_poisoning c" "sz \<noteq> 0" and m: "AddrIsInMem c addr" "AddrIsInMem c (addr + sz)"
    and nw: "unat addr + unat sz < 2 ^ 64" and g: "unat addr div 8 < unat (addr + sz) div 8"
  shows "\<exists>s'. asan_poison_memory_region c addr sz s = Inr s' \<and> can_poison_memory s' = can_poison_memory s \<and>
    (\<forall>x. shadow s' (MEM_TO_SHADOW x) =
      (let v = shadow s (MEM_TO_SHADOW x) in
       if unat x div 8 = unat addr div 8 \<and> 0 < unat addr mod 8 then
         if v = 0 then ucast (addr AND 7) else Min_s8 v (ucast (addr AND 7))
       else if unat addr \<le> unat x div 8 * 8 \<and> unat x div 8 < unat (addr + sz) div 8 then kAsanUserPoisonedMemoryMagic
       else if unat x div 8 = unat (addr + sz) div 8 \<and> sint v > 0 \<and> sint v \<le> int (unat (addr + sz) mod 8)
         then kAsanUserPoisonedMemoryMagic
       else v))"
proof -
  define r where "r = addr + sz"
  define c1 where "c1 = (if 0 < unat addr mod 8 then MEM_TO_SHADOW addr + 1 else MEM_TO_SHADOW addr)"
  define s1 where "s1 = (if 0 < unat addr mod 8 then
      store_shadow (MEM_TO_SHADOW addr) (if shadow s (MEM_TO_SHADOW addr) = 0 then ucast (addr AND 7)
        else Min_s8 (shadow s (MEM_TO_SHADOW addr)) (ucast (addr AND 7))) s else s)"
  define s2 where "s2 = fill_shadow c1 kAsanUserPoisonedMemoryMagic (MEM_TO_SHADOW r - c1) s1"
  define s3 where "s3 = (if sint (shadow s (MEM_TO_SHADOW r)) > 0 \<and> sint (shadow s (MEM_TO_SHADOW r)) \<le> int (unat r mod 8)
      then store_shadow (MEM_TO_SHADOW r) kAsanUserPoisonedMemoryMagic s2 else s2)"
  have gr: "unat addr div 8 < unat r div 8" using g by (simp add: r_def)
  have ne: "MEM_TO_SHADOW addr \<noteq> MEM_TO_SHADOW r" "MEM_TO_SHADOW addr < MEM_TO_SHADOW r"
    using gr by (simp_all add: MEM_TO_SHADOW_eq word_less_nat_alt unat_MEM_TO_SHADOW)
  have run: "asan_poison_memory_region c addr sz s = Inr s3"
    using en m ne unfolding r_def
    by (simp add: asan_poison_memory_region_def endpoint_run sint_offset Let_def s3_def s2_def s1_def c1_def r_def)
  have s2: "shadow s2 (MEM_TO_SHADOW x) =
    (if unat addr \<le> unat x div 8 * 8 \<and> unat x div 8 < unat r div 8 then kAsanUserPoisonedMemoryMagic
     else shadow s1 (MEM_TO_SHADOW x))" for x
    using fill_granules [OF gr] by (simp add: s2_def c1_def)
  have al: "unat addr \<le> unat addr div 8 * 8 \<longleftrightarrow> unat addr mod 8 = 0"
    by (rule granule_start)
  have s1: "shadow s1 (MEM_TO_SHADOW x) = (let v = shadow s (MEM_TO_SHADOW x) in
      if unat x div 8 = unat addr div 8 \<and> 0 < unat addr mod 8 then
         if v = 0 then ucast (addr AND 7) else Min_s8 v (ucast (addr AND 7)) else v)" for x
  proof (cases "unat x div 8 = unat addr div 8")
    case True
    then have "MEM_TO_SHADOW x = MEM_TO_SHADOW addr" by (simp add: MEM_TO_SHADOW_eq)
    with True show ?thesis by (simp add: s1_def Let_def)
  qed (simp add: s1_def MEM_TO_SHADOW_eq Let_def)
  have s3: "shadow s3 (MEM_TO_SHADOW x) = (let v = shadow s (MEM_TO_SHADOW x) in
      if unat x div 8 = unat r div 8 \<and> sint v > 0 \<and> sint v \<le> int (unat r mod 8) then kAsanUserPoisonedMemoryMagic
      else shadow s2 (MEM_TO_SHADOW x))" for x
  proof (cases "unat x div 8 = unat r div 8")
    case True
    then have "MEM_TO_SHADOW x = MEM_TO_SHADOW r" by (simp add: MEM_TO_SHADOW_eq)
    with True show ?thesis by (simp add: s3_def Let_def)
  qed (simp add: s3_def MEM_TO_SHADOW_eq Let_def)
  have vals: "shadow s3 (MEM_TO_SHADOW x) =
      (let v = shadow s (MEM_TO_SHADOW x) in
       if unat x div 8 = unat addr div 8 \<and> 0 < unat addr mod 8 then
         if v = 0 then ucast (addr AND 7) else Min_s8 v (ucast (addr AND 7))
       else if unat addr \<le> unat x div 8 * 8 \<and> unat x div 8 < unat r div 8 then kAsanUserPoisonedMemoryMagic
       else if unat x div 8 = unat r div 8 \<and> sint v > 0 \<and> sint v \<le> int (unat r mod 8)
         then kAsanUserPoisonedMemoryMagic
       else v)" for x
  proof -
    consider "unat x div 8 = unat addr div 8 \<and> 0 < unat addr mod 8"
      | "\<not> (unat x div 8 = unat addr div 8 \<and> 0 < unat addr mod 8)" by blast
    then show ?thesis
    proof cases
      case 1
      then have "\<not> unat addr \<le> unat x div 8 * 8" "unat x div 8 \<noteq> unat r div 8" using al gr by auto
      with 1 show ?thesis by (simp add: s3 s2 s1)
    next
      case 2
      then have "shadow s1 (MEM_TO_SHADOW x) = shadow s (MEM_TO_SHADOW x)"
        using s1 [of x] by (simp only: Let_def if_False simp_thms)
      with 2 s3 [of x] s2 [of x] show ?thesis
        using gr by (simp only: Let_def if_False simp_thms) auto
    qed
  qed
  show ?thesis using run vals unfolding r_def [symmetric]
    by (auto simp: s3_def s2_def s1_def)
qed

lemma poisoned_Min:
  assumes "0 < unat l mod 8"
  shows "poisoned_at (if v = 0 then ucast (l AND 7 :: uptr) else Min_s8 v (ucast (l AND 7))) k
    \<longleftrightarrow> poisoned_at v k \<or> unat l mod 8 \<le> k"
proof (cases "v = 0")
  case False
  then have "Min_s8 v (ucast (l AND 7)) = (if sint v < int (unat l mod 8) then v else ucast (l AND 7))"
    by (simp add: Min_s8_def sint_offset)
  with False assms show ?thesis
    by (simp add: poisoned_at_offset) (auto simp: poisoned_at_def)
qed (use assms in \<open>simp add: poisoned_at_offset\<close>)

lemma same_granule_le:
  fixes x l :: nat
  assumes "x div 8 = l div 8"
  shows "l mod 8 \<le> x mod 8 \<longleftrightarrow> l \<le> x" and "x mod 8 < l mod 8 \<longleftrightarrow> x < l"
  using assms by (metis div_mult_mod_eq nat_add_left_cancel_le, metis div_mult_mod_eq nat_add_left_cancel_less)

text \<open>
  \<^verbatim>\<open>__asan_poison_memory_region\<close> on \<open>[left, right)\<close> never fails for a range of application
  memory, and poisons conservatively: every byte of \<open>[left, AlignDown(right))\<close> is poisoned
  afterwards, no byte outside of \<open>[left, right)\<close> becomes poisoned, and nothing is unpoisoned.
\<close>

lemma poison_region_ok:
  assumes "allow_user_poisoning c" and "sz \<noteq> 0" and "AddrIsInMem c addr" and "AddrIsInMem c (addr + sz)"
    and nw: "unat addr + unat sz < 2 ^ 64"
  shows "\<exists>s'. asan_poison_memory_region c addr sz s = Inr s'
    \<and> (\<forall>x. unat addr \<le> unat x \<and> unat x < (unat addr + unat sz) div 8 * 8 \<longrightarrow> AddressIsPoisoned (shadow s') x)
    \<and> (\<forall>x. AddressIsPoisoned (shadow s') x \<and> \<not> AddressIsPoisoned (shadow s) x \<longrightarrow>
        unat addr \<le> unat x \<and> unat x < unat addr + unat sz)
    \<and> (\<forall>x. AddressIsPoisoned (shadow s) x \<longrightarrow> AddressIsPoisoned (shadow s') x)"
proof -
  define r where "r = addr + sz"
  have ur: "unat r = unat addr + unat sz" unfolding r_def using nw by (intro unat_add_nowrap) simp
  have "unat addr div 8 \<le> unat r div 8" unfolding ur by (intro div_le_mono) simp
  then consider "unat addr div 8 = unat r div 8" | "unat addr div 8 < unat r div 8" by linarith
  then show ?thesis
  proof cases
    case 1
    define v where "v = shadow s (MEM_TO_SHADOW addr)"
    define s' where "s' = (if sint v > 0 \<and> sint v \<le> int (unat r mod 8) then
       store_shadow (MEM_TO_SHADOW addr)
         (if 0 < unat addr mod 8 then Min_s8 v (ucast (addr AND 7)) else kAsanUserPoisonedMemoryMagic) s else s)"
    have run: "asan_poison_memory_region c addr sz s = Inr s'"
      using poison_run_same [OF assms(1-4) nw, of s] 1 by (simp add: Let_def s'_def v_def flip: r_def)
    have p: "AddressIsPoisoned (shadow s') x \<longleftrightarrow> AddressIsPoisoned (shadow s) x \<or>
      (unat x div 8 = unat addr div 8 \<and> unat addr mod 8 \<le> unat x mod 8 \<and> sint v > 0 \<and> sint v \<le> int (unat r mod 8))" for x
    proof (cases "unat x div 8 = unat addr div 8")
      case True
      then have e: "MEM_TO_SHADOW x = MEM_TO_SHADOW addr" by (simp add: MEM_TO_SHADOW_eq)
      show ?thesis
      proof (cases "sint v > 0 \<and> sint v \<le> int (unat r mod 8)")
        case vok: True
        then have "v \<noteq> 0" by auto
        with vok True e show ?thesis
          using poisoned_Min [of addr v "unat x mod 8"]
          by (simp add: AddressIsPoisoned_iff s'_def v_def [symmetric])
      qed (use True e in \<open>auto simp: AddressIsPoisoned_iff s'_def\<close>)
    qed (auto simp: AddressIsPoisoned_iff s'_def MEM_TO_SHADOW_eq)
    have "unat addr \<le> unat x \<and> unat x < unat r"
      if "AddressIsPoisoned (shadow s') x" "\<not> AddressIsPoisoned (shadow s) x" for x
    proof -
      from that p have x: "unat x div 8 = unat addr div 8" "unat addr mod 8 \<le> unat x mod 8"
        "sint v > 0" "sint v \<le> int (unat r mod 8)" by auto
      from x(1) have "MEM_TO_SHADOW x = MEM_TO_SHADOW addr" by (simp add: MEM_TO_SHADOW_eq)
      then have "shadow s (MEM_TO_SHADOW x) = v" by (simp add: v_def)
      with that(2) x(3) have "int (unat x mod 8) < sint v"
        by (auto simp: AddressIsPoisoned_iff poisoned_at_def)
      with x(4) have "unat x mod 8 < unat r mod 8" by linarith
      then show ?thesis using x(1,2) 1 same_granule_le [of "unat x" "unat addr"] same_granule_le [of "unat x" "unat r"] by simp
    qed
    moreover have False if "unat addr \<le> unat x" "unat x < unat r div 8 * 8" for x :: uptr
      using that 1 by (metis div_le_mono div_less_iff_less_mult not_less zero_less_numeral)
    ultimately show ?thesis using run p ur by (intro exI [of _ s']) (simp, blast)
  next
    case 2
    from poison_run_across [OF assms(1-4) nw, folded r_def, OF 2, of s] obtain s' where run: "asan_poison_memory_region c addr sz s = Inr s'"
      and vals: "\<And>x. shadow s' (MEM_TO_SHADOW x) = (let v = shadow s (MEM_TO_SHADOW x) in
       if unat x div 8 = unat addr div 8 \<and> 0 < unat addr mod 8 then
         if v = 0 then ucast (addr AND 7) else Min_s8 v (ucast (addr AND 7))
       else if unat addr \<le> unat x div 8 * 8 \<and> unat x div 8 < unat r div 8 then kAsanUserPoisonedMemoryMagic
       else if unat x div 8 = unat r div 8 \<and> sint v > 0 \<and> sint v \<le> int (unat r mod 8)
         then kAsanUserPoisonedMemoryMagic
       else v)"
      by blast
    have p: "(AddressIsPoisoned (shadow s) x \<longrightarrow> AddressIsPoisoned (shadow s') x)
      \<and> (unat addr \<le> unat x \<and> unat x < unat r div 8 * 8 \<longrightarrow> AddressIsPoisoned (shadow s') x)
      \<and> (AddressIsPoisoned (shadow s') x \<and> \<not> AddressIsPoisoned (shadow s) x \<longrightarrow> unat addr \<le> unat x \<and> unat x < unat r)" for x
      using 2
    proof (cases rule: granule_cases [of "unat addr" "unat r" "unat x"])
      case 1
      then show ?thesis
        using poisoned_Min [of addr] same_granule_le [of "unat x" "unat addr"]
        by (simp add: AddressIsPoisoned_iff vals Let_def) blast
    next
      case 2
      then have "\<not> (unat x div 8 = unat addr div 8 \<and> 0 < unat addr mod 8)"
        using granule_start [of "unat addr"] by auto
      with 2 show ?thesis by (auto simp: AddressIsPoisoned_iff vals Let_def)
    next
      case 3
      then have "\<not> unat x < unat r div 8 * 8" by (simp add: div_less_iff_less_mult [symmetric])
      with 3 show ?thesis
        using \<open>unat addr div 8 < unat r div 8\<close> same_granule_le [of "unat x" "unat r"]
        by (auto simp: AddressIsPoisoned_iff vals Let_def poisoned_at_def magic_defs)
    next
      case 4
      then show ?thesis
        using \<open>unat addr div 8 < unat r div 8\<close> by (auto simp: AddressIsPoisoned_iff vals Let_def)
    next
      case 5
      then show ?thesis
        using \<open>unat addr div 8 < unat r div 8\<close> by (auto simp: AddressIsPoisoned_iff vals Let_def)
    qed
    show ?thesis using run p unfolding ur by (intro exI [of _ s']) auto
  qed
qed

section \<open>User unpoisoning\<close>

lemma poisoned_Max:
  assumes "unat r mod 8 \<noteq> 0"
  shows "poisoned_at (if v \<noteq> 0 then Max_s8 v (ucast (r AND 7 :: uptr)) else v) k
    \<longleftrightarrow> poisoned_at v k \<and> unat r mod 8 \<le> k"
proof (cases "v = 0")
  case False
  then have "Max_s8 v (ucast (r AND 7)) = (if sint v > int (unat r mod 8) then v else ucast (r AND 7))"
    by (simp add: Max_s8_def sint_offset)
  with False assms show ?thesis
    by (simp add: poisoned_at_offset) (auto simp: poisoned_at_def)
qed simp

lemma unpoison_run_same:
  assumes en: "allow_user_poisoning c" "sz \<noteq> 0" and m: "AddrIsInMem c addr" "AddrIsInMem c (addr + sz)"
    and nw: "unat addr + unat sz < 2 ^ 64" and g: "unat addr div 8 = unat (addr + sz) div 8"
  shows "unat (addr + sz) mod 8 \<noteq> 0" and "asan_unpoison_memory_region c addr sz s = Inr
    (let v = shadow s (MEM_TO_SHADOW addr) in
     if v \<noteq> 0 then store_shadow (MEM_TO_SHADOW addr) (Max_s8 v (ucast ((addr + sz) AND 7))) s else s)"
proof -
  have e: "unat (addr + sz) = unat addr + unat sz" using nw by (intro unat_add_nowrap) simp
  have "0 < unat sz" using en by (simp add: unat_gt_0)
  then have l: "unat addr mod 8 < unat (addr + sz) mod 8"
    using g e by (metis add.commute div_mult_mod_eq less_add_same_cancel2 nat_add_left_cancel_less)
  then show "unat (addr + sz) mod 8 \<noteq> 0" by simp
  have "MEM_TO_SHADOW addr = MEM_TO_SHADOW (addr + sz)" using g by (simp add: MEM_TO_SHADOW_eq)
  with l show "asan_unpoison_memory_region c addr sz s = Inr
    (let v = shadow s (MEM_TO_SHADOW addr) in
     if v \<noteq> 0 then store_shadow (MEM_TO_SHADOW addr) (Max_s8 v (ucast ((addr + sz) AND 7))) s else s)"
    using en m by (simp add: asan_unpoison_memory_region_def endpoint_run sint_offset Let_def granularity)
qed

lemma unpoison_run_across:
  assumes en: "allow_user_poisoning c" "sz \<noteq> 0" and m: "AddrIsInMem c addr" "AddrIsInMem c (addr + sz)"
    and g: "unat addr div 8 < unat (addr + sz) div 8"
  shows "\<exists>s'. asan_unpoison_memory_region c addr sz s = Inr s' \<and>
    (\<forall>x. shadow s' (MEM_TO_SHADOW x) =
      (let v = shadow s (MEM_TO_SHADOW x) in
       if unat addr div 8 \<le> unat x div 8 \<and> unat x div 8 < unat (addr + sz) div 8 then 0
       else if unat x div 8 = unat (addr + sz) div 8 \<and> unat (addr + sz) mod 8 \<noteq> 0 then
         (if v \<noteq> 0 then Max_s8 v (ucast ((addr + sz) AND 7)) else v)
       else v))"
proof -
  define r where "r = addr + sz"
  define c1 where "c1 = (if 0 < unat addr mod 8 then MEM_TO_SHADOW addr + 1 else MEM_TO_SHADOW addr)"
  define s1 where "s1 = (if 0 < unat addr mod 8 then store_shadow (MEM_TO_SHADOW addr) 0 s else s)"
  define s2 where "s2 = fill_shadow c1 0 (MEM_TO_SHADOW r - c1) s1"
  define s3 where "s3 = (if 0 < unat r mod 8 \<and> shadow s (MEM_TO_SHADOW r) \<noteq> 0
      then store_shadow (MEM_TO_SHADOW r) (Max_s8 (shadow s (MEM_TO_SHADOW r)) (ucast (r AND 7))) s2 else s2)"
  have gr: "unat addr div 8 < unat r div 8" using g by (simp add: r_def)
  have ne: "MEM_TO_SHADOW addr \<noteq> MEM_TO_SHADOW r" "MEM_TO_SHADOW addr < MEM_TO_SHADOW r"
    using gr by (simp_all add: MEM_TO_SHADOW_eq word_less_nat_alt unat_MEM_TO_SHADOW)
  have run: "asan_unpoison_memory_region c addr sz s = Inr s3"
    using en m ne unfolding r_def
    by (simp add: asan_unpoison_memory_region_def endpoint_run sint_offset Let_def s3_def s2_def s1_def c1_def r_def granularity)
  have s2: "shadow s2 (MEM_TO_SHADOW x) =
    (if unat addr div 8 \<le> unat x div 8 \<and> unat x div 8 < unat r div 8 then 0 else shadow s (MEM_TO_SHADOW x))" for x
  proof -
    have f: "shadow s2 (MEM_TO_SHADOW x) =
      (if unat addr \<le> unat x div 8 * 8 \<and> unat x div 8 < unat r div 8 then 0 else shadow s1 (MEM_TO_SHADOW x))"
      using fill_granules [OF gr] by (simp add: s2_def c1_def)
    show ?thesis
      using gr by (rule_tac granule_split [of "unat addr"]) (auto simp: f s1_def MEM_TO_SHADOW_eq)
  qed
  have vals: "shadow s3 (MEM_TO_SHADOW x) =
      (let v = shadow s (MEM_TO_SHADOW x) in
       if unat addr div 8 \<le> unat x div 8 \<and> unat x div 8 < unat r div 8 then 0
       else if unat x div 8 = unat r div 8 \<and> unat r mod 8 \<noteq> 0 then
         (if v \<noteq> 0 then Max_s8 v (ucast (r AND 7)) else v)
       else v)" for x
  proof (cases "unat x div 8 = unat r div 8")
    case True
    then have "MEM_TO_SHADOW x = MEM_TO_SHADOW r" by (simp add: MEM_TO_SHADOW_eq)
    with True show ?thesis using s2 [of x] by (simp add: s3_def Let_def)
  qed (simp add: s3_def MEM_TO_SHADOW_eq Let_def s2)
  show ?thesis using run vals unfolding r_def [symmetric] by auto
qed

text \<open>
  \<^verbatim>\<open>__asan_unpoison_memory_region\<close> on \<open>[left, right)\<close> never fails for a range of
  application memory, makes every byte of \<open>[left, right)\<close> addressable, and unpoisons at most
  \<open>[AlignDown(left), right)\<close>: every other byte keeps its state.
\<close>

lemma unpoison_region_ok:
  assumes "allow_user_poisoning c" and "sz \<noteq> 0" and "AddrIsInMem c addr" and "AddrIsInMem c (addr + sz)"
    and nw: "unat addr + unat sz < 2 ^ 64"
  shows "\<exists>s'. asan_unpoison_memory_region c addr sz s = Inr s'
    \<and> (\<forall>x. AddressIsPoisoned (shadow s') x \<longleftrightarrow> AddressIsPoisoned (shadow s) x
        \<and> \<not> (unat addr div 8 * 8 \<le> unat x \<and> unat x < unat addr + unat sz))"
proof -
  define r where "r = addr + sz"
  have ur: "unat r = unat addr + unat sz" unfolding r_def using nw by (intro unat_add_nowrap) simp
  have "unat addr div 8 \<le> unat r div 8" unfolding ur by (intro div_le_mono) simp
  then consider "unat addr div 8 = unat r div 8" | "unat addr div 8 < unat r div 8" by linarith
  then show ?thesis
  proof cases
    case 1
    define v where "v = shadow s (MEM_TO_SHADOW addr)"
    define s' where "s' = (if v \<noteq> 0 then store_shadow (MEM_TO_SHADOW addr) (Max_s8 v (ucast (r AND 7))) s else s)"
    note run = unpoison_run_same [OF assms(1-4) nw, folded r_def, OF 1]
    have run': "asan_unpoison_memory_region c addr sz s = Inr s'"
      using run(2) [of s] by (simp add: Let_def s'_def v_def)
    have "AddressIsPoisoned (shadow s') x \<longleftrightarrow> AddressIsPoisoned (shadow s) x
        \<and> \<not> (unat addr div 8 * 8 \<le> unat x \<and> unat x < unat r)" for x
    proof (cases "unat x div 8 = unat addr div 8")
      case True
      then have e: "MEM_TO_SHADOW x = MEM_TO_SHADOW addr" by (simp add: MEM_TO_SHADOW_eq)
      have "shadow s' (MEM_TO_SHADOW x) = (if v \<noteq> 0 then Max_s8 v (ucast (r AND 7)) else v)"
        by (simp add: s'_def e v_def)
      moreover have "unat r mod 8 \<le> unat x mod 8 \<longleftrightarrow> unat r \<le> unat x"
        using True 1 by (intro same_granule_le) simp
      moreover have "unat addr div 8 * 8 \<le> unat x" using True by (simp add: less_eq_div_iff_mult_less_eq [symmetric])
      ultimately show ?thesis
        using poisoned_Max [OF run(1), of v "unat x mod 8"] by (simp add: AddressIsPoisoned_iff e v_def not_less)
    next
      case False
      then have "\<not> (unat addr div 8 * 8 \<le> unat x \<and> unat x < unat r)"
        using 1 by (rule_tac granule_split [of "unat x"], rule_tac granule_split [of "unat r"]) auto
      with False show ?thesis by (auto simp: AddressIsPoisoned_iff s'_def MEM_TO_SHADOW_eq)
    qed
    with run' show ?thesis unfolding ur by blast
  next
    case 2
    from unpoison_run_across [OF assms(1-4), folded r_def, OF 2, of s] obtain s' where run: "asan_unpoison_memory_region c addr sz s = Inr s'"
      and vals: "\<And>x. shadow s' (MEM_TO_SHADOW x) = (let v = shadow s (MEM_TO_SHADOW x) in
       if unat addr div 8 \<le> unat x div 8 \<and> unat x div 8 < unat r div 8 then 0
       else if unat x div 8 = unat r div 8 \<and> unat r mod 8 \<noteq> 0 then
         (if v \<noteq> 0 then Max_s8 v (ucast (r AND 7)) else v)
       else v)" by blast
    have "AddressIsPoisoned (shadow s') x \<longleftrightarrow> AddressIsPoisoned (shadow s) x
        \<and> \<not> (unat addr div 8 * 8 \<le> unat x \<and> unat x < unat r)" for x
    proof -
      obtain dx mx where x: "unat x = 8 * dx + mx" "mx < 8" "unat x div 8 = dx" "unat x mod 8 = mx" by (rule granule_split)
      obtain dr mr where r: "unat r = 8 * dr + mr" "mr < 8" "unat r div 8 = dr" "unat r mod 8 = mr" by (rule granule_split)
      consider "dx < unat addr div 8" | "unat addr div 8 \<le> dx" "dx < dr" | "dx = dr" "mr = 0" | "dx = dr" "mr \<noteq> 0" | "dr < dx"
        by linarith
      then show ?thesis
      proof cases
        case 4
        then have "poisoned_at (shadow s' (MEM_TO_SHADOW x)) mx \<longleftrightarrow> poisoned_at (shadow s (MEM_TO_SHADOW x)) mx \<and> mr \<le> mx"
          using poisoned_Max [of r "shadow s (MEM_TO_SHADOW x)" mx] vals [of x] x r by (simp add: Let_def)
        then show ?thesis using 4 2 x r by (auto simp: AddressIsPoisoned_iff)
      qed (use 2 vals [of x] x r in \<open>auto simp: AddressIsPoisoned_iff Let_def\<close>)
    qed
    with run show ?thesis unfolding ur by blast
  qed
qed

text \<open>
  C18. Poisoning and unpoisoning a range \<open>[left, right)\<close> of application memory never fail. \<^verbatim>\<open>__asan_poison_memory_region\<close>
  is conservative: it poisons every byte of \<open>[left, AlignDown(right))\<close>, none outside of \<open>[left, right)\<close>, and unpoisons nothing.
  \<^verbatim>\<open>__asan_unpoison_memory_region\<close> makes exactly the bytes of \<open>[AlignDown(left), right)\<close> addressable; every other byte
  keeps its state.
\<close>

theorem user_poison_regions:
  assumes "allow_user_poisoning c" and "sz \<noteq> 0" and "AddrIsInMem c addr" and "AddrIsInMem c (addr + sz)"
    and "unat addr + unat sz < 2 ^ 64"
  shows "(\<exists>s'. asan_poison_memory_region c addr sz s = Inr s'
      \<and> (\<forall>x. unat addr \<le> unat x \<and> unat x < (unat addr + unat sz) div 8 * 8 \<longrightarrow> AddressIsPoisoned (shadow s') x)
      \<and> (\<forall>x. AddressIsPoisoned (shadow s') x \<and> \<not> AddressIsPoisoned (shadow s) x \<longrightarrow> unat addr \<le> unat x \<and> unat x < unat addr + unat sz)
      \<and> (\<forall>x. AddressIsPoisoned (shadow s) x \<longrightarrow> AddressIsPoisoned (shadow s') x))
    \<and> (\<exists>s'. asan_unpoison_memory_region c addr sz s = Inr s'
      \<and> (\<forall>x. AddressIsPoisoned (shadow s') x \<longleftrightarrow> AddressIsPoisoned (shadow s) x
          \<and> \<not> (unat addr div 8 * 8 \<le> unat x \<and> unat x < unat addr + unat sz)))"
  using poison_region_ok [OF assms] unpoison_region_ok [OF assms] by (rule conjI)

theorem user_poison_regions_witness:
  "\<exists>s'. asan_unpoison_memory_region example_cfg 0x10003 20 \<lparr>shadow = (\<lambda>a. 0xf7), can_poison_memory = True\<rparr> = Inr s'
    \<and> \<not> AddressIsPoisoned (shadow s') 0x10001 \<and> \<not> AddressIsPoisoned (shadow s') 0x10016
    \<and> AddressIsPoisoned (shadow s') 0x10017"
proof -
  have l: "linux_layout example_cfg" "protect_shadow_gap example_cfg"
    by (simp_all add: linux_layout_def example_cfg_def)
  have "allow_user_poisoning example_cfg" by (simp add: example_cfg_def)
  from user_poison_regions [OF this, of 20 "0x10003" "\<lparr>shadow = (\<lambda>a. 0xf7), can_poison_memory = True\<rparr>"]
  obtain s' where s': "asan_unpoison_memory_region example_cfg 0x10003 20 \<lparr>shadow = (\<lambda>a. 0xf7), can_poison_memory = True\<rparr> = Inr s'"
    and p: "\<And>x. AddressIsPoisoned (shadow s') x \<longleftrightarrow> AddressIsPoisoned (\<lambda>a. 0xf7) x \<and> \<not> (65536 \<le> unat x \<and> unat x < 65559)"
    by (auto simp: in_mem [OF l])
  have "AddressIsPoisoned (\<lambda>a. 0xf7) x" for x by (simp add: AddressIsPoisoned_iff poisoned_at_def)
  with s' p show ?thesis by auto
qed

end
