(* ===== verification/Annotate.thy ===== *)
theory Annotate
  imports UserPoison
begin

text \<open>
  The checks of the instrumentation callbacks, poisoning of aligned ranges, container annotations,
  stack scopes and intra-object redzones, each as its effect on the poisoned bytes.
\<close>

section \<open>The access callbacks\<close>

lemma load_le_1: "load_le m a 1 = ucast (m a)"
  by simp

lemma ucast_ucast_u8: "ucast (ucast (v :: u8) :: uptr) = v"
  by (rule bit_word_eqI) (auto simp: bit_simps)

lemma ucast_u8_0: "(ucast (v :: u8) :: uptr) = 0 \<longleftrightarrow> v = 0"
  using ucast_ucast_u8 [of v] by auto

lemma wf_sint_cases:
  assumes "shadow_wf sh" and "sh a \<noteq> 0"
  shows "poisoned_at (sh a) 7"
proof -
  have "sint (sh a) < 8" using assms(1) by (simp add: shadow_wf_def)
  with assms(2) show ?thesis by (simp add: poisoned_at_def)
qed

lemma small_access_sum:
  assumes "unat sz + unat (addr AND 7 :: uptr) \<le> 8" and "0 < unat sz"
  shows "sint (ucast ((addr AND 7) + sz - 1) :: u8) = int (unat addr mod 8 + unat sz - 1)"
proof -
  have "unat ((addr AND 7) + sz) = unat addr mod 8 + unat sz"
    using assms by (subst unat_add_nowrap) (simp_all add: unat_and_7)
  then have u: "unat ((addr AND 7) + sz - 1) = unat addr mod 8 + unat sz - 1"
    using assms by (subst unat_pred) simp_all
  have b: "unat addr mod 8 + unat sz - 1 < 8" using assms by (simp add: unat_and_7)
  then have "unat (ucast ((addr AND 7) + sz - 1) :: u8) = unat addr mod 8 + unat sz - 1"
    by (simp add: unsigned_ucast_eq take_bit_eq_mod u)
  then show ?thesis using b by (subst sint_small) simp_all
qed

lemma in_granule_iff:
  fixes a s x :: nat
  assumes "a mod 8 + s \<le> 8"
  shows "a \<le> x \<and> x < a + s \<longleftrightarrow> x div 8 = a div 8 \<and> a mod 8 \<le> x mod 8 \<and> x mod 8 < a mod 8 + s"
proof -
  obtain da ma where a: "a = 8 * da + ma" "ma < 8" "a div 8 = da" "a mod 8 = ma" by (rule granule_split)
  obtain dx mx where x: "x = 8 * dx + mx" "mx < 8" "x div 8 = dx" "x mod 8 = mx" by (rule granule_split)
  have "dx = da" if "a \<le> x" "x < a + s"
    using that assms a x by (cases dx da rule: linorder_cases) auto
  then show ?thesis
    using assms unfolding a(3,4) x(3,4) using a(1,2) x(1,2) by (cases "dx = da") auto
qed

text \<open>An access inside a granule ends at the offset \<open>k\<close>; the byte \<open>k\<close> is poisoned when any of its bytes is.\<close>

lemma access_last_byte:
  assumes sz: "0 < unat (sz :: uptr)" and fits: "unat addr mod 8 + unat sz \<le> 8"
  defines "k \<equiv> unat addr mod 8 + unat sz - 1"
  shows "\<exists>y. unat addr \<le> unat y \<and> unat y < unat addr + unat sz \<and> MEM_TO_SHADOW y = MEM_TO_SHADOW addr \<and> unat y mod 8 = k"
proof -
  define y where "y = addr + (sz - 1)"
  obtain da ma where a: "unat addr = 8 * da + ma" "ma < 8" "unat addr div 8 = da" "unat addr mod 8 = ma" by (rule granule_split)
  have "8 * da < 2 ^ 64" using unat_lt_64 [of addr] a by simp
  then have "unat addr + unat sz \<le> 2 ^ 64" using a fits by simp
  then have uy: "unat y = unat addr + (unat sz - 1)"
    unfolding y_def using sz by (subst unat_add_nowrap) (simp_all add: unat_pred)
  then have y: "unat addr \<le> unat y" "unat y < unat addr + unat sz" using sz by simp_all
  then have g: "unat y div 8 = unat addr div 8" using in_granule_iff [OF fits] by blast
  obtain dy my where d: "unat y = 8 * dy + my" "unat y div 8 = dy" "unat y mod 8 = my" by (rule granule_split)
  have "unat y mod 8 = k" using uy g sz unfolding k_def a(3,4) d(2,3) using a(1) d(1) by simp
  moreover have "MEM_TO_SHADOW y = MEM_TO_SHADOW addr" using g by (simp add: MEM_TO_SHADOW_eq)
  ultimately show ?thesis using y by blast
qed

lemma access_poisoned_iff:
  assumes sz: "0 < unat (sz :: uptr)" and fits: "unat addr mod 8 + unat sz \<le> 8"
  shows "poisoned_at (sh (MEM_TO_SHADOW addr)) (unat addr mod 8 + unat sz - 1) \<longleftrightarrow>
    (\<exists>x. unat addr \<le> unat x \<and> unat x < unat addr + unat sz \<and> AddressIsPoisoned sh x)"
proof
  assume "poisoned_at (sh (MEM_TO_SHADOW addr)) (unat addr mod 8 + unat sz - 1)"
  then show "\<exists>x. unat addr \<le> unat x \<and> unat x < unat addr + unat sz \<and> AddressIsPoisoned sh x"
    using access_last_byte [OF sz fits] by (metis AddressIsPoisoned_iff)
next
  assume "\<exists>x. unat addr \<le> unat x \<and> unat x < unat addr + unat sz \<and> AddressIsPoisoned sh x"
  then obtain x where x: "unat addr \<le> unat x \<and> unat x < unat addr + unat sz" "AddressIsPoisoned sh x" by blast
  note gx = in_granule_iff [OF fits, THEN iffD1, OF x(1)]
  have g: "unat x div 8 = unat addr div 8" "unat x mod 8 < unat addr mod 8 + unat sz" using gx by blast+
  from g(2) obtain j where "unat addr mod 8 + unat sz = Suc (unat x mod 8 + j)" by (metis less_imp_Suc_add)
  then have "unat x mod 8 \<le> unat addr mod 8 + unat sz - 1" by simp
  moreover have "MEM_TO_SHADOW x = MEM_TO_SHADOW addr" using g(1) by (simp add: MEM_TO_SHADOW_eq)
  then have "poisoned_at (sh (MEM_TO_SHADOW addr)) (unat x mod 8)" using x(2) by (simp add: AddressIsPoisoned_iff)
  ultimately show "poisoned_at (sh (MEM_TO_SHADOW addr)) (unat addr mod 8 + unat sz - 1)" using poisoned_at_mono by blast
qed

text \<open>
  C20. The check of the callbacks \<^verbatim>\<open>__asan_load1\<close> to \<^verbatim>\<open>__asan_store8\<close> is exact for an access that stays
  within one granule, which is what the compiler emits them for: it asks for a report exactly
  when one of the accessed bytes is poisoned.
\<close>

theorem access_check_exact:
  assumes wf: "shadow_wf sh" and sz: "0 < unat sz" and fits: "unat addr mod 8 + unat sz \<le> 8"
  shows "access_is_bad sh addr sz \<longleftrightarrow>
    (\<exists>x. unat addr \<le> unat x \<and> unat x < unat addr + unat sz \<and> AddressIsPoisoned sh x)"
proof -
  define v where "v = sh (MEM_TO_SHADOW addr)"
  define k where "k = unat addr mod 8 + unat sz - 1"
  have f: "unat sz + unat (addr AND 7) \<le> 8" using fits by (simp add: unat_and_7)
  have "sz \<le> 8" "8 \<le> sz \<longleftrightarrow> unat sz = 8" using fits by (auto simp: word_le_nat_alt)
  then have "access_is_bad sh addr sz \<longleftrightarrow> v \<noteq> 0 \<and> (unat sz = 8 \<or> sint v \<le> int k)"
    unfolding access_is_bad_def granularity load_le_1 using ucast_u8_0 [of v] small_access_sum [OF f sz]
    by (simp add: Let_def ucast_ucast_u8 k_def flip: v_def)
  also have "\<dots> \<longleftrightarrow> poisoned_at v k"
  proof (cases "unat sz = 8")
    case True
    then have "k = 7" using fits by (simp add: k_def)
    then show ?thesis using True wf_sint_cases [OF wf, of "MEM_TO_SHADOW addr"]
      by (auto simp: v_def poisoned_at_def)
  qed (auto simp: poisoned_at_def)
  finally show ?thesis unfolding v_def k_def access_poisoned_iff [OF sz fits] .
qed

theorem access_check_exact_witness:
  "access_is_bad ((\<lambda>a. 0)(MEM_TO_SHADOW 0x10000 := 5)) 0x10004 4"
proof -
  have "shadow_wf ((\<lambda>a. 0)(MEM_TO_SHADOW 0x10000 := 5))" by (simp add: shadow_wf_def)
  then have "access_is_bad ((\<lambda>a. 0)(MEM_TO_SHADOW 0x10000 := 5)) 0x10004 4 \<longleftrightarrow>
    (\<exists>x. unat (0x10004 :: uptr) \<le> unat x \<and> unat x < unat (0x10004 :: uptr) + unat (4 :: uptr)
      \<and> AddressIsPoisoned ((\<lambda>a. 0)(MEM_TO_SHADOW 0x10000 := 5)) x)"
    by (rule access_check_exact) simp_all
  moreover have "AddressIsPoisoned ((\<lambda>a. 0)(MEM_TO_SHADOW 0x10000 := 5)) 0x10006"
    by (simp add: AddressIsPoisoned_iff MEM_TO_SHADOW_eq poisoned_at_def)
  ultimately show ?thesis by (auto intro!: exI [of _ "0x10006"])
qed

section \<open>Aligned ranges\<close>

text \<open>\<^verbatim>\<open>PoisonShadow\<close> sets the state of exactly the bytes of the range.\<close>

lemma PoisonShadow_run:
  assumes c: "cfg_ok c" and p: "can_poison_memory s" and al: "unat addr mod 8 = 0" "unat sz mod 8 = 0"
    and pos: "0 < unat sz" and nw: "unat addr + unat sz \<le> 2 ^ 63"
    and m: "AddrIsInMem c addr" "AddrIsInMem c (addr + sz - 8)"
  shows "PoisonShadow c addr sz v s = Inr (fill_shadow (MEM_TO_SHADOW addr) v (drop_bit 3 sz) s)"
proof -
  have "unat (addr + sz) = unat addr + unat sz" using nw by (intro unat_add_nowrap) simp
  then have "AddrIsAlignedByGranularity addr" "AddrIsAlignedByGranularity (addr + sz)"
    using al by (auto simp: aligned_granularity mod_add_eq [symmetric])
  with p m FastPoisonShadow_memset [OF c al pos nw] show ?thesis
    by (simp add: PoisonShadow_def CanPoisonMemory_def granularity fill_shadow_def)
qed

lemma fill_aligned:
  assumes al: "unat addr mod 8 = 0" "unat sz mod 8 = 0" and nw: "unat addr + unat sz \<le> 2 ^ 63"
  shows "shadow (fill_shadow (MEM_TO_SHADOW addr) v (drop_bit 3 sz) s) (MEM_TO_SHADOW x) =
    (if unat addr \<le> unat x \<and> unat x < unat addr + unat sz then v else shadow s (MEM_TO_SHADOW x))"
proof -
  have usz: "unat (drop_bit 3 sz) = unat sz div 8" by (subst unat_drop_bit_eq) (simp add: drop_bit_eq_div)
  obtain d where d: "unat addr = 8 * d" using al by (auto simp: mod_eq_0_iff_dvd elim!: dvdE)
  obtain q where q: "unat sz = 8 * q" using al by (auto simp: mod_eq_0_iff_dvd elim!: dvdE)
  obtain dx mx where x: "unat x = 8 * dx + mx" "mx < 8" "unat x div 8 = dx" by (rule granule_split)
  have "d + q \<le> 2 ^ 60" using nw d q by simp
  then show ?thesis
    using x d q by (subst store_fill_sel(2), subst memset_iff) (auto simp: usz unat_MEM_TO_SHADOW)
qed

text \<open>For an empty range the last granule is the one before the range, and nothing is written.\<close>

lemma PoisonShadow_empty:
  assumes c: "cfg_ok c" and p: "can_poison_memory s" and al: "unat addr mod 8 = 0"
    and m: "AddrIsInMem c addr" "AddrIsInMem c (addr - 8)" and b: "8 \<le> unat addr" "unat addr \<le> 2 ^ 62"
  shows "PoisonShadow c addr 0 v s = Inr s"
proof -
  have "unat (addr - 8) = unat addr - 8" using b by (subst unat_sub) (simp_all add: word_le_nat_alt)
  moreover obtain d where d: "unat addr = 8 * d" using al by (auto simp: mod_eq_0_iff_dvd elim!: dvdE)
  ultimately have "unat (MEM_TO_SHADOW (addr - 8)) + 1 = unat (MEM_TO_SHADOW addr)"
    using b by (simp add: unat_MEM_TO_SHADOW)
  then have e: "MEM_TO_SHADOW (addr - 8) + 1 = MEM_TO_SHADOW addr"
    using unat_lt_64 [of "MEM_TO_SHADOW addr"]
    by (subst word_unat_eq_iff, subst unat_add_nowrap) simp_all
  from c obtain k where k: "3 \<le> k" "k < 32" "page_size c = 2 ^ k" by (auto simp: cfg_ok_def)
  have p32: "(2::nat) ^ k \<le> 2 ^ 32" using k by (intro power_increasing) auto
  have fits: "unat (MEM_TO_SHADOW addr) + 2 ^ k \<le> 2 ^ 64" using b p32 by (simp add: unat_MEM_TO_SHADOW)
  have "RoundDownTo (MEM_TO_SHADOW addr) (2 ^ k) \<le> round_up (MEM_TO_SHADOW addr) (2 ^ k)"
    using RoundDownTo_le [of "MEM_TO_SHADOW addr" k] round_up_ge [OF _ fits] k
    by (simp add: word_le_nat_alt)
  then have "FastPoisonShadow c addr 0 v sh = Inr sh" for sh
    using k by (simp add: FastPoisonShadow_def granularity e Let_def RoundUpTo_def IsPowerOfTwo_pow2)
  then show ?thesis
    using p m al by (simp add: PoisonShadow_def CanPoisonMemory_def granularity aligned_granularity)
qed

lemma PoisonShadow_any:
  assumes c: "cfg_ok c" and p: "can_poison_memory s" and al: "unat addr mod 8 = 0" "unat sz mod 8 = 0"
    and m: "AddrIsInMem c addr" "AddrIsInMem c (addr + sz - 8)" and b: "8 \<le> unat addr" "unat addr + unat sz \<le> 2 ^ 62"
  shows "PoisonShadow c addr sz v s = Inr (fill_shadow (MEM_TO_SHADOW addr) v (drop_bit 3 sz) s)"
proof (cases "sz = 0")
  case True
  have "PoisonShadow c addr 0 v s = Inr s"
    using PoisonShadow_empty [OF c p al(1) m(1)] m(2) b True by simp
  with True show ?thesis by (simp add: fill_shadow_def)
next
  case False
  then show ?thesis using PoisonShadow_run [OF c p al _ _ m] b by (simp add: unat_gt_0)
qed

section \<open>Contiguous containers\<close>

text \<open>
  \<open>container_state sh beg end mid\<close>: the container storage starting at \<open>beg\<close>, whole granules up to \<open>end\<close>
  rounded up, has its addressable bytes exactly below \<open>mid\<close>.
\<close>

definition container_state :: "smem \<Rightarrow> uptr \<Rightarrow> uptr \<Rightarrow> uptr \<Rightarrow> bool" where
  "container_state sh beg end mid \<longleftrightarrow>
     (\<forall>x. unat beg \<le> unat x \<and> unat x < unat (round_up end 8) \<longrightarrow> (AddressIsPoisoned sh x \<longleftrightarrow> mid \<le> x))"

text \<open>\<open>container_mem c beg end\<close>: the storage and the granules around it are application memory.\<close>

definition container_mem :: "cfg \<Rightarrow> uptr \<Rightarrow> uptr \<Rightarrow> bool" where
  "container_mem c beg end \<longleftrightarrow> 8 \<le> unat beg \<and> unat beg mod 8 = 0 \<and> unat end < 2 ^ 61 \<and> unat end - unat beg \<le> 2 ^ 34 \<and>
     (\<forall>x. unat beg \<le> unat x + 8 \<and> unat x \<le> unat end + 8 \<longrightarrow> AddrIsInMem c x)"

lemma up_down8: "(n + 7) div 8 * 8 = n div 8 * 8 + (if n mod 8 = 0 then 0 else 8)" for n :: nat
proof -
  obtain d m where n: "n = 8 * d + m" "m < 8" "n div 8 = d" "n mod 8 = m" by (rule granule_split)
  have "(m + 7) div 8 = (if m = 0 then 0 else 1)"
    using n(2) by (cases "m = 0") (auto intro!: div_nat_eqI)
  moreover have "(8 * d + m + 7) div 8 = d + (m + 7) div 8" by (simp add: add.assoc)
  ultimately show ?thesis unfolding n(3,4) unfolding n(1) by (simp add: algebra_simps)
qed

lemma down8: "unat (RoundDownTo x 8) = unat x div 8 * 8"
  using unat_RoundDownTo [of x 3] by simp

lemma up8:
  assumes "unat x < 2 ^ 61"
  shows "unat (round_up x 8) = (unat x + 7) div 8 * 8" "RoundUpTo x 8 = Inr (round_up x 8)"
  using assms unat_round_up [of 3 x] IsPowerOfTwo_pow2 [of 3] by (simp_all add: RoundUpTo_def)

lemma annotate_run:
  assumes c: "cfg_ok c" "detect_container_overflow c" and p: "can_poison_memory s" and wf: "shadow_wf (shadow s)"
    and mem: "container_mem c beg end"
    and le: "beg \<le> old_mid" "beg \<le> new_mid" "old_mid \<le> end" "new_mid \<le> end"
    and st: "container_state (shadow s) beg end old_mid"
  defines "a \<equiv> RoundDownTo (Min2 old_mid new_mid) 8" and "e \<equiv> round_up (Max2 old_mid new_mid) 8"
    and "b1 \<equiv> RoundDownTo new_mid 8" and "b2 \<equiv> round_up new_mid 8"
  shows "sanitizer_annotate_contiguous_container c beg end old_mid new_mid s = Inr
    (let s1 = fill_shadow (MEM_TO_SHADOW a) 0 (drop_bit 3 (b1 - a)) s;
         s2 = fill_shadow (MEM_TO_SHADOW b2) kAsanContiguousContainerOOBMagic (drop_bit 3 (e - b2)) s1
     in if b1 \<noteq> b2 then store_shadow (MEM_TO_SHADOW b1) (ucast (new_mid - b1)) s2 else s2)"
proof -
  have bounds: "8 \<le> unat beg" "unat beg mod 8 = 0" "unat end < 2 ^ 61" "unat end - unat beg \<le> 2 ^ 34"
    and inmem: "\<And>x. unat beg \<le> unat x + 8 \<Longrightarrow> unat x \<le> unat end + 8 \<Longrightarrow> AddrIsInMem c x"
    using mem by (auto simp: container_mem_def)
  have nle: "unat beg \<le> unat old_mid" "unat beg \<le> unat new_mid" "unat old_mid \<le> unat end" "unat new_mid \<le> unat end"
    using le by (simp_all add: word_le_nat_alt)
  define mn where "mn = min (unat old_mid) (unat new_mid)"
  define mx where "mx = max (unat old_mid) (unat new_mid)"
  have umn: "unat (Min2 old_mid new_mid) = mn" and umx: "unat (Max2 old_mid new_mid) = mx"
    by (simp_all add: Min2_def Max2_def mn_def mx_def word_less_nat_alt)
  have small: "mx < 2 ^ 61" "unat new_mid < 2 ^ 61" using nle bounds by (simp_all add: mx_def)
  have ua: "unat a = mn div 8 * 8" by (simp add: a_def down8 umn)
  have ue: "unat e = (mx + 7) div 8 * 8" "RoundUpTo (Max2 old_mid new_mid) 8 = Inr e"
    using up8 [of "Max2 old_mid new_mid"] small by (simp_all add: e_def umx)
  have ub1: "unat b1 = unat new_mid div 8 * 8" by (simp add: b1_def down8)
  have ub2: "unat b2 = (unat new_mid + 7) div 8 * 8" "RoundUpTo new_mid 8 = Inr b2"
    using up8 [of new_mid] small by (simp_all add: b2_def)
  have mnn: "mn \<le> unat new_mid" "unat new_mid \<le> mx" "unat beg \<le> mn" "mx \<le> unat end" using nle by (auto simp: mn_def mx_def)
  obtain db where db: "unat beg = 8 * db" using bounds(2) by (auto simp: mod_eq_0_iff_dvd elim!: dvdE)
  have beg_a: "unat beg \<le> unat a" using mnn(3) db by (simp add: ua less_eq_div_iff_mult_less_eq)
  have ab1: "unat a \<le> unat b1" using mnn(1) by (simp add: ua ub1 div_le_mono)
  have b2e: "unat b2 \<le> unat e" using mnn(2) by (simp add: ue ub2 div_le_mono)
  have b1b2: "unat b1 \<le> unat b2" "unat b2 \<le> unat b1 + 8" by (simp_all add: ub1 ub2 up_down8)
  have e_end: "unat e < unat end + 8" using mnn(4) by (simp add: ue) 
  have "unat b1 \<le> unat new_mid" by (simp add: ub1)
  have d1: "unat (b1 - a) = unat b1 - unat a" "unat (e - b2) = unat e - unat b2"
    using ab1 b2e by (simp_all add: unat_sub word_le_nat_alt)
  have al: "unat a mod 8 = 0" "unat (b1 - a) mod 8 = 0" "unat b2 mod 8 = 0" "unat (e - b2) mod 8 = 0"
    by (simp_all add: d1 ua ub1 ue ub2 flip: diff_mult_distrib)
  have bk: "unat (x - 8) = unat x - 8" if "8 \<le> unat x" for x :: uptr
    using that by (simp add: unat_sub word_le_nat_alt)
  have "unat (a + (b1 - a) - 8) = unat b1 - 8" "unat (b2 + (e - b2) - 8) = unat e - 8"
    using bounds beg_a ab1 b1b2 b2e by (simp_all add: bk)
  then have m: "AddrIsInMem c a" "AddrIsInMem c (a + (b1 - a) - 8)" "AddrIsInMem c b2" "AddrIsInMem c (b2 + (e - b2) - 8)"
    "AddrIsInMem c b1"
    using bounds beg_a ab1 b1b2 b2e e_end \<open>unat b1 \<le> unat new_mid\<close> mnn by (auto intro!: inmem)
  have run1: "PoisonShadow c a (b1 - a) 0 s = Inr (fill_shadow (MEM_TO_SHADOW a) 0 (drop_bit 3 (b1 - a)) s)"
    using bounds beg_a ab1 b1b2 b2e e_end by (intro PoisonShadow_any c p al m) (simp_all add: d1)
  have run2: "PoisonShadow c b2 (e - b2) v s' = Inr (fill_shadow (MEM_TO_SHADOW b2) v (drop_bit 3 (e - b2)) s')"
    if "can_poison_memory s'" for v s'
    using bounds beg_a ab1 b1b2 b2e e_end that by (intro PoisonShadow_any c al m) (simp_all add: d1)
  have quick: "shadow s (MEM_TO_SHADOW a) = 0" if "a + 8 \<le> RoundDownTo old_mid 8"
  proof -
    have "unat (a + 8) = unat a + 8" using ua mnn bounds by (subst unat_add_nowrap) simp_all
    then have l: "unat a + 8 \<le> unat old_mid"
      using that down8 [of old_mid] by (simp add: word_le_nat_alt)
    define y where "y = a + 7"
    have y: "unat y = unat a + 7" unfolding y_def using ua mnn bounds by (subst unat_add_nowrap) simp_all
    have "unat old_mid \<le> unat (round_up end 8)" using up8 [OF bounds(3)] nle by simp
    then have "\<not> AddressIsPoisoned (shadow s) y"
      using st y l beg_a nle by (auto simp: container_state_def word_le_nat_alt)
    then have "shadow s (MEM_TO_SHADOW y) = 0"
      using wf y ua by (intro wf_clean_granule) simp_all
    moreover have "MEM_TO_SHADOW y = MEM_TO_SHADOW a" using y ua by (simp add: MEM_TO_SHADOW_eq)
    ultimately show ?thesis by simp
  qed
  have "b1 \<noteq> b2 \<longrightarrow> b2 - b1 = 8"
  proof
    assume "b1 \<noteq> b2"
    then have "unat b1 \<noteq> unat b2" by (simp add: word_unat_eq_iff)
    then have "unat b2 - unat b1 = 8" by (simp add: ub1 ub2(1) up_down8 split: if_splits)
    then show "b2 - b1 = 8" using b1b2 by (simp add: word_unat_eq_iff unat_sub word_le_nat_alt)
  qed
  moreover have "end - beg \<le> 0x400000000"
    using le bounds by (simp add: word_le_nat_alt unat_sub)
  moreover have "IsAligned beg 8"
    using IsAligned_iff_dvd [of beg 3] bounds(2) by (simp add: dvd_eq_mod_eq_0)
  ultimately show ?thesis
    using c le run1 run2 p quick m ue(2) ub2(2)
    by (simp add: sanitizer_annotate_contiguous_container_def granularity Let_def MemToShadow_def
        flip: a_def b1_def)
qed


text \<open>The shadow that the three stores leave, in terms of the addresses: between the two outer granule boundaries the new middle decides.\<close>

lemma annotate_poisoned:
  fixes old_mid new_mid x :: uptr and s :: pst
  defines "a \<equiv> RoundDownTo (Min2 old_mid new_mid) 8" and "e \<equiv> round_up (Max2 old_mid new_mid) 8"
    and "b1 \<equiv> RoundDownTo new_mid 8" and "b2 \<equiv> round_up new_mid 8"
  defines "s1 \<equiv> fill_shadow (MEM_TO_SHADOW a) 0 (drop_bit 3 (b1 - a)) s"
  defines "s2 \<equiv> fill_shadow (MEM_TO_SHADOW b2) kAsanContiguousContainerOOBMagic (drop_bit 3 (e - b2)) s1"
  defines "s3 \<equiv> if b1 \<noteq> b2 then store_shadow (MEM_TO_SHADOW b1) (ucast (new_mid - b1)) s2 else s2"
  assumes lt: "unat old_mid < 2 ^ 61" "unat new_mid < 2 ^ 61"
  shows "unat a = min (unat old_mid) (unat new_mid) div 8 * 8" "unat e = (max (unat old_mid) (unat new_mid) + 7) div 8 * 8"
    and "AddressIsPoisoned (shadow s3) x \<longleftrightarrow>
      (if unat a \<le> unat x \<and> unat x < unat e then unat new_mid \<le> unat x else AddressIsPoisoned (shadow s) x)"
proof -
  have umn: "unat (Min2 old_mid new_mid) = min (unat old_mid) (unat new_mid)"
    and umx: "unat (Max2 old_mid new_mid) = max (unat old_mid) (unat new_mid)"
    by (simp_all add: Min2_def Max2_def word_less_nat_alt)
  show ua: "unat a = min (unat old_mid) (unat new_mid) div 8 * 8" by (simp add: a_def down8 umn)
  show ue: "unat e = (max (unat old_mid) (unat new_mid) + 7) div 8 * 8"
    using up8 [of "Max2 old_mid new_mid"] lt by (simp add: e_def umx)
  have ub1: "unat b1 = unat new_mid div 8 * 8" by (simp add: b1_def down8)
  have ub2: "unat b2 = (unat new_mid + 7) div 8 * 8" using up8 [of new_mid] lt by (simp add: b2_def)
  have ab1: "unat a \<le> unat b1" by (simp add: ua ub1 div_le_mono)
  have b2e: "unat b2 \<le> unat e" by (simp add: ue ub2 div_le_mono)
  have d: "unat (b1 - a) = unat b1 - unat a" "unat (e - b2) = unat e - unat b2"
    using ab1 b2e by (simp_all add: unat_sub word_le_nat_alt)
  have al: "unat a mod 8 = 0" "unat (b1 - a) mod 8 = 0" "unat b2 mod 8 = 0" "unat (e - b2) mod 8 = 0"
    by (simp_all add: d ua ub1 ue ub2 flip: diff_mult_distrib)
  have "max (unat old_mid) (unat new_mid) + 7 \<le> 2 ^ 62" using lt by simp
  moreover have "unat e \<le> max (unat old_mid) (unat new_mid) + 7" unfolding ue by simp
  ultimately have e62: "unat e \<le> 2 ^ 62" by linarith
  have b162: "unat b1 \<le> 2 ^ 62" using ub1 lt(2) by simp
  have f1: "shadow s1 (MEM_TO_SHADOW x) = (if unat a \<le> unat x \<and> unat x < unat b1 then 0 else shadow s (MEM_TO_SHADOW x))"
    using fill_aligned [OF al(1,2), of 0 s x] b162 ab1 by (simp add: d s1_def)
  have f2: "shadow s2 (MEM_TO_SHADOW x) = (if unat b2 \<le> unat x \<and> unat x < unat e then kAsanContiguousContainerOOBMagic
      else shadow s1 (MEM_TO_SHADOW x))"
    using fill_aligned [OF al(3,4), of _ s1 x] e62 b2e by (simp add: d s2_def)
  have in_b1: "MEM_TO_SHADOW x = MEM_TO_SHADOW b1 \<longleftrightarrow> unat b1 \<le> unat x \<and> unat x < unat b1 + 8"
  proof -
    obtain dx mx where x: "unat x = 8 * dx + mx" "mx < 8" "unat x div 8 = dx" by (rule granule_split)
    show ?thesis unfolding MEM_TO_SHADOW_eq x(3) using x(1,2) ub1 by auto
  qed
  have b12: "b1 \<noteq> b2 \<Longrightarrow> unat b2 = unat b1 + 8 \<and> unat new_mid mod 8 \<noteq> 0" "b1 = b2 \<Longrightarrow> unat b1 = unat new_mid"
    using ub1 ub2 up_down8 [of "unat new_mid"] by (auto simp: word_unat_eq_iff split: if_splits)
  have nm: "new_mid - b1 = new_mid AND 7"
    by (simp add: word_unat_eq_iff unat_and_7 unat_sub word_le_nat_alt ub1 minus_div_mult_eq_mod)
  show "AddressIsPoisoned (shadow s3) x \<longleftrightarrow>
      (if unat a \<le> unat x \<and> unat x < unat e then unat new_mid \<le> unat x else AddressIsPoisoned (shadow s) x)"
  proof (cases "b1 = b2")
    case True
    then show ?thesis
      using b12(2) ab1 b2e unfolding AddressIsPoisoned_iff s3_def by (simp add: f2 f1)
  next
    case False
    have v: "shadow s3 (MEM_TO_SHADOW x) = (if unat b1 \<le> unat x \<and> unat x < unat b1 + 8 then ucast (new_mid AND 7)
        else shadow s2 (MEM_TO_SHADOW x))"
      using False in_b1 by (simp add: s3_def nm)
    have g: "unat new_mid mod 8 \<le> unat x mod 8 \<longleftrightarrow> unat new_mid \<le> unat x" if "unat b1 \<le> unat x" "unat x < unat b1 + 8"
      using that in_b1 ub1 by (intro same_granule_le) (simp add: MEM_TO_SHADOW_eq)
    have "unat b1 \<le> unat new_mid" "unat new_mid < unat b2" using b12(1) [OF False] ub1 by simp_all
    with v g b12(1) [OF False] ab1 b2e show ?thesis
      unfolding AddressIsPoisoned_iff v by (auto simp: poisoned_at_offset f2 f1)
  qed
qed

text \<open>
  C19. \<^verbatim>\<open>__sanitizer_annotate_contiguous_container\<close> moves the border of the container: called
  with the old and the new middle it succeeds, from then on exactly the bytes of the storage below the
  new middle are addressable, and bytes outside of the storage keep their state.
\<close>

theorem annotate_container:
  assumes c: "cfg_ok c" "detect_container_overflow c" and p: "can_poison_memory s" and wf: "shadow_wf (shadow s)"
    and mem: "container_mem c beg end"
    and le: "beg \<le> old_mid" "beg \<le> new_mid" "old_mid \<le> end" "new_mid \<le> end"
    and st: "container_state (shadow s) beg end old_mid"
  shows "\<exists>s'. sanitizer_annotate_contiguous_container c beg end old_mid new_mid s = Inr s'
    \<and> container_state (shadow s') beg end new_mid
    \<and> (\<forall>x. unat x < unat beg \<or> unat (round_up end 8) \<le> unat x \<longrightarrow>
        AddressIsPoisoned (shadow s') x = AddressIsPoisoned (shadow s) x)"
proof -
  have bounds: "unat beg mod 8 = 0" "unat end < 2 ^ 61" using mem by (auto simp: container_mem_def)
  have nle: "unat beg \<le> unat old_mid" "unat beg \<le> unat new_mid" "unat old_mid \<le> unat end" "unat new_mid \<le> unat end"
    using le by (simp_all add: word_le_nat_alt)
  define mn where "mn = min (unat old_mid) (unat new_mid)"
  define mx where "mx = max (unat old_mid) (unat new_mid)"
  define a where "a = RoundDownTo (Min2 old_mid new_mid) 8"
  define e where "e = round_up (Max2 old_mid new_mid) 8"
  have lt: "unat old_mid < 2 ^ 61" "unat new_mid < 2 ^ 61" using nle bounds by simp_all
  note P = annotate_poisoned [OF lt, folded a_def e_def mn_def mx_def]
  obtain s3 where run: "sanitizer_annotate_contiguous_container c beg end old_mid new_mid s = Inr s3"
    and state: "\<And>x. AddressIsPoisoned (shadow s3) x \<longleftrightarrow>
      (if unat a \<le> unat x \<and> unat x < unat e then unat new_mid \<le> unat x else AddressIsPoisoned (shadow s) x)"
    using annotate_run [OF c p wf mem le st, folded a_def e_def, unfolded Let_def] P(3) by blast
  have uend: "unat (round_up end 8) = (unat end + 7) div 8 * 8" using up8 [of "end"] bounds by simp
  have mnn: "unat beg \<le> mn" "mx \<le> unat end" "mn \<le> unat old_mid" "unat old_mid \<le> mx" "mn \<le> unat new_mid" "unat new_mid \<le> mx"
    using nle by (auto simp: mn_def mx_def)
  obtain db where db: "unat beg = 8 * db" using bounds(1) by (auto simp: mod_eq_0_iff_dvd elim!: dvdE)
  have outer: "unat beg \<le> unat a" "unat e \<le> unat (round_up end 8)"
    using mnn(1,2) db by (simp_all add: P(1,2) uend less_eq_div_iff_mult_less_eq div_le_mono)
  have "container_state (shadow s3) beg end new_mid"
    unfolding container_state_def
  proof (intro allI impI)
    fix x :: uptr assume x: "unat beg \<le> unat x \<and> unat x < unat (round_up end 8)"
    have "AddressIsPoisoned (shadow s) x \<longleftrightarrow> unat old_mid \<le> unat x"
      using st x by (simp add: container_state_def word_le_nat_alt)
    moreover have "unat x < unat a \<Longrightarrow> unat x < mn" by (simp add: P(1))
    moreover have "unat e \<le> unat x \<Longrightarrow> mx \<le> unat x" using up_down8 [of mx] by (simp add: P(2) split: if_splits)
    ultimately show "AddressIsPoisoned (shadow s3) x = (new_mid \<le> x)"
      using state [of x] mnn by (auto simp: word_le_nat_alt)
  qed
  moreover have "AddressIsPoisoned (shadow s3) x = AddressIsPoisoned (shadow s) x"
    if "unat x < unat beg \<or> unat (round_up end 8) \<le> unat x" for x
    using state [of x] that outer by auto
  ultimately show ?thesis using run by blast
qed

theorem annotate_container_witness:
  "\<exists>s'. sanitizer_annotate_contiguous_container example_cfg 0x10000 0x10040 0x10040 0x10013
      \<lparr>shadow = (\<lambda>a. 0), can_poison_memory = True\<rparr> = Inr s'
    \<and> container_state (shadow s') 0x10000 0x10040 0x10013"
proof -
  have l: "linux_layout example_cfg" "protect_shadow_gap example_cfg" "detect_container_overflow example_cfg"
    by (simp_all add: linux_layout_def example_cfg_def)
  have "(0x1000 :: uptr) = 2 ^ 12" by simp
  then have c: "cfg_ok example_cfg" unfolding cfg_ok_def example_cfg_def by (auto intro!: exI [of _ 12])
  have st: "container_state (\<lambda>a. 0) 0x10000 0x10040 0x10040"
    by (auto simp: container_state_def AddressIsPoisoned_iff word_le_nat_alt round_up_def)
  show ?thesis
    using annotate_container [OF c l(3), of "\<lparr>shadow = (\<lambda>a. 0), can_poison_memory = True\<rparr>" "0x10000" "0x10040" "0x10040" "0x10013"] st
    by (simp add: shadow_wf_def container_mem_def in_mem [OF l(1,2)]) blast
qed

text \<open>
  \<^verbatim>\<open>__sanitizer_verify_contiguous_container\<close> accepts a container whose annotation is right: it
  answers true, without a failing check, for any middle of the storage.
\<close>

theorem container_verified:
  assumes "detect_container_overflow c" and "beg \<le> mid" and "mid \<le> end" and "unat end + 32 < 2 ^ 61"
    and "32 \<le> unat beg" and "container_state sh beg end mid"
  shows "sanitizer_verify_contiguous_container c sh beg mid end = Inr True"
proof -
  have le: "unat beg \<le> unat mid" "unat mid \<le> unat end" using assms by (simp_all add: word_le_nat_alt)
  have st: "AddressIsPoisoned sh x \<longleftrightarrow> unat mid \<le> unat x" if "unat beg \<le> unat x" "unat x < unat end" for x
    using assms(6) that up8(1) [of "end"] assms(4) by (auto simp: container_state_def word_le_nat_alt)
  have "find_poisoned sh beg (Min2 (beg + 32) mid) = None" "find_poisoned sh (Max2 beg (mid - 32)) mid = None"
    unfolding find_poisoned_None using st le by (auto simp: Min2_def Max2_def word_less_nat_alt split: if_splits)
  moreover have "find_good sh mid (Min2 end (mid + 32)) = None" "find_good sh (Max2 (end - 32) mid) end = None"
    unfolding find_good_None using st le by (auto simp: Min2_def Max2_def word_less_nat_alt split: if_splits)
  ultimately show ?thesis
    using assms(1-3) by (simp add: sanitizer_verify_contiguous_container_def
        sanitizer_contiguous_container_find_bad_address_def Let_def)
qed

theorem container_verified_witness:
  "sanitizer_verify_contiguous_container example_cfg (\<lambda>a. 0) 0x10000 0x10040 0x10040 = Inr True"
  by (rule container_verified)
    (simp_all add: example_cfg_def container_state_def AddressIsPoisoned_iff word_le_nat_alt round_up_def)

end
