(* ===== verification/Vm.thy ===== *)
theory Vm
  imports Libc
begin

text \<open>
  The memory of the process as the allocators see it: a page table from page numbers to physical
  frames, where two pages may show the same frame, and the contents of the frames. The system
  calls are the ones the runtime makes (\<^verbatim>\<open>mmap\<close>, \<^verbatim>\<open>mremap\<close> and \<^verbatim>\<open>munmap\<close> with the flags it passes), after
  their manual pages; what the kernel decides is part of the state (\<open>mmap_error\<close>, \<open>mmap_pick\<close>), one
  entry per call. The wrappers are those of \<^verbatim>\<open>sanitizer_posix.cc\<close> and
  \<^verbatim>\<open>sanitizer_posix_libcdep.cc\<close>.
\<close>

section \<open>Page tables\<close>

text \<open>A page shows a frame through a shared or a private mapping, or is reserved without access.\<close>

datatype mapping = Shared nat | Private nat | NoAccess

record vm =
  pages :: "nat \<Rightarrow> mapping option"
  next_frame :: nat
  frames :: "nat \<times> nat \<Rightarrow> u8"
  mmap_error :: "nat \<Rightarrow> uptr option"
  mmap_pick :: "nat \<Rightarrow> uptr"
  mmap_calls :: nat

definition GetPageSizeCached :: uptr where "GetPageSizeCached = 0x1000"

definition page_of :: "uptr \<Rightarrow> nat" where
  "page_of a = unat a div 4096"

fun frame_of :: "mapping option \<Rightarrow> nat option" where
  "frame_of (Some (Shared f)) = Some f"
| "frame_of (Some (Private f)) = Some f"
| "frame_of _ = None"

text \<open>The physical byte an address stands for, if it is accessible.\<close>

definition translate :: "vm \<Rightarrow> uptr \<Rightarrow> (nat \<times> nat) option" where
  "translate m a = map_option (\<lambda>f. (f, unat a mod 4096)) (frame_of (pages m (page_of a)))"

definition vload8 :: "vm \<Rightarrow> uptr \<Rightarrow> u8 res" where
  "vload8 m a = (case translate m a of None \<Rightarrow> Inl (Segv a) | Some b \<Rightarrow> Inr (frames m b))"

definition vstore8 :: "vm \<Rightarrow> uptr \<Rightarrow> u8 \<Rightarrow> vm res" where
  "vstore8 m a v = (case translate m a of None \<Rightarrow> Inl (Segv a)
     | Some b \<Rightarrow> Inr (m\<lparr>frames := (frames m)(b := v)\<rparr>))"

text \<open>Little-endian accesses of \<open>n\<close> bytes.\<close>

fun vload :: "vm \<Rightarrow> uptr \<Rightarrow> nat \<Rightarrow> uptr res" where
  "vload m a 0 = Inr 0"
| "vload m a (Suc n) = bindr (vload8 m a) (\<lambda>b. bindr (vload m (a + 1) n) (\<lambda>r.
     Inr (ucast b OR push_bit 8 r)))"

fun vstore :: "vm \<Rightarrow> uptr \<Rightarrow> nat \<Rightarrow> uptr \<Rightarrow> vm res" where
  "vstore m a 0 v = Inr m"
| "vstore m a (Suc n) v = bindr (vstore8 m a (ucast v)) (\<lambda>m'. vstore m' (a + 1) n (drop_bit 8 v))"

section \<open>System calls\<close>

definition set_pages :: "nat \<Rightarrow> nat \<Rightarrow> (nat \<Rightarrow> mapping option) \<Rightarrow> vm \<Rightarrow> vm" where
  "set_pages p n f m = m\<lparr>pages := (\<lambda>q. if p \<le> q \<and> q < p + n then f (q - p) else pages m q)\<rparr>"

text \<open>Fresh frames are filled with zeros.\<close>

definition fresh_frames :: "nat \<Rightarrow> vm \<Rightarrow> vm" where
  "fresh_frames n m = m\<lparr>next_frame := next_frame m + n,
     frames := (\<lambda>b. if next_frame m \<le> fst b \<and> fst b < next_frame m + n then 0 else frames m b)\<rparr>"

definition page_count :: "uptr \<Rightarrow> nat" where
  "page_count sz = (unat sz + 4095) div 4096"

text \<open>
  A call that fails returns the negated error number and leaves the mappings alone: \<^verbatim>\<open>EINVAL\<close> for an
  unaligned address or an empty range, or what the kernel reports.
\<close>

definition EINVAL :: uptr where "EINVAL = - 22"

definition next_call :: "vm \<Rightarrow> vm" where
  "next_call m = m\<lparr>mmap_calls := Suc (mmap_calls m)\<rparr>"

definition try_call :: "bool \<Rightarrow> vm \<Rightarrow> (vm \<Rightarrow> uptr \<times> vm) \<Rightarrow> uptr \<times> vm" where
  "try_call ok m f =
     (if \<not> ok then (EINVAL, next_call m)
      else case mmap_error m (mmap_calls m) of
        Some e \<Rightarrow> (e, next_call m)
      | None \<Rightarrow> f (next_call m))"

definition mmap_fixed_shared :: "uptr \<Rightarrow> uptr \<Rightarrow> vm \<Rightarrow> uptr \<times> vm" where
  "mmap_fixed_shared addr sz m =
     try_call (unat addr mod 4096 = 0 \<and> sz \<noteq> 0) m (\<lambda>m.
       (addr, set_pages (page_of addr) (page_count sz) (\<lambda>i. Some (Shared (next_frame m + i)))
                (fresh_frames (page_count sz) m)))"

definition mmap_fixed_private :: "uptr \<Rightarrow> uptr \<Rightarrow> vm \<Rightarrow> uptr \<times> vm" where
  "mmap_fixed_private addr sz m =
     try_call (unat addr mod 4096 = 0 \<and> sz \<noteq> 0) m (\<lambda>m.
       (addr, set_pages (page_of addr) (page_count sz) (\<lambda>i. Some (Private (next_frame m + i)))
                (fresh_frames (page_count sz) m)))"

definition mmap_fixed_none :: "uptr \<Rightarrow> uptr \<Rightarrow> vm \<Rightarrow> uptr \<times> vm" where
  "mmap_fixed_none addr sz m =
     try_call (unat addr mod 4096 = 0 \<and> sz \<noteq> 0) m (\<lambda>m.
       (addr, set_pages (page_of addr) (page_count sz) (\<lambda>i. Some NoAccess) m))"

text \<open>Without \<^verbatim>\<open>MAP_FIXED\<close> the kernel picks the address.\<close>

definition mmap_anywhere :: "uptr \<Rightarrow> vm \<Rightarrow> uptr \<times> vm" where
  "mmap_anywhere sz m =
     try_call (sz \<noteq> 0) m (\<lambda>m'. let addr = mmap_pick m (mmap_calls m) in
       (addr, set_pages (page_of addr) (page_count sz) (\<lambda>i. Some (Private (next_frame m + i)))
                (fresh_frames (page_count sz) m')))"

definition mmap_anywhere_none :: "uptr \<Rightarrow> vm \<Rightarrow> uptr \<times> vm" where
  "mmap_anywhere_none sz m =
     try_call (sz \<noteq> 0) m (\<lambda>m'. let addr = mmap_pick m (mmap_calls m) in
       (addr, set_pages (page_of addr) (page_count sz) (\<lambda>i. Some NoAccess) m'))"

text \<open>
  \<^verbatim>\<open>mremap(orig, 0, size, MREMAP_FIXED | MREMAP_MAYMOVE, new)\<close> for one page: with an old size of 0 it
  creates a second mapping of the same frame, provided the old one is shared; a page that is not a shared mapping is
  an error.
\<close>

definition mremap_dup :: "uptr \<Rightarrow> uptr \<Rightarrow> vm \<Rightarrow> uptr \<times> vm" where
  "mremap_dup orig new m =
     (case pages m (page_of orig) of
        Some (Shared f) \<Rightarrow>
          try_call (unat orig mod 4096 = 0 \<and> unat new mod 4096 = 0 \<and> page_of orig \<noteq> page_of new) m (\<lambda>m.
            (new, set_pages (page_of new) 1 (\<lambda>i. Some (Shared f)) m))
      | _ \<Rightarrow> (EINVAL, next_call m))"

definition munmap :: "uptr \<Rightarrow> uptr \<Rightarrow> vm \<Rightarrow> uptr \<times> vm" where
  "munmap addr sz m =
     try_call (unat addr mod 4096 = 0 \<and> sz \<noteq> 0) m (\<lambda>m.
       (0, set_pages (page_of addr) (page_count sz) (\<lambda>i. None) m))"

definition internal_iserror :: "uptr \<Rightarrow> bool" where
  "internal_iserror retval \<longleftrightarrow> retval \<ge> - 4095"

section \<open>The wrappers\<close>

definition MmapOrDie :: "uptr \<Rightarrow> vm \<Rightarrow> (uptr \<times> vm) res" where
  "MmapOrDie sz m =
     bindr (RoundUpTo sz GetPageSizeCached) (\<lambda>sz.
       let (res, m') = mmap_anywhere sz m in
       if internal_iserror res then Inl (Died ''failed to allocate'') else Inr (res, m'))"

definition UnmapOrDie :: "uptr \<Rightarrow> uptr \<Rightarrow> vm \<Rightarrow> vm res" where
  "UnmapOrDie addr sz m =
     (if addr = 0 \<or> sz = 0 then Inr m
      else let (res, m') = munmap addr sz m in
        if internal_iserror res then Inl (CheckFailed ''unable to unmap'') else Inr m')"

definition MmapAlignedOrDie :: "uptr \<Rightarrow> uptr \<Rightarrow> vm \<Rightarrow> (uptr \<times> vm) res" where
  "MmapAlignedOrDie sz alignment m =
     check (IsPowerOfTwo sz) ''IsPowerOfTwo(size)'' (
     check (IsPowerOfTwo alignment) ''IsPowerOfTwo(alignment)'' (
     let map_size = sz + alignment in
     bindr (MmapOrDie map_size m) (\<lambda>(map_res, m1).
     let map_end = map_res + map_size;
         res = (if map_res AND (alignment - 1) \<noteq> 0 then (map_res + alignment) AND NOT (alignment - 1) else map_res);
         end = res + sz
     in bindr (if res \<noteq> map_res then UnmapOrDie map_res (res - map_res) m1 else Inr m1) (\<lambda>m2.
        bindr (if end \<noteq> map_end then UnmapOrDie end (map_end - end) m2 else Inr m2) (\<lambda>m3.
        Inr (res, m3))))))"

definition MmapFixedOrDie :: "uptr \<Rightarrow> uptr \<Rightarrow> vm \<Rightarrow> (uptr \<times> vm) res" where
  "MmapFixedOrDie fixed_addr sz m =
     bindr (RoundUpTo sz GetPageSizeCached) (\<lambda>sz'.
       let (p, m') = mmap_fixed_private (fixed_addr AND NOT (GetPageSizeCached - 1)) sz' m in
       if internal_iserror p then Inl (Died ''failed to allocate'') else Inr (p, m'))"

definition MmapFixedNoAccess :: "uptr \<Rightarrow> uptr \<Rightarrow> vm \<Rightarrow> uptr \<times> vm" where
  "MmapFixedNoAccess fixed_addr sz m = mmap_fixed_none fixed_addr sz m"

definition MmapNoAccess :: "uptr \<Rightarrow> vm \<Rightarrow> uptr \<times> vm" where
  "MmapNoAccess sz m = mmap_anywhere_none sz m"

section \<open>Facts on the system calls\<close>

lemma pages_set_pages: "pages (set_pages p n f m) q = (if p \<le> q \<and> q < p + n then f (q - p) else pages m q)"
  by (simp add: set_pages_def)

lemma vm_sel [simp]:
  "next_frame (set_pages p n f m) = next_frame m" "pages (fresh_frames n m) = pages m"
  "next_frame (fresh_frames n m) = next_frame m + n" "pages (next_call m) = pages m"
  "next_frame (next_call m) = next_frame m" "frames (next_call m) = frames m"
  "frames (set_pages p n f m) = frames m"
  "mmap_error (set_pages p n f m) = mmap_error m" "mmap_error (fresh_frames n m) = mmap_error m"
  "mmap_error (next_call m) = mmap_error m"
  "mmap_pick (set_pages p n f m) = mmap_pick m" "mmap_pick (fresh_frames n m) = mmap_pick m"
  "mmap_pick (next_call m) = mmap_pick m"
  by (simp_all add: set_pages_def fresh_frames_def next_call_def)

text \<open>\<open>errors_ok m\<close>: errors are error numbers; \<open>no_errors m\<close>: the kernel never refuses.\<close>

definition errors_ok :: "vm \<Rightarrow> bool" where
  "errors_ok m \<longleftrightarrow> (\<forall>n e. mmap_error m n = Some e \<longrightarrow> internal_iserror e)"

definition no_errors :: "vm \<Rightarrow> bool" where
  "no_errors m \<longleftrightarrow> (\<forall>n. mmap_error m n = None)"

lemma internal_iserror_iff: "internal_iserror r \<longleftrightarrow> 2 ^ 64 - 4095 \<le> unat r"
  by (simp add: internal_iserror_def word_le_nat_alt)

lemma EINVAL_error: "internal_iserror EINVAL"
  by (simp add: internal_iserror_iff EINVAL_def)

lemma error_unaligned: "internal_iserror r \<Longrightarrow> unat r mod 4096 \<noteq> 0"
proof
  assume "internal_iserror r" "unat r mod 4096 = 0"
  then obtain k where k: "unat r = 4096 * k" "2 ^ 64 - 4095 \<le> unat r"
    by (auto simp: internal_iserror_iff mod_eq_0_iff_dvd elim!: dvdE)
  then have "k < 2 ^ 52" "2 ^ 52 \<le> k" using unat_lt_64 [of r] by simp_all
  then show False by simp
qed

lemma translate_Some:
  "translate m a = Some b \<longleftrightarrow> (\<exists>f. frame_of (pages m (page_of a)) = Some f \<and> b = (f, unat a mod 4096))"
  by (auto simp: translate_def)

lemma frame_of_Some: "frame_of x = Some f \<longleftrightarrow> x = Some (Shared f) \<or> x = Some (Private f)"
  by (cases x rule: frame_of.cases) auto

text \<open>
  The outcome of a fixed mapping: an error number and no change of the mappings, or the address and
  the new mappings.
\<close>

lemma try_call_cases:
  assumes "try_call ok m f = (r, m')" and "errors_ok m"
  obtains "internal_iserror r" "m' = next_call m" | "ok" "(r, m') = f (next_call m)"
  using assms EINVAL_error by (auto simp: try_call_def errors_ok_def split: if_splits option.splits)

lemma try_call_ok: "ok \<Longrightarrow> no_errors m \<Longrightarrow> try_call ok m f = f (next_call m)"
  by (simp add: try_call_def no_errors_def)

end
