(* ===== verification/Aliasing.thy ===== *)
theory Aliasing
  imports Vm SizeClass DList
begin

text \<open>
  The aliasing allocator of \<^verbatim>\<open>sanitizer_aliasing.h\<close>: \<^verbatim>\<open>AliasingAllocator\<close> hands out virtual addresses, one
  region per size class, and never takes an address back; \<^verbatim>\<open>AliasingAllocatorLocalCache\<close>, one per
  thread, backs them with memory. Pieces of physical pages that were freed are used again by mapping
  the page a second time at the new address (\<^verbatim>\<open>mremap\<close> with old size 0). The metadata objects
  \<^verbatim>\<open>Ppage\<close> and \<^verbatim>\<open>Vpage\<close> are addresses in the internal heap with their fields as maps; their list
  \<^verbatim>\<open>vlist\<close> is the \<^verbatim>\<open>DoubleList\<close> of theory \<^theory_text>\<open>DList\<close>, links and all, because the code also calls
  \<^verbatim>\<open>remove\<close> for nodes that are not in the list. The free list of a size class is only used with
  \<^verbatim>\<open>push_back\<close> of new nodes and \<^verbatim>\<open>remove\<close> of nodes found in it, so it is a sequence, which is what
  \<^theory_text>\<open>DList\<close> proves of these calls.
\<close>

section \<open>Parameters and state\<close>

text \<open>
  The template parameters. \<^verbatim>\<open>MapUnmapCallback\<close> is the argument \<open>onmap\<close> of the operations that call it,
  with its own state \<open>client\<close>.
\<close>

record ap =
  kSpaceBeg :: uptr
  kSpaceSize :: uptr
  SizeMap :: size_class_params

definition AP64 :: ap where
  "AP64 = \<lparr>kSpaceBeg = NOT 0, kSpaceSize = 0x400000000000, SizeMap = DefaultSizeClassMap\<rparr>"

record Freed =
  fpage :: uptr
  foffset :: uptr
  fsize :: uptr

record PerClass =
  lower_bound :: uptr
  upper_bound :: uptr
  free_list :: "Freed list"

type_synonym aliasing_cache = "uptr \<Rightarrow> PerClass"

record 's ast =
  NonConstSpaceBeg :: uptr
  region_pos :: "uptr \<Rightarrow> uptr"
  allocated_user :: "uptr \<Rightarrow> uptr"
  Forkmap :: "uptr \<Rightarrow> uptr option"
  Pagemap :: "uptr \<Rightarrow> uptr option"
  vpage_addr :: "uptr \<Rightarrow> uptr"
  vpage_links :: dlinks
  ppage_vlist :: "uptr \<Rightarrow> lst"
  heap_next :: uptr
  caches :: "nat \<Rightarrow> aliasing_cache"
  avm :: vm
  client :: 's

section \<open>The address space\<close>

definition kUsingConstantSpaceBeg :: "ap \<Rightarrow> bool" where
  "kUsingConstantSpaceBeg pr \<longleftrightarrow> kSpaceBeg pr \<noteq> NOT 0"

definition SpaceBeg :: "ap \<Rightarrow> 's ast \<Rightarrow> uptr" where
  "SpaceBeg pr s = (if kUsingConstantSpaceBeg pr then kSpaceBeg pr else NonConstSpaceBeg s)"

definition SpaceEnd :: "ap \<Rightarrow> 's ast \<Rightarrow> uptr" where
  "SpaceEnd pr s = SpaceBeg pr s + kSpaceSize pr"

definition kRegionSize :: "ap \<Rightarrow> uptr" where
  "kRegionSize pr = kSpaceSize pr div kNumClassesRounded (SizeMap pr)"

definition GetRegionBeginBySizeClass :: "ap \<Rightarrow> 's ast \<Rightarrow> uptr \<Rightarrow> uptr" where
  "GetRegionBeginBySizeClass pr s class_id = SpaceBeg pr s + kRegionSize pr * class_id"

definition GetRegionBegin :: "ap \<Rightarrow> 's ast \<Rightarrow> uptr \<Rightarrow> uptr" where
  "GetRegionBegin pr s p =
     (if kUsingConstantSpaceBeg pr then p AND NOT (kRegionSize pr - 1)
      else let space_beg = SpaceBeg pr s in ((p - space_beg) AND NOT (kRegionSize pr - 1)) + space_beg)"

definition PointerIsMine :: "ap \<Rightarrow> 's ast \<Rightarrow> uptr \<Rightarrow> bool" where
  "PointerIsMine pr s P =
     (if kUsingConstantSpaceBeg pr \<and> kSpaceBeg pr mod kSpaceSize pr = 0 then
        P div kSpaceSize pr = kSpaceBeg pr div kSpaceSize pr
      else P \<ge> SpaceBeg pr s \<and> P < SpaceEnd pr s)"

definition GetSizeClass :: "ap \<Rightarrow> 's ast \<Rightarrow> uptr \<Rightarrow> uptr" where
  "GetSizeClass pr s p =
     (if kUsingConstantSpaceBeg pr \<and> kSpaceBeg pr mod kSpaceSize pr = 0 then
        (p div kRegionSize pr) mod kNumClassesRounded (SizeMap pr)
      else ((p - SpaceBeg pr s) div kRegionSize pr) mod kNumClassesRounded (SizeMap pr))"

definition ClassIdToSize :: "ap \<Rightarrow> uptr \<Rightarrow> uptr" where
  "ClassIdToSize pr class_id = Size (SizeMap pr) class_id"

definition GetActuallyAllocatedSize :: "ap \<Rightarrow> 's ast \<Rightarrow> uptr \<Rightarrow> uptr res" where
  "GetActuallyAllocatedSize pr s p =
     check (PointerIsMine pr s p) ''PointerIsMine(p)'' (Inr (ClassIdToSize pr (GetSizeClass pr s p)))"

definition CanAllocate :: "ap \<Rightarrow> uptr \<Rightarrow> uptr \<Rightarrow> bool" where
  "CanAllocate pr sz alignment \<longleftrightarrow> sz \<le> kMaxSize (SizeMap pr) \<and> alignment \<le> kMaxSize (SizeMap pr)"

definition GetRegionInfo :: "ap \<Rightarrow> uptr \<Rightarrow> uptr res" where
  "GetRegionInfo pr class_id = check (class_id < kNumClasses (SizeMap pr)) ''class_id < kNumClasses'' (Inr class_id)"

fun sum_allocated :: "ap \<Rightarrow> 's ast \<Rightarrow> nat \<Rightarrow> uptr \<Rightarrow> uptr res" where
  "sum_allocated pr s 0 acc = Inr acc"
| "sum_allocated pr s (Suc k) acc =
     bindr (sum_allocated pr s k acc) (\<lambda>r.
       bindr (GetRegionInfo pr (of_nat k)) (\<lambda>i. Inr (r + allocated_user s i)))"

definition TotalMemoryUsed :: "ap \<Rightarrow> 's ast \<Rightarrow> uptr res" where
  "TotalMemoryUsed pr s = sum_allocated pr s (unat (kNumClasses (SizeMap pr))) 0"

text \<open>\<^verbatim>\<open>BlockingMutex\<close> has 11 words, the other fields of \<^verbatim>\<open>RegionInfo\<close> 7.\<close>

definition sizeof_RegionInfo :: uptr where "sizeof_RegionInfo = 144"

definition AdditionalSize :: "ap \<Rightarrow> uptr res" where
  "AdditionalSize pr = RoundUpTo (sizeof_RegionInfo * kNumClassesRounded (SizeMap pr)) GetPageSizeCached"

type_synonym 's callback = "uptr \<Rightarrow> uptr \<Rightarrow> 's \<Rightarrow> 's res"

definition OnMap :: "'s callback \<Rightarrow> uptr \<Rightarrow> uptr \<Rightarrow> 's ast \<Rightarrow> 's ast res" where
  "OnMap onmap beg sz s = bindr (onmap beg sz (client s)) (\<lambda>c. Inr (s\<lparr>client := c\<rparr>))"

definition MapWithCallback :: "'s callback \<Rightarrow> uptr \<Rightarrow> uptr \<Rightarrow> 's ast \<Rightarrow> 's ast res" where
  "MapWithCallback onmap beg sz s =
     bindr (MmapFixedOrDie beg sz (avm s)) (\<lambda>(p, m).
       check (beg = p) ''beg == MmapFixedOrDie(beg, size)'' (OnMap onmap beg sz (s\<lparr>avm := m\<rparr>)))"

definition UnmapWithCallback :: "'s callback \<Rightarrow> uptr \<Rightarrow> uptr \<Rightarrow> 's ast \<Rightarrow> 's ast res" where
  "UnmapWithCallback onunmap beg sz s =
     bindr (onunmap beg sz (client s)) (\<lambda>c.
     bindr (UnmapOrDie beg sz (avm s)) (\<lambda>m. Inr (s\<lparr>client := c, avm := m\<rparr>)))"

definition alloc_Init :: "ap \<Rightarrow> 's callback \<Rightarrow> 's ast \<Rightarrow> 's ast res" where
  "alloc_Init pr onmap s =
     bindr (AdditionalSize pr) (\<lambda>additional.
     let total = kSpaceSize pr + additional in
     bindr (if kUsingConstantSpaceBeg pr then
              let (r, m) = MmapFixedNoAccess (kSpaceBeg pr) total (avm s) in
              check (kSpaceBeg pr = r) ''kSpaceBeg == MmapFixedNoAccess'' (Inr (s\<lparr>avm := m\<rparr>))
            else
              let (r, m) = MmapNoAccess total (avm s) in
              check (r \<noteq> NOT 0) ''NonConstSpaceBeg != ~0'' (Inr (s\<lparr>avm := m, NonConstSpaceBeg := r\<rparr>))) (\<lambda>s1.
     let s2 = s1\<lparr>Forkmap := (\<lambda>_. None), Pagemap := (\<lambda>_. None)\<rparr> in
     MapWithCallback onmap (SpaceEnd pr s2) additional s2))"

definition GetFromAllocator :: "ap \<Rightarrow> uptr \<Rightarrow> uptr \<Rightarrow> 's ast \<Rightarrow> (uptr \<times> 's ast) res" where
  "GetFromAllocator pr class_id sz s =
     bindr (GetRegionInfo pr class_id) (\<lambda>region.
     let pos = (if region_pos s region = 0 then GetRegionBeginBySizeClass pr s class_id
                else region_pos s region) in
     if pos \<ge> GetRegionBeginBySizeClass pr s (class_id + 1) then
       Inl (Died ''Address space insufficient'')
     else Inr (pos, s\<lparr>region_pos := (region_pos s)(region := pos + sz)\<rparr>))"

section \<open>Metadata objects\<close>

text \<open>
  \<^verbatim>\<open>InternalAlloc\<close>: the internal allocator hands out fresh, zero-filled blocks (\<^verbatim>\<open>Ppage\<close> and \<^verbatim>\<open>Vpage\<close> objects
  are never given back) and dies when it has no memory left; it does not return null.
\<close>

definition heap_limit :: uptr where "heap_limit = 0x7f0000000000"

definition InternalAlloc :: "'s ast \<Rightarrow> (uptr \<times> 's ast) res" where
  "InternalAlloc s =
     (if heap_next s \<ge> heap_limit then Inl (Died ''internal allocator is out of memory'')
      else Inr (heap_next s, s\<lparr>heap_next := heap_next s + 64\<rparr>))"

definition vlist_push_back :: "uptr \<Rightarrow> uptr \<Rightarrow> 's ast \<Rightarrow> 's ast res" where
  "vlist_push_back p v s =
     bindr (dl_push_back v (vpage_links s, ppage_vlist s p)) (\<lambda>(h, l).
       Inr (s\<lparr>vpage_links := h, ppage_vlist := (ppage_vlist s)(p := l)\<rparr>))"

definition vlist_remove :: "uptr \<Rightarrow> uptr \<Rightarrow> 's ast \<Rightarrow> 's ast res" where
  "vlist_remove p v s =
     bindr (dl_remove v (vpage_links s, ppage_vlist s p)) (\<lambda>(h, l).
       Inr (s\<lparr>vpage_links := h, ppage_vlist := (ppage_vlist s)(p := l)\<rparr>))"

text \<open>
  \<^verbatim>\<open>new_vpage\<close> is the code shared by the three paths: allocate a \<^verbatim>\<open>Vpage\<close> and set its address to what the
  system call returned. \<open>register_page\<close> enters it into both hash maps.
\<close>

definition new_vpage :: "uptr \<Rightarrow> 's ast \<Rightarrow> (uptr \<times> 's ast) res" where
  "new_vpage r s =
     bindr (InternalAlloc s) (\<lambda>(v, s1).
       check (v \<noteq> 0) ''v != 0'' (Inr (v, s1\<lparr>vpage_addr := (vpage_addr s1)(v := r)\<rparr>)))"

definition register_page :: "uptr \<Rightarrow> uptr \<Rightarrow> uptr \<Rightarrow> 's ast \<Rightarrow> 's ast" where
  "register_page r v p s = s\<lparr>Forkmap := (Forkmap s)(r \<mapsto> v), Pagemap := (Pagemap s)(r \<mapsto> p)\<rparr>"

definition MmapAliasing :: "uptr \<Rightarrow> uptr \<Rightarrow> 's ast \<Rightarrow> uptr \<times> 's ast" where
  "MmapAliasing vpage sz s = (let (r, m) = mmap_fixed_shared vpage sz (avm s) in (r, s\<lparr>avm := m\<rparr>))"

definition MremapAliasing :: "uptr \<Rightarrow> uptr \<Rightarrow> 's ast \<Rightarrow> uptr \<times> 's ast" where
  "MremapAliasing orig vpage s = (let (r, m) = mremap_dup orig vpage (avm s) in (r, s\<lparr>avm := m\<rparr>))"

section \<open>Free pieces\<close>

text \<open>The loop over the free list: the first piece with the wanted offset and size is taken out.\<close>

fun take_chunk :: "uptr \<Rightarrow> uptr \<Rightarrow> Freed list \<Rightarrow> (Freed \<times> Freed list) option" where
  "take_chunk off sz [] = None"
| "take_chunk off sz (f # fs) =
     (if foffset f = off \<and> sz = fsize f then Some (f, fs)
      else map_option (\<lambda>(g, gs). (g, f # gs)) (take_chunk off sz fs))"

text \<open>
  The two populate loops cut \<open>[pos, limit)\<close> of a new page into pieces of the class size, the last
  one clipped. They end because class sizes are positive.
\<close>

function cut_pieces :: "uptr \<Rightarrow> nat \<Rightarrow> nat \<Rightarrow> nat \<Rightarrow> Freed list" where
  "cut_pieces p csize pos limit =
     (if pos < limit \<and> 0 < csize then
        \<lparr>fpage = p, foffset = of_nat pos, fsize = of_nat (if limit - pos < csize then limit - pos else csize)\<rparr>
          # cut_pieces p csize (pos + csize) limit
      else [])"
  by pat_completeness auto
termination by (relation "measure (\<lambda>(p, c, pos, limit). limit - pos)") auto

declare cut_pieces.simps [simp del]

definition set_cache :: "nat \<Rightarrow> uptr \<Rightarrow> PerClass \<Rightarrow> 's ast \<Rightarrow> 's ast" where
  "set_cache t class_id pc s = s\<lparr>caches := (caches s)(t := (caches s t)(class_id := pc))\<rparr>"

definition set_free_list :: "nat \<Rightarrow> uptr \<Rightarrow> Freed list \<Rightarrow> 's ast \<Rightarrow> 's ast" where
  "set_free_list t class_id fl s = set_cache t class_id ((caches s t class_id)\<lparr>free_list := fl\<rparr>) s"

section \<open>Allocation\<close>

definition reuse_chunk :: "Freed \<Rightarrow> uptr \<Rightarrow> 's ast \<Rightarrow> 's ast res" where
  "reuse_chunk chunk vbase s =
     check (fpage chunk \<noteq> 0) ''chunk->page != 0'' (
     let p = fpage chunk in
     if dl_empty (ppage_vlist s p) then
       let (r, s1) = MmapAliasing vbase GetPageSizeCached s in
       check (r \<noteq> 0) ''res != 0'' (
       bindr (new_vpage r s1) (\<lambda>(v, s2).
       bindr (vlist_push_back p v (s2\<lparr>ppage_vlist := (ppage_vlist s2)(p := dl_clear (ppage_vlist s2 p))\<rparr>)) (\<lambda>s3.
       Inr (register_page r v p s3))))
     else
       deref (lfirst (ppage_vlist s p)) (
       let orig_vaddr = vpage_addr s (lfirst (ppage_vlist s p));
           (r, s1) = MremapAliasing orig_vaddr vbase s in
       check (r \<noteq> 0) ''res != 0'' (
       bindr (new_vpage r s1) (\<lambda>(v, s2).
       bindr (vlist_push_back p v s2) (\<lambda>s3.
       Inr (register_page r v p s3))))))"

definition fresh_chunk :: "nat \<Rightarrow> uptr \<Rightarrow> uptr \<Rightarrow> uptr \<Rightarrow> uptr \<Rightarrow> 's ast \<Rightarrow> 's ast res" where
  "fresh_chunk t class_id vbase offset csize s =
     (let (r, s1) = MmapAliasing vbase GetPageSizeCached s in
      check (r \<noteq> 0) ''res != 0'' (
      bindr (InternalAlloc s1) (\<lambda>(p, s2).
      check (p \<noteq> 0) ''p != 0'' (
      bindr (new_vpage r (s2\<lparr>ppage_vlist := (ppage_vlist s2)(p := empty_lst)\<rparr>)) (\<lambda>(v, s3).
      let s4 = register_page r v p s3 in
      Inr (set_free_list t class_id
             (free_list (caches s4 t class_id)
              @ cut_pieces p (unat csize) (unat offset + unat csize) (unat GetPageSizeCached)
              @ cut_pieces p (unat csize) 0 (unat offset)) s4))))))"

definition AllocateChunk :: "ap \<Rightarrow> nat \<Rightarrow> uptr \<Rightarrow> uptr \<Rightarrow> uptr \<Rightarrow> 's ast \<Rightarrow> 's ast res" where
  "AllocateChunk pr t class_id vaddr sz s =
     (let vbase = RoundDownTo vaddr GetPageSizeCached;
          offset = vaddr - vbase;
          csize = Size (SizeMap pr) class_id
      in case take_chunk offset sz (free_list (caches s t class_id)) of
           Some (chunk, rest) \<Rightarrow> reuse_chunk chunk vbase (set_free_list t class_id rest s)
         | None \<Rightarrow> fresh_chunk t class_id vbase offset csize s)"

definition kPopulateSize :: uptr where "kPopulateSize = push_bit 32 1"

definition Refill :: "ap \<Rightarrow> nat \<Rightarrow> uptr \<Rightarrow> uptr \<Rightarrow> 's ast \<Rightarrow> 's ast res" where
  "Refill pr t class_id sz s =
     (let c = caches s t class_id in
      if sz + lower_bound c > upper_bound c then
        bindr (GetFromAllocator pr class_id kPopulateSize s) (\<lambda>(beg, s1).
          check (beg \<noteq> 0) ''c->lower_bound != 0'' (
          Inr (set_cache t class_id (c\<lparr>lower_bound := beg, upper_bound := beg + kPopulateSize\<rparr>) s1)))
      else Inr s)"

definition Allocate :: "ap \<Rightarrow> 's callback \<Rightarrow> nat \<Rightarrow> uptr \<Rightarrow> uptr \<Rightarrow> 's ast \<Rightarrow> (uptr \<times> 's ast) res" where
  "Allocate pr onmap t class_id rz_size s =
     (let sz = ClassIdToSize pr class_id; page_size = GetPageSizeCached in
      bindr (Refill pr t class_id sz s) (\<lambda>s0.
      let r = lower_bound (caches s0 t class_id);
          vaddr0 = r;
          vpage = RoundDownTo vaddr0 page_size;
          offset = vaddr0 - vpage;
          first = (if offset \<noteq> 0 then if page_size - offset < sz then page_size - offset else sz else 0) in
      bindr (if offset \<noteq> 0 then
               bindr (AllocateChunk pr t class_id vaddr0 first s0) (\<lambda>s'.
                 OnMap onmap (RoundDownTo vaddr0 page_size) page_size s')
             else Inr s0) (\<lambda>s1.
      let remain1 = sz - first; vaddr1 = vaddr0 + first;
          middle = (if remain1 \<ge> page_size then RoundDownTo remain1 page_size else 0) in
      bindr (if remain1 \<ge> page_size then
               check (IsAligned vaddr1 page_size) ''IsAligned(vaddr, page_size_)'' (
               bindr (OnMap onmap vaddr1 middle s1) (\<lambda>s'.
               bindr (MmapFixedOrDie vaddr1 middle (avm s')) (\<lambda>(p, m). Inr (s'\<lparr>avm := m\<rparr>))))
             else Inr s1) (\<lambda>s2.
      let remain2 = remain1 - middle; vaddr2 = vaddr1 + middle in
      bindr (if remain2 > 0 then
               check (IsAligned vaddr2 page_size) ''IsAligned(vaddr, page_size_)'' (
               bindr (OnMap onmap vaddr2 page_size s2) (\<lambda>s'. AllocateChunk pr t class_id vaddr2 remain2 s'))
             else Inr s2) (\<lambda>s3.
      let c = caches s3 t class_id in
      Inr (r, set_cache t class_id (c\<lparr>lower_bound := lower_bound c + (sz + rz_size)\<rparr>) s3))))))"

section \<open>Deallocation\<close>

text \<open>A handle with \<^verbatim>\<open>remove\<close> set takes the entry out of the map; the value is null if there was none.\<close>

definition DeallocateChunk :: "nat \<Rightarrow> uptr \<Rightarrow> uptr \<Rightarrow> uptr \<Rightarrow> 's ast \<Rightarrow> 's ast res" where
  "DeallocateChunk t class_id vaddr sz s =
     (let vbase = RoundDownTo vaddr GetPageSizeCached;
          offset = vaddr - vbase;
          vpage = (case Forkmap s vbase of Some v \<Rightarrow> v | None \<Rightarrow> 0);
          ppage = (case Pagemap s vbase of Some p \<Rightarrow> p | None \<Rightarrow> 0);
          s1 = s\<lparr>Forkmap := (Forkmap s)(vbase := None), Pagemap := (Pagemap s)(vbase := None)\<rparr> in
      check (vpage \<noteq> 0) ''vpage != 0'' (
      check (ppage \<noteq> 0) ''ppage != 0'' (
      bindr (vlist_remove ppage vpage s1) (\<lambda>s2.
      Inr (set_free_list t class_id
             (free_list (caches s2 t class_id) @ [\<lparr>fpage = ppage, foffset = offset, fsize = sz\<rparr>]) s2)))))"

definition Deallocate :: "ap \<Rightarrow> nat \<Rightarrow> uptr \<Rightarrow> uptr \<Rightarrow> 's ast \<Rightarrow> 's ast res" where
  "Deallocate pr t class_id p s =
     (let page_size = GetPageSizeCached;
          vaddr0 = p;
          vpage = RoundDownTo vaddr0 page_size;
          offset = vaddr0 - vpage;
          csize = ClassIdToSize pr class_id in
      bindr (RoundUpTo (vaddr0 + csize - vpage) page_size) (\<lambda>sz.
      let first = (if offset \<noteq> 0 then if page_size - offset < csize then page_size - offset else csize else 0) in
      bindr (if offset \<noteq> 0 then DeallocateChunk t class_id vaddr0 first s else Inr s) (\<lambda>s1.
      let remain1 = csize - first; vaddr1 = vaddr0 + first;
          middle = (if remain1 \<ge> page_size then RoundDownTo remain1 page_size else 0);
          remain2 = remain1 - middle; vaddr2 = vaddr1 + middle in
      bindr (if remain2 > 0 then DeallocateChunk t class_id vaddr2 remain2 s1 else Inr s1) (\<lambda>s2.
      let (r, m) = MmapFixedNoAccess vpage sz (avm s2) in Inr (s2\<lparr>avm := m\<rparr>)))))"

end
