(* ===== verification/AliasVirt.thy ===== *)
theory AliasVirt
  imports Aliasing
begin

text \<open>
  The virtual addresses of the aliasing allocator. Each size class has a region, each thread cache cuts
  blocks from slabs of 4 GB that it takes from the region of the class, and nothing is taken back.
  The invariant \<open>virt\<close> says where slabs and blocks lie; its consequence is that no two blocks that
  were ever allocated touch a common page.
\<close>

section \<open>Runs of the allocator\<close>

text \<open>
  The bounds of the caches and regions: the part of the state that decides about addresses. The other
  steps of the operations do not touch it.
\<close>

definition abounds :: "'s ast \<Rightarrow> uptr \<times> (uptr \<Rightarrow> uptr) \<times> (nat \<Rightarrow> uptr \<Rightarrow> uptr \<times> uptr)" where
  "abounds s = (NonConstSpaceBeg s, region_pos s,
     \<lambda>t c. (lower_bound (caches s t c), upper_bound (caches s t c)))"

lemma abounds_set_free_list [simp]: "abounds (set_free_list t c fl s) = abounds s"
  by (auto simp: abounds_def set_free_list_def set_cache_def fun_eq_iff)

lemma abounds_upd [simp]:
  "abounds (s\<lparr>avm := m\<rparr>) = abounds s" "abounds (s\<lparr>client := k\<rparr>) = abounds s"
  "abounds (s\<lparr>heap_next := n\<rparr>) = abounds s" "abounds (s\<lparr>vpage_addr := va\<rparr>) = abounds s"
  "abounds (s\<lparr>vpage_links := vl\<rparr>) = abounds s" "abounds (s\<lparr>ppage_vlist := pv\<rparr>) = abounds s"
  "abounds (s\<lparr>Forkmap := fm\<rparr>) = abounds s" "abounds (s\<lparr>Pagemap := pm\<rparr>) = abounds s"
  by (simp_all add: abounds_def)

lemma InternalAlloc_bounds: "InternalAlloc s = Inr (v, s') \<Longrightarrow> abounds s' = abounds s"
  by (auto simp: InternalAlloc_def split: if_splits)

lemma new_vpage_bounds: "new_vpage r s = Inr (v, s') \<Longrightarrow> abounds s' = abounds s"
  by (auto simp: new_vpage_def res_simps dest: InternalAlloc_bounds)

lemma vlist_push_back_bounds: "vlist_push_back p v s = Inr s' \<Longrightarrow> abounds s' = abounds s"
  by (auto simp: vlist_push_back_def res_simps split: prod.splits)

lemma vlist_remove_bounds: "vlist_remove p v s = Inr s' \<Longrightarrow> abounds s' = abounds s"
  by (auto simp: vlist_remove_def res_simps split: prod.splits)

lemma register_page_bounds [simp]: "abounds (register_page r v p s) = abounds s"
  by (simp add: register_page_def)

lemma MmapAliasing_bounds: "MmapAliasing va n s = (r, s') \<Longrightarrow> abounds s' = abounds s"
  by (auto simp: MmapAliasing_def split: prod.splits)

lemma MremapAliasing_bounds: "MremapAliasing o1 va s = (r, s') \<Longrightarrow> abounds s' = abounds s"
  by (auto simp: MremapAliasing_def split: prod.splits)

lemma OnMap_bounds: "OnMap onmap b n s = Inr s' \<Longrightarrow> abounds s' = abounds s"
  by (auto simp: OnMap_def res_simps)

lemmas bounds_intros = InternalAlloc_bounds new_vpage_bounds vlist_push_back_bounds vlist_remove_bounds
  MmapAliasing_bounds MremapAliasing_bounds OnMap_bounds

lemma reuse_chunk_bounds: "reuse_chunk f vb s = Inr s' \<Longrightarrow> abounds s' = abounds s"
  by (auto simp: reuse_chunk_def Let_def res_simps split: if_splits prod.splits dest!: bounds_intros)

lemma fresh_chunk_bounds: "fresh_chunk t c vb off cs s = Inr s' \<Longrightarrow> abounds s' = abounds s"
  by (auto simp: fresh_chunk_def Let_def res_simps split: if_splits prod.splits dest!: bounds_intros)

lemma AllocateChunk_bounds: "AllocateChunk pr t c va n s = Inr s' \<Longrightarrow> abounds s' = abounds s"
  by (auto simp: AllocateChunk_def Let_def split: option.splits dest: reuse_chunk_bounds fresh_chunk_bounds)

lemma DeallocateChunk_bounds: "DeallocateChunk t c va n s = Inr s' \<Longrightarrow> abounds s' = abounds s"
  by (auto simp: DeallocateChunk_def Let_def res_simps dest: vlist_remove_bounds)

text \<open>The stages of the two operations: a step that runs only under a condition keeps what the step keeps.\<close>

lemma bounds_if:
  "(if b then f else Inr s) = Inr s' \<Longrightarrow> (f = Inr s' \<Longrightarrow> abounds s' = abounds s) \<Longrightarrow> abounds s' = abounds s"
  by (cases b) auto

lemma Deallocate_bounds: "Deallocate pr t c p s = Inr s' \<Longrightarrow> abounds s' = abounds s"
  unfolding Deallocate_def Let_def bindr_Inr case_prod_unfold
  by (elim exE conjE, drule_tac bounds_if, erule DeallocateChunk_bounds,
      drule_tac bounds_if, erule DeallocateChunk_bounds) auto

text \<open>What an allocation does to the bounds, beyond the refill: it moves the lower bound of its cache.\<close>

lemma head_stage_bounds:
  "bindr (AllocateChunk pr t c va n s) (\<lambda>s'. OnMap onmap b k s') = Inr s1 \<Longrightarrow> abounds s1 = abounds s"
  by (auto simp: res_simps dest!: AllocateChunk_bounds OnMap_bounds)

lemma middle_stage_bounds:
  "check P msg (bindr (OnMap onmap b k s) (\<lambda>s'. bindr (MmapFixedOrDie b k (avm s'))
      (\<lambda>(p, m). Inr (s'\<lparr>avm := m\<rparr>)))) = Inr s1 \<Longrightarrow> abounds s1 = abounds s"
  by (auto simp: res_simps dest!: OnMap_bounds split: prod.splits)

lemma tail_stage_bounds:
  "check P msg (bindr (OnMap onmap b k s) (\<lambda>s'. AllocateChunk pr t c va n s')) = Inr s1
    \<Longrightarrow> abounds s1 = abounds s"
  by (auto simp: res_simps dest!: AllocateChunk_bounds OnMap_bounds)

lemma Allocate_bounds:
  assumes "Allocate pr onmap t c rz s = Inr (p, s')"
  obtains s0 s3 where "Refill pr t c (Size (SizeMap pr) c) s = Inr s0" "p = lower_bound (caches s0 t c)"
    "abounds s3 = abounds s0"
    "s' = set_cache t c ((caches s3 t c)\<lparr>lower_bound := lower_bound (caches s3 t c) + (Size (SizeMap pr) c + rz)\<rparr>) s3"
  using assms unfolding Allocate_def Let_def ClassIdToSize_def bindr_Inr sum.inject prod.inject
  apply (elim exE conjE)
  apply (drule bounds_if, erule head_stage_bounds)
  apply (drule bounds_if, erule middle_stage_bounds)
  apply (drule bounds_if, erule tail_stage_bounds)
  subgoal for x xa xb xc by (rule that [of x xc]) simp_all
  done

section \<open>Blocks\<close>

text \<open>A block is the pointer an allocation returned with its class.\<close>

type_synonym block = "uptr \<times> uptr"

definition valid_class :: "uptr \<Rightarrow> bool" where
  "valid_class c \<longleftrightarrow> 0 < c \<and> c < kNumClasses DefaultSizeClassMap"

definition csize :: "uptr \<Rightarrow> nat" where
  "csize c = unat (Size DefaultSizeClassMap c)"

fun block_pages :: "block \<Rightarrow> nat set" where
  "block_pages (p, c) = {unat p div 4096 .. (unat p + csize c - 1) div 4096}"

lemma num_classes_default: "num_classes DefaultSizeClassMap = 53"
  by (simp add: num_classes_def mid_class_def kS_def DefaultSizeClassMap_def)

lemma kNumClasses_default: "kNumClasses DefaultSizeClassMap = 53"
  using unat_kNumClasses [OF default_wf] by (simp add: num_classes_default word_unat_eq_iff)

lemma valid_class_nat: "valid_class c \<longleftrightarrow> 0 < unat c \<and> unat c < 53"
  by (auto simp: valid_class_def kNumClasses_default word_less_nat_alt)

lemma kRegionSize_AP64: "kRegionSize AP64 = 0x10000000000"
  unfolding kRegionSize_def AP64_def
  by (simp add: kNumClassesRounded_def kNumClasses_default)

lemma csize_bounds:
  assumes "valid_class c"
  shows "16 \<le> csize c" "csize c \<le> 2 ^ 17"
proof -
  have c: "unat c < num_classes DefaultSizeClassMap" using assms by (simp add: valid_class_nat num_classes_default)
  have cs: "csize c = sc_size DefaultSizeClassMap (unat c)" unfolding csize_def by (rule unat_Size [OF default_wf c])
  have "csize c \<le> 2 ^ kMaxSizeLog DefaultSizeClassMap" unfolding cs by (rule sc_size_bound [OF default_wf c])
  then show "csize c \<le> 2 ^ 17" by (simp add: DefaultSizeClassMap_def)
  have "sc_size DefaultSizeClassMap 1 \<le> csize c"
    unfolding cs using assms sc_size_mono [OF default_wf, of 1 "unat c"]
    by (cases "unat c = 1") (auto simp: valid_class_nat)
  then show "16 \<le> csize c" by (simp add: sc_size_def DefaultSizeClassMap_def)
qed

section \<open>The invariant of slabs and blocks\<close>

text \<open>
  \<open>rbeg b c\<close>: the begin of the region of class \<open>c\<close>, for a space that begins at \<open>b\<close>. \<open>in_slab\<close> says that an
  upper bound is the end of a slab of the region that was handed out.
\<close>

definition rbeg :: "uptr \<Rightarrow> uptr \<Rightarrow> nat" where
  "rbeg b c = unat b + 2 ^ 40 * unat c"

definition space_ok :: "uptr \<Rightarrow> bool" where
  "space_ok b \<longleftrightarrow> 0 < unat b \<and> unat b mod 4096 = 0 \<and> unat b + 2 ^ 46 \<le> 2 ^ 47"

definition pos_ok :: "uptr \<Rightarrow> uptr \<Rightarrow> uptr \<Rightarrow> bool" where
  "pos_ok b c pos \<longleftrightarrow> pos = 0 \<or> (\<exists>k \<le> 256. unat pos = rbeg b c + k * 2 ^ 32)"

definition slab_ok :: "uptr \<Rightarrow> uptr \<Rightarrow> uptr \<Rightarrow> uptr \<Rightarrow> uptr \<Rightarrow> bool" where
  "slab_ok b c pos lo up \<longleftrightarrow> lo = 0 \<and> up = 0 \<or>
     pos \<noteq> 0 \<and> (\<exists>k < 256. unat up = rbeg b c + (k + 1) * 2 ^ 32 \<and> unat up \<le> unat pos
       \<and> rbeg b c + k * 2 ^ 32 \<le> unat lo \<and> unat lo \<le> unat up + 2 ^ 21)"

definition block_ok :: "uptr \<Rightarrow> (uptr \<Rightarrow> uptr) \<Rightarrow> (nat \<Rightarrow> uptr \<Rightarrow> uptr \<times> uptr) \<Rightarrow> block \<Rightarrow> bool" where
  "block_ok b rp bd = (\<lambda>(p, c). valid_class c \<and> rp c \<noteq> 0 \<and>
     (\<exists>k < 256. rbeg b c + k * 2 ^ 32 \<le> unat p \<and> unat p + csize c \<le> rbeg b c + (k + 1) * 2 ^ 32
        \<and> rbeg b c + (k + 1) * 2 ^ 32 \<le> unat (rp c)
        \<and> (\<forall>t. unat (snd (bd t c)) = rbeg b c + (k + 1) * 2 ^ 32 \<longrightarrow>
             (unat p + csize c - 1) div 4096 < unat (fst (bd t c)) div 4096)))"

definition page_disjoint :: "block \<Rightarrow> block \<Rightarrow> bool" where
  "page_disjoint x y \<longleftrightarrow> block_pages x \<inter> block_pages y = {}"

definition virtb :: "uptr \<Rightarrow> (uptr \<Rightarrow> uptr) \<Rightarrow> (nat \<Rightarrow> uptr \<Rightarrow> uptr \<times> uptr) \<Rightarrow> block list \<Rightarrow> bool" where
  "virtb b rp bd bs \<longleftrightarrow>
     space_ok b \<and>
     (\<forall>c. valid_class c \<longrightarrow> pos_ok b c (rp c)) \<and>
     (\<forall>t c. valid_class c \<longrightarrow> slab_ok b c (rp c) (fst (bd t c)) (snd (bd t c))) \<and>
     (\<forall>t t' c. valid_class c \<longrightarrow> snd (bd t c) = snd (bd t' c) \<longrightarrow> snd (bd t c) \<noteq> 0 \<longrightarrow> t = t') \<and>
     (\<forall>x \<in> set bs. block_ok b rp bd x) \<and> sorted_wrt page_disjoint bs"

definition virt :: "'s ast \<Rightarrow> block list \<Rightarrow> bool" where
  "virt s bs \<longleftrightarrow> (case abounds s of (b, rp, bd) \<Rightarrow> virtb b rp bd bs)"

lemma virtbI:
  assumes "space_ok b" "\<And>c. valid_class c \<Longrightarrow> pos_ok b c (rp c)"
    "\<And>t c. valid_class c \<Longrightarrow> slab_ok b c (rp c) (fst (bd t c)) (snd (bd t c))"
    "\<And>t t' c. valid_class c \<Longrightarrow> snd (bd t c) = snd (bd t' c) \<Longrightarrow> snd (bd t c) \<noteq> 0 \<Longrightarrow> t = t'"
    "\<And>p c. (p, c) \<in> set bs \<Longrightarrow> block_ok b rp bd (p, c)" "sorted_wrt page_disjoint bs"
  shows "virtb b rp bd bs"
  unfolding virtb_def using assms(1,2,3,5,6) by (intro conjI ballI allI impI) (auto intro: assms(4))

lemma virt_bounds: "abounds s = abounds s' \<Longrightarrow> virt s bs = virt s' bs"
  by (simp add: virt_def)

lemma region_begin:
  assumes "space_ok b" and "unat c \<le> 53" and "NonConstSpaceBeg s = b"
  shows "unat (GetRegionBeginBySizeClass AP64 s c) = rbeg b c"
proof -
  have sp: "SpaceBeg AP64 s = b"
    using assms(3) by (simp add: SpaceBeg_def kUsingConstantSpaceBeg_def AP64_def)
  have "2 ^ 40 * unat c \<le> 2 ^ 40 * 53" using assms(2) by simp
  then have m: "unat (0x10000000000 * c) = 2 ^ 40 * unat c"
    by (simp add: unat_word_ariths)
  show ?thesis
    using assms(1,2) by (simp add: GetRegionBeginBySizeClass_def sp kRegionSize_AP64 rbeg_def)
      (subst unat_add_nowrap, simp_all add: m space_ok_def)
qed

lemma unat_kPopulateSize: "unat kPopulateSize = 2 ^ 32"
  by (simp add: kPopulateSize_def push_bit_eq_mult unat_pow2)

lemma rbeg_bound: "space_ok b \<Longrightarrow> unat c \<le> 53 \<Longrightarrow> rbeg b c \<le> 2 ^ 47 - 2 ^ 40"
  by (auto simp: space_ok_def rbeg_def)

lemma rbeg_Suc: "valid_class c \<Longrightarrow> rbeg b (c + 1) = rbeg b c + 2 ^ 40"
  by (auto simp: rbeg_def valid_class_nat unat_add_nowrap)

text \<open>What a refill does to the bounds.\<close>

lemma Refill_bounds:
  assumes "Refill AP64 t c sz s = Inr s0"
  obtains "s0 = s" "\<not> sz + lower_bound (caches s t c) > upper_bound (caches s t c)"
  | pos where "pos = (if region_pos s c = 0 then GetRegionBeginBySizeClass AP64 s c else region_pos s c)"
      "pos < GetRegionBeginBySizeClass AP64 s (c + 1)"
      "abounds s0 = (NonConstSpaceBeg s, (region_pos s)(c := pos + kPopulateSize),
         (\<lambda>t' c'. if t' = t \<and> c' = c then (pos, pos + kPopulateSize)
           else (lower_bound (caches s t' c'), upper_bound (caches s t' c'))))"
proof (cases "sz + lower_bound (caches s t c) > upper_bound (caches s t c)")
  case True
  then show ?thesis
    using assms
    by (intro that(2) [of "if region_pos s c = 0 then GetRegionBeginBySizeClass AP64 s c else region_pos s c"])
      (auto simp: Refill_def Let_def res_simps GetFromAllocator_def GetRegionInfo_def set_cache_def abounds_def
        not_le fun_eq_iff split: if_splits)
next
  case False
  then show ?thesis using assms by (intro that(1)) (simp_all add: Refill_def Let_def)
qed

text \<open>A new slab: the position of the region moves past it.\<close>

lemma virtb_slab:
  assumes v: "virtb b rp bd bs" and c: "valid_class c"
    and pos: "unat pos = rbeg b c + k * 2 ^ 32" "k < 256" and rp: "rp c = 0 \<and> k = 0 \<or> rp c = pos"
    and new: "new = pos + kPopulateSize"
  shows "virtb b (rp(c := new)) (\<lambda>t' c'. if t' = t \<and> c' = c then (pos, new) else bd t' c') bs"
proof -
  have sp: "space_ok b" using v by (simp add: virtb_def)
  have c53: "unat c \<le> 53" using c by (simp add: valid_class_nat)
  have kb: "k * 2 ^ 32 + 2 ^ 32 \<le> 2 ^ 40" using pos(2) by simp
  have un: "unat new = rbeg b c + (k + 1) * 2 ^ 32"
    unfolding new using pos(1) kb rbeg_bound [OF sp c53] unat_kPopulateSize
    by (subst unat_bump) (simp_all add: algebra_simps)
  then have nz: "new \<noteq> 0" "unat new \<noteq> 0" by auto
  have upd: "rp c \<noteq> 0 \<Longrightarrow> unat (rp c) = rbeg b c + k * 2 ^ 32" using rp pos(1) by auto
  have slab: "slab_ok b c' (rp c') (fst (bd t' c')) (snd (bd t' c'))" if "valid_class c'" for t' c'
    using v that by (simp add: virtb_def)
  have old: "slab_ok b c new (fst (bd t' c)) (snd (bd t' c))" for t'
    using slab [OF c, of t'] upd un nz unfolding slab_ok_def by fastforce
  have up_less: "unat (snd (bd t' c)) < unat new" for t'
    using slab [OF c, of t'] upd un nz unfolding slab_ok_def by auto
  have s1: "slab_ok b c new pos new"
    unfolding slab_ok_def using nz un pos by (intro disjI2 conjI exI [of _ k]) auto
  have s2: "pos_ok b c new"
    unfolding pos_ok_def using un pos(2) by (intro disjI2 exI [of _ "k + 1"]) simp
  have s3: "block_ok b (rp(c := new)) (\<lambda>t' c'. if t' = t \<and> c' = c then (pos, new) else bd t' c') (p, c')"
    if "(p, c') \<in> set bs" for p c'
  proof -
    have bo: "block_ok b rp bd (p, c')" using v that by (auto simp: virtb_def)
    show ?thesis
    proof (cases "c' = c")
      case True
      from bo [unfolded block_ok_def prod.case] obtain j where j: "valid_class c'" "rp c' \<noteq> 0" "j < 256"
        "rbeg b c' + j * 2 ^ 32 \<le> unat p" "unat p + csize c' \<le> rbeg b c' + (j + 1) * 2 ^ 32"
        "rbeg b c' + (j + 1) * 2 ^ 32 \<le> unat (rp c')"
        and pg: "\<And>t. unat (snd (bd t c')) = rbeg b c' + (j + 1) * 2 ^ 32 \<Longrightarrow>
             (unat p + csize c' - 1) div 4096 < unat (fst (bd t c')) div 4096"
        by blast
      have le: "rbeg b c + (j + 1) * 2 ^ 32 \<le> rbeg b c + k * 2 ^ 32" using j upd True by simp
      show ?thesis unfolding block_ok_def prod.case
        using j pg le un nz True by (intro conjI exI [of _ j]) (auto simp: algebra_simps)
    next
      case False
      then show ?thesis using bo by (simp add: block_ok_def)
    qed
  qed
  have s4: "pos_ok b c' (rp c')" if "valid_class c'" for c' using v that by (simp add: virtb_def)
  have s5: "t1 = t2"
    if "valid_class c'" "snd (if t1 = t \<and> c' = c then (pos, new) else bd t1 c') = snd (if t2 = t \<and> c' = c then (pos, new) else bd t2 c')"
      "snd (if t1 = t \<and> c' = c then (pos, new) else bd t1 c') \<noteq> 0" for t1 t2 c'
  proof -
    have "snd (bd t' c) \<noteq> new" for t' using up_less [of t'] by auto
    moreover have "snd (bd t1 c') = snd (bd t2 c') \<Longrightarrow> snd (bd t1 c') \<noteq> 0 \<Longrightarrow> t1 = t2"
      using v \<open>valid_class c'\<close> unfolding virtb_def by blast
    ultimately show ?thesis using that by (auto split: if_splits)
  qed
  show ?thesis
  proof (rule virtbI [OF sp _ _ s5 s3])
    show "pos_ok b c' ((rp(c := new)) c')" if "valid_class c'" for c'
      using s2 s4 [OF that] by simp
    show "slab_ok b c' ((rp(c := new)) c') (fst (if t' = t \<and> c' = c then (pos, new) else bd t' c'))
        (snd (if t' = t \<and> c' = c then (pos, new) else bd t' c'))" if "valid_class c'" for t' c'
      using s1 old [of t'] slab [OF that, of t'] by (cases "c' = c") auto
    show "sorted_wrt page_disjoint bs" using v by (simp add: virtb_def)
  qed
qed

text \<open>A new block: the lower bound of its cache moves past the block and the distance \<open>rz\<close> after it.\<close>

definition rz_ok :: "uptr \<Rightarrow> bool" where
  "rz_ok rz \<longleftrightarrow> 4096 \<le> unat rz \<and> unat rz \<le> 2 ^ 20"

definition has_room :: "uptr \<Rightarrow> (uptr \<Rightarrow> uptr) \<Rightarrow> (nat \<Rightarrow> uptr \<Rightarrow> uptr \<times> uptr) \<Rightarrow> nat \<Rightarrow> uptr \<Rightarrow> nat \<Rightarrow> bool" where
  "has_room b rp bd t c k \<longleftrightarrow> k < 256 \<and> rp c \<noteq> 0
     \<and> unat (snd (bd t c)) = rbeg b c + (k + 1) * 2 ^ 32 \<and> unat (snd (bd t c)) \<le> unat (rp c)
     \<and> rbeg b c + k * 2 ^ 32 \<le> unat (fst (bd t c))
     \<and> unat (fst (bd t c)) + csize c \<le> unat (snd (bd t c))"

lemma block_pages_within:
  assumes "4096 dvd l" "4096 dvd u" "l \<le> unat p" "unat p + csize c \<le> u" "0 < csize c"
  shows "block_pages (p, c) \<subseteq> {l div 4096 ..< u div 4096}"
proof
  fix q assume "q \<in> block_pages (p, c)"
  then have q: "unat p div 4096 \<le> q" "q \<le> (unat p + csize c - 1) div 4096" by auto
  have "l div 4096 \<le> unat p div 4096" using assms(3) by (rule div_le_mono)
  moreover have "(unat p + csize c - 1) div 4096 < u div 4096"
    using assms(2,4,5) by (auto elim!: dvdE simp: div_less_iff_less_mult)
  ultimately show "q \<in> {l div 4096 ..< u div 4096}" using q by auto
qed

lemma rbeg_dvd: "space_ok b \<Longrightarrow> 4096 dvd rbeg b c + k * 2 ^ 32"
  unfolding space_ok_def rbeg_def by (intro dvd_add) (auto simp: mod_eq_0_iff_dvd intro: dvd_mult2 dvd_mult)

lemma intervals_disjoint:
  "A \<subseteq> {a ..< b} \<Longrightarrow> B \<subseteq> {c ..< d} \<Longrightarrow> b \<le> c \<or> d \<le> (a::nat) \<Longrightarrow> A \<inter> B = {}"
  by fastforce

lemma slabs_apart:
  assumes "c \<noteq> c' \<or> k \<noteq> k'" "k < 256" "k' < 256"
  shows "rbeg b c + (k + 1) * 2 ^ 32 \<le> rbeg b c' + k' * 2 ^ 32
    \<or> rbeg b c' + (k' + 1) * 2 ^ 32 \<le> rbeg b c + k * 2 ^ 32"
proof (cases "c = c'")
  case True
  then show ?thesis using assms unfolding rbeg_def by auto
next
  case False
  then have "unat c < unat c' \<or> unat c' < unat c" by (metis linorder_neqE_nat word_unat_eq_iff)
  then show ?thesis
  proof
    assume "unat c < unat c'"
    then have "2 ^ 40 * unat c + 2 ^ 40 \<le> 2 ^ 40 * unat c'" by simp
    then show ?thesis using assms(2) unfolding rbeg_def by simp
  next
    assume "unat c' < unat c"
    then have "2 ^ 40 * unat c' + 2 ^ 40 \<le> 2 ^ 40 * unat c" by simp
    then show ?thesis using assms(3) unfolding rbeg_def by simp
  qed
qed

lemma new_block_disjoint:
  assumes sp: "space_ok b" and bo: "block_ok b rp bd (p, c')" and r: "has_room b rp bd t c k"
    and c: "valid_class c"
  shows "page_disjoint (fst (bd t c), c) (p, c')"
proof -
  from bo obtain j where j: "valid_class c'" "j < 256" "rbeg b c' + j * 2 ^ 32 \<le> unat p"
      "unat p + csize c' \<le> rbeg b c' + (j + 1) * 2 ^ 32"
    and pg: "unat (snd (bd t c')) = rbeg b c' + (j + 1) * 2 ^ 32 \<Longrightarrow>
             (unat p + csize c' - 1) div 4096 < unat (fst (bd t c')) div 4096"
    unfolding block_ok_def by blast
  show ?thesis
  proof (cases "c = c' \<and> k = j")
    case True
    then have "(unat p + csize c' - 1) div 4096 < unat (fst (bd t c)) div 4096"
      using pg r by (simp add: has_room_def)
    then show ?thesis unfolding page_disjoint_def by auto
  next
    case False
    have p: "0 < csize c" "0 < csize c'" using csize_bounds(1) c j(1) by (auto dest: csize_bounds(1))
    have "block_pages (fst (bd t c), c) \<subseteq> {(rbeg b c + k * 2 ^ 32) div 4096 ..< (rbeg b c + (k + 1) * 2 ^ 32) div 4096}"
      using r p by (intro block_pages_within rbeg_dvd [OF sp]) (simp_all add: has_room_def)
    moreover have "block_pages (p, c') \<subseteq> {(rbeg b c' + j * 2 ^ 32) div 4096 ..< (rbeg b c' + (j + 1) * 2 ^ 32) div 4096}"
      using j p by (intro block_pages_within rbeg_dvd [OF sp]) simp_all
    moreover have "k < 256" "c \<noteq> c' \<or> k \<noteq> j" using r False by (auto simp: has_room_def)
    then have "(rbeg b c + (k + 1) * 2 ^ 32) div 4096 \<le> (rbeg b c' + j * 2 ^ 32) div 4096
        \<or> (rbeg b c' + (j + 1) * 2 ^ 32) div 4096 \<le> (rbeg b c + k * 2 ^ 32) div 4096"
      using slabs_apart [of c c' k j b] j(2) div_le_mono by blast
    ultimately show ?thesis
      unfolding page_disjoint_def by (rule intervals_disjoint)
  qed
qed

lemma virtb_bump:
  assumes v: "virtb b rp bd bs" and c: "valid_class c" and rz: "rz_ok rz" and r: "has_room b rp bd t c k"
    and lo: "lo = fst (bd t c) + (Size DefaultSizeClassMap c + rz)"
  shows "virtb b rp (\<lambda>t' c'. if t' = t \<and> c' = c then (lo, snd (bd t c)) else bd t' c') ((fst (bd t c), c) # bs)"
proof -
  let ?bd = "\<lambda>t' c'. if t' = t \<and> c' = c then (lo, snd (bd t c)) else bd t' c'"
  have sp: "space_ok b" using v by (simp add: virtb_def)
  have c53: "unat c \<le> 53" using c by (simp add: valid_class_nat)
  have k: "(k + 1) * 2 ^ 32 \<le> 2 ^ 40" using r by (simp add: has_room_def)
  have up: "unat (snd (bd t c)) \<le> 2 ^ 47" using r k rbeg_bound [OF sp c53] by (simp add: has_room_def)
  have ul: "unat lo = unat (fst (bd t c)) + (csize c + unat rz)"
    unfolding lo csize_def [symmetric] using r up csize_bounds [OF c] rz
    by (subst unat_bump; (subst unat_bump)?) (auto simp: has_room_def rz_ok_def csize_def)
  have snd_bd: "snd (?bd t' c') = snd (bd t' c')" for t' c' by auto
  have slab: "slab_ok b c' (rp c') (fst (bd t' c')) (snd (bd t' c'))" if "valid_class c'" for t' c'
    using v that by (simp add: virtb_def)
  have new: "slab_ok b c (rp c) lo (snd (bd t c))"
    unfolding slab_ok_def using r ul rz by (intro disjI2 conjI exI [of _ k]) (auto simp: has_room_def rz_ok_def)
  have uniq: "snd (bd t1 c') = snd (bd t2 c') \<Longrightarrow> snd (bd t1 c') \<noteq> 0 \<Longrightarrow> t1 = t2" if "valid_class c'" for t1 t2 c'
    using v that unfolding virtb_def by blast
  have pos: "snd (bd t c) \<noteq> 0" "0 < csize c" using r csize_bounds(1) [OF c] by (auto simp: has_room_def)
  have nb: "block_ok b rp ?bd (fst (bd t c), c)"
    unfolding block_ok_def prod.case
  proof (intro conjI exI [of _ k] allI impI)
    fix t' assume t': "unat (snd (?bd t' c)) = rbeg b c + (k + 1) * 2 ^ 32"
    then have "unat (snd (bd t' c)) = unat (snd (bd t c))" unfolding snd_bd using r by (simp add: has_room_def)
    then have "snd (bd t' c) = snd (bd t c)" by (simp add: word_unat_eq_iff)
    then have "t' = t" using uniq [OF c, of t' t] pos by simp
    have "(unat (fst (bd t c)) + csize c - 1) div 4096 < (unat (fst (bd t c)) + csize c - 1 + 4096) div 4096" by simp
    also have "\<dots> \<le> unat lo div 4096" using ul rz pos by (intro div_le_mono) (simp add: rz_ok_def)
    finally show "(unat (fst (bd t c)) + csize c - 1) div 4096 < unat (fst (?bd t' c)) div 4096"
      using \<open>t' = t\<close> by simp
  qed (use r c in \<open>auto simp: has_room_def\<close>)
  have ob: "block_ok b rp ?bd (p, c')" if "(p, c') \<in> set bs" for p c'
  proof -
    have "block_ok b rp bd (p, c')" using v that by (auto simp: virtb_def)
    moreover have "unat (fst (bd t' c')) div 4096 \<le> unat (fst (?bd t' c')) div 4096" for t'
      using ul by (auto intro!: div_le_mono)
    ultimately show ?thesis unfolding block_ok_def prod.case snd_bd by (meson less_le_trans)
  qed
  have dis: "\<forall>y \<in> set bs. page_disjoint (fst (bd t c), c) y"
    using v r c by (auto simp: virtb_def intro: new_block_disjoint)
  show ?thesis
  proof (rule virtbI [OF sp])
    show "slab_ok b c' (rp c') (fst (?bd t' c')) (snd (?bd t' c'))" if "valid_class c'" for t' c'
      using new slab [OF that, of t'] by auto
    show "t1 = t2" if "valid_class c'" "snd (?bd t1 c') = snd (?bd t2 c')" "snd (?bd t1 c') \<noteq> 0" for t1 t2 c'
      using uniq [OF that(1)] that(2,3) unfolding snd_bd by blast
    show "sorted_wrt page_disjoint ((fst (bd t c), c) # bs)" using dis v by (simp add: virtb_def)
    show "block_ok b rp ?bd (p, c')" if "(p, c') \<in> set ((fst (bd t c), c) # bs)" for p c'
      using that nb ob by auto
  qed (use v in \<open>simp add: virtb_def\<close>)
qed

text \<open>The refill leaves room for one block, and an allocation keeps the invariant.\<close>

lemma Size_positive: "valid_class c \<Longrightarrow> 0 < csize c"
  using csize_bounds(1) by fastforce

lemma virt_Refill:
  assumes v: "virt s bs" and c: "valid_class c"
    and R: "Refill AP64 t c (Size DefaultSizeClassMap c) s = Inr s0"
  obtains b rp bd k where "abounds s0 = (b, rp, bd)" "virtb b rp bd bs" "has_room b rp bd t c k"
    "fst (bd t c) = lower_bound (caches s0 t c)"
proof -
  obtain b rp bd where ab: "abounds s = (b, rp, bd)" by (cases "abounds s")
  have vb: "virtb b rp bd bs" using v by (simp add: virt_def ab)
  have c53: "unat c \<le> 53" "unat (c + 1) \<le> 53" using c by (simp_all add: valid_class_nat unat_add_nowrap)
  have sp: "space_ok b" using vb by (simp add: virtb_def)
  have bd: "bd t c = (lower_bound (caches s t c), upper_bound (caches s t c))" "b = NonConstSpaceBeg s" "rp = region_pos s"
    using ab by (auto simp: abounds_def)
  note rb = rbeg_bound [OF sp c53(1)]
  from R show ?thesis
  proof (cases rule: Refill_bounds)
    case 1
    have so: "slab_ok b c (rp c) (lower_bound (caches s t c)) (upper_bound (caches s t c))"
      using vb c unfolding virtb_def bd(1) [symmetric] by (metis bd(1) fst_conv snd_conv)
    have nn: "\<not> upper_bound (caches s t c) < Size DefaultSizeClassMap c + lower_bound (caches s t c)" using 1 by simp
    have nz: "\<not> (lower_bound (caches s t c) = 0 \<and> upper_bound (caches s t c) = 0)"
      using nn Size_positive [OF c] by (auto simp: csize_def word_less_nat_alt)
    with so obtain k where k: "rp c \<noteq> 0" "k < 256" "unat (upper_bound (caches s t c)) = rbeg b c + (k + 1) * 2 ^ 32"
      "unat (upper_bound (caches s t c)) \<le> unat (rp c)" "rbeg b c + k * 2 ^ 32 \<le> unat (lower_bound (caches s t c))"
      "unat (lower_bound (caches s t c)) \<le> unat (upper_bound (caches s t c)) + 2 ^ 21"
      unfolding slab_ok_def by blast
    have "(k + 1) * 2 ^ 32 \<le> 2 ^ 40" using k(2) by simp
    then have "unat (Size DefaultSizeClassMap c + lower_bound (caches s t c)) = csize c + unat (lower_bound (caches s t c))"
      using k(3,6) rb csize_bounds(2) [OF c] by (subst unat_bump) (simp_all add: csize_def)
    then have "csize c + unat (lower_bound (caches s t c)) \<le> unat (upper_bound (caches s t c))"
      using nn by (simp add: word_less_nat_alt)
    then have "has_room b rp bd t c k" unfolding has_room_def bd(1) using k by simp
    then show ?thesis using 1 ab vb bd(1) by (intro that [of b rp bd k]) auto
  next
    case (2 pos)
    define k where "k = (if rp c = 0 then 0 else (unat (rp c) - rbeg b c) div 2 ^ 32)"
    have un: "unat (GetRegionBeginBySizeClass AP64 s c) = rbeg b c"
      "unat (GetRegionBeginBySizeClass AP64 s (c + 1)) = rbeg b c + 2 ^ 40"
      using region_begin [OF sp c53(1) bd(2) [symmetric]] region_begin [OF sp c53(2) bd(2) [symmetric]] rbeg_Suc [OF c]
      by simp_all
    have "pos_ok b c (rp c)" using vb c by (simp add: virtb_def)
    then have k: "unat pos = rbeg b c + k * 2 ^ 32" "k < 256"
      using 2(1,2) un unfolding bd(3) [symmetric] by (auto simp: pos_ok_def k_def word_less_nat_alt split: if_splits)
    have rp: "rp c = 0 \<and> k = 0 \<or> rp c = pos" using 2(1) by (auto simp: k_def bd(3))
    define new where "new = pos + kPopulateSize"
    have kb: "k * 2 ^ 32 + 2 ^ 32 \<le> 2 ^ 40" using k(2) by simp
    have ne: "unat new = rbeg b c + (k + 1) * 2 ^ 32"
      unfolding new_def using k(1) kb rb unat_kPopulateSize by (subst unat_bump) (simp_all add: algebra_simps)
    let ?bd = "\<lambda>t' c'. if t' = t \<and> c' = c then (pos, new) else bd t' c'"
    have ab0: "abounds s0 = (b, rp(c := new), ?bd)"
      using 2(3) ab unfolding new_def by (auto simp: abounds_def fun_eq_iff)
    have "virtb b (rp(c := new)) ?bd bs" by (rule virtb_slab [OF vb c k rp new_def])
    moreover have "has_room b (rp(c := new)) ?bd t c k"
      unfolding has_room_def using ne k csize_bounds(2) [OF c] by auto
    moreover have "fst (?bd t c) = lower_bound (caches s0 t c)"
    proof -
      have "snd (snd (abounds s0)) t c = (pos, new)" by (simp add: ab0)
      then show ?thesis by (simp add: abounds_def)
    qed
    ultimately show ?thesis by (rule that [OF ab0])
  qed
qed

lemma virt_Allocate:
  assumes v: "virt s bs" and c: "valid_class c" and rz: "rz_ok rz"
    and A: "Allocate AP64 onmap t c rz s = Inr (p, s')"
  shows "virt s' ((p, c) # bs)"
proof -
  from Allocate_bounds [OF A] obtain s0 s3 where
    R: "Refill AP64 t c (Size DefaultSizeClassMap c) s = Inr s0" and p: "p = lower_bound (caches s0 t c)"
    and eq: "abounds s3 = abounds s0"
    and s': "s' = set_cache t c ((caches s3 t c)\<lparr>lower_bound := lower_bound (caches s3 t c)
        + (Size DefaultSizeClassMap c + rz)\<rparr>) s3"
    by (auto simp: AP64_def)
  from virt_Refill [OF v c R] obtain b rp bd k where ab: "abounds s0 = (b, rp, bd)"
    and vb: "virtb b rp bd bs" and r: "has_room b rp bd t c k" and f: "fst (bd t c) = lower_bound (caches s0 t c)"
    by blast
  have pc: "(fst (bd t c), c) = (p, c)" using f p by simp
  have a3: "NonConstSpaceBeg s3 = b" "region_pos s3 = rp"
     "bd = (\<lambda>t c. (lower_bound (caches s3 t c), upper_bound (caches s3 t c)))"
    using eq ab by (auto simp: abounds_def)
  have "abounds s' = (b, rp, \<lambda>t' c'. if t' = t \<and> c' = c then
          (fst (bd t c) + (Size DefaultSizeClassMap c + rz), snd (bd t c)) else bd t' c')"
    using a3 unfolding s' by (auto simp: abounds_def set_cache_def fun_eq_iff)
  then show ?thesis
    using virtb_bump [OF vb c rz r refl] unfolding pc by (simp add: virt_def)
qed

lemma virt_same_bounds: "virt s bs \<Longrightarrow> abounds s' = abounds s \<Longrightarrow> virt s' bs"
  by (simp add: virt_def)

lemma virt_start:
  assumes "space_ok (NonConstSpaceBeg s)" "\<And>c. region_pos s c = 0"
    "\<And>t c. lower_bound (caches s t c) = 0 \<and> upper_bound (caches s t c) = 0"
  shows "virt s []"
  using assms by (simp add: virt_def virtb_def abounds_def pos_ok_def slab_ok_def)

end
