(* ===== verification/AliasPhys.thy ===== *)
theory AliasPhys
  imports AliasVirt
begin

text \<open>
  The physical pages of the aliasing allocator. A page object \<^verbatim>\<open>Ppage\<close> stands for the frames its pieces
  are mapped to; the invariant says that the pieces in the free lists and the chunks of the live blocks
  never overlap, and that a frame is seen by the chunks of one page object only. Its consequence is
  that two live blocks never share a byte of physical memory, although their pages may show the same
  frame. Mappings may fail here: the invariant does not assume that \<^verbatim>\<open>mmap\<close> succeeds.
\<close>

section \<open>Pages\<close>

definition base :: "nat \<Rightarrow> uptr" where
  "base q = of_nat (q * 4096)"

lemma unat_base: "q < 2 ^ 52 \<Longrightarrow> unat (base q) = q * 4096"
  unfolding base_def unat_of_nat by (rule mod_less) simp

lemma page_of_base: "q < 2 ^ 52 \<Longrightarrow> page_of (base q) = q"
  by (simp add: page_of_def unat_base)

lemma base_eq_iff: "q < 2 ^ 52 \<Longrightarrow> q' < 2 ^ 52 \<Longrightarrow> base q = base q' \<longleftrightarrow> q = q'"
  by (metis page_of_base)

lemma page_of_bound: "page_of a < 2 ^ 52"
  using unat_lt_64 [of a] by (simp add: page_of_def)

lemma page_size_pow2: "GetPageSizeCached = 2 ^ 12"
  by (simp add: GetPageSizeCached_def)

lemma unat_page_size: "unat GetPageSizeCached = 4096"
  by (simp add: GetPageSizeCached_def)

lemma round_down_page: "RoundDownTo a GetPageSizeCached = base (page_of a)"
proof -
  have "unat (RoundDownTo a GetPageSizeCached) = unat a div 4096 * 4096"
    unfolding page_size_pow2 unat_RoundDownTo by simp
  then show ?thesis
    unfolding word_unat_eq_iff unat_base [OF page_of_bound] by (simp add: page_of_def)
qed

lemma unat_page_offset: "unat (a - base (page_of a)) = unat a mod 4096"
proof -
  have "base (page_of a) \<le> a"
    using RoundDownTo_le [of a 12] unfolding page_size_pow2 [symmetric] round_down_page .
  then have "unat (a - base (page_of a)) = unat a - unat a div 4096 * 4096"
    using unat_base [OF page_of_bound [of a]] by (simp add: unat_sub) (simp add: page_of_def)
  then show ?thesis by (simp add: minus_div_mult_eq_mod)
qed

lemma error_not_base: "internal_iserror r \<Longrightarrow> q < 2 ^ 52 \<Longrightarrow> r \<noteq> base q"
  using error_unaligned [of "base q"] by (auto simp: unat_base)

lemma error_page: "internal_iserror r \<Longrightarrow> 2 ^ 51 \<le> page_of r"
  unfolding internal_iserror_iff page_of_def by (simp add: less_eq_div_iff_mult_less_eq)

section \<open>What the system calls do to the page table\<close>

lemma errors_ok_calls [simp]:
  "errors_ok (next_call m) = errors_ok m" "errors_ok (set_pages p n f m) = errors_ok m"
  "errors_ok (fresh_frames n m) = errors_ok m"
  by (simp_all add: errors_ok_def)

lemma page_count_page: "page_count 0x1000 = 1"
  by (simp add: page_count_def)

lemma set_one_page: "pages (set_pages p 1 f m) = (pages m)(p := f 0)"
  by (auto simp: pages_set_pages fun_eq_iff)

lemma shared_cases:
  assumes "mmap_fixed_shared va 0x1000 m = (r, m')" "errors_ok m"
  obtains "internal_iserror r" "pages m' = pages m" "next_frame m' = next_frame m" "errors_ok m'"
  | "r = va" "pages m' = (pages m)(page_of va := Some (Shared (next_frame m)))"
    "next_frame m' = next_frame m + 1" "errors_ok m'"
proof (cases rule: try_call_cases [OF assms(1) [unfolded mmap_fixed_shared_def] assms(2)])
  case 1
  then show ?thesis using assms(2) by (intro that(1)) simp_all
next
  case 2
  then show ?thesis using assms(2)
    by (intro that(2)) (simp_all add: page_count_page set_one_page [unfolded One_nat_def])
qed

lemma mremap_cases:
  assumes "mremap_dup orig va m = (r, m')" "errors_ok m"
  obtains "internal_iserror r" "pages m' = pages m" "next_frame m' = next_frame m" "errors_ok m'"
  | f where "r = va" "pages m (page_of orig) = Some (Shared f)"
    "pages m' = (pages m)(page_of va := Some (Shared f))" "next_frame m' = next_frame m" "errors_ok m'"
proof (cases "\<exists>f. pages m (page_of orig) = Some (Shared f)")
  case True
  then obtain f where f: "pages m (page_of orig) = Some (Shared f)" by blast
  from assms(1) f have h: "try_call (unat orig mod 4096 = 0 \<and> unat va mod 4096 = 0 \<and> page_of orig \<noteq> page_of va) m
     (\<lambda>m. (va, set_pages (page_of va) 1 (\<lambda>i. Some (Shared f)) m)) = (r, m')"
    by (simp add: mremap_dup_def)
  show ?thesis
  proof (cases rule: try_call_cases [OF h assms(2)])
    case 1
    then show ?thesis using assms(2) by (intro that(1)) simp_all
  next
    case 2
    then show ?thesis using assms(2) f by (intro that(2) [of f]) (simp_all add: set_one_page [unfolded One_nat_def])
  qed
next
  case False
  then have "r = EINVAL" "m' = next_call m"
    using assms(1) by (auto simp: mremap_dup_def split: option.splits mapping.splits)
  then show ?thesis using assms(2) by (intro that(1)) (simp_all add: EINVAL_error)
qed

lemma none_cases:
  assumes "MmapFixedNoAccess va n m = (r, m')" "errors_ok m"
  obtains "internal_iserror r" "pages m' = pages m" "next_frame m' = next_frame m" "errors_ok m'"
  | "r = va" "pages m' = (\<lambda>q. if page_of va \<le> q \<and> q < page_of va + page_count n then Some NoAccess else pages m q)"
    "next_frame m' = next_frame m" "errors_ok m'"
proof (cases rule: try_call_cases [OF assms(1) [unfolded MmapFixedNoAccess_def mmap_fixed_none_def] assms(2)])
  case 1
  then show ?thesis using assms(2) by (intro that(1)) simp_all
next
  case 2
  then show ?thesis using assms(2) by (intro that(2)) (auto simp: pages_set_pages fun_eq_iff)
qed

text \<open>With an aligned address and whole pages the wrapper passes its arguments on.\<close>

lemma MmapFixedOrDie_whole:
  assumes M: "MmapFixedOrDie va n m = Inr (p, m')"
    and n: "unat n = k * 4096" "k < 2 ^ 40" and va: "unat va mod 4096 = 0"
  shows "mmap_fixed_private va n m = (p, m')" "\<not> internal_iserror p" "page_count n = k"
proof -
  have al: "va AND NOT (GetPageSizeCached - 1) = va"
  proof -
    have "IsAligned va (2 ^ 12)" unfolding IsAligned_iff_dvd using va by (simp add: mod_eq_0_iff_dvd)
    from RoundDownTo_id [OF this] show ?thesis unfolding RoundDownTo_def page_size_pow2 .
  qed
  have ru: "RoundUpTo n GetPageSizeCached = Inr n"
  proof -
    have "IsAligned n (2 ^ 12)" unfolding IsAligned_iff_dvd n(1) by simp
    then have "round_up n (2 ^ 12) = n" using n by (intro round_up_id) simp_all
    then show ?thesis
      unfolding page_size_pow2 RoundUpTo_def using IsPowerOfTwo_pow2 [of 12] by simp
  qed
  from M show "mmap_fixed_private va n m = (p, m')" "\<not> internal_iserror p"
    unfolding MmapFixedOrDie_def ru al by (auto split: prod.splits if_splits)
  show "page_count n = k" using n(1) by (simp add: page_count_def)
qed

lemma private_cases:
  assumes M: "MmapFixedOrDie va n m = Inr (p, m')" and e: "errors_ok m"
    and n: "unat n = k * 4096" "k < 2 ^ 40" and va: "unat va mod 4096 = 0"
  shows "pages m' = (\<lambda>q. if page_of va \<le> q \<and> q < page_of va + k
            then Some (Private (next_frame m + (q - page_of va))) else pages m q)"
    "next_frame m' = next_frame m + k" "errors_ok m'"
proof -
  note W = MmapFixedOrDie_whole [OF M n va]
  have "(p, m') = (va, set_pages (page_of va) (page_count n) (\<lambda>i. Some (Private (next_frame (next_call m) + i)))
                (fresh_frames (page_count n) (next_call m)))"
    by (cases rule: try_call_cases [OF W(1) [unfolded mmap_fixed_private_def] e]) (use W(2) in auto)
  then show "pages m' = (\<lambda>q. if page_of va \<le> q \<and> q < page_of va + k
            then Some (Private (next_frame m + (q - page_of va))) else pages m q)"
    "next_frame m' = next_frame m + k" "errors_ok m'"
    using e W(3) by (auto simp: pages_set_pages fun_eq_iff)
qed

section \<open>The invariant\<close>

text \<open>
  A piece is a part of a page object. \<open>C\<close> maps the pages of chunks of live blocks to offset and length
  of the chunk, \<open>M\<close> are the whole pages of live blocks, \<open>U\<close> all pages that were ever used and \<open>S\<close> the
  pages of the space. Ghost functions name the page object of a frame (\<open>fo\<close>) and of a \<^verbatim>\<open>Vpage\<close>
  (\<open>no\<close>, 0 for other addresses).
\<close>

type_synonym piece = "uptr \<times> nat \<times> nat"

fun pdisj :: "piece \<Rightarrow> piece \<Rightarrow> bool" where
  "pdisj (p, o1, n1) (p', o2, n2) \<longleftrightarrow> p \<noteq> p' \<or> o1 + n1 \<le> o2 \<or> o2 + n2 \<le> o1"

definition piece_of :: "Freed \<Rightarrow> piece" where
  "piece_of f = (fpage f, unat (foffset f), unat (fsize f))"

abbreviation disj_free :: "Freed \<Rightarrow> Freed \<Rightarrow> bool" where
  "disj_free f g \<equiv> pdisj (piece_of f) (piece_of g)"

definition live_piece :: "(uptr \<Rightarrow> uptr option) \<Rightarrow> (nat \<Rightarrow> (nat \<times> nat) option) \<Rightarrow> nat \<Rightarrow> piece option" where
  "live_piece pm C q = (case (pm (base q), C q) of (Some p, Some (o1, n)) \<Rightarrow> Some (p, o1, n) | _ \<Rightarrow> None)"

text \<open>The page table: frames are numbered below \<open>next_frame\<close> and private frames are seen once.\<close>

definition map_ok :: "nat set \<Rightarrow> nat set \<Rightarrow> nat set \<Rightarrow> vm \<Rightarrow> bool" where
  "map_ok S U M m \<longleftrightarrow> errors_ok m \<and> (\<forall>q \<in> S. q < 2 ^ 51) \<and> U \<subseteq> S \<and> M \<subseteq> U \<and>
     (\<forall>q f. frame_of (pages m q) = Some f \<longrightarrow> f < next_frame m) \<and>
     (\<forall>q q' f. pages m q = Some (Private f) \<longrightarrow> frame_of (pages m q') = Some f \<longrightarrow> q = q') \<and>
     (\<forall>q \<in> M. \<forall>f. pages m q \<noteq> Some (Shared f)) \<and>
     (\<forall>q f. pages m q = Some (Shared f) \<longrightarrow> q \<in> U) \<and>
     (\<forall>q \<in> S - U. frame_of (pages m q) = None)"

text \<open>Nodes: a \<^verbatim>\<open>Vpage\<close> shows frames of its page object, and the lists do not mix page objects.\<close>

definition node_ok :: "nat set \<Rightarrow> (nat \<Rightarrow> uptr) \<Rightarrow> (uptr \<Rightarrow> uptr) \<Rightarrow> uptr \<Rightarrow> vm \<Rightarrow> (uptr \<Rightarrow> uptr) \<Rightarrow> bool" where
  "node_ok U fo no hn m va \<longleftrightarrow>
     (\<forall>x. no x \<noteq> 0 \<longrightarrow> x \<noteq> 0 \<and> x < hn \<and> (page_of (va x) \<in> U \<or> internal_iserror (va x))) \<and>
     (\<forall>x f. no x \<noteq> 0 \<longrightarrow> pages m (page_of (va x)) = Some (Shared f) \<longrightarrow> fo f = no x)"

definition own :: "(uptr \<Rightarrow> uptr) \<Rightarrow> uptr \<Rightarrow> uptr \<Rightarrow> bool" where
  "own no p x \<longleftrightarrow> x = 0 \<or> no x = p"

definition link_ok :: "(uptr \<Rightarrow> uptr) \<Rightarrow> uptr \<Rightarrow> dlinks \<Rightarrow> (uptr \<Rightarrow> lst) \<Rightarrow> bool" where
  "link_ok no hn links vl \<longleftrightarrow> 0 < hn \<and>
     (\<forall>x. no x \<noteq> 0 \<longrightarrow> own no (no x) (dnext links x) \<and> own no (no x) (dprev links x)) \<and>
     (\<forall>p. p \<noteq> 0 \<longrightarrow> own no p (lfirst (vl p)) \<and> own no p (llast (vl p))) \<and>
     (\<forall>x \<ge> hn. dnext links x = 0 \<and> dprev links x = 0 \<and> no x = 0)"

text \<open>The two hash maps at the chunks of live blocks.\<close>

definition reg_ok :: "nat set \<Rightarrow> nat set \<Rightarrow> (nat \<Rightarrow> uptr) \<Rightarrow> (uptr \<Rightarrow> uptr) \<Rightarrow> (nat \<Rightarrow> (nat \<times> nat) option) \<Rightarrow> vm \<Rightarrow>
     (uptr \<Rightarrow> uptr option) \<Rightarrow> (uptr \<Rightarrow> uptr option) \<Rightarrow> bool" where
  "reg_ok S U fo no C m fm pm \<longleftrightarrow> dom C \<subseteq> U \<and>
     (\<forall>q f. C q \<noteq> None \<longrightarrow> pages m q = Some (Shared f) \<longrightarrow> pm (base q) = Some (fo f)) \<and>
     (\<forall>q v p. C q \<noteq> None \<longrightarrow> fm (base q) = Some v \<longrightarrow> pm (base q) = Some p \<longrightarrow> p \<noteq> 0 \<and> no v = p) \<and>
     (\<forall>q \<in> S - U. fm (base q) = None \<and> pm (base q) = None)"

text \<open>The pieces: those in free lists and those of live chunks are apart.\<close>

definition apart :: "(nat \<Rightarrow> uptr \<Rightarrow> Freed list) \<Rightarrow> (uptr \<Rightarrow> uptr option) \<Rightarrow> (nat \<Rightarrow> (nat \<times> nat) option) \<Rightarrow> piece \<Rightarrow> bool" where
  "apart fl pm C x \<longleftrightarrow> (\<forall>t c. \<forall>f \<in> set (fl t c). pdisj x (piece_of f)) \<and>
     (\<forall>q y. live_piece pm C q = Some y \<longrightarrow> pdisj x y)"

definition pieces_ok :: "uptr \<Rightarrow> (nat \<Rightarrow> uptr \<Rightarrow> Freed list) \<Rightarrow> (uptr \<Rightarrow> uptr option) \<Rightarrow> (nat \<Rightarrow> (nat \<times> nat) option) \<Rightarrow> bool" where
  "pieces_ok hn fl pm C \<longleftrightarrow>
     (\<forall>t c. sorted_wrt disj_free (fl t c)) \<and>
     (\<forall>t c t' c'. (t, c) \<noteq> (t', c') \<longrightarrow> (\<forall>f \<in> set (fl t c). \<forall>g \<in> set (fl t' c'). disj_free f g)) \<and>
     (\<forall>q x t c. live_piece pm C q = Some x \<longrightarrow> (\<forall>f \<in> set (fl t c). pdisj x (piece_of f))) \<and>
     (\<forall>q q' x y. q \<noteq> q' \<longrightarrow> live_piece pm C q = Some x \<longrightarrow> live_piece pm C q' = Some y \<longrightarrow> pdisj x y) \<and>
     (\<forall>t c. \<forall>f \<in> set (fl t c). fpage f < hn) \<and> (\<forall>q x. live_piece pm C q = Some x \<longrightarrow> fst x < hn)"

definition free_lists :: "'s ast \<Rightarrow> nat \<Rightarrow> uptr \<Rightarrow> Freed list" where
  "free_lists s t c = free_list (caches s t c)"

record ghost =
  gS :: "nat set"
  gU :: "nat set"
  gM :: "nat set"
  gC :: "nat \<Rightarrow> (nat \<times> nat) option"
  gfo :: "nat \<Rightarrow> uptr"
  gno :: "uptr \<Rightarrow> uptr"

definition phys :: "ghost \<Rightarrow> 's ast \<Rightarrow> bool" where
  "phys g s \<longleftrightarrow> map_ok (gS g) (gU g) (gM g) (avm s) \<and>
     node_ok (gU g) (gfo g) (gno g) (heap_next s) (avm s) (vpage_addr s) \<and>
     link_ok (gno g) (heap_next s) (vpage_links s) (ppage_vlist s) \<and>
     reg_ok (gS g) (gU g) (gfo g) (gno g) (gC g) (avm s) (Forkmap s) (Pagemap s) \<and>
     pieces_ok (heap_next s) (free_lists s) (Pagemap s) (gC g)"

text \<open>The parts of the state that the invariant reads.\<close>

definition pview :: "'s ast \<Rightarrow> vm \<times> uptr \<times> (uptr \<Rightarrow> uptr) \<times> dlinks \<times> (uptr \<Rightarrow> lst) \<times>
    (uptr \<Rightarrow> uptr option) \<times> (uptr \<Rightarrow> uptr option) \<times> (nat \<Rightarrow> uptr \<Rightarrow> Freed list)" where
  "pview s = (avm s, heap_next s, vpage_addr s, vpage_links s, ppage_vlist s, Forkmap s, Pagemap s, free_lists s)"

lemma phys_view: "pview s = pview s' \<Longrightarrow> phys g s = phys g s'"
  by (simp add: pview_def phys_def)

lemma pdisj_sym: "pdisj x y \<Longrightarrow> pdisj y x"
  by (cases x; cases y) auto

section \<open>The lists of mappings\<close>

lemma ownI [intro]: "own no p 0" "no x = p \<Longrightarrow> own no p x"
  by (simp_all add: own_def)

lemma link_okI:
  assumes "0 < hn" "\<And>x. no x \<noteq> 0 \<Longrightarrow> own no (no x) (dnext h x)" "\<And>x. no x \<noteq> 0 \<Longrightarrow> own no (no x) (dprev h x)"
    "\<And>p. p \<noteq> 0 \<Longrightarrow> own no p (lfirst (vl p))" "\<And>p. p \<noteq> 0 \<Longrightarrow> own no p (llast (vl p))"
    "\<And>x. x \<ge> hn \<Longrightarrow> dnext h x = 0 \<and> dprev h x = 0 \<and> no x = 0"
  shows "link_ok no hn h vl"
  using assms by (simp add: link_ok_def)

lemma link_okD:
  assumes "link_ok no hn h vl"
  shows "0 < hn" "no x \<noteq> 0 \<Longrightarrow> own no (no x) (dnext h x)" "no x \<noteq> 0 \<Longrightarrow> own no (no x) (dprev h x)"
    "p \<noteq> 0 \<Longrightarrow> own no p (lfirst (vl p))" "p \<noteq> 0 \<Longrightarrow> own no p (llast (vl p))"
    "x \<ge> hn \<Longrightarrow> dnext h x = 0 \<and> dprev h x = 0 \<and> no x = 0" "no x \<noteq> 0 \<Longrightarrow> x < hn"
  using assms by (auto simp: link_ok_def not_le [symmetric])

lemma link_set_next:
  "link_ok no hn h vl \<Longrightarrow> no x \<noteq> 0 \<Longrightarrow> own no (no x) y \<Longrightarrow> link_ok no hn (set_next x y h) vl"
  by (rule link_okI) (auto dest: link_okD)

lemma link_set_prev:
  "link_ok no hn h vl \<Longrightarrow> no x \<noteq> 0 \<Longrightarrow> own no (no x) y \<Longrightarrow> link_ok no hn (set_prev x y h) vl"
  by (rule link_okI) (auto dest: link_okD)

lemma link_set_list:
  "link_ok no hn h vl \<Longrightarrow> own no p (lfirst l) \<Longrightarrow> own no p (llast l) \<Longrightarrow> link_ok no hn h (vl(p := l))"
  by (rule link_okI) (auto dest: link_okD)

lemma own_nonnull: "own no p x \<Longrightarrow> x \<noteq> 0 \<Longrightarrow> no x = p"
  by (simp add: own_def)

lemma link_push:
  assumes k: "link_ok no hn h vl" and v: "no v = p" "p \<noteq> 0"
    and push: "dl_push_back v (h, vl p) = Inr (h', l')"
  shows "link_ok no hn h' (vl(p := l'))"
proof (cases "dl_empty (vl p)")
  case True
  then have "h' = set_prev v 0 (set_next v 0 h)" "lfirst l' = v" "llast l' = v"
    using push by (auto simp: dl_push_back_def res_simps)
  then show ?thesis
    using k v by (auto intro!: link_set_list link_set_prev link_set_next)
next
  case False
  then have h': "h' = set_next (llast (vl p)) v (set_prev v (llast (vl p)) (set_next v 0 h))"
    "lfirst l' = lfirst (vl p)" "llast l' = v" "llast (vl p) \<noteq> 0"
    using push by (auto simp: dl_push_back_def res_simps)
  have "no (llast (vl p)) = p" using link_okD(5) [OF k v(2)] h'(4) by (rule own_nonnull)
  then show ?thesis
    unfolding h'(1) using k v h'(2,3) link_okD(4) [OF k v(2)]
    by (auto intro!: link_set_list link_set_prev link_set_next)
qed

lemma link_remove:
  assumes k: "link_ok no hn h vl" and v: "no v = p" "p \<noteq> 0"
    and rem: "dl_remove v (h, vl p) = Inr (h', l')"
  shows "link_ok no hn h' (vl(p := l'))"
proof (cases "dl_empty (vl p)")
  case True
  then show ?thesis using k rem by (auto simp: dl_remove_def fun_upd_idem)
next
  case False
  have nx: "own no p (dnext h v)" "own no p (dprev h v)" "own no p (lfirst (vl p))" "own no p (llast (vl p))"
    using link_okD [OF k] v by auto
  note [intro!] = link_set_list link_set_prev link_set_next
  show ?thesis
    using rem False k v nx unfolding dl_remove_def
    by (auto simp: Let_def res_simps own_nonnull split: if_splits)
qed

section \<open>Steps on the page table\<close>

text \<open>
  A page of the space that was never used gets a frame: a new one, which then belongs to the given page
  object, or the frame of a page that shows it already. Or the call fails, and the page is only marked as used.
\<close>

definition gmap :: "nat \<Rightarrow> (nat \<Rightarrow> uptr) \<Rightarrow> ghost \<Rightarrow> ghost" where
  "gmap q fo g = g\<lparr>gU := insert q (gU g), gfo := fo\<rparr>"

lemma gmap_sel [simp]:
  "gS (gmap q fo g) = gS g" "gU (gmap q fo g) = insert q (gU g)" "gM (gmap q fo g) = gM g" "gC (gmap q fo g) = gC g"
  "gfo (gmap q fo g) = fo" "gno (gmap q fo g) = gno g"
  by (simp_all add: gmap_def)

lemma free_lists_upd [simp]:
  "free_lists (s\<lparr>avm := m\<rparr>) = free_lists s" "free_lists (s\<lparr>client := k\<rparr>) = free_lists s"
  "free_lists (s\<lparr>heap_next := n\<rparr>) = free_lists s" "free_lists (s\<lparr>vpage_addr := va\<rparr>) = free_lists s"
  "free_lists (s\<lparr>vpage_links := vl\<rparr>) = free_lists s" "free_lists (s\<lparr>ppage_vlist := pv\<rparr>) = free_lists s"
  "free_lists (s\<lparr>Forkmap := fm\<rparr>) = free_lists s" "free_lists (s\<lparr>Pagemap := pm\<rparr>) = free_lists s"
  by (simp_all add: free_lists_def fun_eq_iff)

lemma map_okD:
  assumes "map_ok S U M m"
  shows "frame_of (pages m q) = Some f \<Longrightarrow> f < next_frame m" "pages m q = Some (Private f) \<Longrightarrow> f < next_frame m"
    "pages m q = Some (Shared f) \<Longrightarrow> f < next_frame m"
    "pages m q = Some (Private f) \<Longrightarrow> frame_of (pages m q') = Some f \<Longrightarrow> q = q'"
    "q \<in> S \<Longrightarrow> q < 2 ^ 51" "q \<in> S \<Longrightarrow> q \<notin> U \<Longrightarrow> frame_of (pages m q) = None" "q \<in> M \<Longrightarrow> pages m q \<noteq> Some (Shared f)"
    "errors_ok m" "U \<subseteq> S" "M \<subseteq> U" "pages m q = Some (Shared f) \<Longrightarrow> q \<in> U"
proof -
  show lt: "frame_of (pages m q) = Some f \<Longrightarrow> f < next_frame m" for q f using assms by (auto simp: map_ok_def)
  show "pages m q = Some (Private f) \<Longrightarrow> f < next_frame m" "pages m q = Some (Shared f) \<Longrightarrow> f < next_frame m"
    using lt [of q f] by simp_all
  show "pages m q = Some (Private f) \<Longrightarrow> frame_of (pages m q') = Some f \<Longrightarrow> q = q'"
    using assms unfolding map_ok_def by blast
qed (use assms in \<open>auto simp: map_ok_def\<close>)

lemma map_okI:
  assumes "errors_ok m" "\<And>q. q \<in> S \<Longrightarrow> q < 2 ^ 51" "U \<subseteq> S" "M \<subseteq> U"
    "\<And>q f. frame_of (pages m q) = Some f \<Longrightarrow> f < next_frame m"
    "\<And>q q' f. pages m q = Some (Private f) \<Longrightarrow> frame_of (pages m q') = Some f \<Longrightarrow> q = q'"
    "\<And>q f. q \<in> M \<Longrightarrow> pages m q \<noteq> Some (Shared f)" "\<And>q. q \<in> S \<Longrightarrow> q \<notin> U \<Longrightarrow> frame_of (pages m q) = None"
    "\<And>q f. pages m q = Some (Shared f) \<Longrightarrow> q \<in> U"
  shows "map_ok S U M m"
  unfolding map_ok_def using assms(1-5,7,8,9) by (auto intro: assms(6))

lemma phys_unmapped:
  assumes "phys g s" "q \<in> gS g - gU g" "pages m' = pages (avm s)" "next_frame m' = next_frame (avm s)" "errors_ok m'"
  shows "phys (gmap q (gfo g) g) (s\<lparr>avm := m'\<rparr>)"
proof -
  have "map_ok (gS g) (insert q (gU g)) (gM g) m'"
    using assms by (auto simp: phys_def map_ok_def)
  moreover have "node_ok (insert q (gU g)) (gfo g) (gno g) (heap_next s) m' (vpage_addr s)"
    using assms by (auto simp: phys_def node_ok_def)
  moreover have "reg_ok (gS g) (insert q (gU g)) (gfo g) (gno g) (gC g) m' (Forkmap s) (Pagemap s)"
    using assms by (auto simp: phys_def reg_ok_def)
  ultimately show ?thesis using assms(1) by (simp add: phys_def)
qed

lemma map_ok_shared:
  assumes "map_ok S U M m" "q \<in> S - U" "pages m' = (pages m)(q := Some (Shared f))"
    "next_frame m \<le> next_frame m'" "errors_ok m'" "f < next_frame m'"
    "f = next_frame m \<or> pages m q0 = Some (Shared f)"
  shows "map_ok S (insert q U) M m'"
proof (rule map_okI)
  note D = map_okD [OF assms(1)]
  show "q1 = q2" if p: "pages m' q1 = Some (Private f')" "frame_of (pages m' q2) = Some f'" for q1 q2 f'
  proof -
    have p1: "pages m q1 = Some (Private f')" using p assms(3) by (auto split: if_splits)
    show "q1 = q2"
    proof (cases "q2 = q")
      case True
      then have "f' = f" using p(2) assms(3) by simp
      then have f': "pages m q0 = Some (Shared f')" using D(2) [OF p1] assms(7) by simp
      then have "q1 = q0" by (intro D(4) [OF p1]) simp
      then show ?thesis using p1 f' by simp
    next
      case False
      then show ?thesis using p(2) D(4) [OF p1] assms(3) by simp
    qed
  qed
  show "f' < next_frame m'" if "frame_of (pages m' q1) = Some f'" for q1 f'
    using that D(1) [of q1 f'] assms by (auto split: if_splits)
  show "pages m' q1 \<noteq> Some (Shared f')" if "q1 \<in> M" for q1 f'
    using that D(7,10) assms(2,3) by auto
  show "frame_of (pages m' q1) = None" if "q1 \<in> S" "q1 \<notin> insert q U" for q1
    using that D(6) assms(3) by simp
  show "q1 \<in> insert q U" if "pages m' q1 = Some (Shared f')" for q1 f'
    using that D(11) assms(3) by (auto split: if_splits)
qed (use assms map_okD [OF assms(1)] in auto)

lemma phys_mapped:
  assumes P: "phys g s" and q: "q \<in> gS g - gU g" and m': "pages m' = (pages (avm s))(q := Some (Shared f))"
    "next_frame (avm s) \<le> next_frame m'" "errors_ok m'" "f < next_frame m'"
    and f: "f = next_frame (avm s) \<and> fo = (gfo g)(f := p) \<or> pages (avm s) old = Some (Shared f) \<and> fo = gfo g"
  shows "phys (gmap q fo g) (s\<lparr>avm := m'\<rparr>)"
proof -
  have mo: "map_ok (gS g) (gU g) (gM g) (avm s)" using P by (simp add: phys_def)
  have fo: "fo f' = gfo g f'" if "pages (avm s) q' = Some (Shared f')" for q' f'
    using map_okD(3) [OF mo that] f by auto
  have q51: "q < 2 ^ 51" using q map_okD(5) [OF mo] by blast
  have other: "page_of (vpage_addr s x) \<noteq> q" if "gno g x \<noteq> 0" for x
  proof -
    have "page_of (vpage_addr s x) \<in> gU g \<or> 2 ^ 51 \<le> page_of (vpage_addr s x)"
      using P that error_page unfolding phys_def node_ok_def by blast
    then show ?thesis using q q51 by auto
  qed
  have "map_ok (gS g) (insert q (gU g)) (gM g) m'"
    using map_ok_shared [OF mo q m'] f by auto
  moreover have "node_ok (insert q (gU g)) fo (gno g) (heap_next s) m' (vpage_addr s)"
    using P other fo m'(1) by (auto simp: phys_def node_ok_def)
  moreover have "reg_ok (gS g) (insert q (gU g)) fo (gno g) (gC g) m' (Forkmap s) (Pagemap s)"
  proof -
    have "gC g q = None" using P q by (auto simp: phys_def reg_ok_def)
    then show ?thesis using P fo m'(1) by (auto simp: phys_def reg_ok_def)
  qed
  ultimately show ?thesis using P by (simp add: phys_def)
qed

text \<open>Whole pages of a block: private frames that nothing else shows.\<close>

definition gmiddle :: "nat set \<Rightarrow> ghost \<Rightarrow> ghost" where
  "gmiddle Q g = g\<lparr>gU := gU g \<union> Q, gM := gM g \<union> Q\<rparr>"

lemma gmiddle_sel [simp]:
  "gS (gmiddle Q g) = gS g" "gU (gmiddle Q g) = gU g \<union> Q" "gM (gmiddle Q g) = gM g \<union> Q" "gC (gmiddle Q g) = gC g"
  "gfo (gmiddle Q g) = gfo g" "gno (gmiddle Q g) = gno g"
  by (simp_all add: gmiddle_def)

lemma phys_middle:
  assumes P: "phys g s" and q: "{q0 ..< q0 + k} \<subseteq> gS g - gU g"
    and m': "pages m' = (\<lambda>q. if q0 \<le> q \<and> q < q0 + k
            then Some (Private (next_frame (avm s) + (q - q0))) else pages (avm s) q)"
    "next_frame m' = next_frame (avm s) + k" "errors_ok m'"
  shows "phys (gmiddle {q0 ..< q0 + k} g) (s\<lparr>avm := m'\<rparr>)"
proof -
  let ?Q = "{q0 ..< q0 + k}"
  have mo: "map_ok (gS g) (gU g) (gM g) (avm s)" using P by (simp add: phys_def)
  have lt: "frame_of (pages (avm s) q) = Some f \<Longrightarrow> f < next_frame (avm s)" for q f
    using mo by (auto simp: map_ok_def)
  have pv: "pages (avm s) q = Some (Private f) \<Longrightarrow> frame_of (pages (avm s) q') = Some f \<Longrightarrow> q = q'" for q q' f
    using mo by (auto simp: map_ok_def)
  have old: "pages m' x = pages (avm s) x" if "x \<notin> ?Q" for x using that m'(1) by auto
  have new: "pages m' x = Some (Private (next_frame (avm s) + (x - q0)))" if "x \<in> ?Q" for x using that m'(1) by auto
  have QU: "x \<notin> ?Q" if "x \<in> gU g" for x using that q by auto
  have "map_ok (gS g) (gU g \<union> ?Q) (gM g \<union> ?Q) m'"
  proof (rule map_okI)
    show "a = b" if p: "pages m' a = Some (Private f)" "frame_of (pages m' b) = Some f" for a b f
    proof (cases "a \<in> ?Q")
      case True
      then have f: "f = next_frame (avm s) + (a - q0)" using p(1) new by simp
      then have "b \<in> ?Q" using p(2) old [of b] lt [of b f] by fastforce
      then show ?thesis using True f p(2) new [of b] by auto
    next
      case False
      then have pa: "pages (avm s) a = Some (Private f)" using p(1) old by simp
      then have "f < next_frame (avm s)" using lt [of a f] by simp
      then have "b \<notin> ?Q" using p(2) new [of b] by auto
      then show ?thesis using p(2) old [of b] pv [OF pa] by simp
    qed
    show "f < next_frame m'" if "frame_of (pages m' a) = Some f" for a f
      using that old [of a] new [of a] lt [of a f] m'(2) by (cases "a \<in> ?Q") auto
    show "pages m' a \<noteq> Some (Shared f)" if "a \<in> gM g \<union> ?Q" for a f
      using that old [of a] new [of a] map_okD(7) [OF mo, of a f] by (cases "a \<in> ?Q") auto
    show "frame_of (pages m' a) = None" if "a \<in> gS g" "a \<notin> gU g \<union> ?Q" for a
      using that old [of a] map_okD(6) [OF mo] by simp
    show "a \<in> gU g \<union> ?Q" if "pages m' a = Some (Shared f)" for a f
      using that old [of a] map_okD(11) [OF mo, of a f] by (cases "a \<in> ?Q") auto
  qed (use map_okD [OF mo] q m'(3) in auto)
  moreover have "node_ok (gU g \<union> ?Q) (gfo g) (gno g) (heap_next s) m' (vpage_addr s)"
    using P m'(1) by (auto simp: phys_def node_ok_def split: if_splits)
  moreover have "reg_ok (gS g) (gU g \<union> ?Q) (gfo g) (gno g) (gC g) m' (Forkmap s) (Pagemap s)"
    using P m'(1) by (auto simp: phys_def reg_ok_def split: if_splits)
  ultimately show ?thesis using P by (simp add: phys_def)
qed

text \<open>Taking access away keeps everything.\<close>

lemma phys_no_access:
  assumes P: "phys g s" and m': "pages m' = (\<lambda>q. if a \<le> q \<and> q < b then Some NoAccess else pages (avm s) q)"
    "next_frame m' = next_frame (avm s)" "errors_ok m'"
  shows "phys g (s\<lparr>avm := m'\<rparr>)"
proof -
  have sub: "pages m' q = Some (Shared f) \<Longrightarrow> pages (avm s) q = Some (Shared f)"
    "pages m' q = Some (Private f) \<Longrightarrow> pages (avm s) q = Some (Private f)"
    "frame_of (pages m' q) = Some f \<Longrightarrow> frame_of (pages (avm s) q) = Some f" for q f
    using m'(1) by (auto split: if_splits)
  have none: "frame_of (pages (avm s) q) = None \<Longrightarrow> frame_of (pages m' q) = None" for q
    using m'(1) by auto
  have "map_ok (gS g) (gU g) (gM g) m'"
  proof -
    have mo: "map_ok (gS g) (gU g) (gM g) (avm s)" using P by (simp add: phys_def)
    note D = map_okD [OF mo]
    show ?thesis
    proof (rule map_okI)
      show "x = y" if "pages m' x = Some (Private f)" "frame_of (pages m' y) = Some f" for x y f
        using D(4) sub that by blast
      show "pages m' q \<noteq> Some (Shared f)" if "q \<in> gM g" for q f using that sub D(7) by blast
      show "f < next_frame m'" if "frame_of (pages m' q) = Some f" for q f
        using D(1) [OF sub(3) [OF that]] m'(2) by simp
    qed (use D(5,6,9,10,11) sub(1) none m'(3) in auto)
  qed
  moreover have "node_ok (gU g) (gfo g) (gno g) (heap_next s) m' (vpage_addr s)"
    using P sub by (auto simp: phys_def node_ok_def)
  moreover have "reg_ok (gS g) (gU g) (gfo g) (gno g) (gC g) m' (Forkmap s) (Pagemap s)"
    using P sub by (auto simp: phys_def reg_ok_def)
  ultimately show ?thesis using P by (simp add: phys_def)
qed

section \<open>Steps on the metadata\<close>

lemma base_eq [simp]: "q < 2 ^ 51 \<Longrightarrow> q' < 2 ^ 51 \<Longrightarrow> base q = base q' \<longleftrightarrow> q = q'"
  by (rule base_eq_iff) simp_all

lemma InternalAlloc_Inr:
  assumes "InternalAlloc s = Inr (v, s')"
  shows "v = heap_next s" "s' = s\<lparr>heap_next := heap_next s + 64\<rparr>" "heap_next s < heap_next s + 64"
proof -
  have lt: "heap_next s < heap_limit" using assms by (auto simp: InternalAlloc_def split: if_splits)
  then have "unat (heap_next s) < 2 ^ 63" by (simp add: heap_limit_def word_less_nat_alt)
  then have "unat (heap_next s + 64) = unat (heap_next s) + 64" by (subst unat_add_nowrap) simp_all
  then show "heap_next s < heap_next s + 64" by (simp add: word_less_nat_alt)
  show "v = heap_next s" "s' = s\<lparr>heap_next := heap_next s + 64\<rparr>"
    using assms by (auto simp: InternalAlloc_def split: if_splits)
qed

lemma pieces_okD:
  assumes "pieces_ok hn fl pm C"
  shows "sorted_wrt disj_free (fl t c)"
    "(t, c) \<noteq> (t', c') \<Longrightarrow> f \<in> set (fl t c) \<Longrightarrow> h \<in> set (fl t' c') \<Longrightarrow> disj_free f h"
    "live_piece pm C q = Some x \<Longrightarrow> f \<in> set (fl t c) \<Longrightarrow> pdisj x (piece_of f)"
    "q \<noteq> q' \<Longrightarrow> live_piece pm C q = Some x \<Longrightarrow> live_piece pm C q' = Some y \<Longrightarrow> pdisj x y"
    "f \<in> set (fl t c) \<Longrightarrow> fpage f < hn" "live_piece pm C q = Some x \<Longrightarrow> fst x < hn"
proof -
  note k = assms [unfolded pieces_ok_def] and r = conjunct2
  show "sorted_wrt disj_free (fl t c)" using k [THEN conjunct1] by blast
  show "(t, c) \<noteq> (t', c') \<Longrightarrow> f \<in> set (fl t c) \<Longrightarrow> h \<in> set (fl t' c') \<Longrightarrow> disj_free f h"
    using k [THEN r, THEN conjunct1] by blast
  show "live_piece pm C q = Some x \<Longrightarrow> f \<in> set (fl t c) \<Longrightarrow> pdisj x (piece_of f)"
    using k [THEN r, THEN r, THEN conjunct1] by blast
  show "q \<noteq> q' \<Longrightarrow> live_piece pm C q = Some x \<Longrightarrow> live_piece pm C q' = Some y \<Longrightarrow> pdisj x y"
    using k [THEN r, THEN r, THEN r, THEN conjunct1] by blast
  show "f \<in> set (fl t c) \<Longrightarrow> fpage f < hn" "live_piece pm C q = Some x \<Longrightarrow> fst x < hn"
    using k [THEN r, THEN r, THEN r, THEN r] by blast+
qed

lemma pieces_okI:
  assumes "\<And>t c. sorted_wrt disj_free (fl t c)"
    "\<And>t c t' c' f h. (t, c) \<noteq> (t', c') \<Longrightarrow> f \<in> set (fl t c) \<Longrightarrow> h \<in> set (fl t' c') \<Longrightarrow> disj_free f h"
    "\<And>q x f t c. live_piece pm C q = Some x \<Longrightarrow> f \<in> set (fl t c) \<Longrightarrow> pdisj x (piece_of f)"
    "\<And>q q' x y. q \<noteq> q' \<Longrightarrow> live_piece pm C q = Some x \<Longrightarrow> live_piece pm C q' = Some y \<Longrightarrow> pdisj x y"
    "\<And>f t c. f \<in> set (fl t c) \<Longrightarrow> fpage f < hn" "\<And>q x. live_piece pm C q = Some x \<Longrightarrow> fst x < hn"
  shows "pieces_ok hn fl pm C"
  unfolding pieces_ok_def by (intro conjI allI impI ballI) (blast intro: assms)+

lemma pieces_ok_mono: "pieces_ok hn fl pm C \<Longrightarrow> hn \<le> hn' \<Longrightarrow> pieces_ok hn' fl pm C"
  by (rule pieces_okI) (blast dest: pieces_okD intro: less_le_trans)+

lemma phys_heap:
  assumes P: "phys g s" and a: "InternalAlloc s = Inr (v, s')"
  shows "phys g s'"
proof -
  note I = InternalAlloc_Inr [OF a]
  have "link_ok (gno g) (heap_next s + 64) (vpage_links s) (ppage_vlist s)"
    using P I(3) by (auto simp: phys_def link_ok_def)
  moreover have "node_ok (gU g) (gfo g) (gno g) (heap_next s + 64) (avm s) (vpage_addr s)"
    using P I(3) by (auto simp: phys_def node_ok_def)
  moreover have "pieces_ok (heap_next s + 64) (free_lists s) (Pagemap s) (gC g)"
    using P I(3) by (auto simp: phys_def intro: pieces_ok_mono)
  ultimately show ?thesis using P by (simp add: I(2) phys_def)
qed

definition gnode :: "uptr \<Rightarrow> uptr \<Rightarrow> ghost \<Rightarrow> ghost" where
  "gnode v p g = g\<lparr>gno := (gno g)(v := p)\<rparr>"

lemma gnode_sel [simp]:
  "gS (gnode v p g) = gS g" "gU (gnode v p g) = gU g" "gM (gnode v p g) = gM g" "gC (gnode v p g) = gC g"
  "gfo (gnode v p g) = gfo g" "gno (gnode v p g) = (gno g)(v := p)"
  by (simp_all add: gnode_def)

lemma phys_node:
  assumes P: "phys g s" and n: "new_vpage r s = Inr (v, s')" and p: "p \<noteq> 0"
    and r: "internal_iserror r \<or> page_of r \<in> gU g"
    and f: "\<And>f. pages (avm s) (page_of r) = Some (Shared f) \<Longrightarrow> gfo g f = p"
  shows "phys (gnode v p g) s'" "v = heap_next s"
    "s' = s\<lparr>heap_next := heap_next s + 64, vpage_addr := (vpage_addr s)(v := r)\<rparr>"
proof -
  from n obtain s1 where a: "InternalAlloc s = Inr (v, s1)" and v: "v \<noteq> 0"
    and s': "s' = s1\<lparr>vpage_addr := (vpage_addr s1)(v := r)\<rparr>"
    by (auto simp: new_vpage_def res_simps)
  note I = InternalAlloc_Inr [OF a]
  note P1 = phys_heap [OF P a]
  have lk: "link_ok (gno g) (heap_next s) (vpage_links s) (ppage_vlist s)" using P by (simp add: phys_def)
  have nv: "gno g v = 0" "dnext (vpage_links s) v = 0" "dprev (vpage_links s) v = 0"
    using link_okD(6) [OF lk, of v] I(1) by auto
  have ow: "own ((gno g)(v := p)) k x" if "own (gno g) k x" "k \<noteq> 0" for k x
    using that nv(1) by (auto simp: own_def)
  have "link_ok ((gno g)(v := p)) (heap_next s + 64) (vpage_links s) (ppage_vlist s)"
  proof (rule link_okI)
    show "0 < heap_next s + 64" using I(3) by (meson le_less_trans word_zero_le)
    show "own ((gno g)(v := p)) (((gno g)(v := p)) x) (dnext (vpage_links s) x)" if "((gno g)(v := p)) x \<noteq> 0" for x
      using that nv ow link_okD(2) [OF lk] by (cases "x = v") auto
    show "own ((gno g)(v := p)) (((gno g)(v := p)) x) (dprev (vpage_links s) x)" if "((gno g)(v := p)) x \<noteq> 0" for x
      using that nv ow link_okD(3) [OF lk] by (cases "x = v") auto
    show "dnext (vpage_links s) x = 0 \<and> dprev (vpage_links s) x = 0 \<and> ((gno g)(v := p)) x = 0"
      if "heap_next s + 64 \<le> x" for x
    proof -
      have "heap_next s < x" using that I(3) by (rule less_le_trans [rotated])
      then show ?thesis using link_okD(6) [OF lk, of x] I(1) by auto
    qed
  qed (use ow link_okD(4,5) [OF lk] in auto)
  moreover have "node_ok (gU g) (gfo g) ((gno g)(v := p)) (heap_next s + 64) (avm s) ((vpage_addr s)(v := r))"
    using P1 v r f I by (auto simp: phys_def node_ok_def)
  moreover have "reg_ok (gS g) (gU g) (gfo g) ((gno g)(v := p)) (gC g) (avm s) (Forkmap s) (Pagemap s)"
  proof -
    have rg: "reg_ok (gS g) (gU g) (gfo g) (gno g) (gC g) (avm s) (Forkmap s) (Pagemap s)" using P by (simp add: phys_def)
    have no: "p' \<noteq> 0 \<and> ((gno g)(v := p)) v' = p'"
      if "gC g q \<noteq> None" "Forkmap s (base q) = Some v'" "Pagemap s (base q) = Some p'" for q v' p'
    proof -
      have "p' \<noteq> 0 \<and> gno g v' = p'" using rg that unfolding reg_ok_def by blast
      then show ?thesis using nv(1) by auto
    qed
    show ?thesis
      using rg no unfolding reg_ok_def by blast
  qed
  ultimately show "phys (gnode v p g) s'" using P1 by (simp add: phys_def s' I(2))
  show "v = heap_next s" "s' = s\<lparr>heap_next := heap_next s + 64, vpage_addr := (vpage_addr s)(v := r)\<rparr>"
    using I by (simp_all add: s')
qed

lemma phys_set_list:
  assumes "phys g s" "lfirst l = 0" "llast l = 0"
  shows "phys g (s\<lparr>ppage_vlist := (ppage_vlist s)(p := l)\<rparr>)"
  using assms link_set_list [of "gno g" "heap_next s" "vpage_links s" "ppage_vlist s" p l]
  by (simp add: phys_def ownI)

lemma phys_push:
  assumes P: "phys g s" and v: "gno g v = p" "p \<noteq> 0" and push: "vlist_push_back p v s = Inr s'"
  shows "phys g s'" "\<exists>h vl. s' = s\<lparr>vpage_links := h, ppage_vlist := vl\<rparr>"
proof -
  from push obtain h l where d: "dl_push_back v (vpage_links s, ppage_vlist s p) = Inr (h, l)"
    and s': "s' = s\<lparr>vpage_links := h, ppage_vlist := (ppage_vlist s)(p := l)\<rparr>"
    by (auto simp: vlist_push_back_def res_simps)
  have "link_ok (gno g) (heap_next s) h ((ppage_vlist s)(p := l))"
    by (rule link_push [where no = "gno g" and vl = "ppage_vlist s" and p = p, OF _ v d]) (use P in \<open>simp add: phys_def\<close>)
  then show "phys g s'" using P by (simp add: phys_def s')
  show "\<exists>h vl. s' = s\<lparr>vpage_links := h, ppage_vlist := vl\<rparr>" using s' by blast
qed

lemma phys_remove:
  assumes P: "phys g s" and v: "gno g v = p" "p \<noteq> 0" and rem: "vlist_remove p v s = Inr s'"
  shows "phys g s'" "\<exists>h vl. s' = s\<lparr>vpage_links := h, ppage_vlist := vl\<rparr>"
proof -
  from rem obtain h l where d: "dl_remove v (vpage_links s, ppage_vlist s p) = Inr (h, l)"
    and s': "s' = s\<lparr>vpage_links := h, ppage_vlist := (ppage_vlist s)(p := l)\<rparr>"
    by (auto simp: vlist_remove_def res_simps)
  have "link_ok (gno g) (heap_next s) h ((ppage_vlist s)(p := l))"
    by (rule link_remove [where no = "gno g" and vl = "ppage_vlist s" and p = p, OF _ v d]) (use P in \<open>simp add: phys_def\<close>)
  then show "phys g s'" using P by (simp add: phys_def s')
  show "\<exists>h vl. s' = s\<lparr>vpage_links := h, ppage_vlist := vl\<rparr>" using s' by blast
qed

section \<open>Steps on the pieces\<close>

definition upd_list :: "nat \<Rightarrow> uptr \<Rightarrow> Freed list \<Rightarrow> (nat \<Rightarrow> uptr \<Rightarrow> Freed list) \<Rightarrow> nat \<Rightarrow> uptr \<Rightarrow> Freed list" where
  "upd_list t c l fl = (\<lambda>t' c'. if t' = t \<and> c' = c then l else fl t' c')"

lemma upd_list_same [simp]: "upd_list t c l fl t c = l"
  by (simp add: upd_list_def)

lemma free_lists_set [simp]: "free_lists (set_free_list t c l s) = upd_list t c l (free_lists s)"
  by (auto simp: free_lists_def set_free_list_def set_cache_def upd_list_def fun_eq_iff)

lemma phys_set_free_list:
  assumes "phys g s" "pieces_ok (heap_next s) (upd_list t c l (free_lists s)) (Pagemap s) (gC g)"
  shows "phys g (set_free_list t c l s)"
  using assms by (simp add: phys_def) (simp add: set_free_list_def set_cache_def)

lemma take_chunk_split:
  "take_chunk off sz fl = Some (f, rest) \<Longrightarrow>
    foffset f = off \<and> fsize f = sz \<and> (\<exists>xs ys. fl = xs @ f # ys \<and> rest = xs @ ys)"
proof (induction fl arbitrary: f rest)
  case (Cons h fl)
  show ?case
  proof (cases "foffset h = off \<and> sz = fsize h")
    case True
    with Cons.prems show ?thesis by (auto intro: exI [of _ "[]"])
  next
    case False
    then obtain r where "take_chunk off sz fl = Some (f, r)" "rest = h # r"
      using Cons.prems by (auto split: if_splits)
    then show ?thesis using Cons.IH by (metis append_Cons)
  qed
qed simp

lemma pieces_take:
  assumes "pieces_ok hn fl pm C" "fl t c = xs @ f # ys"
  shows "pieces_ok hn (upd_list t c (xs @ ys) fl) pm C" "apart (upd_list t c (xs @ ys) fl) pm C (piece_of f)"
    "fpage f < hn"
proof -
  note D = pieces_okD [OF assms(1)]
  have f: "f \<in> set (fl t c)" using assms(2) by simp
  have sub: "set (upd_list t c (xs @ ys) fl t' c') \<subseteq> set (fl t' c')" for t' c'
    using assms(2) by (auto simp: upd_list_def)
  have so: "sorted_wrt disj_free (xs @ f # ys)" using D(1) [of t c] assms(2) by simp
  have "sorted_wrt disj_free (upd_list t c (xs @ ys) fl t' c')" for t' c'
    using so D(1) by (auto simp: upd_list_def sorted_wrt_append)
  then show "pieces_ok hn (upd_list t c (xs @ ys) fl) pm C"
  proof (rule pieces_okI)
    show "disj_free a b" if "(t1, c1) \<noteq> (t2, c2)" "a \<in> set (upd_list t c (xs @ ys) fl t1 c1)"
      "b \<in> set (upd_list t c (xs @ ys) fl t2 c2)" for t1 c1 t2 c2 a b
      using that(1) by (rule D(2)) (use that sub in blast)+
    show "pdisj x (piece_of a)" if "live_piece pm C q = Some x" "a \<in> set (upd_list t c (xs @ ys) fl t' c')" for q x a t' c'
      using that(1) by (rule D(3)) (use that sub in blast)
    show "fpage a < hn" if "a \<in> set (upd_list t c (xs @ ys) fl t' c')" for a t' c'
      by (rule D(5)) (use that sub in blast)
  qed (rule D(4,6); assumption)+
  have "pdisj (piece_of f) (piece_of h)" if "h \<in> set (upd_list t c (xs @ ys) fl t' c')" for h t' c'
  proof (cases "(t', c') = (t, c)")
    case True
    then show ?thesis using that so by (auto simp: sorted_wrt_append intro: pdisj_sym)
  next
    case False
    then have "(t, c) \<noteq> (t', c')" by auto
    then show ?thesis by (rule D(2) [OF _ f]) (use that sub in blast)
  qed
  then show "apart (upd_list t c (xs @ ys) fl) pm C (piece_of f)"
    using D(3) f pdisj_sym unfolding apart_def by blast
  show "fpage f < hn" using D(5) f by blast
qed

lemma pieces_add:
  assumes "pieces_ok hn fl pm C" "sorted_wrt disj_free zs"
    "\<And>f. f \<in> set zs \<Longrightarrow> apart fl pm C (piece_of f) \<and> fpage f < hn"
  shows "pieces_ok hn (upd_list t c (fl t c @ zs) fl) pm C"
proof -
  note D = pieces_okD [OF assms(1)]
  have ap: "f \<in> set zs \<Longrightarrow> h \<in> set (fl t' c') \<Longrightarrow> disj_free f h" for f h t' c'
    using assms(3) by (auto simp: apart_def)
  have el: "f \<in> set (upd_list t c (fl t c @ zs) fl t' c') \<longleftrightarrow> f \<in> set (fl t' c') \<or> (t', c') = (t, c) \<and> f \<in> set zs" for f t' c'
    by (auto simp: upd_list_def)
  show ?thesis
  proof (rule pieces_okI)
    show "sorted_wrt disj_free (upd_list t c (fl t c @ zs) fl t' c')" for t' c'
      using D(1) assms(2) ap by (auto simp: upd_list_def sorted_wrt_append intro: pdisj_sym)
    show "disj_free f h" if m: "(t1, c1) \<noteq> (t2, c2)" "f \<in> set (upd_list t c (fl t c @ zs) fl t1 c1)"
      "h \<in> set (upd_list t c (fl t c @ zs) fl t2 c2)" for t1 c1 t2 c2 f h
    proof -
      consider "f \<in> set (fl t1 c1)" "h \<in> set (fl t2 c2)" | "f \<in> set (fl t1 c1)" "h \<in> set zs"
        | "f \<in> set zs" "h \<in> set (fl t2 c2)"
        using m unfolding el by auto
      then show ?thesis
      proof cases
        case 1
        then show ?thesis by (rule D(2) [OF m(1)])
      next
        case 2
        then show ?thesis using ap pdisj_sym by blast
      next
        case 3
        then show ?thesis using ap by blast
      qed
    qed
    show "pdisj x (piece_of f)" if "live_piece pm C q = Some x" "f \<in> set (upd_list t c (fl t c @ zs) fl t' c')" for q x f t' c'
      using that D(3) assms(3) pdisj_sym unfolding el apart_def by blast
    show "fpage f < hn" if "f \<in> set (upd_list t c (fl t c @ zs) fl t' c')" for f t' c'
      using that D(5) assms(3) unfolding el by blast
  qed (use D(4,6) in blast)+
qed

text \<open>The pieces cut from a new page follow each other.\<close>

lemma cut_pieces_in:
  "f \<in> set (cut_pieces p cs pos lim) \<Longrightarrow> lim \<le> 4096 \<Longrightarrow>
    fpage f = p \<and> pos \<le> unat (foffset f) \<and> unat (foffset f) + unat (fsize f) \<le> lim"
proof (induction p cs pos lim rule: cut_pieces.induct)
  case (1 p cs pos lim)
  show ?case
  proof (cases "pos < lim \<and> 0 < cs")
    case True
    with "1.prems"(1) have "f = \<lparr>fpage = p, foffset = of_nat pos, fsize = of_nat (if lim - pos < cs then lim - pos else cs)\<rparr>
        \<or> f \<in> set (cut_pieces p cs (pos + cs) lim)"
      by (simp add: cut_pieces.simps [of p cs pos lim])
    then show ?thesis
    proof
      assume "f \<in> set (cut_pieces p cs (pos + cs) lim)"
      then show ?thesis using "1.IH" True "1.prems"(2) by simp
    qed (use True "1.prems"(2) in \<open>auto simp: unat_of_nat\<close>)
  next
    case False
    then have "cut_pieces p cs pos lim = []" by (subst cut_pieces.simps) simp
    then show ?thesis using "1.prems"(1) by simp
  qed
qed

lemma cut_pieces_sorted: "lim \<le> 4096 \<Longrightarrow> sorted_wrt disj_free (cut_pieces p cs pos lim)"
proof (induction p cs pos lim rule: cut_pieces.induct)
  case (1 p cs pos lim)
  show ?case
  proof (cases "pos < lim \<and> 0 < cs")
    case True
    let ?h = "\<lparr>fpage = p, foffset = of_nat pos, fsize = of_nat (if lim - pos < cs then lim - pos else cs)\<rparr>"
    have "disj_free ?h f" if "f \<in> set (cut_pieces p cs (pos + cs) lim)" for f
      using cut_pieces_in [OF that "1.prems"] True "1.prems" by (auto simp: piece_of_def unat_of_nat)
    then show ?thesis using 1 True by (subst cut_pieces.simps) simp
  next
    case False
    then have "cut_pieces p cs pos lim = []" by (subst cut_pieces.simps) simp
    then show ?thesis by simp
  qed
qed

section \<open>A chunk becomes live, or is given back\<close>

definition gclaim :: "nat \<Rightarrow> (nat \<times> nat) option \<Rightarrow> ghost \<Rightarrow> ghost" where
  "gclaim q x g = g\<lparr>gC := (gC g)(q := x)\<rparr>"

lemma gclaim_sel [simp]:
  "gS (gclaim q x g) = gS g" "gU (gclaim q x g) = gU g" "gM (gclaim q x g) = gM g" "gC (gclaim q x g) = (gC g)(q := x)"
  "gfo (gclaim q x g) = gfo g" "gno (gclaim q x g) = gno g"
  by (simp_all add: gclaim_def)

lemma phys_parts:
  assumes "phys g s"
  shows "map_ok (gS g) (gU g) (gM g) (avm s)" "node_ok (gU g) (gfo g) (gno g) (heap_next s) (avm s) (vpage_addr s)"
    "link_ok (gno g) (heap_next s) (vpage_links s) (ppage_vlist s)"
    "reg_ok (gS g) (gU g) (gfo g) (gno g) (gC g) (avm s) (Forkmap s) (Pagemap s)"
    "pieces_ok (heap_next s) (free_lists s) (Pagemap s) (gC g)"
  using assms by (simp_all add: phys_def)

lemma phys_used:
  assumes "phys g s"
  shows "q \<in> gU g \<Longrightarrow> q < 2 ^ 51" "q \<in> gS g \<Longrightarrow> q < 2 ^ 51" "gC g q \<noteq> None \<Longrightarrow> q \<in> gU g"
  using map_okD(5,9) [OF phys_parts(1) [OF assms]] phys_parts(4) [OF assms] by (auto simp: reg_ok_def)

lemma reg_okD:
  assumes "reg_ok S U fo no C m fm pm"
  shows "C q \<noteq> None \<Longrightarrow> pages m q = Some (Shared f) \<Longrightarrow> pm (base q) = Some (fo f)"
    "C q \<noteq> None \<Longrightarrow> fm (base q) = Some v \<Longrightarrow> pm (base q) = Some p \<Longrightarrow> p \<noteq> 0 \<and> no v = p"
    "q \<in> S \<Longrightarrow> q \<notin> U \<Longrightarrow> fm (base q) = None \<and> pm (base q) = None" "dom C \<subseteq> U"
  using assms unfolding reg_ok_def by blast+

lemma reg_okI:
  assumes "dom C \<subseteq> U" "\<And>q f. C q \<noteq> None \<Longrightarrow> pages m q = Some (Shared f) \<Longrightarrow> pm (base q) = Some (fo f)"
    "\<And>q v p. C q \<noteq> None \<Longrightarrow> fm (base q) = Some v \<Longrightarrow> pm (base q) = Some p \<Longrightarrow> p \<noteq> 0 \<and> no v = p"
    "\<And>q. q \<in> S \<Longrightarrow> q \<notin> U \<Longrightarrow> fm (base q) = None \<and> pm (base q) = None"
  shows "reg_ok S U fo no C m fm pm"
  unfolding reg_ok_def using assms by blast

lemma pieces_claim:
  assumes k: "pieces_ok hn fl pm C" and lp: "\<And>q'. q' \<noteq> q \<Longrightarrow> live_piece pm' C' q' = live_piece pm C q'"
    and new: "\<And>x. live_piece pm' C' q = Some x \<Longrightarrow> apart fl pm C x \<and> fst x < hn"
  shows "pieces_ok hn fl pm' C'"
proof (rule pieces_okI)
  note D = pieces_okD [OF k]
  show "pdisj x (piece_of f)" if "live_piece pm' C' q' = Some x" "f \<in> set (fl t c)" for q' x f t c
    using that D(3) lp [of q'] new by (cases "q' = q") (auto simp: apart_def)
  show "pdisj x y" if m: "q1 \<noteq> q2" "live_piece pm' C' q1 = Some x" "live_piece pm' C' q2 = Some y" for q1 q2 x y
  proof -
    consider "q1 = q" | "q2 = q" | "q1 \<noteq> q" "q2 \<noteq> q" by blast
    then show ?thesis
    proof cases
      case 1
      then have "apart fl pm C x" "live_piece pm C q2 = Some y" using m new lp [of q2] by auto
      then show ?thesis unfolding apart_def by blast
    next
      case 2
      then have "apart fl pm C y" "live_piece pm C q1 = Some x" using m new lp [of q1] by auto
      then show ?thesis unfolding apart_def using pdisj_sym by blast
    next
      case 3
      then show ?thesis using m lp [of q1] lp [of q2] D(4) [of q1 q2 x y] by simp
    qed
  qed
  show "fst x < hn" if "live_piece pm' C' q' = Some x" for q' x
    using that D(6) [of q' x] lp [of q'] new [of x] by (cases "q' = q") auto
  show "disj_free f h" if "(t, c) \<noteq> (t', c')" "f \<in> set (fl t c)" "h \<in> set (fl t' c')" for t c t' c' f h
    by (rule D(2) [OF that])
qed (use pieces_okD [OF k] in auto)

lemma phys_claim:
  assumes P: "phys g s" and q: "q \<in> gU g" "gC g q = None"
    and ap: "apart (free_lists s) (Pagemap s) (gC g) (p, off, n)" and p: "p < heap_next s" "p \<noteq> 0" "gno g v = p"
    and f: "\<And>f. pages (avm s) q = Some (Shared f) \<Longrightarrow> gfo g f = p"
  shows "phys (gclaim q (Some (off, n)) g) (register_page (base q) v p s)"
proof -
  note u = phys_used [OF P] and R = reg_okD [OF phys_parts(4) [OF P]]
  let ?C = "(gC g)(q \<mapsto> (off, n))" and ?pm = "(Pagemap s)(base q \<mapsto> p)" and ?fm = "(Forkmap s)(base q \<mapsto> v)"
  have ne: "base q' \<noteq> base q" if "q' \<noteq> q" "q' \<in> gU g \<or> q' \<in> gS g" for q'
    using that u(1,2) q(1) by auto
  have "reg_ok (gS g) (gU g) (gfo g) (gno g) ?C (avm s) ?fm ?pm"
  proof (rule reg_okI)
    show "dom ?C \<subseteq> gU g" using R(4) q by auto
    show "?pm (base q') = Some (gfo g f')" if "?C q' \<noteq> None" "pages (avm s) q' = Some (Shared f')" for q' f'
      using that f R(1) [of q' f'] ne [of q'] u(3) [of q'] by (cases "q' = q") auto
    show "p' \<noteq> 0 \<and> gno g v' = p'" if "?C q' \<noteq> None" "?fm (base q') = Some v'" "?pm (base q') = Some p'" for q' v' p'
      using that p R(2) [of q' v' p'] ne [of q'] u(3) [of q'] by (cases "q' = q") auto
    show "?fm (base q') = None \<and> ?pm (base q') = None" if "q' \<in> gS g" "q' \<notin> gU g" for q'
      using that R(3) ne [of q'] q by auto
  qed
  moreover have "pieces_ok (heap_next s) (free_lists s) ?pm ?C"
  proof (rule pieces_claim [OF phys_parts(5) [OF P], where q = q])
    show "live_piece ?pm ?C q' = live_piece (Pagemap s) (gC g) q'" if "q' \<noteq> q" for q'
      using that ne [of q'] u(3) [of q'] by (cases "gC g q'") (auto simp: live_piece_def split: option.splits)
    show "apart (free_lists s) (Pagemap s) (gC g) x \<and> fst x < heap_next s" if "live_piece ?pm ?C q = Some x" for x
      using that ap p(1) by (auto simp: live_piece_def)
  qed
  ultimately show ?thesis using P by (simp add: phys_def register_page_def)
qed

text \<open>When the system call failed, its error number is the key of the new entries, and the chunk has no piece.\<close>

lemma phys_claim_error:
  assumes P: "phys g s" and q: "q \<in> gU g" and r: "internal_iserror r"
    and no: "\<And>f. pages (avm s) q \<noteq> Some (Shared f)" "Pagemap s (base q) = None"
  shows "phys (gclaim q x g) (register_page r v p s)"
proof -
  note u = phys_used [OF P] and R = reg_okD [OF phys_parts(4) [OF P]]
  let ?C = "(gC g)(q := x)" and ?pm = "(Pagemap s)(r \<mapsto> p)" and ?fm = "(Forkmap s)(r \<mapsto> v)"
  have ne: "base q' \<noteq> r" if "q' \<in> gU g \<or> q' \<in> gS g" for q'
    using that u(1,2) r error_not_base [OF r, of q'] by fastforce
  have "reg_ok (gS g) (gU g) (gfo g) (gno g) ?C (avm s) ?fm ?pm"
  proof (rule reg_okI)
    show "dom ?C \<subseteq> gU g" using R(4) q by auto
    show "?pm (base q') = Some (gfo g f')" if "?C q' \<noteq> None" "pages (avm s) q' = Some (Shared f')" for q' f'
      using that no R(1) [of q' f'] ne [of q'] u(3) [of q'] q by (cases "q' = q") auto
    show "p' \<noteq> 0 \<and> gno g v' = p'" if "?C q' \<noteq> None" "?fm (base q') = Some v'" "?pm (base q') = Some p'" for q' v' p'
      using that no R(2) [of q' v' p'] ne [of q'] u(3) [of q'] q by (cases "q' = q") auto
    show "?fm (base q') = None \<and> ?pm (base q') = None" if "q' \<in> gS g" "q' \<notin> gU g" for q'
      using that R(3) ne [of q'] by auto
  qed
  moreover have "pieces_ok (heap_next s) (free_lists s) ?pm ?C"
  proof (rule pieces_claim [OF phys_parts(5) [OF P], where q = q])
    show "live_piece ?pm ?C q' = live_piece (Pagemap s) (gC g) q'" if "q' \<noteq> q" for q'
      using that ne [of q'] u(3) [of q'] by (cases "gC g q'") (auto simp: live_piece_def split: option.splits)
    show "apart (free_lists s) (Pagemap s) (gC g) y \<and> fst y < heap_next s" if "live_piece ?pm ?C q = Some y" for y
      using that ne [of q] q no(2) by (auto simp: live_piece_def split: option.splits)
  qed
  ultimately show ?thesis using P by (simp add: phys_def register_page_def)
qed

lemma phys_unregister:
  assumes P: "phys g s" and C: "gC g q = Some (off, n)" and pm: "Pagemap s (base q) = Some p"
  defines "s' \<equiv> s\<lparr>Forkmap := (Forkmap s)(base q := None), Pagemap := (Pagemap s)(base q := None)\<rparr>"
  shows "phys (gclaim q None g) s'" "apart (free_lists s') (Pagemap s') (gC (gclaim q None g)) (p, off, n)"
    "p < heap_next s"
proof -
  note u = phys_used [OF P] and R = reg_okD [OF phys_parts(4) [OF P]] and D = pieces_okD [OF phys_parts(5) [OF P]]
  let ?C = "(gC g)(q := None)" and ?pm = "(Pagemap s)(base q := None)" and ?fm = "(Forkmap s)(base q := None)"
  have qU: "q \<in> gU g" using u(3) C by simp
  have ne: "base q' \<noteq> base q" if "q' \<noteq> q" "q' \<in> gU g \<or> q' \<in> gS g" for q'
    using that u(1,2) qU by auto
  have lp: "live_piece ?pm ?C q' = live_piece (Pagemap s) (gC g) q'" if "q' \<noteq> q" for q'
    using that ne [of q'] u(3) [of q'] by (cases "gC g q'") (auto simp: live_piece_def split: option.splits)
  have lq: "live_piece ?pm ?C q = None" "live_piece (Pagemap s) (gC g) q = Some (p, off, n)"
    using C pm by (simp_all add: live_piece_def)
  have "reg_ok (gS g) (gU g) (gfo g) (gno g) ?C (avm s) ?fm ?pm"
  proof (rule reg_okI)
    show "dom ?C \<subseteq> gU g" using R(4) by auto
    show "?pm (base q') = Some (gfo g f')" if "?C q' \<noteq> None" "pages (avm s) q' = Some (Shared f')" for q' f'
      using that R(1) [of q' f'] ne [of q'] u(3) [of q'] by (cases "q' = q") auto
    show "p' \<noteq> 0 \<and> gno g v' = p'" if "?C q' \<noteq> None" "?fm (base q') = Some v'" "?pm (base q') = Some p'" for q' v' p'
      using that R(2) [of q' v' p'] ne [of q'] u(3) [of q'] by (cases "q' = q") auto
    show "?fm (base q') = None \<and> ?pm (base q') = None" if "q' \<in> gS g" "q' \<notin> gU g" for q'
      using that R(3) by auto
  qed
  moreover have "pieces_ok (heap_next s) (free_lists s) ?pm ?C"
    by (rule pieces_claim [OF phys_parts(5) [OF P], where q = q]) (use lp lq in auto)
  ultimately show "phys (gclaim q None g) s'" using P by (simp add: phys_def s'_def)
  show "apart (free_lists s') (Pagemap s') (gC (gclaim q None g)) (p, off, n)"
    unfolding apart_def
  proof (intro conjI allI ballI impI)
    fix q' y assume y: "live_piece (Pagemap s') (gC (gclaim q None g)) q' = Some y"
    then have "q' \<noteq> q" using lq by (auto simp: s'_def)
    then show "pdisj (p, off, n) y" using y lp [of q'] D(4) [OF _ lq(2), of q' y] by (simp add: s'_def)
  qed (use D(3) [OF lq(2)] in \<open>simp add: s'_def\<close>)
  show "p < heap_next s" using D(6) [OF lq(2)] by simp
qed

section \<open>Chunks\<close>

lemma phys_DeallocateChunk:
  assumes P: "phys g s" and C: "gC g (page_of va) = Some (unat va mod 4096, unat sz)"
    and d: "DeallocateChunk t c va sz s = Inr s'"
  shows "phys (gclaim (page_of va) None g) s'"
proof -
  let ?q = "page_of va"
  define s1 where "s1 = s\<lparr>Forkmap := (Forkmap s)(base ?q := None), Pagemap := (Pagemap s)(base ?q := None)\<rparr>"
  from d obtain v p s2 where fm: "Forkmap s (base ?q) = Some v" and pm: "Pagemap s (base ?q) = Some p"
    and rem: "vlist_remove p v s1 = Inr s2"
    and s': "s' = set_free_list t c (free_list (caches s2 t c)
              @ [\<lparr>fpage = p, foffset = va - base ?q, fsize = sz\<rparr>]) s2"
    unfolding DeallocateChunk_def Let_def round_down_page s1_def
    by (auto simp: res_simps split: option.splits)
  let ?f = "\<lparr>fpage = p, foffset = va - base ?q, fsize = sz\<rparr>"
  have pf: "piece_of ?f = (p, unat va mod 4096, unat sz)" by (simp add: piece_of_def unat_page_offset)
  have pv: "p \<noteq> 0" "gno g v = p" using reg_okD(2) [OF phys_parts(4) [OF P] _ fm pm] C by auto
  note U = phys_unregister [OF P C pm, folded s1_def]
  have "gno (gclaim ?q None g) v = p" using pv by simp
  note R = phys_remove [OF U(1) this pv(1) rem]
  from R(2) obtain h vl where s2: "s2 = s1\<lparr>vpage_links := h, ppage_vlist := vl\<rparr>" by blast
  have s2p: "free_lists s2 = free_lists s1" "Pagemap s2 = Pagemap s1" "heap_next s2 = heap_next s"
    by (simp_all add: s2 s1_def)
  have "pieces_ok (heap_next s2) (upd_list t c (free_lists s2 t c @ [?f]) (free_lists s2)) (Pagemap s2) (gC (gclaim ?q None g))"
    by (rule pieces_add [OF phys_parts(5) [OF R(1)]]) (use U(2,3) pf s2p in auto)
  then show ?thesis
    unfolding s' by (intro phys_set_free_list [OF R(1)]) (simp add: free_lists_def)
qed

text \<open>The new entries of both paths of an allocation, given what the system call returned.\<close>

lemma phys_register:
  assumes P: "phys g s" and r: "internal_iserror r \<and> (\<forall>f. pages (avm s) q \<noteq> Some (Shared f)) \<or> r = base q"
    and q: "q \<in> gU g" "gC g q = None" and pm: "Pagemap s (base q) = None"
    and ap: "apart (free_lists s) (Pagemap s) (gC g) (p, off, n)" and p: "p < heap_next s" "p \<noteq> 0" "gno g v = p"
    and f: "\<And>f. pages (avm s) q = Some (Shared f) \<Longrightarrow> gfo g f = p"
  shows "phys (gclaim q (Some (off, n)) g) (register_page r v p s)"
  using r
proof
  assume "internal_iserror r \<and> (\<forall>f. pages (avm s) q \<noteq> Some (Shared f))"
  then show ?thesis using phys_claim_error [OF P q(1)] pm by blast
next
  assume r: "r = base q"
  show ?thesis unfolding r by (rule phys_claim [OF P q ap p f])
qed

definition next_state :: "ghost \<Rightarrow> nat \<Rightarrow> nat \<times> nat \<Rightarrow> ghost \<Rightarrow> bool" where
  "next_state g q x g' \<longleftrightarrow> gS g' = gS g \<and> gU g' = insert q (gU g) \<and> gM g' = gM g \<and> gC g' = (gC g)(q \<mapsto> x)"

text \<open>
  After the system call: the page is used, and if it shows a frame it belongs to \<open>p\<close>.
\<close>

definition mapped :: "ghost \<Rightarrow> nat \<Rightarrow> uptr \<Rightarrow> uptr \<Rightarrow> ghost \<Rightarrow> 's ast \<Rightarrow> 's ast \<Rightarrow> bool" where
  "mapped g q p r g' s s' \<longleftrightarrow> phys g' s' \<and> gS g' = gS g \<and> gU g' = insert q (gU g) \<and> gM g' = gM g \<and> gC g' = gC g \<and> gno g' = gno g \<and>
     (\<exists>m. s' = s\<lparr>avm := m\<rparr>) \<and>
     (internal_iserror r \<and> (\<forall>f. pages (avm s') q \<noteq> Some (Shared f)) \<or> r = base q) \<and>
     (\<forall>f. pages (avm s') q = Some (Shared f) \<longrightarrow> gfo g' f = p)"

lemma frame_of_None_shared: "frame_of x = None \<Longrightarrow> x \<noteq> Some (Shared f)"
  by auto

lemma mapped_new:
  assumes P: "phys g s" and q: "q \<in> gS g - gU g" and m: "MmapAliasing (base q) GetPageSizeCached s = (r, s1)"
  shows "\<exists>g'. mapped g q p r g' s s1"
proof -
  note D = map_okD [OF phys_parts(1) [OF P]]
  from m obtain m' where mm: "mmap_fixed_shared (base q) 0x1000 (avm s) = (r, m')" and s1: "s1 = s\<lparr>avm := m'\<rparr>"
    by (auto simp: MmapAliasing_def GetPageSizeCached_def split: prod.splits)
  have q52: "q < 2 ^ 52" using D(5) [of q] q by simp
  have no: "pages (avm s) q \<noteq> Some (Shared f)" for f using D(6) [of q] q by (auto dest: frame_of_None_shared)
  show ?thesis
  proof (cases rule: shared_cases [OF mm D(8)])
    case 1
    then show ?thesis using phys_unmapped [OF P q] no
      by (intro exI [of _ "gmap q (gfo g) g"]) (auto simp: mapped_def s1)
  next
    case 2
    have "phys (gmap q ((gfo g)(next_frame (avm s) := p)) g) (s\<lparr>avm := m'\<rparr>)"
      by (rule phys_mapped [OF P q, where f = "next_frame (avm s)" and p = p])
        (use 2 page_of_base [OF q52] in auto)
    then show ?thesis using 2 page_of_base [OF q52]
      by (intro exI [of _ "gmap q ((gfo g)(next_frame (avm s) := p)) g"]) (auto simp: mapped_def s1)
  qed
qed

lemma mapped_again:
  assumes P: "phys g s" and q: "q \<in> gS g - gU g" and m: "MremapAliasing (vpage_addr s x) (base q) s = (r, s1)"
    and x: "gno g x = p" "p \<noteq> 0"
  shows "\<exists>g'. mapped g q p r g' s s1"
proof -
  note D = map_okD [OF phys_parts(1) [OF P]]
  from m obtain m' where mm: "mremap_dup (vpage_addr s x) (base q) (avm s) = (r, m')" and s1: "s1 = s\<lparr>avm := m'\<rparr>"
    by (auto simp: MremapAliasing_def split: prod.splits)
  have q52: "q < 2 ^ 52" using D(5) [of q] q by simp
  have no: "pages (avm s) q \<noteq> Some (Shared f)" for f using D(6) [of q] q by (auto dest: frame_of_None_shared)
  show ?thesis
  proof (cases rule: mremap_cases [OF mm D(8)])
    case 1
    then show ?thesis using phys_unmapped [OF P q] no
      by (intro exI [of _ "gmap q (gfo g) g"]) (auto simp: mapped_def s1)
  next
    case (2 f)
    have fp: "gfo g f = p"
      using phys_parts(2) [OF P] 2(2) x unfolding node_ok_def by auto
    have "phys (gmap q (gfo g) g) (s\<lparr>avm := m'\<rparr>)"
      by (rule phys_mapped [OF P q, where f = f and old = "page_of (vpage_addr s x)"])
        (use 2 page_of_base [OF q52] D(3) in auto)
    then show ?thesis using 2 fp page_of_base [OF q52]
      by (intro exI [of _ "gmap q (gfo g) g"]) (auto simp: mapped_def s1)
  qed
qed

lemma apart_cong: "apart fl pm C x \<Longrightarrow> fl' = fl \<Longrightarrow> pm' = pm \<Longrightarrow> C' = C \<Longrightarrow> apart fl' pm' C' x"
  by simp

lemma mapped_shared_error:
  assumes "mapped g q p r g' s s'" "internal_iserror r"
  shows "pages (avm s') (page_of r) \<noteq> Some (Shared f)"
proof
  assume "pages (avm s') (page_of r) = Some (Shared f)"
  moreover have P: "phys g' s'" using assms(1) by (simp add: mapped_def)
  ultimately have "page_of r < 2 ^ 51"
    using map_okD(11) [OF phys_parts(1) [OF P]] phys_used(1) [OF P] by blast
  then show False using error_page [OF assms(2)] by simp
qed

text \<open>The new mapping gets its \<^verbatim>\<open>Vpage\<close>.\<close>

lemma mapped_node:
  assumes m: "mapped g q p r g' s s1" and q: "q < 2 ^ 51" and p: "p \<noteq> 0"
    and P: "phys g' s2" and s2: "avm s2 = avm s1" and n: "new_vpage r s2 = Inr (v, s3)"
  shows "phys (gnode v p g') s3" "avm s3 = avm s2" "free_lists s3 = free_lists s2" "Pagemap s3 = Pagemap s2"
    "Forkmap s3 = Forkmap s2" "heap_next s2 < heap_next s3"
proof -
  have q52: "q < 2 ^ 52" using q by simp
  have r: "internal_iserror r \<or> page_of r \<in> gU g'"
    using m page_of_base [OF q52] by (auto simp: mapped_def)
  have f: "gfo g' f = p" if "pages (avm s2) (page_of r) = Some (Shared f)" for f
    using m mapped_shared_error [OF m, of f] that s2 page_of_base [OF q52] unfolding mapped_def by auto
  note N = phys_node [OF P n p r f]
  show "phys (gnode v p g') s3" by (rule N(1))
  show "avm s3 = avm s2" "free_lists s3 = free_lists s2" "Pagemap s3 = Pagemap s2" "Forkmap s3 = Forkmap s2"
    by (simp_all add: N(3))
  from n obtain a where a: "InternalAlloc s2 = Inr (v, a)" by (auto simp: new_vpage_def res_simps)
  show "heap_next s2 < heap_next s3" using InternalAlloc_Inr(3) [OF a] by (simp add: N(3))
qed

lemma phys_finish:
  assumes m: "mapped g q p r g' s s1" and q: "q \<in> gS g - gU g" and P: "phys g s" "phys (gnode v p g') s3"
    and s3: "avm s3 = avm s1" "free_lists s3 = free_lists s" "Pagemap s3 = Pagemap s" "heap_next s \<le> heap_next s3"
    and ap: "apart (free_lists s) (Pagemap s) (gC g) (p, off, n)" and p: "p < heap_next s3" "p \<noteq> 0"
  shows "phys (gclaim q (Some (off, n)) (gnode v p g')) (register_page r v p s3)"
    "next_state g q (off, n) (gclaim q (Some (off, n)) (gnode v p g'))"
proof -
  note M = m [unfolded mapped_def]
  have r: "internal_iserror r \<and> (\<forall>f. pages (avm s3) q \<noteq> Some (Shared f)) \<or> r = base q"
    using M s3(1) by simp
  have C: "gC g q = None" using q phys_used(3) [OF P(1)] by blast
  have pm: "Pagemap s3 (base q) = None" using reg_okD(3) [OF phys_parts(4) [OF P(1)]] q s3(3) by simp
  show "phys (gclaim q (Some (off, n)) (gnode v p g')) (register_page r v p s3)"
    by (rule phys_register [OF P(2) r]) (use M C pm ap p s3 in simp_all)
  show "next_state g q (off, n) (gclaim q (Some (off, n)) (gnode v p g'))"
    using M by (simp add: next_state_def)
qed

text \<open>A freed piece is used again.\<close>

lemma phys_reuse:
  assumes P: "phys g s" and q: "q \<in> gS g - gU g" and ap: "apart (free_lists s) (Pagemap s) (gC g) (piece_of ch)"
    and hn: "fpage ch < heap_next s" and R: "reuse_chunk ch (base q) s = Inr s'"
  shows "\<exists>g'. phys g' s' \<and> next_state g q (snd (piece_of ch)) g'"
proof -
  define p where "p = fpage ch"
  have p0: "p \<noteq> 0" using R by (auto simp: reuse_chunk_def res_simps p_def)
  have q51: "q < 2 ^ 51" using phys_used(2) [OF P] q by blast
  obtain off n where x: "piece_of ch = (p, off, n)" by (simp add: piece_of_def p_def)
  \<comment> \<open>both paths map the page, make a node and enter it\<close>
  have fin: "\<exists>g'. phys g' (register_page r v p s4) \<and> next_state g q (snd (piece_of ch)) g'"
    if m: "mapped g q p r g' s s1" and n: "new_vpage r s1 = Inr (v, s2)" and c: "s3 = s2 \<or> s3 = s2\<lparr>ppage_vlist :=
        (ppage_vlist s2)(p := dl_clear (ppage_vlist s2 p))\<rparr>" and push: "vlist_push_back p v s3 = Inr s4"
    for r g' s1 v s2 s3 s4
  proof -
    have P1: "phys g' s1" using m by (simp add: mapped_def)
    obtain mm where s1: "s1 = s\<lparr>avm := mm\<rparr>" using m by (auto simp: mapped_def)
    note N = mapped_node [OF m q51 p0 P1 refl n]
    have P3: "phys (gnode v p g') s3"
      using c N(1) by (auto intro!: phys_set_list simp: dl_clear_def)
    have e3: "avm s3 = avm s1" "free_lists s3 = free_lists s" "Pagemap s3 = Pagemap s" "heap_next s \<le> heap_next s3"
      using c N(2-6) by (auto simp: s1)
    have "gno (gnode v p g') v = p" by simp
    note U = phys_push [OF P3 this p0 push]
    from U(2) have e4: "avm s4 = avm s1" "free_lists s4 = free_lists s" "Pagemap s4 = Pagemap s" "heap_next s \<le> heap_next s4"
      using e3 by auto
    have "p < heap_next s4" using hn e4(4) unfolding p_def by (rule less_le_trans)
    note F = phys_finish [OF m q P U(1) e4 ap [unfolded x] this p0]
    then show ?thesis using x by auto
  qed
  show ?thesis
  proof (cases "dl_empty (ppage_vlist s p)")
    case True
    with R obtain r s1 v s2 s4 where m: "MmapAliasing (base q) GetPageSizeCached s = (r, s1)"
      and n: "new_vpage r s1 = Inr (v, s2)"
      and push: "vlist_push_back p v (s2\<lparr>ppage_vlist := (ppage_vlist s2)(p := dl_clear (ppage_vlist s2 p))\<rparr>) = Inr s4"
      and s': "s' = register_page r v p s4"
      by (auto simp: reuse_chunk_def Let_def res_simps p_def split: prod.splits)
    from mapped_new [OF P q m] obtain g' where "mapped g q p r g' s s1" by blast
    then show ?thesis unfolding s' by (rule fin [OF _ n _ push]) simp
  next
    case False
    with R obtain r s1 v s2 s4 where f: "lfirst (ppage_vlist s p) \<noteq> 0"
      and m: "MremapAliasing (vpage_addr s (lfirst (ppage_vlist s p))) (base q) s = (r, s1)"
      and n: "new_vpage r s1 = Inr (v, s2)" and push: "vlist_push_back p v s2 = Inr s4"
      and s': "s' = register_page r v p s4"
      by (auto simp: reuse_chunk_def Let_def res_simps p_def split: prod.splits)
    have "gno g (lfirst (ppage_vlist s p)) = p"
      by (rule own_nonnull [OF link_okD(4) [OF phys_parts(3) [OF P] p0] f])
    from mapped_again [OF P q m this p0] obtain g' where "mapped g q p r g' s s1" by blast
    then show ?thesis unfolding s' by (rule fin [OF _ n _ push]) simp
  qed
qed

text \<open>A new page is cut into pieces.\<close>

lemma phys_fresh:
  assumes P: "phys g s" and q: "q \<in> gS g - gU g" and off: "unat off < 4096" and n: "n \<le> unat cs"
    and R: "fresh_chunk t c (base q) off cs s = Inr s'"
  shows "\<exists>g'. phys g' s' \<and> next_state g q (unat off, n) g'"
proof -
  from R obtain r s1 p s2 v s3 where m: "MmapAliasing (base q) GetPageSizeCached s = (r, s1)"
    and a: "InternalAlloc s1 = Inr (p, s2)" and p0: "p \<noteq> 0"
    and nv: "new_vpage r (s2\<lparr>ppage_vlist := (ppage_vlist s2)(p := empty_lst)\<rparr>) = Inr (v, s3)"
    and s': "s' = set_free_list t c (free_list (caches (register_page r v p s3) t c)
              @ cut_pieces p (unat cs) (unat off + unat cs) (unat GetPageSizeCached)
              @ cut_pieces p (unat cs) 0 (unat off)) (register_page r v p s3)"
    by (auto simp: fresh_chunk_def Let_def res_simps split: prod.splits)
  have q51: "q < 2 ^ 51" using phys_used(2) [OF P] q by blast
  from mapped_new [OF P q m] obtain g' where m': "mapped g q p r g' s s1" by blast
  have P1: "phys g' s1" using m' by (simp add: mapped_def)
  obtain mm where s1: "s1 = s\<lparr>avm := mm\<rparr>" using m' by (auto simp: mapped_def)
  note I = InternalAlloc_Inr [OF a]
  let ?s2 = "s2\<lparr>ppage_vlist := (ppage_vlist s2)(p := empty_lst)\<rparr>"
  have P2: "phys g' ?s2" by (rule phys_set_list [OF phys_heap [OF P1 a]]) (simp_all add: empty_lst_def)
  have "avm ?s2 = avm s1" by (simp add: I)
  note N = mapped_node [OF m' q51 p0 P2 this nv]
  have e3: "avm s3 = avm s1" "free_lists s3 = free_lists s" "Pagemap s3 = Pagemap s" "heap_next s < heap_next s3"
    using N(2-6) I(3) by (auto simp: I(2) s1 intro: less_trans)
  have ps: "p = heap_next s" "p < heap_next s3" using I(1) e3(4) by (simp_all add: s1)
  note D = pieces_okD [OF phys_parts(5) [OF P]]
  have ap: "apart (free_lists s) (Pagemap s) (gC g) (p, x)" for x
    unfolding apart_def
  proof (intro conjI allI ballI impI)
    show "pdisj (p, x) (piece_of f)" if "f \<in> set (free_lists s t c)" for f t c
      using D(5) [OF that] ps by (cases x) (auto simp: piece_of_def)
    show "pdisj (p, x) y" if "live_piece (Pagemap s) (gC g) q = Some y" for q y
      using D(6) [OF that] ps by (cases x; cases y) auto
  qed
  let ?g = "gclaim q (Some (unat off, n)) (gnode v p g')" and ?s = "register_page r v p s3"
  note F = phys_finish [OF m' q P N(1) e3(1-3) less_imp_le [OF e3(4)] ap ps(2) p0, of "unat off" n]
  let ?zs = "cut_pieces p (unat cs) (unat off + unat cs) 4096 @ cut_pieces p (unat cs) 0 (unat off)"
  have zs: "fpage f = p \<and> (unat off + unat cs \<le> unat (foffset f) \<or> unat (foffset f) + unat (fsize f) \<le> unat off)"
    if "f \<in> set ?zs" for f
    using that off cut_pieces_in [of f p "unat cs" "unat off + unat cs" 4096] cut_pieces_in [of f p "unat cs" 0 "unat off"]
    by auto
  have sz: "sorted_wrt disj_free ?zs"
    unfolding sorted_wrt_append
  proof (intro conjI cut_pieces_sorted ballI)
    fix x y assume "x \<in> set (cut_pieces p (unat cs) (unat off + unat cs) 4096)" "y \<in> set (cut_pieces p (unat cs) 0 (unat off))"
    then show "disj_free x y"
      using cut_pieces_in [of x p "unat cs" "unat off + unat cs" 4096] cut_pieces_in [of y p "unat cs" 0 "unat off"] off
      by (auto simp: piece_of_def)
  qed (use off in auto)
  have rs: "free_lists ?s = free_lists s" "heap_next ?s = heap_next s3" by (simp_all add: register_page_def e3)
  have "apart (free_lists ?s) (Pagemap ?s) (gC ?g) (piece_of f)" if f: "f \<in> set ?zs" for f
    unfolding apart_def
  proof (intro conjI allI ballI impI)
    show "pdisj (piece_of f) (piece_of h)" if "h \<in> set (free_lists ?s t c)" for h t c
      using that D(5) [of h t c] ps zs [OF f] unfolding rs by (auto simp: piece_of_def)
    show "pdisj (piece_of f) y" if y: "live_piece (Pagemap ?s) (gC ?g) q' = Some y" for q' y
    proof (cases "q' = q")
      case True
      then have "snd y = (unat off, n)" using y by (auto simp: live_piece_def split: option.splits)
      then show ?thesis using zs [OF f] n by (cases y) (auto simp: piece_of_def)
    next
      case False
      have Cq: "gC g q' \<noteq> None" using y False m' by (auto simp: live_piece_def mapped_def split: option.splits)
      have "base q' \<noteq> r"
      proof -
        have q': "q' < 2 ^ 51" using phys_used(1,3) [OF P] Cq by blast
        have "internal_iserror r \<or> r = base q" using m' by (auto simp: mapped_def)
        then show ?thesis using error_not_base [of r q'] q' q51 False by auto
      qed
      then have "live_piece (Pagemap s) (gC g) q' = Some y"
        using y False m' by (auto simp: live_piece_def mapped_def register_page_def e3 split: option.splits)
      from D(6) [OF this] show ?thesis using ps zs [OF f] by (cases y) (auto simp: piece_of_def)
    qed
  qed
  then have "pieces_ok (heap_next ?s) (upd_list t c (free_lists ?s t c @ ?zs) (free_lists ?s)) (Pagemap ?s) (gC ?g)"
    by (intro pieces_add [OF phys_parts(5) [OF F(1)]] sz) (use zs ps rs in auto)
  then have "phys ?g s'"
    unfolding s' unat_page_size by (intro phys_set_free_list [OF F(1)]) (simp add: free_lists_def)
  then show ?thesis using F(2) by blast
qed

lemma phys_AllocateChunk:
  assumes P: "phys g s" and q: "page_of va \<in> gS g - gU g" and n: "unat sz \<le> unat (Size (SizeMap pr) c)"
    and R: "AllocateChunk pr t c va sz s = Inr s'"
  shows "\<exists>g'. phys g' s' \<and> next_state g (page_of va) (unat va mod 4096, unat sz) g'"
proof (cases "take_chunk (va - base (page_of va)) sz (free_list (caches s t c))")
  case None
  have "unat (va - base (page_of va)) < 4096" by (simp add: unat_page_offset)
  from phys_fresh [OF P q this n] R None show ?thesis
    unfolding AllocateChunk_def Let_def round_down_page unat_page_offset by simp
next
  case (Some x)
  obtain ch rest where x: "x = (ch, rest)" by (cases x)
  from take_chunk_split [OF Some [unfolded x]] obtain xs ys where f: "foffset ch = va - base (page_of va)" "fsize ch = sz"
    and fl: "free_lists s t c = xs @ ch # ys" "rest = xs @ ys"
    by (auto simp: free_lists_def)
  note T = pieces_take [of "heap_next s" "free_lists s" "Pagemap s" "gC g" t c, OF phys_parts(5) [OF P] fl(1)]
  let ?s = "set_free_list t c rest s"
  have P': "phys g ?s" using phys_set_free_list [OF P T(1)] fl(2) by simp
  have sel: "free_lists ?s = upd_list t c (xs @ ys) (free_lists s)" "Pagemap ?s = Pagemap s" "heap_next ?s = heap_next s"
    using fl(2) by (simp_all add: set_free_list_def set_cache_def free_lists_set [unfolded set_free_list_def set_cache_def])
  have "snd (piece_of ch) = (unat va mod 4096, unat sz)" using f by (simp add: piece_of_def unat_page_offset)
  moreover have "reuse_chunk ch (base (page_of va)) ?s = Inr s'"
    using R Some x unfolding AllocateChunk_def Let_def round_down_page by simp
  ultimately show ?thesis
    using phys_reuse [OF P' q, of ch s'] T(2,3) unfolding sel by metis
qed

end
