(* ===== verification/AliasIso.thy ===== *)
theory AliasIso
  imports AliasPhys
begin

text \<open>
  The operations of the aliasing allocator on whole blocks, and what follows for every state that a
  sequence of allocations, frees and memory accesses of any number of threads can reach: live blocks
  never share a byte of physical memory, and no address is used twice.
\<close>

section \<open>How a block is cut at page boundaries\<close>

definition head_len :: "nat \<Rightarrow> nat \<Rightarrow> nat" where
  "head_len a n = (if a mod 4096 \<noteq> 0 then min (4096 - a mod 4096) n else 0)"

definition mid_len :: "nat \<Rightarrow> nat \<Rightarrow> nat" where
  "mid_len a n = (n - head_len a n) div 4096 * 4096"

definition tail_len :: "nat \<Rightarrow> nat \<Rightarrow> nat" where
  "tail_len a n = n - head_len a n - mid_len a n"

definition head_chunk :: "nat \<Rightarrow> nat \<Rightarrow> (nat \<times> nat \<times> nat) list" where
  "head_chunk a n = (if head_len a n = 0 then [] else [(a div 4096, a mod 4096, head_len a n)])"

definition tail_chunk :: "nat \<Rightarrow> nat \<Rightarrow> (nat \<times> nat \<times> nat) list" where
  "tail_chunk a n = (if tail_len a n = 0 then [] else [((a + head_len a n + mid_len a n) div 4096, 0, tail_len a n)])"

definition mid_pages :: "nat \<Rightarrow> nat \<Rightarrow> nat set" where
  "mid_pages a n = {(a + head_len a n) div 4096 ..< (a + head_len a n) div 4096 + mid_len a n div 4096}"

lemma block_geometry:
  assumes "0 < n"
  obtains (small) "head_len a n = n" "mid_len a n = 0" "tail_len a n = 0" "a mod 4096 \<noteq> 0" "a mod 4096 + n \<le> 4096"
      "(a + n - 1) div 4096 = a div 4096"
  | (big) b k r where "a + head_len a n = 4096 * b" "mid_len a n = 4096 * k" "tail_len a n = r" "r < 4096"
      "n = head_len a n + 4096 * k + r" "0 < k \<or> 0 < r" "head_len a n = 0 \<Longrightarrow> a div 4096 = b"
      "0 < head_len a n \<Longrightarrow> a div 4096 + 1 = b" "0 < head_len a n \<Longrightarrow> a mod 4096 + head_len a n = 4096"
      "(a + n - 1) div 4096 + 1 = (if r = 0 then b + k else b + k + 1)"
proof -
  define o1 where "o1 = a mod 4096"
  define d where "d = a div 4096"
  have a: "a = 4096 * d + o1" "o1 < 4096" by (simp_all add: o1_def d_def)
  show ?thesis
  proof (cases "o1 \<noteq> 0 \<and> n \<le> 4096 - o1")
    case True
    have on: "o1 + n \<le> 4096" using True a(2) by linarith
    then have "(a + n - 1) div 4096 = d" using a assms by (intro div_nat_eqI) simp_all
    then show ?thesis
      using True on by (intro small) (simp_all add: head_len_def mid_len_def tail_len_def flip: o1_def d_def)
  next
    case False
    define b where "b = (if o1 = 0 then d else d + 1)"
    have h: "head_len a n = (if o1 = 0 then 0 else 4096 - o1)"
      using False by (auto simp: head_len_def simp flip: o1_def)
    have ab: "a + head_len a n = 4096 * b" unfolding h b_def using a by auto
    have hn: "head_len a n < n" using False assms by (auto simp: h)
    define k where "k = (n - head_len a n) div 4096"
    define r where "r = (n - head_len a n) mod 4096"
    have nk: "n = head_len a n + 4096 * k + r" "r < 4096" using hn by (simp_all add: k_def r_def)
    have m: "mid_len a n = 4096 * k" by (simp add: mid_len_def k_def)
    have t: "tail_len a n = r" using nk(1) by (simp add: tail_len_def m)
    have kr: "0 < k \<or> 0 < r" using hn nk(1) by auto
    have e: "a + n - 1 = 4096 * b + 4096 * k + r - 1" using ab nk(1) by simp
    have "(a + n - 1) div 4096 + 1 = (if r = 0 then b + k else b + k + 1)"
    proof (cases "r = 0")
      case True
      then obtain j where j: "k = Suc j" using kr by (cases k) auto
      have "(a + n - 1) div 4096 = b + j" unfolding e by (intro div_nat_eqI) (simp_all add: True j)
      then show ?thesis using True j by simp
    next
      case False
      have "(a + n - 1) div 4096 = b + k" unfolding e by (intro div_nat_eqI) (use False nk(2) in simp_all)
      then show ?thesis using False by simp
    qed
    then show ?thesis
      using ab m t nk kr h a by (intro big) (simp_all add: b_def flip: o1_def d_def split: if_splits)
  qed
qed

lemma pages_of_block:
  assumes "0 < n"
  shows "{a div 4096 .. (a + n - 1) div 4096} = fst ` set (head_chunk a n) \<union> mid_pages a n \<union> fst ` set (tail_chunk a n)"
    "fst ` set (head_chunk a n) \<inter> mid_pages a n = {}" "fst ` set (head_chunk a n) \<inter> fst ` set (tail_chunk a n) = {}"
    "mid_pages a n \<inter> fst ` set (tail_chunk a n) = {}"
  using assms
  by (cases rule: block_geometry [of n a];
      force simp: head_chunk_def tail_chunk_def mid_pages_def split: if_splits)+

text \<open>A byte of the block lies in its head, on a whole page or in its tail.\<close>

lemma byte_cases:
  assumes n: "0 < n" and x: "a \<le> x" "x < a + n"
  obtains "x div 4096 \<in> mid_pages a n"
  | off len where "(x div 4096, off, len) \<in> set (head_chunk a n @ tail_chunk a n)"
      "off \<le> x mod 4096" "x mod 4096 < off + len"
  using n
proof (cases rule: block_geometry [of n a])
  case small
  have "x div 4096 \<le> (a + n - 1) div 4096" "a div 4096 \<le> x div 4096" using x by (simp_all add: div_le_mono)
  then have d: "x div 4096 = a div 4096" using small by simp
  then have "x mod 4096 + a = x + a mod 4096"
    using mult_div_mod_eq [of 4096 x] mult_div_mod_eq [of 4096 a] by linarith
  then show ?thesis
    using small d x n by (intro that(2) [of "a mod 4096" n]) (auto simp: head_chunk_def)
next
  case (big b k r)
  show ?thesis
  proof (cases "x < a + head_len a n")
    case True
    then have hp: "0 < head_len a n" using x(1) by simp
    have "x < 4096 * (a div 4096 + 1)" using True big(1) big(8) [OF hp] by simp
    moreover have "4096 * (a div 4096) \<le> x" using x(1) mult_div_mod_eq [of 4096 a] by linarith
    ultimately have d: "x div 4096 = a div 4096" by (intro div_nat_eqI) simp_all
    then have "x mod 4096 + a = x + a mod 4096"
      using mult_div_mod_eq [of 4096 x] mult_div_mod_eq [of 4096 a] by linarith
    then show ?thesis
      using big d x True by (intro that(2) [of "a mod 4096" "head_len a n"]) (auto simp: head_chunk_def)
  next
    case False
    show ?thesis
    proof (cases "x < 4096 * (b + k)")
      case True
      have "b \<le> x div 4096" "x div 4096 < b + k" using False True big(1) by (auto simp: less_eq_div_iff_mult_less_eq div_less_iff_less_mult)
      then show ?thesis using big by (intro that(1)) (simp add: mid_pages_def)
    next
      case ge: False
      have "x < 4096 * (b + k) + r" using x(2) big(1,5) by simp
      then have "x div 4096 = b + k" using ge big(4) by (intro div_nat_eqI) simp_all
      moreover have "x mod 4096 < r" using \<open>x < 4096 * (b + k) + r\<close> mult_div_mod_eq [of 4096 x] calculation by simp
      moreover have "(a + head_len a n + mid_len a n) div 4096 = b + k" using big(1,2) by simp
      ultimately show ?thesis
        using big by (intro that(2) [of 0 r]) (auto simp: tail_chunk_def)
    qed
  qed
qed

section \<open>The operations in stages\<close>

definition w_head :: "uptr \<Rightarrow> uptr \<Rightarrow> uptr" where
  "w_head p sz = (if p - RoundDownTo p GetPageSizeCached \<noteq> 0
     then if GetPageSizeCached - (p - RoundDownTo p GetPageSizeCached) < sz
          then GetPageSizeCached - (p - RoundDownTo p GetPageSizeCached) else sz
     else 0)"

definition w_mid :: "uptr \<Rightarrow> uptr \<Rightarrow> uptr" where
  "w_mid p sz = (if sz - w_head p sz \<ge> GetPageSizeCached then RoundDownTo (sz - w_head p sz) GetPageSizeCached else 0)"

definition w_tail :: "uptr \<Rightarrow> uptr \<Rightarrow> uptr" where
  "w_tail p sz = sz - w_head p sz - w_mid p sz"

lemma unat_w_head: "unat (w_head p sz) = head_len (unat p) (unat sz)"
proof -
  have o1: "unat (p - RoundDownTo p GetPageSizeCached) = unat p mod 4096"
    unfolding round_down_page by (rule unat_page_offset)
  have z: "p - RoundDownTo p GetPageSizeCached \<noteq> 0 \<longleftrightarrow> unat p mod 4096 \<noteq> 0"
    unfolding o1 [symmetric] by (simp add: unat_eq_zero)
  have "p - RoundDownTo p GetPageSizeCached \<le> GetPageSizeCached"
    unfolding word_le_nat_alt o1 unat_page_size by (simp add: less_imp_le)
  then have d: "unat (GetPageSizeCached - (p - RoundDownTo p GetPageSizeCached)) = 4096 - unat p mod 4096"
    by (subst unat_sub) (simp_all only: o1 unat_page_size)
  show ?thesis
    unfolding w_head_def head_len_def z using d by (auto simp: word_less_nat_alt)
qed

lemma head_len_le: "head_len a n \<le> n"
  by (simp add: head_len_def)

lemma unat_w_rest: "unat (sz - w_head p sz) = unat sz - head_len (unat p) (unat sz)"
  using head_len_le [of "unat p" "unat sz"] by (subst unat_sub) (simp_all add: word_le_nat_alt unat_w_head)

lemma unat_w_mid: "unat (w_mid p sz) = mid_len (unat p) (unat sz)"
proof -
  have "unat (RoundDownTo (sz - w_head p sz) GetPageSizeCached) = mid_len (unat p) (unat sz)"
    unfolding page_size_pow2 unat_RoundDownTo unat_w_rest mid_len_def by simp
  moreover have "mid_len (unat p) (unat sz) = 0" if "\<not> GetPageSizeCached \<le> sz - w_head p sz"
    using that by (simp add: word_le_nat_alt unat_w_rest unat_page_size mid_len_def)
  ultimately show ?thesis by (simp add: w_mid_def)
qed

lemma mid_len_le: "mid_len a n \<le> n - head_len a n"
  unfolding mid_len_def by (rule div_times_less_eq_dividend)

lemma unat_w_tail: "unat (w_tail p sz) = tail_len (unat p) (unat sz)"
  unfolding w_tail_def tail_len_def using mid_len_le [of "unat p" "unat sz"]
  by (subst unat_sub) (simp_all add: word_le_nat_alt unat_w_rest unat_w_mid)

lemma head_stage_iff: "p - RoundDownTo p GetPageSizeCached \<noteq> 0 \<longleftrightarrow> unat p mod 4096 \<noteq> 0"
proof -
  have "unat (p - RoundDownTo p GetPageSizeCached) = unat p mod 4096"
    unfolding round_down_page by (rule unat_page_offset)
  then show ?thesis by (metis unat_eq_zero)
qed

lemma unat_w_addr:
  assumes "unat p \<le> 2 ^ 50" "unat sz \<le> 2 ^ 20"
  shows "unat (p + w_head p sz) = unat p + head_len (unat p) (unat sz)"
    "unat (p + w_head p sz + w_mid p sz) = unat p + head_len (unat p) (unat sz) + mid_len (unat p) (unat sz)"
proof -
  have h: "head_len (unat p) (unat sz) + mid_len (unat p) (unat sz) \<le> 2 ^ 20"
    using head_len_le [of "unat p" "unat sz"] mid_len_le [of "unat p" "unat sz"] assms(2) by linarith
  show a: "unat (p + w_head p sz) = unat p + head_len (unat p) (unat sz)"
    using assms(1) h by (subst unat_bump) (simp_all add: unat_w_head)
  show "unat (p + w_head p sz + w_mid p sz) = unat p + head_len (unat p) (unat sz) + mid_len (unat p) (unat sz)"
    using assms(1) h by (subst unat_add_nowrap) (simp_all add: a unat_w_mid)
qed

lemma Allocate_stages:
  assumes "Allocate pr onmap t c rz s = Inr (p, s')" and sz: "sz = Size (SizeMap pr) c"
  obtains s0 s1 s2 s3 where "Refill pr t c sz s = Inr s0" "p = lower_bound (caches s0 t c)"
    "(if p - RoundDownTo p GetPageSizeCached \<noteq> 0 then
        bindr (AllocateChunk pr t c p (w_head p sz) s0) (\<lambda>s'. OnMap onmap (RoundDownTo p GetPageSizeCached) GetPageSizeCached s')
      else Inr s0) = Inr s1"
    "(if sz - w_head p sz \<ge> GetPageSizeCached then
        check (IsAligned (p + w_head p sz) GetPageSizeCached) ''IsAligned(vaddr, page_size_)'' (
        bindr (OnMap onmap (p + w_head p sz) (w_mid p sz) s1) (\<lambda>s'.
        bindr (MmapFixedOrDie (p + w_head p sz) (w_mid p sz) (avm s')) (\<lambda>(p, m). Inr (s'\<lparr>avm := m\<rparr>))))
      else Inr s1) = Inr s2"
    "(if w_tail p sz > 0 then
        check (IsAligned (p + w_head p sz + w_mid p sz) GetPageSizeCached) ''IsAligned(vaddr, page_size_)'' (
        bindr (OnMap onmap (p + w_head p sz + w_mid p sz) GetPageSizeCached s2) (\<lambda>s'.
          AllocateChunk pr t c (p + w_head p sz + w_mid p sz) (w_tail p sz) s'))
      else Inr s2) = Inr s3"
    "s' = set_cache t c ((caches s3 t c)\<lparr>lower_bound := lower_bound (caches s3 t c) + (sz + rz)\<rparr>) s3"
  using assms(1)
  unfolding Allocate_def Let_def ClassIdToSize_def bindr_Inr sum.inject prod.inject sz [symmetric]
  apply (elim exE conjE)
  subgoal premises prems for s0 s1 s2 s3
    by (rule that [of s0 s1 s2 s3]) (use prems in \<open>simp_all only: w_head_def w_mid_def w_tail_def\<close>)
  done

section \<open>Allocation of a block\<close>

text \<open>What a block does to the ghost state.\<close>

definition chunk_map :: "nat \<Rightarrow> nat \<Rightarrow> nat \<Rightarrow> (nat \<times> nat) option" where
  "chunk_map a n = map_of (head_chunk a n @ tail_chunk a n)"

definition add_block :: "ghost \<Rightarrow> nat \<Rightarrow> nat \<Rightarrow> ghost \<Rightarrow> bool" where
  "add_block g a n g' \<longleftrightarrow> gS g' = gS g \<and> gU g' = gU g \<union> {a div 4096 .. (a + n - 1) div 4096} \<and>
     gM g' = gM g \<union> mid_pages a n \<and> gC g' = gC g ++ chunk_map a n"

lemma phys_client: "phys g s \<Longrightarrow> phys g (s\<lparr>client := k\<rparr>)"
  by (simp add: phys_def)

lemma phys_OnMap: "phys g s \<Longrightarrow> OnMap onmap b n s = Inr s' \<Longrightarrow> phys g s'"
  by (auto simp: OnMap_def res_simps phys_client)

lemma phys_Refill: "phys g s \<Longrightarrow> Refill pr t c sz s = Inr s' \<Longrightarrow> phys g s'"
  by (subst phys_view [of s' s])
    (auto simp: pview_def Refill_def GetFromAllocator_def GetRegionInfo_def Let_def res_simps free_lists_def
      set_cache_def fun_eq_iff split: if_splits)

lemma phys_bump: "phys g s \<Longrightarrow> phys g (set_cache t c ((caches s t c)\<lparr>lower_bound := l\<rparr>) s)"
  by (subst phys_view [of _ s]) (auto simp: pview_def free_lists_def set_cache_def fun_eq_iff)

lemma head_chunk_mod: "unat p mod 4096 \<noteq> 0 \<Longrightarrow> 0 < n \<Longrightarrow>
    head_chunk (unat p) n = [(page_of p, unat p mod 4096, head_len (unat p) n)]"
  by (simp add: head_chunk_def head_len_def page_of_def)

lemma head_chunk_aligned: "unat p mod 4096 = 0 \<Longrightarrow> head_chunk (unat p) n = []"
  by (simp add: head_chunk_def head_len_def)

lemma phys_head:
  assumes P: "phys g s" and n: "0 < unat (Size (SizeMap pr) c)"
    and q: "fst ` set (head_chunk (unat p) (unat (Size (SizeMap pr) c))) \<subseteq> gS g - gU g"
    and R: "(if p - RoundDownTo p GetPageSizeCached \<noteq> 0 then
        bindr (AllocateChunk pr t c p (w_head p (Size (SizeMap pr) c)) s) (\<lambda>s'. OnMap onmap b k s')
      else Inr s) = Inr s1"
  shows "\<exists>g'. phys g' s1 \<and> gS g' = gS g \<and> gM g' = gM g \<and>
    gU g' = gU g \<union> fst ` set (head_chunk (unat p) (unat (Size (SizeMap pr) c))) \<and>
    gC g' = gC g ++ map_of (head_chunk (unat p) (unat (Size (SizeMap pr) c)))"
proof (cases "unat p mod 4096 = 0")
  case True
  then have "s1 = s" using R head_stage_iff [of p] by simp
  then show ?thesis using P head_chunk_aligned [OF True] by (intro exI [of _ g]) simp
next
  case False
  let ?sz = "Size (SizeMap pr) c"
  note hc = head_chunk_mod [OF False n]
  from R False head_stage_iff [of p] obtain s' where a: "AllocateChunk pr t c p (w_head p ?sz) s = Inr s'"
    and o1: "OnMap onmap b k s' = Inr s1"
    by (auto simp: res_simps)
  have "page_of p \<in> gS g - gU g" using q unfolding hc by simp
  from phys_AllocateChunk [OF P this _ a] obtain g' where g': "phys g' s'"
    "next_state g (page_of p) (unat p mod 4096, unat (w_head p ?sz)) g'"
    by (auto simp: unat_w_head head_len_le)
  have "phys g' s1" by (rule phys_OnMap [OF g'(1) o1])
  then show ?thesis
    using g'(2) unfolding hc by (intro exI [of _ g']) (auto simp: next_state_def unat_w_head)
qed

lemma phys_mid:
  assumes P: "phys g s" and pb: "unat p \<le> 2 ^ 50" "unat sz \<le> 2 ^ 20" and n: "0 < unat sz"
    and q: "mid_pages (unat p) (unat sz) \<subseteq> gS g - gU g"
    and R: "(if sz - w_head p sz \<ge> GetPageSizeCached then
        check (IsAligned (p + w_head p sz) GetPageSizeCached) msg (
        bindr (OnMap onmap (p + w_head p sz) (w_mid p sz) s) (\<lambda>s'.
        bindr (MmapFixedOrDie (p + w_head p sz) (w_mid p sz) (avm s')) (\<lambda>(p, m). Inr (s'\<lparr>avm := m\<rparr>))))
      else Inr s) = Inr s1"
  shows "\<exists>g'. phys g' s1 \<and> gS g' = gS g \<and> gM g' = gM g \<union> mid_pages (unat p) (unat sz) \<and>
    gU g' = gU g \<union> mid_pages (unat p) (unat sz) \<and> gC g' = gC g"
proof (cases "GetPageSizeCached \<le> sz - w_head p sz")
  case False
  then have "mid_pages (unat p) (unat sz) = {}"
    by (simp add: word_le_nat_alt unat_w_rest unat_page_size mid_pages_def mid_len_def)
  then show ?thesis using R P False by (intro exI [of _ g]) simp
next
  case True
  let ?h = "head_len (unat p) (unat sz)" and ?va = "p + w_head p sz"
  from R True obtain s' x m where al: "IsAligned ?va GetPageSizeCached" and o1: "OnMap onmap ?va (w_mid p sz) s = Inr s'"
    and m: "MmapFixedOrDie ?va (w_mid p sz) (avm s') = Inr (x, m)" and s1: "s1 = s'\<lparr>avm := m\<rparr>"
    by (auto simp: res_simps split: prod.splits)
  have P': "phys g s'" by (rule phys_OnMap [OF P o1])
  define k where "k = mid_len (unat p) (unat sz) div 4096"
  have mk: "unat (w_mid p sz) = k * 4096" by (simp add: unat_w_mid k_def mid_len_def)
  have kb: "k < 2 ^ 40" using mid_len_le [of "unat p" "unat sz"] pb(2) by (simp add: k_def)
  have va: "unat ?va mod 4096 = 0" using al unfolding page_size_pow2 IsAligned_iff_dvd by (simp add: mod_eq_0_iff_dvd)
  note M = private_cases [OF m map_okD(8) [OF phys_parts(1) [OF P']] mk kb va]
  have mp: "mid_pages (unat p) (unat sz) = {page_of ?va ..< page_of ?va + k}"
    by (simp add: mid_pages_def page_of_def unat_w_addr(1) [OF pb] k_def)
  have "phys (gmiddle {page_of ?va ..< page_of ?va + k} g) (s'\<lparr>avm := m\<rparr>)"
    by (rule phys_middle [OF P' _ M]) (use q mp in simp)
  then show ?thesis
    unfolding s1 mp by (intro exI [of _ "gmiddle {page_of ?va ..< page_of ?va + k} g"]) simp
qed

lemma phys_tail:
  assumes P: "phys g s" and pb: "unat p \<le> 2 ^ 50" "unat (Size (SizeMap pr) c) \<le> 2 ^ 20" and n: "0 < unat (Size (SizeMap pr) c)"
    and q: "fst ` set (tail_chunk (unat p) (unat (Size (SizeMap pr) c))) \<subseteq> gS g - gU g"
    and sz: "sz = Size (SizeMap pr) c"
    and R: "(if w_tail p sz > 0 then
        check (IsAligned (p + w_head p sz + w_mid p sz) GetPageSizeCached) msg (
        bindr (OnMap onmap (p + w_head p sz + w_mid p sz) GetPageSizeCached s) (\<lambda>s'.
          AllocateChunk pr t c (p + w_head p sz + w_mid p sz) (w_tail p sz) s'))
      else Inr s) = Inr s1"
  shows "\<exists>g'. phys g' s1 \<and> gS g' = gS g \<and> gM g' = gM g \<and>
    gU g' = gU g \<union> fst ` set (tail_chunk (unat p) (unat sz)) \<and>
    gC g' = gC g ++ map_of (tail_chunk (unat p) (unat sz))"
proof (cases "tail_len (unat p) (unat sz) = 0")
  case True
  then have "tail_chunk (unat p) (unat sz) = []" "\<not> w_tail p sz > 0"
    by (simp_all add: tail_chunk_def word_less_nat_alt unat_w_tail)
  then show ?thesis using R P by (intro exI [of _ g]) simp
next
  case False
  let ?va = "p + w_head p sz + w_mid p sz"
  have "w_tail p sz > 0" using False by (simp add: word_less_nat_alt unat_w_tail)
  then obtain s' where al: "IsAligned ?va GetPageSizeCached" and o1: "OnMap onmap ?va GetPageSizeCached s = Inr s'"
    and a: "AllocateChunk pr t c ?va (w_tail p sz) s' = Inr s1"
    using R by (auto simp: res_simps)
  have P': "phys g s'" by (rule phys_OnMap [OF P o1])
  have va: "unat ?va mod 4096 = 0" using al unfolding page_size_pow2 IsAligned_iff_dvd by (simp add: mod_eq_0_iff_dvd)
  have tc: "tail_chunk (unat p) (unat sz) = [(page_of ?va, 0, tail_len (unat p) (unat sz))]"
    using False pb by (simp add: tail_chunk_def page_of_def unat_w_addr(2) sz)
  have "unat (w_tail p sz) \<le> unat (Size (SizeMap pr) c)" unfolding unat_w_tail by (simp add: tail_len_def sz)
  from phys_AllocateChunk [OF P' _ this a] q [folded sz] obtain g' where g': "phys g' s1"
    "next_state g (page_of ?va) (unat ?va mod 4096, unat (w_tail p sz)) g'"
    unfolding tc by auto
  then show ?thesis
    unfolding tc using va by (intro exI [of _ g']) (auto simp: next_state_def unat_w_tail)
qed

theorem phys_Allocate:
  assumes P: "phys g s" and A: "Allocate AP64 onmap t c rz s = Inr (p, s')" and c: "valid_class c"
    and pb: "unat p \<le> 2 ^ 50" and q: "block_pages (p, c) \<subseteq> gS g - gU g"
  shows "\<exists>g'. phys g' s' \<and> add_block g (unat p) (csize c) g'"
proof -
  let ?sz = "Size DefaultSizeClassMap c"
  have n: "0 < unat ?sz" "unat ?sz \<le> 2 ^ 20"
    using csize_bounds [OF c] by (simp_all add: csize_def)
  note pg = pages_of_block [OF n(1), of "unat p"]
  have q': "{unat p div 4096 .. (unat p + unat ?sz - 1) div 4096} \<subseteq> gS g - gU g" using q by (simp add: csize_def)
  have sm: "SizeMap AP64 = DefaultSizeClassMap" by (simp add: AP64_def)
  obtain s0 s1 s2 s3 where R: "Refill AP64 t c ?sz s = Inr s0"
    and R1: "(if p - RoundDownTo p GetPageSizeCached \<noteq> 0 then
        bindr (AllocateChunk AP64 t c p (w_head p ?sz) s0) (\<lambda>s'. OnMap onmap (RoundDownTo p GetPageSizeCached) GetPageSizeCached s')
      else Inr s0) = Inr s1"
    and R2: "(if ?sz - w_head p ?sz \<ge> GetPageSizeCached then
        check (IsAligned (p + w_head p ?sz) GetPageSizeCached) ''IsAligned(vaddr, page_size_)'' (
        bindr (OnMap onmap (p + w_head p ?sz) (w_mid p ?sz) s1) (\<lambda>s'.
        bindr (MmapFixedOrDie (p + w_head p ?sz) (w_mid p ?sz) (avm s')) (\<lambda>(p, m). Inr (s'\<lparr>avm := m\<rparr>))))
      else Inr s1) = Inr s2"
    and R3: "(if w_tail p ?sz > 0 then
        check (IsAligned (p + w_head p ?sz + w_mid p ?sz) GetPageSizeCached) ''IsAligned(vaddr, page_size_)'' (
        bindr (OnMap onmap (p + w_head p ?sz + w_mid p ?sz) GetPageSizeCached s2) (\<lambda>s'.
          AllocateChunk AP64 t c (p + w_head p ?sz + w_mid p ?sz) (w_tail p ?sz) s'))
      else Inr s2) = Inr s3"
    and s': "s' = set_cache t c ((caches s3 t c)\<lparr>lower_bound := lower_bound (caches s3 t c) + (?sz + rz)\<rparr>) s3"
    by (rule Allocate_stages [OF A, of ?sz]) (simp add: sm, rule that)
  have P0: "phys g s0" by (rule phys_Refill [OF P R])
  have "fst ` set (head_chunk (unat p) (unat ?sz)) \<subseteq> gS g - gU g" using q' unfolding pg(1) by blast
  from phys_head [of g s0 AP64 c p, unfolded sm, OF P0 n(1) this R1] obtain g1 where g1: "phys g1 s1"
    "gS g1 = gS g" "gM g1 = gM g" "gU g1 = gU g \<union> fst ` set (head_chunk (unat p) (unat ?sz))"
    "gC g1 = gC g ++ map_of (head_chunk (unat p) (unat ?sz))"
    by - (elim exE conjE, rule that)
  have "mid_pages (unat p) (unat ?sz) \<subseteq> gS g1 - gU g1"
    using q' pg(2) unfolding pg(1) g1(2,4) by blast
  from phys_mid [OF g1(1) pb n(2) n(1) this R2] obtain g2 where g2: "phys g2 s2"
    "gS g2 = gS g1" "gM g2 = gM g1 \<union> mid_pages (unat p) (unat ?sz)"
    "gU g2 = gU g1 \<union> mid_pages (unat p) (unat ?sz)" "gC g2 = gC g1"
    by - (elim exE conjE, rule that)
  have "fst ` set (tail_chunk (unat p) (unat ?sz)) \<subseteq> gS g2 - gU g2"
    using q' pg(3,4) unfolding pg(1) g2(2,4) g1(2,4) by blast
  from phys_tail [of g2 s2 p AP64 c, unfolded sm, OF g2(1) pb n(2) n(1) this refl R3] obtain g3 where g3: "phys g3 s3"
    "gS g3 = gS g2" "gM g3 = gM g2" "gU g3 = gU g2 \<union> fst ` set (tail_chunk (unat p) (unat ?sz))"
    "gC g3 = gC g2 ++ map_of (tail_chunk (unat p) (unat ?sz))"
    by - (elim exE conjE, rule that)
  have "map_of (tail_chunk (unat p) (unat ?sz)) ++ map_of (head_chunk (unat p) (unat ?sz))
      = map_of (head_chunk (unat p) (unat ?sz)) ++ map_of (tail_chunk (unat p) (unat ?sz))"
    by (rule map_add_comm) (use pg(3) in \<open>auto simp: dom_map_of_conv_image_fst\<close>)
  then have C: "gC g3 = gC g ++ chunk_map (unat p) (unat ?sz)"
    unfolding g3(5) g2(5) g1(5) chunk_map_def map_of_append by (simp only: map_add_assoc [symmetric])
  have "gU g3 = gU g \<union> {unat p div 4096 .. (unat p + unat ?sz - 1) div 4096}"
    unfolding pg(1) g3(4) g2(4) g1(4) by (simp only: Un_assoc)
  then have "add_block g (unat p) (csize c) g3"
    unfolding add_block_def csize_def using C g3(2,3) g2(2,3) g1(2,3) by simp
  then show ?thesis using phys_bump [OF g3(1)] unfolding s' by blast
qed

section \<open>Freeing a block\<close>

lemma Deallocate_stages:
  assumes "Deallocate pr t c p s = Inr s'" and sz: "sz = Size (SizeMap pr) c"
  obtains len s1 s2 r m where
    "RoundUpTo (p + sz - RoundDownTo p GetPageSizeCached) GetPageSizeCached = Inr len"
    "(if p - RoundDownTo p GetPageSizeCached \<noteq> 0 then DeallocateChunk t c p (w_head p sz) s else Inr s) = Inr s1"
    "(if w_tail p sz > 0 then DeallocateChunk t c (p + w_head p sz + w_mid p sz) (w_tail p sz) s1 else Inr s1) = Inr s2"
    "MmapFixedNoAccess (RoundDownTo p GetPageSizeCached) len (avm s2) = (r, m)" "s' = s2\<lparr>avm := m\<rparr>"
  using assms(1)
  unfolding Deallocate_def Let_def ClassIdToSize_def bindr_Inr case_prod_unfold sz [symmetric]
  apply (elim exE conjE)
  subgoal premises prems for len s1 s2
    by (rule that [of len s1 s2 "fst (MmapFixedNoAccess (RoundDownTo p GetPageSizeCached) len (avm s2))"
          "snd (MmapFixedNoAccess (RoundDownTo p GetPageSizeCached) len (avm s2))"])
      (use prems in \<open>simp_all only: w_head_def w_mid_def w_tail_def sum.inject prod.collapse\<close>)
  done

lemma phys_MmapFixedNoAccess:
  assumes P: "phys g s" and m: "MmapFixedNoAccess va n (avm s) = (r, m)"
  shows "phys g (s\<lparr>avm := m\<rparr>)"
proof (cases rule: none_cases [OF m map_okD(8) [OF phys_parts(1) [OF P]]])
  case 1
  then show ?thesis
    by (intro phys_no_access [OF P, where a = 0 and b = 0]) simp_all
next
  case 2
  then show ?thesis by (intro phys_no_access [OF P]) simp_all
qed

text \<open>The chunks of the block go back to the free list, and nothing else changes.\<close>

definition drop_chunks :: "ghost \<Rightarrow> nat \<Rightarrow> nat \<Rightarrow> ghost \<Rightarrow> bool" where
  "drop_chunks g a n g' \<longleftrightarrow> gS g' = gS g \<and> gU g' = gU g \<and> gM g' = gM g \<and>
     (\<forall>q. q \<notin> dom (chunk_map a n) \<longrightarrow> gC g' q = gC g q)"

theorem phys_Deallocate:
  assumes P: "phys g s" and D: "Deallocate AP64 t c p s = Inr s'" and c: "valid_class c" and pb: "unat p \<le> 2 ^ 50"
    and live: "\<And>q x. chunk_map (unat p) (csize c) q = Some x \<Longrightarrow> gC g q = Some x"
  shows "\<exists>g'. phys g' s' \<and> drop_chunks g (unat p) (csize c) g'"
proof -
  let ?sz = "Size DefaultSizeClassMap c"
  have n: "0 < unat ?sz" "unat ?sz \<le> 2 ^ 20"
    using csize_bounds [OF c] by (simp_all add: csize_def)
  have cs: "csize c = unat ?sz" by (simp add: csize_def)
  have sm: "?sz = Size (SizeMap AP64) c" by (simp add: AP64_def)
  let ?h = "head_chunk (unat p) (unat ?sz)" and ?t = "tail_chunk (unat p) (unat ?sz)"
  note pg = pages_of_block [OF n(1), of "unat p"]
  obtain len s1 s2 r m where
    d1: "(if p - RoundDownTo p GetPageSizeCached \<noteq> 0 then DeallocateChunk t c p (w_head p ?sz) s else Inr s) = Inr s1"
    and d2: "(if w_tail p ?sz > 0 then DeallocateChunk t c (p + w_head p ?sz + w_mid p ?sz) (w_tail p ?sz) s1 else Inr s1) = Inr s2"
    and mm: "MmapFixedNoAccess (RoundDownTo p GetPageSizeCached) len (avm s2) = (r, m)" and s': "s' = s2\<lparr>avm := m\<rparr>"
    by (rule Deallocate_stages [OF D sm])
  have "\<exists>g1. phys g1 s1 \<and> gS g1 = gS g \<and> gU g1 = gU g \<and> gM g1 = gM g \<and>
      (\<forall>q. q \<notin> fst ` set ?h \<longrightarrow> gC g1 q = gC g q)"
  proof (cases "unat p mod 4096 = 0")
    case True
    then show ?thesis using d1 head_stage_iff [of p] P by auto
  next
    case False
    note hc = head_chunk_mod [OF False n(1)]
    have "chunk_map (unat p) (csize c) (page_of p) = Some (unat p mod 4096, head_len (unat p) (unat ?sz))"
      unfolding chunk_map_def cs hc by simp
    from live [OF this] have C: "gC g (page_of p) = Some (unat p mod 4096, unat (w_head p ?sz))"
      by (simp add: unat_w_head)
    have "DeallocateChunk t c p (w_head p ?sz) s = Inr s1" using d1 False head_stage_iff [of p] by simp
    from phys_DeallocateChunk [OF P C this] show ?thesis
      unfolding hc by (intro exI [of _ "gclaim (page_of p) None g"]) auto
  qed
  then obtain g1 where g1: "phys g1 s1" "gS g1 = gS g" "gU g1 = gU g" "gM g1 = gM g"
    "\<And>q. q \<notin> fst ` set ?h \<Longrightarrow> gC g1 q = gC g q" by blast
  have "\<exists>g2. phys g2 s2 \<and> gS g2 = gS g1 \<and> gU g2 = gU g1 \<and> gM g2 = gM g1 \<and>
      (\<forall>q. q \<notin> fst ` set ?t \<longrightarrow> gC g2 q = gC g1 q)"
  proof (cases "tail_len (unat p) (unat ?sz) = 0")
    case True
    then have "\<not> w_tail p ?sz > 0" by (simp add: word_less_nat_alt unat_w_tail)
    then show ?thesis using d2 g1(1) by auto
  next
    case False
    let ?va = "p + w_head p ?sz + w_mid p ?sz"
    have tp: "w_tail p ?sz > 0" using False by (simp add: word_less_nat_alt unat_w_tail)
    have tc: "?t = [(page_of ?va, 0, tail_len (unat p) (unat ?sz))]"
      using False pb n by (simp add: tail_chunk_def page_of_def unat_w_addr(2))
    have va: "unat ?va mod 4096 = 0"
      unfolding unat_w_addr(2) [OF pb n(2)] using False
      by (cases rule: block_geometry [OF n(1), of "unat p"]) simp_all
    have nh: "page_of ?va \<notin> fst ` set ?h" using pg(3) unfolding tc by auto
    then have "map_of ?h (page_of ?va) = None" by (simp add: map_of_eq_None_iff)
    then have "chunk_map (unat p) (csize c) (page_of ?va) = Some (0, tail_len (unat p) (unat ?sz))"
      unfolding chunk_map_def cs map_of_append tc by (simp add: map_add_def)
    from live [OF this] have "gC g1 (page_of ?va) = Some (unat ?va mod 4096, unat (w_tail p ?sz))"
      using g1(5) [OF nh] va by (simp add: unat_w_tail)
    moreover have "DeallocateChunk t c ?va (w_tail p ?sz) s1 = Inr s2" using d2 tp by simp
    ultimately show ?thesis
      using phys_DeallocateChunk [OF g1(1)] unfolding tc by (intro exI [of _ "gclaim (page_of ?va) None g1"]) auto
  qed
  then obtain g2 where g2: "phys g2 s2" "gS g2 = gS g1" "gU g2 = gU g1" "gM g2 = gM g1"
    "\<And>q. q \<notin> fst ` set ?t \<Longrightarrow> gC g2 q = gC g1 q" by blast
  have "gC g2 q = gC g q" if "q \<notin> dom (chunk_map (unat p) (csize c))" for q
  proof -
    have "q \<notin> fst ` set ?h" "q \<notin> fst ` set ?t" using that unfolding chunk_map_def cs dom_map_of_conv_image_fst by auto
    then show ?thesis using g1(5) g2(5) by simp
  qed
  then have "drop_chunks g (unat p) (csize c) g2"
    using g1(2-4) g2(2-4) by (simp add: drop_chunks_def)
  moreover have "phys g2 s'" unfolding s' by (rule phys_MmapFixedNoAccess [OF g2(1) mm])
  ultimately show ?thesis by blast
qed

section \<open>Reachable states\<close>

text \<open>
  The state after start-up: the space is reserved without access, nothing is shared, no slab is handed
  out. What the rest of the process has mapped is arbitrary.
\<close>

definition space_pages :: "uptr \<Rightarrow> nat set" where
  "space_pages b = {unat b div 4096 ..< unat b div 4096 + 2 ^ 34}"

definition vm_start :: "uptr \<Rightarrow> vm \<Rightarrow> bool" where
  "vm_start b m \<longleftrightarrow> errors_ok m \<and> (\<forall>q f. frame_of (pages m q) = Some f \<longrightarrow> f < next_frame m) \<and>
     (\<forall>q f. pages m q \<noteq> Some (Shared f)) \<and>
     (\<forall>q q' f. pages m q = Some (Private f) \<longrightarrow> pages m q' = Some (Private f) \<longrightarrow> q = q') \<and>
     (\<forall>q \<in> space_pages b. frame_of (pages m q) = None)"

definition alloc_start :: "'s ast \<Rightarrow> bool" where
  "alloc_start s \<longleftrightarrow> space_ok (NonConstSpaceBeg s) \<and> vm_start (NonConstSpaceBeg s) (avm s) \<and>
     (\<forall>c. region_pos s c = 0) \<and> Forkmap s = (\<lambda>_. None) \<and> Pagemap s = (\<lambda>_. None) \<and>
     (\<forall>x. dnext (vpage_links s) x = 0 \<and> dprev (vpage_links s) x = 0) \<and>
     (\<forall>p. lfirst (ppage_vlist s p) = 0 \<and> llast (ppage_vlist s p) = 0) \<and> 0 < heap_next s \<and>
     (\<forall>t c. lower_bound (caches s t c) = 0 \<and> upper_bound (caches s t c) = 0 \<and> free_list (caches s t c) = [])"

text \<open>
  What can happen: any thread allocates a block of any class, any thread frees a live block, the program
  writes a byte anywhere, and the callback's state changes. \<open>live\<close> are the blocks that were not freed, \<open>bs\<close> all
  blocks so far.
\<close>

inductive areach :: "'s callback \<Rightarrow> 's ast \<Rightarrow> 's ast \<Rightarrow> block set \<Rightarrow> block list \<Rightarrow> bool" for onmap s0 where
  start: "areach onmap s0 s0 {} []"
| alloc: "areach onmap s0 s live bs \<Longrightarrow> valid_class c \<Longrightarrow> rz_ok rz \<Longrightarrow> Allocate AP64 onmap t c rz s = Inr (p, s')
    \<Longrightarrow> areach onmap s0 s' (insert (p, c) live) ((p, c) # bs)"
| free: "areach onmap s0 s live bs \<Longrightarrow> (p, c) \<in> live \<Longrightarrow> Deallocate AP64 t c p s = Inr s'
    \<Longrightarrow> areach onmap s0 s' (live - {(p, c)}) bs"
| access: "areach onmap s0 s live bs \<Longrightarrow> vstore8 (avm s) a v = Inr m \<Longrightarrow> areach onmap s0 (s\<lparr>avm := m\<rparr>) live bs"
| callback: "areach onmap s0 s live bs \<Longrightarrow> areach onmap s0 (s\<lparr>client := k\<rparr>) live bs"

definition live_ok :: "ghost \<Rightarrow> block set \<Rightarrow> bool" where
  "live_ok g live \<longleftrightarrow> (\<forall>(p, c) \<in> live. mid_pages (unat p) (csize c) \<subseteq> gM g \<and>
     (\<forall>q x. chunk_map (unat p) (csize c) q = Some x \<longrightarrow> gC g q = Some x))"

lemma live_okD:
  assumes "live_ok g live" "(p, c) \<in> live"
  shows "mid_pages (unat p) (csize c) \<subseteq> gM g" "chunk_map (unat p) (csize c) q = Some x \<Longrightarrow> gC g q = Some x"
  using assms unfolding live_ok_def by blast+

lemma live_okI:
  assumes "\<And>p c. (p, c) \<in> live \<Longrightarrow> mid_pages (unat p) (csize c) \<subseteq> gM g"
    "\<And>p c q x. (p, c) \<in> live \<Longrightarrow> chunk_map (unat p) (csize c) q = Some x \<Longrightarrow> gC g q = Some x"
  shows "live_ok g live"
  unfolding live_ok_def using assms by blast

definition ainv :: "'s ast \<Rightarrow> block set \<Rightarrow> block list \<Rightarrow> bool" where
  "ainv s live bs \<longleftrightarrow> virt s bs \<and> live \<subseteq> set bs \<and>
     (\<exists>g. phys g s \<and> gS g = space_pages (NonConstSpaceBeg s) \<and> gU g = \<Union> (block_pages ` set bs) \<and> live_ok g live)"

lemma virt_space: "virt s bs \<Longrightarrow> space_ok (NonConstSpaceBeg s)"
  by (simp add: virt_def virtb_def abounds_def)

lemma virt_block:
  assumes v: "virt s bs" and b: "(p, c) \<in> set bs"
  shows "valid_class c" "unat p \<le> 2 ^ 50" "block_pages (p, c) \<subseteq> space_pages (NonConstSpaceBeg s)"
    "rbeg (NonConstSpaceBeg s) c \<le> unat p" "unat p + csize c \<le> rbeg (NonConstSpaceBeg s) c + 2 ^ 40"
proof -
  let ?b = "NonConstSpaceBeg s"
  have sp: "space_ok ?b" by (rule virt_space [OF v])
  have "block_ok ?b (region_pos s) (\<lambda>t c. (lower_bound (caches s t c), upper_bound (caches s t c))) (p, c)"
    using v b unfolding virt_def virtb_def abounds_def prod.case by blast
  then obtain k where k: "valid_class c" "k < 256" "rbeg ?b c + k * 2 ^ 32 \<le> unat p"
    "unat p + csize c \<le> rbeg ?b c + (k + 1) * 2 ^ 32"
    unfolding block_ok_def by blast
  have "(k + 1) * 2 ^ 32 \<le> 2 ^ 40" using k(2) by simp
  then have u: "unat p + csize c \<le> rbeg ?b c + 2 ^ 40" "rbeg ?b c \<le> unat p" using k(3,4) by linarith+
  then show "rbeg ?b c \<le> unat p" "unat p + csize c \<le> rbeg ?b c + 2 ^ 40" "valid_class c" using k(1) by simp_all
  have c53: "unat c < 53" using k(1) by (simp add: valid_class_nat)
  then show "unat p \<le> 2 ^ 50" using u rbeg_bound [OF sp, of c] by simp
  have "block_pages (p, c) \<subseteq> {unat ?b div 4096 ..< (unat ?b + 2 ^ 46) div 4096}"
  proof (rule block_pages_within)
    show "4096 dvd unat ?b" "4096 dvd unat ?b + 2 ^ 46" using sp by (auto simp: space_ok_def mod_eq_0_iff_dvd)
    have "2 ^ 40 * unat c + 2 ^ 40 \<le> 2 ^ 46" using c53 by simp
    then show "unat ?b \<le> unat p" "unat p + csize c \<le> unat ?b + 2 ^ 46"
      using u unfolding rbeg_def by simp_all
    show "0 < csize c" by (rule Size_positive [OF k(1)])
  qed
  also have "(unat ?b + 2 ^ 46) div 4096 = unat ?b div 4096 + 2 ^ 34"
    using div_mult_self1 [of 4096 "unat ?b" "2 ^ 34"] by simp
  finally show "block_pages (p, c) \<subseteq> space_pages ?b" unfolding space_pages_def .
qed

lemma virt_page_disjoint:
  assumes "virt s bs" "x \<in> set bs" "y \<in> set bs" "x \<noteq> y"
  shows "block_pages x \<inter> block_pages y = {}"
proof -
  have "sorted_wrt page_disjoint bs" using assms(1) by (simp add: virt_def virtb_def abounds_def)
  then show ?thesis
    using assms(2-4) by (induction bs) (auto simp: page_disjoint_def)
qed

section \<open>The invariant holds in every reachable state\<close>

definition start_ghost :: "uptr \<Rightarrow> ghost" where
  "start_ghost b = \<lparr>gS = space_pages b, gU = {}, gM = {}, gC = (\<lambda>_. None), gfo = (\<lambda>_. 0), gno = (\<lambda>_. 0)\<rparr>"

lemma space_pages_bound: "space_ok b \<Longrightarrow> q \<in> space_pages b \<Longrightarrow> q < 2 ^ 51"
  unfolding space_ok_def space_pages_def using div_le_mono [of "unat b" "2 ^ 47" 4096] by simp

lemma ainv_start:
  assumes "alloc_start s"
  shows "ainv s {} []"
proof -
  let ?g = "start_ghost (NonConstSpaceBeg s)"
  note A = assms [unfolded alloc_start_def vm_start_def]
  have sh: "pages (avm s) q \<noteq> Some (Shared f)" for q f using A by blast
  have "map_ok (gS ?g) (gU ?g) (gM ?g) (avm s)"
  proof (rule map_okI)
    show "q = q'" if "pages (avm s) q = Some (Private f)" "frame_of (pages (avm s) q') = Some f" for q q' f
    proof -
      have "pages (avm s) q' = Some (Private f)" using that(2) sh by (auto simp: frame_of_Some)
      then show ?thesis using that(1) A by blast
    qed
    show "q < 2 ^ 51" if "q \<in> gS ?g" for q
      using that space_pages_bound A by (auto simp: start_ghost_def)
  qed (use A in \<open>auto simp: start_ghost_def\<close>)
  moreover have "link_ok (gno ?g) (heap_next s) (vpage_links s) (ppage_vlist s)"
    by (rule link_okI) (use A in \<open>auto simp: start_ghost_def\<close>)
  moreover have "reg_ok (gS ?g) (gU ?g) (gfo ?g) (gno ?g) (gC ?g) (avm s) (Forkmap s) (Pagemap s)"
    by (rule reg_okI) (use A in \<open>auto simp: start_ghost_def\<close>)
  moreover have "pieces_ok (heap_next s) (free_lists s) (Pagemap s) (gC ?g)"
    by (rule pieces_okI) (use A in \<open>auto simp: start_ghost_def free_lists_def live_piece_def\<close>)
  ultimately have "phys ?g s" by (simp add: phys_def node_ok_def start_ghost_def)
  moreover have "virt s []" by (rule virt_start) (use A in auto)
  ultimately show ?thesis
    unfolding ainv_def by (auto simp: live_ok_def start_ghost_def intro!: exI [of _ ?g])
qed

lemma chunk_map_pages: "0 < n \<Longrightarrow> dom (chunk_map a n) \<subseteq> {a div 4096 .. (a + n - 1) div 4096}"
  unfolding pages_of_block(1) chunk_map_def dom_map_of_conv_image_fst by auto

lemma block_chunk_pages: "valid_class c \<Longrightarrow> dom (chunk_map (unat p) (csize c)) \<subseteq> block_pages (p, c)"
  using chunk_map_pages Size_positive by simp

lemma Allocate_space: "Allocate pr onmap t c rz s = Inr (p, s') \<Longrightarrow> NonConstSpaceBeg s' = NonConstSpaceBeg s"
proof -
  assume "Allocate pr onmap t c rz s = Inr (p, s')"
  from Allocate_bounds [OF this] obtain s0 s3 where r: "Refill pr t c (Size (SizeMap pr) c) s = Inr s0"
    and e: "abounds s3 = abounds s0"
    and s': "s' = set_cache t c ((caches s3 t c)\<lparr>lower_bound := lower_bound (caches s3 t c) + (Size (SizeMap pr) c + rz)\<rparr>) s3"
    by blast
  have "NonConstSpaceBeg s0 = NonConstSpaceBeg s"
    using r by (auto simp: Refill_def GetFromAllocator_def GetRegionInfo_def Let_def res_simps set_cache_def split: if_splits)
  then show ?thesis using e by (simp add: s' set_cache_def abounds_def)
qed

lemma ainv_alloc:
  assumes I: "ainv s live bs" and c: "valid_class c" and rz: "rz_ok rz"
    and A: "Allocate AP64 onmap t c rz s = Inr (p, s')"
  shows "ainv s' (insert (p, c) live) ((p, c) # bs)"
proof -
  from I obtain g where v: "virt s bs" and sub: "live \<subseteq> set bs" and P: "phys g s"
    and gS: "gS g = space_pages (NonConstSpaceBeg s)" and gU: "gU g = \<Union> (block_pages ` set bs)" and lv: "live_ok g live"
    by (auto simp: ainv_def)
  have v': "virt s' ((p, c) # bs)" by (rule virt_Allocate [OF v c rz A])
  have sb: "NonConstSpaceBeg s' = NonConstSpaceBeg s" by (rule Allocate_space [OF A])
  note B = virt_block [OF v', of p c]
  have dis: "block_pages (p, c) \<inter> block_pages y = {}" if "y \<in> set bs" for y
    using v' that by (auto simp: virt_def virtb_def abounds_def page_disjoint_def)
  have "block_pages (p, c) \<subseteq> gS g - gU g"
    using B(3) dis gS gU sb by fastforce
  from phys_Allocate [OF P A c B(2) this] obtain g' where P': "phys g' s'" and ab: "add_block g (unat p) (csize c) g'"
    by auto
  have bp: "{unat p div 4096 .. (unat p + csize c - 1) div 4096} = block_pages (p, c)" by simp
  have "live_ok g' (insert (p, c) live)"
  proof (rule live_okI)
    fix p' c' assume m: "(p', c') \<in> insert (p, c) live"
    show "mid_pages (unat p') (csize c') \<subseteq> gM g'"
    proof (cases "(p', c') = (p, c)")
      case True
      then show ?thesis using ab by (simp add: add_block_def)
    next
      case False
      then have "(p', c') \<in> live" using m by blast
      from live_okD(1) [OF lv this] show ?thesis using ab unfolding add_block_def by blast
    qed
  next
    fix p' c' q x assume m: "(p', c') \<in> insert (p, c) live" and x: "chunk_map (unat p') (csize c') q = Some x"
    show "gC g' q = Some x"
    proof (cases "(p', c') = (p, c)")
      case True
      then show ?thesis using ab x by (simp add: add_block_def)
    next
      case False
      then have l: "(p', c') \<in> live" using m by blast
      then have "valid_class c'" using virt_block(1) [OF v] sub by blast
      then have "q \<in> block_pages (p', c')" using x block_chunk_pages by blast
      then have "q \<notin> dom (chunk_map (unat p) (csize c))"
        using dis [of "(p', c')"] l sub block_chunk_pages [OF c, of p] by blast
      moreover have "gC g q = Some x" by (rule live_okD(2) [OF lv l x])
      ultimately show ?thesis using ab unfolding add_block_def by (simp only: map_add_dom_app_simps not_False_eq_True)
    qed
  qed
  then show ?thesis
    unfolding ainv_def using v' sub P' ab gS gU sb bp
    by (intro conjI exI [of _ g']) (auto simp: add_block_def)
qed

lemma Deallocate_space: "Deallocate pr t c p s = Inr s' \<Longrightarrow> NonConstSpaceBeg s' = NonConstSpaceBeg s"
  using Deallocate_bounds by (fastforce simp: abounds_def)

lemma ainv_free:
  assumes I: "ainv s live bs" and l: "(p, c) \<in> live" and D: "Deallocate AP64 t c p s = Inr s'"
  shows "ainv s' (live - {(p, c)}) bs"
proof -
  from I obtain g where v: "virt s bs" and sub: "live \<subseteq> set bs" and P: "phys g s"
    and gS: "gS g = space_pages (NonConstSpaceBeg s)" and gU: "gU g = \<Union> (block_pages ` set bs)" and lv: "live_ok g live"
    by (auto simp: ainv_def)
  have pb: "(p, c) \<in> set bs" using l sub by blast
  note B = virt_block [OF v pb]
  have "chunk_map (unat p) (csize c) q = Some x \<Longrightarrow> gC g q = Some x" for q x
    by (rule live_okD(2) [OF lv l])
  from phys_Deallocate [OF P D B(1,2) this] obtain g' where P': "phys g' s'"
    and d: "drop_chunks g (unat p) (csize c) g'" by blast
  have "live_ok g' (live - {(p, c)})"
  proof (rule live_okI)
    fix p' c' assume "(p', c') \<in> live - {(p, c)}"
    then have "(p', c') \<in> live" by blast
    from live_okD(1) [OF lv this] show "mid_pages (unat p') (csize c') \<subseteq> gM g'"
      using d by (simp add: drop_chunks_def)
  next
    fix p' c' q x assume "(p', c') \<in> live - {(p, c)}" and x: "chunk_map (unat p') (csize c') q = Some x"
    then have m: "(p', c') \<in> live" "(p', c') \<noteq> (p, c)" by blast+
    have "valid_class c'" using virt_block(1) [OF v] sub m by blast
    then have "q \<in> block_pages (p', c')" using x block_chunk_pages by blast
    then have "q \<notin> dom (chunk_map (unat p) (csize c))"
      using virt_page_disjoint [OF v _ pb m(2)] m(1) sub block_chunk_pages [OF B(1), of p] by blast
    then have "gC g' q = gC g q" using d by (simp add: drop_chunks_def)
    then show "gC g' q = Some x" using live_okD(2) [OF lv m(1) x] by simp
  qed
  moreover have "virt s' bs" by (rule virt_same_bounds [OF v Deallocate_bounds [OF D]])
  ultimately show ?thesis
    unfolding ainv_def using sub P' d gS gU Deallocate_space [OF D]
    by (intro conjI exI [of _ g']) (auto simp: drop_chunks_def)
qed

lemma phys_frames:
  assumes "phys g s" "pages m = pages (avm s)" "next_frame m = next_frame (avm s)" "mmap_error m = mmap_error (avm s)"
  shows "phys g (s\<lparr>avm := m\<rparr>)"
proof -
  have "map_ok S U M m = map_ok S U M (avm s)" for S U M
    unfolding map_ok_def errors_ok_def assms(2-4) ..
  moreover have "node_ok U fo no hn m va = node_ok U fo no hn (avm s) va" for U fo no hn va
    unfolding node_ok_def assms(2) ..
  moreover have "reg_ok S U fo no C m fm pm = reg_ok S U fo no C (avm s) fm pm" for S U fo no C fm pm
    unfolding reg_ok_def assms(2) ..
  ultimately show ?thesis using assms(1) by (simp add: phys_def)
qed

lemma vstore8_vm:
  "vstore8 m a v = Inr m' \<Longrightarrow> pages m' = pages m \<and> next_frame m' = next_frame m \<and> mmap_error m' = mmap_error m"
  by (auto simp: vstore8_def split: option.splits)

lemma areach_inv: "areach onmap s0 s live bs \<Longrightarrow> alloc_start s0 \<Longrightarrow> ainv s live bs"
proof (induction rule: areach.induct)
  case start
  then show ?case by (rule ainv_start)
next
  case (alloc s live bs c rz t p s')
  then show ?case by (blast intro: ainv_alloc)
next
  case (free s live bs p c t s')
  then show ?case by (blast intro: ainv_free)
next
  case (access s live bs a v m)
  then have I: "ainv s live bs" by simp
  note V = vstore8_vm [OF access.hyps(2)]
  have "virt (s\<lparr>avm := m\<rparr>) bs" using I by (simp add: ainv_def virt_def)
  moreover from I obtain g where g: "phys g s" "gS g = space_pages (NonConstSpaceBeg s)"
    "gU g = \<Union> (block_pages ` set bs)" "live_ok g live" by (auto simp: ainv_def)
  moreover have "phys g (s\<lparr>avm := m\<rparr>)" by (rule phys_frames [OF g(1)]) (use V in simp_all)
  ultimately show ?case using I unfolding ainv_def by auto
next
  case (callback s live bs k)
  then have I: "ainv s live bs" by simp
  have "virt (s\<lparr>client := k\<rparr>) bs" using I by (simp add: ainv_def virt_def)
  from I obtain g where g: "phys g s" "gS g = space_pages (NonConstSpaceBeg s)" "gU g = \<Union> (block_pages ` set bs)"
    "live_ok g live" by (auto simp: ainv_def)
  have "phys g (s\<lparr>client := k\<rparr>)" by (rule phys_client [OF g(1)])
  with \<open>virt (s\<lparr>client := k\<rparr>) bs\<close> I g(2-4) show ?case unfolding ainv_def by auto
qed

section \<open>What the allocator guarantees\<close>

text \<open>The bytes of a block.\<close>

definition in_block :: "block \<Rightarrow> uptr \<Rightarrow> bool" where
  "in_block x a \<longleftrightarrow> unat (fst x) \<le> unat a \<and> unat a < unat (fst x) + csize (snd x)"

lemma in_block_page: "in_block (p, c) a \<Longrightarrow> page_of a \<in> block_pages (p, c)"
proof -
  assume "in_block (p, c) a"
  then have "unat p \<le> unat a" "unat a \<le> unat p + csize c - 1" by (auto simp: in_block_def)
  then show ?thesis by (simp add: page_of_def div_le_mono)
qed

lemma areach_virt: "areach onmap s0 s live bs \<Longrightarrow> alloc_start s0 \<Longrightarrow> virt s bs \<and> live \<subseteq> set bs"
  using areach_inv unfolding ainv_def by blast

text \<open>What a byte of a live block is mapped to: a private frame, or the piece of its chunk.\<close>

lemma live_byte:
  assumes P: "phys g s" and lv: "live_ok g live" and l: "(p, c) \<in> live" and c: "valid_class c" and a: "in_block (p, c) a"
    and tr: "translate (avm s) a = Some (f, i)"
  obtains "pages (avm s) (page_of a) = Some (Private f)"
  | off len where "pages (avm s) (page_of a) = Some (Shared f)" "i = unat a mod 4096" "off \<le> i" "i < off + len"
      "live_piece (Pagemap s) (gC g) (page_of a) = Some (gfo g f, off, len)"
proof -
  have f: "frame_of (pages (avm s) (page_of a)) = Some f" "i = unat a mod 4096"
    using tr by (auto simp: translate_Some)
  from f(1) consider "pages (avm s) (page_of a) = Some (Private f)" | "pages (avm s) (page_of a) = Some (Shared f)"
    by (auto simp: frame_of_Some)
  then show ?thesis
  proof cases
    case 1
    then show ?thesis by (rule that(1))
  next
    case 2
    have "unat p \<le> unat a" "unat a < unat p + csize c" using a by (simp_all add: in_block_def)
    from Size_positive [OF c] this show ?thesis
    proof (cases rule: byte_cases)
      case 1
      then have "page_of a \<in> gM g" using live_okD(1) [OF lv l] by (auto simp: page_of_def)
      then show ?thesis using map_okD(7) [OF phys_parts(1) [OF P]] 2 by blast
    next
      case (2 off len)
      have n: "0 < csize c" by (rule Size_positive [OF c])
      have "chunk_map (unat p) (csize c) (page_of a) = Some (off, len)"
        unfolding chunk_map_def
      proof (rule map_of_is_SomeI)
        show "distinct (map fst (head_chunk (unat p) (csize c) @ tail_chunk (unat p) (csize c)))"
          using pages_of_block(3) [OF n, of "unat p"]
          by (cases "head_chunk (unat p) (csize c)") (auto simp: head_chunk_def tail_chunk_def split: if_splits)
      qed (use 2(1) in \<open>simp add: page_of_def\<close>)
      from live_okD(2) [OF lv l this] have C: "gC g (page_of a) = Some (off, len)" .
      then have "Pagemap s (base (page_of a)) = Some (gfo g f)"
        using reg_okD(1) [OF phys_parts(4) [OF P]] \<open>pages (avm s) (page_of a) = Some (Shared f)\<close> by blast
      then show ?thesis
        using C 2 f(2) \<open>pages (avm s) (page_of a) = Some (Shared f)\<close>
        by (intro that(2) [of off len]) (simp_all add: live_piece_def)
    qed
  qed
qed

text \<open>
  C1. In every state that allocations, frees and accesses of any threads can reach, whether or not
  memory mappings fail, two different live blocks share no byte of physical memory: writing to one does
  not change the other, although the pages of both may show the same frame.
\<close>

theorem blocks_isolated:
  assumes r: "areach onmap s0 s live bs" and s0: "alloc_start s0"
    and x: "x \<in> live" "in_block x a" and y: "y \<in> live" "in_block y a'" and ne: "x \<noteq> y"
    and tr: "translate (avm s) a = Some b" "translate (avm s) a' = Some b'"
  shows "b \<noteq> b'"
proof
  assume eq: "b = b'"
  obtain p c p' c' f i where xy: "x = (p, c)" "y = (p', c')" and b: "b = (f, i)" by (cases x; cases y; cases b)
  from areach_inv [OF r s0] obtain g where v: "virt s bs" and sub: "live \<subseteq> set bs" and P: "phys g s" and lv: "live_ok g live"
    by (auto simp: ainv_def)
  have bs: "(p, c) \<in> set bs" "(p', c') \<in> set bs" using x(1) y(1) sub xy by auto
  have pages: "page_of a \<noteq> page_of a'"
    using virt_page_disjoint [OF v bs] ne in_block_page [OF x(2) [unfolded xy]] in_block_page [OF y(2) [unfolded xy]]
    unfolding xy by auto
  have vc: "valid_class c" "valid_class c'" using virt_block(1) [OF v bs(1)] virt_block(1) [OF v bs(2)] by simp_all
  have fr: "frame_of (pages (avm s) (page_of a)) = Some f" "frame_of (pages (avm s) (page_of a')) = Some f"
    using tr b eq by (auto simp: translate_Some)
  note priv = map_okD(4) [OF phys_parts(1) [OF P]]
  from P lv x(1) [unfolded xy] vc(1) x(2) [unfolded xy] tr(1) [unfolded b] show False
  proof (cases rule: live_byte)
    case 1
    then show False using priv fr(2) pages by blast
  next
    case A: (2 off len)
    from P lv y(1) [unfolded xy] vc(2) y(2) [unfolded xy] tr(2) [folded eq, unfolded b] show False
    proof (cases rule: live_byte)
      case 1
      then show False using priv fr(1) pages by metis
    next
      case B: (2 off' len')
      have "pdisj (gfo g f, off, len) (gfo g f, off', len')"
        using pieces_okD(4) [OF phys_parts(5) [OF P] pages A(5) B(5)] .
      then show False using A B by auto
    qed
  qed
qed

text \<open>
  C9. The allocator never hands out an address twice: any two allocations of a run, of whatever threads and
  whether freed or not, lie on different pages.
\<close>

theorem addresses_fresh:
  assumes "areach onmap s0 s live bs" "alloc_start s0" "i < j" "j < length bs"
  shows "block_pages (bs ! i) \<inter> block_pages (bs ! j) = {}"
proof -
  have "sorted_wrt page_disjoint bs"
    using areach_virt [OF assms(1,2)] by (simp add: virt_def virtb_def abounds_def)
  then show ?thesis using assms(3,4) by (simp add: sorted_wrt_iff_nth_less page_disjoint_def)
qed

text \<open>
  C21. From the address of any byte of a block alone, \<^verbatim>\<open>PointerIsMine\<close> recognises the block as one of this allocator
  and \<^verbatim>\<open>GetSizeClass\<close> finds its class.
\<close>

theorem owner_found:
  assumes "areach onmap s0 s live bs" "alloc_start s0" "(p, c) \<in> set bs" "in_block (p, c) a"
  shows "PointerIsMine AP64 s a \<and> GetSizeClass AP64 s a = c"
proof -
  let ?b = "NonConstSpaceBeg s"
  have v: "virt s bs" using areach_virt [OF assms(1,2)] by simp
  have sp: "space_ok ?b" by (rule virt_space [OF v])
  note B = virt_block [OF v assms(3)]
  have c53: "unat c < 53" using B(1) by (simp add: valid_class_nat)
  have a: "unat ?b + 2 ^ 40 * unat c \<le> unat a" "unat a < unat ?b + 2 ^ 40 * unat c + 2 ^ 40"
    using B(4,5) assms(4) by (simp_all add: in_block_def rbeg_def)
  have sb: "SpaceBeg AP64 s = ?b" "\<not> kUsingConstantSpaceBeg AP64"
    by (simp_all add: SpaceBeg_def kUsingConstantSpaceBeg_def AP64_def)
  have ue: "unat (SpaceEnd AP64 s) = unat ?b + 2 ^ 46"
    using sp unfolding SpaceEnd_def sb by (subst unat_add_nowrap) (simp_all add: AP64_def space_ok_def)
  have "2 ^ 40 * unat c + 2 ^ 40 \<le> 2 ^ 46" using c53 by simp
  then have "PointerIsMine AP64 s a"
    using a sb ue by (simp add: PointerIsMine_def word_le_nat_alt word_less_nat_alt)
  moreover have "GetSizeClass AP64 s a = c"
  proof -
    have d: "unat (a - ?b) = unat a - unat ?b" using a by (subst unat_sub) (simp_all add: word_le_nat_alt)
    have q: "(unat a - unat ?b) div 2 ^ 40 = unat c" using a by (intro div_nat_eqI) simp_all
    have kr: "unat (kNumClassesRounded (SizeMap AP64)) = 64"
      by (simp add: AP64_def kNumClassesRounded_def kNumClasses_default)
    have "unat (GetSizeClass AP64 s a) = ((unat a - unat ?b) div 2 ^ 40) mod 64"
      unfolding GetSizeClass_def sb kRegionSize_AP64 using sb(2)
      by (simp add: unat_div unat_mod kr d)
    then show ?thesis using q c53 by (simp add: word_unat_eq_iff)
  qed
  ultimately show ?thesis ..
qed

end
