(* ===== verification/AliasDead.thy ===== *)
theory AliasDead
  imports AliasIso
begin

text \<open>
  What becomes of freed blocks, on a system whose memory mappings do not fail: their pages are taken away
  and stay inaccessible, so that an access through a dangling pointer is a fault at any later time.
  The second part runs the allocator on small inputs: witnesses of the theorems on the allocator.
\<close>

section \<open>Which pages an operation touches\<close>

definition same_outside :: "nat set \<Rightarrow> vm \<Rightarrow> vm \<Rightarrow> bool" where
  "same_outside Q m m' \<longleftrightarrow> mmap_error m' = mmap_error m \<and> (\<forall>q. q \<notin> Q \<longrightarrow> pages m' q = pages m q)"

lemma same_refl [simp]: "same_outside Q m m"
  by (simp add: same_outside_def)

lemma same_trans: "same_outside Q m m' \<Longrightarrow> same_outside Q' m' m'' \<Longrightarrow> same_outside (Q \<union> Q') m m''"
  by (simp add: same_outside_def)

lemma same_mono: "same_outside Q m m' \<Longrightarrow> Q \<subseteq> Q' \<Longrightarrow> same_outside Q' m m'"
  by (auto simp: same_outside_def)

lemma same_no_errors: "same_outside Q m m' \<Longrightarrow> no_errors m' = no_errors m"
  by (simp add: same_outside_def no_errors_def)

lemma same_try_call:
  assumes "try_call ok m f = (r, m')" "\<And>m1 r m'. f m1 = (r, m') \<Longrightarrow> same_outside Q m1 m'"
  shows "same_outside Q m m'"
proof -
  have "same_outside {} m (next_call m)" by (simp add: same_outside_def)
  then show ?thesis
    using assms by (auto simp: try_call_def intro: same_mono same_trans [where Q = "{}", simplified] split: if_splits option.splits)
qed

lemma same_set_pages: "{p ..< p + n} \<subseteq> Q \<Longrightarrow> same_outside Q m (set_pages p n f m)"
  by (auto simp: same_outside_def pages_set_pages)

lemma same_fresh: "same_outside Q (fresh_frames n m) m' \<Longrightarrow> same_outside Q m m'"
  by (simp add: same_outside_def)

lemma same_MmapAliasing:
  assumes "MmapAliasing va GetPageSizeCached s = (r, s')"
  shows "same_outside {page_of va} (avm s) (avm s')"
proof -
  from assms obtain m where "mmap_fixed_shared va GetPageSizeCached (avm s) = (r, m)" and s': "s' = s\<lparr>avm := m\<rparr>"
    by (auto simp: MmapAliasing_def split: prod.splits)
  then have "same_outside {page_of va} (avm s) m"
    unfolding mmap_fixed_shared_def GetPageSizeCached_def page_count_page
    by (elim same_try_call) (auto intro: same_fresh [OF same_set_pages])
  then show ?thesis by (simp add: s')
qed

lemma same_MremapAliasing:
  assumes "MremapAliasing o1 va s = (r, s')"
  shows "same_outside {page_of va} (avm s) (avm s')"
proof -
  from assms obtain m where m: "mremap_dup o1 va (avm s) = (r, m)" and s': "s' = s\<lparr>avm := m\<rparr>"
    by (auto simp: MremapAliasing_def split: prod.splits)
  have n: "same_outside {page_of va} (avm s) (next_call (avm s))" by (simp add: same_outside_def)
  have "same_outside {page_of va} (avm s) m"
  proof (cases "\<exists>f. pages (avm s) (page_of o1) = Some (Shared f)")
    case True
    then show ?thesis
      using m unfolding mremap_dup_def by (elim exE) (simp, erule same_try_call, auto intro!: same_set_pages)
  next
    case False
    then show ?thesis using m n by (auto simp: mremap_dup_def split: option.splits mapping.splits)
  qed
  then show ?thesis by (simp add: s')
qed

lemma avm_steps:
  "InternalAlloc s = Inr (v, s') \<Longrightarrow> avm s' = avm s" "new_vpage r s = Inr (v, s') \<Longrightarrow> avm s' = avm s"
  "vlist_push_back p v s = Inr s' \<Longrightarrow> avm s' = avm s" "vlist_remove p v s = Inr s' \<Longrightarrow> avm s' = avm s"
  "avm (register_page r v p s) = avm s" "avm (set_free_list t c fl s) = avm s"
  "OnMap onmap b n s = Inr s' \<Longrightarrow> avm s' = avm s" "avm (set_cache t c pc s) = avm s"
  by (auto simp: InternalAlloc_def new_vpage_def vlist_push_back_def vlist_remove_def register_page_def
      set_free_list_def set_cache_def OnMap_def res_simps split: if_splits prod.splits)

lemma avm_Refill: "Refill pr t c sz s = Inr s' \<Longrightarrow> avm s' = avm s"
  by (auto simp: Refill_def GetFromAllocator_def GetRegionInfo_def Let_def res_simps avm_steps split: if_splits)

lemma same_reuse:
  assumes "reuse_chunk ch vb s = Inr s'"
  shows "same_outside {page_of vb} (avm s) (avm s')"
  using assms
  by (auto simp: reuse_chunk_def Let_def res_simps avm_steps(5) split: if_splits prod.splits
      dest!: avm_steps(2,3) same_MmapAliasing same_MremapAliasing)

lemma same_fresh_chunk:
  assumes "fresh_chunk t c vb off cs s = Inr s'"
  shows "same_outside {page_of vb} (avm s) (avm s')"
  using assms
  by (auto simp: fresh_chunk_def Let_def res_simps avm_steps(5,6) split: prod.splits
      dest!: avm_steps(1,2) same_MmapAliasing)

lemma same_AllocateChunk:
  assumes "AllocateChunk pr t c va sz s = Inr s'"
  shows "same_outside {page_of va} (avm s) (avm s')"
proof -
  have pb: "page_of (base (page_of va)) = page_of va" by (rule page_of_base [OF page_of_bound])
  show ?thesis
    using assms unfolding AllocateChunk_def Let_def round_down_page
    by (auto split: option.splits dest!: same_reuse same_fresh_chunk simp: avm_steps(6) pb)
qed

lemma same_MmapFixedOrDie:
  assumes "MmapFixedOrDie va n m = Inr (p, m')" "unat n = k * 4096" "k < 2 ^ 40" "unat va mod 4096 = 0"
  shows "same_outside {page_of va ..< page_of va + k} m m'"
  using MmapFixedOrDie_whole [OF assms] unfolding mmap_fixed_private_def
  by (elim same_try_call) (auto intro: same_fresh [OF same_set_pages])

text \<open>An allocation changes the mappings of the new block only.\<close>

lemma same_Allocate:
  assumes A: "Allocate AP64 onmap t c rz s = Inr (p, s')" and c: "valid_class c" and pb: "unat p \<le> 2 ^ 50"
  shows "same_outside (block_pages (p, c)) (avm s) (avm s')"
proof -
  let ?sz = "Size DefaultSizeClassMap c" and ?Q = "block_pages (p, c)"
  have n: "0 < unat ?sz" "unat ?sz \<le> 2 ^ 20"
    using csize_bounds [OF c] by (simp_all add: csize_def)
  have sm: "SizeMap AP64 = DefaultSizeClassMap" by (simp add: AP64_def)
  have Q: "?Q = fst ` set (head_chunk (unat p) (unat ?sz)) \<union> mid_pages (unat p) (unat ?sz)
      \<union> fst ` set (tail_chunk (unat p) (unat ?sz))"
    using pages_of_block(1) [OF n(1), of "unat p"] by (simp add: csize_def)
  obtain s0 s1 s2 s3 where R: "Refill AP64 t c ?sz s = Inr s0"
    and R1: "(if p - RoundDownTo p GetPageSizeCached \<noteq> 0 then
        bindr (AllocateChunk AP64 t c p (w_head p ?sz) s0) (\<lambda>s'. OnMap onmap (RoundDownTo p GetPageSizeCached) GetPageSizeCached s')
      else Inr s0) = Inr s1"
    and R2: "(if ?sz - w_head p ?sz \<ge> GetPageSizeCached then
        check (IsAligned (p + w_head p ?sz) GetPageSizeCached) ''IsAligned(vaddr, page_size_)'' (
        bindr (OnMap onmap (p + w_head p ?sz) (w_mid p ?sz) s1) (\<lambda>s'.
        bindr (MmapFixedOrDie (p + w_head p ?sz) (w_mid p ?sz) (avm s')) (\<lambda>(p, m). Inr (s'\<lparr>avm := m\<rparr>))))
      else Inr s1) = Inr s2"
    and R3: "(if w_tail p ?sz > 0 then
        check (IsAligned (p + w_head p ?sz + w_mid p ?sz) GetPageSizeCached) ''IsAligned(vaddr, page_size_)'' (
        bindr (OnMap onmap (p + w_head p ?sz + w_mid p ?sz) GetPageSizeCached s2) (\<lambda>s'.
          AllocateChunk AP64 t c (p + w_head p ?sz + w_mid p ?sz) (w_tail p ?sz) s'))
      else Inr s2) = Inr s3"
    and s': "s' = set_cache t c ((caches s3 t c)\<lparr>lower_bound := lower_bound (caches s3 t c) + (?sz + rz)\<rparr>) s3"
    by (rule Allocate_stages [OF A, of ?sz]) (simp add: sm, rule that)
  have h: "same_outside ?Q (avm s0) (avm s1)"
  proof (cases "unat p mod 4096 = 0")
    case True
    then show ?thesis using R1 head_stage_iff [of p] by simp
  next
    case False
    then obtain s' where "AllocateChunk AP64 t c p (w_head p ?sz) s0 = Inr s'" "avm s1 = avm s'"
      using R1 head_stage_iff [of p] by (auto simp: res_simps dest: avm_steps(7))
    moreover have "{page_of p} \<subseteq> ?Q" unfolding Q head_chunk_mod [OF False n(1)] by auto
    ultimately show ?thesis by (simp only: same_mono [OF same_AllocateChunk])
  qed
  have m: "same_outside ?Q (avm s1) (avm s2)"
  proof (cases "GetPageSizeCached \<le> ?sz - w_head p ?sz")
    case False
    then show ?thesis using R2 by simp
  next
    case True
    let ?va = "p + w_head p ?sz"
    define k where "k = mid_len (unat p) (unat ?sz) div 4096"
    from R2 True obtain s' x m where al: "IsAligned ?va GetPageSizeCached" and e: "avm s' = avm s1"
      and m: "MmapFixedOrDie ?va (w_mid p ?sz) (avm s') = Inr (x, m)" and s2: "s2 = s'\<lparr>avm := m\<rparr>"
      by (auto simp: res_simps split: prod.splits dest: avm_steps(7))
    have mk: "unat (w_mid p ?sz) = k * 4096" by (simp add: unat_w_mid k_def mid_len_def)
    have kb: "k < 2 ^ 40" using mid_len_le [of "unat p" "unat ?sz"] n(2) by (simp add: k_def)
    have va: "unat ?va mod 4096 = 0" using al unfolding page_size_pow2 IsAligned_iff_dvd by (simp add: mod_eq_0_iff_dvd)
    have "{page_of ?va ..< page_of ?va + k} = mid_pages (unat p) (unat ?sz)"
      by (simp add: mid_pages_def page_of_def unat_w_addr(1) [OF pb n(2)] k_def)
    then show ?thesis using same_MmapFixedOrDie [OF m mk kb va] unfolding Q s2 e [symmetric] by (auto intro: same_mono)
  qed
  have t: "same_outside ?Q (avm s2) (avm s3)"
  proof (cases "tail_len (unat p) (unat ?sz) = 0")
    case True
    then have "\<not> w_tail p ?sz > 0" by (simp add: word_less_nat_alt unat_w_tail)
    then show ?thesis using R3 by simp
  next
    case False
    let ?va = "p + w_head p ?sz + w_mid p ?sz"
    have "w_tail p ?sz > 0" using False by (simp add: word_less_nat_alt unat_w_tail)
    then obtain s' where a: "AllocateChunk AP64 t c ?va (w_tail p ?sz) s' = Inr s3" and o2: "OnMap onmap ?va GetPageSizeCached s2 = Inr s'"
      using R3 by (auto simp: res_simps)
    have "tail_chunk (unat p) (unat ?sz) = [(page_of ?va, 0, tail_len (unat p) (unat ?sz))]"
      using False pb n by (simp add: tail_chunk_def page_of_def unat_w_addr(2))
    then have "{page_of ?va} \<subseteq> ?Q" unfolding Q by simp
    from same_mono [OF same_AllocateChunk [OF a] this] show ?thesis unfolding avm_steps(7) [OF o2] .
  qed
  have "avm s0 = avm s" "avm s' = avm s3" using avm_Refill [OF R] by (simp_all add: s' avm_steps)
  then show ?thesis using same_trans [OF same_trans [OF h m] t] by simp
qed

text \<open>Freeing takes the pages of the block away.\<close>

lemma Deallocate_pages:
  assumes D: "Deallocate AP64 t c p s = Inr s'" and c: "valid_class c" and pb: "unat p \<le> 2 ^ 50" and e: "no_errors (avm s)"
  shows "same_outside (block_pages (p, c)) (avm s) (avm s')" "q \<in> block_pages (p, c) \<Longrightarrow> frame_of (pages (avm s') q) = None"
proof -
  let ?sz = "Size DefaultSizeClassMap c" and ?Q = "block_pages (p, c)"
  have n: "0 < unat ?sz" "unat ?sz \<le> 2 ^ 20"
    using csize_bounds [OF c] by (simp_all add: csize_def)
  have sm: "?sz = Size (SizeMap AP64) c" by (simp add: AP64_def)
  obtain len s1 s2 r m where len: "RoundUpTo (p + ?sz - RoundDownTo p GetPageSizeCached) GetPageSizeCached = Inr len"
    and d1: "(if p - RoundDownTo p GetPageSizeCached \<noteq> 0 then DeallocateChunk t c p (w_head p ?sz) s else Inr s) = Inr s1"
    and d2: "(if w_tail p ?sz > 0 then DeallocateChunk t c (p + w_head p ?sz + w_mid p ?sz) (w_tail p ?sz) s1 else Inr s1) = Inr s2"
    and mm: "MmapFixedNoAccess (RoundDownTo p GetPageSizeCached) len (avm s2) = (r, m)" and s': "s' = s2\<lparr>avm := m\<rparr>"
    by (rule Deallocate_stages [OF D sm])
  have dc: "DeallocateChunk t' c' va k s = Inr s' \<Longrightarrow> avm s' = avm s" for t' c' va k and s s' :: "'a ast"
    by (auto simp: DeallocateChunk_def Let_def res_simps avm_steps(6) dest: avm_steps(4))
  have a2: "avm s2 = avm s" using d1 d2 by (auto dest!: dc split: if_splits)
  let ?x = "unat p mod 4096 + unat ?sz"
  have ux: "unat (p + ?sz - base (page_of p)) = ?x"
  proof -
    have "p + ?sz - base (page_of p) = (p - base (page_of p)) + ?sz" by simp
    then show ?thesis using n(2) by (simp only:) (subst unat_bump, simp_all add: unat_page_offset)
  qed
  have xb: "?x \<le> 2 ^ 21" using n(2) by simp
  have pg: "IsPowerOfTwo GetPageSizeCached" unfolding page_size_pow2 by (rule IsPowerOfTwo_pow2)
  have "len = round_up (p + ?sz - base (page_of p)) GetPageSizeCached"
    using len [unfolded round_down_page RoundUpTo_def] pg by simp
  then have ul: "unat len = (?x + 4095) div 4096 * 4096"
    using xb unat_round_up [of 12 "p + ?sz - base (page_of p)"] unfolding page_size_pow2 ux by simp
  have x0: "0 < ?x" using n(1) by simp
  have lz: "len \<noteq> 0" using ul x0 by (auto simp: word_unat_eq_iff)
  have pc: "page_count len = (?x - 1) div 4096 + 1"
  proof -
    have "?x + 4095 = ?x - 1 + 4096" using x0 by linarith
    then have "(?x + 4095) div 4096 = (?x - 1) div 4096 + 1" by (simp only: div_add_self2)
    then show ?thesis unfolding page_count_def ul by simp
  qed
  have last: "(unat p + unat ?sz - 1) div 4096 = unat p div 4096 + (?x - 1) div 4096"
  proof -
    have "unat p + unat ?sz - 1 = unat p div 4096 * 4096 + (?x - 1)"
      using n(1) div_mult_mod_eq [of "unat p" 4096] by linarith
    then show ?thesis by (simp only: div_mult_self3)
  qed
  have Q: "?Q = {page_of p ..< page_of p + page_count len}"
    using last n(1) unfolding pc by (auto simp: csize_def page_of_def)
  have "unat (base (page_of p)) mod 4096 = 0" unfolding unat_base [OF page_of_bound] by simp
  then have m: "m = set_pages (page_of p) (page_count len) (\<lambda>i. Some NoAccess) (next_call (avm s))"
    using mm lz e unfolding MmapFixedNoAccess_def mmap_fixed_none_def round_down_page a2
    by (simp add: try_call_ok page_of_base [OF page_of_bound])
  show "same_outside ?Q (avm s) (avm s')"
    unfolding s' m Q by (auto simp: same_outside_def pages_set_pages)
  show "frame_of (pages (avm s') q) = None" if "q \<in> ?Q"
    using that unfolding s' m Q by (simp add: pages_set_pages)
qed

section \<open>Freed blocks stay inaccessible\<close>

definition dead_ok :: "'s ast \<Rightarrow> block set \<Rightarrow> block list \<Rightarrow> bool" where
  "dead_ok s live bs \<longleftrightarrow> no_errors (avm s) \<and>
     (\<forall>x \<in> set bs - live. \<forall>q \<in> block_pages x. frame_of (pages (avm s) q) = None)"

lemma dead_ok_same:
  assumes "dead_ok s live bs" "same_outside Q (avm s) (avm s')" "\<And>x. x \<in> set bs' - live' \<Longrightarrow>
     x \<in> set bs - live \<and> block_pages x \<inter> Q = {} \<or> (\<forall>q \<in> block_pages x. frame_of (pages (avm s') q) = None)"
  shows "dead_ok s' live' bs'"
  unfolding dead_ok_def
proof (intro conjI ballI)
  show "no_errors (avm s')" using assms(1,2) same_no_errors by (auto simp: dead_ok_def)
  fix x q assume x: "x \<in> set bs' - live'" and q: "q \<in> block_pages x"
  from assms(3) [OF x] show "frame_of (pages (avm s') q) = None"
  proof
    assume a: "x \<in> set bs - live \<and> block_pages x \<inter> Q = {}"
    then have "pages (avm s') q = pages (avm s) q" using q assms(2) unfolding same_outside_def by blast
    moreover have "frame_of (pages (avm s) q) = None" using assms(1) a q unfolding dead_ok_def by blast
    ultimately show ?thesis by simp
  qed (use q in blast)
qed

lemma areach_dead: "areach onmap s0 s live bs \<Longrightarrow> alloc_start s0 \<Longrightarrow> no_errors (avm s0) \<Longrightarrow> dead_ok s live bs"
proof (induction rule: areach.induct)
  case start
  then show ?case by (simp add: dead_ok_def)
next
  case (alloc s live bs c rz t p s')
  have d: "dead_ok s live bs" by (rule alloc.IH [OF alloc.prems])
  have v: "virt s' ((p, c) # bs)"
    using areach_virt [OF areach.alloc [OF alloc.hyps] alloc.prems(1)] by simp
  note B = virt_block [OF v, of p c]
  have "same_outside (block_pages (p, c)) (avm s) (avm s')"
    using same_Allocate [OF alloc.hyps(4,2)] B by simp
  then show ?case
  proof (rule dead_ok_same [OF d])
    fix x assume x: "x \<in> set ((p, c) # bs) - insert (p, c) live"
    then have "block_pages x \<inter> block_pages (p, c) = {}"
      by (intro virt_page_disjoint [OF v]) auto
    then show "x \<in> set bs - live \<and> block_pages x \<inter> block_pages (p, c) = {} \<or>
        (\<forall>q \<in> block_pages x. frame_of (pages (avm s') q) = None)" using x by auto
  qed
next
  case (free s live bs p c t s')
  have d: "dead_ok s live bs" by (rule free.IH [OF free.prems])
  have v: "virt s bs" and sub: "live \<subseteq> set bs" using areach_virt [OF free.hyps(1) free.prems(1)] by simp_all
  have pb: "(p, c) \<in> set bs" using sub free.hyps(2) by blast
  note B = virt_block [OF v pb]
  have e: "no_errors (avm s)" using d by (simp add: dead_ok_def)
  note P = Deallocate_pages [OF free.hyps(3) B(1,2) e]
  show ?case
  proof (rule dead_ok_same [OF d P(1)])
    fix x assume x: "x \<in> set bs - (live - {(p, c)})"
    show "x \<in> set bs - live \<and> block_pages x \<inter> block_pages (p, c) = {} \<or>
        (\<forall>q \<in> block_pages x. frame_of (pages (avm s') q) = None)"
    proof (cases "x = (p, c)")
      case True
      then show ?thesis using P(2) by blast
    next
      case False
      then show ?thesis using x virt_page_disjoint [OF v _ pb False] by blast
    qed
  qed
next
  case (access s live bs a v m)
  have d: "dead_ok s live bs" by (rule access.IH [OF access.prems])
  have "same_outside {} (avm s) m" using vstore8_vm [OF access.hyps(2)] by (simp add: same_outside_def)
  then show ?case by (intro dead_ok_same [OF d, where Q = "{}"]) auto
next
  case (callback s live bs k)
  have d: "dead_ok s live bs" by (rule callback.IH [OF callback.prems])
  show ?case by (rule dead_ok_same [OF d, where Q = "{}"]) auto
qed

text \<open>
  C2. When the system calls succeed, an access to any byte of a freed block faults, at any later time and whatever was
  allocated since: a dangling pointer can neither read nor change memory.
\<close>

theorem dangling_faults:
  assumes r: "areach onmap s0 s live bs" and s0: "alloc_start s0" "no_errors (avm s0)"
    and x: "x \<in> set bs" "x \<notin> live" "in_block x a"
  shows "vload8 (avm s) a = Inl (Segv a) \<and> vstore8 (avm s) a v = Inl (Segv a)"
proof -
  have "page_of a \<in> block_pages x" using in_block_page x(3) by (cases x) blast
  then have "frame_of (pages (avm s) (page_of a)) = None"
    using areach_dead [OF r s0] x(1,2) unfolding dead_ok_def by blast
  then have "translate (avm s) a = None" by (simp add: translate_def)
  then show ?thesis by (simp add: vload8_def vstore8_def)
qed

section \<open>Concrete runs\<close>

definition start_vm :: vm where
  "start_vm = \<lparr>pages = (\<lambda>_. None), next_frame = 0, frames = (\<lambda>_. 0), mmap_error = (\<lambda>_. None),
     mmap_pick = (\<lambda>_. 0x100000000000), mmap_calls = 0\<rparr>"

definition start_ast :: "uptr \<Rightarrow> 's \<Rightarrow> 's ast" where
  "start_ast beg c = \<lparr>NonConstSpaceBeg = beg, region_pos = (\<lambda>_. 0), allocated_user = (\<lambda>_. 0),
     Forkmap = (\<lambda>_. None), Pagemap = (\<lambda>_. None), vpage_addr = (\<lambda>_. 0),
     vpage_links = \<lparr>dnext = (\<lambda>_. 0), dprev = (\<lambda>_. 0)\<rparr>, ppage_vlist = (\<lambda>_. empty_lst),
     heap_next = 64, caches = (\<lambda>_ _. \<lparr>lower_bound = 0, upper_bound = 0, free_list = []\<rparr>),
     avm = start_vm, client = c\<rparr>"

definition no_callback :: "unit callback" where "no_callback b n c = Inr ()"

definition st0 :: "unit ast" where "st0 = start_ast 0x100000000000 ()"

lemma st0_start: "alloc_start st0" "no_errors (avm st0)"
  by (simp_all add: st0_def start_ast_def alloc_start_def space_ok_def vm_start_def errors_ok_def no_errors_def
      start_vm_def empty_lst_def)

text \<open>What evaluating a run unfolds.\<close>

lemma size_24: "Size DefaultSizeClassMap 24 = 0x400"
  by code_simp

lemma AP64_sel: "SizeMap AP64 = DefaultSizeClassMap" "SpaceBeg AP64 s = NonConstSpaceBeg s"
  by (simp_all add: SpaceBeg_def kUsingConstantSpaceBeg_def AP64_def)

lemmas run_defs = Let_def ClassIdToSize_def AP64_sel size_24 kRegionSize_AP64 kNumClasses_default
  GetRegionBeginBySizeClass_def GetFromAllocator_def GetRegionInfo_def Refill_def kPopulateSize_def GetPageSizeCached_def
  set_cache_def RoundDownTo_def RoundUpTo_def round_up_def IsPowerOfTwo_def IsAligned_def OnMap_def no_callback_def
  page_of_def page_count_def try_call_def mmap_fixed_shared_def mremap_dup_def mmap_fixed_none_def MmapFixedNoAccess_def
  pages_set_pages translate_def MmapAliasing_def MremapAliasing_def

lemmas run_ops = Allocate_def AllocateChunk_def take_chunk.simps fresh_chunk_def reuse_chunk_def cut_pieces.simps
  InternalAlloc_def heap_limit_def new_vpage_def register_page_def set_free_list_def Deallocate_def DeallocateChunk_def
  vlist_push_back_def vlist_remove_def dl_push_back_def dl_remove_def dl_empty_def dl_clear_def set_next_def set_prev_def
  empty_lst_def st0_def start_ast_def start_vm_def word_le_nat_alt word_less_nat_alt

text \<open>Three blocks of 1024 bytes; thread 1 then frees the first of them.\<close>

definition run3 :: "(unit ast \<times> unit ast \<times> unit ast \<times> unit ast) res" where
  "run3 =
     bindr (Allocate AP64 no_callback 0 24 0x4000 st0) (\<lambda>(a, s1).
     bindr (Allocate AP64 no_callback 0 24 0x4000 s1) (\<lambda>(b, s2).
     bindr (Allocate AP64 no_callback 0 24 0x4000 s2) (\<lambda>(c, s3).
     bindr (Deallocate AP64 1 24 a s3) (\<lambda>s4.
       if a = 0x280000000000 \<and> b = 0x280000004400 \<and> c = 0x280000008800 then Inr (s1, s2, s3, s4)
       else Inl (Segv 0)))))"

lemma run3_ok:
  "case run3 of Inl _ \<Rightarrow> False | Inr (s1, s2, s3, s4) \<Rightarrow>
     translate (avm s3) 0x280000004400 = Some (1, 1024) \<and> translate (avm s3) 0x280000008800 = Some (1, 2048)"
  by (simp add: run3_def run_defs run_ops)

lemma run3_reach:
  obtains s3 s4 where
    "areach no_callback st0 s3 {(0x280000008800, 24), (0x280000004400, 24), (0x280000000000, 24)}
        [(0x280000008800, 24), (0x280000004400, 24), (0x280000000000, 24)]"
    "areach no_callback st0 s4 {(0x280000008800, 24), (0x280000004400, 24)}
        [(0x280000008800, 24), (0x280000004400, 24), (0x280000000000, 24)]"
    "translate (avm s3) 0x280000004400 = Some (1, 1024)" "translate (avm s3) 0x280000008800 = Some (1, 2048)"
proof -
  obtain s1 s2 s3 s4 where run: "run3 = Inr (s1, s2, s3, s4)"
    and tr: "translate (avm s3) 0x280000004400 = Some (1, 1024)" "translate (avm s3) 0x280000008800 = Some (1, 2048)"
    using run3_ok by (auto split: sum.splits prod.splits)
  have st: "Allocate AP64 no_callback 0 24 0x4000 st0 = Inr (0x280000000000, s1)"
    "Allocate AP64 no_callback 0 24 0x4000 s1 = Inr (0x280000004400, s2)"
    "Allocate AP64 no_callback 0 24 0x4000 s2 = Inr (0x280000008800, s3)"
    "Deallocate AP64 1 24 0x280000000000 s3 = Inr s4"
    using run unfolding run3_def by (auto simp: res_simps split: prod.splits if_splits)
  have v: "valid_class 24" "rz_ok 0x4000" by (simp_all add: valid_class_nat rz_ok_def)
  have "areach no_callback st0 s3 {(0x280000008800, 24), (0x280000004400, 24), (0x280000000000, 24)}
        [(0x280000008800, 24), (0x280000004400, 24), (0x280000000000, 24)]"
    by (rule areach.alloc [OF areach.alloc [OF areach.alloc [OF areach.start v st(1)] v st(2)] v st(3)])
  moreover from areach.free [OF this _ st(4)]
  have "areach no_callback st0 s4 {(0x280000008800, 24), (0x280000004400, 24)}
        [(0x280000008800, 24), (0x280000004400, 24), (0x280000000000, 24)]"
    by (simp add: insert_Diff_if)
  ultimately show ?thesis using tr by (rule that)
qed

lemma csize_24: "csize 24 = 1024"
  by (simp add: csize_def size_24)

text \<open>The second and the third block show the same frame, at different offsets.\<close>

theorem blocks_isolated_witness:
  "\<exists>s :: unit ast. translate (avm s) 0x280000004400 = Some (1, 1024) \<and> translate (avm s) 0x280000008800 = Some (1, 2048)
     \<and> Some (1, 1024) \<noteq> (Some (1, 2048) :: (nat \<times> nat) option)"
proof -
  obtain s3 s4 where r: "areach no_callback st0 s3 {(0x280000008800, 24), (0x280000004400, 24), (0x280000000000, 24)}
        [(0x280000008800, 24), (0x280000004400, 24), (0x280000000000, 24)]"
    and tr: "translate (avm s3) 0x280000004400 = Some (1, 1024)" "translate (avm s3) 0x280000008800 = Some (1, 2048)"
    by (rule run3_reach)
  have "(1, 1024) \<noteq> ((1, 2048) :: nat \<times> nat)"
    by (rule blocks_isolated [OF r st0_start(1), of "(0x280000004400, 24)" _ "(0x280000008800, 24)" _ , OF _ _ _ _ _ tr])
      (simp_all add: in_block_def csize_24)
  then show ?thesis using tr by blast
qed

theorem addresses_fresh_witness:
  "block_pages (0x280000004400, 24) \<inter> block_pages (0x280000000000, 24) = {}"
proof -
  obtain s3 s4 where r: "areach no_callback st0 s3 {(0x280000008800, 24), (0x280000004400, 24), (0x280000000000, 24)}
        [(0x280000008800, 24), (0x280000004400, 24), (0x280000000000, 24)]"
    by (rule run3_reach)
  show ?thesis using addresses_fresh [OF r st0_start(1), of 1 2] by simp
qed

theorem owner_found_witness:
  "\<exists>s :: unit ast. PointerIsMine AP64 s 0x28000000442a \<and> GetSizeClass AP64 s 0x28000000442a = 24"
proof -
  obtain s3 s4 where r: "areach no_callback st0 s3 {(0x280000008800, 24), (0x280000004400, 24), (0x280000000000, 24)}
        [(0x280000008800, 24), (0x280000004400, 24), (0x280000000000, 24)]"
    by (rule run3_reach)
  show ?thesis
    using owner_found [OF r st0_start(1), of "0x280000004400" 24 "0x28000000442a"]
    by (auto simp: in_block_def csize_24)
qed

theorem dangling_faults_witness:
  "\<exists>s :: unit ast. areach no_callback st0 s {(0x280000008800, 24), (0x280000004400, 24)}
        [(0x280000008800, 24), (0x280000004400, 24), (0x280000000000, 24)]
     \<and> vload8 (avm s) 0x280000000010 = Inl (Segv 0x280000000010)"
proof -
  obtain s3 s4 where r: "areach no_callback st0 s4 {(0x280000008800, 24), (0x280000004400, 24)}
        [(0x280000008800, 24), (0x280000004400, 24), (0x280000000000, 24)]"
    by (rule run3_reach)
  show ?thesis
    using r dangling_faults(1) [OF r st0_start, of "(0x280000000000, 24)" "0x280000000010"]
    by (auto simp: in_block_def csize_24)
qed

end
