(* ===== verification/AliasSeam.thy ===== *)
theory AliasSeam
  imports AliasDead
begin

text \<open>
  A new physical page is entered into both maps by \<^verbatim>\<open>AllocateChunk\<close>, but the object of its first mapping is not pushed to the
  list \<^verbatim>\<open>vlist\<close> of the page. This theory follows what becomes of it when further blocks are cut from the page and the
  first block is freed: \<^verbatim>\<open>remove\<close> of a node that is not in the list.
\<close>

section \<open>Blocks cut from one page\<close>

definition callback_returns :: "'s callback \<Rightarrow> bool" where
  "callback_returns onmap \<longleftrightarrow> (\<forall>b n k. \<exists>k'. onmap b n k = Inr k')"

lemma OnMap_returns: "callback_returns onmap \<Longrightarrow> \<exists>k. OnMap onmap b n s = Inr (s\<lparr>client := k\<rparr>)"
proof -
  assume "callback_returns onmap"
  then obtain k where "onmap b n (client s) = Inr k" unfolding callback_returns_def by blast
  then show "\<exists>k. OnMap onmap b n s = Inr (s\<lparr>client := k\<rparr>)" by (intro exI [of _ k]) (simp add: OnMap_def)
qed

text \<open>An allocation inside one page is one chunk; the callback changes its own state only.\<close>

lemma Allocate_small:
  fixes s :: "'s ast" and Q :: "'s ast \<Rightarrow> bool"
  assumes cb: "callback_returns onmap" and R: "Refill AP64 t c (Size DefaultSizeClassMap c) s = Inr s0"
    and L: "L = lower_bound (caches s0 t c)" and fits: "unat L mod 4096 + csize c \<le> 4096" "0 < csize c" "csize c < 4096"
    and Q: "\<And>s k. Q s \<Longrightarrow> Q (s\<lparr>client := k\<rparr>)"
  shows "(\<And>k. AllocateChunk AP64 t c L (Size DefaultSizeClassMap c) (s0\<lparr>client := k\<rparr>) = Inl e) \<Longrightarrow>
      Allocate AP64 onmap t c rz s = Inl e"
    "(\<And>k. \<exists>s'. AllocateChunk AP64 t c L (Size DefaultSizeClassMap c) (s0\<lparr>client := k\<rparr>) = Inr s' \<and> Q s') \<Longrightarrow>
      \<exists>s'. Q s' \<and> Allocate AP64 onmap t c rz s = Inr (L, set_cache t c
        ((caches s' t c)\<lparr>lower_bound := lower_bound (caches s' t c) + (Size DefaultSizeClassMap c + rz)\<rparr>) s')"
proof -
  let ?sz = "Size DefaultSizeClassMap c"
  have sm: "ClassIdToSize AP64 c = ?sz" by (simp add: ClassIdToSize_def AP64_def)
  have us: "unat ?sz = csize c" by (simp add: csize_def)
  have small: "\<not> GetPageSizeCached \<le> ?sz" "0 < ?sz" "\<not> GetPageSizeCached \<le> 0"
    using fits us by (simp_all add: word_le_nat_alt word_less_nat_alt unat_page_size)
  note off = unat_page_offset [of L, folded round_down_page]
  have sel: "s0\<lparr>client := client s0\<rparr> = s0" by simp
  have head: "(if GetPageSizeCached - (L - RoundDownTo L GetPageSizeCached) < ?sz
      then GetPageSizeCached - (L - RoundDownTo L GetPageSizeCached) else ?sz) = ?sz"
  proof -
    have "L - RoundDownTo L GetPageSizeCached \<le> GetPageSizeCached"
      unfolding word_le_nat_alt off unat_page_size by (simp add: less_imp_le)
    then have "unat (GetPageSizeCached - (L - RoundDownTo L GetPageSizeCached)) = 4096 - unat L mod 4096"
      by (subst unat_sub) (simp_all only: off unat_page_size)
    then have "\<not> GetPageSizeCached - (L - RoundDownTo L GetPageSizeCached) < ?sz"
      using fits(1) us by (simp add: word_less_nat_alt)
    then show ?thesis by simp
  qed
  note form = Allocate_def [of AP64 onmap t c rz s, unfolded Let_def sm R bindr.simps L [symmetric]]
  have al: "IsAligned L GetPageSizeCached" if z: "L - RoundDownTo L GetPageSizeCached = 0"
  proof -
    have "unat L mod 4096 = 0" using off unfolding z by simp
    then show ?thesis unfolding page_size_pow2 IsAligned_iff_dvd by (simp add: mod_eq_0_iff_dvd)
  qed
  show "Allocate AP64 onmap t c rz s = Inl e" if "\<And>k. AllocateChunk AP64 t c L ?sz (s0\<lparr>client := k\<rparr>) = Inl e"
  proof (cases "L - RoundDownTo L GetPageSizeCached = 0")
    case True
    then have "IsAligned L GetPageSizeCached" by (rule al)
    moreover obtain k where "OnMap onmap L GetPageSizeCached s0 = Inr (s0\<lparr>client := k\<rparr>)" using OnMap_returns [OF cb] by blast
    ultimately show ?thesis
      using that small unfolding form True by simp
  next
    case False
    note F = form [unfolded eqTrueI [OF False] if_True head]
    have "AllocateChunk AP64 t c L ?sz s0 = Inl e" using that [of "client s0"] sel by simp
    then show ?thesis unfolding F by simp
  qed
  show "\<exists>s'. Q s' \<and> Allocate AP64 onmap t c rz s = Inr (L, set_cache t c
        ((caches s' t c)\<lparr>lower_bound := lower_bound (caches s' t c) + (?sz + rz)\<rparr>) s')"
    if step: "\<And>k. \<exists>s'. AllocateChunk AP64 t c L ?sz (s0\<lparr>client := k\<rparr>) = Inr s' \<and> Q s'"
  proof (cases "L - RoundDownTo L GetPageSizeCached = 0")
    case True
    then have "IsAligned L GetPageSizeCached" by (rule al)
    moreover obtain k where "OnMap onmap L GetPageSizeCached s0 = Inr (s0\<lparr>client := k\<rparr>)" using OnMap_returns [OF cb] by blast
    moreover obtain s' where "AllocateChunk AP64 t c L ?sz (s0\<lparr>client := k\<rparr>) = Inr s'" "Q s'" using step by blast
    ultimately show ?thesis
      using small unfolding form True by (intro exI [of _ s']) simp
  next
    case False
    note F = form [unfolded eqTrueI [OF False] if_True head]
    obtain s' where s': "AllocateChunk AP64 t c L ?sz s0 = Inr s'" "Q s'" using step [of "client s0"] sel by auto
    obtain k where k: "OnMap onmap (RoundDownTo L GetPageSizeCached) GetPageSizeCached s' = Inr (s'\<lparr>client := k\<rparr>)"
      using OnMap_returns [OF cb] by blast
    show ?thesis
      using s' k Q [OF s'(2), of k] small unfolding F
      by (intro exI [of _ "s'\<lparr>client := k\<rparr>"]) simp
  qed
qed

text \<open>Where the blocks lie: the redzones are whole pages, so that only the offsets move through the page.\<close>

definition seam_geo :: "uptr \<Rightarrow> uptr \<Rightarrow> uptr \<Rightarrow> nat \<Rightarrow> bool" where
  "seam_geo c rz A n \<longleftrightarrow> valid_class c \<and> rz_ok rz \<and> 4096 dvd unat rz \<and> 4096 dvd unat A \<and> 0 < unat A \<and> unat A \<le> 2 ^ 48 \<and>
     3 \<le> n \<and> (n + 1) * csize c \<le> 4096"

lemma seam_geoD:
  assumes "seam_geo c rz A n" and "k \<le> n"
  shows "0 < csize c" "csize c < 4096" "k * csize c + csize c \<le> 4096" "k * (csize c + unat rz) + csize c \<le> 2 ^ 31"
proof -
  have c: "16 \<le> csize c" using assms(1) csize_bounds(1) by (simp add: seam_geo_def)
  have n: "n * csize c + csize c \<le> 4096" using assms(1) by (simp add: seam_geo_def)
  have kn: "k * csize c \<le> n * csize c" using assms(2) by simp
  show "0 < csize c" "k * csize c + csize c \<le> 4096" using c kn n by linarith+
  have "3 * csize c \<le> n * csize c" using assms(1) unfolding seam_geo_def by (intro mult_le_mono1) simp
  then show "csize c < 4096" using n c by linarith
  have "k * 16 \<le> k * csize c" using c by simp
  then have "k \<le> 256" using kn n by linarith
  moreover have "unat rz \<le> 2 ^ 20" using assms(1) by (simp add: seam_geo_def rz_ok_def)
  ultimately have "k * unat rz \<le> 256 * 2 ^ 20" by (rule mult_le_mono)
  then have "k * (csize c + unat rz) + csize c \<le> 256 * 2 ^ 20 + 4096"
    using kn n unfolding add_mult_distrib2 by linarith
  then show "k * (csize c + unat rz) + csize c \<le> 2 ^ 31" by simp
qed

lemma seam_addr:
  assumes g: "seam_geo c rz A n" and k: "k \<le> n" and L: "unat L = unat A + k * (csize c + unat rz)"
  shows "unat L mod 4096 = k * csize c" "base (page_of L) \<noteq> 0" "0 < k \<Longrightarrow> base (page_of L) \<noteq> A"
    "L - RoundDownTo L GetPageSizeCached = of_nat (k * csize c)" "base (page_of A) = A"
proof -
  obtain a m where am: "unat A = 4096 * a" "unat rz = 4096 * m" using g by (auto simp: seam_geo_def elim!: dvdE)
  have pos: "0 < a" "0 < m" "a < 2 ^ 52" using g am by (auto simp: seam_geo_def rz_ok_def)
  note G = seam_geoD [OF g k]
  have lt: "k * csize c < 4096" using G(1,3) by linarith
  have L2: "unat L = k * csize c + 4096 * (a + k * m)" using L am by (simp add: algebra_simps)
  show md: "unat L mod 4096 = k * csize c" unfolding L2 using lt by (simp only: mod_mult_self2 mod_less)
  have "page_of L = a + k * m" unfolding page_of_def L2 using lt by simp
  then have ub: "unat (base (page_of L)) = (a + k * m) * 4096" using unat_base [OF page_of_bound [of L]] by simp
  then show "base (page_of L) \<noteq> 0" using pos by (auto simp: word_unat_eq_iff)
  show "base (page_of L) \<noteq> A" if "0 < k" using ub am(1) pos that by (auto simp: word_unat_eq_iff)
  show "L - RoundDownTo L GetPageSizeCached = of_nat (k * csize c)"
    unfolding round_down_page word_unat_eq_iff unat_page_offset md using lt by (simp only: unat_of_nat) simp
  show "base (page_of A) = A" unfolding word_unat_eq_iff unat_base [OF page_of_bound] by (simp add: page_of_def am(1))
qed

text \<open>
  \<open>seam t c rz A v p n k s\<close>: the thread \<open>t\<close> has cut \<open>k\<close> blocks of the class \<open>c\<close> from the page object \<open>p\<close>, the first one at \<open>A\<close> with
  the object \<open>v\<close>; \<open>v\<close> is in the maps and not in the list of the page, which holds the objects of the other \<open>k - 1\<close> blocks.
\<close>

definition seam :: "nat \<Rightarrow> uptr \<Rightarrow> uptr \<Rightarrow> uptr \<Rightarrow> uptr \<Rightarrow> uptr \<Rightarrow> nat \<Rightarrow> nat \<Rightarrow> 's ast \<Rightarrow> bool" where
  "seam t c rz A v p n k s \<longleftrightarrow> no_errors (avm s) \<and> unat (heap_next s) + 64 * (n - k) \<le> unat heap_limit \<and>
     unat (lower_bound (caches s t c)) = unat A + k * (csize c + unat rz) \<and>
     unat (upper_bound (caches s t c)) = unat A + 2 ^ 32 \<and>
     (\<exists>rest. free_list (caches s t c) = cut_pieces p (csize c) (k * csize c) 4096 @ rest) \<and>
     Forkmap s A = Some v \<and> Pagemap s A = Some p \<and> v \<noteq> 0 \<and> p \<noteq> 0 \<and> v < heap_next s \<and>
     dnext (vpage_links s) v = 0 \<and> dprev (vpage_links s) v = 0 \<and> lsize (ppage_vlist s p) = of_nat (k - 1) \<and>
     (1 < k \<longrightarrow> lfirst (ppage_vlist s p) \<noteq> 0 \<and> llast (ppage_vlist s p) \<noteq> 0 \<and> v \<noteq> llast (ppage_vlist s p))"

lemma seam_client [simp]: "seam t c rz A v p n k (s\<lparr>client := x\<rparr>) = seam t c rz A v p n k s"
  by (simp add: seam_def)

lemma cut_pieces_step:
  assumes "0 < cs" "pos + cs \<le> 4096"
  shows "cut_pieces p cs pos 4096 = \<lparr>fpage = p, foffset = of_nat pos, fsize = of_nat cs\<rparr> # cut_pieces p cs (pos + cs) 4096"
proof -
  have "(if 4096 - pos < cs then 4096 - pos else cs) = cs" using assms(2) by simp
  moreover have "pos < 4096 \<and> 0 < cs" using assms by simp
  ultimately show ?thesis by (simp add: cut_pieces.simps [of p cs pos])
qed

text \<open>The next piece of the page is at the head of the free list.\<close>

lemma seam_take:
  assumes g: "seam_geo c rz A n" and k: "k \<le> n" and L: "unat L = unat A + k * (csize c + unat rz)"
    and fl: "free_list (caches s t c) = cut_pieces p (csize c) (k * csize c) 4096 @ rest"
  shows "AllocateChunk AP64 t c L (Size DefaultSizeClassMap c) s =
    reuse_chunk \<lparr>fpage = p, foffset = of_nat (k * csize c), fsize = Size DefaultSizeClassMap c\<rparr> (base (page_of L))
      (set_free_list t c (cut_pieces p (csize c) (Suc k * csize c) 4096 @ rest) s)"
proof -
  note G = seam_geoD [OF g k] and D = seam_addr [OF g k L]
  have sz: "of_nat (csize c) = Size DefaultSizeClassMap c" by (simp add: csize_def)
  show ?thesis
    unfolding AllocateChunk_def Let_def D(4) fl cut_pieces_step [OF G(1,3)] sz
    by (simp add: round_down_page add.commute)
qed

text \<open>The system calls of the allocator, when the kernel does not refuse: the address asked for, or an error number that is no page.\<close>

lemma mmap_result:
  assumes "MmapAliasing va GetPageSizeCached s = (r, s1)" and "no_errors (avm s)" and "unat va mod 4096 = 0"
  shows "r = va" "s1 = s\<lparr>avm := avm s1\<rparr>" "no_errors (avm s1)"
proof -
  show "s1 = s\<lparr>avm := avm s1\<rparr>" using assms(1) by (auto simp: MmapAliasing_def split: prod.splits)
  show "r = va" using assms by (auto simp: MmapAliasing_def mmap_fixed_shared_def try_call_ok GetPageSizeCached_def split: prod.splits)
  show "no_errors (avm s1)" using same_no_errors [OF same_MmapAliasing [OF assms(1)]] assms(2) by simp
qed

lemma mremap_result:
  assumes "MremapAliasing o1 va s = (r, s1)" and "no_errors (avm s)"
  shows "r = va \<or> r = EINVAL" "s1 = s\<lparr>avm := avm s1\<rparr>" "no_errors (avm s1)"
proof -
  show "s1 = s\<lparr>avm := avm s1\<rparr>" using assms(1) by (auto simp: MremapAliasing_def split: prod.splits)
  have "fst (mremap_dup o1 va (avm s)) = va \<or> fst (mremap_dup o1 va (avm s)) = EINVAL"
    using assms(2) by (auto simp: mremap_dup_def try_call_def no_errors_def split: option.splits mapping.splits)
  then show "r = va \<or> r = EINVAL" using assms(1) by (auto simp: MremapAliasing_def split: prod.splits)
  show "no_errors (avm s1)" using same_no_errors [OF same_MremapAliasing [OF assms(1)]] assms(2) by simp
qed

lemma InternalAlloc_room:
  assumes "unat (heap_next s) + 64 \<le> unat heap_limit"
  shows "InternalAlloc s = Inr (heap_next s, s\<lparr>heap_next := heap_next s + 64\<rparr>)" "unat (heap_next s + 64) = unat (heap_next s) + 64"
proof -
  show "InternalAlloc s = Inr (heap_next s, s\<lparr>heap_next := heap_next s + 64\<rparr>)"
    using assms by (simp add: InternalAlloc_def word_le_nat_alt)
  show "unat (heap_next s + 64) = unat (heap_next s) + 64"
    using assms by (subst unat_add_nowrap) (simp_all add: heap_limit_def)
qed

lemma new_vpage_room:
  assumes "unat (heap_next s) + 64 \<le> unat heap_limit" and "heap_next s \<noteq> 0"
  shows "new_vpage r s = Inr (heap_next s, s\<lparr>heap_next := heap_next s + 64, vpage_addr := (vpage_addr s)(heap_next s := r)\<rparr>)"
  using assms(2) by (simp add: new_vpage_def InternalAlloc_room [OF assms(1)])

text \<open>One more block of the page.\<close>

lemma seam_reuse:
  fixes s :: "'s ast"
  assumes "no_errors (avm s)" "unat (heap_next s) + 64 \<le> unat heap_limit" "Forkmap s A = Some v" "Pagemap s A = Some p" "v \<noteq> 0" "p \<noteq> 0"
    "v < heap_next s" "dnext (vpage_links s) v = 0" "dprev (vpage_links s) v = 0" "lsize (ppage_vlist s p) = of_nat (k - 1)"
    "1 < k \<longrightarrow> lfirst (ppage_vlist s p) \<noteq> 0 \<and> llast (ppage_vlist s p) \<noteq> 0 \<and> v \<noteq> llast (ppage_vlist s p)"
    and va: "unat va mod 4096 = 0" "va \<noteq> 0" "va \<noteq> A" "unat A mod 4096 = 0" and k: "0 < k" "k < 2 ^ 64" and f: "fpage f = p"
  shows "\<exists>s'. reuse_chunk f va s = Inr s' \<and> no_errors (avm s') \<and> heap_next s' = heap_next s + 64 \<and> Forkmap s' A = Some v \<and> Pagemap s' A = Some p \<and>
    dnext (vpage_links s') v = 0 \<and> dprev (vpage_links s') v = 0 \<and> lsize (ppage_vlist s' p) = of_nat k \<and>
    lfirst (ppage_vlist s' p) \<noteq> 0 \<and> llast (ppage_vlist s' p) \<noteq> 0 \<and> v \<noteq> llast (ppage_vlist s' p) \<and> caches s' = caches s"
proof -
  have E: "EINVAL \<noteq> 0" "EINVAL \<noteq> A" using va(4) error_unaligned [OF EINVAL_error] by (auto simp: EINVAL_def)
  have h0: "heap_next s \<noteq> 0" "v \<noteq> heap_next s" using assms(7) by auto
  note H = InternalAlloc_room [OF assms(2)] new_vpage_room [OF assms(2) h0(1)]
  show ?thesis
  proof (cases "k = 1")
    case True
    obtain m where m: "MmapAliasing va GetPageSizeCached s = (va, s\<lparr>avm := m\<rparr>)" "no_errors m"
      using mmap_result [OF _ assms(1) va(1)] by (metis surj_pair)
    have n: "new_vpage va (s\<lparr>avm := m\<rparr>) = Inr (heap_next s, s\<lparr>avm := m, heap_next := heap_next s + 64,
        vpage_addr := (vpage_addr s)(heap_next s := va)\<rparr>)"
      using new_vpage_room [of "s\<lparr>avm := m\<rparr>" va] assms(2) h0 by simp
    have e: "dl_empty (ppage_vlist s p)" using assms(10) True by (simp add: dl_empty_def)
    show ?thesis
      using assms(3-9) h0 va f True e m n
      by (simp add: reuse_chunk_def Let_def vlist_push_back_def dl_push_back_def dl_clear_def dl_empty_def register_page_def set_next_def set_prev_def)
  next
    case False
    then have k1: "1 < k" using k by simp
    obtain r m where m: "MremapAliasing (vpage_addr s (lfirst (ppage_vlist s p))) va s = (r, s\<lparr>avm := m\<rparr>)" "no_errors m" "r = va \<or> r = EINVAL"
      using mremap_result [OF _ assms(1)] by (metis surj_pair)
    have r: "r \<noteq> 0" "r \<noteq> A" using m(3) E va by auto
    have n: "new_vpage r (s\<lparr>avm := m\<rparr>) = Inr (heap_next s, s\<lparr>avm := m, heap_next := heap_next s + 64,
        vpage_addr := (vpage_addr s)(heap_next s := r)\<rparr>)"
      using new_vpage_room [of "s\<lparr>avm := m\<rparr>" r] assms(2) h0 by simp
    obtain j where "k = Suc j" "0 < j" "j < 2 ^ 64" using k k1 by (cases k) auto
    then have "(of_nat (k - 1) :: uptr) \<noteq> 0" by (auto simp: word_unat_eq_iff unat_of_nat)
    then have e: "\<not> dl_empty (ppage_vlist s p)" using assms(10) by (simp add: dl_empty_def)
    have sz: "of_nat (k - 1) + 1 = (of_nat k :: uptr)" using k1 by (simp add: of_nat_diff)
    show ?thesis
      using assms(3-11) h0 va f k1 e m r n sz
      by (simp add: reuse_chunk_def Let_def vlist_push_back_def dl_push_back_def dl_clear_def register_page_def set_next_def set_prev_def)
  qed
qed

lemma no_refill:
  assumes "seam_geo c rz A n" and "k \<le> n" and L: "unat (lower_bound (caches s t c)) = unat A + k * (csize c + unat rz)"
    and U: "unat (upper_bound (caches s t c)) = unat A + 2 ^ 32"
  shows "Refill AP64 t c (Size DefaultSizeClassMap c) s = Inr s"
proof -
  note G = seam_geoD [OF assms(1,2)]
  have A: "unat A \<le> 2 ^ 48" using assms(1) by (simp add: seam_geo_def)
  have "unat (Size DefaultSizeClassMap c + lower_bound (caches s t c)) = csize c + unat (lower_bound (caches s t c))"
    using L A G by (subst unat_add_nowrap) (simp_all add: csize_def [symmetric])
  then have "\<not> Size DefaultSizeClassMap c + lower_bound (caches s t c) > upper_bound (caches s t c)"
    using L U G(4) by (simp add: word_less_nat_alt)
  then show ?thesis by (simp add: Refill_def Let_def)
qed

lemma seam_bump:
  assumes "unat (lower_bound pc) = unat A + k * (csize c + unat rz)" "seam_geo c rz A n" "k \<le> n"
  shows "unat (lower_bound pc + (Size DefaultSizeClassMap c + rz)) = unat A + Suc k * (csize c + unat rz)"
proof -
  note G = seam_geoD [OF assms(2,3)]
  have A: "unat A \<le> 2 ^ 48" "unat rz \<le> 2 ^ 20" using assms(2) by (simp_all add: seam_geo_def rz_ok_def)
  have "unat (Size DefaultSizeClassMap c + rz) = csize c + unat rz"
    using G(2) A(2) by (subst unat_add_nowrap) (simp_all add: csize_def)
  then show ?thesis using assms(1) G A by (subst unat_add_nowrap) simp_all
qed

lemma seam_step:
  assumes cb: "callback_returns onmap" and g: "seam_geo c rz A n" and k: "0 < k" "k < n" and S: "seam t c rz A v p n k s"
  shows "\<exists>q s'. Allocate AP64 onmap t c rz s = Inr (q, s') \<and> seam t c rz A v p n (Suc k) s'"
proof -
  let ?L = "lower_bound (caches s t c)" and ?sz = "Size DefaultSizeClassMap c"
  have kn: "k \<le> n" using k by simp
  note G = seam_geoD [OF g kn]
  have L: "unat ?L = unat A + k * (csize c + unat rz)" using S by (simp add: seam_def)
  have U: "unat (upper_bound (caches s t c)) = unat A + 2 ^ 32" using S by (simp add: seam_def)
  note D = seam_addr [OF g kn L]
  obtain rest where fl: "free_list (caches s t c) = cut_pieces p (csize c) (k * csize c) 4096 @ rest" using S by (auto simp: seam_def)
  have base0: "unat (base (page_of ?L)) mod 4096 = 0" "unat A mod 4096 = 0"
    using unat_base [OF page_of_bound [of ?L]] g by (simp_all add: seam_geo_def mod_eq_0_iff_dvd)
  have heap: "unat (heap_next s) + 64 \<le> unat heap_limit" using S k by (auto simp: seam_def)
  have k64: "k < 2 ^ 64"
  proof -
    have "k * 1 \<le> k * csize c" using G(1) by (intro mult_le_mono2) simp
    then have "k \<le> 4096" using G(3) by linarith
    then show ?thesis by simp
  qed
  define Q where "Q = (\<lambda>s' :: 'a ast. seam t c rz A v p n (Suc k)
      (set_cache t c ((caches s' t c)\<lparr>lower_bound := lower_bound (caches s' t c) + (?sz + rz)\<rparr>) s'))"
  have Qk: "Q (s'\<lparr>client := x\<rparr>)" if "Q s'" for s' x using that by (simp add: Q_def seam_def set_cache_def)
  have "\<exists>s'. AllocateChunk AP64 t c ?L ?sz (s\<lparr>client := x\<rparr>) = Inr s' \<and> Q s'" for x
  proof -
    let ?s = "s\<lparr>client := x\<rparr>" and ?fl = "cut_pieces p (csize c) (Suc k * csize c) 4096 @ rest"
    let ?s1 = "set_free_list t c ?fl ?s" and ?f = "\<lparr>fpage = p, foffset = of_nat (k * csize c), fsize = ?sz\<rparr>"
    have f: "fpage ?f = p" by simp
    have run: "AllocateChunk AP64 t c ?L ?sz ?s = reuse_chunk ?f (base (page_of ?L)) ?s1"
      using seam_take [OF g kn L, of ?s t p rest] fl by simp
    obtain s' where s': "reuse_chunk ?f (base (page_of ?L)) ?s1 = Inr s'" "no_errors (avm s')" "heap_next s' = heap_next s + 64"
      "Forkmap s' A = Some v" "Pagemap s' A = Some p" "dnext (vpage_links s') v = 0" "dprev (vpage_links s') v = 0"
      "lsize (ppage_vlist s' p) = of_nat k" "lfirst (ppage_vlist s' p) \<noteq> 0" "llast (ppage_vlist s' p) \<noteq> 0" "v \<noteq> llast (ppage_vlist s' p)"
      "caches s' = caches ?s1"
      using seam_reuse [of ?s1 A v p k "base (page_of ?L)" ?f] S heap D(2,3) base0 k k64 f
      by (auto simp: seam_def set_free_list_def set_cache_def)
    have "unat (heap_next s') = unat (heap_next s) + 64" using InternalAlloc_room(2) [OF heap] s'(3) by simp
    moreover have "unat (heap_next s) + 64 * (n - k) \<le> unat heap_limit" using S by (simp add: seam_def)
    moreover have "n - k = Suc (n - Suc k)" using k by simp
    ultimately have h: "unat (heap_next s') + 64 * (n - Suc k) \<le> unat heap_limit" "v < heap_next s'"
      using S by (auto simp: seam_def word_less_nat_alt)
    have "Q s'"
      using S s' h seam_bump [OF L g kn] fl k
      by (auto simp: Q_def seam_def set_free_list_def set_cache_def)
    then show ?thesis using run s'(1) by auto
  qed
  moreover have fits: "unat ?L mod 4096 + csize c \<le> 4096" using D(1) G(3) by simp
  ultimately obtain s' where "Q s'" "Allocate AP64 onmap t c rz s = Inr (?L, set_cache t c
        ((caches s' t c)\<lparr>lower_bound := lower_bound (caches s' t c) + (?sz + rz)\<rparr>) s')"
    using Allocate_small(2) [where Q = Q and rz = rz, OF cb no_refill [OF g kn L U] refl fits G(1,2) Qk] by blast
  then show ?thesis unfolding Q_def by blast
qed

text \<open>The first block, of a thread that has not used the class before, in any reachable state.\<close>

definition unused_class :: "nat \<Rightarrow> uptr \<Rightarrow> 's ast \<Rightarrow> bool" where
  "unused_class t c s \<longleftrightarrow> lower_bound (caches s t c) = 0 \<and> upper_bound (caches s t c) = 0 \<and> free_list (caches s t c) = [] \<and>
     (region_pos s c = 0 \<or> region_pos s c < GetRegionBeginBySizeClass AP64 s (c + 1))"

lemma seam_refill:
  assumes v: "virt s bs" and c: "valid_class c" and u: "unused_class t c s"
  shows "\<exists>A. Refill AP64 t c (Size DefaultSizeClassMap c) s = Inr (set_cache t c ((caches s t c)\<lparr>lower_bound := A, upper_bound := A + kPopulateSize\<rparr>)
      (s\<lparr>region_pos := (region_pos s)(c := A + kPopulateSize)\<rparr>)) \<and>
    4096 dvd unat A \<and> 0 < unat A \<and> unat A \<le> 2 ^ 48"
proof -
  let ?b = "NonConstSpaceBeg s"
  define A where "A = (if region_pos s c = 0 then GetRegionBeginBySizeClass AP64 s c else region_pos s c)"
  have sp: "space_ok ?b" by (rule virt_space [OF v])
  have c53: "unat c \<le> 53" "unat (c + 1) \<le> 53" using c by (simp_all add: valid_class_nat unat_add_nowrap)
  note rb = region_begin [OF sp c53(1) refl] region_begin [OF sp c53(2) refl, unfolded rbeg_Suc [OF c]]
  have "pos_ok ?b c (region_pos s c)" using v c by (simp add: virt_def virtb_def abounds_def)
  then obtain k where k: "unat A = rbeg ?b c + k * 2 ^ 32" "k \<le> 256"
    unfolding A_def pos_ok_def using rb(1) by (cases "region_pos s c = 0") (auto intro: that [of 0] that)
  have "A < GetRegionBeginBySizeClass AP64 s (c + 1)"
    using u rb unfolding A_def unused_class_def by (auto simp: word_less_nat_alt)
  then have lt: "\<not> GetRegionBeginBySizeClass AP64 s (c + 1) \<le> A" by simp
  have "rbeg ?b c \<noteq> 0" using sp by (simp add: rbeg_def space_ok_def)
  then have A0: "A \<noteq> 0" "0 < unat A" using k(1) by auto
  have "k * 2 ^ 32 \<le> 256 * 2 ^ 32" using k(2) by (rule mult_le_mono1)
  then have "unat A \<le> 2 ^ 48" using k(1) rbeg_bound [OF sp c53(1)] by simp
  moreover have "4096 dvd unat A" unfolding k(1) by (rule rbeg_dvd [OF sp])
  moreover have "0 < Size DefaultSizeClassMap c" using Size_positive [OF c] by (simp add: csize_def word_less_nat_alt)
  then have "Refill AP64 t c (Size DefaultSizeClassMap c) s = Inr (set_cache t c ((caches s t c)\<lparr>lower_bound := A, upper_bound := A + kPopulateSize\<rparr>)
      (s\<lparr>region_pos := (region_pos s)(c := A + kPopulateSize)\<rparr>))"
    using u lt c A0 unfolding unused_class_def A_def [symmetric]
    by (simp add: Refill_def Let_def GetFromAllocator_def GetRegionInfo_def A_def [symmetric] valid_class_def AP64_sel(1))
  ultimately show ?thesis using A0(2) by blast
qed

lemma seam_start:
  assumes cb: "callback_returns onmap" and r: "areach onmap s0 s live bs" "alloc_start s0" "no_errors (avm s0)"
    and c: "valid_class c" and rz: "rz_ok rz" "4096 dvd unat rz" and n: "3 \<le> n" "(n + 1) * csize c \<le> 4096"
    and u: "unused_class t c s" and heap: "unat (heap_next s) + 64 * (n + 1) \<le> unat heap_limit"
  shows "\<exists>A v p s'. Allocate AP64 onmap t c rz s = Inr (A, s') \<and> seam t c rz A v p n 1 s' \<and> seam_geo c rz A n"
proof -
  let ?sz = "Size DefaultSizeClassMap c"
  have v: "virt s bs" using areach_virt [OF r(1,2)] by simp
  have e: "no_errors (avm s)" using areach_dead [OF r] by (simp add: dead_ok_def)
  obtain g where "phys g s" using areach_inv [OF r(1,2)] by (auto simp: ainv_def)
  then have lk: "heap_next s \<noteq> 0" "\<forall>x \<ge> heap_next s. dnext (vpage_links s) x = 0 \<and> dprev (vpage_links s) x = 0"
    by (auto simp: phys_def link_ok_def)
  obtain A where R: "Refill AP64 t c ?sz s = Inr (set_cache t c ((caches s t c)\<lparr>lower_bound := A, upper_bound := A + kPopulateSize\<rparr>)
      (s\<lparr>region_pos := (region_pos s)(c := A + kPopulateSize)\<rparr>))" and A: "4096 dvd unat A" "0 < unat A" "unat A \<le> 2 ^ 48"
    using seam_refill [OF v c u] by blast
  have g: "seam_geo c rz A n" unfolding seam_geo_def using c rz A n by blast
  note G = seam_geoD [OF g, of 0]
  define s1 where "s1 = set_cache t c ((caches s t c)\<lparr>lower_bound := A, upper_bound := A + kPopulateSize\<rparr>)
      (s\<lparr>region_pos := (region_pos s)(c := A + kPopulateSize)\<rparr>)"
  have s1: "lower_bound (caches s1 t c) = A" "upper_bound (caches s1 t c) = A + kPopulateSize" "free_list (caches s1 t c) = []"
    "avm s1 = avm s" "heap_next s1 = heap_next s" "vpage_links s1 = vpage_links s" "ppage_vlist s1 = ppage_vlist s"
    using u by (simp_all add: s1_def set_cache_def unused_class_def)
  have uA: "unat (A + kPopulateSize) = unat A + 2 ^ 32" using A(3) unat_kPopulateSize by (subst unat_add_nowrap) simp_all
  let ?H = "heap_next s" and ?cs = "csize c"
  have H: "unat (?H + 64) = unat ?H + 64" "unat (?H + 64 + 64) = unat ?H + 128"
    using heap by (simp_all add: unat_add_nowrap heap_limit_def)
  have H0: "?H + 64 \<noteq> 0" "?H < ?H + 64 + 64" "?H \<le> ?H + 64" "?H + 64 < ?H + 64 + 64"
    using H by (auto simp: word_less_nat_alt word_le_nat_alt)
  define Q where "Q = (\<lambda>s' :: 'a ast. seam t c rz A (?H + 64) ?H n 1
      (set_cache t c ((caches s' t c)\<lparr>lower_bound := lower_bound (caches s' t c) + (?sz + rz)\<rparr>) s'))"
  have Qk: "Q (s'\<lparr>client := x\<rparr>)" if "Q s'" for s' x using that by (simp add: Q_def seam_def set_cache_def)
  have al: "unat A mod 4096 = 0" using A(1) by (simp add: mod_eq_0_iff_dvd)
  have bA: "base (page_of A) = A" using seam_addr(5) [OF g, of 0 A] by simp
  have "\<exists>s'. AllocateChunk AP64 t c A ?sz (s1\<lparr>client := x\<rparr>) = Inr s' \<and> Q s'" for x
  proof -
    let ?s = "s1\<lparr>client := x\<rparr>"
    obtain m where m: "MmapAliasing A GetPageSizeCached ?s = (A, ?s\<lparr>avm := m\<rparr>)" "no_errors m"
    proof -
      obtain r s2 where r: "MmapAliasing A GetPageSizeCached ?s = (r, s2)" by fastforce
      have "no_errors (avm ?s)" using e s1(4) by simp
      note M = mmap_result [OF r this al]
      show thesis using that [of "avm s2"] r M by simp
    qed
    have hp: "unat ?H + 64 \<le> unat heap_limit" "unat (?H + 64) + 64 \<le> unat heap_limit" using heap H n(1) by simp_all
    have I: "InternalAlloc (?s\<lparr>avm := m\<rparr>) = Inr (?H, ?s\<lparr>avm := m, heap_next := ?H + 64\<rparr>)"
      using InternalAlloc_room(1) [of "?s\<lparr>avm := m\<rparr>"] hp s1(5) by simp
    have N: "new_vpage A (?s\<lparr>avm := m, heap_next := ?H + 64, ppage_vlist := X\<rparr>) = Inr (?H + 64, ?s\<lparr>avm := m,
        heap_next := ?H + 64 + 64, ppage_vlist := X, vpage_addr := (vpage_addr s1)(?H + 64 := A)\<rparr>)" for X
      using new_vpage_room [of "?s\<lparr>avm := m, heap_next := ?H + 64, ppage_vlist := X\<rparr>" A] hp H0 by simp
    have A0: "A \<noteq> 0" using A(2) by auto
    have "cut_pieces ?H ?cs 0 0 = []" by (simp add: cut_pieces.simps)
    then have run: "AllocateChunk AP64 t c A ?sz ?s = Inr (set_free_list t c (cut_pieces ?H ?cs ?cs 4096)
        (register_page A (?H + 64) ?H (?s\<lparr>avm := m, heap_next := ?H + 64 + 64, ppage_vlist := (ppage_vlist s1)(?H := empty_lst),
          vpage_addr := (vpage_addr s1)(?H + 64 := A)\<rparr>)))"
      unfolding AllocateChunk_def Let_def round_down_page bA AP64_sel(1)
      using m(1) I N A0 lk(1) s1(1-3)
      by (simp add: fresh_chunk_def register_page_def unat_page_size csize_def [symmetric])
    have "n - 1 + 2 = n + 1" using n(1) by simp
    then have h: "unat ?H + 128 + 64 * (n - Suc 0) \<le> unat heap_limit" using heap by simp
    show ?thesis unfolding run
      using m(2) h H H0 uA s1 lk seam_bump [of "caches s1 t c" A 0 c rz n] g n
      by (auto simp: Q_def seam_def set_free_list_def set_cache_def register_page_def empty_lst_def)
  qed
  moreover have fits: "unat (lower_bound (caches s1 t c)) mod 4096 + csize c \<le> 4096" using al G s1(1) by simp
  ultimately obtain s' where "Q s'" "Allocate AP64 onmap t c rz s = Inr (A, set_cache t c
        ((caches s' t c)\<lparr>lower_bound := lower_bound (caches s' t c) + (?sz + rz)\<rparr>) s')"
    using Allocate_small(2) [where Q = Q and rz = rz, OF cb R [folded s1_def] refl fits G(1,2) Qk] unfolding s1(1) by blast
  then show ?thesis using g unfolding Q_def by blast
qed

section \<open>Freeing the first block\<close>

text \<open>\<^verbatim>\<open>remove\<close> of the object that is not in the list makes the list forget its items, but not their number.\<close>

lemma seam_free:
  assumes g: "seam_geo c rz A n" and S: "seam t c rz A v p n n s"
  shows "\<exists>s' rest. Deallocate AP64 t c A s = Inr s' \<and> unat (lower_bound (caches s' t c)) = unat A + n * (csize c + unat rz) \<and>
    unat (upper_bound (caches s' t c)) = unat A + 2 ^ 32 \<and>
    free_list (caches s' t c) = cut_pieces p (csize c) (n * csize c) 4096 @ rest \<and> \<not> dl_empty (ppage_vlist s' p) \<and> lfirst (ppage_vlist s' p) = 0"
proof -
  let ?sz = "Size DefaultSizeClassMap c"
  note G = seam_geoD [OF g, of 0]
  have us: "unat ?sz = csize c" by (simp add: csize_def)
  have small: "\<not> GetPageSizeCached \<le> ?sz" "0 < ?sz"
    using G us by (simp_all add: word_le_nat_alt word_less_nat_alt unat_page_size)
  have bA: "base (page_of A) = A" using seam_addr(5) [OF g, of 0 A] by simp
  have n: "3 \<le> n" "n * csize c + csize c \<le> 4096" using g by (simp_all add: seam_geo_def)
  have "n * 1 \<le> n * csize c" using G(1) by (intro mult_le_mono2) simp
  then have n64: "n \<le> 4096" using n(2) by linarith
  obtain j where j: "n = Suc (Suc (Suc j))" using n(1) by (metis Suc_le_D numeral_3_eq_3 Suc_le_mono)
  have ls: "lsize (ppage_vlist s p) = of_nat (n - 1)" using S by (simp add: seam_def)
  have "unat (of_nat (Suc (Suc j)) :: uptr) = Suc (Suc j)" "unat (of_nat (Suc j) :: uptr) = Suc j"
    using n64 j by (simp_all only: unat_of_nat) simp_all
  then have nz: "(of_nat (Suc (Suc j)) :: uptr) \<noteq> 0" "(of_nat (Suc j) :: uptr) \<noteq> 0" by (metis nat.simps(3) unat_0)+
  obtain rest where fl: "free_list (caches s t c) = cut_pieces p (csize c) (n * csize c) 4096 @ rest" using S by (auto simp: seam_def)
  define l where "l = ppage_vlist s p"
  have l: "\<not> dl_empty l" "lsize l - 1 \<noteq> 0" using ls nz unfolding l_def j by (simp_all add: dl_empty_def)
  have rm: "dl_remove v (vpage_links s, l) = Inr (set_prev v 0 (set_next v 0 (vpage_links s)), l\<lparr>lfirst := 0, llast := 0, lsize := lsize l - 1\<rparr>)"
    using S l(1) by (simp add: seam_def dl_remove_def Let_def)
  have pw: "IsPowerOfTwo GetPageSizeCached" unfolding page_size_pow2 by (rule IsPowerOfTwo_pow2)
  obtain r m where m: "MmapFixedNoAccess A (round_up (A + ?sz - A) GetPageSizeCached) (avm s) = (r, m)" by fastforce
  have A: "Forkmap s A = Some v" "Pagemap s A = Some p" "v \<noteq> 0" "p \<noteq> 0" using S by (simp_all add: seam_def)
  define s1 where "s1 = s\<lparr>Forkmap := (Forkmap s)(A := None), Pagemap := (Pagemap s)(A := None),
      vpage_links := set_prev v 0 (set_next v 0 (vpage_links s)),
      ppage_vlist := (ppage_vlist s)(p := l\<lparr>lfirst := 0, llast := 0, lsize := lsize l - 1\<rparr>)\<rparr>"
  define s2 where "s2 = set_free_list t c (free_list (caches s t c) @ [\<lparr>fpage = p, foffset = 0, fsize = ?sz\<rparr>]) s1"
  have "vlist_remove p v (s\<lparr>Forkmap := (Forkmap s)(A := None), Pagemap := (Pagemap s)(A := None)\<rparr>) = Inr s1"
    using rm by (simp add: vlist_remove_def l_def [symmetric] s1_def)
  then have dc: "DeallocateChunk t c A ?sz s = Inr s2"
    using A unfolding DeallocateChunk_def Let_def round_down_page bA by (simp add: s2_def) (simp add: s1_def)
  have "Deallocate AP64 t c A s = Inr (s2\<lparr>avm := m\<rparr>)"
    using small dc m pw unfolding Deallocate_def Let_def round_down_page bA ClassIdToSize_def AP64_sel(1)
    by (simp add: RoundUpTo_def s2_def set_free_list_def set_cache_def s1_def)
  moreover have "caches s2 t c = (caches s t c)\<lparr>free_list := free_list (caches s t c) @ [\<lparr>fpage = p, foffset = 0, fsize = ?sz\<rparr>]\<rparr>"
    "ppage_vlist s2 p = l\<lparr>lfirst := 0, llast := 0, lsize := lsize l - 1\<rparr>"
    by (simp_all add: s2_def s1_def set_free_list_def set_cache_def)
  moreover have "unat (lower_bound (caches s t c)) = unat A + n * (csize c + unat rz)" "unat (upper_bound (caches s t c)) = unat A + 2 ^ 32"
    using S by (simp_all add: seam_def)
  ultimately show ?thesis using fl l(2)
    by (intro exI [of _ "s2\<lparr>avm := m\<rparr>"] exI [of _ "rest @ [\<lparr>fpage = p, foffset = 0, fsize = ?sz\<rparr>]"]) (simp add: dl_empty_def)
qed

text \<open>An allocation from the page then follows the null pointer.\<close>

lemma seam_crash:
  assumes cb: "callback_returns onmap" and g: "seam_geo c rz A n"
    and L: "unat (lower_bound (caches s t c)) = unat A + n * (csize c + unat rz)" and U: "unat (upper_bound (caches s t c)) = unat A + 2 ^ 32"
    and fl: "free_list (caches s t c) = cut_pieces p (csize c) (n * csize c) 4096 @ rest"
    and p: "p \<noteq> 0" "\<not> dl_empty (ppage_vlist s p)" "lfirst (ppage_vlist s p) = 0"
  shows "Allocate AP64 onmap t c rz s = Inl (Segv 0)"
proof -
  note G = seam_geoD [OF g order_refl] and D = seam_addr [OF g order_refl L]
  have fits: "unat (lower_bound (caches s t c)) mod 4096 + csize c \<le> 4096" using D(1) G(3) by simp
  have "AllocateChunk AP64 t c (lower_bound (caches s t c)) (Size DefaultSizeClassMap c) (s\<lparr>client := x\<rparr>) = Inl (Segv 0)" for x
    using seam_take [OF g order_refl L, of "s\<lparr>client := x\<rparr>" t p rest] fl p
    by (simp add: reuse_chunk_def set_free_list_def set_cache_def)
  then show ?thesis
    using Allocate_small(1) [where Q = "\<lambda>_. True" and rz = rz, OF cb no_refill [OF g order_refl L U] refl fits G(1,2)] by blast
qed

section \<open>The property\<close>

text \<open>A thread allocates \<open>n\<close> blocks of a class.\<close>

fun allocate_blocks :: "'s callback \<Rightarrow> nat \<Rightarrow> uptr \<Rightarrow> uptr \<Rightarrow> nat \<Rightarrow> 's ast \<Rightarrow> (uptr list \<times> 's ast) res" where
  "allocate_blocks onmap t c rz 0 s = Inr ([], s)"
| "allocate_blocks onmap t c rz (Suc n) s =
     bindr (allocate_blocks onmap t c rz n s) (\<lambda>(ps, s1).
     bindr (Allocate AP64 onmap t c rz s1) (\<lambda>(p, s2). Inr (ps @ [p], s2)))"

lemma seam_blocks:
  assumes cb: "callback_returns onmap" and r: "areach onmap s0 s live bs" "alloc_start s0" "no_errors (avm s0)"
    and c: "valid_class c" and rz: "rz_ok rz" "4096 dvd unat rz" and n: "3 \<le> n" "(n + 1) * csize c \<le> 4096"
    and u: "unused_class t c s" and heap: "unat (heap_next s) + 64 * (n + 1) \<le> unat heap_limit"
  shows "\<exists>A v p. seam_geo c rz A n \<and> (\<forall>k. 0 < k \<longrightarrow> k \<le> n \<longrightarrow>
    (\<exists>ps s'. allocate_blocks onmap t c rz k s = Inr (A # ps, s') \<and> seam t c rz A v p n k s'))"
proof -
  obtain A v p s1 where S: "Allocate AP64 onmap t c rz s = Inr (A, s1)" "seam t c rz A v p n 1 s1" "seam_geo c rz A n"
    using seam_start [OF assms] by blast
  have "\<exists>ps s'. allocate_blocks onmap t c rz (Suc k) s = Inr (A # ps, s') \<and> seam t c rz A v p n (Suc k) s'" if "Suc k \<le> n" for k
    using that
  proof (induction k)
    case 0
    then show ?case using S(1,2) by simp
  next
    case (Suc k)
    obtain ps s' where IH: "allocate_blocks onmap t c rz (Suc k) s = Inr (A # ps, s')" "seam t c rz A v p n (Suc k) s'"
      using Suc.IH Suc.prems by auto
    obtain q s2 where st: "Allocate AP64 onmap t c rz s' = Inr (q, s2)" "seam t c rz A v p n (Suc (Suc k)) s2"
      using seam_step [OF cb S(3) _ _ IH(2)] Suc.prems by auto
    have "allocate_blocks onmap t c rz (Suc (Suc k)) s = Inr (A # ps @ [q], s2)"
      using st(1) by (subst allocate_blocks.simps) (simp only: IH(1) bindr.simps prod.case append_Cons)
    then show ?case using st(2) by blast
  qed
  then have "\<exists>ps s'. allocate_blocks onmap t c rz k s = Inr (A # ps, s') \<and> seam t c rz A v p n k s'" if "0 < k" "k \<le> n" for k
    using that by (cases k) auto
  then show ?thesis using S(3) by blast
qed

text \<open>
  C27. A new page is entered into the maps but not into the list of mappings of its page object. Whatever was
  allocated and freed before, as long as no system call fails and the callback returns: when a thread that has not used a
  class yet allocates \<open>n \<ge> 3\<close> blocks of it that fit one page together with a further one, frees the first of them and
  allocates again, then the blocks are allocated, the free returns, and the last allocation dereferences null inside the allocator. (Redzones are
  whole pages, as the ones of the runtime; the internal heap and the region of the class are not used up.)
\<close>

theorem fresh_page_breaks_list:
  assumes "callback_returns onmap" and "areach onmap s0 s live bs" "alloc_start s0" "no_errors (avm s0)"
    and "valid_class c" and "rz_ok rz" "4096 dvd unat rz" and "3 \<le> n" "(n + 1) * csize c \<le> 4096"
    and "unused_class t c s" and "unat (heap_next s) + 64 * (n + 1) \<le> unat heap_limit"
  shows "\<exists>p ps s1 s2. allocate_blocks onmap t c rz n s = Inr (p # ps, s1) \<and> Deallocate AP64 t c p s1 = Inr s2 \<and>
    Allocate AP64 onmap t c rz s2 = Inl (Segv 0)"
proof -
  obtain A v p where B: "seam_geo c rz A n" "\<forall>k. 0 < k \<longrightarrow> k \<le> n \<longrightarrow>
    (\<exists>ps s'. allocate_blocks onmap t c rz k s = Inr (A # ps, s') \<and> seam t c rz A v p n k s')"
    using seam_blocks [OF assms] by blast
  have "0 < n" "n \<le> n" using assms(8) by simp_all
  then obtain ps s1 where S: "seam_geo c rz A n" "allocate_blocks onmap t c rz n s = Inr (A # ps, s1)" "seam t c rz A v p n n s1"
    using B by blast
  moreover obtain s2 rest where "Deallocate AP64 t c A s1 = Inr s2" "unat (lower_bound (caches s2 t c)) = unat A + n * (csize c + unat rz)"
    "unat (upper_bound (caches s2 t c)) = unat A + 2 ^ 32"
    "free_list (caches s2 t c) = cut_pieces p (csize c) (n * csize c) 4096 @ rest" "\<not> dl_empty (ppage_vlist s2 p)" "lfirst (ppage_vlist s2 p) = 0"
    using seam_free [OF S(1,3)] by blast
  moreover have "p \<noteq> 0" using S(3) by (simp add: seam_def)
  ultimately show ?thesis using seam_crash [OF assms(1) S(1)] by blast
qed

theorem fresh_page_breaks_list_witness:
  "\<exists>p ps s1 s2. allocate_blocks no_callback 0 24 0x4000 3 st0 = Inr (p # ps, s1) \<and> Deallocate AP64 0 24 p s1 = Inr s2 \<and>
    Allocate AP64 no_callback 0 24 0x4000 s2 = Inl (Segv 0)"
proof (rule fresh_page_breaks_list)
  show "callback_returns no_callback" by (simp add: callback_returns_def no_callback_def)
  show "areach no_callback st0 st0 {} []" by (rule areach.start)
  show "alloc_start st0" "no_errors (avm st0)" by (rule st0_start)+
  show "valid_class 24" by (simp add: valid_class_nat)
  show "rz_ok 0x4000" "4096 dvd unat (0x4000 :: uptr)" by (simp_all add: rz_ok_def)
  show "unused_class 0 24 st0" by (simp add: unused_class_def st0_def start_ast_def)
qed (simp_all add: csize_24 st0_def start_ast_def heap_limit_def)

end
