(* ===== verification/AllocStats.thy ===== *)
theory AllocStats
  imports Prelude
begin

text \<open>
  The statistics of the allocators (\<^verbatim>\<open>sanitizer_allocator_stats.h\<close>): counters per thread cache, which the global
  object links into a ring. The counters of a cache that is unregistered are added to the
  global ones.
\<close>

section \<open>Counters\<close>

datatype AllocatorStat = AllocatorStatAllocated | AllocatorStatMapped

type_synonym counters = "AllocatorStat \<Rightarrow> uptr"

definition stat_Init :: counters where "stat_Init = (\<lambda>_. 0)"

definition stat_Add :: "AllocatorStat \<Rightarrow> uptr \<Rightarrow> counters \<Rightarrow> counters" where
  "stat_Add i v c = c(i := v + c i)"

definition stat_Sub :: "AllocatorStat \<Rightarrow> uptr \<Rightarrow> counters \<Rightarrow> counters" where
  "stat_Sub i v c = c(i := c i - v)"

definition stat_Set :: "AllocatorStat \<Rightarrow> uptr \<Rightarrow> counters \<Rightarrow> counters" where
  "stat_Set i v c = c(i := v)"

definition stat_Get :: "AllocatorStat \<Rightarrow> counters \<Rightarrow> uptr" where
  "stat_Get i c = c i"

section \<open>The ring\<close>

text \<open>The objects are addresses, with their fields as maps; the global object is one of them.\<close>

record stats_heap =
  snext :: "uptr \<Rightarrow> uptr"
  sprev :: "uptr \<Rightarrow> uptr"
  stats :: "uptr \<Rightarrow> counters"

definition global_InitLinkerInitialized :: "uptr \<Rightarrow> stats_heap \<Rightarrow> stats_heap" where
  "global_InitLinkerInitialized g h = h\<lparr>snext := (snext h)(g := g), sprev := (sprev h)(g := g)\<rparr>"

definition global_Init :: "uptr \<Rightarrow> stats_heap \<Rightarrow> stats_heap" where
  "global_Init g h = global_InitLinkerInitialized g
     (h\<lparr>snext := (snext h)(g := 0), sprev := (sprev h)(g := 0), stats := (stats h)(g := stat_Init)\<rparr>)"

definition stats_Register :: "uptr \<Rightarrow> uptr \<Rightarrow> stats_heap \<Rightarrow> stats_heap" where
  "stats_Register g s h =
     (let h1 = h\<lparr>snext := (snext h)(s := snext h g)\<rparr>;
          h2 = h1\<lparr>sprev := (sprev h1)(s := g)\<rparr>;
          h3 = h2\<lparr>sprev := (sprev h2)(snext h2 g := s)\<rparr>
      in h3\<lparr>snext := (snext h3)(g := s)\<rparr>)"

definition stats_Unregister :: "uptr \<Rightarrow> uptr \<Rightarrow> stats_heap \<Rightarrow> stats_heap" where
  "stats_Unregister g s h =
     (let h1 = h\<lparr>snext := (snext h)(sprev h s := snext h s)\<rparr>;
          h2 = h1\<lparr>sprev := (sprev h1)(snext h1 s := sprev h1 s)\<rparr>
      in h2\<lparr>stats := (stats h2)(g := stat_Add AllocatorStatMapped (stat_Get AllocatorStatMapped (stats h2 s))
           (stat_Add AllocatorStatAllocated (stat_Get AllocatorStatAllocated (stats h2 s)) (stats h2 g)))\<rparr>)"

text \<open>
  The loop of \<^verbatim>\<open>Get\<close> ends when it is back at the global object. Negative sums, which a race
  could leave, read as 0.
\<close>

partial_function (option) sum_ring :: "stats_heap \<Rightarrow> uptr \<Rightarrow> uptr \<Rightarrow> counters \<Rightarrow> counters option" where
  "sum_ring h g cur acc =
     (let acc' = (\<lambda>i. acc i + stat_Get i (stats h cur)); nxt = snext h cur
      in if nxt = g then Some acc' else sum_ring h g nxt acc')"

definition clamp :: "uptr \<Rightarrow> uptr" where
  "clamp v = (if sint v \<ge> 0 then v else 0)"

definition global_Get :: "uptr \<Rightarrow> stats_heap \<Rightarrow> counters option" where
  "global_Get g h = map_option (\<lambda>c i. clamp (c i)) (sum_ring h g g stat_Init)"

section \<open>The ring is a list\<close>

fun links_to :: "stats_heap \<Rightarrow> uptr \<Rightarrow> uptr list \<Rightarrow> uptr \<Rightarrow> bool" where
  "links_to h a [] e \<longleftrightarrow> snext h a = e \<and> sprev h e = a"
| "links_to h a (x # xs) e \<longleftrightarrow> snext h a = x \<and> sprev h x = a \<and> links_to h x xs e"

definition ring :: "stats_heap \<Rightarrow> uptr \<Rightarrow> uptr list \<Rightarrow> bool" where
  "ring h g xs \<longleftrightarrow> distinct (g # xs) \<and> links_to h g xs g"

lemma ring_Init: "ring (global_Init g h) g []"
  by (simp add: ring_def global_Init_def global_InitLinkerInitialized_def)

lemma links_append: "links_to h a (xs @ y # ys) e \<longleftrightarrow> links_to h a xs y \<and> links_to h y ys e"
  by (induction xs arbitrary: a) auto

lemma links_cong:
  "links_to h a xs e \<Longrightarrow> (\<And>b. b \<in> set (a # xs) \<Longrightarrow> snext h' b = snext h b) \<Longrightarrow>
    (\<And>b. b \<in> set (xs @ [e]) \<Longrightarrow> sprev h' b = sprev h b) \<Longrightarrow> links_to h' a xs e"
  by (induction xs arbitrary: a) auto

lemma ring_Register:
  assumes r: "ring h g xs" and s: "s \<noteq> g" "s \<notin> set xs"
  shows "ring (stats_Register g s h) g (s # xs)"
proof (cases xs)
  case Nil
  then show ?thesis using r s by (simp add: ring_def stats_Register_def Let_def)
next
  case (Cons y ys)
  have l: "snext h g = y" "sprev h y = g" "links_to h y ys g" and d: "distinct (g # y # ys)"
    using r Cons by (simp_all add: ring_def)
  have "links_to (stats_Register g s h) y ys g"
    by (rule links_cong [OF l(3)]) (use s d l(1) Cons in \<open>auto simp: stats_Register_def Let_def\<close>)
  then show ?thesis
    using s d l(1) Cons by (auto simp: ring_def stats_Register_def Let_def)
qed

lemma links_last: "links_to h a xs e \<Longrightarrow> sprev h e = last (a # xs) \<and> snext h (last (a # xs)) = e"
  by (induction xs arbitrary: a) auto

lemma links_set_last:
  assumes "links_to h a xs y" "distinct (a # xs)" "e \<notin> set xs"
    "\<And>b. b \<in> set (a # xs) \<Longrightarrow> b \<noteq> last (a # xs) \<Longrightarrow> snext h' b = snext h b" "snext h' (last (a # xs)) = e"
    "\<And>b. b \<in> set xs \<Longrightarrow> sprev h' b = sprev h b" "sprev h' e = last (a # xs)"
  shows "links_to h' a xs e"
  using assms
proof (induction xs arbitrary: a)
  case (Cons x xs)
  have "a \<noteq> last (a # x # xs)" using Cons.prems(2) by (metis distinct.simps(2) last.simps last_in_set list.distinct(1))
  then have "snext h' a = x" using Cons.prems(1,4) by simp
  moreover have "links_to h' x xs e"
  proof (rule Cons.IH)
    show "links_to h x xs y" "distinct (x # xs)" "e \<notin> set xs" using Cons.prems(1-3) by simp_all
  qed (use Cons.prems(4-7) in auto)
  ultimately show ?case using Cons.prems(1,6) by simp
qed simp

lemma ring_Unregister:
  assumes r: "ring h g (as @ s # bs)"
  shows "ring (stats_Unregister g s h) g (as @ bs)"
proof -
  have l: "links_to h g as s" "links_to h s bs g" and d: "distinct (g # as @ s # bs)"
    using r by (simp_all add: ring_def links_append)
  let ?p = "last (g # as)" and ?h = "stats_Unregister g s h"
  define n where "n = snext h s"
  have ps: "sprev h s = ?p" using links_last [OF l(1)] by simp
  have pd: "?p \<in> set (g # as)" by (rule last_in_set) simp
  then have ne: "?p \<noteq> s" using d by auto
  have new: "snext ?h = (snext h)(?p := n)" "sprev ?h = (sprev h)(n := ?p)"
    using ps ne by (simp_all add: stats_Unregister_def Let_def n_def)
  show ?thesis
  proof (cases bs)
    case Nil
    then have n: "n = g" using l(2) by (simp add: n_def)
    have "links_to ?h g as g"
      by (rule links_set_last [OF l(1)]) (use d new n in auto)
    then show ?thesis using d Nil by (simp add: ring_def)
  next
    case (Cons y ys)
    have n: "n = y" and t: "links_to h y ys g" using l(2) Cons by (simp_all add: n_def)
    have "links_to ?h g as y"
      by (rule links_set_last [OF l(1)]) (use d new n Cons in auto)
    moreover have "links_to ?h y ys g"
      by (rule links_cong [OF t]) (use d new n Cons pd in auto)
    ultimately show ?thesis using d Cons by (simp add: ring_def links_append)
  qed
qed

section \<open>What the global object reports\<close>

definition total :: "stats_heap \<Rightarrow> uptr list \<Rightarrow> counters" where
  "total h xs = (\<lambda>i. sum_list (map (\<lambda>s. stats h s i) xs))"

lemma sum_ring_links:
  "links_to h cur xs g \<Longrightarrow> g \<notin> set xs \<Longrightarrow> sum_ring h g cur acc = Some (\<lambda>i. acc i + total h (cur # xs) i)"
proof (induction xs arbitrary: cur acc)
  case Nil
  then show ?case by (subst sum_ring.simps) (simp add: Let_def total_def stat_Get_def)
next
  case (Cons x xs)
  then show ?case by (subst sum_ring.simps) (auto simp: Let_def total_def stat_Get_def ac_simps)
qed

lemma global_Get_total: "ring h g xs \<Longrightarrow> global_Get g h = Some (\<lambda>i. clamp (total h (g # xs) i))"
  using sum_ring_links [of h g xs g stat_Init] by (simp add: ring_def global_Get_def) (simp add: stat_Init_def)

lemma stats_total_ok:
  assumes "ring h g (as @ s # bs)" "new \<notin> set (g # as @ s # bs)"
  shows "global_Get g h = Some (\<lambda>i. clamp (stats h g i + sum_list (map (\<lambda>x. stats h x i) (as @ s # bs))))"
    and "global_Get g (stats_Register g new h)
      = Some (\<lambda>i. clamp (stats h g i + stats h new i + sum_list (map (\<lambda>x. stats h x i) (as @ s # bs))))"
    and "global_Get g (stats_Unregister g s h) = global_Get g h"
    and "ring (stats_Unregister g s h) g (as @ bs)"
proof -
  have d: "distinct (g # as @ s # bs)" using assms(1) by (simp add: ring_def)
  show "global_Get g h = Some (\<lambda>i. clamp (stats h g i + sum_list (map (\<lambda>x. stats h x i) (as @ s # bs))))"
    using global_Get_total [OF assms(1)] by (simp add: total_def)
  have "ring (stats_Register g new h) g (new # as @ s # bs)"
    using ring_Register [OF assms(1)] assms(2) by simp
  moreover have "stats (stats_Register g new h) = stats h" by (simp add: stats_Register_def Let_def)
  ultimately show "global_Get g (stats_Register g new h)
      = Some (\<lambda>i. clamp (stats h g i + stats h new i + sum_list (map (\<lambda>x. stats h x i) (as @ s # bs))))"
    by (simp add: global_Get_total total_def add.assoc)
  show u: "ring (stats_Unregister g s h) g (as @ bs)" by (rule ring_Unregister [OF assms(1)])
  have st: "stats (stats_Unregister g s h) x i = (if x = g then stats h g i + stats h s i else stats h x i)" for x i
    by (cases i) (simp_all add: stats_Unregister_def Let_def stat_Add_def stat_Get_def)
  have "total (stats_Unregister g s h) (g # as @ bs) = total h (g # as @ s # bs)"
  proof
    fix i
    have "map (\<lambda>x. stats (stats_Unregister g s h) x i) (as @ bs) = map (\<lambda>x. stats h x i) (as @ bs)"
      using d by (intro map_cong) (auto simp: st)
    then have "sum_list (map (\<lambda>x. stats (stats_Unregister g s h) x i) (as @ bs))
        = sum_list (map (\<lambda>x. stats h x i) (as @ bs))" by (simp only:)
    moreover have "stats (stats_Unregister g s h) g i = stats h g i + stats h s i" by (simp add: st)
    ultimately show "total (stats_Unregister g s h) (g # as @ bs) i = total h (g # as @ s # bs) i"
      unfolding total_def list.map sum_list.Cons by (simp add: ac_simps)
  qed
  then show "global_Get g (stats_Unregister g s h) = global_Get g h"
    using global_Get_total [OF u] global_Get_total [OF assms(1)] by simp
qed

text \<open>
  C38. \<^verbatim>\<open>Get\<close> ends and reports, for each counter, the sum over the global object and the registered ones;
  registering an object adds its counters to the report, and unregistering one leaves the report as it is.
\<close>

theorem stats_total:
  assumes "ring h g (as @ s # bs)" "new \<notin> set (g # as @ s # bs)"
  shows "global_Get g h = Some (\<lambda>i. clamp (stats h g i + sum_list (map (\<lambda>x. stats h x i) (as @ s # bs)))) \<and>
    global_Get g (stats_Register g new h)
      = Some (\<lambda>i. clamp (stats h g i + stats h new i + sum_list (map (\<lambda>x. stats h x i) (as @ s # bs)))) \<and>
    global_Get g (stats_Unregister g s h) = global_Get g h \<and> ring (stats_Unregister g s h) g (as @ bs)"
  using stats_total_ok [OF assms] by blast

definition two_caches :: stats_heap where
  "two_caches = \<lparr>snext = (\<lambda>_. 0)(16 := 32, 32 := 48, 48 := 16), sprev = (\<lambda>_. 0)(16 := 48, 32 := 16, 48 := 32),
     stats = (\<lambda>_ _. 0)(16 := \<lambda>_. 5, 32 := \<lambda>_. 7, 48 := \<lambda>_. 9)\<rparr>"

theorem stats_total_witness:
  "global_Get 16 (stats_Unregister 16 32 two_caches) = global_Get 16 two_caches"
proof -
  have "ring two_caches 16 ([] @ 32 # [48])" by (simp add: ring_def two_caches_def)
  from stats_total [OF this, of 64] show ?thesis by simp
qed

end
