(* ===== verification/LargeMmap.thy ===== *)
theory LargeMmap
  imports Vm HeapSort AllocStats Aliasing
begin

text \<open>
  The secondary allocator of \<^verbatim>\<open>sanitizer_aliasing.h\<close>, \<^verbatim>\<open>LargeMmapAliasing\<close>: every block has a mapping of its own, with a page
  before the block for its header. The headers are found through the array \<^verbatim>\<open>chunks_\<close>, which a
  lookup by linear search leaves alone and the fast lookup sorts first. A header is addressed by the address of
  its page; the headers are a map, because the code reads and writes them only as objects.
\<close>

section \<open>State\<close>

record Header =
  map_beg :: uptr
  map_size :: uptr
  hsize :: uptr
  chunk_idx :: uptr

record large_stats =
  n_allocs :: uptr
  n_frees :: uptr
  currently_allocated :: uptr
  max_allocated :: uptr
  by_size_log :: "nat \<Rightarrow> uptr"

record large =
  chunks :: "nat \<Rightarrow> uptr"
  n_chunks :: uptr
  chunks_sorted :: bool
  headers :: "uptr \<Rightarrow> Header"
  lstats :: large_stats
  may_return_null :: bool

text \<open>The allocator with what its operations change besides: the mappings, the callback's state and the global counters.\<close>

record 's lst_env =
  lm :: large
  lvm :: vm
  lclient :: 's
  gstat :: counters

definition kMaxNumChunks :: uptr where "kMaxNumChunks = push_bit 18 1"

definition large_Init :: "bool \<Rightarrow> large" where
  "large_Init null = \<lparr>chunks = (\<lambda>_. 0), n_chunks = 0, chunks_sorted = False,
     headers = (\<lambda>_. \<lparr>map_beg = 0, map_size = 0, hsize = 0, chunk_idx = 0\<rparr>),
     lstats = \<lparr>n_allocs = 0, n_frees = 0, currently_allocated = 0, max_allocated = 0, by_size_log = (\<lambda>_. 0)\<rparr>,
     may_return_null = null\<rparr>"

definition GetHeader :: "uptr \<Rightarrow> uptr res" where
  "GetHeader p = check (IsAligned p GetPageSizeCached) ''IsAligned(p, page_size_)'' (Inr (p - GetPageSizeCached))"

definition GetUser :: "uptr \<Rightarrow> uptr res" where
  "GetUser h = check (IsAligned h GetPageSizeCached) ''IsAligned((uptr)h, page_size_)'' (Inr (h + GetPageSizeCached))"

definition RoundUpMapSize :: "uptr \<Rightarrow> uptr res" where
  "RoundUpMapSize sz = bindr (RoundUpTo sz GetPageSizeCached) (\<lambda>r. Inr (r + GetPageSizeCached))"

text \<open>\<^verbatim>\<open>ReportAllocatorCannotReturnNull\<close> ends with \<^verbatim>\<open>CHECK(0)\<close>.\<close>

definition ReportAllocatorCannotReturnNull :: "bool \<Rightarrow> 'a res" where
  "ReportAllocatorCannotReturnNull out_of_memory = Inl (CheckFailed ''0'')"

definition null_or_die :: "bool \<Rightarrow> bool \<Rightarrow> uptr res" where
  "null_or_die null oom = (if null then Inr 0 else ReportAllocatorCannotReturnNull oom)"

definition MayReturnNull :: "large \<Rightarrow> bool" where
  "MayReturnNull l = may_return_null l"

definition SetMayReturnNull :: "bool \<Rightarrow> large \<Rightarrow> large" where
  "SetMayReturnNull v l = l\<lparr>may_return_null := v\<rparr>"

section \<open>Operations\<close>

definition OnMapL :: "'s callback \<Rightarrow> uptr \<Rightarrow> uptr \<Rightarrow> 's lst_env \<Rightarrow> 's lst_env res" where
  "OnMapL f beg sz s = bindr (f beg sz (lclient s)) (\<lambda>c. Inr (s\<lparr>lclient := c\<rparr>))"

text \<open>The critical section of \<^verbatim>\<open>Allocate\<close>.\<close>

definition add_chunk :: "uptr \<Rightarrow> uptr \<Rightarrow> uptr \<Rightarrow> 's lst_env \<Rightarrow> 's lst_env res" where
  "add_chunk h msize size_log s =
     (let l = lm s; idx = n_chunks l; l1 = l\<lparr>n_chunks := idx + 1, chunks_sorted := False\<rparr> in
      check (idx < kMaxNumChunks) ''idx < kMaxNumChunks'' (
      let l2 = l1\<lparr>headers := (headers l1)(h := (headers l1 h)\<lparr>chunk_idx := idx\<rparr>), chunks := (chunks l1)(unat idx := h)\<rparr>;
          st = lstats l2; cur = currently_allocated st + msize;
          st' = st\<lparr>n_allocs := n_allocs st + 1, currently_allocated := cur, max_allocated := Max2 (max_allocated st) cur,
                  by_size_log := (by_size_log st)(unat size_log := by_size_log st (unat size_log) + 1)\<rparr>
      in Inr (s\<lparr>lm := l2\<lparr>lstats := st'\<rparr>,
                gstat := stat_Add AllocatorStatMapped msize (stat_Add AllocatorStatAllocated msize (gstat s))\<rparr>)))"

definition large_Allocate :: "'s callback \<Rightarrow> uptr \<Rightarrow> uptr \<Rightarrow> 's lst_env \<Rightarrow> (uptr \<times> 's lst_env) res" where
  "large_Allocate onmap sz alignment s =
     check (IsPowerOfTwo alignment) ''IsPowerOfTwo(alignment)'' (
     bindr (RoundUpMapSize sz) (\<lambda>rounded.
     let msize = (if alignment > GetPageSizeCached then rounded + alignment else rounded) in
     if msize < sz then bindr (null_or_die (MayReturnNull (lm s)) False) (\<lambda>r. Inr (r, s))
     else
     bindr (MmapOrDie msize (lvm s)) (\<lambda>(mbeg, vm1).
     check (IsAligned mbeg GetPageSizeCached) ''IsAligned(map_beg, page_size_)'' (
     bindr (OnMapL onmap mbeg msize (s\<lparr>lvm := vm1\<rparr>)) (\<lambda>s1.
     let map_end = mbeg + msize;
         res0 = mbeg + GetPageSizeCached;
         res = (if res0 AND (alignment - 1) \<noteq> 0 then res0 + (alignment - (res0 AND (alignment - 1))) else res0) in
     check (IsAligned res alignment) ''IsAligned(res, alignment)'' (
     check (IsAligned res GetPageSizeCached) ''IsAligned(res, page_size_)'' (
     check (res + sz \<ge> mbeg) ''res + size >= map_beg'' (
     check (res + sz \<le> map_end) ''res + size <= map_end'' (
     bindr (GetHeader res) (\<lambda>h.
     let s2 = s1\<lparr>lm := (lm s1)\<lparr>headers := (headers (lm s1))(h := (headers (lm s1) h)
                \<lparr>hsize := sz, map_beg := mbeg, map_size := msize\<rparr>)\<rparr>\<rparr> in
     bindr (MostSignificantSetBitIndex msize) (\<lambda>size_log.
     check (size_log < 64) ''size_log < ARRAY_SIZE(stats.by_size_log)'' (
     bindr (add_chunk h msize size_log s2) (\<lambda>s3. Inr (res, s3))))))))))))))"

definition large_Deallocate :: "'s callback \<Rightarrow> uptr \<Rightarrow> 's lst_env \<Rightarrow> 's lst_env res" where
  "large_Deallocate onunmap p s =
     bindr (GetHeader p) (\<lambda>h.
     let l = lm s; idx = chunk_idx (headers l h) in
     check (chunks l (unat idx) = h) ''chunks_[idx] == h'' (
     check (idx < n_chunks l) ''idx < n_chunks_'' (
     let moved = chunks l (unat (n_chunks l - 1));
         l1 = l\<lparr>chunks := (chunks l)(unat idx := moved)\<rparr>;
         l2 = l1\<lparr>headers := (headers l1)(moved := (headers l1 moved)\<lparr>chunk_idx := idx\<rparr>),
                 n_chunks := n_chunks l1 - 1, chunks_sorted := False\<rparr>;
         hd = headers l2 h; st = lstats l2;
         l3 = l2\<lparr>lstats := st\<lparr>n_frees := n_frees st + 1, currently_allocated := currently_allocated st - map_size hd\<rparr>\<rparr>;
         g = stat_Sub AllocatorStatMapped (map_size hd) (stat_Sub AllocatorStatAllocated (map_size hd) (gstat s));
         beg = map_beg hd; sz = map_size hd
     in bindr (OnMapL onunmap beg sz (s\<lparr>lm := l3, gstat := g\<rparr>)) (\<lambda>s1.
        bindr (UnmapOrDie beg sz (lvm s1)) (\<lambda>vm1.
        let (r, vm2) = MmapFixedNoAccess beg sz vm1 in
        Inr (s1\<lparr>lvm := vm2\<rparr>))))))"

fun sum_mapped :: "large \<Rightarrow> nat \<Rightarrow> uptr res" where
  "sum_mapped l 0 = Inr 0"
| "sum_mapped l (Suc i) = bindr (sum_mapped l i) (\<lambda>r.
     check (chunk_idx (headers l (chunks l i)) = of_nat i) ''h->chunk_idx == i'' (
     bindr (RoundUpMapSize (hsize (headers l (chunks l i)))) (\<lambda>m. Inr (r + m))))"

definition large_TotalMemoryUsed :: "large \<Rightarrow> uptr res" where
  "large_TotalMemoryUsed l = sum_mapped l (unat (n_chunks l))"

text \<open>The linear search: the largest chunk address that is not above \<open>p\<close>, or 0.\<close>

fun nearest :: "large \<Rightarrow> uptr \<Rightarrow> nat \<Rightarrow> uptr" where
  "nearest l p 0 = 0"
| "nearest l p (Suc i) =
     (let n = nearest l p i; ch = chunks l i in
      if p < ch then n else if p - ch < p - n then ch else n)"

definition GetBlockBegin :: "uptr \<Rightarrow> large \<Rightarrow> uptr res" where
  "GetBlockBegin p l =
     (let nearest_chunk = nearest l p (unat (n_chunks l)) in
      if nearest_chunk = 0 then Inr 0
      else let h = headers l nearest_chunk in
        check (nearest_chunk \<ge> map_beg h) ''nearest_chunk >= h->map_beg'' (
        check (nearest_chunk < map_beg h + map_size h) ''nearest_chunk < h->map_beg + h->map_size'' (
        check (nearest_chunk \<le> p) ''nearest_chunk <= p'' (
        if map_beg h + map_size h \<le> p then Inr 0 else GetUser nearest_chunk))))"

definition large_PointerIsMine :: "uptr \<Rightarrow> large \<Rightarrow> bool res" where
  "large_PointerIsMine p l = bindr (GetBlockBegin p l) (\<lambda>r. Inr (r \<noteq> 0))"

definition large_GetActuallyAllocatedSize :: "uptr \<Rightarrow> large \<Rightarrow> uptr res" where
  "large_GetActuallyAllocatedSize p l =
     bindr (GetHeader p) (\<lambda>h. RoundUpTo (hsize (headers l h)) GetPageSizeCached)"

text \<open>\<^verbatim>\<open>GetMetaData\<close>: \<^verbatim>\<open>GetHeader(p) + 1\<close>, with a header of four words.\<close>

definition GetMetaData :: "uptr \<Rightarrow> uptr res" where
  "GetMetaData p = check (IsAligned p GetPageSizeCached) ''IsAligned(p, page_size_)''
     (bindr (GetHeader p) (\<lambda>h. Inr (h + 32)))"

fun set_indices :: "nat \<Rightarrow> large \<Rightarrow> large" where
  "set_indices 0 l = l"
| "set_indices (Suc i) l = (let l' = set_indices i l; ch = chunks l' i in
     l'\<lparr>headers := (headers l')(ch := (headers l' ch)\<lparr>chunk_idx := of_nat i\<rparr>)\<rparr>)"

definition EnsureSortedChunks :: "large \<Rightarrow> large" where
  "EnsureSortedChunks l =
     (if chunks_sorted l then l
      else let n = unat (n_chunks l); xs = SortArray (map (chunks l) [0..<n]) n;
               l1 = l\<lparr>chunks := (\<lambda>i. if i < n then xs ! i else chunks l i)\<rparr>
           in (set_indices n l1)\<lparr>chunks_sorted := True\<rparr>)"

text \<open>
  The loop of the fast lookup, on indices as the code has them. It ends because \<open>mid\<close> lies strictly
  between \<open>beg\<close> and \<open>end\<close>.
\<close>

function bisect :: "(nat \<Rightarrow> uptr) \<Rightarrow> uptr \<Rightarrow> nat \<Rightarrow> nat \<Rightarrow> nat \<times> nat" where
  "bisect ch p b e =
     (if e - b \<ge> 2 then
        let mid = (b + e) div 2 in
        if p < ch mid then bisect ch p b (mid - 1) else bisect ch p mid e
      else (b, e))"
  by pat_completeness auto
termination by (relation "measure (\<lambda>(ch, p, b, e). e - b)") auto

declare bisect.simps [simp del]

definition GetBlockBeginFastLocked :: "uptr \<Rightarrow> large \<Rightarrow> (uptr \<times> large) res" where
  "GetBlockBeginFastLocked p l =
     (if n_chunks l = 0 then Inr (0, l)
      else
        let n = unat (n_chunks l); l = EnsureSortedChunks l;
            min_mmap = chunks l 0;
            max_mmap = chunks l (n - 1) + map_size (headers l (chunks l (n - 1)))
        in if p < min_mmap \<or> p \<ge> max_mmap then Inr (0, l)
        else let (b, e) = bisect (chunks l) p 0 (n - 1) in
          check (b < e \<longrightarrow> b + 1 = e) ''beg + 1 == end'' (
          let b' = (if b < e \<and> p \<ge> chunks l e then e else b);
              ch = chunks l b'; h = headers l ch
          in if map_beg h + map_size h \<le> p \<or> p < map_beg h then Inr (0, l)
             else bindr (GetUser ch) (\<lambda>r. Inr (r, l))))"

fun for_each :: "(uptr \<Rightarrow> 'a \<Rightarrow> 'a) \<Rightarrow> large \<Rightarrow> nat \<Rightarrow> 'a \<Rightarrow> 'a res" where
  "for_each callback l 0 arg = Inr arg"
| "for_each callback l (Suc i) arg =
     bindr (for_each callback l i arg) (\<lambda>a.
     bindr (GetUser (chunks l i)) (\<lambda>u.
     check (chunk_idx (headers l (chunks l i)) = of_nat i) ''chunks_[i]->chunk_idx == i'' (Inr (callback u a))))"

definition ForEachChunk :: "(uptr \<Rightarrow> 'a \<Rightarrow> 'a) \<Rightarrow> 'a \<Rightarrow> large \<Rightarrow> ('a \<times> large) res" where
  "ForEachChunk callback arg l =
     (let l' = EnsureSortedChunks l in
      bindr (for_each callback l' (unat (n_chunks l')) arg) (\<lambda>a. Inr (a, l')))"

section \<open>The invariant of the array\<close>

text \<open>
  \<open>live l\<close> are the headers in use. \<open>span\<close> is the mapping of a header, as natural numbers.
\<close>

definition live :: "large \<Rightarrow> uptr set" where
  "live l = chunks l ` {..<unat (n_chunks l)}"

definition span :: "large \<Rightarrow> uptr \<Rightarrow> nat set" where
  "span l c = {unat (map_beg (headers l c)) ..< unat (map_beg (headers l c)) + unat (map_size (headers l c))}"

definition hdr_ok :: "large \<Rightarrow> uptr \<Rightarrow> bool" where
  "hdr_ok l c \<longleftrightarrow> 0 < unat (map_beg (headers l c)) \<and> map_beg (headers l c) \<le> c \<and> IsAligned c GetPageSizeCached \<and>
     unat c + 4096 \<le> unat (map_beg (headers l c)) + unat (map_size (headers l c)) \<and>
     unat (map_beg (headers l c)) + unat (map_size (headers l c)) \<le> 2 ^ 63 \<and>
     4096 dvd unat (map_beg (headers l c)) \<and> 4096 dvd unat (map_size (headers l c))"

definition large_ok :: "large \<Rightarrow> bool" where
  "large_ok l \<longleftrightarrow> unat (n_chunks l) \<le> 2 ^ 18 \<and> inj_on (chunks l) {..<unat (n_chunks l)} \<and>
     (\<forall>i < unat (n_chunks l). chunk_idx (headers l (chunks l i)) = of_nat i) \<and>
     (\<forall>c \<in> live l. hdr_ok l c) \<and> (\<forall>c \<in> live l. \<forall>c' \<in> live l. c \<noteq> c' \<longrightarrow> span l c \<inter> span l c' = {}) \<and>
     (chunks_sorted l \<longrightarrow> (\<forall>i j. i < j \<longrightarrow> j < unat (n_chunks l) \<longrightarrow> chunks l i < chunks l j)) \<and>
     currently_allocated (lstats l) = (\<Sum>c \<in> live l. map_size (headers l c)) \<and>
     n_chunks l = n_allocs (lstats l) - n_frees (lstats l)"

lemma large_okD:
  assumes "large_ok l"
  shows "unat (n_chunks l) \<le> 2 ^ 18" "inj_on (chunks l) {..<unat (n_chunks l)}"
    "i < unat (n_chunks l) \<Longrightarrow> chunk_idx (headers l (chunks l i)) = of_nat i" "c \<in> live l \<Longrightarrow> hdr_ok l c"
    "c \<in> live l \<Longrightarrow> c' \<in> live l \<Longrightarrow> c \<noteq> c' \<Longrightarrow> span l c \<inter> span l c' = {}"
    "chunks_sorted l \<Longrightarrow> i < j \<Longrightarrow> j < unat (n_chunks l) \<Longrightarrow> chunks l i < chunks l j"
    "currently_allocated (lstats l) = (\<Sum>c \<in> live l. map_size (headers l c))"
    "n_chunks l = n_allocs (lstats l) - n_frees (lstats l)"
  using assms unfolding large_ok_def by blast+

lemma large_okI:
  assumes "unat (n_chunks l) \<le> 2 ^ 18" "inj_on (chunks l) {..<unat (n_chunks l)}"
    "\<And>i. i < unat (n_chunks l) \<Longrightarrow> chunk_idx (headers l (chunks l i)) = of_nat i" "\<And>c. c \<in> live l \<Longrightarrow> hdr_ok l c"
    "\<And>c c'. c \<in> live l \<Longrightarrow> c' \<in> live l \<Longrightarrow> c \<noteq> c' \<Longrightarrow> span l c \<inter> span l c' = {}"
    "\<And>i j. chunks_sorted l \<Longrightarrow> i < j \<Longrightarrow> j < unat (n_chunks l) \<Longrightarrow> chunks l i < chunks l j"
    "currently_allocated (lstats l) = (\<Sum>c \<in> live l. map_size (headers l c))"
    "n_chunks l = n_allocs (lstats l) - n_frees (lstats l)"
  shows "large_ok l"
  unfolding large_ok_def using assms by blast

lemma large_ok_Init: "large_ok (large_Init b)"
  by (simp add: large_ok_def large_Init_def live_def)

lemma finite_live [simp]: "finite (live l)"
  by (simp add: live_def)

lemma chunk_in_live: "i < unat (n_chunks l) \<Longrightarrow> chunks l i \<in> live l"
  by (simp add: live_def)

lemma chunk_in_span: "hdr_ok l c \<Longrightarrow> unat c \<in> span l c"
  by (auto simp: hdr_ok_def span_def word_le_nat_alt)

section \<open>Sorting\<close>

lemma SortArray_all:
  "sorted (SortArray xs (length xs)) \<and> mset (SortArray xs (length xs)) = mset (xs :: 'a::len word list)"
proof -
  have S: "sorted (take (length xs) (SortArray xs (length xs))) \<and> mset (SortArray xs (length xs)) = mset xs
      \<and> drop (length xs) (SortArray xs (length xs)) = drop (length xs) xs"
    using less_order.InternalSort_sorts [of "length xs" xs] by (simp add: SortArray_def del: drop_eq_Nil)
  then have "length (SortArray xs (length xs)) = length xs" using mset_eq_length by blast
  then have "take (length xs) (SortArray xs (length xs)) = SortArray xs (length xs)" by simp
  then show ?thesis using S by argo
qed

lemma set_indices_sel [simp]:
  "chunks (set_indices i l) = chunks l" "n_chunks (set_indices i l) = n_chunks l"
  "chunks_sorted (set_indices i l) = chunks_sorted l" "lstats (set_indices i l) = lstats l"
  by (induction i) (simp_all add: Let_def)

lemma set_indices_header:
  "map_beg (headers (set_indices i l) c) = map_beg (headers l c)"
  "map_size (headers (set_indices i l) c) = map_size (headers l c)"
  "hsize (headers (set_indices i l) c) = hsize (headers l c)"
  by (induction i) (auto simp: Let_def)

lemma set_indices_idx:
  "inj_on (chunks l) {..<i} \<Longrightarrow> j < i \<Longrightarrow> chunk_idx (headers (set_indices i l) (chunks l j)) = of_nat j"
proof (induction i)
  case (Suc i)
  show ?case
  proof (cases "j = i")
    case False
    then have "chunks l j \<noteq> chunks l i" using Suc.prems by (auto dest: inj_onD)
    moreover have "inj_on (chunks l) {..<i}" using Suc.prems(1) by (rule inj_on_subset) auto
    ultimately show ?thesis using Suc False by (simp add: Let_def)
  qed (simp add: Let_def)
qed simp

text \<open>Sorting changes neither the set of headers nor their mappings.\<close>

lemma EnsureSortedChunks_same:
  assumes ok: "large_ok l"
  defines "l' \<equiv> EnsureSortedChunks l"
  shows "large_ok l'" "chunks_sorted l'" "n_chunks l' = n_chunks l" "live l' = live l"
    "map_beg (headers l' c) = map_beg (headers l c)" "map_size (headers l' c) = map_size (headers l c)"
    "hsize (headers l' c) = hsize (headers l c)"
proof -
  let ?n = "unat (n_chunks l)"
  let ?xs = "SortArray (map (chunks l) [0..<?n]) ?n"
  note D = large_okD [OF ok]
  have "large_ok l' \<and> chunks_sorted l' \<and> n_chunks l' = n_chunks l \<and> live l' = live l \<and>
      map_beg (headers l' c) = map_beg (headers l c) \<and> map_size (headers l' c) = map_size (headers l c) \<and>
      hsize (headers l' c) = hsize (headers l c)" for c
  proof (cases "chunks_sorted l")
    case True
    then show ?thesis using ok by (simp add: l'_def EnsureSortedChunks_def)
  next
    case False
    have S: "sorted ?xs" "mset ?xs = mset (map (chunks l) [0..<?n])"
      using SortArray_all [of "map (chunks l) [0..<?n]"] by simp_all
    have len: "length ?xs = ?n" using mset_eq_length [OF S(2)] by simp
    have "distinct (map (chunks l) [0..<?n])" using D(2) by (simp add: distinct_map atLeast0LessThan)
    then have d: "distinct ?xs" using mset_eq_imp_distinct_iff [OF S(2)] by simp
    have st: "set ?xs = live l" using mset_eq_setD [OF S(2)] by (simp add: live_def atLeast0LessThan)
    have l': "l' = (set_indices ?n (l\<lparr>chunks := (\<lambda>i. if i < ?n then ?xs ! i else chunks l i)\<rparr>))\<lparr>chunks_sorted := True\<rparr>"
      using False by (simp add: l'_def EnsureSortedChunks_def Let_def)
    have ch: "chunks l' i = ?xs ! i" if "i < ?n" for i using that by (simp add: l')
    have n': "n_chunks l' = n_chunks l" "lstats l' = lstats l" "chunks_sorted l'" by (simp_all add: l')
    have "live l' = (\<lambda>i. ?xs ! i) ` {..<?n}" using ch by (auto simp: live_def n' intro!: image_cong)
    also have "\<dots> = set ?xs" using len by (auto simp: set_conv_nth)
    finally have lv: "live l' = live l" using st by simp
    have hd: "map_beg (headers l' c) = map_beg (headers l c)" "map_size (headers l' c) = map_size (headers l c)"
      "hsize (headers l' c) = hsize (headers l c)" for c
      by (simp_all add: l' set_indices_header)
    have hs: "hdr_ok l' c = hdr_ok l c" "span l' c = span l c" for c by (simp_all add: hdr_ok_def span_def hd)
    have inj: "inj_on (chunks l') {..<?n}"
      using d len ch by (auto simp: inj_on_def nth_eq_iff_index_eq)
    have "large_ok l'"
    proof (rule large_okI)
      show "chunk_idx (headers l' (chunks l' i)) = of_nat i" if "i < unat (n_chunks l')" for i
        using set_indices_idx [of "l\<lparr>chunks := (\<lambda>i. if i < ?n then ?xs ! i else chunks l i)\<rparr>" ?n i] inj that
        by (simp add: l')
      show "chunks l' i < chunks l' j" if "i < j" "j < unat (n_chunks l')" for i j
      proof -
        have "?xs ! i \<le> ?xs ! j" using S(1) that len n' by (simp add: sorted_iff_nth_mono)
        moreover have "?xs ! i \<noteq> ?xs ! j" using d that len n' by (simp add: nth_eq_iff_index_eq)
        ultimately show ?thesis using that n' ch by simp
      qed
    qed (use D inj lv hs hd n' in simp_all)
    then show ?thesis using n' lv hd by simp
  qed
  then show "large_ok l'" "chunks_sorted l'" "n_chunks l' = n_chunks l" "live l' = live l"
    "map_beg (headers l' c) = map_beg (headers l c)" "map_size (headers l' c) = map_size (headers l c)"
    "hsize (headers l' c) = hsize (headers l c)" by blast+
qed

section \<open>The two lookups\<close>

text \<open>The linear search finds the largest chunk that is not above \<open>p\<close>.\<close>

lemma nearest_max:
  assumes "\<And>j. j < i \<Longrightarrow> chunks l j \<noteq> 0"
  shows "(nearest l p i = 0 \<or> nearest l p i \<in> chunks l ` {..<i} \<and> nearest l p i \<le> p) \<and>
    (\<forall>j < i. chunks l j \<le> p \<longrightarrow> chunks l j \<le> nearest l p i)"
  using assms
proof (induction i)
  case (Suc i)
  let ?n = "nearest l p i" and ?c = "chunks l i"
  have IH: "?n = 0 \<or> ?n \<in> chunks l ` {..<i} \<and> ?n \<le> p" "\<And>j. j < i \<Longrightarrow> chunks l j \<le> p \<Longrightarrow> chunks l j \<le> ?n"
    using Suc by auto
  have np: "?n \<le> p" using IH(1) by auto
  have cmp: "?c \<le> p \<Longrightarrow> p - ?c < p - ?n \<longleftrightarrow> ?n < ?c"
    using np by (auto simp: word_less_nat_alt word_le_nat_alt unat_sub)
  show ?case
  proof (cases "p < ?c")
    case True
    then show ?thesis using IH by (auto simp: Let_def less_Suc_eq)
  next
    case False
    then have cp: "?c \<le> p" by simp
    show ?thesis
    proof (cases "?n < ?c")
      case True
      have eq: "nearest l p (Suc i) = ?c" using True False cmp [OF cp] by (simp add: Let_def)
      have "chunks l j \<le> ?c" if "j < Suc i" "chunks l j \<le> p" for j
        using that IH(2) [of j] True by (cases "j = i") (auto intro: order_trans less_imp_le)
      then show ?thesis unfolding eq using cp by auto
    next
      case ge: False
      have eq: "nearest l p (Suc i) = ?n" using ge False cmp [OF cp] by (simp add: Let_def)
      have "chunks l j \<le> ?n" if "j < Suc i" "chunks l j \<le> p" for j
        using that IH(2) [of j] ge by (cases "j = i") auto
      then show ?thesis unfolding eq using IH(1) by auto
    qed
  qed
qed simp

text \<open>The block of an address: the only header whose mapping holds it, if it lies behind the header.\<close>

definition block_begin :: "uptr \<Rightarrow> large \<Rightarrow> uptr" where
  "block_begin p l = (if \<exists>c \<in> live l. c \<le> p \<and> unat p \<in> span l c
     then (THE c. c \<in> live l \<and> c \<le> p \<and> unat p \<in> span l c) + GetPageSizeCached else 0)"

lemma block_begin_eq:
  assumes ok: "large_ok l" and c: "c \<in> live l" "c \<le> p" "unat p \<in> span l c"
  shows "block_begin p l = c + GetPageSizeCached"
proof -
  have "(THE c. c \<in> live l \<and> c \<le> p \<and> unat p \<in> span l c) = c"
    using c large_okD(5) [OF ok] by (intro the_equality) blast+
  then show ?thesis using c unfolding block_begin_def by auto
qed

lemma block_begin_none:
  "(\<And>c. c \<in> live l \<Longrightarrow> c \<le> p \<Longrightarrow> unat p \<notin> span l c) \<Longrightarrow> block_begin p l = 0"
  unfolding block_begin_def by auto

text \<open>A smaller chunk cannot hold an address that is not below a larger chunk.\<close>

lemma hdr_end:
  assumes "hdr_ok l c"
  shows "unat (map_beg (headers l c) + map_size (headers l c)) = unat (map_beg (headers l c)) + unat (map_size (headers l c))"
  using assms by (intro unat_add_nowrap) (simp add: hdr_ok_def)

lemma span_order:
  assumes ok: "large_ok l" and c: "c \<in> live l" "c' \<in> live l" "c < c'" "c' \<le> p"
  shows "unat p \<notin> span l c"
proof
  assume p: "unat p \<in> span l c"
  have h: "hdr_ok l c" "hdr_ok l c'" using large_okD(4) [OF ok] c by simp_all
  have "unat c' \<in> span l c"
    using p h(1) c(3,4) by (auto simp: span_def hdr_ok_def word_le_nat_alt word_less_nat_alt)
  then show False using chunk_in_span [OF h(2)] large_okD(5) [OF ok c(1,2)] c(3) by blast
qed

lemma live_nonzero: "large_ok l \<Longrightarrow> c \<in> live l \<Longrightarrow> c \<noteq> 0"
  using large_okD(4) [of l c] by (auto simp: hdr_ok_def word_le_nat_alt)

lemma GetBlockBegin_eq:
  assumes ok: "large_ok l"
  shows "GetBlockBegin p l = Inr (block_begin p l)"
proof -
  let ?c = "nearest l p (unat (n_chunks l))"
  have N: "?c = 0 \<or> ?c \<in> live l \<and> ?c \<le> p" "\<And>c. c \<in> live l \<Longrightarrow> c \<le> p \<Longrightarrow> c \<le> ?c"
    using nearest_max [of "unat (n_chunks l)" l p] live_nonzero [OF ok] by (auto simp: live_def)
  show ?thesis
  proof (cases "?c = 0")
    case True
    then have "c \<in> live l \<Longrightarrow> \<not> c \<le> p" for c using N(2) [of c] live_nonzero [OF ok, of c] by auto
    then have "block_begin p l = 0" by (intro block_begin_none) blast
    then show ?thesis using True by (simp add: GetBlockBegin_def Let_def)
  next
    case False
    then have c: "?c \<in> live l" "?c \<le> p" using N(1) by simp_all
    have h: "hdr_ok l ?c" by (rule large_okD(4) [OF ok c(1)])
    note e = hdr_end [OF h]
    have chk: "map_beg (headers l ?c) \<le> ?c" "?c < map_beg (headers l ?c) + map_size (headers l ?c)"
      "IsAligned ?c GetPageSizeCached"
      using h by (auto simp: hdr_ok_def word_less_nat_alt e [unfolded hdr_ok_def])
    show ?thesis
    proof (cases "map_beg (headers l ?c) + map_size (headers l ?c) \<le> p")
      case True
      have "unat p \<notin> span l ?c" using True e by (auto simp: span_def word_le_nat_alt)
      moreover have "unat p \<notin> span l c" if "c \<in> live l" "c \<le> p" "c \<noteq> ?c" for c
        using span_order [OF ok that(1) c(1) _ c(2)] N(2) [OF that(1,2)] that(3) by simp
      ultimately have "block_begin p l = 0" by (intro block_begin_none) blast
      then show ?thesis using True False chk c(2) by (simp add: GetBlockBegin_def Let_def)
    next
      case in_map: False
      have "unat p \<in> span l ?c"
        using in_map e h c(2) by (auto simp: span_def word_le_nat_alt hdr_ok_def)
      then have "block_begin p l = ?c + GetPageSizeCached" by (rule block_begin_eq [OF ok c])
      then show ?thesis using in_map False chk c(2) by (simp add: GetBlockBegin_def Let_def GetUser_def)
    qed
  qed
qed

lemma bisect_spec:
  assumes "b \<le> e" "\<And>i j. i < j \<Longrightarrow> j \<le> e \<Longrightarrow> ch i < ch j" "ch b \<le> p" "bisect ch p b e = (b', e')"
  shows "b \<le> b' \<and> b' \<le> e' \<and> e' \<le> e \<and> e' - b' < 2 \<and> ch b' \<le> p \<and> (\<forall>j. e' < j \<longrightarrow> j \<le> e \<longrightarrow> p < ch j)"
  using assms
proof (induction ch p b e rule: bisect.induct)
  case (1 ch p b e)
  show ?case
  proof (cases "e - b \<ge> 2")
    case True
    define mid where "mid = (b + e) div 2"
    have m: "b + 1 \<le> mid" "mid + 1 \<le> e" using True by (simp_all add: mid_def)
    show ?thesis
    proof (cases "p < ch mid")
      case less: True
      have eq: "bisect ch p b (mid - 1) = (b', e')"
        using "1.prems"(4) True less by (subst (asm) bisect.simps) (simp add: Let_def mid_def)
      have I: "b \<le> b' \<and> b' \<le> e' \<and> e' \<le> mid - 1 \<and> e' - b' < 2 \<and> ch b' \<le> p \<and> (\<forall>j. e' < j \<longrightarrow> j \<le> mid - 1 \<longrightarrow> p < ch j)"
        by (rule "1.IH"(1) [OF True mid_def less _ _ "1.prems"(3) eq]) (use m "1.prems"(2) in auto)
      have "p < ch j" if "e' < j" "j \<le> e" for j
      proof (cases "j \<le> mid - 1")
        case False
        then have "mid \<le> j" by simp
        then show ?thesis using that(2) less "1.prems"(2) [of mid j] by (cases "j = mid") auto
      qed (use I that in blast)
      moreover have "e' \<le> e" using I m by linarith
      ultimately show ?thesis using I by blast
    next
      case ge: False
      have eq: "bisect ch p mid e = (b', e')"
        using "1.prems"(4) True ge by (subst (asm) bisect.simps) (simp add: Let_def mid_def)
      have "mid \<le> b' \<and> b' \<le> e' \<and> e' \<le> e \<and> e' - b' < 2 \<and> ch b' \<le> p \<and> (\<forall>j. e' < j \<longrightarrow> j \<le> e \<longrightarrow> p < ch j)"
        by (rule "1.IH"(2) [OF True mid_def ge _ _ _ eq]) (use m ge "1.prems"(2) in auto)
      then show ?thesis using m by auto
    qed
  next
    case False
    then have "bisect ch p b e = (b, e)" by (subst bisect.simps) simp
    then have "b' = b" "e' = e" using "1.prems"(4) by simp_all
    then show ?thesis using False "1.prems"(1,3) by auto
  qed
qed

text \<open>In a sorted array, an address below the first block or behind the last one is in no block.\<close>

lemma sorted_lt: "large_ok k \<Longrightarrow> chunks_sorted k \<Longrightarrow> i < j \<Longrightarrow> j < unat (n_chunks k) \<Longrightarrow> chunks k i < chunks k j"
  by (rule large_okD(6))

lemma block_begin_outside:
  assumes ok: "large_ok k" "chunks_sorted k" and n0: "0 < unat (n_chunks k)"
  defines "final \<equiv> chunks k (unat (n_chunks k) - 1)"
  assumes p: "p < chunks k 0 \<or> p \<ge> final + map_size (headers k final)"
  shows "block_begin p k = 0"
proof (rule block_begin_none)
  fix c assume c: "c \<in> live k" "c \<le> p"
  then obtain i where i: "i < unat (n_chunks k)" "c = chunks k i" by (auto simp: live_def)
  have final: "final \<in> live k" using n0 by (auto simp: final_def live_def)
  have hl: "hdr_ok k final" by (rule large_okD(4) [OF ok(1) final])
  have "chunks k 0 \<le> c" using sorted_lt [OF ok, of 0 i] i by (cases "i = 0") auto
  then have big: "p \<ge> final + map_size (headers k final)" using p c(2) by auto
  have nw: "unat (final + map_size (headers k final)) = unat final + unat (map_size (headers k final))"
    by (rule unat_add_nowrap) (use hl in \<open>simp add: hdr_ok_def\<close>)
  show "unat p \<notin> span k c"
  proof (cases "i = unat (n_chunks k) - 1")
    case True
    then show ?thesis using big nw hl i by (auto simp: final_def span_def hdr_ok_def word_le_nat_alt)
  next
    case False
    then have "c < final" using sorted_lt [OF ok, of i "unat (n_chunks k) - 1"] i n0 by (simp add: final_def)
    moreover have "final \<le> p" using big nw by (simp add: word_le_nat_alt)
    ultimately show ?thesis using span_order [OF ok(1) c(1) final] by blast
  qed
qed

text \<open>Otherwise only the last block that begins at or before the address can hold it.\<close>

lemma block_begin_at:
  assumes ok: "large_ok k" "chunks_sorted k" and b: "b < unat (n_chunks k)" "chunks k b \<le> p"
    and above: "\<And>j. b < j \<Longrightarrow> j < unat (n_chunks k) \<Longrightarrow> p < chunks k j"
  defines "h \<equiv> headers k (chunks k b)"
  shows "block_begin p k = (if map_beg h + map_size h \<le> p \<or> p < map_beg h then 0 else chunks k b + GetPageSizeCached)"
proof -
  let ?c = "chunks k b"
  have cl: "?c \<in> live k" using b(1) by (auto simp: live_def)
  have hd: "hdr_ok k ?c" by (rule large_okD(4) [OF ok(1) cl])
  note he = hdr_end [OF hd, folded h_def]
  show ?thesis
  proof (cases "unat p \<in> span k ?c")
    case True
    then have "\<not> (map_beg h + map_size h \<le> p \<or> p < map_beg h)"
      using he by (auto simp: h_def span_def word_le_nat_alt word_less_nat_alt)
    then show ?thesis using block_begin_eq [OF ok(1) cl b(2) True] by auto
  next
    case notin: False
    have "map_beg h + map_size h \<le> p"
      using notin he b(2) hd by (auto simp: h_def span_def hdr_ok_def word_le_nat_alt)
    moreover have "block_begin p k = 0"
    proof (rule block_begin_none)
      fix c assume c: "c \<in> live k" "c \<le> p"
      then obtain i where i: "i < unat (n_chunks k)" "c = chunks k i" by (auto simp: live_def)
      then have "\<not> b < i" using above [of i] c(2) by auto
      then show "unat p \<notin> span k c"
        using notin i span_order [OF ok(1) c(1) cl _ b(2)] sorted_lt [OF ok, of i b] b(1) by (cases "i = b") auto
    qed
    ultimately show ?thesis by auto
  qed
qed

lemma bisect_end:
  assumes be: "bisect ch p 0 (n - 1) = (b, e)" and n0: "0 < n" and p: "ch 0 \<le> p" and lt: "\<And>i j. i < j \<Longrightarrow> j < n \<Longrightarrow> ch i < ch j"
  defines "b' \<equiv> if b < e \<and> p \<ge> ch e then e else b"
  shows "b < e \<longrightarrow> b + 1 = e" "b' < n" "ch b' \<le> p" "\<And>j. b' < j \<Longrightarrow> j < n \<Longrightarrow> p < ch j"
proof -
  have B: "b \<le> e" "e \<le> n - 1" "e - b < 2" "ch b \<le> p" "\<And>j. e < j \<Longrightarrow> j \<le> n - 1 \<Longrightarrow> p < ch j"
    using bisect_spec [OF _ _ _ be] lt p n0 by auto
  show "b < e \<longrightarrow> b + 1 = e" using B(1,3) by auto
  show "b' < n" "ch b' \<le> p" using B n0 by (auto simp: b'_def)
  fix j assume j: "b' < j" "j < n"
  show "p < ch j"
  proof (cases "e < j")
    case True
    then show ?thesis using B(5) [of j] j(2) by simp
  next
    case False
    then have "b < e" "j = e" "b' = b" using j(1) B(1,3) by (auto simp: b'_def split: if_splits)
    then show ?thesis by (auto simp: b'_def not_le split: if_splits)
  qed
qed

text \<open>
  C10. The fast lookup, which sorts the array and bisects it, answers what the linear search answers, for every
  address; neither fails a \<^verbatim>\<open>CHECK\<close>, and the answer is the block whose mapping holds the address.
\<close>

theorem fast_lookup:
  assumes ok: "large_ok l"
  shows "\<exists>l'. GetBlockBeginFastLocked p l = Inr (block_begin p l, l') \<and> GetBlockBegin p l = Inr (block_begin p l)
    \<and> large_ok l'"
proof (cases "n_chunks l = 0")
  case True
  then have "live l = {}" by (simp add: live_def)
  then have "block_begin p l = 0" by (intro block_begin_none) simp
  then show ?thesis using True ok GetBlockBegin_eq [OF ok, of p] by (simp add: GetBlockBeginFastLocked_def)
next
  case False
  define k where "k = EnsureSortedChunks l"
  note E = EnsureSortedChunks_same [OF ok, folded k_def]
  define n where "n = unat (n_chunks l)"
  have nk: "unat (n_chunks k) = n" "0 < n" using E(3) False by (simp_all add: n_def unat_gt_0)
  have sp: "span k c = span l c" for c by (simp add: span_def E(5,6))
  have bb: "block_begin p k = block_begin p l" unfolding block_begin_def E(4) sp ..
  have GB: "GetBlockBegin p l = Inr (block_begin p l)" by (rule GetBlockBegin_eq [OF ok])
  let ?last = "chunks k (n - 1)"
  have "GetBlockBeginFastLocked p l = Inr (block_begin p k, k)"
  proof (cases "p < chunks k 0 \<or> p \<ge> ?last + map_size (headers k ?last)")
    case True
    then have "GetBlockBeginFastLocked p l = Inr (0, k)"
      using False by (auto simp: GetBlockBeginFastLocked_def Let_def k_def [symmetric] n_def)
    then show ?thesis using block_begin_outside [OF E(1,2), unfolded nk, OF nk(2) True] by simp
  next
    case inside: False
    obtain b e where be: "bisect (chunks k) p 0 (n - 1) = (b, e)" by (cases "bisect (chunks k) p 0 (n - 1)")
    define b' where "b' = (if b < e \<and> p \<ge> chunks k e then e else b)"
    note B = bisect_end [OF be nk(2) _ sorted_lt [OF E(1,2), unfolded nk], folded b'_def]
    have le: "chunks k 0 \<le> p" using inside by (simp add: not_less)
    have "hdr_ok k (chunks k b')" using large_okD(4) [OF E(1)] B(2) [OF le] nk by (auto simp: live_def)
    then have gu: "GetUser (chunks k b') = Inr (chunks k b' + GetPageSizeCached)" by (simp add: GetUser_def hdr_ok_def)
    have "GetBlockBeginFastLocked p l =
        (if map_beg (headers k (chunks k b')) + map_size (headers k (chunks k b')) \<le> p \<or> p < map_beg (headers k (chunks k b'))
         then Inr (0, k) else Inr (chunks k b' + GetPageSizeCached, k))"
      unfolding GetBlockBeginFastLocked_def Let_def k_def [symmetric] n_def [symmetric] be prod.case b'_def [symmetric] gu
      using False inside B(1) [OF le] by (simp add: check_def)
    then show ?thesis
      using block_begin_at [OF E(1,2), unfolded nk, OF B(2,3,4) [OF le]] by simp
  qed
  then show ?thesis using bb GB E(1) by auto
qed

section \<open>The operations keep the invariant\<close>

definition fill_header :: "uptr \<Rightarrow> uptr \<Rightarrow> uptr \<Rightarrow> uptr \<Rightarrow> large \<Rightarrow> large" where
  "fill_header h sz mbeg msize l =
     l\<lparr>headers := (headers l)(h := (headers l h)\<lparr>hsize := sz, map_beg := mbeg, map_size := msize\<rparr>)\<rparr>"

lemma kMaxNumChunks_eq: "unat kMaxNumChunks = 2 ^ 18"
  by (simp add: kMaxNumChunks_def)

lemma add_chunk_ok:
  assumes ok: "large_ok l" and s: "lm s = fill_header h sz mbeg msize l" and a: "add_chunk h msize size_log s = Inr s'"
    and new: "hdr_ok (fill_header h sz mbeg msize l) h"
      "\<And>c. c \<in> live l \<Longrightarrow> {unat mbeg ..< unat mbeg + unat msize} \<inter> span l c = {}"
  shows "large_ok (lm s')" "live (lm s') = insert h (live l)" "h \<notin> live l"
    "lvm s' = lvm s" "\<And>c. span (lm s') c = (if c = h then {unat mbeg ..< unat mbeg + unat msize} else span l c)"
    "hsize (headers (lm s') h) = sz"
proof -
  let ?f = "fill_header h sz mbeg msize l" and ?n = "unat (n_chunks l)"
  note D = large_okD [OF ok]
  have fs: "chunks ?f = chunks l" "n_chunks ?f = n_chunks l" "lstats ?f = lstats l" by (simp_all add: fill_header_def)
  have idx: "n_chunks l < kMaxNumChunks" using a s fs by (simp add: add_chunk_def Let_def res_simps)
  then have n: "?n < 2 ^ 18" by (simp add: word_less_nat_alt kMaxNumChunks_eq)
  have n1: "unat (n_chunks l + 1) = ?n + 1" using n by (intro unat_add_nowrap [THEN trans]) simp_all
  have s': "chunks (lm s') = (chunks l)(?n := h)" "n_chunks (lm s') = n_chunks l + 1" "chunks_sorted (lm s') = False"
    "headers (lm s') = (headers ?f)(h := (headers ?f h)\<lparr>chunk_idx := n_chunks l\<rparr>)"
    "currently_allocated (lstats (lm s')) = currently_allocated (lstats l) + msize"
    "n_allocs (lstats (lm s')) = n_allocs (lstats l) + 1" "n_frees (lstats (lm s')) = n_frees (lstats l)" "lvm s' = lvm s"
    using a by (auto simp: add_chunk_def Let_def res_simps s fs)
  show "lvm s' = lvm s" by (rule s'(8))
  have hd: "c \<noteq> h \<Longrightarrow> headers (lm s') c = headers l c" for c by (simp add: s'(4) fill_header_def)
  have hh: "map_beg (headers (lm s') h) = mbeg" "map_size (headers (lm s') h) = msize" "hsize (headers (lm s') h) = sz"
    "chunk_idx (headers (lm s') h) = n_chunks l"
    by (simp_all add: s'(4) fill_header_def)
  show "hsize (headers (lm s') h) = sz" by (rule hh(3))
  have hs: "unat h \<in> {unat mbeg ..< unat mbeg + unat msize}"
    using chunk_in_span [OF new(1)] by (simp add: span_def fill_header_def)
  show nl: "h \<notin> live l"
    using new(2) [of h] hs chunk_in_span [OF D(4), of h] by blast
  have im: "chunks (lm s') ` {..<?n} = chunks l ` {..<?n}" "chunks (lm s') ?n = h"
    by (rule image_cong) (simp_all add: s'(1))
  then show lv: "live (lm s') = insert h (live l)"
    by (simp add: live_def s'(2) n1 lessThan_Suc)
  show sp: "span (lm s') c = (if c = h then {unat mbeg ..< unat mbeg + unat msize} else span l c)" for c
    by (simp add: span_def hd hh)
  have ho: "hdr_ok (lm s') c" if "c \<in> insert h (live l)" for c
  proof (cases "c = h")
    case True
    then show ?thesis using new(1) by (simp add: hdr_ok_def hh fill_header_def)
  next
    case False
    then show ?thesis using D(4) [of c] that by (simp add: hdr_ok_def hd)
  qed
  show "large_ok (lm s')"
  proof (rule large_okI)
    show "unat (n_chunks (lm s')) \<le> 2 ^ 18" using n n1 s'(2) by simp
    show "inj_on (chunks (lm s')) {..<unat (n_chunks (lm s'))}"
    proof -
      have "inj_on (chunks (lm s')) {..<?n}" using D(2) by (rule inj_on_cong [THEN iffD1, rotated]) (simp add: s'(1))
      moreover have "chunks (lm s') ?n \<notin> chunks (lm s') ` {..<?n}" using nl by (auto simp: s'(1) live_def)
      ultimately show ?thesis by (simp add: s'(2) n1 lessThan_Suc)
    qed
    show "chunk_idx (headers (lm s') (chunks (lm s') i)) = of_nat i" if "i < unat (n_chunks (lm s'))" for i
    proof (cases "i = ?n")
      case True
      then show ?thesis by (simp add: s'(1) hh)
    next
      case False
      then have i: "i < ?n" using that s'(2) n1 by simp
      then have "chunks l i \<noteq> h" using nl chunk_in_live by blast
      then show ?thesis using i D(3) by (simp add: s'(1) hd)
    qed
    show "hdr_ok (lm s') c" if "c \<in> live (lm s')" for c using that ho lv by simp
    show "span (lm s') c \<inter> span (lm s') c' = {}" if "c \<in> live (lm s')" "c' \<in> live (lm s')" "c \<noteq> c'" for c c'
      using that D(5) new(2) unfolding lv sp by (auto simp: Int_commute)
    show "currently_allocated (lstats (lm s')) = (\<Sum>c \<in> live (lm s'). map_size (headers (lm s') c))"
    proof -
      have "(\<Sum>c \<in> live l. map_size (headers (lm s') c)) = (\<Sum>c \<in> live l. map_size (headers l c))"
        by (rule sum.cong [OF refl]) (metis hd nl)
      then show ?thesis using nl D(7) by (simp add: lv hh s'(5) add.commute)
    qed
    show "n_chunks (lm s') = n_allocs (lstats (lm s')) - n_frees (lstats (lm s'))"
      using D(8) by (simp add: s'(2,6,7))
  qed (simp add: s'(3))
qed

text \<open>Taking a chunk out: the last one moves to its place.\<close>

definition drop_chunk :: "uptr \<Rightarrow> large \<Rightarrow> large" where
  "drop_chunk h l =
     (let idx = chunk_idx (headers l h); moved = chunks l (unat (n_chunks l - 1));
         l1 = l\<lparr>chunks := (chunks l)(unat idx := moved)\<rparr>;
         l2 = l1\<lparr>headers := (headers l1)(moved := (headers l1 moved)\<lparr>chunk_idx := idx\<rparr>),
                 n_chunks := n_chunks l1 - 1, chunks_sorted := False\<rparr>;
         hd = headers l2 h; st = lstats l2
     in l2\<lparr>lstats := st\<lparr>n_frees := n_frees st + 1, currently_allocated := currently_allocated st - map_size hd\<rparr>\<rparr>)"

lemma drop_chunk_ok:
  assumes ok: "large_ok l" and c: "chunks l (unat (chunk_idx (headers l h))) = h" "chunk_idx (headers l h) < n_chunks l"
  shows "large_ok (drop_chunk h l)" "live (drop_chunk h l) = live l - {h}" "h \<in> live l"
    "map_beg (headers (drop_chunk h l) c) = map_beg (headers l c)" "map_size (headers (drop_chunk h l) c) = map_size (headers l c)"
proof -
  let ?l = "drop_chunk h l" and ?n = "unat (n_chunks l)" and ?i = "unat (chunk_idx (headers l h))"
  note D = large_okD [OF ok]
  have i: "?i < ?n" using c(2) by (simp add: word_less_nat_alt)
  then have n1: "unat (n_chunks l - 1) = ?n - 1" by (intro unat_pred) simp
  define moved where "moved = chunks l (?n - 1)"
  have s: "chunks ?l = (chunks l)(?i := moved)" "n_chunks ?l = n_chunks l - 1" "chunks_sorted ?l = False"
    "headers ?l = (headers l)(moved := (headers l moved)\<lparr>chunk_idx := chunk_idx (headers l h)\<rparr>)"
    "currently_allocated (lstats ?l) = currently_allocated (lstats l) - map_size (headers ?l h)"
    "n_frees (lstats ?l) = n_frees (lstats l) + 1" "n_allocs (lstats ?l) = n_allocs (lstats l)"
    by (simp_all add: drop_chunk_def Let_def moved_def n1)
  show hd: "map_beg (headers ?l c) = map_beg (headers l c)" "map_size (headers ?l c) = map_size (headers l c)" for c
    by (simp_all add: s(4))
  show hl: "h \<in> live l" using c(1) i chunk_in_live by metis
  have inj: "chunks l a = chunks l b \<longleftrightarrow> a = b" if "a < ?n" "b < ?n" for a b
    using D(2) that by (auto dest: inj_onD)
  have n0: "?n - 1 < ?n" using i by simp
  show lv: "live ?l = live l - {h}"
  proof -
    have "live ?l = (\<lambda>j. if j = ?i then moved else chunks l j) ` {..<?n - 1}" unfolding live_def s(2) n1 s(1) by (auto simp: fun_upd_def)
    also have "\<dots> = chunks l ` ({..<?n} - {?i})"
    proof (cases "?i = ?n - 1")
      case True
      then have "{..<?n} - {?i} = {..<?n - 1}" by auto
      then show ?thesis using True by (auto simp: image_def)
    next
      case False
      then have "{..<?n} - {?i} = insert (?n - 1) ({..<?n - 1} - {?i})" "?i \<in> {..<?n - 1}" using i by auto
      then show ?thesis by (auto simp: moved_def)
    qed
    also have "\<dots> = live l - {h}" using i inj c(1) unfolding live_def by (subst inj_on_image_set_diff [OF D(2)]) auto
    finally show ?thesis .
  qed
  have hs: "hdr_ok ?l x = hdr_ok l x" "span ?l x = span l x" for x by (simp_all add: hdr_ok_def span_def hd)
  show "large_ok ?l"
  proof (rule large_okI)
    show "unat (n_chunks ?l) \<le> 2 ^ 18" using D(1) n1 s(2) by simp
    show "inj_on (chunks ?l) {..<unat (n_chunks ?l)}"
      unfolding s(2) n1 s(1) using inj i by (auto simp: inj_on_def moved_def split: if_splits)
    show "chunk_idx (headers ?l (chunks ?l j)) = of_nat j" if "j < unat (n_chunks ?l)" for j
    proof -
      have j: "j < ?n - 1" using that by (simp add: s(2) n1)
      show ?thesis
      proof (cases "j = ?i")
        case True
        then show ?thesis by (simp add: s(1,4))
      next
        case False
        then have "chunks l j \<noteq> moved" using inj [of j "?n - 1"] j n0 by (simp add: moved_def)
        then show ?thesis using False D(3) [of j] j by (simp add: s(1,4))
      qed
    qed
    show "hdr_ok ?l x" if "x \<in> live ?l" for x using that D(4) by (simp add: lv hs)
    show "span ?l x \<inter> span ?l y = {}" if "x \<in> live ?l" "y \<in> live ?l" "x \<noteq> y" for x y
      using that D(5) by (simp add: lv hs)
    show "currently_allocated (lstats ?l) = (\<Sum>x \<in> live ?l. map_size (headers ?l x))"
      using sum.remove [OF finite_live hl, of "\<lambda>x. map_size (headers l x)"] D(7) by (simp add: lv hd s(5))
    show "n_chunks ?l = n_allocs (lstats ?l) - n_frees (lstats ?l)"
      using D(8) by (simp add: s(2,6,7))
  qed (simp add: s(3))
qed

section \<open>Allocation and release of whole blocks\<close>

text \<open>
  \<open>map_request\<close> is the size \<^verbatim>\<open>Allocate\<close> passes on to \<^verbatim>\<open>mmap\<close>. \<open>fresh_pick\<close> is what the manual page says of the address
  the kernel picks: page-aligned, inside the address space, and no page of the range is mapped.
\<close>

definition map_request :: "uptr \<Rightarrow> uptr \<Rightarrow> uptr" where
  "map_request sz alignment =
     (let r = round_up sz GetPageSizeCached + GetPageSizeCached in
      round_up (if alignment > GetPageSizeCached then r + alignment else r) GetPageSizeCached)"

definition fresh_pick :: "vm \<Rightarrow> nat \<Rightarrow> bool" where
  "fresh_pick m n \<longleftrightarrow> (let a = mmap_pick m (mmap_calls m) in
     a \<noteq> 0 \<and> unat a mod 4096 = 0 \<and> unat a + n \<le> 2 ^ 47 \<and>
     (\<forall>q. page_of a \<le> q \<and> q < page_of a + (n + 4095) div 4096 \<longrightarrow> pages m q = None))"

definition env_ok :: "'s lst_env \<Rightarrow> bool" where
  "env_ok s \<longleftrightarrow> large_ok (lm s) \<and> errors_ok (lvm s) \<and>
     (\<forall>c \<in> live (lm s). \<forall>x \<in> span (lm s) c. pages (lvm s) (x div 4096) \<noteq> None)"

lemma power_of_two_pos: "IsPowerOfTwo a \<Longrightarrow> a \<noteq> 0 \<Longrightarrow> \<exists>k. k < 64 \<and> a = 2 ^ k"
  by (auto elim: IsPowerOfTwo_cases)

lemma page_is_power: "IsPowerOfTwo GetPageSizeCached"
  unfolding GetPageSizeCached_def using IsPowerOfTwo_pow2 [of 12] by simp

lemma unat_page_round:
  assumes "unat x \<le> 2 ^ 50"
  shows "unat (round_up x GetPageSizeCached) = (unat x + 4095) div 4096 * 4096"
    "unat x \<le> unat (round_up x GetPageSizeCached)" "unat (round_up x GetPageSizeCached) < unat x + 4096"
proof -
  have e: "GetPageSizeCached = 2 ^ 12" by (simp add: GetPageSizeCached_def)
  have b: "unat x + 2 ^ 12 \<le> 2 ^ 64" using assms by simp
  show "unat (round_up x GetPageSizeCached) = (unat x + 4095) div 4096 * 4096"
    using unat_round_up [OF _ b] by (simp add: e)
  show "unat x \<le> unat (round_up x GetPageSizeCached)" "unat (round_up x GetPageSizeCached) < unat x + 4096"
    using round_up_ge [OF _ b] round_up_less [OF _ b] by (simp_all add: e)
qed

text \<open>The request, without wrap-around for the sizes of the clients.\<close>

lemma unat_msize:
  assumes "unat sz \<le> 2 ^ 40" "unat al \<le> 2 ^ 40" "al = 2 ^ k" and k: "k < 64"
  defines "r \<equiv> round_up sz GetPageSizeCached + GetPageSizeCached"
  defines "msize \<equiv> (if al > GetPageSizeCached then r + al else r)"
  shows "unat r = unat (round_up sz GetPageSizeCached) + 4096"
    "unat msize = unat r + (if al > GetPageSizeCached then unat al else 0)" "\<not> msize < sz"
    "round_up msize GetPageSizeCached = msize" "unat msize \<le> 2 ^ 42" "4096 dvd unat msize"
proof -
  note R = unat_page_round [of sz]
  have p: "unat GetPageSizeCached = 4096" by (simp add: GetPageSizeCached_def)
  show ur: "unat r = unat (round_up sz GetPageSizeCached) + 4096"
    unfolding r_def using R assms(1) p by (subst unat_bump) simp_all
  show um: "unat msize = unat r + (if al > GetPageSizeCached then unat al else 0)"
    unfolding msize_def using ur R assms(1,2) by (auto simp: unat_bump)
  have d: "4096 dvd unat r" unfolding ur using R(1) assms(1) by simp
  have "4096 dvd unat al" if "al > GetPageSizeCached"
  proof -
    have "(2::nat) ^ 12 < 2 ^ k" using that k by (simp add: assms(3) word_less_nat_alt unat_pow2 p)
    then have "12 \<le> k" using power_less_imp_less_exp [of "2::nat" 12 k] by simp
    then show ?thesis using le_imp_power_dvd [of 12 k "2::nat"] k by (simp add: assms(3) unat_pow2)
  qed
  then show dm: "4096 dvd unat msize" using d um by (auto split: if_splits)
  show mb: "unat msize \<le> 2 ^ 42" using um ur R(3) assms(1,2) by (auto split: if_splits)
  show "\<not> msize < sz" using um ur R(2) assms(1) by (auto simp: word_less_nat_alt split: if_splits)
  have "IsAligned msize (2 ^ 12)" unfolding IsAligned_iff_dvd using dm by simp
  then have "round_up msize (2 ^ 12) = msize" using mb by (intro round_up_id) simp_all
  then show "round_up msize GetPageSizeCached = msize" by (simp add: GetPageSizeCached_def)
qed

lemma private_anywhere:
  assumes "mmap_anywhere sz m = (r, m')" "\<not> internal_iserror r" "errors_ok m"
  shows "r = mmap_pick m (mmap_calls m)" "errors_ok m'"
    "pages m' q \<noteq> None \<longleftrightarrow> pages m q \<noteq> None \<or> page_of r \<le> q \<and> q < page_of r + page_count sz"
  using assms by (auto simp: mmap_anywhere_def try_call_def Let_def EINVAL_error pages_set_pages errors_ok_def
      fresh_frames_def set_pages_def next_call_def split: if_splits option.splits)

lemma MmapOrDie_picks:
  assumes "MmapOrDie sz m = Inr (r, m')" "errors_ok m"
  shows "r = mmap_pick m (mmap_calls m)" "errors_ok m'"
    "pages m' q \<noteq> None \<longleftrightarrow> pages m q \<noteq> None
       \<or> page_of r \<le> q \<and> q < page_of r + page_count (round_up sz GetPageSizeCached)"
proof -
  have "mmap_anywhere (round_up sz GetPageSizeCached) m = (r, m')" "\<not> internal_iserror r"
    using assms(1) by (auto simp: MmapOrDie_def RoundUpTo_def page_is_power split: prod.splits if_splits)
  from private_anywhere [OF this assms(2)] show "r = mmap_pick m (mmap_calls m)" "errors_ok m'"
    "pages m' q \<noteq> None \<longleftrightarrow> pages m q \<noteq> None
       \<or> page_of r \<le> q \<and> q < page_of r + page_count (round_up sz GetPageSizeCached)" by simp_all
qed

text \<open>Aligning the user address stays within the extra room of the request.\<close>

lemma align_up:
  fixes x :: uptr
  assumes k: "k < 64" and x: "unat x + 2 ^ k < 2 ^ 64"
  defines "y \<equiv> (if x AND (2 ^ k - 1) \<noteq> 0 then x + (2 ^ k - (x AND (2 ^ k - 1))) else x)"
  shows "unat x \<le> unat y" "unat y < unat x + 2 ^ k" "IsAligned y (2 ^ k)" "IsAligned x (2 ^ k) \<Longrightarrow> y = x"
proof -
  have r: "unat (x AND (2 ^ k - 1)) = unat x mod 2 ^ k" unfolding pow2_minus_1_mask by (rule unat_and_mask)
  have z: "x AND (2 ^ k - 1) = 0 \<longleftrightarrow> unat x mod 2 ^ k = 0" using r by (metis unat_eq_zero)
  have p: "unat (2 ^ k :: uptr) = 2 ^ k" using k by (simp add: unat_pow2)
  have uy: "unat y = unat x + (if unat x mod 2 ^ k = 0 then 0 else 2 ^ k - unat x mod 2 ^ k)"
  proof (cases "unat x mod 2 ^ k = 0")
    case False
    have "(x AND (2 ^ k - 1)) \<le> 2 ^ k" unfolding word_le_nat_alt r p by (simp add: less_imp_le)
    then have d: "unat (2 ^ k - (x AND (2 ^ k - 1))) = 2 ^ k - unat x mod 2 ^ k" by (simp add: unat_sub r p)
    show ?thesis unfolding y_def using False z x by (simp, subst unat_add_nowrap) (simp_all add: d)
  qed (use z in \<open>simp add: y_def\<close>)
  show "unat x \<le> unat y" "unat y < unat x + 2 ^ k" using uy by (auto simp: mod_greater_zero_iff_not_dvd)
  have "2 ^ k dvd unat y"
  proof (cases "unat x mod 2 ^ k = 0")
    case False
    have "unat y = unat x + (2 ^ k - unat x mod 2 ^ k)" using uy False by simp
    moreover have "unat x mod 2 ^ k < 2 ^ k" by simp
    ultimately have "unat y = unat x div 2 ^ k * 2 ^ k + 2 ^ k"
      using div_mult_mod_eq [of "unat x" "2 ^ k"] by linarith
    then have "unat y = (unat x div 2 ^ k + 1) * 2 ^ k" by simp
    then show ?thesis by (simp only: dvd_triv_right)
  qed (use uy in \<open>simp add: mod_eq_0_iff_dvd\<close>)
  then show "IsAligned y (2 ^ k)" by (simp add: IsAligned_iff_dvd)
  show "y = x" if "IsAligned x (2 ^ k)" using that z by (simp add: IsAligned_iff_dvd y_def mod_eq_0_iff_dvd)
qed

lemma large_Allocate_ok:
  assumes env: "env_ok s" and A: "large_Allocate onmap sz al s = Inr (r, s')"
    and b: "unat sz \<le> 2 ^ 40" "al \<noteq> 0" "unat al \<le> 2 ^ 40"
    and pick: "fresh_pick (lvm s) (unat (map_request sz al))"
  shows "env_ok s' \<and> r - GetPageSizeCached \<notin> live (lm s) \<and>
    live (lm s') = insert (r - GetPageSizeCached) (live (lm s)) \<and> IsAligned r al \<and>
    {unat r ..< unat r + unat sz} \<subseteq> span (lm s') (r - GetPageSizeCached) \<and>
    hsize (headers (lm s') (r - GetPageSizeCached)) = sz"
proof -
  define rr where "rr = round_up sz GetPageSizeCached + GetPageSizeCached"
  define msize where "msize = (if al > GetPageSizeCached then rr + al else rr)"
  obtain k where k: "k < 64" "al = 2 ^ k" using A b(2) power_of_two_pos by (auto simp: large_Allocate_def res_simps)
  have p: "unat GetPageSizeCached = 4096" by (simp add: GetPageSizeCached_def)
  note Z = unat_msize [OF b(1,3) k(2,1), folded rr_def, folded msize_def]
  have req: "map_request sz al = msize" unfolding map_request_def Let_def rr_def [symmetric] msize_def [symmetric] by (rule Z(4))
  from A obtain mbeg vm1 s1 h size_log s3 where
    M: "MmapOrDie msize (lvm s) = Inr (mbeg, vm1)"
    and o1: "OnMapL onmap mbeg msize (s\<lparr>lvm := vm1\<rparr>) = Inr s1"
    and r: "r = (if (mbeg + GetPageSizeCached) AND (al - 1) \<noteq> 0
        then mbeg + GetPageSizeCached + (al - ((mbeg + GetPageSizeCached) AND (al - 1))) else mbeg + GetPageSizeCached)"
    and ck: "IsAligned r al" "IsAligned r GetPageSizeCached" "r + sz \<ge> mbeg" "r + sz \<le> mbeg + msize"
    and h: "GetHeader r = Inr h"
    and a: "add_chunk h msize size_log (s1\<lparr>lm := fill_header h sz mbeg msize (lm s1)\<rparr>) = Inr s3" and s': "s' = s3"
    using Z(3)
    by (auto simp: large_Allocate_def RoundUpMapSize_def RoundUpTo_def page_is_power Let_def res_simps fill_header_def
        rr_def msize_def split: if_splits)
  have s1: "lm s1 = lm s" "lvm s1 = vm1" using o1 by (auto simp: OnMapL_def res_simps)
  have eo: "errors_ok (lvm s)" and ok: "large_ok (lm s)" using env by (simp_all add: env_ok_def)
  note P = MmapOrDie_picks [OF M eo, unfolded Z(4)]
  have F: "mbeg \<noteq> 0" "unat mbeg mod 4096 = 0" "unat mbeg + unat msize \<le> 2 ^ 47"
    "\<And>q. page_of mbeg \<le> q \<Longrightarrow> q < page_of mbeg + (unat msize + 4095) div 4096 \<Longrightarrow> pages (lvm s) q = None"
    using pick unfolding req fresh_pick_def Let_def P(1) [symmetric] by blast+
  define x where "x = mbeg + GetPageSizeCached"
  have ux: "unat x = unat mbeg + 4096" unfolding x_def using F(3) Z(2) p by (subst unat_add_nowrap) simp_all
  have x64: "unat x + 2 ^ k < 2 ^ 64"
  proof -
    have "unat al = 2 ^ k" using k by (simp add: unat_pow2)
    then show ?thesis using b(3) ux F(3) by simp
  qed
  note U = align_up [OF k(1) x64, folded k(2)]
  have ry: "r = (if x AND (al - 1) \<noteq> 0 then x + (al - (x AND (al - 1))) else x)" using r by (simp add: x_def)
  have rx: "unat x \<le> unat r" "unat r \<le> unat x + (if al > GetPageSizeCached then unat al else 0)"
  proof -
    show "unat x \<le> unat r" unfolding ry by (rule U(1))
    show "unat r \<le> unat x + (if al > GetPageSizeCached then unat al else 0)"
    proof (cases "al > GetPageSizeCached")
      case True
      have "unat al = 2 ^ k" using k by (simp add: unat_pow2)
      then show ?thesis using True U(2) unfolding ry by simp
    next
      case False
      have "2 ^ k \<le> (2::nat) ^ 12" using False k by (simp add: word_less_nat_alt unat_pow2 p)
      then have "k \<le> 12" using power_le_imp_le_exp [of "2::nat" k 12] by simp
      then have "(2::nat) ^ k dvd 4096" using le_imp_power_dvd [of k 12 "2::nat"] by simp
      moreover have "4096 dvd unat x" using ux F(2) by (simp add: mod_eq_0_iff_dvd)
      ultimately have "IsAligned x al" unfolding k(2) IsAligned_iff_dvd by (rule dvd_trans)
      then show ?thesis using U(4) False unfolding ry by simp
    qed
  qed
  have rb: "unat r + unat sz \<le> unat mbeg + unat msize"
  proof -
    have "unat (round_up sz GetPageSizeCached) \<ge> unat sz" using unat_page_round(2) [of sz] b(1) by simp
    then show ?thesis using rx(2) ux Z(1,2) by simp
  qed
  have hr: "h = r - GetPageSizeCached" using h by (simp add: GetHeader_def ck(2))
  have uh: "unat h + 4096 = unat r"
    unfolding hr using rx(1) ux p by (subst unat_sub) (simp_all add: word_le_nat_alt)
  have al_h: "IsAligned h GetPageSizeCached"
  proof -
    have "4096 dvd unat r" using ck(2) IsAligned_iff_dvd [of r 12] by (simp add: GetPageSizeCached_def)
    then have "4096 dvd unat h" using uh by (metis dvd_add_left_iff dvd_refl)
    then show ?thesis using IsAligned_iff_dvd [of h 12] by (simp add: GetPageSizeCached_def)
  qed
  have new1: "hdr_ok (fill_header h sz mbeg msize (lm s)) h"
    using F(1,2,3) Z(6) uh ux rx(1) rb al_h
    by (auto simp: hdr_ok_def fill_header_def word_le_nat_alt unat_gt_0 mod_eq_0_iff_dvd)
  have pm: "\<And>y. y \<in> {unat mbeg ..< unat mbeg + unat msize} \<Longrightarrow>
      page_of mbeg \<le> y div 4096 \<and> y div 4096 < page_of mbeg + page_count msize"
  proof -
    fix y assume y: "y \<in> {unat mbeg ..< unat mbeg + unat msize}"
    obtain m j where m: "unat mbeg = 4096 * m" "unat msize = 4096 * j" using F(2) Z(6) by (auto elim!: dvdE simp: mod_eq_0_iff_dvd)
    then have "m \<le> y div 4096" "y div 4096 < m + j"
      using y by (auto simp: less_eq_div_iff_mult_less_eq div_less_iff_less_mult)
    then show "page_of mbeg \<le> y div 4096 \<and> y div 4096 < page_of mbeg + page_count msize"
      using m by (simp add: page_of_def page_count_def)
  qed
  have new2: "{unat mbeg ..< unat mbeg + unat msize} \<inter> span (lm s) c = {}" if c: "c \<in> live (lm s)" for c
  proof -
    have "y \<notin> span (lm s) c" if "y \<in> {unat mbeg ..< unat mbeg + unat msize}" for y
    proof
      assume "y \<in> span (lm s) c"
      then have "pages (lvm s) (y div 4096) \<noteq> None" using env c unfolding env_ok_def by blast
      then show False using F(4) pm [OF that] by (simp add: page_count_def)
    qed
    then show ?thesis by blast
  qed
  have lm1: "lm (s1\<lparr>lm := fill_header h sz mbeg msize (lm s1)\<rparr>) = fill_header h sz mbeg msize (lm s)" by (simp add: s1)
  note K = add_chunk_ok [OF ok lm1 a new1 new2]
  have "\<forall>c \<in> live (lm s3). \<forall>y \<in> span (lm s3) c. pages (lvm s3) (y div 4096) \<noteq> None"
  proof (intro ballI)
    fix c y assume c: "c \<in> live (lm s3)" and y: "y \<in> span (lm s3) c"
    have v: "lvm s3 = vm1" using K(4) by (simp add: s1)
    show "pages (lvm s3) (y div 4096) \<noteq> None"
    proof (cases "c = h")
      case True
      then show ?thesis using pm [of y] y P(3) [of "y div 4096"] by (simp add: v K(5))
    next
      case False
      then have "pages (lvm s) (y div 4096) \<noteq> None"
        using c y env by (auto simp: K(2,5) env_ok_def)
      then show ?thesis using P(3) [of "y div 4096"] by (simp add: v)
    qed
  qed
  moreover have "errors_ok (lvm s3)" using K(4) P(2) by (simp add: s1)
  ultimately have "env_ok s'" using K(1) by (simp add: env_ok_def s')
  moreover have "{unat r ..< unat r + unat sz} \<subseteq> span (lm s') h"
    using rb uh ux rx(1) by (auto simp: s' K(5))
  ultimately show ?thesis using K(2,3,6) ck(1) by (simp add: s' hr)
qed

lemma span_pages:
  assumes "hdr_ok l c" "y \<in> span l c"
  shows "page_of (map_beg (headers l c)) \<le> y div 4096"
    "y div 4096 < page_of (map_beg (headers l c)) + page_count (map_size (headers l c))"
proof -
  obtain m j where m: "unat (map_beg (headers l c)) = 4096 * m" "unat (map_size (headers l c)) = 4096 * j"
    using assms(1) by (auto simp: hdr_ok_def elim!: dvdE)
  then have "m \<le> y div 4096" "y div 4096 < m + j"
    using assms(2) by (auto simp: span_def less_eq_div_iff_mult_less_eq div_less_iff_less_mult)
  then show "page_of (map_beg (headers l c)) \<le> y div 4096"
    "y div 4096 < page_of (map_beg (headers l c)) + page_count (map_size (headers l c))"
    using m by (simp_all add: page_of_def page_count_def)
qed

lemma pages_span:
  assumes "hdr_ok l c" "page_of (map_beg (headers l c)) \<le> q" "q < page_of (map_beg (headers l c)) + page_count (map_size (headers l c))"
  shows "q * 4096 \<in> span l c"
proof -
  obtain m j where m: "unat (map_beg (headers l c)) = 4096 * m" "unat (map_size (headers l c)) = 4096 * j"
    using assms(1) by (auto simp: hdr_ok_def elim!: dvdE)
  then show ?thesis using assms(2,3) by (simp add: span_def page_of_def page_count_def)
qed

lemma UnmapOrDie_pages:
  assumes "UnmapOrDie a n m = Inr m'" "a \<noteq> 0" "n \<noteq> 0" "errors_ok m"
  shows "pages m' = (\<lambda>q. if page_of a \<le> q \<and> q < page_of a + page_count n then None else pages m q)" "errors_ok m'"
    "no_errors m \<Longrightarrow> no_errors m'"
proof -
  from assms(1-3) obtain r where r: "munmap a n m = (r, m')" "\<not> internal_iserror r"
    by (auto simp: UnmapOrDie_def split: prod.splits if_splits)
  have "(r, m') = (0, set_pages (page_of a) (page_count n) (\<lambda>i. None) (next_call m))"
    by (cases rule: try_call_cases [OF r(1) [unfolded munmap_def] assms(4)]) (use r(2) in auto)
  then show "pages m' = (\<lambda>q. if page_of a \<le> q \<and> q < page_of a + page_count n then None else pages m q)" "errors_ok m'"
    "no_errors m \<Longrightarrow> no_errors m'"
    using assms(4) by (auto simp: pages_set_pages errors_ok_def no_errors_def)
qed

lemma MmapFixedNoAccess_pages:
  assumes "MmapFixedNoAccess a n m = (r, m')" "errors_ok m"
  shows "errors_ok m'" "pages m q \<noteq> None \<Longrightarrow> pages m' q \<noteq> None"
    "no_errors m \<Longrightarrow> unat a mod 4096 = 0 \<Longrightarrow> n \<noteq> 0 \<Longrightarrow> page_of a \<le> q \<Longrightarrow> q < page_of a + page_count n \<Longrightarrow> pages m' q = Some NoAccess"
proof -
  have c: "pages m' = pages m \<and> errors_ok m' \<or> errors_ok m' \<and>
      pages m' = (\<lambda>q. if page_of a \<le> q \<and> q < page_of a + page_count n then Some NoAccess else pages m q)"
    by (cases rule: try_call_cases [OF assms(1) [unfolded MmapFixedNoAccess_def mmap_fixed_none_def] assms(2)])
      (use assms(2) in \<open>auto simp: pages_set_pages errors_ok_def fun_eq_iff\<close>)
  then show "errors_ok m'" "pages m q \<noteq> None \<Longrightarrow> pages m' q \<noteq> None" by auto
  show "pages m' q = Some NoAccess" if "no_errors m" "unat a mod 4096 = 0" "n \<noteq> 0" "page_of a \<le> q" "q < page_of a + page_count n"
    using assms(1) that by (auto simp: MmapFixedNoAccess_def mmap_fixed_none_def try_call_ok pages_set_pages)
qed

lemma large_Deallocate_unfold:
  "large_Deallocate onunmap p s =
     bindr (GetHeader p) (\<lambda>h.
     check (chunks (lm s) (unat (chunk_idx (headers (lm s) h))) = h) ''chunks_[idx] == h'' (
     check (chunk_idx (headers (lm s) h) < n_chunks (lm s)) ''idx < n_chunks_'' (
     let l3 = drop_chunk h (lm s); beg = map_beg (headers l3 h); sz = map_size (headers l3 h);
         g = stat_Sub AllocatorStatMapped sz (stat_Sub AllocatorStatAllocated sz (gstat s))
     in bindr (OnMapL onunmap beg sz (s\<lparr>lm := l3, gstat := g\<rparr>)) (\<lambda>s1.
        bindr (UnmapOrDie beg sz (lvm s1)) (\<lambda>vm1.
        Inr (s1\<lparr>lvm := snd (MmapFixedNoAccess beg sz vm1)\<rparr>))))))"
  by (simp add: large_Deallocate_def drop_chunk_def Let_def case_prod_beta cong del: if_weak_cong)

lemma large_Deallocate_InrE:
  assumes "large_Deallocate onunmap p s = Inr s'"
  obtains g s1 vm1 where "chunks (lm s) (unat (chunk_idx (headers (lm s) (p - GetPageSizeCached)))) = p - GetPageSizeCached"
    "chunk_idx (headers (lm s) (p - GetPageSizeCached)) < n_chunks (lm s)"
    "OnMapL onunmap (map_beg (headers (drop_chunk (p - GetPageSizeCached) (lm s)) (p - GetPageSizeCached)))
       (map_size (headers (drop_chunk (p - GetPageSizeCached) (lm s)) (p - GetPageSizeCached)))
       (s\<lparr>lm := drop_chunk (p - GetPageSizeCached) (lm s), gstat := g\<rparr>) = Inr s1"
    "UnmapOrDie (map_beg (headers (drop_chunk (p - GetPageSizeCached) (lm s)) (p - GetPageSizeCached)))
       (map_size (headers (drop_chunk (p - GetPageSizeCached) (lm s)) (p - GetPageSizeCached))) (lvm s1) = Inr vm1"
    "s' = s1\<lparr>lvm := snd (MmapFixedNoAccess (map_beg (headers (drop_chunk (p - GetPageSizeCached) (lm s)) (p - GetPageSizeCached)))
       (map_size (headers (drop_chunk (p - GetPageSizeCached) (lm s)) (p - GetPageSizeCached))) vm1)\<rparr>"
  using assms unfolding large_Deallocate_unfold GetHeader_def Let_def bindr_Inr check_Inr sum.inject
  by - (elim exE conjE, hypsubst, rule that, (assumption | rule refl)+)

lemma large_Deallocate_ok:
  assumes env: "env_ok s" and A: "large_Deallocate onunmap p s = Inr s'"
  shows "env_ok s'" "p - GetPageSizeCached \<in> live (lm s)" "live (lm s') = live (lm s) - {p - GetPageSizeCached}"
    "c \<in> live (lm s') \<Longrightarrow> span (lm s') c = span (lm s) c"
    "no_errors (lvm s) \<Longrightarrow> y \<in> span (lm s) (p - GetPageSizeCached) \<Longrightarrow> pages (lvm s') (y div 4096) = Some NoAccess"
proof -
  let ?h = "p - GetPageSizeCached" and ?l = "lm s"
  have eo: "errors_ok (lvm s)" and ok: "large_ok ?l" using env by (simp_all add: env_ok_def)
  obtain g s1 vm1 where c: "chunks ?l (unat (chunk_idx (headers ?l ?h))) = ?h" "chunk_idx (headers ?l ?h) < n_chunks ?l"
    and o1: "OnMapL onunmap (map_beg (headers (drop_chunk ?h ?l) ?h)) (map_size (headers (drop_chunk ?h ?l) ?h))
        (s\<lparr>lm := drop_chunk ?h ?l, gstat := g\<rparr>) = Inr s1"
    and U: "UnmapOrDie (map_beg (headers (drop_chunk ?h ?l) ?h)) (map_size (headers (drop_chunk ?h ?l) ?h)) (lvm s1) = Inr vm1"
    and s0: "s' = s1\<lparr>lvm := snd (MmapFixedNoAccess (map_beg (headers (drop_chunk ?h ?l) ?h)) (map_size (headers (drop_chunk ?h ?l) ?h)) vm1)\<rparr>"
    by (rule large_Deallocate_InrE [OF A])
  obtain r vm2 where N: "MmapFixedNoAccess (map_beg (headers (drop_chunk ?h ?l) ?h)) (map_size (headers (drop_chunk ?h ?l) ?h)) vm1 = (r, vm2)"
    by (rule prod.exhaust)
  have s': "s' = s1\<lparr>lvm := vm2\<rparr>" using s0 N by simp
  note K = drop_chunk_ok [OF ok c]
  have s1: "lm s1 = drop_chunk ?h ?l" "lvm s1 = lvm s" using o1 by (auto simp: OnMapL_def res_simps)
  have h: "hdr_ok ?l ?h" by (rule large_okD(4) [OF ok K(3)])
  have nz: "map_beg (headers ?l ?h) \<noteq> 0" "map_size (headers ?l ?h) \<noteq> 0"
    using h by (auto simp: hdr_ok_def word_le_nat_alt)
  note V = UnmapOrDie_pages [OF U [unfolded K(4,5) s1(2)] nz eo]
  note W = MmapFixedNoAccess_pages [OF N [unfolded K(4,5)] V(2)]
  have sp: "span (lm s') x = span ?l x" for x by (simp add: span_def s' s1 K(4,5))
  then show "c \<in> live (lm s') \<Longrightarrow> span (lm s') c = span ?l c" by simp
  show lv: "live (lm s') = live ?l - {?h}" by (simp add: s' s1 K(2))
  show "?h \<in> live ?l" by (rule K(3))
  have "pages (lvm s') (y div 4096) \<noteq> None" if x: "x \<in> live (lm s')" and y: "y \<in> span (lm s') x" for x y
  proof -
    have x': "x \<in> live ?l" "x \<noteq> ?h" "y \<in> span ?l x" using x y lv sp by auto
    have "y div 4096 * 4096 \<notin> span ?l ?h"
    proof -
      have "y div 4096 * 4096 \<in> span ?l x"
        using pages_span [OF large_okD(4) [OF ok x'(1)]] span_pages [OF large_okD(4) [OF ok x'(1)] x'(3)] by blast
      then show ?thesis using large_okD(5) [OF ok x'(1) K(3) x'(2)] by blast
    qed
    then have "\<not> (page_of (map_beg (headers ?l ?h)) \<le> y div 4096
        \<and> y div 4096 < page_of (map_beg (headers ?l ?h)) + page_count (map_size (headers ?l ?h)))"
      using pages_span [OF h] by blast
    then have "pages vm1 (y div 4096) = pages (lvm s) (y div 4096)" by (auto simp: V(1))
    moreover have "pages (lvm s) (y div 4096) \<noteq> None" using env x'(1,3) unfolding env_ok_def by blast
    ultimately show ?thesis using W(2) by (simp add: s')
  qed
  then show "env_ok s'" using W(1) K(1) by (simp add: env_ok_def s' s1)
  show "pages (lvm s') (y div 4096) = Some NoAccess" if "no_errors (lvm s)" "y \<in> span ?l ?h"
  proof -
    have "unat (map_beg (headers ?l ?h)) mod 4096 = 0" using h by (simp add: hdr_ok_def mod_eq_0_iff_dvd)
    then show ?thesis using W(3) V(3) that span_pages [OF h that(2)] nz by (simp add: s')
  qed
qed

text \<open>
  C7. A large allocation that returns gives an aligned block that was not in use, inside a mapping of its own that
  meets no mapping in use, with its size on record; the array of headers, its indices and its statistics stay consistent.
\<close>

theorem large_allocate:
  assumes "env_ok s" "large_Allocate onmap sz al s = Inr (r, s')"
    and "unat sz \<le> 2 ^ 40" "al \<noteq> 0" "unat al \<le> 2 ^ 40" "fresh_pick (lvm s) (unat (map_request sz al))"
  shows "env_ok s' \<and> r - GetPageSizeCached \<notin> live (lm s) \<and>
    live (lm s') = insert (r - GetPageSizeCached) (live (lm s)) \<and> IsAligned r al \<and>
    {unat r ..< unat r + unat sz} \<subseteq> span (lm s') (r - GetPageSizeCached) \<and>
    hsize (headers (lm s') (r - GetPageSizeCached)) = sz"
  using large_Allocate_ok [OF assms] .

text \<open>
  C6. A large free that returns was given a block in use: it takes exactly this block out, keeps the invariant, and
  leaves its mapping inaccessible; so freeing a block twice, or a pointer that was never allocated, does not return.
\<close>

theorem large_deallocate:
  assumes "env_ok s" "large_Deallocate onunmap p s = Inr s'"
  shows "env_ok s' \<and> p - GetPageSizeCached \<in> live (lm s) \<and> live (lm s') = live (lm s) - {p - GetPageSizeCached} \<and>
    (no_errors (lvm s) \<longrightarrow> (\<forall>y \<in> span (lm s) (p - GetPageSizeCached). pages (lvm s') (y div 4096) = Some NoAccess))"
  using large_Deallocate_ok [OF assms] by blast

section \<open>A concrete run\<close>

definition lenv0 :: "unit lst_env" where
  "lenv0 = \<lparr>lm = large_Init False,
     lvm = \<lparr>pages = (\<lambda>_. None), next_frame = 0, frames = (\<lambda>_. 0), mmap_error = (\<lambda>_. None),
       mmap_pick = (\<lambda>n. if n = 0 then 0x7f0000000000 else 0x7e0000000000), mmap_calls = 0\<rparr>,
     lclient = (), gstat = stat_Init\<rparr>"

definition quiet :: "unit callback" where "quiet b n c = Inr ()"

definition large_run :: "(unit lst_env \<times> unit lst_env) res" where
  "large_run = bindr (large_Allocate quiet 100000 8 lenv0) (\<lambda>(p, s1).
     if p = 0x7f0000001000 then bindr (large_Deallocate quiet p s1) (\<lambda>s2. Inr (s1, s2)) else Inl (Segv p))"

lemmas large_run_defs = large_Allocate_def RoundUpMapSize_def RoundUpTo_def round_up_def Let_def
  MmapOrDie_def mmap_anywhere_def try_call_def IsPowerOfTwo_def IsAligned_def OnMapL_def GetHeader_def add_chunk_def
  MostSignificantSetBitIndex_def builtin_clzl_def GetPageSizeCached_def kMaxNumChunks_def internal_iserror_def
  lenv0_def large_Init_def quiet_def next_call_def fresh_frames_def set_pages_def page_of_def page_count_def
  large_Deallocate_def UnmapOrDie_def munmap_def MmapFixedNoAccess_def mmap_fixed_none_def MayReturnNull_def null_or_die_def

lemma env_ok0: "env_ok lenv0" "no_errors (lvm lenv0)" "fresh_pick (lvm lenv0) (unat (map_request 100000 8))"
proof -
  show "env_ok lenv0" using large_ok_Init [of False] by (simp add: env_ok_def lenv0_def errors_ok_def live_def) (simp add: large_Init_def)
  show "no_errors (lvm lenv0)" by (simp add: lenv0_def no_errors_def)
  show "fresh_pick (lvm lenv0) (unat (map_request 100000 8))"
    by (simp add: fresh_pick_def lenv0_def map_request_def Let_def round_up_def GetPageSizeCached_def)
qed

lemma hi_bit_17: "hi_bit 106496 = 16"
  by (simp add: hi_bit.simps)

lemma large_run_ok: "case large_run of Inl _ \<Rightarrow> False | Inr _ \<Rightarrow> True"
  by (simp add: large_run_def large_run_defs hi_bit_17)

lemma large_runE:
  obtains s1 s2 where "large_Allocate quiet 100000 8 lenv0 = Inr (0x7f0000001000, s1)" "large_Deallocate quiet 0x7f0000001000 s1 = Inr s2"
proof -
  obtain a where "large_run = Inr a" using large_run_ok by (auto split: sum.splits)
  then show thesis using that by (auto simp: large_run_def res_simps split: prod.splits if_splits)
qed

theorem large_allocate_witness:
  "\<exists>s'. large_Allocate quiet 100000 8 lenv0 = Inr (0x7f0000001000, s') \<and> live (lm s') = {0x7f0000000000} \<and>
     {0x7f0000001000 ..< 0x7f0000001000 + 100000} \<subseteq> span (lm s') 0x7f0000000000"
proof -
  obtain s1 s2 where A: "large_Allocate quiet 100000 8 lenv0 = Inr (0x7f0000001000, s1)" by (rule large_runE)
  have "live (lm lenv0) = {}" by (simp add: live_def lenv0_def large_Init_def)
  then show ?thesis using large_allocate [OF env_ok0(1) A _ _ _ env_ok0(3)] A by (simp add: GetPageSizeCached_def)
qed

lemma large_run_state:
  assumes "large_Allocate quiet 100000 8 lenv0 = Inr (0x7f0000001000, s1)"
  shows "env_ok s1" "live (lm s1) = {0x7f0000000000}"
proof -
  have "live (lm lenv0) = {}" by (simp add: live_def lenv0_def large_Init_def)
  then show "env_ok s1" "live (lm s1) = {0x7f0000000000}"
    using large_Allocate_ok [OF env_ok0(1) assms _ _ _ env_ok0(3)] by (simp_all add: GetPageSizeCached_def)
qed

theorem large_deallocate_witness:
  "\<exists>s1 s2. large_Allocate quiet 100000 8 lenv0 = Inr (0x7f0000001000, s1) \<and>
     large_Deallocate quiet 0x7f0000001000 s1 = Inr s2 \<and> live (lm s2) = {}"
proof -
  obtain s1 s2 where A: "large_Allocate quiet 100000 8 lenv0 = Inr (0x7f0000001000, s1)"
    and D: "large_Deallocate quiet 0x7f0000001000 s1 = Inr s2" by (rule large_runE)
  show ?thesis using large_deallocate [OF large_run_state(1) [OF A] D] large_run_state(2) [OF A] A D
    by (auto simp: GetPageSizeCached_def)
qed

theorem fast_lookup_witness:
  "\<exists>l l'. live l = {0x7f0000000000} \<and>
     GetBlockBeginFastLocked 0x7f0000001234 l = Inr (block_begin 0x7f0000001234 l, l') \<and>
     GetBlockBegin 0x7f0000001234 l = Inr (block_begin 0x7f0000001234 l)"
proof -
  obtain s1 s2 where A: "large_Allocate quiet 100000 8 lenv0 = Inr (0x7f0000001000, s1)" by (rule large_runE)
  have "large_ok (lm s1)" using large_run_state(1) [OF A] by (simp add: env_ok_def)
  from fast_lookup [OF this] large_run_state(2) [OF A] show ?thesis by blast
qed

end
