(* ===== verification/Meds.thy ===== *)
theory Meds
  imports LargeMmap Annotate AliasIso
begin

text \<open>
  The allocator behind \<^verbatim>\<open>malloc\<close> (\<^verbatim>\<open>meds_allocator.cc\<close>) on top of \<^verbatim>\<open>CombinedAliasing\<close> of
  \<^verbatim>\<open>sanitizer_aliasing.h\<close>: a block of the primary or secondary allocator holds the metadata (two
  words: the requested size and the begin of the block) right before the user memory; the shadow of the block is poisoned but
  for the user memory. The callback for mapped memory is \<^verbatim>\<open>AsanMapUnmapCallback\<close>; its state is the shadow
  with the statistics of the runtime, which the code keeps per thread and adds up, and which are one object here.
  The contents of the shadow are a map of their own, as in theory \<^theory_text>\<open>Poison\<close>.
\<close>

section \<open>State\<close>

record AsanStats =
  mmaps :: uptr
  mmaped :: uptr
  munmaps :: uptr
  munmaped :: uptr

record meds_client =
  poison :: pst
  thread_stats :: AsanStats

record meds =
  prim :: "meds_client ast"
  sec :: large
  rstats :: stats_heap
  stats_obj :: uptr
  comb_null :: bool

definition sec_env :: "meds \<Rightarrow> meds_client lst_env" where
  "sec_env s = \<lparr>lm = sec s, lvm = avm (prim s), lclient = client (prim s), gstat = stats (rstats s) (stats_obj s)\<rparr>"

definition put_env :: "meds_client lst_env \<Rightarrow> meds \<Rightarrow> meds" where
  "put_env e s = s\<lparr>prim := (prim s)\<lparr>avm := lvm e, client := lclient e\<rparr>, sec := lm e,
     rstats := (rstats s)\<lparr>stats := (stats (rstats s))(stats_obj s := gstat e)\<rparr>\<rparr>"

definition on_poison :: "(pst \<Rightarrow> pst res) \<Rightarrow> meds \<Rightarrow> meds res" where
  "on_poison f s = bindr (f (poison (client (prim s)))) (\<lambda>p.
     Inr (s\<lparr>prim := (prim s)\<lparr>client := (client (prim s))\<lparr>poison := p\<rparr>\<rparr>\<rparr>))"

definition on_vm :: "(vm \<Rightarrow> vm res) \<Rightarrow> meds \<Rightarrow> meds res" where
  "on_vm f s = bindr (f (avm (prim s))) (\<lambda>m. Inr (s\<lparr>prim := (prim s)\<lparr>avm := m\<rparr>\<rparr>))"

section \<open>Memory\<close>

text \<open>Byte loops over memory, in ascending order.\<close>

fun vfill :: "uptr \<Rightarrow> u8 \<Rightarrow> nat \<Rightarrow> vm \<Rightarrow> vm res" where
  "vfill p v 0 m = Inr m"
| "vfill p v (Suc n) m = bindr (vfill p v n m) (\<lambda>m'. vstore8 m' (p + of_nat n) v)"

fun vcopy :: "uptr \<Rightarrow> uptr \<Rightarrow> nat \<Rightarrow> vm \<Rightarrow> vm res" where
  "vcopy dst src 0 m = Inr m"
| "vcopy dst src (Suc n) m = bindr (vcopy dst src n m) (\<lambda>m'.
     bindr (vload8 m' (src + of_nat n)) (\<lambda>b. vstore8 m' (dst + of_nat n) b))"

definition internal_bzero_aligned16 :: "uptr \<Rightarrow> uptr \<Rightarrow> vm \<Rightarrow> vm res" where
  "internal_bzero_aligned16 s n m = check ((s OR n) AND 15 = 0) ''((uptr)s | n) & 15 == 0'' (vfill s 0 (unat n) m)"

section \<open>The callback\<close>

definition AsanOnMap :: "cfg \<Rightarrow> meds_client callback" where
  "AsanOnMap c p sz k =
     bindr (PoisonShadow c p sz kAsanHeapLeftRedzoneMagic (poison k)) (\<lambda>ps.
     let st = thread_stats k in
     Inr (k\<lparr>poison := ps, thread_stats := st\<lparr>mmaps := mmaps st + 1, mmaped := mmaped st + sz\<rparr>\<rparr>))"

text \<open>Pages given back with \<^verbatim>\<open>MADV_DONTNEED\<close> read as zeros.\<close>

definition ReleaseMemoryPagesToOS :: "uptr \<Rightarrow> uptr \<Rightarrow> smem \<Rightarrow> smem res" where
  "ReleaseMemoryPagesToOS beg end sh =
     bindr (RoundUpTo beg GetPageSizeCached) (\<lambda>beg_aligned.
     let end_aligned = RoundDownTo end GetPageSizeCached in
     Inr (if beg_aligned < end_aligned then memset beg_aligned 0 (end_aligned - beg_aligned) sh else sh))"

definition FlushUnneededASanShadowMemory :: "cfg \<Rightarrow> uptr \<Rightarrow> uptr \<Rightarrow> pst \<Rightarrow> pst res" where
  "FlushUnneededASanShadowMemory c p sz s =
     bindr (MemToShadow c p) (\<lambda>b. bindr (MemToShadow c (p + sz)) (\<lambda>e.
     bindr (ReleaseMemoryPagesToOS b e (shadow s)) (\<lambda>sh. Inr (s\<lparr>shadow := sh\<rparr>))))"

definition AsanOnUnmap :: "cfg \<Rightarrow> meds_client callback" where
  "AsanOnUnmap c p sz k =
     bindr (PoisonShadow c p sz 0 (poison k)) (\<lambda>ps.
     bindr (FlushUnneededASanShadowMemory c p sz ps) (\<lambda>ps'.
     let st = thread_stats k in
     Inr (k\<lparr>poison := ps', thread_stats := st\<lparr>munmaps := munmaps st + 1, munmaped := munmaped st + sz\<rparr>\<rparr>)))"

section \<open>The combined allocator\<close>

definition InitCommon :: "cfg \<Rightarrow> bool \<Rightarrow> meds \<Rightarrow> meds res" where
  "InitCommon c null s = bindr (alloc_Init AP64 (AsanOnMap c) (prim s)) (\<lambda>p. Inr (s\<lparr>prim := p, comb_null := null\<rparr>))"

definition comb_Init :: "cfg \<Rightarrow> bool \<Rightarrow> meds \<Rightarrow> meds res" where
  "comb_Init c null s =
     InitCommon c null (s\<lparr>sec := large_Init null, rstats := global_Init (stats_obj s) (rstats s)\<rparr>)"

definition comb_InitLinkerInitialized :: "cfg \<Rightarrow> bool \<Rightarrow> meds \<Rightarrow> meds res" where
  "comb_InitLinkerInitialized c null s =
     InitCommon c null (s\<lparr>sec := SetMayReturnNull null (sec s),
       rstats := global_InitLinkerInitialized (stats_obj s) (rstats s)\<rparr>)"

definition comb_MayReturnNull :: "meds \<Rightarrow> bool" where
  "comb_MayReturnNull s = comb_null s"

definition comb_null_or_die :: "meds \<Rightarrow> bool \<Rightarrow> uptr res" where
  "comb_null_or_die s oom = null_or_die (comb_MayReturnNull s) oom"

definition comb_SetMayReturnNull :: "bool \<Rightarrow> meds \<Rightarrow> meds" where
  "comb_SetMayReturnNull v s = s\<lparr>sec := SetMayReturnNull v (sec s), comb_null := v\<rparr>"

definition comb_PrimAllocate :: "cfg \<Rightarrow> nat \<Rightarrow> uptr \<Rightarrow> uptr \<Rightarrow> meds \<Rightarrow> (uptr \<times> meds) res" where
  "comb_PrimAllocate c t sz rz_size s =
     bindr (ClassID (SizeMap AP64) sz) (\<lambda>class_id.
     bindr (Allocate AP64 (AsanOnMap c) t class_id rz_size (prim s)) (\<lambda>(r, p). Inr (r, s\<lparr>prim := p\<rparr>)))"

definition comb_Allocate :: "cfg \<Rightarrow> nat \<Rightarrow> uptr \<Rightarrow> uptr \<Rightarrow> uptr \<Rightarrow> bool \<Rightarrow> meds \<Rightarrow> (uptr \<times> meds) res" where
  "comb_Allocate c t size0 alignment rz_size cleared s =
     (let sz1 = (if size0 = 0 then 1 else size0) in
      if sz1 + alignment < sz1 then bindr (comb_null_or_die s False) (\<lambda>r. Inr (r, s))
      else
      let original_size = sz1 in
      bindr (if alignment > 8 then RoundUpTo sz1 alignment else Inr sz1) (\<lambda>sz.
      let from_primary = CanAllocate AP64 sz alignment in
      bindr (if from_primary then comb_PrimAllocate c t sz rz_size s
             else bindr (large_Allocate (AsanOnMap c) original_size alignment (sec_env s))
                    (\<lambda>(r, e). Inr (r, put_env e s))) (\<lambda>(res, s1).
      check (alignment > 8 \<longrightarrow> res AND (alignment - 1) = 0) ''res & (alignment - 1) == 0'' (
      bindr (if cleared \<and> res \<noteq> 0 \<and> from_primary then
               bindr (RoundUpTo sz 16) (\<lambda>n. on_vm (internal_bzero_aligned16 res n) s1)
             else Inr s1) (\<lambda>s2. Inr (res, s2))))))"

definition comb_Deallocate :: "cfg \<Rightarrow> nat \<Rightarrow> uptr \<Rightarrow> meds \<Rightarrow> meds res" where
  "comb_Deallocate c t p s =
     (if p = 0 then Inr s
      else if PointerIsMine AP64 (prim s) p then
        bindr (Deallocate AP64 t (GetSizeClass AP64 (prim s) p) p (prim s)) (\<lambda>q. Inr (s\<lparr>prim := q\<rparr>))
      else bindr (large_Deallocate (AsanOnUnmap c) p (sec_env s)) (\<lambda>e. Inr (put_env e s)))"

definition comb_PointerIsMine :: "uptr \<Rightarrow> meds \<Rightarrow> bool res" where
  "comb_PointerIsMine p s = (if PointerIsMine AP64 (prim s) p then Inr True else large_PointerIsMine p (sec s))"

definition comb_FromPrimary :: "uptr \<Rightarrow> meds \<Rightarrow> bool" where
  "comb_FromPrimary p s = PointerIsMine AP64 (prim s) p"

definition comb_GetActuallyAllocatedSize :: "uptr \<Rightarrow> meds \<Rightarrow> uptr res" where
  "comb_GetActuallyAllocatedSize p s =
     (if PointerIsMine AP64 (prim s) p then GetActuallyAllocatedSize AP64 (prim s) p
      else large_GetActuallyAllocatedSize p (sec s))"

text \<open>\<^verbatim>\<open>Reallocate\<close> passes no redzone size: the call does not compile, but no instance of the template uses it.\<close>

definition comb_TotalMemoryUsed :: "meds \<Rightarrow> uptr res" where
  "comb_TotalMemoryUsed s = bindr (TotalMemoryUsed AP64 (prim s)) (\<lambda>a. bindr (large_TotalMemoryUsed (sec s)) (\<lambda>b. Inr (a + b)))"

definition comb_GetStats :: "meds \<Rightarrow> counters option" where
  "comb_GetStats s = global_Get (stats_obj s) (rstats s)"

text \<open>
  \<^verbatim>\<open>AliasingAllocatorLocalCache::Init\<close>, with the address of the cache's counters; it neither sets nor clears the
  free lists, which are zero before.
\<close>

definition cache_Init :: "uptr \<Rightarrow> meds \<Rightarrow> meds" where
  "cache_Init a s = s\<lparr>rstats := (let h = (rstats s)\<lparr>stats := (stats (rstats s))(a := stat_Init)\<rparr> in
     if stats_obj s \<noteq> 0 then stats_Register (stats_obj s) a h else h)\<rparr>"

definition cache_Destroy :: "uptr \<Rightarrow> meds \<Rightarrow> meds" where
  "cache_Destroy a s = s\<lparr>rstats := (if stats_obj s \<noteq> 0 then stats_Unregister (stats_obj s) a (rstats s) else rstats s)\<rparr>"

section \<open>The allocator of the runtime\<close>

definition ComputRZLog :: "uptr \<Rightarrow> uptr" where "ComputRZLog user_requested_size = 14"

definition RZLog2Size :: "uptr \<Rightarrow> uptr" where "RZLog2Size rz_log = push_bit (unat rz_log) 1"

definition kMetaSize :: uptr where "kMetaSize = 16"

definition kMaxAllowedMallocSize :: uptr where "kMaxAllowedMallocSize = push_bit 40 1"

text \<open>The caches: that of a thread, or the fallback cache where no thread is known.\<close>

definition cache_of :: "nat option \<Rightarrow> nat" where
  "cache_of t = (case t of None \<Rightarrow> 0 | Some i \<Rightarrow> Suc i)"

definition UnmapShadow :: "uptr \<Rightarrow> uptr \<Rightarrow> meds \<Rightarrow> meds res" where
  "UnmapShadow addr sz s =
     (let shadow_beg = MEM_TO_SHADOW addr; shadow_end = MEM_TO_SHADOW (addr + sz);
          unmap_beg = RoundDownTo shadow_beg GetPageSizeCached in
      bindr (RoundUpTo shadow_end GetPageSizeCached) (\<lambda>unmap_end.
      let n = unmap_end - unmap_beg; (r, m) = munmap unmap_beg n (avm (prim s)) in
      bindr (MmapFixedOrDie unmap_beg n m) (\<lambda>(q, m').
      on_poison (\<lambda>p. Inr (fill_shadow unmap_beg 0 n p)) (s\<lparr>prim := (prim s)\<lparr>avm := m'\<rparr>\<rparr>))))"

text \<open>The part of \<^verbatim>\<open>Allocate\<close> that follows the call of the combined allocator.\<close>

definition poison_if_clean :: "cfg \<Rightarrow> uptr \<Rightarrow> meds \<Rightarrow> meds res" where
  "poison_if_clean c allocated s =
     (if shadow (poison (client (prim s))) (MEM_TO_SHADOW allocated) = 0 \<and> CanPoisonMemory (poison (client (prim s))) then
        bindr (comb_GetActuallyAllocatedSize allocated s) (\<lambda>allocated_size.
        on_poison (PoisonShadow c allocated allocated_size kAsanHeapLeftRedzoneMagic) s)
      else Inr s)"

definition unpoison_user :: "cfg \<Rightarrow> uptr \<Rightarrow> uptr \<Rightarrow> pst \<Rightarrow> pst res" where
  "unpoison_user c user_beg sz p =
     (let down = RoundDownTo sz SHADOW_GRANULARITY in
      bindr (if down \<noteq> 0 then PoisonShadow c user_beg down 0 p else Inr p) (\<lambda>p1.
      if sz \<noteq> down \<and> CanPoisonMemory p1 then
        bindr (MemToShadow c (user_beg + down)) (\<lambda>a. Inr (store_shadow a (ucast (sz AND (SHADOW_GRANULARITY - 1))) p1))
      else Inr p1))"

definition lay_out :: "cfg \<Rightarrow> uptr \<Rightarrow> uptr \<Rightarrow> uptr \<Rightarrow> uptr \<Rightarrow> meds \<Rightarrow> (uptr \<times> meds) res" where
  "lay_out c alloc_beg needed_size sz alignment s =
     (let alloc_end = alloc_beg + needed_size; beg_plus_meta = alloc_beg + kMetaSize in
      bindr (if \<not> IsAligned beg_plus_meta alignment then RoundUpTo beg_plus_meta alignment else Inr beg_plus_meta) (\<lambda>user_beg.
      let user_end = user_beg + sz in
      check (user_end \<le> alloc_end) ''user_end <= alloc_end'' (
      let meta_beg = user_beg - kMetaSize in
      bindr (on_vm (\<lambda>m. vstore m meta_beg 8 sz) s) (\<lambda>s1.
      bindr (on_vm (\<lambda>m. vstore m (meta_beg + 8) 8 alloc_beg) s1) (\<lambda>s2.
      bindr (on_poison (unpoison_user c user_beg sz) s2) (\<lambda>s3. Inr (user_beg, s3)))))))"

definition meds_Allocate :: "cfg \<Rightarrow> nat option \<Rightarrow> uptr \<Rightarrow> uptr \<Rightarrow> meds \<Rightarrow> (uptr \<times> meds) res" where
  "meds_Allocate c t size0 alignment0 s =
     (let min_alignment = SHADOW_GRANULARITY;
          alignment = (if alignment0 < min_alignment then min_alignment else alignment0);
          sz = (if size0 = 0 then 1 else size0) in
      check (IsPowerOfTwo alignment) ''IsPowerOfTwo(alignment)'' (
      let rz_size = RZLog2Size (ComputRZLog sz) in
      bindr (RoundUpTo sz alignment) (\<lambda>rounded_size.
      let needed0 = rounded_size + kMetaSize;
          needed1 = (if alignment > min_alignment then needed0 + alignment else needed0);
          needed_size = (if \<not> CanAllocate AP64 needed1 alignment then needed1 + rz_size * 2 else needed1) in
      check (IsAligned needed_size min_alignment) ''IsAligned(needed_size, min_alignment)'' (
      if sz > kMaxAllowedMallocSize \<or> needed_size > kMaxAllowedMallocSize then
        bindr (comb_null_or_die s False) (\<lambda>r. Inr (r, s))
      else
      bindr (comb_Allocate c (cache_of t) needed_size 8 rz_size False s) (\<lambda>(allocated, s1).
      if allocated = 0 then bindr (comb_null_or_die s1 True) (\<lambda>r. Inr (r, s1))
      else
      bindr (poison_if_clean c allocated s1) (\<lambda>s2.
      lay_out c allocated needed_size sz alignment s2))))))"

definition meds_Deallocate :: "cfg \<Rightarrow> nat option \<Rightarrow> uptr \<Rightarrow> uptr \<Rightarrow> meds \<Rightarrow> meds res" where
  "meds_Deallocate c t p delete_size s =
     (if p = 0 then Inr s
      else let meta_beg = p - kMetaSize in
      bindr (vload (avm (prim s)) (meta_beg + 8) 8) (\<lambda>alloc_beg.
      bindr (comb_GetActuallyAllocatedSize alloc_beg s) (\<lambda>sz.
      bindr (UnmapShadow alloc_beg sz s) (\<lambda>s1.
      comb_Deallocate c (cache_of t) alloc_beg s1))))"

definition meds_Reallocate :: "cfg \<Rightarrow> nat option \<Rightarrow> uptr \<Rightarrow> uptr \<Rightarrow> meds \<Rightarrow> (uptr \<times> meds) res" where
  "meds_Reallocate c t old_ptr new_size s =
     check (old_ptr \<noteq> 0 \<and> new_size \<noteq> 0) ''old_ptr && new_size'' (
     let meta_beg = old_ptr - kMetaSize in
     bindr (meds_Allocate c t new_size 8 s) (\<lambda>(new_ptr, s1).
     if new_ptr \<noteq> 0 then
       bindr (vload (avm (prim s1)) meta_beg 8) (\<lambda>user_requested_size.
       let memcpy_size = Min2 new_size user_requested_size in
       bindr (on_vm (vcopy new_ptr old_ptr (unat memcpy_size)) s1) (\<lambda>s2.
       bindr (meds_Deallocate c t old_ptr 0 s2) (\<lambda>s3. Inr (new_ptr, s3))))
     else Inr (new_ptr, s1)))"

definition CallocShouldReturnNullDueToOverflow :: "uptr \<Rightarrow> uptr \<Rightarrow> bool" where
  "CallocShouldReturnNullDueToOverflow sz n =
     (if sz = 0 then False else let m = - 1 in m div sz < n)"

definition meds_Calloc :: "cfg \<Rightarrow> nat option \<Rightarrow> uptr \<Rightarrow> uptr \<Rightarrow> meds \<Rightarrow> (uptr \<times> meds) res" where
  "meds_Calloc c t nmemb sz s =
     (if CallocShouldReturnNullDueToOverflow sz nmemb then bindr (comb_null_or_die s False) (\<lambda>r. Inr (r, s))
      else bindr (meds_Allocate c t (nmemb * sz) 8 s) (\<lambda>(ptr, s1).
        if ptr \<noteq> 0 \<and> comb_FromPrimary ptr s1 then
          bindr (on_vm (vfill ptr 0 (unat (nmemb * sz))) s1) (\<lambda>s2. Inr (ptr, s2))
        else Inr (ptr, s1)))"

definition AllocationSize :: "uptr \<Rightarrow> meds \<Rightarrow> uptr res" where
  "AllocationSize p s = vload (avm (prim s)) (p - kMetaSize) 8"

section \<open>The entry points\<close>

definition InitializeAllocator :: "cfg \<Rightarrow> bool \<Rightarrow> meds \<Rightarrow> meds res" where
  "InitializeAllocator c may_null s = comb_Init c may_null s"

definition meds_memalign :: "cfg \<Rightarrow> nat option \<Rightarrow> uptr \<Rightarrow> uptr \<Rightarrow> meds \<Rightarrow> (uptr \<times> meds) res" where
  "meds_memalign c t alignment sz s = meds_Allocate c t sz alignment s"

definition meds_free :: "cfg \<Rightarrow> nat option \<Rightarrow> uptr \<Rightarrow> meds \<Rightarrow> meds res" where
  "meds_free c t p s = meds_Deallocate c t p 0 s"

definition meds_sized_free :: "cfg \<Rightarrow> nat option \<Rightarrow> uptr \<Rightarrow> uptr \<Rightarrow> meds \<Rightarrow> meds res" where
  "meds_sized_free c t p sz s = meds_Deallocate c t p sz s"

definition meds_malloc :: "cfg \<Rightarrow> nat option \<Rightarrow> uptr \<Rightarrow> meds \<Rightarrow> (uptr \<times> meds) res" where
  "meds_malloc c t sz s = meds_Allocate c t sz 8 s"

definition meds_calloc :: "cfg \<Rightarrow> nat option \<Rightarrow> uptr \<Rightarrow> uptr \<Rightarrow> meds \<Rightarrow> (uptr \<times> meds) res" where
  "meds_calloc c t nmemb sz s = meds_Calloc c t nmemb sz s"

definition meds_realloc :: "cfg \<Rightarrow> nat option \<Rightarrow> uptr \<Rightarrow> uptr \<Rightarrow> meds \<Rightarrow> (uptr \<times> meds) res" where
  "meds_realloc c t p sz s =
     (if p = 0 then meds_Allocate c t sz 8 s
      else if sz = 0 then bindr (meds_Deallocate c t p 0 s) (\<lambda>s1. Inr (0, s1))
      else meds_Reallocate c t p sz s)"

definition meds_valloc :: "cfg \<Rightarrow> nat option \<Rightarrow> uptr \<Rightarrow> meds \<Rightarrow> (uptr \<times> meds) res" where
  "meds_valloc c t sz s = meds_Allocate c t sz GetPageSizeCached s"

definition meds_pvalloc :: "cfg \<Rightarrow> nat option \<Rightarrow> uptr \<Rightarrow> meds \<Rightarrow> (uptr \<times> meds) res" where
  "meds_pvalloc c t sz s =
     bindr (RoundUpTo sz GetPageSizeCached) (\<lambda>sz1.
     let sz2 = (if sz1 = 0 then GetPageSizeCached else sz1) in meds_Allocate c t sz2 GetPageSizeCached s)"

definition meds_posix_memalign :: "cfg \<Rightarrow> nat option \<Rightarrow> uptr \<Rightarrow> uptr \<Rightarrow> uptr \<Rightarrow> meds \<Rightarrow> (int \<times> meds) res" where
  "meds_posix_memalign c t memptr alignment sz s =
     bindr (meds_Allocate c t sz alignment s) (\<lambda>(ptr, s1).
     check (IsAligned ptr alignment) ''IsAligned((uptr)ptr, alignment)'' (
     bindr (on_vm (\<lambda>m. vstore m memptr 8 ptr) s1) (\<lambda>s2. Inr (0, s2))))"

text \<open>\<open>check_size\<close> is the flag \<^verbatim>\<open>check_malloc_usable_size\<close>.\<close>

definition meds_malloc_usable_size :: "cfg \<Rightarrow> bool \<Rightarrow> uptr \<Rightarrow> meds \<Rightarrow> uptr res" where
  "meds_malloc_usable_size c check_size ptr s =
     (if ptr = 0 then Inr 0
      else bindr (AllocationSize ptr s) (\<lambda>usable_size.
        if check_size \<and> usable_size = 0 then error_report c False ''bad-malloc_usable_size'' (Inr usable_size)
        else Inr usable_size))"

definition meds_mz_size :: "uptr \<Rightarrow> meds \<Rightarrow> uptr res" where
  "meds_mz_size ptr s = AllocationSize ptr s"

definition meds_PointerIsMine :: "uptr \<Rightarrow> meds \<Rightarrow> bool res" where
  "meds_PointerIsMine addr s = comb_PointerIsMine addr s"

end
