(* ===== verification/MedsMalloc.thy ===== *)
theory MedsMalloc
  imports Meds AliasDead
begin

text \<open>
  What \<^verbatim>\<open>malloc\<close> and \<^verbatim>\<open>free\<close> do to the shadow. A new block is poisoned but for the bytes that were asked for; a free
  clears the shadow of whole shadow pages, that of neighbours included.
\<close>

section \<open>The overflow check of calloc\<close>

lemma calloc_overflow_ok: "CallocShouldReturnNullDueToOverflow sz n \<longleftrightarrow> 2 ^ 64 \<le> unat sz * unat n"
proof (cases "sz = 0")
  case True
  then show ?thesis by (simp add: CallocShouldReturnNullDueToOverflow_def)
next
  case False
  then have pos: "0 < unat sz" by (simp add: unat_gt_0)
  have last: "2 ^ 64 - 1 < k \<longleftrightarrow> 2 ^ 64 \<le> k" for k :: nat by auto
  have "CallocShouldReturnNullDueToOverflow sz n \<longleftrightarrow> (2 ^ 64 - 1) div unat sz < unat n"
    using False by (simp add: CallocShouldReturnNullDueToOverflow_def word_less_nat_alt unat_div_distrib unsigned_minus_1_eq_mask mask_eq_exp_minus_1)
  also have "\<dots> \<longleftrightarrow> 2 ^ 64 - 1 < unat n * unat sz" by (rule div_less_iff_less_mult [OF pos])
  also have "\<dots> \<longleftrightarrow> 2 ^ 64 \<le> unat sz * unat n" unfolding mult.commute [of "unat n"] by (rule last)
  finally show ?thesis .
qed

section \<open>Pages that become redzone\<close>

text \<open>\<open>red Q p p'\<close>: the pages \<open>Q\<close> are poisoned, the shadow of all others is as before.\<close>

definition red :: "nat set \<Rightarrow> pst \<Rightarrow> pst \<Rightarrow> bool" where
  "red Q p p' \<longleftrightarrow> can_poison_memory p' = can_poison_memory p \<and> (\<forall>x. shadow p' (MEM_TO_SHADOW x) =
     (if page_of x \<in> Q then kAsanHeapLeftRedzoneMagic else shadow p (MEM_TO_SHADOW x)))"

lemma red_refl: "red {} p p"
  by (simp add: red_def)

lemma red_trans: "red Q p p' \<Longrightarrow> red Q' p' p'' \<Longrightarrow> red (Q \<union> Q') p p''"
  by (simp add: red_def)

lemma PoisonShadow_returns:
  assumes "PoisonShadow c addr sz v p = Inr p'" "cfg_ok c" "can_poison_memory p" "unat sz mod 8 = 0"
    "0 < unat sz" "unat addr + unat sz \<le> 2 ^ 63"
  shows "p' = fill_shadow (MEM_TO_SHADOW addr) v (drop_bit 3 sz) p" "unat addr mod 8 = 0"
    "AddrIsInMem c addr" "AddrIsInMem c (addr + sz - 8)"
proof -
  show al: "unat addr mod 8 = 0" and m: "AddrIsInMem c addr" "AddrIsInMem c (addr + sz - 8)"
    using assms(1,3) unfolding PoisonShadow_def CanPoisonMemory_def check_Inr bindr_Inr granularity aligned_granularity
    by (simp_all add: check_Inr)
  show "p' = fill_shadow (MEM_TO_SHADOW addr) v (drop_bit 3 sz) p"
    using trans [OF assms(1) [symmetric] PoisonShadow_run [OF assms(2,3) al assms(4,5,6) m]] by (rule sum.inject(2) [THEN iffD1])
qed

lemma OnMap_red:
  assumes "OnMap (AsanOnMap cf) b n s = Inr s'" "cfg_ok cf" "can_poison_memory (poison (client s))"
    "unat b mod 4096 = 0" "unat n = k * 4096" "0 < k" "unat b + unat n \<le> 2 ^ 63"
  shows "red {page_of b ..< page_of b + k} (poison (client s)) (poison (client s'))"
proof -
  have "unat n = 8 * (k * 512)" using assms(5) by simp
  then have n8: "unat n mod 8 = 0" by simp
  have b8: "unat b mod 8 = 0" using assms(4) mod_mod_cancel [of 8 4096 "unat b"] by simp
  obtain p where P: "PoisonShadow cf b n kAsanHeapLeftRedzoneMagic (poison (client s)) = Inr p" and s': "poison (client s') = p"
    using assms(1) by (auto simp: OnMap_def AsanOnMap_def Let_def res_simps)
  have p: "p = fill_shadow (MEM_TO_SHADOW b) kAsanHeapLeftRedzoneMagic (drop_bit 3 n) (poison (client s))"
    using PoisonShadow_returns(1) [OF P assms(2,3) n8 _ assms(7)] assms(5,6) by simp
  obtain d where d: "unat b = 4096 * d" using assms(4) by (auto simp: mod_eq_0_iff_dvd elim!: dvdE)
  have "unat b \<le> unat x \<and> unat x < unat b + unat n \<longleftrightarrow> page_of x \<in> {page_of b ..< page_of b + k}" for x
  proof -
    have "d \<le> unat x div 4096 \<longleftrightarrow> 4096 * d \<le> unat x" by (simp add: less_eq_div_iff_mult_less_eq mult.commute)
    moreover have "unat x div 4096 < d + k \<longleftrightarrow> unat x < 4096 * d + k * 4096"
      by (simp add: div_less_iff_less_mult algebra_simps)
    ultimately show ?thesis by (simp add: page_of_def d assms(5))
  qed
  then show ?thesis
    using fill_aligned [OF b8 n8 assms(7), of kAsanHeapLeftRedzoneMagic "poison (client s)"]
    unfolding red_def s' p by simp
qed

lemma client_steps:
  "InternalAlloc s = Inr (v, s') \<Longrightarrow> client s' = client s" "new_vpage r s = Inr (v, s') \<Longrightarrow> client s' = client s"
  "vlist_push_back p v s = Inr s' \<Longrightarrow> client s' = client s" "vlist_remove p v s = Inr s' \<Longrightarrow> client s' = client s"
  "client (register_page r v p s) = client s" "client (set_free_list t c fl s) = client s" "client (set_cache t c pc s) = client s"
  "MmapAliasing va n s = (r, s') \<Longrightarrow> client s' = client s" "MremapAliasing o1 va s = (r, s') \<Longrightarrow> client s' = client s"
  by (auto simp: InternalAlloc_def new_vpage_def vlist_push_back_def vlist_remove_def register_page_def
      set_free_list_def set_cache_def MmapAliasing_def MremapAliasing_def res_simps split: if_splits prod.splits)

lemma client_Refill: "Refill pr t c sz s = Inr s' \<Longrightarrow> client s' = client s"
  by (auto simp: Refill_def GetFromAllocator_def GetRegionInfo_def Let_def res_simps client_steps split: if_splits)

lemma client_reuse: "reuse_chunk ch vb s = Inr s' \<Longrightarrow> client s' = client s"
  by (auto simp: reuse_chunk_def Let_def res_simps client_steps(5) split: if_splits prod.splits dest!: client_steps(2,3,8,9))

lemma client_fresh: "fresh_chunk t c vb off cs s = Inr s' \<Longrightarrow> client s' = client s"
  by (auto simp: fresh_chunk_def Let_def res_simps client_steps(5,6) split: prod.splits dest!: client_steps(1,2,8))

lemma client_AllocateChunk: "AllocateChunk pr t c va sz s = Inr s' \<Longrightarrow> client s' = client s"
  unfolding AllocateChunk_def Let_def
  by (auto split: option.splits dest!: client_reuse client_fresh simp: client_steps(6))

lemma client_DeallocateChunk: "DeallocateChunk t c va sz s = Inr s' \<Longrightarrow> client s' = client s"
  by (auto simp: DeallocateChunk_def Let_def res_simps client_steps(6) dest!: client_steps(4))

lemma client_if: "(if b then f else Inr s) = Inr s' \<Longrightarrow> (f = Inr s' \<Longrightarrow> client s' = client s) \<Longrightarrow> client s' = client s"
  by (cases b) auto

lemma client_Deallocate: "Deallocate pr t c p s = Inr s' \<Longrightarrow> client s' = client s"
  unfolding Deallocate_def Let_def bindr_Inr case_prod_unfold
  by (elim exE conjE, drule_tac client_if, erule client_DeallocateChunk,
      drule_tac client_if, erule client_DeallocateChunk) auto

text \<open>An allocation poisons the pages of the new block and no others.\<close>

lemma red_Allocate:
  assumes A: "Allocate AP64 (AsanOnMap cf) t c rz s = Inr (p, s')" and c: "valid_class c" and pb: "unat p \<le> 2 ^ 50"
    and cf: "cfg_ok cf" and cp: "can_poison_memory (poison (client s))"
  shows "red (block_pages (p, c)) (poison (client s)) (poison (client s'))"
proof -
  let ?sz = "Size DefaultSizeClassMap c" and ?on = "AsanOnMap cf"
  let ?H = "fst ` set (head_chunk (unat p) (unat ?sz))" and ?M = "mid_pages (unat p) (unat ?sz)"
    and ?T = "fst ` set (tail_chunk (unat p) (unat ?sz))"
  have n: "0 < unat ?sz" "unat ?sz \<le> 2 ^ 20"
    using csize_bounds [OF c] by (simp_all add: csize_def)
  have sm: "SizeMap AP64 = DefaultSizeClassMap" by (simp add: AP64_def)
  obtain s0 s1 s2 s3 where R: "Refill AP64 t c ?sz s = Inr s0"
    and R1: "(if p - RoundDownTo p GetPageSizeCached \<noteq> 0 then
        bindr (AllocateChunk AP64 t c p (w_head p ?sz) s0) (\<lambda>s'. OnMap ?on (RoundDownTo p GetPageSizeCached) GetPageSizeCached s')
      else Inr s0) = Inr s1"
    and R2: "(if ?sz - w_head p ?sz \<ge> GetPageSizeCached then
        check (IsAligned (p + w_head p ?sz) GetPageSizeCached) ''IsAligned(vaddr, page_size_)'' (
        bindr (OnMap ?on (p + w_head p ?sz) (w_mid p ?sz) s1) (\<lambda>s'.
        bindr (MmapFixedOrDie (p + w_head p ?sz) (w_mid p ?sz) (avm s')) (\<lambda>(p, m). Inr (s'\<lparr>avm := m\<rparr>))))
      else Inr s1) = Inr s2"
    and R3: "(if w_tail p ?sz > 0 then
        check (IsAligned (p + w_head p ?sz + w_mid p ?sz) GetPageSizeCached) ''IsAligned(vaddr, page_size_)'' (
        bindr (OnMap ?on (p + w_head p ?sz + w_mid p ?sz) GetPageSizeCached s2) (\<lambda>s'.
          AllocateChunk AP64 t c (p + w_head p ?sz + w_mid p ?sz) (w_tail p ?sz) s'))
      else Inr s2) = Inr s3"
    and s': "s' = set_cache t c ((caches s3 t c)\<lparr>lower_bound := lower_bound (caches s3 t c) + (?sz + rz)\<rparr>) s3"
    by (rule Allocate_stages [OF A, of ?sz]) (simp add: sm, rule that)
  have ps: "unat GetPageSizeCached = 1 * 4096" by (simp add: GetPageSizeCached_def)
  have al: "unat x mod 4096 = 0" if "IsAligned x GetPageSizeCached" for x
    using that unfolding page_size_pow2 IsAligned_iff_dvd by (simp add: mod_eq_0_iff_dvd)
  have c0: "client s0 = client s" by (rule client_Refill [OF R])
  have h: "red ?H (poison (client s)) (poison (client s1))"
  proof (cases "unat p mod 4096 = 0")
    case True
    then have "s1 = s0" "?H = {}" using R1 head_stage_iff [of p] by (simp_all add: head_chunk_aligned)
    then show ?thesis by (simp add: c0 red_refl)
  next
    case False
    then obtain s' where a: "AllocateChunk AP64 t c p (w_head p ?sz) s0 = Inr s'"
      and o: "OnMap ?on (RoundDownTo p GetPageSizeCached) GetPageSizeCached s' = Inr s1"
      using R1 head_stage_iff [of p] by (auto simp: res_simps)
    have cl: "client s' = client s" using client_AllocateChunk [OF a] c0 by simp
    have b: "unat (RoundDownTo p GetPageSizeCached) = unat p div 4096 * 4096"
      unfolding page_size_pow2 unat_RoundDownTo by simp
    then have pg: "page_of (RoundDownTo p GetPageSizeCached) = page_of p" by (simp add: page_of_def)
    have H: "?H = {page_of p ..< page_of p + 1}" using head_chunk_mod [OF False n(1)] by auto
    have "unat p div 4096 * 4096 \<le> 2 ^ 50" using div_times_less_eq_dividend [of "unat p" 4096] pb by simp
    then have "unat (RoundDownTo p GetPageSizeCached) + unat GetPageSizeCached \<le> 2 ^ 63" unfolding b ps by simp
    moreover have "unat (RoundDownTo p GetPageSizeCached) mod 4096 = 0" unfolding b by simp
    ultimately show ?thesis using OnMap_red [OF o cf _ _ ps] cp H unfolding cl pg by simp
  qed
  have cp1: "can_poison_memory (poison (client s1))" using h cp by (simp add: red_def)
  have m: "red ?M (poison (client s1)) (poison (client s2))"
  proof (cases "GetPageSizeCached \<le> ?sz - w_head p ?sz")
    case False
    then have "mid_len (unat p) (unat ?sz) = 0"
      by (simp add: word_le_nat_alt unat_w_rest unat_page_size mid_len_def)
    then show ?thesis using R2 False by (simp add: mid_pages_def red_refl)
  next
    case True
    let ?va = "p + w_head p ?sz"
    define k where "k = mid_len (unat p) (unat ?sz) div 4096"
    from R2 True obtain s' x m where va: "IsAligned ?va GetPageSizeCached" and o: "OnMap ?on ?va (w_mid p ?sz) s1 = Inr s'"
      and s2: "s2 = s'\<lparr>avm := m\<rparr>"
      by (auto simp: res_simps split: prod.splits)
    have mk: "unat (w_mid p ?sz) = k * 4096" by (simp add: unat_w_mid k_def mid_len_def)
    have k0: "0 < k" using True by (simp add: k_def mid_len_def word_le_nat_alt unat_w_rest unat_page_size div_greater_zero_iff)
    have "unat ?va + unat (w_mid p ?sz) \<le> 2 ^ 63"
      using head_len_le [of "unat p" "unat ?sz"] mid_len_le [of "unat p" "unat ?sz"] pb n(2)
      by (simp add: unat_w_addr(1) [OF pb n(2)] unat_w_mid)
    moreover have "{page_of ?va ..< page_of ?va + k} = ?M"
      by (simp add: mid_pages_def page_of_def unat_w_addr(1) [OF pb n(2)] k_def)
    ultimately show ?thesis using OnMap_red [OF o cf cp1 al [OF va] mk k0] by (simp add: s2)
  qed
  have cp2: "can_poison_memory (poison (client s2))" using m cp1 by (simp add: red_def)
  have t: "red ?T (poison (client s2)) (poison (client s3))"
  proof (cases "tail_len (unat p) (unat ?sz) = 0")
    case True
    then have "\<not> w_tail p ?sz > 0" by (simp add: word_less_nat_alt unat_w_tail)
    then show ?thesis using R3 True by (simp add: tail_chunk_def red_refl)
  next
    case False
    let ?va = "p + w_head p ?sz + w_mid p ?sz"
    have "w_tail p ?sz > 0" using False by (simp add: word_less_nat_alt unat_w_tail)
    then obtain s' where va: "IsAligned ?va GetPageSizeCached" and o: "OnMap ?on ?va GetPageSizeCached s2 = Inr s'"
      and a: "AllocateChunk AP64 t c ?va (w_tail p ?sz) s' = Inr s3"
      using R3 by (auto simp: res_simps)
    have "tail_chunk (unat p) (unat ?sz) = [(page_of ?va, 0, tail_len (unat p) (unat ?sz))]"
      using False pb n by (simp add: tail_chunk_def page_of_def unat_w_addr(2))
    then have T: "?T = {page_of ?va ..< page_of ?va + 1}" by auto
    have "unat ?va + unat GetPageSizeCached \<le> 2 ^ 63"
      using head_len_le [of "unat p" "unat ?sz"] mid_len_le [of "unat p" "unat ?sz"] pb n(2)
      by (simp add: unat_w_addr(2) [OF pb n(2)] unat_page_size)
    then show ?thesis using OnMap_red [OF o cf cp2 al [OF va] ps] client_AllocateChunk [OF a] unfolding T by simp
  qed
  have "block_pages (p, c) = ?H \<union> ?M \<union> ?T"
    using pages_of_block(1) [OF n(1), of "unat p"] by (simp add: csize_def)
  then show ?thesis using red_trans [OF red_trans [OF h m] t] by (simp add: s' client_steps(7))
qed

section \<open>The user memory\<close>

text \<open>The last steps of \<^verbatim>\<open>Allocate\<close>: the granules of the user memory become addressable, the last one up to the size.\<close>

lemma unpoison_user_exact:
  assumes U: "unpoison_user cf u sz p = Inr p'" and cf: "cfg_ok cf" and cp: "can_poison_memory p"
    and u: "unat u mod 8 = 0" and b: "unat u + unat sz \<le> 2 ^ 62"
  shows "can_poison_memory p'"
    "unat u \<le> unat y \<Longrightarrow> unat y < unat u + (unat sz + 7) div 8 * 8 \<Longrightarrow>
      AddressIsPoisoned (shadow p') y \<longleftrightarrow> unat u + unat sz \<le> unat y"
    "\<not> (unat u \<le> unat y \<and> unat y < unat u + (unat sz + 7) div 8 * 8) \<Longrightarrow>
      shadow p' (MEM_TO_SHADOW y) = shadow p (MEM_TO_SHADOW y)"
proof -
  define d where "d = RoundDownTo sz SHADOW_GRANULARITY"
  have ud: "unat d = unat sz div 8 * 8" by (simp add: d_def granularity down8)
  obtain a where a: "unat u = 8 * a" using u by (auto simp: mod_eq_0_iff_dvd elim!: dvdE)
  obtain q r where q: "unat sz = 8 * q + r" "r < 8"
    by (rule that [of "unat sz div 8" "unat sz mod 8"]) simp_all
  have ud': "unat d = 8 * q" using ud q by simp
  have up: "(unat sz + 7) div 8 * 8 = 8 * q + (if r = 0 then 0 else 8)" using up_down8 [of "unat sz"] q by auto
  obtain p1 where p1: "(if d \<noteq> 0 then PoisonShadow cf u d 0 p else Inr p) = Inr p1"
    and p': "(if sz \<noteq> d \<and> CanPoisonMemory p1 then bindr (MemToShadow cf (u + d))
        (\<lambda>a. Inr (store_shadow a (ucast (sz AND (SHADOW_GRANULARITY - 1))) p1)) else Inr p1) = Inr p'"
    using U unfolding unpoison_user_def Let_def d_def [symmetric] bindr_Inr by blast
  have sh1: "shadow p1 (MEM_TO_SHADOW y) = (if unat u \<le> unat y \<and> unat y < unat u + 8 * q then 0 else shadow p (MEM_TO_SHADOW y))"
    and cp1: "can_poison_memory p1" for y
  proof -
    have "p1 = fill_shadow (MEM_TO_SHADOW u) 0 (drop_bit 3 d) p \<and> d \<noteq> 0 \<or> p1 = p \<and> d = 0"
    proof (cases "d = 0")
      case False
      then have "PoisonShadow cf u d 0 p = Inr p1" using p1 by simp
      moreover have "0 < unat d" using False by (simp add: unat_gt_0)
      ultimately show ?thesis using PoisonShadow_returns(1) [of cf u d 0 p p1] False b ud' q cf cp by simp
    qed (use p1 in simp)
    then show "can_poison_memory p1" using cp by auto
    from \<open>p1 = _ \<and> d \<noteq> 0 \<or> _\<close> show "shadow p1 (MEM_TO_SHADOW y) =
        (if unat u \<le> unat y \<and> unat y < unat u + 8 * q then 0 else shadow p (MEM_TO_SHADOW y))"
      using fill_aligned [of u d 0 p y] u ud' b q by auto
  qed
  have eq: "sz \<noteq> d \<longleftrightarrow> r \<noteq> 0" using ud' q by (auto simp: word_unat_eq_iff)
  have last: "unat (u + d) = 8 * (a + q)" using b a ud' q by (subst unat_add_nowrap) simp_all
  have v: "ucast (sz AND (SHADOW_GRANULARITY - 1)) = (ucast (sz AND 7) :: u8)" by (simp add: granularity)
  have r: "unat sz mod 8 = r" using q by simp
  have sh': "shadow p' (MEM_TO_SHADOW y) = (if r \<noteq> 0 \<and> unat y div 8 = a + q then ucast (sz AND 7) else shadow p1 (MEM_TO_SHADOW y))"
    and cp': "can_poison_memory p'" for y
  proof -
    have "p' = (if r \<noteq> 0 then store_shadow (MEM_TO_SHADOW (u + d)) (ucast (sz AND 7)) p1 else p1)"
      using p' cp1 unfolding eq v by (auto simp: CanPoisonMemory_def MemToShadow_def res_simps split: if_splits)
    then show "shadow p' (MEM_TO_SHADOW y) = (if r \<noteq> 0 \<and> unat y div 8 = a + q then ucast (sz AND 7) else shadow p1 (MEM_TO_SHADOW y))"
      "can_poison_memory p'" using cp1 by (simp_all add: MEM_TO_SHADOW_eq last)
  qed
  show "can_poison_memory p'" by (rule cp')
  show "shadow p' (MEM_TO_SHADOW y) = shadow p (MEM_TO_SHADOW y)"
    if "\<not> (unat u \<le> unat y \<and> unat y < unat u + (unat sz + 7) div 8 * 8)"
    using that unfolding sh' sh1 up a by (auto split: if_splits)
  show "AddressIsPoisoned (shadow p') y \<longleftrightarrow> unat u + unat sz \<le> unat y"
    if y: "unat u \<le> unat y" "unat y < unat u + (unat sz + 7) div 8 * 8"
  proof (cases "unat y div 8 = a + q")
    case True
    then have r0: "r \<noteq> 0" using y unfolding up a by (auto split: if_splits)
    have "unat y = 8 * (a + q) + unat y mod 8" using True by (metis mult_div_mod_eq)
    then show ?thesis unfolding AddressIsPoisoned_iff sh' using True r0 poisoned_at_offset [of sz "unat y mod 8"] a q r by auto
  next
    case False
    then have "unat y < unat u + 8 * q" using y unfolding up a by (auto split: if_splits)
    then show ?thesis unfolding AddressIsPoisoned_iff sh' sh1 using False y(1) q by simp
  qed
qed

section \<open>A new block\<close>

lemma lay_outD:
  assumes "lay_out cf b n sz (2 ^ k) s = Inr (r, s')" and k: "k < 50" and b: "unat b \<le> 2 ^ 50"
  shows "unat b + 16 \<le> unat r" "2 ^ k dvd unat r" "unat r \<le> 2 ^ 52" "r + sz \<le> b + n"
    "unpoison_user cf r sz (poison (client (prim s))) = Inr (poison (client (prim s')))"
    "abounds (prim s') = abounds (prim s)"
proof -
  have bm: "unat (b + 16) = unat b + 16" using b by (subst unat_add_nowrap) simp_all
  have le: "unat (b + 16) + 2 ^ k \<le> 2 ^ 51 + 2 ^ 20"
    unfolding bm using b power_increasing [of k 50 "2::nat"] k by (auto intro: order_trans)
  let ?r = "if \<not> IsAligned (b + kMetaSize) (2 ^ k) then round_up (b + kMetaSize) (2 ^ k) else b + kMetaSize"
  obtain s1 s2 where r: "r = ?r" and c: "r + sz \<le> b + n" and v1: "on_vm (\<lambda>m. vstore m (r - kMetaSize) 8 sz) s = Inr s1"
    and v2: "on_vm (\<lambda>m. vstore m (r - kMetaSize + 8) 8 b) s1 = Inr s2"
    and u: "on_poison (unpoison_user cf r sz) s2 = Inr s'"
  proof -
    have "(if \<not> IsAligned (b + kMetaSize) (2 ^ k) then RoundUpTo (b + kMetaSize) (2 ^ k) else Inr (b + kMetaSize)) = Inr ?r"
      by (simp add: RoundUpTo_def IsPowerOfTwo_pow2)
    then show thesis using assms(1) that unfolding lay_out_def Let_def by (auto simp: res_simps)
  qed
  show "r + sz \<le> b + n" by (rule c)
  have k': "k < 64" using k by simp
  have le': "unat (b + 16) + 2 ^ k \<le> 2 ^ 64" using le by simp
  have m: "kMetaSize = 16" by (simp add: kMetaSize_def)
  show "unat b + 16 \<le> unat r" using round_up_ge [OF k' le'] unfolding r m by (simp add: bm)
  show "2 ^ k dvd unat r" using round_up_aligned unfolding r m IsAligned_iff_dvd [symmetric] by simp
  show "unat r \<le> 2 ^ 52"
    using round_up_less [OF k' le'] le b bm unfolding r m by (cases "IsAligned (b + 16) (2 ^ k)") simp_all
  have c2: "client (prim s2) = client (prim s)" "abounds (prim s2) = abounds (prim s)"
    using v1 v2 by (auto simp: on_vm_def res_simps abounds_def)
  show "unpoison_user cf r sz (poison (client (prim s))) = Inr (poison (client (prim s')))"
    "abounds (prim s') = abounds (prim s)"
    using u c2 by (auto simp: on_poison_def res_simps abounds_def)
qed

lemma comb_Allocate_prim:
  assumes "comb_Allocate cf t n 8 rz False s = Inr (r, s1)" "0 < unat n" "unat n \<le> 2 ^ 17"
  obtains c q where "valid_class c" "unat n \<le> csize c" "Allocate AP64 (AsanOnMap cf) t c rz (prim s) = Inr (r, q)"
    "s1 = s\<lparr>prim := q\<rparr>"
proof -
  have n0: "n \<noteq> 0" using assms(2) by auto
  have km: "unat (kMaxSize (SizeMap AP64)) = 2 ^ 17"
    by (simp add: kMaxSize_def AP64_def DefaultSizeClassMap_def push_bit_eq_mult unat_pow2)
  have ca: "CanAllocate AP64 n 8" using assms(3) by (simp add: CanAllocate_def word_le_nat_alt km)
  have "unat (n + 8) = unat n + 8" using assms(3) by (subst unat_add_nowrap) simp_all
  then have nov: "\<not> n + 8 < n" by (simp add: word_less_nat_alt)
  have "sc_wf (SizeMap AP64)" by (simp add: AP64_def default_wf)
  moreover have "0 < n" "n \<le> kMaxSize (SizeMap AP64)" using n0 assms(3) km by (simp_all add: word_gt_0 word_le_nat_alt)
  ultimately obtain c where c: "ClassID (SizeMap AP64) n = Inr c" "0 < c" "c < kNumClasses (SizeMap AP64)" "n \<le> Size (SizeMap AP64) c"
    using ClassID_fits by blast
  have sm: "SizeMap AP64 = DefaultSizeClassMap" by (simp add: AP64_def)
  show thesis
    using assms(1) n0 nov ca c that [of c]
    by (auto simp: comb_Allocate_def comb_PrimAllocate_def Let_def res_simps sm valid_class_def csize_def word_le_nat_alt
        split: prod.splits)
qed

text \<open>
  The bytes that a request takes from its block: the size (at least 1) rounded up to the alignment (at least 8), 16 bytes of
  metadata, and once more the alignment when it is above 8. The largest size class has \<open>2 ^ 17\<close> bytes, so the primary allocator
  serves requests up to that need.
\<close>

definition need :: "nat \<Rightarrow> nat \<Rightarrow> nat" where
  "need sz al = (let a = max 8 al in (max 1 sz + (a - 1)) div a * a + 16 + (if a > 8 then a else 0))"

lemma malloc_shadow_ok:
  assumes v: "virt (prim s) bs" and cf: "cfg_ok cf" and cp: "can_poison_memory (poison (client (prim s)))"
    and A: "meds_Allocate cf t sz al s = Inr (r, s')" and b: "need (unat sz) (unat al) \<le> 2 ^ 17"
  defines "n \<equiv> max 1 (unat sz)" and "Sh \<equiv> \<lambda>s. shadow (poison (client (prim s)))"
  shows "\<exists>p c. virt (prim s') ((p, c) # bs) \<and> unat p + 16 \<le> unat r \<and> unat r + n \<le> unat p + csize c \<and>
     max 8 (unat al) dvd unat r \<and>
     (\<forall>y. page_of y \<in> block_pages (p, c) \<longrightarrow> (AddressIsPoisoned (Sh s') y \<longleftrightarrow> \<not> (unat r \<le> unat y \<and> unat y < unat r + n))) \<and>
     (\<forall>y. page_of y \<notin> block_pages (p, c) \<longrightarrow> Sh s' (MEM_TO_SHADOW y) = Sh s (MEM_TO_SHADOW y))"
proof -
  define a where "a = (if al < SHADOW_GRANULARITY then SHADOW_GRANULARITY else al)"
  define z where "z = (if sz = 0 then 1 else sz)"
  have ua: "unat a = max 8 (unat al)" by (simp add: a_def granularity word_less_nat_alt)
  have uz: "unat z = n" by (auto simp: z_def n_def max_def unat_eq_zero) (metis One_nat_def unat_eq_zero less_one not_less)
  have nd: "need (unat sz) (unat al) = (n + (unat a - 1)) div unat a * unat a + 16 + (if unat a > 8 then unat a else 0)"
    by (simp add: need_def Let_def n_def ua)
  have "n \<le> (n + (unat a - 1)) div unat a * unat a" using nat_round_up_bounds [of "unat a" n] ua by simp
  then have nb: "n \<le> 2 ^ 17" "unat a \<le> 2 ^ 17" using b ua unfolding nd by (simp_all split: if_splits)
  have "IsPowerOfTwo a" using A by (simp add: meds_Allocate_def Let_def a_def [symmetric] check_Inr)
  moreover have "a \<noteq> 0" using ua by auto
  ultimately obtain k where k: "k < 64" "a = 2 ^ k" using power_of_two_pos by blast
  have uk: "2 ^ k = unat a" using k by (simp add: unat_pow2)
  have k50: "k < 50" using nb(2) uk power_increasing [of 50 k "2::nat"] by (cases "k < 50") simp_all
  have zk: "unat z + 2 ^ k \<le> 2 ^ 64" using nb uk uz by simp
  define R where "R = round_up z a"
  have R: "unat R < n + unat a" "n \<le> unat R" using round_up_less [OF k(1) zk] round_up_ge [OF k(1) zk] uk uz k by (simp_all add: R_def)
  define N where "N = (if a > SHADOW_GRANULARITY then R + kMetaSize + a else R + kMetaSize)"
  have Rm: "unat (R + kMetaSize) = unat R + 16" using R nb by (subst unat_add_nowrap) (simp_all add: kMetaSize_def)
  have Rn: "unat R = (n + (unat a - 1)) div unat a * unat a" using unat_round_up [OF k(1) zk] uk uz k by (simp add: R_def)
  have Nu: "unat N = unat R + 16 + (if unat a > 8 then unat a else 0)"
    using R nb Rm by (auto simp: N_def granularity word_less_nat_alt unat_add_nowrap)
  have N: "0 < unat N" "unat N \<le> 2 ^ 17" using Nu b unfolding nd Rn by auto
  have km: "unat (kMaxSize (SizeMap AP64)) = 2 ^ 17"
    by (simp add: kMaxSize_def AP64_def DefaultSizeClassMap_def push_bit_eq_mult unat_pow2)
  have ca: "CanAllocate AP64 N a" using N nb by (simp add: CanAllocate_def word_le_nat_alt km)
  have lim: "\<not> (z > kMaxAllowedMallocSize \<or> N > kMaxAllowedMallocSize)"
    using N nb uz by (simp add: word_less_nat_alt kMaxAllowedMallocSize_def push_bit_eq_mult unat_pow2)
  let ?rz = "RZLog2Size (ComputRZLog z)"
  have rz: "rz_ok ?rz" by (simp add: rz_ok_def RZLog2Size_def ComputRZLog_def)
  have RU: "RoundUpTo z a = Inr R" using k by (simp add: RoundUpTo_def IsPowerOfTwo_pow2 R_def)
  have NC: "(if \<not> CanAllocate AP64 N a then N + ?rz * 2 else N) = N" using ca by simp
  obtain p s1 where C: "comb_Allocate cf (cache_of t) N 8 ?rz False s = Inr (p, s1)"
    and rest: "(if p = 0 then bindr (comb_null_or_die s1 True) (\<lambda>r. Inr (r, s1))
      else bindr (poison_if_clean cf p s1) (\<lambda>s2. lay_out cf p N z a s2)) = Inr (r, s')"
    using A unfolding meds_Allocate_def Let_def a_def [symmetric] z_def [symmetric] RU bindr.simps N_def [symmetric] NC
    using lim by (auto simp: res_simps split: prod.splits)
  obtain c q where c: "valid_class c" "unat N \<le> csize c" and Al: "Allocate AP64 (AsanOnMap cf) (cache_of t) c ?rz (prim s) = Inr (p, q)"
    and s1: "s1 = s\<lparr>prim := q\<rparr>"
    by (rule comb_Allocate_prim [OF C N])
  have v1: "virt q ((p, c) # bs)" by (rule virt_Allocate [OF v c(1) rz Al])
  have "(p, c) \<in> set ((p, c) # bs)" by simp
  note B = virt_block [OF v1 this]
  have sp: "space_ok (NonConstSpaceBeg q)" by (rule virt_space [OF v1])
  have p0: "p \<noteq> 0" using B(4) sp by (auto simp: rbeg_def space_ok_def)
  note rd = red_Allocate [OF Al c(1) B(2) cf cp]
  have pin: "page_of p \<in> block_pages (p, c)" using csize_bounds [OF c(1)] by (simp add: page_of_def div_le_mono)
  have "shadow (poison (client q)) (MEM_TO_SHADOW p) \<noteq> 0" using rd pin by (simp add: red_def magic_defs)
  then have "poison_if_clean cf p s1 = Inr s1" by (simp add: poison_if_clean_def s1)
  then have L: "lay_out cf p N z (2 ^ k) s1 = Inr (r, s')" using rest p0 k by simp
  note D = lay_outD [OF L k50 B(2)]
  have cp1: "can_poison_memory (poison (client (prim s1)))" using rd cp by (simp add: red_def s1)
  have r8: "unat r mod 8 = 0"
  proof -
    have "8 dvd (2::nat) ^ k"
    proof -
      have "(2::nat) ^ 3 \<le> 2 ^ k" using ua uk by simp
      then have "3 \<le> k" by (rule power_le_imp_le_exp [rotated]) simp
      then show ?thesis using le_imp_power_dvd [of 3 k "2::nat"] by simp
    qed
    then show ?thesis using dvd_trans [OF _ D(2)] by (simp add: mod_eq_0_iff_dvd)
  qed
  have end1: "unat (r + z) = unat r + n" using D(3) nb uz by (subst unat_add_nowrap) simp_all
  have end2: "unat (p + N) = unat p + unat N" using B(2) N by (subst unat_add_nowrap) simp_all
  have fits: "unat r + n \<le> unat p + csize c" using D(4) c(2) by (simp add: word_le_nat_alt end1 end2)
  have n0: "0 < n" by (simp add: n_def)
  have bd: "unat r + unat z \<le> 2 ^ 62" using D(3) nb uz by simp
  note U = unpoison_user_exact [OF D(5) cf cp1 r8 bd, unfolded uz]
  have inside: "page_of y \<in> block_pages (p, c)" if "unat r \<le> unat y" "unat y < unat r + (n + 7) div 8 * 8" for y
  proof -
    obtain d where d: "unat r = 8 * d" using r8 by (auto simp: mod_eq_0_iff_dvd elim!: dvdE)
    obtain e f where e: "n = 8 * e + f" "f < 8" by (rule that [of "n div 8" "n mod 8"]) simp_all
    have up: "(n + 7) div 8 * 8 = 8 * e + (if f = 0 then 0 else 8)" using up_down8 [of n] e by auto
    have "unat y div 8 \<le> (unat r + n - 1) div 8"
    proof (cases "f = 0")
      case True
      then have "unat y \<le> unat r + n - 1" using that(2) up e by simp
      then show ?thesis by (rule div_le_mono)
    next
      case False
      then have "unat y < 8 * (d + e + 1)" using that(2) up d by simp
      then have "unat y div 8 < d + e + 1" by (simp add: div_less_iff_less_mult mult.commute)
      moreover have "d + e \<le> (unat r + n - 1) div 8" using False e d by (simp add: less_eq_div_iff_mult_less_eq)
      ultimately show ?thesis by simp
    qed
    then have "unat y div 8 div 512 \<le> (unat r + n - 1) div 8 div 512" by (rule div_le_mono)
    then have "unat y div 4096 \<le> (unat r + n - 1) div 4096" by (simp add: div_mult2_eq [symmetric])
    also have "\<dots> \<le> (unat p + csize c - 1) div 4096" using fits by (intro div_le_mono) simp
    finally show ?thesis using that(1) D(1) by (simp add: page_of_def div_le_mono)
  qed
  have old: "shadow (poison (client (prim s1))) (MEM_TO_SHADOW y) =
      (if page_of y \<in> block_pages (p, c) then kAsanHeapLeftRedzoneMagic else Sh s (MEM_TO_SHADOW y))" for y
    using rd by (simp add: red_def s1 Sh_def)
  have "AddressIsPoisoned (Sh s') y \<longleftrightarrow> \<not> (unat r \<le> unat y \<and> unat y < unat r + n)" if "page_of y \<in> block_pages (p, c)" for y
  proof (cases "unat r \<le> unat y \<and> unat y < unat r + (n + 7) div 8 * 8")
    case True
    then show ?thesis using U(2) [of y] by (auto simp: Sh_def)
  next
    case False
    have "n \<le> (n + 7) div 8 * 8" using nat_round_up_bounds [of 8 n] by simp
    then have "\<not> (unat r \<le> unat y \<and> unat y < unat r + n)" using False by linarith
    moreover have "Sh s' (MEM_TO_SHADOW y) = kAsanHeapLeftRedzoneMagic" using U(3) [OF False] old [of y] that by (simp add: Sh_def)
    ultimately show ?thesis by (simp add: AddressIsPoisoned_iff)
  qed
  moreover have "Sh s' (MEM_TO_SHADOW y) = Sh s (MEM_TO_SHADOW y)" if "page_of y \<notin> block_pages (p, c)" for y
  proof -
    have "\<not> (unat r \<le> unat y \<and> unat y < unat r + (n + 7) div 8 * 8)" using inside that by blast
    from U(3) [OF this] old [of y] that show ?thesis by (simp add: Sh_def del: block_pages.simps)
  qed
  moreover have "virt (prim s') ((p, c) # bs)" using v1 D(6) virt_same_bounds [of q] by (simp add: s1)
  ultimately show ?thesis using D(1,2) fits uk ua by metis
qed

section \<open>Freeing a block\<close>

lemma shadow_page_cond:
  "(x + 0x7fff8) * 4096 \<le> w + shadow_off \<longleftrightarrow> x \<le> w div 4096" "w + shadow_off < (x + 0x7fff8) * 4096 \<longleftrightarrow> w div 4096 < x"
  by (simp_all add: less_eq_div_iff_mult_less_eq div_less_iff_less_mult)

lemma UnmapShadow_exact:
  assumes U: "UnmapShadow addr n s = Inr s'" and b: "unat addr + unat n \<le> 2 ^ 47"
  shows "shadow (poison (client (prim s'))) (MEM_TO_SHADOW y) =
     (if unat addr div 32768 \<le> unat y div 32768 \<and> unat y div 32768 < ((unat addr + unat n) div 8 + 4095) div 4096
      then 0 else shadow (poison (client (prim s))) (MEM_TO_SHADOW y))"
proof -
  let ?b = "RoundDownTo (MEM_TO_SHADOW addr) GetPageSizeCached" and ?e = "round_up (MEM_TO_SHADOW (addr + n)) GetPageSizeCached"
  have so: "shadow_off = 4096 * 0x7fff8" by simp
  have un: "unat (addr + n) = unat addr + unat n" using b by (subst unat_add_nowrap) simp_all
  have e8: "(unat addr + unat n) div 8 \<le> 2 ^ 44" using div_le_mono [OF b, of 8] by simp
  have ub: "unat ?b = (unat addr div 8 div 4096 + 0x7fff8) * 4096"
    unfolding page_size_pow2 unat_RoundDownTo unat_MEM_TO_SHADOW
    using div_plus_div_distrib_dvd_right [of 4096 "shadow_off" "unat addr div 8"] by simp
  have "unat (MEM_TO_SHADOW (addr + n)) \<le> 2 ^ 45" using e8 by (simp add: unat_MEM_TO_SHADOW un)
  then have ue: "unat ?e = (((unat addr + unat n) div 8 + 4095) div 4096 + 0x7fff8) * 4096"
    using unat_page_round [of "MEM_TO_SHADOW (addr + n)"]
      div_plus_div_distrib_dvd_right [of 4096 "shadow_off" "(unat addr + unat n) div 8 + 4095"]
    by (simp add: unat_MEM_TO_SHADOW un ac_simps)
  let ?x = "unat addr div 8 div 4096" and ?z = "((unat addr + unat n) div 8 + 4095) div 4096"
  have "unat addr div 8 \<le> (unat addr + unat n) div 8" by (intro div_le_mono) simp
  then have xz: "?x \<le> ?z" by (intro div_le_mono) simp
  have zb: "?z \<le> 2 ^ 40" using e8 by (simp add: div_le_mono [THEN order_trans])
  have le: "?b \<le> ?e" using xz by (simp add: word_le_nat_alt ub ue)
  have N: "unat (?e - ?b) = (?z - ?x) * 4096"
    using xz by (simp add: unat_diff [OF le] ub ue algebra_simps diff_mult_distrib)
  have RU: "RoundUpTo (MEM_TO_SHADOW (addr + n)) GetPageSizeCached = Inr ?e" by (simp add: RoundUpTo_def page_is_power)
  have s': "poison (client (prim s')) = fill_shadow ?b 0 (?e - ?b) (poison (client (prim s)))"
    using U unfolding UnmapShadow_def Let_def RU bindr.simps
    by (auto simp: on_poison_def res_simps split: prod.splits)
  have sum: "unat ?b + unat (?e - ?b) = (?z + 0x7fff8) * 4096"
    unfolding N ub distrib_right [symmetric] using xz by simp
  have "unat ?b + unat (?e - ?b) \<le> 2 ^ 64" using zb by (simp add: sum)
  note M = memset_iff [OF this, of 0 "shadow (poison (client (prim s)))" "MEM_TO_SHADOW y"]
  have cond: "unat ?b \<le> unat (MEM_TO_SHADOW y) \<and> unat (MEM_TO_SHADOW y) < unat ?b + unat (?e - ?b)
      \<longleftrightarrow> ?x \<le> unat y div 8 div 4096 \<and> unat y div 8 div 4096 < ?z"
  proof -
    show ?thesis unfolding sum unfolding ub unat_MEM_TO_SHADOW shadow_page_cond ..
  qed
  show ?thesis unfolding s' store_fill_sel M cond by (simp add: div_mult2_eq [symmetric])
qed

lemma free_unpoisons_ok:
  assumes F: "meds_free cf t p s = Inr s'" and p: "p \<noteq> 0" and b: "vload (avm (prim s)) (p - 8) 8 = Inr b"
    and mine: "PointerIsMine AP64 (prim s) b" and n: "comb_GetActuallyAllocatedSize b s = Inr n" "8 \<le> unat n" "unat b + unat n \<le> 2 ^ 47"
    and y: "unat b div 32768 \<le> unat y div 32768" "unat y div 32768 \<le> (unat b + unat n - 8) div 32768"
  shows "\<not> AddressIsPoisoned (shadow (poison (client (prim s')))) y"
proof -
  have ba: "p - kMetaSize + 8 = p - 8" by (simp add: kMetaSize_def)
  obtain s1 where U: "UnmapShadow b n s = Inr s1" and D: "comb_Deallocate cf (cache_of t) b s1 = Inr s'"
    using F p b n(1) unfolding meds_free_def meds_Deallocate_def Let_def ba by (auto simp: res_simps)
  have sb: "NonConstSpaceBeg (prim s1) = NonConstSpaceBeg (prim s)"
    using U unfolding UnmapShadow_def Let_def on_poison_def bindr_Inr case_prod_beta by auto
  then have "PointerIsMine AP64 (prim s1) b = PointerIsMine AP64 (prim s) b" by (simp add: PointerIsMine_def SpaceEnd_def SpaceBeg_def)
  then have "client (prim s') = client (prim s1)"
    using D mine by (auto simp: comb_Deallocate_def res_simps split: if_splits dest: client_Deallocate)
  moreover have "unat y div 32768 < ((unat b + unat n) div 8 + 4095) div 4096"
  proof -
    obtain q where q: "unat b + unat n - 8 = q" "unat b + unat n = q + 8"
      by (rule that [of "unat b + unat n - 8"]) (use n(2) in simp_all)
    have e: "(q + 8) div 8 + 4095 = q div 8 + 4096" by simp
    have "unat y div 32768 \<le> q div 8 div 4096" using y(2) unfolding q by (simp add: div_mult2_eq [symmetric])
    also have "\<dots> < (q div 8 + 4096) div 4096" by simp
    finally show ?thesis unfolding q e .
  qed
  ultimately have "shadow (poison (client (prim s'))) (MEM_TO_SHADOW y) = 0"
    using UnmapShadow_exact [OF U n(3), of y] y(1) by simp
  then show ?thesis by (simp add: AddressIsPoisoned_iff)
qed

section \<open>The properties\<close>

text \<open>
  C3. A \<^verbatim>\<open>malloc\<close>, \<^verbatim>\<open>calloc\<close> or \<^verbatim>\<open>memalign\<close> that the primary allocator serves (its size, rounded up, with metadata
  and alignment is at most the \<open>2 ^ 17\<close> bytes of the largest class) gives aligned memory inside a
  block whose pages meet no other block, with room for the metadata before it; of the block's pages exactly
  the bytes asked for are addressable, and the shadow of every other page is as it was.
\<close>

theorem malloc_shadow:
  assumes "virt (prim s) bs" "cfg_ok cf" "can_poison_memory (poison (client (prim s)))"
    "meds_Allocate cf t sz al s = Inr (r, s')" "need (unat sz) (unat al) \<le> 2 ^ 17"
  shows "\<exists>p c. virt (prim s') ((p, c) # bs) \<and> unat p + 16 \<le> unat r \<and> unat r + max 1 (unat sz) \<le> unat p + csize c \<and>
     max 8 (unat al) dvd unat r \<and>
     (\<forall>y. page_of y \<in> block_pages (p, c) \<longrightarrow> (AddressIsPoisoned (shadow (poison (client (prim s')))) y
        \<longleftrightarrow> \<not> (unat r \<le> unat y \<and> unat y < unat r + max 1 (unat sz)))) \<and>
     (\<forall>y. page_of y \<notin> block_pages (p, c) \<longrightarrow>
        shadow (poison (client (prim s'))) (MEM_TO_SHADOW y) = shadow (poison (client (prim s))) (MEM_TO_SHADOW y))"
  by (rule malloc_shadow_ok [OF assms])

text \<open>
  C28. A \<^verbatim>\<open>free\<close> of a block of the primary allocator makes every address whose shadow lies in a shadow page of the
  block addressable: 32 KB of memory per page, with the redzones of neighbouring blocks that are still in use.
\<close>

theorem free_unpoisons:
  assumes "meds_free cf t p s = Inr s'" "p \<noteq> 0" "vload (avm (prim s)) (p - 8) 8 = Inr b" "PointerIsMine AP64 (prim s) b"
    "comb_GetActuallyAllocatedSize b s = Inr n" "8 \<le> unat n" "unat b + unat n \<le> 2 ^ 47"
    "unat b div 32768 \<le> unat y div 32768" "unat y div 32768 \<le> (unat b + unat n - 8) div 32768"
  shows "\<not> AddressIsPoisoned (shadow (poison (client (prim s')))) y"
  by (rule free_unpoisons_ok [OF assms])

text \<open>
  The overflow check of \<^verbatim>\<open>calloc\<close> is exact: it is true when the product does not fit a word, and only then.
\<close>

theorem calloc_overflow: "CallocShouldReturnNullDueToOverflow sz n \<longleftrightarrow> 2 ^ 64 \<le> unat sz * unat n"
  by (rule calloc_overflow_ok)

section \<open>A concrete run\<close>

definition pst0 :: pst where "pst0 = \<lparr>shadow = (\<lambda>a. 0), can_poison_memory = True\<rparr>"

definition meds0 :: meds where
  "meds0 = \<lparr>prim = start_ast 0x100000000000
       \<lparr>poison = pst0, thread_stats = \<lparr>mmaps = 0, mmaped = 0, munmaps = 0, munmaped = 0\<rparr>\<rparr>,
     sec = large_Init False, rstats = \<lparr>snext = (\<lambda>_. 0), sprev = (\<lambda>_. 0), stats = (\<lambda>_. stat_Init)\<rparr>, stats_obj = 16,
     comb_null = False\<rparr>"

lemma example_cfg_ok: "cfg_ok example_cfg"
proof -
  have "(0x1000 :: uptr) = 2 ^ 12" by simp
  then show ?thesis unfolding cfg_ok_def example_cfg_def by (auto intro!: exI [of _ 12])
qed

lemma example_mem: "AddrIsInMem example_cfg a \<longleftrightarrow> unat a < 0x7fff7fff \<or> 0x10007fff8000 \<le> unat a \<and> unat a \<le> 0x7fffffffffff"
  by (subst in_mem) (simp_all add: linux_layout_def example_cfg_def)

lemma poison_page: "can_poison_memory p \<Longrightarrow>
    PoisonShadow example_cfg 0x280000000000 0x1000 v p = Inr (fill_shadow 0x5007fff8000 v 0x200 p)"
  using PoisonShadow_run [OF example_cfg_ok, of p "0x280000000000" "0x1000" v]
  by (simp add: example_mem MEM_TO_SHADOW_def SHADOW_SCALE_def SHADOW_OFFSET_def)

lemma poison_block: "can_poison_memory p \<Longrightarrow>
    PoisonShadow example_cfg 0x280000000010 1000 v p = Inr (fill_shadow 0x5007fff8002 v 125 p)"
  using PoisonShadow_run [OF example_cfg_ok, of p "0x280000000010" "1000" v]
  by (simp add: example_mem MEM_TO_SHADOW_def SHADOW_SCALE_def SHADOW_OFFSET_def)

lemma class_1016: "ClassID DefaultSizeClassMap 0x3f8 = Inr 24"
  by code_simp

lemma default_max: "kMaxSize DefaultSizeClassMap = 0x20000"
  by code_simp

definition prim1 :: "(uptr \<times> meds_client ast) res" where
  "prim1 = Allocate AP64 (AsanOnMap example_cfg) 0 24 0x4000 (prim meds0)"

lemma prim1_ok: "case prim1 of Inl _ \<Rightarrow> False | Inr (r, q) \<Rightarrow> r = 0x280000000000 \<and>
    pages (avm q) 0x280000000 = Some (Shared 0) \<and> client q = (client (prim meds0))
      \<lparr>poison := fill_shadow 0x5007fff8000 0xfa 0x200 pst0, thread_stats := \<lparr>mmaps = 1, mmaped = 0x1000, munmaps = 0, munmaped = 0\<rparr>\<rparr>"
  by (simp add: prim1_def meds0_def AsanOnMap_def poison_page pst0_def kAsanHeapLeftRedzoneMagic_def run_defs run_ops)

text \<open>A store whose bytes are all mapped returns and changes no mapping.\<close>

lemma vstore_returns:
  "(\<And>i. i < n \<Longrightarrow> translate m (a + of_nat i) \<noteq> None) \<Longrightarrow> \<exists>m'. vstore m a n v = Inr m' \<and> pages m' = pages m"
proof (induction n arbitrary: m a v)
  case (Suc n)
  from Suc.prems [of 0] obtain b where b: "translate m a = Some b" by auto
  define m1 where "m1 = m\<lparr>frames := (frames m)(b := ucast v)\<rparr>"
  have s: "vstore8 m a (ucast v) = Inr m1" by (simp add: vstore8_def b m1_def)
  have "translate m1 (a + 1 + of_nat i) \<noteq> None" if "i < n" for i
    using Suc.prems [of "Suc i"] that by (simp add: translate_def m1_def add.assoc)
  from Suc.IH [OF this] show ?case by (simp add: s m1_def)
qed simp

lemma on_vm_store:
  assumes "\<And>i. i < n \<Longrightarrow> translate (avm (prim s)) (a + of_nat i) \<noteq> None"
  shows "\<exists>m. on_vm (\<lambda>m. vstore m a n v) s = Inr (s\<lparr>prim := (prim s)\<lparr>avm := m\<rparr>\<rparr>) \<and> pages m = pages (avm (prim s))"
proof -
  obtain m where "vstore (avm (prim s)) a n v = Inr m" "pages m = pages (avm (prim s))"
    using vstore_returns [OF assms] by blast
  then show ?thesis by (auto simp: on_vm_def)
qed

lemma malloc_run: "\<exists>s'. meds_malloc example_cfg None 1000 meds0 = Inr (0x280000000010, s')"
proof -
  obtain q where P: "Allocate AP64 (AsanOnMap example_cfg) 0 24 0x4000 (prim meds0) = Inr (0x280000000000, q)"
    and pg: "pages (avm q) 0x280000000 = Some (Shared 0)"
    and sh: "poison (client q) = fill_shadow 0x5007fff8000 0xfa 0x200 pst0"
    using prim1_ok unfolding prim1_def by (auto split: sum.splits prod.splits)
  have sm: "SizeMap AP64 = DefaultSizeClassMap" by (simp add: AP64_def)
  let ?s = "meds0\<lparr>prim := q\<rparr>"
  have C: "comb_Allocate example_cfg 0 0x3f8 8 0x4000 False meds0 = Inr (0x280000000000, ?s)"
    by (simp add: comb_Allocate_def comb_PrimAllocate_def Let_def sm class_1016 P CanAllocate_def default_max)
  have ne: "shadow (poison (client q)) (MEM_TO_SHADOW 0x280000000000) \<noteq> 0"
    by (simp add: sh MEM_TO_SHADOW_def SHADOW_SCALE_def SHADOW_OFFSET_def memset_def)
  have tr: "translate (avm q) x \<noteq> None" if "unat x div 4096 = 0x280000000" for x
    using that pg by (simp add: translate_def page_of_def)
  have tr0: "translate (avm q) (0x280000000000 + of_nat i) \<noteq> None" if "i < 8" for i
    by (rule tr) (use that in \<open>simp add: unat_add_nowrap unat_of_nat\<close>)
  obtain m1 where m1: "on_vm (\<lambda>m. vstore m 0x280000000000 8 1000) ?s = Inr (?s\<lparr>prim := q\<lparr>avm := m1\<rparr>\<rparr>)" "pages m1 = pages (avm q)"
    using on_vm_store [of 8 ?s "0x280000000000" 1000] tr0 by auto
  have tr1: "translate m1 (0x280000000008 + of_nat i) \<noteq> None" if "i < 8" for i
  proof -
    have "unat (0x280000000008 + of_nat i :: uptr) div 4096 = 0x280000000"
      using that by (simp add: unat_add_nowrap unat_of_nat)
    then show ?thesis using pg by (simp add: translate_def page_of_def m1(2))
  qed
  obtain m2 where m2: "on_vm (\<lambda>m. vstore m 0x280000000008 8 0x280000000000) (?s\<lparr>prim := q\<lparr>avm := m1\<rparr>\<rparr>)
      = Inr (?s\<lparr>prim := q\<lparr>avm := m2\<rparr>\<rparr>)"
    using on_vm_store [of 8 "?s\<lparr>prim := q\<lparr>avm := m1\<rparr>\<rparr>" "0x280000000008" "0x280000000000"] tr1 by auto
  have cp: "can_poison_memory (poison (client q))" by (simp add: sh pst0_def)
  have "unpoison_user example_cfg 0x280000000010 1000 (poison (client q))
      = Inr (fill_shadow 0x5007fff8002 0 125 (poison (client q)))"
    by (simp add: unpoison_user_def granularity RoundDownTo_def poison_block [OF cp])
  then have "\<exists>s'. lay_out example_cfg 0x280000000000 0x3f8 1000 8 ?s = Inr (0x280000000010, s')"
    using m1 m2 by (simp add: lay_out_def Let_def kMetaSize_def IsAligned_def on_poison_def)
  then show ?thesis
    using C ne
    by (simp add: meds_malloc_def meds_Allocate_def Let_def granularity IsPowerOfTwo_def RoundUpTo_def round_up_def kMetaSize_def
        CanAllocate_def sm default_max IsAligned_def kMaxAllowedMallocSize_def cache_of_def RZLog2Size_def ComputRZLog_def
        poison_if_clean_def)
qed

text \<open>The block of 1000 bytes: its last byte is addressable, the metadata before it and the byte after it are not.\<close>

theorem malloc_shadow_witness:
  "\<exists>s' p c. meds_malloc example_cfg None 1000 meds0 = Inr (0x280000000010, s') \<and> virt (prim s') [(p, c)] \<and>
     unat p + 16 \<le> 0x280000000010"
proof -
  obtain s' where M: "meds_Allocate example_cfg None 1000 8 meds0 = Inr (0x280000000010, s')"
    using malloc_run by (auto simp: meds_malloc_def)
  have v: "virt (prim meds0) []"
    by (rule virt_start) (simp_all add: meds0_def start_ast_def space_ok_def)
  have "can_poison_memory (poison (client (prim meds0)))" by (simp add: meds0_def start_ast_def pst0_def)
  moreover have "need (unat (1000 :: uptr)) (unat (8 :: uptr)) \<le> 2 ^ 17" by (simp add: need_def)
  ultimately show ?thesis using malloc_shadow [OF v example_cfg_ok _ M] M by (auto simp: meds_malloc_def)
qed

text \<open>A block of one page at the begin of a region: its free clears 32 KB.\<close>

definition meds1 :: meds where
  "meds1 = meds0\<lparr>prim := (prim meds0)\<lparr>avm := start_vm\<lparr>pages := (\<lambda>q. if q = 0x300000000 then Some (Private 0) else None),
     next_frame := 1, frames := (\<lambda>(f, i). if i = 13 then 0x30 else 0)\<rparr>\<rparr>\<rparr>"

lemma size_32: "Size DefaultSizeClassMap 32 = 0x1000"
  by code_simp

lemma vload_numeral: "vload m a (numeral k) = bindr (vload8 m a) (\<lambda>b. bindr (vload m (a + 1) (pred_numeral k)) (\<lambda>r.
     Inr (ucast b OR push_bit 8 r)))"
  by (simp add: numeral_eq_Suc)

lemma meds1_vload: "vload (avm (prim meds1)) 0x300000000008 8 = Inr 0x300000000000"
  by (simp add: meds1_def start_vm_def vload_numeral vload8_def translate_def page_of_def)

lemma rounded_default: "kNumClassesRounded DefaultSizeClassMap = 64"
  by code_simp

lemma meds1_block: "PointerIsMine AP64 (prim meds1) 0x300000000000"
  "comb_GetActuallyAllocatedSize 0x300000000000 meds1 = Inr 0x1000" "GetSizeClass AP64 (prim meds1) 0x300000000000 = 32"
proof -
  show m: "PointerIsMine AP64 (prim meds1) 0x300000000000"
    by (simp add: PointerIsMine_def AP64_sel SpaceEnd_def kUsingConstantSpaceBeg_def meds1_def meds0_def start_ast_def)
      (simp add: AP64_def)
  show c: "GetSizeClass AP64 (prim meds1) 0x300000000000 = 32"
    by (simp add: GetSizeClass_def AP64_sel kUsingConstantSpaceBeg_def meds1_def meds0_def start_ast_def kRegionSize_AP64 rounded_default)
      (simp add: AP64_def)
  show "comb_GetActuallyAllocatedSize 0x300000000000 meds1 = Inr 0x1000"
    using m by (simp add: comb_GetActuallyAllocatedSize_def GetActuallyAllocatedSize_def c ClassIdToSize_def AP64_sel size_32)
qed

lemma UnmapShadow_form: "UnmapShadow addr n s = Inr s1 \<Longrightarrow> \<exists>m k. s1 = s\<lparr>prim := (prim s)\<lparr>avm := m, client := k\<rparr>\<rparr>"
  unfolding UnmapShadow_def Let_def on_poison_def bindr_Inr case_prod_beta by auto

lemma meds1_unmap: "\<exists>m k. UnmapShadow 0x300000000000 0x1000 meds1 = Inr (meds1\<lparr>prim := (prim meds1)\<lparr>avm := m, client := k\<rparr>\<rparr>)"
proof -
  have "\<exists>s1. UnmapShadow 0x300000000000 0x1000 meds1 = Inr s1"
    by (simp add: UnmapShadow_def Let_def GetPageSizeCached_def MEM_TO_SHADOW_def SHADOW_SCALE_def SHADOW_OFFSET_def
        RoundDownTo_def munmap_def MmapFixedOrDie_def mmap_fixed_private_def try_call_def internal_iserror_def on_poison_def
        meds1_def start_vm_def RoundUpTo_def round_up_def IsPowerOfTwo_def)
  then show ?thesis using UnmapShadow_form by blast
qed

lemma meds1_free: "\<exists>s'. meds_free example_cfg None 0x300000000010 meds1 = Inr s'"
proof -
  obtain m k where U: "UnmapShadow 0x300000000000 0x1000 meds1 = Inr (meds1\<lparr>prim := (prim meds1)\<lparr>avm := m, client := k\<rparr>\<rparr>)"
    using meds1_unmap by blast
  let ?q = "(prim meds1)\<lparr>avm := m, client := k\<rparr>"
  have "PointerIsMine AP64 ?q 0x300000000000 = PointerIsMine AP64 (prim meds1) 0x300000000000"
    "GetSizeClass AP64 ?q 0x300000000000 = GetSizeClass AP64 (prim meds1) 0x300000000000"
    by (simp_all add: PointerIsMine_def GetSizeClass_def SpaceEnd_def SpaceBeg_def)
  then have "PointerIsMine AP64 ?q 0x300000000000" "GetSizeClass AP64 ?q 0x300000000000 = 32"
    using meds1_block(1,3) by simp_all
  moreover have "\<exists>q. Deallocate AP64 0 32 0x300000000000 ?q = Inr q"
    by (simp add: Deallocate_def Let_def GetPageSizeCached_def ClassIdToSize_def AP64_sel size_32 RoundDownTo_def RoundUpTo_def
      round_up_def IsPowerOfTwo_def split: prod.splits)
  ultimately show ?thesis
    by (auto simp: meds_free_def meds_Deallocate_def Let_def kMetaSize_def meds1_vload meds1_block U comb_Deallocate_def cache_of_def)
qed

theorem free_unpoisons_witness:
  "\<exists>s'. meds_free example_cfg None 0x300000000010 meds1 = Inr s' \<and> 
     \<not> AddressIsPoisoned (shadow (poison (client (prim s')))) 0x300000005000"
proof -
  obtain s' where F: "meds_free example_cfg None 0x300000000010 meds1 = Inr s'" using meds1_free by blast
  have "(0x300000000010 :: uptr) - 8 = 0x300000000008" by simp
  then have v: "vload (avm (prim meds1)) (0x300000000010 - 8) 8 = Inr 0x300000000000" using meds1_vload by (simp only:)
  have "\<not> AddressIsPoisoned (shadow (poison (client (prim s')))) 0x300000005000"
    by (rule free_unpoisons [OF F _ v meds1_block(1,2)]) simp_all
  then show ?thesis using F by blast
qed

end
