(* ===== verification/BitVector.thy ===== *)
theory BitVector
  imports SanCommon
begin

text \<open>
  The bit vectors of \<^verbatim>\<open>sanitizer_bitvector.h\<close>: \<open>bv_\<close> is \<^verbatim>\<open>BasicBitVector<uptr>\<close>, one word, and \<open>t_\<close> is
  \<^verbatim>\<open>TwoLevelBitVector<k, BasicBitVector<> >\<close>, where the set bits of the first level say which words of the second level
  hold elements; the other words are garbage. An operation returns the changed vector and, where the
  code returns one, the flag that says whether the set has changed.
\<close>

section \<open>One word\<close>

definition bv_size :: nat where "bv_size = 64"

definition bv_mask :: "nat \<Rightarrow> uptr res" where
  "bv_mask idx = check (idx < bv_size) ''idx < size()'' (Inr (push_bit idx 1))"

definition bv_clear :: "uptr \<Rightarrow> uptr" where "bv_clear b = 0"

definition bv_setAll :: "uptr \<Rightarrow> uptr" where "bv_setAll b = NOT 0"

definition bv_empty :: "uptr \<Rightarrow> bool" where "bv_empty b \<longleftrightarrow> b = 0"

definition bv_setBit :: "nat \<Rightarrow> uptr \<Rightarrow> (bool \<times> uptr) res" where
  "bv_setBit idx b = bindr (bv_mask idx) (\<lambda>m. let b' = b OR m in Inr (b' \<noteq> b, b'))"

definition bv_clearBit :: "nat \<Rightarrow> uptr \<Rightarrow> (bool \<times> uptr) res" where
  "bv_clearBit idx b = bindr (bv_mask idx) (\<lambda>m. let b' = b AND NOT m in Inr (b' \<noteq> b, b'))"

definition bv_getBit :: "nat \<Rightarrow> uptr \<Rightarrow> bool res" where
  "bv_getBit idx b = bindr (bv_mask idx) (\<lambda>m. Inr (b AND m \<noteq> 0))"

definition bv_getAndClearFirstOne :: "uptr \<Rightarrow> (nat \<times> uptr) res" where
  "bv_getAndClearFirstOne b = check (\<not> bv_empty b) ''!empty()'' (
     bindr (LeastSignificantSetBitIndex b) (\<lambda>idx.
     bindr (bv_clearBit (unat idx) b) (\<lambda>(_, b'). Inr (unat idx, b'))))"

definition bv_setUnion :: "uptr \<Rightarrow> uptr \<Rightarrow> bool \<times> uptr" where
  "bv_setUnion v b = (let b' = b OR v in (b' \<noteq> b, b'))"

definition bv_setIntersection :: "uptr \<Rightarrow> uptr \<Rightarrow> bool \<times> uptr" where
  "bv_setIntersection v b = (let b' = b AND v in (b' \<noteq> b, b'))"

definition bv_setDifference :: "uptr \<Rightarrow> uptr \<Rightarrow> bool \<times> uptr" where
  "bv_setDifference v b = (let b' = b AND NOT v in (b' \<noteq> b, b'))"

definition bv_copyFrom :: "uptr \<Rightarrow> uptr \<Rightarrow> uptr" where "bv_copyFrom v b = v"

definition bv_intersectsWith :: "uptr \<Rightarrow> uptr \<Rightarrow> bool" where
  "bv_intersectsWith v b \<longleftrightarrow> b AND v \<noteq> 0"

text \<open>The iterator is a copy of the vector.\<close>

definition bv_Iterator :: "uptr \<Rightarrow> uptr" where "bv_Iterator b = b"

definition bv_hasNext :: "uptr \<Rightarrow> bool" where "bv_hasNext it \<longleftrightarrow> \<not> bv_empty it"

definition bv_next :: "uptr \<Rightarrow> (nat \<times> uptr) res" where "bv_next it = bv_getAndClearFirstOne it"

section \<open>Facts on one word\<close>

lemma bv_empty_iff: "bv_empty b \<longleftrightarrow> (\<forall>i. \<not> bit b i)"
  by (auto simp: bv_empty_def intro: bit_word_eqI)

lemma bv_mask_Inr: "idx < 64 \<Longrightarrow> bv_mask idx = Inr (push_bit idx 1)"
  by (simp add: bv_mask_def bv_size_def)

lemma bit_pow [simp]: "bit (2 ^ i :: uptr) j \<longleftrightarrow> i = j \<and> j < 64"
  by (auto simp: bit_simps)

lemma differ_at: "(\<And>j. j \<noteq> i \<Longrightarrow> bit b' j = bit b j) \<Longrightarrow> b' \<noteq> b \<longleftrightarrow> bit b' i \<noteq> bit (b :: uptr) i"
  by (metis bit_word_eqI)

lemma bv_setBit_eq: "idx < 64 \<Longrightarrow> bv_setBit idx b = Inr (\<not> bit b idx, b OR 2 ^ idx)"
  using differ_at [of idx "b OR 2 ^ idx" b] by (auto simp: bv_setBit_def bv_mask_Inr Let_def bit_or_iff)

lemma bv_clearBit_eq: "idx < 64 \<Longrightarrow> bv_clearBit idx b = Inr (bit b idx, b AND NOT (2 ^ idx))"
  using differ_at [of idx "b AND NOT (2 ^ idx)" b] bit_imp_le_length [of b]
  by (auto simp: bv_clearBit_def bv_mask_Inr Let_def bit_and_iff bit_not_iff)

lemma bv_getBit_eq: "idx < 64 \<Longrightarrow> bv_getBit idx b = Inr (bit b idx)"
  using differ_at [of idx "b AND 2 ^ idx" 0] by (auto simp: bv_getBit_def bv_mask_Inr bit_and_iff)

text \<open>The lowest bit is taken out.\<close>

lemma bv_first:
  assumes "b \<noteq> 0"
  obtains i b' where "bv_getAndClearFirstOne b = Inr (i, b')" "i < 64" "bit b i" "\<And>j. bit b j \<Longrightarrow> i \<le> j"
    "\<And>j. bit b' j \<longleftrightarrow> bit b j \<and> j \<noteq> i"
proof -
  define i where "i = lo_bit (unat b)"
  have nz: "unat b \<noteq> 0" using assms by (simp add: unat_eq_zero)
  note s = lo_bit_spec [OF nz, folded i_def]
  have "bit (unat b) i" using s by (simp add: bit_iff_odd)
  then have bi: "bit b i" by (simp add: bit_unsigned_iff)
  then have i: "i < 64" using bit_imp_le_length by force
  have low: "\<not> bit b j" if "j < i" for j
  proof -
    from s obtain q where q: "unat b = 2 ^ i * q" by (auto elim: dvdE)
    have "(2::nat) ^ i = 2 ^ j * (2 * 2 ^ (i - j - 1))" using that by (simp flip: power_Suc power_add)
    then have "unat b = 2 ^ j * (2 * (2 ^ (i - j - 1) * q))" using q by simp
    then have "unat b div 2 ^ j = 2 * (2 ^ (i - j - 1) * q)" by simp
    then have "\<not> bit (unat b) j" by (simp add: bit_iff_odd)
    then show ?thesis by (simp add: bit_unsigned_iff)
  qed
  have "LeastSignificantSetBitIndex b = Inr (of_nat i)"
    using assms by (simp add: LeastSignificantSetBitIndex_def builtin_ctzl_def i_def)
  moreover have "unat (of_nat i :: uptr) = i" using i by (simp add: unat_of_nat)
  ultimately have "bv_getAndClearFirstOne b = Inr (i, b AND NOT (2 ^ i))"
    using assms i by (simp add: bv_getAndClearFirstOne_def bv_empty_def bv_clearBit_eq)
  moreover have "bit (b AND NOT (2 ^ i)) j \<longleftrightarrow> bit b j \<and> j \<noteq> i" for j
    using i bit_imp_le_length [of b j] by (auto simp: bit_and_iff bit_not_iff)
  ultimately show thesis using i bi low by (intro that [of i]) (auto simp: not_less [symmetric])
qed

section \<open>Loops\<close>

text \<open>\<^verbatim>\<open>for (i = 0; i < n; i++)\<close>, and \<^verbatim>\<open>while (!t.empty()) { i = t.getAndClearFirstOne(); ... }\<close> over a word.\<close>

fun for_upto :: "(nat \<Rightarrow> 's \<Rightarrow> 's res) \<Rightarrow> nat \<Rightarrow> 's \<Rightarrow> 's res" where
  "for_upto f 0 s = Inr s"
| "for_upto f (Suc n) s = bindr (for_upto f n s) (f n)"

function each_bit :: "(nat \<Rightarrow> 's \<Rightarrow> 's res) \<Rightarrow> uptr \<Rightarrow> 's \<Rightarrow> 's res" where
  "each_bit f t s =
     (if bv_empty t then Inr s
      else bindr (bv_getAndClearFirstOne t) (\<lambda>(i, t'). bindr (f i s) (\<lambda>s'. each_bit f t' s')))"
  by pat_completeness auto

lemma bv_first_less:
  assumes "bv_getAndClearFirstOne t = Inr (i, t')"
  shows "unat t' < unat t"
proof -
  have "t \<noteq> 0" using assms by (auto simp: bv_getAndClearFirstOne_def bv_empty_def res_simps)
  then obtain i0 t0 where e: "bv_getAndClearFirstOne t = Inr (i0, t0)" "bit t i0" "\<And>j. bit t0 j \<longleftrightarrow> bit t j \<and> j \<noteq> i0"
    by (rule bv_first) blast
  have t': "bit t' j \<longleftrightarrow> bit t j \<and> j \<noteq> i0" for j using e assms by simp
  have "t' = t' AND t" by (rule bit_word_eqI) (auto simp: bit_and_iff t')
  then have "t' \<le> t" using word_and_le1 [of t' t] word_and_le2 [of t' t] by metis
  moreover have "t' \<noteq> t" using t' e(2) by auto
  ultimately have "t' < t" by (simp add: order_less_le)
  then show ?thesis by (simp add: word_less_nat_alt)
qed

termination each_bit
  by (relation "measure (\<lambda>(f, t, s). unat t)") (auto dest: bv_first_less)

declare each_bit.simps [simp del]

lemma each_bit_inv:
  assumes "I t s"
    and step: "\<And>t s i t'. I t s \<Longrightarrow> bit t i \<Longrightarrow> (\<And>j. bit t j \<Longrightarrow> i \<le> j) \<Longrightarrow> (\<And>j. bit t' j \<longleftrightarrow> bit t j \<and> j \<noteq> i)
      \<Longrightarrow> i < 64 \<Longrightarrow> \<exists>s'. f i s = Inr s' \<and> I t' s'"
  shows "\<exists>s'. each_bit f t s = Inr s' \<and> I 0 s'"
  using assms(1)
proof (induction t arbitrary: s rule: measure_induct_rule [where f = unat])
  case (less t)
  show ?case
  proof (cases "t = 0")
    case True
    then show ?thesis using less.prems by (auto simp: each_bit.simps bv_empty_def)
  next
    case False
    obtain i t' where t': "bv_getAndClearFirstOne t = Inr (i, t')" "i < 64" "bit t i" "\<And>j. bit t j \<Longrightarrow> i \<le> j"
      "\<And>j. bit t' j \<longleftrightarrow> bit t j \<and> j \<noteq> i"
      using bv_first [OF False] by metis
    from step [OF less.prems t'(3,4,5,2)] obtain s' where s': "f i s = Inr s'" "I t' s'" by blast
    have "each_bit f t s = each_bit f t' s'" using False t'(1) s'(1) by (simp add: each_bit.simps [of f t] bv_empty_def)
    then show ?thesis using less.IH [OF bv_first_less [OF t'(1)] s'(2)] by simp
  qed
qed

end
