(* ===== verification/TwoLevel.thy ===== *)
theory TwoLevel
  imports BitVector
begin

text \<open>
  \<^verbatim>\<open>TwoLevelBitVector\<close> of \<^verbatim>\<open>sanitizer_bitvector.h\<close> over words of 64 bits: \<open>k\<close> is \<^verbatim>\<open>kLevel1Size\<close>. Its operations
  implement the operations on finite sets. An index is a natural number; the array accesses of the operations on single bits may
  be out of bounds, because the checks of an index admit the size itself.
\<close>

section \<open>The vector\<close>

record tlbv =
  lev1 :: "nat \<Rightarrow> uptr"
  lev2 :: "nat \<Rightarrow> nat \<Rightarrow> uptr"

definition t_size :: "nat \<Rightarrow> nat" where "t_size k = bv_size * bv_size * k"

definition set_lev1 :: "nat \<Rightarrow> uptr \<Rightarrow> tlbv \<Rightarrow> tlbv" where
  "set_lev1 i0 w s = s\<lparr>lev1 := (lev1 s)(i0 := w)\<rparr>"

definition set_lev2 :: "nat \<Rightarrow> nat \<Rightarrow> uptr \<Rightarrow> tlbv \<Rightarrow> tlbv" where
  "set_lev2 i0 i1 w s = s\<lparr>lev2 := (lev2 s)(i0 := (lev2 s i0)(i1 := w))\<rparr>"

definition t_clear :: "nat \<Rightarrow> tlbv \<Rightarrow> tlbv" where
  "t_clear k s = fold (\<lambda>i s. set_lev1 i (bv_clear (lev1 s i)) s) [0..<k] s"

fun fill_words :: "nat \<Rightarrow> nat \<Rightarrow> tlbv \<Rightarrow> tlbv" where
  "fill_words i0 0 s = s"
| "fill_words i0 (Suc i1) s = (let s' = fill_words i0 i1 s in set_lev2 i0 i1 (bv_setAll (lev2 s' i0 i1)) s')"

fun t_setAll :: "nat \<Rightarrow> tlbv \<Rightarrow> tlbv" where
  "t_setAll 0 s = s"
| "t_setAll (Suc i0) s = (let s' = t_setAll i0 s in fill_words i0 bv_size (set_lev1 i0 (bv_setAll (lev1 s' i0)) s'))"

definition t_empty :: "nat \<Rightarrow> tlbv \<Rightarrow> bool" where
  "t_empty k s \<longleftrightarrow> (\<forall>i \<in> {..<k}. bv_empty (lev1 s i))"

text \<open>The indices, with their checks as the code has them.\<close>

definition t_check :: "nat \<Rightarrow> nat \<Rightarrow> 'a res \<Rightarrow> 'a res" where
  "t_check k idx c = check (idx \<le> t_size k) ''idx <= size()'' c"

definition t_idx0 :: "nat \<Rightarrow> nat \<Rightarrow> nat res" where
  "t_idx0 k idx = (let r = idx div (bv_size * bv_size) in check (r \<le> k) ''res <= kLevel1Size'' (Inr r))"

definition t_idx1 :: "nat \<Rightarrow> nat res" where
  "t_idx1 idx = (let r = idx div bv_size mod bv_size in check (r \<le> bv_size) ''res <= BV::kSize'' (Inr r))"

definition t_idx2 :: "nat \<Rightarrow> nat res" where
  "t_idx2 idx = (let r = idx mod bv_size in check (r \<le> bv_size) ''res <= BV::kSize'' (Inr r))"

definition t_at :: "nat \<Rightarrow> nat \<Rightarrow> (nat \<Rightarrow> nat \<Rightarrow> nat \<Rightarrow> 'a res) \<Rightarrow> 'a res" where
  "t_at k idx f = t_check k idx (bindr (t_idx0 k idx) (\<lambda>i0. bindr (t_idx1 idx) (\<lambda>i1. bindr (t_idx2 idx) (\<lambda>i2.
     if i0 < k then f i0 i1 i2 else Inl (OutOfBounds i0)))))"

definition t_setBit :: "nat \<Rightarrow> nat \<Rightarrow> tlbv \<Rightarrow> (bool \<times> tlbv) res" where
  "t_setBit k idx s = t_at k idx (\<lambda>i0 i1 i2.
     bindr (bv_getBit i1 (lev1 s i0)) (\<lambda>b.
     bindr (if \<not> b then bindr (bv_setBit i1 (lev1 s i0)) (\<lambda>(_, w).
              let s1 = set_lev1 i0 w s in Inr (set_lev2 i0 i1 (bv_clear (lev2 s1 i0 i1)) s1))
            else Inr s) (\<lambda>s1.
     bindr (bv_setBit i2 (lev2 s1 i0 i1)) (\<lambda>(r, w). Inr (r, set_lev2 i0 i1 w s1)))))"

definition t_clearBit :: "nat \<Rightarrow> nat \<Rightarrow> tlbv \<Rightarrow> (bool \<times> tlbv) res" where
  "t_clearBit k idx s = t_at k idx (\<lambda>i0 i1 i2.
     bindr (bv_getBit i1 (lev1 s i0)) (\<lambda>b.
     if b then
       bindr (bv_clearBit i2 (lev2 s i0 i1)) (\<lambda>(r, w).
       let s1 = set_lev2 i0 i1 w s in
       if bv_empty (lev2 s1 i0 i1) then
         bindr (bv_clearBit i1 (lev1 s1 i0)) (\<lambda>(_, w'). Inr (r, set_lev1 i0 w' s1))
       else Inr (r, s1))
     else Inr (False, s)))"

definition t_getBit :: "nat \<Rightarrow> nat \<Rightarrow> tlbv \<Rightarrow> bool res" where
  "t_getBit k idx s = t_at k idx (\<lambda>i0 i1 i2.
     bindr (bv_getBit i1 (lev1 s i0)) (\<lambda>b. if b then bv_getBit i2 (lev2 s i0 i1) else Inr False))"

text \<open>The loop over the first level; it does not end without a set bit: the \<^verbatim>\<open>CHECK(0)\<close> after it fails.\<close>

fun t_first_from :: "nat \<Rightarrow> nat \<Rightarrow> tlbv \<Rightarrow> (nat \<times> tlbv) res" where
  "t_first_from i0 0 s = Inl (CheckFailed ''0'')"
| "t_first_from i0 (Suc n) s =
     (if bv_empty (lev1 s i0) then t_first_from (Suc i0) n s
      else bindr (bv_getAndClearFirstOne (lev1 s i0)) (\<lambda>(i1, w).
        let s1 = set_lev1 i0 w s in
        bindr (bv_getAndClearFirstOne (lev2 s1 i0 i1)) (\<lambda>(i2, x).
        let s2 = set_lev2 i0 i1 x s1 in
        bindr (if \<not> bv_empty (lev2 s2 i0 i1) then
                 bindr (bv_setBit i1 (lev1 s2 i0)) (\<lambda>(_, w'). Inr (set_lev1 i0 w' s2))
               else Inr s2) (\<lambda>s3. Inr (i0 * bv_size * bv_size + i1 * bv_size + i2, s3)))))"

definition t_getAndClearFirstOne :: "nat \<Rightarrow> tlbv \<Rightarrow> (nat \<times> tlbv) res" where
  "t_getAndClearFirstOne k s = t_first_from 0 k s"

text \<open>The operations on two vectors; \<open>v\<close> is the argument, \<open>s\<close> the object.\<close>

definition union_word :: "tlbv \<Rightarrow> nat \<Rightarrow> nat \<Rightarrow> bool \<times> tlbv \<Rightarrow> (bool \<times> tlbv) res" where
  "union_word v i0 i1 = (\<lambda>(res, s).
     bindr (bv_setBit i1 (lev1 s i0)) (\<lambda>(new, w).
     let s1 = set_lev1 i0 w s;
         s2 = (if new then set_lev2 i0 i1 (bv_clear (lev2 s1 i0 i1)) s1 else s1);
         (chg, x) = bv_setUnion (lev2 v i0 i1) (lev2 s2 i0 i1)
     in Inr (if chg then True else res, set_lev2 i0 i1 x s2)))"

definition t_setUnion :: "nat \<Rightarrow> tlbv \<Rightarrow> tlbv \<Rightarrow> (bool \<times> tlbv) res" where
  "t_setUnion k v s = for_upto (\<lambda>i0. each_bit (union_word v i0) (lev1 v i0)) k (False, s)"

definition drop_if_empty :: "nat \<Rightarrow> nat \<Rightarrow> tlbv \<Rightarrow> tlbv res" where
  "drop_if_empty i0 i1 s =
     (if bv_empty (lev2 s i0 i1) then bindr (bv_clearBit i1 (lev1 s i0)) (\<lambda>(_, w). Inr (set_lev1 i0 w s)) else Inr s)"

definition inter_word :: "tlbv \<Rightarrow> nat \<Rightarrow> nat \<Rightarrow> bool \<times> tlbv \<Rightarrow> (bool \<times> tlbv) res" where
  "inter_word v i0 i1 = (\<lambda>(res, s).
     let (chg, x) = bv_setIntersection (lev2 v i0 i1) (lev2 s i0 i1)
     in bindr (drop_if_empty i0 i1 (set_lev2 i0 i1 x s)) (\<lambda>s'. Inr (if chg then True else res, s')))"

definition t_setIntersection :: "nat \<Rightarrow> tlbv \<Rightarrow> tlbv \<Rightarrow> (bool \<times> tlbv) res" where
  "t_setIntersection k v s = for_upto (\<lambda>i0 (res, s).
     let (chg, w) = bv_setIntersection (lev1 v i0) (lev1 s i0);
         s1 = set_lev1 i0 w s; res1 = (if chg then True else res)
     in if \<not> bv_empty (lev1 s1 i0) then each_bit (inter_word v i0) (lev1 s1 i0) (res1, s1) else Inr (res1, s1)) k (False, s)"

definition diff_word :: "tlbv \<Rightarrow> nat \<Rightarrow> nat \<Rightarrow> bool \<times> tlbv \<Rightarrow> (bool \<times> tlbv) res" where
  "diff_word v i0 i1 = (\<lambda>(res, s).
     let (chg, x) = bv_setDifference (lev2 v i0 i1) (lev2 s i0 i1)
     in bindr (drop_if_empty i0 i1 (set_lev2 i0 i1 x s)) (\<lambda>s'. Inr (if chg then True else res, s')))"

definition t_setDifference :: "nat \<Rightarrow> tlbv \<Rightarrow> tlbv \<Rightarrow> (bool \<times> tlbv) res" where
  "t_setDifference k v s = for_upto (\<lambda>i0 (res, s).
     let (_, t) = bv_setIntersection (lev1 v i0) (lev1 s i0) in each_bit (diff_word v i0) t (res, s)) k (False, s)"

definition t_copyFrom :: "nat \<Rightarrow> tlbv \<Rightarrow> tlbv \<Rightarrow> tlbv res" where
  "t_copyFrom k v s = bindr (t_setUnion k v (t_clear k s)) (\<lambda>(_, s'). Inr s')"

text \<open>\<^verbatim>\<open>intersectsWith\<close> returns from inside its loops: the answer found stops the later iterations.\<close>

definition t_intersectsWith :: "nat \<Rightarrow> tlbv \<Rightarrow> tlbv \<Rightarrow> bool res" where
  "t_intersectsWith k v s = for_upto (\<lambda>i0 found.
     if found then Inr True
     else let (_, t) = bv_setIntersection (lev1 v i0) (lev1 s i0) in
       each_bit (\<lambda>i1 found.
         if found then Inr True
         else bindr (bv_getBit i1 (lev1 v i0)) (\<lambda>b.
           Inr (b \<and> bv_intersectsWith (lev2 v i0 i1) (lev2 s i0 i1)))) t False) k False"

text \<open>The iterator; the vector it refers to is an argument.\<close>

record t_iter =
  it_i0 :: nat
  it_i1 :: nat
  it_1 :: uptr
  it_2 :: uptr

definition t_Iterator :: t_iter where
  "t_Iterator = \<lparr>it_i0 = 0, it_i1 = 0, it_1 = bv_clear 0, it_2 = bv_clear 0\<rparr>"

definition t_hasNext :: "nat \<Rightarrow> tlbv \<Rightarrow> t_iter \<Rightarrow> bool" where
  "t_hasNext k b it \<longleftrightarrow> bv_hasNext (it_1 it) \<or> (\<exists>i \<in> set [it_i0 it..<k]. \<not> bv_empty (lev1 b i))"

fun t_seek :: "tlbv \<Rightarrow> nat \<Rightarrow> t_iter \<Rightarrow> t_iter" where
  "t_seek b 0 it = it"
| "t_seek b (Suc n) it =
     (if bv_empty (lev1 b (it_i0 it)) then t_seek b n (it\<lparr>it_i0 := Suc (it_i0 it)\<rparr>)
      else it\<lparr>it_1 := bv_Iterator (lev1 b (it_i0 it))\<rparr>)"

definition t_next :: "nat \<Rightarrow> tlbv \<Rightarrow> t_iter \<Rightarrow> (nat \<times> t_iter) res" where
  "t_next k b it =
     (let it1 = (if \<not> bv_hasNext (it_1 it) \<and> \<not> bv_hasNext (it_2 it) then t_seek b (k - it_i0 it) it else it) in
      bindr (if \<not> bv_hasNext (it_2 it1) then
               check (bv_hasNext (it_1 it1)) ''it1_.hasNext()'' (
               bindr (bv_next (it_1 it1)) (\<lambda>(i1, w).
               if it_i0 it1 < k then
                 Inr (it1\<lparr>it_i1 := i1, it_1 := w, it_2 := bv_Iterator (lev2 b (it_i0 it1) i1)\<rparr>)
               else Inl (OutOfBounds (it_i0 it1))))
             else Inr it1) (\<lambda>it2.
      check (bv_hasNext (it_2 it2)) ''it2_.hasNext()'' (
      bindr (bv_next (it_2 it2)) (\<lambda>(i2, w).
      let it3 = it2\<lparr>it_2 := w\<rparr>;
          res = it_i0 it3 * bv_size * bv_size + it_i1 it3 * bv_size + i2;
          it4 = (if \<not> bv_hasNext (it_1 it3) \<and> \<not> bv_hasNext (it_2 it3) then it3\<lparr>it_i0 := Suc (it_i0 it3)\<rparr> else it3)
      in Inr (res, it4)))))"

section \<open>Loops that work on one cell at a time\<close>

text \<open>A cell of the vector is a bit of the first level with its word of the second level.\<close>

definition cell :: "tlbv \<Rightarrow> nat \<Rightarrow> nat \<Rightarrow> bool \<times> uptr" where
  "cell s a j = (bit (lev1 s a) j, lev2 s a j)"

lemma for_upto_inv:
  assumes "I 0 s" and "\<And>i s. i < n \<Longrightarrow> I i s \<Longrightarrow> \<exists>s'. f i s = Inr s' \<and> I (Suc i) s'"
  shows "\<exists>s'. for_upto f n s = Inr s' \<and> I n s'"
  using assms(2)
proof (induction n)
  case (Suc n)
  have "\<exists>s'. for_upto f n s = Inr s' \<and> I n s'" by (rule Suc.IH) (simp add: Suc.prems)
  then show ?case using Suc.prems [of n] by auto
qed (simp add: assms(1))

text \<open>
  \<open>cellwise f i0 g c\<close>: the loop body \<open>f\<close> changes the cell \<open>i1\<close> of row \<open>i0\<close> by \<open>g\<close>, nothing else, and sets the flag
  when \<open>c\<close> holds of the old cell.
\<close>

definition cellwise :: "(nat \<Rightarrow> bool \<times> tlbv \<Rightarrow> (bool \<times> tlbv) res) \<Rightarrow> nat \<Rightarrow>
    (nat \<Rightarrow> bool \<times> uptr \<Rightarrow> bool \<times> uptr) \<Rightarrow> (nat \<Rightarrow> bool \<times> uptr \<Rightarrow> bool) \<Rightarrow> bool" where
  "cellwise f i0 g c \<longleftrightarrow> (\<forall>i1 r s. i1 < 64 \<longrightarrow>
     (\<exists>s'. f i1 (r, s) = Inr (r \<or> c i1 (cell s i0 i1), s') \<and>
       (\<forall>a j. cell s' a j = (if a = i0 \<and> j = i1 then g i1 (cell s a j) else cell s a j))))"

lemma each_bit_cells:
  assumes f: "cellwise f i0 g c"
  shows "\<exists>s'. each_bit f t (r, s) = Inr (r \<or> (\<exists>j. bit t j \<and> c j (cell s i0 j)), s') \<and>
     (\<forall>a j. cell s' a j = (if a = i0 \<and> bit t j then g j (cell s a j) else cell s a j))"
proof -
  let ?I = "\<lambda>(u :: uptr) (r', s'). (\<forall>j. bit u j \<longrightarrow> bit t j) \<and> (r' \<longleftrightarrow> r \<or> (\<exists>j. bit t j \<and> \<not> bit u j \<and> c j (cell s i0 j))) \<and>
     (\<forall>a j. cell s' a j = (if a = i0 \<and> bit t j \<and> \<not> bit u j then g j (cell s a j) else cell s a j))"
  have "\<exists>x. each_bit f t (r, s) = Inr x \<and> ?I 0 x"
  proof (rule each_bit_inv [where I = ?I])
    show "?I t (r, s)" by auto
  next
    fix u t' :: uptr and x i
    assume I: "?I u x" and i: "bit u i" "i < 64" and t': "\<And>j. bit t' j \<longleftrightarrow> bit u j \<and> j \<noteq> i"
    obtain r' s' where x: "x = (r', s')" by fastforce
    have c: "cell s' i0 i = cell s i0 i" using I i x by auto
    obtain s'' where s'': "f i (r', s') = Inr (r' \<or> c i (cell s' i0 i), s'')"
      "\<And>a j. cell s'' a j = (if a = i0 \<and> j = i then g i (cell s' a j) else cell s' a j)"
      using f i(2) unfolding cellwise_def by metis
    have "?I t' (r' \<or> c i (cell s' i0 i), s'')"
      using I x c i t' by (auto simp: s''(2))
    then show "\<exists>s'. f i x = Inr s' \<and> ?I t' s'" using s''(1) x by auto
  qed
  then show ?thesis by auto
qed

text \<open>The same for a loop over rows: \<open>c\<close> may look at the whole row.\<close>

definition rowwise :: "(nat \<Rightarrow> bool \<times> tlbv \<Rightarrow> (bool \<times> tlbv) res) \<Rightarrow> nat \<Rightarrow>
    (nat \<Rightarrow> nat \<Rightarrow> bool \<times> uptr \<Rightarrow> bool \<times> uptr) \<Rightarrow> (nat \<Rightarrow> (nat \<Rightarrow> bool \<times> uptr) \<Rightarrow> bool) \<Rightarrow> bool" where
  "rowwise f k g c \<longleftrightarrow> (\<forall>i < k. \<forall>r s. \<exists>s'. f i (r, s) = Inr (r \<or> c i (cell s i), s') \<and>
     (\<forall>a j. cell s' a j = (if a = i then g i j (cell s a j) else cell s a j)))"

lemma for_upto_rows:
  assumes f: "rowwise f k g c"
  shows "\<exists>s'. for_upto f k (r, s) = Inr (r \<or> (\<exists>i < k. c i (cell s i)), s') \<and>
     (\<forall>a j. cell s' a j = (if a < k then g a j (cell s a j) else cell s a j))"
proof -
  let ?I = "\<lambda>n (r', s'). (r' \<longleftrightarrow> r \<or> (\<exists>i < n. c i (cell s i))) \<and>
     (\<forall>a j. cell s' a j = (if a < n then g a j (cell s a j) else cell s a j))"
  have "\<exists>x. for_upto f k (r, s) = Inr x \<and> ?I k x"
  proof (rule for_upto_inv [where I = ?I])
    fix i x
    assume i: "i < k" and I: "?I i x"
    obtain r' s' where x: "x = (r', s')" by fastforce
    have c: "cell s' i = cell s i" using I x by auto
    obtain s'' where s'': "f i (r', s') = Inr (r' \<or> c i (cell s' i), s'')"
      "\<And>a j. cell s'' a j = (if a = i then g i j (cell s' a j) else cell s' a j)"
      using f i unfolding rowwise_def by metis
    have "?I (Suc i) (r' \<or> c i (cell s' i), s'')"
      using I x by (auto simp: s''(2) c less_Suc_eq)
    then show "\<exists>s'. f i x = Inr s' \<and> ?I (Suc i) s'" using s''(1) x by auto
  qed simp
  then show ?thesis by auto
qed

section \<open>The operations on cells\<close>

lemma cell_set [simp]:
  "cell (set_lev1 i w s) a j = (if a = i then (bit w j, lev2 s a j) else cell s a j)"
  "cell (set_lev2 i i1 x s) a j = (if a = i \<and> j = i1 then (bit (lev1 s a) j, x) else cell s a j)"
  "lev1 (set_lev1 i w s) = (lev1 s)(i := w)" "lev2 (set_lev1 i w s) = lev2 s"
  "lev1 (set_lev2 i i1 x s) = lev1 s" "lev2 (set_lev2 i i1 x s) = (lev2 s)(i := (lev2 s i)(i1 := x))"
  by (simp_all add: cell_def set_lev1_def set_lev2_def)

lemma bit_set_clear [simp]:
  "bit (w OR 2 ^ i :: uptr) j \<longleftrightarrow> bit w j \<or> (j = i \<and> i < 64)" "bit (w AND NOT (2 ^ i) :: uptr) j \<longleftrightarrow> bit w j \<and> j \<noteq> i"
  using bit_imp_le_length [of w j] by (auto simp: bit_or_iff bit_and_iff bit_not_iff)

definition union_cell :: "tlbv \<Rightarrow> nat \<Rightarrow> nat \<Rightarrow> bool \<times> uptr \<Rightarrow> bool \<times> uptr" where
  "union_cell v i0 i1 = (\<lambda>(b, x). (True, (if b then x else 0) OR lev2 v i0 i1))"

lemma union_word_cells:
  "cellwise (union_word v i0) i0 (union_cell v i0)
     (\<lambda>i1 (b, x). (if b then x else 0) OR lev2 v i0 i1 \<noteq> (if b then x else 0))"
  unfolding cellwise_def
proof (intro allI impI)
  fix i1 r s
  assume "i1 < (64::nat)"
  then show "\<exists>s'. union_word v i0 i1 (r, s) = Inr (r \<or> (case cell s i0 i1 of (b, x) \<Rightarrow>
        (if b then x else 0) OR lev2 v i0 i1 \<noteq> (if b then x else 0)), s') \<and>
      (\<forall>a j. cell s' a j = (if a = i0 \<and> j = i1 then union_cell v i0 i1 (cell s a j) else cell s a j))"
    by (auto simp: union_word_def bv_setBit_eq Let_def bv_setUnion_def bv_clear_def union_cell_def cell_def)
qed

lemma drop_if_empty_run:
  assumes "i1 < 64"
  shows "\<exists>s'. drop_if_empty i0 i1 s = Inr s' \<and> (\<forall>a j. cell s' a j = (if a = i0 \<and> j = i1 then
     (fst (cell s a j) \<and> snd (cell s a j) \<noteq> 0, snd (cell s a j)) else cell s a j))"
  using assms by (auto simp: drop_if_empty_def bv_clearBit_eq bv_empty_def cell_def)

lemma inter_word_cells:
  "cellwise (inter_word v i0) i0 (\<lambda>i1 (b, x). (b \<and> x AND lev2 v i0 i1 \<noteq> 0, x AND lev2 v i0 i1))
     (\<lambda>i1 (b, x). x AND lev2 v i0 i1 \<noteq> x)"
  unfolding cellwise_def
proof (intro allI impI)
  fix i1 r s
  assume i1: "i1 < (64::nat)"
  obtain s' where s': "drop_if_empty i0 i1 (set_lev2 i0 i1 (lev2 s i0 i1 AND lev2 v i0 i1) s) = Inr s'"
    "\<And>a j. cell s' a j = (if a = i0 \<and> j = i1 then (fst (cell (set_lev2 i0 i1 (lev2 s i0 i1 AND lev2 v i0 i1) s) a j)
        \<and> snd (cell (set_lev2 i0 i1 (lev2 s i0 i1 AND lev2 v i0 i1) s) a j) \<noteq> 0,
        snd (cell (set_lev2 i0 i1 (lev2 s i0 i1 AND lev2 v i0 i1) s) a j)) else cell (set_lev2 i0 i1 (lev2 s i0 i1 AND lev2 v i0 i1) s) a j)"
    using drop_if_empty_run [OF i1] by metis
  then show "\<exists>s'. inter_word v i0 i1 (r, s) = Inr (r \<or> (case cell s i0 i1 of (b, x) \<Rightarrow> x AND lev2 v i0 i1 \<noteq> x), s') \<and>
      (\<forall>a j. cell s' a j = (if a = i0 \<and> j = i1 then case cell s a j of (b, x) \<Rightarrow> (b \<and> x AND lev2 v i0 i1 \<noteq> 0, x AND lev2 v i0 i1)
         else cell s a j))"
    by (auto simp: inter_word_def bv_setIntersection_def Let_def cell_def)
qed

lemma diff_word_cells:
  "cellwise (diff_word v i0) i0 (\<lambda>i1 (b, x). (b \<and> x AND NOT (lev2 v i0 i1) \<noteq> 0, x AND NOT (lev2 v i0 i1)))
     (\<lambda>i1 (b, x). x AND NOT (lev2 v i0 i1) \<noteq> x)"
  unfolding cellwise_def
proof (intro allI impI)
  fix i1 r s
  assume i1: "i1 < (64::nat)"
  obtain s' where s': "drop_if_empty i0 i1 (set_lev2 i0 i1 (lev2 s i0 i1 AND NOT (lev2 v i0 i1)) s) = Inr s'"
    "\<And>a j. cell s' a j = (if a = i0 \<and> j = i1 then (fst (cell (set_lev2 i0 i1 (lev2 s i0 i1 AND NOT (lev2 v i0 i1)) s) a j)
        \<and> snd (cell (set_lev2 i0 i1 (lev2 s i0 i1 AND NOT (lev2 v i0 i1)) s) a j) \<noteq> 0,
        snd (cell (set_lev2 i0 i1 (lev2 s i0 i1 AND NOT (lev2 v i0 i1)) s) a j))
      else cell (set_lev2 i0 i1 (lev2 s i0 i1 AND NOT (lev2 v i0 i1)) s) a j)"
    using drop_if_empty_run [OF i1] by metis
  then show "\<exists>s'. diff_word v i0 i1 (r, s) = Inr (r \<or> (case cell s i0 i1 of (b, x) \<Rightarrow> x AND NOT (lev2 v i0 i1) \<noteq> x), s') \<and>
      (\<forall>a j. cell s' a j = (if a = i0 \<and> j = i1 then case cell s a j of (b, x) \<Rightarrow>
         (b \<and> x AND NOT (lev2 v i0 i1) \<noteq> 0, x AND NOT (lev2 v i0 i1)) else cell s a j))"
    by (auto simp: diff_word_def bv_setDifference_def Let_def cell_def)
qed

section \<open>The set a vector stands for\<close>

definition mem3 :: "tlbv \<Rightarrow> nat \<Rightarrow> nat \<Rightarrow> nat \<Rightarrow> bool" where
  "mem3 s a j i \<longleftrightarrow> fst (cell s a j) \<and> bit (snd (cell s a j)) i"

definition t_elems :: "nat \<Rightarrow> tlbv \<Rightarrow> nat set" where
  "t_elems k s = {n. n div 4096 < k \<and> mem3 s (n div 4096) (n div 64 mod 64) (n mod 64)}"

definition t_ok :: "nat \<Rightarrow> tlbv \<Rightarrow> bool" where
  "t_ok k s \<longleftrightarrow> (\<forall>a < k. \<forall>j. fst (cell s a j) \<longrightarrow> snd (cell s a j) \<noteq> 0)"

lemma cell_bounds: "fst (cell s a j) \<Longrightarrow> j < 64" "mem3 s a j i \<Longrightarrow> j < 64" "mem3 s a j i \<Longrightarrow> i < 64"
  using bit_imp_le_length [of "lev1 s a" j] bit_imp_le_length [of "lev2 s a j" i] by (auto simp: mem3_def cell_def)

lemma index3:
  fixes a j i :: nat
  shows "j < 64 \<Longrightarrow> i < 64 \<Longrightarrow> (a * 4096 + j * 64 + i) div 4096 = a"
  "j < 64 \<Longrightarrow> i < 64 \<Longrightarrow> (a * 4096 + j * 64 + i) div 64 mod 64 = j" "i < 64 \<Longrightarrow> (a * 4096 + j * 64 + i) mod 64 = i"
proof -
  assume b: "j < 64" "i < 64"
  have e: "a * 4096 + j * 64 + i = (a * 64 + j) * 64 + i" by simp
  have d: "(a * 4096 + j * 64 + i) div 64 = a * 64 + j" unfolding e using b(2) by simp
  then show "(a * 4096 + j * 64 + i) div 64 mod 64 = j" using b(1) by simp
  have "(a * 4096 + j * 64 + i) div 4096 = (a * 4096 + j * 64 + i) div 64 div 64" by (simp add: div_mult2_eq [symmetric])
  then show "(a * 4096 + j * 64 + i) div 4096 = a" unfolding d using b(1) by simp
next
  assume "i < 64"
  moreover have "a * 4096 + j * 64 + i = i + (a * 64 + j) * 64" by simp
  ultimately show "(a * 4096 + j * 64 + i) mod 64 = i" by (simp only: mod_mult_self1 mod_less)
qed

lemma mem3_elems: "a < k \<Longrightarrow> mem3 s a j i \<Longrightarrow> a * 4096 + j * 64 + i \<in> t_elems k s"
  using cell_bounds(2,3) [of s a j i] by (simp add: t_elems_def index3)

lemma elems_mem3: "j < 64 \<Longrightarrow> i < 64 \<Longrightarrow> a * 4096 + j * 64 + i \<in> t_elems k s \<longleftrightarrow> a < k \<and> mem3 s a j i"
  by (simp add: t_elems_def index3)

lemma elems_differ: "t_elems k s' \<noteq> t_elems k s \<longleftrightarrow> (\<exists>a < k. \<exists>j i. mem3 s' a j i \<noteq> mem3 s a j i)"
proof
  assume "t_elems k s' \<noteq> t_elems k s"
  then show "\<exists>a < k. \<exists>j i. mem3 s' a j i \<noteq> mem3 s a j i" unfolding t_elems_def by blast
next
  assume "\<exists>a < k. \<exists>j i. mem3 s' a j i \<noteq> mem3 s a j i"
  then obtain a j i where d: "a < k" "mem3 s' a j i \<noteq> mem3 s a j i" by blast
  then have "j < 64" "i < 64" using cell_bounds(2,3) by metis+
  then show "t_elems k s' \<noteq> t_elems k s" using elems_mem3 [where a = a and k = k and s = s] elems_mem3 [where a = a and k = k and s = s'] d by blast
qed

lemma word_differ: "x \<noteq> y \<longleftrightarrow> (\<exists>i. bit x i \<noteq> bit (y :: uptr) i)"
  using bit_word_eqI [of x y] by blast

lemma or_zero: "x OR y = 0 \<longleftrightarrow> x = 0 \<and> y = (0 :: uptr)"
  using word_differ [of "x OR y" 0] word_differ [of x 0] word_differ [of y 0] by (auto simp: bit_or_iff)

lemma t_finite_elems: "finite (t_elems k s)"
proof (rule finite_subset)
  show "t_elems k s \<subseteq> {..<k * 4096}" by (auto simp: t_elems_def div_less_iff_less_mult)
qed simp

lemma elems_less: "n \<in> t_elems k s \<Longrightarrow> n < t_size k"
  by (auto simp: t_elems_def t_size_def bv_size_def div_less_iff_less_mult mult.commute)

lemma t_empty_iff: "t_ok k s \<Longrightarrow> t_empty k s \<longleftrightarrow> t_elems k s = {}"
proof
  assume "t_empty k s"
  then show "t_elems k s = {}" by (auto simp: t_empty_def t_elems_def mem3_def cell_def bv_empty_def)
next
  assume ok: "t_ok k s" and e: "t_elems k s = {}"
  have "\<not> bit (lev1 s a) j" if "a < k" for a j
  proof
    assume "bit (lev1 s a) j"
    then have "lev2 s a j \<noteq> 0" using ok that by (auto simp: t_ok_def cell_def)
    then obtain i where "bit (lev2 s a j) i" by (auto simp: word_differ)
    then have "mem3 s a j i" using \<open>bit (lev1 s a) j\<close> by (simp add: mem3_def cell_def)
    then show False using mem3_elems [OF that] e by blast
  qed
  then show "t_empty k s" by (simp add: t_empty_def bv_empty_iff)
qed

section \<open>Union, intersection, difference\<close>

lemma t_setUnion_ok:
  assumes v: "t_ok k v" and s: "t_ok k s"
  shows "\<exists>s'. t_setUnion k v s = Inr (t_elems k s' \<noteq> t_elems k s, s') \<and> t_ok k s' \<and> t_elems k s' = t_elems k s \<union> t_elems k v"
proof -
  let ?g = "\<lambda>a j x. if bit (lev1 v a) j then union_cell v a j x else x"
  let ?c = "\<lambda>a row. \<exists>j. bit (lev1 v a) j \<and> (case row j of (b, x) \<Rightarrow> (if b then x else 0) OR lev2 v a j \<noteq> (if b then x else 0))"
  have "rowwise (\<lambda>i0. each_bit (union_word v i0) (lev1 v i0)) k ?g ?c"
    unfolding rowwise_def
  proof (intro allI impI)
    fix i r and s :: tlbv
    show "\<exists>s'. each_bit (union_word v i) (lev1 v i) (r, s) = Inr (r \<or> ?c i (cell s i), s') \<and>
        (\<forall>a j. cell s' a j = (if a = i then ?g i j (cell s a j) else cell s a j))"
      using each_bit_cells [OF union_word_cells [of v i], where t = "lev1 v i" and r = r and s = s] by (elim exE) auto
  qed
  from for_upto_rows [OF this, of False s] obtain s' where
    r: "t_setUnion k v s = Inr (\<exists>i < k. ?c i (cell s i), s')"
    and c: "\<And>a j. cell s' a j = (if a < k then ?g a j (cell s a j) else cell s a j)"
    unfolding t_setUnion_def by auto
  have m: "mem3 s' a j i \<longleftrightarrow> mem3 s a j i \<or> mem3 v a j i" if "a < k" for a j i
    using that unfolding mem3_def c by (auto simp: union_cell_def cell_def bit_or_iff)
  have e: "t_elems k s' = t_elems k s \<union> t_elems k v"
    unfolding t_elems_def using m by blast
  have ok: "t_ok k s'"
    unfolding t_ok_def
  proof (intro allI impI)
    fix a j
    assume a: "a < k" and f: "fst (cell s' a j)"
    have "lev2 v a j \<noteq> 0" if "bit (lev1 v a) j" using v a that by (auto simp: t_ok_def cell_def)
    then show "snd (cell s' a j) \<noteq> 0"
      using f s a unfolding c t_ok_def by (auto simp: union_cell_def cell_def or_zero split: if_splits)
  qed
  have "(\<exists>i < k. ?c i (cell s i)) \<longleftrightarrow> (\<exists>a < k. \<exists>j i. mem3 s' a j i \<noteq> mem3 s a j i)"
  proof -
    have "?c a (cell s a) \<longleftrightarrow> (\<exists>j i. mem3 s' a j i \<noteq> mem3 s a j i)" if "a < k" for a
    proof -
      have c: "?c a (cell s a) \<longleftrightarrow> (\<exists>j i. mem3 v a j i \<and> \<not> mem3 s a j i)"
        unfolding word_differ by (auto simp: mem3_def cell_def bit_or_iff split: if_splits)
      have e: "mem3 s' a j i \<noteq> mem3 s a j i \<longleftrightarrow> mem3 v a j i \<and> \<not> mem3 s a j i" for j i using m [OF that] by auto
      show ?thesis unfolding c e ..
    qed
    then show ?thesis by - (rule ex_cong1, rule conj_cong [OF refl])
  qed
  then have "(\<exists>i < k. ?c i (cell s i)) \<longleftrightarrow> t_elems k s' \<noteq> t_elems k s" unfolding elems_differ .
  then show ?thesis using r ok e by simp
qed

text \<open>Intersection and difference keep or drop bits; a word that becomes empty is taken out of the first level.\<close>

lemma sub_rows:
  assumes v: "t_ok k s" and r: "rowwise f k g c"
    and gT: "\<And>a j x. a < k \<Longrightarrow> x \<noteq> 0 \<Longrightarrow> fst (g a j (True, x)) \<longleftrightarrow> w a j x \<noteq> 0"
      "\<And>a j x. a < k \<Longrightarrow> w a j x \<noteq> 0 \<Longrightarrow> snd (g a j (True, x)) = w a j x"
    and gF: "\<And>a j x. a < k \<Longrightarrow> \<not> fst (g a j (False, x))"
    and w: "\<And>a j b x i. a < k \<Longrightarrow> bit (lev1 s a) j \<Longrightarrow> bit (w a j (lev2 s a j)) i \<longleftrightarrow> bit (lev2 s a j) i \<and> Q a j i"
    and c: "\<And>a. a < k \<Longrightarrow> c a (cell s a) \<longleftrightarrow> (\<exists>j. bit (lev1 s a) j \<and> w a j (lev2 s a j) \<noteq> lev2 s a j)"
  shows "\<exists>s'. for_upto f k (False, s) = Inr (t_elems k s' \<noteq> t_elems k s, s') \<and> t_ok k s' \<and>
    t_elems k s' = {n \<in> t_elems k s. Q (n div 4096) (n div 64 mod 64) (n mod 64)}"
proof -
  from for_upto_rows [OF r, of False s] obtain s' where
    run: "for_upto f k (False, s) = Inr (\<exists>i < k. c i (cell s i), s')"
    and cl: "\<And>a j. cell s' a j = (if a < k then g a j (cell s a j) else cell s a j)"
    by auto
  have nz: "a < k \<Longrightarrow> bit (lev1 s a) j \<Longrightarrow> lev2 s a j \<noteq> 0" for a j using v by (simp add: t_ok_def cell_def)
  have m: "mem3 s' a j i \<longleftrightarrow> mem3 s a j i \<and> Q a j i" if a: "a < k" for a j i
  proof (cases "bit (lev1 s a) j")
    case True
    have c': "cell s' a j = g a j (True, lev2 s a j)" using True a unfolding cl by (simp add: cell_def)
    show ?thesis
    proof (cases "w a j (lev2 s a j) = 0")
      case True0: True
      then have "\<not> Q a j i \<or> \<not> bit (lev2 s a j) i" using w [OF a True, of i] by auto
      then show ?thesis using gT(1) [OF a nz [OF a True]] True0 unfolding mem3_def c' by (auto simp: cell_def)
    next
      case F: False
      then show ?thesis using gT(1) [OF a nz [OF a True]] gT(2) [OF a F] w [OF a True, of i] True unfolding mem3_def c' by (auto simp: cell_def)
    qed
  next
    case False
    then have "\<not> fst (cell s' a j)" using gF [OF a, of j "lev2 s a j"] a unfolding cl by (simp add: cell_def)
    then show ?thesis using False by (simp add: mem3_def cell_def)
  qed
  have e: "t_elems k s' = {n \<in> t_elems k s. Q (n div 4096) (n div 64 mod 64) (n mod 64)}"
    unfolding t_elems_def using m by blast
  have ok: "t_ok k s'"
    unfolding t_ok_def
  proof (intro allI impI)
    fix a j
    assume a: "a < k" and f: "fst (cell s' a j)"
    have b: "bit (lev1 s a) j"
    proof (rule ccontr)
      assume "\<not> bit (lev1 s a) j"
      then show False using f gF [OF a, of j "lev2 s a j"] a unfolding cl by (simp add: cell_def)
    qed
    then have "cell s' a j = g a j (True, lev2 s a j)" using a b unfolding cl by (simp add: cell_def)
    then show "snd (cell s' a j) \<noteq> 0" using f gT(1) [OF a nz [OF a b]] gT(2) [OF a, of j "lev2 s a j"] by simp
  qed
  have "c a (cell s a) \<longleftrightarrow> (\<exists>j i. mem3 s' a j i \<noteq> mem3 s a j i)" if a: "a < k" for a
  proof -
    have "w a j (lev2 s a j) \<noteq> lev2 s a j \<longleftrightarrow> (\<exists>i. bit (lev2 s a j) i \<and> \<not> Q a j i)" if "bit (lev1 s a) j" for j
      unfolding word_differ w [OF a that] by blast
    then have cc: "c a (cell s a) \<longleftrightarrow> (\<exists>j i. mem3 s a j i \<and> \<not> Q a j i)"
      unfolding c [OF a] mem3_def cell_def fst_conv snd_conv by blast
    have e: "mem3 s' a j i \<noteq> mem3 s a j i \<longleftrightarrow> mem3 s a j i \<and> \<not> Q a j i" for j i using m [OF a] by auto
    show ?thesis unfolding cc e ..
  qed
  then have "(\<exists>i < k. c i (cell s i)) \<longleftrightarrow> t_elems k s' \<noteq> t_elems k s"
    unfolding elems_differ by - (rule ex_cong1, rule conj_cong [OF refl])
  then show ?thesis using run ok e by simp
qed

lemma t_setIntersection_ok:
  assumes v: "t_ok k v" and s: "t_ok k s"
  shows "\<exists>s'. t_setIntersection k v s = Inr (t_elems k s' \<noteq> t_elems k s, s') \<and> t_ok k s' \<and>
    t_elems k s' = t_elems k s \<inter> t_elems k v"
proof -
  let ?w = "\<lambda>a j x. if bit (lev1 v a) j then x AND lev2 v a j else 0"
  let ?g = "\<lambda>a j (b, x). if b \<and> bit (lev1 v a) j then (x AND lev2 v a j \<noteq> 0, x AND lev2 v a j) else (False, x)"
  let ?c = "\<lambda>a row. \<exists>j. fst (row j) \<and> (\<not> bit (lev1 v a) j \<or> snd (row j) AND lev2 v a j \<noteq> snd (row j))"
  let ?f = "\<lambda>i0 (res, s :: tlbv). let (chg, w) = bv_setIntersection (lev1 v i0) (lev1 s i0);
         s1 = set_lev1 i0 w s; res1 = (if chg then True else res)
     in if \<not> bv_empty (lev1 s1 i0) then each_bit (inter_word v i0) (lev1 s1 i0) (res1, s1) else Inr (res1, s1)"
  have row: "rowwise ?f k ?g ?c"
    unfolding rowwise_def
  proof (intro allI impI)
    fix i r and s :: tlbv
    let ?s1 = "set_lev1 i (lev1 s i AND lev1 v i) s" and ?t = "lev1 s i AND lev1 v i"
    let ?r1 = "if ?t \<noteq> lev1 s i then True else r"
    have f: "?f i (r, s) = each_bit (inter_word v i) ?t (?r1, ?s1)"
      by (auto simp: bv_setIntersection_def Let_def each_bit.simps [of _ 0] bv_empty_def)
    obtain s' where s': "each_bit (inter_word v i) ?t (?r1, ?s1) = Inr (?r1 \<or> (\<exists>j. bit ?t j \<and>
        (case cell ?s1 i j of (b, x) \<Rightarrow> x AND lev2 v i j \<noteq> x)), s')"
      "\<And>a j. cell s' a j = (if a = i \<and> bit ?t j then case cell ?s1 a j of (b, x) \<Rightarrow> (b \<and> x AND lev2 v i j \<noteq> 0, x AND lev2 v i j)
         else cell ?s1 a j)"
      using each_bit_cells [OF inter_word_cells [of v i], where t = ?t and r = ?r1 and s = ?s1] by blast
    have "?r1 \<longleftrightarrow> r \<or> (\<exists>j. bit (lev1 s i) j \<and> \<not> bit (lev1 v i) j)"
      using word_differ [of ?t "lev1 s i"] by (auto simp: bit_and_iff)
    then have "(?r1 \<or> (\<exists>j. bit ?t j \<and> (case cell ?s1 i j of (b, x) \<Rightarrow> x AND lev2 v i j \<noteq> x))) \<longleftrightarrow> r \<or> ?c i (cell s i)"
      by (auto simp: cell_def bit_and_iff)
    moreover have "cell s' a j = (if a = i then ?g i j (cell s a j) else cell s a j)" for a j
      unfolding s'(2) by (auto simp: cell_def bit_and_iff)
    ultimately show "\<exists>s'. ?f i (r, s) = Inr (r \<or> ?c i (cell s i), s') \<and>
        (\<forall>a j. cell s' a j = (if a = i then ?g i j (cell s a j) else cell s a j))"
      unfolding f s'(1) by (intro exI [of _ s'] conjI allI) simp_all
  qed
  have "\<exists>s'. for_upto ?f k (False, s) = Inr (t_elems k s' \<noteq> t_elems k s, s') \<and> t_ok k s' \<and>
    t_elems k s' = {n \<in> t_elems k s. mem3 v (n div 4096) (n div 64 mod 64) (n mod 64)}"
  proof (rule sub_rows [OF s row, where w = ?w])
    fix a
    assume "a < k"
    then have "lev2 s a j \<noteq> 0" if "bit (lev1 s a) j" for j using s that by (simp add: t_ok_def cell_def)
    then show "?c a (cell s a) \<longleftrightarrow> (\<exists>j. bit (lev1 s a) j \<and> ?w a j (lev2 s a j) \<noteq> lev2 s a j)"
      unfolding cell_def fst_conv snd_conv by (metis (full_types))
  qed (auto simp: bit_and_iff mem3_def cell_def)
  moreover have "{n \<in> t_elems k s. mem3 v (n div 4096) (n div 64 mod 64) (n mod 64)} = t_elems k s \<inter> t_elems k v"
    by (auto simp: t_elems_def)
  ultimately show ?thesis unfolding t_setIntersection_def by simp
qed

lemma t_setDifference_ok:
  assumes v: "t_ok k v" and s: "t_ok k s"
  shows "\<exists>s'. t_setDifference k v s = Inr (t_elems k s' \<noteq> t_elems k s, s') \<and> t_ok k s' \<and>
    t_elems k s' = t_elems k s - t_elems k v"
proof -
  let ?w = "\<lambda>a j x. if bit (lev1 v a) j then x AND NOT (lev2 v a j) else x"
  let ?g = "\<lambda>a j (b, x). if b \<and> bit (lev1 v a) j then (x AND NOT (lev2 v a j) \<noteq> 0, x AND NOT (lev2 v a j)) else (b, x)"
  let ?c = "\<lambda>a row. \<exists>j. fst (row j) \<and> bit (lev1 v a) j \<and> snd (row j) AND NOT (lev2 v a j) \<noteq> snd (row j)"
  let ?f = "\<lambda>i0 (res, s :: tlbv). let (_, t) = bv_setIntersection (lev1 v i0) (lev1 s i0) in each_bit (diff_word v i0) t (res, s)"
  have row: "rowwise ?f k ?g ?c"
    unfolding rowwise_def
  proof (intro allI impI)
    fix i r and s :: tlbv
    let ?t = "lev1 s i AND lev1 v i"
    have f: "?f i (r, s) = each_bit (diff_word v i) ?t (r, s)" by (simp add: bv_setIntersection_def Let_def)
    obtain s' where s': "each_bit (diff_word v i) ?t (r, s) = Inr (r \<or> (\<exists>j. bit ?t j \<and>
        (case cell s i j of (b, x) \<Rightarrow> x AND NOT (lev2 v i j) \<noteq> x)), s')"
      "\<And>a j. cell s' a j = (if a = i \<and> bit ?t j then case cell s a j of (b, x) \<Rightarrow>
         (b \<and> x AND NOT (lev2 v i j) \<noteq> 0, x AND NOT (lev2 v i j)) else cell s a j)"
      using each_bit_cells [OF diff_word_cells [of v i], where t = ?t and r = r and s = s] by blast
    have "(r \<or> (\<exists>j. bit ?t j \<and> (case cell s i j of (b, x) \<Rightarrow> x AND NOT (lev2 v i j) \<noteq> x))) \<longleftrightarrow> r \<or> ?c i (cell s i)"
      by (auto simp: cell_def bit_and_iff)
    moreover have "cell s' a j = (if a = i then ?g i j (cell s a j) else cell s a j)" for a j
      unfolding s'(2) by (auto simp: cell_def bit_and_iff)
    ultimately show "\<exists>s'. ?f i (r, s) = Inr (r \<or> ?c i (cell s i), s') \<and>
        (\<forall>a j. cell s' a j = (if a = i then ?g i j (cell s a j) else cell s a j))"
      unfolding f s'(1) by (intro exI [of _ s'] conjI allI) simp_all
  qed
  have "\<exists>s'. for_upto ?f k (False, s) = Inr (t_elems k s' \<noteq> t_elems k s, s') \<and> t_ok k s' \<and>
    t_elems k s' = {n \<in> t_elems k s. \<not> mem3 v (n div 4096) (n div 64 mod 64) (n mod 64)}"
  proof (rule sub_rows [OF s row, where w = ?w])
    fix a j i
    assume "a < k" "bit (lev1 s a) j"
    show "bit (?w a j (lev2 s a j)) i \<longleftrightarrow> bit (lev2 s a j) i \<and> \<not> mem3 v a j i"
      using bit_imp_le_length [of "lev2 s a j" i] by (auto simp: bit_and_iff bit_not_iff mem3_def cell_def)
  next
    fix a
    assume "a < k"
    then show "?c a (cell s a) \<longleftrightarrow> (\<exists>j. bit (lev1 s a) j \<and> ?w a j (lev2 s a j) \<noteq> lev2 s a j)"
      by (auto simp: cell_def)
  qed auto
  moreover have "{n \<in> t_elems k s. \<not> mem3 v (n div 4096) (n div 64 mod 64) (n mod 64)} = t_elems k s - t_elems k v"
    by (auto simp: t_elems_def)
  ultimately show ?thesis unfolding t_setDifference_def by simp
qed

section \<open>Clearing, filling, single bits\<close>

lemma t_clear_cells: "cell (t_clear k s) a j = (if a < k then (False, lev2 s a j) else cell s a j)"
proof -
  have "cell (t_clear k s) a j = (if a < k then (False, lev2 s a j) else cell s a j) \<and> lev2 (t_clear k s) = lev2 s" for a j
    by (induction k) (auto simp: t_clear_def bv_clear_def less_Suc_eq)
  then show ?thesis by blast
qed

lemma t_clear_ok: "t_ok k (t_clear k s)" "t_elems k (t_clear k s) = {}"
  by (auto simp: t_ok_def t_elems_def mem3_def t_clear_cells)

lemma fill_row:
  "lev1 (fill_words i0 n s) = lev1 s" "lev2 (fill_words i0 n s) a j = (if a = i0 \<and> j < n then NOT 0 else lev2 s a j)"
  by (induction n) (auto simp: Let_def bv_setAll_def less_Suc_eq)

lemma t_setAll_rows:
  "lev1 (t_setAll k s) a = (if a < k then NOT 0 else lev1 s a)"
  "lev2 (t_setAll k s) a j = (if a < k \<and> j < 64 then NOT 0 else lev2 s a j)"
  by (induction k) (auto simp: Let_def bv_setAll_def bv_size_def fill_row less_Suc_eq)

lemma t_setAll_cells: "cell (t_setAll k s) a j = (if a < k then (j < 64, if j < 64 then NOT 0 else lev2 s a j) else cell s a j)"
  by (auto simp: cell_def t_setAll_rows bit_not_iff dest: bit_imp_le_length)

lemma t_setAll_ok: "t_ok k (t_setAll k s)" "t_elems k (t_setAll k s) = {..<t_size k}"
  by (auto simp: t_ok_def t_elems_def mem3_def t_setAll_cells bit_not_iff t_size_def bv_size_def div_less_iff_less_mult)

lemma t_at_eq: "idx < t_size k \<Longrightarrow> t_at k idx f = f (idx div 4096) (idx div 64 mod 64) (idx mod 64)"
proof -
  assume "idx < t_size k"
  then have "idx div 4096 < k" by (simp add: t_size_def bv_size_def div_less_iff_less_mult mult.commute)
  moreover have "idx div 64 mod 64 \<le> 64" "idx mod 64 \<le> 64" by (simp_all add: less_imp_le)
  ultimately show ?thesis
    using \<open>idx < t_size k\<close> by (simp add: t_at_def t_check_def t_idx0_def t_idx1_def t_idx2_def bv_size_def Let_def)
qed

text \<open>An operation that changes the cell of \<open>idx\<close> only, and there only the bit of \<open>idx\<close>.\<close>

lemma one_bit:
  assumes idx: "idx < t_size k" and s: "t_ok k s"
    and c: "\<And>a j. \<not> (a = idx div 4096 \<and> j = idx div 64 mod 64) \<Longrightarrow> cell s' a j = cell s a j"
    and m: "\<And>i. mem3 s' (idx div 4096) (idx div 64 mod 64) i \<longleftrightarrow> (if i = idx mod 64 then v else mem3 s (idx div 4096) (idx div 64 mod 64) i)"
    and ok: "fst (cell s' (idx div 4096) (idx div 64 mod 64)) \<Longrightarrow> snd (cell s' (idx div 4096) (idx div 64 mod 64)) \<noteq> 0"
  shows "t_ok k s'" "t_elems k s' = (if v then insert idx (t_elems k s) else t_elems k s - {idx})"
proof -
  have "fst (cell s' a j) \<longrightarrow> snd (cell s' a j) \<noteq> 0" if "a < k" for a j
    using s c [of a j] ok that unfolding t_ok_def by (cases "a = idx div 4096 \<and> j = idx div 64 mod 64") auto
  then show "t_ok k s'" by (simp add: t_ok_def)
  have ik: "idx div 4096 < k" using idx by (simp add: t_size_def bv_size_def div_less_iff_less_mult mult.commute)
  have eq: "n = idx" if "n div 4096 = idx div 4096" "n div 64 mod 64 = idx div 64 mod 64" "n mod 64 = idx mod 64" for n
  proof -
    have d: "x div 64 = x div 4096 * 64 + x div 64 mod 64" for x :: nat
      using div_mult_mod_eq [of "x div 64" 64] by (simp add: div_mult2_eq [symmetric])
    have "n div 64 = n div 4096 * 64 + n div 64 mod 64" by (rule d)
    also have "\<dots> = idx div 4096 * 64 + idx div 64 mod 64" using that(1,2) by simp
    also have "\<dots> = idx div 64" by (rule d [symmetric])
    finally have "n div 64 * 64 + n mod 64 = idx div 64 * 64 + idx mod 64" using that(3) by simp
    then show ?thesis by (simp only: div_mult_mod_eq)
  qed
  have "n \<in> t_elems k s' \<longleftrightarrow> (if n = idx then v else n \<in> t_elems k s)" for n
  proof (cases "n div 4096 = idx div 4096 \<and> n div 64 mod 64 = idx div 64 mod 64")
    case True
    then have e: "n \<in> t_elems k s' \<longleftrightarrow> (if n mod 64 = idx mod 64 then v else n \<in> t_elems k s)"
      using m [of "n mod 64"] ik by (simp add: t_elems_def)
    have "n mod 64 = idx mod 64 \<longleftrightarrow> n = idx" using eq [of n] True by blast
    then show ?thesis unfolding e by simp
  next
    case False
    then have "mem3 s' (n div 4096) (n div 64 mod 64) (n mod 64) = mem3 s (n div 4096) (n div 64 mod 64) (n mod 64)"
      using c by (simp add: mem3_def)
    then have "n \<in> t_elems k s' \<longleftrightarrow> n \<in> t_elems k s" by (simp add: t_elems_def)
    moreover have "n \<noteq> idx" using False by blast
    ultimately show ?thesis by simp
  qed
  then have "n \<in> t_elems k s' \<longleftrightarrow> n \<in> (if v then insert idx (t_elems k s) else t_elems k s - {idx})" for n
    by (cases "n = idx"; cases v) simp_all
  then show "t_elems k s' = (if v then insert idx (t_elems k s) else t_elems k s - {idx})" by (rule set_eqI)
qed

lemma t_getBit_ok: "idx < t_size k \<Longrightarrow> t_getBit k idx s = Inr (idx \<in> t_elems k s)"
proof -
  assume i: "idx < t_size k"
  then have "idx div 4096 < k" by (simp add: t_size_def bv_size_def div_less_iff_less_mult mult.commute)
  then show ?thesis by (simp add: t_getBit_def t_at_eq [OF i] bv_getBit_eq t_elems_def mem3_def cell_def)
qed

lemma t_setBit_ok:
  assumes i: "idx < t_size k" and s: "t_ok k s"
  shows "\<exists>s'. t_setBit k idx s = Inr (idx \<notin> t_elems k s, s') \<and> t_ok k s' \<and> t_elems k s' = insert idx (t_elems k s)"
proof -
  let ?a = "idx div 4096" and ?j = "idx div 64 mod 64" and ?i = "idx mod 64"
  have ik: "?a < k" using i by (simp add: t_size_def bv_size_def div_less_iff_less_mult mult.commute)
  define s1 where "s1 = (if bit (lev1 s ?a) ?j then s else set_lev2 ?a ?j 0 (set_lev1 ?a (lev1 s ?a OR 2 ^ ?j) s))"
  define s' where "s' = set_lev2 ?a ?j (lev2 s1 ?a ?j OR 2 ^ ?i) s1"
  have run: "t_setBit k idx s = Inr (\<not> bit (lev2 s1 ?a ?j) ?i, s')"
    by (simp add: t_setBit_def t_at_eq [OF i] bv_getBit_eq bv_setBit_eq bv_clear_def Let_def s1_def s'_def)
  have flag: "\<not> bit (lev2 s1 ?a ?j) ?i \<longleftrightarrow> idx \<notin> t_elems k s"
    using ik by (auto simp: s1_def t_elems_def mem3_def cell_def)
  have c: "cell s' a j = cell s a j" if "\<not> (a = ?a \<and> j = ?j)" for a j
    using that by (auto simp: s'_def s1_def cell_def)
  have m: "mem3 s' ?a ?j n \<longleftrightarrow> (if n = ?i then True else mem3 s ?a ?j n)" for n
    by (auto simp: s'_def s1_def mem3_def cell_def)
  have "bit (lev2 s1 ?a ?j OR 2 ^ ?i) ?i" by simp
  then have "lev2 s1 ?a ?j OR 2 ^ ?i \<noteq> 0" using bit_0_eq by (metis bot_apply bot_bool_def)
  then have ok: "snd (cell s' ?a ?j) \<noteq> 0" by (simp add: s'_def)
  from one_bit [OF i s c m ok] show ?thesis using run flag by simp
qed

lemma t_clearBit_ok:
  assumes i: "idx < t_size k" and s: "t_ok k s"
  shows "\<exists>s'. t_clearBit k idx s = Inr (idx \<in> t_elems k s, s') \<and> t_ok k s' \<and> t_elems k s' = t_elems k s - {idx}"
proof -
  let ?a = "idx div 4096" and ?j = "idx div 64 mod 64" and ?i = "idx mod 64"
  have ik: "?a < k" using i by (simp add: t_size_def bv_size_def div_less_iff_less_mult mult.commute)
  let ?x = "lev2 s ?a ?j AND NOT (2 ^ ?i)"
  define s' where "s' = (if bit (lev1 s ?a) ?j then if ?x = 0 then set_lev1 ?a (lev1 s ?a AND NOT (2 ^ ?j)) (set_lev2 ?a ?j ?x s)
      else set_lev2 ?a ?j ?x s else s)"
  have run: "t_clearBit k idx s = Inr (bit (lev1 s ?a) ?j \<and> bit (lev2 s ?a ?j) ?i, s')"
    by (simp add: t_clearBit_def t_at_eq [OF i] bv_getBit_eq bv_clearBit_eq bv_empty_def Let_def s'_def)
  have flag: "bit (lev1 s ?a) ?j \<and> bit (lev2 s ?a ?j) ?i \<longleftrightarrow> idx \<in> t_elems k s"
    using ik by (auto simp: t_elems_def mem3_def cell_def)
  have c: "cell s' a j = cell s a j" if "\<not> (a = ?a \<and> j = ?j)" for a j
    using that by (auto simp: s'_def cell_def)
  have z: "?x = 0 \<Longrightarrow> bit (lev2 s ?a ?j) n \<Longrightarrow> n = ?i" for n
    using bit_set_clear(2) [of "lev2 s ?a ?j" ?i n] by (auto simp del: bit_set_clear)
  have m: "mem3 s' ?a ?j n \<longleftrightarrow> (if n = ?i then False else mem3 s ?a ?j n)" for n
    using z [of n] by (auto simp: s'_def mem3_def cell_def)
  have "fst (cell s' ?a ?j) \<Longrightarrow> snd (cell s' ?a ?j) \<noteq> 0"
    using s ik by (auto simp: s'_def cell_def t_ok_def split: if_splits)
  from one_bit [OF i s c m this] show ?thesis using run flag by simp
qed

section \<open>Taking out the first element\<close>

lemma decompose: "(n::nat) = n div 4096 * 4096 + n div 64 mod 64 * 64 + n mod 64"
proof -
  have "n div 64 = n div 4096 * 64 + n div 64 mod 64"
    using div_mult_mod_eq [of "n div 64" 64] by (simp add: div_mult2_eq [symmetric])
  then have "n div 64 * 64 = n div 4096 * 4096 + n div 64 mod 64 * 64" by simp
  then show ?thesis using div_mult_mod_eq [of n 64] by linarith
qed

lemma index_mono:
  assumes "(i0::nat) \<le> a" "a = i0 \<Longrightarrow> i1 \<le> j" "a = i0 \<Longrightarrow> j = i1 \<Longrightarrow> i2 \<le> i" "i1 < 64" "i2 < 64"
  shows "i0 * 4096 + i1 * 64 + i2 \<le> a * 4096 + j * 64 + i"
proof (cases "a = i0")
  case True
  then show ?thesis using assms by (cases "j = i1") auto
next
  case False
  then show ?thesis using assms by auto
qed

lemma t_first_row:
  assumes a: "i0 < k" and s: "t_ok k s" and ne: "lev1 s i0 \<noteq> 0" and below: "\<And>a. a < i0 \<Longrightarrow> lev1 s a = 0"
  shows "\<exists>s'. t_first_from i0 (Suc n) s = Inr (Min (t_elems k s), s') \<and> t_ok k s' \<and>
    t_elems k s' = t_elems k s - {Min (t_elems k s)} \<and> Min (t_elems k s) \<in> t_elems k s"
proof -
  obtain i1 w where w: "bv_getAndClearFirstOne (lev1 s i0) = Inr (i1, w)" "i1 < 64" "bit (lev1 s i0) i1"
    "\<And>j. bit (lev1 s i0) j \<Longrightarrow> i1 \<le> j" "\<And>j. bit w j \<longleftrightarrow> bit (lev1 s i0) j \<and> j \<noteq> i1"
    using bv_first [OF ne] by metis
  have "lev2 s i0 i1 \<noteq> 0" using s a w(3) by (simp add: t_ok_def cell_def)
  then obtain i2 x where x: "bv_getAndClearFirstOne (lev2 s i0 i1) = Inr (i2, x)" "i2 < 64" "bit (lev2 s i0 i1) i2"
    "\<And>j. bit (lev2 s i0 i1) j \<Longrightarrow> i2 \<le> j" "\<And>j. bit x j \<longleftrightarrow> bit (lev2 s i0 i1) j \<and> j \<noteq> i2"
    using bv_first by metis
  define r where "r = i0 * 4096 + i1 * 64 + i2"
  have idx: "r div 4096 = i0" "r div 64 mod 64 = i1" "r mod 64 = i2" unfolding r_def using w(2) x(2) by (simp_all only: index3)
  have r: "r \<in> t_elems k s" using a w(3) x(3) by (simp add: t_elems_def idx mem3_def cell_def)
  have "r \<le> n" if n: "n \<in> t_elems k s" for n
  proof -
    let ?a = "n div 4096" and ?j = "n div 64 mod 64" and ?i = "n mod 64"
    have m: "mem3 s ?a ?j ?i" using n by (simp add: t_elems_def)
    then have "lev1 s ?a \<noteq> 0" by (auto simp: mem3_def cell_def)
    then have "i0 \<le> ?a" using below by (meson not_le)
    moreover have "i1 \<le> ?j" if "?a = i0" using m that w(4) by (simp add: mem3_def cell_def)
    moreover have "i2 \<le> ?i" if "?a = i0" "?j = i1" using m that x(4) by (simp add: mem3_def cell_def)
    ultimately have "i0 * 4096 + i1 * 64 + i2 \<le> ?a * 4096 + ?j * 64 + ?i" by (rule index_mono [OF _ _ _ w(2) x(2)])
    then show ?thesis using decompose [of n] by (simp add: r_def)
  qed
  then have mn: "Min (t_elems k s) = r" using r t_finite_elems by (intro Min_eqI) auto
  define s' where "s' = (if x \<noteq> 0 then set_lev1 i0 (w OR 2 ^ i1) (set_lev2 i0 i1 x (set_lev1 i0 w s))
     else set_lev2 i0 i1 x (set_lev1 i0 w s))"
  have run: "t_first_from i0 (Suc n) s = Inr (r, s')"
    using ne w(1,2) x(1) by (auto simp: bv_empty_def Let_def bv_setBit_eq r_def bv_size_def s'_def)
  have c: "cell s' a j = cell s a j" if "\<not> (a = r div 4096 \<and> j = r div 64 mod 64)" for a j
    using that unfolding idx by (auto simp: s'_def cell_def w(5))
  have x0: "x = 0 \<Longrightarrow> bit (lev2 s i0 i1) n \<Longrightarrow> n = i2" for n using x(5) [of n] by auto
  have m: "mem3 s' (r div 4096) (r div 64 mod 64) n \<longleftrightarrow> (if n = r mod 64 then False else mem3 s (r div 4096) (r div 64 mod 64) n)" for n
    unfolding idx using x0 [of n] w(2,3) by (auto simp: s'_def mem3_def cell_def w(5) x(5))
  have "fst (cell s' (r div 4096) (r div 64 mod 64)) \<Longrightarrow> snd (cell s' (r div 4096) (r div 64 mod 64)) \<noteq> 0"
    unfolding idx by (auto simp: s'_def cell_def w(5) split: if_splits)
  from one_bit [OF elems_less [OF r] s c m this] show ?thesis using run r mn by simp
qed

lemma t_first_from_ok:
  assumes s: "t_ok k s" and ne: "t_elems k s \<noteq> {}"
  shows "i0 + n = k \<Longrightarrow> (\<And>a. a < i0 \<Longrightarrow> lev1 s a = 0) \<Longrightarrow> \<exists>s'. t_first_from i0 n s = Inr (Min (t_elems k s), s') \<and> t_ok k s' \<and>
    t_elems k s' = t_elems k s - {Min (t_elems k s)} \<and> Min (t_elems k s) \<in> t_elems k s"
proof (induction n arbitrary: i0)
  case 0
  then have "t_empty k s" by (simp add: t_empty_def bv_empty_def)
  then show ?case using t_empty_iff [OF s] ne by simp
next
  case (Suc n)
  show ?case
  proof (cases "lev1 s i0 = 0")
    case True
    then have "\<exists>s'. t_first_from (Suc i0) n s = Inr (Min (t_elems k s), s') \<and> t_ok k s' \<and>
        t_elems k s' = t_elems k s - {Min (t_elems k s)} \<and> Min (t_elems k s) \<in> t_elems k s"
      using Suc.prems by (intro Suc.IH) (auto simp: less_Suc_eq)
    then show ?thesis using True by (simp add: bv_empty_def)
  next
    case False
    then show ?thesis using t_first_row [OF _ s False Suc.prems(2)] Suc.prems(1) by simp
  qed
qed

lemma t_first_ok:
  assumes "t_ok k s" "t_elems k s \<noteq> {}"
  shows "\<exists>s'. t_getAndClearFirstOne k s = Inr (Min (t_elems k s), s') \<and> t_ok k s' \<and>
    t_elems k s' = t_elems k s - {Min (t_elems k s)}"
  using t_first_from_ok [OF assms, of 0 k] by (auto simp: t_getAndClearFirstOne_def)

lemma t_copyFrom_ok:
  assumes "t_ok k v"
  shows "\<exists>s'. t_copyFrom k v s = Inr s' \<and> t_ok k s' \<and> t_elems k s' = t_elems k v"
  using t_setUnion_ok [OF assms t_clear_ok(1), of s] by (auto simp: t_copyFrom_def t_clear_ok(2))

lemma t_intersectsWith_ok: "t_intersectsWith k v s = Inr (t_elems k s \<inter> t_elems k v \<noteq> {})"
proof -
  let ?h = "\<lambda>i0 j. bit (lev1 s i0) j \<and> bit (lev1 v i0) j \<and> lev2 s i0 j AND lev2 v i0 j \<noteq> 0"
  let ?b = "\<lambda>i0 i1 found. if found then Inr True else bindr (bv_getBit i1 (lev1 v i0)) (\<lambda>b.
           Inr (b \<and> bv_intersectsWith (lev2 v i0 i1) (lev2 s i0 i1)))"
  have row: "\<exists>f. each_bit (?b i0) (lev1 s i0 AND lev1 v i0) False = Inr f \<and> (f \<longleftrightarrow> (\<exists>j. ?h i0 j))" for i0
  proof -
    let ?t = "lev1 s i0 AND lev1 v i0"
    let ?I = "\<lambda>(u :: uptr) f. (\<forall>j. bit u j \<longrightarrow> bit ?t j) \<and> (f \<longleftrightarrow> (\<exists>j. ?h i0 j \<and> \<not> bit u j))"
    have "\<exists>f. each_bit (?b i0) ?t False = Inr f \<and> ?I 0 f"
    proof (rule each_bit_inv [where I = ?I])
      show "?I ?t False" by (auto simp: bit_and_iff)
    next
      fix u t' :: uptr and f i
      assume I: "?I u f" and i: "bit u i" "i < 64" and t': "\<And>j. bit t' j \<longleftrightarrow> bit u j \<and> j \<noteq> i"
      have "bit (lev1 s i0) i" "bit (lev1 v i0) i" using I i by (auto simp: bit_and_iff)
      then show "\<exists>s'. ?b i0 i f = Inr s' \<and> ?I t' s'"
        using I i t' by (auto simp: bv_getBit_eq bv_intersectsWith_def)
    qed
    then show ?thesis by auto
  qed
  let ?f = "\<lambda>i0 found. if found then Inr True
     else let (_, t) = bv_setIntersection (lev1 v i0) (lev1 s i0) in each_bit (?b i0) t False"
  have "\<exists>f. for_upto ?f k False = Inr f \<and> (f \<longleftrightarrow> (\<exists>a < k. \<exists>j. ?h a j))"
  proof (rule for_upto_inv [where I = "\<lambda>n f. f \<longleftrightarrow> (\<exists>a < n. \<exists>j. ?h a j)"])
    fix i f
    assume "i < k" "f \<longleftrightarrow> (\<exists>a < i. \<exists>j. ?h a j)"
    then show "\<exists>s'. ?f i f = Inr s' \<and> (s' \<longleftrightarrow> (\<exists>a < Suc i. \<exists>j. ?h a j))"
      using row [of i] by (cases f) (auto simp: bv_setIntersection_def Let_def less_Suc_eq)
  qed simp
  then obtain f where f: "t_intersectsWith k v s = Inr f" "f \<longleftrightarrow> (\<exists>a < k. \<exists>j. ?h a j)" unfolding t_intersectsWith_def by blast
  have "(\<exists>a < k. \<exists>j. ?h a j) \<longleftrightarrow> t_elems k s \<inter> t_elems k v \<noteq> {}"
  proof
    assume "\<exists>a < k. \<exists>j. ?h a j"
    then obtain a j i where "a < k" "mem3 s a j i" "mem3 v a j i"
      using word_differ [of _ 0] by (auto simp: mem3_def cell_def bit_and_iff)
    then show "t_elems k s \<inter> t_elems k v \<noteq> {}" using mem3_elems [of a k s j i] mem3_elems [of a k v j i] by blast
  next
    assume "t_elems k s \<inter> t_elems k v \<noteq> {}"
    then obtain a j i where a: "a < k" "mem3 s a j i" "mem3 v a j i" by (auto simp: t_elems_def)
    then have "lev2 s a j AND lev2 v a j \<noteq> 0" using word_differ [of "lev2 s a j AND lev2 v a j" 0] by (auto simp: mem3_def cell_def bit_and_iff)
    then show "\<exists>a < k. \<exists>j. ?h a j" using a by (auto simp: mem3_def cell_def)
  qed
  then show ?thesis using f by simp
qed

section \<open>The iterator\<close>

text \<open>
  The elements an iterator has still to return: those of the rows to come, and of its own row those of the words left and
  the bits left of the current word. Between two rows both words of the iterator are empty and the row of \<open>it_i0\<close> is still to come.
\<close>

definition it_left :: "nat \<Rightarrow> tlbv \<Rightarrow> t_iter \<Rightarrow> nat set" where
  "it_left k b it = {n \<in> t_elems k b. it_i0 it < n div 4096 \<or>
     n div 4096 = it_i0 it \<and> (bit (it_1 it) (n div 64 mod 64) \<or> n div 64 mod 64 = it_i1 it \<and> bit (it_2 it) (n mod 64))}"

definition t_left :: "nat \<Rightarrow> tlbv \<Rightarrow> t_iter \<Rightarrow> nat set" where
  "t_left k b it = (if it_1 it = 0 \<and> it_2 it = 0 then {n \<in> t_elems k b. it_i0 it \<le> n div 4096} else it_left k b it)"

definition it_ok :: "nat \<Rightarrow> tlbv \<Rightarrow> t_iter \<Rightarrow> bool" where
  "it_ok k b it \<longleftrightarrow> it_i0 it \<le> k \<and> (it_1 it \<noteq> 0 \<or> it_2 it \<noteq> 0 \<longrightarrow> it_i0 it < k) \<and>
     (\<forall>j. bit (it_1 it) j \<longrightarrow> bit (lev1 b (it_i0 it)) j) \<and>
     (it_2 it \<noteq> 0 \<longrightarrow> bit (lev1 b (it_i0 it)) (it_i1 it) \<and> \<not> bit (it_1 it) (it_i1 it) \<and>
        (\<forall>i. bit (it_2 it) i \<longrightarrow> bit (lev2 b (it_i0 it) (it_i1 it)) i))"

lemma t_Iterator_ok: "it_ok k b t_Iterator" "t_left k b t_Iterator = t_elems k b"
  by (auto simp: it_ok_def t_left_def t_Iterator_def bv_clear_def)

lemma row_nonempty:
  assumes "t_ok k b" "a < k" "lev1 b a \<noteq> 0"
  obtains n where "n \<in> t_elems k b" "n div 4096 = a"
proof -
  obtain j where j: "bit (lev1 b a) j" using assms(3) by (auto simp: word_differ)
  then have "lev2 b a j \<noteq> 0" using assms by (auto simp: t_ok_def cell_def)
  then obtain i where "bit (lev2 b a j) i" by (auto simp: word_differ)
  then have m: "mem3 b a j i" using j by (simp add: mem3_def cell_def)
  show thesis
    using that [OF mem3_elems [OF assms(2) m]] index3(1) [of j i a] cell_bounds(2,3) [OF m] by simp
qed

lemma row_of: "n \<in> t_elems k b \<Longrightarrow> n div 4096 < k \<and> lev1 b (n div 4096) \<noteq> 0"
  by (auto simp: t_elems_def mem3_def cell_def)

lemma t_hasNext_iff:
  assumes b: "t_ok k b" and it: "it_ok k b it"
  shows "t_hasNext k b it \<longleftrightarrow> t_left k b it \<noteq> {}"
proof (cases "it_1 it = 0 \<and> it_2 it = 0")
  case True
  have "t_hasNext k b it \<longleftrightarrow> (\<exists>a. it_i0 it \<le> a \<and> a < k \<and> lev1 b a \<noteq> 0)"
    using True by (auto simp: t_hasNext_def bv_hasNext_def bv_empty_def)
  also have "\<dots> \<longleftrightarrow> (\<exists>n \<in> t_elems k b. it_i0 it \<le> n div 4096)"
    using row_nonempty [OF b] row_of by metis
  finally show ?thesis using True by (auto simp: t_left_def)
next
  case False
  then have i0: "it_i0 it < k" using it by (auto simp: it_ok_def)
  obtain j i where "mem3 b (it_i0 it) j i" and c: "bit (it_1 it) j \<or> j = it_i1 it \<and> bit (it_2 it) i"
  proof (cases "it_2 it = 0")
    case True
    then obtain j where j: "bit (it_1 it) j" using False by (auto simp: word_differ)
    then have l: "bit (lev1 b (it_i0 it)) j" using it by (auto simp: it_ok_def)
    then have "lev2 b (it_i0 it) j \<noteq> 0" using b i0 by (auto simp: t_ok_def cell_def)
    then obtain i where "bit (lev2 b (it_i0 it) j) i" by (auto simp: word_differ)
    then show thesis using that [of j i] j l by (auto simp: mem3_def cell_def)
  next
    case ne: False
    then obtain i where "bit (it_2 it) i" by (auto simp: word_differ)
    then show thesis using that [of "it_i1 it" i] it ne by (auto simp: it_ok_def mem3_def cell_def)
  qed
  then have "it_i0 it * 4096 + j * 64 + i \<in> t_left k b it"
    using mem3_elems [OF i0, of b j i] cell_bounds(2,3) [of b _ j i] False by (simp add: t_left_def it_left_def index3)
  moreover have "lev1 b (it_i0 it) \<noteq> 0" using \<open>mem3 b (it_i0 it) j i\<close> by (auto simp: mem3_def cell_def)
  then have "t_hasNext k b it" using i0 by (auto simp: t_hasNext_def bv_empty_def)
  ultimately show ?thesis by blast
qed

lemma t_seek_ok:
  assumes b: "t_ok k b"
  shows "it_ok k b it \<Longrightarrow> it_1 it = 0 \<Longrightarrow> it_2 it = 0 \<Longrightarrow> t_left k b it \<noteq> {} \<Longrightarrow> n = k - it_i0 it \<Longrightarrow>
    it_ok k b (t_seek b n it) \<and> it_1 (t_seek b n it) \<noteq> 0 \<and> it_2 (t_seek b n it) = 0 \<and> it_left k b (t_seek b n it) = t_left k b it"
proof (induction n arbitrary: it)
  case 0
  then have False using row_of [of _ k b] by (fastforce simp: t_left_def)
  then show ?case ..
next
  case (Suc n)
  show ?case
  proof (cases "lev1 b (it_i0 it) = 0")
    case True
    have "{n \<in> t_elems k b. it_i0 it \<le> n div 4096} = {n \<in> t_elems k b. Suc (it_i0 it) \<le> n div 4096}"
      using True row_of [of _ k b] by (auto simp: Suc_le_eq le_less)
    then have e: "t_left k b (it\<lparr>it_i0 := Suc (it_i0 it)\<rparr>) = t_left k b it" using Suc.prems by (simp add: t_left_def)
    have "it_ok k b (it\<lparr>it_i0 := Suc (it_i0 it)\<rparr>)" using Suc.prems by (auto simp: it_ok_def)
    moreover have "k - Suc (it_i0 it) = n" using Suc.prems(5) by simp
    ultimately show ?thesis using Suc.IH [of "it\<lparr>it_i0 := Suc (it_i0 it)\<rparr>"] Suc.prems(2-4) e True by (simp add: bv_empty_def)
  next
    case False
    have "x \<in> it_left k b (it\<lparr>it_1 := lev1 b (it_i0 it)\<rparr>) \<longleftrightarrow> x \<in> t_left k b it" for x
    proof -
      have "x \<in> t_elems k b \<Longrightarrow> x div 4096 = it_i0 it \<Longrightarrow> bit (lev1 b (it_i0 it)) (x div 64 mod 64)"
        by (simp add: t_elems_def mem3_def cell_def)
      then show ?thesis using Suc.prems(2,3) unfolding it_left_def t_left_def by simp (metis le_less)
    qed
    then have "it_left k b (it\<lparr>it_1 := lev1 b (it_i0 it)\<rparr>) = t_left k b it" by (rule set_eqI)
    moreover have "it_i0 it < k" using Suc.prems(5) by simp
    then have "it_ok k b (it\<lparr>it_1 := lev1 b (it_i0 it)\<rparr>)" using Suc.prems(3) by (simp add: it_ok_def)
    ultimately show ?thesis using False Suc.prems(3) by (simp add: bv_empty_def bv_Iterator_def)
  qed
qed

text \<open>The second step: the next word of the row.\<close>

definition it_word :: "nat \<Rightarrow> tlbv \<Rightarrow> t_iter \<Rightarrow> t_iter res" where
  "it_word k b it1 = (if \<not> bv_hasNext (it_2 it1) then
               check (bv_hasNext (it_1 it1)) ''it1_.hasNext()'' (
               bindr (bv_next (it_1 it1)) (\<lambda>(i1, w).
               if it_i0 it1 < k then
                 Inr (it1\<lparr>it_i1 := i1, it_1 := w, it_2 := bv_Iterator (lev2 b (it_i0 it1) i1)\<rparr>)
               else Inl (OutOfBounds (it_i0 it1))))
             else Inr it1)"

lemma it_word_ok:
  assumes b: "t_ok k b" and it: "it_ok k b it" and ne: "it_1 it \<noteq> 0 \<or> it_2 it \<noteq> 0"
  shows "\<exists>it'. it_word k b it = Inr it' \<and> it_ok k b it' \<and> it_2 it' \<noteq> 0 \<and> it_left k b it' = it_left k b it"
proof (cases "it_2 it = 0")
  case True
  then have "it_1 it \<noteq> 0" using ne by simp
  then obtain i1 w where w: "bv_getAndClearFirstOne (it_1 it) = Inr (i1, w)" "bit (it_1 it) i1"
    "\<And>j. bit w j \<longleftrightarrow> bit (it_1 it) j \<and> j \<noteq> i1"
    using bv_first by metis
  let ?it = "it\<lparr>it_i1 := i1, it_1 := w, it_2 := lev2 b (it_i0 it) i1\<rparr>"
  have i0: "it_i0 it < k" using it ne by (auto simp: it_ok_def)
  have l: "bit (lev1 b (it_i0 it)) i1" using it w(2) by (auto simp: it_ok_def)
  have "it_word k b it = Inr ?it" using True \<open>it_1 it \<noteq> 0\<close> w(1) i0
    by (simp add: it_word_def bv_hasNext_def bv_empty_def bv_next_def bv_Iterator_def)
  moreover have "lev2 b (it_i0 it) i1 \<noteq> 0" using b i0 l by (auto simp: t_ok_def cell_def)
  moreover have "it_ok k b ?it" using it i0 l w(3) by (auto simp: it_ok_def)
  moreover have "x \<in> it_left k b ?it \<longleftrightarrow> x \<in> it_left k b it" for x
  proof -
    have "x \<in> t_elems k b \<Longrightarrow> x div 4096 = it_i0 it \<Longrightarrow> x div 64 mod 64 = i1 \<Longrightarrow> bit (lev2 b (it_i0 it) i1) (x mod 64)"
      by (simp add: t_elems_def mem3_def cell_def)
    then show ?thesis using True w(2) unfolding it_left_def by (simp add: w(3)) blast
  qed
  ultimately show ?thesis by (intro exI [of _ ?it] conjI set_eqI) simp_all
next
  case False
  then show ?thesis using it by (simp add: it_word_def bv_hasNext_def bv_empty_def)
qed

lemma t_next_ok:
  assumes b: "t_ok k b" and it: "it_ok k b it" and left: "t_left k b it \<noteq> {}"
  shows "\<exists>n it'. t_next k b it = Inr (n, it') \<and> n \<in> t_left k b it \<and> it_ok k b it' \<and> t_left k b it' = t_left k b it - {n}"
proof -
  define it1 where "it1 = (if it_1 it = 0 \<and> it_2 it = 0 then t_seek b (k - it_i0 it) it else it)"
  have 1: "it_ok k b it1" "it_1 it1 \<noteq> 0 \<or> it_2 it1 \<noteq> 0" "it_left k b it1 = t_left k b it"
    using t_seek_ok [OF b it _ _ left refl] it by (auto simp: it1_def t_left_def)
  obtain it2 where 2: "it_word k b it1 = Inr it2" "it_ok k b it2" "it_2 it2 \<noteq> 0" "it_left k b it2 = t_left k b it"
    using it_word_ok [OF b 1(1,2)] 1(3) by auto
  obtain i2 w where w: "bv_getAndClearFirstOne (it_2 it2) = Inr (i2, w)" "i2 < 64" "bit (it_2 it2) i2"
    "\<And>j. bit w j \<longleftrightarrow> bit (it_2 it2) j \<and> j \<noteq> i2"
    using bv_first [OF 2(3)] by metis
  define r where "r = it_i0 it2 * 4096 + it_i1 it2 * 64 + i2"
  have i0: "it_i0 it2 < k" and m: "mem3 b (it_i0 it2) (it_i1 it2) i2" and nb: "\<not> bit (it_1 it2) (it_i1 it2)"
    using 2(2,3) w(3) by (auto simp: it_ok_def mem3_def cell_def)
  have idx: "r div 4096 = it_i0 it2" "r div 64 mod 64 = it_i1 it2" "r mod 64 = i2"
    unfolding r_def using cell_bounds(2,3) [OF m] by (simp_all only: index3)
  have r: "r \<in> t_left k b it"
    using mem3_elems [OF i0 m] w(3) idx by (simp add: 2(4) [symmetric] it_left_def r_def)
  define it3 where "it3 = it2\<lparr>it_2 := w\<rparr>"
  have ix: "n = r" if "n div 4096 = it_i0 it2" "n div 64 mod 64 = it_i1 it2" "n mod 64 = i2" for n
    using decompose [of n] that by (simp add: r_def)
  have "x \<in> it_left k b it3 \<longleftrightarrow> x \<in> it_left k b it2 \<and> x \<noteq> r" for x
  proof -
    have "x = r \<longleftrightarrow> x div 4096 = it_i0 it2 \<and> x div 64 mod 64 = it_i1 it2 \<and> x mod 64 = i2" using ix idx by blast
    then show ?thesis using nb unfolding it_left_def it3_def by (simp add: w(4)) (metis less_irrefl)
  qed
  then have l3: "it_left k b it3 = t_left k b it - {r}" by (simp add: 2(4) [symmetric] set_eq_iff)
  have ok3: "it_ok k b it3" using 2(2,3) i0 w(4) by (auto simp: it_ok_def it3_def)
  define it4 where "it4 = (if it_1 it3 = 0 \<and> it_2 it3 = 0 then it3\<lparr>it_i0 := Suc (it_i0 it3)\<rparr> else it3)"
  have ok4: "it_ok k b it4" using ok3 i0 by (auto simp: it4_def it_ok_def it3_def)
  have l4: "t_left k b it4 = it_left k b it3" by (auto simp: it4_def t_left_def it_left_def Suc_le_eq)
  have "t_next k b it = bindr (it_word k b it1) (\<lambda>it2.
      check (bv_hasNext (it_2 it2)) ''it2_.hasNext()'' (bindr (bv_next (it_2 it2)) (\<lambda>(i2, w).
      let it3 = it2\<lparr>it_2 := w\<rparr>; res = it_i0 it3 * bv_size * bv_size + it_i1 it3 * bv_size + i2;
          it4 = (if \<not> bv_hasNext (it_1 it3) \<and> \<not> bv_hasNext (it_2 it3) then it3\<lparr>it_i0 := Suc (it_i0 it3)\<rparr> else it3)
      in Inr (res, it4))))"
    by (simp add: t_next_def it_word_def it1_def bv_hasNext_def bv_empty_def Let_def)
  also have "\<dots> = Inr (r, it4)"
    using 2(1,3) w(1) by (simp add: bv_hasNext_def bv_empty_def bv_next_def Let_def it4_def it3_def r_def bv_size_def)
  finally show ?thesis using r ok4 l4 l3 by blast
qed

section \<open>The properties\<close>

text \<open>The loop \<^verbatim>\<open>while (it.hasNext()) it.next()\<close> over the elements of a vector and what it returns; that it ends is part of the property.\<close>

partial_function (option) t_iterate :: "nat \<Rightarrow> tlbv \<Rightarrow> t_iter \<Rightarrow> nat list run" where
  "t_iterate k b it =
     (if \<not> t_hasNext k b it then Some (Inr [])
      else bindo (Some (t_next k b it)) (\<lambda>r. bindo (t_iterate k b (snd r)) (\<lambda>is. Some (Inr (fst r # is)))))"

lemma t_iterate_ok:
  assumes b: "t_ok k b"
  shows "it_ok k b it \<Longrightarrow> \<exists>xs. t_iterate k b it = Some (Inr xs) \<and> distinct xs \<and> set xs = t_left k b it"
proof (induction "card (t_left k b it)" arbitrary: it rule: less_induct)
  case less
  have fin: "finite (t_left k b it)" using t_finite_elems [of k b] by (simp add: t_left_def it_left_def)
  show ?case
  proof (cases "t_left k b it = {}")
    case True
    then show ?thesis using less.prems t_hasNext_iff [OF b] by (subst t_iterate.simps) simp
  next
    case False
    obtain m it' where m: "t_next k b it = Inr (m, it')" "m \<in> t_left k b it" "it_ok k b it'" "t_left k b it' = t_left k b it - {m}"
      using t_next_ok [OF b less.prems False] by blast
    have "card (t_left k b it') < card (t_left k b it)" unfolding m(4) using fin m(2) by (rule card_Diff1_less)
    from less.hyps [OF this m(3)] obtain xs where "t_iterate k b it' = Some (Inr xs)" "distinct xs" "set xs = t_left k b it'" by blast
    then show ?thesis using False m t_hasNext_iff [OF b less.prems] by (subst t_iterate.simps) auto
  qed
qed

text \<open>
  The iterator of the two level bit vector: \<^verbatim>\<open>while (it.hasNext()) it.next()\<close> ends, no check fails, and the
  indices returned are the elements of the set, each once.
\<close>

theorem two_level_iterate:
  assumes "t_ok k b"
  shows "\<exists>xs. t_iterate k b t_Iterator = Some (Inr xs) \<and> distinct xs \<and> set xs = t_elems k b"
  using t_iterate_ok [OF assms t_Iterator_ok(1)] by (simp add: t_Iterator_ok(2))

definition tl_example :: tlbv where
  "tl_example = \<lparr>lev1 = (\<lambda>i. if i = 0 then 5 else 0), lev2 = (\<lambda>i j. 3)\<rparr>"

lemma tl_example_ok: "t_ok 1 tl_example"
  by (simp add: t_ok_def tl_example_def cell_def)

lemma two_level_iterate_witness:
  "\<exists>xs. t_iterate 1 tl_example t_Iterator = Some (Inr xs) \<and> distinct xs \<and> set xs = t_elems 1 tl_example"
  by (rule two_level_iterate [OF tl_example_ok])

text \<open>
  C14. The two level bit vector implements finite sets of indices below its size: on vectors whose marked words
  are not empty no operation fails a check or leaves its arrays, each has the effect of its set operation, reports truly whether the set
  has changed, keeps the marked words non-empty, and takes out the least element first.
\<close>

theorem two_level_set:
  assumes "t_ok k s" "t_ok k v" "i < t_size k"
  shows "t_getBit k i s = Inr (i \<in> t_elems k s) \<and> t_empty k s = (t_elems k s = {}) \<and>
    t_ok k (t_clear k s) \<and> t_elems k (t_clear k s) = {} \<and> t_ok k (t_setAll k s) \<and> t_elems k (t_setAll k s) = {..<t_size k} \<and>
    (\<exists>s'. t_setBit k i s = Inr (i \<notin> t_elems k s, s') \<and> t_ok k s' \<and> t_elems k s' = insert i (t_elems k s)) \<and>
    (\<exists>s'. t_clearBit k i s = Inr (i \<in> t_elems k s, s') \<and> t_ok k s' \<and> t_elems k s' = t_elems k s - {i}) \<and>
    (t_elems k s \<noteq> {} \<longrightarrow> (\<exists>s'. t_getAndClearFirstOne k s = Inr (Min (t_elems k s), s') \<and> t_ok k s' \<and>
       t_elems k s' = t_elems k s - {Min (t_elems k s)})) \<and>
    (\<exists>s'. t_setUnion k v s = Inr (t_elems k s' \<noteq> t_elems k s, s') \<and> t_ok k s' \<and> t_elems k s' = t_elems k s \<union> t_elems k v) \<and>
    (\<exists>s'. t_setIntersection k v s = Inr (t_elems k s' \<noteq> t_elems k s, s') \<and> t_ok k s' \<and> t_elems k s' = t_elems k s \<inter> t_elems k v) \<and>
    (\<exists>s'. t_setDifference k v s = Inr (t_elems k s' \<noteq> t_elems k s, s') \<and> t_ok k s' \<and> t_elems k s' = t_elems k s - t_elems k v) \<and>
    (\<exists>s'. t_copyFrom k v s = Inr s' \<and> t_ok k s' \<and> t_elems k s' = t_elems k v) \<and>
    t_intersectsWith k v s = Inr (t_elems k s \<inter> t_elems k v \<noteq> {})"
  by (intro conjI impI t_getBit_ok t_empty_iff t_clear_ok t_setAll_ok t_setBit_ok t_clearBit_ok t_first_ok t_setUnion_ok
      t_setIntersection_ok t_setDifference_ok t_copyFrom_ok t_intersectsWith_ok assms) assumption

lemma two_level_set_witness:
  "\<exists>s'. t_setBit 1 77 tl_example = Inr (77 \<notin> t_elems 1 tl_example, s') \<and> t_ok 1 s' \<and> t_elems 1 s' = insert 77 (t_elems 1 tl_example)"
  using two_level_set [OF tl_example_ok tl_example_ok, of 77] by (simp add: t_size_def bv_size_def)

text \<open>
  C31. The checks of an index admit the size itself: all of \<^verbatim>\<open>check\<close>, \<^verbatim>\<open>idx0\<close>, \<^verbatim>\<open>idx1\<close> and
  \<^verbatim>\<open>idx2\<close> pass for the index \<^verbatim>\<open>size()\<close>, so that the operations on a single bit use the row \<^verbatim>\<open>kLevel1Size\<close>, past the end
  of both arrays; larger indices fail the check.
\<close>

theorem bit_past_the_end:
  "t_setBit k (t_size k) s = Inl (OutOfBounds k) \<and> t_clearBit k (t_size k) s = Inl (OutOfBounds k) \<and>
   t_getBit k (t_size k) s = Inl (OutOfBounds k) \<and> t_setBit k (t_size k + Suc d) s = Inl (CheckFailed ''idx <= size()'')"
  by (simp add: t_setBit_def t_clearBit_def t_getBit_def t_at_def t_check_def t_idx0_def t_idx1_def t_idx2_def t_size_def bv_size_def)

end
