(* ===== verification/BitSet.thy ===== *)
theory BitSet
  imports TwoLevel
begin

text \<open>
  What the templates of the deadlock detector use of their parameter \<^verbatim>\<open>BV\<close>: its operations as a record, the
  laws the clients rest on as a locale, interpreted for both bit vectors of \<^verbatim>\<open>sanitizer_bitvector.h\<close>. The second
  part holds the two loops of the clients: over a vector that is emptied, and over the iterator of a vector. That a vector runs out
  is not known of every \<^verbatim>\<open>BV\<close>, so these loops are partial functions, with \<^const>\<open>None\<close> for a loop that does not end.
\<close>

section \<open>The operations\<close>

record ('b, 'i) bvops =
  o_size :: nat
  o_clear :: "'b \<Rightarrow> 'b"
  o_setAll :: "'b \<Rightarrow> 'b"
  o_empty :: "'b \<Rightarrow> bool"
  o_setBit :: "nat \<Rightarrow> 'b \<Rightarrow> (bool \<times> 'b) res"
  o_clearBit :: "nat \<Rightarrow> 'b \<Rightarrow> (bool \<times> 'b) res"
  o_getBit :: "nat \<Rightarrow> 'b \<Rightarrow> bool res"
  o_first :: "'b \<Rightarrow> (nat \<times> 'b) res"
  o_setUnion :: "'b \<Rightarrow> 'b \<Rightarrow> (bool \<times> 'b) res"
  o_setDifference :: "'b \<Rightarrow> 'b \<Rightarrow> (bool \<times> 'b) res"
  o_copyFrom :: "'b \<Rightarrow> 'b \<Rightarrow> 'b res"
  o_intersectsWith :: "'b \<Rightarrow> 'b \<Rightarrow> bool res"
  o_Iterator :: "'b \<Rightarrow> 'i"
  o_hasNext :: "'b \<Rightarrow> 'i \<Rightarrow> bool"
  o_next :: "'b \<Rightarrow> 'i \<Rightarrow> (nat \<times> 'i) res"

definition BasicBV :: "(uptr, uptr) bvops" where
  "BasicBV = \<lparr>o_size = bv_size, o_clear = bv_clear, o_setAll = bv_setAll, o_empty = bv_empty, o_setBit = bv_setBit,
     o_clearBit = bv_clearBit, o_getBit = bv_getBit, o_first = bv_getAndClearFirstOne, o_setUnion = (\<lambda>v b. Inr (bv_setUnion v b)),
     o_setDifference = (\<lambda>v b. Inr (bv_setDifference v b)), o_copyFrom = (\<lambda>v b. Inr (bv_copyFrom v b)),
     o_intersectsWith = (\<lambda>v b. Inr (bv_intersectsWith v b)), o_Iterator = bv_Iterator, o_hasNext = (\<lambda>b. bv_hasNext),
     o_next = (\<lambda>b. bv_next)\<rparr>"

definition TwoLevelBV :: "nat \<Rightarrow> (tlbv, t_iter) bvops" where
  "TwoLevelBV k = \<lparr>o_size = t_size k, o_clear = t_clear k, o_setAll = t_setAll k, o_empty = t_empty k, o_setBit = t_setBit k,
     o_clearBit = t_clearBit k, o_getBit = t_getBit k, o_first = t_getAndClearFirstOne k, o_setUnion = t_setUnion k,
     o_setDifference = t_setDifference k, o_copyFrom = t_copyFrom k,
     o_intersectsWith = t_intersectsWith k, o_Iterator = (\<lambda>b. t_Iterator), o_hasNext = t_hasNext k,
     o_next = t_next k\<rparr>"

section \<open>The laws\<close>

text \<open>
  \<open>elems\<close> is the set a well-formed (\<open>ok\<close>) vector stands for, \<open>left\<close> the elements an iterator has still to return.
\<close>

locale bitvec =
  fixes B :: "('b, 'i) bvops" and ok :: "'b \<Rightarrow> bool" and elems :: "'b \<Rightarrow> nat set"
    and itok :: "'b \<Rightarrow> 'i \<Rightarrow> bool" and left :: "'b \<Rightarrow> 'i \<Rightarrow> nat set"
  assumes elems_lt: "n \<in> elems b \<Longrightarrow> n < o_size B"
    and clear: "ok (o_clear B b)" "elems (o_clear B b) = {}"
    and setAll: "ok (o_setAll B b)" "elems (o_setAll B b) = {..<o_size B}"
    and empty: "ok b \<Longrightarrow> o_empty B b \<longleftrightarrow> elems b = {}"
    and setBit: "i < o_size B \<Longrightarrow> ok b \<Longrightarrow>
      \<exists>b'. o_setBit B i b = Inr (i \<notin> elems b, b') \<and> ok b' \<and> elems b' = insert i (elems b)"
    and clearBit: "i < o_size B \<Longrightarrow> ok b \<Longrightarrow>
      \<exists>b'. o_clearBit B i b = Inr (i \<in> elems b, b') \<and> ok b' \<and> elems b' = elems b - {i}"
    and getBit: "i < o_size B \<Longrightarrow> ok b \<Longrightarrow> o_getBit B i b = Inr (i \<in> elems b)"
    and first: "ok b \<Longrightarrow> elems b \<noteq> {} \<Longrightarrow>
      \<exists>i b'. o_first B b = Inr (i, b') \<and> i \<in> elems b \<and> ok b' \<and> elems b' = elems b - {i}"
    and setUnion: "ok v \<Longrightarrow> ok b \<Longrightarrow>
      \<exists>b'. o_setUnion B v b = Inr (elems b' \<noteq> elems b, b') \<and> ok b' \<and> elems b' = elems b \<union> elems v"
    and setDifference: "ok v \<Longrightarrow> ok b \<Longrightarrow>
      \<exists>b'. o_setDifference B v b = Inr (elems b' \<noteq> elems b, b') \<and> ok b' \<and> elems b' = elems b - elems v"
    and copyFrom: "ok v \<Longrightarrow> \<exists>b'. o_copyFrom B v b = Inr b' \<and> ok b' \<and> elems b' = elems v"
    and intersectsWith: "ok v \<Longrightarrow> ok b \<Longrightarrow> o_intersectsWith B v b = Inr (elems b \<inter> elems v \<noteq> {})"
    and Iterator: "itok b (o_Iterator B b)" "left b (o_Iterator B b) = elems b"
    and left_elems: "left b it \<subseteq> elems b"
    and hasNext: "ok b \<Longrightarrow> itok b it \<Longrightarrow> o_hasNext B b it \<longleftrightarrow> left b it \<noteq> {}"
    and next_it: "ok b \<Longrightarrow> itok b it \<Longrightarrow> left b it \<noteq> {} \<Longrightarrow>
      \<exists>n it'. o_next B b it = Inr (n, it') \<and> n \<in> left b it \<and> itok b it' \<and> left b it' = left b it - {n}"

definition bv_elems :: "uptr \<Rightarrow> nat set" where "bv_elems b = {i. bit b i}"

lemma bv_elems_inj: "bv_elems b = bv_elems c \<longleftrightarrow> b = c"
  by (auto simp: bv_elems_def intro: bit_word_eqI)

lemma bv_elems_ops:
  "bv_elems 0 = {}" "bv_elems (- 1) = {..<64}" "bv_elems (b OR v) = bv_elems b \<union> bv_elems v"
  "bv_elems (b AND NOT v) = bv_elems b - bv_elems v" "b = 0 \<longleftrightarrow> bv_elems b = {}" "bv_elems (b AND v) = {} \<longleftrightarrow> bv_elems b \<inter> bv_elems v = {}"
  "i \<in> bv_elems b \<longleftrightarrow> bit b i"
  using bit_imp_le_length [of b] word_differ [of b 0] by (auto simp: bv_elems_def bit_simps)

lemma t_first_mem:
  assumes "t_ok k b" "t_elems k b \<noteq> {}"
  shows "\<exists>i b'. t_getAndClearFirstOne k b = Inr (i, b') \<and> i \<in> t_elems k b \<and> t_ok k b' \<and> t_elems k b' = t_elems k b - {i}"
  using t_first_ok [OF assms] Min_in [OF t_finite_elems assms(2)] by blast

lemma bv_first_elems:
  assumes "bv_elems b \<noteq> {}"
  shows "\<exists>i b'. bv_getAndClearFirstOne b = Inr (i, b') \<and> i \<in> bv_elems b \<and> bv_elems b' = bv_elems b - {i}"
proof -
  have "b \<noteq> 0" using assms by (auto simp: bv_elems_def)
  then obtain i b' where "bv_getAndClearFirstOne b = Inr (i, b')" "bit b i" "\<And>j. bit b' j \<longleftrightarrow> bit b j \<and> j \<noteq> i"
    using bv_first by metis
  then show ?thesis by (auto simp: bv_elems_def)
qed

interpretation one: bitvec BasicBV "\<lambda>b. True" bv_elems "\<lambda>b it. bv_elems it \<subseteq> bv_elems b" "\<lambda>b it. bv_elems it \<inter> bv_elems b"
proof
  show "n \<in> bv_elems b \<Longrightarrow> n < o_size BasicBV" for n b
    using bit_imp_le_length [of b n] by (auto simp: BasicBV_def bv_elems_def bv_size_def)
  show "i < o_size BasicBV \<Longrightarrow> \<exists>b'. o_setBit BasicBV i b = Inr (i \<notin> bv_elems b, b') \<and> True \<and> bv_elems b' = insert i (bv_elems b)" for i b
    by (auto simp: BasicBV_def bv_size_def bv_setBit_eq bv_elems_def)
  show "i < o_size BasicBV \<Longrightarrow> \<exists>b'. o_clearBit BasicBV i b = Inr (i \<in> bv_elems b, b') \<and> True \<and> bv_elems b' = bv_elems b - {i}" for i b
    by (auto simp: BasicBV_def bv_size_def bv_clearBit_eq bv_elems_def)
  show "\<exists>n it'. o_next BasicBV b it = Inr (n, it') \<and> n \<in> bv_elems it \<inter> bv_elems b \<and> bv_elems it' \<subseteq> bv_elems b \<and>
      bv_elems it' \<inter> bv_elems b = bv_elems it \<inter> bv_elems b - {n}"
    if "bv_elems it \<subseteq> bv_elems b" "bv_elems it \<inter> bv_elems b \<noteq> {}" for b it
  proof -
    have ne: "bv_elems it \<noteq> {}" using that(2) by blast
    obtain i it' where "bv_getAndClearFirstOne it = Inr (i, it')" "i \<in> bv_elems it" "bv_elems it' = bv_elems it - {i}"
      using bv_first_elems [OF ne] by blast
    then show ?thesis using that by (auto simp: BasicBV_def bv_next_def)
  qed
qed (simp_all add: BasicBV_def bv_clear_def bv_setAll_def bv_size_def bv_empty_def bv_getBit_eq bv_first_elems [unfolded bv_elems_ops(7)] bv_setUnion_def
    bv_setDifference_def bv_copyFrom_def bv_intersectsWith_def bv_Iterator_def bv_hasNext_def Let_def bv_elems_ops bv_elems_inj Int_absorb2)

interpretation two: bitvec "TwoLevelBV k" "t_ok k" "t_elems k" "it_ok k" "t_left k" for k
proof
  show "t_left k b it \<subseteq> t_elems k b" for b it
    by (auto simp: t_left_def it_left_def split: if_splits)
qed (auto simp: TwoLevelBV_def elems_less t_clear_ok t_setAll_ok t_empty_iff t_setBit_ok t_clearBit_ok t_getBit_ok t_setUnion_ok
    t_setDifference_ok t_first_mem t_copyFrom_ok t_intersectsWith_ok t_Iterator_ok t_hasNext_iff t_next_ok)

section \<open>Loops over a vector\<close>

text \<open>\<^verbatim>\<open>while (!t.empty()) { i = t.getAndClearFirstOne(); ... }\<close>; the body may change \<open>t\<close>.\<close>

partial_function (option) while_first ::
  "('b, 'i) bvops \<Rightarrow> (nat \<Rightarrow> 'b \<times> 's \<Rightarrow> ('b \<times> 's) res) \<Rightarrow> 'b \<times> 's \<Rightarrow> ('b \<times> 's) run" where
  "while_first B f x =
     (if o_empty B (fst x) then Some (Inr x)
      else bindo (Some (o_first B (fst x))) (\<lambda>y. bindo (Some (f (fst y) (snd y, snd x))) (\<lambda>z. while_first B f z)))"

text \<open>
  \<^verbatim>\<open>for (Iterator it(b); it.hasNext();) { i = it.next(); if (uptr res = f(i)) return res + 1; }\<close> with a result 0 after the loop.
\<close>

partial_function (option) iter_until ::
  "('b, 'i) bvops \<Rightarrow> 'b \<Rightarrow> (nat \<Rightarrow> 's \<Rightarrow> (nat \<times> 's) run) \<Rightarrow> 'i \<times> 's \<Rightarrow> (nat \<times> 's) run" where
  "iter_until B b f x =
     (if \<not> o_hasNext B b (fst x) then Some (Inr (0, snd x))
      else bindo (Some (o_next B b (fst x))) (\<lambda>y. bindo (f (fst y) (snd x)) (\<lambda>z.
        if fst z \<noteq> 0 then Some (Inr (fst z + 1, snd z)) else iter_until B b f (snd y, snd z))))"

context bitvec
begin

lemma finite_elems: "finite (elems b)"
  by (rule finite_subset [OF _ finite_lessThan [of "o_size B"]]) (simp add: subset_iff elems_lt)

lemma while_first_inv:
  assumes wf: "wf r" and I: "ok t" "I t s"
    and step: "\<And>t s i t'. ok t \<Longrightarrow> I t s \<Longrightarrow> i \<in> elems t \<Longrightarrow> ok t' \<Longrightarrow> elems t' = elems t - {i} \<Longrightarrow>
      \<exists>u s'. f i (t', s) = Inr (u, s') \<and> ok u \<and> I u s' \<and> ((u, s'), (t, s)) \<in> r"
  shows "\<exists>t' s'. while_first B f (t, s) = Some (Inr (t', s')) \<and> ok t' \<and> elems t' = {} \<and> I t' s'"
  using wf I
proof (induction "(t, s)" arbitrary: t s rule: wf_induct_rule)
  case less
  show ?case
  proof (cases "elems t = {}")
    case True
    then show ?thesis using less.prems by (simp add: while_first.simps [of B f] empty)
  next
    case False
    obtain i t' where t': "o_first B t = Inr (i, t')" "i \<in> elems t" "ok t'" "elems t' = elems t - {i}"
      using first [OF less.prems(1) False] by blast
    from step [OF less.prems t'(2-4)] obtain u s' where u: "f i (t', s) = Inr (u, s')" "ok u" "I u s'" "((u, s'), (t, s)) \<in> r" by blast
    have "while_first B f (t, s) = while_first B f (u, s')"
      using False less.prems(1) t'(1) u(1) by (simp add: while_first.simps [of B f "(t, s)"] empty)
    then show ?thesis using less.hyps [OF u(4,2,3)] by simp
  qed
qed

text \<open>A loop whose body leaves the vector alone handles each element once.\<close>

lemma while_first_each:
  assumes t: "ok t" and I: "I (elems t) s"
    and step: "\<And>A s i t'. I A s \<Longrightarrow> i \<in> A \<Longrightarrow> A \<subseteq> elems t \<Longrightarrow> \<exists>s'. f i (t', s) = Inr (t', s') \<and> I (A - {i}) s'"
  shows "\<exists>t' s'. while_first B f (t, s) = Some (Inr (t', s')) \<and> ok t' \<and> elems t' = {} \<and> I {} s'"
proof -
  let ?I = "\<lambda>u s. elems u \<subseteq> elems t \<and> I (elems u) s"
  have "\<exists>t' s'. while_first B f (t, s) = Some (Inr (t', s')) \<and> ok t' \<and> elems t' = {} \<and> ?I t' s'"
  proof (rule while_first_inv [where r = "measure (\<lambda>(t, s). card (elems t))" and I = ?I])
    fix u s i t'
    assume u: "ok u" "?I u s" "i \<in> elems u" "ok t'" "elems t' = elems u - {i}"
    have "card (elems t') < card (elems u)" unfolding u(5) by (rule card_Diff1_less [OF finite_elems u(3)])
    moreover obtain s' where "f i (t', s) = Inr (t', s')" "I (elems u - {i}) s'" using step [of "elems u" s i t'] u by blast
    ultimately show "\<exists>v s'. f i (t', s) = Inr (v, s') \<and> ok v \<and> ?I v s' \<and> ((v, s'), (u, s)) \<in> measure (\<lambda>(t, s). card (elems t))"
      using u by auto
  qed (use t I in auto)
  then show ?thesis by auto
qed

text \<open>
  The loop over an iterator ends with the first element for which the body returns another value than 0, or after all elements.
\<close>

lemma iter_until_inv:
  assumes b: "ok b"
    and step: "\<And>i s. i \<in> elems b \<Longrightarrow> J s \<Longrightarrow> \<exists>r s'. f i s = Some (Inr (r, s')) \<and> (if r = 0 then J s' \<and> Z i else Q i r s')"
  shows "itok b it \<Longrightarrow> J s \<Longrightarrow> \<exists>r s'. iter_until B b f (it, s) = Some (Inr (r, s')) \<and>
     (if r = 0 then J s' \<and> (\<forall>i \<in> left b it. Z i) else (\<exists>i \<in> left b it. Q i (r - 1) s'))"
proof (induction "card (left b it)" arbitrary: it s rule: less_induct)
  case less
  show ?case
  proof (cases "left b it = {}")
    case True
    then show ?thesis using less.prems hasNext [OF b less.prems(1)] by (simp add: iter_until.simps [of B b f])
  next
    case False
    obtain i it' where i: "o_next B b it = Inr (i, it')" "i \<in> left b it" "itok b it'" "left b it' = left b it - {i}"
      using next_it [OF b less.prems(1) False] by blast
    obtain r s' where r: "f i s = Some (Inr (r, s'))" "if r = 0 then J s' \<and> Z i else Q i r s'"
      using step [of i s] i(2) left_elems less.prems(2) by blast
    have run: "iter_until B b f (it, s) = (if r \<noteq> 0 then Some (Inr (r + 1, s')) else iter_until B b f (it', s'))"
      using False hasNext [OF b less.prems(1)] i(1) r(1) by (simp add: iter_until.simps [of B b f "(it, s)"])
    show ?thesis
    proof (cases "r = 0")
      case True
      have "finite (left b it)" using finite_subset [OF left_elems finite_elems] .
      then have "card (left b it') < card (left b it)" unfolding i(4) using i(2) by (rule card_Diff1_less)
      from less.hyps [OF this i(3), of s'] r(2) True obtain r' s'' where
        "iter_until B b f (it', s') = Some (Inr (r', s''))"
        "if r' = 0 then J s'' \<and> (\<forall>i \<in> left b it'. Z i) else (\<exists>i \<in> left b it'. Q i (r' - 1) s'')" by auto
      then show ?thesis using run True r(2) i(4) by (auto split: if_splits)
    next
      case False
      then show ?thesis using run r(2) i(2) by auto
    qed
  qed
qed

end

end
