(* ===== verification/BVGraph.thy ===== *)
theory BVGraph
  imports BitSet
begin

text \<open>
  \<^verbatim>\<open>BVGraph\<close> of \<^verbatim>\<open>sanitizer_bvgraph.h\<close>: a directed graph as an array of bit vectors, with two temporary
  vectors. The vector type is the argument \<open>B\<close>; the lemmas hold under the laws of the locale \<open>bitvec\<close>, the
  properties for the vector the detector is used with.
\<close>

section \<open>The graph and its operations\<close>

record 'b bvgraph =
  gv :: "nat \<Rightarrow> 'b"
  gt1 :: 'b
  gt2 :: 'b

definition g_set :: "nat \<Rightarrow> 'b \<Rightarrow> 'b bvgraph \<Rightarrow> 'b bvgraph" where
  "g_set i b g = g\<lparr>gv := (gv g)(i := b)\<rparr>"

text \<open>An access to \<^verbatim>\<open>v[i]\<close>.\<close>

definition at_row :: "('b, 'i) bvops \<Rightarrow> nat \<Rightarrow> 'a res \<Rightarrow> 'a res" where
  "at_row B i k = (if i < o_size B then k else Inl (OutOfBounds i))"

definition g_check :: "('b, 'i) bvops \<Rightarrow> nat \<Rightarrow> nat \<Rightarrow> 'a res \<Rightarrow> 'a res" where
  "g_check B idx1 idx2 k = check (idx1 < o_size B) ''idx1 < size()'' (check (idx2 < o_size B) ''idx2 < size()'' k)"

definition g_clear :: "('b, 'i) bvops \<Rightarrow> 'b bvgraph \<Rightarrow> 'b bvgraph" where
  "g_clear B g = fold (\<lambda>i g. g_set i (o_clear B (gv g i)) g) [0..<o_size B] g"

definition g_empty :: "('b, 'i) bvops \<Rightarrow> 'b bvgraph \<Rightarrow> bool" where
  "g_empty B g \<longleftrightarrow> (\<forall>i \<in> {..<o_size B}. o_empty B (gv g i))"

definition g_addEdge :: "('b, 'i) bvops \<Rightarrow> nat \<Rightarrow> nat \<Rightarrow> 'b bvgraph \<Rightarrow> (bool \<times> 'b bvgraph) res" where
  "g_addEdge B from1 to1 g = g_check B from1 to1 (
     bindr (o_setBit B to1 (gv g from1)) (\<lambda>(r, b). Inr (r, g_set from1 b g)))"

text \<open>The sources of the new edges, at most \<open>max_added_edges\<close> of them, are returned as a list.\<close>

definition add_edge_body :: "('b, 'i) bvops \<Rightarrow> nat \<Rightarrow> nat \<Rightarrow> nat \<Rightarrow>
    'b \<times> 'b bvgraph \<times> nat list \<Rightarrow> ('b \<times> 'b bvgraph \<times> nat list) res" where
  "add_edge_body B to1 max_added_edges node = (\<lambda>(t, g, added). at_row B node (
     bindr (o_setBit B to1 (gv g node)) (\<lambda>(new, b).
     Inr (t, g_set node b g, if new \<and> length added < max_added_edges then added @ [node] else added))))"

definition g_addEdges :: "('b, 'i) bvops \<Rightarrow> 'b \<Rightarrow> nat \<Rightarrow> nat \<Rightarrow> 'b bvgraph \<Rightarrow> (nat list \<times> 'b bvgraph) run" where
  "g_addEdges B from1 to1 max_added_edges g =
     bindo (Some (o_copyFrom B from1 (gt1 g))) (\<lambda>t.
     bindo (while_first B (add_edge_body B to1 max_added_edges) (t, g, [])) (\<lambda>(t', g', added).
     Some (Inr (added, g'\<lparr>gt1 := t'\<rparr>))))"

text \<open>The two overloads of \<^verbatim>\<open>hasEdge\<close>: the one for constant objects checks the indices.\<close>

definition g_hasEdge :: "('b, 'i) bvops \<Rightarrow> nat \<Rightarrow> nat \<Rightarrow> 'b bvgraph \<Rightarrow> bool res" where
  "g_hasEdge B from1 to1 g = at_row B from1 (o_getBit B to1 (gv g from1))"

definition g_hasEdge_const :: "('b, 'i) bvops \<Rightarrow> nat \<Rightarrow> nat \<Rightarrow> 'b bvgraph \<Rightarrow> bool res" where
  "g_hasEdge_const B from1 to1 g = g_check B from1 to1 (o_getBit B to1 (gv g from1))"

definition g_removeEdge :: "('b, 'i) bvops \<Rightarrow> nat \<Rightarrow> nat \<Rightarrow> 'b bvgraph \<Rightarrow> (bool \<times> 'b bvgraph) res" where
  "g_removeEdge B from1 to1 g = at_row B from1 (
     bindr (o_clearBit B to1 (gv g from1)) (\<lambda>(r, b). Inr (r, g_set from1 b g)))"

definition g_removeEdgesTo :: "('b, 'i) bvops \<Rightarrow> 'b \<Rightarrow> 'b bvgraph \<Rightarrow> (bool \<times> 'b bvgraph) res" where
  "g_removeEdgesTo B to1 g = for_upto (\<lambda>from1 (res, g).
     bindr (o_setDifference B to1 (gv g from1)) (\<lambda>(chg, b).
     Inr (if chg then True else res, g_set from1 b g))) (o_size B) (False, g)"

definition remove_from_body :: "('b, 'i) bvops \<Rightarrow> nat \<Rightarrow> 'b \<times> 'b bvgraph \<times> bool \<Rightarrow> ('b \<times> 'b bvgraph \<times> bool) res" where
  "remove_from_body B idx = (\<lambda>(t, g, res). at_row B idx (
     if \<not> o_empty B (gv g idx) then Inr (t, g_set idx (o_clear B (gv g idx)) g, True) else Inr (t, g, res)))"

definition g_removeEdgesFrom_set :: "('b, 'i) bvops \<Rightarrow> 'b \<Rightarrow> 'b bvgraph \<Rightarrow> (bool \<times> 'b bvgraph) run" where
  "g_removeEdgesFrom_set B from1 g =
     bindo (Some (o_copyFrom B from1 (gt1 g))) (\<lambda>t.
     bindo (while_first B (remove_from_body B) (t, g, False)) (\<lambda>(t', g', res).
     Some (Inr (res, g'\<lparr>gt1 := t'\<rparr>))))"

definition g_removeEdgesFrom :: "('b, 'i) bvops \<Rightarrow> nat \<Rightarrow> 'b bvgraph \<Rightarrow> 'b bvgraph res" where
  "g_removeEdgesFrom B from1 g = at_row B from1 (Inr (g_set from1 (o_clear B (gv g from1)) g))"

definition visit_body :: "('b, 'i) bvops \<Rightarrow> 'b bvgraph \<Rightarrow> nat \<Rightarrow> 'b \<times> 'b \<Rightarrow> ('b \<times> 'b) res" where
  "visit_body B g idx = (\<lambda>(to_visit, visited).
     bindr (o_setBit B idx visited) (\<lambda>(new, visited').
     if new then at_row B idx (bindr (o_setUnion B (gv g idx) to_visit) (\<lambda>(_, to_visit'). Inr (to_visit', visited')))
     else Inr (to_visit, visited')))"

definition g_isReachable :: "('b, 'i) bvops \<Rightarrow> nat \<Rightarrow> 'b \<Rightarrow> 'b bvgraph \<Rightarrow> (bool \<times> 'b bvgraph) run" where
  "g_isReachable B from1 targets g =
     bindo (Some (at_row B from1 (o_copyFrom B (gv g from1) (gt1 g)))) (\<lambda>to_visit.
     bindo (Some (o_setBit B from1 (o_clear B (gt2 g)))) (\<lambda>(_, visited).
     bindo (while_first B (visit_body B g) (to_visit, visited)) (\<lambda>(to_visit', visited').
     bindo (Some (o_intersectsWith B visited' targets)) (\<lambda>r.
     Some (Inr (r, g\<lparr>gt1 := to_visit', gt2 := visited'\<rparr>))))))"

text \<open>\<open>mem\<close> is the array \<^verbatim>\<open>path\<close> of the outermost call, \<open>base\<close> the offset of the pointer that this call has got.\<close>

fun g_findPath :: "('b, 'i) bvops \<Rightarrow> 'b bvgraph \<Rightarrow> 'b \<Rightarrow> nat \<Rightarrow> nat \<Rightarrow> nat \<Rightarrow> (nat \<Rightarrow> nat) \<Rightarrow> (nat \<times> (nat \<Rightarrow> nat)) run" where
  "g_findPath B g targets 0 from1 base mem = Some (Inr (0, mem))"
| "g_findPath B g targets (Suc path_size) from1 base mem =
     (let mem' = mem(base := from1) in
      bindo (Some (o_getBit B from1 targets)) (\<lambda>b.
      if b then Some (Inr (1, mem'))
      else bindo (Some (at_row B from1 (Inr (gv g from1)))) (\<lambda>v.
        iter_until B v (\<lambda>idx m. g_findPath B g targets path_size idx (Suc base) m) (o_Iterator B v, mem'))))"

fun shortest_from :: "('b, 'i) bvops \<Rightarrow> 'b bvgraph \<Rightarrow> 'b \<Rightarrow> nat \<Rightarrow> nat \<Rightarrow> nat \<Rightarrow> (nat \<Rightarrow> nat) \<Rightarrow> (nat \<times> (nat \<Rightarrow> nat)) run" where
  "shortest_from B g targets from1 0 p mem = Some (Inr (0, mem))"
| "shortest_from B g targets from1 (Suc n) p mem =
     bindo (g_findPath B g targets p from1 0 mem) (\<lambda>(r, mem').
     if r = p then Some (Inr (p, mem')) else shortest_from B g targets from1 n (Suc p) mem')"

definition g_findShortestPath :: "('b, 'i) bvops \<Rightarrow> nat \<Rightarrow> 'b \<Rightarrow> nat \<Rightarrow> 'b bvgraph \<Rightarrow> (nat \<Rightarrow> nat) \<Rightarrow> (nat \<times> (nat \<Rightarrow> nat)) run" where
  "g_findShortestPath B from1 targets path_size g mem = shortest_from B g targets from1 path_size 1 mem"

section \<open>The graph it stands for\<close>

definition g_edges :: "nat \<Rightarrow> ('b \<Rightarrow> nat set) \<Rightarrow> 'b bvgraph \<Rightarrow> (nat \<times> nat) set" where
  "g_edges n elems g = {(a, b). a < n \<and> b \<in> elems (gv g a)}"

definition g_ok :: "nat \<Rightarrow> ('b \<Rightarrow> bool) \<Rightarrow> 'b bvgraph \<Rightarrow> bool" where
  "g_ok n ok g \<longleftrightarrow> (\<forall>a < n. ok (gv g a))"

lemma gv_set [simp]: "gv (g_set i b g) = (gv g)(i := b)" "gt1 (g_set i b g) = gt1 g" "gt2 (g_set i b g) = gt2 g"
  by (simp_all add: g_set_def)

lemma at_row_in [simp]: "i < o_size B \<Longrightarrow> at_row B i k = k"
  by (simp add: at_row_def)

lemma g_edges_set: "i < n \<Longrightarrow> g_edges n elems (g_set i b g) = {(x, y) \<in> g_edges n elems g. x \<noteq> i} \<union> {i} \<times> elems b"
  by (auto simp: g_edges_def split: if_splits)

lemma g_ok_set: "g_ok n ok g \<Longrightarrow> ok b \<Longrightarrow> g_ok n ok (g_set i b g)"
  by (simp add: g_ok_def)

text \<open>A path from a node to a set, as the list of its nodes.\<close>

definition path_to :: "(nat \<times> nat) set \<Rightarrow> nat \<Rightarrow> nat set \<Rightarrow> nat list \<Rightarrow> bool" where
  "path_to E a T xs \<longleftrightarrow> xs \<noteq> [] \<and> hd xs = a \<and> last xs \<in> T \<and> successively (\<lambda>x y. (x, y) \<in> E) xs"

lemma path_to_Cons: "path_to E a T (x # xs) \<longleftrightarrow> x = a \<and> (if xs = [] then a \<in> T else \<exists>b. (a, b) \<in> E \<and> path_to E b T xs)"
  by (cases xs) (auto simp: path_to_def)

lemma path_to_single: "a \<in> T \<Longrightarrow> path_to E a T [a]"
  by (simp add: path_to_def)

lemma path_to_rtrancl: "path_to E a T xs \<Longrightarrow> \<exists>t \<in> T. (a, t) \<in> E\<^sup>*"
proof (induction xs arbitrary: a)
  case (Cons x xs)
  then show ?case by (auto simp: path_to_Cons split: if_splits intro: converse_rtrancl_into_rtrancl)
qed (simp add: path_to_def)

lemma rtrancl_path_to: "(a, t) \<in> E\<^sup>* \<Longrightarrow> t \<in> T \<Longrightarrow> \<exists>xs. path_to E a T xs"
proof (induction rule: converse_rtrancl_induct)
  case base
  then show ?case using path_to_single by blast
next
  case (step y z)
  then obtain xs where xs: "path_to E z T xs" by blast
  then have "xs \<noteq> []" by (simp add: path_to_def)
  then have "path_to E y T (y # xs)" using step(1) xs by (auto simp: path_to_Cons)
  then show ?case by blast
qed

section \<open>The operations on edges\<close>

lemma g_clear_rows: "gv (g_clear B g) i = (if i < o_size B then o_clear B (gv g i) else gv g i)"
proof -
  have "gv (fold (\<lambda>i g. g_set i (o_clear B (gv g i)) g) [0..<n] g) i = (if i < n then o_clear B (gv g i) else gv g i)" for n
    by (induction n) auto
  then show ?thesis by (simp add: g_clear_def)
qed

context bitvec
begin

abbreviation "N \<equiv> o_size B"
abbreviation "E \<equiv> g_edges N elems"

lemma row_ok: "g_ok N ok g \<Longrightarrow> a < N \<Longrightarrow> ok (gv g a)"
  by (simp add: g_ok_def)

lemma edges_lt: "(a, b) \<in> E g \<Longrightarrow> a < N \<and> b < N"
  using elems_lt by (auto simp: g_edges_def)

lemma g_clear_ok: "g_ok N ok (g_clear B g)" "E (g_clear B g) = {}"
  by (auto simp: g_ok_def g_edges_def g_clear_rows clear)

lemma g_empty_iff: "g_ok N ok g \<Longrightarrow> g_empty B g \<longleftrightarrow> E g = {}"
  by (fastforce simp: g_empty_def g_ok_def g_edges_def empty)

lemma g_addEdge_ok:
  assumes "g_ok N ok g" "a < N" "b < N"
  shows "\<exists>g'. g_addEdge B a b g = Inr ((a, b) \<notin> E g, g') \<and> g_ok N ok g' \<and> E g' = insert (a, b) (E g)"
proof -
  obtain v where v: "o_setBit B b (gv g a) = Inr (b \<notin> elems (gv g a), v)" "ok v" "elems v = insert b (elems (gv g a))"
    using setBit [OF assms(3) row_ok [OF assms(1,2)]] by blast
  then have "g_addEdge B a b g = Inr ((a, b) \<notin> E g, g_set a v g)"
    using assms by (simp add: g_addEdge_def g_check_def g_edges_def)
  moreover have "E (g_set a v g) = insert (a, b) (E g)" using v(3) assms by (auto simp: g_edges_def split: if_splits)
  ultimately show ?thesis using g_ok_set [OF assms(1) v(2)] by blast
qed

lemma g_hasEdge_ok: "g_ok N ok g \<Longrightarrow> a < N \<Longrightarrow> b < N \<Longrightarrow> g_hasEdge B a b g = Inr ((a, b) \<in> E g)"
  by (simp add: g_hasEdge_def getBit row_ok g_edges_def)

lemma g_hasEdge_const_ok:
  "g_ok N ok g \<Longrightarrow> g_hasEdge_const B a b g =
     (if a < N then if b < N then Inr ((a, b) \<in> E g) else Inl (CheckFailed ''idx2 < size()'') else Inl (CheckFailed ''idx1 < size()''))"
  by (simp add: g_hasEdge_const_def g_check_def getBit row_ok g_edges_def)

lemma g_removeEdge_ok:
  assumes "g_ok N ok g" "a < N" "b < N"
  shows "\<exists>g'. g_removeEdge B a b g = Inr ((a, b) \<in> E g, g') \<and> g_ok N ok g' \<and> E g' = E g - {(a, b)}"
proof -
  obtain v where v: "o_clearBit B b (gv g a) = Inr (b \<in> elems (gv g a), v)" "ok v" "elems v = elems (gv g a) - {b}"
    using clearBit [OF assms(3) row_ok [OF assms(1,2)]] by blast
  then have "g_removeEdge B a b g = Inr ((a, b) \<in> E g, g_set a v g)"
    using assms by (simp add: g_removeEdge_def g_edges_def)
  moreover have "(x, y) \<in> E (g_set a v g) \<longleftrightarrow> (x, y) \<in> E g - {(a, b)}" for x y
    using assms(2) by (cases "x = a") (simp_all add: g_edges_def v(3))
  then have "E (g_set a v g) = E g - {(a, b)}" by auto
  ultimately show ?thesis using g_ok_set [OF assms(1) v(2)] by blast
qed

lemma g_removeEdgesFrom_ok:
  assumes "g_ok N ok g" "a < N"
  shows "\<exists>g'. g_removeEdgesFrom B a g = Inr g' \<and> g_ok N ok g' \<and> E g' = {(x, y) \<in> E g. x \<noteq> a}"
  using assms g_ok_set [OF assms(1) clear(1)] by (simp add: g_removeEdgesFrom_def g_edges_set clear)

lemma g_removeEdgesTo_ok:
  assumes "g_ok N ok g" "ok t"
  shows "\<exists>g'. g_removeEdgesTo B t g = Inr (E g' \<noteq> E g, g') \<and> g_ok N ok g' \<and> E g' = {(x, y) \<in> E g. y \<notin> elems t}"
proof -
  let ?I = "\<lambda>n (res, g'). g_ok N ok g' \<and> (res \<longleftrightarrow> E g' \<noteq> E g) \<and> E g' = {(x, y) \<in> E g. x < n \<longrightarrow> y \<notin> elems t}"
  let ?f = "\<lambda>from1 (res, g). bindr (o_setDifference B t (gv g from1)) (\<lambda>(chg, b). Inr (if chg then True else res, g_set from1 b g))"
  have "\<exists>s'. for_upto ?f N (False, g) = Inr s' \<and> ?I N s'"
  proof (rule for_upto_inv [where I = ?I])
    fix i and s :: "bool \<times> 'b bvgraph"
    assume i: "i < N" and I: "?I i s"
    obtain res g' where s: "s = (res, g')" by fastforce
    obtain b where b: "o_setDifference B t (gv g' i) = Inr (elems b \<noteq> elems (gv g' i), b)" "ok b" "elems b = elems (gv g' i) - elems t"
      using setDifference [OF assms(2) row_ok [OF _ i]] I s by blast
    have e: "E (g_set i b g') = {(x, y) \<in> E g. x < Suc i \<longrightarrow> y \<notin> elems t}"
    proof -
      have "(x, y) \<in> E (g_set i b g') \<longleftrightarrow> (x, y) \<in> E g' \<and> (x = i \<longrightarrow> y \<notin> elems t)" for x y
        using i by (cases "x = i") (simp_all add: g_edges_def b(3))
      then have "E (g_set i b g') = {(x, y) \<in> E g'. x = i \<longrightarrow> y \<notin> elems t}" by auto
      moreover have "E g' = {(x, y) \<in> E g. x < i \<longrightarrow> y \<notin> elems t}" using I s by simp
      ultimately show ?thesis by (auto simp: less_Suc_eq)
    qed
    have "E (g_set i b g') \<noteq> E g \<longleftrightarrow> elems b \<noteq> elems (gv g' i) \<or> res"
    proof -
      have "elems b = elems (gv g' i) \<longleftrightarrow> (\<forall>y. (i, y) \<in> E g' \<longrightarrow> y \<notin> elems t)" using i b(3) by (auto simp: g_edges_def)
      also have "\<dots> \<longleftrightarrow> (\<forall>y. (i, y) \<in> E g \<longrightarrow> y \<notin> elems t)" using I s by auto
      moreover have "res \<longleftrightarrow> (\<exists>x y. (x, y) \<in> E g \<and> x < i \<and> y \<in> elems t)" using I s by auto
      moreover have "{(x, y) \<in> E g. x < Suc i \<longrightarrow> y \<notin> elems t} \<noteq> E g \<longleftrightarrow> (\<exists>x y. (x, y) \<in> E g \<and> x < Suc i \<and> y \<in> elems t)"
        by blast
      ultimately show ?thesis unfolding e by (simp add: less_Suc_eq) blast
    qed
    then have "?I (Suc i) (if elems b \<noteq> elems (gv g' i) then True else res, g_set i b g')"
      using I s e b(2) by (auto intro: g_ok_set)
    then show "\<exists>s'. ?f i s = Inr s' \<and> ?I (Suc i) s'" using b(1) s by auto
  qed (use assms in auto)
  then obtain res g' where r: "g_removeEdgesTo B t g = Inr (res, g')" "?I N (res, g')"
    unfolding g_removeEdgesTo_def by auto
  moreover have "{(x, y) \<in> E g. x < N \<longrightarrow> y \<notin> elems t} = {(x, y) \<in> E g. y \<notin> elems t}" using edges_lt by blast
  ultimately show ?thesis by auto
qed

lemma finite_E: "finite (E g)"
  by (rule finite_subset [of _ "{..<N} \<times> {..<N}"]) (auto dest: edges_lt)

lemma g_addEdges_ok:
  assumes g: "g_ok N ok g" and l: "ok l" and b: "b < N"
  shows "\<exists>added g'. g_addEdges B l b m g = Some (Inr (added, g')) \<and> g_ok N ok g' \<and> E g' = E g \<union> elems l \<times> {b} \<and>
    distinct added \<and> set added \<subseteq> {a \<in> elems l. (a, b) \<notin> E g} \<and> length added = min m (card {a \<in> elems l. (a, b) \<notin> E g})"
proof -
  obtain t where t: "o_copyFrom B l (gt1 g) = Inr t" "ok t" "elems t = elems l" using copyFrom [OF l] by blast
  let ?new = "{a \<in> elems l. (a, b) \<notin> E g}"
  let ?I = "\<lambda>A (g', added). g_ok N ok g' \<and> E g' = E g \<union> (elems l - A) \<times> {b} \<and> distinct added \<and>
     set added \<subseteq> ?new - A \<and> length added = min m (card (?new - A))"
  have "\<exists>t' s'. while_first B (add_edge_body B b m) (t, g, []) = Some (Inr (t', s')) \<and> ok t' \<and> elems t' = {} \<and> ?I {} s'"
  proof (rule while_first_each [where I = ?I])
    have "?new - elems t = {}" using t(3) by blast
    then show "?I (elems t) (g, [])" using g t(3) by (simp only: split_conv) simp
  next
    fix A and s :: "'b bvgraph \<times> nat list" and i t'
    assume I: "?I A s" and i: "i \<in> A" "A \<subseteq> elems t"
    obtain g' added where s: "s = (g', added)" by fastforce
    have il: "i \<in> elems l" and iN: "i < N" using i t(3) elems_lt by blast+
    have ok': "g_ok N ok g'" using I s by simp
    obtain v where v: "o_setBit B b (gv g' i) = Inr (b \<notin> elems (gv g' i), v)" "ok v" "elems v = insert b (elems (gv g' i))"
      using setBit [OF b row_ok [OF ok' iN]] by blast
    have E': "E g' = E g \<union> (elems l - A) \<times> {b}" using I s by simp
    have new: "b \<notin> elems (gv g' i) \<longleftrightarrow> i \<in> ?new"
    proof -
      have "b \<in> elems (gv g' i) \<longleftrightarrow> (i, b) \<in> E g'" using iN by (simp add: g_edges_def)
      then show ?thesis using il i(1) unfolding E' by blast
    qed
    let ?added = "if b \<notin> elems (gv g' i) \<and> length added < m then added @ [i] else added"
    have "E (g_set i v g') = insert (i, b) (E g')"
    proof (rule set_eqI, clarify)
      show "(x, y) \<in> E (g_set i v g') \<longleftrightarrow> (x, y) \<in> insert (i, b) (E g')" for x y
        using iN by (cases "x = i") (auto simp add: g_edges_def v(3))
    qed
    moreover have "elems l - (A - {i}) = insert i (elems l - A)" using il by auto
    ultimately have e: "E (g_set i v g') = E g \<union> (elems l - (A - {i})) \<times> {b}" using E' by simp
    have c: "?new - (A - {i}) = (if i \<in> ?new then insert i (?new - A) else ?new - A)" "i \<notin> ?new - A" using i(1) il by auto
    have fin: "finite (?new - A)" using finite_elems [of l] by simp
    have cc: "card (?new - (A - {i})) = (if i \<in> ?new then Suc (card (?new - A)) else card (?new - A))"
      unfolding c(1) using card_insert_disjoint [OF fin c(2)] by presburger
    have J: "distinct added" "set added \<subseteq> ?new - A" "length added = min m (card (?new - A))" using I s by auto
    have "distinct ?added" "set ?added \<subseteq> ?new - (A - {i})" using J(1,2) c(2) new by auto
    moreover have "length ?added = min m (card (?new - (A - {i})))" unfolding cc using J(3) new by auto
    ultimately have "?I (A - {i}) (g_set i v g', ?added)" using e g_ok_set [OF ok' v(2)] by simp
    moreover have "add_edge_body B b m i (t', s) = Inr (t', g_set i v g', ?added)"
      using iN v(1) s by (simp add: add_edge_body_def)
    ultimately show "\<exists>s'. add_edge_body B b m i (t', s) = Inr (t', s') \<and> ?I (A - {i}) s'" by blast
  qed (rule t(2))
  then obtain t' g' added where w: "while_first B (add_edge_body B b m) (t, g, []) = Some (Inr (t', g', added))" "?I {} (g', added)"
    by auto
  have "g_addEdges B l b m g = Some (Inr (added, g'\<lparr>gt1 := t'\<rparr>))" by (simp add: g_addEdges_def t(1) w(1))
  moreover have "g_ok N ok (g'\<lparr>gt1 := t'\<rparr>)" "E (g'\<lparr>gt1 := t'\<rparr>) = E g'" using w(2) by (simp_all add: g_ok_def g_edges_def)
  ultimately show ?thesis using w(2) by auto
qed

lemma g_removeEdgesFrom_set_ok:
  assumes g: "g_ok N ok g" and l: "ok l"
  shows "\<exists>g'. g_removeEdgesFrom_set B l g = Some (Inr (E g' \<noteq> E g, g')) \<and> g_ok N ok g' \<and> E g' = {(x, y) \<in> E g. x \<notin> elems l}"
proof -
  obtain t where t: "o_copyFrom B l (gt1 g) = Inr t" "ok t" "elems t = elems l" using copyFrom [OF l] by blast
  let ?I = "\<lambda>A (g', res). g_ok N ok g' \<and> E g' = {(x, y) \<in> E g. x \<notin> elems l - A} \<and> (res \<longleftrightarrow> E g' \<noteq> E g)"
  have "\<exists>t' s'. while_first B (remove_from_body B) (t, g, False) = Some (Inr (t', s')) \<and> ok t' \<and> elems t' = {} \<and> ?I {} s'"
  proof (rule while_first_each [where I = ?I])
    show "?I (elems t) (g, False)" using g t(3) by simp
  next
    fix A and s :: "'b bvgraph \<times> bool" and i t'
    assume I: "?I A s" and i: "i \<in> A" "A \<subseteq> elems t"
    obtain g' res where s: "s = (g', res)" by fastforce
    have il: "i \<in> elems l" and iN: "i < N" using i t(3) elems_lt by blast+
    have ok': "g_ok N ok g'" and E': "E g' = {(x, y) \<in> E g. x \<notin> elems l - A}" and r: "res \<longleftrightarrow> E g' \<noteq> E g" using I s by simp_all
    have em: "o_empty B (gv g' i) \<longleftrightarrow> (\<forall>y. (i, y) \<notin> E g')"
      using empty [OF row_ok [OF ok' iN]] iN by (auto simp: g_edges_def)
    let ?g = "g_set i (o_clear B (gv g' i)) g'"
    have "E ?g = {(x, y) \<in> E g'. x \<noteq> i}" using g_edges_set [OF iN, of elems "o_clear B (gv g' i)" g'] by (simp add: clear)
    then have E'': "E ?g = {(x, y) \<in> E g. x \<notin> elems l - (A - {i})}" unfolding E' using il by blast
    show "\<exists>s'. remove_from_body B i (t', s) = Inr (t', s') \<and> ?I (A - {i}) s'"
    proof (cases "o_empty B (gv g' i)")
      case True
      then have "E g' = {(x, y) \<in> E g. x \<notin> elems l - (A - {i})}" using em il unfolding E' by blast
      then show ?thesis using True iN s ok' r by (simp add: remove_from_body_def)
    next
      case False
      then obtain y where "(i, y) \<in> E g'" using em by blast
      then have "(i, y) \<in> E g" "(i, y) \<notin> E ?g" using E' E'' il by auto
      then have "E ?g \<noteq> E g" by blast
      then show ?thesis using False iN s g_ok_set [OF ok' clear(1)] E'' by (simp add: remove_from_body_def)
    qed
  qed (rule t(2))
  then obtain t' g' res where w: "while_first B (remove_from_body B) (t, g, False) = Some (Inr (t', g', res))" "?I {} (g', res)"
    by auto
  have "g_removeEdgesFrom_set B l g = Some (Inr (res, g'\<lparr>gt1 := t'\<rparr>))" by (simp add: g_removeEdgesFrom_set_def t(1) w(1))
  moreover have "g_ok N ok (g'\<lparr>gt1 := t'\<rparr>)" "E (g'\<lparr>gt1 := t'\<rparr>) = E g'" using w(2) by (simp_all add: g_ok_def g_edges_def)
  ultimately show ?thesis using w(2) by auto
qed

text \<open>Reachability: the loop ends because every round finds a new node or shrinks the set of nodes to visit.\<close>

lemma g_isReachable_ok:
  assumes g: "g_ok N ok g" and a: "a < N" and T: "ok T"
  shows "\<exists>g'. g_isReachable B a T g = Some (Inr ((\<exists>t \<in> elems T. (a, t) \<in> (E g)\<^sup>*), g')) \<and> gv g' = gv g"
proof -
  obtain t where t: "o_copyFrom B (gv g a) (gt1 g) = Inr t" "ok t" "elems t = elems (gv g a)"
    using copyFrom [OF row_ok [OF g a]] by blast
  obtain s where s: "o_setBit B a (o_clear B (gt2 g)) = Inr (True, s)" "ok s" "elems s = {a}"
    using setBit [OF a clear(1), of "gt2 g"] by (auto simp: clear(2))
  let ?R = "(E g)\<^sup>* `` {a}"
  let ?I = "\<lambda>t s. ok s \<and> a \<in> elems s \<and> elems s \<subseteq> ?R \<and> elems t \<subseteq> ?R \<and> E g `` elems s \<subseteq> elems s \<union> elems t"
  let ?r = "measures [\<lambda>(t, s). N - card (elems s), \<lambda>(t, s). card (elems t)]"
  have "\<exists>t' s'. while_first B (visit_body B g) (t, s) = Some (Inr (t', s')) \<and> ok t' \<and> elems t' = {} \<and> ?I t' s'"
  proof (rule while_first_inv [where r = ?r and I = ?I])
    have "E g `` {a} = elems t" using a t(3) by (auto simp: g_edges_def)
    then show "?I t s" using s by auto
  next
    fix t s i t'
    assume t: "ok t" and I: "?I t s" and i: "i \<in> elems t" "ok t'" "elems t' = elems t - {i}"
    have iN: "i < N" using i elems_lt by blast
    obtain s' where s': "o_setBit B i s = Inr (i \<notin> elems s, s')" "ok s'" "elems s' = insert i (elems s)"
      using setBit [OF iN] I by blast
    show "\<exists>u s'. visit_body B g i (t', s) = Inr (u, s') \<and> ok u \<and> ?I u s' \<and> ((u, s'), (t, s)) \<in> ?r"
    proof (cases "i \<in> elems s")
      case True
      then have "elems s' = elems s" using s'(3) by (simp add: insert_absorb)
      moreover have "card (elems t') < card (elems t)" unfolding i(3) by (rule card_Diff1_less [OF finite_elems i(1)])
      ultimately show ?thesis using True I i s' by (auto simp: visit_body_def)
    next
      case False
      obtain u where u: "o_setUnion B (gv g i) t' = Inr (elems u \<noteq> elems t', u)" "ok u" "elems u = elems t' \<union> elems (gv g i)"
        using setUnion [OF row_ok [OF g iN] i(2)] by blast
      have "elems (gv g i) = E g `` {i}" using iN by (auto simp: g_edges_def)
      moreover have iR: "i \<in> ?R" using I i(1) by blast
      then have "E g `` {i} \<subseteq> ?R" by (auto intro: rtrancl_into_rtrancl)
      ultimately have "?I u s'" using iR I i(3) s'(2,3) u(3) by auto
      moreover have "elems s' \<subseteq> {..<N}" using elems_lt by blast
      then have "card (elems s') \<le> N" using card_mono [of "{..<N}"] by fastforce
      moreover have "card (elems s') = Suc (card (elems s))" using False s'(3) finite_elems [of s] by simp
      ultimately show ?thesis using False s'(1) u iN by (auto simp: visit_body_def)
    qed
  qed (use t in auto)
  then obtain t' s' where w: "while_first B (visit_body B g) (t, s) = Some (Inr (t', s'))" "elems t' = {}" "?I t' s'" by blast
  have "?R \<subseteq> elems s'"
  proof
    fix x
    assume "x \<in> ?R"
    then have "(a, x) \<in> (E g)\<^sup>*" by simp
    then show "x \<in> elems s'" by (induction rule: rtrancl_induct) (use w(2,3) in auto)
  qed
  then have "elems s' = ?R" using w(3) by blast
  then have "o_intersectsWith B s' T = Inr (\<exists>t \<in> elems T. (a, t) \<in> (E g)\<^sup>*)"
    using intersectsWith [of s' T] w(3) T by auto
  then show ?thesis using a by (simp add: g_isReachable_def t(1) s(1) w(1))
qed

text \<open>A path found has at most as many nodes as allowed and lies in the array from the offset on; none found, none exists.\<close>

lemma map_same: "(\<And>x. x \<in> set xs \<Longrightarrow> f x = g x) \<Longrightarrow> map f xs = map g xs"
  by (induction xs) auto

lemma g_findPath_ok:
  assumes g: "g_ok N ok g" and T: "ok T"
  shows "a < N \<Longrightarrow> \<exists>r mem'. g_findPath B g T n a base mem = Some (Inr (r, mem')) \<and> (\<forall>x < base. mem' x = mem x) \<and>
    (if r = 0 then \<forall>xs. path_to (E g) a (elems T) xs \<longrightarrow> n < length xs
     else r \<le> n \<and> path_to (E g) a (elems T) (map mem' [base..<base + r]))"
proof (induction n arbitrary: a base mem)
  case 0
  then show ?case by (auto simp: path_to_def)
next
  case (Suc n)
  let ?mem = "mem(base := a)"
  show ?case
  proof (cases "a \<in> elems T")
    case True
    then show ?thesis using getBit [OF Suc.prems T] by (simp add: Let_def path_to_single)
  next
    case False
    let ?J = "\<lambda>m :: nat \<Rightarrow> nat. \<forall>x \<le> base. m x = ?mem x"
    let ?Z = "\<lambda>i. \<forall>xs. path_to (E g) i (elems T) xs \<longrightarrow> n < length xs"
    let ?Q = "\<lambda>i r m. ?J m \<and> r \<le> n \<and> path_to (E g) i (elems T) (map m [Suc base..<Suc base + r])"
    have va: "ok (gv g a)" using row_ok [OF g Suc.prems] .
    have "\<exists>r m. iter_until B (gv g a) (\<lambda>idx m. g_findPath B g T n idx (Suc base) m) (o_Iterator B (gv g a), ?mem) = Some (Inr (r, m)) \<and>
       (if r = 0 then ?J m \<and> (\<forall>i \<in> left (gv g a) (o_Iterator B (gv g a)). ?Z i)
        else (\<exists>i \<in> left (gv g a) (o_Iterator B (gv g a)). ?Q i (r - 1) m))"
    proof (rule iter_until_inv [where J = ?J and Z = ?Z and Q = ?Q, OF va _ Iterator(1)])
      fix i m
      assume i: "i \<in> elems (gv g a)" and J: "?J m"
      have "i < N" using i elems_lt by blast
      from Suc.IH [OF this, of "Suc base" m] obtain r m' where
        r: "g_findPath B g T n i (Suc base) m = Some (Inr (r, m'))" "\<forall>x < Suc base. m' x = m x"
        "if r = 0 then ?Z i else r \<le> n \<and> path_to (E g) i (elems T) (map m' [Suc base..<Suc base + r])" by blast
      have "?J m'" using J r(2) by (simp add: less_Suc_eq_le)
      then show "\<exists>r s'. g_findPath B g T n i (Suc base) m = Some (Inr (r, s')) \<and> (if r = 0 then ?J s' \<and> ?Z i else ?Q i r s')"
        using r(1,3) by (intro exI [of _ r] exI [of _ m']) (auto split: if_splits)
    qed simp
    then obtain r m where it: "iter_until B (gv g a) (\<lambda>idx m. g_findPath B g T n idx (Suc base) m) (o_Iterator B (gv g a), ?mem) = Some (Inr (r, m))"
      and post: "if r = 0 then ?J m \<and> (\<forall>i \<in> elems (gv g a). ?Z i) else (\<exists>i \<in> elems (gv g a). ?Q i (r - 1) m)"
      unfolding Iterator(2) by blast
    have run: "g_findPath B g T (Suc n) a base mem = Some (Inr (r, m))"
      using getBit [OF Suc.prems T] False Suc.prems it by (simp add: Let_def)
    show ?thesis
    proof (cases "r = 0")
      case True
      have "Suc n < length xs" if xs: "path_to (E g) a (elems T) xs" for xs
      proof (cases xs)
        case Nil
        then show ?thesis using xs by (simp add: path_to_def)
      next
        case (Cons x ys)
        then obtain b where "(a, b) \<in> E g" "path_to (E g) b (elems T) ys" using xs False by (auto simp: path_to_Cons split: if_splits)
        then show ?thesis using post True Cons by (auto simp: g_edges_def)
      qed
      then show ?thesis using run True post by simp
    next
      case ne: False
      then obtain i where i: "i \<in> elems (gv g a)" "?Q i (r - 1) m" using post by auto
      define ys where "ys = map m [Suc base..<Suc base + (r - 1)]"
      have "m base = a" using i(2) by simp
      moreover have "Suc base + (r - 1) = base + r" using ne by simp
      ultimately have e: "map m [base..<base + r] = a # ys" using ne unfolding ys_def by (simp only: upt_conv_Cons) (simp add: upt_conv_Cons)
      have "(a, i) \<in> E g" "path_to (E g) i (elems T) ys" using i Suc.prems by (auto simp: ys_def g_edges_def)
      moreover from this have "ys \<noteq> []" by (simp add: path_to_def)
      ultimately have "path_to (E g) a (elems T) (a # ys)" by (auto simp: path_to_Cons)
      then show ?thesis using run ne i(2) unfolding e [symmetric] by auto
    qed
  qed
qed

lemma shortest_from_ok:
  assumes g: "g_ok N ok g" and T: "ok T" and a: "a < N"
  shows "0 < p \<Longrightarrow> (\<And>xs. path_to (E g) a (elems T) xs \<Longrightarrow> p \<le> length xs) \<Longrightarrow>
    \<exists>r mem'. shortest_from B g T a n p mem = Some (Inr (r, mem')) \<and>
    (if r = 0 then \<forall>xs. path_to (E g) a (elems T) xs \<longrightarrow> p + n \<le> length xs
     else r < p + n \<and> path_to (E g) a (elems T) (map mem' [0..<r]) \<and> (\<forall>xs. path_to (E g) a (elems T) xs \<longrightarrow> r \<le> length xs))"
proof (induction n arbitrary: p mem)
  case 0
  then show ?case by auto
next
  case (Suc n)
  obtain r mem' where r: "g_findPath B g T p a 0 mem = Some (Inr (r, mem'))"
    "if r = 0 then \<forall>xs. path_to (E g) a (elems T) xs \<longrightarrow> p < length xs
     else r \<le> p \<and> path_to (E g) a (elems T) (map mem' [0..<r])"
    using g_findPath_ok [OF g T a, of p 0 mem] unfolding add_0 by blast
  show ?case
  proof (cases "r = 0")
    case True
    then have "Suc p \<le> length xs" if "path_to (E g) a (elems T) xs" for xs using r(2) that by auto
    note IH = Suc.IH [OF zero_less_Suc this, of mem']
    have run: "shortest_from B g T a (Suc n) p mem = shortest_from B g T a n (Suc p) mem'"
      using True r(1) Suc.prems(1) by simp
    show ?thesis using IH unfolding run add_Suc add_Suc_right .
  next
    case False
    then have "r = p" using r(2) Suc.prems(2) by fastforce
    then show ?thesis using False r Suc.prems by auto
  qed
qed

lemma g_findShortestPath_ok:
  assumes "g_ok N ok g" "ok T" "a < N"
  shows "\<exists>r mem'. g_findShortestPath B a T n g mem = Some (Inr (r, mem')) \<and>
    (if r = 0 then \<forall>xs. path_to (E g) a (elems T) xs \<longrightarrow> n < length xs
     else r \<le> n \<and> path_to (E g) a (elems T) (map mem' [0..<r]) \<and> (\<forall>xs. path_to (E g) a (elems T) xs \<longrightarrow> r \<le> length xs))"
proof -
  have "1 \<le> length xs" if "path_to (E g) a (elems T) xs" for xs using that by (cases xs) (auto simp: path_to_def)
  from shortest_from_ok [OF assms zero_less_one this, of n mem] show ?thesis
    unfolding g_findShortestPath_def by (metis Suc_le_eq less_Suc_eq_le plus_1_eq_Suc)
qed

end

section \<open>The properties, for two level vectors\<close>

lemma size_two [simp]: "o_size (TwoLevelBV k) = t_size k"
  by (simp add: TwoLevelBV_def)

definition graph_ok :: "nat \<Rightarrow> tlbv bvgraph \<Rightarrow> bool" where
  "graph_ok k g \<longleftrightarrow> g_ok (t_size k) (t_ok k) g"

definition graph_edges :: "nat \<Rightarrow> tlbv bvgraph \<Rightarrow> (nat \<times> nat) set" where
  "graph_edges k g = g_edges (t_size k) (t_elems k) g"

definition g_example :: "tlbv bvgraph" where
  "g_example = \<lparr>gv = (\<lambda>i. tl_example), gt1 = tl_example, gt2 = tl_example\<rparr>"

lemma g_example_ok: "graph_ok 1 g_example"
  using tl_example_ok by (simp add: graph_ok_def g_ok_def g_example_def del: One_nat_def)

text \<open>
  C24. The operations of \<^verbatim>\<open>BVGraph\<close> implement those on finite edge sets: none of them fails a check or leaves its
  arrays, all of them end, and they report truly whether edges were added or removed. \<^verbatim>\<open>addEdges\<close> adds all edges from the
  nodes of the vector, but lists and counts at most \<^verbatim>\<open>max_added_edges\<close> of the new ones.
\<close>

theorem graph_edge_set:
  assumes "graph_ok k g" "a < t_size k" "b < t_size k" "t_ok k l"
  shows "graph_ok k (g_clear (TwoLevelBV k) g) \<and> graph_edges k (g_clear (TwoLevelBV k) g) = {} \<and>
    g_empty (TwoLevelBV k) g = (graph_edges k g = {}) \<and> g_hasEdge (TwoLevelBV k) a b g = Inr ((a, b) \<in> graph_edges k g) \<and>
    (\<exists>g'. g_addEdge (TwoLevelBV k) a b g = Inr ((a, b) \<notin> graph_edges k g, g') \<and> graph_ok k g' \<and>
       graph_edges k g' = insert (a, b) (graph_edges k g)) \<and>
    (\<exists>g'. g_removeEdge (TwoLevelBV k) a b g = Inr ((a, b) \<in> graph_edges k g, g') \<and> graph_ok k g' \<and>
       graph_edges k g' = graph_edges k g - {(a, b)}) \<and>
    (\<exists>g'. g_removeEdgesFrom (TwoLevelBV k) a g = Inr g' \<and> graph_ok k g' \<and> graph_edges k g' = {(x, y) \<in> graph_edges k g. x \<noteq> a}) \<and>
    (\<exists>g'. g_removeEdgesTo (TwoLevelBV k) l g = Inr (graph_edges k g' \<noteq> graph_edges k g, g') \<and> graph_ok k g' \<and>
       graph_edges k g' = {(x, y) \<in> graph_edges k g. y \<notin> t_elems k l}) \<and>
    (\<exists>g'. g_removeEdgesFrom_set (TwoLevelBV k) l g = Some (Inr (graph_edges k g' \<noteq> graph_edges k g, g')) \<and> graph_ok k g' \<and>
       graph_edges k g' = {(x, y) \<in> graph_edges k g. x \<notin> t_elems k l}) \<and>
    (\<exists>added g'. g_addEdges (TwoLevelBV k) l b m g = Some (Inr (added, g')) \<and> graph_ok k g' \<and>
       graph_edges k g' = graph_edges k g \<union> t_elems k l \<times> {b} \<and> distinct added \<and>
       set added \<subseteq> {a \<in> t_elems k l. (a, b) \<notin> graph_edges k g} \<and>
       length added = min m (card {a \<in> t_elems k l. (a, b) \<notin> graph_edges k g}))"
  using assms two.g_clear_ok [of k g] two.g_empty_iff [of k g] two.g_hasEdge_ok [of k g a b] two.g_addEdge_ok [of k g a b]
    two.g_removeEdge_ok [of k g a b] two.g_removeEdgesFrom_ok [of k g a] two.g_removeEdgesTo_ok [of k g l]
    two.g_removeEdgesFrom_set_ok [of k g l] two.g_addEdges_ok [of k g l b m]
  unfolding graph_ok_def graph_edges_def by simp

lemma graph_edge_set_witness:
  "\<exists>g'. g_addEdge (TwoLevelBV 1) 5 7 g_example = Inr ((5, 7) \<notin> graph_edges 1 g_example, g') \<and> graph_ok 1 g' \<and>
     graph_edges 1 g' = insert (5, 7) (graph_edges 1 g_example)"
  using graph_edge_set [OF g_example_ok _ _ tl_example_ok, of 5 7] by (simp add: t_size_def bv_size_def)

text \<open>
  C15. \<^verbatim>\<open>isReachable\<close> ends, fails no check, leaves the edges alone and answers whether a path of
  edges, possibly of none, leads from the node to one of the targets.
\<close>

theorem isReachable_reaches:
  assumes "graph_ok k g" "a < t_size k" "t_ok k targets"
  shows "\<exists>g'. g_isReachable (TwoLevelBV k) a targets g = Some (Inr ((\<exists>t \<in> t_elems k targets. (a, t) \<in> (graph_edges k g)\<^sup>*), g')) \<and> gv g' = gv g"
  using assms two.g_isReachable_ok [of k g a targets] unfolding graph_ok_def graph_edges_def by simp

lemma isReachable_reaches_witness:
  "\<exists>g'. g_isReachable (TwoLevelBV 1) 5 tl_example g_example =
     Some (Inr ((\<exists>t \<in> t_elems 1 tl_example. (5, t) \<in> (graph_edges 1 g_example)\<^sup>*), g')) \<and> gv g' = gv g_example"
  by (rule isReachable_reaches [OF g_example_ok _ tl_example_ok]) (simp add: t_size_def bv_size_def)

text \<open>
  C23. \<^verbatim>\<open>findShortestPath\<close> ends and fails no check. A result 0 says that every path to a target has more
  than \<^verbatim>\<open>path_size\<close> nodes; another result \<open>r\<close> that the first \<open>r\<close> cells of \<^verbatim>\<open>path\<close> hold a path to a target and that
  no path has fewer nodes.
\<close>

theorem findShortestPath_shortest:
  assumes "graph_ok k g" "t_ok k targets" "a < t_size k"
  shows "\<exists>r mem'. g_findShortestPath (TwoLevelBV k) a targets path_size g mem = Some (Inr (r, mem')) \<and>
    (if r = 0 then \<forall>xs. path_to (graph_edges k g) a (t_elems k targets) xs \<longrightarrow> path_size < length xs
     else r \<le> path_size \<and> path_to (graph_edges k g) a (t_elems k targets) (map mem' [0..<r]) \<and>
       (\<forall>xs. path_to (graph_edges k g) a (t_elems k targets) xs \<longrightarrow> r \<le> length xs))"
  using assms unfolding graph_ok_def graph_edges_def by (rule two.g_findShortestPath_ok [unfolded size_two])

lemma findShortestPath_shortest_witness:
  "\<exists>r mem'. g_findShortestPath (TwoLevelBV 1) 5 tl_example 20 g_example (\<lambda>i. 0) = Some (Inr (r, mem')) \<and>
    (if r = 0 then \<forall>xs. path_to (graph_edges 1 g_example) 5 (t_elems 1 tl_example) xs \<longrightarrow> 20 < length xs
     else r \<le> 20 \<and> path_to (graph_edges 1 g_example) 5 (t_elems 1 tl_example) (map mem' [0..<r]) \<and>
       (\<forall>xs. path_to (graph_edges 1 g_example) 5 (t_elems 1 tl_example) xs \<longrightarrow> r \<le> length xs))"
  by (rule findShortestPath_shortest [OF g_example_ok tl_example_ok]) (simp add: t_size_def bv_size_def)

end
