(* ===== verification/Deadlock.thy ===== *)
theory Deadlock
  imports BVGraph "HOL-Library.Multiset"
begin

text \<open>
  \<^verbatim>\<open>sanitizer_deadlock_detector.h\<close>: the locks a thread holds (\<^verbatim>\<open>DeadlockDetectorTLS\<close>, prefix \<open>tls_\<close>) and the graph of
  lock orders (\<^verbatim>\<open>DeadlockDetector\<close>, prefix \<open>dd_\<close>). A node is an epoch, a multiple of the size, plus an index of the graph. The
  fixed arrays are functions with the count the code keeps; their bounds are the checks of the code.
\<close>

section \<open>The locks of a thread\<close>

record 'b dtls =
  tls_bv :: 'b
  tls_epoch :: uptr
  recursive_locks :: "nat \<Rightarrow> nat"
  n_recursive_locks :: nat
  all_locks :: "nat \<Rightarrow> u32 \<times> u32"
  n_all_locks :: nat

definition tls_clear :: "('b, 'i) bvops \<Rightarrow> 'b dtls \<Rightarrow> 'b dtls" where
  "tls_clear B d = d\<lparr>tls_bv := o_clear B (tls_bv d), tls_epoch := 0, n_recursive_locks := 0, n_all_locks := 0\<rparr>"

definition tls_empty :: "('b, 'i) bvops \<Rightarrow> 'b dtls \<Rightarrow> bool" where
  "tls_empty B d \<longleftrightarrow> o_empty B (tls_bv d)"

definition tls_ensureCurrentEpoch :: "('b, 'i) bvops \<Rightarrow> uptr \<Rightarrow> 'b dtls \<Rightarrow> 'b dtls" where
  "tls_ensureCurrentEpoch B current_epoch d =
     (if tls_epoch d = current_epoch then d
      else d\<lparr>tls_bv := o_clear B (tls_bv d), tls_epoch := current_epoch, n_recursive_locks := 0, n_all_locks := 0\<rparr>)"

definition tls_addLock :: "('b, 'i) bvops \<Rightarrow> nat \<Rightarrow> uptr \<Rightarrow> u32 \<Rightarrow> 'b dtls \<Rightarrow> (bool \<times> 'b dtls) res" where
  "tls_addLock B lock_id current_epoch stk d =
     check (tls_epoch d = current_epoch) ''epoch_ == current_epoch'' (
     bindr (o_setBit B lock_id (tls_bv d)) (\<lambda>(new, b).
     let d = d\<lparr>tls_bv := b\<rparr> in
     if \<not> new then
       check (n_recursive_locks d < 64) ''n_recursive_locks < ARRAY_SIZE(recursive_locks)'' (
         Inr (False, d\<lparr>recursive_locks := (recursive_locks d)(n_recursive_locks d := lock_id),
                n_recursive_locks := n_recursive_locks d + 1\<rparr>))
     else
       check (n_all_locks d < 64) ''n_all_locks_ < ARRAY_SIZE(all_locks_with_contexts_)'' (
         Inr (True, d\<lparr>all_locks := (all_locks d)(n_all_locks d := (of_nat lock_id, stk)),
                n_all_locks := n_all_locks d + 1\<rparr>))))"

text \<open>\<^verbatim>\<open>for (sptr i = n - 1; i >= 0; i--)\<close> with an exit at the first index that fits.\<close>

fun find_down :: "(nat \<Rightarrow> bool) \<Rightarrow> nat \<Rightarrow> nat option" where
  "find_down p 0 = None"
| "find_down p (Suc i) = (if p i then Some i else find_down p i)"

definition swap_at :: "(nat \<Rightarrow> 'a) \<Rightarrow> nat \<Rightarrow> nat \<Rightarrow> (nat \<Rightarrow> 'a)" where
  "swap_at f i j = f(i := f j, j := f i)"

definition tls_removeLock :: "('b, 'i) bvops \<Rightarrow> nat \<Rightarrow> 'b dtls \<Rightarrow> 'b dtls res" where
  "tls_removeLock B lock_id d =
     (case if n_recursive_locks d \<noteq> 0 then find_down (\<lambda>i. recursive_locks d i = lock_id) (n_recursive_locks d) else None of
        Some i \<Rightarrow> let n = n_recursive_locks d - 1 in
          Inr (d\<lparr>n_recursive_locks := n, recursive_locks := swap_at (recursive_locks d) i n\<rparr>)
      | None \<Rightarrow>
          bindr (o_clearBit B lock_id (tls_bv d)) (\<lambda>(changed, b).
          let d = d\<lparr>tls_bv := b\<rparr> in
          if \<not> changed then Inr d
          else case if n_all_locks d \<noteq> 0 then find_down (\<lambda>i. fst (all_locks d i) = of_nat lock_id) (n_all_locks d) else None of
            Some i \<Rightarrow> Inr (d\<lparr>all_locks := swap_at (all_locks d) i (n_all_locks d - 1), n_all_locks := n_all_locks d - 1\<rparr>)
          | None \<Rightarrow> Inr d))"

definition tls_findLockContext :: "nat \<Rightarrow> 'b dtls \<Rightarrow> u32" where
  "tls_findLockContext lock_id d =
     (case find (\<lambda>i. fst (all_locks d i) = of_nat lock_id) [0..<n_all_locks d] of Some i \<Rightarrow> snd (all_locks d i) | None \<Rightarrow> 0)"

definition tls_getLocks :: "uptr \<Rightarrow> 'b dtls \<Rightarrow> 'b res" where
  "tls_getLocks current_epoch d = check (tls_epoch d = current_epoch) ''epoch_ == current_epoch'' (Inr (tls_bv d))"

definition tls_getLock :: "nat \<Rightarrow> 'b dtls \<Rightarrow> nat" where
  "tls_getLock idx d = unat (fst (all_locks d idx))"

section \<open>The detector\<close>

record edge =
  e_from :: u16
  e_to :: u16
  e_stk_from :: u32
  e_stk_to :: u32
  e_tid :: u32

record 'b dd =
  current_epoch :: uptr
  available_nodes :: 'b
  recycled_nodes :: 'b
  tmp_bv :: 'b
  dd_g :: "'b bvgraph"
  dd_data :: "nat \<Rightarrow> uptr"
  dd_edges :: "nat \<Rightarrow> edge"
  n_edges :: nat

definition dd_clear :: "('b, 'i) bvops \<Rightarrow> 'b dd \<Rightarrow> 'b dd" where
  "dd_clear B D = D\<lparr>current_epoch := 0, available_nodes := o_clear B (available_nodes D),
     recycled_nodes := o_clear B (recycled_nodes D), dd_g := g_clear B (dd_g D), n_edges := 0\<rparr>"

definition nodeToIndexUnchecked :: "('b, 'i) bvops \<Rightarrow> uptr \<Rightarrow> nat" where
  "nodeToIndexUnchecked B node = unat (node mod of_nat (o_size B))"

definition nodeToEpoch :: "('b, 'i) bvops \<Rightarrow> uptr \<Rightarrow> uptr" where
  "nodeToEpoch B node = node div of_nat (o_size B) * of_nat (o_size B)"

definition check_node :: "('b, 'i) bvops \<Rightarrow> 'b dd \<Rightarrow> uptr \<Rightarrow> 'a res \<Rightarrow> 'a res" where
  "check_node B D node k = check (of_nat (o_size B) \<le> node) ''node >= size()'' (
     check (current_epoch D = nodeToEpoch B node) ''current_epoch_ == nodeToEpoch(node)'' k)"

definition nodeToIndex :: "('b, 'i) bvops \<Rightarrow> 'b dd \<Rightarrow> uptr \<Rightarrow> nat res" where
  "nodeToIndex B D node = check_node B D node (Inr (nodeToIndexUnchecked B node))"

definition indexToNode :: "('b, 'i) bvops \<Rightarrow> 'b dd \<Rightarrow> nat \<Rightarrow> uptr res" where
  "indexToNode B D idx = check (idx < o_size B) ''idx < size()'' (Inr (of_nat idx + current_epoch D))"

definition getAvailableNode :: "('b, 'i) bvops \<Rightarrow> uptr \<Rightarrow> 'b dd \<Rightarrow> (uptr \<times> 'b dd) res" where
  "getAvailableNode B data D =
     bindr (o_first B (available_nodes D)) (\<lambda>(idx, av).
     at_row B idx (
     let D = D\<lparr>available_nodes := av, dd_data := (dd_data D)(idx := data)\<rparr> in
     bindr (indexToNode B D idx) (\<lambda>node. Inr (node, D))))"

text \<open>The loop over the recorded edges, from the last one down.\<close>

fun drop_edges :: "('b, 'i) bvops \<Rightarrow> 'b \<Rightarrow> nat \<Rightarrow> (nat \<Rightarrow> edge) \<times> nat \<Rightarrow> ((nat \<Rightarrow> edge) \<times> nat) res" where
  "drop_edges B recycled 0 (es, n) = Inr (es, n)"
| "drop_edges B recycled (Suc i) (es, n) =
     bindr (o_getBit B (unat (e_from (es i))) recycled) (\<lambda>b1.
     bindr (if b1 then Inr True else o_getBit B (unat (e_to (es i))) recycled) (\<lambda>b.
     drop_edges B recycled i (if b then (swap_at es i (n - 1), n - 1) else (es, n))))"

definition newNode :: "('b, 'i) bvops \<Rightarrow> uptr \<Rightarrow> 'b dd \<Rightarrow> (uptr \<times> 'b dd) res" where
  "newNode B data D =
     (if \<not> o_empty B (available_nodes D) then getAvailableNode B data D
      else if \<not> o_empty B (recycled_nodes D) then
        bindr (drop_edges B (recycled_nodes D) (n_edges D) (dd_edges D, n_edges D)) (\<lambda>(es, n).
        check (o_empty B (available_nodes D)) ''available_nodes_.empty()'' (
        bindr (g_removeEdgesTo B (recycled_nodes D) (dd_g D)) (\<lambda>(_, g).
        bindr (o_setUnion B (recycled_nodes D) (available_nodes D)) (\<lambda>(_, av).
        getAvailableNode B data (D\<lparr>dd_edges := es, n_edges := n, dd_g := g, available_nodes := av,
          recycled_nodes := o_clear B (recycled_nodes D)\<rparr>)))))
      else getAvailableNode B data (D\<lparr>current_epoch := current_epoch D + of_nat (o_size B),
        recycled_nodes := o_clear B (recycled_nodes D), available_nodes := o_setAll B (available_nodes D),
        dd_g := g_clear B (dd_g D), n_edges := 0\<rparr>))"

definition getData :: "('b, 'i) bvops \<Rightarrow> 'b dd \<Rightarrow> uptr \<Rightarrow> uptr res" where
  "getData B D node = bindr (nodeToIndex B D node) (\<lambda>i. Inr (dd_data D i))"

definition nodeBelongsToCurrentEpoch :: "('b, 'i) bvops \<Rightarrow> 'b dd \<Rightarrow> uptr \<Rightarrow> bool" where
  "nodeBelongsToCurrentEpoch B D node \<longleftrightarrow> node \<noteq> 0 \<and> node div of_nat (o_size B) * of_nat (o_size B) = current_epoch D"

definition removeNode :: "('b, 'i) bvops \<Rightarrow> uptr \<Rightarrow> 'b dd \<Rightarrow> 'b dd res" where
  "removeNode B node D =
     bindr (nodeToIndex B D node) (\<lambda>idx.
     bindr (o_getBit B idx (available_nodes D)) (\<lambda>av.
     check (\<not> av) ''!available_nodes_.getBit(idx)'' (
     bindr (o_setBit B idx (recycled_nodes D)) (\<lambda>(new, rc).
     check new ''recycled_nodes_.setBit(idx)'' (
     bindr (g_removeEdgesFrom B idx (dd_g D)) (\<lambda>g. Inr (D\<lparr>recycled_nodes := rc, dd_g := g\<rparr>)))))))"

definition dd_ensureCurrentEpoch :: "('b, 'i) bvops \<Rightarrow> 'b dd \<Rightarrow> 'b dtls \<Rightarrow> 'b dtls" where
  "dd_ensureCurrentEpoch B D d = tls_ensureCurrentEpoch B (current_epoch D) d"

definition onLockBefore :: "('b, 'i) bvops \<Rightarrow> uptr \<Rightarrow> 'b dd \<times> 'b dtls \<Rightarrow> (bool \<times> 'b dd \<times> 'b dtls) run" where
  "onLockBefore B cur_node = (\<lambda>(D, d). let d = dd_ensureCurrentEpoch B D d in
     bindo (Some (nodeToIndex B D cur_node)) (\<lambda>cur_idx.
     bindo (Some (tls_getLocks (current_epoch D) d)) (\<lambda>locks.
     bindo (g_isReachable B cur_idx locks (dd_g D)) (\<lambda>(r, g). Some (Inr (r, D\<lparr>dd_g := g\<rparr>, d))))))"

definition dd_findLockContext :: "('b, 'i) bvops \<Rightarrow> uptr \<Rightarrow> 'b dd \<Rightarrow> 'b dtls \<Rightarrow> u32 res" where
  "dd_findLockContext B node D d = bindr (nodeToIndex B D node) (\<lambda>i. Inr (tls_findLockContext i d))"

definition onLockAfter :: "('b, 'i) bvops \<Rightarrow> uptr \<Rightarrow> u32 \<Rightarrow> 'b dd \<Rightarrow> 'b dtls \<Rightarrow> 'b dtls res" where
  "onLockAfter B cur_node stk D d = (let d = dd_ensureCurrentEpoch B D d in
     bindr (nodeToIndex B D cur_node) (\<lambda>cur_idx.
     bindr (tls_addLock B cur_idx (current_epoch D) stk d) (\<lambda>(_, d). Inr d)))"

fun all_edges :: "('b, 'i) bvops \<Rightarrow> 'b bvgraph \<Rightarrow> nat \<Rightarrow> nat list \<Rightarrow> bool res" where
  "all_edges B g to1 [] = Inr True"
| "all_edges B g to1 (l # ls) = bindr (g_hasEdge B l to1 g) (\<lambda>b. if \<not> b then Inr False else all_edges B g to1 ls)"

definition hasAllEdges :: "('b, 'i) bvops \<Rightarrow> uptr \<Rightarrow> 'b dd \<Rightarrow> 'b dtls \<Rightarrow> bool res" where
  "hasAllEdges B cur_node D d =
     (if cur_node \<noteq> 0 \<and> tls_epoch d = current_epoch D \<and> tls_epoch d = nodeToEpoch B cur_node then
        all_edges B (dd_g D) (nodeToIndexUnchecked B cur_node) (map (\<lambda>i. tls_getLock i d) [0..<n_all_locks d])
      else Inr False)"

text \<open>The loop of \<^verbatim>\<open>addEdges\<close> over the edges added; further ones than the array holds are not recorded.\<close>

definition record_edge :: "('b, 'i) bvops \<Rightarrow> 'b dtls \<Rightarrow> nat \<Rightarrow> u32 \<Rightarrow> u32 \<Rightarrow> nat \<Rightarrow> (nat \<Rightarrow> edge) \<times> nat \<Rightarrow> (nat \<Rightarrow> edge) \<times> nat" where
  "record_edge B d cur_idx stk unique_tid a = (\<lambda>(es, n).
     if n < o_size B * 32 then
       (es(n := \<lparr>e_from = of_nat a, e_to = of_nat cur_idx, e_stk_from = tls_findLockContext a d, e_stk_to = stk, e_tid = unique_tid\<rparr>), n + 1)
     else (es, n))"

definition dd_addEdges :: "('b, 'i) bvops \<Rightarrow> uptr \<Rightarrow> u32 \<Rightarrow> u32 \<Rightarrow> 'b dd \<times> 'b dtls \<Rightarrow> (nat \<times> 'b dd \<times> 'b dtls) run" where
  "dd_addEdges B cur_node stk unique_tid = (\<lambda>(D, d). let d = dd_ensureCurrentEpoch B D d in
     bindo (Some (nodeToIndex B D cur_node)) (\<lambda>cur_idx.
     bindo (Some (tls_getLocks (current_epoch D) d)) (\<lambda>locks.
     bindo (g_addEdges B locks cur_idx 40 (dd_g D)) (\<lambda>(added, g).
     let (es, n) = fold (record_edge B d cur_idx stk unique_tid) added (dd_edges D, n_edges D) in
     Some (Inr (length added, D\<lparr>dd_g := g, dd_edges := es, n_edges := n\<rparr>, d))))))"

definition findEdge :: "('b, 'i) bvops \<Rightarrow> uptr \<Rightarrow> uptr \<Rightarrow> 'b dd \<Rightarrow> edge option res" where
  "findEdge B from_node to_node D =
     bindr (nodeToIndex B D from_node) (\<lambda>from_idx.
     bindr (nodeToIndex B D to_node) (\<lambda>to_idx.
     Inr (map_option (dd_edges D) (find (\<lambda>i. unat (e_from (dd_edges D i)) = from_idx \<and> unat (e_to (dd_edges D i)) = to_idx) [0..<n_edges D]))))"

definition isHeld :: "('b, 'i) bvops \<Rightarrow> uptr \<Rightarrow> 'b dd \<Rightarrow> 'b dtls \<Rightarrow> bool res" where
  "isHeld B node D d =
     bindr (tls_getLocks (current_epoch D) d) (\<lambda>locks. bindr (nodeToIndex B D node) (\<lambda>i. o_getBit B i locks))"

definition onLock :: "('b, 'i) bvops \<Rightarrow> uptr \<Rightarrow> u32 \<Rightarrow> 'b dd \<times> 'b dtls \<Rightarrow> (bool \<times> 'b dd \<times> 'b dtls) run" where
  "onLock B cur_node stk = (\<lambda>(D, d). let d = dd_ensureCurrentEpoch B D d in
     bindo (Some (isHeld B cur_node D d)) (\<lambda>held.
     bindo (if \<not> held then onLockBefore B cur_node (D, d) else Some (Inr (False, D, d))) (\<lambda>(is_reachable, D, d).
     bindo (dd_addEdges B cur_node stk 0 (D, d)) (\<lambda>(_, D, d).
     bindo (Some (onLockAfter B cur_node stk D d)) (\<lambda>d. Some (Inr (is_reachable, D, d)))))))"

definition onTryLock :: "('b, 'i) bvops \<Rightarrow> uptr \<Rightarrow> u32 \<Rightarrow> 'b dd \<Rightarrow> 'b dtls \<Rightarrow> (bool \<times> 'b dtls) res" where
  "onTryLock B cur_node stk D d = (let d = dd_ensureCurrentEpoch B D d in
     bindr (nodeToIndex B D cur_node) (\<lambda>cur_idx.
     bindr (tls_addLock B cur_idx (current_epoch D) stk d) (\<lambda>(_, d). Inr (False, d))))"

definition onFirstLock :: "('b, 'i) bvops \<Rightarrow> uptr \<Rightarrow> u32 \<Rightarrow> 'b dtls \<Rightarrow> (bool \<times> 'b dtls) res" where
  "onFirstLock B node stk d =
     (if \<not> tls_empty B d then Inr (False, d)
      else if tls_epoch d \<noteq> 0 \<and> tls_epoch d = nodeToEpoch B node then
        bindr (tls_addLock B (nodeToIndexUnchecked B node) (nodeToEpoch B node) stk d) (\<lambda>(_, d). Inr (True, d))
      else Inr (False, d))"

fun nodes_of :: "('b, 'i) bvops \<Rightarrow> 'b dd \<Rightarrow> nat \<Rightarrow> (nat \<Rightarrow> nat) \<Rightarrow> uptr list res" where
  "nodes_of B D 0 path = Inr []"
| "nodes_of B D (Suc n) path =
     bindr (nodes_of B D n path) (\<lambda>ns. bindr (indexToNode B D (path n)) (\<lambda>node. Inr (ns @ [node])))"

definition findPathToLock :: "('b, 'i) bvops \<Rightarrow> uptr \<Rightarrow> nat \<Rightarrow> (nat \<Rightarrow> nat) \<Rightarrow> 'b dd \<times> 'b dtls \<Rightarrow> (uptr list \<times> 'b dd) run" where
  "findPathToLock B cur_node path_size path = (\<lambda>(D, d).
     bindo (Some (tls_getLocks (current_epoch D) d)) (\<lambda>locks.
     bindo (Some (o_copyFrom B locks (tmp_bv D))) (\<lambda>tmp.
     let D = D\<lparr>tmp_bv := tmp\<rparr> in
     bindo (Some (nodeToIndex B D cur_node)) (\<lambda>idx.
     bindo (Some (o_getBit B idx tmp)) (\<lambda>b.
     bindo (Some (check (\<not> b) ''!tmp_bv_.getBit(idx)'' (Inr ()))) (\<lambda>_.
     bindo (g_findShortestPath B idx tmp path_size (dd_g D) path) (\<lambda>(res, path').
     bindo (Some (nodes_of B D res path')) (\<lambda>nodes.
     Some (check (res \<noteq> 0 \<longrightarrow> hd nodes = cur_node) ''path[0] == cur_node'' (Inr (nodes, D)))))))))))"

definition onUnlock :: "('b, 'i) bvops \<Rightarrow> uptr \<Rightarrow> 'b dtls \<Rightarrow> 'b dtls res" where
  "onUnlock B node d =
     (if tls_epoch d = nodeToEpoch B node then tls_removeLock B (nodeToIndexUnchecked B node) d else Inr d)"

definition onLockFast :: "('b, 'i) bvops \<Rightarrow> uptr \<Rightarrow> u32 \<Rightarrow> 'b dd \<Rightarrow> 'b dtls \<Rightarrow> (bool \<times> 'b dtls) res" where
  "onLockFast B node stk D d =
     bindr (hasAllEdges B node D d) (\<lambda>b.
     if b then bindr (tls_addLock B (nodeToIndexUnchecked B node) (nodeToEpoch B node) stk d) (\<lambda>(_, d). Inr (True, d))
     else Inr (False, d))"

section \<open>Arrays with a count\<close>

definition prefix_mset :: "(nat \<Rightarrow> 'a) \<Rightarrow> nat \<Rightarrow> 'a multiset" where
  "prefix_mset f n = image_mset f (mset_set {0..<n})"

lemma prefix_mset_0 [simp]: "prefix_mset f 0 = {#}"
  by (simp add: prefix_mset_def)

lemma prefix_mset_push: "prefix_mset (f(n := x)) (Suc n) = add_mset x (prefix_mset f n)"
proof -
  have "image_mset (f(n := x)) (mset_set {0..<n}) = image_mset f (mset_set {0..<n})" by (rule image_mset_cong) simp
  then show ?thesis by (simp add: prefix_mset_def atLeast0_lessThan_Suc)
qed

lemma prefix_mset_drop:
  assumes "i < n"
  shows "add_mset (f i) (prefix_mset (swap_at f i (n - 1)) (n - 1)) = prefix_mset f n"
proof -
  obtain m where n: "n = Suc m" using assms by (cases n) auto
  show ?thesis
  proof (cases "i = m")
    case True
    have "image_mset (swap_at f i m) (mset_set {0..<m}) = image_mset f (mset_set {0..<m})"
      by (rule image_mset_cong) (simp add: swap_at_def True)
    then show ?thesis by (simp add: prefix_mset_def n True atLeast0_lessThan_Suc)
  next
    case False
    then have i: "i < m" using assms n by simp
    have s: "mset_set {0..<m} = add_mset i (mset_set ({0..<m} - {i}))" using i by (subst mset_set.remove [of _ i]) auto
    have "image_mset (swap_at f i m) (mset_set ({0..<m} - {i})) = image_mset f (mset_set ({0..<m} - {i}))"
      by (rule image_mset_cong) (auto simp: swap_at_def)
    then have "image_mset (swap_at f i m) (mset_set {0..<m}) = add_mset (f m) (image_mset f (mset_set ({0..<m} - {i})))"
      unfolding s using False by (simp add: swap_at_def)
    moreover have "image_mset f (mset_set {0..<Suc m}) = add_mset (f m) (add_mset (f i) (image_mset f (mset_set ({0..<m} - {i}))))"
      unfolding atLeast0_lessThan_Suc using s by simp
    ultimately show ?thesis by (simp add: prefix_mset_def n add_mset_commute)
  qed
qed

lemma set_prefix_mset: "set_mset (prefix_mset f n) = f ` {..<n}"
  by (simp add: prefix_mset_def atLeast0LessThan)

lemma size_prefix_mset [simp]: "size (prefix_mset f n) = n"
  by (simp add: prefix_mset_def)

lemma find_down_Some: "find_down p n = Some i \<Longrightarrow> i < n \<and> p i"
  by (induction n) (auto split: if_splits)

lemma find_down_None: "find_down p n = None \<Longrightarrow> i < n \<Longrightarrow> \<not> p i"
  by (induction n) (auto simp: less_Suc_eq split: if_splits)

lemma find_down_guard: "(if n \<noteq> 0 then find_down p n else None) = find_down p n"
  by simp

lemma prefix_mset_map: "prefix_mset (\<lambda>i. h (f i)) n = image_mset h (prefix_mset f n)"
  by (simp add: prefix_mset_def image_mset.compositionality comp_def)

section \<open>The thread's locks as a multiset\<close>

text \<open>The locks of a thread, each as often as it holds it.\<close>

definition first_locks :: "'b dtls \<Rightarrow> nat multiset" where
  "first_locks d = prefix_mset (\<lambda>i. unat (fst (all_locks d i))) (n_all_locks d)"

definition tls_locks :: "'b dtls \<Rightarrow> nat multiset" where
  "tls_locks d = first_locks d + prefix_mset (recursive_locks d) (n_recursive_locks d)"

definition tls_inv :: "('b \<Rightarrow> bool) \<Rightarrow> ('b \<Rightarrow> nat set) \<Rightarrow> 'b dtls \<Rightarrow> bool" where
  "tls_inv ok elems d \<longleftrightarrow> ok (tls_bv d) \<and> first_locks d = mset_set (elems (tls_bv d)) \<and>
     set_mset (prefix_mset (recursive_locks d) (n_recursive_locks d)) \<subseteq> elems (tls_bv d) \<and> n_all_locks d \<le> 64 \<and> n_recursive_locks d \<le> 64"

locale detector = bitvec +
  assumes size_pos: "0 < o_size B" and size_u16: "o_size B \<le> 65536"
begin

lemma unat_lock: "i < N \<Longrightarrow> unat (of_nat i :: u32) = i"
  using size_u16 by (simp add: unat_of_nat)

lemma tls_set_locks: "tls_inv ok elems d \<Longrightarrow> set_mset (tls_locks d) = elems (tls_bv d)"
  using finite_elems [of "tls_bv d"] by (auto simp: tls_inv_def tls_locks_def)

lemma tls_clear_ok: "tls_inv ok elems (tls_clear B d)" "tls_locks (tls_clear B d) = {#}"
  by (simp_all add: tls_inv_def tls_locks_def first_locks_def tls_clear_def clear)

lemma tls_ensure_ok:
  assumes "tls_inv ok elems d"
  shows "tls_inv ok elems (tls_ensureCurrentEpoch B e d)" "tls_epoch (tls_ensureCurrentEpoch B e d) = e"
    "tls_locks (tls_ensureCurrentEpoch B e d) = (if tls_epoch d = e then tls_locks d else {#})"
  using assms by (auto simp: tls_ensureCurrentEpoch_def tls_inv_def tls_locks_def first_locks_def clear)

lemma tls_addLock_ok:
  assumes d: "tls_inv ok elems d" and i: "i < N" and e: "tls_epoch d = e"
    and room: "if i \<in># tls_locks d then n_recursive_locks d < 64 else n_all_locks d < 64"
  shows "\<exists>d'. tls_addLock B i e stk d = Inr (i \<notin># tls_locks d, d') \<and> tls_inv ok elems d' \<and> tls_epoch d' = e \<and>
    tls_locks d' = add_mset i (tls_locks d)"
proof -
  have s: "i \<in># tls_locks d \<longleftrightarrow> i \<in> elems (tls_bv d)" using tls_set_locks [OF d] by simp
  have okd: "ok (tls_bv d)" using d by (simp add: tls_inv_def)
  obtain b where b: "o_setBit B i (tls_bv d) = Inr (i \<notin> elems (tls_bv d), b)" "ok b" "elems b = insert i (elems (tls_bv d))"
    using setBit [OF i okd] by blast
  show ?thesis
  proof (cases "i \<in> elems (tls_bv d)")
    case True
    let ?d = "d\<lparr>tls_bv := b, recursive_locks := (recursive_locks d)(n_recursive_locks d := i), n_recursive_locks := n_recursive_locks d + 1\<rparr>"
    have "elems b = elems (tls_bv d)" using b(3) True by (simp add: insert_absorb)
    then have "tls_inv ok elems ?d" "tls_locks ?d = add_mset i (tls_locks d)"
      using d True b(2) room s by (auto simp: tls_inv_def tls_locks_def first_locks_def prefix_mset_push)
    moreover have "tls_addLock B i e stk d = Inr (False, ?d)" using e b(1) True room s by (simp add: tls_addLock_def Let_def)
    ultimately show ?thesis using True s e by (intro exI [of _ ?d]) simp
  next
    case False
    let ?f = "(all_locks d)(n_all_locks d := (of_nat i, stk))"
    let ?d = "d\<lparr>tls_bv := b, all_locks := ?f, n_all_locks := n_all_locks d + 1\<rparr>"
    have "(\<lambda>j. unat (fst (?f j))) = (\<lambda>j. unat (fst (all_locks d j)))(n_all_locks d := i)" using unat_lock [OF i] by auto
    then have f: "first_locks ?d = add_mset i (first_locks d)" by (simp add: first_locks_def prefix_mset_push)
    moreover have "mset_set (elems b) = add_mset i (mset_set (elems (tls_bv d)))" using b(3) False finite_elems by simp
    ultimately have "tls_inv ok elems ?d" "tls_locks ?d = add_mset i (tls_locks d)"
      using d b(2,3) room s False by (auto simp: tls_inv_def tls_locks_def)
    moreover have "tls_addLock B i e stk d = Inr (True, ?d)" using e b(1) False room s by (simp add: tls_addLock_def Let_def)
    ultimately show ?thesis using False s e by (intro exI [of _ ?d]) simp
  qed
qed

lemma tls_addLock_full:
  assumes d: "tls_inv ok elems d" and i: "i < N" and e: "tls_epoch d = e"
    and full: "if i \<in># tls_locks d then n_recursive_locks d = 64 else n_all_locks d = 64"
  shows "\<exists>msg. tls_addLock B i e stk d = Inl (CheckFailed msg)"
proof -
  have s: "i \<in># tls_locks d \<longleftrightarrow> i \<in> elems (tls_bv d)" using tls_set_locks [OF d] by simp
  have okd: "ok (tls_bv d)" using d by (simp add: tls_inv_def)
  obtain b where b: "o_setBit B i (tls_bv d) = Inr (i \<notin> elems (tls_bv d), b)"
    using setBit [OF i okd] by blast
  then show ?thesis using e full s by (simp add: tls_addLock_def Let_def split: if_splits)
qed

lemma tls_removeLock_ok:
  assumes d: "tls_inv ok elems d" and i: "i < N"
  shows "\<exists>d'. tls_removeLock B i d = Inr d' \<and> tls_inv ok elems d' \<and> tls_epoch d' = tls_epoch d \<and> tls_locks d' = tls_locks d - {#i#}"
proof (cases "find_down (\<lambda>j. recursive_locks d j = i) (n_recursive_locks d)")
  case (Some j)
  let ?n = "n_recursive_locks d - 1"
  let ?d = "d\<lparr>n_recursive_locks := ?n, recursive_locks := swap_at (recursive_locks d) j ?n\<rparr>"
  have j: "j < n_recursive_locks d" "recursive_locks d j = i" using find_down_Some [OF Some] by auto
  note p = prefix_mset_drop [OF j(1), of "recursive_locks d", unfolded j(2)]
  have "tls_removeLock B i d = Inr ?d" using Some j(1) by (simp add: tls_removeLock_def Let_def)
  moreover have "tls_locks d = add_mset i (tls_locks ?d)" unfolding tls_locks_def p [symmetric] by (simp add: first_locks_def)
  moreover have "set_mset (prefix_mset (swap_at (recursive_locks d) j ?n) ?n) \<subseteq> set_mset (prefix_mset (recursive_locks d) (n_recursive_locks d))"
    unfolding p [symmetric] by auto
  then have "tls_inv ok elems ?d" using d by (auto simp: tls_inv_def first_locks_def)
  ultimately show ?thesis by (intro exI [of _ ?d]) simp
next
  case None
  have nr: "i \<notin># prefix_mset (recursive_locks d) (n_recursive_locks d)"
    using find_down_None [OF None] by (auto simp: set_prefix_mset)
  have okd: "ok (tls_bv d)" using d by (simp add: tls_inv_def)
  obtain b where b: "o_clearBit B i (tls_bv d) = Inr (i \<in> elems (tls_bv d), b)" "ok b" "elems b = elems (tls_bv d) - {i}"
    using clearBit [OF i okd] by blast
  let ?d1 = "d\<lparr>tls_bv := b\<rparr>"
  show ?thesis
  proof (cases "i \<in> elems (tls_bv d)")
    case False
    then have "i \<notin># tls_locks d" using tls_set_locks [OF d] by simp
    moreover have "tls_removeLock B i d = Inr ?d1" using None b(1) False by (simp add: tls_removeLock_def Let_def)
    moreover have "elems b = elems (tls_bv d)" using b(3) False by blast
    then have "tls_inv ok elems ?d1" "tls_locks ?d1 = tls_locks d"
      using d b(2) by (auto simp: tls_inv_def tls_locks_def first_locks_def)
    ultimately show ?thesis by (intro exI [of _ ?d1]) (simp add: diff_single_trivial)
  next
    case True
    let ?p = "\<lambda>j. fst (all_locks d j) = of_nat i"
    have "i \<in># first_locks d" using d True finite_elems by (simp add: tls_inv_def)
    then obtain j0 where "j0 < n_all_locks d" "unat (fst (all_locks d j0)) = i" by (auto simp: first_locks_def set_prefix_mset)
    then have "?p j0" by auto
    then obtain j where sj: "find_down ?p (n_all_locks d) = Some j"
      using find_down_None [of ?p "n_all_locks d" j0] \<open>j0 < n_all_locks d\<close> by (cases "find_down ?p (n_all_locks d)") auto
    have j: "j < n_all_locks d" "unat (fst (all_locks d j)) = i" using find_down_Some [OF sj] unat_lock [OF i] by auto
    let ?n = "n_all_locks d - 1"
    let ?d = "d\<lparr>tls_bv := b, all_locks := swap_at (all_locks d) j ?n, n_all_locks := ?n\<rparr>"
    have "(\<lambda>l. unat (fst (swap_at (all_locks d) j ?n l))) = swap_at (\<lambda>l. unat (fst (all_locks d l))) j ?n"
      by (auto simp: swap_at_def)
    then have f: "first_locks d = add_mset i (first_locks ?d)"
      using prefix_mset_drop [OF j(1), of "\<lambda>l. unat (fst (all_locks d l))"] j(2) by (simp add: first_locks_def)
    have "mset_set (elems (tls_bv d)) = add_mset i (mset_set (elems b))"
      unfolding b(3) by (rule mset_set.remove [OF finite_elems True])
    then have "first_locks ?d = mset_set (elems b)" using d f by (simp add: tls_inv_def)
    then have "tls_inv ok elems ?d" using d b(2,3) nr by (auto simp: tls_inv_def)
    moreover have "tls_removeLock B i d = Inr ?d" using None b(1) True sj j(1) by (simp add: tls_removeLock_def Let_def)
    moreover have "tls_locks d = add_mset i (tls_locks ?d)" using f by (simp add: tls_locks_def)
    ultimately show ?thesis by (intro exI [of _ ?d]) simp
  qed
qed

end

interpretation dl: detector "TwoLevelBV 1" "t_ok 1" "t_elems 1" "it_ok 1" "t_left 1"
  by unfold_locales (simp_all add: t_size_def bv_size_def)

interpretation dl1: detector BasicBV "\<lambda>b. True" bv_elems "\<lambda>b it. bv_elems it \<subseteq> bv_elems b" "\<lambda>b it. bv_elems it \<inter> bv_elems b"
  by unfold_locales (simp_all add: BasicBV_def bv_size_def)

text \<open>
  C26. The state of a thread stands for the multiset of its locks: a lock adds one occurrence and tells whether it is the
  first, an unlock takes one occurrence away, the set of the locks is in the bit vector, and a new epoch forgets all of them. Where the code's
  arrays of 64 locks and 64 recursive locks are full, the next lock fails a check.
\<close>

theorem tls_is_multiset:
  assumes "tls_inv (t_ok 1) (t_elems 1) d" "i < 4096"
  shows "t_elems 1 (tls_bv d) = set_mset (tls_locks d) \<and>
    (if (if i \<in># tls_locks d then n_recursive_locks d < 64 else n_all_locks d < 64)
     then \<exists>d'. tls_addLock (TwoLevelBV 1) i (tls_epoch d) stk d = Inr (i \<notin># tls_locks d, d') \<and> tls_inv (t_ok 1) (t_elems 1) d' \<and>
       tls_locks d' = add_mset i (tls_locks d)
     else \<exists>msg. tls_addLock (TwoLevelBV 1) i (tls_epoch d) stk d = Inl (CheckFailed msg)) \<and>
    (\<exists>d'. tls_removeLock (TwoLevelBV 1) i d = Inr d' \<and> tls_inv (t_ok 1) (t_elems 1) d' \<and> tls_locks d' = tls_locks d - {#i#}) \<and>
    tls_inv (t_ok 1) (t_elems 1) (tls_ensureCurrentEpoch (TwoLevelBV 1) e d) \<and>
    tls_locks (tls_ensureCurrentEpoch (TwoLevelBV 1) e d) = (if tls_epoch d = e then tls_locks d else {#})"
proof -
  have i: "i < o_size (TwoLevelBV 1)" using assms(2) by (simp add: t_size_def bv_size_def)
  have n: "n_recursive_locks d \<le> 64" "n_all_locks d \<le> 64" using assms(1) by (simp_all add: tls_inv_def)
  show ?thesis
    using dl.tls_set_locks [OF assms(1)] dl.tls_addLock_ok [OF assms(1) i refl, of stk] dl.tls_addLock_full [OF assms(1) i refl, of stk]
      dl.tls_removeLock_ok [OF assms(1) i] dl.tls_ensure_ok [OF assms(1), of e] n
    by (intro conjI) (auto split: if_splits)
qed

definition tls_example :: "tlbv dtls" where
  "tls_example = tls_clear (TwoLevelBV 1) \<lparr>tls_bv = tl_example, tls_epoch = 7, recursive_locks = (\<lambda>i. 0), n_recursive_locks = 3,
     all_locks = (\<lambda>i. (0, 0)), n_all_locks = 5\<rparr>"

lemma tls_is_multiset_witness:
  "\<exists>d'. tls_removeLock (TwoLevelBV 1) 9 tls_example = Inr d' \<and> tls_inv (t_ok 1) (t_elems 1) d' \<and> tls_locks d' = tls_locks tls_example - {#9#}"
  using tls_is_multiset [OF dl.tls_clear_ok(1), of 9] by (simp add: tls_example_def)

end
