(* ===== verification/LockGraph.thy ===== *)
theory LockGraph
  imports Deadlock
begin

text \<open>
  The state of the deadlock detector over all its runs: the invariant of \<^verbatim>\<open>DeadlockDetector\<close> with any number of threads,
  what \<^verbatim>\<open>newNode\<close> and \<^verbatim>\<open>removeNode\<close> do with nodes, and what a report of \<^verbatim>\<open>onLock\<close> says about cycles.
\<close>

section \<open>Cycles\<close>

lemma reach_new_edges:
  assumes h: "\<And>h. h \<in> H \<Longrightarrow> (i, h) \<notin> E\<^sup>*"
  shows "(i, x) \<in> (E \<union> H \<times> {i})\<^sup>* \<longleftrightarrow> (i, x) \<in> E\<^sup>*"
proof
  assume "(i, x) \<in> (E \<union> H \<times> {i})\<^sup>*"
  then show "(i, x) \<in> E\<^sup>*"
  proof (induction rule: rtrancl_induct)
    case (step y z)
    then show ?case using h by (auto intro: rtrancl_into_rtrancl)
  qed simp
next
  show "(i, x) \<in> E\<^sup>* \<Longrightarrow> (i, x) \<in> (E \<union> H \<times> {i})\<^sup>*" using rtrancl_mono [of E "E \<union> H \<times> {i}"] by blast
qed

lemma acyclic_new_edges:
  assumes "finite H"
  shows "acyclic (E \<union> H \<times> {i}) \<longleftrightarrow> acyclic E \<and> (\<forall>h \<in> H. (i, h) \<notin> E\<^sup>*)"
  using assms
proof (induction H)
  case (insert h H)
  have e: "E \<union> insert h H \<times> {i} = insert (h, i) (E \<union> H \<times> {i})" by blast
  show ?case unfolding e acyclic_insert insert.IH using reach_new_edges [of H i E h] by blast
qed simp

section \<open>Nodes\<close>

definition node_ok :: "('b, 'i) bvops \<Rightarrow> 'b dd \<Rightarrow> uptr \<Rightarrow> bool" where
  "node_ok B D node \<longleftrightarrow> of_nat (o_size B) \<le> node \<and> current_epoch D = nodeToEpoch B node"

definition vacant :: "('b \<Rightarrow> nat set) \<Rightarrow> 'b dd \<Rightarrow> nat set" where
  "vacant elems D = elems (available_nodes D) \<union> elems (recycled_nodes D)"

text \<open>The nodes that have been handed out and not been removed since.\<close>

definition live_node :: "('b, 'i) bvops \<Rightarrow> ('b \<Rightarrow> nat set) \<Rightarrow> 'b dd \<Rightarrow> uptr \<Rightarrow> bool" where
  "live_node B elems D node \<longleftrightarrow> node_ok B D node \<and> nodeToIndexUnchecked B node \<notin> vacant elems D"

definition dd_E :: "('b, 'i) bvops \<Rightarrow> ('b \<Rightarrow> nat set) \<Rightarrow> 'b dd \<Rightarrow> (nat \<times> nat) set" where
  "dd_E B elems D = g_edges (o_size B) elems (dd_g D)"

definition recorded :: "'b dd \<Rightarrow> edge multiset" where
  "recorded D = prefix_mset (dd_edges D) (n_edges D)"

text \<open>
  The invariant. Edges start at nodes in use and end at nodes that are not available; only recycled nodes may still have edges into them.
  A recorded edge is an edge of the graph, unless it starts at a recycled node, whose edges the graph has dropped.
\<close>

definition dd_inv :: "('b, 'i) bvops \<Rightarrow> ('b \<Rightarrow> bool) \<Rightarrow> ('b \<Rightarrow> nat set) \<Rightarrow> 'b dd \<Rightarrow> bool" where
  "dd_inv B ok elems D \<longleftrightarrow> ok (available_nodes D) \<and> ok (recycled_nodes D) \<and> g_ok (o_size B) ok (dd_g D) \<and>
     elems (available_nodes D) \<inter> elems (recycled_nodes D) = {} \<and> o_size B dvd unat (current_epoch D) \<and>
     (current_epoch D = 0 \<longrightarrow> vacant elems D = {} \<and> dd_E B elems D = {}) \<and>
     (\<forall>(a, b) \<in> dd_E B elems D. a \<notin> vacant elems D \<and> b \<notin> elems (available_nodes D)) \<and> n_edges D \<le> o_size B * 32 \<and>
     (\<forall>e \<in># recorded D. unat (e_from e) < o_size B \<and> unat (e_to e) < o_size B \<and>
        (unat (e_from e) \<notin> elems (recycled_nodes D) \<longrightarrow> (unat (e_from e), unat (e_to e)) \<in> dd_E B elems D))"

text \<open>
  What a new node is: in use now and not before in its epoch, free of edges, with the data given. The other nodes in use
  stay, unless the detector has flushed its state, for which all nodes have to be in use.
\<close>

definition fresh_node :: "('b, 'i) bvops \<Rightarrow> ('b \<Rightarrow> nat set) \<Rightarrow> 'b dd \<Rightarrow> uptr \<Rightarrow> uptr \<Rightarrow> 'b dd \<Rightarrow> bool" where
  "fresh_node B elems D data node D' \<longleftrightarrow> (let i = nodeToIndexUnchecked B node in
     live_node B elems D' node \<and> dd_data D' = (dd_data D)(i := data) \<and> (\<forall>x. (x, i) \<notin> dd_E B elems D' \<and> (i, x) \<notin> dd_E B elems D') \<and>
     (if current_epoch D' = current_epoch D
      then {..<o_size B} - vacant elems D' = insert i ({..<o_size B} - vacant elems D) \<and> i \<in> vacant elems D \<and>
        (\<forall>x y. y \<notin> vacant elems D \<longrightarrow> ((x, y) \<in> dd_E B elems D' \<longleftrightarrow> (x, y) \<in> dd_E B elems D))
      else current_epoch D' = current_epoch D + of_nat (o_size B) \<and> {..<o_size B} - vacant elems D' = {i} \<and> dd_E B elems D' = {} \<and>
        ({..<o_size B} \<inter> vacant elems D = {})))"

text \<open>The locks of a thread that count: those of the current epoch.\<close>

definition held_now :: "'b dd \<Rightarrow> 'b dtls \<Rightarrow> nat multiset" where
  "held_now D d = (if tls_epoch d = current_epoch D then tls_locks d else {#})"

definition lock_room :: "('b, 'i) bvops \<Rightarrow> uptr \<Rightarrow> 'b dd \<Rightarrow> 'b dtls \<Rightarrow> bool" where
  "lock_room B node D d \<longleftrightarrow> (if nodeToIndexUnchecked B node \<in># held_now D d then n_recursive_locks d < 64
     else tls_epoch d = current_epoch D \<longrightarrow> n_all_locks d < 64)"

context detector
begin

lemma unat_size: "unat (of_nat N :: uptr) = N"
  using size_u16 by (simp add: unat_of_nat)

lemma size_ne: "(of_nat N :: uptr) \<noteq> 0"
  using unat_size size_pos by auto

lemma index_unat: "nodeToIndexUnchecked B node = unat node mod N"
  by (simp add: nodeToIndexUnchecked_def unat_mod_distrib unat_size)

lemma index_lt: "nodeToIndexUnchecked B node < N"
  using size_pos by (simp add: index_unat)

lemma epoch_unat: "unat (nodeToEpoch B node) = unat node div N * N"
proof -
  have "unat node div N * N < 2 ^ 64" using le_less_trans [OF div_times_less_eq_dividend unat_lt_64 [of node]] by simp
  then have "unat (node div of_nat N) * unat (of_nat N :: uptr) < 2 ^ 64"
    by (simp add: unat_div_distrib unat_size)
  then show ?thesis using unat_mult_lem [of "node div of_nat N" "of_nat N"]
    by (simp add: nodeToEpoch_def unat_div_distrib unat_size)
qed

lemma nodeToIndex_ok: "node_ok B D node \<Longrightarrow> nodeToIndex B D node = Inr (nodeToIndexUnchecked B node)"
  by (simp add: nodeToIndex_def check_node_def node_ok_def)

lemma new_node:
  assumes e: "N dvd unat e" "N \<le> unat e" "unat e + N \<le> 2 ^ 64" and i: "i < N"
  shows "nodeToIndexUnchecked B (of_nat i + e) = i" "nodeToEpoch B (of_nat i + e) = e" "of_nat N \<le> of_nat i + e"
proof -
  have ui: "unat (of_nat i :: uptr) = i" using i size_u16 by (simp add: unat_of_nat)
  have u: "unat (of_nat i + e) = i + unat e" using unat_add_nowrap [of "of_nat i" e] ui e(3) i by simp
  obtain q where q: "unat e = N * q" using e(1) by (rule dvdE)
  show "nodeToIndexUnchecked B (of_nat i + e) = i" using i by (simp add: index_unat u q)
  have "unat (nodeToEpoch B (of_nat i + e)) = unat e" unfolding epoch_unat u q using i by simp
  then show "nodeToEpoch B (of_nat i + e) = e" by (simp only: word_unat_eq_iff)
  show "of_nat N \<le> of_nat i + e" using e(2) by (simp add: word_le_nat_alt u unat_size)
qed

lemma getAvailableNode_ok:
  assumes av: "ok (available_nodes D)" "elems (available_nodes D) \<noteq> {}"
    and e: "N dvd unat (current_epoch D)" "N \<le> unat (current_epoch D)" "unat (current_epoch D) + N \<le> 2 ^ 64"
  shows "\<exists>node i av. getAvailableNode B data D = Inr (node, D\<lparr>available_nodes := av, dd_data := (dd_data D)(i := data)\<rparr>) \<and>
    i \<in> elems (available_nodes D) \<and> ok av \<and> elems av = elems (available_nodes D) - {i} \<and>
    nodeToIndexUnchecked B node = i \<and> node_ok B D node"
proof -
  obtain i b where i: "o_first B (available_nodes D) = Inr (i, b)" "i \<in> elems (available_nodes D)" "ok b" "elems b = elems (available_nodes D) - {i}"
    using first [OF av] by blast
  have iN: "i < N" using elems_lt [OF i(2)] .
  let ?D = "D\<lparr>available_nodes := b, dd_data := (dd_data D)(i := data)\<rparr>"
  have "getAvailableNode B data D = Inr (of_nat i + current_epoch D, ?D)"
    using i(1) iN by (simp add: getAvailableNode_def Let_def indexToNode_def)
  then show ?thesis using i(2-4) new_node [OF e iN] by (auto simp: node_ok_def)
qed

section \<open>The recorded edges\<close>

lemma drop_edges_ok:
  assumes r: "ok r"
  shows "i \<le> n \<Longrightarrow> (\<And>e. e \<in># prefix_mset es n \<Longrightarrow> unat (e_from e) < N \<and> unat (e_to e) < N) \<Longrightarrow>
    (\<And>j. i \<le> j \<Longrightarrow> j < n \<Longrightarrow> unat (e_from (es j)) \<notin> elems r \<and> unat (e_to (es j)) \<notin> elems r) \<Longrightarrow>
    \<exists>es' n'. drop_edges B r i (es, n) = Inr (es', n') \<and> n' \<le> n \<and>
      prefix_mset es' n' = filter_mset (\<lambda>e. unat (e_from e) \<notin> elems r \<and> unat (e_to e) \<notin> elems r) (prefix_mset es n)"
proof (induction i arbitrary: es n)
  case 0
  then have "filter_mset (\<lambda>e. unat (e_from e) \<notin> elems r \<and> unat (e_to e) \<notin> elems r) (prefix_mset es n) = prefix_mset es n"
    by (auto simp: filter_mset_eq_conv set_prefix_mset)
  then show ?case by simp
next
  case (Suc i)
  have i: "i < n" using Suc.prems(1) by simp
  have ei: "es i \<in># prefix_mset es n" using i by (auto simp: set_prefix_mset)
  note b = Suc.prems(2) [OF ei]
  let ?bad = "unat (e_from (es i)) \<in> elems r \<or> unat (e_to (es i)) \<in> elems r"
  let ?s = "if ?bad then (swap_at es i (n - 1), n - 1) else (es, n)"
  have run: "drop_edges B r (Suc i) (es, n) = drop_edges B r i ?s" using b getBit [OF _ r] by (simp add: Let_def)
  show ?case
  proof (cases ?bad)
    case False
    have kept: "unat (e_from (es j)) \<notin> elems r \<and> unat (e_to (es j)) \<notin> elems r" if "i \<le> j" "j < n" for j
      using Suc.prems(3) [of j] False that by (cases "j = i") auto
    show ?thesis unfolding run using Suc.IH [OF less_imp_le [OF i] Suc.prems(2) kept] False by simp
  next
    case True
    note p = prefix_mset_drop [OF i, of es]
    have "\<exists>es' n'. drop_edges B r i (swap_at es i (n - 1), n - 1) = Inr (es', n') \<and> n' \<le> n - 1 \<and>
      prefix_mset es' n' = filter_mset (\<lambda>e. unat (e_from e) \<notin> elems r \<and> unat (e_to e) \<notin> elems r) (prefix_mset (swap_at es i (n - 1)) (n - 1))"
    proof (rule Suc.IH)
      show "i \<le> n - 1" using i by simp
      show "unat (e_from e) < N \<and> unat (e_to e) < N" if "e \<in># prefix_mset (swap_at es i (n - 1)) (n - 1)" for e
        using Suc.prems(2) [of e] that unfolding p [symmetric] by simp
      show "unat (e_from (swap_at es i (n - 1) j)) \<notin> elems r \<and> unat (e_to (swap_at es i (n - 1) j)) \<notin> elems r"
        if "i \<le> j" "j < n - 1" for j
        using that Suc.prems(3) [of j] Suc.prems(3) [of "n - 1"] by (auto simp: swap_at_def)
    qed
    then show ?thesis unfolding run using True p [symmetric] by auto
  qed
qed

section \<open>The operations keep the invariant\<close>

lemma invD:
  assumes "dd_inv B ok elems D"
  shows "ok (available_nodes D)" "ok (recycled_nodes D)" "g_ok N ok (dd_g D)" "elems (available_nodes D) \<inter> elems (recycled_nodes D) = {}"
    "N dvd unat (current_epoch D)" "current_epoch D = 0 \<Longrightarrow> vacant elems D = {}" "current_epoch D = 0 \<Longrightarrow> dd_E B elems D = {}"
    "(a, b) \<in> dd_E B elems D \<Longrightarrow> a \<notin> vacant elems D \<and> b \<notin> elems (available_nodes D)"
  using assms by (auto simp: dd_inv_def)

lemma inv_edges:
  assumes "dd_inv B ok elems D"
  shows "n_edges D \<le> N * 32" "e \<in># recorded D \<Longrightarrow> unat (e_from e) < N \<and> unat (e_to e) < N"
    "e \<in># recorded D \<Longrightarrow> unat (e_from e) \<notin> elems (recycled_nodes D) \<Longrightarrow> (unat (e_from e), unat (e_to e)) \<in> dd_E B elems D"
  using assms by (auto simp: dd_inv_def)

lemma dd_clear_ok: "dd_inv B ok elems (dd_clear B D)"
  by (simp add: dd_inv_def dd_clear_def clear g_clear_ok vacant_def dd_E_def recorded_def)

lemma epoch_large: "dd_inv B ok elems D \<Longrightarrow> current_epoch D \<noteq> 0 \<Longrightarrow> N \<le> unat (current_epoch D)"
  by (rule dvd_imp_le [OF invD(5)]) (simp_all add: unat_gt_0)

lemma take_node:
  assumes inv: "dd_inv B ok elems D" and ne: "elems (available_nodes D) \<noteq> {}" and room: "unat (current_epoch D) + N \<le> 2 ^ 64"
  shows "\<exists>node D'. getAvailableNode B data D = Inr (node, D') \<and> dd_inv B ok elems D' \<and> live_node B elems D' node \<and>
    dd_data D' = (dd_data D)(nodeToIndexUnchecked B node := data) \<and> nodeToIndexUnchecked B node \<in> elems (available_nodes D) \<and>
    elems (available_nodes D') = elems (available_nodes D) - {nodeToIndexUnchecked B node} \<and>
    recycled_nodes D' = recycled_nodes D \<and> dd_g D' = dd_g D \<and> current_epoch D' = current_epoch D"
proof -
  have "current_epoch D \<noteq> 0" using invD(6) [OF inv] ne by (auto simp: vacant_def)
  then obtain node i av where a: "getAvailableNode B data D = Inr (node, D\<lparr>available_nodes := av, dd_data := (dd_data D)(i := data)\<rparr>)"
    "i \<in> elems (available_nodes D)" "ok av" "elems av = elems (available_nodes D) - {i}" "nodeToIndexUnchecked B node = i" "node_ok B D node"
    using getAvailableNode_ok [OF invD(1) [OF inv] ne invD(5) [OF inv] epoch_large [OF inv] room] by blast
  let ?D = "D\<lparr>available_nodes := av, dd_data := (dd_data D)(i := data)\<rparr>"
  have v: "vacant elems ?D = vacant elems D - {i}" using a(2,4) invD(4) [OF inv] by (auto simp: vacant_def)
  have e: "dd_E B elems ?D = dd_E B elems D" "recorded ?D = recorded D" by (simp_all add: dd_E_def recorded_def)
  have "dd_inv B ok elems ?D"
    using inv a(3,4) unfolding dd_inv_def e v by auto
  moreover have "live_node B elems ?D node" using a(5,6) v by (simp add: live_node_def node_ok_def)
  ultimately show ?thesis using a by (intro exI [of _ node] exI [of _ ?D]) auto
qed

lemma no_edge_available:
  assumes "dd_inv B ok elems D" "i \<in> elems (available_nodes D)"
  shows "(x, i) \<notin> dd_E B elems D" "(i, x) \<notin> dd_E B elems D"
  using invD(8) [OF assms(1)] assms(2) by (auto simp: vacant_def)

lemma newNode_ok:
  assumes inv: "dd_inv B ok elems D" and room: "unat (current_epoch D) + 2 * N \<le> 2 ^ 64"
  shows "\<exists>node D'. newNode B data D = Inr (node, D') \<and> dd_inv B ok elems D' \<and> fresh_node B elems D data node D'"
proof -
  have ri: "{..<N} - (vacant elems D - {i}) = insert i ({..<N} - vacant elems D)" if "i \<in> vacant elems D" for i
    using that elems_lt by (auto simp: vacant_def)
  consider (avail) "elems (available_nodes D) \<noteq> {}" | (recycle) "elems (available_nodes D) = {}" "elems (recycled_nodes D) \<noteq> {}"
    | (flush) "elems (available_nodes D) = {}" "elems (recycled_nodes D) = {}" by blast
  then show ?thesis
  proof cases
    case avail
    obtain node D' where d: "getAvailableNode B data D = Inr (node, D')" "dd_inv B ok elems D'" "live_node B elems D' node"
      "dd_data D' = (dd_data D)(nodeToIndexUnchecked B node := data)" "nodeToIndexUnchecked B node \<in> elems (available_nodes D)"
      "elems (available_nodes D') = elems (available_nodes D) - {nodeToIndexUnchecked B node}"
      "recycled_nodes D' = recycled_nodes D" "dd_g D' = dd_g D" "current_epoch D' = current_epoch D"
      using take_node [OF inv avail, of data] room by auto
    let ?i = "nodeToIndexUnchecked B node"
    have v: "vacant elems D' = vacant elems D - {?i}" using d(5,6,7) invD(4) [OF inv] by (auto simp: vacant_def)
    have e: "dd_E B elems D' = dd_E B elems D" using d(8) by (simp add: dd_E_def)
    have "newNode B data D = Inr (node, D')" using d(1) avail invD(1) [OF inv] by (simp add: newNode_def empty)
    moreover have "fresh_node B elems D data node D'"
      using d(3,4,5,9) no_edge_available [OF inv d(5)] ri [of ?i] unfolding fresh_node_def Let_def e v by (auto simp: vacant_def)
    ultimately show ?thesis using d(2) by blast
  next
    case recycle
    let ?r = "recycled_nodes D"
    have okr: "ok ?r" using invD(2) [OF inv] .
    obtain es n where es: "drop_edges B ?r (n_edges D) (dd_edges D, n_edges D) = Inr (es, n)" "n \<le> n_edges D"
      "prefix_mset es n = filter_mset (\<lambda>e. unat (e_from e) \<notin> elems ?r \<and> unat (e_to e) \<notin> elems ?r) (recorded D)"
      using drop_edges_ok [where n = "n_edges D" and i = "n_edges D" and es = "dd_edges D", OF okr order_refl] inv_edges(2) [OF inv] unfolding recorded_def by fastforce
    obtain g where g: "g_removeEdgesTo B ?r (dd_g D) = Inr (E g \<noteq> E (dd_g D), g)" "g_ok N ok g" "E g = {(x, y) \<in> E (dd_g D). y \<notin> elems ?r}"
      using g_removeEdgesTo_ok [OF invD(3) [OF inv] okr] by blast
    obtain av where av: "o_setUnion B ?r (available_nodes D) = Inr (elems av \<noteq> elems (available_nodes D), av)" "ok av" "elems av = elems ?r"
      using setUnion [OF okr invD(1) [OF inv]] recycle(1) by auto
    let ?D = "D\<lparr>dd_edges := es, n_edges := n, dd_g := g, available_nodes := av, recycled_nodes := o_clear B ?r\<rparr>"
    have v: "vacant elems ?D = vacant elems D" using av(3) recycle(1) by (simp add: vacant_def clear)
    have vr: "vacant elems D = elems ?r" using recycle(1) by (simp add: vacant_def)
    have e: "dd_E B elems ?D = {(x, y) \<in> dd_E B elems D. y \<notin> elems ?r}" using g(3) by (simp add: dd_E_def)
    have rec: "recorded ?D = filter_mset (\<lambda>e. unat (e_from e) \<notin> elems ?r \<and> unat (e_to e) \<notin> elems ?r) (recorded D)"
      using es(3) by (simp add: recorded_def)
    have inv': "dd_inv B ok elems ?D"
      unfolding dd_inv_def v e rec
      using invD [OF inv] inv_edges [OF inv] av(2,3) g(2) es(2) vr by (auto simp: clear)
    have ne: "elems (available_nodes ?D) \<noteq> {}" using av(3) recycle(2) by simp
    obtain node D' where d: "getAvailableNode B data ?D = Inr (node, D')" "dd_inv B ok elems D'" "live_node B elems D' node"
      "dd_data D' = (dd_data D)(nodeToIndexUnchecked B node := data)" "nodeToIndexUnchecked B node \<in> elems ?r"
      "elems (available_nodes D') = elems ?r - {nodeToIndexUnchecked B node}"
      "recycled_nodes D' = o_clear B ?r" "dd_g D' = g" "current_epoch D' = current_epoch D"
      using take_node [OF inv' ne, of data] room av(3) by auto
    let ?i = "nodeToIndexUnchecked B node"
    have v': "vacant elems D' = vacant elems D - {?i}" using d(6,7) vr by (simp add: vacant_def clear)
    have e': "dd_E B elems D' = {(x, y) \<in> dd_E B elems D. y \<notin> elems ?r}" using d(8) e by (simp add: dd_E_def)
    have "newNode B data D = Inr (node, D')"
      using d(1) recycle invD(1,2) [OF inv] es(1) g(1) av(1) by (simp add: newNode_def empty)
    moreover have "fresh_node B elems D data node D'"
      using d(3,4,5,9) invD(8) [OF inv, of ?i] ri [of ?i] vr unfolding fresh_node_def Let_def e' v' by auto
    ultimately show ?thesis using d(2) by blast
  next
    case flush
    let ?D = "D\<lparr>current_epoch := current_epoch D + of_nat N, recycled_nodes := o_clear B (recycled_nodes D),
        available_nodes := o_setAll B (available_nodes D), dd_g := g_clear B (dd_g D), n_edges := 0\<rparr>"
    have "unat (current_epoch D + of_nat N) = unat (current_epoch D) + N"
      using room unat_add_nowrap [of "current_epoch D" "of_nat N"] unat_size size_pos by simp
    then have u: "unat (current_epoch ?D) = unat (current_epoch D) + N" by simp
    have v: "vacant elems ?D = {..<N}" by (simp add: vacant_def clear setAll)
    have e: "dd_E B elems ?D = {}" by (simp add: dd_E_def g_clear_ok)
    have "current_epoch ?D \<noteq> 0" using u size_pos by (metis add_is_0 not_gr_zero unat_eq_zero)
    then have inv': "dd_inv B ok elems ?D"
      unfolding dd_inv_def v e u using invD(5) [OF inv] by (simp add: clear setAll g_clear_ok recorded_def)
    have "0 \<in> elems (available_nodes ?D)" using size_pos by (simp add: setAll)
    then have ne: "elems (available_nodes ?D) \<noteq> {}" by blast
    have "unat (current_epoch ?D) + N \<le> 2 ^ 64" using u room by simp
    from take_node [OF inv' ne this, of data] obtain node D' where d: "getAvailableNode B data ?D = Inr (node, D')" "dd_inv B ok elems D'"
      "live_node B elems D' node" "dd_data D' = (dd_data D)(nodeToIndexUnchecked B node := data)"
      "elems (available_nodes D') = {..<N} - {nodeToIndexUnchecked B node}" "elems (recycled_nodes D') = {}" "dd_E B elems D' = {}"
      "current_epoch D' = current_epoch D + of_nat N"
      using e by (auto simp: setAll clear dd_E_def)
    have "current_epoch D' \<noteq> current_epoch D" using d(8) size_ne by simp
    then have "fresh_node B elems D data node D'"
      using d(3-8) flush index_lt by (auto simp: fresh_node_def Let_def vacant_def)
    moreover have "newNode B data D = Inr (node, D')" using d(1) flush invD(1,2) [OF inv] by (simp add: newNode_def empty)
    ultimately show ?thesis using d(2) by blast
  qed
qed

lemma epoch_ne:
  assumes "node_ok B D node"
  shows "current_epoch D \<noteq> 0"
proof
  assume "current_epoch D = 0"
  then have "unat node div N * N = 0" "N \<le> unat node" using assms epoch_unat [of node] by (simp_all add: node_ok_def word_le_nat_alt unat_size)
  then show False using size_pos div_greater_zero_iff [of "unat node" N] by simp
qed

lemma removeNode_ok:
  assumes inv: "dd_inv B ok elems D" and live: "live_node B elems D node"
  shows "\<exists>D'. removeNode B node D = Inr D' \<and> dd_inv B ok elems D' \<and> vacant elems D' = insert (nodeToIndexUnchecked B node) (vacant elems D) \<and>
    dd_E B elems D' = {(x, y) \<in> dd_E B elems D. x \<noteq> nodeToIndexUnchecked B node} \<and> current_epoch D' = current_epoch D \<and>
    dd_data D' = dd_data D"
proof -
  let ?i = "nodeToIndexUnchecked B node"
  have ni: "nodeToIndex B D node = Inr ?i" and iv: "?i \<notin> vacant elems D" and ok: "node_ok B D node"
    using live nodeToIndex_ok by (auto simp: live_node_def)
  obtain rc where rc: "o_setBit B ?i (recycled_nodes D) = Inr (True, rc)" "ok rc" "elems rc = insert ?i (elems (recycled_nodes D))"
    using setBit [OF index_lt invD(2) [OF inv], of node] iv by (auto simp: vacant_def)
  obtain g where g: "g_removeEdgesFrom B ?i (dd_g D) = Inr g" "g_ok N ok g" "E g = {(x, y) \<in> E (dd_g D). x \<noteq> ?i}"
    using g_removeEdgesFrom_ok [OF invD(3) [OF inv] index_lt] by blast
  let ?D = "D\<lparr>recycled_nodes := rc, dd_g := g\<rparr>"
  have v: "vacant elems ?D = insert ?i (vacant elems D)" using rc(3) by (simp add: vacant_def)
  have e: "dd_E B elems ?D = {(x, y) \<in> dd_E B elems D. x \<noteq> ?i}" using g(3) by (simp add: dd_E_def)
  note ep = epoch_ne [OF ok]
  have rec: "recorded ?D = recorded D" by (simp add: recorded_def)
  have "dd_inv B ok elems ?D"
    unfolding dd_inv_def v e rec
    using invD [OF inv] inv_edges [OF inv] rc(2,3) g(2) ep iv by (auto simp: vacant_def)
  moreover have "removeNode B node D = Inr ?D"
    using ni getBit [OF index_lt invD(1) [OF inv], of node] iv rc(1) g(1) by (simp add: removeNode_def vacant_def)
  ultimately show ?thesis using v e by (intro exI [of _ ?D]) simp
qed

lemma removeNode_twice:
  assumes inv: "dd_inv B ok elems D" and n: "node_ok B D node" and dead: "nodeToIndexUnchecked B node \<in> vacant elems D"
  shows "\<exists>msg. removeNode B node D = Inl (CheckFailed msg)"
proof -
  let ?i = "nodeToIndexUnchecked B node"
  obtain rc where "o_setBit B ?i (recycled_nodes D) = Inr (?i \<notin> elems (recycled_nodes D), rc)"
    using setBit [OF index_lt invD(2) [OF inv], of node] by blast
  then show ?thesis using nodeToIndex_ok [OF n] getBit [OF index_lt invD(1) [OF inv], of node] dead
    by (auto simp: removeNode_def vacant_def check_def)
qed

lemma record_edges:
  assumes i: "i < N"
  shows "set xs \<subseteq> {..<N} \<Longrightarrow> n \<le> N * 32 \<Longrightarrow> \<exists>es' n'. fold (record_edge B d i stk tid) xs (es, n) = (es', n') \<and> n' \<le> N * 32 \<and>
    (\<forall>e \<in># prefix_mset es' n'. e \<in># prefix_mset es n \<or> (\<exists>a \<in> set xs. unat (e_from e) = a \<and> unat (e_to e) = i))"
proof (induction xs arbitrary: es n)
  case (Cons a xs)
  let ?e = "\<lparr>e_from = of_nat a, e_to = of_nat i, e_stk_from = tls_findLockContext a d, e_stk_to = stk, e_tid = tid\<rparr>"
  have e: "unat (e_from ?e) = a" "unat (e_to ?e) = i" using i Cons.prems(1) size_u16 by (simp_all add: unat_of_nat)
  show ?case
  proof (cases "n < N * 32")
    case True
    then have "record_edge B d i stk tid a (es, n) = (es(n := ?e), Suc n)" by (simp add: record_edge_def)
    moreover have "set xs \<subseteq> {..<N}" "Suc n \<le> N * 32" using Cons.prems(1) True by auto
    from Cons.IH [OF this, of "es(n := ?e)"] obtain es' n' where f: "fold (record_edge B d i stk tid) xs (es(n := ?e), Suc n) = (es', n')" "n' \<le> N * 32"
      "\<forall>e \<in># prefix_mset es' n'. e \<in># prefix_mset (es(n := ?e)) (Suc n) \<or> (\<exists>a \<in> set xs. unat (e_from e) = a \<and> unat (e_to e) = i)"
      by blast
    ultimately show ?thesis using e f by (auto simp: prefix_mset_push)
  next
    case False
    then have "record_edge B d i stk tid a (es, n) = (es, n)" by (simp add: record_edge_def)
    then show ?thesis using Cons.IH [of n es] Cons.prems by auto
  qed
qed simp

lemma held_ensure:
  assumes "tls_inv ok elems d"
  shows "tls_inv ok elems (dd_ensureCurrentEpoch B D d)" "tls_epoch (dd_ensureCurrentEpoch B D d) = current_epoch D"
    "tls_locks (dd_ensureCurrentEpoch B D d) = held_now D d" "elems (tls_bv (dd_ensureCurrentEpoch B D d)) = set_mset (held_now D d)"
    "dd_ensureCurrentEpoch B D (dd_ensureCurrentEpoch B D d) = dd_ensureCurrentEpoch B D d"
  using tls_ensure_ok [OF assms, of "current_epoch D"] tls_set_locks
  by (auto simp: dd_ensureCurrentEpoch_def held_now_def tls_ensureCurrentEpoch_def clear)

lemma held_lt: "tls_inv ok elems d \<Longrightarrow> a \<in># held_now D d \<Longrightarrow> a < N"
  using tls_set_locks elems_lt by (metis held_now_def count_empty count_eq_zero_iff)

lemma dd_addEdges_ok:
  assumes inv: "dd_inv B ok elems D" and d: "tls_inv ok elems d" and live: "live_node B elems D node"
    and held: "set_mset (held_now D d) \<inter> vacant elems D = {}"
  shows "\<exists>D'. dd_addEdges B node stk tid (D, d) =
      Some (Inr (min 40 (card {a \<in> set_mset (held_now D d). (a, nodeToIndexUnchecked B node) \<notin> dd_E B elems D}), D', dd_ensureCurrentEpoch B D d)) \<and>
    dd_inv B ok elems D' \<and> dd_E B elems D' = dd_E B elems D \<union> set_mset (held_now D d) \<times> {nodeToIndexUnchecked B node} \<and>
    vacant elems D' = vacant elems D \<and> current_epoch D' = current_epoch D \<and> dd_data D' = dd_data D"
proof -
  let ?i = "nodeToIndexUnchecked B node" and ?d = "dd_ensureCurrentEpoch B D d" and ?H = "set_mset (held_now D d)"
  note h = held_ensure [OF d, of D]
  have okd: "ok (tls_bv ?d)" using h(1) by (simp add: tls_inv_def)
  have ni: "nodeToIndex B D node = Inr ?i" and iv: "?i \<notin> vacant elems D"
    using live nodeToIndex_ok by (auto simp: live_node_def)
  obtain added g where g: "g_addEdges B (tls_bv ?d) ?i 40 (dd_g D) = Some (Inr (added, g))" "g_ok N ok g" "E g = E (dd_g D) \<union> ?H \<times> {?i}"
    "set added \<subseteq> ?H" "length added = min 40 (card {a \<in> ?H. (a, ?i) \<notin> dd_E B elems D})"
    using g_addEdges_ok [OF invD(3) [OF inv] okd index_lt [of node], where m = 40] unfolding h(4) dd_E_def by blast
  have "set added \<subseteq> {..<N}" using g(4) held_lt [OF d] by auto
  then obtain es n where es: "fold (record_edge B ?d ?i stk tid) added (dd_edges D, n_edges D) = (es, n)" "n \<le> N * 32"
    "\<forall>e \<in># prefix_mset es n. e \<in># recorded D \<or> (\<exists>a \<in> set added. unat (e_from e) = a \<and> unat (e_to e) = ?i)"
    using record_edges [OF index_lt _ inv_edges(1) [OF inv], of added] unfolding recorded_def by blast
  let ?D = "D\<lparr>dd_g := g, dd_edges := es, n_edges := n\<rparr>"
  have v: "vacant elems ?D = vacant elems D" by (simp add: vacant_def)
  have e: "dd_E B elems ?D = dd_E B elems D \<union> ?H \<times> {?i}" using g(3) by (simp add: dd_E_def)
  have ep: "current_epoch D \<noteq> 0" using epoch_ne [of D node] live unfolding live_node_def by blast
  have rec: "unat (e_from x) < N \<and> unat (e_to x) < N \<and>
      (unat (e_from x) \<notin> elems (recycled_nodes D) \<longrightarrow> (unat (e_from x), unat (e_to x)) \<in> dd_E B elems D \<union> ?H \<times> {?i})"
    if "x \<in># recorded ?D" for x
  proof -
    have "x \<in># prefix_mset es n" using that by (simp add: recorded_def)
    with es(3) consider "x \<in># recorded D" | "unat (e_from x) \<in> ?H" "unat (e_to x) = ?i" using g(4) by blast
    then show ?thesis
    proof cases
      case 1
      then show ?thesis using inv_edges(2,3) [OF inv 1] by blast
    next
      case 2
      then show ?thesis using held_lt [OF d] index_lt by auto
    qed
  qed
  have "dd_inv B ok elems ?D"
    unfolding dd_inv_def v e using invD [OF inv] rec es(2) g(2) ep iv held by (auto simp: vacant_def)
  moreover have "dd_addEdges B node stk tid (D, d) = Some (Inr (min 40 (card {a \<in> ?H. (a, ?i) \<notin> dd_E B elems D}), ?D, ?d))"
    using ni h(2) g(1,5) es(1) by (simp add: dd_addEdges_def Let_def tls_getLocks_def)
  ultimately show ?thesis using v e by (intro exI [of _ ?D]) simp
qed

lemma onLockBefore_ok:
  assumes inv: "dd_inv B ok elems D" and d: "tls_inv ok elems d" and n: "node_ok B D node"
  shows "\<exists>D'. onLockBefore B node (D, d) = Some (Inr ((\<exists>h \<in># held_now D d. (nodeToIndexUnchecked B node, h) \<in> (dd_E B elems D)\<^sup>*),
      D', dd_ensureCurrentEpoch B D d)) \<and> (\<exists>g. D' = D\<lparr>dd_g := g\<rparr> \<and> gv g = gv (dd_g D))"
proof -
  let ?i = "nodeToIndexUnchecked B node" and ?d = "dd_ensureCurrentEpoch B D d"
  note h = held_ensure [OF d, of D]
  have okd: "ok (tls_bv ?d)" using h(1) by (simp add: tls_inv_def)
  obtain g where g: "g_isReachable B ?i (tls_bv ?d) (dd_g D) = Some (Inr ((\<exists>h \<in># held_now D d. (?i, h) \<in> (dd_E B elems D)\<^sup>*), g))" "gv g = gv (dd_g D)"
    using g_isReachable_ok [OF invD(3) [OF inv] index_lt okd, of node] unfolding h(4) dd_E_def by blast
  then show ?thesis using nodeToIndex_ok [OF n] h(2) by (simp add: onLockBefore_def Let_def tls_getLocks_def) blast
qed

lemma same_rows:
  assumes "gv g = gv (dd_g D)"
  shows "dd_inv B ok elems (D\<lparr>dd_g := g\<rparr>) = dd_inv B ok elems D" "dd_E B elems (D\<lparr>dd_g := g\<rparr>) = dd_E B elems D"
    "vacant elems (D\<lparr>dd_g := g\<rparr>) = vacant elems D" "live_node B elems (D\<lparr>dd_g := g\<rparr>) node = live_node B elems D node"
    "held_now (D\<lparr>dd_g := g\<rparr>) d = held_now D d" "dd_ensureCurrentEpoch B (D\<lparr>dd_g := g\<rparr>) d = dd_ensureCurrentEpoch B D d"
  using assms by (simp_all add: dd_inv_def dd_E_def vacant_def live_node_def node_ok_def held_now_def dd_ensureCurrentEpoch_def
      g_ok_def g_edges_def recorded_def)

lemma onLockAfter_ok:
  assumes d: "tls_inv ok elems d" and n: "node_ok B D node" and room: "lock_room B node D d"
  shows "\<exists>d'. onLockAfter B node stk D d = Inr d' \<and> onTryLock B node stk D d = Inr (False, d') \<and> tls_inv ok elems d' \<and>
    tls_epoch d' = current_epoch D \<and> tls_locks d' = add_mset (nodeToIndexUnchecked B node) (held_now D d)"
proof -
  let ?i = "nodeToIndexUnchecked B node" and ?d = "dd_ensureCurrentEpoch B D d"
  note h = held_ensure [OF d, of D]
  have "if ?i \<in># tls_locks ?d then n_recursive_locks ?d < 64 else n_all_locks ?d < 64"
    using room by (auto simp: h(3) lock_room_def held_now_def dd_ensureCurrentEpoch_def tls_ensureCurrentEpoch_def split: if_splits)
  from tls_addLock_ok [OF h(1) index_lt h(2) this, of stk] obtain d' where
    "tls_addLock B ?i (current_epoch D) stk ?d = Inr (?i \<notin># tls_locks ?d, d')" "tls_inv ok elems d'" "tls_epoch d' = current_epoch D"
    "tls_locks d' = add_mset ?i (held_now D d)" unfolding h(3) by blast
  then show ?thesis using nodeToIndex_ok [OF n] by (simp add: onLockAfter_def onTryLock_def Let_def)
qed

lemma lock_room_ensure: "lock_room B node D (dd_ensureCurrentEpoch B D d) = lock_room B node D d"
  by (auto simp: lock_room_def held_now_def dd_ensureCurrentEpoch_def tls_ensureCurrentEpoch_def tls_locks_def first_locks_def)

lemma held_now_ensure: "tls_inv ok elems d \<Longrightarrow> held_now D (dd_ensureCurrentEpoch B D d) = held_now D d"
  using held_ensure(2,3) [of d D] by (simp add: held_now_def)

lemma isHeld_ok:
  assumes d: "tls_inv ok elems d" and n: "node_ok B D node"
  shows "isHeld B node D (dd_ensureCurrentEpoch B D d) = Inr (nodeToIndexUnchecked B node \<in># held_now D d)"
  using held_ensure [OF d, of D] nodeToIndex_ok [OF n] getBit [OF index_lt, of _ node]
  by (simp add: isHeld_def tls_getLocks_def tls_inv_def)

lemma onLock_ok:
  assumes inv: "dd_inv B ok elems D" and d: "tls_inv ok elems d" and live: "live_node B elems D node" and room: "lock_room B node D d"
    and held: "set_mset (held_now D d) \<inter> vacant elems D = {}"
  shows "\<exists>D' d'. onLock B node stk (D, d) =
      Some (Inr (nodeToIndexUnchecked B node \<notin># held_now D d \<and>
          (\<exists>h \<in># held_now D d. (nodeToIndexUnchecked B node, h) \<in> (dd_E B elems D)\<^sup>*), D', d')) \<and>
    dd_inv B ok elems D' \<and> dd_E B elems D' = dd_E B elems D \<union> set_mset (held_now D d) \<times> {nodeToIndexUnchecked B node} \<and>
    vacant elems D' = vacant elems D \<and> current_epoch D' = current_epoch D \<and> dd_data D' = dd_data D \<and>
    tls_inv ok elems d' \<and> tls_epoch d' = current_epoch D \<and> tls_locks d' = add_mset (nodeToIndexUnchecked B node) (held_now D d)"
proof -
  let ?i = "nodeToIndexUnchecked B node" and ?d = "dd_ensureCurrentEpoch B D d"
  note h = held_ensure [OF d, of D]
  have n: "node_ok B D node" using live by (simp add: live_node_def)
  have hn: "held_now D ?d = held_now D d" using held_now_ensure [OF d] .
  obtain g where g: "gv g = gv (dd_g D)"
    "onLockBefore B node (D, ?d) = Some (Inr ((\<exists>h \<in># held_now D d. (?i, h) \<in> (dd_E B elems D)\<^sup>*), D\<lparr>dd_g := g\<rparr>, ?d))"
    using onLockBefore_ok [OF inv h(1) n] unfolding hn h(5) by blast
  define g1 where "g1 = (if ?i \<in># held_now D d then dd_g D else g)"
  let ?D = "D\<lparr>dd_g := g1\<rparr>" and ?r = "?i \<notin># held_now D d \<and> (\<exists>h \<in># held_now D d. (?i, h) \<in> (dd_E B elems D)\<^sup>*)"
  have g1: "gv g1 = gv (dd_g D)" using g(1) by (simp add: g1_def)
  have before: "(if \<not> ?i \<in># held_now D d then onLockBefore B node (D, ?d) else Some (Inr (False, D, ?d))) = Some (Inr (?r, ?D, ?d))"
    using g(2) by (simp add: g1_def)
  note same = same_rows [OF g1]
  obtain D' where D': "dd_addEdges B node stk 0 (?D, ?d) = Some (Inr (min 40 (card {a \<in> set_mset (held_now D d). (a, ?i) \<notin> dd_E B elems D}), D', ?d))"
    "dd_inv B ok elems D'" "dd_E B elems D' = dd_E B elems D \<union> set_mset (held_now D d) \<times> {?i}"
    "vacant elems D' = vacant elems D" "current_epoch D' = current_epoch D" "dd_data D' = dd_data D"
    using dd_addEdges_ok [where D = ?D and d = ?d and node = node and stk = stk and tid = 0, unfolded same hn h(5), OF inv h(1) live held] by auto
  have n': "node_ok B D' node" using n D'(5) by (simp add: node_ok_def)
  have hn': "held_now D' ?d = held_now D d" using h(2,3) D'(5) by (simp add: held_now_def)
  have room': "lock_room B node D' ?d"
    using room lock_room_ensure [of node D d] unfolding lock_room_def hn hn' D'(5) by argo
  obtain d' where d': "onLockAfter B node stk D' ?d = Inr d'" "tls_inv ok elems d'" "tls_epoch d' = current_epoch D"
    "tls_locks d' = add_mset ?i (held_now D d)"
    using onLockAfter_ok [OF h(1) n' room', of stk] unfolding hn' D'(5) by blast
  have "onLock B node stk (D, d) = Some (Inr (?r, D', d'))"
    using isHeld_ok [OF d n] before D'(1) d'(1) by (simp add: onLock_def Let_def)
  then show ?thesis using D' d' by (intro exI [of _ D'] exI [of _ d']) blast
qed

lemma onUnlock_ok:
  assumes d: "tls_inv ok elems d"
  shows "\<exists>d'. onUnlock B node d = Inr d' \<and> tls_inv ok elems d' \<and> tls_epoch d' = tls_epoch d \<and>
    tls_locks d' = (if tls_epoch d = nodeToEpoch B node then tls_locks d - {#nodeToIndexUnchecked B node#} else tls_locks d)"
  using tls_removeLock_ok [OF d index_lt, of node] d by (auto simp: onUnlock_def)

end

end
