(* ===== verification/LockRuns.thy ===== *)
theory LockRuns
  imports LockGraph
begin

text \<open>
  The runs of the deadlock detector: events of any number of threads on one graph, in any order, as far as the clients keep to
  the rules of the interface. The properties of \<^verbatim>\<open>DeadlockDetector\<close> hold in every reachable state.
\<close>

section \<open>Runs\<close>

datatype lock_event =
    NewNode uptr
  | RemoveNode uptr
  | LockEvent nat uptr u32
  | TryLockEvent nat uptr u32
  | UnlockEvent nat uptr

type_synonym 'b dd_state = "'b dd \<times> (nat \<Rightarrow> 'b dtls)"

fun dd_step :: "('b, 'i) bvops \<Rightarrow> lock_event \<Rightarrow> 'b dd_state \<Rightarrow> 'b dd_state run" where
  "dd_step B (NewNode data) (D, ds) = bindo (Some (newNode B data D)) (\<lambda>(node, D). Some (Inr (D, ds)))"
| "dd_step B (RemoveNode node) (D, ds) = bindo (Some (removeNode B node D)) (\<lambda>D. Some (Inr (D, ds)))"
| "dd_step B (LockEvent t node stk) (D, ds) = bindo (onLock B node stk (D, ds t)) (\<lambda>(r, D, d). Some (Inr (D, ds(t := d))))"
| "dd_step B (TryLockEvent t node stk) (D, ds) = bindo (Some (onTryLock B node stk D (ds t))) (\<lambda>(r, d). Some (Inr (D, ds(t := d))))"
| "dd_step B (UnlockEvent t node) (D, ds) = bindo (Some (onUnlock B node (ds t))) (\<lambda>d. Some (Inr (D, ds(t := d))))"

text \<open>
  The rules: nodes are locked and removed only while they are in use, no node is removed that a thread holds, a thread holds at most 64
  locks at a time and 64 more recursively, and the epochs do not overflow.
\<close>

fun allowed :: "('b, 'i) bvops \<Rightarrow> ('b \<Rightarrow> nat set) \<Rightarrow> lock_event \<Rightarrow> 'b dd_state \<Rightarrow> bool" where
  "allowed B elems (NewNode data) (D, ds) = (unat (current_epoch D) + 2 * o_size B \<le> 2 ^ 64)"
| "allowed B elems (RemoveNode node) (D, ds) =
     (live_node B elems D node \<and> (\<forall>t. nodeToIndexUnchecked B node \<notin># held_now D (ds t)))"
| "allowed B elems (LockEvent t node stk) (D, ds) = (live_node B elems D node \<and> lock_room B node D (ds t))"
| "allowed B elems (TryLockEvent t node stk) (D, ds) = (live_node B elems D node \<and> lock_room B node D (ds t))"
| "allowed B elems (UnlockEvent t node) (D, ds) = True"

inductive dd_reach :: "('b, 'i) bvops \<Rightarrow> ('b \<Rightarrow> nat set) \<Rightarrow> 'b dd_state \<Rightarrow> bool" for B elems where
  init: "dd_reach B elems (dd_clear B D, \<lambda>t. tls_clear B (ds t))"
| step: "dd_reach B elems s \<Longrightarrow> allowed B elems ev s \<Longrightarrow> dd_step B ev s = Some (Inr s') \<Longrightarrow> dd_reach B elems s'"

definition sys_inv :: "('b, 'i) bvops \<Rightarrow> ('b \<Rightarrow> bool) \<Rightarrow> ('b \<Rightarrow> nat set) \<Rightarrow> 'b dd_state \<Rightarrow> bool" where
  "sys_inv B ok elems s \<longleftrightarrow> (case s of (D, ds) \<Rightarrow> dd_inv B ok elems D \<and>
     (\<forall>t. tls_inv ok elems (ds t) \<and> tls_epoch (ds t) \<le> current_epoch D \<and> set_mset (held_now D (ds t)) \<inter> vacant elems D = {}))"

context detector
begin

lemma sys_invI:
  assumes "dd_inv B ok elems D" "\<And>t. tls_inv ok elems (ds t)" "\<And>t. tls_epoch (ds t) \<le> current_epoch D"
    "\<And>t. set_mset (held_now D (ds t)) \<inter> vacant elems D = {}"
  shows "sys_inv B ok elems (D, ds)"
  using assms by (simp add: sys_inv_def)

lemma sys_invD:
  assumes "sys_inv B ok elems (D, ds)"
  shows "dd_inv B ok elems D" "tls_inv ok elems (ds t)" "tls_epoch (ds t) \<le> current_epoch D"
    "set_mset (held_now D (ds t)) \<inter> vacant elems D = {}"
  using assms by (simp_all add: sys_inv_def)

lemma sys_init: "sys_inv B ok elems (dd_clear B D, \<lambda>t. tls_clear B (ds t))"
  by (rule sys_invI) (simp_all add: dd_clear_ok tls_clear_ok held_now_def, simp add: tls_clear_def dd_clear_def)

lemma step_new:
  assumes s: "sys_inv B ok elems (D, ds)" and room: "unat (current_epoch D) + 2 * N \<le> 2 ^ 64"
  shows "\<exists>s'. dd_step B (NewNode data) (D, ds) = Some (Inr s') \<and> sys_inv B ok elems s'"
proof -
  obtain node D' where d: "newNode B data D = Inr (node, D')" "dd_inv B ok elems D'" "fresh_node B elems D data node D'"
    using newNode_ok [OF sys_invD(1) [OF s] room] by blast
  have "tls_epoch (ds t) \<le> current_epoch D' \<and> set_mset (held_now D' (ds t)) \<inter> vacant elems D' = {}" for t
  proof (cases "current_epoch D' = current_epoch D")
    case True
    then have "{..<N} - vacant elems D' = insert (nodeToIndexUnchecked B node) ({..<N} - vacant elems D)"
      using d(3) by (simp add: fresh_node_def Let_def)
    then have "vacant elems D' \<subseteq> vacant elems D" using elems_lt by (fastforce simp: vacant_def)
    moreover have "held_now D' (ds t) = held_now D (ds t)" using True by (simp add: held_now_def)
    ultimately show ?thesis using sys_invD(3,4) [OF s, of t] True by auto
  next
    case False
    then have e: "current_epoch D' = current_epoch D + of_nat N" using d(3) by (simp add: fresh_node_def Let_def)
    have "unat (current_epoch D') = unat (current_epoch D) + N"
      unfolding e using room unat_add_nowrap [of "current_epoch D" "of_nat N"] unat_size size_pos by simp
    then have "tls_epoch (ds t) < current_epoch D'"
      using sys_invD(3) [OF s, of t] size_pos by (simp add: word_le_nat_alt word_less_nat_alt)
    then show ?thesis by (auto simp: held_now_def)
  qed
  then have "sys_inv B ok elems (D', ds)" using d(2) sys_invD(2) [OF s] by (intro sys_invI) auto
  then show ?thesis using d(1) by simp
qed

lemma step_remove:
  assumes s: "sys_inv B ok elems (D, ds)" and a: "allowed B elems (RemoveNode node) (D, ds)"
  shows "\<exists>s'. dd_step B (RemoveNode node) (D, ds) = Some (Inr s') \<and> sys_inv B ok elems s'"
proof -
  obtain D' where d: "removeNode B node D = Inr D'" "dd_inv B ok elems D'" "current_epoch D' = current_epoch D"
    "vacant elems D' = insert (nodeToIndexUnchecked B node) (vacant elems D)"
    using removeNode_ok [OF sys_invD(1) [OF s], of node] a by auto
  have h: "held_now D' x = held_now D x" for x using d(3) by (simp add: held_now_def)
  have "sys_inv B ok elems (D', ds)"
    using d(2-4) sys_invD(2-4) [OF s] a by (intro sys_invI) (simp_all add: h)
  then show ?thesis using d(1) by simp
qed

text \<open>A step that changes one thread.\<close>

lemma step_thread:
  assumes s: "sys_inv B ok elems (D, ds)" and D': "dd_inv B ok elems D'" "current_epoch D' = current_epoch D" "vacant elems D' = vacant elems D"
    and d: "tls_inv ok elems d" "tls_epoch d \<le> current_epoch D" "set_mset (held_now D d) \<inter> vacant elems D = {}"
  shows "sys_inv B ok elems (D', ds(t := d))"
proof -
  have h: "held_now D' x = held_now D x" for x using D'(2) by (simp add: held_now_def)
  show ?thesis using sys_invD(2-4) [OF s] D' d by (intro sys_invI) (simp_all add: h)
qed

lemma step_lock:
  assumes s: "sys_inv B ok elems (D, ds)" and a: "allowed B elems (LockEvent t node stk) (D, ds)"
  shows "\<exists>s'. dd_step B (LockEvent t node stk) (D, ds) = Some (Inr s') \<and> sys_inv B ok elems s'"
proof -
  have live: "live_node B elems D node" and room: "lock_room B node D (ds t)" using a by auto
  obtain r D' d' where d: "onLock B node stk (D, ds t) = Some (Inr (r, D', d'))" "dd_inv B ok elems D'" "vacant elems D' = vacant elems D"
    "current_epoch D' = current_epoch D" "tls_inv ok elems d'" "tls_epoch d' = current_epoch D"
    "tls_locks d' = add_mset (nodeToIndexUnchecked B node) (held_now D (ds t))"
    using onLock_ok [OF sys_invD(1,2) [OF s] live room sys_invD(4) [OF s]] by blast
  have "set_mset (held_now D d') \<inter> vacant elems D = {}"
    using d(6,7) sys_invD(4) [OF s, of t] live by (auto simp: held_now_def live_node_def)
  from step_thread [OF s d(2,4,3,5) _ this] show ?thesis using d(1,6) by simp
qed

lemma step_trylock:
  assumes s: "sys_inv B ok elems (D, ds)" and a: "allowed B elems (TryLockEvent t node stk) (D, ds)"
  shows "\<exists>s'. dd_step B (TryLockEvent t node stk) (D, ds) = Some (Inr s') \<and> sys_inv B ok elems s'"
proof -
  have live: "live_node B elems D node" and room: "lock_room B node D (ds t)" using a by auto
  have n: "node_ok B D node" using live by (simp add: live_node_def)
  obtain d' where d: "onTryLock B node stk D (ds t) = Inr (False, d')" "tls_inv ok elems d'" "tls_epoch d' = current_epoch D"
    "tls_locks d' = add_mset (nodeToIndexUnchecked B node) (held_now D (ds t))"
    using onLockAfter_ok [OF sys_invD(2) [OF s] n room] by blast
  have "set_mset (held_now D d') \<inter> vacant elems D = {}"
    using d(3,4) sys_invD(4) [OF s, of t] live by (auto simp: held_now_def live_node_def)
  from step_thread [OF s sys_invD(1) [OF s] refl refl d(2) _ this] show ?thesis using d(1,3) by simp
qed

lemma step_unlock:
  assumes s: "sys_inv B ok elems (D, ds)"
  shows "\<exists>s'. dd_step B (UnlockEvent t node) (D, ds) = Some (Inr s') \<and> sys_inv B ok elems s'"
proof -
  obtain d' where d: "onUnlock B node (ds t) = Inr d'" "tls_inv ok elems d'" "tls_epoch d' = tls_epoch (ds t)"
    "tls_locks d' \<subseteq># tls_locks (ds t)"
    using onUnlock_ok [OF sys_invD(2) [OF s], of node t] by (auto split: if_splits)
  have "set_mset (held_now D d') \<subseteq> set_mset (held_now D (ds t))"
    using d(3,4) set_mset_mono by (auto simp: held_now_def)
  then have "set_mset (held_now D d') \<inter> vacant elems D = {}" using sys_invD(4) [OF s, of t] by blast
  from step_thread [OF s sys_invD(1) [OF s] refl refl d(2) _ this] show ?thesis using d(1,3) sys_invD(3) [OF s, of t] by simp
qed

lemma step_ok:
  assumes s: "sys_inv B ok elems s" and a: "allowed B elems ev s"
  shows "\<exists>s'. dd_step B ev s = Some (Inr s') \<and> sys_inv B ok elems s'"
proof -
  obtain D ds where [simp]: "s = (D, ds)" by fastforce
  show ?thesis
    using s a step_new [of D ds] step_remove [of D ds] step_lock [of D ds] step_trylock [of D ds] step_unlock [of D ds]
    by (cases ev) auto
qed

lemma reach_inv: "dd_reach B elems s \<Longrightarrow> sys_inv B ok elems s"
proof (induction rule: dd_reach.induct)
  case (init D ds)
  show ?case by (rule sys_init)
next
  case (step s ev s')
  then show ?case using step_ok by fastforce
qed

end

section \<open>The properties\<close>

abbreviation "DDBV \<equiv> TwoLevelBV 1"

text \<open>
  C8. From the cleared state on, in any interleaving of threads that keep the rules, every event runs to its end without a failing
  check or an access out of bounds, and keeps the invariant: no index is both available and recycled, edges lead from nodes in use to
  nodes that are not available, recorded edges are edges of the graph, and the locks that threads hold are nodes in use.
\<close>

theorem detector_runs:
  assumes "dd_reach DDBV (t_elems 1) s" "allowed DDBV (t_elems 1) ev s"
  shows "\<exists>s'. dd_step DDBV ev s = Some (Inr s') \<and> sys_inv DDBV (t_ok 1) (t_elems 1) s'"
  using dl.step_ok [OF dl.reach_inv [OF assms(1)] assms(2)] .

definition dd_example :: "tlbv dd" where
  "dd_example = dd_clear DDBV \<lparr>current_epoch = 3, available_nodes = tl_example, recycled_nodes = tl_example, tmp_bv = tl_example,
     dd_g = g_example, dd_data = (\<lambda>i. 0), dd_edges = (\<lambda>i. \<lparr>e_from = 0, e_to = 0, e_stk_from = 0, e_stk_to = 0, e_tid = 0\<rparr>), n_edges = 2\<rparr>"

definition tls0 :: "tlbv dtls" where
  "tls0 = tls_clear DDBV \<lparr>tls_bv = tl_example, tls_epoch = 7, recursive_locks = (\<lambda>i. 0), n_recursive_locks = 3,
     all_locks = (\<lambda>i. (0, 0)), n_all_locks = 5\<rparr>"

lemma reach_example: "dd_reach DDBV (t_elems 1) (dd_example, \<lambda>t. tls0)"
  unfolding dd_example_def tls0_def by (rule dd_reach.init)

lemma allowed_example: "allowed DDBV (t_elems 1) (NewNode 5) (dd_example, \<lambda>t. tls0)"
  by (simp add: dd_example_def dd_clear_def t_size_def bv_size_def)

lemma detector_runs_witness:
  "\<exists>s'. dd_step DDBV (NewNode 5) (dd_example, \<lambda>t. tls0) = Some (Inr s') \<and> sys_inv DDBV (t_ok 1) (t_elems 1) s'"
  by (rule detector_runs [OF reach_example allowed_example])

text \<open>
  C22. A new node is in use afterwards, was not in use in its epoch before, carries the data given and touches no edge. Either
  the other nodes and the edges among them stay, or no index was vacant: then the epoch moves on, and all nodes and edges of before are gone.
\<close>

theorem newNode_fresh:
  assumes "dd_reach DDBV (t_elems 1) (D, ds)" "unat (current_epoch D) + 2 * 4096 \<le> 2 ^ 64"
  shows "\<exists>node D'. newNode DDBV data D = Inr (node, D') \<and> fresh_node DDBV (t_elems 1) D data node D' \<and> getData DDBV D' node = Inr data"
proof -
  have inv: "dd_inv DDBV (t_ok 1) (t_elems 1) D" using dl.sys_invD(1) [OF dl.reach_inv [OF assms(1)]] .
  have "unat (current_epoch D) + 2 * o_size DDBV \<le> 2 ^ 64" using assms(2) by (simp add: t_size_def bv_size_def)
  from dl.newNode_ok [OF inv this, of data] obtain node D' where d: "newNode DDBV data D = Inr (node, D')"
    "fresh_node DDBV (t_elems 1) D data node D'" by blast
  then have "node_ok DDBV D' node" "dd_data D' (nodeToIndexUnchecked DDBV node) = data" by (simp_all add: fresh_node_def Let_def live_node_def)
  then have "getData DDBV D' node = Inr data" using dl.nodeToIndex_ok by (simp add: getData_def)
  then show ?thesis using d by blast
qed

lemma newNode_fresh_witness:
  "\<exists>node D'. newNode DDBV 5 dd_example = Inr (node, D') \<and> fresh_node DDBV (t_elems 1) dd_example 5 node D' \<and> getData DDBV D' node = Inr 5"
  by (rule newNode_fresh [OF reach_example]) (simp add: dd_example_def dd_clear_def)

text \<open>A path to one of the sources of the new edges does not need the new edges.\<close>

lemma path_of_new_edges:
  "(\<exists>h \<in> H. (i, h) \<in> (E \<union> H \<times> {i})\<^sup>*) \<longleftrightarrow> (\<exists>h \<in> H. (i, h) \<in> E\<^sup>*)"
proof
  assume "\<exists>h \<in> H. (i, h) \<in> (E \<union> H \<times> {i})\<^sup>*"
  then obtain h where h: "h \<in> H" "(i, h) \<in> (E \<union> H \<times> {i})\<^sup>*" by blast
  from h(2) have "(i, h) \<in> E\<^sup>* \<or> (\<exists>h' \<in> H. (i, h') \<in> E\<^sup>*)"
    by (induction rule: rtrancl_induct) (auto intro: rtrancl_into_rtrancl)
  then show "\<exists>h \<in> H. (i, h) \<in> E\<^sup>*" using h(1) by blast
next
  assume "\<exists>h \<in> H. (i, h) \<in> E\<^sup>*"
  then show "\<exists>h \<in> H. (i, h) \<in> (E \<union> H \<times> {i})\<^sup>*" using rtrancl_mono [of E "E \<union> H \<times> {i}"] by blast
qed

text \<open>
  C4. In every reachable state the event of a thread locking a node in use adds exactly the edges from the locks the
  thread holds to the node, and the thread holds the node once more. It reports a deadlock exactly when the thread does not hold the node
  yet and one of these edges lies on a cycle of the new graph. When the graph had no cycle before, that is exactly when it has one now. For a
  node that the thread holds already nothing is reported, although the edges added include the one from the node to itself.
\<close>

theorem onLock_reports_cycles:
  assumes "dd_reach DDBV (t_elems 1) (D, ds)" "live_node DDBV (t_elems 1) D node" "lock_room DDBV node D (ds t)"
  shows "\<exists>r D' d'. onLock DDBV node stk (D, ds t) = Some (Inr (r, D', d')) \<and>
    r = (nodeToIndexUnchecked DDBV node \<notin># held_now D (ds t) \<and>
        (\<exists>h \<in># held_now D (ds t). (nodeToIndexUnchecked DDBV node, h) \<in> (dd_E DDBV (t_elems 1) D')\<^sup>*)) \<and>
    (acyclic (dd_E DDBV (t_elems 1) D) \<and> nodeToIndexUnchecked DDBV node \<notin># held_now D (ds t) \<longrightarrow>
        r = (\<not> acyclic (dd_E DDBV (t_elems 1) D'))) \<and>
    dd_E DDBV (t_elems 1) D' = dd_E DDBV (t_elems 1) D \<union> set_mset (held_now D (ds t)) \<times> {nodeToIndexUnchecked DDBV node} \<and>
    held_now D' d' = add_mset (nodeToIndexUnchecked DDBV node) (held_now D (ds t))"
proof -
  note inv = dl.reach_inv [OF assms(1)]
  let ?H = "set_mset (held_now D (ds t))" and ?i = "nodeToIndexUnchecked DDBV node" and ?E = "dd_E DDBV (t_elems 1)"
  obtain r D' d' where d: "onLock DDBV node stk (D, ds t) = Some (Inr (r, D', d'))" "r = (?i \<notin> ?H \<and> (\<exists>h \<in> ?H. (?i, h) \<in> (?E D)\<^sup>*))"
    "?E D' = ?E D \<union> ?H \<times> {?i}" "current_epoch D' = current_epoch D" "tls_epoch d' = current_epoch D"
    "tls_locks d' = add_mset ?i (held_now D (ds t))"
    using dl.onLock_ok [OF dl.sys_invD(1,2) [OF inv] assms(2,3) dl.sys_invD(4) [OF inv], of stk] by blast
  moreover have "acyclic (?E D) \<longrightarrow> acyclic (?E D') = (\<forall>h \<in> ?H. (?i, h) \<notin> (?E D)\<^sup>*)" unfolding d(3) using acyclic_new_edges [of ?H "?E D" ?i] by simp
  moreover have "(\<exists>h \<in> ?H. (?i, h) \<in> (?E D')\<^sup>*) \<longleftrightarrow> (\<exists>h \<in> ?H. (?i, h) \<in> (?E D)\<^sup>*)" unfolding d(3) by (rule path_of_new_edges)
  moreover have "held_now D' d' = add_mset ?i (held_now D (ds t))" using d(4-6) by (simp add: held_now_def)
  ultimately show ?thesis by blast
qed

lemma onLock_reports_cycles_witness:
  "\<exists>node D. newNode DDBV 5 dd_example = Inr (node, D) \<and> (\<exists>r D' d'. onLock DDBV node 9 (D, tls0) = Some (Inr (r, D', d')) \<and>
    \<not> r \<and>
    dd_E DDBV (t_elems 1) D' = dd_E DDBV (t_elems 1) D \<union> set_mset (held_now D tls0) \<times> {nodeToIndexUnchecked DDBV node} \<and>
    held_now D' d' = add_mset (nodeToIndexUnchecked DDBV node) (held_now D tls0))"
proof -
  have inv: "dd_inv DDBV (t_ok 1) (t_elems 1) dd_example" using dl.sys_invD(1) [OF dl.reach_inv [OF reach_example]] .
  have "unat (current_epoch dd_example) + 2 * o_size DDBV \<le> 2 ^ 64" using allowed_example by simp
  from dl.newNode_ok [OF inv this, of 5] obtain node D where d: "newNode DDBV 5 dd_example = Inr (node, D)" "dd_inv DDBV (t_ok 1) (t_elems 1) D"
    "fresh_node DDBV (t_elems 1) dd_example 5 node D" by blast
  have r: "dd_reach DDBV (t_elems 1) (D, \<lambda>t. tls0)"
    by (rule dd_reach.step [OF reach_example allowed_example]) (simp add: d(1) del: One_nat_def)
  have live: "live_node DDBV (t_elems 1) D node" using d(3) by (simp add: fresh_node_def Let_def)
  then have "current_epoch D \<noteq> 0" using dl.epoch_ne by (auto simp: live_node_def)
  then have "held_now D tls0 = {#}" "lock_room DDBV node D tls0" by (simp_all add: held_now_def lock_room_def tls0_def tls_clear_def)
  moreover have "current_epoch dd_example = 0" by (simp add: dd_example_def dd_clear_def)
  then have "dd_E DDBV (t_elems 1) D = {}"
    using d(3) \<open>current_epoch D \<noteq> 0\<close> by (simp add: fresh_node_def Let_def del: One_nat_def)
  ultimately show ?thesis using onLock_reports_cycles [OF r live, where stk = 9] d(1) by (auto simp del: One_nat_def)
qed

end
