(* ===== verification/MutexEvents.thy ===== *)
theory MutexEvents
  imports LockRuns
begin

text \<open>
  \<^verbatim>\<open>sanitizer_deadlock_detector1.cc\<close>: the deadlock detector as the runtimes use it, with the mutexes in memory and the logical
  threads. The callback of an operation gives the same stack and thread id during the whole operation. A lock held of \<^verbatim>\<open>mtx\<close> is not
  part of the state: the operations are taken to run one after another.
\<close>

declare size_two [simp del] One_nat_def [simp del]

section \<open>The state\<close>

record ddmutex =
  mx_id :: uptr
  mx_stk :: u32
  mx_ctx :: u64

record rep_entry =
  r_thr_ctx :: u64
  r_mtx_ctx0 :: u64
  r_mtx_ctx1 :: u64
  r_stk :: "u32 \<times> u32"

record lthread =
  lt_ctx :: u64
  lt_dd :: "tlbv dtls"
  lt_rep :: "rep_entry list"
  report_pending :: bool

record dd_callback =
  cb_Unwind :: u32
  cb_UniqueTid :: u32

record ddet =
  sy_dd :: "tlbv dd"
  second_deadlock_stack :: bool
  sy_mx :: "uptr \<rightharpoonup> ddmutex"
  sy_lt :: "nat \<Rightarrow> lthread"

definition DD_new :: "bool \<Rightarrow> ddet \<Rightarrow> ddet" where
  "DD_new flags S = S\<lparr>second_deadlock_stack := flags, sy_dd := dd_clear DDBV (sy_dd S)\<rparr>"

definition CreateLogicalThread :: "u64 \<Rightarrow> nat \<Rightarrow> ddet \<Rightarrow> ddet" where
  "CreateLogicalThread ctx t S = (let lt = sy_lt S t in
     S\<lparr>sy_lt := (sy_lt S)(t := lt\<lparr>lt_ctx := ctx, lt_dd := tls_clear DDBV (lt_dd lt), report_pending := False\<rparr>)\<rparr>)"

text \<open>Access through a pointer to a mutex.\<close>

definition mutex_at :: "ddet \<Rightarrow> uptr \<Rightarrow> ddmutex res" where
  "mutex_at S p = (case sy_mx S p of None \<Rightarrow> Inl (Segv p) | Some m \<Rightarrow> Inr m)"

definition set_mx :: "uptr \<Rightarrow> ddmutex \<Rightarrow> ddet \<Rightarrow> ddet" where
  "set_mx p m S = S\<lparr>sy_mx := (sy_mx S)(p \<mapsto> m)\<rparr>"

definition set_dd :: "nat \<Rightarrow> tlbv dd \<Rightarrow> tlbv dtls \<Rightarrow> ddet \<Rightarrow> ddet" where
  "set_dd t D d S = S\<lparr>sy_dd := D, sy_lt := (sy_lt S)(t := (sy_lt S t)\<lparr>lt_dd := d\<rparr>)\<rparr>"

section \<open>The operations\<close>

definition MutexInit :: "dd_callback \<Rightarrow> uptr \<Rightarrow> ddet \<Rightarrow> ddet res" where
  "MutexInit cb p S = bindr (mutex_at S p) (\<lambda>m. Inr (set_mx p (m\<lparr>mx_id := 0, mx_stk := cb_Unwind cb\<rparr>) S))"

definition MutexEnsureID :: "nat \<Rightarrow> uptr \<Rightarrow> ddet \<Rightarrow> ddet res" where
  "MutexEnsureID t p S = bindr (mutex_at S p) (\<lambda>m.
     bindr (if \<not> nodeBelongsToCurrentEpoch DDBV (sy_dd S) (mx_id m) then
              bindr (newNode DDBV p (sy_dd S)) (\<lambda>(node, D). Inr (set_mx p (m\<lparr>mx_id := node\<rparr>) (S\<lparr>sy_dd := D\<rparr>)))
            else Inr S) (\<lambda>S.
     Inr (set_dd t (sy_dd S) (dd_ensureCurrentEpoch DDBV (sy_dd S) (lt_dd (sy_lt S t))) S)))"

text \<open>One round of the loop that fills the report: the edge from \<open>path[i]\<close> to the next node of the cycle.\<close>

definition report_entry :: "ddet \<Rightarrow> uptr list \<Rightarrow> nat \<Rightarrow> rep_entry res" where
  "report_entry S path i = (let from1 = path ! i; to1 = path ! ((i + 1) mod length path) in
     bindr (getData DDBV (sy_dd S) from1) (\<lambda>p0.
     bindr (getData DDBV (sy_dd S) to1) (\<lambda>p1.
     bindr (findEdge DDBV from1 to1 (sy_dd S)) (\<lambda>e.
     let (stk_from, stk_to, tid) = (case e of None \<Rightarrow> (- 1, - 1, 0) | Some e \<Rightarrow> (e_stk_from e, e_stk_to e, e_tid e)) in
     bindr (mutex_at S p0) (\<lambda>m0. bindr (mutex_at S p1) (\<lambda>m1.
     Inr \<lparr>r_thr_ctx = scast tid, r_mtx_ctx0 = mx_ctx m0, r_mtx_ctx1 = mx_ctx m1, r_stk = (stk_to, stk_from)\<rparr>))))))"

fun report_loop :: "ddet \<Rightarrow> uptr list \<Rightarrow> nat \<Rightarrow> rep_entry list res" where
  "report_loop S path 0 = Inr []"
| "report_loop S path (Suc n) =
     bindr (report_loop S path n) (\<lambda>es. bindr (report_entry S path n) (\<lambda>e. Inr (es @ [e])))"

text \<open>
  \<^verbatim>\<open>kMaxLoopSize\<close> is the size of the array \<open>path\<close>, so that the length is never cut. What the array holds before is never read.
\<close>

definition ReportDeadlock :: "nat \<Rightarrow> uptr \<Rightarrow> ddet \<Rightarrow> ddet run" where
  "ReportDeadlock t p S = bindo (Some (mutex_at S p)) (\<lambda>m.
     bindo (findPathToLock DDBV (mx_id m) 20 (\<lambda>i. 0) (sy_dd S, lt_dd (sy_lt S t))) (\<lambda>(path, D).
     let S = S\<lparr>sy_dd := D\<rparr>; len = length path in
     if len = 0 then Some (Inr S)
     else bindo (Some (check (mx_id m = hd path) ''m->id == path[0]'' (Inr ()))) (\<lambda>_.
       bindo (Some (report_loop S path (min len 20))) (\<lambda>es.
       Some (Inr (S\<lparr>sy_lt := (sy_lt S)(t := (sy_lt S t)\<lparr>report_pending := True, lt_rep := es\<rparr>)\<rparr>))))))"

definition MutexBeforeLock :: "dd_callback \<Rightarrow> nat \<Rightarrow> uptr \<Rightarrow> ddet \<Rightarrow> ddet run" where
  "MutexBeforeLock cb t p S = (let d = lt_dd (sy_lt S t) in
     if tls_empty DDBV d then Some (Inr S)
     else bindo (Some (mutex_at S p)) (\<lambda>m.
       bindo (Some (hasAllEdges DDBV (mx_id m) (sy_dd S) d)) (\<lambda>all.
       if all then Some (Inr S)
       else bindo (Some (MutexEnsureID t p S)) (\<lambda>S.
         bindo (Some (mutex_at S p)) (\<lambda>m.
         bindo (Some (isHeld DDBV (mx_id m) (sy_dd S) (lt_dd (sy_lt S t)))) (\<lambda>held.
         if held then Some (Inr S)
         else bindo (onLockBefore DDBV (mx_id m) (sy_dd S, lt_dd (sy_lt S t))) (\<lambda>(r, D, d).
           let S = set_dd t D d S in
           if r then
             bindo (dd_addEdges DDBV (mx_id m) (cb_Unwind cb) (cb_UniqueTid cb) (D, d)) (\<lambda>(_, D, d).
             ReportDeadlock t p (set_dd t D d S))
           else Some (Inr S))))))))"

definition MutexAfterLock :: "dd_callback \<Rightarrow> nat \<Rightarrow> uptr \<Rightarrow> bool \<Rightarrow> bool \<Rightarrow> ddet \<Rightarrow> ddet run" where
  "MutexAfterLock cb t p wlock trylock S = bindo (Some (mutex_at S p)) (\<lambda>m.
     let stk = (if second_deadlock_stack S then cb_Unwind cb else 0); d = lt_dd (sy_lt S t) in
     bindo (Some (onFirstLock DDBV (mx_id m) stk d)) (\<lambda>(done1, d).
     let S = set_dd t (sy_dd S) d S in
     if done1 then Some (Inr S)
     else bindo (Some (onLockFast DDBV (mx_id m) stk (sy_dd S) d)) (\<lambda>(done1, d).
       let S = set_dd t (sy_dd S) d S in
       if done1 then Some (Inr S)
       else bindo (Some (MutexEnsureID t p S)) (\<lambda>S.
         bindo (Some (mutex_at S p)) (\<lambda>m.
         bindo (if wlock then bindo (Some (isHeld DDBV (mx_id m) (sy_dd S) (lt_dd (sy_lt S t)))) (\<lambda>held.
                    Some (check (\<not> held) ''!dd.isHeld(&lt->dd, m->id)'' (Inr ())))
                else Some (Inr ())) (\<lambda>_.
         bindo (if \<not> trylock then
                  bindo (dd_addEdges DDBV (mx_id m) (if stk \<noteq> 0 then stk else cb_Unwind cb) (cb_UniqueTid cb)
                    (sy_dd S, lt_dd (sy_lt S t))) (\<lambda>(_, D, d). Some (Inr (set_dd t D d S)))
                else Some (Inr S)) (\<lambda>S.
         bindo (Some (onLockAfter DDBV (mx_id m) stk (sy_dd S) (lt_dd (sy_lt S t)))) (\<lambda>d.
         Some (Inr (set_dd t (sy_dd S) d S))))))))))"

definition MutexBeforeUnlock :: "nat \<Rightarrow> uptr \<Rightarrow> ddet \<Rightarrow> ddet res" where
  "MutexBeforeUnlock t p S = bindr (mutex_at S p) (\<lambda>m.
     bindr (onUnlock DDBV (mx_id m) (lt_dd (sy_lt S t))) (\<lambda>d. Inr (set_dd t (sy_dd S) d S)))"

definition MutexDestroy :: "uptr \<Rightarrow> ddet \<Rightarrow> ddet res" where
  "MutexDestroy p S = bindr (mutex_at S p) (\<lambda>m.
     if mx_id m = 0 then Inr S
     else bindr (if nodeBelongsToCurrentEpoch DDBV (sy_dd S) (mx_id m)
                 then bindr (removeNode DDBV (mx_id m) (sy_dd S)) (\<lambda>D. Inr (S\<lparr>sy_dd := D\<rparr>)) else Inr S) (\<lambda>S.
          Inr (set_mx p (m\<lparr>mx_id := 0\<rparr>) S)))"

definition GetReport :: "nat \<Rightarrow> ddet \<Rightarrow> rep_entry list option \<times> ddet" where
  "GetReport t S = (if \<not> report_pending (sy_lt S t) then (None, S)
     else (Some (lt_rep (sy_lt S t)), S\<lparr>sy_lt := (sy_lt S)(t := (sy_lt S t)\<lparr>report_pending := False\<rparr>)\<rparr>))"

section \<open>Paths to held locks\<close>

lemma path_to_mem: "path_to E a T xs \<Longrightarrow> x \<in> set xs \<Longrightarrow> x \<in> Domain E \<union> T"
proof (induction xs arbitrary: a)
  case (Cons y ys)
  then show ?case by (cases "ys = []") (auto simp: path_to_Cons)
qed simp

context detector
begin

lemma node_split:
  assumes "node_ok B D node"
  shows "of_nat (nodeToIndexUnchecked B node) + current_epoch D = node"
  using assms mod_div_mult_eq [of node "of_nat N"] by (simp add: node_ok_def nodeToEpoch_def nodeToIndexUnchecked_def)

lemma nodes_of_ok:
  "(\<And>i. i < n \<Longrightarrow> path i < N) \<Longrightarrow> nodes_of B D n path = Inr (map (\<lambda>i. of_nat (path i) + current_epoch D) [0..<n])"
  by (induction n) (simp_all add: indexToNode_def)

lemma findPathToLock_ok:
  assumes inv: "dd_inv B ok elems D" and d: "tls_inv ok elems d" and e: "tls_epoch d = current_epoch D" and n: "node_ok B D node"
    and free: "nodeToIndexUnchecked B node \<notin># tls_locks d"
  shows "\<exists>xs D'. findPathToLock B node k path (D, d) = Some (Inr (map (\<lambda>i. of_nat i + current_epoch D) xs, D')) \<and> (\<exists>tmp. D' = D\<lparr>tmp_bv := tmp\<rparr>) \<and>
    (if xs = [] then \<forall>ys. path_to (dd_E B elems D) (nodeToIndexUnchecked B node) (set_mset (tls_locks d)) ys \<longrightarrow> k < length ys
     else length xs \<le> k \<and> path_to (dd_E B elems D) (nodeToIndexUnchecked B node) (set_mset (tls_locks d)) xs \<and>
       (\<forall>ys. path_to (dd_E B elems D) (nodeToIndexUnchecked B node) (set_mset (tls_locks d)) ys \<longrightarrow> length xs \<le> length ys))"
proof -
  let ?i = "nodeToIndexUnchecked B node" and ?E = "dd_E B elems D" and ?H = "set_mset (tls_locks d)"
  have okd: "ok (tls_bv d)" using d by (simp add: tls_inv_def)
  note H = tls_set_locks [OF d]
  obtain tmp where tmp: "o_copyFrom B (tls_bv d) (tmp_bv D) = Inr tmp" "ok tmp" "elems tmp = ?H" using copyFrom [OF okd, of "tmp_bv D"] H by auto
  let ?D = "D\<lparr>tmp_bv := tmp\<rparr>"
  have ni: "nodeToIndex B ?D node = Inr ?i" using n by (intro nodeToIndex_ok) (simp add: node_ok_def)
  have "o_getBit B ?i tmp = Inr False" using getBit [OF index_lt tmp(2)] tmp(3) free by simp
  moreover obtain r mem where r: "g_findShortestPath B ?i tmp k (dd_g D) path = Some (Inr (r, mem))"
    "if r = 0 then \<forall>ys. path_to ?E ?i ?H ys \<longrightarrow> k < length ys
     else r \<le> k \<and> path_to ?E ?i ?H (map mem [0..<r]) \<and> (\<forall>ys. path_to ?E ?i ?H ys \<longrightarrow> r \<le> length ys)"
    using g_findShortestPath_ok [OF invD(3) [OF inv] tmp(2) index_lt, of node k path] unfolding tmp(3) dd_E_def by blast
  let ?xs = "map mem [0..<r]"
  have p: "path_to ?E ?i ?H ?xs" if "r \<noteq> 0" using r(2) that by simp
  have lt: "mem j < N" if "j < r" for j
  proof -
    have "r \<noteq> 0" "mem j \<in> set ?xs" using that by simp_all
    from path_to_mem [OF p [OF this(1)] this(2)] show ?thesis using edges_lt elems_lt [of _ "tls_bv d"] H by (auto simp: dd_E_def)
  qed
  have nodes: "nodes_of B ?D r mem = Inr (map (\<lambda>i. of_nat i + current_epoch D) ?xs)"
    using nodes_of_ok [of r mem ?D] lt by (simp add: comp_def)
  have "hd (map (\<lambda>i. of_nat i + current_epoch D) ?xs) = node" if "r \<noteq> 0"
    using p [OF that] node_split [OF n] that by (simp add: path_to_def hd_map)
  then have "findPathToLock B node k path (D, d) = Some (Inr (map (\<lambda>i. of_nat i + current_epoch D) ?xs, ?D))"
    using tmp(1) e ni r(1) nodes calculation by (simp add: findPathToLock_def tls_getLocks_def Let_def check_def)
  then show ?thesis using r(2) by (intro exI [of _ ?xs] exI [of _ ?D]) (auto split: if_splits)
qed

lemma all_edges_ok:
  assumes "g_ok N ok g" "b < N"
  shows "(\<And>l. l \<in> set ls \<Longrightarrow> l < N) \<Longrightarrow> all_edges B g b ls = Inr (\<forall>l \<in> set ls. (l, b) \<in> E g)"
  by (induction ls) (simp_all add: g_hasEdge_ok [OF assms(1) _ assms(2)])

lemma hasAllEdges_ok:
  assumes inv: "dd_inv B ok elems D" and d: "tls_inv ok elems d"
  shows "hasAllEdges B node D d = Inr (node \<noteq> 0 \<and> tls_epoch d = current_epoch D \<and> tls_epoch d = nodeToEpoch B node \<and>
    (\<forall>l \<in># tls_locks d. (l, nodeToIndexUnchecked B node) \<in> dd_E B elems D))"
proof -
  have "set_mset (first_locks d) = elems (tls_bv d)" using d finite_elems by (simp add: tls_inv_def)
  then have s: "set (map (\<lambda>i. tls_getLock i d) [0..<n_all_locks d]) = set_mset (tls_locks d)"
    unfolding tls_set_locks [OF d] by (simp add: first_locks_def set_prefix_mset tls_getLock_def atLeast0LessThan)
  let ?ls = "map (\<lambda>i. tls_getLock i d) [0..<n_all_locks d]"
  have "all_edges B (dd_g D) (nodeToIndexUnchecked B node) ?ls = Inr (\<forall>l \<in> set ?ls. (l, nodeToIndexUnchecked B node) \<in> E (dd_g D))"
  proof (rule all_edges_ok [OF invD(3) [OF inv] index_lt])
    show "l < N" if "l \<in> set ?ls" for l using that unfolding s using tls_set_locks [OF d] elems_lt by auto
  qed
  then show ?thesis unfolding s hasAllEdges_def dd_E_def by (simp only: if_splits) auto
qed

lemma onFirstLock_ok:
  assumes d: "tls_inv ok elems d"
  shows "\<exists>b d'. onFirstLock B node stk d = Inr (b, d') \<and> tls_inv ok elems d' \<and> tls_epoch d' = tls_epoch d \<and>
    (if b then tls_locks d = {#} \<and> tls_locks d' = {#nodeToIndexUnchecked B node#} \<and> tls_epoch d = nodeToEpoch B node \<and> tls_epoch d \<noteq> 0
     else d' = d)"
proof (cases "tls_empty B d \<and> tls_epoch d \<noteq> 0 \<and> tls_epoch d = nodeToEpoch B node")
  case True
  have "elems (tls_bv d) = {}" using True d empty by (simp add: tls_empty_def tls_inv_def)
  then have z: "tls_locks d = {#}" "n_all_locks d = 0"
    using tls_set_locks [OF d] d size_prefix_mset [of "\<lambda>i. unat (fst (all_locks d i))" "n_all_locks d"]
    by (auto simp: tls_inv_def first_locks_def)
  obtain d' where "tls_addLock B (nodeToIndexUnchecked B node) (nodeToEpoch B node) stk d = Inr (True, d')" "tls_inv ok elems d'"
    "tls_epoch d' = nodeToEpoch B node" "tls_locks d' = {#nodeToIndexUnchecked B node#}"
    using tls_addLock_ok [OF d index_lt, of "nodeToEpoch B node" node stk] True z by auto
  then show ?thesis using True z by (intro exI [of _ True] exI [of _ d']) (auto simp: onFirstLock_def)
next
  case False
  then show ?thesis using d by (intro exI [of _ False] exI [of _ d]) (auto simp: onFirstLock_def)
qed

lemma onLockFast_ok:
  assumes inv: "dd_inv B ok elems D" and d: "tls_inv ok elems d" and room: "n_all_locks d < 64" "n_recursive_locks d < 64"
  shows "\<exists>b d'. onLockFast B node stk D d = Inr (b, d') \<and> tls_inv ok elems d' \<and> tls_epoch d' = tls_epoch d \<and>
    (if b then node \<noteq> 0 \<and> tls_epoch d = current_epoch D \<and> tls_epoch d = nodeToEpoch B node \<and>
       tls_locks d' = add_mset (nodeToIndexUnchecked B node) (tls_locks d) else d' = d)"
proof (cases "hasAllEdges B node D d = Inr True")
  case True
  then have c: "node \<noteq> 0" "tls_epoch d = current_epoch D" "tls_epoch d = nodeToEpoch B node" using hasAllEdges_ok [OF inv d] by auto
  obtain b d' where "tls_addLock B (nodeToIndexUnchecked B node) (nodeToEpoch B node) stk d = Inr (b, d')" "tls_inv ok elems d'"
    "tls_epoch d' = nodeToEpoch B node" "tls_locks d' = add_mset (nodeToIndexUnchecked B node) (tls_locks d)"
    using tls_addLock_ok [OF d index_lt c(3), of node stk] room by (cases "nodeToIndexUnchecked B node \<in># tls_locks d") auto
  then show ?thesis using True c by (intro exI [of _ True] exI [of _ d']) (simp add: onLockFast_def)
next
  case False
  then have "hasAllEdges B node D d = Inr False" using hasAllEdges_ok [OF inv d] by auto
  then show ?thesis using d by (intro exI [of _ False] exI [of _ d]) (simp add: onLockFast_def)
qed

end

section \<open>The invariant of the mutexes\<close>

abbreviation "lts S \<equiv> \<lambda>u. lt_dd (sy_lt S u)"

definition belongs :: "ddet \<Rightarrow> ddmutex \<Rightarrow> bool" where
  "belongs S m \<longleftrightarrow> nodeBelongsToCurrentEpoch DDBV (sy_dd S) (mx_id m)"

definition live_id :: "ddet \<Rightarrow> uptr \<Rightarrow> bool" where
  "live_id S node \<longleftrightarrow> live_node DDBV (t_elems 1) (sy_dd S) node"

definition idx :: "uptr \<Rightarrow> nat" where
  "idx node = nodeToIndexUnchecked DDBV node"

text \<open>
  An id of the current epoch is a node in use, two mutexes have different ones, the data of a node in use points to a mutex, and no id is
  of an epoch to come.
\<close>

definition det_inv :: "ddet \<Rightarrow> bool" where
  "det_inv S \<longleftrightarrow> sys_inv DDBV (t_ok 1) (t_elems 1) (sy_dd S, lts S) \<and>
     (\<forall>p m. sy_mx S p = Some m \<and> belongs S m \<longrightarrow> live_id S (mx_id m)) \<and>
     (\<forall>p q m m'. sy_mx S p = Some m \<and> sy_mx S q = Some m' \<and> belongs S m \<and> mx_id m = mx_id m' \<longrightarrow> p = q) \<and>
     (\<forall>i. i < 4096 \<and> i \<notin> vacant (t_elems 1) (sy_dd S) \<and> current_epoch (sy_dd S) \<noteq> 0 \<longrightarrow> sy_mx S (dd_data (sy_dd S) i) \<noteq> None) \<and>
     (\<forall>p m. sy_mx S p = Some m \<longrightarrow> nodeToEpoch DDBV (mx_id m) \<le> current_epoch (sy_dd S))"

lemma size_DDBV: "o_size DDBV = 4096"
  by (simp add: size_two t_size_def bv_size_def)

lemma det_invD:
  assumes "det_inv S"
  shows "sys_inv DDBV (t_ok 1) (t_elems 1) (sy_dd S, lts S)" "sy_mx S p = Some m \<Longrightarrow> belongs S m \<Longrightarrow> live_id S (mx_id m)"
    "sy_mx S p = Some m \<Longrightarrow> sy_mx S q = Some m' \<Longrightarrow> belongs S m \<Longrightarrow> mx_id m = mx_id m' \<Longrightarrow> p = q"
    "i < 4096 \<Longrightarrow> i \<notin> vacant (t_elems 1) (sy_dd S) \<Longrightarrow> current_epoch (sy_dd S) \<noteq> 0 \<Longrightarrow> sy_mx S (dd_data (sy_dd S) i) \<noteq> None"
    "sy_mx S p = Some m \<Longrightarrow> nodeToEpoch DDBV (mx_id m) \<le> current_epoch (sy_dd S)"
  using assms unfolding det_inv_def by blast+

lemma set_dd_simps [simp]:
  "sy_dd (set_dd t D d S) = D" "sy_mx (set_dd t D d S) = sy_mx S" "lts (set_dd t D d S) = (lts S)(t := d)"
  "second_deadlock_stack (set_dd t D d S) = second_deadlock_stack S" "report_pending (sy_lt (set_dd t D d S) u) = report_pending (sy_lt S u)"
  "lt_rep (sy_lt (set_dd t D d S) u) = lt_rep (sy_lt S u)"
  by (auto simp: set_dd_def)

lemma set_dd_lt [simp]: "lt_dd (sy_lt (set_dd t D d S) u) = (if u = t then d else lt_dd (sy_lt S u))"
  by (simp add: set_dd_def)

lemma set_dd_ok:
  assumes S: "det_inv S" and D: "dd_inv DDBV (t_ok 1) (t_elems 1) D" "current_epoch D = current_epoch (sy_dd S)"
      "vacant (t_elems 1) D = vacant (t_elems 1) (sy_dd S)" "dd_data D = dd_data (sy_dd S)"
    and d: "tls_inv (t_ok 1) (t_elems 1) d" "tls_epoch d \<le> current_epoch (sy_dd S)"
      "set_mset (held_now (sy_dd S) d) \<inter> vacant (t_elems 1) (sy_dd S) = {}"
  shows "det_inv (set_dd t D d S)"
proof -
  have "sys_inv DDBV (t_ok 1) (t_elems 1) (D, (lts S)(t := d))"
    using dl.step_thread [OF det_invD(1) [OF S] D(1-3) d] .
  moreover have "belongs (set_dd t D d S) m = belongs S m" "live_id (set_dd t D d S) n = live_id S n" for m n
    using D(2,3) by (simp_all add: belongs_def nodeBelongsToCurrentEpoch_def live_id_def live_node_def node_ok_def)
  ultimately show ?thesis using S D(2-4) unfolding det_inv_def by (simp add: fun_upd_def) blast
qed

lemma mutex_at_ok [simp]: "sy_mx S p = Some m \<Longrightarrow> mutex_at S p = Inr m"
  by (simp add: mutex_at_def)

lemma live_belongs: "live_id S (mx_id m) \<Longrightarrow> belongs S m"
  using dl.epoch_ne [of "sy_dd S" "mx_id m"]
  by (auto simp: live_id_def live_node_def node_ok_def belongs_def nodeBelongsToCurrentEpoch_def nodeToEpoch_def)

lemma epoch_step: "unat e + 8192 \<le> 2 ^ 64 \<Longrightarrow> e < e + (4096 :: uptr)"
  using unat_add_nowrap [of e 4096] by (simp add: word_less_nat_alt)

text \<open>What a new node means for the mutexes.\<close>

lemma new_id_ok:
  assumes S: "det_inv S" and p: "sy_mx S p = Some m" and nb: "\<not> belongs S m" and room: "unat (current_epoch (sy_dd S)) + 8192 \<le> 2 ^ 64"
  shows "\<exists>node D. newNode DDBV p (sy_dd S) = Inr (node, D) \<and> fresh_node DDBV (t_elems 1) (sy_dd S) p node D \<and>
    det_inv (set_mx p (m\<lparr>mx_id := node\<rparr>) (S\<lparr>sy_dd := D\<rparr>))"
proof -
  note sys = det_invD(1) [OF S]
  have room': "unat (current_epoch (sy_dd S)) + 2 * o_size DDBV \<le> 2 ^ 64" using room by (simp add: size_DDBV)
  obtain node D where d: "newNode DDBV p (sy_dd S) = Inr (node, D)" "fresh_node DDBV (t_elems 1) (sy_dd S) p node D"
    using dl.newNode_ok [OF dl.sys_invD(1) [OF sys] room'] by blast
  then have sys': "sys_inv DDBV (t_ok 1) (t_elems 1) (D, lts S)" using dl.step_new [OF sys room', of p] by auto
  let ?S = "set_mx p (m\<lparr>mx_id := node\<rparr>) (S\<lparr>sy_dd := D\<rparr>)" and ?v = "vacant (t_elems 1) (sy_dd S)" and ?v' = "vacant (t_elems 1) D"
  have live: "live_id ?S node" and data: "dd_data D = (dd_data (sy_dd S))(idx node := p)"
    using d(2) by (simp_all add: fresh_node_def Let_def live_id_def set_mx_def idx_def)
  have ilt: "idx node < 4096" using dl.index_lt [of node] by (simp add: idx_def size_DDBV)
  have cases: "(current_epoch D = current_epoch (sy_dd S) \<and> idx node \<in> ?v \<and> {..<4096} - ?v' = insert (idx node) ({..<4096} - ?v)) \<or>
     (current_epoch D = current_epoch (sy_dd S) + 4096 \<and> {..<4096} - ?v' = {idx node})"
    using d(2) unfolding fresh_node_def Let_def idx_def size_DDBV by (auto split: if_splits)
  have ep: "current_epoch (sy_dd S) \<le> current_epoch D" using cases epoch_step [OF room] by (metis order_refl less_imp_le)
  have old: "current_epoch D = current_epoch (sy_dd S) \<and> belongs S m' \<and> idx (mx_id m') \<notin> ?v" if "sy_mx S q = Some m'" "belongs ?S m'" for q m'
  proof -
    have b: "mx_id m' \<noteq> 0" "nodeToEpoch DDBV (mx_id m') = current_epoch D"
      using that(2) by (simp_all add: belongs_def nodeBelongsToCurrentEpoch_def nodeToEpoch_def set_mx_def)
    then have "current_epoch D \<le> current_epoch (sy_dd S)" using det_invD(5) [OF S that(1)] by simp
    then have e: "current_epoch D = current_epoch (sy_dd S)" using cases epoch_step [OF room] by (metis leD)
    then have "belongs S m'" using b by (simp add: belongs_def nodeBelongsToCurrentEpoch_def nodeToEpoch_def)
    then show ?thesis using det_invD(2) [OF S that(1)] e by (simp add: live_id_def live_node_def idx_def)
  qed
  have same: "idx node \<in> ?v \<and> {..<4096} - ?v' = insert (idx node) ({..<4096} - ?v)" if "current_epoch D = current_epoch (sy_dd S)"
    using cases that epoch_step [OF room] by (metis less_irrefl)
  have "det_inv ?S"
    unfolding det_inv_def
  proof (intro conjI allI impI)
    show "sys_inv DDBV (t_ok 1) (t_elems 1) (sy_dd ?S, lts ?S)" using sys' by (simp add: set_mx_def)
  next
    fix q m'
    assume a: "sy_mx ?S q = Some m' \<and> belongs ?S m'"
    show "live_id ?S (mx_id m')"
    proof (cases "q = p")
      case True
      then have "mx_id m' = node" using a by (auto simp: set_mx_def)
      then show ?thesis using live by simp
    next
      case False
      then have q: "sy_mx S q = Some m'" using a by (simp add: set_mx_def)
      from old [OF q] a have o: "current_epoch D = current_epoch (sy_dd S)" "belongs S m'" "idx (mx_id m') \<notin> ?v" by auto
      have "idx (mx_id m') < 4096" using dl.index_lt [of "mx_id m'"] by (simp add: idx_def size_DDBV)
      then have "idx (mx_id m') \<notin> ?v'" using same [OF o(1)] o(3) by blast
      then show ?thesis using det_invD(2) [OF S q o(2)] o(1) by (simp add: live_id_def live_node_def node_ok_def idx_def set_mx_def)
    qed
  next
    fix q r m1 m2
    assume a: "sy_mx ?S q = Some m1 \<and> sy_mx ?S r = Some m2 \<and> belongs ?S m1 \<and> mx_id m1 = mx_id m2"
    have b2: "belongs ?S m2" using a unfolding belongs_def by metis
    have clash: False if q: "sy_mx S q' = Some m'" "belongs ?S m'" "mx_id m' = node" for q' m'
      using old [OF q(1,2)] same q(3) by auto
    have here: "mx_id mm = node" if "sy_mx ?S p = Some mm" for mm using that by (auto simp: set_mx_def)
    have there: "sy_mx S x = Some mm" if "sy_mx ?S x = Some mm" "x \<noteq> p" for x mm using that by (simp add: set_mx_def)
    show "q = r"
    proof (rule ccontr)
      assume ne: "q \<noteq> r"
      consider "q = p" "r \<noteq> p" | "r = p" "q \<noteq> p" | "q \<noteq> p" "r \<noteq> p" using ne by blast
      then show False
      proof cases
        case 1
        then show False using clash [OF there b2] here [of m1] a by metis
      next
        case 2
        then show False using clash [OF there [of q m1]] here [of m2] a by metis
      next
        case 3
        then have "sy_mx S q = Some m1" "sy_mx S r = Some m2" using there a by blast+
        moreover from this(1) have "belongs S m1" using old a by blast
        ultimately show False using det_invD(3) [OF S] a ne by blast
      qed
    qed
  next
    fix i
    assume i: "i < 4096 \<and> i \<notin> vacant (t_elems 1) (sy_dd ?S) \<and> current_epoch (sy_dd ?S) \<noteq> 0"
    then have "i \<in> {..<4096} - ?v'" by (simp add: set_mx_def)
    then consider "i = idx node" | "i \<noteq> idx node" "i \<notin> ?v" "current_epoch D = current_epoch (sy_dd S)"
      using cases by auto
    then show "sy_mx ?S (dd_data (sy_dd ?S) i) \<noteq> None"
    proof cases
      case 1
      then show ?thesis by (simp add: set_mx_def data)
    next
      case 2
      then show ?thesis using det_invD(4) [OF S, of i] i by (auto simp: set_mx_def data)
    qed
  next
    fix q m'
    assume q: "sy_mx ?S q = Some m'"
    show "nodeToEpoch DDBV (mx_id m') \<le> current_epoch (sy_dd ?S)"
    proof (cases "q = p")
      case True
      then have "mx_id m' = node" using q by (auto simp: set_mx_def)
      then show ?thesis using live by (simp add: live_id_def live_node_def node_ok_def)
    next
      case False
      then have "sy_mx S q = Some m'" using q by (simp add: set_mx_def)
      from order_trans [OF det_invD(5) [OF S this] ep] show ?thesis by (simp add: set_mx_def)
    qed
  qed
  then show ?thesis using d by blast
qed

lemma held_facts:
  assumes S: "det_inv S"
  shows "dd_inv DDBV (t_ok 1) (t_elems 1) (sy_dd S)" "tls_inv (t_ok 1) (t_elems 1) (lt_dd (sy_lt S t))"
    "tls_epoch (lt_dd (sy_lt S t)) \<le> current_epoch (sy_dd S)"
    "set_mset (held_now (sy_dd S) (lt_dd (sy_lt S t))) \<inter> vacant (t_elems 1) (sy_dd S) = {}"
  using dl.sys_invD [OF det_invD(1) [OF S]] by simp_all

lemma ensure_ok:
  assumes S: "det_inv S"
  shows "det_inv (set_dd t (sy_dd S) (dd_ensureCurrentEpoch DDBV (sy_dd S) (lt_dd (sy_lt S t))) S)"
proof -
  note h = held_facts(2-4) [OF S, of t]
  note e = dl.held_ensure [OF h(1), of "sy_dd S"]
  show ?thesis
    by (rule set_dd_ok [OF S held_facts(1) [OF S] refl refl refl e(1)]) (use e h dl.held_now_ensure [OF h(1)] in simp_all)
qed

lemma ensureID_ok:
  assumes S: "det_inv S" and p: "sy_mx S p = Some m" and room: "unat (current_epoch (sy_dd S)) + 8192 \<le> 2 ^ 64"
  shows "\<exists>S' m'. MutexEnsureID t p S = Inr S' \<and> det_inv S' \<and> sy_mx S' p = Some m' \<and> live_id S' (mx_id m') \<and>
    lt_dd (sy_lt S' t) = dd_ensureCurrentEpoch DDBV (sy_dd S') (lt_dd (sy_lt S t)) \<and>
    report_pending (sy_lt S' t) = report_pending (sy_lt S t) \<and> lt_rep (sy_lt S' t) = lt_rep (sy_lt S t) \<and>
    (if belongs S m then m' = m \<and> sy_dd S' = sy_dd S \<and> sy_mx S' = sy_mx S
     else idx (mx_id m') \<notin># held_now (sy_dd S') (lt_dd (sy_lt S' t)) \<and> (\<forall>x. (idx (mx_id m'), x) \<notin> dd_E DDBV (t_elems 1) (sy_dd S')))"
proof (cases "belongs S m")
  case True
  let ?S = "set_dd t (sy_dd S) (dd_ensureCurrentEpoch DDBV (sy_dd S) (lt_dd (sy_lt S t))) S"
  have "MutexEnsureID t p S = Inr ?S" using p True by (simp add: MutexEnsureID_def belongs_def)
  moreover have "live_id ?S (mx_id m)" using det_invD(2) [OF S p True] by (simp add: live_id_def)
  ultimately show ?thesis using True p ensure_ok [OF S, of t] by (intro exI [of _ ?S] exI [of _ m]) simp
next
  case False
  obtain node D where n: "newNode DDBV p (sy_dd S) = Inr (node, D)" "fresh_node DDBV (t_elems 1) (sy_dd S) p node D"
    "det_inv (set_mx p (m\<lparr>mx_id := node\<rparr>) (S\<lparr>sy_dd := D\<rparr>))" using new_id_ok [OF S p False room] by blast
  let ?S1 = "set_mx p (m\<lparr>mx_id := node\<rparr>) (S\<lparr>sy_dd := D\<rparr>)"
  have s1: "sy_dd ?S1 = D" "sy_lt ?S1 = sy_lt S" by (simp_all add: set_mx_def)
  let ?d = "dd_ensureCurrentEpoch DDBV D (lt_dd (sy_lt S t))"
  let ?S = "set_dd t D ?d ?S1"
  have inv: "det_inv ?S" using ensure_ok [OF n(3), of t] by (simp add: s1)
  have run: "MutexEnsureID t p S = Inr ?S" using p False n(1) by (simp add: MutexEnsureID_def belongs_def s1)
  have live: "live_id ?S node" using n(2) by (simp add: fresh_node_def Let_def live_id_def)
  have noE: "(idx node, x) \<notin> dd_E DDBV (t_elems 1) D" for x using n(2) by (simp add: fresh_node_def Let_def idx_def)
  have "idx node \<notin># held_now D (lt_dd (sy_lt S t))"
  proof (cases "current_epoch D = current_epoch (sy_dd S)")
    case True
    then have "idx node \<in> vacant (t_elems 1) (sy_dd S)" using n(2) by (simp add: fresh_node_def Let_def idx_def)
    moreover have "held_now D (lt_dd (sy_lt S t)) = held_now (sy_dd S) (lt_dd (sy_lt S t))" using True by (simp add: held_now_def)
    ultimately show ?thesis using held_facts(4) [OF S, of t] by auto
  next
    case False
    then have "current_epoch D = current_epoch (sy_dd S) + 4096" using n(2) by (simp add: fresh_node_def Let_def size_DDBV)
    then have "tls_epoch (lt_dd (sy_lt S t)) < current_epoch D" using epoch_step [OF room] held_facts(3) [OF S, of t] by simp
    then show ?thesis by (simp add: held_now_def less_imp_neq)
  qed
  then have free: "idx node \<notin># held_now D ?d" using dl.held_now_ensure [OF held_facts(2) [OF S]] by simp
  have "sy_mx ?S p = Some (m\<lparr>mx_id := node\<rparr>)" by (simp add: set_mx_def)
  then show ?thesis using False run inv live free noE
    by (intro exI [of _ ?S] exI [of _ "m\<lparr>mx_id := node\<rparr>"]) (simp add: s1)
qed

section \<open>Reports\<close>

lemma live_data:
  assumes S: "det_inv S" and i: "i < 4096" "i \<notin> vacant (t_elems 1) (sy_dd S)" and ep: "current_epoch (sy_dd S) \<noteq> 0"
    and room: "unat (current_epoch (sy_dd S)) + 8192 \<le> 2 ^ 64"
  shows "getData DDBV (sy_dd S) (of_nat i + current_epoch (sy_dd S)) = Inr (dd_data (sy_dd S) i)"
    "\<exists>m. sy_mx S (dd_data (sy_dd S) i) = Some m" "node_ok DDBV (sy_dd S) (of_nat i + current_epoch (sy_dd S))"
proof -
  note inv = held_facts(1) [OF S]
  have "unat (current_epoch (sy_dd S)) + o_size DDBV \<le> 2 ^ 64" "i < o_size DDBV" using room i(1) by (simp_all add: size_DDBV)
  from dl.new_node [OF dl.invD(5) [OF inv] dl.epoch_large [OF inv ep] this]
  have n: "nodeToIndexUnchecked DDBV (of_nat i + current_epoch (sy_dd S)) = i" "node_ok DDBV (sy_dd S) (of_nat i + current_epoch (sy_dd S))"
    by (simp_all add: node_ok_def)
  then show "getData DDBV (sy_dd S) (of_nat i + current_epoch (sy_dd S)) = Inr (dd_data (sy_dd S) i)"
    "node_ok DDBV (sy_dd S) (of_nat i + current_epoch (sy_dd S))"
    using dl.nodeToIndex_ok by (simp_all add: getData_def)
  show "\<exists>m. sy_mx S (dd_data (sy_dd S) i) = Some m" using det_invD(4) [OF S i ep] by blast
qed

definition cycle_report :: "ddet \<Rightarrow> nat list \<Rightarrow> rep_entry list \<Rightarrow> bool" where
  "cycle_report S xs es \<longleftrightarrow> length es = length xs \<and> (\<forall>j < length xs. \<exists>m0 m1.
     sy_mx S (dd_data (sy_dd S) (xs ! j)) = Some m0 \<and> sy_mx S (dd_data (sy_dd S) (xs ! (Suc j mod length xs))) = Some m1 \<and>
     r_mtx_ctx0 (es ! j) = mx_ctx m0 \<and> r_mtx_ctx1 (es ! j) = mx_ctx m1)"

lemma report_loop_ok:
  assumes S: "det_inv S" and ep: "current_epoch (sy_dd S) \<noteq> 0" and room: "unat (current_epoch (sy_dd S)) + 8192 \<le> 2 ^ 64"
    and xs: "\<And>x. x \<in> set xs \<Longrightarrow> x < 4096 \<and> x \<notin> vacant (t_elems 1) (sy_dd S)"
  shows "n \<le> length xs \<Longrightarrow> \<exists>es. report_loop S (map (\<lambda>i. of_nat i + current_epoch (sy_dd S)) xs) n = Inr es \<and> length es = n \<and>
    (\<forall>j < n. \<exists>m0 m1. sy_mx S (dd_data (sy_dd S) (xs ! j)) = Some m0 \<and> sy_mx S (dd_data (sy_dd S) (xs ! (Suc j mod length xs))) = Some m1 \<and>
     r_mtx_ctx0 (es ! j) = mx_ctx m0 \<and> r_mtx_ctx1 (es ! j) = mx_ctx m1)"
proof (induction n)
  case (Suc n)
  let ?path = "map (\<lambda>i. of_nat i + current_epoch (sy_dd S)) xs" and ?k = "Suc n mod length xs"
  obtain es where es: "report_loop S ?path n = Inr es" "length es = n"
    "\<forall>j < n. \<exists>m0 m1. sy_mx S (dd_data (sy_dd S) (xs ! j)) = Some m0 \<and> sy_mx S (dd_data (sy_dd S) (xs ! (Suc j mod length xs))) = Some m1 \<and>
     r_mtx_ctx0 (es ! j) = mx_ctx m0 \<and> r_mtx_ctx1 (es ! j) = mx_ctx m1" using Suc by auto
  have n: "n < length xs" using Suc.prems by simp
  then have "0 < length xs" by linarith
  then have k: "?k < length xs" by simp
  note x0 = live_data [OF S _ _ ep room, of "xs ! n"] and x1 = live_data [OF S _ _ ep room, of "xs ! ?k"]
  have l: "xs ! n < 4096" "xs ! n \<notin> vacant (t_elems 1) (sy_dd S)" "xs ! ?k < 4096" "xs ! ?k \<notin> vacant (t_elems 1) (sy_dd S)"
    using xs n k by simp_all
  obtain m0 m1 where m: "sy_mx S (dd_data (sy_dd S) (xs ! n)) = Some m0" "sy_mx S (dd_data (sy_dd S) (xs ! ?k)) = Some m1"
    using x0(2) x1(2) l by blast
  obtain fe where fe: "findEdge DDBV (of_nat (xs ! n) + current_epoch (sy_dd S)) (of_nat (xs ! ?k) + current_epoch (sy_dd S)) (sy_dd S) = Inr fe"
    using dl.nodeToIndex_ok [OF x0(3) [OF l(1,2)]] dl.nodeToIndex_ok [OF x1(3) [OF l(3,4)]] by (simp add: findEdge_def)
  obtain e where e: "report_entry S ?path n = Inr e" "r_mtx_ctx0 e = mx_ctx m0" "r_mtx_ctx1 e = mx_ctx m1"
    using x0(1) [OF l(1,2)] x1(1) [OF l(3,4)] fe m n k by (cases fe) (auto simp: report_entry_def Let_def Suc_eq_plus1 [symmetric])
  have "report_loop S ?path (Suc n) = Inr (es @ [e])" using es(1) e(1) by simp
  then show ?case using es(2,3) e(2,3) m by (auto simp: less_Suc_eq nth_append)
qed simp

lemma set_tmp_ok: "det_inv (S\<lparr>sy_dd := (sy_dd S)\<lparr>tmp_bv := tmp\<rparr>\<rparr>) = det_inv S"
  by (simp add: det_inv_def sys_inv_def dd_inv_def vacant_def dd_E_def recorded_def held_now_def belongs_def nodeBelongsToCurrentEpoch_def
      live_id_def live_node_def node_ok_def)

lemma report_ok:
  assumes S: "det_inv S" and p: "sy_mx S p = Some m" and live: "live_id S (mx_id m)" and room: "unat (current_epoch (sy_dd S)) + 8192 \<le> 2 ^ 64"
    and e: "tls_epoch (lt_dd (sy_lt S t)) = current_epoch (sy_dd S)" and free: "idx (mx_id m) \<notin># tls_locks (lt_dd (sy_lt S t))"
  shows "\<exists>S' xs. ReportDeadlock t p S = Some (Inr S') \<and> det_inv S' \<and> dd_E DDBV (t_elems 1) (sy_dd S') = dd_E DDBV (t_elems 1) (sy_dd S) \<and>
    sy_mx S' = sy_mx S \<and> lts S' = lts S \<and>
    (if xs = [] then (\<forall>ys. path_to (dd_E DDBV (t_elems 1) (sy_dd S)) (idx (mx_id m)) (set_mset (tls_locks (lt_dd (sy_lt S t)))) ys \<longrightarrow> 20 < length ys) \<and>
       report_pending (sy_lt S' t) = report_pending (sy_lt S t) \<and> lt_rep (sy_lt S' t) = lt_rep (sy_lt S t)
     else length xs \<le> 20 \<and> path_to (dd_E DDBV (t_elems 1) (sy_dd S)) (idx (mx_id m)) (set_mset (tls_locks (lt_dd (sy_lt S t)))) xs \<and>
       report_pending (sy_lt S' t) \<and> cycle_report S xs (lt_rep (sy_lt S' t)))"
proof -
  let ?E = "dd_E DDBV (t_elems 1) (sy_dd S)" and ?H = "set_mset (tls_locks (lt_dd (sy_lt S t)))" and ?D = "sy_dd S"
  note inv = held_facts(1) [OF S] and h = held_facts(2-4) [OF S, of t]
  have n: "node_ok DDBV ?D (mx_id m)" using live by (simp add: live_id_def live_node_def)
  note ep = dl.epoch_ne [OF n]
  obtain xs tmp where f: "findPathToLock DDBV (mx_id m) 20 (\<lambda>i. 0) (?D, lt_dd (sy_lt S t)) =
      Some (Inr (map (\<lambda>i. of_nat i + current_epoch ?D) xs, ?D\<lparr>tmp_bv := tmp\<rparr>))"
    "if xs = [] then \<forall>ys. path_to ?E (idx (mx_id m)) ?H ys \<longrightarrow> 20 < length ys
     else length xs \<le> 20 \<and> path_to ?E (idx (mx_id m)) ?H xs \<and> (\<forall>ys. path_to ?E (idx (mx_id m)) ?H ys \<longrightarrow> length xs \<le> length ys)"
    using dl.findPathToLock_ok [OF inv h(1) e n free [unfolded idx_def], of 20 "\<lambda>i. 0"] unfolding idx_def by blast
  let ?S = "S\<lparr>sy_dd := ?D\<lparr>tmp_bv := tmp\<rparr>\<rparr>"
  have S': "det_inv ?S" using S by (simp add: set_tmp_ok)
  show ?thesis
  proof (cases "xs = []")
    case True
    then have "ReportDeadlock t p S = Some (Inr ?S)" using p f(1) by (simp add: ReportDeadlock_def Let_def)
    then show ?thesis using True f(2) S' by (intro exI [of _ ?S] exI [of _ xs]) (simp add: dd_E_def)
  next
    case False
    have P: "path_to ?E (idx (mx_id m)) ?H xs" and len: "length xs \<le> 20" using f(2) False by simp_all
    have x: "x < 4096 \<and> x \<notin> vacant (t_elems 1) (sy_dd ?S)" if "x \<in> set xs" for x
    proof -
      have "x \<in> Domain ?E \<union> ?H" using path_to_mem [OF P that] .
      moreover have "x < 4096" if "x \<in> ?H" using dl.held_lt [OF h(1), of x ?D] that e by (simp add: held_now_def size_DDBV)
      moreover have "x < 4096" if "(x, y) \<in> ?E" for y using that by (simp add: dd_E_def g_edges_def size_DDBV)
      moreover have "x \<notin> vacant (t_elems 1) ?D" if "x \<in> ?H" using h(3) that e by (auto simp: held_now_def)
      moreover have "x \<notin> vacant (t_elems 1) ?D" if "(x, y) \<in> ?E" for y using dl.invD(8) [OF inv that] by blast
      ultimately show ?thesis by (auto simp: vacant_def)
    qed
    obtain es where es: "report_loop ?S (map (\<lambda>i. of_nat i + current_epoch (sy_dd ?S)) xs) (length xs) = Inr es" "length es = length xs"
      "\<forall>j < length xs. \<exists>m0 m1. sy_mx ?S (dd_data (sy_dd ?S) (xs ! j)) = Some m0 \<and>
         sy_mx ?S (dd_data (sy_dd ?S) (xs ! (Suc j mod length xs))) = Some m1 \<and> r_mtx_ctx0 (es ! j) = mx_ctx m0 \<and> r_mtx_ctx1 (es ! j) = mx_ctx m1"
      using report_loop_ok [OF S' _ _ x order_refl [of "length xs"]] ep room by auto
    let ?S' = "?S\<lparr>sy_lt := (sy_lt S)(t := (sy_lt S t)\<lparr>report_pending := True, lt_rep := es\<rparr>)\<rparr>"
    have lts: "lts ?S' = lts S" by auto
    have "det_inv ?S'" using S' unfolding det_inv_def lts by (simp add: belongs_def live_id_def) blast
    moreover have "of_nat (hd xs) + current_epoch ?D = mx_id m"
      using P dl.node_split [OF n] by (simp add: path_to_def idx_def)
    then have "ReportDeadlock t p S = Some (Inr ?S')"
      using p f(1) False es(1) len by (simp add: ReportDeadlock_def Let_def hd_map)
    moreover have "cycle_report S xs es" using es(2,3) by (simp add: cycle_report_def)
    ultimately show ?thesis using False P len lts by (intro exI [of _ ?S'] exI [of _ xs]) (simp add: dd_E_def)
  qed
qed

section \<open>The operations\<close>

text \<open>Everything about the thread's edges that a lock event adds.\<close>

lemma path_new_edges:
  assumes "path_to (E \<union> H \<times> {i}) i H xs"
  shows "\<exists>h \<in> H. (i, h) \<in> E\<^sup>*"
proof (rule ccontr)
  assume n: "\<not> (\<exists>h \<in> H. (i, h) \<in> E\<^sup>*)"
  obtain h where "h \<in> H" "(i, h) \<in> (E \<union> H \<times> {i})\<^sup>*" using path_to_rtrancl [OF assms] by blast
  then show False using reach_new_edges [of H i E h] n by blast
qed

text \<open>The condition under which a thread that is about to lock gets a new report.\<close>

definition closes_cycle :: "ddet \<Rightarrow> nat \<Rightarrow> ddmutex \<Rightarrow> nat list \<Rightarrow> bool" where
  "closes_cycle S t m xs \<longleftrightarrow> (let H = held_now (sy_dd S) (lt_dd (sy_lt S t)); E = dd_E DDBV (t_elems 1) (sy_dd S) in
     belongs S m \<and> idx (mx_id m) \<notin># H \<and> (\<exists>h \<in># H. (h, idx (mx_id m)) \<notin> E) \<and>
     path_to (E \<union> set_mset H \<times> {idx (mx_id m)}) (idx (mx_id m)) (set_mset H) xs \<and> length xs \<le> 20)"

lemma before_lock_tail:
  assumes S: "det_inv S" and p: "sy_mx S p = Some m" and live: "live_id S (mx_id m)" and room: "unat (current_epoch (sy_dd S)) + 8192 \<le> 2 ^ 64"
    and d: "lt_dd (sy_lt S t) = dd_ensureCurrentEpoch DDBV (sy_dd S) d0" "tls_inv (t_ok 1) (t_elems 1) d0"
  defines "H \<equiv> held_now (sy_dd S) (lt_dd (sy_lt S t))" and "E \<equiv> dd_E DDBV (t_elems 1) (sy_dd S)"
  shows "\<exists>S'. bindo (Some (isHeld DDBV (mx_id m) (sy_dd S) (lt_dd (sy_lt S t)))) (\<lambda>held.
         if held then Some (Inr S)
         else bindo (onLockBefore DDBV (mx_id m) (sy_dd S, lt_dd (sy_lt S t))) (\<lambda>(r, D, d).
           let S = set_dd t D d S in
           if r then
             bindo (dd_addEdges DDBV (mx_id m) (cb_Unwind cb) (cb_UniqueTid cb) (D, d)) (\<lambda>(_, D, d).
             ReportDeadlock t p (set_dd t D d S))
           else Some (Inr S))) = Some (Inr S') \<and> det_inv S' \<and>
    (if idx (mx_id m) \<notin># H \<and> (\<exists>ys. path_to (E \<union> set_mset H \<times> {idx (mx_id m)}) (idx (mx_id m)) (set_mset H) ys \<and> length ys \<le> 20)
     then \<exists>xs. path_to (E \<union> set_mset H \<times> {idx (mx_id m)}) (idx (mx_id m)) (set_mset H) xs \<and> length xs \<le> 20 \<and>
        report_pending (sy_lt S' t) \<and> cycle_report S xs (lt_rep (sy_lt S' t))
     else report_pending (sy_lt S' t) = report_pending (sy_lt S t) \<and> lt_rep (sy_lt S' t) = lt_rep (sy_lt S t))"
proof -
  let ?d = "lt_dd (sy_lt S t)" and ?i = "idx (mx_id m)" and ?E' = "E \<union> set_mset H \<times> {idx (mx_id m)}"
  note inv = held_facts(1) [OF S] and h = held_facts(2-4) [OF S, of t]
  have n: "node_ok DDBV (sy_dd S) (mx_id m)" using live by (simp add: live_id_def live_node_def)
  have dd: "dd_ensureCurrentEpoch DDBV (sy_dd S) ?d = ?d" using dl.held_ensure(5) [OF d(2)] d(1) by simp
  have e: "tls_epoch ?d = current_epoch (sy_dd S)" using dl.held_ensure(2) [OF d(2)] d(1) by simp
  have H: "tls_locks ?d = H" using e by (simp add: H_def held_now_def)
  have held: "isHeld DDBV (mx_id m) (sy_dd S) ?d = Inr (?i \<in># H)" using dl.isHeld_ok [OF h(1) n] dd by (simp add: idx_def H_def)
  show ?thesis
  proof (cases "?i \<in># H")
    case True
    then show ?thesis using held S by simp
  next
    case False
    obtain g where g: "onLockBefore DDBV (mx_id m) (sy_dd S, ?d) = Some (Inr ((\<exists>h \<in># H. (?i, h) \<in> E\<^sup>*), (sy_dd S)\<lparr>dd_g := g\<rparr>, ?d))"
      "gv g = gv (dd_g (sy_dd S))"
      using dl.onLockBefore_ok [OF inv h(1) n] dd unfolding H_def E_def idx_def by auto
    note same = dl.same_rows [OF g(2)]
    let ?D1 = "(sy_dd S)\<lparr>dd_g := g\<rparr>"
    let ?S1 = "set_dd t ?D1 ?d S"
    have S1: "det_inv ?S1" by (rule set_dd_ok [OF S]) (use same inv h in \<open>simp_all add: vacant_def\<close>)
    show ?thesis
    proof (cases "\<exists>h \<in># H. (?i, h) \<in> E\<^sup>*")
      case r: False
      then have "\<not> (\<exists>ys. path_to ?E' ?i (set_mset H) ys \<and> length ys \<le> 20)" using path_new_edges by blast
      then show ?thesis using held False g(1) r S1 by (intro exI [of _ ?S1]) auto
    next
      case r: True
      have live1: "live_node DDBV (t_elems 1) ?D1 (mx_id m)" using live same(4) by (simp add: live_id_def)
      have hv: "set_mset (held_now ?D1 ?d) \<inter> vacant (t_elems 1) ?D1 = {}" using h(3) same(3,5) by simp
      obtain k D2 where D2: "dd_addEdges DDBV (mx_id m) (cb_Unwind cb) (cb_UniqueTid cb) (?D1, ?d) = Some (Inr (k, D2, ?d))"
        "dd_inv DDBV (t_ok 1) (t_elems 1) D2" "dd_E DDBV (t_elems 1) D2 = ?E'" "vacant (t_elems 1) D2 = vacant (t_elems 1) (sy_dd S)"
        "current_epoch D2 = current_epoch (sy_dd S)" "dd_data D2 = dd_data (sy_dd S)"
        using dl.dd_addEdges_ok [of ?D1 ?d "mx_id m" "cb_Unwind cb" "cb_UniqueTid cb", unfolded same dd, OF inv h(1) _ h(3)]
          live unfolding live_id_def idx_def H_def E_def by auto
      let ?S2 = "set_dd t D2 ?d ?S1"
      have S2: "det_inv ?S2"
        by (rule set_dd_ok [OF S1]) (use D2 h same in \<open>simp_all add: vacant_def held_now_def\<close>)
      have live2: "live_id ?S2 (mx_id m)" using live D2(4,5) by (simp add: live_id_def live_node_def node_ok_def)
      have p2: "sy_mx ?S2 p = Some m" using p by simp
      have room2: "unat (current_epoch (sy_dd ?S2)) + 8192 \<le> 2 ^ 64" using room D2(5) by simp
      have e2: "tls_epoch (lt_dd (sy_lt ?S2 t)) = current_epoch (sy_dd ?S2)" "?i \<notin># tls_locks (lt_dd (sy_lt ?S2 t))"
        using e D2(5) False H by simp_all
      have q: "dd_E DDBV (t_elems 1) (sy_dd ?S2) = ?E'" "tls_locks (lt_dd (sy_lt ?S2 t)) = H"
        "report_pending (sy_lt ?S2 t) = report_pending (sy_lt S t)" "lt_rep (sy_lt ?S2 t) = lt_rep (sy_lt S t)"
        using D2(3) H by simp_all
      obtain S' xs where R: "ReportDeadlock t p ?S2 = Some (Inr S')" "det_inv S'"
        "if xs = [] then (\<forall>ys. path_to ?E' ?i (set_mset H) ys \<longrightarrow> 20 < length ys) \<and>
            report_pending (sy_lt S' t) = report_pending (sy_lt S t) \<and> lt_rep (sy_lt S' t) = lt_rep (sy_lt S t)
         else length xs \<le> 20 \<and> path_to ?E' ?i (set_mset H) xs \<and> report_pending (sy_lt S' t) \<and> cycle_report ?S2 xs (lt_rep (sy_lt S' t))"
        using report_ok [OF S2 p2 live2 room2 e2, unfolded q] by blast
      have "cycle_report ?S2 xs es = cycle_report S xs es" for es by (simp add: cycle_report_def D2(6))
      then show ?thesis using held False g(1) r D2(1) R by (intro exI [of _ S']) (auto simp: Let_def split: if_splits)
    qed
  qed
qed

lemma before_lock_ok:
  assumes S: "det_inv S" and p: "sy_mx S p = Some m" and room: "unat (current_epoch (sy_dd S)) + 8192 \<le> 2 ^ 64"
  shows "\<exists>S'. MutexBeforeLock cb t p S = Some (Inr S') \<and> det_inv S' \<and>
    (if \<exists>xs. closes_cycle S t m xs
     then \<exists>xs. closes_cycle S t m xs \<and> report_pending (sy_lt S' t) \<and> cycle_report S xs (lt_rep (sy_lt S' t))
     else report_pending (sy_lt S' t) = report_pending (sy_lt S t) \<and> lt_rep (sy_lt S' t) = lt_rep (sy_lt S t))"
proof -
  let ?d = "lt_dd (sy_lt S t)"
  let ?H = "held_now (sy_dd S) ?d" and ?E = "dd_E DDBV (t_elems 1) (sy_dd S)" and ?i = "idx (mx_id m)"
  note inv = held_facts(1) [OF S] and h = held_facts(2-4) [OF S, of t]
  have all: "hasAllEdges DDBV (mx_id m) (sy_dd S) ?d = Inr (mx_id m \<noteq> 0 \<and> tls_epoch ?d = current_epoch (sy_dd S) \<and>
      tls_epoch ?d = nodeToEpoch DDBV (mx_id m) \<and> (\<forall>l \<in># tls_locks ?d. (l, ?i) \<in> ?E))"
    using dl.hasAllEdges_ok [OF inv h(1)] by (simp add: idx_def)
  have bel: "belongs S m \<longleftrightarrow> mx_id m \<noteq> 0 \<and> nodeToEpoch DDBV (mx_id m) = current_epoch (sy_dd S)"
    by (simp add: belongs_def nodeBelongsToCurrentEpoch_def nodeToEpoch_def)
  have emp: "tls_empty DDBV ?d \<longleftrightarrow> tls_locks ?d = {#}"
    using dl.tls_set_locks [OF h(1)] two.empty [of 1 "tls_bv ?d"] h(1) by (auto simp: tls_empty_def tls_inv_def)
  show ?thesis
  proof (cases "tls_empty DDBV ?d \<or> hasAllEdges DDBV (mx_id m) (sy_dd S) ?d = Inr True")
    case True
    then have "\<not> closes_cycle S t m xs" for xs
      using emp unfolding all closes_cycle_def Let_def held_now_def by (auto split: if_splits)
    moreover have "MutexBeforeLock cb t p S = Some (Inr S)" using True p all by (auto simp: MutexBeforeLock_def Let_def)
    ultimately show ?thesis using S by auto
  next
    case False
    then have ne: "\<not> tls_empty DDBV ?d" "hasAllEdges DDBV (mx_id m) (sy_dd S) ?d = Inr False" using all by auto
    obtain S1 m1 where 1: "MutexEnsureID t p S = Inr S1" "det_inv S1" "sy_mx S1 p = Some m1" "live_id S1 (mx_id m1)"
      "lt_dd (sy_lt S1 t) = dd_ensureCurrentEpoch DDBV (sy_dd S1) ?d" "report_pending (sy_lt S1 t) = report_pending (sy_lt S t)"
      "lt_rep (sy_lt S1 t) = lt_rep (sy_lt S t)"
      "if belongs S m then m1 = m \<and> sy_dd S1 = sy_dd S \<and> sy_mx S1 = sy_mx S
       else idx (mx_id m1) \<notin># held_now (sy_dd S1) (lt_dd (sy_lt S1 t)) \<and> (\<forall>x. (idx (mx_id m1), x) \<notin> dd_E DDBV (t_elems 1) (sy_dd S1))"
      using ensureID_ok [OF S p room] by blast
    have room1: "unat (current_epoch (sy_dd S1)) + 8192 \<le> 2 ^ 64" if "belongs S m" using 1(8) that room by simp
    have run: "MutexBeforeLock cb t p S = bindo (Some (isHeld DDBV (mx_id m1) (sy_dd S1) (lt_dd (sy_lt S1 t)))) (\<lambda>held.
         if held then Some (Inr S1)
         else bindo (onLockBefore DDBV (mx_id m1) (sy_dd S1, lt_dd (sy_lt S1 t))) (\<lambda>(r, D, d).
           let S = set_dd t D d S1 in
           if r then
             bindo (dd_addEdges DDBV (mx_id m1) (cb_Unwind cb) (cb_UniqueTid cb) (D, d)) (\<lambda>(_, D, d).
             ReportDeadlock t p (set_dd t D d S))
           else Some (Inr S)))"
      using ne p 1(1,3) by (simp add: MutexBeforeLock_def Let_def)
    show ?thesis
    proof (cases "belongs S m")
      case True
      then have s: "m1 = m" "sy_dd S1 = sy_dd S" "sy_mx S1 = sy_mx S" using 1(8) by simp_all
      have Hs: "held_now (sy_dd S) (lt_dd (sy_lt S1 t)) = ?H" using dl.held_now_ensure [OF h(1)] 1(5) s(2) by simp
      have some: "\<exists>l \<in># ?H. (l, ?i) \<notin> ?E" if "path_to (?E \<union> set_mset ?H \<times> {?i}) ?i (set_mset ?H) ys" for ys
      proof -
        have "?H \<noteq> {#}" using path_to_rtrancl [OF that] by auto
        then have "tls_epoch ?d = current_epoch (sy_dd S)" "?H = tls_locks ?d" by (simp_all add: held_now_def split: if_splits)
        then show ?thesis using ne(2) True bel unfolding all by auto
      qed
      have cc: "closes_cycle S t m ys \<longleftrightarrow> ?i \<notin># ?H \<and> path_to (?E \<union> set_mset ?H \<times> {?i}) ?i (set_mset ?H) ys \<and> length ys \<le> 20" for ys
        using True some by (auto simp: closes_cycle_def Let_def)
      have cr: "cycle_report S1 = cycle_report S" by (intro ext) (simp add: cycle_report_def s)
      let ?C = "\<lambda>ys. path_to (?E \<union> set_mset ?H \<times> {?i}) ?i (set_mset ?H) ys \<and> length ys \<le> 20"
      from before_lock_tail [OF 1(2,3,4) room1 [OF True] 1(5) h(1), of cb, folded run, unfolded s(1,2) Hs cr 1(6,7)]
      obtain S' where R: "MutexBeforeLock cb t p S = Some (Inr S')" "det_inv S'"
        "if ?i \<notin># ?H \<and> (\<exists>ys. ?C ys)
         then \<exists>xs. path_to (?E \<union> set_mset ?H \<times> {?i}) ?i (set_mset ?H) xs \<and> length xs \<le> 20 \<and>
            report_pending (sy_lt S' t) \<and> cycle_report S xs (lt_rep (sy_lt S' t))
         else report_pending (sy_lt S' t) = report_pending (sy_lt S t) \<and> lt_rep (sy_lt S' t) = lt_rep (sy_lt S t)"
        by (elim exE conjE) (rule that, assumption+)
      show ?thesis
      proof (cases "?i \<notin># ?H \<and> (\<exists>ys. ?C ys)")
        case True
        then show ?thesis using R unfolding cc by (intro exI [of _ S']) auto
      next
        case False
        then have "\<not> (\<exists>xs. closes_cycle S t m xs)" unfolding cc by blast
        then show ?thesis using R False by (intro exI [of _ S']) simp
      qed
    next
      case nb: False
      have nc: "\<not> closes_cycle S t m xs" for xs using nb by (simp add: closes_cycle_def Let_def)
      let ?H1 = "held_now (sy_dd S1) (lt_dd (sy_lt S1 t))" and ?E1 = "dd_E DDBV (t_elems 1) (sy_dd S1)" and ?i1 = "idx (mx_id m1)"
      have fresh: "?i1 \<notin># ?H1" "(?i1, x) \<notin> ?E1" for x using 1(8) nb by simp_all
      have "(?i1, x) \<in> ?E1\<^sup>* \<Longrightarrow> x = ?i1" for x by (induction rule: rtrancl_induct) (use fresh(2) in auto)
      then have no: "\<not> (\<exists>h \<in># ?H1. (?i1, h) \<in> ?E1\<^sup>*)" using fresh(1) by blast
      have n1: "node_ok DDBV (sy_dd S1) (mx_id m1)" using 1(4) by (simp add: live_id_def live_node_def)
      note h1 = held_facts(2-4) [OF 1(2), of t]
      have dd: "dd_ensureCurrentEpoch DDBV (sy_dd S1) (lt_dd (sy_lt S1 t)) = lt_dd (sy_lt S1 t)" using dl.held_ensure(5) [OF h(1)] 1(5) by simp
      have held: "isHeld DDBV (mx_id m1) (sy_dd S1) (lt_dd (sy_lt S1 t)) = Inr False"
        using dl.isHeld_ok [OF h1(1) n1] dd fresh(1) by (simp add: idx_def)
      obtain g where g: "onLockBefore DDBV (mx_id m1) (sy_dd S1, lt_dd (sy_lt S1 t)) = Some (Inr (False, (sy_dd S1)\<lparr>dd_g := g\<rparr>, lt_dd (sy_lt S1 t)))"
        "gv g = gv (dd_g (sy_dd S1))"
        using dl.onLockBefore_ok [OF held_facts(1) [OF 1(2)] h1(1) n1] dd no unfolding idx_def by auto
      note same = dl.same_rows [OF g(2)]
      have "det_inv (set_dd t ((sy_dd S1)\<lparr>dd_g := g\<rparr>) (lt_dd (sy_lt S1 t)) S1)"
        by (rule set_dd_ok [OF 1(2)]) (use same held_facts(1) [OF 1(2)] h1 in \<open>simp_all add: vacant_def\<close>)
      then show ?thesis using nc run held g(1) 1(6,7) by simp
    qed
  qed
qed

lemma set_dd_same [simp]: "set_dd t (sy_dd S) (lt_dd (sy_lt S t)) S = S"
  by (simp add: set_dd_def)

lemma belongs_iff: "belongs S m \<longleftrightarrow> mx_id m \<noteq> 0 \<and> nodeToEpoch DDBV (mx_id m) = current_epoch (sy_dd S)"
  by (simp add: belongs_def nodeBelongsToCurrentEpoch_def nodeToEpoch_def)

lemma own_lock_ok:
  assumes S: "det_inv S" and p: "sy_mx S p = Some m" and d: "tls_inv (t_ok 1) (t_elems 1) d" "tls_epoch d = nodeToEpoch DDBV (mx_id m)"
    "tls_epoch d = current_epoch (sy_dd S) \<Longrightarrow> mx_id m \<noteq> 0"
    and l: "set_mset (tls_locks d) \<subseteq> insert (idx (mx_id m)) (set_mset (held_now (sy_dd S) (lt_dd (sy_lt S t))))"
  shows "det_inv (set_dd t (sy_dd S) d S)"
proof (rule set_dd_ok [OF S held_facts(1) [OF S] refl refl refl d(1)])
  show "tls_epoch d \<le> current_epoch (sy_dd S)" using det_invD(5) [OF S p] d(2) by simp
  show "set_mset (held_now (sy_dd S) d) \<inter> vacant (t_elems 1) (sy_dd S) = {}"
  proof (cases "tls_epoch d = current_epoch (sy_dd S)")
    case True
    then have "belongs S m" using d(2,3) by (simp add: belongs_iff)
    then have "idx (mx_id m) \<notin> vacant (t_elems 1) (sy_dd S)" using det_invD(2) [OF S p] by (simp add: live_id_def live_node_def idx_def)
    then show ?thesis using l held_facts(4) [OF S, of t] True by (auto simp: held_now_def)
  qed (simp add: held_now_def)
qed

lemma add_edges_ok:
  assumes S: "det_inv S" and live: "live_id S node" and d: "dd_ensureCurrentEpoch DDBV (sy_dd S) (lt_dd (sy_lt S t)) = lt_dd (sy_lt S t)"
  shows "\<exists>k D. dd_addEdges DDBV node stk tid (sy_dd S, lt_dd (sy_lt S t)) = Some (Inr (k, D, lt_dd (sy_lt S t))) \<and>
    det_inv (set_dd t D (lt_dd (sy_lt S t)) S) \<and> current_epoch D = current_epoch (sy_dd S) \<and> vacant (t_elems 1) D = vacant (t_elems 1) (sy_dd S)"
proof -
  note h = held_facts(2-4) [OF S, of t]
  obtain k D where D: "dd_addEdges DDBV node stk tid (sy_dd S, lt_dd (sy_lt S t)) = Some (Inr (k, D, lt_dd (sy_lt S t)))"
    "dd_inv DDBV (t_ok 1) (t_elems 1) D" "vacant (t_elems 1) D = vacant (t_elems 1) (sy_dd S)" "current_epoch D = current_epoch (sy_dd S)"
    "dd_data D = dd_data (sy_dd S)"
    using dl.dd_addEdges_ok [OF held_facts(1) [OF S] h(1) live [unfolded live_id_def] h(3), of stk tid] unfolding d by blast
  then show ?thesis using set_dd_ok [OF S D(2,4,3,5) h] by blast
qed

lemma lock_after_ok:
  assumes S: "det_inv S" and live: "live_id S node" and room: "n_all_locks (lt_dd (sy_lt S t)) < 64" "n_recursive_locks (lt_dd (sy_lt S t)) < 64"
  shows "\<exists>d. onLockAfter DDBV node stk (sy_dd S) (lt_dd (sy_lt S t)) = Inr d \<and> det_inv (set_dd t (sy_dd S) d S)"
proof -
  note h = held_facts(2-4) [OF S, of t]
  have n: "node_ok DDBV (sy_dd S) node" and v: "idx node \<notin> vacant (t_elems 1) (sy_dd S)" using live by (simp_all add: live_id_def live_node_def idx_def)
  have "lock_room DDBV node (sy_dd S) (lt_dd (sy_lt S t))" using room by (simp add: lock_room_def)
  from dl.onLockAfter_ok [OF h(1) n this, of stk] obtain d where d: "onLockAfter DDBV node stk (sy_dd S) (lt_dd (sy_lt S t)) = Inr d"
    "tls_inv (t_ok 1) (t_elems 1) d" "tls_epoch d = current_epoch (sy_dd S)" "tls_locks d = add_mset (idx node) (held_now (sy_dd S) (lt_dd (sy_lt S t)))"
    unfolding idx_def by blast
  have "det_inv (set_dd t (sy_dd S) d S)"
    by (rule set_dd_ok [OF S held_facts(1) [OF S] refl refl refl d(2)]) (use d(3,4) h(3) v in \<open>auto simp: held_now_def\<close>)
  then show ?thesis using d(1) by blast
qed

lemma ensure_room:
  assumes "n_all_locks d < 64" "n_recursive_locks d < 64"
  shows "n_all_locks (dd_ensureCurrentEpoch B D d) < 64" "n_recursive_locks (dd_ensureCurrentEpoch B D d) < 64"
  using assms by (simp_all add: dd_ensureCurrentEpoch_def tls_ensureCurrentEpoch_def)

lemma after_lock_ok:
  assumes S: "det_inv S" and p: "sy_mx S p = Some m" and room: "unat (current_epoch (sy_dd S)) + 8192 \<le> 2 ^ 64"
    and tr: "n_all_locks (lt_dd (sy_lt S t)) < 64" "n_recursive_locks (lt_dd (sy_lt S t)) < 64"
    and w: "wlock \<Longrightarrow> belongs S m \<Longrightarrow> idx (mx_id m) \<notin># held_now (sy_dd S) (lt_dd (sy_lt S t))"
  shows "\<exists>S'. MutexAfterLock cb t p wlock trylock S = Some (Inr S') \<and> det_inv S'"
proof -
  let ?stk = "if second_deadlock_stack S then cb_Unwind cb else 0" and ?d = "lt_dd (sy_lt S t)"
  note h = held_facts(2-4) [OF S, of t]
  obtain b1 d1 where F: "onFirstLock DDBV (mx_id m) ?stk ?d = Inr (b1, d1)" "tls_inv (t_ok 1) (t_elems 1) d1" "tls_epoch d1 = tls_epoch ?d"
    "if b1 then tls_locks ?d = {#} \<and> tls_locks d1 = {#idx (mx_id m)#} \<and> tls_epoch ?d = nodeToEpoch DDBV (mx_id m) \<and> tls_epoch ?d \<noteq> 0 else d1 = ?d"
    using dl.onFirstLock_ok [OF h(1), of "mx_id m" ?stk] unfolding idx_def by blast
  obtain b2 d2 where G: "onLockFast DDBV (mx_id m) ?stk (sy_dd S) ?d = Inr (b2, d2)" "tls_inv (t_ok 1) (t_elems 1) d2" "tls_epoch d2 = tls_epoch ?d"
    "if b2 then mx_id m \<noteq> 0 \<and> tls_epoch ?d = current_epoch (sy_dd S) \<and> tls_epoch ?d = nodeToEpoch DDBV (mx_id m) \<and>
       tls_locks d2 = add_mset (idx (mx_id m)) (tls_locks ?d) else d2 = ?d"
    using dl.onLockFast_ok [OF held_facts(1) [OF S] h(1) tr, of "mx_id m" ?stk] unfolding idx_def by blast
  consider (first) b1 | (fast) "\<not> b1" b2 | (slow) "\<not> b1" "\<not> b2" by blast
  then show ?thesis
  proof cases
    case first
    then have f: "tls_locks d1 = {#idx (mx_id m)#}" "tls_epoch d1 = nodeToEpoch DDBV (mx_id m)" "tls_epoch d1 \<noteq> 0" using F(3,4) by auto
    then have "mx_id m \<noteq> 0" by (auto simp: nodeToEpoch_def)
    then have "det_inv (set_dd t (sy_dd S) d1 S)" using own_lock_ok [OF S p F(2) f(2), of t] f(1) by simp
    then show ?thesis using p F(1) first by (simp add: MutexAfterLock_def Let_def)
  next
    case fast
    then have f: "tls_locks d2 = add_mset (idx (mx_id m)) (tls_locks ?d)" "tls_epoch d2 = nodeToEpoch DDBV (mx_id m)" "mx_id m \<noteq> 0"
      "tls_epoch ?d = current_epoch (sy_dd S)" using G(3,4) by auto
    then have "det_inv (set_dd t (sy_dd S) d2 S)" using own_lock_ok [OF S p G(2) f(2), of t] by (auto simp: held_now_def)
    then show ?thesis using p F(1,4) G(1) fast by (simp add: MutexAfterLock_def Let_def)
  next
    case slow
    obtain S1 m1 where e: "MutexEnsureID t p S = Inr S1" "det_inv S1" "sy_mx S1 p = Some m1" "live_id S1 (mx_id m1)"
      "lt_dd (sy_lt S1 t) = dd_ensureCurrentEpoch DDBV (sy_dd S1) ?d"
      "if belongs S m then m1 = m \<and> sy_dd S1 = sy_dd S \<and> sy_mx S1 = sy_mx S
       else idx (mx_id m1) \<notin># held_now (sy_dd S1) (lt_dd (sy_lt S1 t)) \<and> (\<forall>x. (idx (mx_id m1), x) \<notin> dd_E DDBV (t_elems 1) (sy_dd S1))"
      using ensureID_ok [OF S p room] by blast
    let ?d1 = "lt_dd (sy_lt S1 t)"
    have dd: "dd_ensureCurrentEpoch DDBV (sy_dd S1) ?d1 = ?d1" using dl.held_ensure(5) [OF h(1)] e(5) by simp
    have n1: "node_ok DDBV (sy_dd S1) (mx_id m1)" using e(4) by (simp add: live_id_def live_node_def)
    have held: "isHeld DDBV (mx_id m1) (sy_dd S1) ?d1 = Inr (idx (mx_id m1) \<in># held_now (sy_dd S1) ?d1)"
      using dl.isHeld_ok [OF held_facts(2) [OF e(2), of t] n1] dd by (simp add: idx_def)
    have "held_now (sy_dd S1) ?d1 = held_now (sy_dd S1) ?d" using dl.held_now_ensure [OF h(1)] e(5) by simp
    then have nh: "wlock \<Longrightarrow> idx (mx_id m1) \<notin># held_now (sy_dd S1) ?d1" using w e(6) by (cases "belongs S m") auto
    obtain D2 where D2: "det_inv (set_dd t D2 ?d1 S1)" "current_epoch D2 = current_epoch (sy_dd S1)" "vacant (t_elems 1) D2 = vacant (t_elems 1) (sy_dd S1)"
      "(if \<not> trylock then bindo (dd_addEdges DDBV (mx_id m1) (if ?stk \<noteq> 0 then ?stk else cb_Unwind cb) (cb_UniqueTid cb)
            (sy_dd S1, ?d1)) (\<lambda>(_, D, d). Some (Inr (set_dd t D d S1))) else Some (Inr S1)) = Some (Inr (set_dd t D2 ?d1 S1))"
    proof (cases trylock)
      case True
      then show thesis using that [of "sy_dd S1"] e(2) by simp
    next
      case False
      then show thesis
        using add_edges_ok [OF e(2,4) dd, of "if ?stk \<noteq> 0 then ?stk else cb_Unwind cb" "cb_UniqueTid cb"] that by (auto split del: if_split)
    qed
    let ?S2 = "set_dd t D2 ?d1 S1"
    have live2: "live_id ?S2 (mx_id m1)" using e(4) D2(2,3) by (simp add: live_id_def live_node_def node_ok_def)
    have room2: "n_all_locks (lt_dd (sy_lt ?S2 t)) < 64" "n_recursive_locks (lt_dd (sy_lt ?S2 t)) < 64"
      using ensure_room [OF tr] e(5) by simp_all
    obtain d3 where d3: "onLockAfter DDBV (mx_id m1) ?stk D2 ?d1 = Inr d3" "det_inv (set_dd t D2 d3 ?S2)"
      using lock_after_ok [OF D2(1) live2 room2, of ?stk] by auto
    have "MutexAfterLock cb t p wlock trylock S = Some (Inr (set_dd t D2 d3 ?S2))"
      using p F(1,4) G(1,4) slow e(1,3) held nh D2(4) d3(1)
      by (simp add: MutexAfterLock_def Let_def split del: if_split) (simp split: if_split)
    then show ?thesis using d3(2) by blast
  qed
qed

lemma init_ok:
  assumes S: "det_inv S" and p: "sy_mx S p = Some m"
  shows "det_inv (set_mx p (m\<lparr>mx_id := 0, mx_stk := k\<rparr>) S)" (is "det_inv ?S")
proof -
  have b: "belongs ?S m' = belongs S m'" "live_id ?S n = live_id S n" "sy_dd ?S = sy_dd S" "lts ?S = lts S" for m' n
    by (simp_all add: belongs_def live_id_def set_mx_def)
  have q: "q \<noteq> p \<and> sy_mx S q = Some m'" if "sy_mx ?S q = Some m'" "belongs S m'" for q m'
    using that by (auto simp: set_mx_def belongs_iff split: if_splits)
  have n: "nodeToEpoch DDBV (mx_id m') \<le> current_epoch (sy_dd S)" if "sy_mx ?S q = Some m'" for q m'
    using that det_invD(5) [OF S] by (cases "q = p") (auto simp: set_mx_def nodeToEpoch_def)
  show ?thesis
    unfolding det_inv_def b
  proof (intro conjI allI impI)
    fix q m'
    show "sy_mx ?S q = Some m' \<and> belongs S m' \<Longrightarrow> live_id S (mx_id m')" using q det_invD(2) [OF S] by blast
  next
    fix q r m1 m2
    assume a: "sy_mx ?S q = Some m1 \<and> sy_mx ?S r = Some m2 \<and> belongs S m1 \<and> mx_id m1 = mx_id m2"
    then have "belongs S m2" unfolding belongs_iff by metis
    then show "q = r" using a q [of q m1] q [of r m2] det_invD(3) [OF S] by blast
  next
    fix i
    assume "i < 4096 \<and> i \<notin> vacant (t_elems 1) (sy_dd S) \<and> current_epoch (sy_dd S) \<noteq> 0"
    then show "sy_mx ?S (dd_data (sy_dd S) i) \<noteq> None" using det_invD(4) [OF S] by (simp add: set_mx_def)
  qed (use det_invD(1) [OF S] n in auto)
qed

lemma unlock_ok:
  assumes S: "det_inv S" and p: "sy_mx S p = Some m"
  shows "\<exists>S'. MutexBeforeUnlock t p S = Inr S' \<and> det_inv S'"
proof -
  note h = held_facts(2-4) [OF S, of t]
  obtain d where d: "onUnlock DDBV (mx_id m) (lt_dd (sy_lt S t)) = Inr d" "tls_inv (t_ok 1) (t_elems 1) d"
    "tls_epoch d = tls_epoch (lt_dd (sy_lt S t))" "tls_locks d \<subseteq># tls_locks (lt_dd (sy_lt S t))"
    using dl.onUnlock_ok [OF h(1), of "mx_id m"] by (auto split: if_splits)
  have "set_mset (held_now (sy_dd S) d) \<subseteq> set_mset (held_now (sy_dd S) (lt_dd (sy_lt S t)))"
    using d(3) set_mset_mono [OF d(4)] by (simp add: held_now_def)
  then have "set_mset (held_now (sy_dd S) d) \<inter> vacant (t_elems 1) (sy_dd S) = {}" using h(3) by blast
  with set_dd_ok [OF S held_facts(1) [OF S] refl refl refl d(2)] d(3) h(2) have "det_inv (set_dd t (sy_dd S) d S)" by simp
  then show ?thesis using p d(1) by (simp add: MutexBeforeUnlock_def)
qed

lemma destroy_ok:
  assumes S: "det_inv S" and p: "sy_mx S p = Some m"
    and free: "belongs S m \<Longrightarrow> \<forall>u. idx (mx_id m) \<notin># held_now (sy_dd S) (lt_dd (sy_lt S u))"
  shows "\<exists>S'. MutexDestroy p S = Inr S' \<and> det_inv S'"
proof (cases "belongs S m")
  case False
  have "m\<lparr>mx_id := 0\<rparr> = m\<lparr>mx_id := 0, mx_stk := mx_stk m\<rparr>" by simp
  then have "det_inv (set_mx p (m\<lparr>mx_id := 0\<rparr>) S)" using init_ok [OF S p, of "mx_stk m"] by simp
  then show ?thesis using S p False by (simp add: MutexDestroy_def belongs_def)
next
  case True
  note live = det_invD(2) [OF S p True]
  obtain D where D: "removeNode DDBV (mx_id m) (sy_dd S) = Inr D" "current_epoch D = current_epoch (sy_dd S)" "dd_data D = dd_data (sy_dd S)"
    "vacant (t_elems 1) D = insert (idx (mx_id m)) (vacant (t_elems 1) (sy_dd S))"
    using dl.removeNode_ok [OF held_facts(1) [OF S] live [unfolded live_id_def]] unfolding idx_def by blast
  have sys: "sys_inv DDBV (t_ok 1) (t_elems 1) (D, lts S)"
    using dl.step_remove [OF det_invD(1) [OF S], of "mx_id m"] D(1) live free [OF True] by (simp add: live_id_def idx_def)
  let ?S = "set_mx p (m\<lparr>mx_id := 0\<rparr>) (S\<lparr>sy_dd := D\<rparr>)"
  have b: "belongs ?S m' = belongs S m'" for m' by (simp add: belongs_iff D(2) set_mx_def)
  have q: "q \<noteq> p \<and> sy_mx S q = Some m'" if "sy_mx ?S q = Some m'" "belongs S m'" for q m'
    using that by (auto simp: set_mx_def belongs_iff split: if_splits)
  have "det_inv ?S"
    unfolding det_inv_def b
  proof (intro conjI allI impI)
    show "sys_inv DDBV (t_ok 1) (t_elems 1) (sy_dd ?S, lts ?S)" using sys by (simp add: set_mx_def)
  next
    fix q m'
    assume a: "sy_mx ?S q = Some m' \<and> belongs S m'"
    then have m': "q \<noteq> p" "sy_mx S q = Some m'" "belongs S m'" using q by blast+
    have l': "live_id S (mx_id m')" using det_invD(2) [OF S m'(2,3)] .
    have "idx (mx_id m') \<noteq> idx (mx_id m)"
    proof
      assume i: "idx (mx_id m') = idx (mx_id m)"
      have "node_ok DDBV (sy_dd S) (mx_id m)" "node_ok DDBV (sy_dd S) (mx_id m')" using live l' by (simp_all add: live_id_def live_node_def)
      from this [THEN dl.node_split] have "mx_id m = mx_id m'" using i unfolding idx_def by metis
      from det_invD(3) [OF S p m'(2) True this] show False using m'(1) by simp
    qed
    then show "live_id ?S (mx_id m')" using l' D(2,4) by (simp add: live_id_def live_node_def node_ok_def idx_def set_mx_def)
  next
    fix q r m1 m2
    assume a: "sy_mx ?S q = Some m1 \<and> sy_mx ?S r = Some m2 \<and> belongs S m1 \<and> mx_id m1 = mx_id m2"
    then have "belongs S m2" unfolding belongs_iff by metis
    then show "q = r" using a q [of q m1] q [of r m2] det_invD(3) [OF S] by blast
  next
    fix i
    assume "i < 4096 \<and> i \<notin> vacant (t_elems 1) (sy_dd ?S) \<and> current_epoch (sy_dd ?S) \<noteq> 0"
    then show "sy_mx ?S (dd_data (sy_dd ?S) i) \<noteq> None" using det_invD(4) [OF S, of i] D(2-4) by (simp add: set_mx_def)
  next
    fix q m'
    assume "sy_mx ?S q = Some m'"
    then show "nodeToEpoch DDBV (mx_id m') \<le> current_epoch (sy_dd ?S)"
      using det_invD(5) [OF S] D(2) by (cases "q = p") (auto simp: set_mx_def nodeToEpoch_def)
  qed
  moreover have "mx_id m \<noteq> 0" using True by (simp add: belongs_iff)
  ultimately show ?thesis using p D(1) True by (simp add: MutexDestroy_def belongs_def)
qed

lemma get_report_ok: "det_inv S \<Longrightarrow> det_inv (snd (GetReport t S))"
proof -
  assume S: "det_inv S"
  let ?S = "S\<lparr>sy_lt := (sy_lt S)(t := (sy_lt S t)\<lparr>report_pending := False\<rparr>)\<rparr>"
  have "lts ?S = lts S" "belongs ?S m = belongs S m" "live_id ?S n = live_id S n" for m n by (auto simp: belongs_def live_id_def)
  then have "det_inv ?S" using S unfolding det_inv_def by auto
  then show "det_inv (snd (GetReport t S))" using S by (simp add: GetReport_def)
qed

text \<open>The state after the creation of the detector and of the threads, with mutexes that have no id.\<close>

lemma det_init:
  assumes "\<And>p m. sy_mx S p = Some m \<Longrightarrow> mx_id m = 0" "sy_dd S = dd_clear DDBV D" "\<And>u. lt_dd (sy_lt S u) = tls_clear DDBV (ds u)"
  shows "det_inv S"
proof -
  have "sys_inv DDBV (t_ok 1) (t_elems 1) (sy_dd S, lts S)" using dl.sys_init [of D ds] assms(2,3) by simp
  then show ?thesis using assms(1,2) unfolding det_inv_def by (auto simp: belongs_iff dd_clear_def nodeToEpoch_def)
qed

section \<open>The properties\<close>

text \<open>
  C25. The events of the mutexes, for any threads and mutexes that keep the rules, run to their end without a failing check or
  an access through a bad pointer, and keep the invariant: ids of the current epoch are nodes in use, two mutexes never share one, and the data of each node
  in use is a mutex. The rules: a thread locks at most 64 mutexes at a time, a mutex locked for writing is not held already, and no mutex is destroyed
  that a thread holds.
\<close>

theorem mutex_events_keep:
  assumes "det_inv S" "sy_mx S p = Some m" "unat (current_epoch (sy_dd S)) + 8192 \<le> 2 ^ 64"
  shows "(\<exists>S'. MutexInit cb p S = Inr S' \<and> det_inv S') \<and> (\<exists>S'. MutexBeforeLock cb t p S = Some (Inr S') \<and> det_inv S') \<and>
    (n_all_locks (lt_dd (sy_lt S t)) < 64 \<and> n_recursive_locks (lt_dd (sy_lt S t)) < 64 \<and>
       (wlock \<and> belongs S m \<longrightarrow> idx (mx_id m) \<notin># held_now (sy_dd S) (lt_dd (sy_lt S t))) \<longrightarrow>
       (\<exists>S'. MutexAfterLock cb t p wlock trylock S = Some (Inr S') \<and> det_inv S')) \<and>
    (\<exists>S'. MutexBeforeUnlock t p S = Inr S' \<and> det_inv S') \<and>
    ((belongs S m \<longrightarrow> (\<forall>u. idx (mx_id m) \<notin># held_now (sy_dd S) (lt_dd (sy_lt S u)))) \<longrightarrow> (\<exists>S'. MutexDestroy p S = Inr S' \<and> det_inv S')) \<and>
    det_inv (snd (GetReport t S))"
proof -
  have "\<exists>S'. MutexInit cb p S = Inr S' \<and> det_inv S'" using init_ok [OF assms(1,2)] assms(2) by (simp add: MutexInit_def)
  moreover have "\<exists>S'. MutexBeforeLock cb t p S = Some (Inr S') \<and> det_inv S'" using before_lock_ok [OF assms, of cb t] by blast
  ultimately show ?thesis
    using after_lock_ok [OF assms, of t wlock cb trylock] unlock_ok [OF assms(1,2)] destroy_ok [OF assms(1,2)] get_report_ok [OF assms(1)] by blast
qed

definition det_example :: ddet where
  "det_example = \<lparr>sy_dd = dd_example, second_deadlock_stack = True, sy_mx = [77 \<mapsto> \<lparr>mx_id = 0, mx_stk = 5, mx_ctx = 6\<rparr>],
     sy_lt = (\<lambda>u. \<lparr>lt_ctx = 1, lt_dd = tls0, lt_rep = [], report_pending = False\<rparr>)\<rparr>"

lemma det_example_inv: "det_inv det_example"
proof (rule det_init)
  show "sy_dd det_example = dd_clear DDBV \<lparr>current_epoch = 3, available_nodes = tl_example, recycled_nodes = tl_example, tmp_bv = tl_example,
     dd_g = g_example, dd_data = (\<lambda>i. 0), dd_edges = (\<lambda>i. \<lparr>e_from = 0, e_to = 0, e_stk_from = 0, e_stk_to = 0, e_tid = 0\<rparr>), n_edges = 2\<rparr>"
    by (simp add: det_example_def dd_example_def)
  show "lt_dd (sy_lt det_example u) = tls_clear DDBV \<lparr>tls_bv = tl_example, tls_epoch = 7, recursive_locks = (\<lambda>i. 0), n_recursive_locks = 3,
     all_locks = (\<lambda>i. (0, 0)), n_all_locks = 5\<rparr>" for u
    by (simp add: det_example_def tls0_def)
qed (auto simp: det_example_def split: if_splits)

lemma det_example_room: "unat (current_epoch (sy_dd det_example)) + 8192 \<le> 2 ^ 64"
  by (simp add: det_example_def dd_example_def dd_clear_def)

lemma mutex_events_keep_witness:
  "\<exists>S'. MutexAfterLock \<lparr>cb_Unwind = 3, cb_UniqueTid = 4\<rparr> 0 77 True False det_example = Some (Inr S') \<and> det_inv S'"
proof -
  have "n_all_locks (lt_dd (sy_lt det_example 0)) < 64 \<and> n_recursive_locks (lt_dd (sy_lt det_example 0)) < 64"
    by (simp add: det_example_def tls0_def tls_clear_def)
  moreover have "sy_mx det_example 77 = Some \<lparr>mx_id = 0, mx_stk = 5, mx_ctx = 6\<rparr>" "\<not> belongs det_example \<lparr>mx_id = 0, mx_stk = 5, mx_ctx = 6\<rparr>"
    by (simp_all add: det_example_def belongs_iff)
  ultimately show ?thesis using mutex_events_keep [OF det_example_inv _ det_example_room] by blast
qed

text \<open>
  C13. Before a thread locks a mutex, it gets a new report exactly when the mutex has an id of the current epoch, the
  thread does not hold it, one of the edges from the locks held is new, and with these edges a path of at most 20 nodes leads from the mutex to a
  lock held. The report lists the mutexes of such a cycle in its order, each with its successor.
\<close>

theorem beforeLock_reports:
  assumes "det_inv S" "sy_mx S p = Some m" "unat (current_epoch (sy_dd S)) + 8192 \<le> 2 ^ 64"
  shows "\<exists>S'. MutexBeforeLock cb t p S = Some (Inr S') \<and>
    (if \<exists>xs. closes_cycle S t m xs
     then \<exists>xs. closes_cycle S t m xs \<and> report_pending (sy_lt S' t) \<and> cycle_report S xs (lt_rep (sy_lt S' t))
     else report_pending (sy_lt S' t) = report_pending (sy_lt S t) \<and> lt_rep (sy_lt S' t) = lt_rep (sy_lt S t))"
  using before_lock_ok [OF assms] by blast

lemma beforeLock_reports_witness:
  "\<exists>S'. MutexBeforeLock \<lparr>cb_Unwind = 3, cb_UniqueTid = 4\<rparr> 0 77 det_example = Some (Inr S') \<and> \<not> report_pending (sy_lt S' 0)"
proof -
  have m: "sy_mx det_example 77 = Some \<lparr>mx_id = 0, mx_stk = 5, mx_ctx = 6\<rparr>" "\<not> report_pending (sy_lt det_example 0)"
    by (simp_all add: det_example_def)
  have "\<not> closes_cycle det_example 0 \<lparr>mx_id = 0, mx_stk = 5, mx_ctx = 6\<rparr> xs" for xs by (simp add: closes_cycle_def Let_def belongs_iff)
  then show ?thesis
    using beforeLock_reports [OF det_example_inv m(1) det_example_room, of "\<lparr>cb_Unwind = 3, cb_UniqueTid = 4\<rparr>" 0] m(2) by auto
qed

end
