(* ===== verification/Quarantine.thy ===== *)
theory Quarantine
  imports IList
begin

text \<open>
  \<^verbatim>\<open>sanitizer_quarantine.h\<close>: freed chunks wait in batches, first in a cache of their thread, then in
  the global cache, until the quarantine is too large and the oldest batches are recycled. The heap of the model holds
  the batches (their next links apart, as \<^theory_text>\<open>IList\<close> wants them), and the two effects of the callback: the
  batches it allocated and the chunks it was given by \<^verbatim>\<open>Recycle\<close>, in order. Which address
  \<^verbatim>\<open>Callback::Allocate\<close> returns is a parameter.
\<close>

section \<open>Batches and caches\<close>

record qbatch =
  qb_size :: uptr
  qb_count :: uptr
  qb_batch :: "nat \<Rightarrow> uptr"

definition kBatchSize :: nat where
  "kBatchSize = 1021"

definition sizeof_batch :: uptr where
  "sizeof_batch = 3 * 8 + 8 * of_nat kBatchSize"

record qheap =
  q_next :: links
  q_mem :: "uptr \<Rightarrow> qbatch"
  q_used :: "uptr set"
  q_recycled :: "uptr list"

record qcache =
  qc_list :: lst
  qc_size :: uptr

definition qc_new :: qcache where
  "qc_new = \<lparr>qc_list = il_clear empty_lst, qc_size = 0\<rparr>"

definition SizeAdd :: "uptr \<Rightarrow> qcache \<Rightarrow> qcache" where
  "SizeAdd add c = c\<lparr>qc_size := qc_size c + add\<rparr>"

definition SizeSub :: "uptr \<Rightarrow> qcache \<Rightarrow> qcache" where
  "SizeSub sub c = c\<lparr>qc_size := qc_size c - sub\<rparr>"

definition AllocBatch :: "(qheap \<Rightarrow> uptr) \<Rightarrow> qheap \<times> qcache \<Rightarrow> (uptr \<times> qheap \<times> qcache) res" where
  "AllocBatch alloc = (\<lambda>(h, c).
     let b = alloc h in
     check (b \<noteq> 0) ''b'' (
     bindr (il_push_back b (q_next h, qc_list c)) (\<lambda>(n, l).
     Inr (b, h\<lparr>q_next := n, q_mem := (q_mem h)(b := (q_mem h b)\<lparr>qb_count := 0, qb_size := 0\<rparr>), q_used := insert b (q_used h)\<rparr>,
          c\<lparr>qc_list := l\<rparr>))))"

text \<open>\<^verbatim>\<open>b->batch[b->count++] = ptr; b->size += size;\<close>\<close>

definition store_chunk :: "uptr \<Rightarrow> uptr \<Rightarrow> qbatch \<Rightarrow> qbatch res" where
  "store_chunk ptr sz b =
     (if kBatchSize \<le> unat (qb_count b) then Inl (OutOfBounds (unat (qb_count b)))
      else Inr (b\<lparr>qb_batch := (qb_batch b)(unat (qb_count b) := ptr), qb_count := qb_count b + 1, qb_size := qb_size b + sz\<rparr>))"

definition Enqueue :: "(qheap \<Rightarrow> uptr) \<Rightarrow> uptr \<Rightarrow> uptr \<Rightarrow> qheap \<times> qcache \<Rightarrow> (qheap \<times> qcache) res" where
  "Enqueue alloc ptr sz = (\<lambda>(h, c).
     bindr (if il_empty (qc_list c) \<or> qb_count (q_mem h (llast (qc_list c))) = of_nat kBatchSize
            then bindr (AllocBatch alloc (h, c)) (\<lambda>(_, h, c). Inr (sz + sizeof_batch, h, c))
            else Inr (sz, h, c)) (\<lambda>(sz, h, c).
     let b = llast (qc_list c) in
     check (b \<noteq> 0) ''b'' (
     bindr (store_chunk ptr sz (q_mem h b)) (\<lambda>m.
     Inr (h\<lparr>q_mem := (q_mem h)(b := m)\<rparr>, SizeAdd sz c)))))"

text \<open>The receiver of \<^verbatim>\<open>Transfer\<close> is the global cache, which is no thread's cache.\<close>

definition Transfer :: "qheap \<times> qcache \<times> qcache \<Rightarrow> (qheap \<times> qcache \<times> qcache) res" where
  "Transfer = (\<lambda>(h, s, c).
     bindr (il_append_back False (q_next h, qc_list s, qc_list c)) (\<lambda>(n, l, l').
     Inr (h\<lparr>q_next := n\<rparr>, SizeAdd (qc_size c) (s\<lparr>qc_list := l\<rparr>), c\<lparr>qc_list := l', qc_size := 0\<rparr>)))"

definition EnqueueBatch :: "uptr \<Rightarrow> qheap \<times> qcache \<Rightarrow> (qheap \<times> qcache) res" where
  "EnqueueBatch b = (\<lambda>(h, c).
     bindr (il_push_back b (q_next h, qc_list c)) (\<lambda>(n, l).
     Inr (h\<lparr>q_next := n\<rparr>, SizeAdd (qb_size (q_mem h b)) (c\<lparr>qc_list := l\<rparr>))))"

definition DequeueBatch :: "qheap \<times> qcache \<Rightarrow> (uptr \<times> qheap \<times> qcache) res" where
  "DequeueBatch = (\<lambda>(h, c).
     if il_empty (qc_list c) then Inr (0, h, c)
     else let b = lfirst (qc_list c) in
       bindr (il_pop_front (q_next h, qc_list c)) (\<lambda>(n, l).
       Inr (b, h\<lparr>q_next := n\<rparr>, SizeSub (qb_size (q_mem h b)) (c\<lparr>qc_list := l\<rparr>))))"

text \<open>The three totals that \<^verbatim>\<open>PrintStats\<close> prints: batches, bytes and chunks.\<close>

partial_function (option) stats_loop :: "qheap \<Rightarrow> uptr \<Rightarrow> uptr \<times> uptr \<times> uptr \<Rightarrow> (uptr \<times> uptr \<times> uptr) option" where
  "stats_loop h it r =
     (if it = 0 then Some r
      else stats_loop h (q_next h it)
        (fst r + 1, fst (snd r) + qb_size (q_mem h it), snd (snd r) + qb_count (q_mem h it)))"

definition PrintStats :: "qheap \<Rightarrow> qcache \<Rightarrow> (uptr \<times> uptr \<times> uptr \<times> uptr) option" where
  "PrintStats h c =
     map_option (\<lambda>(batches, bytes, chunks). (batches, bytes, chunks, batches * of_nat kBatchSize))
       (stats_loop h (lfirst (qc_list c)) (0, 0, 0))"

section \<open>The quarantine\<close>

text \<open>
  \<open>recycle_locked\<close> is the state of \<^verbatim>\<open>recycle_mutex_\<close>: while another thread moves batches out, \<^verbatim>\<open>TryLock\<close> fails. The
  critical sections of \<^verbatim>\<open>cache_mutex_\<close> are steps of the model.
\<close>

record quar =
  max_size :: uptr
  min_size :: uptr
  max_cache_size :: uptr
  recycle_locked :: bool
  q_cache :: qcache

definition q_Init :: "uptr \<Rightarrow> uptr \<Rightarrow> quar \<Rightarrow> quar res" where
  "q_Init sz cache_size q =
     check (sz = 0 \<and> cache_size = 0 \<or> cache_size \<noteq> 0) ''(size == 0 && cache_size == 0) || cache_size != 0'' (
     Inr (q\<lparr>max_size := sz, min_size := sz div 10 * 9, max_cache_size := cache_size\<rparr>))"

fun recycle_chunks :: "qbatch \<Rightarrow> nat list \<Rightarrow> uptr list \<Rightarrow> uptr list res" where
  "recycle_chunks b [] log = Inr log"
| "recycle_chunks b (i # is) log =
     (if i < kBatchSize then recycle_chunks b is (log @ [qb_batch b i]) else Inl (OutOfBounds i))"

partial_function (option) DoRecycle :: "qheap \<times> qcache \<Rightarrow> (qheap \<times> qcache) run" where
  "DoRecycle x =
     bindo (Some (DequeueBatch x)) (\<lambda>y.
       if fst y = 0 then Some (Inr (snd y))
       else bindo (Some (check (16 \<le> kBatchSize) ''kPrefetch <= ARRAY_SIZE(b->batch)'' (
              bindr (recycle_chunks (q_mem (fst (snd y)) (fst y)) [0..<unat (qb_count (q_mem (fst (snd y)) (fst y)))]
                  (q_recycled (fst (snd y))))
                (\<lambda>log. Inr ((fst (snd y))\<lparr>q_recycled := log, q_used := q_used (fst (snd y)) - {fst y}\<rparr>))))) (\<lambda>h.
            DoRecycle (h, snd (snd y))))"

partial_function (option) move_batches :: "uptr \<Rightarrow> qheap \<times> qcache \<times> qcache \<Rightarrow> (qheap \<times> qcache \<times> qcache) run" where
  "move_batches low x =
     (if qc_size (fst (snd x)) \<le> low then Some (Inr x)
      else bindo (Some (DequeueBatch (fst x, fst (snd x)))) (\<lambda>y.
           bindo (Some (EnqueueBatch (fst y) (fst (snd y), snd (snd x)))) (\<lambda>z.
           move_batches low (fst z, snd (snd y), snd z))))"

definition Recycle :: "qheap \<times> quar \<Rightarrow> (qheap \<times> quar) run" where
  "Recycle = (\<lambda>(h, q).
     bindo (move_batches (min_size q) (h, q_cache q, qc_new)) (\<lambda>(h, c, tmp).
     let q = q\<lparr>q_cache := c, recycle_locked := False\<rparr> in
     bindo (DoRecycle (h, tmp)) (\<lambda>(h, tmp). Some (Inr (h, q)))))"

definition Drain :: "qheap \<times> quar \<times> qcache \<Rightarrow> (qheap \<times> quar \<times> qcache) run" where
  "Drain = (\<lambda>(h, q, c).
     bindo (Some (Transfer (h, q_cache q, c))) (\<lambda>(h, s, c).
     let q = q\<lparr>q_cache := s\<rparr> in
     if max_size q < qc_size (q_cache q) \<and> \<not> recycle_locked q
     then bindo (Recycle (h, q\<lparr>recycle_locked := True\<rparr>)) (\<lambda>(h, q). Some (Inr (h, q, c)))
     else Some (Inr (h, q, c))))"

definition q_Put :: "(qheap \<Rightarrow> uptr) \<Rightarrow> uptr \<Rightarrow> uptr \<Rightarrow> qheap \<times> quar \<times> qcache \<Rightarrow> (qheap \<times> quar \<times> qcache) run" where
  "q_Put alloc ptr sz = (\<lambda>(h, q, c).
     let cache_size = max_cache_size q in
     bindo (Some (if cache_size \<noteq> 0 then Enqueue alloc ptr sz (h, c)
                  else Inr (h\<lparr>q_recycled := q_recycled h @ [ptr]\<rparr>, c))) (\<lambda>(h, c).
     if cache_size < qc_size c then Drain (h, q, c) else Some (Inr (h, q, c))))"

section \<open>What a cache holds\<close>

text \<open>
  \<open>total\<close> is the sum of the sizes of the batches, \<open>chunks\<close> the sequence of their chunks. A cache stands for the batches
  of its list; their sizes do not overflow.
\<close>

definition total :: "qheap \<Rightarrow> uptr list \<Rightarrow> nat" where
  "total h bs = sum_list (map (\<lambda>b. unat (qb_size (q_mem h b))) bs)"

definition batch_chunks :: "qbatch \<Rightarrow> uptr list" where
  "batch_chunks b = map (qb_batch b) [0..<unat (qb_count b)]"

definition chunks :: "qheap \<Rightarrow> uptr list \<Rightarrow> uptr list" where
  "chunks h bs = concat (map (\<lambda>b. batch_chunks (q_mem h b)) bs)"

definition qc_rep :: "qheap \<Rightarrow> qcache \<Rightarrow> uptr list \<Rightarrow> bool" where
  "qc_rep h c bs \<longleftrightarrow> fwd_rep (q_next h) (qc_list c) bs \<and> set bs \<subseteq> q_used h
     \<and> (\<forall>b \<in> set bs. unat (qb_count (q_mem h b)) \<le> kBatchSize) \<and> unat (qc_size c) = total h bs"

lemma total_simps [simp]: "total h [] = 0" "total h (b # bs) = unat (qb_size (q_mem h b)) + total h bs"
  "total h (bs @ cs) = total h bs + total h cs"
  by (simp_all add: total_def)

lemma chunks_simps [simp]: "chunks h [] = []" "chunks h (b # bs) = batch_chunks (q_mem h b) @ chunks h bs"
  "chunks h (bs @ cs) = chunks h bs @ chunks h cs"
  by (simp_all add: chunks_def)

text \<open>What a step does to other batches is invisible in a cache.\<close>

definition same_on :: "uptr set \<Rightarrow> qheap \<Rightarrow> qheap \<Rightarrow> bool" where
  "same_on A h h' \<longleftrightarrow> (\<forall>b \<in> A. q_next h' b = q_next h b \<and> q_mem h' b = q_mem h b \<and> (b \<in> q_used h \<longrightarrow> b \<in> q_used h'))"

lemma same_onD: "same_on A h h' \<Longrightarrow> b \<in> A \<Longrightarrow> q_mem h' b = q_mem h b"
  by (simp add: same_on_def)

lemma same_on_trans: "same_on A h h1 \<Longrightarrow> same_on A h1 h2 \<Longrightarrow> same_on A h h2"
  by (simp add: same_on_def)

lemma same_on_mono: "same_on A h h' \<Longrightarrow> B \<subseteq> A \<Longrightarrow> same_on B h h'"
  by (auto simp: same_on_def)

lemma total_cong: "(\<And>b. b \<in> set bs \<Longrightarrow> q_mem h' b = q_mem h b) \<Longrightarrow> total h' bs = total h bs"
  unfolding total_def by (intro arg_cong [where f = sum_list] map_cong) auto

lemma chunks_cong: "(\<And>b. b \<in> set bs \<Longrightarrow> q_mem h' b = q_mem h b) \<Longrightarrow> chunks h' bs = chunks h bs"
  unfolding chunks_def by (intro arg_cong [where f = concat] map_cong) auto

lemma chain_cong: "(\<And>x. x \<in> set xs \<Longrightarrow> n' x = n x) \<Longrightarrow> chain n' xs e = chain n xs e"
  by (induction xs) auto

lemma fwd_rep_cong: "(\<And>x. x \<in> set xs \<Longrightarrow> n' x = n x) \<Longrightarrow> fwd_rep n' l xs = fwd_rep n l xs"
  by (simp add: fwd_rep_def cong: chain_cong)

lemma qc_rep_frame:
  assumes "qc_rep h c bs" and "same_on (set bs) h h'"
  shows "qc_rep h' c bs" and "chunks h' bs = chunks h bs" and "total h' bs = total h bs"
proof -
  have mem: "q_mem h' b = q_mem h b" and nx: "q_next h' b = q_next h b" if "b \<in> set bs" for b
    using assms(2) that by (auto simp: same_on_def)
  show c: "chunks h' bs = chunks h bs" and t: "total h' bs = total h bs"
    by (simp_all add: mem cong: total_cong chunks_cong)
  have "fwd_rep (q_next h') (qc_list c) bs" using assms(1) fwd_rep_cong [OF nx] by (auto simp: qc_rep_def)
  with assms show "qc_rep h' c bs"
    by (auto simp: qc_rep_def t mem same_on_def)
qed

lemma fwd_rep_nonnull: "fwd_rep n l xs \<Longrightarrow> x \<in> set xs \<Longrightarrow> x \<noteq> 0"
  by (auto simp: fwd_rep_def dest: chain_nonnull)

text \<open>Distinct non-null addresses are fewer than \<open>2 ^ 64\<close>, so a list never overflows.\<close>

lemma room_in_list:
  assumes "fwd_rep n l xs" and "x \<noteq> 0" and "x \<notin> set xs"
  shows "Suc (length xs) < 2 ^ 64"
proof -
  have "card (set (0 # x # xs)) \<le> card (UNIV :: uptr set)" by (rule card_mono) auto
  moreover have "0 \<notin> set xs" using assms(1) fwd_rep_nonnull by blast
  ultimately show ?thesis
    using assms by (simp add: fwd_rep_def distinct_card card_word)
qed

section \<open>Putting a chunk into a cache\<close>

text \<open>\<^verbatim>\<open>Allocate\<close> returns null or memory that is not a batch in use.\<close>

definition alloc_fresh :: "(qheap \<Rightarrow> uptr) \<Rightarrow> bool" where
  "alloc_fresh alloc \<longleftrightarrow> (\<forall>h. alloc h = 0 \<or> alloc h \<notin> q_used h)"

text \<open>
  The effect of adding the chunks \<open>new\<close> to a cache: the batches stay those of the cache or are
  fresh, and batches of others are not touched.
\<close>

definition grown :: "uptr list \<Rightarrow> qheap \<Rightarrow> uptr list \<Rightarrow> qheap \<Rightarrow> qcache \<Rightarrow> uptr list \<Rightarrow> bool" where
  "grown new h bs h' c' bs' \<longleftrightarrow> qc_rep h' c' bs' \<and> chunks h' bs' = chunks h bs @ new
     \<and> same_on (q_used h - set bs) h h' \<and> q_recycled h' = q_recycled h \<and> set bs' \<subseteq> set bs \<union> - q_used h"

lemma AllocBatch_ok:
  assumes c: "qc_rep h c bs" and b: "alloc h \<noteq> 0" "alloc h \<notin> q_used h"
  shows "\<exists>h' c'. AllocBatch alloc (h, c) = Inr (alloc h, h', c') \<and> grown [] h bs h' c' (bs @ [alloc h])
    \<and> total h' (bs @ [alloc h]) = total h bs \<and> qb_count (q_mem h' (alloc h)) = 0"
proof -
  let ?b = "alloc h"
  have nb: "?b \<notin> set bs" using c b(2) by (auto simp: qc_rep_def)
  have f: "fwd_rep (q_next h) (qc_list c) bs" using c by (simp add: qc_rep_def)
  obtain n l where n: "il_push_back ?b (q_next h, qc_list c) = Inr (n, l)" "fwd_rep n l (bs @ [?b])"
    "\<forall>y. y \<notin> set (?b # bs) \<longrightarrow> n y = q_next h y"
    using il_push_back_rep [OF f b(1) nb room_in_list [OF f b(1) nb]] by blast
  let ?h = "h\<lparr>q_next := n, q_mem := (q_mem h)(?b := (q_mem h ?b)\<lparr>qb_count := 0, qb_size := 0\<rparr>), q_used := insert ?b (q_used h)\<rparr>"
  let ?c = "c\<lparr>qc_list := l\<rparr>"
  have run: "AllocBatch alloc (h, c) = Inr (?b, ?h, ?c)"
    using b(1) n(1) by (simp add: AllocBatch_def Let_def)
  have same: "same_on (q_used h - set bs) h ?h"
    using n(3) b(2) by (auto simp: same_on_def)
  have m: "q_mem ?h x = q_mem h x" if "x \<in> set bs" for x using that nb by auto
  have ch: "chunks ?h bs = chunks h bs" "total ?h bs = total h bs"
    using m by (auto intro: chunks_cong total_cong)
  have "qc_rep ?h ?c (bs @ [?b])"
    using c n(2) ch(2) nb by (auto simp: qc_rep_def)
  then have "grown [] h bs ?h ?c (bs @ [?b])"
    using same ch(1) b(2) by (auto simp: grown_def batch_chunks_def)
  then show ?thesis using run ch(2) by auto
qed

lemma unat_Suc: "unat x < 2 ^ 64 - 1 \<Longrightarrow> unat (x + 1 :: uptr) = Suc (unat x)"
  by (subst unat_add_nowrap) auto

lemma batch_chunks_store:
  assumes "store_chunk ptr sz b = Inr b'"
  shows "batch_chunks b' = batch_chunks b @ [ptr]" "unat (qb_count b') = Suc (unat (qb_count b))"
proof -
  have c: "unat (qb_count b) < kBatchSize"
    and b': "b' = b\<lparr>qb_batch := (qb_batch b)(unat (qb_count b) := ptr), qb_count := qb_count b + 1, qb_size := qb_size b + sz\<rparr>"
    using assms by (auto simp: store_chunk_def split: if_splits)
  have "unat (qb_count b + 1) = Suc (unat (qb_count b))"
    using c by (intro unat_Suc) (simp add: kBatchSize_def)
  then show "batch_chunks b' = batch_chunks b @ [ptr]" "unat (qb_count b') = Suc (unat (qb_count b))"
    by (auto simp: batch_chunks_def b')
qed

lemma store_last_ok:
  assumes c: "qc_rep h c (bs @ [b])" and room: "unat (qb_count (q_mem h b)) < kBatchSize"
    and sz: "total h (bs @ [b]) + unat sz < 2 ^ 64"
  shows "\<exists>m. store_chunk ptr sz (q_mem h b) = Inr m
    \<and> grown [ptr] h (bs @ [b]) (h\<lparr>q_mem := (q_mem h)(b := m)\<rparr>) (SizeAdd sz c) (bs @ [b])
    \<and> total (h\<lparr>q_mem := (q_mem h)(b := m)\<rparr>) (bs @ [b]) = total h (bs @ [b]) + unat sz"
proof -
  obtain m where m: "store_chunk ptr sz (q_mem h b) = Inr m" using room by (simp add: store_chunk_def)
  let ?h = "h\<lparr>q_mem := (q_mem h)(b := m)\<rparr>"
  have size: "qb_size m = qb_size (q_mem h b) + sz" using m by (auto simp: store_chunk_def split: if_splits)
  have nb: "b \<notin> set bs" using c by (simp add: qc_rep_def fwd_rep_def)
  have mem: "q_mem ?h x = q_mem h x" if "x \<in> set bs" for x using that nb by auto
  have ch: "chunks ?h bs = chunks h bs" "total ?h bs = total h bs" using mem by (auto intro: chunks_cong total_cong)
  have q: "unat (qc_size c) = total h (bs @ [b])" using c by (simp add: qc_rep_def)
  have u: "unat (qb_size m) = unat (qb_size (q_mem h b)) + unat sz"
    unfolding size using sz by (intro unat_add_nowrap) simp
  have u2: "unat (qc_size c + sz) = unat (qc_size c) + unat sz"
    using sz unfolding q [symmetric] by (intro unat_add_nowrap) simp
  have t: "total ?h (bs @ [b]) = total h (bs @ [b]) + unat sz" by (simp add: ch(2) u)
  have "qc_rep ?h (SizeAdd sz c) (bs @ [b])"
    unfolding qc_rep_def t using c room batch_chunks_store(2) [OF m] u2 nb by (auto simp: qc_rep_def SizeAdd_def)
  then have "grown [ptr] h (bs @ [b]) ?h (SizeAdd sz c) (bs @ [b])"
    using ch(1) batch_chunks_store(1) [OF m] by (auto simp: grown_def same_on_def)
  then show ?thesis using m t by blast
qed

lemma grown_trans:
  assumes a: "grown xs h bs h1 c1 bs1" and b: "grown ys h1 bs1 h2 c2 bs2" and u: "q_used h \<subseteq> q_used h1"
  shows "grown (xs @ ys) h bs h2 c2 bs2"
proof -
  have "q_used h - set bs \<subseteq> q_used h1 - set bs1" using a u by (auto simp: grown_def)
  then have "same_on (q_used h - set bs) h1 h2" using b same_on_mono by (auto simp: grown_def)
  then have "same_on (q_used h - set bs) h h2" using a same_on_trans by (auto simp: grown_def)
  moreover have "set bs2 \<subseteq> set bs \<union> - q_used h" using a b u by (auto simp: grown_def)
  ultimately show ?thesis using a b by (simp add: grown_def)
qed

lemma sizeof_batch_eq: "sizeof_batch = 8192"
  by (simp add: sizeof_batch_def kBatchSize_def)

lemma Enqueue_ok:
  assumes c: "qc_rep h c bs" and al: "alloc_fresh alloc" and sz: "total h bs + unat sz + 8192 < 2 ^ 64"
  shows "Enqueue alloc ptr sz (h, c) = Inl (CheckFailed ''b'') \<and> alloc h = 0
    \<or> (\<exists>h' c' bs'. Enqueue alloc ptr sz (h, c) = Inr (h', c') \<and> grown [ptr] h bs h' c' bs'
        \<and> total h' bs' \<le> total h bs + unat sz + 8192)"
proof -
  have f: "fwd_rep (q_next h) (qc_list c) bs" using c by (simp add: qc_rep_def)
  have e: "il_empty (qc_list c) \<longleftrightarrow> bs = []" using fwd_rep_empty [OF f] by (simp add: il_empty_def)
  have l: "llast (qc_list c) = last0 bs" using f by (simp add: fwd_rep_def)
  show ?thesis
  proof (cases "bs = [] \<or> qb_count (q_mem h (last0 bs)) = of_nat kBatchSize")
    case True
    show ?thesis
    proof (cases "alloc h = 0")
      case True
      then show ?thesis using \<open>bs = [] \<or> _\<close> by (simp add: Enqueue_def e l AllocBatch_def)
    next
      case False
      let ?b = "alloc h"
      have fr: "?b \<notin> q_used h" using al False by (auto simp: alloc_fresh_def)
      obtain h1 c1 where s1: "AllocBatch alloc (h, c) = Inr (?b, h1, c1)" "grown [] h bs h1 c1 (bs @ [?b])"
        "total h1 (bs @ [?b]) = total h bs" "qb_count (q_mem h1 ?b) = 0"
        using AllocBatch_ok [where alloc = alloc, OF c False fr] by blast
      have c1: "qc_rep h1 c1 (bs @ [?b])" using s1(2) by (simp add: grown_def)
      have us: "q_used h \<subseteq> q_used h1" "set bs \<subseteq> q_used h"
        using c s1(2) c1 by (auto simp: grown_def same_on_def qc_rep_def)
      have sz8: "unat (sz + sizeof_batch) = unat sz + 8192"
        using sz by (simp add: sizeof_batch_eq unat_add_nowrap)
      have room: "unat (qb_count (q_mem h1 ?b)) < kBatchSize" by (simp add: s1(4) kBatchSize_def)
      have tot: "total h1 (bs @ [?b]) + unat (sz + sizeof_batch) < 2 ^ 64" using sz unfolding s1(3) sz8 by simp
      obtain m where s2: "store_chunk ptr (sz + sizeof_batch) (q_mem h1 ?b) = Inr m"
        "grown [ptr] h1 (bs @ [?b]) (h1\<lparr>q_mem := (q_mem h1)(?b := m)\<rparr>) (SizeAdd (sz + sizeof_batch) c1) (bs @ [?b])"
        "total (h1\<lparr>q_mem := (q_mem h1)(?b := m)\<rparr>) (bs @ [?b]) = total h1 (bs @ [?b]) + unat (sz + sizeof_batch)"
        using store_last_ok [OF c1 room tot, of ptr] by blast
      have l1: "llast (qc_list c1) = ?b" using c1 by (simp add: qc_rep_def fwd_rep_def)
      have run: "Enqueue alloc ptr sz (h, c) = Inr (h1\<lparr>q_mem := (q_mem h1)(?b := m)\<rparr>, SizeAdd (sz + sizeof_batch) c1)"
        using True False by (simp add: Enqueue_def e l s1(1) l1 Let_def s2(1))
      have "total (h1\<lparr>q_mem := (q_mem h1)(?b := m)\<rparr>) (bs @ [?b]) \<le> total h bs + unat sz + 8192"
        unfolding s2(3) s1(3) sz8 by simp
      then show ?thesis using run grown_trans [OF s1(2) s2(2) us(1)] by auto
    qed
  next
    case False
    then obtain ds b where bs: "bs = ds @ [b]" by (cases bs rule: rev_cases) auto
    have lb: "last0 bs = b" and bsin: "b \<in> set bs" by (simp_all add: bs)
    have "unat (qb_count (q_mem h b)) \<le> kBatchSize" using c bsin by (simp add: qc_rep_def)
    moreover have "unat (qb_count (q_mem h b)) \<noteq> kBatchSize" using False lb by (auto simp: word_unat_eq_iff kBatchSize_def)
    ultimately have room: "unat (qb_count (q_mem h b)) < kBatchSize" by simp
    have tot: "total h (ds @ [b]) + unat sz < 2 ^ 64" using sz bs by simp
    obtain m where s2: "store_chunk ptr sz (q_mem h b) = Inr m"
        "grown [ptr] h bs (h\<lparr>q_mem := (q_mem h)(b := m)\<rparr>) (SizeAdd sz c) bs"
        "total (h\<lparr>q_mem := (q_mem h)(b := m)\<rparr>) bs = total h bs + unat sz"
      using store_last_ok [OF c [unfolded bs] room tot, of ptr] unfolding bs by blast
    have "b \<noteq> 0" using fwd_rep_nonnull [OF f bsin] .
    then have "Enqueue alloc ptr sz (h, c) = Inr (h\<lparr>q_mem := (q_mem h)(b := m)\<rparr>, SizeAdd sz c)"
      using False by (simp add: Enqueue_def e l lb Let_def s2(1))
    then show ?thesis using s2(2,3) by auto
  qed
qed

section \<open>Moving and recycling batches\<close>

text \<open>\<open>moved A h h'\<close>: only the links of the batches \<open>A\<close> changed.\<close>

definition moved :: "uptr set \<Rightarrow> qheap \<Rightarrow> qheap \<Rightarrow> bool" where
  "moved A h h' \<longleftrightarrow> q_mem h' = q_mem h \<and> q_used h' = q_used h \<and> q_recycled h' = q_recycled h
     \<and> (\<forall>b. b \<notin> A \<longrightarrow> q_next h' b = q_next h b)"

lemma moved_trans: "moved A h h1 \<Longrightarrow> moved B h1 h2 \<Longrightarrow> A \<subseteq> C \<Longrightarrow> B \<subseteq> C \<Longrightarrow> moved C h h2"
  unfolding moved_def by (metis subsetD)

lemma moved_same_on: "moved A h h' \<Longrightarrow> B \<inter> A = {} \<Longrightarrow> same_on B h h'"
  by (auto simp: moved_def same_on_def)

lemma moved_chunks: "moved A h h' \<Longrightarrow> chunks h' bs = chunks h bs" "moved A h h' \<Longrightarrow> total h' bs = total h bs"
  by (auto simp: moved_def intro: chunks_cong total_cong)

lemma distinct_room:
  fixes xs :: "uptr list"
  assumes "distinct xs" and "0 \<notin> set xs"
  shows "length xs < 2 ^ LENGTH(64)"
proof -
  have "card (set ((0 :: uptr) # xs)) \<le> card (UNIV :: uptr set)" by (intro card_mono) auto
  then show ?thesis using assms by (simp add: distinct_card card_word)
qed

lemma append_back_frame:
  assumes "il_append_back False (n, s, l) = Inr (n', s', l')" and "fwd_rep n s xs" and "y \<notin> set xs"
  shows "n' y = n y"
  using assms fwd_rep_last [OF assms(2)] fwd_rep_empty [OF assms(2)]
  by (auto simp: il_append_back_def il_empty_def split: if_splits)

lemma Transfer_ok:
  assumes s: "qc_rep h s G" and c: "qc_rep h c bs" and dis: "set G \<inter> set bs = {}"
    and sz: "total h G + total h bs < 2 ^ 64"
  shows "\<exists>h' s' c'. Transfer (h, s, c) = Inr (h', s', c') \<and> qc_rep h' s' (G @ bs) \<and> qc_rep h' c' []
    \<and> qc_size c' = 0 \<and> moved (set G) h h'"
proof -
  have f: "fwd_rep (q_next h) (qc_list s) G" "fwd_rep (q_next h) (qc_list c) bs" using s c by (simp_all add: qc_rep_def)
  have "length (G @ bs) < 2 ^ LENGTH(64)"
    using f dis fwd_rep_nonnull [OF f(1), of 0] fwd_rep_nonnull [OF f(2), of 0]
    by (intro distinct_room) (auto simp: fwd_rep_def)
  then have len: "length G + length bs < 2 ^ 64" by simp
  obtain n l l' where n: "il_append_back False (q_next h, qc_list s, qc_list c) = Inr (n, l, l')"
    "fwd_rep n l (G @ bs)" "fwd_rep n l' []" using il_append_back_refines [OF f dis len] by blast
  let ?h = "h\<lparr>q_next := n\<rparr>" and ?s = "SizeAdd (qc_size c) (s\<lparr>qc_list := l\<rparr>)" and ?c = "c\<lparr>qc_list := l', qc_size := 0\<rparr>"
  have t: "total ?h bs = total h bs" "total ?h G = total h G" by (auto intro: total_cong)
  have q: "unat (qc_size s) = total h G" "unat (qc_size c) = total h bs" using s c by (simp_all add: qc_rep_def)
  have u: "unat (qc_size s + qc_size c) = total h G + total h bs"
    using sz unfolding q [symmetric] by (intro unat_add_nowrap) simp
  have "qc_rep ?h ?s (G @ bs)" using s c n(2) u t by (auto simp: qc_rep_def SizeAdd_def)
  moreover have "qc_rep ?h ?c []" using n(3) by (simp add: qc_rep_def)
  moreover have "moved (set G) h ?h" using append_back_frame [OF n(1) f(1)] by (simp add: moved_def)
  moreover have "Transfer (h, s, c) = Inr (?h, ?s, ?c)" by (simp add: Transfer_def n(1))
  ultimately show ?thesis by fastforce
qed

lemma DequeueBatch_ok:
  assumes c: "qc_rep h c (b # bs)"
  shows "\<exists>c'. DequeueBatch (h, c) = Inr (b, h, c') \<and> qc_rep h c' bs" "b \<noteq> 0"
proof -
  have f: "fwd_rep (q_next h) (qc_list c) (b # bs)" using c by (simp add: qc_rep_def)
  obtain l where l: "il_pop_front (q_next h, qc_list c) = Inr (q_next h, l)" "fwd_rep (q_next h) l bs"
    using il_pop_front_rep [OF f] by blast
  let ?c = "SizeSub (qb_size (q_mem h b)) (c\<lparr>qc_list := l\<rparr>)"
  have q: "unat (qc_size c) = unat (qb_size (q_mem h b)) + total h bs" using c by (simp add: qc_rep_def)
  then have "unat (qc_size c - qb_size (q_mem h b)) = total h bs" by (simp add: unat_sub word_le_nat_alt)
  then have "qc_rep h ?c bs" using c l(2) by (auto simp: qc_rep_def SizeSub_def)
  moreover have "DequeueBatch (h, c) = Inr (b, h, ?c)"
    using fwd_rep_empty [OF f] f l(1) by (simp add: DequeueBatch_def il_empty_def fwd_rep_def)
  ultimately show "\<exists>c'. DequeueBatch (h, c) = Inr (b, h, c') \<and> qc_rep h c' bs" by blast
  show "b \<noteq> 0" using fwd_rep_nonnull [OF f] by simp
qed

lemma DequeueBatch_empty: "qc_rep h c [] \<Longrightarrow> DequeueBatch (h, c) = Inr (0, h, c)"
  using fwd_rep_empty by (auto simp: DequeueBatch_def il_empty_def qc_rep_def)

lemma EnqueueBatch_ok:
  assumes c: "qc_rep h c bs" and b: "b \<noteq> 0" "b \<notin> set bs" "b \<in> q_used h" "unat (qb_count (q_mem h b)) \<le> kBatchSize"
    and sz: "total h (bs @ [b]) < 2 ^ 64"
  shows "\<exists>h' c'. EnqueueBatch b (h, c) = Inr (h', c') \<and> qc_rep h' c' (bs @ [b]) \<and> moved (set (b # bs)) h h'"
proof -
  have f: "fwd_rep (q_next h) (qc_list c) bs" using c by (simp add: qc_rep_def)
  obtain n l where n: "il_push_back b (q_next h, qc_list c) = Inr (n, l)" "fwd_rep n l (bs @ [b])"
    "\<forall>y. y \<notin> set (b # bs) \<longrightarrow> n y = q_next h y"
    using il_push_back_rep [OF f b(1,2) room_in_list [OF f b(1,2)]] by blast
  let ?h = "h\<lparr>q_next := n\<rparr>" and ?c = "SizeAdd (qb_size (q_mem h b)) (c\<lparr>qc_list := l\<rparr>)"
  have t: "total ?h bs = total h bs" by (auto intro: total_cong)
  have q: "unat (qc_size c) = total h bs" using c by (simp add: qc_rep_def)
  have "unat (qc_size c + qb_size (q_mem h b)) = total h bs + unat (qb_size (q_mem h b))"
    using sz unfolding q [symmetric] by (intro unat_add_nowrap) (simp add: q)
  then have "qc_rep ?h ?c (bs @ [b])" using c n(2) b t by (auto simp: qc_rep_def SizeAdd_def)
  moreover have "moved (set (b # bs)) h ?h" using n(3) by (simp add: moved_def)
  moreover have "EnqueueBatch b (h, c) = Inr (?h, ?c)" by (simp add: EnqueueBatch_def n(1))
  ultimately show ?thesis by blast
qed

lemma recycle_chunks_eq:
  "(\<And>i. i \<in> set is \<Longrightarrow> i < kBatchSize) \<Longrightarrow> recycle_chunks b is log = Inr (log @ map (qb_batch b) is)"
  by (induction "is" arbitrary: log) auto

text \<open>\<^verbatim>\<open>DoRecycle\<close> ends; it recycles the chunks of the cache in order and gives the batches back.\<close>

lemma DoRecycle_ok:
  assumes "qc_rep h c bs"
  shows "\<exists>c'. DoRecycle (h, c) =
    Some (Inr (h\<lparr>q_recycled := q_recycled h @ chunks h bs, q_used := q_used h - set bs\<rparr>, c'))"
  using assms
proof (induction bs arbitrary: h c)
  case Nil
  then show ?case by (subst DoRecycle.simps) (simp add: DequeueBatch_empty)
next
  case (Cons b bs)
  obtain c1 where d: "DequeueBatch (h, c) = Inr (b, h, c1)" "qc_rep h c1 bs" "b \<noteq> 0"
    using DequeueBatch_ok [OF Cons.prems] by blast
  let ?h = "h\<lparr>q_recycled := q_recycled h @ batch_chunks (q_mem h b), q_used := q_used h - {b}\<rparr>"
  have cnt: "unat (qb_count (q_mem h b)) \<le> kBatchSize" and nb: "b \<notin> set bs"
    using Cons.prems by (auto simp: qc_rep_def fwd_rep_def)
  have rc: "recycle_chunks (q_mem h b) [0..<unat (qb_count (q_mem h b))] (q_recycled h) =
      Inr (q_recycled h @ batch_chunks (q_mem h b))"
    using cnt by (subst recycle_chunks_eq) (auto simp: batch_chunks_def)
  have step: "DoRecycle (h, c) = DoRecycle (?h, c1)"
    by (subst DoRecycle.simps) (simp add: d(1,3) rc kBatchSize_def)
  have same: "same_on (set bs) h ?h" using nb by (auto simp: same_on_def)
  obtain c' where "DoRecycle (?h, c1) =
      Some (Inr (?h\<lparr>q_recycled := q_recycled ?h @ chunks ?h bs, q_used := q_used ?h - set bs\<rparr>, c'))"
    using Cons.IH [OF qc_rep_frame(1) [OF d(2) same]] by blast
  moreover have "q_used h - {b} - set bs = q_used h - set (b # bs)" by auto
  ultimately show ?case using qc_rep_frame(2) [OF d(2) same] step by simp
qed

lemma move_batches_ok:
  assumes "qc_rep h s G" and "qc_rep h t T" and "set G \<inter> set T = {}" and "total h G + total h T < 2 ^ 64"
  shows "\<exists>h' s' t' G1 G2. move_batches low (h, s, t) = Some (Inr (h', s', t')) \<and> G = G1 @ G2
    \<and> qc_rep h' s' G2 \<and> qc_rep h' t' (T @ G1) \<and> moved (set G \<union> set T) h h' \<and> total h G2 \<le> unat low"
  using assms
proof (induction G arbitrary: h s t T)
  case Nil
  then have "move_batches low (h, s, t) = Some (Inr (h, s, t))"
    by (subst move_batches.simps) (simp add: qc_rep_def word_le_nat_alt)
  then show ?case using Nil.prems by (intro exI [of _ h] exI [of _ s] exI [of _ t] exI [of _ "[]"]) (simp add: moved_def)
next
  case (Cons b G)
  show ?case
  proof (cases "qc_size s \<le> low")
    case True
    then have "move_batches low (h, s, t) = Some (Inr (h, s, t))" by (subst move_batches.simps) simp
    moreover have "total h (b # G) \<le> unat low" using True Cons.prems(1) by (simp add: qc_rep_def word_le_nat_alt)
    ultimately show ?thesis using Cons.prems
      by (intro exI [of _ h] exI [of _ s] exI [of _ t] exI [of _ "[]"] exI [of _ "b # G"]) (simp add: moved_def)
  next
    case False
    obtain s1 where d: "DequeueBatch (h, s) = Inr (b, h, s1)" "qc_rep h s1 G" "b \<noteq> 0"
      using DequeueBatch_ok [OF Cons.prems(1)] by blast
    have b: "b \<notin> set T" "b \<in> q_used h" "unat (qb_count (q_mem h b)) \<le> kBatchSize" "b \<notin> set G"
      using Cons.prems(1,3) by (auto simp: qc_rep_def fwd_rep_def)
    have sz: "total h (T @ [b]) < 2 ^ 64" using Cons.prems(4) by simp
    obtain h1 t1 where e: "EnqueueBatch b (h, t) = Inr (h1, t1)" "qc_rep h1 t1 (T @ [b])" "moved (set (b # T)) h h1"
      using EnqueueBatch_ok [OF Cons.prems(2) d(3) b(1,2,3) sz] by blast
    have step: "move_batches low (h, s, t) = move_batches low (h1, s1, t1)"
      using False by (subst move_batches.simps) (simp add: d(1) e(1))
    have dis: "set G \<inter> set (b # T) = {}" using Cons.prems(3) b(4) by auto
    have G: "qc_rep h1 s1 G" using qc_rep_frame(1) [OF d(2) moved_same_on [OF e(3) dis]] .
    have dis2: "set G \<inter> set (T @ [b]) = {}" using dis by auto
    have sz2: "total h1 G + total h1 (T @ [b]) < 2 ^ 64"
      using Cons.prems(4) unfolding moved_chunks(2) [OF e(3)] by simp
    obtain h' s' t' G1 G2 where r: "move_batches low (h1, s1, t1) = Some (Inr (h', s', t'))" "G = G1 @ G2" "qc_rep h' s' G2"
      "qc_rep h' t' ((T @ [b]) @ G1)" "moved (set G \<union> set (T @ [b])) h1 h'" "total h1 G2 \<le> unat low"
      using Cons.IH [OF G e(2) dis2 sz2] by blast
    have "moved (set (b # G) \<union> set T) h h'" using moved_trans [OF e(3) r(5)] by auto
    then show ?thesis using r step moved_chunks(2) [OF e(3)]
      by (intro exI [of _ h'] exI [of _ s'] exI [of _ t'] exI [of _ "b # G1"] exI [of _ G2]) simp
  qed
qed

lemma qc_new_rep: "qc_rep h qc_new []"
  by (simp add: qc_rep_def qc_new_def il_clear_rep)

lemma Recycle_ok:
  assumes "qc_rep h (q_cache q) G"
  shows "\<exists>h' s' G1 G2. Recycle (h, q) = Some (Inr (h', q\<lparr>q_cache := s', recycle_locked := False\<rparr>)) \<and> G = G1 @ G2
    \<and> qc_rep h' s' G2 \<and> total h G2 \<le> unat (min_size q) \<and> q_recycled h' = q_recycled h @ chunks h G1
    \<and> same_on (- set G) h h' \<and> q_mem h' = q_mem h \<and> q_used h' \<subseteq> q_used h"
proof -
  have "total h G = unat (qc_size (q_cache q))" using assms by (simp add: qc_rep_def)
  then have sz: "total h G + total h [] < 2 ^ 64" using unat_lt_64 by simp
  obtain h1 s1 t1 G1 G2 where m: "move_batches (min_size q) (h, q_cache q, qc_new) = Some (Inr (h1, s1, t1))" "G = G1 @ G2"
    "qc_rep h1 s1 G2" "qc_rep h1 t1 ([] @ G1)" "moved (set G \<union> set []) h h1" "total h G2 \<le> unat (min_size q)"
    using move_batches_ok [OF assms qc_new_rep _ sz, of "min_size q"] by auto
  let ?h = "h1\<lparr>q_recycled := q_recycled h1 @ chunks h1 G1, q_used := q_used h1 - set G1\<rparr>"
  obtain t2 where d: "DoRecycle (h1, t1) = Some (Inr (?h, t2))" using DoRecycle_ok [OF m(4)] by auto
  have dis: "set G2 \<inter> set G1 = {}" using assms m(2) by (auto simp: qc_rep_def fwd_rep_def)
  have "same_on (set G2) h1 ?h" using dis by (auto simp: same_on_def)
  then have G2: "qc_rep ?h s1 G2" using qc_rep_frame(1) [OF m(3)] by blast
  have same: "same_on (- set G) h ?h" using m(2,5) by (auto simp: moved_def same_on_def)
  have run: "Recycle (h, q) = Some (Inr (?h, q\<lparr>q_cache := s1, recycle_locked := False\<rparr>))"
    by (simp add: Recycle_def m(1) d Let_def)
  have rest: "q_recycled ?h = q_recycled h @ chunks h G1" "q_mem ?h = q_mem h" "q_used ?h \<subseteq> q_used h"
    using moved_chunks(1) [OF m(5), of G1] m(5) by (auto simp: moved_def)
  show ?thesis
    by (intro exI [of _ ?h] exI [of _ s1] exI [of _ G1] exI [of _ G2] conjI run m(2) G2 m(6) rest same)
qed

text \<open>
  \<open>drained\<close>: the batches of a thread went to the end of the global cache, and from its front the chunks to the callback.
\<close>

definition drained :: "qheap \<Rightarrow> quar \<Rightarrow> uptr list \<Rightarrow> qheap \<Rightarrow> quar \<Rightarrow> uptr list \<Rightarrow> bool" where
  "drained h q Q h' q' G' \<longleftrightarrow> qc_rep h' (q_cache q') G' \<and> set G' \<subseteq> set Q
     \<and> q_recycled h' @ chunks h' G' = q_recycled h @ chunks h Q \<and> same_on (- set Q) h h' \<and> q_used h' \<subseteq> q_used h
     \<and> q' = q\<lparr>q_cache := q_cache q'\<rparr>
     \<and> (\<not> recycle_locked q \<longrightarrow> min_size q \<le> max_size q \<longrightarrow> qc_size (q_cache q') \<le> max_size q)"

lemma Drain_ok:
  assumes G: "qc_rep h (q_cache q) G" and c: "qc_rep h c bs" and dis: "set G \<inter> set bs = {}"
    and sz: "total h G + total h bs < 2 ^ 64"
  shows "\<exists>h' q' c' G'. Drain (h, q, c) = Some (Inr (h', q', c')) \<and> qc_rep h' c' [] \<and> qc_size c' = 0
    \<and> drained h q (G @ bs) h' q' G'"
proof -
  obtain h1 s1 c1 where t: "Transfer (h, q_cache q, c) = Inr (h1, s1, c1)" "qc_rep h1 s1 (G @ bs)" "qc_rep h1 c1 []"
    "qc_size c1 = 0" "moved (set G) h h1"
    using Transfer_ok [OF G c dis sz] by blast
  have ch: "chunks h1 xs = chunks h xs" for xs using moved_chunks(1) [OF t(5)] .
  have same1: "same_on (- set (G @ bs)) h h1" using t(5) by (intro moved_same_on) auto
  let ?q = "q\<lparr>q_cache := s1\<rparr>"
  show ?thesis
  proof (cases "max_size q < qc_size s1 \<and> \<not> recycle_locked q")
    case False
    have "Drain (h, q, c) = Some (Inr (h1, ?q, c1))" using False by (auto simp: Drain_def t(1) Let_def)
    moreover have "drained h q (G @ bs) h1 ?q (G @ bs)"
      using False t(2,5) same1 unfolding drained_def ch by (auto simp: moved_def)
    ultimately show ?thesis using t(3,4) by blast
  next
    case True
    let ?q1 = "?q\<lparr>recycle_locked := True\<rparr>"
    have q1: "qc_rep h1 (q_cache ?q1) (G @ bs)" using t(2) by simp
    obtain h2 s2 G1 G2 where r: "Recycle (h1, ?q1) = Some (Inr (h2, ?q1\<lparr>q_cache := s2, recycle_locked := False\<rparr>))" "G @ bs = G1 @ G2"
      "qc_rep h2 s2 G2" "total h1 G2 \<le> unat (min_size ?q1)" "q_recycled h2 = q_recycled h1 @ chunks h1 G1"
      "same_on (- set (G @ bs)) h1 h2" "q_mem h2 = q_mem h1" "q_used h2 \<subseteq> q_used h1"
      using Recycle_ok [OF q1] by blast
    let ?q2 = "?q1\<lparr>q_cache := s2, recycle_locked := False\<rparr>"
    have run: "Drain (h, q, c) = Some (Inr (h2, ?q2, c1))" using True by (simp add: Drain_def t(1) Let_def r(1))
    have mem: "chunks h2 G2 = chunks h1 G2" "total h2 G2 = total h1 G2" using r(7) by (auto intro: chunks_cong total_cong)
    have "qc_size s2 \<le> min_size q" using r(3,4) mem(2) by (simp add: qc_rep_def word_le_nat_alt)
    moreover have "q_recycled h2 @ chunks h2 G2 = q_recycled h @ chunks h (G @ bs)"
      using t(5) unfolding r(5) mem(1) ch r(2) by (simp add: moved_def)
    moreover have "q_used h2 \<subseteq> q_used h" using r(8) t(5) by (simp add: moved_def)
    moreover have "?q2 = q\<lparr>q_cache := q_cache ?q2\<rparr>" using True by simp
    moreover have "set G2 \<subseteq> set (G @ bs)" unfolding r(2) by simp
    ultimately have "drained h q (G @ bs) h2 ?q2 G2"
      using r(3) same_on_trans [OF same1 r(6)] unfolding drained_def by auto
    moreover have "qc_rep h2 c1 []" using t(3) by (simp add: qc_rep_def fwd_rep_def)
    ultimately show ?thesis using run t(4) by blast
  qed
qed

section \<open>Putting a chunk into the quarantine\<close>

text \<open>
  The state of the quarantine: the global cache with the batches \<open>G\<close>, and a cache for each thread \<open>t\<close> with the
  batches \<open>T t\<close>; no batch is in two caches.
\<close>

definition q_rep :: "qheap \<Rightarrow> quar \<Rightarrow> ('t \<Rightarrow> qcache) \<Rightarrow> uptr list \<Rightarrow> ('t \<Rightarrow> uptr list) \<Rightarrow> bool" where
  "q_rep h q C G T \<longleftrightarrow> qc_rep h (q_cache q) G \<and> (\<forall>t. qc_rep h (C t) (T t)) \<and> (\<forall>t. set G \<inter> set (T t) = {})
     \<and> (\<forall>t u. t \<noteq> u \<longrightarrow> set (T t) \<inter> set (T u) = {})"

text \<open>
  \<open>put_effect\<close>: what a \<^verbatim>\<open>Put\<close> by thread \<open>t\<close> does. The chunks leave the quarantine in the order in which they
  came into the cache, the chunks of the other threads stay, the own cache respects its limit, and the global one
  too when no other thread is recycling.
\<close>

definition put_effect ::
  "uptr \<Rightarrow> qheap \<Rightarrow> quar \<Rightarrow> uptr list \<Rightarrow> ('t \<Rightarrow> uptr list) \<Rightarrow> 't \<Rightarrow> qheap \<Rightarrow> quar \<Rightarrow> qcache \<Rightarrow> uptr list \<Rightarrow> uptr list \<Rightarrow> bool" where
  "put_effect ptr h q G T t h' q' c' G' B \<longleftrightarrow>
     (if max_cache_size q = 0
      then q_recycled h' @ chunks h' G' @ chunks h' B = q_recycled h @ ptr # chunks h G @ chunks h (T t)
      else q_recycled h' @ chunks h' G' @ chunks h' B = q_recycled h @ chunks h G @ chunks h (T t) @ [ptr])
     \<and> (\<forall>u. u \<noteq> t \<longrightarrow> chunks h' (T u) = chunks h (T u)) \<and> qc_size c' \<le> max_cache_size q
     \<and> q' = q\<lparr>q_cache := q_cache q'\<rparr>
     \<and> (\<not> recycle_locked q \<longrightarrow> min_size q \<le> max_size q \<longrightarrow> qc_size (q_cache q) \<le> max_size q \<longrightarrow>
         qc_size (q_cache q') \<le> max_size q)"

lemma drained_ok:
  assumes "drained h q Q h' q' G'"
  shows "q_recycled h' @ chunks h' G' = q_recycled h @ chunks h Q" "qc_rep h' (q_cache q') G'" "set G' \<subseteq> set Q"
    "same_on (- set Q) h h'" "q' = q\<lparr>q_cache := q_cache q'\<rparr>"
    "\<not> recycle_locked q \<Longrightarrow> min_size q \<le> max_size q \<Longrightarrow> qc_size (q_cache q') \<le> max_size q"
  using assms by (auto simp: drained_def)

text \<open>The second half of \<^verbatim>\<open>Put\<close>: after the chunk is stored or recycled, the thread drains its cache if it is too large.\<close>

lemma put_drain:
  assumes G: "qc_rep h (q_cache q) G" and c: "qc_rep h c B" and dis: "set G \<inter> set B = {}"
    and sz: "total h G + total h B < 2 ^ 64"
  shows "\<exists>h' q' c' G' B'. (if max_cache_size q < qc_size c then Drain (h, q, c) else Some (Inr (h, q, c))) = Some (Inr (h', q', c'))
    \<and> qc_rep h' (q_cache q') G' \<and> qc_rep h' c' B' \<and> set G' \<inter> set B' = {} \<and> set G' \<union> set B' \<subseteq> set G \<union> set B
    \<and> q_recycled h' @ chunks h' G' @ chunks h' B' = q_recycled h @ chunks h G @ chunks h B
    \<and> qc_size c' \<le> max_cache_size q \<and> same_on (- (set G \<union> set B)) h h' \<and> q' = q\<lparr>q_cache := q_cache q'\<rparr>
    \<and> (\<not> recycle_locked q \<longrightarrow> min_size q \<le> max_size q \<longrightarrow> qc_size (q_cache q) \<le> max_size q \<longrightarrow>
         qc_size (q_cache q') \<le> max_size q)"
proof (cases "max_cache_size q < qc_size c")
  case False
  have "same_on A h h" for A by (simp add: same_on_def)
  with False G c dis show ?thesis
    by (intro exI [of _ h] exI [of _ q] exI [of _ c] exI [of _ G] exI [of _ B]) simp
next
  case True
  obtain h' q' c' G' where d: "Drain (h, q, c) = Some (Inr (h', q', c'))" "qc_rep h' c' []" "qc_size c' = 0"
    "drained h q (G @ B) h' q' G'" using Drain_ok [OF G c dis sz] by blast
  show ?thesis using True d(1,2,3) drained_ok [OF d(4)]
    by (intro exI [of _ h'] exI [of _ q'] exI [of _ c'] exI [of _ G'] exI [of _ "[]"] conjI) simp_all
qed

lemma q_rep_others:
  assumes R: "q_rep h q C G T" and same: "\<And>u. u \<noteq> t \<Longrightarrow> same_on (set (T u)) h h'"
    and G: "qc_rep h' (q_cache q') G'" and B: "qc_rep h' c' B" and dis: "set G' \<inter> set B = {}"
    and sub: "set G' \<union> set B \<subseteq> set G \<union> set (T t) \<union> - q_used h"
  shows "q_rep h' q' (C(t := c')) G' (T(t := B))" and "\<forall>u. u \<noteq> t \<longrightarrow> chunks h' (T u) = chunks h (T u)"
proof -
  have T: "qc_rep h (C u) (T u)" "set (T u) \<subseteq> q_used h" for u using R by (auto simp: q_rep_def qc_rep_def)
  have away: "set (T u) \<inter> (set G' \<union> set B) = {}" if "u \<noteq> t" for u
  proof -
    have "set (T u) \<inter> set G = {}" "set (T u) \<inter> set (T t) = {}" using R that by (auto simp: q_rep_def)
    then show ?thesis using sub T(2) [of u] by blast
  qed
  have "qc_rep h' (C u) (T u)" if "u \<noteq> t" for u using qc_rep_frame(1) [OF T(1) same [OF that]] .
  then show "q_rep h' q' (C(t := c')) G' (T(t := B))"
    unfolding q_rep_def
  proof (intro conjI allI impI)
    have aw: "set G' \<inter> set (T u) = {}" "set B \<inter> set (T u) = {}" if "u \<noteq> t" for u
      using away [OF that] by blast+
    show "set G' \<inter> set ((T(t := B)) u) = {}" for u using aw(1) [of u] dis by simp
    show "set ((T(t := B)) u) \<inter> set ((T(t := B)) v) = {}" if "u \<noteq> v" for u v
      using aw(2) R that by (cases "u = t"; cases "v = t") (auto simp: q_rep_def)
  qed (use G B \<open>\<And>u. u \<noteq> t \<Longrightarrow> qc_rep h' (C u) (T u)\<close> in simp_all)
  show "\<forall>u. u \<noteq> t \<longrightarrow> chunks h' (T u) = chunks h (T u)" using qc_rep_frame(2) [OF T(1) same] by blast
qed

lemma Put_ok:
  assumes R: "q_rep h q C G T" and al: "alloc_fresh alloc"
    and sz: "total h G + total h (T t) + unat sz + 8192 < 2 ^ 64"
  shows "q_Put alloc ptr sz (h, q, C t) = Some (Inl (CheckFailed ''b'')) \<and> alloc h = 0
    \<or> (\<exists>h' q' c' G' B. q_Put alloc ptr sz (h, q, C t) = Some (Inr (h', q', c'))
        \<and> q_rep h' q' (C(t := c')) G' (T(t := B)) \<and> put_effect ptr h q G T t h' q' c' G' B)"
proof -
  have G: "qc_rep h (q_cache q) G" and c: "qc_rep h (C t) (T t)" and dis: "set G \<inter> set (T t) = {}"
    and used: "\<And>u. set (T u) \<subseteq> q_used h"
    using R by (simp_all add: q_rep_def qc_rep_def)
  have apart: "set (T u) \<inter> (set G \<union> set (T t)) = {}" if "u \<noteq> t" for u
    using R that unfolding q_rep_def by blast
  show ?thesis
  proof (cases "max_cache_size q = 0")
    case True
    let ?h = "h\<lparr>q_recycled := q_recycled h @ [ptr]\<rparr>"
    have same: "same_on A h ?h" for A by (simp add: same_on_def)
    note F = qc_rep_frame [OF G same] qc_rep_frame [OF c same]
    have tot: "total ?h G + total ?h (T t) < 2 ^ 64" using sz F(3,6) by simp
    obtain h' q' c' G' B where d: "(if max_cache_size q < qc_size (C t) then Drain (?h, q, C t) else Some (Inr (?h, q, C t))) = Some (Inr (h', q', c'))"
      "qc_rep h' (q_cache q') G'" "qc_rep h' c' B" "set G' \<inter> set B = {}" "set G' \<union> set B \<subseteq> set G \<union> set (T t)"
      "q_recycled h' @ chunks h' G' @ chunks h' B = q_recycled ?h @ chunks ?h G @ chunks ?h (T t)"
      "qc_size c' \<le> max_cache_size q" "same_on (- (set G \<union> set (T t))) ?h h'" "q' = q\<lparr>q_cache := q_cache q'\<rparr>"
      "\<not> recycle_locked q \<longrightarrow> min_size q \<le> max_size q \<longrightarrow> qc_size (q_cache q) \<le> max_size q \<longrightarrow> qc_size (q_cache q') \<le> max_size q"
      using put_drain [OF F(1,4) dis tot] by (elim exE conjE) (rule that, assumption+)
    have run: "q_Put alloc ptr sz (h, q, C t) = Some (Inr (h', q', c'))"
      using d(1) True by (simp add: q_Put_def)
    have so: "same_on (set (T u)) h h'" if "u \<noteq> t" for u
      using apart [OF that] by (intro same_on_mono [OF same_on_trans [OF same d(8)]]) blast
    have sub: "set G' \<union> set B \<subseteq> set G \<union> set (T t) \<union> - q_used h" using d(5) by blast
    note Q = q_rep_others [OF R so d(2,3,4) sub]
    have "put_effect ptr h q G T t h' q' c' G' B"
      unfolding put_effect_def using Q(2) d(6,7,9,10) F(2,5) True by simp
    then show ?thesis using run Q(1) by blast
  next
    case False
    have sz1: "total h (T t) + unat sz + 8192 < 2 ^ 64" using sz by simp
    consider (oom) "Enqueue alloc ptr sz (h, C t) = Inl (CheckFailed ''b'')" "alloc h = 0"
      | (ok) h1 c1 B1 where "Enqueue alloc ptr sz (h, C t) = Inr (h1, c1)" "grown [ptr] h (T t) h1 c1 B1"
          "total h1 B1 \<le> total h (T t) + unat sz + 8192"
      using Enqueue_ok [OF c al sz1, of ptr] by (elim disjE exE conjE) blast+
    then show ?thesis
    proof cases
      case oom
      then show ?thesis using False by (simp add: q_Put_def)
    next
      case ok
      have g: "qc_rep h1 c1 B1" "chunks h1 B1 = chunks h (T t) @ [ptr]" "same_on (q_used h - set (T t)) h h1"
        "q_recycled h1 = q_recycled h" "set B1 \<subseteq> set (T t) \<union> - q_used h"
        using ok(2) by (simp_all add: grown_def)
      have Gu: "set G \<subseteq> q_used h" using G by (simp add: qc_rep_def)
      have sG: "same_on (set G) h h1" using Gu dis by (intro same_on_mono [OF g(3)]) blast
      note F = qc_rep_frame [OF G sG]
      have dis1: "set G \<inter> set B1 = {}" using g(5) Gu dis by blast
      have tot: "total h1 G + total h1 B1 < 2 ^ 64" using ok(3) sz F(3) by simp
      obtain h' q' c' G' B where d: "(if max_cache_size q < qc_size c1 then Drain (h1, q, c1) else Some (Inr (h1, q, c1))) = Some (Inr (h', q', c'))"
        "qc_rep h' (q_cache q') G'" "qc_rep h' c' B" "set G' \<inter> set B = {}" "set G' \<union> set B \<subseteq> set G \<union> set B1"
        "q_recycled h' @ chunks h' G' @ chunks h' B = q_recycled h1 @ chunks h1 G @ chunks h1 B1"
        "qc_size c' \<le> max_cache_size q" "same_on (- (set G \<union> set B1)) h1 h'" "q' = q\<lparr>q_cache := q_cache q'\<rparr>"
        "\<not> recycle_locked q \<longrightarrow> min_size q \<le> max_size q \<longrightarrow> qc_size (q_cache q) \<le> max_size q \<longrightarrow> qc_size (q_cache q') \<le> max_size q"
        using put_drain [OF F(1) g(1) dis1 tot] by (elim exE conjE) (rule that, assumption+)
      have run: "q_Put alloc ptr sz (h, q, C t) = Some (Inr (h', q', c'))"
        using d(1) False ok(1) by (simp add: q_Put_def)
      have so: "same_on (set (T u)) h h'" if "u \<noteq> t" for u
      proof -
        have "same_on (set (T u)) h h1" using used [of u] apart [OF that] by (intro same_on_mono [OF g(3)]) blast
        moreover have "same_on (set (T u)) h1 h'"
          using g(5) used [of u] apart [OF that] by (intro same_on_mono [OF d(8)]) blast
        ultimately show ?thesis by (rule same_on_trans)
      qed
      have sub: "set G' \<union> set B \<subseteq> set G \<union> set (T t) \<union> - q_used h" using d(5) g(5) by blast
      note Q = q_rep_others [OF R so d(2,3,4) sub]
      have "put_effect ptr h q G T t h' q' c' G' B"
        unfolding put_effect_def using Q(2) d(6,7,9,10) F(2) g(2,4) False by simp
      then show ?thesis using run Q(1) by blast
    qed
  qed
qed

text \<open>After \<^verbatim>\<open>Init\<close>, recycling stops at nine tenths of the limit.\<close>

lemma q_Init_limits:
  assumes "q_Init sz cache_size q = Inr q'"
  shows "min_size q' \<le> max_size q'" "max_size q' = sz" "max_cache_size q' = 0 \<Longrightarrow> max_size q' = 0"
proof -
  have "unat (sz div 10 * 9) = unat sz div 10 * 9"
    using unat_lt_64 [of sz] by (simp add: unat_mult_lem [THEN iffD1] unat_div)
  then have "sz div 10 * 9 \<le> sz" by (simp add: word_le_nat_alt)
  then show "min_size q' \<le> max_size q'" "max_size q' = sz" "max_cache_size q' = 0 \<Longrightarrow> max_size q' = 0"
    using assms by (auto simp: q_Init_def check_def split: if_splits)
qed

text \<open>\<^verbatim>\<open>PrintStats\<close> ends and prints the number of batches, their bytes and their chunks.\<close>

lemma stats_loop_chain:
  assumes "chain (q_next h) bs 0"
  shows "stats_loop h (hd0 bs) (a, b, c) =
    Some (a + of_nat (length bs), b + of_nat (total h bs), c + of_nat (length (chunks h bs)))"
  using assms
proof (induction bs arbitrary: a b c)
  case Nil
  then show ?case by (subst stats_loop.simps) simp
next
  case (Cons x bs)
  have n: "q_next h x = hd0 bs" "x \<noteq> 0" "chain (q_next h) bs 0" using Cons.prems by auto
  have "stats_loop h (hd0 (x # bs)) (a, b, c) =
      stats_loop h (hd0 bs) (a + 1, b + qb_size (q_mem h x), c + qb_count (q_mem h x))"
    using n(1,2) by (subst stats_loop.simps) simp
  then show ?case using Cons.IH [OF n(3)] by (simp add: batch_chunks_def add.assoc)
qed

lemma PrintStats_ok:
  assumes "qc_rep h c bs"
  shows "PrintStats h c = Some (of_nat (length bs), qc_size c, of_nat (length (chunks h bs)), of_nat (length bs) * 1021)"
proof -
  have "chain (q_next h) bs 0" "lfirst (qc_list c) = hd0 bs" "total h bs = unat (qc_size c)"
    using assms by (auto simp: qc_rep_def fwd_rep_def)
  then show ?thesis by (simp add: PrintStats_def stats_loop_chain kBatchSize_def)
qed

text \<open>
  C5. \<^verbatim>\<open>Put\<close> of the quarantine always returns, or fails its \<^verbatim>\<open>CHECK\<close> because the callback has no memory for a
  batch, as long as the sum of the sizes fits a word. When it returns, no chunk was lost or duplicated: the chunks
  recycled so far, those in the global cache and those in the cache of the thread are, in this order, the same
  sequence as before with the new chunk at its end (recycled at once when thread caches are disabled); the
  chunks of other threads are untouched, the thread's cache is within its limit, and so is the global one unless another thread
  holds the recycling lock. The lists of batches stay disjoint and well-formed.
\<close>

theorem quarantine_put:
  assumes "q_rep h q C G T" and "alloc_fresh alloc" and "total h G + total h (T t) + unat sz + 8192 < 2 ^ 64"
  shows "q_Put alloc ptr sz (h, q, C t) = Some (Inl (CheckFailed ''b'')) \<and> alloc h = 0
    \<or> (\<exists>h' q' c' G' B. q_Put alloc ptr sz (h, q, C t) = Some (Inr (h', q', c'))
        \<and> q_rep h' q' (C(t := c')) G' (T(t := B)) \<and> put_effect ptr h q G T t h' q' c' G' B)"
  using assms by (rule Put_ok)

theorem quarantine_put_witness:
  "\<exists>h (q :: quar) (C :: nat \<Rightarrow> qcache) alloc. alloc h = 16 \<and> max_cache_size q = 64 \<and>
    (\<exists>h' q' c' G' B. q_Put alloc 4096 48 (h, q, C 3) = Some (Inr (h', q', c'))
        \<and> q_rep h' q' (C(3 := c')) G' ((\<lambda>_. [])(3 := B)) \<and> put_effect 4096 h q [] (\<lambda>_. []) (3 :: nat) h' q' c' G' B)"
proof -
  let ?h = "\<lparr>q_next = \<lambda>_. 0, q_mem = \<lambda>_. \<lparr>qb_size = 7, qb_count = 9, qb_batch = \<lambda>_. 5\<rparr>, q_used = {}, q_recycled = [32]\<rparr>"
  let ?q = "\<lparr>max_size = 256, min_size = 225, max_cache_size = 64, recycle_locked = False, q_cache = qc_new\<rparr>"
  let ?al = "\<lambda>h. if 16 \<in> q_used h then 0 else 16"
  have "q_rep ?h ?q (\<lambda>_ :: nat. qc_new) [] (\<lambda>_. [])" by (simp add: q_rep_def qc_new_rep)
  moreover have "alloc_fresh ?al" by (simp add: alloc_fresh_def)
  ultimately have "\<exists>h' q' c' G' B. q_Put ?al 4096 48 (?h, ?q, qc_new) = Some (Inr (h', q', c'))
        \<and> q_rep h' q' ((\<lambda>_ :: nat. qc_new)(3 := c')) G' ((\<lambda>_. [])(3 := B)) \<and> put_effect 4096 ?h ?q [] (\<lambda>_. []) (3 :: nat) h' q' c' G' B"
    using quarantine_put [of ?h ?q "\<lambda>_ :: nat. qc_new" "[]" "\<lambda>_. []" ?al 3 48 4096] by simp
  then show ?thesis
    by - (rule exI [of _ ?h], rule exI [of _ ?q], rule exI [of _ "\<lambda>_. qc_new"], rule exI [of _ ?al], intro conjI, simp_all)
qed

end
