(* ===== verification/CString.thy ===== *)
theory CString
  imports Libc
begin

text \<open>
  The string functions of \<^verbatim>\<open>sanitizer_libc.cc\<close> over a byte memory. A loop that looks for the end of a string is a
  partial function: without a zero byte it does not end. Characters are signed bytes on this target.
\<close>

type_synonym i32 = "32 word"

text \<open>A \<^verbatim>\<open>char\<close> promoted to \<^verbatim>\<open>int\<close>.\<close>

definition char_int :: "u8 \<Rightarrow> i32" where
  "char_int c = scast c"

section \<open>Memory blocks\<close>

fun memchr_loop :: "mem \<Rightarrow> uptr \<Rightarrow> i32 \<Rightarrow> nat \<Rightarrow> uptr" where
  "memchr_loop m t c 0 = 0"
| "memchr_loop m t c (Suc k) = (if char_int (m t) = c then t else memchr_loop m (t + 1) c k)"

definition internal_memchr :: "mem \<Rightarrow> uptr \<Rightarrow> i32 \<Rightarrow> uptr \<Rightarrow> uptr" where
  "internal_memchr m s c n = memchr_loop m s c (unat n)"

fun memrchr_loop :: "mem \<Rightarrow> uptr \<Rightarrow> i32 \<Rightarrow> nat \<Rightarrow> uptr \<Rightarrow> uptr" where
  "memrchr_loop m t c 0 res = res"
| "memrchr_loop m t c (Suc k) res = memrchr_loop m (t + 1) c k (if char_int (m t) = c then t else res)"

definition internal_memrchr :: "mem \<Rightarrow> uptr \<Rightarrow> i32 \<Rightarrow> uptr \<Rightarrow> uptr" where
  "internal_memrchr m s c n = memrchr_loop m s c (unat n) 0"

fun memcmp_loop :: "mem \<Rightarrow> uptr \<Rightarrow> uptr \<Rightarrow> nat \<Rightarrow> i32" where
  "memcmp_loop m t1 t2 0 = 0"
| "memcmp_loop m t1 t2 (Suc k) =
     (if m t1 \<noteq> m t2 then if m t1 <s m t2 then -1 else 1 else memcmp_loop m (t1 + 1) (t2 + 1) k)"

definition internal_memcmp :: "mem \<Rightarrow> uptr \<Rightarrow> uptr \<Rightarrow> uptr \<Rightarrow> i32" where
  "internal_memcmp m s1 s2 n = memcmp_loop m s1 s2 (unat n)"

fun copy_fwd :: "uptr \<Rightarrow> uptr \<Rightarrow> nat \<Rightarrow> mem \<Rightarrow> mem" where
  "copy_fwd d s 0 m = m"
| "copy_fwd d s (Suc k) m = copy_fwd (d + 1) (s + 1) k (m(d := m s))"

fun copy_bwd :: "uptr \<Rightarrow> uptr \<Rightarrow> nat \<Rightarrow> mem \<Rightarrow> mem" where
  "copy_bwd d s 0 m = m"
| "copy_bwd d s (Suc k) m = copy_bwd d s k (m(d + of_nat k := m (s + of_nat k)))"

definition internal_memmove :: "uptr \<Rightarrow> uptr \<Rightarrow> uptr \<Rightarrow> mem \<Rightarrow> mem res" where
  "internal_memmove d s n m =
     check (0 \<le>s n) ''signed_n >= 0'' (
     Inr (if d < s then copy_fwd d s (unat n) m
          else if d > s \<and> 0 <s n then copy_bwd d s (unat n) m
          else m))"

fun memset_loop :: "uptr \<Rightarrow> u8 \<Rightarrow> nat \<Rightarrow> mem \<Rightarrow> mem" where
  "memset_loop t c 0 m = m"
| "memset_loop t c (Suc k) m = memset_loop (t + 1) c k (m(t := c))"

section \<open>Lengths and searches\<close>

partial_function (option) strlen_loop :: "mem \<Rightarrow> uptr \<Rightarrow> uptr \<Rightarrow> uptr option" where
  "strlen_loop m s i = (if m (s + i) \<noteq> 0 then strlen_loop m s (i + 1) else Some i)"

definition internal_strlen :: "mem \<Rightarrow> uptr \<Rightarrow> uptr option" where
  "internal_strlen m s = strlen_loop m s 0"

function strnlen_loop :: "mem \<Rightarrow> uptr \<Rightarrow> uptr \<Rightarrow> uptr \<Rightarrow> uptr" where
  "strnlen_loop m s maxlen i = (if i < maxlen \<and> m (s + i) \<noteq> 0 then strnlen_loop m s maxlen (i + 1) else i)"
  by pat_completeness auto
termination
  by (relation "measure (\<lambda>(m, s, maxlen, i). unat maxlen - unat i)") (auto simp: unat_succ_less word_less_nat_alt)

declare strnlen_loop.simps [simp del]

definition internal_strnlen :: "mem \<Rightarrow> uptr \<Rightarrow> uptr \<Rightarrow> uptr" where
  "internal_strnlen m s maxlen = strnlen_loop m s maxlen 0"

partial_function (option) strchr_loop :: "mem \<Rightarrow> uptr \<Rightarrow> u8 \<Rightarrow> uptr option" where
  "strchr_loop m s c = (if m s = c then Some s else if m s = 0 then Some 0 else strchr_loop m (s + 1) c)"

definition internal_strchr :: "mem \<Rightarrow> uptr \<Rightarrow> i32 \<Rightarrow> uptr option" where
  "internal_strchr m s c = strchr_loop m s (ucast c)"

definition internal_strchrnul :: "mem \<Rightarrow> uptr \<Rightarrow> i32 \<Rightarrow> uptr option" where
  "internal_strchrnul m s c =
     Option.bind (internal_strchr m s c) (\<lambda>res.
     if res = 0 then map_option (\<lambda>n. s + n) (internal_strlen m s) else Some res)"

partial_function (option) strcspn_loop :: "mem \<Rightarrow> uptr \<Rightarrow> uptr \<Rightarrow> uptr \<Rightarrow> uptr option" where
  "strcspn_loop m s reject i =
     (if m (s + i) = 0 then Some i
      else Option.bind (internal_strchr m reject (char_int (m (s + i)))) (\<lambda>r.
        if r \<noteq> 0 then Some i else strcspn_loop m s reject (i + 1)))"

definition internal_strcspn :: "mem \<Rightarrow> uptr \<Rightarrow> uptr \<Rightarrow> uptr option" where
  "internal_strcspn m s reject = strcspn_loop m s reject 0"

partial_function (option) strrchr_loop :: "mem \<Rightarrow> uptr \<Rightarrow> i32 \<Rightarrow> uptr \<Rightarrow> uptr \<Rightarrow> uptr option" where
  "strrchr_loop m s c i res =
     (if m (s + i) = 0 then Some res
      else strrchr_loop m s c (i + 1) (if char_int (m (s + i)) = c then s + i else res))"

definition internal_strrchr :: "mem \<Rightarrow> uptr \<Rightarrow> i32 \<Rightarrow> uptr option" where
  "internal_strrchr m s c = strrchr_loop m s c 0 0"

partial_function (option) strstr_loop :: "mem \<Rightarrow> uptr \<Rightarrow> uptr \<Rightarrow> uptr \<Rightarrow> uptr \<Rightarrow> uptr \<Rightarrow> uptr option" where
  "strstr_loop m haystack needle len2 diff pos =
     (if pos \<le> diff then
        if internal_memcmp m (haystack + pos) needle len2 = 0 then Some (haystack + pos)
        else strstr_loop m haystack needle len2 diff (pos + 1)
      else Some 0)"

definition internal_strstr :: "mem \<Rightarrow> uptr \<Rightarrow> uptr \<Rightarrow> uptr option" where
  "internal_strstr m haystack needle =
     Option.bind (internal_strlen m haystack) (\<lambda>len1.
     Option.bind (internal_strlen m needle) (\<lambda>len2.
     if len1 < len2 then Some 0 else strstr_loop m haystack needle len2 (len1 - len2) 0))"

text \<open>A \<^verbatim>\<open>wchar_t\<close> has four bytes.\<close>

partial_function (option) wcslen_loop :: "mem \<Rightarrow> uptr \<Rightarrow> uptr \<Rightarrow> uptr option" where
  "wcslen_loop m s i = (if load_le m (s + 4 * i) 4 \<noteq> 0 then wcslen_loop m s (i + 1) else Some i)"

definition internal_wcslen :: "mem \<Rightarrow> uptr \<Rightarrow> uptr option" where
  "internal_wcslen m s = wcslen_loop m s 0"

section \<open>Comparisons\<close>

text \<open>The characters are converted to \<^verbatim>\<open>unsigned\<close>.\<close>

partial_function (option) internal_strcmp :: "mem \<Rightarrow> uptr \<Rightarrow> uptr \<Rightarrow> i32 option" where
  "internal_strcmp m s1 s2 =
     (if char_int (m s1) \<noteq> char_int (m s2) then Some (if char_int (m s1) < char_int (m s2) then -1 else 1)
      else if char_int (m s1) = 0 then Some 0
      else internal_strcmp m (s1 + 1) (s2 + 1))"

fun strncmp_loop :: "mem \<Rightarrow> uptr \<Rightarrow> uptr \<Rightarrow> nat \<Rightarrow> i32" where
  "strncmp_loop m s1 s2 0 = 0"
| "strncmp_loop m s1 s2 (Suc k) =
     (if char_int (m s1) \<noteq> char_int (m s2) then if char_int (m s1) < char_int (m s2) then -1 else 1
      else if char_int (m s1) = 0 then 0
      else strncmp_loop m (s1 + 1) (s2 + 1) k)"

definition internal_strncmp :: "mem \<Rightarrow> uptr \<Rightarrow> uptr \<Rightarrow> uptr \<Rightarrow> i32" where
  "internal_strncmp m s1 s2 n = strncmp_loop m s1 s2 (unat n)"

section \<open>Copies of strings\<close>

definition internal_strlcpy :: "uptr \<Rightarrow> uptr \<Rightarrow> uptr \<Rightarrow> mem \<Rightarrow> (uptr \<times> mem) run" where
  "internal_strlcpy dst src maxlen m =
     Option.bind (internal_strlen m src) (\<lambda>srclen.
     if srclen < maxlen then
       Some (bindr (internal_memmove dst src (srclen + 1) m) (\<lambda>m'. Inr (srclen, m')))
     else if maxlen \<noteq> 0 then
       Some (bindr (internal_memmove dst src (maxlen - 1) m) (\<lambda>m'. Inr (srclen, m'(dst + (maxlen - 1) := 0))))
     else Some (Inr (srclen, m)))"

definition internal_strlcat :: "uptr \<Rightarrow> uptr \<Rightarrow> uptr \<Rightarrow> mem \<Rightarrow> (uptr \<times> mem) run" where
  "internal_strlcat dst src maxlen m =
     Option.bind (internal_strlen m src) (\<lambda>srclen.
     let dstlen = internal_strnlen m dst maxlen in
     if dstlen = maxlen then Some (Inr (maxlen + srclen, m))
     else if srclen < maxlen - dstlen then
       Some (bindr (internal_memmove (dst + dstlen) src (srclen + 1) m) (\<lambda>m'. Inr (dstlen + srclen, m')))
     else
       Some (bindr (internal_memmove (dst + dstlen) src (maxlen - dstlen - 1) m) (\<lambda>m'.
         Inr (dstlen + srclen, m'(dst + (maxlen - 1) := 0)))))"

text \<open>\<^verbatim>\<open>for (i = 0; i < n && src[i]; i++) dst[i] = src[i];\<close> with the final index as result.\<close>

function copy_chars :: "uptr \<Rightarrow> uptr \<Rightarrow> uptr \<Rightarrow> uptr \<Rightarrow> mem \<Rightarrow> uptr \<times> mem" where
  "copy_chars dst src n i m =
     (if i < n \<and> m (src + i) \<noteq> 0 then copy_chars dst src n (i + 1) (m(dst + i := m (src + i))) else (i, m))"
  by pat_completeness auto
termination
  by (relation "measure (\<lambda>(dst, src, n, i, m). unat n - unat i)") (auto simp: unat_succ_less word_less_nat_alt)

declare copy_chars.simps [simp del]

definition internal_strncat :: "uptr \<Rightarrow> uptr \<Rightarrow> uptr \<Rightarrow> mem \<Rightarrow> mem option" where
  "internal_strncat dst src n m =
     map_option (\<lambda>len. let (i, m') = copy_chars (dst + len) src n 0 m in m'(dst + len + i := 0)) (internal_strlen m dst)"

definition internal_strncpy :: "uptr \<Rightarrow> uptr \<Rightarrow> uptr \<Rightarrow> mem \<Rightarrow> mem" where
  "internal_strncpy dst src n m =
     (let (i, m') = copy_chars dst src n 0 m in memset_loop (dst + i) 0 (unat (n - i)) m')"

text \<open>\<^verbatim>\<open>InternalAlloc\<close> is the parameter \<open>alloc\<close>, the address of a new block of the given size.\<close>

definition internal_strdup :: "(uptr \<Rightarrow> uptr) \<Rightarrow> uptr \<Rightarrow> mem \<Rightarrow> (uptr \<times> mem) option" where
  "internal_strdup alloc s m =
     map_option (\<lambda>len. let s2 = alloc (len + 1) in (s2, (copy_fwd s2 s (unat len) m)(s2 + len := 0))) (internal_strlen m s)"

definition internal_strndup :: "(uptr \<Rightarrow> uptr) \<Rightarrow> uptr \<Rightarrow> uptr \<Rightarrow> mem \<Rightarrow> uptr \<times> mem" where
  "internal_strndup alloc s n m =
     (let len = internal_strnlen m s n; s2 = alloc (len + 1) in (s2, (copy_fwd s2 s (unat len) m)(s2 + len := 0)))"

section \<open>Numbers\<close>

definition IsSpace :: "i32 \<Rightarrow> bool" where
  "IsSpace c \<longleftrightarrow> c = 32 \<or> c = 10 \<or> c = 9 \<or> c = 12 \<or> c = 13 \<or> c = 11"

definition IsDigit :: "i32 \<Rightarrow> bool" where
  "IsDigit c \<longleftrightarrow> 48 \<le>s c \<and> c \<le>s 57"

definition ToLower :: "i32 \<Rightarrow> i32" where
  "ToLower c = (if 65 \<le>s c \<and> c \<le>s 90 then c + 97 - 65 else c)"

partial_function (option) skip_space :: "mem \<Rightarrow> uptr \<Rightarrow> uptr option" where
  "skip_space m p = (if IsSpace (char_int (m p)) then skip_space m (p + 1) else Some p)"

definition UINT64_MAX :: u64 where
  "UINT64_MAX = - 1"

definition INT64_MAX :: u64 where
  "INT64_MAX = 0x7FFFFFFFFFFFFFFF"

definition add_digit :: "u64 \<Rightarrow> u8 \<Rightarrow> u64" where
  "add_digit res c =
     (let res = (if res \<le> UINT64_MAX div 10 then res * 10 else UINT64_MAX);
          digit = scast (char_int c - 48) in
      if res \<le> UINT64_MAX - digit then res + digit else UINT64_MAX)"

partial_function (option) read_digits :: "mem \<Rightarrow> uptr \<Rightarrow> u64 \<Rightarrow> bool \<Rightarrow> (uptr \<times> u64 \<times> bool) option" where
  "read_digits m p res have_digits =
     (if IsDigit (char_int (m p)) then read_digits m (p + 1) (add_digit res (m p)) True
      else Some (p, res, have_digits))"

text \<open>The result is the number and the pointer that is stored through \<^verbatim>\<open>endptr\<close> when that is not null.\<close>

definition internal_simple_strtoll :: "mem \<Rightarrow> uptr \<Rightarrow> i32 \<Rightarrow> (u64 \<times> uptr) run" where
  "internal_simple_strtoll m nptr base =
     (if base \<noteq> 10 then Some (Inl (CheckFailed ''base == 10'')) else
     Option.bind (skip_space m nptr) (\<lambda>old_nptr.
     let negative = (m old_nptr = 45);
         p = (if m old_nptr = 43 \<or> negative then old_nptr + 1 else old_nptr) in
     Option.bind (read_digits m p 0 False) (\<lambda>(q, res, have_digits).
     Some (Inr (if \<not> negative then Min2 INT64_MAX res
                else if res > INT64_MAX then 0x8000000000000000 else res * - 1,
                if have_digits then q else old_nptr)))))"

definition internal_atoll :: "mem \<Rightarrow> uptr \<Rightarrow> u64 run" where
  "internal_atoll m nptr = map_option (map_sum id fst) (internal_simple_strtoll m nptr 10)"

section \<open>Strings in memory\<close>

text \<open>\<open>cstr m p s\<close>: the bytes \<open>s\<close>, none of them zero, stand at \<open>p\<close> and are followed by a zero byte.\<close>

fun bytes_at :: "mem \<Rightarrow> uptr \<Rightarrow> u8 list \<Rightarrow> bool" where
  "bytes_at m p [] = True"
| "bytes_at m p (c # cs) = (m p = c \<and> bytes_at m (p + 1) cs)"

definition cstr :: "mem \<Rightarrow> uptr \<Rightarrow> u8 list \<Rightarrow> bool" where
  "cstr m p s \<longleftrightarrow> bytes_at m p (s @ [0]) \<and> 0 \<notin> set s"

lemma bytes_at_append: "bytes_at m p (xs @ ys) \<longleftrightarrow> bytes_at m p xs \<and> bytes_at m (p + of_nat (length xs)) ys"
  by (induction xs arbitrary: p) (auto simp: add.assoc)

lemma cstr_simps [simp]:
  "cstr m p [] \<longleftrightarrow> m p = 0" "cstr m p (c # s) \<longleftrightarrow> m p = c \<and> c \<noteq> 0 \<and> cstr m (p + 1) s"
  by (auto simp: cstr_def)

lemma strlen_cstr: "cstr m (p + i) s \<Longrightarrow> strlen_loop m p i = Some (i + of_nat (length s))"
proof (induction s arbitrary: i)
  case (Cons c s)
  then have "strlen_loop m p (i + 1) = Some (i + 1 + of_nat (length s))" by (simp add: add.assoc)
  with Cons.prems show ?case by (subst strlen_loop.simps) (simp add: add.assoc)
qed (subst strlen_loop.simps, simp)

lemma internal_strlen_cstr: "cstr m p s \<Longrightarrow> internal_strlen m p = Some (of_nat (length s))"
  by (simp add: internal_strlen_def strlen_cstr)

lemma strchr_cstr:
  "cstr m p s \<Longrightarrow> strchr_loop m p c =
     Some (if c \<in> set (s @ [0]) then p + of_nat (length (takeWhile (\<lambda>x. x \<noteq> c) s)) else 0)"
proof (induction s arbitrary: p)
  case (Cons x s)
  then have "strchr_loop m (p + 1) c =
      Some (if c \<in> set (s @ [0]) then p + 1 + of_nat (length (takeWhile (\<lambda>x. x \<noteq> c) s)) else 0)" by simp
  with Cons.prems show ?case by (subst strchr_loop.simps) (auto simp: add.assoc)
qed (subst strchr_loop.simps, simp)

lemma char_int_inj [simp]: "char_int a = char_int b \<longleftrightarrow> a = b"
proof
  assume "char_int a = char_int b"
  then have e: "bit (char_int a) j = bit (char_int b) j" for j by simp
  have "bit a j = bit b j" if "j < 8" for j
    using e [of j] that by (cases "j = 7") (auto simp: char_int_def bit_simps min_def)
  then show "a = b" by (auto intro: bit_word_eqI)
qed simp

lemma char_int_0 [simp]: "char_int c = 0 \<longleftrightarrow> c = 0"
  using char_int_inj [of c 0] by (simp add: char_int_def)

text \<open>\<^verbatim>\<open>strcmp\<close> ends on two strings and returns 0 exactly when they are equal.\<close>

lemma strcmp_cstr: "cstr m p s \<Longrightarrow> cstr m q t \<Longrightarrow> \<exists>r. internal_strcmp m p q = Some r \<and> (r = 0 \<longleftrightarrow> s = t)"
proof (induction s arbitrary: p q t)
  case Nil
  then show ?case by (subst internal_strcmp.simps, cases t) auto
next
  case (Cons c s)
  show ?case
  proof (cases t)
    case Nil
    then show ?thesis using Cons.prems by (subst internal_strcmp.simps) auto
  next
    case (Cons d t')
    then show ?thesis using Cons.IH [of "p + 1" "q + 1" t'] Cons.prems by (subst internal_strcmp.simps) auto
  qed
qed

section \<open>\<open>memmove\<close> with overlapping blocks\<close>

text \<open>The \<open>k\<close> bytes from \<open>p\<close> on.\<close>

definition in_block :: "uptr \<Rightarrow> nat \<Rightarrow> uptr \<Rightarrow> bool" where
  "in_block p k a \<longleftrightarrow> unat p \<le> unat a \<and> unat a < unat p + k"

lemma unat_plus1: "unat p + 1 < 2 ^ 64 \<Longrightarrow> unat (p + 1 :: uptr) = unat p + 1"
  by (subst unat_add_nowrap) auto

lemma in_block_offset:
  assumes "in_block d k a" and "unat s + k \<le> 2 ^ 64"
  shows "unat (s + (a - d)) = unat s + (unat a - unat d)" "unat a - unat d < k"
proof -
  have i: "unat (a - d) = unat a - unat d" using assms(1) by (simp add: in_block_def unat_sub word_le_nat_alt)
  show "unat a - unat d < k" using assms(1) by (simp add: in_block_def) arith
  then show "unat (s + (a - d)) = unat s + (unat a - unat d)"
    using assms(2) by (subst unat_add_nowrap) (simp_all add: i)
qed

lemma copy_fwd_ok:
  assumes "d < s" and "unat s + k \<le> 2 ^ 64"
  shows "copy_fwd d s k m a = (if in_block d k a then m (s + (a - d)) else m a)"
  using assms
proof (induction k arbitrary: d s m)
  case 0
  then show ?case by (auto simp: in_block_def)
next
  case (Suc k)
  show ?case
  proof (cases k)
    case 0
    have "in_block d (Suc 0) a \<longleftrightarrow> a = d" by (auto simp: in_block_def word_unat_eq_iff)
    then show ?thesis using 0 by simp
  next
    case (Suc j)
    have ds: "unat d < unat s" "unat s + Suc k \<le> 2 ^ 64" using Suc.prems by (simp_all add: word_less_nat_alt)
    have u: "unat (d + 1) = unat d + 1" "unat (s + 1) = unat s + 1"
      using ds \<open>k = Suc j\<close> by (subst unat_add_nowrap; simp)+
    have "d + 1 < s + 1" "unat (s + 1) + k \<le> 2 ^ 64" using ds by (simp_all add: word_less_nat_alt u)
    note IH = Suc.IH [OF this, of "m(d := m s)"]
    have blk: "in_block d (Suc k) a \<longleftrightarrow> a = d \<or> in_block (d + 1) k a"
      by (auto simp: in_block_def u word_unat_eq_iff)
    have ne: "a \<noteq> d" "s + (a - d) \<noteq> d" if "in_block (d + 1) k a"
    proof -
      show "a \<noteq> d" using that by (auto simp: in_block_def u)
      have "in_block d (Suc k) a" using that blk by simp
      from in_block_offset [OF this ds(2)] ds(1) show "s + (a - d) \<noteq> d" by (auto simp: word_unat_eq_iff)
    qed
    have e: "s + 1 + (a - (d + 1)) = s + (a - d)" by simp
    show ?thesis unfolding copy_fwd.simps IH e using ne blk by auto
  qed
qed

lemma unat_of_nat_small: "k < 2 ^ 64 \<Longrightarrow> unat (of_nat k :: uptr) = k"
  by (simp add: unat_of_nat)

lemma copy_bwd_ok:
  assumes "s < d" and "unat d + k \<le> 2 ^ 64"
  shows "copy_bwd d s k m a = (if in_block d k a then m (s + (a - d)) else m a)"
  using assms
proof (induction k arbitrary: m)
  case 0
  then show ?case by (auto simp: in_block_def)
next
  case (Suc k)
  let ?k = "of_nat k :: uptr"
  have sd: "unat s < unat d" "unat d + Suc k \<le> 2 ^ 64" using Suc.prems by (simp_all add: word_less_nat_alt)
  have k: "unat ?k = k" using sd by (intro unat_of_nat_small) simp
  have u: "unat (d + ?k) = unat d + k" using sd k by (subst unat_add_nowrap) simp_all
  have blk: "in_block d (Suc k) a \<longleftrightarrow> a = d + ?k \<or> in_block d k a"
    by (auto simp: in_block_def u word_unat_eq_iff)
  have ne: "a \<noteq> d + ?k" "s + (a - d) \<noteq> d + ?k" if "in_block d k a"
  proof -
    show "a \<noteq> d + ?k" using that by (auto simp: in_block_def u)
    have "unat s + k \<le> 2 ^ 64" using sd by simp
    from in_block_offset [OF that this] sd(1) show "s + (a - d) \<noteq> d + ?k"
      by (auto simp: word_unat_eq_iff u)
  qed
  have "unat d + k \<le> 2 ^ 64" using sd by simp
  note IH = Suc.IH [OF Suc.prems(1) this, of "m(d + ?k := m (s + ?k))"]
  show ?case unfolding copy_bwd.simps IH using ne blk by auto
qed

text \<open>\<^verbatim>\<open>memmove\<close> moves the block as it was before, also when the two blocks overlap.\<close>

lemma sint_below:
  assumes "unat (n :: 'a::len word) < 2 ^ (LENGTH('a) - 1)"
  shows "sint n = int (unat n)"
proof -
  have "int (unat n) < int (2 ^ (LENGTH('a) - 1))" using assms by (simp only: of_nat_less_iff)
  then have "uint n < 2 ^ (LENGTH('a) - 1)" by simp
  moreover have "- (2 ^ (LENGTH('a) - 1)) \<le> uint n" by (rule order_trans [of _ 0]) simp_all
  ultimately have "signed_take_bit (LENGTH('a) - 1) (uint n) = uint n" by (intro signed_take_bit_int_eq_self)
  then show ?thesis by (simp add: sint_uint)
qed

lemma memmove_ok:
  assumes "unat d + unat n \<le> 2 ^ 64" and "unat s + unat n \<le> 2 ^ 64" and "unat n < 2 ^ 63"
  shows "internal_memmove d s n m = Inr (\<lambda>a. if in_block d (unat n) a then m (s + (a - d)) else m a)"
proof -
  have n: "0 \<le>s n" using sint_below [of n] assms(3) by (simp add: word_sle_eq)
  consider "d < s" | "s < d" "n \<noteq> 0" | "s = d \<or> n = 0" using linorder_cases by blast
  then show ?thesis
  proof cases
    case 1
    then show ?thesis using n copy_fwd_ok [OF 1 assms(2)] by (auto simp: internal_memmove_def fun_eq_iff)
  next
    case 2
    then have "0 < unat n" by (simp add: unat_gt_0)
    then have "int 0 < int (unat n)" by (simp only: of_nat_less_iff)
    then have "0 < sint n" using sint_below [of n] assms(3) by simp
    then have "0 <s n" "\<not> d < s" using 2(1) by (auto simp: word_sless_alt)
    then show ?thesis using n 2 copy_bwd_ok [OF 2(1) assms(1)] by (auto simp: internal_memmove_def fun_eq_iff)
  next
    case 3
    then show ?thesis using n by (auto simp: internal_memmove_def in_block_def fun_eq_iff)
  qed
qed

end
