(* ===== verification/Printf.thy ===== *)
theory Printf
  imports CString
begin

text \<open>
  \<^verbatim>\<open>sanitizer_printf.cc\<close>: the formatter behind every message of the runtime. The characters go through a pointer
  \<^verbatim>\<open>buff\<close> into memory until it meets \<^verbatim>\<open>buff_end\<close>, and are counted. The format is the list of its characters before
  the final zero, a \<^verbatim>\<open>va_list\<close> the list of its 8-byte slots.
\<close>

section \<open>Appending\<close>

record pout =
  p_mem :: mem
  p_buff :: uptr
  p_result :: i32

text \<open>\<^verbatim>\<open>result += AppendChar(buff, buff_end, c)\<close>\<close>

definition AppendChar :: "uptr \<Rightarrow> u8 \<Rightarrow> pout \<Rightarrow> pout" where
  "AppendChar buff_end c o1 =
     (let o2 = (if p_buff o1 < buff_end
                then o1\<lparr>p_mem := (p_mem o1)(p_buff o1 := c), p_buff := p_buff o1 + 1\<rparr> else o1)
      in o2\<lparr>p_result := p_result o2 + 1\<rparr>)"

definition kMaxLen :: nat where
  "kMaxLen = 30"

function digits_loop :: "uptr \<Rightarrow> u64 \<Rightarrow> uptr list \<Rightarrow> uptr list res" where
  "digits_loop base v num_buffer =
     (if length num_buffer \<ge> kMaxLen then Inl (CheckFailed ''AppendNumber buffer overflow'')
      else if v div base > 0 then digits_loop base (v div base) (num_buffer @ [v mod base])
      else Inr (num_buffer @ [v mod base]))"
  by pat_completeness auto
termination
  by (relation "measure (\<lambda>(base, v, nb). kMaxLen - length nb)") auto

declare digits_loop.simps [simp del]

text \<open>The two loops from the most significant position down; the first one stops at a digit that is not zero.\<close>

fun zeros_loop :: "uptr \<Rightarrow> bool \<Rightarrow> uptr list \<Rightarrow> pout \<Rightarrow> uptr list \<times> pout" where
  "zeros_loop buff_end pad_with_zero [] o1 = ([], o1)"
| "zeros_loop buff_end pad_with_zero (x # xs) o1 =
     (if x = 0 then zeros_loop buff_end pad_with_zero xs
        (AppendChar buff_end (if pad_with_zero \<or> xs = [] then 48 else 32) o1)
      else (x # xs, o1))"

definition digit_char :: "bool \<Rightarrow> uptr \<Rightarrow> u8" where
  "digit_char uppercase x =
     (let digit = (ucast x :: u8) in if digit <s 10 then 48 + digit else (if uppercase then 65 else 97) + digit - 10)"

definition put_digits :: "uptr \<Rightarrow> bool \<Rightarrow> uptr list \<Rightarrow> pout \<Rightarrow> pout" where
  "put_digits buff_end uppercase xs o1 = fold (\<lambda>x. AppendChar buff_end (digit_char uppercase x)) xs o1"

definition AppendNumber :: "uptr \<Rightarrow> u64 \<Rightarrow> u8 \<Rightarrow> u8 \<Rightarrow> bool \<Rightarrow> bool \<Rightarrow> bool \<Rightarrow> pout \<Rightarrow> pout res" where
  "AppendNumber buff_end absolute_value base minimal_num_length pad_with_zero negative uppercase o1 =
     check (base = 10 \<or> base = 16) ''base == 10 || base == 16'' (
     check (base = 10 \<or> \<not> negative) ''base == 10 || !negative'' (
     check (absolute_value \<noteq> 0 \<or> \<not> negative) ''absolute_value || !negative'' (
     check (unat minimal_num_length < kMaxLen) ''minimal_num_length < kMaxLen'' (
     let minimal = (if negative \<and> minimal_num_length \<noteq> 0 then minimal_num_length - 1 else minimal_num_length);
         o2 = (if negative \<and> pad_with_zero then AppendChar buff_end 45 o1 else o1) in
     bindr (digits_loop (ucast base) absolute_value []) (\<lambda>nb.
     let num_buffer = nb @ replicate (unat minimal - length nb) 0 in
     check (0 < length num_buffer) ''pos > 0'' (
     let (rest, o3) = zeros_loop buff_end pad_with_zero (rev num_buffer) o2;
         o4 = (if negative \<and> \<not> pad_with_zero then AppendChar buff_end 45 o3 else o3) in
     Inr (put_digits buff_end uppercase rest o4)))))))"

definition AppendUnsigned :: "uptr \<Rightarrow> u64 \<Rightarrow> u8 \<Rightarrow> u8 \<Rightarrow> bool \<Rightarrow> bool \<Rightarrow> pout \<Rightarrow> pout res" where
  "AppendUnsigned buff_end num base minimal_num_length pad_with_zero uppercase =
     AppendNumber buff_end num base minimal_num_length pad_with_zero False uppercase"

definition AppendSignedDecimal :: "uptr \<Rightarrow> u64 \<Rightarrow> u8 \<Rightarrow> bool \<Rightarrow> pout \<Rightarrow> pout res" where
  "AppendSignedDecimal buff_end num minimal_num_length pad_with_zero =
     (let negative = num <s 0 in
      AppendNumber buff_end (if negative then - num else num) 10 minimal_num_length pad_with_zero negative False)"

text \<open>
  The string of \<^verbatim>\<open>%s\<close> is read from memory while the output is written, so an overlap of the two is seen. The count of this call is
  the difference of the results.
\<close>

partial_function (option) string_loop :: "uptr \<Rightarrow> i32 \<Rightarrow> uptr \<Rightarrow> i32 \<Rightarrow> pout \<Rightarrow> pout option" where
  "string_loop buff_end precision s result o1 =
     (if p_mem o1 s = 0 \<or> 0 \<le>s precision \<and> precision \<le>s result then Some o1
      else string_loop buff_end precision (s + 1) (result + 1) (AppendChar buff_end (p_mem o1 s) o1))"

fun put_literal :: "uptr \<Rightarrow> u8 list \<Rightarrow> i32 \<Rightarrow> i32 \<Rightarrow> pout \<Rightarrow> pout" where
  "put_literal buff_end [] precision result o1 = o1"
| "put_literal buff_end (c # cs) precision result o1 =
     (if 0 \<le>s precision \<and> precision \<le>s result then o1
      else put_literal buff_end cs precision (result + 1) (AppendChar buff_end c o1))"

definition AppendString :: "uptr \<Rightarrow> i32 \<Rightarrow> uptr \<Rightarrow> pout \<Rightarrow> pout option" where
  "AppendString buff_end precision s o1 =
     (if s = 0 then Some (put_literal buff_end [60, 110, 117, 108, 108, 62] precision 0 o1)
      else string_loop buff_end precision s 0 o1)"

text \<open>\<^verbatim>\<open>SANITIZER_POINTER_FORMAT_LENGTH\<close> is 12 on x86-64 Linux; the prefix is \<^verbatim>\<open>0x\<close>.\<close>

definition kPointerFormatLength :: u8 where
  "kPointerFormatLength = 12"

definition AppendPointer :: "uptr \<Rightarrow> u64 \<Rightarrow> pout \<Rightarrow> pout res" where
  "AppendPointer buff_end ptr_value o1 =
     AppendUnsigned buff_end ptr_value 16 kPointerFormatLength True False (put_literal buff_end [48, 120] (-1) 0 o1)"

section \<open>The format\<close>

text \<open>Reading past the last character of the format gives its final zero.\<close>

definition at0 :: "u8 list \<Rightarrow> nat \<Rightarrow> u8" where
  "at0 fmt i = (if i < length fmt then fmt ! i else 0)"

definition is_digit_char :: "u8 \<Rightarrow> bool" where
  "is_digit_char c \<longleftrightarrow> 48 \<le>s c \<and> c \<le>s 57"

fun read_width :: "u8 list \<Rightarrow> i32 \<Rightarrow> u8 list \<times> i32" where
  "read_width [] width = ([], width)"
| "read_width (c # cs) width =
     (if is_digit_char c then read_width cs (width * 10 + char_int c - 48) else (c # cs, width))"

definition va_arg :: "u64 list \<Rightarrow> (u64 \<times> u64 list) res" where
  "va_arg args = (case args of [] \<Rightarrow> Inl (OutOfBounds 0) | a # as \<Rightarrow> Inr (a, as))"

text \<open>An argument of type \<^verbatim>\<open>int\<close> or \<^verbatim>\<open>unsigned\<close> is the lower half of its slot.\<close>

definition int_arg :: "u64 \<Rightarrow> i32" where
  "int_arg a = ucast a"

text \<open>The switch over the conversion character \<open>c\<close>; \<open>wide\<close> stands for one of \<^verbatim>\<open>z\<close> and \<^verbatim>\<open>ll\<close>.\<close>

definition convert ::
  "uptr \<Rightarrow> u8 \<Rightarrow> bool \<Rightarrow> bool \<Rightarrow> u8 \<Rightarrow> bool \<Rightarrow> i32 \<Rightarrow> u64 list \<Rightarrow> pout \<Rightarrow> (u64 list \<times> pout) run" where
  "convert buff_end c have_flags wide width pad_with_zero precision args o1 =
     (if c = 100 then
        bindo (Some (va_arg args)) (\<lambda>(a, args).
        bindo (Some (AppendSignedDecimal buff_end (if wide then a else scast (int_arg a)) width pad_with_zero o1)) (\<lambda>o2.
        Some (Inr (args, o2))))
      else if c = 117 \<or> c = 120 \<or> c = 88 then
        bindo (Some (va_arg args)) (\<lambda>(a, args).
        bindo (Some (AppendUnsigned buff_end (if wide then a else ucast (int_arg a))
            (if c = 117 then 10 else 16) width pad_with_zero (c = 88) o1)) (\<lambda>o2.
        Some (Inr (args, o2))))
      else if have_flags \<or> c \<notin> {112, 115, 99, 37} then Some (Inl (CheckFailed ''Supported Printf formats''))
      else if c = 112 then
        bindo (Some (va_arg args)) (\<lambda>(a, args). bindo (Some (AppendPointer buff_end a o1)) (\<lambda>o2. Some (Inr (args, o2))))
      else if c = 115 then
        bindo (Some (va_arg args)) (\<lambda>(a, args). map_option (\<lambda>o2. Inr (args, o2)) (AppendString buff_end precision a o1))
      else if c = 99 then
        bindo (Some (va_arg args)) (\<lambda>(a, args). Some (Inr (args, AppendChar buff_end (ucast (int_arg a)) o1)))
      else Some (Inr (args, AppendChar buff_end 37 o1)))"

text \<open>One conversion, from the character after the percent sign on.\<close>

definition directive :: "uptr \<Rightarrow> u8 list \<Rightarrow> u64 list \<Rightarrow> pout \<Rightarrow> (u8 list \<times> u64 list \<times> pout) run" where
  "directive buff_end fmt args o1 =
     (let have_width = is_digit_char (at0 fmt 0);
          pad_with_zero = (at0 fmt 0 = 48);
          (cur, width) = (if have_width then read_width fmt 0 else (fmt, 0));
          have_precision = (at0 cur 0 = 46 \<and> at0 cur 1 = 42) in
      bindo (Some (if have_precision then bindr (va_arg args) (\<lambda>(a, as). Inr (drop 2 cur, int_arg a, as))
             else Inr (cur, -1, args))) (\<lambda>(cur, precision, args).
      let have_z = (at0 cur 0 = 122);
          cur = (if have_z then drop 1 cur else cur);
          have_ll = (\<not> have_z \<and> at0 cur 0 = 108 \<and> at0 cur 1 = 108);
          cur = (if have_ll then drop 2 cur else cur);
          have_flags = (have_width \<or> have_z \<or> have_ll) in
      if 0 \<le>s precision \<and> at0 cur 0 \<noteq> 115 then Some (Inl (CheckFailed ''!(precision >= 0 && *cur != s)''))
      else bindo (convert buff_end (at0 cur 0) have_flags (have_ll \<or> have_z) (ucast width) pad_with_zero precision args o1)
        (\<lambda>(args, o2). Some (Inr (drop 1 cur, args, o2)))))"

partial_function (option) format_loop :: "uptr \<Rightarrow> u8 list \<Rightarrow> u64 list \<Rightarrow> pout \<Rightarrow> pout run" where
  "format_loop buff_end cur args o1 =
     (if cur = [] then Some (Inr o1)
      else if hd cur \<noteq> 37 then format_loop buff_end (tl cur) args (AppendChar buff_end (hd cur) o1)
      else bindo (directive buff_end (tl cur) args o1) (\<lambda>r. format_loop buff_end (fst r) (fst (snd r)) (snd (snd r))))"

definition VSNPrintf :: "uptr \<Rightarrow> i32 \<Rightarrow> u8 list \<Rightarrow> u64 list \<Rightarrow> mem \<Rightarrow> (i32 \<times> mem) run" where
  "VSNPrintf buff buff_length format args m =
     (if \<not> 0 <s buff_length then Some (Inl (CheckFailed ''buff_length > 0'')) else
      let buff_end = buff + scast (buff_length - 1) in
      bindo (format_loop buff_end format args \<lparr>p_mem = m, p_buff = buff, p_result = 0\<rparr>) (\<lambda>o1.
      Some (check (p_buff o1 \<le> buff_end) ''buff <= buff_end'' (
        Inr (p_result o1, p_mem (AppendChar (buff_end + 1) 0 o1))))))"

definition internal_snprintf :: "uptr \<Rightarrow> uptr \<Rightarrow> u8 list \<Rightarrow> u64 list \<Rightarrow> mem \<Rightarrow> (i32 \<times> mem) run" where
  "internal_snprintf buffer len format args m = VSNPrintf buffer (ucast len) format args m"

section \<open>What is written\<close>

text \<open>\<open>mem_with m p str\<close>: the memory \<open>m\<close> after the characters \<open>str\<close> were stored at \<open>p\<close>.\<close>

definition mem_with :: "mem \<Rightarrow> uptr \<Rightarrow> u8 list \<Rightarrow> mem" where
  "mem_with m p str = (\<lambda>a. if in_block p (length str) a then str ! (unat a - unat p) else m a)"

lemma mem_with_Nil [simp]: "mem_with m p [] = m"
  by (auto simp: mem_with_def in_block_def fun_eq_iff)

lemma unat_offset: "unat p + k < 2 ^ 64 \<Longrightarrow> unat (p + of_nat k :: uptr) = unat p + k"
  by (subst unat_add_nowrap) (simp_all add: unat_of_nat)

lemma mem_with_snoc:
  assumes "unat p + length str < 2 ^ 64"
  shows "(mem_with m p str)(p + of_nat (length str) := c) = mem_with m p (str @ [c])"
proof
  fix a
  have u: "unat (p + of_nat (length str)) = unat p + length str" using assms by (rule unat_offset)
  have "a = p + of_nat (length str) \<longleftrightarrow> unat a = unat p + length str" using u by (auto simp: word_unat_eq_iff)
  then show "((mem_with m p str)(p + of_nat (length str) := c)) a = mem_with m p (str @ [c]) a"
    by (auto simp: mem_with_def in_block_def nth_append)
qed

lemma bytes_at_mem_with:
  assumes "unat p + length str \<le> 2 ^ 64"
  shows "bytes_at (mem_with m p str) p str"
proof -
  have here: "bytes_at f (p + of_nat i) xs" if "\<And>j. j < length xs \<Longrightarrow> f (p + of_nat (i + j)) = xs ! j" for f i xs
    using that
  proof (induction xs arbitrary: i)
    case (Cons x xs)
    have "bytes_at f (p + of_nat (Suc i)) xs" by (rule Cons.IH) (use Cons.prems [of "Suc j" for j] in simp)
    moreover have "f (p + of_nat i) = x" using Cons.prems [of 0] by simp
    ultimately show ?case by (simp add: add_ac)
  qed simp
  show ?thesis
    using assms here [of str "mem_with m p str" 0] by (simp add: mem_with_def in_block_def unat_offset)
qed

text \<open>
  \<open>printed p k m o1 str\<close>: from the memory \<open>m\<close> and a buffer for \<open>k\<close> characters at \<open>p\<close> on, the text \<open>str\<close> was
  appended: as much of it as fits is stored and nothing else was changed, and all of it is counted.
\<close>

definition printed :: "uptr \<Rightarrow> nat \<Rightarrow> mem \<Rightarrow> pout \<Rightarrow> u8 list \<Rightarrow> bool" where
  "printed p k m o1 str \<longleftrightarrow> p_mem o1 = mem_with m p (take k str) \<and> p_buff o1 = p + of_nat (min (length str) k)
     \<and> p_result o1 = of_nat (length str)"

lemma AppendChar_printed:
  assumes o1: "printed p k m o1 str" and k: "unat p + k < 2 ^ 64"
  shows "printed p k m (AppendChar (p + of_nat k) c o1) (str @ [c])"
proof -
  have u: "unat (p + of_nat (min (length str) k)) = unat p + min (length str) k" "unat (p + of_nat k) = unat p + k"
    using k by (subst unat_offset; simp)+
  show ?thesis
  proof (cases "length str < k")
    case True
    then have lt: "p_buff o1 < p + of_nat k" using o1 u by (simp add: printed_def word_less_nat_alt)
    have "(mem_with m p str)(p + of_nat (length str) := c) = mem_with m p (str @ [c])"
      using True k by (intro mem_with_snoc) simp
    then show ?thesis using o1 lt True by (simp add: printed_def AppendChar_def Let_def min_def)
  next
    case False
    then have "\<not> p_buff o1 < p + of_nat k" using o1 u by (simp add: printed_def word_less_nat_alt)
    then show ?thesis using o1 False by (simp add: printed_def AppendChar_def Let_def min_def)
  qed
qed

text \<open>A step that appends some text, whichever it is.\<close>

definition appends :: "uptr \<Rightarrow> nat \<Rightarrow> mem \<Rightarrow> pout \<Rightarrow> pout \<Rightarrow> bool" where
  "appends p k m o1 o2 \<longleftrightarrow> (\<forall>str. printed p k m o1 str \<longrightarrow> (\<exists>new. printed p k m o2 (str @ new)))"

lemma appends_refl [simp, intro]: "appends p k m o1 o1"
  unfolding appends_def by (metis append_Nil2)

lemma appends_trans: "appends p k m o1 o2 \<Longrightarrow> appends p k m o2 o3 \<Longrightarrow> appends p k m o1 o3"
  unfolding appends_def by (metis append_assoc)

lemma appends_char [intro]: "unat p + k < 2 ^ 64 \<Longrightarrow> appends p k m o1 (AppendChar (p + of_nat k) c o1)"
  unfolding appends_def using AppendChar_printed by blast

lemma appends_then_char:
  "unat p + k < 2 ^ 64 \<Longrightarrow> appends p k m (AppendChar (p + of_nat k) c o1) o2 \<Longrightarrow> appends p k m o1 o2"
  using appends_trans [OF appends_char] .

lemma zeros_loop_appends:
  assumes "unat p + k < 2 ^ 64"
  shows "appends p k m o1 (snd (zeros_loop (p + of_nat k) pad xs o1))"
proof (induction xs arbitrary: o1)
  case (Cons x xs)
  show ?case using appends_then_char [OF assms Cons.IH] by simp
qed simp

lemma put_digits_appends:
  assumes "unat p + k < 2 ^ 64"
  shows "appends p k m o1 (put_digits (p + of_nat k) up xs o1)"
proof (induction xs arbitrary: o1)
  case (Cons x xs)
  show ?case using appends_then_char [OF assms Cons.IH] by (simp add: put_digits_def)
qed (simp add: put_digits_def)

lemma put_literal_appends:
  assumes "unat p + k < 2 ^ 64"
  shows "appends p k m o1 (put_literal (p + of_nat k) cs prec r o1)"
proof (induction cs arbitrary: r o1)
  case (Cons c cs)
  show ?case using appends_then_char [OF assms Cons.IH] by simp
qed simp

lemma AppendNumber_appends:
  assumes "AppendNumber (p + of_nat k) v base width pad negative up o1 = Inr o2" and k: "unat p + k < 2 ^ 64"
  shows "appends p k m o1 o2"
proof -
  have c: "appends p k m q (if b then AppendChar (p + of_nat k) x q else q)" for b x q using k by auto
  let ?o1 = "if negative \<and> pad then AppendChar (p + of_nat k) 45 o1 else o1"
  obtain nb where "put_digits (p + of_nat k) up (fst (zeros_loop (p + of_nat k) pad (rev nb) ?o1))
      (if negative \<and> \<not> pad then AppendChar (p + of_nat k) 45 (snd (zeros_loop (p + of_nat k) pad (rev nb) ?o1))
       else snd (zeros_loop (p + of_nat k) pad (rev nb) ?o1)) = o2"
    using assms(1) unfolding AppendNumber_def Let_def split_beta check_Inr bindr_Inr Inr_inject by blast
  then show ?thesis
    using appends_trans [OF appends_trans [OF appends_trans [OF c zeros_loop_appends [OF k]] c] put_digits_appends [OF k]] by metis
qed

text \<open>A zero byte that the output cannot reach ends every string.\<close>

lemma string_loop_ends:
  assumes "printed p k m o1 str" and "unat p + k < 2 ^ 64" and "m z = 0" and "\<not> in_block p k z"
  shows "\<exists>o2. string_loop (p + of_nat k) prec s r o1 = Some o2 \<and> appends p k m o1 o2"
  using assms(1)
proof (induction "unat (z - s)" arbitrary: s r o1 str rule: less_induct)
  case less
  have z: "p_mem o1 z = 0" using less.prems assms(3,4) by (auto simp: printed_def mem_with_def in_block_def)
  show ?case
  proof (cases "p_mem o1 s = 0 \<or> 0 \<le>s prec \<and> prec \<le>s r")
    case True
    then show ?thesis by (subst string_loop.simps) auto
  next
    case False
    then have "z - s \<noteq> 0" using z by auto
    then have "unat (z - s - 1) < unat (z - s)" by (simp add: unat_pred unat_gt_0)
    then have d: "unat (z - (s + 1)) < unat (z - s)" by (simp add: diff_diff_eq)
    let ?o = "AppendChar (p + of_nat k) (p_mem o1 s) o1"
    obtain o2 where "string_loop (p + of_nat k) prec (s + 1) (r + 1) ?o = Some o2" "appends p k m ?o o2"
      using less.hyps [OF d AppendChar_printed [OF less.prems assms(2)]] by blast
    then show ?thesis using False appends_then_char [OF assms(2)] by (subst string_loop.simps) auto
  qed
qed

lemma AppendString_ends:
  assumes "printed p k m o1 str" and "unat p + k < 2 ^ 64" and "m z = 0" and "\<not> in_block p k z"
  shows "\<exists>o2. AppendString (p + of_nat k) prec s o1 = Some o2 \<and> appends p k m o1 o2"
  using string_loop_ends [OF assms] put_literal_appends [OF assms(2)]
  by (simp add: AppendString_def del: put_literal.simps)

lemma AppendPointer_appends:
  assumes "AppendPointer (p + of_nat k) v o1 = Inr o2" and k: "unat p + k < 2 ^ 64"
  shows "appends p k m o1 o2"
  using assms(1) AppendNumber_appends [OF _ k] appends_trans [OF put_literal_appends [OF k]]
  unfolding AppendPointer_def AppendUnsigned_def by blast

lemma read_width_length: "length (fst (read_width cs w)) \<le> length cs"
  by (induction cs w rule: read_width.induct) auto

text \<open>A conversion ends; it appends some text, or fails.\<close>

definition step_ok :: "uptr \<Rightarrow> nat \<Rightarrow> mem \<Rightarrow> pout \<Rightarrow> (u64 list \<times> pout) run \<Rightarrow> bool" where
  "step_ok p k m o1 r \<longleftrightarrow> (case r of None \<Rightarrow> False | Some (Inl e) \<Rightarrow> True | Some (Inr (args, o2)) \<Rightarrow> appends p k m o1 o2)"

lemma step_ok_simps [simp]: "step_ok p k m o1 (Some (Inl e))" "step_ok p k m o1 (Some (Inr (args, o2))) \<longleftrightarrow> appends p k m o1 o2"
  by (simp_all add: step_ok_def)

lemma step_ok_bind:
  "(\<And>x. r = Inr x \<Longrightarrow> step_ok p k m o1 (f x)) \<Longrightarrow> step_ok p k m o1 (bindo (Some r) f)"
  by (cases r) auto

lemma step_ok_if:
  "step_ok p k m o1 r1 \<Longrightarrow> step_ok p k m o1 r2 \<Longrightarrow> step_ok p k m o1 (if b then r1 else r2)"
  by simp

lemma convert_ok:
  assumes pr: "printed p k m o1 str" and k: "unat p + k < 2 ^ 64" and z: "m z = 0" "\<not> in_block p k z"
  shows "step_ok p k m o1 (convert (p + of_nat k) c have_flags wide width pad prec args o1)"
proof -
  have num: "step_ok p k m o1 (bindo (Some (AppendNumber (p + of_nat k) v base width pad negative up o1)) (\<lambda>o2. Some (Inr (args, o2))))"
    for v base negative up args by (rule step_ok_bind) (simp add: AppendNumber_appends [OF _ k])
  have ptr: "step_ok p k m o1 (bindo (Some (AppendPointer (p + of_nat k) v o1)) (\<lambda>o2. Some (Inr (args, o2))))"
    for v args by (rule step_ok_bind) (simp add: AppendPointer_appends [OF _ k])
  have str: "step_ok p k m o1 (map_option (\<lambda>o2. Inr (args, o2)) (AppendString (p + of_nat k) prec s o1))"
    for s args using AppendString_ends [OF pr k z, of prec s] by auto
  have ch: "step_ok p k m o1 (Some (Inr (args, AppendChar (p + of_nat k) x o1)))" for x args
    by (simp add: appends_char [OF k])
  have arg: "step_ok p k m o1 (bindo (Some (va_arg args)) (\<lambda>(a, as). f a as))" if "\<And>a as. step_ok p k m o1 (f a as)" for f
    by (rule step_ok_bind) (use that in auto)
  show ?thesis
    unfolding convert_def AppendSignedDecimal_def AppendUnsigned_def Let_def
    by (intro step_ok_if arg num ptr str ch step_ok_simps(1))
qed

lemma read_width_if: "length (fst (if b then read_width fmt w else (fmt, w))) \<le> length fmt"
  using read_width_length by simp

lemma directive_ok:
  assumes "printed p k m o1 str" and "unat p + k < 2 ^ 64" and "m z = 0" and "\<not> in_block p k z"
  shows "(\<exists>e. directive (p + of_nat k) fmt args o1 = Some (Inl e))
    \<or> (\<exists>cur as o2. directive (p + of_nat k) fmt args o1 = Some (Inr (cur, as, o2)) \<and> length cur \<le> length fmt \<and> appends p k m o1 o2)"
proof -
  define cur1 where "cur1 = fst (if is_digit_char (at0 fmt 0) then read_width fmt 0 else (fmt, 0))"
  have l1: "length cur1 \<le> length fmt" unfolding cur1_def by (rule read_width_if)
  define r where "r = (if at0 cur1 0 = 46 \<and> at0 cur1 1 = 42 then bindr (va_arg args) (\<lambda>(a, as). Inr (drop 2 cur1, int_arg a, as))
             else Inr (cur1, -1, args))"
  show ?thesis
  proof (cases r)
    case (Inl e)
    then have "directive (p + of_nat k) fmt args o1 = Some (Inl e)"
      unfolding directive_def Let_def split_beta cur1_def [symmetric] r_def [unfolded split_beta, symmetric] by simp
    then show ?thesis by blast
  next
    case (Inr x)
    define cur2 where "cur2 = (if at0 (fst x) 0 = 122 then drop 1 (fst x) else fst x)"
    define ll where "ll \<longleftrightarrow> at0 (fst x) 0 \<noteq> 122 \<and> at0 cur2 0 = 108 \<and> at0 cur2 1 = 108"
    define cur3 where "cur3 = (if ll then drop 2 cur2 else cur2)"
    have "length (fst x) \<le> length cur1" using Inr by (auto simp: r_def res_simps split: if_splits)
    then have l3: "length (drop 1 cur3) \<le> length fmt" using l1 by (auto simp: cur3_def cur2_def)
    obtain b1 b2 w pad where D: "directive (p + of_nat k) fmt args o1 =
        (if 0 \<le>s fst (snd x) \<and> at0 cur3 0 \<noteq> 115 then Some (Inl (CheckFailed ''!(precision >= 0 && *cur != s)''))
         else bindo (convert (p + of_nat k) (at0 cur3 0) b1 b2 w pad (fst (snd x)) (snd (snd x)) o1)
          (\<lambda>y. Some (Inr (drop 1 cur3, fst y, snd y))))"
      using Inr
      unfolding directive_def Let_def split_beta cur1_def [symmetric] r_def [unfolded split_beta, symmetric]
      by (simp only: bindo_simps fst_conv snd_conv cur2_def [symmetric] ll_def [symmetric] cur3_def [symmetric])
    have c: "step_ok p k m o1 (convert (p + of_nat k) (at0 cur3 0) b1 b2 w pad (fst (snd x)) (snd (snd x)) o1)"
      using convert_ok [OF assms] .
    show ?thesis
      using c l3 unfolding D step_ok_def by (auto split: option.splits sum.splits prod.splits)
  qed
qed

lemma format_loop_ends:
  assumes "printed p k m o1 str" and "unat p + k < 2 ^ 64" and "m z = 0" and "\<not> in_block p k z"
  shows "(\<exists>e. format_loop (p + of_nat k) cur args o1 = Some (Inl e))
    \<or> (\<exists>o2. format_loop (p + of_nat k) cur args o1 = Some (Inr o2) \<and> appends p k m o1 o2)"
  using assms(1)
proof (induction "length cur" arbitrary: cur args o1 str rule: less_induct)
  case less
  show ?case
  proof (cases cur)
    case Nil
    then show ?thesis by (subst (1 2) format_loop.simps) auto
  next
    case (Cons c fmt)
    show ?thesis
    proof (cases "c = 37")
      case False
      let ?o = "AppendChar (p + of_nat k) c o1"
      have l: "length fmt < length cur" using Cons by simp
      have step: "format_loop (p + of_nat k) cur args o1 = format_loop (p + of_nat k) fmt args ?o"
        using False Cons by (subst format_loop.simps) simp
      show ?thesis unfolding step
        using less.hyps [OF l AppendChar_printed [OF less.prems assms(2)]] appends_then_char [OF assms(2)] by blast
    next
      case True
      have step: "format_loop (p + of_nat k) cur args o1 =
          bindo (directive (p + of_nat k) fmt args o1) (\<lambda>r. format_loop (p + of_nat k) (fst r) (fst (snd r)) (snd (snd r)))"
        using True Cons by (subst format_loop.simps) simp
      consider (fails) e where "directive (p + of_nat k) fmt args o1 = Some (Inl e)"
        | (returns) cur' as o2 where "directive (p + of_nat k) fmt args o1 = Some (Inr (cur', as, o2))"
            "length cur' \<le> length fmt" "appends p k m o1 o2"
        using directive_ok [OF less.prems assms(2-4), of fmt args] by blast
      then show ?thesis
      proof cases
        case fails
        then show ?thesis unfolding step by simp
      next
        case returns
        obtain new where new: "printed p k m o2 (str @ new)" using returns(3) less.prems by (auto simp: appends_def)
        have l: "length cur' < length cur" using returns(2) Cons by simp
        show ?thesis using less.hyps [OF l new, of as] returns(1,3) appends_trans unfolding step by auto
      qed
    qed
  qed
qed

section \<open>Formatting is truncation\<close>

lemma int_length:
  assumes "0 <s (n :: i32)"
  shows "unat (scast (n - 1) :: uptr) = unat n - 1" "0 < unat n" "unat n < 2 ^ 31"
proof -
  have s: "0 < sint n" using assms by (simp add: word_sless_alt)
  have lt: "sint n < 2 ^ 31" using sint_lt [of n] by simp
  have "uint n = sint n" unfolding uint_sint using s lt by (intro take_bit_int_eq_self) simp_all
  with lt have i: "0 < int (unat n)" "int (unat n) < 2 ^ 31" using s by simp_all
  show p: "0 < unat n" using i(1) by linarith
  have "int (unat n) < int (2 ^ 31)" using i(2) by simp
  then show l: "unat n < 2 ^ 31" by (simp only: of_nat_less_iff)
  have m: "unat (n - 1) = unat n - 1" using p by (rule unat_pred)
  then have "sint (n - 1) = int (unat n - 1)" using l by (subst sint_below) simp_all
  then have "(scast (n - 1) :: uptr) = of_nat (unat n - 1)" by (simp add: scast_eq)
  then show "unat (scast (n - 1) :: uptr) = unat n - 1" using l by (simp add: unat_of_nat)
qed

text \<open>
  The result of \<^verbatim>\<open>VSNPrintf\<close>, when it does not fail: a text was formatted; the buffer holds as much of it as fits
  before the terminating zero; the length of the whole text is returned; no other byte changed.
\<close>

lemma VSNPrintf_printed:
  assumes n: "0 <s len" "unat buff + unat len < 2 ^ 64"
    and f: "format_loop (buff + of_nat (unat len - 1)) fmt args \<lparr>p_mem = m, p_buff = buff, p_result = 0\<rparr> = Some (Inr o2)"
    and o2: "printed buff (unat len - 1) m o2 str"
  shows "VSNPrintf buff len fmt args m = Some (Inr (of_nat (length str), mem_with m buff (take (unat len - 1) str @ [0])))"
proof -
  let ?k = "unat len - 1"
  let ?t = "take ?k str"
  note L = int_length [OF n(1)]
  have e: "buff + scast (len - 1) = buff + of_nat ?k" unfolding L(1) [symmetric] by simp
  have k: "unat buff + ?k < 2 ^ 64" using n(2) by simp
  have u: "unat (buff + of_nat (min (length str) ?k)) = unat buff + min (length str) ?k" "unat (buff + of_nat ?k) = unat buff + ?k"
    using k by (subst unat_offset; simp)+
  have u1: "unat (buff + of_nat ?k + 1) = unat buff + ?k + 1"
    unfolding u(2) [symmetric] using u(2) n(2) L(2) by (intro unat_plus1) simp
  have le: "p_buff o2 \<le> buff + of_nat ?k" and lt: "p_buff o2 < buff + of_nat ?k + 1"
    unfolding word_le_nat_alt word_less_nat_alt u1 u(2) using o2 u(1) by (simp_all add: printed_def)
  have pos: "p_buff o2 = buff + of_nat (length ?t)" using o2 by (simp add: printed_def)
  have "unat buff + length ?t < 2 ^ 64" using k by simp
  from mem_with_snoc [OF this, of m 0]
  have "p_mem (AppendChar (buff + of_nat ?k + 1) 0 o2) = mem_with m buff (?t @ [0])"
    using lt o2 pos by (simp add: AppendChar_def Let_def printed_def)
  then show ?thesis using f le o2 n(1) by (auto simp: VSNPrintf_def Let_def e printed_def)
qed

lemma VSNPrintf_ok:
  assumes n: "0 <s len" "unat buff + unat len < 2 ^ 64" and z: "m z = 0" "\<not> in_block buff (unat len) z"
  shows "(\<exists>e. VSNPrintf buff len fmt args m = Some (Inl e))
    \<or> (\<exists>str. VSNPrintf buff len fmt args m =
          Some (Inr (of_nat (length str), mem_with m buff (take (unat len - 1) str @ [0]))))"
proof -
  let ?k = "unat len - 1"
  have e: "buff + scast (len - 1) = buff + of_nat ?k" unfolding int_length(1) [OF n(1), symmetric] by simp
  have k: "unat buff + ?k < 2 ^ 64" using n(2) by simp
  have z2: "\<not> in_block buff ?k z" using z(2) by (auto simp: in_block_def)
  let ?o = "\<lparr>p_mem = m, p_buff = buff, p_result = 0\<rparr>"
  have start: "printed buff ?k m ?o []" by (simp add: printed_def)
  from format_loop_ends [OF start k z(1) z2, of fmt args] show ?thesis
  proof (elim disjE exE conjE)
    fix x assume "format_loop (buff + of_nat ?k) fmt args ?o = Some (Inl x)"
    then show ?thesis using n(1) by (simp add: VSNPrintf_def Let_def e)
  next
    fix o2 assume f: "format_loop (buff + of_nat ?k) fmt args ?o = Some (Inr o2)" and "appends buff ?k m ?o o2"
    then obtain str where "printed buff ?k m o2 str" using start by (auto simp: appends_def)
    then show ?thesis using VSNPrintf_printed [OF n f] by blast
  qed
qed

section \<open>Decimal numbers\<close>

text \<open>\<open>dec_value ds\<close> is the number with the digits \<open>ds\<close>, the least significant one first.\<close>

fun dec_value :: "uptr list \<Rightarrow> nat" where
  "dec_value [] = 0"
| "dec_value (d # ds) = unat d + 10 * dec_value ds"

definition decimal :: "u64 \<Rightarrow> uptr list \<Rightarrow> bool" where
  "decimal v ds \<longleftrightarrow> (\<forall>d \<in> set ds. unat d < 10) \<and> dec_value ds = unat v \<and> ds \<noteq> [] \<and> (if v = 0 then ds = [0] else last ds \<noteq> 0)"

lemma digits_loop_ok:
  assumes "unat v < 10 ^ k" and "0 < k" and "length nb + k \<le> 30"
  shows "\<exists>ds. digits_loop 10 v nb = Inr (nb @ ds) \<and> decimal v ds \<and> length ds \<le> k"
  using assms
proof (induction k arbitrary: v nb)
  case (Suc k)
  let ?d = "v mod 10" and ?v = "v div 10"
  have u: "unat ?d = unat v mod 10" "unat ?v = unat v div 10" by (simp_all add: unat_mod unat_div)
  have room: "\<not> kMaxLen \<le> length nb" using Suc.prems(3) by (simp add: kMaxLen_def)
  show ?case
  proof (cases "?v = 0")
    case True
    then have "unat v div 10 = 0" using u(2) by simp
    then have "?d = v" using u(1) by (simp add: word_unat_eq_iff)
    then have "decimal v [?d]" using u(1) by (auto simp: decimal_def)
    then show ?thesis using True room by (subst digits_loop.simps) auto
  next
    case False
    then have "0 < unat v div 10" using u(2) by (simp add: word_unat_eq_iff)
    moreover have "unat ?v < 10 ^ k" using Suc.prems(1) u(2) by simp
    ultimately have k: "0 < k" "unat ?v < 10 ^ k" using u(2) by (cases k; simp)+
    obtain ds where ds: "digits_loop 10 ?v (nb @ [?d]) = Inr ((nb @ [?d]) @ ds)" "decimal ?v ds" "length ds \<le> k"
      using Suc.IH [OF k(2,1), of "nb @ [?d]"] Suc.prems(3) by auto
    have "v \<noteq> 0" using False by auto
    then have "decimal v (?d # ds)"
      using ds(2) u False by (auto simp: decimal_def)
    then show ?thesis using False room ds by (subst digits_loop.simps) (auto simp: word_gt_0)
  qed
qed simp

lemma uint_digit:
  assumes "unat x < 10"
  shows "uint x < 10"
proof -
  have "int (unat x) < int 10" using assms by (simp only: of_nat_less_iff)
  then show ?thesis by simp
qed

lemma digit_char_decimal:
  assumes "unat x < 10"
  shows "digit_char False x = 48 + ucast x" "unat (digit_char False x) = 48 + unat x"
proof -
  have u: "unat (ucast x :: u8) = unat x" using assms by (simp add: unsigned_ucast_eq take_bit_nat_eq_self)
  have "sint (ucast x :: u8) = int (unat x)" using assms u by (subst sint_below) simp_all
  then have "(ucast x :: u8) <s 10" using uint_digit [OF assms] by (simp add: word_sless_alt)
  then show "digit_char False x = 48 + ucast x" by (simp add: digit_char_def)
  then show "unat (digit_char False x) = 48 + unat x" using u assms by (simp add: unat_add_nowrap)
qed

lemma put_digits_printed:
  assumes "unat p + k < 2 ^ 64" and "printed p k m o1 str"
  shows "printed p k m (put_digits (p + of_nat k) up xs o1) (str @ map (digit_char up) xs)"
  using assms(2)
proof (induction xs arbitrary: o1 str)
  case (Cons x xs)
  from Cons.IH [OF AppendChar_printed [OF Cons.prems assms(1)]] show ?case by (simp add: put_digits_def)
qed (simp add: put_digits_def)

definition decimal_text :: "bool \<Rightarrow> uptr list \<Rightarrow> u8 list" where
  "decimal_text negative ds = (if negative then [45] else []) @ map (digit_char False) (rev ds)"

lemma AppendNumber_decimal:
  assumes k: "unat p + k < 2 ^ 64" and o1: "printed p k m o1 str" and neg: "v \<noteq> 0 \<or> \<not> negative"
  shows "\<exists>o2 ds. AppendNumber (p + of_nat k) v 10 0 False negative False o1 = Inr o2
    \<and> printed p k m o2 (str @ decimal_text negative ds) \<and> decimal v ds \<and> length ds \<le> 20"
proof -
  let ?e = "p + of_nat k"
  have "unat v < 10 ^ 20" using unat_lt_64 [of v] by simp
  then obtain ds where ds: "digits_loop 10 v [] = Inr ds" "decimal v ds" "length ds \<le> 20"
    using digits_loop_ok [of v 20 "[]"] by auto
  let ?o = "if negative then AppendChar ?e 45 o1 else o1"
  have o: "printed p k m ?o (str @ (if negative then [45] else []))"
    using o1 AppendChar_printed [OF o1 k] by simp
  have run: "AppendNumber ?e v 10 0 False negative False o1 =
      (let (rest, o3) = zeros_loop ?e False (rev ds) o1 in
       Inr (put_digits ?e False rest (if negative then AppendChar ?e 45 o3 else o3)))"
    using neg ds(1,2) by (auto simp: AppendNumber_def kMaxLen_def decimal_def)
  show ?thesis
  proof (cases "v = 0")
    case True
    then have d0: "ds = [0]" "\<not> negative" using ds(2) neg by (simp_all add: decimal_def)
    have "digit_char False 0 = 48" using digit_char_decimal(1) [of 0] by simp
    then show ?thesis
      using run d0 ds(2) AppendChar_printed [OF o1 k, of 48]
      by (intro exI [of _ "AppendChar ?e 48 o1"] exI [of _ "[0]"]) (simp add: put_digits_def decimal_text_def)
  next
    case False
    then have l: "last ds \<noteq> 0" "ds \<noteq> []" using ds(2) by (simp_all add: decimal_def)
    then obtain x xs where x: "rev ds = x # xs" by (cases "rev ds") auto
    have "x \<noteq> 0" using l x hd_rev [of ds] by simp
    then have "AppendNumber ?e v 10 0 False negative False o1 = Inr (put_digits ?e False (rev ds) ?o)"
      unfolding run x by simp
    then show ?thesis using put_digits_printed [OF k o, of False "rev ds"] ds(2,3) by (auto simp: decimal_text_def)
  qed
qed

text \<open>Reading digits, the most significant one first, from the value \<open>r\<close> on.\<close>

definition read_value :: "nat \<Rightarrow> uptr list \<Rightarrow> nat" where
  "read_value r xs = foldl (\<lambda>r d. 10 * r + unat d) r xs"

lemma read_value_ge: "r \<le> read_value r xs"
proof (induction xs arbitrary: r)
  case (Cons x xs)
  have "r \<le> 10 * r + unat x" by simp
  then show ?case using Cons.IH [of "10 * r + unat x"] by (simp add: read_value_def)
qed (simp add: read_value_def)

lemma read_value_rev: "read_value 0 (rev ds) = dec_value ds"
  by (induction ds) (simp_all add: read_value_def)

lemma char_int_digit:
  assumes "unat x < 10"
  shows "char_int (digit_char False x) = of_nat (48 + unat x)" "IsDigit (char_int (digit_char False x))"
    "scast (char_int (digit_char False x) - 48) = x"
proof -
  have u: "unat (digit_char False x) = 48 + unat x" using digit_char_decimal [OF assms] by simp
  then have s: "sint (digit_char False x) = int (48 + unat x)" using assms by (subst sint_below) simp_all
  then show c: "char_int (digit_char False x) = of_nat (48 + unat x)" by (simp add: char_int_def scast_eq)
  have small: "sint (of_nat k :: i32) = int k" if "k < 100" for k
    using that by (subst sint_below) (simp_all add: unat_of_nat)
  show "IsDigit (char_int (digit_char False x))"
    unfolding c IsDigit_def word_sle_eq using assms uint_digit [OF assms] small [of "48 + unat x"] by simp
  have "char_int (digit_char False x) - 48 = of_nat (unat x)" unfolding c by simp
  then have "sint (char_int (digit_char False x) - 48) = int (unat x)" using small [of "unat x"] assms by simp
  then show "scast (char_int (digit_char False x) - 48) = x" by (simp add: scast_eq)
qed

lemma add_digit_ok:
  assumes "unat x < 10" and "10 * unat r + unat x < 2 ^ 64"
  shows "add_digit r (digit_char False x) = r * 10 + x" "unat (r * 10 + x) = 10 * unat r + unat x"
proof -
  have m: "unat (r * 10) = 10 * unat r" using assms(2) by (subst unat_mult_lem [THEN iffD1]) simp_all
  then show u: "unat (r * 10 + x) = 10 * unat r + unat x" using assms(2) by (subst unat_add_nowrap) simp_all
  have "r \<le> UINT64_MAX div 10" using assms(2) by (simp add: word_le_nat_alt unat_div UINT64_MAX_def)
  moreover have "unat (UINT64_MAX - x) = unat UINT64_MAX - unat x" by (rule unat_sub) (simp add: UINT64_MAX_def)
  moreover have "unat UINT64_MAX = 2 ^ 64 - 1" by (simp add: UINT64_MAX_def unsigned_minus_1_eq_mask mask_eq_exp_minus_1)
  ultimately have "r \<le> UINT64_MAX div 10" "r * 10 \<le> UINT64_MAX - x"
    using assms(2) m by (simp_all add: word_le_nat_alt)
  then show "add_digit r (digit_char False x) = r * 10 + x"
    by (simp add: add_digit_def char_int_digit(3) [OF assms(1)])
qed

lemma read_digits_ok:
  assumes "bytes_at m p (map (digit_char False) xs @ [c])" and "\<not> IsDigit (char_int c)" and "\<forall>x \<in> set xs. unat x < 10" and "read_value (unat r) xs < 2 ^ 64"
  shows "read_digits m p r h = Some (p + of_nat (length xs), of_nat (read_value (unat r) xs), h \<or> xs \<noteq> [])"
  using assms
proof (induction xs arbitrary: p r h)
  case Nil
  then show ?case by (subst read_digits.simps) (simp add: read_value_def)
next
  case (Cons x xs)
  have x: "unat x < 10" "m p = digit_char False x" using Cons.prems by simp_all
  have v: "read_value (unat r) (x # xs) = read_value (10 * unat r + unat x) xs" by (simp add: read_value_def)
  have "10 * unat r + unat x < 2 ^ 64" using read_value_ge [of "10 * unat r + unat x" xs] Cons.prems(4) v by simp
  note A = add_digit_ok [OF x(1) this]
  have "read_digits m (p + 1) (r * 10 + x) True =
      Some (p + 1 + of_nat (length xs), of_nat (read_value (unat (r * 10 + x)) xs), True \<or> xs \<noteq> [])"
    using Cons.prems v by (intro Cons.IH) (simp_all add: A(2))
  then show ?case
    using char_int_digit(2) [OF x(1)] by (subst read_digits.simps) (simp add: x(2) A v add.assoc)
qed

text \<open>A formatted number is read back.\<close>

lemma IsSpace_le: "IsSpace c \<Longrightarrow> unat c \<le> 32"
  by (auto simp: IsSpace_def)

lemma not_digit_0: "\<not> IsDigit (char_int 0)"
  by (simp add: IsDigit_def word_sle_eq char_int_def)

lemma first_digit:
  assumes "unat x < 10"
  shows "\<not> IsSpace (char_int (digit_char False x))" "digit_char False x \<noteq> 43" "digit_char False x \<noteq> 45"
proof -
  have "unat (of_nat (48 + unat x) :: i32) = 48 + unat x" by (subst unat_of_nat) (use assms in simp)
  then have "\<not> IsSpace (of_nat (48 + unat x))" using IsSpace_le [of "of_nat (48 + unat x)"] by linarith
  then show "\<not> IsSpace (char_int (digit_char False x))" by (simp add: char_int_digit(1) [OF assms])
  show "digit_char False x \<noteq> 43" "digit_char False x \<noteq> 45" using digit_char_decimal(2) [OF assms] by auto
qed

lemma strtoll_decimal:
  assumes b: "bytes_at m p (decimal_text negative ds @ [0])" and d: "decimal v ds"
    and r: "if negative then unat v \<le> 2 ^ 63 else unat v < 2 ^ 63"
  shows "internal_atoll m p = Some (Inr (if negative then - v else v))"
proof -
  let ?q = "if negative then p + 1 else p"
  have dig: "\<forall>x \<in> set (rev ds). unat x < 10" and ne: "rev ds \<noteq> []" using d by (simp_all add: decimal_def)
  have val: "read_value 0 (rev ds) = unat v" using d by (simp add: read_value_rev decimal_def)
  have bq: "bytes_at m ?q (map (digit_char False) (rev ds) @ [0])" using b by (cases negative) (simp_all add: decimal_text_def)
  have rd: "read_digits m ?q 0 False = Some (?q + of_nat (length ds), v, True)"
    using read_digits_ok [OF bq not_digit_0 dig, of 0 False] val ne unat_lt_64 [of v] by simp
  obtain x xs where x: "rev ds = x # xs" using ne by (cases "rev ds") auto
  have first: "m p = (if negative then 45 else digit_char False x)" "unat x < 10"
    using b x dig by (auto simp: decimal_text_def)
  have sp: "\<not> IsSpace (char_int (m p))" and sg: "m p \<noteq> 43" "m p = 45 \<longleftrightarrow> negative"
    unfolding first(1) using first_digit [OF first(2)] by (auto simp: IsSpace_def char_int_def)
  have ss: "skip_space m p = Some p" using sp by (subst skip_space.simps) simp
  have i64: "unat INT64_MAX = 2 ^ 63 - 1" by (simp add: INT64_MAX_def)
  show ?thesis
  proof (cases negative)
    case False
    then have "v \<le> INT64_MAX" using r by (simp add: word_le_nat_alt i64)
    then have "Min2 INT64_MAX v = v" by (auto simp: Min2_def)
    then show ?thesis using False ss rd sg by (simp add: internal_atoll_def internal_simple_strtoll_def Let_def)
  next
    case True
    have "(if v > INT64_MAX then 0x8000000000000000 else v * - 1) = - v"
    proof (cases "v > INT64_MAX")
      case True
      then have "unat v = 2 ^ 63" using r \<open>negative\<close> by (simp add: word_less_nat_alt i64)
      then have "v = 0x8000000000000000" by (simp add: word_unat_eq_iff)
      then show ?thesis by (simp add: INT64_MAX_def)
    qed simp
    then show ?thesis using True ss rd sg by (simp add: internal_atoll_def internal_simple_strtoll_def Let_def)
  qed
qed

section \<open>Properties\<close>

lemma lld_directive:
  "directive e [108, 108, 100] [x] o1 =
     bindo (Some (AppendSignedDecimal e x 0 False o1)) (\<lambda>o2. Some (Inr ([], [], o2)))"
  by (cases "AppendSignedDecimal e x 0 False o1")
    (simp_all add: directive_def convert_def Let_def at0_def is_digit_char_def va_arg_def word_sle_eq)

lemma lld_format:
  "format_loop e [37, 108, 108, 100] [x] o1 = bindo (Some (AppendSignedDecimal e x 0 False o1)) (\<lambda>o2. Some (Inr o2))"
  by (cases "AppendSignedDecimal e x 0 False o1")
    (simp_all add: format_loop.simps [of e "[37, 108, 108, 100]"] format_loop.simps [of e "[]"] lld_directive)

lemma negative_value:
  shows "(x :: u64) <s 0 \<Longrightarrow> unat (- x) \<le> 2 ^ 63" "\<not> (x :: u64) <s 0 \<Longrightarrow> unat x < 2 ^ 63"
proof -
  assume n: "x <s 0"
  have "\<not> unat x < 2 ^ 63" using sint_below [of x] n by (auto simp: word_sless_alt)
  moreover have "unat (0 - x) = 2 ^ 64 - unat x" if "x \<noteq> 0" using that by (subst unat_sub_if') (simp add: unat_gt_0 not_le)
  ultimately show "unat (- x) \<le> 2 ^ 63" by (cases "x = 0") simp_all
next
  assume "\<not> x <s 0"
  then have "0 \<le> sint x" "sint x < 2 ^ 63" using sint_lt [of x] by (simp_all add: word_sless_alt)
  then have "uint x = sint x" unfolding uint_sint by (intro take_bit_int_eq_self) simp_all
  with \<open>sint x < 2 ^ 63\<close> have "int (unat x) < int (2 ^ 63)" by simp
  then show "unat x < 2 ^ 63" by (simp only: of_nat_less_iff)
qed

text \<open>
  C36. A number printed with \<^verbatim>\<open>"%lld"\<close> into a buffer of at least 22 bytes is read back by
  \<^verbatim>\<open>internal_atoll\<close>, for every 64-bit value.
\<close>

theorem decimal_roundtrip:
  assumes "22 \<le>s len" and "unat buff + unat len < 2 ^ 64"
  shows "\<exists>r m'. VSNPrintf buff len [37, 108, 108, 100] [x] m = Some (Inr (r, m')) \<and> internal_atoll m' buff = Some (Inr x)"
proof -
  let ?k = "unat len - 1" and ?o = "\<lparr>p_mem = m, p_buff = buff, p_result = 0\<rparr>" and ?e = "buff + of_nat (unat len - 1)"
  have s: "22 \<le> sint len" using assms(1) by (simp add: word_sle_eq)
  have len: "0 <s len" using s by (simp add: word_sless_alt)
  note L = int_length [OF len]
  have e: "buff + scast (len - 1) = ?e" unfolding L(1) [symmetric] by simp
  have k: "unat buff + ?k < 2 ^ 64" using assms(2) by simp
  have "sint len = int (unat len)" using L(3) by (intro sint_below) simp
  then have k21: "21 \<le> ?k" using s by linarith
  let ?neg = "x <s 0" and ?v = "if x <s 0 then - x else x"
  have "printed buff ?k m ?o []" by (simp add: printed_def)
  moreover have "?v \<noteq> 0 \<or> \<not> ?neg" by (auto simp: word_sless_alt)
  ultimately obtain o2 ds where o2: "AppendNumber ?e ?v 10 0 False ?neg False ?o = Inr o2"
    "printed buff ?k m o2 ([] @ decimal_text ?neg ds)" "decimal ?v ds" "length ds \<le> 20"
    using AppendNumber_decimal [OF k] by blast
  let ?t = "decimal_text ?neg ds"
  have lt: "length ?t \<le> 21" using o2(4) by (simp add: decimal_text_def)
  have run: "format_loop ?e [37, 108, 108, 100] [x] ?o = Some (Inr o2)"
    using o2(1) unfolding lld_format AppendSignedDecimal_def Let_def by (simp only: bindo_simps)
  have p: "printed buff ?k m o2 ?t" using o2(2) by simp
  have "bytes_at (mem_with m buff (?t @ [0])) buff (?t @ [0])"
    using k lt k21 by (intro bytes_at_mem_with) simp
  moreover have "if ?neg then unat ?v \<le> 2 ^ 63 else unat ?v < 2 ^ 63" using negative_value [of x] by simp
  ultimately have "internal_atoll (mem_with m buff (?t @ [0])) buff = Some (Inr (if ?neg then - ?v else ?v))"
    using strtoll_decimal [OF _ o2(3)] by blast
  then show ?thesis
    using VSNPrintf_printed [OF len assms(2) run p] lt k21 by auto
qed

theorem decimal_roundtrip_witness:
  "\<exists>r m'. VSNPrintf 4096 32 [37, 108, 108, 100] [- 1205] (\<lambda>_. 7) = Some (Inr (r, m')) \<and> internal_atoll m' 4096 = Some (Inr (- 1205))"
  by (rule decimal_roundtrip) (simp_all add: word_sle_eq)

end
