(* ===== verification/FormatText.thy ===== *)
theory FormatText
  imports Printf
begin

text \<open>
  What the formatter of \<^verbatim>\<open>sanitizer_printf.cc\<close> should print: the text of a format and its arguments, defined without
  a buffer, and the agreement of the model in Printf with it.
\<close>

section \<open>The text of a format\<close>

text \<open>
  What a format and its arguments mean, without a buffer, as a function to lists of characters. Numbers are the digits of a
  natural number; the strings are read from a memory that is known outside of the output buffer only, so that the text is
  undefined when a string runs into the buffer.
\<close>

function nat_digits :: "nat \<Rightarrow> nat \<Rightarrow> nat list" where
  "nat_digits base n = (if base < 2 \<or> n < base then [n] else nat_digits base (n div base) @ [n mod base])"
  by pat_completeness auto
termination
  by (relation "measure snd") auto

declare nat_digits.simps [simp del]

definition digit_text :: "bool \<Rightarrow> nat \<Rightarrow> u8" where
  "digit_text uppercase d = (if d < 10 then 48 + of_nat d else (if uppercase then 65 else 97) + of_nat (d - 10))"

definition number_text :: "nat \<Rightarrow> nat \<Rightarrow> bool \<Rightarrow> bool \<Rightarrow> bool \<Rightarrow> nat \<Rightarrow> u8 list" where
  "number_text base width pad_with_zero negative uppercase n =
     (let digits = map (digit_text uppercase) (nat_digits base n);
          sign = (if negative then [45] else []);
          fill = width - length sign - length digits
      in if pad_with_zero then sign @ replicate fill 48 @ digits else replicate fill 32 @ sign @ digits)"

definition number_run :: "nat \<Rightarrow> u8 \<Rightarrow> bool \<Rightarrow> bool \<Rightarrow> bool \<Rightarrow> nat \<Rightarrow> u8 list res" where
  "number_run base width pad_with_zero negative uppercase n =
     check (unat width < 30) ''minimal_num_length < kMaxLen''
       (Inr (number_text base (unat width) pad_with_zero negative uppercase n))"

partial_function (option) c_text :: "(uptr \<Rightarrow> u8 option) \<Rightarrow> nat option \<Rightarrow> uptr \<Rightarrow> u8 list option" where
  "c_text known limit s =
     (if limit = Some 0 then Some []
      else case known s of
        None \<Rightarrow> None
      | Some c \<Rightarrow> if c = 0 then Some []
                 else Option.bind (c_text known (map_option (\<lambda>n. n - 1) limit) (s + 1)) (\<lambda>t. Some (c # t)))"

definition limit_of :: "i32 \<Rightarrow> nat option" where
  "limit_of precision = (if precision <s 0 then None else Some (unat precision))"

definition string_text :: "(uptr \<Rightarrow> u8 option) \<Rightarrow> i32 \<Rightarrow> uptr \<Rightarrow> u8 list option" where
  "string_text known precision s =
     (if s = 0 then Some (case limit_of precision of None \<Rightarrow> [60, 110, 117, 108, 108, 62] | Some n \<Rightarrow> take n [60, 110, 117, 108, 108, 62])
      else c_text known (limit_of precision) s)"

definition conversion_text ::
  "(uptr \<Rightarrow> u8 option) \<Rightarrow> u8 \<Rightarrow> bool \<Rightarrow> bool \<Rightarrow> u8 \<Rightarrow> bool \<Rightarrow> i32 \<Rightarrow> u64 list \<Rightarrow> (u64 list \<times> u8 list) run" where
  "conversion_text known c have_flags wide width pad_with_zero precision args =
     (if c = 100 then
        bindo (Some (va_arg args)) (\<lambda>(a, args).
        let x = (if wide then sint a else sint (int_arg a)) in
        bindo (Some (number_run 10 width pad_with_zero (x < 0) False (nat \<bar>x\<bar>))) (\<lambda>t. Some (Inr (args, t))))
      else if c = 117 \<or> c = 120 \<or> c = 88 then
        bindo (Some (va_arg args)) (\<lambda>(a, args).
        bindo (Some (number_run (if c = 117 then 10 else 16) width pad_with_zero False (c = 88)
            (if wide then unat a else unat (int_arg a)))) (\<lambda>t. Some (Inr (args, t))))
      else if have_flags \<or> c \<notin> {112, 115, 99, 37} then Some (Inl (CheckFailed ''Supported Printf formats''))
      else if c = 112 then
        bindo (Some (va_arg args)) (\<lambda>(a, args).
        bindo (Some (number_run 16 12 True False False (unat a))) (\<lambda>t. Some (Inr (args, [48, 120] @ t))))
      else if c = 115 then
        bindo (Some (va_arg args)) (\<lambda>(a, args). map_option (\<lambda>t. Inr (args, t)) (string_text known precision a))
      else if c = 99 then bindo (Some (va_arg args)) (\<lambda>(a, args). Some (Inr (args, [ucast (int_arg a)])))
      else Some (Inr (args, [37])))"

definition directive_text ::
  "(uptr \<Rightarrow> u8 option) \<Rightarrow> u8 list \<Rightarrow> u64 list \<Rightarrow> ((u8 list \<times> u64 list) \<times> u8 list) run" where
  "directive_text known fmt args =
     (let have_width = is_digit_char (at0 fmt 0);
          (cur, width) = (if have_width then read_width fmt 0 else (fmt, 0));
          star = (at0 cur 0 = 46 \<and> at0 cur 1 = 42) in
      bindo (Some (if star then bindr (va_arg args) (\<lambda>(a, as). Inr (drop 2 cur, int_arg a, as)) else Inr (cur, -1, args)))
        (\<lambda>(cur, precision, args).
      let z = (at0 cur 0 = 122);
          cur = (if z then drop 1 cur else cur);
          ll = (\<not> z \<and> at0 cur 0 = 108 \<and> at0 cur 1 = 108);
          cur = (if ll then drop 2 cur else cur) in
      if 0 \<le>s precision \<and> at0 cur 0 \<noteq> 115 then Some (Inl (CheckFailed ''!(precision >= 0 && *cur != s)''))
      else bindo (conversion_text known (at0 cur 0) (have_width \<or> z \<or> ll) (ll \<or> z) (ucast width) (at0 fmt 0 = 48) precision args)
        (\<lambda>(args, t). Some (Inr ((drop 1 cur, args), t)))))"

partial_function (option) format_text :: "(uptr \<Rightarrow> u8 option) \<Rightarrow> u8 list \<Rightarrow> u64 list \<Rightarrow> u8 list run" where
  "format_text known fmt args =
     (if fmt = [] then Some (Inr [])
      else if hd fmt \<noteq> 37 then bindo (format_text known (tl fmt) args) (\<lambda>t. Some (Inr (hd fmt # t)))
      else bindo (directive_text known (tl fmt) args) (\<lambda>r.
           bindo (format_text known (fst (fst r)) (snd (fst r))) (\<lambda>t. Some (Inr (snd r @ t)))))"

text \<open>The memory outside of a block.\<close>

definition outside :: "uptr \<Rightarrow> nat \<Rightarrow> mem \<Rightarrow> uptr \<Rightarrow> u8 option" where
  "outside p n m a = (if in_block p n a then None else Some (m a))"

text \<open>
  \<open>agrees p k m str r1 r2\<close>: the run \<open>r1\<close> of the formatter, after the text \<open>str\<close>, appends what \<open>r2\<close> says: the same error
  or the text.
\<close>

definition agrees :: "uptr \<Rightarrow> nat \<Rightarrow> mem \<Rightarrow> u8 list \<Rightarrow> ('a \<times> pout) run \<Rightarrow> ('a \<times> u8 list) run \<Rightarrow> bool" where
  "agrees p k m str r1 r2 \<longleftrightarrow> (case r2 of None \<Rightarrow> True | Some (Inl e) \<Rightarrow> r1 = Some (Inl e)
     | Some (Inr (x, t)) \<Rightarrow> (\<exists>o2. r1 = Some (Inr (x, o2)) \<and> printed p k m o2 (str @ t)))"

lemma agrees_simps [simp]:
  "agrees p k m str r1 None" "agrees p k m str r1 (Some (Inl e)) \<longleftrightarrow> r1 = Some (Inl e)"
  "agrees p k m str r1 (Some (Inr (x, t))) \<longleftrightarrow> (\<exists>o2. r1 = Some (Inr (x, o2)) \<and> printed p k m o2 (str @ t))"
  by (simp_all add: agrees_def)

lemma agrees_bind:
  "(\<And>x. r = Inr x \<Longrightarrow> agrees p k m str (f x) (g x)) \<Longrightarrow> agrees p k m str (bindo (Some r) f) (bindo (Some r) g)"
  by (cases r) auto

lemma agrees_if:
  "agrees p k m str r1 r2 \<Longrightarrow> agrees p k m str s1 s2 \<Longrightarrow> agrees p k m str (if b then r1 else s1) (if b then r2 else s2)"
  by simp

lemma digits_loop_base:
  assumes "base = 10 \<or> base = 16" and "unat v < unat base ^ k" and "0 < k" and "length nb + k \<le> 30"
  shows "\<exists>ds. digits_loop base v nb = Inr (nb @ ds) \<and> map unat (rev ds) = nat_digits (unat base) (unat v)"
  using assms(2-4)
proof (induction k arbitrary: v nb)
  case (Suc k)
  let ?d = "v mod base" and ?v = "v div base" and ?b = "unat base"
  have b: "1 < ?b" using assms(1) by auto
  have u: "unat ?d = unat v mod ?b" "unat ?v = unat v div ?b" by (simp_all add: unat_mod unat_div)
  have room: "\<not> kMaxLen \<le> length nb" using Suc.prems(3) by (simp add: kMaxLen_def)
  show ?case
  proof (cases "?v = 0")
    case True
    then have lt: "unat v < ?b" using u(2) b by (simp add: div_eq_0_iff)
    then show ?thesis using True room u(1) b
      by (subst digits_loop.simps, subst nat_digits.simps) (auto simp: mod_less)
  next
    case False
    then have ge: "?b \<le> unat v" using u(2) b by (metis div_less not_less unat_eq_0)
    have "unat ?v < ?b ^ k" using Suc.prems(1) u(2) b by (simp add: div_less_iff_less_mult mult.commute)
    moreover from this False have "0 < k" by (cases k) (auto simp: unat_eq_zero)
    ultimately obtain ds where ds: "digits_loop base ?v (nb @ [?d]) = Inr ((nb @ [?d]) @ ds)"
        "map unat (rev ds) = nat_digits ?b (unat ?v)"
      using Suc.IH [of ?v "nb @ [?d]"] Suc.prems(3) by auto
    then show ?thesis using False room ge b u
      by (subst digits_loop.simps, subst nat_digits.simps) (auto simp: word_gt_0)
  qed
qed simp

lemma digit_char_text:
  assumes "unat x < 16"
  shows "digit_char up x = digit_text up (unat x)"
proof -
  have u: "unat (ucast x :: u8) = unat x" using assms by (simp add: unsigned_ucast_eq take_bit_nat_eq_self)
  have c: "(ucast x :: u8) = of_nat (unat x)" using assms by (simp add: word_unat_eq_iff u unat_of_nat)
  have "sint (ucast x :: u8) = int (unat x)" using assms u by (subst sint_below) simp_all
  then have s: "(ucast x :: u8) <s 10 \<longleftrightarrow> int (unat x) < int 10" by (simp add: word_sless_alt)
  then have s: "(ucast x :: u8) <s 10 \<longleftrightarrow> unat x < 10" by (simp only: of_nat_less_iff)
  show ?thesis by (simp add: digit_char_def digit_text_def s Let_def)
qed

lemma zeros_loop_fill:
  assumes k: "unat p + k < 2 ^ 64" and o1: "printed p k m o1 str" and xs: "xs \<noteq> []"
  shows "\<exists>o2. zeros_loop (p + of_nat k) pad (replicate n 0 @ xs) o1 = zeros_loop (p + of_nat k) pad xs o2
    \<and> printed p k m o2 (str @ replicate n (if pad then 48 else 32))"
  using o1
proof (induction n arbitrary: o1 str)
  case (Suc n)
  from Suc.IH [OF AppendChar_printed [OF Suc.prems k]] xs show ?case by simp
qed auto

lemma nat_digits_props:
  assumes "2 \<le> b"
  shows "nat_digits b n \<noteq> []" "\<forall>d \<in> set (nat_digits b n). d < b" "n \<noteq> 0 \<Longrightarrow> hd (nat_digits b n) \<noteq> 0" "nat_digits b 0 = [0]"
proof -
  show ne: "nat_digits b n \<noteq> []" for n by (subst nat_digits.simps) simp
  show "\<forall>d \<in> set (nat_digits b n). d < b"
  proof (induction n rule: less_induct)
    case (less n)
    show ?case
    proof (cases "n < b")
      case False
      then have "n div b < n" using assms by simp
      with less.IH [OF this] False assms show ?thesis by (subst nat_digits.simps) auto
    qed (subst nat_digits.simps, simp)
  qed
  show "nat_digits b 0 = [0]" using assms by (subst nat_digits.simps) simp
  show "n \<noteq> 0 \<Longrightarrow> hd (nat_digits b n) \<noteq> 0"
  proof (induction n rule: less_induct)
    case (less n)
    show ?case
    proof (cases "n < b")
      case False
      then have "n div b < n" "n div b \<noteq> 0" using assms less.prems by (simp_all add: div_eq_0_iff)
      with less.IH [OF this] False assms ne show ?thesis by (subst nat_digits.simps) simp
    qed (use less.prems in \<open>subst nat_digits.simps, simp\<close>)
  qed
qed

lemma zeros_loop_digits:
  assumes k: "unat p + k < 2 ^ 64" and o1: "printed p k m o1 str" and xs: "xs \<noteq> []" "xs = [0] \<or> hd xs \<noteq> 0"
    and sign: "\<not> minus_sign \<or> hd xs \<noteq> 0"
  shows "\<exists>o2. (let (rest, o3) = zeros_loop (p + of_nat k) pad xs o1;
        o4 = (if minus_sign then AppendChar (p + of_nat k) 45 o3 else o3) in Inr (put_digits (p + of_nat k) up rest o4)) = (Inr o2 :: pout res)
    \<and> printed p k m o2 (str @ (if minus_sign then [45] else []) @ map (digit_char up) xs)"
proof (cases "hd xs = 0")
  case True
  then have "xs = [0]" "\<not> minus_sign" using xs sign by auto
  then show ?thesis using AppendChar_printed [OF o1 k, of 48] digit_char_text [of 0 up]
    by (simp add: put_digits_def digit_text_def)
next
  case False
  then have z: "zeros_loop (p + of_nat k) pad xs o1 = (xs, o1)" using xs(1) by (cases xs) auto
  have "printed p k m (if minus_sign then AppendChar (p + of_nat k) 45 o1 else o1) (str @ (if minus_sign then [45] else []))"
    using o1 AppendChar_printed [OF o1 k] by simp
  from put_digits_printed [OF k this, of up xs] show ?thesis by (simp add: z)
qed

text \<open>The number printer prints the number.\<close>

lemma AppendNumber_text:
  assumes k: "unat p + k < 2 ^ 64" and o1: "printed p k m o1 str"
    and base: "base = 10 \<or> base = 16" and neg: "\<not> negative \<or> v \<noteq> 0 \<and> base = 10"
  shows "case number_run (unat base) width pad negative up (unat v) of
      Inl e \<Rightarrow> AppendNumber (p + of_nat k) v base width pad negative up o1 = Inl e
    | Inr t \<Rightarrow> \<exists>o2. AppendNumber (p + of_nat k) v base width pad negative up o1 = Inr o2 \<and> printed p k m o2 (str @ t)"
proof (cases "unat width < 30")
  case False
  then show ?thesis using base neg by (cases negative) (auto simp: number_run_def AppendNumber_def kMaxLen_def)
next
  case True
  let ?e = "p + of_nat k" and ?b = "ucast base :: uptr"
  have b: "?b = 10 \<or> ?b = 16" "unat ?b = unat base" "2 \<le> unat base" using base by auto
  have "unat v < 10 ^ 20" using unat_lt_64 [of v] by simp
  also have "(10 :: nat) ^ 20 \<le> unat ?b ^ 20" using b(1) by auto
  finally obtain nb where nb: "digits_loop ?b v [] = Inr nb" "map unat (rev nb) = nat_digits (unat base) (unat v)"
    using digits_loop_base [OF b(1), of v 20 "[]"] b(2) by auto
  note N = nat_digits_props(1-3) [OF b(3), of "unat v"] nat_digits_props(4) [OF b(3)]
  have ne: "rev nb \<noteq> []" using N(1) nb(2) by auto
  have lt: "\<forall>x \<in> set (rev nb). unat x < 16" using N(2) base unfolding nb(2) [symmetric] by auto
  have hd: "rev nb = [0] \<or> hd (rev nb) \<noteq> 0" "v \<noteq> 0 \<Longrightarrow> hd (rev nb) \<noteq> 0"
  proof -
    show nz: "v \<noteq> 0 \<Longrightarrow> hd (rev nb) \<noteq> 0"
      using N(3) ne unfolding nb(2) [symmetric] by (auto simp: hd_map unat_gt_0)
    show "rev nb = [0] \<or> hd (rev nb) \<noteq> 0"
    proof (cases "v = 0")
      case True
      then have "map unat (rev nb) = map unat [0 :: uptr]" using N(4) nb(2) by simp
      then show ?thesis by (metis inj_on_def map_injective inj_def word_unat_eq_iff)
    qed (use nz in blast)
  qed
  define minimal where "minimal = (if negative \<and> width \<noteq> 0 then width - 1 else width)"
  have minimal: "unat minimal = unat width - (if negative then 1 else 0)"
    unfolding minimal_def by (auto simp: unat_minus_one)
  let ?fill = "unat minimal - length nb"
  let ?o = "if negative \<and> pad then AppendChar ?e 45 o1 else o1"
  have o: "printed p k m ?o (str @ (if negative \<and> pad then [45] else []))"
    using o1 AppendChar_printed [OF o1 k] by simp
  obtain o2 where o2: "zeros_loop ?e pad (replicate ?fill 0 @ rev nb) ?o = zeros_loop ?e pad (rev nb) o2"
    "printed p k m o2 ((str @ (if negative \<and> pad then [45] else [])) @ replicate ?fill (if pad then 48 else 32))"
    using zeros_loop_fill [OF k o ne] by blast
  have "\<not> (negative \<and> \<not> pad) \<or> hd (rev nb) \<noteq> 0" using hd(2) neg by blast
  from zeros_loop_digits [OF k o2(2) ne hd(1) this, of pad up]
  obtain o3 where o3: "(let (rest, o3) = zeros_loop ?e pad (rev nb) o2;
        o4 = (if negative \<and> \<not> pad then AppendChar ?e 45 o3 else o3) in Inr (put_digits ?e up rest o4)) = (Inr o3 :: pout res)"
    "printed p k m o3 (((str @ (if negative \<and> pad then [45] else [])) @ replicate ?fill (if pad then 48 else 32))
       @ (if negative \<and> \<not> pad then [45] else []) @ map (digit_char up) (rev nb))"
    by blast
  have run: "AppendNumber ?e v base width pad negative up o1 = Inr o3"
  proof -
    have C: "(base = 10 \<or> base = 16) = True" "(base = 10 \<or> \<not> negative) = True" "(v \<noteq> 0 \<or> \<not> negative) = True"
      "(unat width < kMaxLen) = True" "(0 < length (nb @ replicate n (0 :: uptr))) = True" for n
      using base neg True ne by (auto simp: kMaxLen_def)
    have "AppendNumber ?e v base width pad negative up o1 =
        (let (rest, o3) = zeros_loop ?e pad (replicate ?fill 0 @ rev nb) ?o;
          o4 = (if negative \<and> \<not> pad then AppendChar ?e 45 o3 else o3) in Inr (put_digits ?e up rest o4))"
      by (simp only: AppendNumber_def C check_True Let_def minimal_def [symmetric] nb(1) bindr.simps rev_append rev_replicate)
    then show ?thesis unfolding o2(1) o3(1) .
  qed
  have digs: "map (digit_char up) (rev nb) = map (digit_text up) (nat_digits (unat base) (unat v))"
    unfolding nb(2) [symmetric] using lt digit_char_text by auto
  have len: "length nb = length (nat_digits (unat base) (unat v))" unfolding nb(2) [symmetric] by simp
  show ?thesis
    using True run o3(2) unfolding digs len minimal
    by (auto simp: number_run_def number_text_def Let_def split: if_splits)
qed

section \<open>Strings and conversions\<close>

lemma outside_SomeD: "outside p n m a = Some c \<Longrightarrow> \<not> in_block p n a \<and> c = m a"
  by (simp add: outside_def split: if_splits)

text \<open>The comparison with the precision, for a count that has not passed it.\<close>

lemma precision_reached:
  assumes "prec <s 0 \<or> unat r \<le> unat (prec :: i32)"
  shows "0 \<le>s prec \<and> prec \<le>s r \<longleftrightarrow> \<not> prec <s 0 \<and> unat r = unat prec"
    "\<not> prec <s 0 \<Longrightarrow> unat r \<noteq> unat prec \<Longrightarrow> unat (r + 1) = Suc (unat r)"
proof -
  have n: "sint prec = int (unat prec) \<and> unat prec < 2 ^ 31" if "\<not> prec <s 0"
  proof -
    have "0 \<le> sint prec" "sint prec < 2 ^ 31" using that sint_lt [of prec] by (simp_all add: word_sless_alt)
    then have "uint prec = sint prec" unfolding uint_sint by (intro take_bit_int_eq_self) simp_all
    then have i: "sint prec = int (unat prec)" by simp
    moreover have "int (unat prec) < int (2 ^ 31)" using \<open>sint prec < 2 ^ 31\<close> unfolding i by simp
    then have "unat prec < 2 ^ 31" by (simp only: of_nat_less_iff)
    ultimately show ?thesis by blast
  qed
  have r: "sint r = int (unat r)" "unat r < 2 ^ 31" if "\<not> prec <s 0"
  proof -
    show u: "unat r < 2 ^ 31" using n [OF that] assms that by linarith
    show "sint r = int (unat r)" using u by (intro sint_below) simp
  qed
  show "0 \<le>s prec \<and> prec \<le>s r \<longleftrightarrow> \<not> prec <s 0 \<and> unat r = unat prec"
  proof (cases "prec <s 0")
    case False
    then have "prec \<le>s r \<longleftrightarrow> int (unat prec) \<le> int (unat r)" "0 \<le>s prec" using n r(1) by (simp_all add: word_sle_eq word_sless_alt)
    then show ?thesis using assms False by (auto simp only: of_nat_le_iff)
  qed (simp add: word_sless_alt word_sle_eq)
  show "unat (r + 1) = Suc (unat r)" if "\<not> prec <s 0"
    using r(2) [OF that] by (subst unat_add_nowrap) simp_all
qed

lemma string_loop_text:
  assumes k: "unat p + k < 2 ^ 64" and o1: "printed p k m o1 str"
    and t: "c_text (outside p (Suc k) m) limit s = Some t"
    and limit: "limit = (if prec <s 0 then None else Some (unat prec - unat r))" "prec <s 0 \<or> unat r \<le> unat prec"
  shows "\<exists>o2. string_loop (p + of_nat k) prec s r o1 = Some o2 \<and> printed p k m o2 (str @ t)"
  using o1 t limit
proof (induction t arbitrary: o1 str s r limit)
  case Nil
  have "p_mem o1 s = 0 \<or> 0 \<le>s prec \<and> prec \<le>s r"
  proof (cases "limit = Some 0")
    case True
    then show ?thesis using Nil.prems(3,4) unfolding precision_reached(1) [OF Nil.prems(4)] by (auto split: if_splits)
  next
    case False
    then have "outside p (Suc k) m s = Some 0"
      using Nil.prems(2) by (subst (asm) c_text.simps) (auto split: option.splits if_splits simp: bind_eq_Some_conv)
    then show ?thesis using Nil.prems(1) by (auto dest!: outside_SomeD simp: printed_def mem_with_def in_block_def)
  qed
  then have "string_loop (p + of_nat k) prec s r o1 = Some o1" by (subst string_loop.simps) simp
  then show ?case using Nil.prems(1) by simp
next
  case (Cons c t)
  let ?l = "map_option (\<lambda>n. n - 1) limit"
  have c: "limit \<noteq> Some 0" "outside p (Suc k) m s = Some c" "c \<noteq> 0" "c_text (outside p (Suc k) m) ?l (s + 1) = Some t"
    using Cons.prems(2) by (subst (asm) c_text.simps, auto split: option.splits if_splits simp: bind_eq_Some_conv)+
  have s: "p_mem o1 s = c"
    using outside_SomeD [OF c(2)] Cons.prems(1) by (auto simp: printed_def mem_with_def in_block_def)
  have nr: "\<not> (0 \<le>s prec \<and> prec \<le>s r)"
    using c(1) Cons.prems(3) unfolding precision_reached(1) [OF Cons.prems(4)] by auto
  then have p: "\<not> prec <s 0 \<Longrightarrow> unat r \<noteq> unat prec" unfolding precision_reached(1) [OF Cons.prems(4)] by blast
  have l: "?l = (if prec <s 0 then None else Some (unat prec - unat (r + 1)))" "prec <s 0 \<or> unat (r + 1) \<le> unat prec"
    using Cons.prems(3,4) p precision_reached(2) [OF Cons.prems(4)] by (cases "prec <s 0"; simp)+
  have "string_loop (p + of_nat k) prec s r o1 =
      string_loop (p + of_nat k) prec (s + 1) (r + 1) (AppendChar (p + of_nat k) c o1)"
    using nr c(3) by (subst string_loop.simps) (simp only: s simp_thms if_False)
  then show ?case using Cons.IH [OF AppendChar_printed [OF Cons.prems(1) k] c(4) l, of c] by simp
qed

lemma put_literal_text:
  assumes k: "unat p + k < 2 ^ 64" and o1: "printed p k m o1 str" and limit: "prec <s 0 \<or> unat r \<le> unat prec"
  shows "printed p k m (put_literal (p + of_nat k) cs prec r o1) (str @ (if prec <s 0 then cs else take (unat prec - unat r) cs))"
  using o1 limit
proof (induction cs arbitrary: o1 str r)
  case (Cons c cs)
  note R = precision_reached [OF Cons.prems(2)]
  show ?case
  proof (cases "\<not> prec <s 0 \<and> unat r = unat prec")
    case True
    then have "put_literal (p + of_nat k) (c # cs) prec r o1 = o1" using R(1) by simp
    then show ?thesis using True Cons.prems(1) by simp
  next
    case False
    then have "prec <s 0 \<or> unat (r + 1) \<le> unat prec" using R(2) Cons.prems(2) by (cases "prec <s 0") auto
    from Cons.IH [OF AppendChar_printed [OF Cons.prems(1) k] this]
    have p: "printed p k m (put_literal (p + of_nat k) (c # cs) prec r o1)
        ((str @ [c]) @ (if prec <s 0 then cs else take (unat prec - unat (r + 1)) cs))"
      using False R(1) by (simp only: put_literal.simps if_False)
    show ?thesis
    proof (cases "prec <s 0")
      case False
      then have "unat prec - unat r = Suc (unat prec - unat (r + 1))" using \<open>\<not> (\<not> prec <s 0 \<and> unat r = unat prec)\<close> R(2) Cons.prems(2) by auto
      then show ?thesis using p False by simp
    qed (use p in simp)
  qed
qed simp

lemma AppendString_text:
  assumes k: "unat p + k < 2 ^ 64" and o1: "printed p k m o1 str" and t: "string_text (outside p (Suc k) m) prec s = Some t"
  shows "\<exists>o2. AppendString (p + of_nat k) prec s o1 = Some o2 \<and> printed p k m o2 (str @ t)"
proof (cases "s = 0")
  case True
  have p: "prec <s 0 \<or> unat (0 :: i32) \<le> unat prec" by simp
  show ?thesis using True t put_literal_text [OF k o1 p, of "[60, 110, 117, 108, 108, 62]"]
    by (auto simp: AppendString_def string_text_def limit_of_def simp del: put_literal.simps split: if_splits)
next
  case False
  then show ?thesis using t string_loop_text [OF k o1, of "limit_of prec" s t prec 0]
    by (simp add: AppendString_def string_text_def limit_of_def)
qed

text \<open>The printer of a number in its place in a conversion.\<close>

lemma number_agrees:
  assumes k: "unat p + k < 2 ^ 64" and o1: "printed p k m o1 str"
    and base: "base = 10 \<or> base = 16" and neg: "\<not> negative \<or> v \<noteq> 0 \<and> base = 10" and "b = unat base" "n = unat v"
  shows "agrees p k m str (bindo (Some (AppendNumber (p + of_nat k) v base w pad negative up o1)) (\<lambda>o2. Some (Inr (args, o2))))
      (bindo (Some (number_run b w pad negative up n)) (\<lambda>t. Some (Inr (args, t))))"
  using AppendNumber_text [where width = w and pad = pad and up = up, OF k o1 base neg] assms(5,6) by (auto split: sum.splits)

lemma agrees_append:
  assumes "agrees p k m (str @ t) r1 (bindo (Some r2) (\<lambda>u. Some (Inr (x, u))))"
  shows "agrees p k m str r1 (bindo (Some r2) (\<lambda>u. Some (Inr (x, t @ u))))"
  using assms by (cases r2) auto

lemma int_negative: "(x :: 64 word) <s 0 \<longleftrightarrow> sint x < 0" "sint x = (if x <s 0 then - int (unat (- x)) else int (unat x))"
proof -
  show n: "x <s 0 \<longleftrightarrow> sint x < 0" by (simp add: word_sless_alt)
  show "sint x = (if x <s 0 then - int (unat (- x)) else int (unat x))"
  proof (cases "x <s 0")
    case True
    have s: "sint x < 0" "- (2 ^ 63) \<le> sint x" using True sint_ge [of x] by (simp_all add: word_sless_alt)
    have "- x = word_of_int (- sint x)" by simp
    then have "uint (- x) = - sint x" using s by (simp only: uint_word_of_int_eq) (intro take_bit_int_eq_self; simp)
    then have "int (unat (- x)) = - sint x" by simp
    then show ?thesis using True by simp
  next
    case False
    then have "sint x = int (unat x)" using negative_value(2) [of x] by (intro sint_below) simp
    then show ?thesis using False by simp
  qed
qed

lemma sint_wide: "sint (scast x :: u64) = sint (x :: i32)"
  using sint_ge [of x] sint_lt [of x] by (simp add: signed_scast_eq signed_take_bit_int_eq_self)

lemma unat_wide: "unat (ucast x :: u64) = unat (x :: i32)"
  using unsigned_less [of x, where 'a = nat] by (simp add: unsigned_ucast_eq take_bit_nat_eq_self)

lemma conversion_agrees:
  assumes k: "unat p + k < 2 ^ 64" and o1: "printed p k m o1 str"
  shows "agrees p k m str (convert (p + of_nat k) c have_flags wide width pad prec args o1)
    (conversion_text (outside p (Suc k) m) c have_flags wide width pad prec args)"
proof -
  have arg: "agrees p k m str (bindo (Some (va_arg args)) (\<lambda>(a, as). f a as)) (bindo (Some (va_arg args)) (\<lambda>(a, as). g a as))"
    if "\<And>a as. agrees p k m str (f a as) (g a as)" for f g
    by (rule agrees_bind) (use that in auto)
  have dec: "agrees p k m str (bindo (Some (AppendSignedDecimal (p + of_nat k) x width pad o1)) (\<lambda>o2. Some (Inr (as, o2))))
      (bindo (Some (number_run 10 width pad (y < 0) False (nat \<bar>y\<bar>))) (\<lambda>t. Some (Inr (as, t))))" if "y = sint x" for x y as
    unfolding AppendSignedDecimal_def Let_def that int_negative(1) [symmetric]
    by (rule number_agrees [OF k o1]) (use int_negative [of x] in \<open>auto split: if_splits\<close>)
  have uns: "agrees p k m str (bindo (Some (AppendUnsigned (p + of_nat k) x base width pad up o1)) (\<lambda>o2. Some (Inr (as, o2))))
      (bindo (Some (number_run b width pad False up n)) (\<lambda>t. Some (Inr (as, t))))"
    if "base = 10 \<or> base = 16" "b = unat base" "n = unat x" for x base up as b n
    unfolding AppendUnsigned_def by (rule number_agrees [OF k o1]) (use that in auto)
  have ch: "agrees p k m str (Some (Inr (as, AppendChar (p + of_nat k) x o1))) (Some (Inr (as, [x])))" for as x
    using AppendChar_printed [OF o1 k] by simp
  have ptr: "agrees p k m str (bindo (Some (AppendPointer (p + of_nat k) x o1)) (\<lambda>o2. Some (Inr (as, o2))))
      (bindo (Some (number_run 16 12 True False False (unat x))) (\<lambda>t. Some (Inr (as, [48, 120] @ t))))" for x as
  proof (rule agrees_append)
    have "printed p k m (put_literal (p + of_nat k) [48, 120] (- 1) 0 o1) (str @ [48, 120])"
      using put_literal_text [OF k o1, of "- 1" 0 "[48, 120]"] by (simp add: word_sless_alt del: put_literal.simps)
    then show "agrees p k m (str @ [48, 120]) (bindo (Some (AppendPointer (p + of_nat k) x o1)) (\<lambda>o2. Some (Inr (as, o2))))
        (bindo (Some (number_run 16 12 True False False (unat x))) (\<lambda>t. Some (Inr (as, t))))"
      unfolding AppendPointer_def AppendUnsigned_def kPointerFormatLength_def by (rule number_agrees [OF k]) simp_all
  qed
  have str: "agrees p k m str (map_option (\<lambda>o2. Inr (as, o2)) (AppendString (p + of_nat k) prec s o1))
      (map_option (\<lambda>t. Inr (as, t)) (string_text (outside p (Suc k) m) prec s))" for s as
    using AppendString_text [OF k o1] by (cases "string_text (outside p (Suc k) m) prec s") auto
  show ?thesis
    unfolding convert_def conversion_text_def Let_def
    by (intro agrees_if arg str ch ptr dec uns agrees_simps(2) [THEN iffD2] refl) (simp_all add: sint_wide unat_wide)
qed

lemma bindo_assoc: "bindo (bindo r f) g = bindo r (\<lambda>x. bindo (f x) g)"
  by (cases r) (auto simp: bindo_def split: sum.splits)

lemma bindo_if: "bindo (if b then r1 else r2) f = (if b then bindo r1 f else bindo r2 f)"
  by simp

lemma agrees_map:
  assumes "agrees p k m str r1 r2"
  shows "agrees p k m str (bindo r1 (\<lambda>x. Some (Inr (f (fst x), snd x)))) (bindo r2 (\<lambda>x. Some (Inr (f (fst x), snd x))))"
  using assms by (cases r2) (auto simp: agrees_def split: sum.splits)

lemma directive_agrees:
  assumes k: "unat p + k < 2 ^ 64" and o1: "printed p k m o1 str"
  shows "agrees p k m str (bindo (directive (p + of_nat k) fmt args o1) (\<lambda>x. Some (Inr ((fst x, fst (snd x)), snd (snd x)))))
    (directive_text (outside p (Suc k) m) fmt args)"
  unfolding directive_def directive_text_def Let_def split_beta bindo_assoc bindo_if bindo_simps fst_conv snd_conv
  by (intro agrees_bind agrees_if agrees_simps(2) [THEN iffD2] refl agrees_map conversion_agrees [OF assms])

lemma bindo_SomeD:
  assumes "bindo r1 (\<lambda>t. Some (Inr (f t))) = Some r"
  shows "\<exists>y. r1 = Some y \<and> r = (case y of Inl e \<Rightarrow> Inl e | Inr t \<Rightarrow> Inr (f t))"
proof (cases r1)
  case (Some y)
  then show ?thesis using assms by (cases y) auto
qed (use assms in simp)

lemma format_agrees:
  assumes k: "unat p + k < 2 ^ 64"
    and t: "format_text (outside p (Suc k) m) fmt args = Some r" and o1: "printed p k m o1 str"
  shows "case r of Inl e \<Rightarrow> format_loop (p + of_nat k) fmt args o1 = Some (Inl e)
    | Inr t \<Rightarrow> \<exists>o2. format_loop (p + of_nat k) fmt args o1 = Some (Inr o2) \<and> printed p k m o2 (str @ t)"
  using t o1
proof (induction "outside p (Suc k) m" fmt args r arbitrary: o1 str rule: format_text.raw_induct [rotated, consumes 1, case_names step])
  case (step format fmt args r)
  note IH = step(1) and body = step(2)
  have pr: "printed p k m o1 str" using step by blast
  let ?K = "outside p (Suc k) m"
  show ?case
  proof (cases fmt)
    case Nil
    then show ?thesis using body pr by (subst format_loop.simps) auto
  next
    case (Cons c cs)
    show ?thesis
    proof (cases "c = 37")
      case False
      have step: "format_loop (p + of_nat k) fmt args o1 = format_loop (p + of_nat k) cs args (AppendChar (p + of_nat k) c o1)"
        using False Cons by (subst format_loop.simps) simp
      obtain r1 where r1: "format ?K cs args = Some r1" "r = (case r1 of Inl e \<Rightarrow> Inl e | Inr t \<Rightarrow> Inr (c # t))"
        using body False Cons bindo_SomeD [of "format ?K cs args"] by auto
      show ?thesis
        using IH [OF r1(1) AppendChar_printed [OF pr k, of c]] unfolding step r1(2) by (cases r1) auto
    next
      case True
      have step: "format_loop (p + of_nat k) fmt args o1 =
          bindo (directive (p + of_nat k) cs args o1) (\<lambda>r. format_loop (p + of_nat k) (fst r) (fst (snd r)) (snd (snd r)))"
        using True Cons by (subst format_loop.simps) simp
      obtain d where d: "directive_text ?K cs args = Some d"
        using body True Cons by (cases "directive_text ?K cs args") auto
      from directive_agrees [OF k pr, of cs args]
      have D: "agrees p k m str (bindo (directive (p + of_nat k) cs args o1)
          (\<lambda>x. Some (Inr ((fst x, fst (snd x)), snd (snd x))))) (Some d)" unfolding d .
      show ?thesis
      proof (cases d)
        case (Inl e)
        then have "r = Inl e" using body True Cons d by simp
        moreover obtain y where y: "directive (p + of_nat k) cs args o1 = Some y"
          "Inl e = (case y of Inl e \<Rightarrow> Inl e | Inr x \<Rightarrow> Inr ((fst x, fst (snd x)), snd (snd x)))"
          using bindo_SomeD [OF D [unfolded Inl agrees_simps]] by blast
        then have "directive (p + of_nat k) cs args o1 = Some (Inl e)" by (cases y) auto
        ultimately show ?thesis unfolding step by simp
      next
        case (Inr x)
        obtain cur as t where x: "x = ((cur, as), t)" by (cases x) auto
        obtain o2 where pr2: "printed p k m o2 (str @ t)" and run: "bindo (directive (p + of_nat k) cs args o1)
            (\<lambda>x. Some (Inr ((fst x, fst (snd x)), snd (snd x)))) = Some (Inr ((cur, as), o2))"
          using D unfolding Inr x agrees_simps by blast
        obtain y where "directive (p + of_nat k) cs args o1 = Some y"
          "Inr ((cur, as), o2) = (case y of Inl e \<Rightarrow> Inl e | Inr x \<Rightarrow> Inr ((fst x, fst (snd x)), snd (snd x)))"
          using bindo_SomeD [OF run] by blast
        then have o2: "directive (p + of_nat k) cs args o1 = Some (Inr (cur, as, o2))" by (cases y) auto
        obtain r1 where r1: "format ?K cur as = Some r1" "r = (case r1 of Inl e \<Rightarrow> Inl e | Inr u \<Rightarrow> Inr (t @ u))"
          using body True Cons d Inr x bindo_SomeD [of "format ?K cur as"] by auto
        show ?thesis using IH [OF r1(1) pr2] o2 unfolding step r1(2) by (cases r1) auto
      qed
    qed
  qed
qed

section \<open>The text is defined\<close>

text \<open>A run that ends, with an error or with a result in \<open>Q\<close>.\<close>

definition ends_in :: "('a \<Rightarrow> bool) \<Rightarrow> 'a run \<Rightarrow> bool" where
  "ends_in Q r \<longleftrightarrow> (case r of None \<Rightarrow> False | Some (Inl e) \<Rightarrow> True | Some (Inr x) \<Rightarrow> Q x)"

lemma ends_in_simps [simp]: "\<not> ends_in Q None" "ends_in Q (Some (Inl e))" "ends_in Q (Some (Inr x)) \<longleftrightarrow> Q x"
  by (simp_all add: ends_in_def)

lemma ends_in_bind:
  assumes "ends_in P r" and "\<And>x. P x \<Longrightarrow> ends_in Q (f x)"
  shows "ends_in Q (bindo r f)"
proof (cases r)
  case (Some y)
  then show ?thesis using assms by (cases y) auto
qed (use assms in simp)

lemma ends_in_if: "(b \<Longrightarrow> ends_in Q r1) \<Longrightarrow> (\<not> b \<Longrightarrow> ends_in Q r2) \<Longrightarrow> ends_in Q (if b then r1 else r2)"
  by simp

lemma c_text_limit:
  assumes "c_text known None s = Some t"
  shows "c_text known limit s \<noteq> None"
  using assms
proof (induction t arbitrary: s limit)
  case Nil
  then have "known s = Some 0" by (subst (asm) c_text.simps) (auto split: option.splits if_splits simp: bind_eq_Some_conv)
  then show ?case by (subst c_text.simps) simp
next
  case (Cons c t)
  have c: "known s = Some c" "c_text known None (s + 1) = Some t"
    using Cons.prems by (subst (asm) c_text.simps, auto split: option.splits if_splits simp: bind_eq_Some_conv)+
  obtain u where "c_text known (map_option (\<lambda>n. n - 1) limit) (s + 1) = Some u" using Cons.IH [OF c(2)] by blast
  then show ?case using c(1) by (subst c_text.simps) simp
qed

lemma conversion_ends:
  assumes strings: "\<forall>a \<in> set args. c_text known None a \<noteq> None"
  shows "ends_in (\<lambda>x. set (fst x) \<subseteq> set args) (conversion_text known c have_flags wide width pad prec args)"
proof -
  have arg: "ends_in (\<lambda>x. set (fst x) \<subseteq> set args) (bindo (Some (va_arg args)) (\<lambda>(a, as). f a as))"
    if "\<And>a as. a \<in> set args \<Longrightarrow> set as \<subseteq> set args \<Longrightarrow> ends_in (\<lambda>x. set (fst x) \<subseteq> set args) (f a as)" for f
    using that by (cases args) (auto simp: va_arg_def)
  have num: "ends_in (\<lambda>x. set (fst x) \<subseteq> set args) (bindo (Some (number_run b w pad neg up n)) (\<lambda>t. Some (Inr (as, f t))))"
    if "set as \<subseteq> set args" for b w pad neg up n as f
    using that by (simp add: number_run_def check_def)
  have str: "ends_in (\<lambda>x. set (fst x) \<subseteq> set args) (map_option (\<lambda>t. Inr (as, t)) (string_text known prec a))"
    if "a \<in> set args" "set as \<subseteq> set args" for a as
  proof -
    have "c_text known None a \<noteq> None" using that(1) strings by blast
    then obtain t where "c_text known None a = Some t" by auto
    then have "c_text known (limit_of prec) a \<noteq> None" by (rule c_text_limit)
    then obtain u where "c_text known (limit_of prec) a = Some u" by auto
    then show ?thesis using that(2) by (simp add: string_text_def)
  qed
  show ?thesis
    unfolding conversion_text_def Let_def
    by (intro ends_in_if arg num str ends_in_simps(2)) simp_all
qed

lemma directive_ends:
  assumes strings: "\<forall>a \<in> set args. c_text known None a \<noteq> None"
  shows "ends_in (\<lambda>x. length (fst (fst x)) \<le> length fmt \<and> set (snd (fst x)) \<subseteq> set args) (directive_text known fmt args)"
proof -
  define Q where "Q = (\<lambda>x :: (u8 list \<times> u64 list) \<times> u8 list. length (fst (fst x)) \<le> length fmt \<and> set (snd (fst x)) \<subseteq> set args)"
  define P where "P = (\<lambda>x :: u8 list \<times> i32 \<times> u64 list. length (fst x) \<le> length fmt \<and> set (snd (snd x)) \<subseteq> set args)"
  have start: "ends_in P (Some (if b then bindr (va_arg args) (\<lambda>x. Inr (drop 2 cur, int_arg (fst x), snd x)) else Inr (cur, - 1, args)))"
    if "length cur \<le> length fmt" for b cur
    using that by (cases args) (auto simp: P_def va_arg_def)
  have conv: "ends_in Q (bindo (conversion_text known c have_flags wide width pad prec as) (\<lambda>x. Some (Inr ((drop 1 cur, fst x), snd x))))"
    if "set as \<subseteq> set args" "length cur \<le> length fmt" for c have_flags wide width pad prec as cur
  proof (rule ends_in_bind)
    have "\<forall>a \<in> set as. c_text known None a \<noteq> None" using strings that(1) by blast
    then show "ends_in (\<lambda>x. set (fst x) \<subseteq> set as) (conversion_text known c have_flags wide width pad prec as)" by (rule conversion_ends)
  qed (use that in \<open>auto simp: Q_def\<close>)
  show ?thesis
    unfolding directive_text_def Let_def split_beta Q_def [symmetric]
    by (intro ends_in_bind [OF start [OF read_width_if]] ends_in_if ends_in_simps(2) conv) (auto simp: P_def)
qed

lemma format_text_defined:
  assumes "\<forall>a \<in> set args. c_text known None a \<noteq> None"
  shows "format_text known fmt args \<noteq> None"
proof -
  have "ends_in (\<lambda>x. True) (format_text known fmt args)" using assms
  proof (induction "length fmt" arbitrary: fmt args rule: less_induct)
    case less
    show ?case
    proof (cases fmt)
      case (Cons c cs)
      show ?thesis
      proof (cases "c = 37")
        case True
        have "ends_in (\<lambda>x. True) (bindo (directive_text known cs args) (\<lambda>r.
            bindo (format_text known (fst (fst r)) (snd (fst r))) (\<lambda>t. Some (Inr (snd r @ t)))))"
        proof (rule ends_in_bind [OF directive_ends [OF less.prems]])
          fix x :: "(u8 list \<times> u64 list) \<times> u8 list"
          assume x: "length (fst (fst x)) \<le> length cs \<and> set (snd (fst x)) \<subseteq> set args"
          then have "length (fst (fst x)) < length fmt" "\<forall>a \<in> set (snd (fst x)). c_text known None a \<noteq> None"
            using Cons less.prems by auto
          from less.hyps [OF this] show "ends_in (\<lambda>x. True)
              (bindo (format_text known (fst (fst x)) (snd (fst x))) (\<lambda>t. Some (Inr (snd x @ t))))"
            by (rule ends_in_bind) simp
        qed
        then show ?thesis using True Cons by (subst format_text.simps) simp
      next
        case False
        have "ends_in (\<lambda>x. True) (bindo (format_text known cs args) (\<lambda>t. Some (Inr (c # t))))"
          using less.hyps [OF _ less.prems, of cs] Cons by (intro ends_in_bind [where P = "\<lambda>x. True"]) simp_all
        then show ?thesis using False Cons by (subst format_text.simps) simp
      qed
    qed (subst format_text.simps, simp)
  qed
  then show ?thesis by (cases "format_text known fmt args") simp_all
qed

section \<open>Properties\<close>

text \<open>
  C35. \<^verbatim>\<open>VSNPrintf\<close> into a buffer of positive length \<open>len\<close> always returns or fails a check, whatever the
  format and the arguments are, provided that some zero byte outside the buffer ends every string. When it returns, there is a
  text whose length is the result, the buffer holds the text cut after \<open>len - 1\<close> characters and a terminating zero, and no byte
  outside of the buffer has changed. The text is the one that the format and the arguments stand for (\<open>format_text\<close>), and a check fails
  exactly when the format has an error there instead of a text. The exception are arguments that, taken for strings, run into the buffer.
\<close>

theorem vsnprintf_truncates:
  assumes "0 <s len" and "unat buff + unat len < 2 ^ 64" and "m z = 0" and "\<not> in_block buff (unat len) z"
  shows "(\<exists>e. VSNPrintf buff len fmt args m = Some (Inl e) \<and> (format_text (outside buff (unat len) m) fmt args = Some (Inl e) \<or> (\<exists>a \<in> set args. c_text (outside buff (unat len) m) None a = None)))
    \<or> (\<exists>str m'. VSNPrintf buff len fmt args m = Some (Inr (of_nat (length str), m'))
        \<and> bytes_at m' buff (take (unat len - 1) str @ [0]) \<and> (\<forall>a. \<not> in_block buff (unat len) a \<longrightarrow> m' a = m a)
        \<and> (format_text (outside buff (unat len) m) fmt args = Some (Inr str) \<or> (\<exists>a \<in> set args. c_text (outside buff (unat len) m) None a = None)))"
proof -
  let ?k = "unat len - 1" and ?o = "\<lparr>p_mem = m, p_buff = buff, p_result = 0\<rparr>"
  note L = int_length [OF assms(1)]
  have b: "bytes_at (mem_with m buff (take ?k str @ [0])) buff (take ?k str @ [0])" for str
    using assms(2) L(2) by (intro bytes_at_mem_with) simp
  have out: "mem_with m buff (take ?k str @ [0]) a = m a" if "\<not> in_block buff (unat len) a" for str a
    using that L(2) by (auto simp: mem_with_def in_block_def)
  have k: "unat buff + ?k < 2 ^ 64" using assms(2) by simp
  have K: "outside buff (unat len) m = outside buff (Suc ?k) m" using L(2) by simp
  have e: "buff + scast (len - 1) = buff + of_nat ?k" unfolding L(1) [symmetric] by simp
  have start: "printed buff ?k m ?o []" by (simp add: printed_def)
  consider (none) "format_text (outside buff (unat len) m) fmt args = None"
    | (fails) x where "format_text (outside buff (unat len) m) fmt args = Some (Inl x)"
    | (defined) str where "format_text (outside buff (unat len) m) fmt args = Some (Inr str)"
    by (metis not_Some_eq sum.exhaust)
  then show ?thesis
  proof cases
    case none
    then have "\<exists>a \<in> set args. c_text (outside buff (unat len) m) None a = None" by (metis format_text_defined)
    with VSNPrintf_ok [where m = m and z = z, OF assms, of fmt args] b out show ?thesis by (elim disjE exE) blast+
  next
    case fails
    then have "format_loop (buff + of_nat ?k) fmt args ?o = Some (Inl x)"
      using format_agrees [OF k _ start, of fmt args] K by fastforce
    then have "VSNPrintf buff len fmt args m = Some (Inl x)" using assms(1) by (simp add: VSNPrintf_def Let_def e)
    then show ?thesis using fails by blast
  next
    case defined
    then obtain o2 where "format_loop (buff + of_nat ?k) fmt args ?o = Some (Inr o2)" "printed buff ?k m o2 str"
      using format_agrees [OF k _ start, of fmt args] K by fastforce
    from VSNPrintf_printed [OF assms(1,2) this] show ?thesis using defined b out by blast
  qed
qed

text \<open>The address 100 holds the string \<^verbatim>\<open>hi\<close>, the buffer at 4096 has room for 5 characters of \<^verbatim>\<open>ahi  12\<close>.\<close>

theorem vsnprintf_truncates_witness:
  "\<exists>m'. VSNPrintf 4096 6 [97, 37, 115, 37, 52, 117] [100, 12] (\<lambda>a. if a = 100 then 104 else if a = 101 then 105 else 0) = Some (Inr (7, m'))
    \<and> bytes_at m' 4096 [97, 104, 105, 32, 32, 0]"
proof -
  let ?m = "\<lambda>a :: uptr. if a = 100 then 104 else if a = 101 then (105 :: u8) else 0"
  let ?K = "outside 4096 6 ?m" and ?F = "[97, 37, 115, 37, 52, 117] :: u8 list"
  have K: "?K 100 = Some 104" "?K 101 = Some 105" "?K 102 = Some 0" "?K 12 = Some 0" by (simp_all add: outside_def in_block_def)
  have "c_text ?K None 102 = Some []" by (subst c_text.simps) (simp add: K)
  then have "c_text ?K None 101 = Some [105]" by (subst c_text.simps) (simp add: K)
  then have c: "c_text ?K None 100 = Some [104, 105]" by (subst c_text.simps) (simp add: K)
  have c2: "c_text ?K None 12 = Some []" by (subst c_text.simps) (simp add: K)
  have "nat_digits 10 1 = [1]" by (subst nat_digits.simps) simp
  then have nd: "nat_digits 10 12 = [1, 2]" by (subst nat_digits.simps) simp
  have r2: "replicate 2 (32 :: u8) = [32, 32]" by (simp add: numeral_2_eq_2)
  have D: "directive_text ?K [115, 37, 52, 117] [100, 12] = Some (Inr (([37, 52, 117], [12]), [104, 105]))"
    "directive_text ?K [52, 117] [12] = Some (Inr (([], []), [32, 32, 49, 50]))"
    by (simp_all add: directive_text_def conversion_text_def at0_def is_digit_char_def word_sle_eq word_sless_alt va_arg_def
        string_text_def limit_of_def c int_arg_def number_run_def number_text_def nd digit_text_def char_int_def Let_def r2)
  have "format_text ?K [] [] = Some (Inr [])" by (subst format_text.simps) simp
  then have "format_text ?K [37, 52, 117] [12] = Some (Inr [32, 32, 49, 50])" by (subst format_text.simps) (simp add: D)
  then have "format_text ?K [37, 115, 37, 52, 117] [100, 12] = Some (Inr [104, 105, 32, 32, 49, 50])" by (subst format_text.simps) (simp add: D)
  then have F: "format_text ?K ?F [100, 12] = Some (Inr [97, 104, 105, 32, 32, 49, 50])" by (subst format_text.simps) simp
  have h: "0 <s (6 :: i32)" "unat (4096 :: uptr) + unat (6 :: i32) < 2 ^ 64" "?m 0 = 0" "\<not> in_block 4096 (unat (6 :: i32)) 0"
    by (simp_all add: word_sless_alt in_block_def)
  from vsnprintf_truncates [where m = ?m and z = 0, OF h, of ?F "[100, 12]"] show ?thesis
    using F c c2 by (elim disjE exE conjE) auto
qed

end
