(* ===== verification/FrameLayout.thy ===== *)
theory FrameLayout
  imports UserPoison "HOL-Library.Multiset"
begin

text \<open>
  The layout of an instrumented stack frame, \<^verbatim>\<open>ASanStackFrameLayout.cpp\<close> of the compiler: where the variables lie between
  their redzones, and the shadow bytes the instrumented code stores for the frame. The assertions are checks.
\<close>

section \<open>The layout\<close>

record svar =
  v_name :: "u8 list"
  v_size :: u64
  v_lifetime :: u64
  v_align :: u64
  v_offset :: u64
  v_line :: u32

record slayout =
  l_granularity :: u64
  l_frame_alignment :: u64
  l_frame_size :: u64

definition kMinAlignment :: u64 where
  "kMinAlignment = 16"

definition alignTo :: "u64 \<Rightarrow> u64 \<Rightarrow> u64 res" where
  "alignTo v a = check (a \<noteq> 0) ''Align != 0u'' (Inr ((v + a - 1) div a * a))"

definition VarAndRedzoneSize :: "u64 \<Rightarrow> u64 \<Rightarrow> u64 res" where
  "VarAndRedzoneSize sz alignment =
     alignTo (if sz \<le> 4 then 16 else if sz \<le> 16 then 32 else if sz \<le> 128 then sz + 32
              else if sz \<le> 512 then sz + 64 else if sz \<le> 4096 then sz + 128 else sz + 256) alignment"

fun place_vars :: "u64 \<Rightarrow> u64 \<Rightarrow> u64 \<Rightarrow> svar list \<Rightarrow> (svar list \<times> u64) res" where
  "place_vars g frame_alignment off [] = Inr ([], off)"
| "place_vars g frame_alignment off (v # vs) =
     (let alignment = max g (v_align v) in
      check (alignment AND (alignment - 1) = 0) ''(Alignment & (Alignment - 1)) == 0'' (
      check (frame_alignment \<ge> alignment) ''Layout.FrameAlignment >= Alignment'' (
      check (off mod alignment = 0) ''(Offset % Alignment) == 0'' (
      check (0 < v_size v) ''Size > 0'' (
      bindr (VarAndRedzoneSize (v_size v) (case vs of [] \<Rightarrow> g | w # _ \<Rightarrow> max g (v_align w))) (\<lambda>s.
      bindr (place_vars g frame_alignment (off + s) vs) (\<lambda>(ws, end).
      Inr (v\<lparr>v_offset := off\<rparr> # ws, end))))))))"

text \<open>The comparison of \<^verbatim>\<open>CompareVars\<close>, larger alignment first, as a key of the stable sort.\<close>

definition CompareVars :: "svar \<Rightarrow> int" where
  "CompareVars v = - uint (v_align v)"

definition ComputeASanStackFrameLayout :: "svar list \<Rightarrow> u64 \<Rightarrow> u64 \<Rightarrow> (svar list \<times> slayout) res" where
  "ComputeASanStackFrameLayout vars granularity min_header =
     check (8 \<le> granularity \<and> granularity \<le> 64 \<and> granularity AND (granularity - 1) = 0) ''Granularity'' (
     check (16 \<le> min_header \<and> min_header AND (min_header - 1) = 0 \<and> granularity \<le> min_header) ''MinHeaderSize'' (
     check (0 < length vars) ''NumVars > 0'' (
     let vars = sort_key CompareVars (map (\<lambda>v. v\<lparr>v_align := max (v_align v) kMinAlignment\<rparr>) vars);
         first_align = v_align (hd vars);
         frame_alignment = max granularity first_align;
         off = max (max min_header granularity) first_align in
     check (off mod granularity = 0) ''(Offset % Granularity) == 0'' (
     bindr (place_vars granularity frame_alignment off vars) (\<lambda>(vars, end).
     let frame_size = (if end mod min_header \<noteq> 0 then end + (min_header - end mod min_header) else end) in
     check (frame_size mod min_header = 0) ''(Layout.FrameSize % MinHeaderSize) == 0'' (
     Inr (vars, \<lparr>l_granularity = granularity, l_frame_alignment = frame_alignment, l_frame_size = frame_size\<rparr>)))))))"

section \<open>The shadow of the frame\<close>

definition kAsanStackLeftRedzoneMagic :: u8 where "kAsanStackLeftRedzoneMagic = 0xf1"
definition kAsanStackMidRedzoneMagic :: u8 where "kAsanStackMidRedzoneMagic = 0xf2"
definition kAsanStackRightRedzoneMagic :: u8 where "kAsanStackRightRedzoneMagic = 0xf3"

text \<open>\<^verbatim>\<open>SmallVector::resize\<close>.\<close>

definition sb_resize :: "nat \<Rightarrow> u8 \<Rightarrow> u8 list \<Rightarrow> u8 list" where
  "sb_resize n x sb = take n sb @ replicate (n - length sb) x"

definition shadow_of_var :: "u64 \<Rightarrow> svar \<Rightarrow> u8 list \<Rightarrow> u8 list" where
  "shadow_of_var g v sb =
     (let sb = sb_resize (unat (v_offset v div g)) kAsanStackMidRedzoneMagic sb;
          sb = sb_resize (length sb + unat (v_size v div g)) 0 sb
      in if v_size v mod g \<noteq> 0 then sb @ [ucast (v_size v mod g)] else sb)"

definition GetShadowBytes :: "svar list \<Rightarrow> slayout \<Rightarrow> u8 list res" where
  "GetShadowBytes vars l =
     check (0 < length vars) ''Vars.size() > 0'' (
     let g = l_granularity l in
     Inr (sb_resize (unat (l_frame_size l div g)) kAsanStackRightRedzoneMagic
       (fold (shadow_of_var g) vars (sb_resize (unat (v_offset (hd vars) div g)) kAsanStackLeftRedzoneMagic []))))"

definition sb_fill :: "nat \<Rightarrow> nat \<Rightarrow> u8 \<Rightarrow> u8 list \<Rightarrow> u8 list res" where
  "sb_fill i n x sb = (if i + n \<le> length sb then Inr (take i sb @ replicate n x @ drop (i + n) sb) else Inl (OutOfBounds (length sb)))"

fun after_scope :: "u64 \<Rightarrow> svar list \<Rightarrow> u8 list \<Rightarrow> u8 list res" where
  "after_scope g [] sb = Inr sb"
| "after_scope g (v # vs) sb =
     check (v_lifetime v \<le> v_size v) ''Var.LifetimeSize <= Var.Size'' (
     bindr (sb_fill (unat (v_offset v div g)) (unat ((v_lifetime v + g - 1) div g)) kAsanStackUseAfterScopeMagic sb)
       (after_scope g vs))"

definition GetShadowBytesAfterScope :: "svar list \<Rightarrow> slayout \<Rightarrow> u8 list res" where
  "GetShadowBytesAfterScope vars l = bindr (GetShadowBytes vars l) (after_scope (l_granularity l) vars)"

section \<open>Sizes\<close>

lemma alignTo_ok:
  assumes a: "0 < unat a" and small: "unat v + unat a \<le> 2 ^ 64"
  shows "\<exists>r. alignTo v a = Inr r \<and> unat v \<le> unat r \<and> unat r < unat v + unat a \<and> unat a dvd unat r"
proof -
  let ?n = "(unat v + unat a - 1) div unat a * unat a"
  have e: "v + a - 1 = v + (a - 1)" by (rule add_diff_eq [symmetric])
  have p: "unat (v + a - 1) = unat v + unat a - 1"
    unfolding e using a small by (subst unat_add_nowrap) (simp_all add: unat_pred)
  have u: "unat ((v + a - 1) div a) = (unat v + unat a - 1) div unat a" by (simp only: unat_div p)
  have le: "?n \<le> unat v + unat a - 1" by simp
  have r: "unat ((v + a - 1) div a * a) = ?n"
    using le small a unfolding u [symmetric] by (subst unat_mult_lem [THEN iffD1]) simp_all
  have "unat v \<le> ?n"
  proof -
    have "unat v + unat a - 1 < ?n + unat a"
      using a by (metis add.commute dividend_less_div_times)
    then show ?thesis using a by linarith
  qed
  moreover have "?n < unat v + unat a" using le a by linarith
  ultimately show ?thesis using a r by (auto simp: alignTo_def word_gt_0 unat_gt_0)
qed

lemma VarAndRedzone_ok:
  assumes s: "0 < unat s" "unat s < 2 ^ 32" and a: "0 < unat a" "unat a \<le> 2 ^ 32"
  shows "\<exists>r. VarAndRedzoneSize s a = Inr r \<and> unat s + 12 \<le> unat r \<and> unat r < unat s + 256 + unat a \<and> unat a dvd unat r"
proof -
  define v where "v = (if s \<le> 4 then 16 else if s \<le> 16 then 32 else if s \<le> 128 then s + 32
              else if s \<le> 512 then s + 64 else if s \<le> 4096 then s + 128 else s + 256)"
  have plus: "unat (s + k) = unat s + unat k" if "unat k \<le> 256" for k :: u64
    using s that by (intro unat_add_nowrap) simp
  have v: "unat s + 12 \<le> unat v" "unat v \<le> unat s + 256"
    using s by (auto simp: v_def word_le_nat_alt plus)
  have "unat v + unat a \<le> 2 ^ 64" using v(2) s(2) a(2) by simp
  from alignTo_ok [OF a(1) this] obtain r where
    "alignTo v a = Inr r" "unat v \<le> unat r" "unat r < unat v + unat a" "unat a dvd unat r" by blast
  then show ?thesis using v by (auto simp: VarAndRedzoneSize_def v_def)
qed

section \<open>The placement\<close>

text \<open>What the compiler gives: sizes that are not zero, alignments that are powers of two.\<close>

definition var_ok :: "svar \<Rightarrow> bool" where
  "var_ok v \<longleftrightarrow> 0 < unat (v_size v) \<and> unat (v_size v) < 2 ^ 32 \<and> (\<exists>k \<le> 32. v_align v = 2 ^ k)"

text \<open>
  \<open>placed g off ws end\<close>: the variables \<open>ws\<close> lie one after the other from \<open>off\<close> on, each one aligned, and behind
  each one a redzone of at least 12 bytes up to a granule boundary.
\<close>

inductive placed :: "nat \<Rightarrow> nat \<Rightarrow> svar list \<Rightarrow> nat \<Rightarrow> bool" where
  "placed g off [] off"
| "unat (v_offset w) = off \<Longrightarrow> unat (v_align w) dvd off \<Longrightarrow> g dvd off \<Longrightarrow> off + unat (v_size w) + 12 \<le> behind \<Longrightarrow>
     g dvd behind \<Longrightarrow> placed g behind ws end \<Longrightarrow> placed g off (w # ws) end"

inductive_cases placed_NilE: "placed g off [] end"
inductive_cases placed_ConsE: "placed g off (w # ws) end"

lemma placed_le: "placed g off ws end \<Longrightarrow> off \<le> end"
  by (induction rule: placed.induct) auto

definition unplaced :: "svar \<Rightarrow> svar" where
  "unplaced v = v\<lparr>v_offset := 0\<rparr>"

lemma max_pow2: "max (2 ^ i) (2 ^ j) = (2 ^ max i j :: u64)" if "i \<le> 32" "j \<le> 32"
proof -
  have "(2 ^ i :: u64) \<le> 2 ^ j \<longleftrightarrow> i \<le> j" using that by (simp add: word_le_nat_alt unat_pow2)
  then show ?thesis by (auto simp: max_def)
qed

lemma pow2_and: "(2 ^ k :: u64) AND (2 ^ k - 1) = 0"
  using IsPowerOfTwo_pow2 [of k] by (simp add: IsPowerOfTwo_def)

lemma place_vars_ok:
  assumes "\<forall>v \<in> set vs. var_ok v" and "sorted_wrt (\<lambda>v w. v_align w \<le> v_align v) vs" and "j \<le> 6"
    and "vs \<noteq> [] \<Longrightarrow> unat (max (2 ^ j) (v_align (hd vs))) dvd unat off \<and> max (2 ^ j) (v_align (hd vs)) \<le> fa"
    and "2 ^ j dvd unat off" and "unat off + length vs * 2 ^ 34 \<le> 2 ^ 62"
  shows "\<exists>ws end. place_vars (2 ^ j) fa off vs = Inr (ws, end) \<and> placed (2 ^ j) (unat off) ws (unat end)
    \<and> map unplaced ws = map unplaced vs \<and> unat end \<le> unat off + length vs * 2 ^ 34"
  using assms
proof (induction vs arbitrary: off)
  case Nil
  then show ?case by (auto intro: placed.intros)
next
  case (Cons v vs)
  obtain k where k: "v_align v = 2 ^ k" "k \<le> 32" using Cons.prems(1) by (auto simp: var_ok_def)
  have sz: "0 < unat (v_size v)" "unat (v_size v) < 2 ^ 32" using Cons.prems(1) by (simp_all add: var_ok_def)
  let ?m = "max j k"
  have al: "max (2 ^ j) (v_align v) = 2 ^ ?m" using k Cons.prems(3) by (simp add: max_pow2)
  have ua: "unat (2 ^ ?m :: u64) = 2 ^ ?m" using k Cons.prems(3) by (intro unat_pow2) simp
  have off: "2 ^ ?m dvd unat off" "2 ^ ?m \<le> fa" using Cons.prems(4) by (simp_all add: al ua)
  define nx :: u64 where "nx = (case vs of [] \<Rightarrow> 2 ^ j | w # _ \<Rightarrow> max (2 ^ j) (v_align w))"
  have nx: "\<exists>i. nx = 2 ^ i \<and> j \<le> i \<and> i \<le> ?m"
  proof (cases vs)
    case Nil
    then show ?thesis by (auto simp: nx_def)
  next
    case (Cons w ws)
    obtain i where i: "v_align w = 2 ^ i" "i \<le> 32" using Cons.prems(1) Cons by (auto simp: var_ok_def)
    have "v_align w \<le> v_align v" using Cons.prems(2) Cons by simp
    then have "i \<le> k" using i k by (simp add: word_le_nat_alt unat_pow2)
    then show ?thesis using i Cons.prems(3) Cons by (auto simp: nx_def max_pow2 intro!: exI [of _ "max j i"])
  qed
  then obtain i where i: "nx = 2 ^ i" "j \<le> i" "i \<le> ?m" by blast
  have unx: "unat nx = 2 ^ i" using i k Cons.prems(3) by (simp add: unat_pow2)
  have "i \<le> 32" using i(3) k(2) Cons.prems(3) by auto
  then have "(2 :: nat) ^ i \<le> 2 ^ 32" by (intro power_increasing) simp_all
  then have nx32: "0 < unat nx" "unat nx \<le> 2 ^ 32" using unx by simp_all
  obtain s where s: "VarAndRedzoneSize (v_size v) nx = Inr s" "unat (v_size v) + 12 \<le> unat s"
    "unat s < unat (v_size v) + 256 + unat nx" "unat nx dvd unat s"
    using VarAndRedzone_ok [OF sz nx32] by blast
  have s34: "unat s \<le> 2 ^ 34" using s(3) sz(2) nx32(2) by simp
  have u: "unat (off + s) = unat off + unat s" using Cons.prems(6) s34 by (intro unat_add_nowrap) simp
  have "2 ^ i dvd unat off" using off(1) i(3) by (meson dvd_trans le_imp_power_dvd)
  then have d: "2 ^ i dvd unat (off + s)" using s(4) unx u by simp
  then have dj: "2 ^ j dvd unat (off + s)" using i(2) by (meson dvd_trans le_imp_power_dvd)
  have hd: "unat (max (2 ^ j) (v_align (hd vs))) dvd unat (off + s) \<and> max (2 ^ j) (v_align (hd vs)) \<le> fa" if ne: "vs \<noteq> []"
  proof -
    have "max (2 ^ j) (v_align (hd vs)) = nx" using ne by (cases vs) (simp_all add: nx_def)
    moreover have "nx \<le> 2 ^ ?m" using i k Cons.prems(3) by (simp add: word_le_nat_alt unat_pow2)
    ultimately show ?thesis using d unx off(2) by auto
  qed
  have room: "unat (off + s) + length vs * 2 ^ 34 \<le> 2 ^ 62" using Cons.prems(6) u s34 by simp
  obtain ws e where ws: "place_vars (2 ^ j) fa (off + s) vs = Inr (ws, e)" "placed (2 ^ j) (unat (off + s)) ws (unat e)"
    "map unplaced ws = map unplaced vs" "unat e \<le> unat (off + s) + length vs * 2 ^ 34"
    using Cons.IH [OF _ _ Cons.prems(3) hd dj room] Cons.prems(1,2) by auto
  have modz: "off mod 2 ^ ?m = 0"
    using off(1) by (simp add: word_unat_eq_iff unat_mod ua dvd_eq_mod_eq_0)
  have "place_vars (2 ^ j) fa off (v # vs) = Inr (v\<lparr>v_offset := off\<rparr> # ws, e)"
    using s(1) ws(1) sz(1) off(2) modz by (simp add: Let_def al pow2_and nx_def [symmetric] word_gt_0 unat_gt_0)
  moreover have "placed (2 ^ j) (unat off) (v\<lparr>v_offset := off\<rparr> # ws) (unat e)"
  proof (rule placed.intros(2))
    show "unat (v_align (v\<lparr>v_offset := off\<rparr>)) dvd unat off"
      using off(1) k by (simp add: unat_pow2) (meson dvd_trans le_imp_power_dvd max.cobounded2)
    show "placed (2 ^ j) (unat (off + s)) ws (unat e)" by (rule ws(2))
  qed (use Cons.prems(5) dj s(2) u in simp_all)
  moreover have "unplaced (v\<lparr>v_offset := off\<rparr>) = unplaced v" by (simp add: unplaced_def)
  then have "map unplaced (v\<lparr>v_offset := off\<rparr> # ws) = map unplaced (v # vs)" using ws(3) by simp
  moreover have "unat e \<le> unat off + length (v # vs) * 2 ^ 34" using ws(4) u s34 by simp
  ultimately show ?case by blast
qed

section \<open>The whole layout\<close>

definition raised :: "svar \<Rightarrow> svar" where
  "raised v = v\<lparr>v_align := max (v_align v) kMinAlignment\<rparr>"

lemma raised_ok: "var_ok v \<Longrightarrow> var_ok (raised v)"
proof -
  assume v: "var_ok v"
  then obtain k where k: "v_align v = 2 ^ k" "k \<le> 32" by (auto simp: var_ok_def)
  have "max (v_align v) kMinAlignment = 2 ^ max k 4"
    using k max_pow2 [of k 4] by (simp add: kMinAlignment_def)
  then have "v_align (raised v) = 2 ^ max k 4" by (simp add: raised_def)
  moreover have "max k 4 \<le> 32" using k(2) by simp
  moreover have "v_size (raised v) = v_size v" by (simp add: raised_def)
  ultimately show ?thesis using v unfolding var_ok_def by metis
qed

text \<open>
  \<open>frame_ok\<close>: the variables lie disjoint and aligned between redzones, the first one behind the header; the frame
  ends with a redzone and is a multiple of the header.
\<close>

definition frame_ok :: "u64 \<Rightarrow> svar list \<Rightarrow> slayout \<Rightarrow> bool" where
  "frame_ok min_header ws l \<longleftrightarrow> ws \<noteq> [] \<and> unat min_header \<le> unat (v_offset (hd ws)) \<and> unat min_header dvd unat (l_frame_size l)
     \<and> (\<exists>end \<le> unat (l_frame_size l). placed (unat (l_granularity l)) (unat (v_offset (hd ws))) ws end)"

definition frame_input :: "svar list \<Rightarrow> nat \<Rightarrow> nat \<Rightarrow> bool" where
  "frame_input vars j h \<longleftrightarrow> vars \<noteq> [] \<and> length vars \<le> 2 ^ 20 \<and> (\<forall>v \<in> set vars. var_ok v) \<and> 3 \<le> j \<and> j \<le> 6 \<and> 4 \<le> h \<and> j \<le> h \<and> h \<le> 32"

lemma round_up_to_multiple:
  assumes "unat e \<le> 2 ^ 62" and "m = (2 :: u64) ^ h" and "h \<le> 32"
  defines "f \<equiv> if e mod m \<noteq> 0 then e + (m - e mod m) else e"
  shows "unat e \<le> unat f" "unat m dvd unat f" "f mod m = 0"
proof -
  have um: "unat m = 2 ^ h" using assms(2,3) by (simp add: unat_pow2)
  have "(2 :: nat) ^ h \<le> 2 ^ 32" using assms(3) by (intro power_increasing) simp_all
  then have m32: "unat m \<le> 2 ^ 32" "0 < unat m" using um by simp_all
  have ur: "unat (e mod m) = unat e mod unat m" by (simp add: unat_mod)
  have le: "unat (m - e mod m) = unat m - unat e mod unat m"
    using m32(2) ur by (subst unat_sub) (simp_all add: word_le_nat_alt)
  have uf: "unat f = (if unat e mod unat m \<noteq> 0 then unat e + (unat m - unat e mod unat m) else unat e)"
  proof (cases "unat e mod unat m = 0")
    case True
    then have "e mod m = 0" using ur by (simp add: word_unat_eq_iff)
    then show ?thesis using True by (simp add: f_def)
  next
    case False
    then have "unat (e mod m) \<noteq> 0" unfolding ur .
    then have "e mod m \<noteq> 0" by (metis unsigned_0)
    moreover have "unat (e + (m - e mod m)) = unat e + (unat m - unat e mod unat m)"
      using assms(1) m32(1) le by (subst unat_add_nowrap) simp_all
    ultimately show ?thesis using False by (simp add: f_def)
  qed
  show "unat e \<le> unat f" using uf by simp
  have "unat e + (unat m - unat e mod unat m) = unat e div unat m * unat m + unat m"
    using m32(2) mod_less_divisor [of "unat m" "unat e"] div_mult_mod_eq [of "unat e" "unat m"] by linarith
  then show d: "unat m dvd unat f" using uf by (auto simp: dvd_eq_mod_eq_0)
  then show "f mod m = 0" by (simp add: word_unat_eq_iff unat_mod dvd_eq_mod_eq_0)
qed

lemma ComputeASanStackFrameLayout_ok:
  assumes I: "frame_input vars j h"
  shows "\<exists>ws l. ComputeASanStackFrameLayout vars (2 ^ j) (2 ^ h) = Inr (ws, l) \<and> frame_ok (2 ^ h) ws l
    \<and> l_granularity l = 2 ^ j \<and> mset (map unplaced ws) = mset (map (unplaced \<circ> raised) vars)"
proof -
  define vs where "vs = sort_key CompareVars (map raised vars)"
  have "length vs = length vars" "set vs = raised ` set vars" by (simp_all add: vs_def)
  then have vs: "vs \<noteq> []" "\<forall>v \<in> set vs. var_ok v" "length vs \<le> 2 ^ 20"
    using I raised_ok by (auto simp: frame_input_def)
  have jh: "3 \<le> j" "j \<le> 6" "4 \<le> h" "j \<le> h" "h \<le> 32" using I by (simp_all add: frame_input_def)
  have "sorted (map CompareVars vs)" by (simp add: vs_def)
  then have sorted: "sorted_wrt (\<lambda>v w. v_align w \<le> v_align v) vs"
    by (simp add: sorted_map CompareVars_def word_le_def)
  obtain k where k: "v_align (hd vs) = 2 ^ k" "k \<le> 32" using vs(2) hd_in_set [OF vs(1)] unfolding var_ok_def by blast
  let ?fa = "max (2 ^ j) (v_align (hd vs))" and ?off = "max (max (2 ^ h) (2 ^ j)) (v_align (hd vs)) :: u64"
  let ?o = "max (max h j) k"
  have off: "?off = 2 ^ ?o" "?fa = 2 ^ max j k" using jh k by (simp_all add: max_pow2)
  have o32: "?o \<le> 32" using jh k by simp
  have uo: "unat ?off = 2 ^ ?o" unfolding off using o32 by (intro unat_pow2) simp
  have dvd: "2 ^ i dvd unat ?off" if "i \<le> ?o" for i using that uo by (simp add: le_imp_power_dvd)
  have "(2 :: nat) ^ ?o \<le> 2 ^ 32" using o32 by (intro power_increasing) simp_all
  then have room: "unat ?off + length vs * 2 ^ 34 \<le> 2 ^ 62" using uo vs(3) by simp
  have "unat ?fa = 2 ^ max j k" unfolding off using jh k by (intro unat_pow2) simp
  then have first: "unat ?fa dvd unat ?off \<and> ?fa \<le> ?fa" using dvd [of "max j k"] by auto
  have dj: "2 ^ j dvd unat ?off" using dvd [of j] jh by simp
  obtain ws e where ws: "place_vars (2 ^ j) ?fa ?off vs = Inr (ws, e)" "placed (2 ^ j) (unat ?off) ws (unat e)"
    "map unplaced ws = map unplaced vs" "unat e \<le> unat ?off + length vs * 2 ^ 34"
    using place_vars_ok [OF vs(2) sorted jh(2) first dj room] by blast
  let ?f = "if e mod 2 ^ h \<noteq> 0 then e + (2 ^ h - e mod 2 ^ h) else e"
  have e62: "unat e \<le> 2 ^ 62" using ws(4) room by linarith
  note R = round_up_to_multiple [OF e62 refl jh(5)]
  have ne: "ws \<noteq> []" using ws(3) vs(1) by auto
  have hd: "unat (v_offset (hd ws)) = unat ?off" using ws(2) ne by (cases ws) (auto elim: placed_ConsE)
  have g: "8 \<le> (2 ^ j :: u64)" "(2 ^ j :: u64) \<le> 64" "16 \<le> (2 ^ h :: u64)" "(2 ^ j :: u64) \<le> 2 ^ h"
  proof -
    have p: "unat (2 ^ j :: u64) = 2 ^ j" "unat (2 ^ h :: u64) = 2 ^ h" using jh by (simp_all add: unat_pow2)
    have "(2 :: nat) ^ 3 \<le> 2 ^ j" "(2 :: nat) ^ j \<le> 2 ^ 6" "(2 :: nat) ^ 4 \<le> 2 ^ h" "(2 :: nat) ^ j \<le> 2 ^ h"
      using jh by (intro power_increasing; simp)+
    then show "8 \<le> (2 ^ j :: u64)" "(2 ^ j :: u64) \<le> 64" "16 \<le> (2 ^ h :: u64)" "(2 ^ j :: u64) \<le> 2 ^ h"
      using p by (simp_all add: word_le_nat_alt)
  qed
  have uj: "unat (2 ^ j :: u64) = 2 ^ j" using jh by (intro unat_pow2) simp
  have m0: "?off mod 2 ^ j = 0" using dj uj by (simp add: word_unat_eq_iff unat_mod dvd_eq_mod_eq_0)
  let ?l = "\<lparr>l_granularity = 2 ^ j, l_frame_alignment = ?fa, l_frame_size = ?f\<rparr>"
  have nv: "0 < length vars" using I by (simp add: frame_input_def)
  have run: "ComputeASanStackFrameLayout vars (2 ^ j) (2 ^ h) = Inr (ws, ?l)"
    unfolding ComputeASanStackFrameLayout_def raised_def [symmetric] vs_def [symmetric] Let_def
    using g m0 nv ws(1) R(3) by (simp only: pow2_and check_True simp_thms bindr.simps prod.case)
  have "frame_ok (2 ^ h) ws ?l"
    unfolding frame_ok_def
  proof (intro conjI)
    show "unat (2 ^ h :: u64) \<le> unat (v_offset (hd ws))" unfolding hd word_le_nat_alt [symmetric] by (simp add: le_max_iff_disj)
    show "\<exists>end \<le> unat (l_frame_size ?l). placed (unat (l_granularity ?l)) (unat (v_offset (hd ws))) ws end"
      using R(1) ws(2) hd uj by auto
  qed (use ne R(2) in simp_all)
  moreover have "mset (map unplaced ws) = mset (map (unplaced \<circ> raised) vars)"
    unfolding ws(3) vs_def by (simp add: multiset.map_comp)
  ultimately show ?thesis using run by auto
qed

section \<open>The shadow bytes of the frame\<close>

text \<open>
  \<open>covers g sb A\<close>: the shadow bytes \<open>sb\<close>, one for \<open>g\<close> bytes of the frame, make the offsets \<open>A\<close> addressable
  and no others.
\<close>

definition covers :: "nat \<Rightarrow> u8 list \<Rightarrow> nat set \<Rightarrow> bool" where
  "covers g sb A \<longleftrightarrow> (\<forall>i < length sb * g. poisoned_at (sb ! (i div g)) (i mod g) \<longleftrightarrow> i \<notin> A)"

lemma covers_append:
  assumes c: "covers g sb A" and g: "0 < g"
    and new: "\<And>i. i < length sb' * g \<Longrightarrow> poisoned_at (sb' ! (i div g)) (i mod g) \<longleftrightarrow> length sb * g + i \<notin> A'"
    and old: "\<And>i. i < length sb * g \<Longrightarrow> i \<in> A' \<longleftrightarrow> i \<in> A"
  shows "covers g (sb @ sb') A'"
  unfolding covers_def
proof (intro allI impI)
  fix i assume i: "i < length (sb @ sb') * g"
  show "poisoned_at ((sb @ sb') ! (i div g)) (i mod g) \<longleftrightarrow> i \<notin> A'"
  proof (cases "i < length sb * g")
    case True
    then have "i div g < length sb" using g by (simp add: div_less_iff_less_mult)
    then show ?thesis using c True old by (simp add: covers_def nth_append)
  next
    case False
    define n where "n = i - length sb * g"
    have n: "i = n + length sb * g" using False by (simp add: n_def)
    have "n < length sb' * g" using i n by (simp add: algebra_simps)
    from new [OF this] show ?thesis using g by (simp add: n nth_append add.commute)
  qed
qed

lemma covers_redzone:
  assumes "covers g sb A" and "0 < g" and "\<And>k. poisoned_at x k" and "A \<subseteq> {..<length sb * g}"
  shows "covers g (sb @ replicate n x) A"
  using assms by (intro covers_append) (auto simp: div_less_iff_less_mult)

lemma not_poisoned_0: "\<not> poisoned_at 0 k"
  by (simp add: poisoned_at_def)

lemma covers_zeros:
  assumes "covers g sb A" and "0 < g"
  shows "covers g (sb @ replicate n 0) (A \<union> {length sb * g..<(length sb + n) * g})"
  using assms by (intro covers_append) (auto simp: div_less_iff_less_mult not_poisoned_0 algebra_simps)

lemma covers_partial:
  assumes "covers g sb A" and r: "0 < r" "r < g" and x: "\<And>k. k < g \<Longrightarrow> poisoned_at x k \<longleftrightarrow> r \<le> k"
    and A: "A \<subseteq> {..<length sb * g}"
  shows "covers g (sb @ [x]) (A \<union> {length sb * g..<length sb * g + r})"
  using assms by (intro covers_append) auto

lemma magic_poisons: "poisoned_at 0xf1 k" "poisoned_at 0xf2 k" "poisoned_at 0xf3 k"
  by (simp_all add: poisoned_at_def)

lemma partial_poisons:
  assumes "unat r < 64" and "r \<noteq> 0" and "unat (x :: u8) = unat r"
  shows "poisoned_at x k \<longleftrightarrow> unat (r :: u64) \<le> k"
proof -
  have "sint x = int (unat x)" using assms(1,3) by (intro sint_small) simp
  moreover have "x \<noteq> 0" using assms(2,3) by (auto simp: word_unat_eq_iff)
  moreover have "int (unat x) \<le> int k \<longleftrightarrow> unat r \<le> k" unfolding assms(3) of_nat_le_iff ..
  ultimately show ?thesis by (simp add: poisoned_at_def)
qed

text \<open>The addressable bytes of the variables.\<close>

definition var_bytes :: "svar list \<Rightarrow> nat set" where
  "var_bytes ws = (\<Union>w \<in> set ws. {unat (v_offset w)..<unat (v_offset w) + unat (v_size w)})"

lemma var_bytes_simps [simp]: "var_bytes [] = {}"
  "var_bytes (w # ws) = {unat (v_offset w)..<unat (v_offset w) + unat (v_size w)} \<union> var_bytes ws"
  by (auto simp: var_bytes_def)

lemma sb_resize_grow: "length sb \<le> n \<Longrightarrow> sb_resize n x sb = sb @ replicate (n - length sb) x"
  by (simp add: sb_resize_def)

lemma granules:
  fixes n m g :: nat
  assumes "g dvd n" and "m < n + g" and "g dvd m" and "0 < g"
  shows "m \<le> n"
proof -
  obtain a b where "n = g * a" "m = g * b" using assms(1,3) by (auto elim!: dvdE)
  then have "g * b < g * (a + 1)" using assms(2) by simp
  then have "b < a + 1" using assms(4) by (simp only: nat_mult_less_cancel1)
  then show ?thesis using \<open>n = _\<close> \<open>m = _\<close> by simp
qed

lemma shadow_of_var_ok:
  assumes c: "covers G sb A" and A: "A \<subseteq> {..<length sb * G}" and le: "length sb * G \<le> off" and d: "G dvd off"
    and w: "off = unat (v_offset w)" and g: "G = unat g" "0 < G" "G \<le> 64"
  defines "sb' \<equiv> shadow_of_var g w sb" and "A' \<equiv> A \<union> {off..<off + unat (v_size w)}"
  shows "covers G sb' A'" "A' \<subseteq> {..<length sb' * G}" "length sb' * G < off + unat (v_size w) + G"
proof -
  let ?n = "unat (v_size w) div G" and ?r = "unat (v_size w) mod G"
  have u: "unat (v_offset w div g) = off div G" "unat (v_size w div g) = ?n" "unat (v_size w mod g) = ?r"
    by (simp_all add: unat_div unat_mod w g(1))
  define sb1 where "sb1 = sb @ replicate (off div G - length sb) kAsanStackMidRedzoneMagic"
  define sb2 where "sb2 = sb1 @ replicate ?n 0"
  have len: "length sb \<le> off div G" using le g(2) by (simp add: less_eq_div_iff_mult_less_eq)
  then have l1: "length sb1 * G = off" using d by (simp add: sb1_def)
  have c1: "covers G sb1 A"
    unfolding sb1_def by (rule covers_redzone [OF c g(2) _ A]) (simp add: kAsanStackMidRedzoneMagic_def magic_poisons)
  have c2: "covers G sb2 (A \<union> {off..<off + ?n * G})"
    using covers_zeros [OF c1 g(2), of ?n] l1 by (simp add: sb2_def algebra_simps)
  have l2: "length sb2 * G = off + ?n * G" using l1 by (simp add: sb2_def algebra_simps)
  have A1: "A \<subseteq> {..<off}" using A le by auto
  have size: "unat (v_size w) = ?n * G + ?r" by simp
  have run: "sb' = (if v_size w mod g \<noteq> 0 then sb2 @ [ucast (v_size w mod g)] else sb2)"
    unfolding sb'_def shadow_of_var_def Let_def u using len
    by (simp add: sb_resize_grow sb1_def [symmetric] sb2_def [symmetric])
  have "covers G sb' A' \<and> A' \<subseteq> {..<length sb' * G} \<and> length sb' * G < off + unat (v_size w) + G"
  proof (cases "?r = 0")
    case True
    then have "v_size w mod g = 0" using u(3) by (simp add: word_unat_eq_iff)
    then have sb': "sb' = sb2" using run by simp
    have n: "?n * G = unat (v_size w)" using size True by linarith
    have "A' \<subseteq> {..<off + unat (v_size w)}" using A1 by (auto simp: A'_def)
    then show ?thesis using c2 l2 g(2) unfolding sb' n A'_def by simp
  next
    case False
    then have "unat (v_size w mod g) \<noteq> 0" unfolding u(3) .
    then have mod: "v_size w mod g \<noteq> 0" by (metis unsigned_0)
    then have sb': "sb' = sb2 @ [ucast (v_size w mod g)]" using run mod by (simp only: if_True simp_thms)
    have r: "0 < ?r" "?r < G" using False g(2) by simp_all
    have ux: "unat (ucast (v_size w mod g) :: u8) = unat (v_size w mod g)"
      using r g(3) u(3) by (simp add: unsigned_ucast_eq take_bit_nat_eq_self)
    have p: "poisoned_at (ucast (v_size w mod g)) k \<longleftrightarrow> ?r \<le> k" for k
      using partial_poisons [OF _ mod ux] r(2) g(3) u(3) by simp
    have "A \<union> {off..<off + ?n * G} \<subseteq> {..<length sb2 * G}" unfolding l2 using A1 by auto
    from covers_partial [OF c2 r p this]
    have "covers G sb' (A \<union> {off..<off + ?n * G} \<union> {off + ?n * G..<off + ?n * G + ?r})" unfolding sb' l2 .
    moreover have "{off..<off + ?n * G} \<union> {off + ?n * G..<off + ?n * G + ?r} = {off..<off + ?n * G + ?r}"
      by (rule ivl_disj_un_two) simp_all
    then have "A \<union> {off..<off + ?n * G} \<union> {off + ?n * G..<off + ?n * G + ?r} = A'"
      unfolding A'_def Un_assoc using size by (simp only: add.assoc)
    moreover have len': "length sb' * G = off + ?n * G + G" unfolding sb' using l2 by simp
    moreover have "off + unat (v_size w) < off + ?n * G + G" using size r(2) by linarith
    then have "A' \<subseteq> {..<length sb' * G}" using A1 unfolding len' A'_def by auto
    moreover have "length sb' * G < off + unat (v_size w) + G" unfolding len' using size r(1) by linarith
    ultimately show ?thesis by simp
  qed
  then show "covers G sb' A'" "A' \<subseteq> {..<length sb' * G}" "length sb' * G < off + unat (v_size w) + G" by simp_all
qed

lemma shadow_of_vars_ok:
  assumes "placed G off ws end" and "covers G sb A" and "A \<subseteq> {..<length sb * G}" and "length sb * G \<le> off"
    and "G = unat g" and "0 < G" and "G \<le> 64"
  shows "covers G (fold (shadow_of_var g) ws sb) (A \<union> var_bytes ws) \<and> A \<union> var_bytes ws \<subseteq> {..<length (fold (shadow_of_var g) ws sb) * G}
    \<and> length (fold (shadow_of_var g) ws sb) * G \<le> end"
  using assms
proof (induction G off ws "end" arbitrary: sb A rule: placed.induct)
  case (2 w off G behind ws "end")
  note g = 2(11,12,13)
  note W = shadow_of_var_ok [OF 2(8,9,10) 2(3) 2(1) [symmetric] g]
  have "length (shadow_of_var g w sb) * G \<le> behind"
    using granules [OF 2(5) _ _ g(2)] W(3) 2(4) by simp
  then have "covers G (fold (shadow_of_var g) ws (shadow_of_var g w sb)) (A \<union> {off..<off + unat (v_size w)} \<union> var_bytes ws)
    \<and> A \<union> {off..<off + unat (v_size w)} \<union> var_bytes ws \<subseteq> {..<length (fold (shadow_of_var g) ws (shadow_of_var g w sb)) * G}
    \<and> length (fold (shadow_of_var g) ws (shadow_of_var g w sb)) * G \<le> end"
    by (rule 2(7) [OF W(1,2) _ g])
  then show ?case using 2(1) by (simp add: Un_assoc)
qed simp

lemma GetShadowBytes_ok:
  assumes F: "frame_ok mh ws l" and g: "G = unat (l_granularity l)" "0 < G" "G \<le> 64" and d: "G dvd unat (l_frame_size l)"
  shows "\<exists>sb. GetShadowBytes ws l = Inr sb \<and> length sb * G = unat (l_frame_size l) \<and> covers G sb (var_bytes ws)"
proof -
  let ?g = "l_granularity l" and ?off = "unat (v_offset (hd ws))" and ?f = "unat (l_frame_size l)"
  obtain e where P: "ws \<noteq> []" "placed G ?off ws e" "e \<le> ?f" using F by (auto simp: frame_ok_def g(1))
  then have off: "G dvd ?off" by (cases ws) (auto elim: placed_ConsE)
  define sb0 where "sb0 = replicate (?off div G) kAsanStackLeftRedzoneMagic"
  have l0: "length sb0 * G = ?off" using off by (simp add: sb0_def)
  have "covers G [] {}" by (simp add: covers_def)
  from covers_redzone [OF this g(2), of kAsanStackLeftRedzoneMagic "?off div G"] have c0: "covers G sb0 {}"
    by (simp add: sb0_def kAsanStackLeftRedzoneMagic_def magic_poisons)
  define sb1 where "sb1 = fold (shadow_of_var ?g) ws sb0"
  have V: "covers G sb1 (var_bytes ws)" "var_bytes ws \<subseteq> {..<length sb1 * G}" "length sb1 * G \<le> e"
    using shadow_of_vars_ok [OF P(2) c0 _ _ g] l0 by (simp_all add: sb1_def)
  have len: "length sb1 \<le> ?f div G" using V(3) P(3) g(2) by (simp add: less_eq_div_iff_mult_less_eq)
  let ?sb = "sb1 @ replicate (?f div G - length sb1) kAsanStackRightRedzoneMagic"
  have u: "unat (l_frame_size l div ?g) = ?f div G" "unat (v_offset (hd ws) div ?g) = ?off div G"
    by (simp_all add: unat_div g(1))
  have s0: "sb_resize (?off div G) kAsanStackLeftRedzoneMagic [] = sb0" by (simp add: sb_resize_def sb0_def)
  have "GetShadowBytes ws l = Inr ?sb"
    unfolding GetShadowBytes_def Let_def u s0 sb1_def [symmetric] sb_resize_grow [OF len] using P(1) by simp
  moreover have "length ?sb * G = ?f" using len d by simp
  moreover have "covers G ?sb (var_bytes ws)"
    by (rule covers_redzone [OF V(1) g(2) _ V(2)]) (simp add: kAsanStackRightRedzoneMagic_def magic_poisons)
  ultimately show ?thesis by blast
qed

text \<open>Outside of the scopes: the granules of the lifetime of each variable are forbidden too.\<close>

definition scope_bytes :: "nat \<Rightarrow> svar list \<Rightarrow> nat set" where
  "scope_bytes G ws = (\<Union>w \<in> set ws. {unat (v_offset w)..<unat (v_offset w) + (unat (v_lifetime w) + G - 1) div G * G})"

lemma covers_fill:
  assumes c: "covers G sb A" and g: "0 < G" and x: "\<And>k. poisoned_at x k" and le: "i + n \<le> length sb"
  shows "covers G (take i sb @ replicate n x @ drop (i + n) sb) (A - {i * G..<(i + n) * G})"
  unfolding covers_def
proof (intro allI impI)
  let ?sb = "take i sb @ replicate n x @ drop (i + n) sb"
  fix j assume "j < length ?sb * G"
  then have j: "j < length sb * G" using le by simp
  then have d: "j div G < length sb" using g by (simp add: div_less_iff_less_mult)
  have "?sb ! (j div G) = (if i \<le> j div G \<and> j div G < i + n then x else sb ! (j div G))"
    using d le by (auto simp: nth_append)
  moreover have "i \<le> j div G \<longleftrightarrow> i * G \<le> j" "j div G < i + n \<longleftrightarrow> j < (i + n) * G"
    using g by (simp_all add: less_eq_div_iff_mult_less_eq div_less_iff_less_mult)
  ultimately show "poisoned_at (?sb ! (j div G)) (j mod G) \<longleftrightarrow> j \<notin> A - {i * G..<(i + n) * G}"
    using c j x by (auto simp: covers_def)
qed

lemma after_scope_ok:
  assumes "covers G sb A" and g: "G = unat g" "0 < G" "G \<le> 64"
    and "\<forall>w \<in> set ws. v_lifetime w \<le> v_size w \<and> unat (v_size w) < 2 ^ 32 \<and> G dvd unat (v_offset w)
      \<and> unat (v_offset w) + (unat (v_lifetime w) + G - 1) div G * G \<le> length sb * G"
  shows "\<exists>sb'. after_scope g ws sb = Inr sb' \<and> length sb' = length sb \<and> covers G sb' (A - scope_bytes G ws)"
  using assms(1,5)
proof (induction ws arbitrary: sb A)
  case Nil
  then show ?case by (simp add: scope_bytes_def)
next
  case (Cons w ws)
  let ?i = "unat (v_offset w) div G" and ?n = "(unat (v_lifetime w) + G - 1) div G"
  have w: "v_lifetime w \<le> v_size w" "unat (v_size w) < 2 ^ 32" "G dvd unat (v_offset w)" "unat (v_offset w) + ?n * G \<le> length sb * G"
    using Cons.prems(2) by simp_all
  have lt: "unat (v_lifetime w) < 2 ^ 32" using w(1,2) by (simp add: word_le_nat_alt)
  have "unat (v_lifetime w + (g - 1)) = unat (v_lifetime w) + G - 1"
    using lt g by (subst unat_add_nowrap) (simp_all add: unat_pred)
  then have u: "unat ((v_lifetime w + g - 1) div g) = ?n" "unat (v_offset w div g) = ?i"
    by (simp_all add: unat_div g(1) add_diff_eq)
  have off: "unat (v_offset w) = ?i * G" using w(3) by simp
  then have "(?i + ?n) * G \<le> length sb * G" using w(4) by (simp add: algebra_simps)
  then have le: "?i + ?n \<le> length sb" using g(2) by simp
  let ?sb = "take ?i sb @ replicate ?n kAsanStackUseAfterScopeMagic @ drop (?i + ?n) sb"
  have "covers G ?sb (A - {?i * G..<(?i + ?n) * G})"
    using Cons.prems(1) g(2) le by (intro covers_fill) (simp_all add: kAsanStackUseAfterScopeMagic_def poisoned_at_def)
  moreover have "length ?sb = length sb" using le by simp
  ultimately obtain sb' where "after_scope g ws ?sb = Inr sb'" "length sb' = length sb"
    "covers G sb' (A - {?i * G..<(?i + ?n) * G} - scope_bytes G ws)"
    using Cons.IH [of ?sb "A - {?i * G..<(?i + ?n) * G}"] Cons.prems(2) by (metis list.set_intros(2))
  moreover have "A - {?i * G..<(?i + ?n) * G} - scope_bytes G ws = A - scope_bytes G (w # ws)"
    using off by (auto simp: scope_bytes_def algebra_simps)
  ultimately show ?case using w(1) le by (simp add: sb_fill_def u)
qed

lemma placed_bounds:
  assumes "placed G off ws end" and "0 < G" and "w \<in> set ws"
  shows "G dvd unat (v_offset w) \<and> (\<forall>m < unat (v_size w) + G. G dvd m \<longrightarrow> unat (v_offset w) + m \<le> end)"
  using assms
proof (induction rule: placed.induct)
  case (2 v off G behind ws "end")
  show ?case
  proof (cases "w = v")
    case True
    have "off + m \<le> behind" if "m < unat (v_size v) + G" "G dvd m" for m
      using granules [OF 2(5) _ _ 2(8), of "off + m"] 2(3,4) that by simp
    then show ?thesis using True 2(1,3) placed_le [OF 2(6)] by (auto intro: order_trans)
  next
    case False
    then show ?thesis using 2(7) [OF 2(8)] 2(9) by simp
  qed
qed simp

lemma GetShadowBytesAfterScope_ok:
  assumes F: "frame_ok mh ws l" and g: "G = unat (l_granularity l)" "0 < G" "G \<le> 64" and d: "G dvd unat (l_frame_size l)"
    and lt: "\<forall>w \<in> set ws. v_lifetime w \<le> v_size w \<and> unat (v_size w) < 2 ^ 32"
  shows "\<exists>sb. GetShadowBytesAfterScope ws l = Inr sb \<and> length sb * G = unat (l_frame_size l)
    \<and> covers G sb (var_bytes ws - scope_bytes G ws)"
proof -
  obtain e where P: "placed G (unat (v_offset (hd ws))) ws e" "e \<le> unat (l_frame_size l)" using F by (auto simp: frame_ok_def g(1))
  from GetShadowBytes_ok [OF F g d] obtain sb where sb: "GetShadowBytes ws l = Inr sb" "length sb * G = unat (l_frame_size l)"
    "covers G sb (var_bytes ws)" by blast
  have "G dvd unat (v_offset w) \<and> unat (v_offset w) + (unat (v_lifetime w) + G - 1) div G * G \<le> length sb * G" if "w \<in> set ws" for w
  proof -
    have "(unat (v_lifetime w) + G - 1) div G * G \<le> unat (v_lifetime w) + G - 1" by simp
    moreover have "unat (v_lifetime w) \<le> unat (v_size w)" using lt that by (simp add: word_le_nat_alt)
    ultimately have "(unat (v_lifetime w) + G - 1) div G * G < unat (v_size w) + G" using g(2) by linarith
    with placed_bounds [OF P(1) g(2) that] have "G dvd unat (v_offset w) \<and> unat (v_offset w) + (unat (v_lifetime w) + G - 1) div G * G \<le> e"
      by simp
    then show ?thesis using P(2) sb(2) by simp
  qed
  then have "\<exists>sb'. after_scope (l_granularity l) ws sb = Inr sb' \<and> length sb' = length sb \<and> covers G sb' (var_bytes ws - scope_bytes G ws)"
    using lt by (intro after_scope_ok [OF sb(3) g]) auto
  then show ?thesis using sb by (auto simp: GetShadowBytesAfterScope_def)
qed

text \<open>
  C32. For every list of variables the compiler gives (sizes below 4G that are not zero, alignments that
  are powers of two), every granularity from 8 to 64 and header size, the layout is computed without a failing assertion:
  it keeps the variables, disjoint and aligned between redzones behind the header, and the shadow bytes of the frame,
  one for each granule, forbid exactly the bytes of the frame that belong to no variable.
\<close>
theorem frame_shadow_exact:
  assumes I: "frame_input vars j h"
  shows "\<exists>ws l sb. ComputeASanStackFrameLayout vars (2 ^ j) (2 ^ h) = Inr (ws, l) \<and> frame_ok (2 ^ h) ws l
    \<and> mset (map unplaced ws) = mset (map (unplaced \<circ> raised) vars)
    \<and> GetShadowBytes ws l = Inr sb \<and> length sb * 2 ^ j = unat (l_frame_size l)
    \<and> (\<forall>i < unat (l_frame_size l). poisoned_at (sb ! (i div 2 ^ j)) (i mod 2 ^ j) \<longleftrightarrow> i \<notin> var_bytes ws)"
proof -
  obtain ws l where L: "ComputeASanStackFrameLayout vars (2 ^ j) (2 ^ h) = Inr (ws, l)" "frame_ok (2 ^ h) ws l"
    "l_granularity l = 2 ^ j" "mset (map unplaced ws) = mset (map (unplaced \<circ> raised) vars)"
    using ComputeASanStackFrameLayout_ok [OF I] by blast
  have jh: "j \<le> 6" "j \<le> h" "h \<le> 32" using I by (simp_all add: frame_input_def)
  then have u: "unat (2 ^ j :: u64) = 2 ^ j" "unat (2 ^ h :: u64) = 2 ^ h" by (simp_all add: unat_pow2)
  have "(2 :: nat) ^ j dvd 2 ^ h" using jh(2) by (rule le_imp_power_dvd)
  then have gran: "2 ^ j dvd unat (l_frame_size l)" using L(2) by (metis frame_ok_def dvd_trans u(2))
  have "(2 :: nat) ^ j \<le> 2 ^ 6" using jh(1) by (intro power_increasing) simp_all
  then obtain sb where "GetShadowBytes ws l = Inr sb" "length sb * 2 ^ j = unat (l_frame_size l)" "covers (2 ^ j) sb (var_bytes ws)"
    using GetShadowBytes_ok [OF L(2) _ _ _ gran] L(3) u(1) by auto
  then show ?thesis using L by (auto simp: covers_def)
qed

theorem frame_shadow_exact_witness:
  "let v = \<lparr>v_name = [], v_size = 10, v_lifetime = 0, v_align = 1, v_offset = 0, v_line = 0\<rparr>; vars = [v, v\<lparr>v_align := 32\<rparr>]
   in \<exists>ws l sb. ComputeASanStackFrameLayout vars (2 ^ 3) (2 ^ 5) = Inr (ws, l) \<and> frame_ok (2 ^ 5) ws l
    \<and> mset (map unplaced ws) = mset (map (unplaced \<circ> raised) vars)
    \<and> GetShadowBytes ws l = Inr sb \<and> length sb * 2 ^ 3 = unat (l_frame_size l)
    \<and> (\<forall>i < unat (l_frame_size l). poisoned_at (sb ! (i div 2 ^ 3)) (i mod 2 ^ 3) \<longleftrightarrow> i \<notin> var_bytes ws)"
proof -
  have "\<exists>k \<le> 32. (1 :: u64) = 2 ^ k" "\<exists>k \<le> 32. (32 :: u64) = 2 ^ k"
    by (rule exI [of _ 0], simp) (rule exI [of _ 5], simp)
  then show ?thesis
    unfolding Let_def by (intro frame_shadow_exact) (simp add: frame_input_def var_ok_def)
qed

end
