(* ===== verification/FrameDescr.thy ===== *)
theory FrameDescr
  imports FrameLayout Printf
begin

text \<open>
  The description of a stack frame: the text the compiler stores next to the frame
  (\<^verbatim>\<open>ComputeASanStackFrameDescription\<close>) and its reader in the runtime (\<^verbatim>\<open>ParseFrameDescription\<close> of
  \<^verbatim>\<open>asan_report.cc\<close>), which names the variable of a faulty access.
\<close>

section \<open>The writer\<close>

text \<open>Decimal numbers as \<^verbatim>\<open>raw_ostream\<close> writes them; \<open>buf\<close> is the buffer from \<^verbatim>\<open>CurPtr\<close> on, filled from its end.\<close>

function format_to_buffer :: "u64 \<Rightarrow> u8 list \<Rightarrow> u8 list" where
  "format_to_buffer v buf =
     (let buf = (48 + ucast (v mod 10)) # buf;
          v = v div 10
      in if v \<noteq> 0 then format_to_buffer v buf else buf)"
  by pat_completeness auto
termination
proof (relation "measure (unat \<circ> fst)")
  fix v x :: u64 and buf y :: "u8 list"
  assume "x = v div 10" "x \<noteq> 0"
  then have "unat x = unat v div 10" "unat x \<noteq> 0" by (simp_all add: unat_div word_unat_eq_iff)
  then show "((x, y), (v, buf)) \<in> measure (unat \<circ> fst)" by simp
qed simp

declare format_to_buffer.simps [simp del]

definition write_unsigned :: "u64 \<Rightarrow> u8 list" where
  "write_unsigned n = format_to_buffer n []"

definition var_name :: "svar \<Rightarrow> u8 list" where
  "var_name v = (if v_line v \<noteq> 0 then v_name v @ [58] @ write_unsigned (ucast (v_line v)) else v_name v)"

definition var_text :: "svar \<Rightarrow> u8 list" where
  "var_text v =
     (let name = var_name v in
      [32] @ write_unsigned (v_offset v) @ [32] @ write_unsigned (v_size v) @ [32] @ write_unsigned (of_nat (length name))
        @ [32] @ name)"

definition ComputeASanStackFrameDescription :: "svar list \<Rightarrow> u8 list" where
  "ComputeASanStackFrameDescription vars = write_unsigned (of_nat (length vars)) @ concat (map var_text vars)"

section \<open>The reader\<close>

record StackVarDescr =
  d_beg :: uptr
  d_size :: uptr
  d_name_pos :: uptr
  d_name_len :: uptr

partial_function (option) parse_objects ::
  "mem \<Rightarrow> uptr \<Rightarrow> uptr \<Rightarrow> uptr \<Rightarrow> StackVarDescr list \<Rightarrow> (bool \<times> StackVarDescr list) run" where
  "parse_objects m n_objects i p vars =
     (if \<not> i < n_objects then Some (Inr (True, vars)) else
      bindo (internal_simple_strtoll m p 10) (\<lambda>(b, p).
      bindo (internal_simple_strtoll m p 10) (\<lambda>(sz, p).
      bindo (internal_simple_strtoll m p 10) (\<lambda>(len, p).
      if b = 0 \<or> sz = 0 \<or> m p \<noteq> 32 then Some (Inr (False, vars)) else
      let p = p + 1 in
      parse_objects m n_objects (i + 1) (p + len)
        (vars @ [\<lparr>d_beg = b, d_size = sz, d_name_pos = p, d_name_len = len\<rparr>])))))"

definition ParseFrameDescription :: "mem \<Rightarrow> uptr \<Rightarrow> StackVarDescr list \<Rightarrow> (bool \<times> StackVarDescr list) run" where
  "ParseFrameDescription m frame_descr vars =
     (if frame_descr = 0 then Some (Inl (CheckFailed ''frame_descr'')) else
      bindo (internal_simple_strtoll m frame_descr 10) (\<lambda>(n_objects, p).
      if n_objects = 0 then Some (Inr (False, vars)) else parse_objects m n_objects 0 p vars))"

section \<open>The place of an access\<close>

text \<open>
  \<^verbatim>\<open>PrintAccessAndVarIntersection\<close>: what the report says of a variable, \<^const>\<open>None\<close> when it says nothing, and the loop
  of \<^verbatim>\<open>StackAddressDescription::Print\<close> that calls it for every variable of the frame.
\<close>

definition pos_descr :: "StackVarDescr \<Rightarrow> uptr \<Rightarrow> uptr \<Rightarrow> uptr \<Rightarrow> uptr \<Rightarrow> string option" where
  "pos_descr var addr access_size prev_var_end next_var_beg =
     (let var_end = d_beg var + d_size var;
          addr_end = addr + access_size
      in if addr \<ge> d_beg var then
           (if addr_end \<le> var_end then Some ''is inside''
            else if addr < var_end then Some ''partially overflows''
            else if addr_end \<le> next_var_beg \<and> next_var_beg - addr_end \<ge> addr - var_end then Some ''overflows''
            else None)
         else
           (if addr_end > d_beg var then Some ''partially underflows''
            else if addr \<ge> prev_var_end \<and> addr - prev_var_end \<ge> d_beg var - addr_end then Some ''underflows''
            else None))"

definition positions :: "StackVarDescr list \<Rightarrow> uptr \<Rightarrow> uptr \<Rightarrow> string option list" where
  "positions vars off access_size =
     map (\<lambda>i. let prev_var_end = (if i \<noteq> 0 then d_beg (vars ! (i - 1)) + d_size (vars ! (i - 1)) else 0);
                next_var_beg = (if i + 1 < length vars then d_beg (vars ! (i + 1)) else NOT 0)
            in pos_descr (vars ! i) off access_size prev_var_end next_var_beg) [0..<length vars]"

section \<open>Numbers\<close>

lemma format_to_buffer_ok: "\<exists>ds. format_to_buffer v buf = map (digit_char False) (rev ds) @ buf \<and> decimal v ds"
proof (induction v buf rule: format_to_buffer.induct)
  case (1 v buf)
  let ?d = "v mod 10" and ?v = "v div 10"
  have u: "unat ?d = unat v mod 10" "unat ?v = unat v div 10" by (simp_all add: unat_mod unat_div)
  then have c: "48 + ucast ?d = digit_char False ?d" by (intro digit_char_decimal(1) [symmetric]) simp
  show ?case
  proof (cases "?v = 0")
    case True
    then have "unat v div 10 = 0" using u(2) by simp
    then have "?d = v" using u(1) by (simp add: word_unat_eq_iff)
    then have "decimal v [?d]" using u(1) by (auto simp: decimal_def)
    then show ?thesis using True by (subst format_to_buffer.simps) (auto simp: Let_def c intro!: exI [of _ "[?d]"])
  next
    case False
    then obtain ds where ds: "format_to_buffer ?v ((48 + ucast ?d) # buf) = map (digit_char False) (rev ds) @ (48 + ucast ?d) # buf"
      "decimal ?v ds" using 1 [OF refl refl] by blast
    have "v \<noteq> 0" using False by auto
    then have "decimal v (?d # ds)" using ds(2) u False by (auto simp: decimal_def)
    then show ?thesis using False ds(1) by (subst format_to_buffer.simps) (auto simp: Let_def c intro!: exI [of _ "?d # ds"])
  qed
qed

lemma write_unsigned_ok: "\<exists>ds. write_unsigned v = map (digit_char False) (rev ds) \<and> decimal v ds"
  using format_to_buffer_ok [of v "[]"] by (simp add: write_unsigned_def)

text \<open>A number that a space precedes and a character that is no digit follows is read, up to that character.\<close>

lemma strtoll_space: "m p = 32 \<Longrightarrow> internal_simple_strtoll m p 10 = internal_simple_strtoll m (p + 1) 10"
  unfolding internal_simple_strtoll_def by (subst skip_space.simps) (simp add: IsSpace_def char_int_def)

lemma strtoll_written:
  assumes b: "bytes_at m p (write_unsigned v @ [c])" and c: "\<not> IsDigit (char_int c)" and v: "unat v < 2 ^ 63"
  shows "internal_simple_strtoll m p 10 = Some (Inr (v, p + of_nat (length (write_unsigned v))))"
proof -
  obtain ds where ds: "write_unsigned v = map (digit_char False) (rev ds)" "decimal v ds" using write_unsigned_ok by blast
  have dig: "\<forall>x \<in> set (rev ds). unat x < 10" and ne: "rev ds \<noteq> []" using ds(2) by (simp_all add: decimal_def)
  have val: "read_value 0 (rev ds) = unat v" using ds(2) by (simp add: read_value_rev decimal_def)
  have rd: "read_digits m p 0 False = Some (p + of_nat (length ds), v, True)"
    using read_digits_ok [OF b [unfolded ds(1)] c dig, of 0 False] val ne unat_lt_64 [of v] by simp
  obtain x xs where x: "rev ds = x # xs" using ne by (cases "rev ds") auto
  have first: "m p = digit_char False x" "unat x < 10" using b x dig by (auto simp: ds(1))
  note F = first_digit [OF first(2)]
  have ss: "skip_space m p = Some p" using F(1) by (subst skip_space.simps) (simp add: first(1))
  have "unat v \<le> unat INT64_MAX" using v by (simp add: INT64_MAX_def)
  then have "v \<le> INT64_MAX" by (simp only: word_le_nat_alt)
  then have "Min2 INT64_MAX v = v" by (auto simp: Min2_def)
  then show ?thesis using ss rd F(2,3) by (simp add: internal_simple_strtoll_def Let_def first(1) ds(1))
qed

text \<open>The field of a description: a space, a number, and the space that follows.\<close>

lemma strtoll_field:
  assumes "bytes_at m p ([32] @ write_unsigned v @ [32])" and "unat v < 2 ^ 63"
  shows "internal_simple_strtoll m p 10 = Some (Inr (v, p + of_nat (length ([32] @ write_unsigned v))))"
proof -
  have "\<not> IsDigit (char_int 32)" by (simp add: IsDigit_def word_sle_eq char_int_def)
  then have "internal_simple_strtoll m (p + 1) 10 = Some (Inr (v, p + 1 + of_nat (length (write_unsigned v))))"
    using assms by (intro strtoll_written) simp_all
  then show ?thesis using assms(1) strtoll_space [of m p] by (simp add: add.assoc)
qed

section \<open>The round trip\<close>

definition descr_ok :: "svar \<Rightarrow> bool" where
  "descr_ok v \<longleftrightarrow> 0 < unat (v_offset v) \<and> unat (v_offset v) < 2 ^ 63 \<and> 0 < unat (v_size v) \<and> unat (v_size v) < 2 ^ 63
     \<and> length (var_name v) < 2 ^ 63"

definition described :: "mem \<Rightarrow> svar \<Rightarrow> StackVarDescr \<Rightarrow> bool" where
  "described m v d \<longleftrightarrow> d_beg d = v_offset v \<and> d_size d = v_size v \<and> unat (d_name_len d) = length (var_name v)
     \<and> bytes_at m (d_name_pos d) (var_name v)"

lemma parse_object_ok:
  assumes ok: "descr_ok v" and b: "bytes_at m p (var_text v @ rest)" and i: "i < n"
  shows "\<exists>d q. parse_objects m n i p acc = parse_objects m n (i + 1) q (acc @ [d]) \<and> described m v d \<and> bytes_at m q rest"
proof -
  let ?len = "of_nat (length (var_name v)) :: u64"
  define a c e where "a = [32] @ write_unsigned (v_offset v)" and "c = [32] @ write_unsigned (v_size v)"
    and "e = [32] @ write_unsigned ?len"
  define p1 p2 p3 where "p1 = p + of_nat (length a)" and "p2 = p1 + of_nat (length c)" and "p3 = p2 + of_nat (length e)"
  have len: "unat ?len = length (var_name v)" using ok by (subst unat_of_nat) (simp add: descr_ok_def)
  have t: "var_text v @ rest = a @ c @ e @ [32] @ var_name v @ rest" by (simp add: var_text_def Let_def a_def c_def e_def)
  have parts: "bytes_at m p (a @ [32])" "bytes_at m p1 (c @ [32])" "bytes_at m p2 (e @ [32])" "m p3 = 32"
    "bytes_at m (p3 + 1) (var_name v)" "bytes_at m (p3 + 1 + ?len) rest"
    using b unfolding t by (simp_all add: bytes_at_append p1_def p2_def p3_def) (simp_all add: c_def e_def)
  have "unat (v_offset v) < 2 ^ 63" "unat (v_size v) < 2 ^ 63" "unat ?len < 2 ^ 63" using ok len by (simp_all add: descr_ok_def)
  note R = strtoll_field [OF parts(1) [unfolded a_def append_assoc] this(1)] strtoll_field [OF parts(2) [unfolded c_def append_assoc] this(2)]
    strtoll_field [OF parts(3) [unfolded e_def append_assoc] this(3)]
  note R' = R [folded a_def c_def e_def, folded p1_def p2_def p3_def]
  have "v_offset v \<noteq> 0" "v_size v \<noteq> 0" using ok by (auto simp: descr_ok_def)
  then have "parse_objects m n i p acc = parse_objects m n (i + 1) (p3 + 1 + ?len)
      (acc @ [\<lparr>d_beg = v_offset v, d_size = v_size v, d_name_pos = p3 + 1, d_name_len = ?len\<rparr>])" (is "_ = parse_objects _ _ _ _ (acc @ [?d])")
    using i parts(4) R' by (subst parse_objects.simps) (simp add: Let_def)
  moreover have "described m v ?d" using parts(5) len by (simp add: described_def)
  ultimately show ?thesis using parts(6) by blast
qed

lemma parse_objects_ok:
  assumes "\<forall>v \<in> set vs. descr_ok v" and "bytes_at m p (concat (map var_text vs) @ rest)" and "unat n = unat i + length vs"
  shows "\<exists>ds. parse_objects m n i p acc = Some (Inr (True, acc @ ds)) \<and> list_all2 (described m) vs ds"
  using assms
proof (induction vs arbitrary: i p acc)
  case Nil
  then show ?case by (subst parse_objects.simps) (simp add: word_less_nat_alt)
next
  case (Cons v vs)
  have ok: "descr_ok v" using Cons.prems(1) by simp
  have i: "i < n" "unat (i + 1) = unat i + 1"
    using Cons.prems(3) unat_lt_64 [of n] by (simp_all add: word_less_nat_alt unat_add_nowrap)
  have "bytes_at m p (var_text v @ concat (map var_text vs) @ rest)" using Cons.prems(2) by simp
  from parse_object_ok [OF ok this i(1)] obtain d q where
    D: "parse_objects m n i p acc = parse_objects m n (i + 1) q (acc @ [d])" "described m v d"
      "bytes_at m q (concat (map var_text vs) @ rest)" by blast
  obtain ds where "parse_objects m n (i + 1) q (acc @ [d]) = Some (Inr (True, (acc @ [d]) @ ds))" "list_all2 (described m) vs ds"
    using Cons.IH [OF _ D(3), of "i + 1" "acc @ [d]"] Cons.prems(1,3) i(2) by auto
  then show ?case using D(1,2) by (intro exI [of _ "d # ds"]) simp
qed

section \<open>Every access from the first variable on is blamed on a variable\<close>

text \<open>The objects lie one behind the other, without wrapping around.\<close>

definition in_order :: "StackVarDescr list \<Rightarrow> bool" where
  "in_order ds \<longleftrightarrow> (\<forall>i < length ds. unat (d_beg (ds ! i)) + unat (d_size (ds ! i)) < 2 ^ 63
     \<and> (Suc i < length ds \<longrightarrow> unat (d_beg (ds ! i)) + unat (d_size (ds ! i)) \<le> unat (d_beg (ds ! Suc i))))"

lemma placed_in_order:
  assumes "placed g off ws end" and "list_all2 (described m) ws ds" and "end < 2 ^ 63"
  shows "in_order ds \<and> (ds \<noteq> [] \<longrightarrow> unat (d_beg (hd ds)) = off)"
  using assms
proof (induction arbitrary: ds rule: placed.induct)
  case (2 w off g behind ws "end")
  obtain d ds' where ds: "ds = d # ds'" "described m w d" "list_all2 (described m) ws ds'"
    using 2(8) by (cases ds) auto
  have IH: "in_order ds'" "ds' \<noteq> [] \<longrightarrow> unat (d_beg (hd ds')) = behind" using 2(7) [OF ds(3) 2(9)] by simp_all
  have d: "unat (d_beg d) = off" "off + unat (d_size d) + 12 \<le> behind" "behind < 2 ^ 63"
    using ds(2) 2(1,4,9) placed_le [OF 2(6)] by (simp_all add: described_def)
  have "in_order (d # ds')"
    unfolding in_order_def
  proof (intro allI impI)
    fix i assume "i < length (d # ds')"
    then show "unat (d_beg ((d # ds') ! i)) + unat (d_size ((d # ds') ! i)) < 2 ^ 63
      \<and> (Suc i < length (d # ds') \<longrightarrow> unat (d_beg ((d # ds') ! i)) + unat (d_size ((d # ds') ! i)) \<le> unat (d_beg ((d # ds') ! Suc i)))"
      using IH d by (cases i) (auto simp: in_order_def hd_conv_nth)
  qed
  then show ?case using ds(1) d(1) by simp
qed (simp add: in_order_def)

lemma pos_descr_nat:
  assumes "unat (d_beg d) + unat (d_size d) < 2 ^ 63" and "unat addr + unat sz < 2 ^ 63"
  shows "pos_descr d addr sz pe nb =
    (let ve = unat (d_beg d) + unat (d_size d); ae = unat addr + unat sz in
     if unat addr \<ge> unat (d_beg d) then
       (if ae \<le> ve then Some ''is inside'' else if unat addr < ve then Some ''partially overflows''
        else if ae \<le> unat nb \<and> unat nb - ae \<ge> unat addr - ve then Some ''overflows'' else None)
     else if ae > unat (d_beg d) then Some ''partially underflows''
     else if unat addr \<ge> unat pe \<and> unat addr - unat pe \<ge> unat (d_beg d) - ae then Some ''underflows'' else None)"
proof -
  have u: "unat (d_beg d + d_size d) = unat (d_beg d) + unat (d_size d)" "unat (addr + sz) = unat addr + unat sz"
    using assms by (simp_all add: unat_add_nowrap)
  show ?thesis
    by (auto simp: pos_descr_def Let_def word_le_nat_alt word_less_nat_alt u unat_sub)
qed

lemma positions_nth:
  assumes "in_order ds" and "i < length ds"
  shows "positions ds addr sz ! i = pos_descr (ds ! i) addr sz
    (if i \<noteq> 0 then d_beg (ds ! (i - 1)) + d_size (ds ! (i - 1)) else 0) (if Suc i < length ds then d_beg (ds ! Suc i) else NOT 0)"
  using assms by (simp add: positions_def Let_def)

lemma positions_ok:
  assumes o: "in_order ds" "ds \<noteq> []" and a: "unat (d_beg (hd ds)) \<le> unat addr" "unat addr + unat sz < 2 ^ 63"
  shows "\<exists>i < length ds. positions ds addr sz ! i \<noteq> None"
proof -
  let ?S = "{i. i < length ds \<and> unat (d_beg (ds ! i)) \<le> unat addr}"
  define i where "i = Max ?S"
  have "0 \<in> ?S" using o(2) a(1) by (simp add: hd_conv_nth)
  then have "i \<in> ?S" unfolding i_def by (intro Max_in) auto
  then have i: "i < length ds" "unat (d_beg (ds ! i)) \<le> unat addr" by simp_all
  have max: "unat addr < unat (d_beg (ds ! Suc i))" if "Suc i < length ds"
  proof (rule ccontr)
    assume "\<not> ?thesis"
    then have "Suc i \<in> ?S" using that by simp
    then have "Suc i \<le> i" unfolding i_def by (intro Max_ge) auto
    then show False by simp
  qed
  have f: "unat (d_beg (ds ! k)) + unat (d_size (ds ! k)) < 2 ^ 63" if "k < length ds" for k using o(1) that by (simp add: in_order_def)
  let ?ve = "unat (d_beg (ds ! i)) + unat (d_size (ds ! i))" and ?ae = "unat addr + unat sz"
  note P = positions_nth [OF o(1)] pos_descr_nat [OF f a(2)] Let_def
  have pe: "unat (d_beg (ds ! i) + d_size (ds ! i)) = ?ve" using f [OF i(1)] by (simp add: unat_add_nowrap)
  have top: "unat (- 1 :: uptr) = 2 ^ 64 - 1" by (simp add: unsigned_minus_1_eq_mask mask_eq_exp_minus_1)
  show ?thesis
  proof (cases "Suc i < length ds \<and> ?ve \<le> unat addr \<and> \<not> (?ae \<le> unat (d_beg (ds ! Suc i)) \<and> unat (d_beg (ds ! Suc i)) - ?ae \<ge> unat addr - ?ve)")
    case True
    then have "positions ds addr sz ! Suc i \<noteq> None" using max by (auto simp: P pe)
    then show ?thesis using True by blast
  next
    case False
    have "2 ^ 63 + 2 ^ 63 = (2 :: nat) ^ 64" by simp
    then have "positions ds addr sz ! i \<noteq> None" using False i a(2) by (auto simp: P top)
    then show ?thesis using i(1) by blast
  qed
qed

text \<open>
  C34. The runtime reads the description the compiler stores for a frame back: wherever the text
  stands in memory, terminated by a zero byte, the reader returns one object for each variable, in order, with the
  variable's offset and size and with the place and length of its name (the source line included); the names may hold any bytes.
\<close>
theorem frame_description_roundtrip:
  assumes "vars \<noteq> []" and "length vars < 2 ^ 63" and "\<forall>v \<in> set vars. descr_ok v" and "p \<noteq> 0"
    and "bytes_at m p (ComputeASanStackFrameDescription vars @ [0])"
  shows "\<exists>ds. ParseFrameDescription m p [] = Some (Inr (True, ds)) \<and> list_all2 (described m) vars ds"
proof -
  let ?n = "of_nat (length vars) :: u64"
  have n: "unat ?n = length vars" using assms(2) by (subst unat_of_nat) simp
  then have n0: "?n \<noteq> 0" using assms(1) by (auto simp: word_unat_eq_iff)
  obtain v vs where vs: "vars = v # vs" using assms(1) by (cases vars) auto
  have "bytes_at m p (write_unsigned ?n @ concat (map var_text vars) @ [0])"
    using assms(5) by (simp add: ComputeASanStackFrameDescription_def)
  then have b: "bytes_at m p (write_unsigned ?n @ [32])" "bytes_at m (p + of_nat (length (write_unsigned ?n))) (concat (map var_text vars) @ [0])"
    by (simp_all add: bytes_at_append vs var_text_def Let_def)
  have "\<not> IsDigit (char_int 32)" by (simp add: IsDigit_def word_sle_eq char_int_def)
  from strtoll_written [OF b(1) this] n assms(2)
  have "internal_simple_strtoll m p 10 = Some (Inr (?n, p + of_nat (length (write_unsigned ?n))))" by simp
  then show ?thesis
    using parse_objects_ok [OF assms(3) b(2), of ?n 0 "[]"] n n0 assms(4) by (simp add: ParseFrameDescription_def)
qed

text \<open>
  C37. For a frame laid out by the compiler and described to the runtime, the report on an access that
  begins at or behind the first variable names at least one variable, and says that the access is inside a variable
  exactly for the variables that contain it.
\<close>
theorem stack_access_named:
  assumes "placed g off ws end" and "ws \<noteq> []" and "end < 2 ^ 63" and "list_all2 (described m) ws ds"
    and "off \<le> unat addr" and "unat addr + unat sz < 2 ^ 63"
  shows "(\<exists>i < length ws. positions ds addr sz ! i \<noteq> None)
    \<and> (\<forall>i < length ws. positions ds addr sz ! i = Some ''is inside'' \<longleftrightarrow>
        unat (v_offset (ws ! i)) \<le> unat addr \<and> unat addr + unat sz \<le> unat (v_offset (ws ! i)) + unat (v_size (ws ! i)))"
proof -
  have len: "length ds = length ws" using assms(4) by (simp add: list_all2_lengthD)
  then have ne: "ds \<noteq> []" using assms(2) by auto
  have o: "in_order ds" "unat (d_beg (hd ds)) = off" using placed_in_order [OF assms(1,4,3)] ne by simp_all
  have "positions ds addr sz ! i = Some ''is inside'' \<longleftrightarrow>
      unat (v_offset (ws ! i)) \<le> unat addr \<and> unat addr + unat sz \<le> unat (v_offset (ws ! i)) + unat (v_size (ws ! i))"
    if "i < length ws" for i
  proof -
    have i: "i < length ds" using that len by simp
    have d: "described m (ws ! i) (ds ! i)" using assms(4) that by (rule list_all2_nthD)
    have "unat (d_beg (ds ! i)) + unat (d_size (ds ! i)) < 2 ^ 63" using o(1) i by (simp add: in_order_def)
    from positions_nth [OF o(1) i] pos_descr_nat [OF this assms(6)] d show ?thesis
      by (simp add: Let_def described_def)
  qed
  moreover have "\<exists>i < length ds. positions ds addr sz ! i \<noteq> None"
    using assms(5,6) o by (intro positions_ok [OF o(1) ne]) simp_all
  ultimately show ?thesis using len by simp
qed

definition example_var :: svar where
  "example_var = \<lparr>v_name = [97], v_size = 10, v_lifetime = 0, v_align = 16, v_offset = 32, v_line = 7\<rparr>"

lemma example_text: "ComputeASanStackFrameDescription [example_var] = [49, 32, 51, 50, 32, 49, 48, 32, 51, 32, 97, 58, 55]"
  by (simp add: ComputeASanStackFrameDescription_def var_text_def var_name_def example_var_def write_unsigned_def
      format_to_buffer.simps)

theorem stack_access_named_witness:
  "let ds = [\<lparr>d_beg = 32, d_size = 10, d_name_pos = 4105, d_name_len = 3\<rparr>]
   in (\<exists>i < length [example_var]. positions ds 45 4 ! i \<noteq> None)
    \<and> (\<forall>i < length [example_var]. positions ds 45 4 ! i = Some ''is inside'' \<longleftrightarrow>
        unat (v_offset ([example_var] ! i)) \<le> unat (45 :: uptr)
        \<and> unat (45 :: uptr) + unat (4 :: uptr) \<le> unat (v_offset ([example_var] ! i)) + unat (v_size ([example_var] ! i)))"
  unfolding Let_def
proof (rule stack_access_named)
  show "placed 8 32 [example_var] 56" by (rule placed.intros(2) [where behind = 56]) (simp_all add: example_var_def placed.intros(1))
  show "list_all2 (described (mem_with (\<lambda>_. 7) 4105 (var_name example_var))) [example_var] [\<lparr>d_beg = 32, d_size = 10, d_name_pos = 4105, d_name_len = 3\<rparr>]"
    using bytes_at_mem_with [of 4105 "var_name example_var" "\<lambda>_. 7"]
    by (simp add: described_def var_name_def example_var_def write_unsigned_def format_to_buffer.simps)
qed simp_all

theorem frame_description_roundtrip_witness:
  "let m = mem_with (\<lambda>_. 7) 4096 (ComputeASanStackFrameDescription [example_var] @ [0])
   in \<exists>ds. ParseFrameDescription m 4096 [] = Some (Inr (True, ds)) \<and> list_all2 (described m) [example_var] ds"
proof -
  have "bytes_at (mem_with (\<lambda>_. 7) 4096 (ComputeASanStackFrameDescription [example_var] @ [0])) 4096
      (ComputeASanStackFrameDescription [example_var] @ [0])"
    by (intro bytes_at_mem_with) (simp add: example_text)
  moreover have "descr_ok example_var"
    by (simp add: descr_ok_def var_name_def example_var_def write_unsigned_def format_to_buffer.simps)
  ultimately show ?thesis unfolding Let_def by (intro frame_description_roundtrip) simp_all
qed

end
