(* ===== verification/FakeStack.thy ===== *)
theory FakeStack
  imports Meds FrameLayout CString
begin

text \<open>
  The fake stack of a thread, \<^verbatim>\<open>asan_fake_stack.cc\<close> and \<^verbatim>\<open>asan_fake_stack.h\<close>: an allocator of frames for the local
  variables, so that a frame stays poisoned for a while after its function has returned. The object is one
  mapping: a page with the fields, the flags of the frames, then the frames of the eleven size classes. The flags are bytes, what
  the runtime reads and writes in the frames are words; \<open>flags_before_frames\<close> shows that they lie apart.
\<close>

section \<open>Sizes and offsets\<close>

definition kMinStackFrameSizeLog :: uptr where "kMinStackFrameSizeLog = 6"
definition kMaxStackFrameSizeLog :: uptr where "kMaxStackFrameSizeLog = 16"
definition kNumberOfSizeClasses :: uptr where "kNumberOfSizeClasses = kMaxStackFrameSizeLog - kMinStackFrameSizeLog + 1"
definition kFlagsOffset :: uptr where "kFlagsOffset = 4096"

lemmas fake_consts = kMinStackFrameSizeLog_def kMaxStackFrameSizeLog_def kNumberOfSizeClasses_def kFlagsOffset_def

definition shl :: "uptr \<Rightarrow> uptr \<Rightarrow> uptr" where
  "shl x k = push_bit (unat k) x"

definition SizeRequiredForFlags :: "uptr \<Rightarrow> uptr" where
  "SizeRequiredForFlags log = shl 1 (log + 1 - kMinStackFrameSizeLog)"

definition SizeRequiredForFrames :: "uptr \<Rightarrow> uptr" where
  "SizeRequiredForFrames log = shl 1 log * kNumberOfSizeClasses"

definition RequiredSize :: "uptr \<Rightarrow> uptr" where
  "RequiredSize log = kFlagsOffset + SizeRequiredForFlags log + SizeRequiredForFrames log"

definition FlagsOffset :: "uptr \<Rightarrow> uptr \<Rightarrow> uptr" where
  "FlagsOffset log class_id =
     (let t = kNumberOfSizeClasses - 1 - class_id;
          all_ones = shl 1 (kNumberOfSizeClasses - 1) - 1
      in shl (shl (drop_bit (unat t) all_ones) t) (log - 15))"

definition NumberOfFrames :: "uptr \<Rightarrow> uptr \<Rightarrow> uptr" where
  "NumberOfFrames log class_id = shl 1 (log - kMinStackFrameSizeLog - class_id)"

definition ModuloNumberOfFrames :: "uptr \<Rightarrow> uptr \<Rightarrow> uptr \<Rightarrow> uptr" where
  "ModuloNumberOfFrames log class_id n = n AND (NumberOfFrames log class_id - 1)"

definition BytesInSizeClass :: "uptr \<Rightarrow> uptr" where
  "BytesInSizeClass class_id = shl 1 (class_id + kMinStackFrameSizeLog)"

definition SavedFlagPtr :: "uptr \<Rightarrow> uptr \<Rightarrow> uptr" where
  "SavedFlagPtr x class_id = x + BytesInSizeClass class_id - 8"

section \<open>The object\<close>

record fake_stack =
  this :: uptr
  hint_position :: "uptr list"
  stack_size_log :: uptr
  needs_gc :: bool
  flag_bytes :: "uptr \<Rightarrow> u8"
  frame_words :: "uptr \<Rightarrow> uptr"

text \<open>The fields of \<^verbatim>\<open>FakeFrame\<close> are the words at the offsets 0, 8, 16 and 24 of the frame.\<close>

definition magic_field :: "uptr \<Rightarrow> uptr" where "magic_field ff = ff"
definition real_stack_field :: "uptr \<Rightarrow> uptr" where "real_stack_field ff = ff + 24"

definition kCurrentStackFrameMagic :: uptr where "kCurrentStackFrameMagic = 0x41B58AB3"

definition GetFlags :: "fake_stack \<Rightarrow> uptr \<Rightarrow> uptr \<Rightarrow> uptr" where
  "GetFlags fs log class_id = this fs + kFlagsOffset + FlagsOffset log class_id"

definition GetFrame :: "fake_stack \<Rightarrow> uptr \<Rightarrow> uptr \<Rightarrow> uptr \<Rightarrow> uptr" where
  "GetFrame fs log class_id pos =
     this fs + kFlagsOffset + SizeRequiredForFlags log + shl 1 log * class_id
       + BytesInSizeClass class_id * pos"

section \<open>Operations\<close>

definition MmapNoReserveOrDie :: "uptr \<Rightarrow> vm \<Rightarrow> (uptr \<times> vm) res" where
  "MmapNoReserveOrDie sz m =
     bindr (RoundUpTo sz GetPageSizeCached) (\<lambda>sz.
       let (p, m') = mmap_anywhere sz m in
       if internal_iserror p then Inl (Died ''failed to allocate noreserve'') else Inr (p, m'))"

definition fake_Create :: "bool \<Rightarrow> uptr \<Rightarrow> vm \<Rightarrow> (fake_stack \<times> vm) res" where
  "fake_Create uar_noreserve log m =
     (let log = (if log < 16 then 16 else log);
          log = (if log > 28 then 28 else log);
          sz = RequiredSize log
      in bindr (if uar_noreserve then MmapNoReserveOrDie sz m else MmapOrDie sz m) (\<lambda>(p, m').
         Inr (\<lparr>this = p, hint_position = replicate 11 0, stack_size_log = log, needs_gc = False,
               flag_bytes = (\<lambda>_. 0), frame_words = (\<lambda>_. 0)\<rparr>, m')))"

text \<open>One step of the loop of \<^verbatim>\<open>GC\<close>, and the two loops.\<close>

definition gc_frame :: "uptr \<Rightarrow> uptr \<Rightarrow> nat \<Rightarrow> fake_stack \<Rightarrow> fake_stack" where
  "gc_frame real_stack class_id i fs =
     (let f = GetFlags fs (stack_size_log fs) class_id + of_nat i in
      if flag_bytes fs f = 0 then fs
      else let ff = GetFrame fs (stack_size_log fs) class_id (of_nat i) in
        if frame_words fs (real_stack_field ff) < real_stack then fs\<lparr>flag_bytes := (flag_bytes fs)(f := 0)\<rparr> else fs)"

definition gc_class :: "uptr \<Rightarrow> nat \<Rightarrow> fake_stack \<Rightarrow> fake_stack" where
  "gc_class real_stack class_id fs =
     fold (gc_frame real_stack (of_nat class_id)) [0..<unat (NumberOfFrames (stack_size_log fs) (of_nat class_id))] fs"

definition fake_GC :: "uptr \<Rightarrow> fake_stack \<Rightarrow> fake_stack" where
  "fake_GC real_stack fs = (fold (gc_class real_stack) [0..<unat kNumberOfSizeClasses] fs)\<lparr>needs_gc := False\<rparr>"

text \<open>The loop of \<^verbatim>\<open>Allocate\<close>, with the number of turns left; 0 stands for the null pointer.\<close>

fun allocate_loop :: "uptr \<Rightarrow> uptr \<Rightarrow> uptr \<Rightarrow> nat \<Rightarrow> fake_stack \<Rightarrow> fake_stack \<times> uptr" where
  "allocate_loop log class_id real_stack 0 fs = (fs, 0)"
| "allocate_loop log class_id real_stack (Suc n) fs =
     (let hint = hint_position fs ! unat class_id;
          pos = ModuloNumberOfFrames log class_id hint;
          fs = fs\<lparr>hint_position := (hint_position fs)[unat class_id := hint + 1]\<rparr>;
          f = GetFlags fs log class_id + pos
      in if flag_bytes fs f \<noteq> 0 then allocate_loop log class_id real_stack n fs
         else let res = GetFrame fs log class_id pos in
           (fs\<lparr>flag_bytes := (flag_bytes fs)(f := 1),
               frame_words := (frame_words fs)(real_stack_field res := real_stack, SavedFlagPtr res class_id := f)\<rparr>, res))"

definition fake_Allocate :: "uptr \<Rightarrow> uptr \<Rightarrow> uptr \<Rightarrow> fake_stack \<Rightarrow> (fake_stack \<times> uptr) res" where
  "fake_Allocate log class_id real_stack fs =
     check (class_id < kNumberOfSizeClasses) ''class_id < kNumberOfSizeClasses'' (
     let fs = (if needs_gc fs then fake_GC real_stack fs else fs);
         num_iter = ucast (NumberOfFrames log class_id) :: 32 word
     in Inr (allocate_loop log class_id real_stack (nat (sint num_iter)) fs))"

definition fake_Deallocate :: "uptr \<Rightarrow> uptr \<Rightarrow> fake_stack \<Rightarrow> fake_stack" where
  "fake_Deallocate x class_id fs = fs\<lparr>flag_bytes := (flag_bytes fs)(frame_words fs (SavedFlagPtr x class_id) := 0)\<rparr>"

definition HandleNoReturn :: "fake_stack \<Rightarrow> fake_stack" where
  "HandleNoReturn fs = fs\<lparr>needs_gc := True\<rparr>"

text \<open>The result with the bounds of the usable part of the frame, when it is not null.\<close>

definition AddrIsInFakeStack :: "uptr \<Rightarrow> fake_stack \<Rightarrow> (uptr \<times> uptr \<times> uptr) option res" where
  "AddrIsInFakeStack ptr fs =
     (let log = stack_size_log fs;
          beg = GetFrame fs log 0 0;
          end = this fs + RequiredSize log
      in if ptr < beg \<or> ptr \<ge> end then Inr None
      else let class_id = drop_bit (unat log) (ptr - beg);
               base = beg + shl class_id log
      in check (base \<le> ptr) ''base <= ptr'' (
         check (ptr < base + shl 1 log) ''ptr < base + (1 << stack_size_log)'' (
         let pos = drop_bit (unat (kMinStackFrameSizeLog + class_id)) (ptr - base);
             res = base + pos * BytesInSizeClass class_id
         in Inr (Some (res, res + 32, res + BytesInSizeClass class_id)))))"

text \<open>The ranges \<^verbatim>\<open>ForEachFakeFrame\<close> calls its callback with.\<close>

definition ForEachFakeFrame :: "fake_stack \<Rightarrow> (uptr \<times> uptr) list" where
  "ForEachFakeFrame fs =
     concat (map (\<lambda>c. let class_id = of_nat c in
       concat (map (\<lambda>i.
         if flag_bytes fs (GetFlags fs (stack_size_log fs) class_id + of_nat i) = 0 then []
         else let ff = GetFrame fs (stack_size_log fs) class_id (of_nat i) in [(ff, ff + BytesInSizeClass class_id)])
         [0..<unat (NumberOfFrames (stack_size_log fs) class_id)])) [0..<unat kNumberOfSizeClasses])"

definition asan_addr_is_in_fake_stack :: "fake_stack option \<Rightarrow> uptr \<Rightarrow> (uptr \<times> uptr \<times> uptr) option res" where
  "asan_addr_is_in_fake_stack fake_stack addr =
     (case fake_stack of None \<Rightarrow> Inr None
      | Some fs \<Rightarrow> bindr (AddrIsInFakeStack addr fs) (\<lambda>r. case r of None \<Rightarrow> Inr None
          | Some (frame, frame_beg, frame_end) \<Rightarrow>
              if frame = 0 \<or> frame_words fs (magic_field frame) \<noteq> kCurrentStackFrameMagic then Inr None
              else Inr (Some (frame_words fs (real_stack_field frame), frame_beg, frame_end))))"

section \<open>The shadow of frames\<close>

definition kAsanStackAfterReturnMagic :: u8 where "kAsanStackAfterReturnMagic = 0xf5"
definition kMagic1 :: u64 where "kMagic1 = ucast kAsanStackAfterReturnMagic"
definition kMagic2 :: u64 where "kMagic2 = (push_bit 8 kMagic1) OR kMagic1"
definition kMagic4 :: u64 where "kMagic4 = (push_bit 16 kMagic2) OR kMagic2"
definition kMagic8 :: u64 where "kMagic8 = (push_bit 32 kMagic4) OR kMagic4"

text \<open>\<^verbatim>\<open>shadow[i] = magic\<close> for \<open>i\<close> below \<open>n\<close>, with the words stored as eight bytes, the lowest one first.\<close>

fun set_words :: "uptr \<Rightarrow> u64 \<Rightarrow> nat \<Rightarrow> smem \<Rightarrow> smem" where
  "set_words p magic 0 sh = sh"
| "set_words p magic (Suc n) sh = set_words (p + 8) magic n (store_le sh p 8 magic)"

definition SetShadow :: "cfg \<Rightarrow> uptr \<Rightarrow> uptr \<Rightarrow> uptr \<Rightarrow> u64 \<Rightarrow> pst \<Rightarrow> pst res" where
  "SetShadow c ptr sz class_id magic s =
     check (SHADOW_SCALE = 3) ''SHADOW_SCALE == 3'' (
     bindr (MemToShadow c ptr) (\<lambda>sp.
     if class_id \<le> 6 then Inr (s\<lparr>shadow := set_words sp magic (unat (shl 1 class_id)) (shadow s)\<rparr>)
     else PoisonShadow c ptr sz (ucast magic) s))"

definition OnMalloc :: "cfg \<Rightarrow> uptr \<Rightarrow> uptr \<Rightarrow> uptr \<Rightarrow> fake_stack option \<Rightarrow> pst \<Rightarrow> (uptr \<times> fake_stack option \<times> pst) res" where
  "OnMalloc c real_stack class_id sz fs s =
     (case fs of None \<Rightarrow> Inr (0, None, s)
      | Some fs \<Rightarrow>
          bindr (fake_Allocate (stack_size_log fs) class_id real_stack fs) (\<lambda>(fs, ff).
          if ff = 0 then Inr (0, Some fs, s)
          else bindr (SetShadow c ff sz class_id 0 s) (\<lambda>s. Inr (ff, Some fs, s))))"

definition OnFree :: "cfg \<Rightarrow> uptr \<Rightarrow> uptr \<Rightarrow> uptr \<Rightarrow> fake_stack \<Rightarrow> pst \<Rightarrow> (fake_stack \<times> pst) res" where
  "OnFree c ptr class_id sz fs s =
     (let fs = fake_Deallocate ptr class_id fs in
      bindr (SetShadow c ptr sz class_id kMagic8 s) (\<lambda>s. Inr (fs, s)))"

definition PoisonAll :: "cfg \<Rightarrow> u8 \<Rightarrow> fake_stack \<Rightarrow> pst \<Rightarrow> pst res" where
  "PoisonAll c magic fs s = PoisonShadow c (this fs) (RequiredSize (stack_size_log fs)) magic s"

definition fake_Destroy :: "cfg \<Rightarrow> fake_stack \<Rightarrow> pst \<Rightarrow> vm \<Rightarrow> (pst \<times> vm) res" where
  "fake_Destroy c fs s m =
     bindr (PoisonAll c 0 fs s) (\<lambda>s.
     let sz = RequiredSize (stack_size_log fs) in
     bindr (FlushUnneededASanShadowMemory c (this fs) sz s) (\<lambda>s.
     bindr (UnmapOrDie (this fs) sz m) (\<lambda>m. Inr (s, m))))"

section \<open>Redzones of \<open>alloca\<close>\<close>

definition kAllocaRedzoneSize :: uptr where "kAllocaRedzoneSize = 32"
definition kAllocaRedzoneMask :: uptr where "kAllocaRedzoneMask = 31"
definition kAsanAllocaLeftMagic :: u8 where "kAsanAllocaLeftMagic = 0xca"
definition kAsanAllocaRightMagic :: u8 where "kAsanAllocaRightMagic = 0xcb"

definition asan_alloca_poison :: "cfg \<Rightarrow> uptr \<Rightarrow> uptr \<Rightarrow> pst \<Rightarrow> pst res" where
  "asan_alloca_poison c addr sz s =
     (let LeftRedzoneAddr = addr - kAllocaRedzoneSize;
          PartialRzAddr = addr + sz;
          RightRzAddr = (PartialRzAddr + kAllocaRedzoneMask) AND NOT kAllocaRedzoneMask;
          PartialRzAligned = PartialRzAddr AND NOT (SHADOW_GRANULARITY - 1)
      in bindr (FastPoisonShadow c LeftRedzoneAddr kAllocaRedzoneSize kAsanAllocaLeftMagic (shadow s)) (\<lambda>sh.
         let sh = FastPoisonShadowPartialRightRedzone c PartialRzAligned (PartialRzAddr mod SHADOW_GRANULARITY)
               (RightRzAddr - PartialRzAligned) kAsanAllocaRightMagic sh
         in bindr (FastPoisonShadow c RightRzAddr kAllocaRedzoneSize kAsanAllocaRightMagic sh) (\<lambda>sh.
         Inr (s\<lparr>shadow := sh\<rparr>))))"

definition asan_allocas_unpoison :: "cfg \<Rightarrow> uptr \<Rightarrow> uptr \<Rightarrow> pst \<Rightarrow> pst res" where
  "asan_allocas_unpoison c tp bottom s =
     (if tp = 0 \<or> tp > bottom then Inr s
      else bindr (MemToShadow c tp) (\<lambda>sp. Inr (fill_shadow sp 0 ((bottom - tp) div SHADOW_GRANULARITY) s)))"

section \<open>The geometry in natural numbers\<close>

text \<open>
  For \<open>l\<close> between 16 and 28 and a class \<open>c\<close> up to 10: the number of frames, the offset of the flags of the class, the
  offset of a frame from the first one.
\<close>

definition frames_of :: "nat \<Rightarrow> nat \<Rightarrow> nat" where "frames_of l c = 2 ^ (10 - c) * 2 ^ (l - 16)"
definition flags_at :: "nat \<Rightarrow> nat \<Rightarrow> nat" where "flags_at l c = (2 ^ 11 - 2 ^ (11 - c)) * 2 ^ (l - 16)"
definition bytes_of :: "nat \<Rightarrow> nat" where "bytes_of c = 64 * 2 ^ c"

lemma unat_shl_1: "unat k < 64 \<Longrightarrow> unat (shl 1 k) = 2 ^ unat k"
  by (simp add: shl_def push_bit_eq_mult unat_pow2)

definition log_ok :: "uptr \<Rightarrow> bool" where
  "log_ok log \<longleftrightarrow> 16 \<le> unat log \<and> unat log \<le> 28"

lemma class_cases:
  assumes "class_id < kNumberOfSizeClasses"
  obtains "class_id = 0" | "class_id = 1" | "class_id = 2" | "class_id = 3" | "class_id = 4" | "class_id = 5"
    | "class_id = 6" | "class_id = 7" | "class_id = 8" | "class_id = 9" | "class_id = 10"
proof -
  have "unat class_id < 11" using assms by (simp add: fake_consts word_less_nat_alt)
  then have "unat class_id = 0 \<or> unat class_id = 1 \<or> unat class_id = 2 \<or> unat class_id = 3 \<or> unat class_id = 4 \<or> unat class_id = 5
    \<or> unat class_id = 6 \<or> unat class_id = 7 \<or> unat class_id = 8 \<or> unat class_id = 9 \<or> unat class_id = 10" by arith
  then show ?thesis using that by (auto simp: word_unat_eq_iff)
qed

lemma unat_minus_const: "unat k \<le> unat x \<Longrightarrow> unat (x - k :: uptr) = unat x - unat k"
  by (rule unat_sub) (simp add: word_le_nat_alt)

lemma class_lt: "class_id < kNumberOfSizeClasses \<longleftrightarrow> unat class_id < 11"
  by (simp add: fake_consts word_less_nat_alt)

lemma unat_NumberOfFrames:
  assumes "log_ok log" and "class_id < kNumberOfSizeClasses"
  shows "unat (NumberOfFrames log class_id) = frames_of (unat log) (unat class_id)"
proof -
  have l: "16 \<le> unat log" "unat log \<le> 28" and c: "unat class_id < 11" using assms by (simp_all add: log_ok_def class_lt)
  have "unat (log - 6) = unat log - 6" using l by (subst unat_minus_const) simp_all
  then have e: "unat (log - 6 - class_id) = unat log - 6 - unat class_id" using l c by (subst unat_minus_const) simp_all
  have "unat (NumberOfFrames log class_id) = 2 ^ (unat log - 6 - unat class_id)"
    unfolding NumberOfFrames_def kMinStackFrameSizeLog_def using l by (subst unat_shl_1) (simp_all add: e)
  also have "unat log - 6 - unat class_id = (10 - unat class_id) + (unat log - 16)" using l c by simp
  finally show ?thesis by (simp add: frames_of_def power_add)
qed

lemma unat_BytesInSizeClass:
  assumes "class_id < kNumberOfSizeClasses"
  shows "unat (BytesInSizeClass class_id) = bytes_of (unat class_id)"
proof -
  have c: "unat class_id < 11" using assms by (simp add: class_lt)
  then have "unat (class_id + 6) = unat class_id + 6" by (subst unat_add_nowrap) simp_all
  then show ?thesis
    unfolding BytesInSizeClass_def kMinStackFrameSizeLog_def using c by (subst unat_shl_1) (simp_all add: bytes_of_def power_add)
qed

lemma unat_SizeRequiredForFlags:
  assumes "log_ok log"
  shows "unat (SizeRequiredForFlags log) = 2 ^ 11 * 2 ^ (unat log - 16)"
proof -
  have l: "16 \<le> unat log" "unat log \<le> 28" using assms by (simp_all add: log_ok_def)
  have e: "unat (log - 5) = unat log - 5" using l by (subst unat_minus_const) simp_all
  have "unat (SizeRequiredForFlags log) = 2 ^ (unat log - 5)"
    unfolding SizeRequiredForFlags_def kMinStackFrameSizeLog_def using l by (subst unat_shl_1) (simp_all add: e)
  also have "unat log - 5 = 11 + (unat log - 16)" using l by simp
  finally show ?thesis by (simp only: power_add)
qed

lemma unat_FlagsOffset:
  assumes "log_ok log" and "class_id < kNumberOfSizeClasses"
  shows "unat (FlagsOffset log class_id) = flags_at (unat log) (unat class_id)"
proof -
  have l: "16 \<le> unat log" "unat log \<le> 28" using assms by (simp_all add: log_ok_def)
  define t where "t = kNumberOfSizeClasses - 1 - class_id"
  define x where "x = shl (drop_bit (unat t) (shl 1 (kNumberOfSizeClasses - 1) - 1)) t"
  have x: "2 * unat x = 2 ^ 11 - 2 ^ (11 - unat class_id)"
    using assms(2) unfolding x_def t_def by (cases rule: class_cases) (simp_all add: fake_consts shl_def drop_bit_eq_div push_bit_eq_mult unat_div)
  have "0 < (2 :: nat) ^ (11 - unat class_id)" by simp
  then have "2 * unat x < 2 ^ 11" unfolding x by (intro diff_less) simp_all
  then have "unat x < 2 ^ 10" by simp
  have e: "unat (log - 15) = unat log - 15" using l by (subst unat_minus_const) simp_all
  have p: "unat (2 ^ (unat log - 15) :: uptr) = 2 ^ (unat log - 15)" using l by (intro unat_pow2) simp
  have "(2 :: nat) ^ (unat log - 15) \<le> 2 ^ 13" using l by (intro power_increasing) simp_all
  then have "unat x * 2 ^ (unat log - 15) < 2 ^ 10 * 2 ^ 13 + 1"
    using \<open>unat x < 2 ^ 10\<close> by (intro le_imp_less_Suc [unfolded Suc_eq_plus1] mult_le_mono) simp_all
  then have "unat (push_bit (unat log - 15) x) = unat x * 2 ^ (unat log - 15)"
    unfolding push_bit_eq_mult by (subst unat_mult_lem [THEN iffD1]) (simp_all add: p)
  also have "\<dots> = 2 * unat x * 2 ^ (unat log - 16)"
  proof -
    have "unat log - 15 = Suc (unat log - 16)" using l by simp
    then show ?thesis by simp
  qed
  finally show ?thesis
    unfolding FlagsOffset_def Let_def t_def [symmetric] x_def [symmetric] x by (simp only: shl_def e flags_at_def)
qed

text \<open>The whole object lies in the address space.\<close>

definition fs_ok :: "fake_stack \<Rightarrow> bool" where
  "fs_ok fs \<longleftrightarrow> log_ok (stack_size_log fs) \<and> length (hint_position fs) = 11 \<and> 0 < unat (this fs) \<and> 4096 dvd unat (this fs)
     \<and> unat (this fs) + 4096 + 2 ^ 11 * 2 ^ (unat (stack_size_log fs) - 16) + 11 * 2 ^ unat (stack_size_log fs) < 2 ^ 63"

definition flags_base :: "fake_stack \<Rightarrow> nat" where
  "flags_base fs = unat (this fs) + 4096"

definition frames_base :: "fake_stack \<Rightarrow> nat" where
  "frames_base fs = flags_base fs + 2 ^ 11 * 2 ^ (unat (stack_size_log fs) - 16)"

lemma frames_bytes: "16 \<le> l \<Longrightarrow> c \<le> 10 \<Longrightarrow> frames_of l c * bytes_of c = 2 ^ l"
proof -
  assume "16 \<le> l" "c \<le> 10"
  then have "2 ^ l = (2 :: nat) ^ ((10 - c) + (l - 16) + (6 + c))" by (intro arg_cong [where f = "power 2"]) simp
  then show ?thesis by (simp add: power_add frames_of_def bytes_of_def)
qed

lemma flags_at_next: "c \<le> 10 \<Longrightarrow> flags_at l c + frames_of l c = flags_at l (Suc c)"
proof -
  assume c: "c \<le> 10"
  have "(2 :: nat) ^ (11 - c) = 2 * 2 ^ (10 - c)" using c by (metis Suc_diff_le numeral_nat(7) power_Suc Suc_eq_plus1 numeral_plus_one semiring_norm(5) semiring_norm(8))
  moreover have "(2 :: nat) ^ (10 - c) \<le> 2 ^ 10" by (intro power_increasing) simp_all
  ultimately have "2 ^ 11 - 2 ^ (11 - c) + 2 ^ (10 - c) = (2 :: nat) ^ 11 - 2 ^ (11 - Suc c)" by simp
  then show ?thesis by (simp only: flags_at_def frames_of_def flip: distrib_right)
qed

lemma flags_at_mono: "c \<le> d \<Longrightarrow> flags_at l c \<le> flags_at l d"
  by (simp add: flags_at_def diff_le_mono2 power_increasing)

lemma flags_at_11: "c \<le> 11 \<Longrightarrow> flags_at l c \<le> 2 ^ 11 * 2 ^ (l - 16)"
  by (simp add: flags_at_def)

text \<open>The addresses of the flags and of the frames.\<close>

definition flag_addr :: "fake_stack \<Rightarrow> nat \<Rightarrow> nat \<Rightarrow> nat" where
  "flag_addr fs c i = flags_base fs + flags_at (unat (stack_size_log fs)) c + i"

definition frame_addr :: "fake_stack \<Rightarrow> nat \<Rightarrow> nat \<Rightarrow> nat" where
  "frame_addr fs c i = frames_base fs + 2 ^ unat (stack_size_log fs) * c + bytes_of c * i"

definition n_frames :: "fake_stack \<Rightarrow> nat \<Rightarrow> nat" where
  "n_frames fs c = frames_of (unat (stack_size_log fs)) c"

lemma flag_below:
  assumes "c \<le> 10" and "i < n_frames fs c"
  shows "flags_base fs + flags_at (unat (stack_size_log fs)) c \<le> flag_addr fs c i"
    "flag_addr fs c i < flags_base fs + flags_at (unat (stack_size_log fs)) (Suc c)" "flag_addr fs c i < frames_base fs"
proof -
  show "flags_base fs + flags_at (unat (stack_size_log fs)) c \<le> flag_addr fs c i" by (simp add: flag_addr_def)
  show *: "flag_addr fs c i < flags_base fs + flags_at (unat (stack_size_log fs)) (Suc c)"
    using assms flags_at_next [OF assms(1), of "unat (stack_size_log fs)"] by (simp add: flag_addr_def n_frames_def)
  show "flag_addr fs c i < frames_base fs"
    using * flags_at_11 [of "Suc c" "unat (stack_size_log fs)"] assms(1) by (simp add: frames_base_def)
qed

lemma flag_addr_inj:
  assumes "c \<le> 10" "i < n_frames fs c" "d \<le> 10" "j < n_frames fs d"
  shows "flag_addr fs c i = flag_addr fs d j \<longleftrightarrow> c = d \<and> i = j"
proof (cases c d rule: linorder_cases)
  case less
  then show ?thesis using flag_below [OF assms(1,2)] flag_below [OF assms(3,4)] flags_at_mono [of "Suc c" d "unat (stack_size_log fs)"] by auto
next
  case greater
  then show ?thesis using flag_below [OF assms(1,2)] flag_below [OF assms(3,4)] flags_at_mono [of "Suc d" c "unat (stack_size_log fs)"] by auto
qed (simp add: flag_addr_def)

lemma frame_within:
  assumes "fs_ok fs" and "c \<le> 10" and "i < n_frames fs c"
  shows "frames_base fs + 2 ^ unat (stack_size_log fs) * c \<le> frame_addr fs c i"
    "frame_addr fs c i + bytes_of c \<le> frames_base fs + 2 ^ unat (stack_size_log fs) * Suc c"
    "frame_addr fs c i + bytes_of c \<le> frames_base fs + 11 * 2 ^ unat (stack_size_log fs)"
    "frame_addr fs c i + bytes_of c < 2 ^ 63"
proof -
  let ?l = "unat (stack_size_log fs)"
  show "frames_base fs + 2 ^ ?l * c \<le> frame_addr fs c i" by (simp add: frame_addr_def)
  have "16 \<le> ?l" using assms(1) by (simp add: fs_ok_def log_ok_def)
  have "bytes_of c * Suc i \<le> bytes_of c * n_frames fs c" using assms(3) by (intro mult_le_mono) simp_all
  then have "bytes_of c * i + bytes_of c \<le> 2 ^ ?l"
    using frames_bytes [OF \<open>16 \<le> ?l\<close> assms(2)] by (simp add: n_frames_def mult.commute)
  then show 2: "frame_addr fs c i + bytes_of c \<le> frames_base fs + 2 ^ ?l * Suc c" by (simp add: frame_addr_def)
  have "2 ^ ?l * Suc c \<le> 2 ^ ?l * 11" using assms(2) by (intro mult_le_mono) simp_all
  then show 3: "frame_addr fs c i + bytes_of c \<le> frames_base fs + 11 * 2 ^ ?l" using 2 by linarith
  then show "frame_addr fs c i + bytes_of c < 2 ^ 63" using assms(1) by (simp add: fs_ok_def frames_base_def flags_base_def)
qed

lemma flags_before_frames:
  assumes "fs_ok fs" "c \<le> 10" "i < n_frames fs c" "d \<le> 10" "j < n_frames fs d"
  shows "flag_addr fs c i < frame_addr fs d j"
proof -
  have "frames_base fs \<le> frame_addr fs d j" by (simp add: frame_addr_def)
  then show ?thesis using flag_below(3) [OF assms(2,3)] by linarith
qed

text \<open>Two frames do not overlap.\<close>

lemma frames_apart:
  assumes "fs_ok fs" "c \<le> 10" "i < n_frames fs c" "d \<le> 10" "j < n_frames fs d" and ne: "(c, i) \<noteq> (d, j)"
  shows "frame_addr fs c i + bytes_of c \<le> frame_addr fs d j \<or> frame_addr fs d j + bytes_of d \<le> frame_addr fs c i"
proof -
  let ?l = "unat (stack_size_log fs)"
  note I = frame_within [OF assms(1,2,3)] and J = frame_within [OF assms(1,4,5)]
  consider "c < d" | "d < c" | "c = d" "i < j" | "c = d" "j < i" using ne by fastforce
  then show ?thesis
  proof cases
    case 1
    then have "2 ^ ?l * Suc c \<le> 2 ^ ?l * d" by (intro mult_le_mono) simp_all
    then show ?thesis using I(2) J(1) by linarith
  next
    case 2
    then have "2 ^ ?l * Suc d \<le> 2 ^ ?l * c" by (intro mult_le_mono) simp_all
    then show ?thesis using J(2) I(1) by linarith
  next
    case 3
    then have "bytes_of c * Suc i \<le> bytes_of c * j" by (intro mult_le_mono) simp_all
    then show ?thesis using 3 by (simp add: frame_addr_def)
  next
    case 4
    then have "bytes_of c * Suc j \<le> bytes_of c * i" by (intro mult_le_mono) simp_all
    then show ?thesis using 4 by (simp add: frame_addr_def)
  qed
qed

definition flagw :: "fake_stack \<Rightarrow> nat \<Rightarrow> nat \<Rightarrow> uptr" where "flagw fs c i = of_nat (flag_addr fs c i)"
definition framew :: "fake_stack \<Rightarrow> nat \<Rightarrow> nat \<Rightarrow> uptr" where "framew fs c i = of_nat (frame_addr fs c i)"

lemma unat_flagw:
  assumes "fs_ok fs" "c \<le> 10" "i < n_frames fs c"
  shows "unat (flagw fs c i) = flag_addr fs c i"
  using flags_before_frames [OF assms assms(2,3)] frame_within(4) [OF assms]
  unfolding flagw_def unat_of_nat by (intro mod_less) simp

lemma unat_framew:
  assumes "fs_ok fs" "c \<le> 10" "i < n_frames fs c"
  shows "unat (framew fs c i) = frame_addr fs c i"
  using frame_within(4) [OF assms] unfolding framew_def unat_of_nat by (intro mod_less) simp

lemma flagw_inj:
  assumes "fs_ok fs" "c \<le> 10" "i < n_frames fs c" "d \<le> 10" "j < n_frames fs d"
  shows "flagw fs c i = flagw fs d j \<longleftrightarrow> c = d \<and> i = j"
  using flag_addr_inj [OF assms(2-5)] unat_flagw [OF assms(1,2,3)] unat_flagw [OF assms(1,4,5)] by (metis flagw_def)

lemma class_nat: "class_id < kNumberOfSizeClasses \<Longrightarrow> unat class_id \<le> 10"
  by (simp add: class_lt)

lemma GetFlags_eq:
  assumes "fs_ok fs" "class_id < kNumberOfSizeClasses"
  shows "GetFlags fs (stack_size_log fs) class_id + pos = flagw fs (unat class_id) (unat pos)"
proof -
  have l: "log_ok (stack_size_log fs)" using assms(1) by (simp add: fs_ok_def)
  have "FlagsOffset (stack_size_log fs) class_id = of_nat (flags_at (unat (stack_size_log fs)) (unat class_id))"
    unfolding unat_FlagsOffset [OF l assms(2), symmetric] by simp
  then show ?thesis by (simp add: GetFlags_def flagw_def flag_addr_def flags_base_def fake_consts)
qed

lemma GetFrame_eq:
  assumes "fs_ok fs" "class_id < kNumberOfSizeClasses"
  shows "GetFrame fs (stack_size_log fs) class_id pos = framew fs (unat class_id) (unat pos)"
proof -
  have l: "log_ok (stack_size_log fs)" using assms(1) by (simp add: fs_ok_def)
  then have l': "unat (shl 1 (stack_size_log fs)) = 2 ^ unat (stack_size_log fs)" by (intro unat_shl_1) (simp add: log_ok_def)
  have "SizeRequiredForFlags (stack_size_log fs) = of_nat (2 ^ 11 * 2 ^ (unat (stack_size_log fs) - 16))"
    unfolding unat_SizeRequiredForFlags [OF l, symmetric] by simp
  moreover have "shl 1 (stack_size_log fs) = of_nat (2 ^ unat (stack_size_log fs))" unfolding l' [symmetric] by simp
  moreover have "BytesInSizeClass class_id = of_nat (bytes_of (unat class_id))"
    unfolding unat_BytesInSizeClass [OF assms(2), symmetric] by simp
  ultimately show ?thesis
    by (simp add: GetFrame_def framew_def frame_addr_def frames_base_def flags_base_def fake_consts)
qed

lemma frames_of_pow2: "frames_of l c = 2 ^ ((10 - c) + (l - 16))"
  by (simp add: frames_of_def power_add)

lemma Modulo_eq:
  assumes "fs_ok fs" "class_id < kNumberOfSizeClasses"
  shows "unat (ModuloNumberOfFrames (stack_size_log fs) class_id n) = unat n mod n_frames fs (unat class_id)"
proof -
  let ?l = "unat (stack_size_log fs)"
  let ?m = "(10 - unat class_id) + (?l - 16)"
  have l: "log_ok (stack_size_log fs)" using assms(1) by (simp add: fs_ok_def)
  then have "?m < 64" unfolding log_ok_def by arith
  then have "NumberOfFrames (stack_size_log fs) class_id = 2 ^ ?m"
    using unat_NumberOfFrames [OF l assms(2)] by (simp add: word_unat_eq_iff unat_pow2 frames_of_pow2)
  then show ?thesis
    by (simp add: ModuloNumberOfFrames_def pow2_minus_1_mask unat_and_mask n_frames_def frames_of_pow2)
qed

text \<open>The allocated frames, and the invariant: an allocated frame holds the address of its flag.\<close>

definition live :: "fake_stack \<Rightarrow> (nat \<times> nat) set" where
  "live fs = {(c, i). c \<le> 10 \<and> i < n_frames fs c \<and> flag_bytes fs (flagw fs c i) \<noteq> 0}"

definition saved_word :: "fake_stack \<Rightarrow> nat \<Rightarrow> nat \<Rightarrow> uptr" where
  "saved_word fs c i = SavedFlagPtr (framew fs c i) (of_nat c)"

definition fs_inv :: "fake_stack \<Rightarrow> bool" where
  "fs_inv fs \<longleftrightarrow> fs_ok fs \<and> (\<forall>(c, i) \<in> live fs. frame_words fs (saved_word fs c i) = flagw fs c i)"

lemma geometry_same [simp]:
  "fs_ok (fs\<lparr>flag_bytes := fb\<rparr>) = fs_ok fs" "fs_ok (fs\<lparr>frame_words := fw\<rparr>) = fs_ok fs" "fs_ok (fs\<lparr>needs_gc := b\<rparr>) = fs_ok fs"
  "length h = 11 \<Longrightarrow> fs_ok fs \<Longrightarrow> fs_ok (fs\<lparr>hint_position := h\<rparr>)"
  "n_frames (fs\<lparr>flag_bytes := fb\<rparr>) = n_frames fs" "n_frames (fs\<lparr>frame_words := fw\<rparr>) = n_frames fs"
  "n_frames (fs\<lparr>needs_gc := b\<rparr>) = n_frames fs" "n_frames (fs\<lparr>hint_position := h\<rparr>) = n_frames fs"
  "flagw (fs\<lparr>flag_bytes := fb\<rparr>) = flagw fs" "flagw (fs\<lparr>frame_words := fw\<rparr>) = flagw fs"
  "flagw (fs\<lparr>needs_gc := b\<rparr>) = flagw fs" "flagw (fs\<lparr>hint_position := h\<rparr>) = flagw fs"
  "framew (fs\<lparr>flag_bytes := fb\<rparr>) = framew fs" "framew (fs\<lparr>frame_words := fw\<rparr>) = framew fs"
  "framew (fs\<lparr>needs_gc := b\<rparr>) = framew fs" "framew (fs\<lparr>hint_position := h\<rparr>) = framew fs"
  "saved_word (fs\<lparr>flag_bytes := fb\<rparr>) = saved_word fs" "saved_word (fs\<lparr>frame_words := fw\<rparr>) = saved_word fs"
  "saved_word (fs\<lparr>needs_gc := b\<rparr>) = saved_word fs" "saved_word (fs\<lparr>hint_position := h\<rparr>) = saved_word fs"
  by (auto simp: fs_ok_def fun_eq_iff n_frames_def flagw_def flag_addr_def flags_base_def framew_def frame_addr_def
      frames_base_def saved_word_def)

lemma live_same [simp]:
  "live (fs\<lparr>frame_words := fw\<rparr>) = live fs" "live (fs\<lparr>needs_gc := b\<rparr>) = live fs" "live (fs\<lparr>hint_position := h\<rparr>) = live fs"
  by (simp_all add: live_def)

lemma live_set_flag:
  assumes "fs_ok fs" "c \<le> 10" "i < n_frames fs c"
  shows "live (fs\<lparr>flag_bytes := (flag_bytes fs)(flagw fs c i := x)\<rparr>) = (if x = 0 then live fs - {(c, i)} else insert (c, i) (live fs))"
  using assms by (auto simp: live_def flagw_inj)

section \<open>Garbage collection\<close>

definition old_frame :: "uptr \<Rightarrow> fake_stack \<Rightarrow> nat \<times> nat \<Rightarrow> bool" where
  "old_frame real_stack fs = (\<lambda>(c, i). frame_words fs (real_stack_field (framew fs c i)) < real_stack)"

text \<open>\<open>frees fs fs' D\<close>: from \<open>fs\<close> to \<open>fs'\<close> only flags have changed, and the frames \<open>D\<close> are free now.\<close>

definition frees :: "fake_stack \<Rightarrow> fake_stack \<Rightarrow> (nat \<times> nat) set \<Rightarrow> bool" where
  "frees fs fs' D \<longleftrightarrow> (\<exists>fb. fs' = fs\<lparr>flag_bytes := fb\<rparr>) \<and> live fs' = live fs - D"

lemma frees_refl: "live fs \<inter> D = {} \<Longrightarrow> frees fs fs D"
  by (auto simp: frees_def intro!: exI [of _ "flag_bytes fs"])

lemma frees_trans: "frees fs fs1 D1 \<Longrightarrow> frees fs1 fs2 D2 \<Longrightarrow> frees fs fs2 (D1 \<union> D2)"
  by (fastforce simp: frees_def)

lemma frees_same:
  assumes "frees fs fs' D"
  shows "fs_ok fs' = fs_ok fs" "n_frames fs' = n_frames fs" "old_frame rs fs' = old_frame rs fs" "stack_size_log fs' = stack_size_log fs"
  using assms by (auto simp: frees_def old_frame_def fun_eq_iff)

lemma of_nat_class: "c \<le> 10 \<Longrightarrow> unat (of_nat c :: uptr) = c" "c \<le> 10 \<Longrightarrow> (of_nat c :: uptr) < kNumberOfSizeClasses"
  by (simp_all add: class_lt unat_of_nat)

lemma n_frames_lt: "fs_ok fs \<Longrightarrow> n_frames fs c \<le> 2 ^ 22"
proof -
  assume "fs_ok fs"
  then have "(10 - c) + (unat (stack_size_log fs) - 16) \<le> 22" by (auto simp: fs_ok_def log_ok_def)
  then show ?thesis unfolding n_frames_def frames_of_pow2 by (intro power_increasing) simp_all
qed

lemma gc_frame_frees:
  assumes fs: "fs_ok fs" and c: "c \<le> 10" "i < n_frames fs c"
  shows "frees fs (gc_frame rs (of_nat c) i fs) {f. f = (c, i) \<and> old_frame rs fs f}"
proof -
  have i: "unat (of_nat i :: uptr) = i"
    unfolding unat_of_nat using c(2) n_frames_lt [OF fs, of c] by (intro mod_less) simp
  note N = of_nat_class [OF c(1)]
  have e: "GetFlags fs (stack_size_log fs) (of_nat c) + of_nat i = flagw fs c i"
    "GetFrame fs (stack_size_log fs) (of_nat c) (of_nat i) = framew fs c i"
    using GetFlags_eq [OF fs N(2), of "of_nat i"] GetFrame_eq [OF fs N(2), of "of_nat i"] by (simp_all only: i N(1))
  show ?thesis
  proof (cases "flag_bytes fs (flagw fs c i) \<noteq> 0 \<and> old_frame rs fs (c, i)")
    case True
    then show ?thesis using live_set_flag [OF fs c, of 0] by (auto simp: gc_frame_def Let_def e frees_def old_frame_def)
  next
    case False
    then have "gc_frame rs (of_nat c) i fs = fs" by (auto simp: gc_frame_def Let_def e old_frame_def)
    moreover have "live fs \<inter> {f. f = (c, i) \<and> old_frame rs fs f} = {}" using False by (auto simp: live_def)
    ultimately show ?thesis by (simp add: frees_refl)
  qed
qed

lemma gc_frames_frees:
  assumes "fs_ok fs" "c \<le> 10" "n \<le> n_frames fs c"
  shows "frees fs (fold (gc_frame rs (of_nat c)) [0..<n] fs) {f. fst f = c \<and> snd f < n \<and> old_frame rs fs f}"
  using assms(3)
proof (induction n)
  case 0
  then show ?case by (simp add: frees_refl)
next
  case (Suc n)
  let ?fs = "fold (gc_frame rs (of_nat c)) [0..<n] fs"
  have IH: "frees fs ?fs {f. fst f = c \<and> snd f < n \<and> old_frame rs fs f}" using Suc by simp
  note S = frees_same [OF IH]
  have D: "{f. fst f = c \<and> snd f < n \<and> old_frame rs fs f} \<union> {f. f = (c, n) \<and> old_frame rs fs f}
      = {f. fst f = c \<and> snd f < Suc n \<and> old_frame rs fs f}" by (auto simp: less_Suc_eq)
  have "frees ?fs (gc_frame rs (of_nat c) n ?fs) {f. f = (c, n) \<and> old_frame rs fs f}"
    using gc_frame_frees [of ?fs c n rs] assms(1,2) Suc.prems by (simp add: S)
  from frees_trans [OF IH this, unfolded D] show ?case by simp
qed

lemma gc_class_frees:
  assumes "fs_ok fs" "c \<le> 10"
  shows "frees fs (gc_class rs c fs) {f. fst f = c \<and> snd f < n_frames fs c \<and> old_frame rs fs f}"
proof -
  have "log_ok (stack_size_log fs)" using assms(1) by (simp add: fs_ok_def)
  from unat_NumberOfFrames [OF this of_nat_class(2) [OF assms(2)]]
  have "unat (NumberOfFrames (stack_size_log fs) (of_nat c)) = n_frames fs c"
    by (simp only: n_frames_def of_nat_class(1) [OF assms(2)])
  then show ?thesis using gc_frames_frees [OF assms order_refl] by (simp add: gc_class_def)
qed

lemma gc_classes_frees:
  assumes "fs_ok fs" "n \<le> 11"
  shows "frees fs (fold (gc_class rs) [0..<n] fs) {f. fst f < n \<and> snd f < n_frames fs (fst f) \<and> old_frame rs fs f}"
  using assms(2)
proof (induction n)
  case 0
  then show ?case by (simp add: frees_refl)
next
  case (Suc n)
  let ?fs = "fold (gc_class rs) [0..<n] fs"
  have IH: "frees fs ?fs {f. fst f < n \<and> snd f < n_frames fs (fst f) \<and> old_frame rs fs f}" using Suc by simp
  note S = frees_same [OF IH]
  have D: "{f. fst f < n \<and> snd f < n_frames fs (fst f) \<and> old_frame rs fs f} \<union> {f. fst f = n \<and> snd f < n_frames fs n \<and> old_frame rs fs f}
      = {f. fst f < Suc n \<and> snd f < n_frames fs (fst f) \<and> old_frame rs fs f}" by (auto simp: less_Suc_eq)
  have "frees ?fs (gc_class rs n ?fs) {f. fst f = n \<and> snd f < n_frames fs n \<and> old_frame rs fs f}"
    using gc_class_frees [of ?fs n rs] assms(1) Suc.prems by (simp add: S)
  from frees_trans [OF IH this, unfolded D] show ?case by simp
qed

text \<open>The collection frees the frames whose function ran below the current stack pointer.\<close>

lemma fake_GC_ok:
  assumes "fs_ok fs"
  shows "\<exists>fb. fake_GC rs fs = fs\<lparr>flag_bytes := fb, needs_gc := False\<rparr>" "live (fake_GC rs fs) = {f \<in> live fs. \<not> old_frame rs fs f}"
proof -
  have "unat kNumberOfSizeClasses = 11" by (simp add: fake_consts)
  then have "frees fs (fold (gc_class rs) [0..<unat kNumberOfSizeClasses] fs) {f. fst f < 11 \<and> snd f < n_frames fs (fst f) \<and> old_frame rs fs f}"
    using gc_classes_frees [OF assms, of 11 rs] by simp
  then show "\<exists>fb. fake_GC rs fs = fs\<lparr>flag_bytes := fb, needs_gc := False\<rparr>" "live (fake_GC rs fs) = {f \<in> live fs. \<not> old_frame rs fs f}"
    by (auto simp: frees_def fake_GC_def live_def)
qed

section \<open>Allocation\<close>

text \<open>The state in which the frame \<open>i\<close> of the class \<open>c\<close> was taken.\<close>

definition taken :: "fake_stack \<Rightarrow> nat \<Rightarrow> nat \<Rightarrow> uptr \<Rightarrow> uptr list \<Rightarrow> fake_stack" where
  "taken fs c i real_stack h =
     fs\<lparr>hint_position := h, flag_bytes := (flag_bytes fs)(flagw fs c i := 1),
        frame_words := (frame_words fs)(real_stack_field (framew fs c i) := real_stack, saved_word fs c i := flagw fs c i)\<rparr>"

lemma mod_Suc_hint:
  fixes x :: uptr
  assumes "16 \<le> l" "l \<le> 28"
  shows "(unat (x + 1) + k) mod frames_of l c = (unat x + Suc k) mod frames_of l c"
proof -
  have "(10 - c) + (l - 16) \<le> 64" using assms by arith
  then have d: "frames_of l c dvd 2 ^ 64" unfolding frames_of_pow2 by (rule le_imp_power_dvd)
  have "unat (x + 1) = (unat x + 1) mod 2 ^ 64" by (simp add: unat_word_ariths)
  then have "unat (x + 1) mod frames_of l c = (unat x + 1) mod frames_of l c" using d by (simp only: mod_mod_cancel)
  then show ?thesis by (metis add.assoc mod_add_left_eq plus_1_eq_Suc)
qed

lemma allocate_loop_ok:
  assumes "fs_ok fs" and c: "class_id < kNumberOfSizeClasses"
  shows "\<exists>h. length h = 11 \<and>
    (allocate_loop (stack_size_log fs) class_id rs n fs = (fs\<lparr>hint_position := h\<rparr>, 0)
       \<and> (\<forall>k < n. (unat class_id, (unat (hint_position fs ! unat class_id) + k) mod n_frames fs (unat class_id)) \<in> live fs)
     \<or> (\<exists>i < n_frames fs (unat class_id). (unat class_id, i) \<notin> live fs
         \<and> allocate_loop (stack_size_log fs) class_id rs n fs = (taken fs (unat class_id) i rs h, framew fs (unat class_id) i)))"
  using assms(1)
proof (induction n arbitrary: fs)
  case 0
  then show ?case by (intro exI [of _ "hint_position fs"]) (simp add: fs_ok_def)
next
  case (Suc n)
  let ?c = "unat class_id"
  let ?x = "hint_position fs ! ?c"
  let ?pos = "ModuloNumberOfFrames (stack_size_log fs) class_id ?x" and ?h = "(hint_position fs)[?c := ?x + 1]"
  let ?fs = "fs\<lparr>hint_position := ?h\<rparr>"
  have c10: "?c \<le> 10" using class_nat [OF c] .
  have len: "length (hint_position fs) = 11" using Suc.prems by (simp add: fs_ok_def)
  then have ok: "fs_ok ?fs" using Suc.prems by simp
  have pos: "unat ?pos = unat ?x mod n_frames fs ?c" using Modulo_eq [OF Suc.prems c] .
  have N: "0 < n_frames fs ?c" by (simp add: n_frames_def frames_of_pow2)
  then have pN: "unat ?pos < n_frames fs ?c" unfolding pos by simp
  have f: "GetFlags ?fs (stack_size_log fs) class_id + ?pos = flagw fs ?c (unat ?pos)"
    "GetFrame ?fs (stack_size_log fs) class_id ?pos = framew fs ?c (unat ?pos)"
    using GetFlags_eq [OF ok c, of ?pos] GetFrame_eq [OF ok c, of ?pos] by simp_all
  show ?case
  proof (cases "flag_bytes fs (flagw fs ?c (unat ?pos)) = 0")
    case True
    then have "(?c, unat ?pos) \<notin> live fs" by (simp add: live_def)
    moreover have "allocate_loop (stack_size_log fs) class_id rs (Suc n) fs = (taken fs ?c (unat ?pos) rs ?h, framew fs ?c (unat ?pos))"
      using True by (simp add: Let_def f taken_def saved_word_def)
    ultimately show ?thesis using pN len by (intro exI [of _ ?h]) auto
  next
    case False
    then have L: "(?c, unat ?x mod n_frames fs ?c) \<in> live fs" using c10 pN by (simp add: live_def pos)
    have run: "allocate_loop (stack_size_log fs) class_id rs (Suc n) fs = allocate_loop (stack_size_log fs) class_id rs n ?fs"
      using False by (simp add: Let_def f)
    have hint: "?h ! ?c = ?x + 1" using len c10 by simp
    have l: "16 \<le> unat (stack_size_log fs)" "unat (stack_size_log fs) \<le> 28" using Suc.prems by (simp_all add: fs_ok_def log_ok_def)
    have shift: "(unat (?x + 1) + k) mod n_frames fs ?c = (unat ?x + Suc k) mod n_frames fs ?c" for k
      unfolding n_frames_def by (rule mod_Suc_hint [OF l])
    have all: "(?c, (unat ?x + k) mod n_frames fs ?c) \<in> live fs"
      if "\<forall>k < n. (?c, (unat ?x + Suc k) mod n_frames fs ?c) \<in> live fs" "k < Suc n" for k
      using that L by (cases k) auto
    have tk: "taken ?fs ?c i rs h = taken fs ?c i rs h" for i h by (simp add: taken_def)
    obtain h where h: "length h = 11"
      "allocate_loop (stack_size_log fs) class_id rs n ?fs = (fs\<lparr>hint_position := h\<rparr>, 0)
         \<and> (\<forall>k < n. (?c, (unat ?x + Suc k) mod n_frames fs ?c) \<in> live fs)
       \<or> (\<exists>i < n_frames fs ?c. (?c, i) \<notin> live fs
           \<and> allocate_loop (stack_size_log fs) class_id rs n ?fs = (taken fs ?c i rs h, framew fs ?c i))"
      using Suc.IH [OF ok] by (simp add: shift hint tk) blast
    show ?thesis
      by (intro exI [of _ h] conjI h(1)) (use h(2) all in \<open>unfold run, blast\<close>)
  qed
qed

lemma bytes_of_64: "64 \<le> bytes_of c"
  by (simp add: bytes_of_def)

lemma unat_frame_fields:
  assumes "fs_ok fs" "c \<le> 10" "i < n_frames fs c"
  shows "unat (real_stack_field (framew fs c i)) = frame_addr fs c i + 24"
    "unat (saved_word fs c i) = frame_addr fs c i + bytes_of c - 8"
proof -
  note F = frame_within(4) [OF assms] unat_framew [OF assms] bytes_of_64 [of c]
  show "unat (real_stack_field (framew fs c i)) = frame_addr fs c i + 24"
    unfolding real_stack_field_def using F by (subst unat_add_nowrap) simp_all
  have b: "unat (BytesInSizeClass (of_nat c)) = bytes_of c"
    using unat_BytesInSizeClass [OF of_nat_class(2) [OF assms(2)]] by (simp only: of_nat_class(1) [OF assms(2)])
  have "unat (framew fs c i + BytesInSizeClass (of_nat c)) = frame_addr fs c i + bytes_of c"
    using F b by (subst unat_add_nowrap) simp_all
  then show "unat (saved_word fs c i) = frame_addr fs c i + bytes_of c - 8"
    unfolding saved_word_def SavedFlagPtr_def using F by (subst unat_minus_const) simp_all
qed

text \<open>The words the runtime keeps in different frames are different.\<close>

lemma saved_words_differ:
  assumes "fs_ok fs" "c \<le> 10" "i < n_frames fs c" "d \<le> 10" "j < n_frames fs d" "(d, j) \<noteq> (c, i)"
  shows "saved_word fs d j \<noteq> saved_word fs c i" "saved_word fs d j \<noteq> real_stack_field (framew fs c i)"
proof -
  note U = unat_frame_fields [OF assms(1,2,3)] unat_frame_fields [OF assms(1,4,5)] bytes_of_64 [of c] bytes_of_64 [of d]
  have "frame_addr fs c i + bytes_of c \<le> frame_addr fs d j \<or> frame_addr fs d j + bytes_of d \<le> frame_addr fs c i"
    using frames_apart [OF assms(1-5)] assms(6) by metis
  then have "unat (saved_word fs d j) \<noteq> unat (saved_word fs c i)" "unat (saved_word fs d j) \<noteq> unat (real_stack_field (framew fs c i))"
    using U by linarith+
  then show "saved_word fs d j \<noteq> saved_word fs c i" "saved_word fs d j \<noteq> real_stack_field (framew fs c i)" by auto
qed

lemma real_stack_differs:
  assumes "fs_ok fs" "c \<le> 10" "i < n_frames fs c"
  shows "real_stack_field (framew fs c i) \<noteq> saved_word fs c i"
proof -
  have "unat (real_stack_field (framew fs c i)) \<noteq> unat (saved_word fs c i)"
    using unat_frame_fields [OF assms] bytes_of_64 [of c] by linarith
  then show ?thesis by auto
qed

lemma taken_ok:
  assumes inv: "fs_inv fs" and c: "c \<le> 10" "i < n_frames fs c" and h: "length h = 11"
  shows "fs_inv (taken fs c i rs h)" "live (taken fs c i rs h) = insert (c, i) (live fs)"
    "frame_words (taken fs c i rs h) (real_stack_field (framew fs c i)) = rs"
proof -
  have ok: "fs_ok fs" using inv by (simp add: fs_inv_def)
  have "taken fs c i rs h = (fs\<lparr>flag_bytes := (flag_bytes fs)(flagw fs c i := 1)\<rparr>)\<lparr>hint_position := h,
      frame_words := (frame_words fs)(real_stack_field (framew fs c i) := rs, saved_word fs c i := flagw fs c i)\<rparr>"
    by (simp add: taken_def)
  then show L: "live (taken fs c i rs h) = insert (c, i) (live fs)"
    using live_set_flag [OF ok c, of 1] by simp
  show "frame_words (taken fs c i rs h) (real_stack_field (framew fs c i)) = rs"
    using real_stack_differs [OF ok c] by (simp add: taken_def)
  have "frame_words (taken fs c i rs h) (saved_word fs d j) = flagw fs d j" if "(d, j) \<in> insert (c, i) (live fs)" for d j
  proof (cases "(d, j) = (c, i)")
    case False
    then have "(d, j) \<in> live fs" using that by blast
    then have "d \<le> 10" "j < n_frames fs d" "frame_words fs (saved_word fs d j) = flagw fs d j"
      using inv by (auto simp: live_def fs_inv_def)
    then show ?thesis using saved_words_differ [OF ok c _ _ False] by (simp add: taken_def)
  qed (simp add: taken_def)
  moreover have "fs_ok (taken fs c i rs h)" "flagw (taken fs c i rs h) = flagw fs" "saved_word (taken fs c i rs h) = saved_word fs"
    using ok h by (simp_all add: taken_def)
  ultimately show "fs_inv (taken fs c i rs h)" unfolding fs_inv_def L by auto
qed

lemma Deallocate_ok:
  assumes inv: "fs_inv fs" and f: "(c, i) \<in> live fs"
  shows "fs_inv (fake_Deallocate (framew fs c i) (of_nat c) fs)"
    "live (fake_Deallocate (framew fs c i) (of_nat c) fs) = live fs - {(c, i)}"
proof -
  have ok: "fs_ok fs" and c: "c \<le> 10" "i < n_frames fs c" and w: "frame_words fs (saved_word fs c i) = flagw fs c i"
    using inv f by (auto simp: fs_inv_def live_def)
  have D: "fake_Deallocate (framew fs c i) (of_nat c) fs = fs\<lparr>flag_bytes := (flag_bytes fs)(flagw fs c i := 0)\<rparr>"
    by (simp add: fake_Deallocate_def saved_word_def [symmetric] w)
  show L: "live (fake_Deallocate (framew fs c i) (of_nat c) fs) = live fs - {(c, i)}"
    unfolding D using live_set_flag [OF ok c, of 0] by simp
  then show "fs_inv (fake_Deallocate (framew fs c i) (of_nat c) fs)" using inv ok unfolding fs_inv_def L D by auto
qed

lemma all_positions:
  fixes N :: nat
  assumes "0 < N" and "\<forall>k < N. P ((x + k) mod N)" and "i < N"
  shows "P i"
proof -
  have "N * (x div N + 1) = N * (x div N) + N" by simp
  then have "x + (i + (N - x mod N)) = N * (x div N + 1) + i"
    using mod_less_divisor [OF assms(1), of x] mult_div_mod_eq [of N x] by linarith
  then have "(x + (i + (N - x mod N))) mod N = i" using assms(3) by (simp only: mod_mult_self4 mod_less)
  then have "(x + (i + (N - x mod N)) mod N) mod N = i" by (simp only: mod_add_right_eq)
  then show ?thesis using assms(1,2) by (metis mod_less_divisor)
qed

lemma collected_ok:
  assumes "fs_inv fs" and fs1_def: "fs1 = (if needs_gc fs then fake_GC rs fs else fs)"
  shows "fs_inv fs1" "live fs1 = (if needs_gc fs then {f \<in> live fs. \<not> old_frame rs fs f} else live fs)" "\<not> needs_gc fs1"
    "flagw fs1 = flagw fs" "framew fs1 = framew fs" "n_frames fs1 = n_frames fs" "stack_size_log fs1 = stack_size_log fs"
proof -
  have ok: "fs_ok fs" using assms(1) by (simp add: fs_inv_def)
  obtain fb where fb: "fake_GC rs fs = fs\<lparr>flag_bytes := fb, needs_gc := False\<rparr>" using fake_GC_ok(1) [OF ok] by blast
  show L: "live fs1 = (if needs_gc fs then {f \<in> live fs. \<not> old_frame rs fs f} else live fs)"
    using fake_GC_ok(2) [OF ok] by (simp add: fs1_def)
  show "\<not> needs_gc fs1" "flagw fs1 = flagw fs" "framew fs1 = framew fs" "n_frames fs1 = n_frames fs" "stack_size_log fs1 = stack_size_log fs"
    by (simp_all add: fs1_def fb)
  have "saved_word fs1 = saved_word fs" "frame_words fs1 = frame_words fs" "fs_ok fs1" "flagw fs1 = flagw fs"
    using ok by (simp_all add: fs1_def fb)
  then show "fs_inv fs1" using assms(1) unfolding fs_inv_def L by auto
qed

lemma num_iter_ok:
  assumes "fs_ok fs" "class_id < kNumberOfSizeClasses"
  shows "nat (sint (ucast (NumberOfFrames (stack_size_log fs) class_id) :: 32 word)) = n_frames fs (unat class_id)"
proof -
  have N: "unat (NumberOfFrames (stack_size_log fs) class_id) = n_frames fs (unat class_id)"
    using unat_NumberOfFrames [OF _ assms(2)] assms(1) by (simp add: fs_ok_def n_frames_def)
  have small: "n_frames fs (unat class_id) \<le> 2 ^ 22" using n_frames_lt [OF assms(1)] .
  have u: "unat (ucast (NumberOfFrames (stack_size_log fs) class_id) :: 32 word) = n_frames fs (unat class_id)"
    using small N by (simp add: unsigned_ucast_eq take_bit_nat_eq_self)
  let ?n = "ucast (NumberOfFrames (stack_size_log fs) class_id) :: 32 word"
  have "sint ?n = int (unat ?n)" using small by (intro sint_below) (simp add: u)
  then show ?thesis unfolding u by simp
qed

lemma allocate_run:
  assumes "fs_inv fs" and "class_id < kNumberOfSizeClasses"
  shows "\<exists>fs' r. fake_Allocate (stack_size_log fs) class_id rs fs = Inr (fs', r) \<and> fs_inv fs' \<and>
    (let kept = (if needs_gc fs then {f \<in> live fs. \<not> old_frame rs fs f} else live fs); c = unat class_id in
       (r = 0 \<and> live fs' = kept \<and> (\<forall>i < n_frames fs c. (c, i) \<in> kept))
     \<or> (\<exists>i < n_frames fs c. r = framew fs c i \<and> r \<noteq> 0 \<and> (c, i) \<notin> kept \<and> live fs' = insert (c, i) kept
          \<and> frame_words fs' (real_stack_field r) = rs
          \<and> (\<forall>(d, j) \<in> kept. unat r + bytes_of c \<le> unat (framew fs d j) \<or> unat (framew fs d j) + bytes_of d \<le> unat r)))
    \<and> (\<forall>(d, j) \<in> live fs'. fs_inv (fake_Deallocate (framew fs' d j) (of_nat d) fs')
          \<and> live (fake_Deallocate (framew fs' d j) (of_nat d) fs') = live fs' - {(d, j)})"
proof -
  define kept where "kept = (if needs_gc fs then {f \<in> live fs. \<not> old_frame rs fs f} else live fs)"
  define fs1 where "fs1 = (if needs_gc fs then fake_GC rs fs else fs)"
  note K = collected_ok [OF assms(1) fs1_def, folded kept_def]
  let ?c = "unat class_id"
  have ok: "fs_ok fs1" "fs_ok fs" using K(1) assms(1) by (simp_all add: fs_inv_def)
  have c10: "?c \<le> 10" using class_nat [OF assms(2)] .
  have N: "0 < n_frames fs ?c" by (simp add: n_frames_def frames_of_pow2)
  have run: "fake_Allocate (stack_size_log fs) class_id rs fs = Inr (allocate_loop (stack_size_log fs1) class_id rs (n_frames fs1 ?c) fs1)"
    using assms(2) num_iter_ok [OF ok(2) assms(2)] by (simp add: fake_Allocate_def Let_def fs1_def [symmetric] K(6,7))
  have dealloc: "\<forall>(d, j) \<in> live fs'. fs_inv (fake_Deallocate (framew fs' d j) (of_nat d) fs')
      \<and> live (fake_Deallocate (framew fs' d j) (of_nat d) fs') = live fs' - {(d, j)}" if "fs_inv fs'" for fs'
    using Deallocate_ok [OF that] by auto
  obtain h where h: "length h = 11"
    "allocate_loop (stack_size_log fs1) class_id rs (n_frames fs1 ?c) fs1 = (fs1\<lparr>hint_position := h\<rparr>, 0)
       \<and> (\<forall>k < n_frames fs1 ?c. (?c, (unat (hint_position fs1 ! ?c) + k) mod n_frames fs1 ?c) \<in> live fs1)
     \<or> (\<exists>i < n_frames fs1 ?c. (?c, i) \<notin> live fs1
         \<and> allocate_loop (stack_size_log fs1) class_id rs (n_frames fs1 ?c) fs1 = (taken fs1 ?c i rs h, framew fs1 ?c i))"
    using allocate_loop_ok [OF ok(1) assms(2), of rs "n_frames fs1 ?c"] by blast
  consider (full) "allocate_loop (stack_size_log fs1) class_id rs (n_frames fs1 ?c) fs1 = (fs1\<lparr>hint_position := h\<rparr>, 0)"
      "\<forall>k < n_frames fs1 ?c. (?c, (unat (hint_position fs1 ! ?c) + k) mod n_frames fs1 ?c) \<in> live fs1"
    | (found) i where "i < n_frames fs1 ?c" "(?c, i) \<notin> live fs1"
      "allocate_loop (stack_size_log fs1) class_id rs (n_frames fs1 ?c) fs1 = (taken fs1 ?c i rs h, framew fs1 ?c i)"
    using h(2) by blast
  then show ?thesis
  proof cases
    case full
    have "\<forall>i < n_frames fs ?c. (?c, i) \<in> kept"
      using all_positions [OF N, of "\<lambda>i. (?c, i) \<in> kept"] full(2) K(2,6) by metis
    moreover have inv: "fs_inv (fs1\<lparr>hint_position := h\<rparr>)" using K(1) h(1) by (simp add: fs_inv_def)
    moreover have "live (fs1\<lparr>hint_position := h\<rparr>) = kept" using K(2) by simp
    ultimately show ?thesis
      unfolding kept_def [symmetric] Let_def using run full(1) dealloc [OF inv]
      by (intro exI [of _ "fs1\<lparr>hint_position := h\<rparr>"] exI [of _ 0]) simp
  next
    case found
    have i: "i < n_frames fs ?c" "(?c, i) \<notin> kept" using found K(2,6) by simp_all
    let ?fs' = "taken fs1 ?c i rs h"
    note T = taken_ok [OF K(1) c10 found(1) h(1), of rs]
    have u: "unat (framew fs d j) = frame_addr fs d j" if "d \<le> 10" "j < n_frames fs d" for d j using unat_framew [OF ok(2) that] .
    have "0 < frame_addr fs ?c i" using ok(2) by (simp add: fs_ok_def frame_addr_def frames_base_def flags_base_def)
    then have nz: "framew fs ?c i \<noteq> 0" using u [OF c10 i(1)] by (auto simp: word_unat_eq_iff)
    have "unat (framew fs ?c i) + bytes_of ?c \<le> unat (framew fs d j) \<or> unat (framew fs d j) + bytes_of d \<le> unat (framew fs ?c i)"
      if "(d, j) \<in> kept" for d j
    proof -
      have d: "d \<le> 10" "j < n_frames fs d" "(?c, i) \<noteq> (d, j)" using that i(2) by (auto simp: kept_def live_def split: if_splits)
      then show ?thesis using frames_apart [OF ok(2) c10 i(1)] u c10 i(1) by simp
    qed
    moreover have "live ?fs' = insert (?c, i) kept" "frame_words ?fs' (real_stack_field (framew fs ?c i)) = rs"
      using T(2,3) K(2,5) by simp_all
    ultimately show ?thesis
      unfolding kept_def [symmetric] Let_def using run found(3) i nz dealloc [OF T(1)] T(1) K(5)
      by (intro exI [of _ ?fs'] exI [of _ "framew fs ?c i"]) auto
  qed
qed

lemma fake_stack_allocate_run:
  assumes "fs_inv fs" and "class_id < kNumberOfSizeClasses"
  shows "\<exists>fs' r. fake_Allocate (stack_size_log fs) class_id rs fs = Inr (fs', r) \<and> fs_inv fs'
    \<and> (r = 0 \<or> (\<exists>i < n_frames fs (unat class_id). r = framew fs (unat class_id) i))"
  using allocate_run [OF assms, of rs] by (auto simp: Let_def)

text \<open>
  C16. Allocation of a frame on the fake stack. Any request for one of the eleven size classes keeps the invariant.
  After a pending collection, which frees exactly the frames whose function ran below the current stack pointer, it gives a
  frame of the class that was free and marks just this one, or null when every frame of the class is taken. The frame shares no byte
  with any other allocated frame; it remembers the stack pointer, and the release of it, as of every other allocated frame, frees this frame only.
\<close>
theorem fake_stack_allocate:
  assumes "fs_inv fs" and "class_id < kNumberOfSizeClasses"
  shows "\<exists>fs' r. fake_Allocate (stack_size_log fs) class_id rs fs = Inr (fs', r) \<and> fs_inv fs' \<and>
    (let kept = (if needs_gc fs then {f \<in> live fs. \<not> old_frame rs fs f} else live fs); c = unat class_id in
       (r = 0 \<and> live fs' = kept \<and> (\<forall>i < n_frames fs c. (c, i) \<in> kept))
     \<or> (\<exists>i < n_frames fs c. r = framew fs c i \<and> r \<noteq> 0 \<and> (c, i) \<notin> kept \<and> live fs' = insert (c, i) kept
          \<and> frame_words fs' (real_stack_field r) = rs
          \<and> (\<forall>(d, j) \<in> kept. unat r + bytes_of c \<le> unat (framew fs d j) \<or> unat (framew fs d j) + bytes_of d \<le> unat r)))
    \<and> (\<forall>(d, j) \<in> live fs'. fs_inv (fake_Deallocate (framew fs' d j) (of_nat d) fs')
          \<and> live (fake_Deallocate (framew fs' d j) (of_nat d) fs') = live fs' - {(d, j)})"
  by (rule allocate_run [OF assms])

section \<open>Lookup\<close>

lemma word_of_unat: "unat (x :: uptr) = k \<Longrightarrow> x = of_nat k"
  by auto

text \<open>The lookup as arithmetic: the class is the quotient by the stack size, the frame the quotient of the rest by the frame size.\<close>

lemma lookup_run:
  fixes ptr :: uptr
  assumes ok: "fs_ok fs"
  defines "l \<equiv> unat (stack_size_log fs)" and "x \<equiv> unat ptr - frames_base fs"
  shows "AddrIsInFakeStack ptr fs =
    (if unat ptr < frames_base fs \<or> frames_base fs + 11 * 2 ^ l \<le> unat ptr then Inr None
     else let c = x div 2 ^ l; f = framew fs c (x mod 2 ^ l div bytes_of c) in Inr (Some (f, f + 32, f + BytesInSizeClass (of_nat c))))"
proof -
  let ?log = "stack_size_log fs" and ?B = "frames_base fs"
  have l: "log_ok ?log" "16 \<le> l" "l \<le> 28" using ok by (simp_all add: fs_ok_def log_ok_def l_def)
  have max: "?B + 11 * 2 ^ l < 2 ^ 63" using ok by (simp add: fs_ok_def frames_base_def flags_base_def l_def)
  have small: "unat (of_nat k :: uptr) = k" if "k < 2 ^ 63" for k using that by (intro unat_of_nat_small) simp
  have beg: "GetFrame fs ?log 0 0 = of_nat ?B" using GetFrame_eq [OF ok, of 0 0] by (simp add: class_lt framew_def frame_addr_def)
  have pow: "shl 1 ?log = of_nat (2 ^ l)" by (simp add: shl_def push_bit_eq_mult l_def)
  have flags: "SizeRequiredForFlags ?log = of_nat (2 ^ 11 * 2 ^ (l - 16))"
    unfolding l_def unat_SizeRequiredForFlags [OF l(1), symmetric] by simp
  have "end": "this fs + RequiredSize ?log = of_nat (?B + 11 * 2 ^ l)"
    by (simp add: RequiredSize_def SizeRequiredForFrames_def pow flags fake_consts frames_base_def flags_base_def l_def [symmetric])
  have out: "(ptr < of_nat ?B \<or> ptr \<ge> of_nat (?B + 11 * 2 ^ l)) \<longleftrightarrow> (unat ptr < ?B \<or> ?B + 11 * 2 ^ l \<le> unat ptr)"
    using max small by (simp add: word_less_nat_alt word_le_nat_alt del: of_nat_add of_nat_mult)
  show ?thesis
  proof (cases "unat ptr < ?B \<or> ?B + 11 * 2 ^ l \<le> unat ptr")
    case True
    then show ?thesis unfolding AddrIsInFakeStack_def Let_def beg "end" out by simp
  next
    case False
    define c r where "c = x div 2 ^ l" and "r = x mod 2 ^ l"
    have x: "2 ^ l * c + r = x" "unat ptr = ?B + x" "x < 11 * 2 ^ l" using False by (simp_all add: c_def r_def x_def, linarith)
    then have p: "unat ptr = ?B + (2 ^ l * c + r)" "r < 2 ^ l" "2 ^ l * c + r < 11 * 2 ^ l" by (simp_all add: r_def)
    then have "2 ^ l * c < 2 ^ l * 11" by linarith
    then have c: "c \<le> 10" by simp
    have base: "of_nat ?B + shl (of_nat c) ?log = of_nat (?B + 2 ^ l * c)" by (simp add: shl_def push_bit_eq_mult l_def)
    have "2 ^ l * c \<le> 2 ^ l * 10" using c by (intro mult_le_mono) simp_all
    then have bd: "?B + 2 ^ l * c + 2 ^ l < 2 ^ 63" using max by linarith
    have ub: "unat (of_nat (?B + 2 ^ l * c) :: uptr) = ?B + 2 ^ l * c" "unat (of_nat (?B + 2 ^ l * c + 2 ^ l) :: uptr) = ?B + 2 ^ l * c + 2 ^ l"
      by (rule small, use bd in linarith) (rule small [OF bd])
    have le: "(of_nat ?B :: uptr) \<le> ptr" "(of_nat (?B + 2 ^ l * c) :: uptr) \<le> ptr" "ptr < of_nat (?B + 2 ^ l * c + 2 ^ l)"
      unfolding word_le_nat_alt word_less_nat_alt ub using max p small [of ?B] by simp_all
    have "unat (drop_bit l (ptr - of_nat ?B)) = c"
      using le(1) p max small [of ?B] by (subst unat_drop_bit_eq) (simp add: drop_bit_eq_div unat_diff)
    then have cls: "drop_bit l (ptr - of_nat ?B) = of_nat c" using of_nat_class(1) [OF c] by (simp add: word_unat_eq_iff)
    have "unat (6 + of_nat c :: uptr) = 6 + c" using of_nat_class(1) [OF c] c by (subst unat_add_nowrap) simp_all
    moreover have "unat (ptr - of_nat (?B + 2 ^ l * c)) = r" using le(2) ub(1) p(1) by (simp only: unat_diff)
    ultimately have "unat (drop_bit (unat (6 + of_nat c :: uptr)) (ptr - of_nat (?B + 2 ^ l * c))) = r div bytes_of c"
      by (subst unat_drop_bit_eq) (simp add: drop_bit_eq_div bytes_of_def power_add)
    then have pos: "drop_bit (unat (6 + of_nat c :: uptr)) (ptr - of_nat (?B + 2 ^ l * c)) = of_nat (r div bytes_of c)"
      by (rule word_of_unat)
    have "BytesInSizeClass (of_nat c) = of_nat (bytes_of c)"
      using unat_BytesInSizeClass [OF of_nat_class(2) [OF c]] unfolding of_nat_class(1) [OF c] by (rule word_of_unat)
    then have res: "of_nat (?B + 2 ^ l * c) + of_nat (r div bytes_of c) * BytesInSizeClass (of_nat c) = framew fs c (r div bytes_of c)"
      by (simp add: framew_def frame_addr_def l_def [symmetric])
    have ck: "of_nat (?B + 2 ^ l * c) + shl 1 ?log = of_nat (?B + 2 ^ l * c + 2 ^ l)" by (simp add: pow)
    show ?thesis
      using False le(2,3) unfolding AddrIsInFakeStack_def Let_def beg "end" out l_def [symmetric] cls base ck
        kMinStackFrameSizeLog_def pos res c_def [symmetric] r_def [symmetric] by (simp del: of_nat_add of_nat_mult)
  qed
qed

lemma frame_size_pow: "bytes_of c = 2 ^ (6 + c)"
  by (simp add: bytes_of_def power_add)

lemma lookup_cases:
  assumes ok: "fs_ok fs" and x: "frames_base fs \<le> p" "p < frames_base fs + 11 * 2 ^ unat (stack_size_log fs)"
  defines "c \<equiv> (p - frames_base fs) div 2 ^ unat (stack_size_log fs)"
  defines "i \<equiv> (p - frames_base fs) mod 2 ^ unat (stack_size_log fs) div bytes_of c"
  shows "c \<le> 10" "i < n_frames fs c" "frame_addr fs c i \<le> p" "p < frame_addr fs c i + bytes_of c"
proof -
  let ?l = "unat (stack_size_log fs)"
  define y where "y = p - frames_base fs"
  have l: "16 \<le> ?l" using ok by (simp add: fs_ok_def log_ok_def)
  have y: "p = frames_base fs + y" "y < 11 * 2 ^ ?l" using x by (simp_all add: y_def)
  then show c: "c \<le> 10" by (simp add: c_def y_def [symmetric] less_Suc_eq_le [symmetric] div_less_iff_less_mult)
  have b: "0 < bytes_of c" by (simp add: bytes_of_def)
  have "y mod 2 ^ ?l < n_frames fs c * bytes_of c" using frames_bytes [OF l c] by (simp add: n_frames_def)
  then show "i < n_frames fs c" using b by (simp add: i_def y_def [symmetric] div_less_iff_less_mult)
  have f: "frame_addr fs c i = frames_base fs + 2 ^ ?l * (y div 2 ^ ?l) + bytes_of c * (y mod 2 ^ ?l div bytes_of c)"
    by (simp add: frame_addr_def c_def i_def y_def)
  have "y mod 2 ^ ?l = bytes_of c * (y mod 2 ^ ?l div bytes_of c) + y mod 2 ^ ?l mod bytes_of c" by simp
  moreover have "y = 2 ^ ?l * (y div 2 ^ ?l) + y mod 2 ^ ?l" by simp
  moreover have "y mod 2 ^ ?l mod bytes_of c < bytes_of c" using b by simp
  ultimately show "frame_addr fs c i \<le> p" "p < frame_addr fs c i + bytes_of c" unfolding f y(1) by linarith+
qed

text \<open>
  C33. The lookup of an address finds the frame that holds it and the bounds of its usable part, for every frame of the fake
  stack, and no frame for every address outside of them.
\<close>
theorem fake_stack_lookup:
  assumes "fs_ok fs"
  shows "(\<forall>c \<le> 10. \<forall>i < n_frames fs c. frame_addr fs c i \<le> unat ptr \<and> unat ptr < frame_addr fs c i + bytes_of c \<longrightarrow>
      AddrIsInFakeStack ptr fs = Inr (Some (framew fs c i, framew fs c i + 32, framew fs c i + BytesInSizeClass (of_nat c))))
    \<and> ((\<forall>c \<le> 10. \<forall>i < n_frames fs c. \<not> (frame_addr fs c i \<le> unat ptr \<and> unat ptr < frame_addr fs c i + bytes_of c)) \<longrightarrow>
      AddrIsInFakeStack ptr fs = Inr None)"
proof (cases "frames_base fs \<le> unat ptr \<and> unat ptr < frames_base fs + 11 * 2 ^ unat (stack_size_log fs)")
  case True
  let ?c = "(unat ptr - frames_base fs) div 2 ^ unat (stack_size_log fs)"
  let ?i = "(unat ptr - frames_base fs) mod 2 ^ unat (stack_size_log fs) div bytes_of ?c"
  note L = lookup_cases [OF assms True [THEN conjunct1] True [THEN conjunct2]]
  have run: "AddrIsInFakeStack ptr fs = Inr (Some (framew fs ?c ?i, framew fs ?c ?i + 32, framew fs ?c ?i + BytesInSizeClass (of_nat ?c)))"
    using lookup_run [OF assms, of ptr] True by (simp add: Let_def)
  have "c = ?c \<and> i = ?i" if "c \<le> 10" "i < n_frames fs c" "frame_addr fs c i \<le> unat ptr" "unat ptr < frame_addr fs c i + bytes_of c" for c i
  proof (rule ccontr)
    assume "\<not> ?thesis"
    then have "(c, i) \<noteq> (?c, ?i)" by simp
    from frames_apart [OF assms that(1,2) L(1,2) this] show False using that(3,4) L(3,4) by linarith
  qed
  then show ?thesis using run L by blast
next
  case False
  then have "AddrIsInFakeStack ptr fs = Inr None" using lookup_run [OF assms, of ptr] by auto
  moreover have "\<not> (frame_addr fs c i \<le> unat ptr \<and> unat ptr < frame_addr fs c i + bytes_of c)" if "c \<le> 10" "i < n_frames fs c" for c i
    using False frame_within(1,3) [OF assms that] by linarith
  ultimately show ?thesis by blast
qed

section \<open>Use after return\<close>

lemma memset_Suc:
  assumes "unat a + Suc n \<le> 2 ^ 63"
  shows "memset (a + 1) v (of_nat n) (m(a := v)) = memset a v (of_nat (Suc n)) m"
proof
  fix b
  have n: "unat (of_nat n :: uptr) = n" "unat (of_nat (Suc n) :: uptr) = Suc n" using assms by (simp_all add: unat_of_nat_small del: of_nat_Suc)
  have a: "unat (a + 1) = unat a + 1" using assms by (simp add: unat_add_nowrap)
  show "memset (a + 1) v (of_nat n) (m(a := v)) b = memset a v (of_nat (Suc n)) m b"
    using assms by (subst (1 2) memset_iff) (auto simp: a n word_unat_eq_iff simp del: of_nat_Suc)
qed

lemma store_le_memset:
  assumes "unat a + n \<le> 2 ^ 63" and "\<forall>k < n. ucast (drop_bit (8 * k) x) = v"
  shows "store_le m a n x = memset a v (of_nat n) m"
  using assms
proof (induction n arbitrary: m a x)
  case (Suc n)
  have v: "ucast x = v" using Suc.prems(2) by (auto dest: spec [of _ 0])
  have "ucast (drop_bit (8 * k) (drop_bit 8 x)) = v" if "k < n" for k
    using Suc.prems(2) that by (auto dest!: spec [of _ "Suc k"] simp: drop_bit_drop_bit add.commute)
  moreover have "unat (a + 1) + n \<le> 2 ^ 63" using Suc.prems(1) by (simp add: unat_add_nowrap)
  ultimately have "store_le (m(a := v)) (a + 1) n (drop_bit 8 x) = memset (a + 1) v (of_nat n) (m(a := v))"
    by (intro Suc.IH) simp_all
  then show ?case using memset_Suc [OF Suc.prems(1)] v by simp
qed simp

lemma set_words_memset:
  assumes "unat p + 8 * n \<le> 2 ^ 62" and x: "\<forall>k < 8. ucast (drop_bit (8 * k) x) = v"
  shows "set_words p x n sh = memset p v (of_nat (8 * n)) sh"
  using assms(1)
proof (induction n arbitrary: p sh)
  case (Suc n)
  have p: "unat (p + 8) = unat p + 8" using Suc.prems by (simp add: unat_add_nowrap)
  define k1 k2 :: uptr where "k1 = of_nat (8 * n)" and "k2 = of_nat (8 * Suc n)"
  have n: "unat k1 = 8 * n" "unat k2 = 8 * Suc n"
    unfolding k1_def k2_def using Suc.prems by (intro unat_of_nat_small; simp)+
  have "store_le sh p 8 x = memset p v 8 sh" using store_le_memset [of p 8 x v sh] x Suc.prems by simp
  then have "set_words p x (Suc n) sh = memset (p + 8) v k1 (memset p v 8 sh)"
    using Suc.IH [of "p + 8"] Suc.prems p by (simp add: k1_def)
  also have "\<dots> = memset p v k2 sh"
  proof
    fix b
    show "memset (p + 8) v k1 (memset p v 8 sh) b = memset p v k2 sh b"
      using Suc.prems by (auto simp: memset_iff p n)
  qed
  finally show ?case unfolding k2_def .
qed simp

lemma memset_granules:
  assumes "8 dvd unat p" "8 dvd n" "unat p + n \<le> 2 ^ 63" "unat k = n div 8"
  shows "memset (MEM_TO_SHADOW p) v k sh (MEM_TO_SHADOW a) = (if unat p \<le> unat a \<and> unat a < unat p + n then v else sh (MEM_TO_SHADOW a))"
proof -
  obtain q r where q: "unat p = 8 * q" "n = 8 * r" using assms(1,2) by (auto elim!: dvdE)
  have "q \<le> unat a div 8 \<longleftrightarrow> 8 * q \<le> unat a" by (simp add: less_eq_div_iff_mult_less_eq mult.commute)
  moreover have "unat a div 8 < q + r \<longleftrightarrow> unat a < 8 * q + 8 * r" by (simp add: div_less_iff_less_mult algebra_simps)
  ultimately show ?thesis
    using assms(3,4) by (subst memset_iff) (simp_all add: unat_MEM_TO_SHADOW q)
qed

lemma frame_aligned:
  assumes "fs_ok fs"
  shows "64 dvd frame_addr fs c i" "64 dvd bytes_of c"
proof -
  have "16 \<le> unat (stack_size_log fs)" "4096 dvd unat (this fs)" using assms by (simp_all add: fs_ok_def log_ok_def)
  then have "(2 :: nat) ^ 6 dvd 2 ^ unat (stack_size_log fs)" by (intro le_imp_power_dvd) simp
  moreover have "64 dvd unat (this fs)" using \<open>4096 dvd unat (this fs)\<close> by (rule dvd_trans [rotated]) simp
  ultimately have "64 dvd (2 :: nat) ^ unat (stack_size_log fs) * c" "64 dvd unat (this fs)" by simp_all
  then show "64 dvd frame_addr fs c i" "64 dvd bytes_of c"
    by (auto simp: frame_addr_def frames_base_def flags_base_def bytes_of_def mult.assoc)
qed

text \<open>The frame lies in memory of the program.\<close>

definition frame_in_mem :: "cfg \<Rightarrow> fake_stack \<Rightarrow> nat \<Rightarrow> nat \<Rightarrow> bool" where
  "frame_in_mem cf fs c i \<longleftrightarrow> (\<forall>a. frame_addr fs c i \<le> unat a \<and> unat a < frame_addr fs c i + bytes_of c \<longrightarrow> AddrIsInMem cf a)"

definition touched :: "nat \<Rightarrow> uptr \<Rightarrow> nat" where
  "touched c sz = (if c \<le> 6 then bytes_of c else unat sz)"

lemma SetShadow_ok:
  assumes cf: "cfg_ok cf" and ok: "fs_ok fs" and c: "c \<le> 10" "i < n_frames fs c" and m: "frame_in_mem cf fs c i"
    and p: "CanPoisonMemory s" and sz: "6 < c \<Longrightarrow> unat sz mod 8 = 0 \<and> 0 < unat sz \<and> unat sz \<le> bytes_of c"
    and x: "\<forall>k < 8. ucast (drop_bit (8 * k) x) = v"
  shows "\<exists>s'. SetShadow cf (framew fs c i) sz (of_nat c) x s = Inr s' \<and>
    (\<forall>a. shadow s' (MEM_TO_SHADOW a) = (if frame_addr fs c i \<le> unat a \<and> unat a < frame_addr fs c i + touched c sz then v else shadow s (MEM_TO_SHADOW a)))"
proof -
  let ?p = "framew fs c i"
  have u: "unat ?p = frame_addr fs c i" using unat_framew [OF ok c] .
  have al: "64 dvd unat ?p" "8 dvd unat ?p" "8 dvd bytes_of c"
    unfolding u using frame_aligned [OF ok] by (auto intro: dvd_trans [of _ 64])
  have top: "unat ?p + bytes_of c < 2 ^ 63" unfolding u by (rule frame_within(4) [OF ok c])
  have ms: "MemToShadow cf ?p = Inr (MEM_TO_SHADOW ?p)"
    using m bytes_of_64 [of c] by (simp add: MemToShadow_def frame_in_mem_def u)
  note N = of_nat_class [OF c(1)]
  have le: "(of_nat c :: uptr) \<le> 6 \<longleftrightarrow> c \<le> 6" using N(1) by (simp add: word_le_nat_alt)
  show ?thesis
  proof (cases "c \<le> 6")
    case True
    have words: "unat (shl 1 (of_nat c)) = 2 ^ c" using N(1) c(1) by (subst unat_shl_1) simp_all
    have "8 * 2 ^ c = bytes_of c div 8" by (simp add: bytes_of_def)
    moreover have "(2 :: nat) ^ c \<le> 2 ^ 6" using True by (intro power_increasing) simp_all
    moreover have "unat (MEM_TO_SHADOW ?p) \<le> 2 ^ 61" using top by (simp add: unat_MEM_TO_SHADOW)
    ultimately have w: "set_words (MEM_TO_SHADOW ?p) x (2 ^ c) (shadow s) = memset (MEM_TO_SHADOW ?p) v (of_nat (8 * 2 ^ c)) (shadow s)"
      and n: "unat (of_nat (8 * 2 ^ c) :: uptr) = bytes_of c div 8"
      using set_words_memset [OF _ x, of "MEM_TO_SHADOW ?p" "2 ^ c" "shadow s"] by (simp, subst unat_of_nat_small, simp_all)
    have run: "SetShadow cf ?p sz (of_nat c) x s = Inr (s\<lparr>shadow := memset (MEM_TO_SHADOW ?p) v (of_nat (8 * 2 ^ c)) (shadow s)\<rparr>)"
      using True by (simp add: SetShadow_def ms le words w SHADOW_SCALE_def del: of_nat_mult of_nat_power)
    show ?thesis
      unfolding run using memset_granules [OF al(2,3) _ n] top True by (simp add: touched_def u del: of_nat_mult of_nat_power)
  next
    case False
    then have z: "unat sz mod 8 = 0" "0 < unat sz" "unat sz \<le> bytes_of c" "8 dvd unat sz" using sz by auto
    have e: "unat (?p + sz) = unat ?p + unat sz" using top z(3) by (intro unat_add_nowrap) simp
    have l8: "8 \<le> unat sz" using z(2,4) by (auto dest: dvd_imp_le)
    then have e8: "unat (?p + sz - 8) = unat ?p + unat sz - 8" using e by (subst unat_minus_const) simp_all
    have "frame_addr fs c i \<le> unat (?p + sz - 8) \<and> unat (?p + sz - 8) < frame_addr fs c i + bytes_of c"
      unfolding e8 u using l8 z(3) by linarith
    then have "AddrIsInMem cf ?p" "AddrIsInMem cf (?p + sz - 8)"
      using m bytes_of_64 [of c] by (simp_all only: frame_in_mem_def) (simp add: u)
    moreover have "unat ?p mod 8 = 0" "unat (?p + sz) mod 8 = 0" using al(2) z(1) e by (auto simp: dvd_eq_mod_eq_0 mod_add_eq [symmetric])
    moreover have "unat ?p + unat sz \<le> 2 ^ 63" using top z(3) by simp
    ultimately have ps: "PoisonShadow cf ?p sz v s = Inr (s\<lparr>shadow := memset (MEM_TO_SHADOW ?p) v (drop_bit 3 sz) (shadow s)\<rparr>)"
      using p z(1,2) by (simp add: PoisonShadow_def aligned_granularity granularity FastPoisonShadow_memset [OF cf])
    have "ucast x = v" using x by (auto dest: spec [of _ 0])
    then have run: "SetShadow cf ?p sz (of_nat c) x s = Inr (s\<lparr>shadow := memset (MEM_TO_SHADOW ?p) v (drop_bit 3 sz) (shadow s)\<rparr>)"
      using False ps by (simp add: SetShadow_def ms le SHADOW_SCALE_def)
    have n: "unat (drop_bit 3 sz) = unat sz div 8" by (subst unat_drop_bit_eq) (simp add: drop_bit_eq_div)
    show ?thesis
      unfolding run using memset_granules [OF al(2) z(4) _ n] top z(3) False by (simp add: touched_def u)
  qed
qed

lemma magic8_bytes: "\<forall>k < 8. ucast (drop_bit (8 * k) kMagic8) = (0xf5 :: u8)"
proof (intro allI impI)
  fix k :: nat assume "k < 8"
  then have "k = 0 \<or> k = 1 \<or> k = 2 \<or> k = 3 \<or> k = 4 \<or> k = 5 \<or> k = 6 \<or> k = 7" by arith
  then show "ucast (drop_bit (8 * k) kMagic8) = (0xf5 :: u8)"
    by (auto simp: kMagic8_def kMagic4_def kMagic2_def kMagic1_def kAsanStackAfterReturnMagic_def)
qed

text \<open>A frame that is handed out is addressable.\<close>

lemma OnMalloc_ok:
  assumes cf: "cfg_ok cf" and inv: "fs_inv fs" and cls: "class_id < kNumberOfSizeClasses" and p: "CanPoisonMemory s"
    and m: "\<forall>i < n_frames fs (unat class_id). frame_in_mem cf fs (unat class_id) i"
    and sz: "6 < unat class_id \<Longrightarrow> unat sz mod 8 = 0 \<and> 0 < unat sz \<and> unat sz \<le> bytes_of (unat class_id)"
  shows "\<exists>r fs' s'. OnMalloc cf rs class_id sz (Some fs) s = Inr (r, Some fs', s') \<and> fs_inv fs' \<and>
    (r \<noteq> 0 \<longrightarrow> (\<forall>a. unat r \<le> unat a \<and> unat a < unat r + touched (unat class_id) sz \<longrightarrow> \<not> AddressIsPoisoned (shadow s') a))"
proof -
  note c10 = class_nat [OF cls]
  have ok: "fs_ok fs" using inv by (simp add: fs_inv_def)
  from fake_stack_allocate_run [OF inv cls, of rs] obtain fs' r where A: "fake_Allocate (stack_size_log fs) class_id rs fs = Inr (fs', r)"
    "fs_inv fs'" "r = 0 \<or> (\<exists>i < n_frames fs (unat class_id). r = framew fs (unat class_id) i)" by blast
  show ?thesis
  proof (cases "r = 0")
    case False
    then obtain i where i: "i < n_frames fs (unat class_id)" "r = framew fs (unat class_id) i" using A(3) by blast
    have "\<forall>k < 8. ucast (drop_bit (8 * k) (0 :: u64)) = (0 :: u8)" by simp
    from SetShadow_ok [OF cf ok c10 i(1) _ p sz this] m i obtain s' where S: "SetShadow cf r sz class_id 0 s = Inr s'"
      "\<forall>a. shadow s' (MEM_TO_SHADOW a) = (if frame_addr fs (unat class_id) i \<le> unat a \<and> unat a < frame_addr fs (unat class_id) i + touched (unat class_id) sz
        then 0 else shadow s (MEM_TO_SHADOW a))" by auto
    have "unat r = frame_addr fs (unat class_id) i" using unat_framew [OF ok c10 i(1)] i(2) by simp
    then show ?thesis using A(1,2) S False by (auto simp: OnMalloc_def AddressIsPoisoned_iff)
  qed (use A(1,2) in \<open>auto simp: OnMalloc_def\<close>)
qed

text \<open>
  C17. Release of a frame of the fake stack. It frees just this frame. For the classes 0 to 6 every byte of the frame is poisoned afterwards; for
  the classes 7 to 10 the first \<open>sz\<close> bytes are, where \<open>sz\<close> is the size the caller gives. Whether any other byte is poisoned has not changed.
\<close>
theorem use_after_return:
  assumes "cfg_ok cf" and "fs_inv fs" and "(c, i) \<in> live fs" and "frame_in_mem cf fs c i" and "CanPoisonMemory s"
    and "6 < c \<Longrightarrow> unat sz mod 8 = 0 \<and> 0 < unat sz \<and> unat sz \<le> bytes_of c"
  shows "\<exists>fs' s'. OnFree cf (framew fs c i) (of_nat c) sz fs s = Inr (fs', s') \<and> fs_inv fs' \<and> live fs' = live fs - {(c, i)} \<and>
    (\<forall>a. AddressIsPoisoned (shadow s') a \<longleftrightarrow>
      frame_addr fs c i \<le> unat a \<and> unat a < frame_addr fs c i + touched c sz \<or> AddressIsPoisoned (shadow s) a)"
proof -
  have ok: "fs_ok fs" and c: "c \<le> 10" "i < n_frames fs c" using assms(2,3) by (auto simp: fs_inv_def live_def)
  from SetShadow_ok [OF assms(1) ok c assms(4,5,6) magic8_bytes] obtain s' where S: "SetShadow cf (framew fs c i) sz (of_nat c) kMagic8 s = Inr s'"
    "\<forall>a. shadow s' (MEM_TO_SHADOW a) = (if frame_addr fs c i \<le> unat a \<and> unat a < frame_addr fs c i + touched c sz then 0xf5 else shadow s (MEM_TO_SHADOW a))"
    by auto
  have "poisoned_at 0xf5 k" for k by (simp add: poisoned_at_def)
  then have "\<forall>a. AddressIsPoisoned (shadow s') a \<longleftrightarrow>
      frame_addr fs c i \<le> unat a \<and> unat a < frame_addr fs c i + touched c sz \<or> AddressIsPoisoned (shadow s) a"
    using S(2) by (simp add: AddressIsPoisoned_iff) blast
  then show ?thesis using S(1) Deallocate_ok [OF assms(2,3)] by (simp add: OnFree_def Let_def)
qed

section \<open>The redzones of \<open>alloca\<close>\<close>

definition redzone_entry :: "cfg \<Rightarrow> uptr \<Rightarrow> u8 \<Rightarrow> nat \<Rightarrow> u8" where
  "redzone_entry c sz value i =
     (if i + 8 \<le> unat sz then 0 else if i \<ge> unat sz then value else if poison_partial c then ucast (sz - of_nat i) else 0)"

lemma partial_redzone_loop_ok:
  assumes "unat s + (unat rz - i) < 2 ^ 63"
  shows "partial_redzone_loop c sz rz v i s sh a =
    (if unat s \<le> unat a \<and> 8 * (unat a - unat s) + i < unat rz then redzone_entry c sz v (8 * (unat a - unat s) + i) else sh a)"
  using assms
proof (induction c sz rz v i s sh rule: partial_redzone_loop.induct)
  case (1 c sz rz v i s sh)
  show ?case
  proof (cases "i < unat rz")
    case True
    let ?sh = "sh(s := redzone_entry c sz v i)"
    have s1: "unat (s + 1) = unat s + 1" using 1(2) True by (subst unat_add_nowrap) simp_all
    have small: "unat (s + 1) + (unat rz - (i + 8)) < 2 ^ 63" using 1(2) True s1 by simp
    note IH = 1(1) [OF True this, folded redzone_entry_def]
    have run: "partial_redzone_loop c sz rz v i s sh = partial_redzone_loop c sz rz v (i + 8) (s + 1) ?sh"
      using True by (subst partial_redzone_loop.simps) (simp add: redzone_entry_def)
    consider "a = s" | "unat a < unat s" | "unat s + 1 \<le> unat a" by (cases "unat a" "unat s" rule: linorder_cases) (auto simp: word_unat_eq_iff)
    then show ?thesis
    proof cases
      case 3
      then have e: "8 * (unat a - (unat s + 1)) + (i + 8) = 8 * (unat a - unat s) + i" and "a \<noteq> s" by auto
      then show ?thesis using 3 unfolding run IH s1 e by simp
    next
      case 1
      then show ?thesis using True unfolding run IH s1 by simp
    next
      case 2
      then show ?thesis unfolding run IH s1 by auto
    qed
  next
    case False
    then show ?thesis by (subst partial_redzone_loop.simps) simp
  qed
qed

text \<open>The partial redzone from the end \<open>e\<close> of the block up to the granule boundary \<open>r\<close>.\<close>

lemma partial_redzone_poisons:
  assumes pp: "poison_partial cf" and m: "unat sz < 8" and al: "8 dvd unat p" and rz: "8 dvd unat rz" "unat p + unat rz < 2 ^ 62"
    and v: "\<And>k. poisoned_at v k" and e: "e = unat p + unat sz"
  shows "AddressIsPoisoned (FastPoisonShadowPartialRightRedzone cf p sz rz v sh) a =
    (if unat p \<le> unat a \<and> unat a < unat p + unat rz then e \<le> unat a else AddressIsPoisoned sh a)"
proof -
  obtain q n where q: "unat p = 8 * q" "unat rz = 8 * n" using al rz(1) by (auto elim!: dvdE)
  define d where "d = unat a div 8"
  have a: "unat a = 8 * d + unat a mod 8" by (simp add: d_def)
  have in_rz: "unat p \<le> unat a \<and> unat a < unat p + unat rz \<longleftrightarrow> q \<le> d \<and> d < q + n" using a q by auto
  have u: "unat (MEM_TO_SHADOW p) = q + shadow_off" "unat (MEM_TO_SHADOW a) = d + shadow_off" by (simp_all add: unat_MEM_TO_SHADOW q d_def)
  have room: "unat (MEM_TO_SHADOW p) + (unat rz - 0) < 2 ^ 63" using rz(2) by (simp add: u q)
  have byte: "FastPoisonShadowPartialRightRedzone cf p sz rz v sh (MEM_TO_SHADOW a) =
      (if q \<le> d \<and> d < q + n then redzone_entry cf sz v (8 * (d - q)) else sh (MEM_TO_SHADOW a))"
    unfolding FastPoisonShadowPartialRightRedzone_def partial_redzone_loop_ok [OF room] u q by auto
  have "poisoned_at (redzone_entry cf sz v (8 * (d - q))) (unat a mod 8) \<longleftrightarrow> e \<le> unat a" if "q \<le> d"
  proof (cases "d = q")
    case False
    then have "e \<le> unat a" using that m a e q by auto
    then show ?thesis using False that m v by (auto simp: redzone_entry_def)
  next
    case True
    have e': "e \<le> unat a \<longleftrightarrow> unat sz \<le> unat a mod 8" using True e q a by auto
    show ?thesis
    proof (cases "unat sz = 0")
      case False
      then have "sz \<noteq> 0" by auto
      moreover have "unat (ucast sz :: u8) = unat sz" using m by (simp add: unsigned_ucast_eq take_bit_nat_eq_self)
      ultimately have "poisoned_at (ucast sz) (unat a mod 8) \<longleftrightarrow> unat sz \<le> unat a mod 8" using m by (intro partial_poisons) simp_all
      then show ?thesis using False True m pp e' by (simp add: redzone_entry_def)
    qed (use True v e' in \<open>simp add: redzone_entry_def\<close>)
  qed
  then show ?thesis unfolding AddressIsPoisoned_iff byte in_rz by auto
qed

text \<open>\<open>alloca\<close>: both redzones are poisoned, the block stays as it was but for its last granule, which is made addressable up to the end of the block.\<close>

lemma alloca_poison_ok:
  assumes cf: "cfg_ok cf" "poison_partial cf" and al: "32 dvd unat addr" "32 \<le> unat addr" and nw: "unat addr + unat sz < 2 ^ 61"
  defines "e \<equiv> unat addr + unat sz" and "r \<equiv> (unat addr + unat sz + 31) div 32 * 32"
  shows "\<exists>s'. asan_alloca_poison cf addr sz s = Inr s' \<and> (\<forall>a. AddressIsPoisoned (shadow s') a \<longleftrightarrow>
    unat addr - 32 \<le> unat a \<and> unat a < unat addr \<or> e \<le> unat a \<and> unat a < r + 32
      \<or> \<not> (e div 8 * 8 \<le> unat a \<and> unat a < e) \<and> AddressIsPoisoned (shadow s) a)"
proof -
  let ?l = "addr - kAllocaRedzoneSize" and ?p = "addr + sz"
  let ?pa = "?p AND NOT (SHADOW_GRANULARITY - 1)" and ?r = "(?p + kAllocaRedzoneMask) AND NOT kAllocaRedzoneMask"
  have up: "unat ?p = e" using nw unfolding e_def by (intro unat_add_nowrap) simp
  have ul: "unat ?l = unat addr - 32" unfolding kAllocaRedzoneSize_def using al(2) by (subst unat_minus_const) simp_all
  have m3: "SHADOW_GRANULARITY - 1 = mask 3" "kAllocaRedzoneMask = mask 5" by (simp_all add: granularity kAllocaRedzoneMask_def mask_eq_exp_minus_1)
  have upa: "unat ?pa = e div 8 * 8" unfolding m3 unat_and_not_mask up by simp
  have "unat (?p + mask 5) = e + 31" using nw up by (subst unat_add_nowrap) (simp_all add: mask_eq_exp_minus_1 e_def)
  then have ur: "unat ?r = r" unfolding m3 unat_and_not_mask by (simp add: r_def e_def)
  have um: "unat (?p mod SHADOW_GRANULARITY) = e mod 8" using up by (simp add: granularity unat_mod)
  have "e + 31 = (e + 31) div 32 * 32 + (e + 31) mod 32" "(e + 31) mod 32 < 32" by simp_all
  moreover have "r = (e + 31) div 32 * 32" by (simp add: r_def e_def)
  ultimately have er: "e \<le> r" "r < e + 32" "e div 8 * 8 \<le> e" by (linarith, linarith, simp)
  then have urz: "unat (?r - ?pa) = r - e div 8 * 8" using ur upa by (subst unat_sub) (simp_all add: word_le_nat_alt)
  have d8: "8 dvd r" unfolding r_def by (rule dvd_trans [of _ 32]) simp_all
  then have drz: "8 dvd unat (?r - ?pa)" unfolding urz by simp
  define sh1 where "sh1 = memset (MEM_TO_SHADOW ?l) kAsanAllocaLeftMagic (drop_bit 3 32) (shadow s)"
  have "8 dvd unat addr" using al(1) by (rule dvd_trans [rotated]) simp
  then have dl: "8 dvd unat ?l" unfolding ul by simp
  have f1: "FastPoisonShadow cf ?l kAllocaRedzoneSize kAsanAllocaLeftMagic (shadow s) = Inr sh1"
    unfolding sh1_def using FastPoisonShadow_memset [OF cf(1), of ?l kAllocaRedzoneSize] dl nw unfolding dvd_eq_mod_eq_0 ul
    by (simp add: kAllocaRedzoneSize_def)
  define sh2 where "sh2 = FastPoisonShadowPartialRightRedzone cf ?pa (?p mod SHADOW_GRANULARITY) (?r - ?pa) kAsanAllocaRightMagic sh1"
  define sh3 where "sh3 = memset (MEM_TO_SHADOW ?r) kAsanAllocaRightMagic (drop_bit 3 32) sh2"
  have f3: "FastPoisonShadow cf ?r kAllocaRedzoneSize kAsanAllocaRightMagic sh2 = Inr sh3"
    unfolding sh3_def kAllocaRedzoneSize_def using d8 nw er(2)
    by (intro FastPoisonShadow_memset [OF cf(1)]) (simp_all add: ur dvd_eq_mod_eq_0 e_def)
  have run: "asan_alloca_poison cf addr sz s = Inr (s\<lparr>shadow := sh3\<rparr>)"
    unfolding asan_alloca_poison_def Let_def f1 bindr.simps sh2_def [symmetric] f3 ..
  have mg: "poisoned_at kAsanAllocaLeftMagic k" "poisoned_at kAsanAllocaRightMagic k" for k
    by (simp_all add: poisoned_at_def kAsanAllocaLeftMagic_def kAsanAllocaRightMagic_def)
  have p1: "AddressIsPoisoned sh1 a \<longleftrightarrow> unat addr - 32 \<le> unat a \<and> unat a < unat addr \<or> AddressIsPoisoned (shadow s) a" for a
    unfolding AddressIsPoisoned_iff sh1_def using memset_granules [OF dl, of 32 "drop_bit 3 32"] nw al(2) mg by (simp add: ul) blast
  have p2: "AddressIsPoisoned sh2 a = (if e div 8 * 8 \<le> unat a \<and> unat a < r then e \<le> unat a else AddressIsPoisoned sh1 a)" for a
    unfolding sh2_def using partial_redzone_poisons [OF cf(2) _ _ drz _ mg(2), of "?p mod SHADOW_GRANULARITY" ?pa e sh1 a] er nw
    by (simp add: um upa urz e_def)
  have p3: "AddressIsPoisoned sh3 a \<longleftrightarrow> r \<le> unat a \<and> unat a < r + 32 \<or> AddressIsPoisoned sh2 a" for a
    unfolding AddressIsPoisoned_iff sh3_def using memset_granules [of ?r 32 "drop_bit 3 32"] d8 nw er(2) mg by (simp add: ur e_def) blast
  have "unat addr \<le> e div 8 * 8" using \<open>8 dvd unat addr\<close> unfolding e_def by (auto elim!: dvdE)
  then show ?thesis using run er by (intro exI [of _ "s\<lparr>shadow := sh3\<rparr>"]) (auto simp: p1 p2 p3)
qed

text \<open>A new object satisfies the invariant and has no frames.\<close>

lemma fake_Create_ok:
  assumes "fake_Create b log m = Inr (fs, m')" and "4096 dvd unat (this fs)" "0 < unat (this fs)" "unat (this fs) < 2 ^ 62"
  shows "fs_inv fs" "live fs = {}"
proof -
  have f: "hint_position fs = replicate 11 0" "flag_bytes fs = (\<lambda>_. 0)" "log_ok (stack_size_log fs)"
    using assms(1) by (auto simp: fake_Create_def Let_def res_simps log_ok_def word_less_nat_alt not_less split: if_splits)
  then show L: "live fs = {}" by (auto simp: live_def)
  have "unat (stack_size_log fs) - 16 \<le> 12" "unat (stack_size_log fs) \<le> 28" using f(3) by (auto simp: log_ok_def)
  then have "(2 :: nat) ^ (unat (stack_size_log fs) - 16) \<le> 2 ^ 12" "(2 :: nat) ^ unat (stack_size_log fs) \<le> 2 ^ 28"
    by (simp_all only: power_increasing_iff one_less_numeral_iff semiring_norm)
  then show "fs_inv fs" using f assms(2-4) L by (simp add: fs_inv_def fs_ok_def)
qed

section \<open>Examples\<close>

definition example_stack :: fake_stack where
  "example_stack = \<lparr>this = 0x10000000, hint_position = replicate 11 0, stack_size_log = 16, needs_gc = True,
     flag_bytes = (\<lambda>_. 0), frame_words = (\<lambda>_. 0)\<rparr>"

lemma example_stack_inv: "fs_inv example_stack" "live example_stack = {}"
  by (simp_all add: fs_inv_def fs_ok_def log_ok_def example_stack_def live_def)

theorem fake_stack_allocate_witness:
  "\<exists>fs' r. fake_Allocate (stack_size_log example_stack) 3 77 example_stack = Inr (fs', r) \<and> fs_inv fs' \<and>
    (let kept = (if needs_gc example_stack then {f \<in> live example_stack. \<not> old_frame 77 example_stack f} else live example_stack);
         c = unat (3 :: uptr) in
       (r = 0 \<and> live fs' = kept \<and> (\<forall>i < n_frames example_stack c. (c, i) \<in> kept))
     \<or> (\<exists>i < n_frames example_stack c. r = framew example_stack c i \<and> r \<noteq> 0 \<and> (c, i) \<notin> kept \<and> live fs' = insert (c, i) kept
          \<and> frame_words fs' (real_stack_field r) = 77
          \<and> (\<forall>(d, j) \<in> kept. unat r + bytes_of c \<le> unat (framew example_stack d j) \<or> unat (framew example_stack d j) + bytes_of d \<le> unat r)))
    \<and> (\<forall>(d, j) \<in> live fs'. fs_inv (fake_Deallocate (framew fs' d j) (of_nat d) fs')
          \<and> live (fake_Deallocate (framew fs' d j) (of_nat d) fs') = live fs' - {(d, j)})"
  by (rule fake_stack_allocate [OF example_stack_inv(1)]) (simp add: fake_consts)

theorem fake_stack_lookup_witness:
  "AddrIsInFakeStack 0x10001900 example_stack = Inr (Some (0x10001900, 0x10001920, 0x10001940))"
proof -
  have f: "frame_addr example_stack 0 4 = 0x10001900"
    by (simp add: frame_addr_def frames_base_def flags_base_def example_stack_def bytes_of_def)
  then have "framew example_stack 0 4 = 0x10001900" by (simp add: framew_def)
  moreover have "BytesInSizeClass 0 = 64" by (simp add: BytesInSizeClass_def shl_def fake_consts push_bit_eq_mult)
  moreover have "4 < n_frames example_stack 0" by (simp add: n_frames_def frames_of_def example_stack_def)
  ultimately show ?thesis
    using fake_stack_lookup [of example_stack "0x10001900"] example_stack_inv(1) f by (auto simp: fs_inv_def bytes_of_def)
qed

theorem use_after_return_witness:
  "let fs = taken example_stack 0 4 77 (replicate 11 0); s = \<lparr>shadow = (\<lambda>_. 0), can_poison_memory = True\<rparr>
   in \<exists>fs' s'. OnFree example_cfg (framew fs 0 4) (of_nat 0) 48 fs s = Inr (fs', s') \<and> fs_inv fs' \<and> live fs' = live fs - {(0, 4)} \<and>
    (\<forall>a. AddressIsPoisoned (shadow s') a \<longleftrightarrow>
      frame_addr fs 0 4 \<le> unat a \<and> unat a < frame_addr fs 0 4 + touched 0 48 \<or> AddressIsPoisoned (shadow s) a)"
proof -
  let ?fs = "taken example_stack 0 4 77 (replicate 11 0)"
  have n: "4 < n_frames example_stack 0" by (simp add: n_frames_def frames_of_def example_stack_def)
  note T = taken_ok [OF example_stack_inv(1) _ n, of "replicate 11 0" 77]
  have "\<forall>b s. mmap_fixed example_cfg b s = b" "page_size example_cfg = 2 ^ 12" by (simp_all add: example_cfg_def)
  then have "cfg_ok example_cfg" unfolding cfg_ok_def by (intro conjI exI [of _ 12]) simp_all
  moreover have "frame_addr ?fs 0 4 = 0x10001900"
    by (simp add: taken_def frame_addr_def frames_base_def flags_base_def example_stack_def bytes_of_def)
  then have "frame_in_mem example_cfg ?fs 0 4" by (auto simp: frame_in_mem_def bytes_of_def AddrIsInMem_def in_low)
  ultimately show ?thesis
    unfolding Let_def using T by (intro use_after_return) (simp_all add: CanPoisonMemory_def)
qed

end
