(* ===== verification/Spec2Isabelle.thy ===== *)
theory Spec2Isabelle
  imports SizeClass HeapSort DList Annotate AliasSeam MedsMalloc MutexEvents Quarantine UserPoison BVGraph FormatText FrameDescr FakeStack
begin

text \<open>
  A verification library for the runtime of MEDS, the memory error detector in this LLVM tree. The
  program is AddressSanitizer with another heap: \<^verbatim>\<open>lib/meds\<close> and \<^verbatim>\<open>lib/sanitizer_common\<close> under
  \<^verbatim>\<open>src/llvm/projects/compiler-rt\<close>. MEDS gives every heap block its own virtual pages and never uses an address
  twice, and lets many virtual pages show parts of one physical page, so that redzones cost address space and not memory.
  The target is Linux on x86-64.

  \<^bold>\<open>The parts and how they interact.\<close> \<^verbatim>\<open>malloc\<close> and its relatives (\<^verbatim>\<open>meds_allocator.cc\<close>) call
  \<^verbatim>\<open>CombinedAliasing\<close>, which serves small requests from \<^verbatim>\<open>AliasingAllocator\<close> and large ones from
  \<^verbatim>\<open>LargeMmapAliasing\<close> (all in \<^verbatim>\<open>sanitizer_aliasing.h\<close>). Both take memory with the wrappers of \<^verbatim>\<open>mmap\<close> in
  \<^verbatim>\<open>sanitizer_posix.cc\<close>; the first one chooses the class of a request with \<^verbatim>\<open>SizeClassMap\<close> and keeps the pages that show a frame in
  \<^verbatim>\<open>DoubleList\<close>s. New mappings are poisoned, and what the client asked for is unpoisoned, in the shadow
  memory (\<^verbatim>\<open>asan_mapping.h\<close>, \<^verbatim>\<open>asan_poisoning.cc\<close>), which the callbacks of the compiler's instrumentation read
  (\<^verbatim>\<open>asan_rtl.cc\<close>). The compiler lays the stack frames out (\<^verbatim>\<open>ASanStackFrameLayout.cpp\<close>) and describes them in a text that the
  reports read. Beside these stand the services of the common runtime: the deadlock detector over bit vector graphs,
  the quarantine, the string functions and the formatter of the messages.

  \<^bold>\<open>Theories\<close>, in the order they build on each other:

  \<^item> \<^theory_text>\<open>Prelude\<close>: machine words, the result type \<^typ>\<open>'a res\<close> of code that may end the process, the type \<^typ>\<open>'a run\<close> of code that
    moreover may not end, their sequencing operations with the collection \<open>res_simps\<close>, facts on words.
  \<^item> \<^theory_text>\<open>SanCommon\<close>, \<^theory_text>\<open>HeapSort\<close>: arithmetic, \<^verbatim>\<open>InternalSort\<close>, \<^verbatim>\<open>InternalLowerBound\<close> of \<^verbatim>\<open>sanitizer_common.h\<close>. Sorting
    gives a sorted permutation; the lower bound is the least one.
  \<^item> \<^theory_text>\<open>SizeClass\<close>: \<^verbatim>\<open>SizeClassMap\<close> for every choice of its parameters that fits a word; the class of a request is the
    least one that holds it, and the self-check \<^verbatim>\<open>Validate\<close> of the three instances passes.
  \<^item> \<^theory_text>\<open>SeqList\<close>, \<^theory_text>\<open>IList\<close>, \<^theory_text>\<open>DList\<close>: \<^verbatim>\<open>sanitizer_list.h\<close> and \<^verbatim>\<open>sanitizer_doublelist.h\<close>. The contract of a queue is the locale
    \<open>seq_list\<close>, interpreted for both; each operation is proved to be its operation on sequences, but for
    \<^verbatim>\<open>DoubleList::append_back\<close>, which breaks the list.
  \<^item> \<^theory_text>\<open>Libc\<close>, \<^theory_text>\<open>CString\<close>: \<^verbatim>\<open>sanitizer_libc.cc\<close>. \<^verbatim>\<open>mem_is_zero\<close>, \<^verbatim>\<open>memmove\<close> with overlap, \<^verbatim>\<open>strlen\<close>, \<^verbatim>\<open>strchr\<close>, \<^verbatim>\<open>strcmp\<close>, \<^verbatim>\<open>strtoll\<close>.
  \<^item> \<^theory_text>\<open>Shadow\<close>, \<^theory_text>\<open>Poison\<close>, \<^theory_text>\<open>UserPoison\<close>, \<^theory_text>\<open>Annotate\<close>: the shadow mapping, poisoning and its queries, the access checks,
    the annotation of containers. \<^typ>\<open>cfg\<close> holds the globals that startup computes and the flags. The theorems say which bytes
    are addressable after each operation and that the checks agree with that.
  \<^item> \<^theory_text>\<open>Vm\<close>: the page table, the frames and the system calls. A page shows a frame by a shared or a private mapping, or is
    reserved. The fields \<open>mmap_error\<close> and \<open>mmap_pick\<close> say which calls fail and where the kernel maps, so failures are covered.
  \<^item> \<^theory_text>\<open>Aliasing\<close>: the state and all operations of \<^verbatim>\<open>AliasingAllocator\<close>. \<^theory_text>\<open>AliasVirt\<close>: the invariant on addresses;
    \<^theory_text>\<open>AliasPhys\<close>: the invariant on frames; \<^theory_text>\<open>AliasIso\<close>: runs of any threads, live blocks share no byte;
    \<^theory_text>\<open>AliasDead\<close>: freed blocks fault; \<^theory_text>\<open>AliasSeam\<close>: the first mapping of a
    new page is missing from the list of the page, which ends in a null dereference.
  \<^item> \<^theory_text>\<open>AllocStats\<close>: the ring of statistics. \<^theory_text>\<open>LargeMmap\<close>: the secondary allocator, its invariant, both lookups.
    \<^theory_text>\<open>Meds\<close>, \<^theory_text>\<open>MedsMalloc\<close>: the combined allocator and the allocator front end, and what \<^verbatim>\<open>malloc\<close> and \<^verbatim>\<open>free\<close> do to the shadow.
  \<^item> \<^theory_text>\<open>BitVector\<close>, \<^theory_text>\<open>TwoLevel\<close>, \<^theory_text>\<open>BitSet\<close>, \<^theory_text>\<open>BVGraph\<close>: bit vectors as finite sets, graphs over them. The locale
    \<open>bitvec\<close> is what the templates need of their parameter \<^verbatim>\<open>BV\<close>; it is interpreted for both bit vectors of the source. The searches end;
    the shortest path is shortest.
  \<^item> \<^theory_text>\<open>Deadlock\<close>, \<^theory_text>\<open>LockGraph\<close>, \<^theory_text>\<open>LockRuns\<close>: \<^verbatim>\<open>sanitizer_deadlock_detector.h\<close> in the locale \<open>detector\<close>, interpreted for the
    sizes the source uses; its invariant in all runs of threads that keep the rules of the interface. \<^theory_text>\<open>MutexEvents\<close>:
    \<^verbatim>\<open>sanitizer_deadlock_detector1.cc\<close>, the events of mutexes and the reports.
  \<^item> \<^theory_text>\<open>Quarantine\<close>: \<^verbatim>\<open>sanitizer_quarantine.h\<close>; no chunk is lost, the order is kept, the limits hold.
  \<^item> \<^theory_text>\<open>Printf\<close>, \<^theory_text>\<open>FormatText\<close>: the formatter, and the text of a format defined without a buffer; every call ends,
    stays in its buffer, stores as much of that text as fits and returns its length.
  \<^item> \<^theory_text>\<open>FrameLayout\<close>, \<^theory_text>\<open>FrameDescr\<close>: the layout of stack frames and its shadow bytes, which forbid exactly the redzones; the
    description of a frame, its reader in \<^verbatim>\<open>asan_report.cc\<close>, and the choice of the variable a report blames. The bounds on
    the input (variables below 4G, at most a million of them) keep the frame below \<open>2 ^ 62\<close> bytes.
  \<^item> \<^theory_text>\<open>FakeStack\<close>: \<^verbatim>\<open>asan_fake_stack.cc\<close>, the frames that catch uses after return: allocation, collection, release, lookup, and their
    shadow. The stack size is between \<open>2 ^ 16\<close> and \<open>2 ^ 28\<close>, as \<^verbatim>\<open>Create\<close> ensures.

  \<^bold>\<open>Conventions.\<close> A definition has the name of the function it models, with a prefix where the name is
  taken (\<open>il_\<close>, \<open>dl_\<close> for the lists, \<open>large_\<close>, \<open>comb_\<close>, \<open>meds_\<close> for the allocators, \<open>bv_\<close>, \<open>t_\<close> for the bit vectors, \<open>g_\<close>
  for the graph, \<open>tls_\<close>, \<open>dd_\<close> for the detector). An object is a record, an address a 64-bit word with 0 as null, a failed
  \<^verbatim>\<open>CHECK\<close>, a death, a fault and an access past the end of an array are values of the type \<^typ>\<open>abort\<close>.
  An operation takes the state and returns it changed. Loops are structural where the code
  counts, functions with a measure where a pointer moves to a bound, and partial functions into
  \<^typ>\<open>'a option\<close> where the end depends on the data; then a theorem says that the result is not \<^const>\<open>None\<close>. No definition uses fuel.

  \<^bold>\<open>What the model assumes.\<close>
  \<^item> An operation is one step. Its critical sections are not interleaved with those of other threads, so races are not
    covered; sequences of operations of different threads are.
  \<^item> \<^verbatim>\<open>InternalAlloc\<close> gives fresh objects, filled with zeros, whose addresses are not used for anything else.
    The memory of the runtime itself does not overlap that of its client.
  \<^item> \<^verbatim>\<open>AddrHashMap\<close> is a map.
  \<^item> The shadow is a map of its own and not part of the frames; flushing a range of shadow pages sets it to zero.
  \<^item> The callbacks of \<^verbatim>\<open>Quarantine\<close> and of the deadlock detector do not change during an operation, and
    do not call back into it.
  \<^item> The string functions read a memory in which every address can be read.
  \<^item> Each thread has one object of statistics.
  \<^item> The wrappers of \<^verbatim>\<open>mmap\<close> do not count the memory they map and have no limit on it (\<^verbatim>\<open>IncreaseTotalMmap\<close>).
  \<^item> \<^verbatim>\<open>large_Deallocate\<close> reads the header before a pointer from a total map of headers, also for a pointer that is no block; the checks
    on the index it finds there are the ones of the code.
  \<^item> A format is a list, so that it is not null (\<^verbatim>\<open>RAW_CHECK(format)\<close>) and output over the format is not covered. The
    negation of the least 64-bit number in \<^verbatim>\<open>AppendSignedDecimal\<close>, undefined in C++, wraps.
  \<^item> A report of the deadlock detector with an empty path prints a warning, which is left out.
  \<^item> A fake stack keeps its memory in its own record, the flags as bytes and the fields in the frames as words, apart from the pages
    of \<^theory_text>\<open>Vm\<close>; the program does not write to the last word of a frame.

  \<^bold>\<open>Not modelled.\<close> Everything that only prints or reports (\<^verbatim>\<open>asan_report.cc\<close>, \<^verbatim>\<open>asan_errors.cc\<close>, \<^verbatim>\<open>asan_descriptions.cc\<close>,
  the symbolizer, but for what \<^theory_text>\<open>FrameDescr\<close> holds; a report is the value \<open>Reported\<close>), the interceptors and other
  glue to the C library, startup and the flags, threads, the reading of \<^verbatim>\<open>/proc\<close>, the relocation code \<^verbatim>\<open>meds_reloc.cc\<close>, other platforms, and the
  compiler itself, but for the layout of stack frames: the instrumentation \<^verbatim>\<open>AddressSanitizer.cpp\<close> works on the
  intermediate representation, which is a program of its own size. The allocator of \<^verbatim>\<open>asan_allocator.cc\<close> is not
  used by MEDS, but for the callbacks of mappings, which are modelled. The locks are held for whole operations and so do not appear, except where the code asks for
  their state.
\<close>

end
